(* ===== verification/Prelude.thy ===== *)
theory Prelude
  imports Main "HOL-Library.Word"
begin

text \<open>
  The prelude of the development.

  \<^item> The machine types of the Rust sources: \<open>u8\<close> to \<open>u128\<close> are words of their width, \<open>usize\<close> is a
    natural number with its 64-bit bound written out where the code can meet it, a byte string and
    a fixed array \<open>[u8; n]\<close> are lists of bytes (an array carries its length as a hypothesis).
  \<^item> \<open>res\<close>, the outcome of a Rust function: a value (\<open>Ok\<close>), a returned error (\<open>Err\<close>), or a panic.
    \<open>and_then\<close> is the question mark operator, \<open>and_then_st\<close> the same operator inside a method that
    has the state \<open>&mut self\<close>.
  \<^item> The integer operations the sources use beside the wrapping ones: saturating and checked.
  \<^item> Little-endian encodings with their two round trips.
  \<^item> Collisions of a hash on given strings.
\<close>

section \<open>Types\<close>

type_synonym u8 = "8 word"
type_synonym u16 = "16 word"
type_synonym u32 = "32 word"
type_synonym u64 = "64 word"
type_synonym u128 = "128 word"
type_synonym usize = nat
type_synonym bytes = "8 word list"

abbreviation usize_max :: nat where
  "usize_max \<equiv> 2 ^ 64 - 1"

section \<open>Outcomes\<close>

datatype ('e, 'a) res = Ok 'a | Err 'e | Panic

fun and_then :: "('e, 'a) res \<Rightarrow> ('a \<Rightarrow> ('e, 'b) res) \<Rightarrow> ('e, 'b) res" where
  "and_then (Ok a) f = f a"
| "and_then (Err e) f = Err e"
| "and_then Panic f = Panic"

fun and_then_st ::
  "('e, 'a) res \<Rightarrow> 's \<Rightarrow> ('a \<Rightarrow> 's \<times> ('e, 'b) res) \<Rightarrow> 's \<times> ('e, 'b) res" where
  "and_then_st (Ok a) s f = f a"
| "and_then_st (Err e) s f = (s, Err e)"
| "and_then_st Panic s f = (s, Panic)"

fun map_ok :: "('a \<Rightarrow> 'b) \<Rightarrow> ('e, 'a) res \<Rightarrow> ('e, 'b) res" where
  "map_ok f (Ok a) = Ok (f a)"
| "map_ok f (Err e) = Err e"
| "map_ok f Panic = Panic"

fun map_err :: "('e \<Rightarrow> 'f) \<Rightarrow> ('e, 'a) res \<Rightarrow> ('f, 'a) res" where
  "map_err f (Ok a) = Ok a"
| "map_err f (Err e) = Err (f e)"
| "map_err f Panic = Panic"

fun ok_or :: "'e \<Rightarrow> 'a option \<Rightarrow> ('e, 'a) res" where
  "ok_or e (Some a) = Ok a"
| "ok_or e None = Err e"

fun is_ok :: "('e, 'a) res \<Rightarrow> bool" where
  "is_ok (Ok a) = True"
| "is_ok r = False"

lemma and_then_Ok_iff: "and_then m f = Ok b \<longleftrightarrow> (\<exists>a. m = Ok a \<and> f a = Ok b)"
  by (cases m) auto

lemma and_then_Panic_iff: "and_then m f = Panic \<longleftrightarrow> m = Panic \<or> (\<exists>a. m = Ok a \<and> f a = Panic)"
  by (cases m) auto

lemma and_then_st_Ok_iff:
  "and_then_st m s f = (s', Ok b) \<longleftrightarrow> (\<exists>a. m = Ok a \<and> f a = (s', Ok b))"
  by (cases m) auto

lemma map_ok_Err_iff: "map_ok f m = Err e \<longleftrightarrow> m = Err e"
  by (cases m) auto

lemma map_ok_Ok_iff: "map_ok f m = Ok b \<longleftrightarrow> (\<exists>a. m = Ok a \<and> b = f a)"
  by (cases m) auto

lemma map_err_Ok_iff: "map_err f m = Ok a \<longleftrightarrow> m = Ok a"
  by (cases m) auto

lemma map_err_Panic_iff: "map_err f m = Panic \<longleftrightarrow> m = Panic"
  by (cases m) auto

lemma map_ok_Panic_iff: "map_ok f m = Panic \<longleftrightarrow> m = Panic"
  by (cases m) auto

lemma ok_or_Ok_iff: "ok_or e m = Ok a \<longleftrightarrow> m = Some a"
  by (cases m) auto

lemma ok_or_not_Panic [simp]: "ok_or e m \<noteq> Panic"
  by (cases m) auto

lemma is_ok_iff: "is_ok m \<longleftrightarrow> (\<exists>a. m = Ok a)"
  by (cases m) auto

lemmas res_iffs = and_then_Ok_iff and_then_Panic_iff and_then_st_Ok_iff map_ok_Ok_iff
  map_err_Ok_iff map_err_Panic_iff map_ok_Panic_iff ok_or_Ok_iff

section \<open>Saturating and checked arithmetic\<close>

definition sat_add :: "'l::len word \<Rightarrow> 'l word \<Rightarrow> 'l word" where
  "sat_add a b = (if unat a + unat b < 2 ^ LENGTH('l) then a + b else - 1)"

definition sat_sub :: "'l::len word \<Rightarrow> 'l word \<Rightarrow> 'l word" where
  "sat_sub a b = (if b \<le> a then a - b else 0)"

definition checked_add :: "'l::len word \<Rightarrow> 'l word \<Rightarrow> 'l word option" where
  "checked_add a b = (if unat a + unat b < 2 ^ LENGTH('l) then Some (a + b) else None)"

definition sat_mul_usize :: "usize \<Rightarrow> usize \<Rightarrow> usize" where
  "sat_mul_usize a b = min (a * b) usize_max"

lemma unat_minus_one_word: "unat (- 1 :: 'l::len word) = 2 ^ LENGTH('l) - 1"
  by (simp add: unsigned_minus_1_eq_mask mask_eq_exp_minus_1)

lemma unat_plus_no_overflow:
  fixes a b :: "'l::len word"
  assumes "unat a + unat b < 2 ^ LENGTH('l)"
  shows "unat (a + b) = unat a + unat b"
  using assms by (simp add: unat_word_ariths)

lemma unat_sat_add:
  fixes a b :: "'l::len word"
  shows "unat (sat_add a b) = min (unat a + unat b) (2 ^ LENGTH('l) - 1)"
proof (cases "unat a + unat b < 2 ^ LENGTH('l)")
  case True
  then show ?thesis by (simp add: sat_add_def unat_plus_no_overflow)
next
  case False
  then show ?thesis by (simp add: sat_add_def unat_minus_one_word)
qed

lemma unat_sat_add_le: "unat (sat_add a b) \<le> unat a + unat b"
  by (simp add: unat_sat_add)

lemma sat_add_ge: "a \<le> sat_add a b"
proof -
  have "unat a < 2 ^ LENGTH('a)" by (rule unsigned_less)
  then have "unat a \<le> 2 ^ LENGTH('a) - 1" by linarith
  then show ?thesis by (simp add: word_le_nat_alt unat_sat_add)
qed

lemma sat_add_0 [simp]: "sat_add a 0 = a" "sat_add 0 a = a"
  by (simp_all add: sat_add_def)

lemma unat_sat_sub: "unat (sat_sub a b) = unat a - unat b"
  by (auto simp: sat_sub_def unat_sub word_le_nat_alt)

lemma checked_add_Some_iff:
  "checked_add a b = Some c \<longleftrightarrow> unat c = unat a + unat b"
  for a b c :: "'l::len word"
proof
  assume "checked_add a b = Some c"
  then show "unat c = unat a + unat b"
    by (auto simp: checked_add_def unat_plus_no_overflow split: if_splits)
next
  assume c: "unat c = unat a + unat b"
  moreover have "unat c < 2 ^ LENGTH('l)" by (rule unsigned_less)
  ultimately show "checked_add a b = Some c"
    by (auto simp: checked_add_def word_unat_eq_iff unat_plus_no_overflow)
qed

section \<open>Little-endian encodings\<close>

fun le_bytes :: "nat \<Rightarrow> nat \<Rightarrow> bytes" where
  "le_bytes 0 v = []"
| "le_bytes (Suc n) v = word_of_nat v # le_bytes n (v div 256)"

fun le_nat :: "bytes \<Rightarrow> nat" where
  "le_nat [] = 0"
| "le_nat (b # bs) = unat b + 256 * le_nat bs"

lemma length_le_bytes [simp]: "length (le_bytes n v) = n"
  by (induction n arbitrary: v) auto

lemma unat_word_of_nat_8: "unat (word_of_nat v :: u8) = v mod 256"
  by (simp add: unat_of_nat)

lemma le_nat_le_bytes: "le_nat (le_bytes n v) = v mod 256 ^ n"
proof (induction n arbitrary: v)
  case 0
  then show ?case by simp
next
  case (Suc n)
  have "v mod 256 + 256 * (v div 256 mod 256 ^ n) = v mod (256 * 256 ^ n)"
    by (simp add: mod_mult2_eq)
  with Suc show ?case by (simp add: unat_word_of_nat_8)
qed

lemma le_nat_less: "le_nat bs < 256 ^ length bs"
proof (induction bs)
  case Nil
  then show ?case by simp
next
  case (Cons b bs)
  have "unat b < 256" using unsigned_less [of b] by simp
  with Cons show ?case by simp
qed

lemma le_bytes_le_nat: "le_bytes (length bs) (le_nat bs) = bs"
proof (induction bs)
  case Nil
  then show ?case by simp
next
  case (Cons b bs)
  have b: "unat b < 256" using unsigned_less [of b] by simp
  then have "(unat b + 256 * le_nat bs) div 256 = le_nat bs" by simp
  moreover have "(word_of_nat (unat b + 256 * le_nat bs) :: u8) = b"
    using b by (simp add: word_eq_iff_unsigned [where 'a = nat] unat_word_ariths)
  ultimately show ?case using Cons by simp
qed

text \<open>\<open>to_le_bytes\<close> and \<open>from_le_bytes\<close> of a word type.\<close>

definition to_le_bytes :: "'l::len word \<Rightarrow> bytes" where
  "to_le_bytes w = le_bytes (LENGTH('l) div 8) (unat w)"

definition from_le_bytes :: "bytes \<Rightarrow> 'l::len word" where
  "from_le_bytes bs = word_of_nat (le_nat bs)"

lemma length_to_le_bytes [simp]: "length (to_le_bytes (w :: 'l::len word)) = LENGTH('l) div 8"
  by (simp add: to_le_bytes_def)

lemma pow_256: "256 ^ n = (2::nat) ^ (8 * n)"
  by (simp add: power_mult)

lemma from_to_le_bytes:
  assumes "8 dvd LENGTH('l)"
  shows "from_le_bytes (to_le_bytes (w :: 'l::len word)) = w"
proof -
  have "(256::nat) ^ (LENGTH('l) div 8) = 2 ^ LENGTH('l)"
    using assms by (simp add: pow_256)
  moreover have "unat w < 2 ^ LENGTH('l)" by (rule unsigned_less)
  ultimately show ?thesis
    by (simp add: from_le_bytes_def to_le_bytes_def le_nat_le_bytes)
qed

lemma to_from_le_bytes:
  assumes "8 dvd LENGTH('l)" and "length bs = LENGTH('l) div 8"
  shows "to_le_bytes (from_le_bytes bs :: 'l::len word) = bs"
proof -
  have "le_nat bs < 2 ^ LENGTH('l)"
    using le_nat_less [of bs] assms by (simp add: pow_256)
  then have "unat (from_le_bytes bs :: 'l word) = le_nat bs"
    by (simp add: from_le_bytes_def unat_of_nat)
  then show ?thesis
    using le_bytes_le_nat [of bs] assms(2) by (simp add: to_le_bytes_def)
qed

section \<open>Collisions\<close>

text \<open>The statements about hashes name the strings that were hashed: \<open>collides h A B\<close> says that the hash takes
  the same value on two different strings, one of \<open>A\<close> and one of \<open>B\<close>.\<close>

definition collides :: "(bytes \<Rightarrow> bytes) \<Rightarrow> bytes set \<Rightarrow> bytes set \<Rightarrow> bool" where
  "collides h A B \<longleftrightarrow> (\<exists>x \<in> A. \<exists>y \<in> B. x \<noteq> y \<and> h x = h y)"

lemma collides_mono: "collides h A B \<Longrightarrow> A \<subseteq> A' \<Longrightarrow> B \<subseteq> B' \<Longrightarrow> collides h A' B'"
  unfolding collides_def by blast

lemma unat_ucast_u128: "unat (ucast (w :: u64) :: u128) = unat w"
proof -
  have "unat w < 2 ^ 64" using unsigned_less [of w] by simp
  then show ?thesis by (simp add: unsigned_ucast_eq take_bit_nat_eq_self)
qed

end
