(* ===== verification/Cursor.thy ===== *)
theory Cursor
  imports Prelude
begin

text \<open>
  Reading from a byte slice at a moving position. The codec's \<open>Reader\<close>
  (\<^verbatim>\<open>crates/q-codec/src/lib.rs\<close>) and the Bitcoin \<open>Cursor\<close>
  (\<^verbatim>\<open>crates/qlc-bitcoin/src/tx.rs\<close>) both are a slice and a position, so they share the record
  \<open>cursor\<close>; a method \<open>&mut self -> Result\<close> is a function from the cursor to a \<open>res\<close> of a value and
  the moved cursor, and \<open>rd_bind\<close> chains such calls with the question mark operator.

  \<open>reads d a bs\<close> is the specification of a decoder: in front of the bytes \<open>bs\<close> it returns \<open>a\<close> and
  consumes exactly \<open>bs\<close>. The locale \<open>field_codec\<close> is the contract between a decoder and its encoder
  (complete, sound, total); its client lemmas give unique decodability and the loops that read a
  counted sequence, and \<open>codec_pair\<close> composes two fields into one.
\<close>

record cursor =
  cbuf :: bytes
  cpos :: usize

type_synonym ('e, 'a) reading = "cursor \<Rightarrow> ('e, 'a \<times> cursor) res"

definition cursor_new :: "bytes \<Rightarrow> cursor" where
  "cursor_new bs = \<lparr>cbuf = bs, cpos = 0\<rparr>"

text \<open>What every reachable cursor satisfies: it is inside a slice of at most \<open>usize::MAX\<close> bytes.\<close>

definition cur_ok :: "cursor \<Rightarrow> bool" where
  "cur_ok c \<longleftrightarrow> cpos c \<le> length (cbuf c) \<and> length (cbuf c) \<le> usize_max"

definition rest :: "cursor \<Rightarrow> bytes" where
  "rest c = drop (cpos c) (cbuf c)"

text \<open>The slice expression \<open>buf[a..b]\<close> panics outside the buffer.\<close>

definition slice :: "bytes \<Rightarrow> nat \<Rightarrow> nat \<Rightarrow> ('e, bytes) res" where
  "slice bs a b = (if a \<le> b \<and> b \<le> length bs then Ok (take (b - a) (drop a bs)) else Panic)"

text \<open>Bounds check and advance of the position, with the error of the reader.\<close>

definition cursor_advance :: "'e \<Rightarrow> nat \<Rightarrow> cursor \<Rightarrow> ('e, usize) res" where
  "cursor_advance e n c =
     (if cpos c + n > usize_max then Err e
      else if cpos c + n > length (cbuf c) then Err e
      else Ok (cpos c + n))"

definition cursor_take :: "'e \<Rightarrow> nat \<Rightarrow> ('e, bytes) reading" where
  "cursor_take e n c =
     and_then (cursor_advance e n c) (\<lambda>end.
     and_then (slice (cbuf c) (cpos c) end) (\<lambda>s.
     Ok (s, c\<lparr>cpos := end\<rparr>)))"

definition rd_return :: "'a \<Rightarrow> ('e, 'a) reading" where
  "rd_return a c = Ok (a, c)"

definition rd_fail :: "'e \<Rightarrow> ('e, 'a) reading" where
  "rd_fail e c = Err e"

definition rd_bind ::
  "('e, 'a) reading \<Rightarrow> ('a \<Rightarrow> ('e, 'b) reading) \<Rightarrow> ('e, 'b) reading" where
  "rd_bind d f c = and_then (d c) (\<lambda>(a, c'). f a c')"

text \<open>The loop \<open>for _ in 0..n\<close> whose body reads and updates an accumulator.\<close>

fun rd_loop :: "nat \<Rightarrow> ('acc \<Rightarrow> ('e, 'acc) reading) \<Rightarrow> 'acc \<Rightarrow> ('e, 'acc) reading" where
  "rd_loop 0 body acc = rd_return acc"
| "rd_loop (Suc n) body acc = rd_bind (body acc) (rd_loop n body)"

definition rd_pair :: "('e, 'a) reading \<Rightarrow> ('e, 'b) reading \<Rightarrow> ('e, 'a \<times> 'b) reading" where
  "rd_pair d1 d2 = rd_bind d1 (\<lambda>a. rd_bind d2 (\<lambda>b. rd_return (a, b)))"

text \<open>A call whose error is converted by \<open>map_err\<close> or by \<open>From\<close>.\<close>

definition rd_map_err :: "('e \<Rightarrow> 'f) \<Rightarrow> ('e, 'a) reading \<Rightarrow> ('f, 'a) reading" where
  "rd_map_err g d c = map_err g (d c)"

section \<open>The specification of a decoder\<close>

definition reads :: "('e, 'a) reading \<Rightarrow> 'a \<Rightarrow> bytes \<Rightarrow> bool" where
  "reads d a bs \<longleftrightarrow>
     (\<forall>c s. cur_ok c \<and> rest c = bs @ s \<longrightarrow>
        (\<exists>c'. d c = Ok (a, c') \<and> cur_ok c' \<and> cbuf c' = cbuf c \<and> rest c' = s))"

text \<open>A decoder that stays inside its slice and never panics.\<close>

definition safe :: "('e, 'a) reading \<Rightarrow> bool" where
  "safe d \<longleftrightarrow>
     (\<forall>c. cur_ok c \<longrightarrow> d c \<noteq> Panic \<and>
        (\<forall>a c'. d c = Ok (a, c') \<longrightarrow> cur_ok c' \<and> cbuf c' = cbuf c \<and> cpos c \<le> cpos c'))"

text \<open>The converse of \<open>reads\<close>: whatever the decoder returns, it consumed bytes related to it by \<open>Q\<close>.\<close>

definition parses :: "('e, 'a) reading \<Rightarrow> ('a \<Rightarrow> bytes \<Rightarrow> bool) \<Rightarrow> bool" where
  "parses d Q \<longleftrightarrow>
     (\<forall>c a c'. cur_ok c \<and> d c = Ok (a, c') \<longrightarrow>
        cur_ok c' \<and> (\<exists>bs. rest c = bs @ rest c' \<and> Q a bs))"

named_theorems safe_intros
named_theorems parses_intros

lemma rest_cursor_new [simp]: "rest (cursor_new bs) = bs"
  by (simp add: cursor_new_def rest_def)

lemma cbuf_cursor_new [simp]: "cbuf (cursor_new bs) = bs"
  by (simp add: cursor_new_def)

lemma cur_ok_cursor_new [simp]: "cur_ok (cursor_new bs) \<longleftrightarrow> length bs \<le> usize_max"
  by (simp add: cursor_new_def cur_ok_def)

lemma rest_Nil_iff: "cur_ok c \<Longrightarrow> rest c = [] \<longleftrightarrow> cpos c = length (cbuf c)"
  by (auto simp: cur_ok_def rest_def)

lemma length_rest: "length (rest c) = length (cbuf c) - cpos c"
  by (simp add: rest_def)

lemma readsD:
  assumes "reads d a bs" and "cur_ok c" and "rest c = bs @ s"
  obtains c' where "d c = Ok (a, c')" "cur_ok c'" "cbuf c' = cbuf c" "rest c' = s"
proof -
  from assms(1) have "cur_ok c \<and> rest c = bs @ s \<longrightarrow>
      (\<exists>c'. d c = Ok (a, c') \<and> cur_ok c' \<and> cbuf c' = cbuf c \<and> rest c' = s)"
    unfolding reads_def by (elim allE)
  with assms(2,3) have "\<exists>c'. d c = Ok (a, c') \<and> cur_ok c' \<and> cbuf c' = cbuf c \<and> rest c' = s"
    by simp
  then show thesis by (elim exE conjE) (rule that)
qed

lemma reads_whole:
  assumes "reads d a bs" and "length bs \<le> usize_max"
  obtains c' where "d (cursor_new bs) = Ok (a, c')" "cpos c' = length (cbuf c')"
proof -
  from assms(2) have "cur_ok (cursor_new bs)" "rest (cursor_new bs) = bs @ []" by auto
  from readsD [OF assms(1) this] obtain c'
    where c': "d (cursor_new bs) = Ok (a, c')" "cur_ok c'" "rest c' = []" .
  then have "cpos c' = length (cbuf c')" by (simp add: rest_Nil_iff)
  with c' that show thesis by blast
qed

lemma safe_Panic: "safe d \<Longrightarrow> cur_ok c \<Longrightarrow> d c \<noteq> Panic"
  by (simp add: safe_def)

lemma safe_Ok:
  "safe d \<Longrightarrow> cur_ok c \<Longrightarrow> d c = Ok (a, c') \<Longrightarrow>
     cur_ok c' \<and> cbuf c' = cbuf c \<and> cpos c \<le> cpos c'"
  unfolding safe_def by blast

lemma reads_return: "reads (rd_return a) a []"
  by (simp add: reads_def rd_return_def)

lemma reads_returnI: "b = a \<Longrightarrow> reads (rd_return a) b []"
  by (simp add: reads_return)

lemma reads_bind:
  assumes "reads d a bs" and "reads (f a) b cs"
  shows "reads (rd_bind d f) b (bs @ cs)"
  unfolding reads_def
proof (intro allI impI)
  fix c s assume c: "cur_ok c \<and> rest c = (bs @ cs) @ s"
  then have "cur_ok c" "rest c = bs @ cs @ s" by auto
  from readsD [OF assms(1) this] obtain c1
    where c1: "d c = Ok (a, c1)" "cur_ok c1" "cbuf c1 = cbuf c" "rest c1 = cs @ s" .
  from readsD [OF assms(2) c1(2) c1(4)] obtain c2
    where "f a c1 = Ok (b, c2)" "cur_ok c2" "cbuf c2 = cbuf c1" "rest c2 = s" .
  with c1 show "\<exists>c'. rd_bind d f c = Ok (b, c') \<and> cur_ok c' \<and> cbuf c' = cbuf c \<and> rest c' = s"
    by (simp add: rd_bind_def)
qed

lemma reads_bind_last:
  assumes "reads d a bs" and "reads (f a) b []"
  shows "reads (rd_bind d f) b bs"
  using reads_bind [of d a bs f b "[]"] assms by simp

lemma reads_bind_first:
  assumes "reads d a []" and "reads (f a) b bs"
  shows "reads (rd_bind d f) b bs"
  using reads_bind [of d a "[]" f b bs] assms by simp

lemma safe_return [safe_intros]: "safe (rd_return a)"
  by (simp add: safe_def rd_return_def)

lemma safe_fail [safe_intros]: "safe (rd_fail e)"
  by (simp add: safe_def rd_fail_def)

lemma safe_bind [safe_intros]:
  assumes "safe d" and "\<And>a. safe (f a)"
  shows "safe (rd_bind d f)"
  unfolding safe_def rd_bind_def
proof (intro allI impI conjI)
  fix c assume c: "cur_ok c"
  show "and_then (d c) (\<lambda>(a, c'). f a c') \<noteq> Panic"
    using safe_Panic [OF assms(1) c] safe_Ok [OF assms(1) c] safe_Panic [OF assms(2)]
    by (auto simp: and_then_Panic_iff)
next
  fix c b c2 assume c: "cur_ok c" and "and_then (d c) (\<lambda>(a, c'). f a c') = Ok (b, c2)"
  then obtain a c1 where d: "d c = Ok (a, c1)" and f: "f a c1 = Ok (b, c2)"
    by (auto simp: and_then_Ok_iff)
  from safe_Ok [OF assms(1) c d] have c1: "cur_ok c1" "cbuf c1 = cbuf c" "cpos c \<le> cpos c1" by auto
  from safe_Ok [OF assms(2) c1(1) f]
  have "cur_ok c2" "cbuf c2 = cbuf c1" "cpos c1 \<le> cpos c2" by auto
  with c1 show "cur_ok c2" "cbuf c2 = cbuf c" "cpos c \<le> cpos c2" by auto
qed

lemma safe_if [safe_intros]: "(b \<Longrightarrow> safe d1) \<Longrightarrow> (\<not> b \<Longrightarrow> safe d2) \<Longrightarrow> safe (if b then d1 else d2)"
  by simp

lemma safe_loop [safe_intros]: "(\<And>acc. safe (body acc)) \<Longrightarrow> safe (rd_loop n body acc)"
  by (induction n arbitrary: acc) (auto intro: safe_intros)

lemma safe_pair [safe_intros]: "safe d1 \<Longrightarrow> safe d2 \<Longrightarrow> safe (rd_pair d1 d2)"
  unfolding rd_pair_def by (intro safe_intros)

lemma cursor_take_eq:
  assumes "cur_ok c"
  shows "cursor_take e n c =
     (if n \<le> length (rest c) then Ok (take n (rest c), c\<lparr>cpos := cpos c + n\<rparr>) else Err e)"
  using assms by (auto simp: cursor_take_def cursor_advance_def slice_def cur_ok_def rest_def)

lemma rest_advance: "rest (c\<lparr>cpos := cpos c + n\<rparr>) = drop n (rest c)"
  by (simp add: rest_def add.commute)

lemma cur_ok_advance: "cur_ok c \<Longrightarrow> n \<le> length (rest c) \<Longrightarrow> cur_ok (c\<lparr>cpos := cpos c + n\<rparr>)"
  by (auto simp: cur_ok_def rest_def)

lemma cursor_take_safe [safe_intros]: "safe (cursor_take e n)"
  unfolding safe_def
  by (auto simp: cursor_take_eq cur_ok_advance split: if_splits)

lemma reads_take: "length bs = n \<Longrightarrow> reads (cursor_take e n) bs bs"
  by (auto simp: reads_def cursor_take_eq cur_ok_advance rest_advance)

lemma cursor_take_OkD:
  assumes "cur_ok c" and "cursor_take e n c = Ok (bs, c')"
  shows "cur_ok c' \<and> cbuf c' = cbuf c \<and> length bs = n \<and> rest c = bs @ rest c'"
  using assms by (auto simp: cursor_take_eq cur_ok_advance rest_advance split: if_splits)

lemma parsesD:
  assumes "parses d Q" "cur_ok c" "d c = Ok (a, c')"
  obtains bs where "cur_ok c'" "rest c = bs @ rest c'" "Q a bs"
proof -
  have "cur_ok c' \<and> (\<exists>bs. rest c = bs @ rest c' \<and> Q a bs)"
    using assms unfolding parses_def by blast
  then show thesis by (elim exE conjE) (rule that)
qed

lemma parses_return [parses_intros]: "Q a [] \<Longrightarrow> parses (rd_return a) Q"
  by (simp add: parses_def rd_return_def)

lemma parses_fail [parses_intros]: "parses (rd_fail e) Q"
  by (simp add: parses_def rd_fail_def)

lemma parses_if [parses_intros]:
  "(b \<Longrightarrow> parses d1 Q) \<Longrightarrow> (\<not> b \<Longrightarrow> parses d2 Q) \<Longrightarrow> parses (if b then d1 else d2) Q"
  by simp

lemma parses_bind:
  assumes "parses d R" and "\<And>a bs. R a bs \<Longrightarrow> parses (f a) (\<lambda>b cs. Q b (bs @ cs))"
  shows "parses (rd_bind d f) Q"
  unfolding parses_def
proof (intro allI impI)
  fix c b c2 assume c: "cur_ok c \<and> rd_bind d f c = Ok (b, c2)"
  then obtain a c1 where d: "d c = Ok (a, c1)" and f: "f a c1 = Ok (b, c2)"
    by (auto simp: rd_bind_def and_then_Ok_iff)
  from c have "cur_ok c" by simp
  from parsesD [OF assms(1) this d] obtain bs
    where bs: "cur_ok c1" "rest c = bs @ rest c1" "R a bs" .
  from parsesD [OF assms(2) [OF bs(3)] bs(1) f] obtain cs
    where "cur_ok c2" "rest c1 = cs @ rest c2" "Q b (bs @ cs)" .
  with bs(2) show "cur_ok c2 \<and> (\<exists>bs. rest c = bs @ rest c2 \<and> Q b bs)" by auto
qed

lemma parses_mono:
  assumes "parses d Q" and "\<And>a bs. Q a bs \<Longrightarrow> R a bs"
  shows "parses d R"
  unfolding parses_def
proof (intro allI impI)
  fix c a c' assume c: "cur_ok c \<and> d c = Ok (a, c')"
  then have "cur_ok c" "d c = Ok (a, c')" by auto
  from parsesD [OF assms(1) this] obtain bs where "cur_ok c'" "rest c = bs @ rest c'" "Q a bs" .
  with assms(2) show "cur_ok c' \<and> (\<exists>bs. rest c = bs @ rest c' \<and> R a bs)" by blast
qed

lemma parses_whole:
  assumes "parses d Q" "length bs \<le> usize_max" "d (cursor_new bs) = Ok (a, c')"
    and "cpos c' = length (cbuf c')"
  shows "Q a bs"
proof -
  have "cur_ok (cursor_new bs)" using assms(2) by simp
  from parsesD [OF assms(1) this assms(3)] obtain bs'
    where "cur_ok c'" "rest (cursor_new bs) = bs' @ rest c'" "Q a bs'" .
  moreover have "rest c' = []" using assms(4) by (simp add: rest_def)
  ultimately show ?thesis by simp
qed

lemma safe_cong:
  assumes "safe d" and "\<And>c. cur_ok c \<Longrightarrow> d' c = d c"
  shows "safe d'"
  unfolding safe_def
proof (intro allI impI)
  fix c assume c: "cur_ok c"
  show "d' c \<noteq> Panic \<and> (\<forall>a c'. d' c = Ok (a, c') \<longrightarrow> cur_ok c' \<and> cbuf c' = cbuf c \<and> cpos c \<le> cpos c')"
    unfolding assms(2) [OF c]
    by (intro conjI allI impI safe_Panic [OF assms(1) c]; drule safe_Ok [OF assms(1) c]; elim conjE)
qed

lemma safe_bind_parsed:
  assumes "safe d" "parses d R" and "\<And>a bs. R a bs \<Longrightarrow> safe (f a)"
  shows "safe (rd_bind d f)"
proof -
  let ?f = "\<lambda>a. if \<exists>bs. R a bs then f a else rd_fail undefined"
  have "safe (rd_bind d ?f)" using assms(1,3) by (auto intro!: safe_intros)
  then show ?thesis
  proof (rule safe_cong)
    fix c assume "cur_ok c"
    show "rd_bind d f c = rd_bind d ?f c"
    proof (cases "d c")
      case (Ok p)
      obtain a c' where p: "p = (a, c')" by (cases p)
      from parsesD [OF assms(2) \<open>cur_ok c\<close>, of a c'] Ok p have "\<exists>bs. R a bs" by blast
      with Ok p show ?thesis by (simp add: rd_bind_def)
    qed (simp_all add: rd_bind_def)
  qed
qed

lemma parses_take: "parses (cursor_take e n) (\<lambda>a bs. length a = n \<and> bs = a)"
  unfolding parses_def using cursor_take_OkD by fastforce

lemma reads_map_err: "reads d a bs \<Longrightarrow> reads (rd_map_err g d) a bs"
  unfolding reads_def rd_map_err_def by (simp add: map_err_Ok_iff)

lemma parses_map_err: "parses d Q \<Longrightarrow> parses (rd_map_err g d) Q"
  unfolding parses_def rd_map_err_def by (simp add: map_err_Ok_iff)

lemma safe_map_err [safe_intros]: "safe d \<Longrightarrow> safe (rd_map_err g d)"
  unfolding safe_def rd_map_err_def map_err_Ok_iff map_err_Panic_iff .

text \<open>The same two specifications for a decoder that checks the end of the slice itself.\<close>

definition reads_all :: "('e, 'a) reading \<Rightarrow> 'a \<Rightarrow> bytes \<Rightarrow> bool" where
  "reads_all d a bs \<longleftrightarrow> (\<forall>c. cur_ok c \<and> rest c = bs \<longrightarrow> (\<exists>c'. d c = Ok (a, c')))"

definition parses_all :: "('e, 'a) reading \<Rightarrow> ('a \<Rightarrow> bytes \<Rightarrow> bool) \<Rightarrow> bool" where
  "parses_all d Q \<longleftrightarrow> (\<forall>c a c'. cur_ok c \<and> d c = Ok (a, c') \<longrightarrow> Q a (rest c))"

lemma reads_all_bind:
  assumes "reads d a bs" "reads_all (f a) b cs"
  shows "reads_all (rd_bind d f) b (bs @ cs)"
  unfolding reads_all_def
proof (intro allI impI)
  fix c assume "cur_ok c \<and> rest c = bs @ cs"
  then have "cur_ok c" "rest c = bs @ cs" by auto
  from readsD [OF assms(1) this] obtain c1
    where c1: "d c = Ok (a, c1)" "cur_ok c1" "rest c1 = cs" .
  with assms(2) show "\<exists>c'. rd_bind d f c = Ok (b, c')"
    by (auto simp: reads_all_def rd_bind_def)
qed

lemma reads_all_bind_last:
  assumes "reads d a bs" "reads_all (f a) b []"
  shows "reads_all (rd_bind d f) b bs"
  using reads_all_bind [of d a bs f b "[]"] assms by simp

lemma parses_all_bind:
  assumes "parses d R" and "\<And>a bs. R a bs \<Longrightarrow> parses_all (f a) (\<lambda>b cs. Q b (bs @ cs))"
  shows "parses_all (rd_bind d f) Q"
  unfolding parses_all_def
proof (intro allI impI)
  fix c b c2 assume c: "cur_ok c \<and> rd_bind d f c = Ok (b, c2)"
  then obtain a c1 where d: "d c = Ok (a, c1)" and f: "f a c1 = Ok (b, c2)"
    by (auto simp: rd_bind_def and_then_Ok_iff)
  from c have "cur_ok c" by simp
  from parsesD [OF assms(1) this d] obtain bs
    where bs: "cur_ok c1" "rest c = bs @ rest c1" "R a bs" .
  from assms(2) [OF bs(3)] bs(1,2) f show "Q b (rest c)" unfolding parses_all_def by auto
qed

lemma reads_allD: "reads_all d a bs \<Longrightarrow> cur_ok c \<Longrightarrow> rest c = bs \<Longrightarrow> \<exists>c'. d c = Ok (a, c')"
  unfolding reads_all_def by blast

lemma parses_allD: "parses_all d Q \<Longrightarrow> cur_ok c \<Longrightarrow> d c = Ok (a, c') \<Longrightarrow> Q a (rest c)"
  unfolding parses_all_def by blast

lemma parses_all_if:
  "(b \<Longrightarrow> parses_all d1 Q) \<Longrightarrow> (\<not> b \<Longrightarrow> parses_all d2 Q) \<Longrightarrow> parses_all (if b then d1 else d2) Q"
  by simp

lemma parses_all_fail: "parses_all (rd_fail e) Q"
  by (simp add: parses_all_def rd_fail_def)

section \<open>The contract of a field\<close>

locale field_codec =
  fixes dec :: "('e, 'a) reading"
    and enc :: "'a \<Rightarrow> bytes"
    and valid :: "'a \<Rightarrow> bool"
  assumes complete: "valid a \<Longrightarrow> reads dec a (enc a)"
    and sound: "parses dec (\<lambda>a bs. valid a \<and> bs = enc a)"
    and safe: "safe dec"
begin

text \<open>No two valid values share an encoding, even as the prefix of a longer message.\<close>

lemma unique:
  assumes "valid a" "valid b" "enc a @ s = enc b @ t" "length (enc a @ s) \<le> usize_max"
  shows "a = b \<and> s = t"
proof -
  let ?c = "cursor_new (enc a @ s)"
  have ok: "cur_ok ?c" using assms(4) by simp
  from readsD [OF complete [OF assms(1)] ok] obtain c1 where c1: "dec ?c = Ok (a, c1)" "rest c1 = s"
    by auto
  from readsD [OF complete [OF assms(2)] ok] obtain c2 where c2: "dec ?c = Ok (b, c2)" "rest c2 = t"
    using assms(3) by auto
  from c1 c2 show ?thesis by simp
qed

text \<open>A counted loop over the field folds the values it encodes, in order.\<close>

lemma reads_loop:
  assumes "\<forall>x\<in>set xs. valid x"
  shows "reads (rd_loop (length xs) (\<lambda>acc. rd_bind dec (\<lambda>x. rd_return (f x acc))) acc)
           (fold f xs acc) (concat (map enc xs))"
  using assms
proof (induction xs arbitrary: acc)
  case Nil
  then show ?case by (simp add: reads_return)
next
  case (Cons x xs)
  have "reads (rd_bind dec (\<lambda>x. rd_return (f x acc))) (f x acc) (enc x)"
    using complete Cons.prems by (intro reads_bind_last [where a = x] reads_return) simp
  moreover have "reads (rd_loop (length xs) (\<lambda>acc. rd_bind dec (\<lambda>x. rd_return (f x acc))) (f x acc))
      (fold f xs (f x acc)) (concat (map enc xs))"
    using Cons by simp
  ultimately show ?case by (simp add: reads_bind)
qed

end

text \<open>Converting the error of a decoder keeps the contract.\<close>

lemma field_codec_map_err:
  "field_codec d e v \<Longrightarrow> field_codec (rd_map_err g d) e v"
  by (simp add: field_codec_def reads_map_err parses_map_err safe_map_err)

locale codec_pair = a: field_codec d1 e1 v1 + b: field_codec d2 e2 v2
  for d1 :: "('e, 'a) reading" and e1 v1 and d2 :: "('e, 'b) reading" and e2 v2
begin

lemma pair_complete: "v1 a \<Longrightarrow> v2 b \<Longrightarrow> reads (rd_pair d1 d2) (a, b) (e1 a @ e2 b)"
  unfolding rd_pair_def
  by (rule reads_bind [OF a.complete]) (auto intro: reads_bind_last b.complete reads_return)

lemma pair_sound:
  "parses (rd_pair d1 d2) (\<lambda>(a, b) bs. v1 a \<and> v2 b \<and> bs = e1 a @ e2 b)"
  unfolding rd_pair_def
  by (rule parses_bind [OF a.sound], rule parses_bind [OF b.sound], rule parses_return) auto

end

sublocale codec_pair \<subseteq> pair: field_codec "rd_pair d1 d2" "\<lambda>(a, b). e1 a @ e2 b" "\<lambda>(a, b). v1 a \<and> v2 b"
  using pair_complete pair_sound safe_pair [OF a.safe b.safe]
  by unfold_locales (auto simp: case_prod_beta')

end
