(* ===== verification/Codec.thy ===== *)
theory Codec
  imports Cursor
begin

text \<open>
  \<^verbatim>\<open>crates/q-codec/src/lib.rs\<close>: the canonical byte form of a bridge fact and the preimage an
  operator signs. A \<open>Writer\<close> is an append-only buffer, so a writer method is the bytes it appends
  (\<open>bytes_u16\<close> and \<open>bytes_u32\<close> panic on a field longer than their prefix can say); a \<open>Reader\<close> is a
  \<open>cursor\<close>. The newtypes \<open>AssetId\<close>, \<open>SourceRef\<close> and \<open>Recipient\<close> are their byte arrays.
\<close>

section \<open>Data\<close>

text \<open>The bytes of an ASCII literal \<open>b"..."\<close>.\<close>

definition ascii :: "string \<Rightarrow> bytes" where
  "ascii s = map of_char s"

definition ATTEST_DOMAIN :: bytes where
  "ATTEST_DOMAIN = ascii ''QUANTOVA/Q-ORACLE/ATTEST/v1''"

definition attest_context :: "bytes \<Rightarrow> bytes" where
  "attest_context era = ATTEST_DOMAIN @ era"

definition FACT_VERSION :: u8 where
  "FACT_VERSION = 1"

definition FACT_ENCODED_LEN :: usize where
  "FACT_ENCODED_LEN = 138"

datatype codec_error =
    ShortInput
  | TrailingBytes
  | UnknownTag u8
  | BadVersion u8
  | ZeroAmount
  | ZeroAsset
  | ZeroRecipient
  | ZeroSourceRef
  | ZeroChain
  | LengthMismatch

datatype direction = Deposit | ExitAck

fun direction_tag :: "direction \<Rightarrow> u8" where
  "direction_tag Deposit = 0"
| "direction_tag ExitAck = 1"

definition direction_from_tag :: "u8 \<Rightarrow> (codec_error, direction) res" where
  "direction_from_tag tag =
     (if tag = 0 then Ok Deposit else if tag = 1 then Ok ExitAck else Err (UnknownTag tag))"

record bridge_fact =
  bf_version :: u8
  bf_source_chain :: u32
  bf_dest_chain :: u32
  bf_route_id :: u32
  bf_direction :: direction
  bf_nonce :: u64
  bf_source_ref :: bytes
  bf_asset_id :: bytes
  bf_amount :: u128
  bf_recipient :: bytes
  bf_finality_depth :: u32
  bf_observed_height :: u64
  bf_expiry_height :: u64

text \<open>The lengths that the Rust array types carry.\<close>

definition fact_wf :: "bridge_fact \<Rightarrow> bool" where
  "fact_wf f \<longleftrightarrow>
     length (bf_source_ref f) = 32 \<and> length (bf_asset_id f) = 16 \<and> length (bf_recipient f) = 32"

section \<open>Writer\<close>

definition writer_u8 :: "u8 \<Rightarrow> bytes" where
  "writer_u8 v = [v]"

definition writer_u32 :: "u32 \<Rightarrow> bytes" where
  "writer_u32 v = to_le_bytes v"

definition writer_u64 :: "u64 \<Rightarrow> bytes" where
  "writer_u64 v = to_le_bytes v"

definition writer_u128 :: "u128 \<Rightarrow> bytes" where
  "writer_u128 v = to_le_bytes v"

definition writer_fixed :: "bytes \<Rightarrow> bytes" where
  "writer_fixed v = v"

definition writer_bytes_u16 :: "bytes \<Rightarrow> ('e, bytes) res" where
  "writer_bytes_u16 v =
     (if length v < 2 ^ 16 then Ok (to_le_bytes (word_of_nat (length v) :: u16) @ v) else Panic)"

definition writer_bytes_u32 :: "bytes \<Rightarrow> ('e, bytes) res" where
  "writer_bytes_u32 v =
     (if length v < 2 ^ 32 then Ok (to_le_bytes (word_of_nat (length v) :: u32) @ v) else Panic)"

section \<open>Reader\<close>

definition reader_u8 :: "(codec_error, u8) reading" where
  "reader_u8 c =
     and_then (cursor_advance ShortInput 1 c) (\<lambda>end.
     if cpos c < length (cbuf c) then Ok (cbuf c ! cpos c, c\<lparr>cpos := end\<rparr>) else Panic)"

definition reader_u32 :: "(codec_error, u32) reading" where
  "reader_u32 = rd_bind (cursor_take ShortInput 4) (\<lambda>a. rd_return (from_le_bytes a))"

definition reader_u64 :: "(codec_error, u64) reading" where
  "reader_u64 = rd_bind (cursor_take ShortInput 8) (\<lambda>a. rd_return (from_le_bytes a))"

definition reader_u128 :: "(codec_error, u128) reading" where
  "reader_u128 = rd_bind (cursor_take ShortInput 16) (\<lambda>a. rd_return (from_le_bytes a))"

definition reader_fixed :: "usize \<Rightarrow> (codec_error, bytes) reading" where
  "reader_fixed n = cursor_take ShortInput n"

definition reader_array32 :: "(codec_error, bytes) reading" where
  "reader_array32 = reader_fixed 32"

definition reader_array16 :: "(codec_error, bytes) reading" where
  "reader_array16 = reader_fixed 16"

definition reader_bytes_u16 :: "(codec_error, bytes) reading" where
  "reader_bytes_u16 =
     rd_bind (cursor_take ShortInput 2) (\<lambda>a.
     reader_fixed (unat (from_le_bytes a :: u16)))"

definition reader_bytes_u32 :: "(codec_error, bytes) reading" where
  "reader_bytes_u32 =
     rd_bind (cursor_take ShortInput 4) (\<lambda>a.
     reader_fixed (unat (from_le_bytes a :: u32)))"

definition reader_finish :: "(codec_error, unit) reading" where
  "reader_finish c = (if cpos c = length (cbuf c) then Ok ((), c) else Err TrailingBytes)"

definition reader_remaining :: "cursor \<Rightarrow> usize" where
  "reader_remaining c = length (cbuf c) - cpos c"

section \<open>The fact\<close>

definition fact_encode :: "bridge_fact \<Rightarrow> bytes" where
  "fact_encode f =
     writer_u8 (bf_version f) @
     writer_u32 (bf_source_chain f) @
     writer_u32 (bf_dest_chain f) @
     writer_u32 (bf_route_id f) @
     writer_u8 (direction_tag (bf_direction f)) @
     writer_u64 (bf_nonce f) @
     writer_fixed (bf_source_ref f) @
     writer_fixed (bf_asset_id f) @
     writer_u128 (bf_amount f) @
     writer_fixed (bf_recipient f) @
     writer_u32 (bf_finality_depth f) @
     writer_u64 (bf_observed_height f) @
     writer_u64 (bf_expiry_height f)"

definition rd_direction :: "(codec_error, direction) reading" where
  "rd_direction = rd_bind reader_u8 (\<lambda>tag c. map_ok (\<lambda>d. (d, c)) (direction_from_tag tag))"

text \<open>The body of \<open>decode\<close>: everything between \<open>Reader::new\<close> and \<open>finish\<close>.\<close>

definition fact_fields :: "(codec_error, bridge_fact) reading" where
  "fact_fields =
     rd_bind reader_u8 (\<lambda>version.
     if version \<noteq> FACT_VERSION then rd_fail (BadVersion version) else
     rd_bind reader_u32 (\<lambda>source_chain.
     rd_bind reader_u32 (\<lambda>dest_chain.
     rd_bind reader_u32 (\<lambda>route_id.
     rd_bind rd_direction (\<lambda>direction.
     rd_bind reader_u64 (\<lambda>nonce.
     rd_bind reader_array32 (\<lambda>source_ref.
     rd_bind reader_array16 (\<lambda>asset_id.
     rd_bind reader_u128 (\<lambda>amount.
     rd_bind reader_array32 (\<lambda>recipient.
     rd_bind reader_u32 (\<lambda>finality_depth.
     rd_bind reader_u64 (\<lambda>observed_height.
     rd_bind reader_u64 (\<lambda>expiry_height.
     rd_return \<lparr>
       bf_version = version, bf_source_chain = source_chain, bf_dest_chain = dest_chain,
       bf_route_id = route_id, bf_direction = direction, bf_nonce = nonce,
       bf_source_ref = source_ref, bf_asset_id = asset_id, bf_amount = amount,
       bf_recipient = recipient, bf_finality_depth = finality_depth,
       bf_observed_height = observed_height, bf_expiry_height = expiry_height\<rparr>)))))))))))))"

definition fact_decode :: "bytes \<Rightarrow> (codec_error, bridge_fact) res" where
  "fact_decode input =
     and_then (fact_fields (cursor_new input)) (\<lambda>(f, c).
     and_then (reader_finish c) (\<lambda>_. Ok f))"

definition fact_is_zero :: "bridge_fact \<Rightarrow> bool" where
  "fact_is_zero f \<longleftrightarrow>
     bf_source_chain f = 0 \<and> bf_dest_chain f = 0 \<and> bf_route_id f = 0 \<and>
     bf_direction f = Deposit \<and> bf_nonce f = 0 \<and> bf_source_ref f = replicate 32 0 \<and>
     bf_asset_id f = replicate 16 0 \<and> bf_amount f = 0 \<and> bf_recipient f = replicate 32 0 \<and>
     bf_finality_depth f = 0 \<and> bf_observed_height f = 0 \<and> bf_expiry_height f = 0"

definition attest_preimage :: "bridge_fact \<Rightarrow> u64 \<Rightarrow> bytes" where
  "attest_preimage f dest_chain_id =
     writer_fixed ATTEST_DOMAIN @ writer_fixed (fact_encode f) @ writer_u64 dest_chain_id"

definition fact_validate :: "bridge_fact \<Rightarrow> (codec_error, unit) res" where
  "fact_validate f =
     (if bf_version f \<noteq> FACT_VERSION then Err (BadVersion (bf_version f))
      else if bf_source_chain f = 0 \<or> bf_dest_chain f = 0 then Err ZeroChain
      else if bf_amount f = 0 then Err ZeroAmount
      else if bf_asset_id f = replicate 16 0 then Err ZeroAsset
      else if bf_recipient f = replicate 32 0 then Err ZeroRecipient
      else if bf_source_ref f = replicate 32 0 then Err ZeroSourceRef
      else Ok ())"

lemmas writer_defs = writer_u8_def writer_u32_def writer_u64_def writer_u128_def writer_fixed_def

section \<open>Every field meets the codec contract\<close>

lemma reader_u8_eq:
  assumes "cur_ok c"
  shows "reader_u8 c = (case rest c of [] \<Rightarrow> Err ShortInput | b # _ \<Rightarrow> Ok (b, c\<lparr>cpos := cpos c + 1\<rparr>))"
proof (cases "cpos c < length (cbuf c)")
  case True
  then have "rest c = cbuf c ! cpos c # drop (Suc (cpos c)) (cbuf c)"
    unfolding rest_def by (simp add: Cons_nth_drop_Suc)
  with assms True show ?thesis by (simp add: reader_u8_def cursor_advance_def cur_ok_def)
next
  case False
  with assms show ?thesis by (simp add: reader_u8_def cursor_advance_def cur_ok_def rest_def)
qed

lemma advance_1:
  assumes "cur_ok c" "rest c = b # s"
  shows "cur_ok (c\<lparr>cpos := Suc (cpos c)\<rparr>)" "rest (c\<lparr>cpos := Suc (cpos c)\<rparr>) = s"
  using assms cur_ok_advance [of c 1] rest_advance [of c 1] by simp_all

interpretation u8_field: field_codec reader_u8 writer_u8 "\<lambda>_. True"
proof unfold_locales
  show "reads reader_u8 a (writer_u8 a)" for a
    by (auto simp: reads_def reader_u8_eq writer_u8_def advance_1)
  show "safe reader_u8"
    by (auto simp: safe_def reader_u8_eq advance_1 split: list.splits)
  show "parses reader_u8 (\<lambda>a bs. True \<and> bs = writer_u8 a)"
    by (auto simp: parses_def reader_u8_eq writer_u8_def advance_1 split: list.splits)
qed

text \<open>The four little-endian readers are one instance each of the same three facts.\<close>

lemma le_field_codec:
  assumes "8 dvd LENGTH('l)" and "n = LENGTH('l) div 8"
  shows "field_codec (rd_bind (cursor_take e n) (\<lambda>a. rd_return (from_le_bytes a :: 'l::len word)))
           to_le_bytes (\<lambda>_. True)"
proof unfold_locales
  fix w :: "'l word"
  have "reads (cursor_take e n) (to_le_bytes w) (to_le_bytes w)"
    using assms by (intro reads_take) simp
  moreover have "reads (rd_return (from_le_bytes (to_le_bytes w) :: 'l word)) w []"
    using assms(1) by (simp add: from_to_le_bytes reads_return)
  ultimately show "reads (rd_bind (cursor_take e n) (\<lambda>a. rd_return (from_le_bytes a))) w (to_le_bytes w)"
    by (rule reads_bind_last)
next
  show "parses (rd_bind (cursor_take e n) (\<lambda>a. rd_return (from_le_bytes a :: 'l word)))
      (\<lambda>a bs. True \<and> bs = to_le_bytes a)"
    by (rule parses_bind [OF parses_take], rule parses_return)
      (use assms in \<open>simp add: to_from_le_bytes\<close>)
next
  show "safe (rd_bind (cursor_take e n) (\<lambda>a. rd_return (from_le_bytes a :: 'l word)))"
    by (intro safe_intros)
qed

interpretation u32_field: field_codec reader_u32 writer_u32 "\<lambda>_. True"
  unfolding reader_u32_def writer_u32_def [abs_def] by (rule le_field_codec) auto

interpretation u64_field: field_codec reader_u64 writer_u64 "\<lambda>_. True"
  unfolding reader_u64_def writer_u64_def [abs_def] by (rule le_field_codec) auto

interpretation u128_field: field_codec reader_u128 writer_u128 "\<lambda>_. True"
  unfolding reader_u128_def writer_u128_def [abs_def] by (rule le_field_codec) auto

lemma fixed_field_codec: "field_codec (reader_fixed n) writer_fixed (\<lambda>a. length a = n)"
proof unfold_locales
  show "parses (reader_fixed n) (\<lambda>a bs. length a = n \<and> bs = writer_fixed a)"
    using parses_take by (simp add: reader_fixed_def writer_fixed_def)
qed (auto simp: reader_fixed_def writer_fixed_def intro: reads_take safe_intros)

interpretation array32_field: field_codec reader_array32 writer_fixed "\<lambda>a. length a = 32"
  unfolding reader_array32_def by (rule fixed_field_codec)

interpretation array16_field: field_codec reader_array16 writer_fixed "\<lambda>a. length a = 16"
  unfolding reader_array16_def by (rule fixed_field_codec)

text \<open>Length-prefixed byte strings.\<close>

lemma prefixed_field_codec:
  fixes e :: 'e
  assumes "8 dvd LENGTH('l)" and "n = LENGTH('l) div 8"
  shows "field_codec
     (rd_bind (cursor_take e n) (\<lambda>a. cursor_take e (unat (from_le_bytes a :: 'l::len word))))
     (\<lambda>v. to_le_bytes (word_of_nat (length v) :: 'l word) @ v)
     (\<lambda>v. length v < 2 ^ LENGTH('l))"
proof unfold_locales
  fix v :: bytes assume v: "length v < 2 ^ LENGTH('l)"
  let ?p = "to_le_bytes (word_of_nat (length v) :: 'l word)"
  have "reads (cursor_take e n) ?p ?p" using assms by (intro reads_take) simp
  moreover have "reads (cursor_take e (unat (from_le_bytes ?p :: 'l word))) v v"
    using assms v by (intro reads_take) (simp add: from_to_le_bytes unat_of_nat)
  ultimately show "reads (rd_bind (cursor_take e n)
      (\<lambda>a. cursor_take e (unat (from_le_bytes a :: 'l word)))) v (?p @ v)"
    by (rule reads_bind)
next
  let ?Q = "\<lambda>v bs. length v < 2 ^ LENGTH('l) \<and> bs = to_le_bytes (word_of_nat (length v) :: 'l word) @ v"
  have "parses (cursor_take e (unat (from_le_bytes a :: 'l word))) (\<lambda>v cs. ?Q v (a @ cs))"
    if a: "length a = n" for a
  proof (rule parses_mono [OF parses_take])
    fix v cs :: bytes assume v: "length v = unat (from_le_bytes a :: 'l word) \<and> cs = v"
    then have "(word_of_nat (length v) :: 'l word) = from_le_bytes a" by simp
    moreover have "to_le_bytes (from_le_bytes a :: 'l word) = a"
      using assms a by (intro to_from_le_bytes) simp_all
    ultimately show "?Q v (a @ cs)" using v unsigned_less [of "from_le_bytes a :: 'l word"] by metis
  qed
  then show "parses (rd_bind (cursor_take e n) (\<lambda>a. cursor_take e (unat (from_le_bytes a :: 'l word)))) ?Q"
    by (intro parses_bind [OF parses_take]) auto
next
  show "safe (rd_bind (cursor_take e n) (\<lambda>a. cursor_take e (unat (from_le_bytes a :: 'l word))))"
    by (intro safe_intros)
qed

abbreviation prefixed_u16 :: "bytes \<Rightarrow> bytes" where
  "prefixed_u16 v \<equiv> to_le_bytes (word_of_nat (length v) :: u16) @ v"

abbreviation prefixed_u32 :: "bytes \<Rightarrow> bytes" where
  "prefixed_u32 v \<equiv> to_le_bytes (word_of_nat (length v) :: u32) @ v"

interpretation bytes_u16_field:
  field_codec reader_bytes_u16 prefixed_u16 "\<lambda>v. length v < 2 ^ LENGTH(16)"
  unfolding reader_bytes_u16_def reader_fixed_def by (rule prefixed_field_codec) simp_all

interpretation bytes_u32_field:
  field_codec reader_bytes_u32 prefixed_u32 "\<lambda>v. length v < 2 ^ LENGTH(32)"
  unfolding reader_bytes_u32_def reader_fixed_def by (rule prefixed_field_codec) simp_all

lemma direction_from_tag_Ok_iff: "direction_from_tag t = Ok d \<longleftrightarrow> t = direction_tag d"
  by (cases d) (auto simp: direction_from_tag_def)

lemma direction_from_tag_not_Panic: "direction_from_tag t \<noteq> Panic"
  by (simp add: direction_from_tag_def)

interpretation direction_field: field_codec rd_direction "\<lambda>d. writer_u8 (direction_tag d)" "\<lambda>_. True"
proof unfold_locales
  show "reads rd_direction d (writer_u8 (direction_tag d))" for d
    unfolding rd_direction_def
    by (rule reads_bind_last [OF u8_field.complete])
      (auto simp: reads_def map_ok_Ok_iff direction_from_tag_Ok_iff)
  show "parses rd_direction (\<lambda>d bs. True \<and> bs = writer_u8 (direction_tag d))"
    unfolding rd_direction_def
    by (rule parses_bind [OF u8_field.sound])
      (auto simp: parses_def map_ok_Ok_iff direction_from_tag_Ok_iff)
  show "safe rd_direction"
    unfolding rd_direction_def
    by (rule safe_bind [OF u8_field.safe])
      (auto simp: safe_def map_ok_Ok_iff map_ok_Panic_iff direction_from_tag_not_Panic)
qed

lemmas field_reads =
  reads_bind [OF u8_field.complete [OF TrueI]] reads_bind [OF u32_field.complete [OF TrueI]]
  reads_bind [OF u64_field.complete [OF TrueI]] reads_bind [OF u128_field.complete [OF TrueI]]
  reads_bind [OF array16_field.complete] reads_bind [OF array32_field.complete]
  reads_bind [OF direction_field.complete [OF TrueI]]
lemmas field_reads_last =
  reads_bind_last [OF u8_field.complete [OF TrueI]] reads_bind_last [OF u32_field.complete [OF TrueI]]
  reads_bind_last [OF u64_field.complete [OF TrueI]] reads_bind_last [OF u128_field.complete [OF TrueI]]
  reads_bind_last [OF array16_field.complete] reads_bind_last [OF array32_field.complete]
lemmas field_safe = u8_field.safe u32_field.safe u64_field.safe u128_field.safe
  array16_field.safe array32_field.safe direction_field.safe bytes_u16_field.safe bytes_u32_field.safe
lemmas field_parses =
  parses_bind [OF u8_field.sound] parses_bind [OF u32_field.sound] parses_bind [OF u64_field.sound]
  parses_bind [OF u128_field.sound] parses_bind [OF array16_field.sound]
  parses_bind [OF array32_field.sound] parses_bind [OF direction_field.sound]

declare field_safe [safe_intros]
declare field_parses [parses_intros]

text \<open>\<open>finish\<close> as the last call of a decoder.\<close>

lemma reads_all_finish:
  "b = a \<Longrightarrow> reads_all (rd_bind (rd_map_err g reader_finish) (\<lambda>_. rd_return a)) b []"
  by (auto simp: reads_all_def rd_bind_def rd_map_err_def reader_finish_def rd_return_def rest_Nil_iff)

lemma parses_all_finish:
  "Q a [] \<Longrightarrow> parses_all (rd_bind (rd_map_err g reader_finish) (\<lambda>_. rd_return a)) Q"
  by (auto simp: parses_all_def rd_bind_def rd_map_err_def reader_finish_def rd_return_def rest_def
      and_then_Ok_iff map_err_Ok_iff split: if_splits)

lemma finish_safe [safe_intros]: "safe reader_finish"
  by (auto simp: safe_def reader_finish_def)

section \<open>The fact meets the codec contract\<close>

lemma fact_fields_reads:
  assumes "fact_wf f" "bf_version f = FACT_VERSION"
  shows "reads fact_fields f (fact_encode f)"
  unfolding fact_fields_def fact_encode_def
  by (rule field_reads, simp only: assms simp_thms if_False, intro field_reads field_reads_last reads_returnI)
    (use assms in \<open>simp_all add: fact_wf_def\<close>)

lemma fact_fields_parses:
  "parses fact_fields (\<lambda>f bs. (fact_wf f \<and> bf_version f = FACT_VERSION) \<and> bs = fact_encode f)"
  unfolding fact_fields_def
  by (intro parses_intros) (simp_all add: fact_encode_def fact_wf_def)

lemma fact_fields_safe: "safe fact_fields"
  unfolding fact_fields_def by (intro safe_intros)

interpretation fact_field:
  field_codec fact_fields fact_encode "\<lambda>f. fact_wf f \<and> bf_version f = FACT_VERSION"
  using fact_fields_reads fact_fields_parses fact_fields_safe by unfold_locales auto

lemma length_fact_encode: "fact_wf f \<Longrightarrow> length (fact_encode f) = FACT_ENCODED_LEN"
  by (simp add: fact_encode_def writer_defs fact_wf_def FACT_ENCODED_LEN_def)

lemma fact_decode_encode:
  assumes "fact_wf f" "bf_version f = FACT_VERSION"
  shows "fact_decode (fact_encode f) = Ok f"
proof -
  have len: "length (fact_encode f) \<le> usize_max"
    using assms(1) by (simp add: length_fact_encode FACT_ENCODED_LEN_def)
  have "reads fact_fields f (fact_encode f)" using assms by (rule fact_fields_reads)
  from reads_whole [OF this len] obtain c
    where "fact_fields (cursor_new (fact_encode f)) = Ok (f, c)" "cpos c = length (cbuf c)" .
  then show ?thesis by (simp add: fact_decode_def reader_finish_def)
qed

lemma fact_decode_sound:
  assumes "fact_decode bs = Ok f" "length bs \<le> usize_max"
  shows "(fact_wf f \<and> bf_version f = FACT_VERSION) \<and> bs = fact_encode f"
proof -
  from assms(1) obtain c where c: "fact_fields (cursor_new bs) = Ok (f, c)" "cpos c = length (cbuf c)"
    by (auto simp: fact_decode_def reader_finish_def and_then_Ok_iff split: if_splits)
  show ?thesis by (rule parses_whole [OF fact_fields_parses assms(2) c])
qed

lemma fact_decode_not_Panic:
  assumes "length bs \<le> usize_max"
  shows "fact_decode bs \<noteq> Panic"
  using safe_Panic [OF fact_fields_safe, of "cursor_new bs"] assms
  by (auto simp: fact_decode_def reader_finish_def and_then_Panic_iff)

lemma attest_preimage_inject:
  assumes "fact_wf f" "fact_wf g" "bf_version f = FACT_VERSION" "bf_version g = FACT_VERSION"
    and "attest_preimage f d = attest_preimage g d'"
  shows "f = g \<and> d = d'"
proof -
  from assms(5) have eq: "fact_encode f @ writer_u64 d = fact_encode g @ writer_u64 d'"
    by (simp add: attest_preimage_def writer_fixed_def)
  have "length (fact_encode f @ writer_u64 d) \<le> usize_max"
    using assms(1) by (simp add: length_fact_encode FACT_ENCODED_LEN_def writer_u64_def)
  with fact_field.unique [of f g, OF _ _ eq] assms have f: "f = g" "writer_u64 d = writer_u64 d'"
    by simp_all
  then have "writer_u64 d @ [] = writer_u64 d' @ []" by simp
  with u64_field.unique [OF TrueI TrueI this] f show ?thesis by (simp add: writer_u64_def)
qed

lemma fact_validate_Ok_iff:
  "fact_validate f = Ok u \<longleftrightarrow>
     bf_version f = FACT_VERSION \<and> bf_source_chain f \<noteq> 0 \<and> bf_dest_chain f \<noteq> 0 \<and>
     bf_amount f \<noteq> 0 \<and> bf_asset_id f \<noteq> replicate 16 0 \<and>
     bf_recipient f \<noteq> replicate 32 0 \<and> bf_source_ref f \<noteq> replicate 32 0"
  by (auto simp: fact_validate_def)

lemma fact_validate_not_Panic [simp]: "fact_validate f \<noteq> Panic"
  by (simp add: fact_validate_def)

section \<open>Properties\<close>

definition sample_fact :: bridge_fact where
  "sample_fact =
     \<lparr>bf_version = FACT_VERSION, bf_source_chain = 1, bf_dest_chain = 9000, bf_route_id = 7,
      bf_direction = Deposit, bf_nonce = 42, bf_source_ref = replicate 32 9,
      bf_asset_id = replicate 16 3, bf_amount = 1000000, bf_recipient = replicate 32 5,
      bf_finality_depth = 6, bf_observed_height = 111, bf_expiry_height = 222\<rparr>"

lemma sample_fact_wf: "fact_wf sample_fact" "bf_version sample_fact = FACT_VERSION"
  by (simp_all add: fact_wf_def sample_fact_def)

text \<open>C17: on any slice, \<open>BridgeFact::decode\<close> accepts exactly the canonical encodings: it returns a fact
  if and only if the fact has the current version and the slice is byte for byte what \<open>encode\<close>
  writes for it (so \<open>decode\<close> undoes \<open>encode\<close>, and no two byte strings decode to one fact), and it
  never panics, whatever the bytes.\<close>

theorem fact_decode_canonical:
  assumes "length bs \<le> usize_max"
  shows "(fact_decode bs = Ok f \<longleftrightarrow>
            fact_wf f \<and> bf_version f = FACT_VERSION \<and> bs = fact_encode f) \<and>
         fact_decode bs \<noteq> Panic"
  using fact_decode_sound [OF _ assms] fact_decode_encode fact_decode_not_Panic [OF assms] by auto

theorem fact_decode_canonical_witness:
  "length (fact_encode sample_fact) \<le> usize_max \<and>
   fact_decode (fact_encode sample_fact) = Ok sample_fact"
proof -
  have h: "length (fact_encode sample_fact) \<le> usize_max"
    by (simp add: length_fact_encode sample_fact_wf FACT_ENCODED_LEN_def)
  show ?thesis using h fact_decode_canonical [OF h, of sample_fact] sample_fact_wf by simp
qed

text \<open>The bytes an operator signs bind the whole fact and the destination chain: two facts of the
  current version with the same attestation preimage are equal, and so are the chains they are
  attested for.\<close>

theorem attest_preimage_binding:
  assumes "fact_wf f" "fact_wf g" "bf_version f = FACT_VERSION" "bf_version g = FACT_VERSION"
    and "attest_preimage f d = attest_preimage g d'"
  shows "f = g \<and> d = d'"
  using assms by (rule attest_preimage_inject)

theorem attest_preimage_binding_witness:
  "attest_preimage sample_fact 5 = attest_preimage sample_fact 5 \<and>
   attest_preimage (sample_fact\<lparr>bf_amount := 1000001\<rparr>) 5 \<noteq> attest_preimage sample_fact 5"
proof -
  let ?g = "sample_fact\<lparr>bf_amount := 1000001\<rparr>"
  have wf: "fact_wf ?g" "bf_version ?g = FACT_VERSION"
    by (simp_all add: fact_wf_def sample_fact_def)
  have "?g \<noteq> sample_fact" by (simp add: sample_fact_def)
  with attest_preimage_binding [OF wf(1) sample_fact_wf(1) wf(2) sample_fact_wf(2), of 5 5]
  show ?thesis by auto
qed

end
