(* ===== verification/Airlock.thy ===== *)
theory Airlock
  imports Codec "HOL-Library.Multiset"
begin

text \<open>
  \<^verbatim>\<open>crates/q-airlock/src/lib.rs\<close>: the only two artifacts that may cross into the chain, an operator
  attestation and a STARK statement, and the parser that admits nothing else. \<open>encode\<close> sorts the
  signatures by operator and can panic in \<open>bytes_u16\<close> or \<open>bytes_u32\<close>, so it is a \<open>res\<close>.
\<close>

definition ARTIFACT_ATTESTATION :: u8 where "ARTIFACT_ATTESTATION = 1"
definition ARTIFACT_STARK :: u8 where "ARTIFACT_STARK = 2"
definition ENVELOPE_VERSION :: u8 where "ENVELOPE_VERSION = 1"

record signer_sig =
  ss_operator_id :: u32
  ss_signature :: bytes

record attestation_envelope =
  ae_fact :: bridge_fact
  ae_signatures :: "signer_sig list"

record stark_envelope =
  se_statement_digest :: bytes
  se_proof :: bytes

datatype artifact = Attestation attestation_envelope | Stark stark_envelope

datatype airlock_error = Unparseable | EnvelopeBadVersion | NonCanonical | AirlockCodec codec_error

fun write_sigs :: "signer_sig list \<Rightarrow> ('e, bytes) res" where
  "write_sigs [] = Ok []"
| "write_sigs (s # ss) =
     and_then (writer_bytes_u16 (ss_signature s)) (\<lambda>b.
     and_then (write_sigs ss) (\<lambda>bs. Ok (writer_u32 (ss_operator_id s) @ b @ bs)))"

definition attestation_encode :: "attestation_envelope \<Rightarrow> ('e, bytes) res" where
  "attestation_encode env =
     (let sigs = sort_key ss_operator_id (ae_signatures env) in
      and_then (write_sigs sigs) (\<lambda>body.
      Ok (writer_u8 ARTIFACT_ATTESTATION @ writer_u8 ENVELOPE_VERSION @
          writer_fixed (fact_encode (ae_fact env)) @
          writer_u32 (word_of_nat (length sigs)) @ body)))"

definition stark_encode :: "stark_envelope \<Rightarrow> ('e, bytes) res" where
  "stark_encode env =
     and_then (writer_bytes_u32 (se_proof env)) (\<lambda>p.
     Ok (writer_u8 ARTIFACT_STARK @ writer_fixed (se_statement_digest env) @ p))"

text \<open>One turn of the signature loop; the accumulator is \<open>(signatures, last_id)\<close>.\<close>

definition parse_sig ::
  "signer_sig list \<times> u32 option \<Rightarrow> (airlock_error, signer_sig list \<times> u32 option) reading" where
  "parse_sig = (\<lambda>(signatures, last_id).
     rd_bind (rd_map_err AirlockCodec reader_u32) (\<lambda>operator_id.
     if (case last_id of Some prev \<Rightarrow> operator_id \<le> prev | None \<Rightarrow> False)
     then rd_fail NonCanonical
     else
     rd_bind (rd_map_err AirlockCodec reader_bytes_u16) (\<lambda>signature.
     rd_return
       (signatures @ [\<lparr>ss_operator_id = operator_id, ss_signature = signature\<rparr>],
        Some operator_id))))"

definition parse_fact :: "(airlock_error, bridge_fact) reading" where
  "parse_fact =
     rd_bind (rd_map_err AirlockCodec (reader_fixed FACT_ENCODED_LEN)) (\<lambda>fact_bytes c.
     map_ok (\<lambda>f. (f, c)) (map_err AirlockCodec (fact_decode fact_bytes)))"

definition parse_attestation :: "(airlock_error, attestation_envelope) reading" where
  "parse_attestation =
     rd_bind (rd_map_err AirlockCodec reader_u8) (\<lambda>version.
     if version \<noteq> ENVELOPE_VERSION then rd_fail EnvelopeBadVersion else
     rd_bind parse_fact (\<lambda>fact.
     rd_bind (rd_map_err AirlockCodec reader_u32) (\<lambda>count.
     if count = 0 then rd_fail NonCanonical else
     rd_bind (rd_loop (unat count) parse_sig ([], None)) (\<lambda>(signatures, last_id).
     rd_bind (rd_map_err AirlockCodec reader_finish) (\<lambda>_.
     rd_return \<lparr>ae_fact = fact, ae_signatures = signatures\<rparr>)))))"

definition parse_stark :: "(airlock_error, stark_envelope) reading" where
  "parse_stark =
     rd_bind (rd_map_err AirlockCodec reader_array32) (\<lambda>statement_digest.
     rd_bind (rd_map_err AirlockCodec reader_bytes_u32) (\<lambda>proof.
     rd_bind (rd_map_err AirlockCodec reader_finish) (\<lambda>_.
     rd_return \<lparr>se_statement_digest = statement_digest, se_proof = proof\<rparr>)))"

definition airlock_parse :: "bytes \<Rightarrow> (airlock_error, artifact) res" where
  "airlock_parse input =
     and_then (rd_map_err (\<lambda>_. Unparseable) reader_u8 (cursor_new input)) (\<lambda>(tag, c).
     if tag = ARTIFACT_ATTESTATION then map_ok (\<lambda>(a, _). Attestation a) (parse_attestation c)
     else if tag = ARTIFACT_STARK then map_ok (\<lambda>(a, _). Stark a) (parse_stark c)
     else Err Unparseable)"

text \<open>The values that have an encoding the parser gives back: array lengths, field widths, at least
  one signature, operators in strictly increasing order.\<close>

definition sig_wf :: "signer_sig \<Rightarrow> bool" where
  "sig_wf s \<longleftrightarrow> length (ss_signature s) < 2 ^ LENGTH(16)"

fun artifact_wf :: "artifact \<Rightarrow> bool" where
  "artifact_wf (Attestation env) \<longleftrightarrow>
     fact_wf (ae_fact env) \<and> bf_version (ae_fact env) = FACT_VERSION \<and>
     ae_signatures env \<noteq> [] \<and> length (ae_signatures env) < 2 ^ 32 \<and>
     sorted_wrt (<) (map ss_operator_id (ae_signatures env)) \<and>
     (\<forall>s\<in>set (ae_signatures env). sig_wf s)"
| "artifact_wf (Stark env) \<longleftrightarrow>
     length (se_statement_digest env) = 32 \<and> length (se_proof env) < 2 ^ LENGTH(32)"

fun artifact_encode :: "artifact \<Rightarrow> ('e, bytes) res" where
  "artifact_encode (Attestation env) = attestation_encode env"
| "artifact_encode (Stark env) = stark_encode env"

section \<open>The signature list\<close>

definition sig_bytes :: "signer_sig \<Rightarrow> bytes" where
  "sig_bytes s = writer_u32 (ss_operator_id s) @ prefixed_u16 (ss_signature s)"

text \<open>The operator order the loop enforces, from the last operator it has seen.\<close>

fun ids_above :: "u32 option \<Rightarrow> signer_sig list \<Rightarrow> bool" where
  "ids_above prev [] = True"
| "ids_above prev (s # ss) \<longleftrightarrow>
     (case prev of None \<Rightarrow> True | Some p \<Rightarrow> p < ss_operator_id s) \<and> ids_above (Some (ss_operator_id s)) ss"

lemma ids_above_Some_iff:
  "ids_above (Some p) ss \<longleftrightarrow> sorted_wrt (<) (p # map ss_operator_id ss)"
  by (induction ss arbitrary: p) fastforce+

lemma ids_above_None_iff: "ids_above None ss \<longleftrightarrow> sorted_wrt (<) (map ss_operator_id ss)"
  by (cases ss) (auto simp: ids_above_Some_iff)

lemma write_sigs_Ok: "\<forall>s\<in>set ss. sig_wf s \<Longrightarrow> write_sigs ss = Ok (concat (map sig_bytes ss))"
  by (induction ss) (auto simp: writer_bytes_u16_def sig_wf_def sig_bytes_def)

lemma write_sigs_Panic_iff: "write_sigs ss = Panic \<longleftrightarrow> (\<exists>s\<in>set ss. \<not> sig_wf s)"
  by (induction ss) (auto simp: writer_bytes_u16_def sig_wf_def and_then_Panic_iff write_sigs_Ok)

lemma sort_key_strict: "sorted_wrt (<) (map ss_operator_id ss) \<Longrightarrow> sort_key ss_operator_id ss = ss"
  by (simp add: strict_sorted_iff sort_key_id_if_sorted)

interpretation aerr_u8: field_codec "rd_map_err g reader_u8" writer_u8 "\<lambda>_. True" for g
  by (rule field_codec_map_err) unfold_locales

interpretation aerr_u32: field_codec "rd_map_err g reader_u32" writer_u32 "\<lambda>_. True" for g
  by (rule field_codec_map_err) unfold_locales

interpretation aerr_bytes_u16:
  field_codec "rd_map_err g reader_bytes_u16" prefixed_u16 "\<lambda>v. length v < 2 ^ LENGTH(16)" for g
  by (rule field_codec_map_err) unfold_locales

interpretation aerr_bytes_u32:
  field_codec "rd_map_err g reader_bytes_u32" prefixed_u32 "\<lambda>v. length v < 2 ^ LENGTH(32)" for g
  by (rule field_codec_map_err) unfold_locales

interpretation aerr_array32:
  field_codec "rd_map_err g reader_array32" writer_fixed "\<lambda>a. length a = 32" for g
  by (rule field_codec_map_err) unfold_locales

lemma parse_sig_reads:
  assumes "ids_above prev [s]" "sig_wf s"
  shows "reads (parse_sig (acc, prev)) (acc @ [s], Some (ss_operator_id s)) (sig_bytes s)"
  unfolding parse_sig_def sig_bytes_def prod.case
  apply (rule reads_bind [OF aerr_u32.complete [OF TrueI]])
  using assms
  by (cases prev)
    (auto simp: not_le sig_wf_def intro!: reads_bind_last [OF aerr_bytes_u16.complete] reads_returnI)

lemma parse_sigs_reads:
  assumes "ids_above prev ss" "\<forall>s\<in>set ss. sig_wf s"
  shows "\<exists>l. reads (rd_loop (length ss) parse_sig (acc, prev)) (acc @ ss, l) (concat (map sig_bytes ss))"
  using assms
proof (induction ss arbitrary: acc prev)
  case Nil
  then show ?case by (auto intro: reads_return)
next
  case (Cons s ss)
  from Cons.prems have "reads (parse_sig (acc, prev)) (acc @ [s], Some (ss_operator_id s)) (sig_bytes s)"
    by (intro parse_sig_reads) auto
  moreover from Cons.prems Cons.IH [of "Some (ss_operator_id s)" "acc @ [s]"] obtain l where
    "reads (rd_loop (length ss) parse_sig (acc @ [s], Some (ss_operator_id s)))
       ((acc @ [s]) @ ss, l) (concat (map sig_bytes ss))" by auto
  ultimately show ?case by (auto intro: reads_bind)
qed

lemma parse_sig_parses:
  "parses (parse_sig (acc, prev))
     (\<lambda>(ss, l) bs. \<exists>s. ss = acc @ [s] \<and> l = Some (ss_operator_id s) \<and> bs = sig_bytes s \<and>
        sig_wf s \<and> ids_above prev [s])"
  unfolding parse_sig_def prod.case
  by (intro parses_bind [OF aerr_u32.sound] parses_if parses_fail
      parses_bind [OF aerr_bytes_u16.sound] parses_return)
    (auto simp: sig_bytes_def sig_wf_def split: option.splits)

lemma parse_sigs_parses:
  "parses (rd_loop n parse_sig (acc, prev))
     (\<lambda>(ss, l) bs. \<exists>xs. ss = acc @ xs \<and> length xs = n \<and> bs = concat (map sig_bytes xs) \<and>
        (\<forall>s\<in>set xs. sig_wf s) \<and> ids_above prev xs)"
proof (induction n arbitrary: acc prev)
  case 0
  then show ?case by (auto intro: parses_return)
next
  case (Suc n)
  let ?Q = "\<lambda>(ss, l) bs. \<exists>xs. ss = acc @ xs \<and> length xs = Suc n \<and> bs = concat (map sig_bytes xs) \<and>
        (\<forall>s\<in>set xs. sig_wf s) \<and> ids_above prev xs"
  have "parses (rd_loop n parse_sig (acc @ [s], Some (ss_operator_id s))) (\<lambda>b cs. ?Q b (sig_bytes s @ cs))"
    if s: "sig_wf s" "ids_above prev [s]" for s
  proof (rule parses_mono [OF Suc.IH], clarify)
    fix xs assume "\<forall>s\<in>set xs. sig_wf s" "ids_above (Some (ss_operator_id s)) xs" "n = length xs"
    with s show "\<exists>ys. (acc @ [s]) @ xs = acc @ ys \<and> length ys = Suc (length xs) \<and>
        sig_bytes s @ concat (map sig_bytes xs) = concat (map sig_bytes ys) \<and>
        (\<forall>s\<in>set ys. sig_wf s) \<and> ids_above prev ys"
      by (intro exI [where x = "s # xs"]) simp
  qed
  then have "parses (rd_bind (parse_sig (acc, prev)) (rd_loop n parse_sig)) ?Q"
    by (intro parses_bind [OF parse_sig_parses]) auto
  then show ?case by simp
qed

lemma parse_sig_safe [safe_intros]: "safe (parse_sig acc)"
  unfolding parse_sig_def by (cases acc) (auto intro!: safe_intros)

section \<open>The envelopes\<close>

lemma parse_fact_field:
  "field_codec parse_fact (\<lambda>f. writer_fixed (fact_encode f)) (\<lambda>f. fact_wf f \<and> bf_version f = FACT_VERSION)"
proof unfold_locales
  fix f assume f: "fact_wf f \<and> bf_version f = FACT_VERSION"
  then have "reads (rd_map_err AirlockCodec (reader_fixed FACT_ENCODED_LEN)) (fact_encode f) (fact_encode f)"
    unfolding reader_fixed_def by (intro reads_map_err reads_take length_fact_encode) simp
  moreover have "reads (\<lambda>c. map_ok (\<lambda>f. (f, c)) (map_err AirlockCodec (fact_decode (fact_encode f)))) f []"
    using f by (simp add: reads_def fact_decode_encode)
  ultimately show "reads parse_fact f (writer_fixed (fact_encode f))"
    unfolding parse_fact_def writer_fixed_def by (rule reads_bind_last)
next
  have len: "length bs \<le> usize_max" if "length bs = FACT_ENCODED_LEN" for bs :: bytes
    using that by (simp add: FACT_ENCODED_LEN_def)
  show "safe parse_fact"
    unfolding parse_fact_def reader_fixed_def
  proof (rule safe_bind_parsed [OF safe_map_err [OF cursor_take_safe] parses_map_err [OF parses_take]])
    fix a bs :: bytes assume "length a = FACT_ENCODED_LEN \<and> bs = a"
    then have "fact_decode a \<noteq> Panic" using fact_decode_not_Panic len by blast
    then show "safe (\<lambda>c. map_ok (\<lambda>f. (f, c)) (map_err AirlockCodec (fact_decode a)))"
      by (auto simp: safe_def map_ok_Ok_iff map_ok_Panic_iff map_err_Panic_iff)
  qed
  show "parses parse_fact (\<lambda>f bs. (fact_wf f \<and> bf_version f = FACT_VERSION) \<and> bs = writer_fixed (fact_encode f))"
    unfolding parse_fact_def reader_fixed_def writer_fixed_def
    by (rule parses_bind [OF parses_map_err [OF parses_take]])
      (auto simp: parses_def map_ok_Ok_iff map_err_Ok_iff dest!: fact_decode_sound [OF _ len])
qed

interpretation parse_fact_f:
  field_codec parse_fact "\<lambda>f. writer_fixed (fact_encode f)" "\<lambda>f. fact_wf f \<and> bf_version f = FACT_VERSION"
  by (rule parse_fact_field)

definition attestation_tail :: "attestation_envelope \<Rightarrow> bytes" where
  "attestation_tail env =
     writer_u8 ENVELOPE_VERSION @ writer_fixed (fact_encode (ae_fact env)) @
     writer_u32 (word_of_nat (length (ae_signatures env))) @
     concat (map sig_bytes (ae_signatures env))"

definition stark_tail :: "stark_envelope \<Rightarrow> bytes" where
  "stark_tail env = writer_fixed (se_statement_digest env) @ prefixed_u32 (se_proof env)"

fun artifact_tail :: "artifact \<Rightarrow> bytes" where
  "artifact_tail (Attestation env) = attestation_tail env"
| "artifact_tail (Stark env) = stark_tail env"

fun artifact_tag :: "artifact \<Rightarrow> u8" where
  "artifact_tag (Attestation env) = ARTIFACT_ATTESTATION"
| "artifact_tag (Stark env) = ARTIFACT_STARK"

lemma artifact_encode_Ok:
  "artifact_wf art \<Longrightarrow> artifact_encode art = Ok (writer_u8 (artifact_tag art) @ artifact_tail art)"
  by (cases art)
    (auto simp: attestation_encode_def sort_key_strict write_sigs_Ok attestation_tail_def
      Let_def stark_encode_def writer_bytes_u32_def stark_tail_def)

lemma count_word:
  assumes "n < 2 ^ 32"
  shows "unat (word_of_nat n :: u32) = n" "(word_of_nat n :: u32) = 0 \<longleftrightarrow> n = 0"
proof -
  show "unat (word_of_nat n :: u32) = n" using assms by (simp add: unat_of_nat)
  then show "(word_of_nat n :: u32) = 0 \<longleftrightarrow> n = 0" by (auto simp: unat_eq_zero [symmetric])
qed

lemma parse_attestation_reads:
  assumes "artifact_wf (Attestation env)"
  shows "reads_all parse_attestation env (attestation_tail env)"
proof -
  let ?ss = "ae_signatures env"
  let ?n = "word_of_nat (length ?ss) :: u32"
  have n: "unat ?n = length ?ss" "?n \<noteq> 0" using assms count_word [of "length ?ss"] by auto
  obtain l where l: "reads (rd_loop (unat ?n) parse_sig ([], None)) (?ss, l) (concat (map sig_bytes ?ss))"
    using parse_sigs_reads [of None ?ss "[]"] assms n by (auto simp: ids_above_None_iff)
  show ?thesis
    unfolding parse_attestation_def attestation_tail_def
    apply (rule reads_all_bind [OF aerr_u8.complete [OF TrueI]], simp)
    apply (rule reads_all_bind [OF parse_fact_f.complete], use assms in simp)
    apply (rule reads_all_bind [OF aerr_u32.complete [OF TrueI]], simp add: n)
    apply (rule reads_all_bind_last [OF l [unfolded n]], simp)
    by (rule reads_all_finish) simp
qed

lemma parse_attestation_parses:
  "parses_all parse_attestation (\<lambda>env bs. artifact_wf (Attestation env) \<and> bs = attestation_tail env)"
  unfolding parse_attestation_def
proof (intro parses_all_bind [OF aerr_u8.sound] parses_all_if parses_all_fail
    parses_all_bind [OF parse_fact_f.sound] parses_all_bind [OF aerr_u32.sound]
    parses_all_bind [OF parse_sigs_parses], clarsimp)
  fix fact count xs
  assume wf: "fact_wf fact" "bf_version fact = FACT_VERSION" "count \<noteq> (0 :: u32)"
    "length xs = unat count" "\<forall>s\<in>set xs. sig_wf s" "ids_above None xs"
  have count: "word_of_nat (length xs) = count" "length xs < 2 ^ 32" "xs \<noteq> []"
    using wf(3,4) unsigned_less [of count] by (auto simp: unat_eq_0)
  show "parses_all (rd_bind (rd_map_err AirlockCodec reader_finish)
         (\<lambda>_. rd_return \<lparr>ae_fact = fact, ae_signatures = xs\<rparr>))
       (\<lambda>b cs. fact_wf (ae_fact b) \<and> bf_version (ae_fact b) = FACT_VERSION \<and> ae_signatures b \<noteq> [] \<and>
         length (ae_signatures b) < 4294967296 \<and> sorted_wrt (<) (map ss_operator_id (ae_signatures b)) \<and>
         (\<forall>s\<in>set (ae_signatures b). sig_wf s) \<and>
         writer_u8 ENVELOPE_VERSION @ writer_fixed (fact_encode fact) @ writer_u32 count @
            concat (map sig_bytes xs) @ cs = attestation_tail b)"
    by (rule parses_all_finish) (use wf count in \<open>simp add: attestation_tail_def ids_above_None_iff\<close>)
qed

lemma parse_stark_reads:
  assumes "artifact_wf (Stark env)"
  shows "reads_all parse_stark env (stark_tail env)"
  unfolding parse_stark_def stark_tail_def using assms
  by (intro reads_all_bind [OF aerr_array32.complete] reads_all_bind_last [OF aerr_bytes_u32.complete]
      reads_all_finish) simp_all

lemma parse_stark_parses:
  "parses_all parse_stark (\<lambda>env bs. artifact_wf (Stark env) \<and> bs = stark_tail env)"
  unfolding parse_stark_def
  by (intro parses_all_bind [OF aerr_array32.sound] parses_all_bind [OF aerr_bytes_u32.sound]
      parses_all_finish) (simp add: stark_tail_def)

lemma parse_attestation_safe: "safe parse_attestation"
  unfolding parse_attestation_def
  by (intro safe_intros parse_fact_f.safe) (auto simp: case_prod_beta intro!: safe_intros)

lemma parse_stark_safe: "safe parse_stark"
  unfolding parse_stark_def by (intro safe_intros)

section \<open>The parser\<close>

lemma tags_distinct [simp]: "ARTIFACT_ATTESTATION \<noteq> ARTIFACT_STARK" "ARTIFACT_STARK \<noteq> ARTIFACT_ATTESTATION"
  by (simp_all add: ARTIFACT_ATTESTATION_def ARTIFACT_STARK_def)

lemma airlock_parse_Cons:
  assumes "length (tag # bs) \<le> usize_max"
  obtains c where "cur_ok c" "rest c = bs"
    "airlock_parse (tag # bs) =
       (if tag = ARTIFACT_ATTESTATION then map_ok (\<lambda>(a, _). Attestation a) (parse_attestation c)
        else if tag = ARTIFACT_STARK then map_ok (\<lambda>(a, _). Stark a) (parse_stark c)
        else Err Unparseable)"
proof -
  have "cur_ok (cursor_new (tag # bs))" "rest (cursor_new (tag # bs)) = writer_u8 tag @ bs"
    using assms by (auto simp: writer_u8_def)
  from readsD [OF aerr_u8.complete [OF TrueI] this] obtain c
    where "rd_map_err (\<lambda>_. Unparseable) reader_u8 (cursor_new (tag # bs)) = Ok (tag, c)"
      "cur_ok c" "rest c = bs" .
  then show thesis by (intro that [of c]) (simp_all add: airlock_parse_def)
qed

lemma airlock_parse_Nil: "airlock_parse [] = Err Unparseable"
  by (simp add: airlock_parse_def rd_map_err_def reader_u8_def cursor_advance_def cursor_new_def)

lemma airlock_parse_encode:
  assumes "artifact_wf art" "artifact_encode art = Ok bs" "length bs \<le> usize_max"
  shows "airlock_parse bs = Ok art"
proof -
  from assms have bs: "bs = artifact_tag art # artifact_tail art"
    by (simp add: artifact_encode_Ok writer_u8_def)
  then obtain c where c: "cur_ok c" "rest c = artifact_tail art"
    and p: "airlock_parse bs =
       (if artifact_tag art = ARTIFACT_ATTESTATION then map_ok (\<lambda>(a, _). Attestation a) (parse_attestation c)
        else if artifact_tag art = ARTIFACT_STARK then map_ok (\<lambda>(a, _). Stark a) (parse_stark c)
        else Err Unparseable)"
    using airlock_parse_Cons [of "artifact_tag art" "artifact_tail art"] assms(3) by metis
  show ?thesis
    using assms(1) c p reads_allD [OF parse_attestation_reads] reads_allD [OF parse_stark_reads]
    by (cases art) force+
qed

lemma airlock_parse_sound:
  assumes "airlock_parse bs = Ok art" "length bs \<le> usize_max"
  shows "artifact_wf art \<and> artifact_encode art = Ok bs"
proof (cases bs)
  case Nil
  with assms show ?thesis by (simp add: airlock_parse_Nil)
next
  case (Cons tag t)
  then obtain c where c: "cur_ok c" "rest c = t"
    and p: "airlock_parse bs =
       (if tag = ARTIFACT_ATTESTATION then map_ok (\<lambda>(a, _). Attestation a) (parse_attestation c)
        else if tag = ARTIFACT_STARK then map_ok (\<lambda>(a, _). Stark a) (parse_stark c)
        else Err Unparseable)"
    using airlock_parse_Cons [of tag t] assms(2) by metis
  have "artifact_wf art \<and> tag = artifact_tag art \<and> t = artifact_tail art"
    using assms(1) c parses_allD [OF parse_attestation_parses] parses_allD [OF parse_stark_parses]
    unfolding p by (fastforce simp: map_ok_Ok_iff simp del: artifact_wf.simps split: if_splits)
  then show ?thesis using Cons by (simp add: artifact_encode_Ok writer_u8_def)
qed

lemma airlock_parse_not_Panic:
  assumes "length bs \<le> usize_max"
  shows "airlock_parse bs \<noteq> Panic"
proof (cases bs)
  case Nil
  then show ?thesis by (simp add: airlock_parse_Nil)
next
  case (Cons tag t)
  then show ?thesis
    using airlock_parse_Cons [of tag t] assms
      safe_Panic [OF parse_attestation_safe] safe_Panic [OF parse_stark_safe]
    by (metis map_ok_Panic_iff res.distinct(5))
qed

lemma airlock_parse_foreign:
  assumes "length (tag # bs) \<le> usize_max" "tag \<noteq> ARTIFACT_ATTESTATION" "tag \<noteq> ARTIFACT_STARK"
  shows "airlock_parse (tag # bs) = Err Unparseable"
  using airlock_parse_Cons [OF assms(1)] assms(2,3) by metis

lemma sort_key_mset:
  assumes "mset xs = mset ys" "distinct (map ss_operator_id xs)"
  shows "sort_key ss_operator_id xs = sort_key ss_operator_id ys"
proof -
  let ?a = "sort_key ss_operator_id xs" and ?b = "sort_key ss_operator_id ys"
  have m: "mset ?a = mset ?b" using assms(1) by simp
  then have "mset (map ss_operator_id ?a) = mset (map ss_operator_id ?b)" by simp
  then have eq: "map ss_operator_id ?a = map ss_operator_id ?b"
    by (metis properties_for_sort sorted_sort_key)
  from m have set: "set ?a = set ?b" by (metis mset_eq_setD)
  have "inj_on ss_operator_id (set ?a)" using assms(2) by (simp add: distinct_map)
  with eq set show ?thesis by (simp add: inj_on_map_eq_map)
qed

section \<open>Properties\<close>

definition sample_envelope :: attestation_envelope where
  "sample_envelope =
     \<lparr>ae_fact = sample_fact,
      ae_signatures = [\<lparr>ss_operator_id = 0, ss_signature = [1, 2, 3]\<rparr>,
                       \<lparr>ss_operator_id = 4, ss_signature = [9, 9]\<rparr>]\<rparr>"

lemma sample_envelope_wf: "artifact_wf (Attestation sample_envelope)"
  by (simp add: sample_envelope_def sample_fact_wf sig_wf_def)

text \<open>C35: the airlock parser admits exactly the canonical encodings of the two artifacts: on any slice
  it returns an artifact if and only if the artifact is well formed (its fact of the current version,
  at least one signature, operators strictly increasing) and the slice is what \<open>encode\<close> writes for
  it; a slice that opens with any other tag is \<open>Unparseable\<close>, and no input makes it panic.\<close>

theorem airlock_parse_canonical:
  assumes "length bs \<le> usize_max"
  shows "(airlock_parse bs = Ok art \<longleftrightarrow>
            artifact_wf art \<and> (artifact_encode art :: (airlock_error, bytes) res) = Ok bs) \<and>
         (bs = [] \<or> hd bs \<notin> {ARTIFACT_ATTESTATION, ARTIFACT_STARK} \<longrightarrow> airlock_parse bs = Err Unparseable) \<and>
         airlock_parse bs \<noteq> Panic"
proof (intro conjI impI)
  show "airlock_parse bs = Ok art \<longleftrightarrow>
      artifact_wf art \<and> (artifact_encode art :: (airlock_error, bytes) res) = Ok bs"
    using airlock_parse_sound [OF _ assms] airlock_parse_encode [OF _ _ assms] by blast
  show "airlock_parse bs \<noteq> Panic" using assms by (rule airlock_parse_not_Panic)
  assume "bs = [] \<or> hd bs \<notin> {ARTIFACT_ATTESTATION, ARTIFACT_STARK}"
  then show "airlock_parse bs = Err Unparseable"
    using airlock_parse_Nil airlock_parse_foreign assms by (cases bs) auto
qed

theorem airlock_parse_canonical_witness:
  "\<exists>bs. length bs \<le> usize_max \<and> airlock_parse bs = Ok (Attestation sample_envelope)"
proof -
  let ?bs = "writer_u8 ARTIFACT_ATTESTATION @ attestation_tail sample_envelope"
  have len: "length ?bs \<le> usize_max"
    by (simp add: writer_defs attestation_tail_def length_fact_encode sample_envelope_def
        sample_fact_wf FACT_ENCODED_LEN_def sig_bytes_def)
  have "(artifact_encode (Attestation sample_envelope) :: (airlock_error, bytes) res) = Ok ?bs"
    using artifact_encode_Ok [OF sample_envelope_wf] by simp
  with airlock_parse_canonical [OF len, of "Attestation sample_envelope"] sample_envelope_wf
  have "airlock_parse ?bs = Ok (Attestation sample_envelope)" by blast
  with len show ?thesis by blast
qed

text \<open>The encoding of an attestation does not depend on the order the signatures were collected
  in: two envelopes over one fact that hold the same signatures, from distinct operators, have the
  same bytes.\<close>

theorem attestation_encode_order_free:
  assumes "ae_fact e1 = ae_fact e2" "mset (ae_signatures e1) = mset (ae_signatures e2)"
    and "distinct (map ss_operator_id (ae_signatures e1))"
  shows "(attestation_encode e1 :: (airlock_error, bytes) res) = attestation_encode e2"
  using sort_key_mset [OF assms(2,3)] assms(1) by (simp add: attestation_encode_def)

theorem attestation_encode_order_free_witness:
  "(attestation_encode sample_envelope :: (airlock_error, bytes) res) =
   attestation_encode (sample_envelope\<lparr>ae_signatures := rev (ae_signatures sample_envelope)\<rparr>)"
  by (rule attestation_encode_order_free) (simp_all add: sample_envelope_def)

end
