(* ===== verification/Ordered_Map.thy ===== *)
theory Ordered_Map
  imports Prelude "HOL-Library.Multiset" "HOL-Library.List_Lexorder" "HOL-Library.Product_Lexorder"
begin

text \<open>
  The standard library's \<open>BTreeMap\<close> and \<open>BTreeSet\<close>, which every component of the program keeps its
  tables in. The code iterates over them in key order (it hashes and serialises what it meets), so
  a map is the list of its entries in strictly increasing key order and a set the strictly
  increasing list of its elements; byte arrays and pairs are ordered lexicographically, as in Rust.

  \<open>key_value_store\<close> is the interface the clients use: what a lookup returns after an insertion or a
  removal, that both keep the representation, and that two maps with the same lookups are equal.
  \<open>bt\<close> interprets it on the lists. \<open>membership_store\<close> and \<open>bs\<close> do the same for sets.
\<close>

type_synonym ('k, 'v) btree_map = "('k \<times> 'v) list"
type_synonym 'k btree_set = "'k list"

fun bt_insert :: "'k::linorder \<Rightarrow> 'v \<Rightarrow> ('k, 'v) btree_map \<Rightarrow> ('k, 'v) btree_map" where
  "bt_insert k v [] = [(k, v)]"
| "bt_insert k v ((k', v') # m) =
     (if k < k' then (k, v) # (k', v') # m
      else if k = k' then (k, v) # m
      else (k', v') # bt_insert k v m)"

fun bt_remove :: "'k \<Rightarrow> ('k, 'v) btree_map \<Rightarrow> ('k, 'v) btree_map" where
  "bt_remove k [] = []"
| "bt_remove k ((k', v') # m) = (if k = k' then m else (k', v') # bt_remove k m)"

definition bt_get :: "('k, 'v) btree_map \<Rightarrow> 'k \<Rightarrow> 'v option" where
  "bt_get m k = map_of m k"

definition bt_get_or :: "('k, 'v) btree_map \<Rightarrow> 'k \<Rightarrow> 'v \<Rightarrow> 'v" where
  "bt_get_or m k d = (case bt_get m k of Some v \<Rightarrow> v | None \<Rightarrow> d)"

definition bt_contains :: "('k, 'v) btree_map \<Rightarrow> 'k \<Rightarrow> bool" where
  "bt_contains m k \<longleftrightarrow> bt_get m k \<noteq> None"

definition bt_wf :: "('k::linorder, 'v) btree_map \<Rightarrow> bool" where
  "bt_wf m \<longleftrightarrow> sorted_wrt (<) (map fst m)"

fun bs_insert :: "'k::linorder \<Rightarrow> 'k btree_set \<Rightarrow> 'k btree_set" where
  "bs_insert k [] = [k]"
| "bs_insert k (k' # s) =
     (if k < k' then k # k' # s else if k = k' then k' # s else k' # bs_insert k s)"

definition bs_remove :: "'k \<Rightarrow> 'k btree_set \<Rightarrow> 'k btree_set" where
  "bs_remove k s = removeAll k s"

definition bs_contains :: "'k btree_set \<Rightarrow> 'k \<Rightarrow> bool" where
  "bs_contains s k \<longleftrightarrow> k \<in> set s"

definition bs_wf :: "('k::linorder) btree_set \<Rightarrow> bool" where
  "bs_wf s \<longleftrightarrow> sorted_wrt (<) s"

section \<open>The interface of a map\<close>

locale key_value_store =
  fixes empty :: 'm
    and put :: "'k \<Rightarrow> 'v \<Rightarrow> 'm \<Rightarrow> 'm"
    and del :: "'k \<Rightarrow> 'm \<Rightarrow> 'm"
    and get :: "'m \<Rightarrow> 'k \<Rightarrow> 'v option"
    and wf :: "'m \<Rightarrow> bool"
  assumes wf_empty: "wf empty"
    and wf_put: "wf m \<Longrightarrow> wf (put k v m)"
    and wf_del: "wf m \<Longrightarrow> wf (del k m)"
    and get_empty: "get empty k = None"
    and get_put: "get (put k v m) k' = (if k' = k then Some v else get m k')"
    and get_del: "wf m \<Longrightarrow> get (del k m) k' = (if k' = k then None else get m k')"
    and ext: "wf m \<Longrightarrow> wf m' \<Longrightarrow> (\<And>k. get m k = get m' k) \<Longrightarrow> m = m'"
begin

lemma put_same: "wf m \<Longrightarrow> get m k = Some v \<Longrightarrow> put k v m = m"
  by (rule ext) (auto simp: wf_put get_put)

lemma put_put: "wf m \<Longrightarrow> put k v (put k w m) = put k v m"
  by (rule ext) (auto simp: wf_put get_put)

lemma put_commute: "wf m \<Longrightarrow> k \<noteq> k' \<Longrightarrow> put k v (put k' w m) = put k' w (put k v m)"
  by (rule ext) (auto simp: wf_put get_put)

lemma del_put_new: "wf m \<Longrightarrow> get m k = None \<Longrightarrow> del k (put k v m) = m"
  by (rule ext) (auto simp: wf_put wf_del get_put get_del)

end

section \<open>The interface of a set\<close>

locale membership_store =
  fixes empty :: 's
    and add :: "'k \<Rightarrow> 's \<Rightarrow> 's"
    and rem :: "'k \<Rightarrow> 's \<Rightarrow> 's"
    and mem :: "'s \<Rightarrow> 'k \<Rightarrow> bool"
    and wf :: "'s \<Rightarrow> bool"
  assumes wf_empty: "wf empty"
    and wf_add: "wf s \<Longrightarrow> wf (add k s)"
    and wf_rem: "wf s \<Longrightarrow> wf (rem k s)"
    and mem_empty: "\<not> mem empty k"
    and mem_add: "mem (add k s) k' \<longleftrightarrow> k' = k \<or> mem s k'"
    and mem_rem: "mem (rem k s) k' \<longleftrightarrow> k' \<noteq> k \<and> mem s k'"
    and ext: "wf s \<Longrightarrow> wf s' \<Longrightarrow> (\<And>k. mem s k = mem s' k) \<Longrightarrow> s = s'"
begin

lemma add_same: "wf s \<Longrightarrow> mem s k \<Longrightarrow> add k s = s"
  by (rule ext) (auto simp: wf_add mem_add)

lemma rem_add_new: "wf s \<Longrightarrow> \<not> mem s k \<Longrightarrow> rem k (add k s) = s"
  by (rule ext) (auto simp: wf_add wf_rem mem_add mem_rem)

end

section \<open>The lists implement the interfaces\<close>

lemma fst_bt_insert: "fst ` set (bt_insert k v m) = insert k (fst ` set m)"
  by (induction k v m rule: bt_insert.induct) (simp_all add: insert_commute)

lemma bt_wf_insert [simp]: "bt_wf m \<Longrightarrow> bt_wf (bt_insert k v m)"
  unfolding bt_wf_def
proof (induction k v m rule: bt_insert.induct)
  case (2 k v k' v' m)
  have "\<forall>x\<in>set (bt_insert k v m). fst x = k \<or> fst x \<in> fst ` set m"
    using fst_bt_insert [of k v m] by blast
  with 2 show ?case by (fastforce split: if_splits)
qed simp

lemma fst_bt_remove_subset: "fst ` set (bt_remove k m) \<subseteq> fst ` set m"
  by (induction k m rule: bt_remove.induct) auto

lemma bt_wf_remove [simp]: "bt_wf m \<Longrightarrow> bt_wf (bt_remove k m)"
  unfolding bt_wf_def
proof (induction k m rule: bt_remove.induct)
  case (2 k k' v' m)
  have "\<forall>x\<in>set (bt_remove k m). fst x \<in> fst ` set m"
    using fst_bt_remove_subset [of k m] by blast
  with 2 show ?case by (fastforce split: if_splits)
qed simp

lemma bt_wf_Nil [simp]: "bt_wf []"
  by (simp add: bt_wf_def)

lemma bt_wf_distinct: "bt_wf m \<Longrightarrow> distinct (map fst m)"
  by (simp add: bt_wf_def strict_sorted_iff)

lemma bt_get_insert: "bt_get (bt_insert k v m) k' = (if k' = k then Some v else bt_get m k')"
  unfolding bt_get_def by (induction m) auto

lemma bt_get_remove: "bt_wf m \<Longrightarrow> bt_get (bt_remove k m) k' = (if k' = k then None else bt_get m k')"
  unfolding bt_get_def bt_wf_def
proof (induction k m rule: bt_remove.induct)
  case (2 k k1 v1 m)
  then have "map_of m k1 = None" by (auto simp: map_of_eq_None_iff)
  with 2 show ?case by auto
qed simp

lemma bt_entries:
  assumes "bt_wf m"
  shows "map (\<lambda>k. (k, the (map_of m k))) (map fst m) = m"
proof -
  from assms have "distinct (map fst m)" by (rule bt_wf_distinct)
  then have "\<forall>p\<in>set m. map_of m (fst p) = Some (snd p)" by simp
  then show ?thesis unfolding map_map by (intro map_idI) simp
qed

lemma bt_ext:
  assumes "bt_wf m" "bt_wf m'" "\<And>k. bt_get m k = bt_get m' k"
  shows "m = m'"
proof -
  from assms(3) have eq: "map_of m = map_of m'" by (auto simp: bt_get_def)
  then have "fst ` set m = fst ` set m'" by (metis dom_map_of_conv_image_fst)
  then have "map fst m = map fst m'"
    using assms(1,2) by (intro sorted_distinct_set_unique) (auto simp: bt_wf_def strict_sorted_iff)
  with eq bt_entries [OF assms(1)] bt_entries [OF assms(2)] show ?thesis by metis
qed

lemma set_bs_insert [simp]: "set (bs_insert k s) = insert k (set s)"
  by (induction s) auto

lemma bs_wf_insert [simp]: "bs_wf s \<Longrightarrow> bs_wf (bs_insert k s)"
  unfolding bs_wf_def by (induction s) auto

lemma bs_wf_remove [simp]: "bs_wf s \<Longrightarrow> bs_wf (bs_remove k s)"
  unfolding bs_wf_def bs_remove_def by (simp add: removeAll_filter_not_eq sorted_wrt_filter)

lemma bs_wf_Nil [simp]: "bs_wf []"
  by (simp add: bs_wf_def)

interpretation bt: key_value_store "[]" bt_insert bt_remove bt_get bt_wf
  by unfold_locales (auto simp: bt_get_insert bt_get_remove intro: bt_ext, simp add: bt_get_def)

interpretation bs: membership_store "[]" bs_insert bs_remove bs_contains bs_wf
proof unfold_locales
  fix s s' :: "'a list"
  assume "bs_wf s" "bs_wf s'" "\<And>k. bs_contains s k = bs_contains s' k"
  then show "s = s'"
    by (intro sorted_distinct_set_unique) (auto simp: bs_wf_def bs_contains_def strict_sorted_iff)
qed (auto simp: bs_contains_def bs_wf_remove, auto simp: bs_remove_def)

lemmas bt_simps = bt.get_put bt.get_del bt_get_or_def bt_contains_def
lemmas bs_simps = bs.mem_add bs.mem_rem

section \<open>Sums over the entries, and rebuilding a map from its entries\<close>

lemma mset_bt_insert_new:
  "bt_get m k = None \<Longrightarrow> mset (bt_insert k v m) = add_mset (k, v) (mset m)"
  unfolding bt_get_def by (induction m) (auto split: if_splits)

lemma mset_bt_remove:
  "bt_get m k = Some v \<Longrightarrow> mset m = add_mset (k, v) (mset (bt_remove k m))"
  unfolding bt_get_def by (induction m) (auto split: if_splits)

lemma bt_remove_id: "bt_get m k = None \<Longrightarrow> bt_remove k m = m"
  unfolding bt_get_def by (induction m) (auto split: if_splits)

lemma sum_list_bt_insert_new:
  fixes f :: "'k::linorder \<times> 'v \<Rightarrow> nat"
  assumes "bt_get m k = None"
  shows "sum_list (map f (bt_insert k v m)) = f (k, v) + sum_list (map f m)"
  using mset_bt_insert_new [OF assms, of v]
  by (simp flip: sum_mset_sum_list)

lemma sum_list_bt_remove:
  fixes f :: "'k::linorder \<times> 'v \<Rightarrow> nat"
  assumes "bt_get m k = Some v"
  shows "sum_list (map f m) = f (k, v) + sum_list (map f (bt_remove k m))"
  using mset_bt_remove [OF assms]
  by (simp flip: sum_mset_sum_list)

lemma bt_insert_above: "\<forall>x\<in>fst ` set m. x < k \<Longrightarrow> bt_insert k v m = m @ [(k, v)]"
  by (induction m) auto

lemma bs_insert_above: "\<forall>x\<in>set s. x < k \<Longrightarrow> bs_insert k s = s @ [k]"
  by (induction s) auto

lemma fold_bt_insert:
  "bt_wf (m @ xs) \<Longrightarrow> fold (\<lambda>(k, v). bt_insert k v) xs m = m @ xs"
proof (induction xs arbitrary: m)
  case Nil
  then show ?case by simp
next
  case (Cons p xs)
  obtain k v where p: "p = (k, v)" by (cases p)
  from Cons.prems p have "bt_insert k v m = m @ [(k, v)]"
    by (intro bt_insert_above) (auto simp: bt_wf_def sorted_wrt_append)
  with Cons.IH [of "m @ [(k, v)]"] Cons.prems p show ?case by simp
qed

lemma fold_bs_insert: "bs_wf (s @ xs) \<Longrightarrow> fold bs_insert xs s = s @ xs"
proof (induction xs arbitrary: s)
  case Nil
  then show ?case by simp
next
  case (Cons x xs)
  from Cons.prems have "bs_insert x s = s @ [x]"
    by (intro bs_insert_above) (auto simp: bs_wf_def sorted_wrt_append)
  with Cons.IH [of "s @ [x]"] Cons.prems show ?case by simp
qed

end
