(* ===== verification/Operators.thy ===== *)
theory Operators
  imports Airlock Ordered_Map
begin

text \<open>
  \<^verbatim>\<open>crates/q-gateway/src/operators.rs\<close>: the operator registry and the count of distinct operators
  whose signature verifies. The ML-DSA scheme is a package outside the repository (\<open>qtv_crypto\<close>), so
  its public keys are a type parameter and its \<open>verify\<close> and \<open>SIGNATURE_BYTES\<close> are the record
  \<open>ml_dsa\<close>, an argument of every definition that calls them; nothing is assumed about it here.
\<close>

record 'pk ml_dsa =
  md_verify :: "'pk \<Rightarrow> bytes \<Rightarrow> bytes \<Rightarrow> bytes \<Rightarrow> bool"
  md_signature_bytes :: usize

record 'pk operator_set =
  os_pubkeys :: "(u32, 'pk) btree_map"
  os_threshold :: usize

definition supermajority_floor :: "usize \<Rightarrow> usize" where
  "supermajority_floor n = max (sat_mul_usize n 2 div 3 + 1) 2"

definition operator_set_new :: "usize \<Rightarrow> 'pk operator_set" where
  "operator_set_new threshold = \<lparr>os_pubkeys = [], os_threshold = threshold\<rparr>"

definition os_register :: "u32 \<Rightarrow> 'pk \<Rightarrow> 'pk operator_set \<Rightarrow> 'pk operator_set \<times> bool" where
  "os_register operator_id pubkey ops =
     (if \<exists>(id, existing) \<in> set (os_pubkeys ops). id \<noteq> operator_id \<and> existing = pubkey
      then (ops, False)
      else (ops\<lparr>os_pubkeys := bt_insert operator_id pubkey (os_pubkeys ops)\<rparr>, True))"

definition os_remove :: "u32 \<Rightarrow> 'pk operator_set \<Rightarrow> 'pk operator_set" where
  "os_remove operator_id ops = ops\<lparr>os_pubkeys := bt_remove operator_id (os_pubkeys ops)\<rparr>"

definition os_pubkey :: "'pk operator_set \<Rightarrow> u32 \<Rightarrow> 'pk option" where
  "os_pubkey ops operator_id = bt_get (os_pubkeys ops) operator_id"

definition os_size :: "'pk operator_set \<Rightarrow> usize" where
  "os_size ops = length (os_pubkeys ops)"

definition os_set_threshold :: "usize \<Rightarrow> 'pk operator_set \<Rightarrow> 'pk operator_set" where
  "os_set_threshold threshold ops =
     ops\<lparr>os_threshold := max threshold (supermajority_floor (length (os_pubkeys ops)))\<rparr>"

text \<open>The loop of \<open>verified_quorum\<close>, one equation per turn, each \<open>continue\<close> a branch.\<close>

fun vq_loop ::
  "'pk ml_dsa \<Rightarrow> bytes \<Rightarrow> bytes \<Rightarrow> 'pk operator_set \<Rightarrow> signer_sig list \<Rightarrow>
   u32 btree_set \<Rightarrow> (u32 \<times> bytes) btree_set \<Rightarrow> signer_sig list \<Rightarrow> signer_sig list" where
  "vq_loop md message ctx ops [] seen attempted accepted = accepted"
| "vq_loop md message ctx ops (s # sigs) seen attempted accepted =
     (if bs_contains seen (ss_operator_id s)
      then vq_loop md message ctx ops sigs seen attempted accepted
      else if bs_contains attempted (ss_operator_id s, ss_signature s)
      then vq_loop md message ctx ops sigs seen attempted accepted
      else
        let attempted = bs_insert (ss_operator_id s, ss_signature s) attempted in
        case os_pubkey ops (ss_operator_id s) of
          None \<Rightarrow> vq_loop md message ctx ops sigs seen attempted accepted
        | Some pk \<Rightarrow>
            if length (ss_signature s) \<noteq> md_signature_bytes md
            then vq_loop md message ctx ops sigs seen attempted accepted
            else if \<not> md_verify md pk message (ss_signature s) ctx
            then vq_loop md message ctx ops sigs seen attempted accepted
            else vq_loop md message ctx ops sigs
                   (bs_insert (ss_operator_id s) seen) attempted (accepted @ [s]))"

definition verified_quorum ::
  "'pk ml_dsa \<Rightarrow> bytes \<Rightarrow> bytes \<Rightarrow> signer_sig list \<Rightarrow> 'pk operator_set \<Rightarrow> signer_sig list" where
  "verified_quorum md message ctx sigs ops =
     (if length sigs > os_size ops then []
      else vq_loop md message ctx ops sigs [] [] [])"

definition verify_quorum ::
  "'pk ml_dsa \<Rightarrow> bytes \<Rightarrow> bytes \<Rightarrow> signer_sig list \<Rightarrow> 'pk operator_set \<Rightarrow> u32 btree_set" where
  "verify_quorum md message ctx sigs ops =
     fold (\<lambda>s. bs_insert (ss_operator_id s)) (verified_quorum md message ctx sigs ops) []"

section \<open>What the loop accepts\<close>

text \<open>A signature that counts: its operator is registered and the scheme accepts it under that key.\<close>

definition sig_counts ::
  "'pk ml_dsa \<Rightarrow> bytes \<Rightarrow> bytes \<Rightarrow> 'pk operator_set \<Rightarrow> signer_sig \<Rightarrow> bool" where
  "sig_counts md message ctx ops s \<longleftrightarrow>
     (\<exists>pk. os_pubkey ops (ss_operator_id s) = Some pk \<and>
        length (ss_signature s) = md_signature_bytes md \<and>
        md_verify md pk message (ss_signature s) ctx)"

definition operators_of :: "'pk operator_set \<Rightarrow> u32 set" where
  "operators_of ops = fst ` set (os_pubkeys ops)"

definition os_wf :: "'pk operator_set \<Rightarrow> bool" where
  "os_wf ops \<longleftrightarrow> bt_wf (os_pubkeys ops)"

text \<open>No key fills two slots.\<close>

definition os_keys_distinct :: "'pk operator_set \<Rightarrow> bool" where
  "os_keys_distinct ops \<longleftrightarrow>
     (\<forall>i j pk. os_pubkey ops i = Some pk \<and> os_pubkey ops j = Some pk \<longrightarrow> i = j)"

text \<open>The loop invariant: the tried pairs either count for nobody or their operator is counted.\<close>

definition vq_inv ::
  "'pk ml_dsa \<Rightarrow> bytes \<Rightarrow> bytes \<Rightarrow> 'pk operator_set \<Rightarrow> u32 btree_set \<Rightarrow>
   (u32 \<times> bytes) btree_set \<Rightarrow> signer_sig list \<Rightarrow> bool" where
  "vq_inv md message ctx ops seen attempted accepted \<longleftrightarrow>
     (\<forall>s. bs_contains attempted (ss_operator_id s, ss_signature s) \<and>
        sig_counts md message ctx ops s \<longrightarrow> bs_contains seen (ss_operator_id s)) \<and>
     set seen = ss_operator_id ` set accepted \<and>
     distinct (map ss_operator_id accepted) \<and>
     (\<forall>s\<in>set accepted. sig_counts md message ctx ops s)"

lemma vq_loop_spec:
  assumes "vq_inv md message ctx ops seen attempted accepted"
  shows "\<exists>new. vq_loop md message ctx ops sigs seen attempted accepted = accepted @ new \<and>
     set new \<subseteq> set sigs \<and>
     distinct (map ss_operator_id (accepted @ new)) \<and>
     (\<forall>s\<in>set new. sig_counts md message ctx ops s) \<and>
     ss_operator_id ` set (accepted @ new) =
       ss_operator_id ` set accepted \<union>
       ss_operator_id ` {s \<in> set sigs. sig_counts md message ctx ops s}"
  using assms
proof (induction sigs arbitrary: seen attempted accepted)
  case Nil
  then show ?case by (auto simp: vq_inv_def)
next
  case (Cons s sigs)
  note inv = Cons.prems
  let ?id = "ss_operator_id s" and ?c = "sig_counts md message ctx ops"
  show ?case
  proof (cases "bs_contains seen ?id \<or> bs_contains attempted (?id, ss_signature s)")
    case True
    then have "?c s \<Longrightarrow> ?id \<in> ss_operator_id ` set accepted"
      using inv by (auto simp: vq_inv_def bs_contains_def)
    moreover from True have "vq_loop md message ctx ops (s # sigs) seen attempted accepted =
        vq_loop md message ctx ops sigs seen attempted accepted" by auto
    ultimately show ?thesis using Cons.IH [OF inv] by fastforce
  next
    case False
    let ?att = "bs_insert (?id, ss_signature s) attempted"
    show ?thesis
    proof (cases "?c s")
      case True
      then have step: "vq_loop md message ctx ops (s # sigs) seen attempted accepted =
          vq_loop md message ctx ops sigs (bs_insert ?id seen) ?att (accepted @ [s])"
        using False by (auto simp: sig_counts_def Let_def)
      have "vq_inv md message ctx ops (bs_insert ?id seen) ?att (accepted @ [s])"
        using inv True False by (auto simp: vq_inv_def bs_contains_def)
      from Cons.IH [OF this] obtain new where
        "vq_loop md message ctx ops sigs (bs_insert ?id seen) ?att (accepted @ [s]) =
           (accepted @ [s]) @ new"
        "set new \<subseteq> set sigs"
        "distinct (map ss_operator_id ((accepted @ [s]) @ new))" "\<forall>s\<in>set new. ?c s"
        "ss_operator_id ` set ((accepted @ [s]) @ new) =
           ss_operator_id ` set (accepted @ [s]) \<union> ss_operator_id ` {s \<in> set sigs. ?c s}"
        by blast
      with step True show ?thesis by (intro exI [of _ "s # new"]) auto
    next
      case counts: False
      then have step: "vq_loop md message ctx ops (s # sigs) seen attempted accepted =
          vq_loop md message ctx ops sigs seen ?att accepted"
        using False by (auto simp: sig_counts_def Let_def split: option.splits)
      have "\<not> ?c t" if "ss_operator_id t = ?id" "ss_signature t = ss_signature s" for t
        using that counts by (simp add: sig_counts_def)
      then have "vq_inv md message ctx ops seen ?att accepted"
        using inv unfolding vq_inv_def bs_contains_def set_bs_insert by blast
      moreover have "{t \<in> set (s # sigs). ?c t} = {t \<in> set sigs. ?c t}" using counts by auto
      ultimately show ?thesis using Cons.IH [of seen ?att accepted] step by fastforce
    qed
  qed
qed

lemma verified_quorum_spec:
  assumes "length sigs \<le> os_size ops"
  shows "set (verified_quorum md message ctx sigs ops) \<subseteq> set sigs"
    and "distinct (map ss_operator_id (verified_quorum md message ctx sigs ops))"
    and "\<forall>s\<in>set (verified_quorum md message ctx sigs ops). sig_counts md message ctx ops s"
    and "ss_operator_id ` set (verified_quorum md message ctx sigs ops) =
           ss_operator_id ` {s \<in> set sigs. sig_counts md message ctx ops s}"
proof -
  have "vq_inv md message ctx ops [] [] []" by (simp add: vq_inv_def bs_contains_def)
  from vq_loop_spec [OF this, of sigs] assms
  show "set (verified_quorum md message ctx sigs ops) \<subseteq> set sigs"
    "distinct (map ss_operator_id (verified_quorum md message ctx sigs ops))"
    "\<forall>s\<in>set (verified_quorum md message ctx sigs ops). sig_counts md message ctx ops s"
    "ss_operator_id ` set (verified_quorum md message ctx sigs ops) =
       ss_operator_id ` {s \<in> set sigs. sig_counts md message ctx ops s}"
    by (auto simp: verified_quorum_def)
qed

lemma verified_quorum_too_long: "os_size ops < length sigs \<Longrightarrow> verified_quorum md message ctx sigs ops = []"
  by (simp add: verified_quorum_def)

lemma verified_quorum_counts:
  "s \<in> set (verified_quorum md message ctx sigs ops) \<Longrightarrow> sig_counts md message ctx ops s"
  using verified_quorum_spec(3) [of sigs ops md message ctx] verified_quorum_too_long [of ops sigs]
  by (cases "length sigs \<le> os_size ops") auto

lemma verified_quorum_distinct: "distinct (map ss_operator_id (verified_quorum md message ctx sigs ops))"
  using verified_quorum_spec(2) [of sigs ops md message ctx] verified_quorum_too_long [of ops sigs]
  by (cases "length sigs \<le> os_size ops") auto

lemma set_fold_bs_insert: "set (fold (\<lambda>s. bs_insert (f s)) xs acc) = f ` set xs \<union> set acc"
  by (induction xs arbitrary: acc) auto

lemma bs_wf_fold_insert: "bs_wf acc \<Longrightarrow> bs_wf (fold (\<lambda>s. bs_insert (f s)) xs acc)"
  by (induction xs arbitrary: acc) auto

lemma set_verify_quorum:
  "set (verify_quorum md message ctx sigs ops) =
     ss_operator_id ` set (verified_quorum md message ctx sigs ops)"
  by (simp add: verify_quorum_def set_fold_bs_insert)

lemma bs_wf_distinct: "bs_wf s \<Longrightarrow> distinct s"
  by (simp add: bs_wf_def strict_sorted_iff)

lemma length_verify_quorum:
  "length (verify_quorum md message ctx sigs ops) =
     length (verified_quorum md message ctx sigs ops)"
proof -
  have "distinct (verify_quorum md message ctx sigs ops)"
    by (simp add: verify_quorum_def bs_wf_distinct bs_wf_fold_insert)
  then have "length (verify_quorum md message ctx sigs ops) =
      card (ss_operator_id ` set (verified_quorum md message ctx sigs ops))"
    by (simp flip: set_verify_quorum add: distinct_card)
  also have "\<dots> = length (verified_quorum md message ctx sigs ops)"
    using distinct_card [OF verified_quorum_distinct [of md message ctx sigs ops]] by simp
  finally show ?thesis .
qed

lemma sig_counts_operator: "sig_counts md message ctx ops s \<Longrightarrow> ss_operator_id s \<in> operators_of ops"
  unfolding sig_counts_def os_pubkey_def bt_get_def operators_of_def
  by (auto dest!: map_of_SomeD intro: rev_image_eqI)

lemma verify_quorum_operators: "set (verify_quorum md message ctx sigs ops) \<subseteq> operators_of ops"
  using sig_counts_operator verified_quorum_counts by (fastforce simp: set_verify_quorum)

lemma card_verify_quorum:
  "card (set (verify_quorum md message ctx sigs ops)) =
     length (verify_quorum md message ctx sigs ops)"
  by (simp add: verify_quorum_def bs_wf_distinct bs_wf_fold_insert distinct_card)

lemma card_operators_of: "os_wf ops \<Longrightarrow> card (operators_of ops) = os_size ops"
  using distinct_card [of "map fst (os_pubkeys ops)"]
  by (simp add: os_wf_def operators_of_def os_size_def bt_wf_distinct)

section \<open>Quorums\<close>

locale quorum_system =
  fixes members :: "'a set" and is_quorum :: "'a set \<Rightarrow> bool"
  assumes finite_members: "finite members"
    and quorum_members: "is_quorum Q \<Longrightarrow> Q \<subseteq> members"
    and quorum_large: "is_quorum Q \<Longrightarrow> 2 * card members < 3 * card Q"
begin

text \<open>Any two quorums share more than a third of the members.\<close>

lemma quorum_intersection:
  assumes "is_quorum P" "is_quorum Q"
  shows "card members < 3 * card (P \<inter> Q)"
proof -
  have fin: "finite P" "finite Q"
    using assms quorum_members finite_members by (auto intro: finite_subset)
  have "card (P \<union> Q) \<le> card members"
    using assms quorum_members finite_members by (intro card_mono) auto
  moreover have "card P + card Q = card (P \<union> Q) + card (P \<inter> Q)"
    using fin by (rule card_Un_Int)
  ultimately show ?thesis using quorum_large [OF assms(1)] quorum_large [OF assms(2)] by linarith
qed

text \<open>So no set of at most a third of the members can account for two quorums alone.\<close>

lemma honest_in_both:
  assumes "is_quorum P" "is_quorum Q" "finite F" "3 * card F \<le> card members"
  shows "\<exists>x\<in>P \<inter> Q. x \<notin> F"
proof (rule ccontr)
  assume "\<not> ?thesis"
  then have "P \<inter> Q \<subseteq> F" by blast
  with assms(3) have "card (P \<inter> Q) \<le> card F" by (rule card_mono)
  with quorum_intersection [OF assms(1,2)] assms(4) show False by linarith
qed

end

lemma supermajority_floor_large:
  assumes "n \<le> usize_max div 2" "supermajority_floor n \<le> q"
  shows "2 * n < 3 * q"
proof -
  have "sat_mul_usize n 2 = 2 * n" using assms(1) by (simp add: sat_mul_usize_def)
  with assms(2) have "2 * n div 3 + 1 \<le> q" by (simp add: supermajority_floor_def)
  then show ?thesis by linarith
qed

text \<open>The sets of operators the gateway accepts as a quorum form a quorum system.\<close>

definition accepted_quorum :: "'pk operator_set \<Rightarrow> u32 set \<Rightarrow> bool" where
  "accepted_quorum ops Q \<longleftrightarrow>
     os_wf ops \<and> os_size ops \<le> usize_max div 2 \<and>
     Q \<subseteq> operators_of ops \<and> supermajority_floor (os_size ops) \<le> card Q"

interpretation gq: quorum_system "operators_of ops" "accepted_quorum ops" for ops :: "'pk operator_set"
proof unfold_locales
  show "finite (operators_of ops)" by (simp add: operators_of_def)
  show "accepted_quorum ops Q \<Longrightarrow> Q \<subseteq> operators_of ops" for Q by (simp add: accepted_quorum_def)
  show "2 * card (operators_of ops) < 3 * card Q" if "accepted_quorum ops Q" for Q
    using that supermajority_floor_large [of "os_size ops" "card Q"]
    by (simp add: accepted_quorum_def card_operators_of)
qed

section \<open>Properties of the registry\<close>

lemma bt_get_in_set: "bt_get m k = Some v \<Longrightarrow> (k, v) \<in> set m"
  unfolding bt_get_def by (rule map_of_SomeD)

text \<open>A toy scheme for the witnesses: a key accepts the one-byte signature equal to itself.\<close>

definition echo_scheme :: "u8 ml_dsa" where
  "echo_scheme = \<lparr>md_verify = (\<lambda>pk message signature ctx. signature = [pk]), md_signature_bytes = 1\<rparr>"

definition three_operators :: "u8 operator_set" where
  "three_operators = \<lparr>os_pubkeys = [(1, 10), (2, 20), (3, 30)], os_threshold = 0\<rparr>"

definition echo_sig :: "u32 \<Rightarrow> u8 \<Rightarrow> signer_sig" where
  "echo_sig i b = \<lparr>ss_operator_id = i, ss_signature = [b]\<rparr>"

text \<open>C19: \<open>verify_quorum\<close> returns exactly the operators for which the envelope holds a signature that
  the scheme accepts under the key registered for that operator, each once and in order, however
  the signatures are ordered, repeated or mixed with bad ones; an envelope with more signatures than
  there are operators counts for nothing.\<close>

theorem verify_quorum_exact:
  "set (verify_quorum md message ctx sigs ops) =
     (if length sigs \<le> os_size ops
      then {i. \<exists>s\<in>set sigs. ss_operator_id s = i \<and> (\<exists>pk. os_pubkey ops i = Some pk \<and>
              length (ss_signature s) = md_signature_bytes md \<and>
              md_verify md pk message (ss_signature s) ctx)}
      else {})
   \<and> bs_wf (verify_quorum md message ctx sigs ops)
   \<and> length (verify_quorum md message ctx sigs ops) = card (set (verify_quorum md message ctx sigs ops))"
proof (intro conjI)
  show "bs_wf (verify_quorum md message ctx sigs ops)"
    by (simp add: verify_quorum_def bs_wf_fold_insert)
  show "length (verify_quorum md message ctx sigs ops) = card (set (verify_quorum md message ctx sigs ops))"
    by (simp add: card_verify_quorum)
  show "set (verify_quorum md message ctx sigs ops) = (if length sigs \<le> os_size ops
      then {i. \<exists>s\<in>set sigs. ss_operator_id s = i \<and> (\<exists>pk. os_pubkey ops i = Some pk \<and>
              length (ss_signature s) = md_signature_bytes md \<and>
              md_verify md pk message (ss_signature s) ctx)}
      else {})"
    using verified_quorum_spec(4) [of sigs ops md message ctx]
    by (auto simp: set_verify_quorum verified_quorum_too_long sig_counts_def)
qed

theorem verify_quorum_exact_witness:
  "set (verify_quorum echo_scheme [] [] [echo_sig 2 20, echo_sig 1 99, echo_sig 2 20] three_operators) = {2}"
  using verify_quorum_exact
    [of echo_scheme "[]" "[]" "[echo_sig 2 20, echo_sig 1 99, echo_sig 2 20]" three_operators]
  by (auto simp: os_size_def three_operators_def echo_sig_def echo_scheme_def os_pubkey_def bt_get_def)

text \<open>In a registry built with \<open>register\<close> and \<open>remove\<close> no key fills two slots: registering a key
  that another operator holds is refused and changes nothing, any other registration succeeds and
  replaces that operator's key only, and a removal drops one operator only.\<close>

theorem registry_one_key_per_slot:
  assumes "os_wf ops" "os_keys_distinct ops"
  shows "os_wf (fst (os_register i pk ops)) \<and> os_keys_distinct (fst (os_register i pk ops))
    \<and> os_wf (os_remove i ops) \<and> os_keys_distinct (os_remove i ops)
    \<and> (snd (os_register i pk ops) \<longleftrightarrow> (\<forall>j. os_pubkey ops j = Some pk \<longrightarrow> j = i))
    \<and> os_pubkey (fst (os_register i pk ops)) j =
        (if snd (os_register i pk ops) \<and> j = i then Some pk else os_pubkey ops j)
    \<and> os_pubkey (os_remove i ops) j = (if j = i then None else os_pubkey ops j)"
proof -
  have wf: "bt_wf (os_pubkeys ops)" using assms(1) by (simp add: os_wf_def)
  have held: "(\<exists>(id, existing)\<in>set (os_pubkeys ops). id \<noteq> i \<and> existing = pk) \<longleftrightarrow>
      (\<exists>j. os_pubkey ops j = Some pk \<and> j \<noteq> i)"
    using wf bt_wf_distinct [OF wf] by (auto simp: os_pubkey_def bt_get_def dest: map_of_SomeD)
  have reg: "os_pubkey (fst (os_register i pk ops)) k =
      (if snd (os_register i pk ops) \<and> k = i then Some pk else os_pubkey ops k)" for k
    by (simp add: os_register_def os_pubkey_def bt_simps)
  have rem: "os_pubkey (os_remove i ops) k = (if k = i then None else os_pubkey ops k)" for k
    using wf by (simp add: os_remove_def os_pubkey_def bt_simps)
  have ok: "snd (os_register i pk ops) \<longleftrightarrow> (\<forall>j. os_pubkey ops j = Some pk \<longrightarrow> j = i)"
    using held by (auto simp: os_register_def)
  have "os_keys_distinct (fst (os_register i pk ops))"
    using assms(2) ok unfolding os_keys_distinct_def reg by (auto split: if_splits)
  moreover have "os_keys_distinct (os_remove i ops)"
    using assms(2) unfolding os_keys_distinct_def rem by (auto split: if_splits)
  moreover have "os_wf (fst (os_register i pk ops)) \<and> os_wf (os_remove i ops)"
    using wf by (simp add: os_register_def os_remove_def os_wf_def)
  ultimately show ?thesis using ok reg rem by blast
qed

theorem registry_one_key_per_slot_witness:
  "\<not> snd (os_register 4 20 three_operators)
   \<and> os_pubkey (fst (os_register 4 40 three_operators)) 4 = Some 40"
proof -
  have wf: "os_wf three_operators" "os_keys_distinct three_operators"
    by (auto simp: os_wf_def bt_wf_def os_keys_distinct_def three_operators_def os_pubkey_def
        bt_get_def split: if_splits)
  have "os_pubkey three_operators 2 = Some 20" "\<forall>j. os_pubkey three_operators j \<noteq> Some 40"
    by (auto simp: three_operators_def os_pubkey_def bt_get_def)
  then show ?thesis
    using registry_one_key_per_slot [OF wf, of 4 20 4] registry_one_key_per_slot [OF wf, of 4 40 4]
    by auto
qed

text \<open>two accepted quorums of the same operators, for any two messages under any two contexts, have
  more than a third of the operators in common, so unless more than a third of them sign both, two
  conflicting messages cannot both be accepted.\<close>

theorem accepted_quorums_intersect:
  assumes "os_wf ops" "os_size ops \<le> usize_max div 2"
    and "supermajority_floor (os_size ops) \<le> length (verify_quorum md m1 c1 sigs1 ops)"
    and "supermajority_floor (os_size ops) \<le> length (verify_quorum md m2 c2 sigs2 ops)"
    and "finite faulty" "3 * card faulty \<le> os_size ops"
  shows "os_size ops < 3 * card (set (verify_quorum md m1 c1 sigs1 ops) \<inter>
                                 set (verify_quorum md m2 c2 sigs2 ops))
    \<and> (\<exists>i. i \<notin> faulty \<and>
          i \<in> set (verify_quorum md m1 c1 sigs1 ops) \<and> i \<in> set (verify_quorum md m2 c2 sigs2 ops))"
proof -
  let ?P = "set (verify_quorum md m1 c1 sigs1 ops)" and ?Q = "set (verify_quorum md m2 c2 sigs2 ops)"
  have "accepted_quorum ops ?P" "accepted_quorum ops ?Q"
    using assms(1-4) by (simp_all add: accepted_quorum_def card_verify_quorum verify_quorum_operators)
  from gq.quorum_intersection [OF this] gq.honest_in_both [OF this assms(5)] assms(6)
  show ?thesis by (auto simp: card_operators_of [OF assms(1)])
qed

theorem accepted_quorums_intersect_witness:
  "\<exists>i. i \<notin> {3}
     \<and> i \<in> set (verify_quorum echo_scheme [0] [] [echo_sig 1 10, echo_sig 2 20, echo_sig 3 30] three_operators)
     \<and> i \<in> set (verify_quorum echo_scheme [1] [] [echo_sig 3 30, echo_sig 2 20, echo_sig 1 10] three_operators)"
proof -
  have "os_wf three_operators" "os_size three_operators = 3" "supermajority_floor 3 = 3"
    by (simp_all add: os_wf_def bt_wf_def os_size_def three_operators_def supermajority_floor_def
        sat_mul_usize_def)
  moreover have
    "length (verify_quorum echo_scheme [0] [] [echo_sig 1 10, echo_sig 2 20, echo_sig 3 30] three_operators) = 3"
    "length (verify_quorum echo_scheme [1] [] [echo_sig 3 30, echo_sig 2 20, echo_sig 1 10] three_operators) = 3"
    by (simp_all add: length_verify_quorum verified_quorum_def os_size_def os_pubkey_def bt_get_def
        bs_contains_def three_operators_def echo_scheme_def echo_sig_def)
  ultimately show ?thesis
    using accepted_quorums_intersect [of three_operators echo_scheme "[0]" "[]"
        "[echo_sig 1 10, echo_sig 2 20, echo_sig 3 30]" "[1]" "[]"
        "[echo_sig 3 30, echo_sig 2 20, echo_sig 1 10]" "{3}"] by simp
qed

end
