(* ===== verification/Gateway.thy ===== *)
theory Gateway
  imports Operators
begin

text \<open>
  \<^verbatim>\<open>crates/q-gateway/src/gateway.rs\<close> and \<^verbatim>\<open>errors.rs\<close>: the gateway's state and every operation on
  it, except the snapshot codec, which is the theory \<open>Guard_Codec\<close>. A method with \<open>&mut self\<close> returns
  the state it leaves and its result, so what an early return leaves behind is part of the model;
  \<open>md\<close> is the signature scheme.
\<close>

section \<open>Constants and errors\<close>

definition REORG_DOMAIN :: bytes where "REORG_DOMAIN = ascii ''QUANTOVA/Q-ORACLE/REORG/v1''"
definition RESUME_DOMAIN :: bytes where "RESUME_DOMAIN = ascii ''QUANTOVA/Q-ORACLE/RESUME/v1''"
definition RESUME_WINDOW :: u64 where "RESUME_WINDOW = 600"
definition RESUME_SKEW :: u64 where "RESUME_SKEW = 16"
definition TIER_DOMAIN :: bytes where "TIER_DOMAIN = ascii ''QUANTOVA/Q-ORACLE/TIER/v1''"
definition FREEZE_DOMAIN :: bytes where "FREEZE_DOMAIN = ascii ''QUANTOVA/Q-ORACLE/FREEZE/v1''"
definition WATCHDOG_DOMAIN :: bytes where "WATCHDOG_DOMAIN = ascii ''QUANTOVA/Q-ORACLE/WATCHDOG/v1''"
definition BATCH_DOMAIN :: bytes where "BATCH_DOMAIN = ascii ''QUANTOVA/Q-ORACLE/BATCH/v1''"
definition RESERVE_DOMAIN :: bytes where "RESERVE_DOMAIN = ascii ''QUANTOVA/Q-ORACLE/RESERVE/v1''"
definition UNPAUSE_DOMAIN :: bytes where "UNPAUSE_DOMAIN = ascii ''QUANTOVA/Q-ORACLE/UNPAUSE/v1''"
definition LIFT_DOMAIN :: bytes where "LIFT_DOMAIN = ascii ''QUANTOVA/Q-ORACLE/LIFT/v1''"
definition RESERVE_MAX_AGE :: u64 where "RESERVE_MAX_AGE = 18000"
definition MAX_PENDING_EXITS :: usize where "MAX_PENDING_EXITS = 65536"
definition BASE_TIER :: u8 where "BASE_TIER = 1"
definition WATCHDOG_MAX_WINDOW :: u64 where "WATCHDOG_MAX_WINDOW = 7200"
definition WATCHDOG_COOLDOWN :: u64 where "WATCHDOG_COOLDOWN = 8 * WATCHDOG_MAX_WINDOW"
definition EMERGENCY_FREEZE_MAX_WINDOW :: u64 where "EMERGENCY_FREEZE_MAX_WINDOW = 3024000"

datatype gateway_error =
    GlobalPause
  | WrongDirection
  | WrongDestination
  | CorridorNotOpen u32
  | CorridorInactive u32
  | SourcePaused u32
  | InsufficientFinality u32 u32
  | AssetNotRegistered
  | AssetCapExceeded u128 u128 u128
  | EpochCapExceeded u128 u128 u128
  | ReplayedReference
  | UnknownOperator u32
  | BadSignature u32
  | BelowThreshold usize usize
  | ThinQuorum usize usize
  | ProveNothing
  | InvalidFact codec_error
  | Unauthorized
  | NoGovernanceSet
  | TierDowngrade u8 u8
  | Frozen u64
  | WatchdogWindowTooWide u64 u64
  | FreezeWindowTooWide u64 u64
  | FreezeInPast u64 u64
  | NotFrozen
  | WatchdogWithoutClock
  | WatchdogExpired u64 u64
  | WatchdogCooldown
  | NotPaused u32
  | ResumeOutOfWindow u64 u64
  | EscrowExceeded u128 u128 u128
  | StaleBatch u64 u64
  | ExitExceedsMinted u128 u128
  | ExitNotReady u64 u64
  | UnknownExit u64
  | MessageExpired u64 u64
  | StaleOrReplayedNonce u64 u64
  | ExitQueueFull usize usize
  | ReserveStale bytes
  | ReserveReportsNotRequired
  | ReserveReportOutOfWindow u64 u64
  | ReserveReportReplayed u64 u64
  | NotGloballyPaused
  | ReserveShortfall bytes

section \<open>State\<close>

record corridor_config =
  cc_confirmation_depth :: u32
  cc_quorum :: usize
  cc_tier :: u8
  cc_active :: bool

record exit_ticket =
  et_exit_id :: u64
  et_asset_id :: bytes
  et_amount :: u128
  et_destination :: bytes
  et_unlock_height :: u64

record mint_receipt =
  mr_asset_id :: bytes
  mr_recipient :: bytes
  mr_amount :: u128
  mr_source_ref :: bytes
  mr_source_chain :: u32

record admin_record =
  ar_domain :: bytes
  ar_message :: bytes
  ar_signatures :: "signer_sig list"

record 'pk gateway =
  gw_chain_id :: u32
  gw_dest_chain_id :: u64
  gw_era :: bytes
  gw_operators :: "'pk operator_set"
  gw_governance :: "'pk operator_set"
  gw_used_refs :: "(u32 \<times> bytes) btree_set"
  gw_refs_any_chain :: "bytes btree_set"
  gw_per_asset_minted :: "(bytes, u128) btree_map"
  gw_escrowed :: "(bytes, u128) btree_map"
  gw_per_asset_cap :: "(bytes, u128) btree_map"
  gw_per_asset_epoch_cap :: "(bytes, u128) btree_map"
  gw_per_asset_epoch_minted :: "(bytes, u128) btree_map"
  gw_epoch_cap :: u128
  gw_epoch_minted :: u128
  gw_current_epoch :: u64
  gw_corridors :: "(u32, corridor_config) btree_map"
  gw_corridor_cursor :: "(u32, u64) btree_map"
  gw_paused_sources :: "u32 btree_set"
  gw_paused_since :: "(u32, u64) btree_map"
  gw_resumed_at :: "(u32, u64) btree_map"
  gw_watchdog_last :: "(u32, u64) btree_map"
  gw_global_pause :: bool
  gw_global_paused_at :: u64
  gw_global_resumed_at :: u64
  gw_current_height :: u64
  gw_frozen_until :: u64
  gw_lifted_freeze :: u64
  gw_deposit_frozen_until :: u64
  gw_exit_delay :: u64
  gw_next_exit_id :: u64
  gw_pending_exits :: "(u64, exit_ticket) btree_map"
  gw_guard_revision :: u64
  gw_reserve_max_age :: "u64 option"
  gw_reserve_reported_at :: "(bytes, u64) btree_map"
  gw_audit_seq :: u64
  gw_audit_head :: bytes
  gw_admin_records :: "admin_record list"

definition admin_action :: "admin_record \<Rightarrow> ('e, bytes) res" where
  "admin_action r =
     and_then (writer_bytes_u16 (ar_domain r)) (\<lambda>d.
     and_then (writer_bytes_u32 (ar_message r)) (\<lambda>m. Ok (d @ m)))"

definition gateway_new :: "u32 \<Rightarrow> u64 \<Rightarrow> 'pk operator_set \<Rightarrow> u128 \<Rightarrow> 'pk gateway" where
  "gateway_new chain_id dest_chain_id operators epoch_cap =
     \<lparr>gw_chain_id = chain_id, gw_dest_chain_id = dest_chain_id, gw_era = replicate 32 0,
      gw_operators = operators, gw_governance = operator_set_new 0,
      gw_used_refs = [], gw_refs_any_chain = [], gw_per_asset_minted = [], gw_escrowed = [],
      gw_per_asset_cap = [], gw_per_asset_epoch_cap = [], gw_per_asset_epoch_minted = [],
      gw_epoch_cap = epoch_cap, gw_epoch_minted = 0, gw_current_epoch = 0,
      gw_corridors = [], gw_corridor_cursor = [], gw_paused_sources = [], gw_paused_since = [],
      gw_resumed_at = [], gw_watchdog_last = [],
      gw_global_pause = False, gw_global_paused_at = 0, gw_global_resumed_at = 0,
      gw_current_height = 0, gw_frozen_until = 0, gw_lifted_freeze = 0,
      gw_deposit_frozen_until = 0, gw_exit_delay = 0, gw_next_exit_id = 0,
      gw_pending_exits = [], gw_guard_revision = 0, gw_reserve_max_age = None,
      gw_reserve_reported_at = [], gw_audit_seq = 0, gw_audit_head = replicate 32 0,
      gw_admin_records = []\<rparr>"

section \<open>Signed messages\<close>

definition attestation_message :: "bridge_fact \<Rightarrow> u64 \<Rightarrow> bytes" where
  "attestation_message f dest_chain_id = attest_preimage f dest_chain_id"

definition reorg_message :: "u32 \<Rightarrow> u32 \<Rightarrow> u64 \<Rightarrow> u64 \<Rightarrow> bytes \<Rightarrow> bytes" where
  "reorg_message source_chain fork_depth at_height dest_chain_id era =
     writer_u32 source_chain @ writer_u32 fork_depth @ writer_u64 at_height @
     writer_u64 dest_chain_id @ writer_fixed era"

definition resume_message :: "u32 \<Rightarrow> u64 \<Rightarrow> u64 \<Rightarrow> bytes \<Rightarrow> bytes" where
  "resume_message source_chain at_height dest_chain_id era =
     writer_u32 source_chain @ writer_u64 at_height @ writer_u64 dest_chain_id @ writer_fixed era"

definition tier_message :: "u32 \<Rightarrow> u8 \<Rightarrow> u64 \<Rightarrow> bytes \<Rightarrow> bytes" where
  "tier_message source_chain proposed dest_chain_id era =
     writer_u32 source_chain @ writer_u8 proposed @ writer_u64 dest_chain_id @ writer_fixed era"

definition reserve_message :: "bytes \<Rightarrow> u128 \<Rightarrow> u64 \<Rightarrow> u64 \<Rightarrow> bytes \<Rightarrow> bytes" where
  "reserve_message asset_id escrowed at_height dest_chain_id era =
     writer_fixed asset_id @ writer_u128 escrowed @ writer_u64 at_height @
     writer_u64 dest_chain_id @ writer_fixed era"

definition unpause_message :: "u64 \<Rightarrow> u64 \<Rightarrow> bytes \<Rightarrow> bytes" where
  "unpause_message at_height dest_chain_id era =
     writer_u64 at_height @ writer_u64 dest_chain_id @ writer_fixed era"

definition freeze_message_for_era :: "u64 \<Rightarrow> u64 \<Rightarrow> bytes \<Rightarrow> bytes" where
  "freeze_message_for_era until_height dest_chain_id era =
     writer_u64 until_height @ writer_u64 dest_chain_id @ writer_fixed era"

definition freeze_message :: "u64 \<Rightarrow> u64 \<Rightarrow> bytes" where
  "freeze_message until_height dest_chain_id =
     freeze_message_for_era until_height dest_chain_id (replicate 32 0)"

definition lift_message :: "u64 \<Rightarrow> u64 \<Rightarrow> bytes \<Rightarrow> bytes" where
  "lift_message frozen_until dest_chain_id era =
     writer_u64 frozen_until @ writer_u64 dest_chain_id @ writer_fixed era"

definition batch_message :: "u32 \<Rightarrow> u64 \<Rightarrow> u64 \<Rightarrow> bytes \<Rightarrow> bytes" where
  "batch_message source_chain batch_index dest_chain_id era =
     writer_u32 source_chain @ writer_u64 batch_index @ writer_u64 dest_chain_id @ writer_fixed era"

section \<open>Bookkeeping and configuration\<close>

definition log_admin :: "bytes \<Rightarrow> bytes \<Rightarrow> signer_sig list \<Rightarrow> 'pk gateway \<Rightarrow> 'pk gateway" where
  "log_admin domain message signatures g =
     g\<lparr>gw_admin_records := gw_admin_records g @
        [\<lparr>ar_domain = domain, ar_message = message, ar_signatures = signatures\<rparr>]\<rparr>"

definition touch_guard :: "'pk gateway \<Rightarrow> 'pk gateway" where
  "touch_guard g = g\<lparr>gw_guard_revision := gw_guard_revision g + 1\<rparr>"

definition settle_admin_records :: "u64 \<Rightarrow> bytes \<Rightarrow> 'pk gateway \<Rightarrow> 'pk gateway" where
  "settle_admin_records seq head g =
     touch_guard (g\<lparr>gw_admin_records := [], gw_audit_seq := seq, gw_audit_head := head\<rparr>)"

definition set_governance :: "'pk operator_set \<Rightarrow> 'pk gateway \<Rightarrow> 'pk gateway" where
  "set_governance governance g = g\<lparr>gw_governance := governance\<rparr>"

definition governance_configured :: "'pk gateway \<Rightarrow> bool" where
  "governance_configured g \<longleftrightarrow> os_size (gw_governance g) > 0"

definition set_era :: "bytes \<Rightarrow> 'pk gateway \<Rightarrow> 'pk gateway" where
  "set_era era g = g\<lparr>gw_era := era\<rparr>"

definition set_exit_delay :: "u64 \<Rightarrow> 'pk gateway \<Rightarrow> 'pk gateway" where
  "set_exit_delay exit_delay g = g\<lparr>gw_exit_delay := exit_delay\<rparr>"

definition advance_to :: "u64 \<Rightarrow> 'pk gateway \<Rightarrow> 'pk gateway" where
  "advance_to height g =
     (if height > gw_current_height g then g\<lparr>gw_current_height := height\<rparr> else g)"

definition freeze_horizon :: "'pk gateway \<Rightarrow> u64" where
  "freeze_horizon g = (if gw_lifted_freeze g = gw_frozen_until g then 0 else gw_frozen_until g)"

definition is_frozen :: "'pk gateway \<Rightarrow> bool" where
  "is_frozen g \<longleftrightarrow> gw_current_height g < freeze_horizon g"

definition mint_freeze_horizon :: "'pk gateway \<Rightarrow> u64" where
  "mint_freeze_horizon g = max (freeze_horizon g) (gw_deposit_frozen_until g)"

definition corridor_tier :: "'pk gateway \<Rightarrow> u32 \<Rightarrow> u8 option" where
  "corridor_tier g source_chain = map_option cc_tier (bt_get (gw_corridors g) source_chain)"

definition corridor_cursor :: "'pk gateway \<Rightarrow> u32 \<Rightarrow> u64" where
  "corridor_cursor g source_chain = bt_get_or (gw_corridor_cursor g) source_chain 0"

definition register_corridor :: "u32 \<Rightarrow> u32 \<Rightarrow> 'pk gateway \<Rightarrow> 'pk gateway" where
  "register_corridor source_chain confirmation_depth g =
     (if bt_contains (gw_corridors g) source_chain then g
      else g\<lparr>gw_corridors := bt_insert source_chain
               \<lparr>cc_confirmation_depth = confirmation_depth, cc_quorum = 0,
                cc_tier = BASE_TIER, cc_active = True\<rparr> (gw_corridors g)\<rparr>)"

definition set_corridor_active :: "u32 \<Rightarrow> bool \<Rightarrow> 'pk gateway \<Rightarrow> 'pk gateway" where
  "set_corridor_active source_chain active g =
     (case bt_get (gw_corridors g) source_chain of
        Some c \<Rightarrow> touch_guard
          (g\<lparr>gw_corridors := bt_insert source_chain (c\<lparr>cc_active := active\<rparr>) (gw_corridors g)\<rparr>)
      | None \<Rightarrow> g)"

definition set_corridor_quorum ::
  "u32 \<Rightarrow> usize \<Rightarrow> 'pk gateway \<Rightarrow> 'pk gateway \<times> (gateway_error, unit) res" where
  "set_corridor_quorum source_chain quorum g =
     (let n = os_size (gw_operators g) in
      if quorum < 2 \<or> quorum > n \<or> sat_mul_usize quorum 3 \<le> sat_mul_usize n 2
      then (g, Err (ThinQuorum quorum n))
      else
      and_then_st (ok_or (CorridorNotOpen source_chain) (bt_get (gw_corridors g) source_chain)) g (\<lambda>c.
      (touch_guard
         (g\<lparr>gw_corridors := bt_insert source_chain (c\<lparr>cc_quorum := quorum\<rparr>) (gw_corridors g)\<rparr>),
       Ok ())))"

text \<open>The quorum a corridor asks for: the same expression in \<open>corridor_quorum\<close>, \<open>accept_batch\<close> and
  \<open>precheck_deposit\<close>.\<close>

definition required_quorum :: "'pk gateway \<Rightarrow> corridor_config \<Rightarrow> usize" where
  "required_quorum g c =
     (if cc_quorum c > 0
      then max (cc_quorum c) (supermajority_floor (os_size (gw_operators g)))
      else max (os_threshold (gw_operators g)) (supermajority_floor (os_size (gw_operators g))))"

definition corridor_quorum :: "'pk gateway \<Rightarrow> u32 \<Rightarrow> usize option" where
  "corridor_quorum g source_chain = map_option (required_quorum g) (bt_get (gw_corridors g) source_chain)"

definition register_asset_cap :: "bytes \<Rightarrow> u128 \<Rightarrow> 'pk gateway \<Rightarrow> 'pk gateway" where
  "register_asset_cap asset_id cap g =
     g\<lparr>gw_per_asset_cap := bt_insert asset_id cap (gw_per_asset_cap g)\<rparr>"

definition register_asset_epoch_cap :: "bytes \<Rightarrow> u128 \<Rightarrow> 'pk gateway \<Rightarrow> 'pk gateway" where
  "register_asset_epoch_cap asset_id cap g =
     g\<lparr>gw_per_asset_epoch_cap := bt_insert asset_id cap (gw_per_asset_epoch_cap g)\<rparr>"

definition set_escrow :: "bytes \<Rightarrow> u128 \<Rightarrow> 'pk gateway \<Rightarrow> 'pk gateway" where
  "set_escrow asset_id escrowed g = g\<lparr>gw_escrowed := bt_insert asset_id escrowed (gw_escrowed g)\<rparr>"

definition escrow_of :: "'pk gateway \<Rightarrow> bytes \<Rightarrow> u128 option" where
  "escrow_of g asset_id = bt_get (gw_escrowed g) asset_id"

definition require_reserve_reports :: "u64 \<Rightarrow> 'pk gateway \<Rightarrow> 'pk gateway" where
  "require_reserve_reports max_age g =
     g\<lparr>gw_reserve_max_age := Some (min (max max_age 1) RESERVE_MAX_AGE)\<rparr>"

definition reserve_is_fresh :: "'pk gateway \<Rightarrow> bytes \<Rightarrow> bool" where
  "reserve_is_fresh g asset_id =
     (case gw_reserve_max_age g of
        None \<Rightarrow> True
      | Some max_age \<Rightarrow>
          (case bt_get (gw_reserve_reported_at g) asset_id of
             None \<Rightarrow> False
           | Some at \<Rightarrow> gw_current_height g \<le> sat_add at max_age))"

definition stale_reserves :: "'pk gateway \<Rightarrow> bytes list" where
  "stale_reserves g = filter (\<lambda>a. \<not> reserve_is_fresh g a) (map fst (gw_per_asset_cap g))"

definition pending_exit_of :: "'pk gateway \<Rightarrow> bytes \<Rightarrow> u128" where
  "pending_exit_of g asset_id =
     fold (\<lambda>t acc. sat_add acc (et_amount t))
       (filter (\<lambda>t. et_asset_id t = asset_id) (map snd (gw_pending_exits g))) 0"

definition minted_of_asset :: "'pk gateway \<Rightarrow> bytes \<Rightarrow> u128" where
  "minted_of_asset g asset_id = bt_get_or (gw_per_asset_minted g) asset_id 0"

definition outstanding_by_asset :: "'pk gateway \<Rightarrow> (bytes, u128) btree_map" where
  "outstanding_by_asset g =
     fold (\<lambda>t m. bt_insert (et_asset_id t) (sat_add (bt_get_or m (et_asset_id t) 0) (et_amount t)) m)
       (map snd (gw_pending_exits g)) (gw_per_asset_minted g)"

definition minted_assets_without_a_cap :: "'pk gateway \<Rightarrow> bytes list" where
  "minted_assets_without_a_cap g =
     map fst (filter (\<lambda>(asset_id, minted). minted > 0 \<and> \<not> bt_contains (gw_per_asset_cap g) asset_id)
       (gw_per_asset_minted g))"

definition is_reference_used :: "'pk gateway \<Rightarrow> bytes \<Rightarrow> bool" where
  "is_reference_used g source_ref = bs_contains (gw_refs_any_chain g) source_ref"

definition is_reference_used_on :: "'pk gateway \<Rightarrow> u32 \<Rightarrow> bytes \<Rightarrow> bool" where
  "is_reference_used_on g source_chain source_ref = bs_contains (gw_used_refs g) (source_chain, source_ref)"

section \<open>Quorum checks\<close>

definition quorum_met ::
  "'pk ml_dsa \<Rightarrow> bytes \<Rightarrow> bytes \<Rightarrow> signer_sig list \<Rightarrow> 'pk gateway \<Rightarrow>
   (gateway_error, signer_sig list) res" where
  "quorum_met md message domain sigs g =
     (let accepted = verified_quorum md message domain sigs (gw_operators g);
          need = max (os_threshold (gw_operators g)) (supermajority_floor (os_size (gw_operators g)))
      in if length accepted < need then Err (BelowThreshold (length accepted) need) else Ok accepted)"

section \<open>Reserve reports\<close>

definition check_reserve ::
  "'pk ml_dsa \<Rightarrow> bytes \<Rightarrow> u128 \<Rightarrow> u64 \<Rightarrow> signer_sig list \<Rightarrow> 'pk gateway \<Rightarrow>
   (gateway_error, bytes \<times> signer_sig list) res" where
  "check_reserve md asset_id escrowed at_height sigs g =
     and_then (ok_or ReserveReportsNotRequired (gw_reserve_max_age g)) (\<lambda>max_age.
     if \<not> bt_contains (gw_per_asset_cap g) asset_id then Err AssetNotRegistered
     else if gw_current_height g = 0 \<or>
             at_height > sat_add (gw_current_height g) RESUME_SKEW \<or>
             gw_current_height g > sat_add at_height max_age
     then Err (ReserveReportOutOfWindow at_height (gw_current_height g))
     else if (case bt_get (gw_reserve_reported_at g) asset_id of
                Some last_at \<Rightarrow> at_height \<le> last_at | None \<Rightarrow> False)
     then Err (ReserveReportReplayed at_height (bt_get_or (gw_reserve_reported_at g) asset_id 0))
     else
       let message = reserve_message asset_id escrowed at_height (gw_dest_chain_id g) (gw_era g) in
       and_then (quorum_met md message RESERVE_DOMAIN sigs g) (\<lambda>accepted. Ok (message, accepted)))"

definition precheck_reserve ::
  "'pk ml_dsa \<Rightarrow> bytes \<Rightarrow> u128 \<Rightarrow> u64 \<Rightarrow> signer_sig list \<Rightarrow> 'pk gateway \<Rightarrow>
   (gateway_error, unit) res" where
  "precheck_reserve md asset_id escrowed at_height sigs g =
     map_ok (\<lambda>_. ()) (check_reserve md asset_id escrowed at_height sigs g)"

definition pause_all :: "'pk gateway \<Rightarrow> 'pk gateway" where
  "pause_all g =
     (let g1 = (if \<not> gw_global_pause g then g\<lparr>gw_global_paused_at := gw_current_height g\<rparr> else g)
      in touch_guard (g1\<lparr>gw_global_pause := True\<rparr>))"

definition attest_reserve ::
  "'pk ml_dsa \<Rightarrow> bytes \<Rightarrow> u128 \<Rightarrow> u64 \<Rightarrow> signer_sig list \<Rightarrow> 'pk gateway \<Rightarrow>
   'pk gateway \<times> (gateway_error, bool) res" where
  "attest_reserve md asset_id escrowed at_height sigs g =
     and_then_st (check_reserve md asset_id escrowed at_height sigs g) g (\<lambda>(message, accepted).
     let g1 = g\<lparr>gw_escrowed := bt_insert asset_id escrowed (gw_escrowed g),
                gw_reserve_reported_at := bt_insert asset_id at_height (gw_reserve_reported_at g)\<rparr>;
         g2 = log_admin RESERVE_DOMAIN message accepted g1;
         supply = sat_add (bt_get_or (gw_per_asset_minted g2) asset_id 0) (pending_exit_of g2 asset_id)
     in if supply > escrowed then (pause_all g2, Ok True) else (g2, Ok False))"

section \<open>Budgets\<close>

definition charge_asset_escrow :: "bytes \<Rightarrow> u128 \<Rightarrow> 'pk gateway \<Rightarrow> (gateway_error, unit) res" where
  "charge_asset_escrow asset_id amount g =
     (if \<not> reserve_is_fresh g asset_id then Err (ReserveStale asset_id)
      else case bt_get (gw_escrowed g) asset_id of
        None \<Rightarrow> Ok ()
      | Some escrowed \<Rightarrow>
          let minted = sat_add (bt_get_or (gw_per_asset_minted g) asset_id 0) (pending_exit_of g asset_id)
          in and_then (ok_or (EscrowExceeded minted escrowed amount) (checked_add minted amount)) (\<lambda>after.
             if after > escrowed then Err (EscrowExceeded minted escrowed amount) else Ok ()))"

definition charge_asset_epoch :: "bytes \<Rightarrow> u128 \<Rightarrow> 'pk gateway \<Rightarrow> (gateway_error, unit) res" where
  "charge_asset_epoch asset_id amount g =
     and_then (charge_asset_escrow asset_id amount g) (\<lambda>_.
     case bt_get (gw_per_asset_epoch_cap g) asset_id of
       None \<Rightarrow> Ok ()
     | Some cap \<Rightarrow>
         let minted = bt_get_or (gw_per_asset_epoch_minted g) asset_id 0
         in and_then (ok_or (EpochCapExceeded minted cap amount) (checked_add minted amount)) (\<lambda>after.
            if after > cap then Err (EpochCapExceeded minted cap amount) else Ok ()))"

definition record_asset_epoch :: "bytes \<Rightarrow> u128 \<Rightarrow> 'pk gateway \<Rightarrow> 'pk gateway" where
  "record_asset_epoch asset_id amount g =
     g\<lparr>gw_per_asset_epoch_minted :=
        bt_insert asset_id (sat_add (bt_get_or (gw_per_asset_epoch_minted g) asset_id 0) amount)
          (gw_per_asset_epoch_minted g)\<rparr>"

section \<open>Pausing and resuming\<close>

definition short_reserve :: "'pk gateway \<Rightarrow> bytes option" where
  "short_reserve g =
     map_option fst (List.find (\<lambda>(asset_id, minted).
        sat_add minted (pending_exit_of g asset_id) > bt_get_or (gw_escrowed g) asset_id 0)
        (gw_per_asset_minted g))"

definition check_unpause ::
  "'pk ml_dsa \<Rightarrow> u64 \<Rightarrow> signer_sig list \<Rightarrow> 'pk gateway \<Rightarrow>
   (gateway_error, bytes \<times> signer_sig list) res" where
  "check_unpause md at_height sigs g =
     (if \<not> gw_global_pause g then Err NotGloballyPaused
      else if at_height < gw_global_paused_at g \<or>
              at_height \<le> gw_global_resumed_at g \<or>
              at_height > sat_add (gw_current_height g) RESUME_SKEW \<or>
              gw_current_height g > sat_add at_height RESUME_WINDOW
      then Err (ResumeOutOfWindow at_height (gw_current_height g))
      else case short_reserve g of
        Some asset_id \<Rightarrow> Err (ReserveShortfall asset_id)
      | None \<Rightarrow>
          let message = unpause_message at_height (gw_dest_chain_id g) (gw_era g) in
          and_then (quorum_met md message UNPAUSE_DOMAIN sigs g) (\<lambda>accepted. Ok (message, accepted)))"

definition precheck_unpause ::
  "'pk ml_dsa \<Rightarrow> u64 \<Rightarrow> signer_sig list \<Rightarrow> 'pk gateway \<Rightarrow> (gateway_error, unit) res" where
  "precheck_unpause md at_height sigs g = map_ok (\<lambda>_. ()) (check_unpause md at_height sigs g)"

definition resume_all ::
  "'pk ml_dsa \<Rightarrow> u64 \<Rightarrow> signer_sig list \<Rightarrow> 'pk gateway \<Rightarrow> 'pk gateway \<times> (gateway_error, unit) res" where
  "resume_all md at_height sigs g =
     and_then_st (check_unpause md at_height sigs g) g (\<lambda>(message, accepted).
     (touch_guard (log_admin UNPAUSE_DOMAIN message accepted
        (g\<lparr>gw_global_pause := False, gw_global_resumed_at := at_height\<rparr>)), Ok ()))"

definition unpause_all :: "'pk gateway \<Rightarrow> 'pk gateway" where
  "unpause_all g = touch_guard (g\<lparr>gw_global_pause := False\<rparr>)"

definition pause_source_direct :: "u32 \<Rightarrow> 'pk gateway \<Rightarrow> 'pk gateway" where
  "pause_source_direct source_chain g =
     touch_guard (g\<lparr>gw_paused_sources := bs_insert source_chain (gw_paused_sources g)\<rparr>)"

definition unpause_source :: "u32 \<Rightarrow> 'pk gateway \<Rightarrow> 'pk gateway" where
  "unpause_source source_chain g =
     touch_guard (g\<lparr>gw_paused_sources := bs_remove source_chain (gw_paused_sources g),
                    gw_paused_since := bt_remove source_chain (gw_paused_since g)\<rparr>)"

text \<open>\<open>current_epoch += 1\<close> panics on overflow: the release profile sets \<open>overflow-checks\<close>.\<close>

definition advance_epoch :: "'pk gateway \<Rightarrow> 'pk gateway \<times> (gateway_error, unit) res" where
  "advance_epoch g =
     (case checked_add (gw_current_epoch g) 1 of
        None \<Rightarrow> (g, Panic)
      | Some epoch \<Rightarrow>
          (touch_guard (g\<lparr>gw_current_epoch := epoch, gw_epoch_minted := 0,
                          gw_per_asset_epoch_minted := []\<rparr>), Ok ()))"

definition advance_epoch_to :: "u64 \<Rightarrow> 'pk gateway \<Rightarrow> 'pk gateway" where
  "advance_epoch_to epoch g =
     (if epoch > gw_current_epoch g
      then touch_guard (g\<lparr>gw_current_epoch := epoch, gw_epoch_minted := 0,
                          gw_per_asset_epoch_minted := []\<rparr>)
      else g)"

definition reorg_fresh :: "u32 \<Rightarrow> u64 \<Rightarrow> 'pk gateway \<Rightarrow> (gateway_error, unit) res" where
  "reorg_fresh source_chain at_height g =
     (if at_height > sat_add (gw_current_height g) RESUME_SKEW \<or>
         gw_current_height g > sat_add at_height RESUME_WINDOW \<or>
         (case bt_get (gw_resumed_at g) source_chain of
            Some resumed \<Rightarrow> at_height \<le> resumed | None \<Rightarrow> False)
      then Err (ResumeOutOfWindow at_height (gw_current_height g))
      else Ok ())"

definition report_reorg ::
  "'pk ml_dsa \<Rightarrow> u32 \<Rightarrow> u32 \<Rightarrow> u64 \<Rightarrow> signer_sig list \<Rightarrow> 'pk gateway \<Rightarrow>
   'pk gateway \<times> (gateway_error, unit) res" where
  "report_reorg md source_chain fork_depth at_height sigs g =
     and_then_st (reorg_fresh source_chain at_height g) g (\<lambda>_.
     let message = reorg_message source_chain fork_depth at_height (gw_dest_chain_id g) (gw_era g) in
     and_then_st (quorum_met md message REORG_DOMAIN sigs g) g (\<lambda>accepted.
     let g1 = (if bs_contains (gw_paused_sources g) source_chain then g
               else log_admin REORG_DOMAIN message accepted
                      (g\<lparr>gw_paused_sources := bs_insert source_chain (gw_paused_sources g)\<rparr>));
         g2 = (if bt_contains (gw_paused_since g1) source_chain then g1
               else g1\<lparr>gw_paused_since :=
                      bt_insert source_chain (gw_current_height g1) (gw_paused_since g1)\<rparr>)
     in (touch_guard g2, Ok ())))"

definition precheck_reorg ::
  "'pk ml_dsa \<Rightarrow> u32 \<Rightarrow> u32 \<Rightarrow> u64 \<Rightarrow> signer_sig list \<Rightarrow> 'pk gateway \<Rightarrow> (gateway_error, unit) res" where
  "precheck_reorg md source_chain fork_depth at_height sigs g =
     and_then (reorg_fresh source_chain at_height g) (\<lambda>_.
     map_ok (\<lambda>_. ()) (quorum_met md
       (reorg_message source_chain fork_depth at_height (gw_dest_chain_id g) (gw_era g))
       REORG_DOMAIN sigs g))"

definition precheck_resume ::
  "'pk ml_dsa \<Rightarrow> u32 \<Rightarrow> u64 \<Rightarrow> signer_sig list \<Rightarrow> 'pk gateway \<Rightarrow> (gateway_error, unit) res" where
  "precheck_resume md source_chain at_height sigs g =
     map_ok (\<lambda>_. ()) (quorum_met md
       (resume_message source_chain at_height (gw_dest_chain_id g) (gw_era g)) RESUME_DOMAIN sigs g)"

definition precheck_freeze ::
  "'pk ml_dsa \<Rightarrow> u64 \<Rightarrow> signer_sig list \<Rightarrow> 'pk gateway \<Rightarrow> (gateway_error, unit) res" where
  "precheck_freeze md until_height sigs g =
     map_ok (\<lambda>_. ()) (quorum_met md
       (freeze_message_for_era until_height (gw_dest_chain_id g) (gw_era g)) FREEZE_DOMAIN sigs g)"

definition precheck_watchdog ::
  "'pk ml_dsa \<Rightarrow> u64 \<Rightarrow> signer_sig \<Rightarrow> 'pk gateway \<Rightarrow> (gateway_error, unit) res" where
  "precheck_watchdog md until_height sig g =
     (if until_height \<le> gw_current_height g
      then Err (WatchdogExpired until_height (gw_current_height g))
      else if verify_quorum md (freeze_message_for_era until_height (gw_dest_chain_id g) (gw_era g))
                WATCHDOG_DOMAIN [sig] (gw_operators g) = []
      then Err (BelowThreshold 0 1)
      else Ok ())"

definition resume_source ::
  "'pk ml_dsa \<Rightarrow> u32 \<Rightarrow> u64 \<Rightarrow> signer_sig list \<Rightarrow> 'pk gateway \<Rightarrow>
   'pk gateway \<times> (gateway_error, unit) res" where
  "resume_source md source_chain at_height sigs g =
     (if \<not> bs_contains (gw_paused_sources g) source_chain then (g, Err (NotPaused source_chain))
      else
      let since = bt_get_or (gw_paused_since g) source_chain (gw_current_height g) in
      if at_height < since \<or>
         at_height > sat_add (gw_current_height g) RESUME_SKEW \<or>
         gw_current_height g > sat_add at_height RESUME_WINDOW \<or>
         (case bt_get (gw_resumed_at g) source_chain of
            Some resumed \<Rightarrow> at_height \<le> resumed | None \<Rightarrow> False)
      then (g, Err (ResumeOutOfWindow at_height (gw_current_height g)))
      else
      let message = resume_message source_chain at_height (gw_dest_chain_id g) (gw_era g) in
      and_then_st (quorum_met md message RESUME_DOMAIN sigs g) g (\<lambda>accepted.
      (touch_guard (log_admin RESUME_DOMAIN message accepted
         (g\<lparr>gw_paused_sources := bs_remove source_chain (gw_paused_sources g),
            gw_paused_since := bt_remove source_chain (gw_paused_since g),
            gw_resumed_at := bt_insert source_chain at_height (gw_resumed_at g)\<rparr>)), Ok ())))"

section \<open>Tiers\<close>

definition check_tier ::
  "'pk ml_dsa \<Rightarrow> u32 \<Rightarrow> u8 \<Rightarrow> signer_sig list \<Rightarrow> 'pk gateway \<Rightarrow>
   (gateway_error, bytes \<times> signer_sig list) res" where
  "check_tier md source_chain proposed sigs g =
     (if os_size (gw_governance g) = 0 then Err NoGovernanceSet
      else
      let message = tier_message source_chain proposed (gw_dest_chain_id g) (gw_era g);
          accepted = verified_quorum md message TIER_DOMAIN sigs (gw_governance g);
          need = max (os_threshold (gw_governance g)) (supermajority_floor (os_size (gw_governance g)))
      in if length accepted < need then Err (BelowThreshold (length accepted) need)
      else
      and_then (ok_or (CorridorNotOpen source_chain) (bt_get (gw_corridors g) source_chain)) (\<lambda>corridor.
      if proposed \<le> cc_tier corridor then Err (TierDowngrade (cc_tier corridor) proposed)
      else Ok (message, accepted)))"

definition precheck_tier ::
  "'pk ml_dsa \<Rightarrow> u32 \<Rightarrow> u8 \<Rightarrow> signer_sig list \<Rightarrow> 'pk gateway \<Rightarrow> (gateway_error, unit) res" where
  "precheck_tier md source_chain proposed sigs g =
     map_ok (\<lambda>_. ()) (check_tier md source_chain proposed sigs g)"

definition set_corridor_tier ::
  "'pk ml_dsa \<Rightarrow> u32 \<Rightarrow> u8 \<Rightarrow> signer_sig list \<Rightarrow> 'pk gateway \<Rightarrow>
   'pk gateway \<times> (gateway_error, unit) res" where
  "set_corridor_tier md source_chain proposed sigs g =
     and_then_st (check_tier md source_chain proposed sigs g) g (\<lambda>(message, accepted).
     case bt_get (gw_corridors g) source_chain of
       None \<Rightarrow> (g, Ok ())
     | Some c \<Rightarrow>
         (touch_guard (log_admin TIER_DOMAIN message accepted
            (g\<lparr>gw_corridors := bt_insert source_chain (c\<lparr>cc_tier := proposed\<rparr>) (gw_corridors g)\<rparr>)),
          Ok ()))"

section \<open>Freezes\<close>

definition emergency_freeze ::
  "'pk ml_dsa \<Rightarrow> u64 \<Rightarrow> signer_sig list \<Rightarrow> 'pk gateway \<Rightarrow> 'pk gateway \<times> (gateway_error, unit) res" where
  "emergency_freeze md until_height sigs g =
     (let ceiling = sat_add (gw_current_height g) EMERGENCY_FREEZE_MAX_WINDOW in
      if until_height > ceiling then (g, Err (FreezeWindowTooWide until_height ceiling))
      else if until_height \<le> gw_current_height g
      then (g, Err (FreezeInPast until_height (gw_current_height g)))
      else
      let message = freeze_message_for_era until_height (gw_dest_chain_id g) (gw_era g) in
      and_then_st (quorum_met md message FREEZE_DOMAIN sigs g) g (\<lambda>accepted.
      if until_height > gw_frozen_until g
      then (touch_guard (log_admin FREEZE_DOMAIN message accepted
              (g\<lparr>gw_frozen_until := until_height, gw_lifted_freeze := 0\<rparr>)), Ok ())
      else (g, Ok ())))"

definition lift_freeze ::
  "'pk ml_dsa \<Rightarrow> signer_sig list \<Rightarrow> 'pk gateway \<Rightarrow> 'pk gateway \<times> (gateway_error, unit) res" where
  "lift_freeze md sigs g =
     (if \<not> is_frozen g then (g, Err NotFrozen)
      else
      let message = lift_message (gw_frozen_until g) (gw_dest_chain_id g) (gw_era g) in
      and_then_st (quorum_met md message LIFT_DOMAIN sigs g) g (\<lambda>accepted.
      (touch_guard (log_admin LIFT_DOMAIN message accepted
         (g\<lparr>gw_lifted_freeze := gw_frozen_until g\<rparr>)), Ok ())))"

definition watchdog_freeze ::
  "'pk ml_dsa \<Rightarrow> u64 \<Rightarrow> signer_sig \<Rightarrow> 'pk gateway \<Rightarrow> 'pk gateway \<times> (gateway_error, unit) res" where
  "watchdog_freeze md until_height sig g =
     (if gw_current_height g = 0 then (g, Err WatchdogWithoutClock)
      else if until_height \<le> gw_current_height g
      then (g, Err (WatchdogExpired until_height (gw_current_height g)))
      else
      let ceiling = sat_add (gw_current_height g) WATCHDOG_MAX_WINDOW in
      if until_height > ceiling then (g, Err (WatchdogWindowTooWide until_height ceiling))
      else
      let message = freeze_message_for_era until_height (gw_dest_chain_id g) (gw_era g);
          accepted = verified_quorum md message WATCHDOG_DOMAIN [sig] (gw_operators g)
      in case accepted of
        [] \<Rightarrow> (g, Err (BelowThreshold 0 1))
      | s # _ \<Rightarrow>
          let operator = ss_operator_id s;
              cooling = (case bt_get (gw_watchdog_last g) operator of
                           Some last_at \<Rightarrow> gw_current_height g < sat_add last_at WATCHDOG_COOLDOWN
                         | None \<Rightarrow> False);
              chained = (gw_deposit_frozen_until g > 0 \<and>
                 gw_current_height g < sat_add (gw_deposit_frozen_until g) WATCHDOG_MAX_WINDOW)
          in if cooling \<or> chained then (g, Err WatchdogCooldown)
          else
          let g1 = log_admin WATCHDOG_DOMAIN message accepted
                (g\<lparr>gw_watchdog_last := bt_insert operator (gw_current_height g) (gw_watchdog_last g)\<rparr>)
          in if until_height > gw_deposit_frozen_until g1
             then (touch_guard (g1\<lparr>gw_deposit_frozen_until := until_height\<rparr>), Ok ())
             else (g1, Ok ()))"

section \<open>Batches and exits\<close>

definition accept_batch ::
  "'pk ml_dsa \<Rightarrow> u32 \<Rightarrow> u64 \<Rightarrow> signer_sig list \<Rightarrow> 'pk gateway \<Rightarrow>
   'pk gateway \<times> (gateway_error, unit) res" where
  "accept_batch md source_chain batch_index sigs g =
     and_then_st (ok_or (CorridorNotOpen source_chain) (bt_get (gw_corridors g) source_chain)) g
     (\<lambda>corridor.
     if \<not> cc_active corridor then (g, Err (CorridorInactive source_chain))
     else
     let required = required_quorum g corridor;
         message = batch_message source_chain batch_index (gw_dest_chain_id g) (gw_era g);
         distinct_ops = verify_quorum md message BATCH_DOMAIN sigs (gw_operators g)
     in if length distinct_ops < required
     then (g, Err (BelowThreshold (length distinct_ops) required))
     else
     let cursor = bt_get_or (gw_corridor_cursor g) source_chain 0 in
     if batch_index \<noteq> cursor then (g, Err (StaleBatch batch_index cursor))
     else case checked_add cursor 1 of
       None \<Rightarrow> (g, Panic)
     | Some next_cursor \<Rightarrow>
         (touch_guard (g\<lparr>gw_corridor_cursor :=
            bt_insert source_chain next_cursor (gw_corridor_cursor g)\<rparr>), Ok ()))"

definition request_exit ::
  "bytes \<Rightarrow> u128 \<Rightarrow> bytes \<Rightarrow> 'pk gateway \<Rightarrow> 'pk gateway \<times> (gateway_error, exit_ticket) res" where
  "request_exit asset_id amount destination g =
     (if amount = 0 then (g, Err (InvalidFact ZeroAmount))
      else if length (gw_pending_exits g) \<ge> MAX_PENDING_EXITS
      then (g, Err (ExitQueueFull (length (gw_pending_exits g)) MAX_PENDING_EXITS))
      else
      let minted = bt_get_or (gw_per_asset_minted g) asset_id 0 in
      if amount > minted then (g, Err (ExitExceedsMinted minted amount))
      else
      let g1 = g\<lparr>gw_per_asset_minted := bt_insert asset_id (minted - amount) (gw_per_asset_minted g)\<rparr>;
          exit_id = gw_next_exit_id g1
      in case checked_add exit_id 1 of
        None \<Rightarrow> (g1, Panic)
      | Some next_id \<Rightarrow>
          let g2 = g1\<lparr>gw_next_exit_id := next_id\<rparr>;
              unlock_height = sat_add (gw_current_height g2) (gw_exit_delay g2);
              ticket = \<lparr>et_exit_id = exit_id, et_asset_id = asset_id, et_amount = amount,
                        et_destination = destination, et_unlock_height = unlock_height\<rparr>
          in (touch_guard (g2\<lparr>gw_pending_exits := bt_insert exit_id ticket (gw_pending_exits g2)\<rparr>),
              Ok ticket))"

definition finalize_exit ::
  "u64 \<Rightarrow> 'pk gateway \<Rightarrow> 'pk gateway \<times> (gateway_error, exit_ticket) res" where
  "finalize_exit exit_id g =
     (if gw_global_pause g then (g, Err GlobalPause)
      else if is_frozen g then (g, Err (Frozen (gw_frozen_until g)))
      else
      and_then_st (ok_or (UnknownExit exit_id) (bt_get (gw_pending_exits g) exit_id)) g (\<lambda>ticket.
      if gw_current_height g < et_unlock_height ticket
      then (g, Err (ExitNotReady (gw_current_height g) (et_unlock_height ticket)))
      else (touch_guard (g\<lparr>gw_pending_exits := bt_remove exit_id (gw_pending_exits g)\<rparr>), Ok ticket)))"

definition cancel_exit ::
  "u64 \<Rightarrow> 'pk gateway \<Rightarrow> 'pk gateway \<times> (gateway_error, exit_ticket) res" where
  "cancel_exit exit_id g =
     and_then_st (ok_or (UnknownExit exit_id) (bt_get (gw_pending_exits g) exit_id)) g (\<lambda>ticket.
     let g1 = g\<lparr>gw_pending_exits := bt_remove exit_id (gw_pending_exits g)\<rparr>;
         minted = bt_get_or (gw_per_asset_minted g1) (et_asset_id ticket) 0
     in (touch_guard (g1\<lparr>gw_per_asset_minted :=
           bt_insert (et_asset_id ticket) (sat_add minted (et_amount ticket)) (gw_per_asset_minted g1)\<rparr>),
         Ok ticket))"

section \<open>Minting\<close>

definition precheck_trustless ::
  "bytes \<Rightarrow> bytes \<Rightarrow> u128 \<Rightarrow> u32 \<Rightarrow> 'pk gateway \<Rightarrow> (gateway_error, unit) res" where
  "precheck_trustless asset_id source_ref amount source_chain g =
     (if gw_global_pause g then Err GlobalPause
      else if gw_current_height g < mint_freeze_horizon g then Err (Frozen (mint_freeze_horizon g))
      else if bs_contains (gw_paused_sources g) source_chain then Err (SourcePaused source_chain)
      else
      and_then (ok_or (CorridorNotOpen source_chain) (bt_get (gw_corridors g) source_chain)) (\<lambda>corridor.
      if \<not> cc_active corridor then Err (CorridorInactive source_chain)
      else if bs_contains (gw_used_refs g) (source_chain, source_ref) then Err ReplayedReference
      else
      and_then (ok_or AssetNotRegistered (bt_get (gw_per_asset_cap g) asset_id)) (\<lambda>cap.
      let minted = bt_get_or (gw_per_asset_minted g) asset_id 0;
          outstanding = sat_add minted (pending_exit_of g asset_id)
      in
      and_then (ok_or (AssetCapExceeded outstanding cap amount) (checked_add outstanding amount))
      (\<lambda>after_cap.
      if after_cap > cap then Err (AssetCapExceeded outstanding cap amount)
      else
      and_then (ok_or (EpochCapExceeded (gw_epoch_minted g) (gw_epoch_cap g) amount)
                  (checked_add (gw_epoch_minted g) amount)) (\<lambda>epoch_after.
      if epoch_after > gw_epoch_cap g
      then Err (EpochCapExceeded (gw_epoch_minted g) (gw_epoch_cap g) amount)
      else charge_asset_epoch asset_id amount g)))))"

definition admit_trustless ::
  "bytes \<Rightarrow> bytes \<Rightarrow> u128 \<Rightarrow> u32 \<Rightarrow> 'pk gateway \<Rightarrow> 'pk gateway \<times> (gateway_error, unit) res" where
  "admit_trustless asset_id source_ref amount source_chain g =
     and_then_st (precheck_trustless asset_id source_ref amount source_chain g) g (\<lambda>_.
     let minted = bt_get_or (gw_per_asset_minted g) asset_id 0;
         g1 = g\<lparr>gw_used_refs := bs_insert (source_chain, source_ref) (gw_used_refs g),
                gw_refs_any_chain := bs_insert source_ref (gw_refs_any_chain g),
                gw_per_asset_minted := bt_insert asset_id (sat_add minted amount) (gw_per_asset_minted g),
                gw_epoch_minted := sat_add (gw_epoch_minted g) amount\<rparr>
     in (touch_guard (record_asset_epoch asset_id amount g1), Ok ()))"

definition precheck_deposit ::
  "'pk ml_dsa \<Rightarrow> attestation_envelope \<Rightarrow> 'pk gateway \<Rightarrow> (gateway_error, unit) res" where
  "precheck_deposit md env g =
     (if gw_global_pause g then Err GlobalPause
      else if gw_current_height g < mint_freeze_horizon g then Err (Frozen (mint_freeze_horizon g))
      else if gw_dest_chain_id g = 0 then Err WrongDestination
      else
      let f = ae_fact env in
      if fact_is_zero f then Err ProveNothing
      else
      and_then (map_err InvalidFact (fact_validate f)) (\<lambda>_.
      if bf_direction f \<noteq> Deposit then Err WrongDirection
      else if bf_dest_chain f \<noteq> gw_chain_id g then Err WrongDestination
      else if gw_current_height g > bf_expiry_height f
      then Err (MessageExpired (gw_current_height g) (bf_expiry_height f))
      else
      and_then (ok_or (CorridorNotOpen (bf_source_chain f)) (bt_get (gw_corridors g) (bf_source_chain f)))
      (\<lambda>corridor.
      if \<not> cc_active corridor then Err (CorridorInactive (bf_source_chain f))
      else if bs_contains (gw_paused_sources g) (bf_source_chain f)
      then Err (SourcePaused (bf_source_chain f))
      else if bf_finality_depth f < cc_confirmation_depth corridor
      then Err (InsufficientFinality (bf_finality_depth f) (cc_confirmation_depth corridor))
      else
      let n = os_size (gw_operators g); required = required_quorum g corridor in
      if required = 0 \<or> required > n then Err (ThinQuorum required n)
      else
      let message = attest_preimage f (gw_dest_chain_id g);
          distinct_ops = verify_quorum md message (attest_context (gw_era g)) (ae_signatures env)
                           (gw_operators g)
      in if length distinct_ops < required then Err (BelowThreshold (length distinct_ops) required)
      else Ok ())))"

definition attests :: "'pk ml_dsa \<Rightarrow> bridge_fact \<Rightarrow> signer_sig \<Rightarrow> 'pk gateway \<Rightarrow> bool" where
  "attests md f sig g \<longleftrightarrow>
     verify_quorum md (attest_preimage f (gw_dest_chain_id g)) (attest_context (gw_era g)) [sig]
       (gw_operators g) \<noteq> []"

definition process_deposit ::
  "'pk ml_dsa \<Rightarrow> attestation_envelope \<Rightarrow> 'pk gateway \<Rightarrow>
   'pk gateway \<times> (gateway_error, mint_receipt) res" where
  "process_deposit md env g =
     and_then_st (precheck_deposit md env g) g (\<lambda>_.
     let f = ae_fact env in
     and_then_st (ok_or AssetNotRegistered (bt_get (gw_per_asset_cap g) (bf_asset_id f))) g (\<lambda>cap.
     let minted = bt_get_or (gw_per_asset_minted g) (bf_asset_id f) 0;
         outstanding = sat_add minted (pending_exit_of g (bf_asset_id f))
     in
     and_then_st (ok_or (AssetCapExceeded outstanding cap (bf_amount f))
                    (checked_add outstanding (bf_amount f))) g (\<lambda>after_cap.
     if after_cap > cap then (g, Err (AssetCapExceeded outstanding cap (bf_amount f)))
     else
     let asset_after = sat_add minted (bf_amount f) in
     and_then_st (ok_or (EpochCapExceeded (gw_epoch_minted g) (gw_epoch_cap g) (bf_amount f))
                    (checked_add (gw_epoch_minted g) (bf_amount f))) g (\<lambda>epoch_after.
     if epoch_after > gw_epoch_cap g
     then (g, Err (EpochCapExceeded (gw_epoch_minted g) (gw_epoch_cap g) (bf_amount f)))
     else if bs_contains (gw_used_refs g) (bf_source_chain f, bf_source_ref f)
     then (g, Err ReplayedReference)
     else
     and_then_st (charge_asset_epoch (bf_asset_id f) (bf_amount f) g) g (\<lambda>_.
     let g1 = g\<lparr>gw_used_refs := bs_insert (bf_source_chain f, bf_source_ref f) (gw_used_refs g),
                gw_refs_any_chain := bs_insert (bf_source_ref f) (gw_refs_any_chain g),
                gw_per_asset_minted := bt_insert (bf_asset_id f) asset_after (gw_per_asset_minted g),
                gw_epoch_minted := epoch_after\<rparr>
     in (touch_guard (record_asset_epoch (bf_asset_id f) (bf_amount f) g1),
         Ok \<lparr>mr_asset_id = bf_asset_id f, mr_recipient = bf_recipient f, mr_amount = bf_amount f,
             mr_source_ref = bf_source_ref f, mr_source_chain = bf_source_chain f\<rparr>))))))"

end
