(* ===== verification/Runs.thy ===== *)
theory Runs
  imports Prelude
begin

text \<open>
  Sequences of calls on a stateful component. A component is a function \<open>call\<close> that takes a request
  and a state and returns the state it leaves and its outcome, the outcome of a success being the
  list of events the call makes visible. \<open>runs\<close> is every sequence of calls from a state, in any
  order and with any arguments, with the events of the successful ones; a call that fails leaves
  the state the code leaves, and a panic ends the run.

  \<open>invariant_calls\<close> is the interface of a component that keeps an invariant, \<open>atomic_calls\<close> of one
  whose failed calls change nothing, and \<open>refined_calls\<close> of one that implements an abstract machine:
  the lemmas about whole runs are proved once here and used through the interpretations.
\<close>

inductive runs ::
  "('c \<Rightarrow> 's \<Rightarrow> 's \<times> ('err, 'ev list) res) \<Rightarrow> 's \<Rightarrow> 'ev list \<Rightarrow> 's \<Rightarrow> bool"
  for call :: "'c \<Rightarrow> 's \<Rightarrow> 's \<times> ('err, 'ev list) res" and s :: 's where
  runs_start: "runs call s [] s"
| runs_ok: "runs call s evs s' \<Longrightarrow> call c s' = (s'', Ok new) \<Longrightarrow> runs call s (evs @ new) s''"
| runs_err: "runs call s evs s' \<Longrightarrow> call c s' = (s'', Err e) \<Longrightarrow> runs call s evs s''"

text \<open>The run of a given list of calls, stopping at a panic.\<close>

fun run_calls ::
  "('c \<Rightarrow> 's \<Rightarrow> 's \<times> ('err, 'ev list) res) \<Rightarrow> 'c list \<Rightarrow> 's \<Rightarrow> 's \<times> 'ev list" where
  "run_calls call [] s = (s, [])"
| "run_calls call (c # cs) s =
     (case call c s of
        (s', Ok new) \<Rightarrow> (let (s'', evs) = run_calls call cs s' in (s'', new @ evs))
      | (s', Err e) \<Rightarrow> run_calls call cs s'
      | (s', Panic) \<Rightarrow> (s, []))"

lemma runs_trans: "runs call s' evs' s'' \<Longrightarrow> runs call s evs s' \<Longrightarrow> runs call s (evs @ evs') s''"
proof (induction rule: runs.induct)
  case runs_start
  then show ?case by simp
next
  case (runs_ok evs' s' c s'' new)
  then show ?case using runs.runs_ok [of call s "evs @ evs'" s' c s'' new] by simp
next
  case (runs_err evs' s' c s'' e)
  then show ?case using runs.runs_err [of call s "evs @ evs'" s' c s'' e] by simp
qed

lemma runs_run_calls: "run_calls call cs s = (s', evs) \<Longrightarrow> runs call s evs s'"
proof (induction cs arbitrary: s evs)
  case Nil
  then show ?case by (simp add: runs_start)
next
  case (Cons c cs)
  obtain s1 r where c: "call c s = (s1, r)" by (cases "call c s")
  show ?case
  proof (cases r)
    case (Ok new)
    obtain evs1 where rest: "run_calls call cs s1 = (s', evs1)" "evs = new @ evs1"
      using Cons.prems c Ok by (auto split: prod.splits)
    have "runs call s ([] @ new) s1" using runs_ok [OF runs_start] c Ok by metis
    with rest Cons.IH show ?thesis by (auto intro: runs_trans)
  next
    case (Err e)
    have "runs call s [] s1" using runs_err [OF runs_start] c Err by metis
    moreover have "run_calls call cs s1 = (s', evs)" using Cons.prems c Err by simp
    ultimately show ?thesis using Cons.IH runs_trans [of call s1 evs s' s "[]"] by simp
  next
    case Panic
    with Cons.prems c show ?thesis by (simp add: runs_start)
  qed
qed

locale invariant_calls =
  fixes call :: "'c \<Rightarrow> 's \<Rightarrow> 's \<times> ('err, 'ev list) res"
    and inv :: "'s \<Rightarrow> bool"
  assumes ok_inv: "inv s \<Longrightarrow> call c s = (s', Ok new) \<Longrightarrow> inv s'"
    and err_inv: "inv s \<Longrightarrow> call c s = (s', Err e) \<Longrightarrow> inv s'"
begin

lemma runs_inv: "runs call s evs s' \<Longrightarrow> inv s \<Longrightarrow> inv s'"
  by (induction rule: runs.induct) (auto intro: ok_inv err_inv)

text \<open>A relation between states that every successful call keeps along holds of whole runs.\<close>

lemma runs_along:
  assumes "runs call s evs s'" "inv s"
    and refl: "\<And>s. R s s" and trans: "\<And>a b c. R a b \<Longrightarrow> R b c \<Longrightarrow> R a c"
    and ok: "\<And>s c s' new. inv s \<Longrightarrow> call c s = (s', Ok new) \<Longrightarrow> R s s'"
    and err: "\<And>s c s' e. inv s \<Longrightarrow> call c s = (s', Err e) \<Longrightarrow> R s s'"
  shows "R s s'"
  using assms(1,2)
  by (induction rule: runs.induct) (auto intro: refl trans ok err runs_inv)

end

locale atomic_calls =
  fixes call :: "'c \<Rightarrow> 's \<Rightarrow> 's \<times> ('err, 'ev list) res"
    and inv :: "'s \<Rightarrow> bool"
  assumes err_same: "call c s = (s', Err e) \<Longrightarrow> s' = s"
    and ok_keeps: "inv s \<Longrightarrow> call c s = (s', Ok new) \<Longrightarrow> inv s'"

sublocale atomic_calls \<subseteq> ic: invariant_calls call inv
  by unfold_locales (auto dest: ok_keeps err_same)

text \<open>The abstract machine \<open>app\<close> is a partial function on events: \<open>None\<close> where the specification does
  not allow the event.\<close>

fun apply_all :: "('ev \<Rightarrow> 'a \<Rightarrow> 'a option) \<Rightarrow> 'ev list \<Rightarrow> 'a \<Rightarrow> 'a option" where
  "apply_all app [] a = Some a"
| "apply_all app (e # es) a = (case app e a of None \<Rightarrow> None | Some a' \<Rightarrow> apply_all app es a')"

lemma apply_all_append:
  "apply_all app (es @ es') a = (case apply_all app es a of None \<Rightarrow> None | Some a' \<Rightarrow> apply_all app es' a')"
  by (induction es arbitrary: a) (auto split: option.splits)

locale refined_calls = atomic_calls call inv
  for call :: "'c \<Rightarrow> 's \<Rightarrow> 's \<times> ('err, 'ev list) res" and inv :: "'s \<Rightarrow> bool" +
  fixes app :: "'p \<Rightarrow> 'ev \<Rightarrow> 'a \<Rightarrow> 'a option" and abs :: "'s \<Rightarrow> 'a" and params :: "'s \<Rightarrow> 'p"
  assumes refines: "inv s \<Longrightarrow> call c s = (s', Ok new) \<Longrightarrow>
      apply_all (app (params s)) new (abs s) = Some (abs s')"
    and params_fixed: "inv s \<Longrightarrow> call c s = (s', Ok new) \<Longrightarrow> params s' = params s"
begin

lemma runs_params: "runs call s evs s' \<Longrightarrow> inv s \<Longrightarrow> params s' = params s"
  by (induction rule: runs.induct) (metis params_fixed err_same ic.runs_inv)+

lemma runs_refines:
  "runs call s evs s' \<Longrightarrow> inv s \<Longrightarrow> apply_all (app (params s)) evs (abs s) = Some (abs s')"
proof (induction rule: runs.induct)
  case runs_start
  then show ?case by simp
next
  case (runs_ok evs s' c s'' new)
  then show ?case
    using refines [of s' c s'' new] ic.runs_inv runs_params by (simp add: apply_all_append)
next
  case (runs_err evs s' c s'' e)
  then show ?case by (auto dest: err_same)
qed

end

end
