(* ===== verification/Bridge_Ledger.thy ===== *)
theory Bridge_Ledger
  imports Gateway Runs
begin

text \<open>
  What the gateway promises, without how it keeps it: an abstract ledger of the references already
  credited, the supply in circulation and the supply locked in the exit queue, per asset, and the
  queue. \<open>ledger_apply\<close> says which event the ledger allows and what it does; it knows nothing of
  signatures, pauses or heights. The theorems about histories (supply is mints less finalised exits,
  no reference is credited twice, no exit is paid twice, the cap holds throughout) are proved here
  for every history the ledger allows; \<open>Gateway_Calls\<close> shows that the gateway's operations only
  make allowed histories.
\<close>

datatype gateway_event =
    Minted u32 bytes bytes u128   \<comment> \<open>source chain, source reference, asset, amount\<close>
  | Requested exit_ticket
  | Finalized exit_ticket
  | Cancelled exit_ticket

record bridge_ledger =
  bl_used :: "(u32 \<times> bytes) set"
  bl_circulating :: "bytes \<Rightarrow> nat"
  bl_queued :: "bytes \<Rightarrow> nat"
  bl_queue :: "u64 \<Rightarrow> exit_ticket option"
  bl_issued :: "u64 set"

definition bl_supply :: "bridge_ledger \<Rightarrow> bytes \<Rightarrow> nat" where
  "bl_supply L a = bl_circulating L a + bl_queued L a"

fun ledger_apply :: "(bytes \<Rightarrow> u128 option) \<Rightarrow> gateway_event \<Rightarrow> bridge_ledger \<Rightarrow> bridge_ledger option" where
  "ledger_apply caps (Minted c r a m) L =
     (if (c, r) \<in> bl_used L then None
      else case caps a of
        None \<Rightarrow> None
      | Some cap \<Rightarrow>
          if bl_supply L a + unat m > unat cap then None
          else Some (L\<lparr>bl_used := insert (c, r) (bl_used L),
                       bl_circulating := (bl_circulating L)(a := bl_circulating L a + unat m)\<rparr>))"
| "ledger_apply caps (Requested t) L =
     (let a = et_asset_id t; i = et_exit_id t; m = unat (et_amount t) in
      if m = 0 \<or> i \<in> bl_issued L \<or> bl_circulating L a < m then None
      else Some (L\<lparr>bl_circulating := (bl_circulating L)(a := bl_circulating L a - m),
                   bl_queued := (bl_queued L)(a := bl_queued L a + m),
                   bl_queue := (bl_queue L)(i := Some t),
                   bl_issued := insert i (bl_issued L)\<rparr>))"
| "ledger_apply caps (Finalized t) L =
     (let a = et_asset_id t; i = et_exit_id t; m = unat (et_amount t) in
      if bl_queue L i \<noteq> Some t then None
      else Some (L\<lparr>bl_queued := (bl_queued L)(a := bl_queued L a - m),
                   bl_queue := (bl_queue L)(i := None)\<rparr>))"
| "ledger_apply caps (Cancelled t) L =
     (let a = et_asset_id t; i = et_exit_id t; m = unat (et_amount t) in
      if bl_queue L i \<noteq> Some t then None
      else Some (L\<lparr>bl_circulating := (bl_circulating L)(a := bl_circulating L a + m),
                   bl_queued := (bl_queued L)(a := bl_queued L a - m),
                   bl_queue := (bl_queue L)(i := None)\<rparr>))"

section \<open>Histories\<close>

fun minted_by :: "bytes \<Rightarrow> gateway_event \<Rightarrow> nat" where
  "minted_by a (Minted c r a' m) = (if a' = a then unat m else 0)"
| "minted_by a ev = 0"

fun paid_by :: "bytes \<Rightarrow> gateway_event \<Rightarrow> nat" where
  "paid_by a (Finalized t) = (if et_asset_id t = a then unat (et_amount t) else 0)"
| "paid_by a ev = 0"

definition total_minted :: "bytes \<Rightarrow> gateway_event list \<Rightarrow> nat" where
  "total_minted a evs = sum_list (map (minted_by a) evs)"

definition total_paid :: "bytes \<Rightarrow> gateway_event list \<Rightarrow> nat" where
  "total_paid a evs = sum_list (map (paid_by a) evs)"

fun credited_ref :: "gateway_event \<Rightarrow> (u32 \<times> bytes) list" where
  "credited_ref (Minted c r a m) = [(c, r)]"
| "credited_ref ev = []"

fun settled_exit :: "gateway_event \<Rightarrow> u64 list" where
  "settled_exit (Finalized t) = [et_exit_id t]"
| "settled_exit (Cancelled t) = [et_exit_id t]"
| "settled_exit ev = []"

definition credited_refs :: "gateway_event list \<Rightarrow> (u32 \<times> bytes) list" where
  "credited_refs evs = concat (map credited_ref evs)"

definition settled_exits :: "gateway_event list \<Rightarrow> u64 list" where
  "settled_exits evs = concat (map settled_exit evs)"

text \<open>The invariant of the ledger: what the queue holds is accounted for as queued and was issued.\<close>

definition share :: "bytes \<Rightarrow> exit_ticket \<Rightarrow> nat" where
  "share a t = (if et_asset_id t = a then unat (et_amount t) else 0)"

definition bl_inv :: "bridge_ledger \<Rightarrow> bool" where
  "bl_inv L \<longleftrightarrow> finite (dom (bl_queue L)) \<and> dom (bl_queue L) \<subseteq> bl_issued L \<and>
     (\<forall>i t. bl_queue L i = Some t \<longrightarrow> et_exit_id t = i) \<and>
     (\<forall>a. bl_queued L a = (\<Sum>i\<in>dom (bl_queue L). share a (the (bl_queue L i))))"

definition within_caps :: "(bytes \<Rightarrow> u128 option) \<Rightarrow> bridge_ledger \<Rightarrow> bool" where
  "within_caps caps L \<longleftrightarrow>
     (\<forall>a. case caps a of Some cap \<Rightarrow> bl_supply L a \<le> unat cap | None \<Rightarrow> bl_supply L a = 0)"

lemma queued_add:
  assumes "finite (dom q)" "q i = None"
  shows "(\<Sum>j\<in>dom (q(i := Some t)). share a (the ((q(i := Some t)) j))) =
         share a t + (\<Sum>j\<in>dom q. share a (the (q j)))"
proof -
  have "dom (q(i := Some t)) = insert i (dom q)" by auto
  moreover have "i \<notin> dom q" using assms(2) by auto
  moreover have "(\<Sum>j\<in>dom q. share a (the ((q(i := Some t)) j))) = (\<Sum>j\<in>dom q. share a (the (q j)))"
    using assms(2) by (intro sum.cong) auto
  ultimately show ?thesis using assms(1) by simp
qed

lemma queued_drop:
  assumes "finite (dom q)" "q i = Some t"
  shows "(\<Sum>j\<in>dom q. share a (the (q j))) =
         share a t + (\<Sum>j\<in>dom (q(i := None)). share a (the ((q(i := None)) j)))"
proof -
  have "(q(i := None))(i := Some t) = q" using assms(2) by auto
  then show ?thesis using queued_add [of "q(i := None)" i a t] assms(1) by simp
qed

lemma queued_ge:
  assumes "bl_inv L" "bl_queue L i = Some t"
  shows "unat (et_amount t) \<le> bl_queued L (et_asset_id t)"
  using queued_drop [of "bl_queue L" i t "et_asset_id t"] assms
  by (simp add: bl_inv_def share_def)

lemma queue_drop_inv:
  assumes "bl_inv L" "bl_queue L i = Some t" "bl_queue L' = (bl_queue L)(i := None)"
    "bl_issued L' = bl_issued L" "\<And>a. bl_queued L' a = bl_queued L a - share a t"
  shows "bl_inv L'"
proof -
  have "bl_queued L a = share a t + (\<Sum>j\<in>dom (bl_queue L'). share a (the (bl_queue L' j)))" for a
    using queued_drop [of "bl_queue L" i t a] assms(1-3) by (simp add: bl_inv_def)
  then have "bl_queued L' a = (\<Sum>j\<in>dom (bl_queue L'). share a (the (bl_queue L' j)))" for a
    by (simp add: assms(5))
  moreover have "finite (dom (bl_queue L'))" "dom (bl_queue L') \<subseteq> bl_issued L'"
    "\<forall>i t. bl_queue L' i = Some t \<longrightarrow> et_exit_id t = i"
    using assms(1,3,4) by (auto simp: bl_inv_def split: if_splits)
  ultimately show ?thesis by (simp add: bl_inv_def)
qed

lemma ledger_apply_inv:
  assumes "bl_inv L" "ledger_apply caps ev L = Some L'"
  shows "bl_inv L'"
proof (cases ev)
  case (Minted c r a m)
  then have "bl_queue L' = bl_queue L" "bl_issued L' = bl_issued L" "bl_queued L' = bl_queued L"
    using assms(2) by (auto split: if_splits option.splits)
  with assms(1) show ?thesis by (simp add: bl_inv_def)
next
  case (Requested t)
  let ?q = "bl_queue L" and ?i = "et_exit_id t"
  have new: "?q ?i = None" "finite (dom ?q)"
    using assms Requested by (auto simp: bl_inv_def Let_def split: if_splits)
  have L': "bl_queue L' = ?q(?i := Some t)" "bl_issued L' = insert ?i (bl_issued L)"
    "\<And>a. bl_queued L' a = share a t + bl_queued L a"
    using assms(2) Requested by (auto simp: Let_def share_def split: if_splits)
  show ?thesis using assms(1) new(2) queued_add [OF new(2,1), where t = t]
    unfolding bl_inv_def L' by auto
next
  case (Finalized t)
  let ?q = "bl_queue L" and ?i = "et_exit_id t"
  have L': "bl_queue L' = ?q(?i := None)" "bl_issued L' = bl_issued L"
    "\<And>a. bl_queued L' a = bl_queued L a - share a t" and old: "?q ?i = Some t"
    using assms(2) Finalized by (auto simp: Let_def share_def split: if_splits)
  show ?thesis by (rule queue_drop_inv [OF assms(1) old L'])
next
  case (Cancelled t)
  let ?q = "bl_queue L" and ?i = "et_exit_id t"
  have L': "bl_queue L' = ?q(?i := None)" "bl_issued L' = bl_issued L"
    "\<And>a. bl_queued L' a = bl_queued L a - share a t" and old: "?q ?i = Some t"
    using assms(2) Cancelled by (auto simp: Let_def share_def split: if_splits)
  show ?thesis by (rule queue_drop_inv [OF assms(1) old L'])
qed

lemma ledger_apply_supply:
  assumes "bl_inv L" "ledger_apply caps ev L = Some L'"
  shows "bl_supply L' a + paid_by a ev = bl_supply L a + minted_by a ev"
proof (cases ev)
  case (Finalized t)
  with assms queued_ge [OF assms(1), of "et_exit_id t" t] show ?thesis
    by (auto simp: bl_supply_def Let_def split: if_splits)
next
  case (Cancelled t)
  with assms queued_ge [OF assms(1), of "et_exit_id t" t] show ?thesis
    by (auto simp: bl_supply_def Let_def split: if_splits)
qed (use assms in \<open>auto simp: bl_supply_def Let_def split: if_splits option.splits\<close>)

lemma ledger_apply_caps:
  assumes "bl_inv L" "within_caps caps L" "ledger_apply caps ev L = Some L'"
  shows "within_caps caps L'"
proof -
  have totals: "bl_supply L' a + paid_by a ev = bl_supply L a + minted_by a ev" for a
    using ledger_apply_supply [OF assms(1,3)] .
  have "(case caps a of Some cap \<Rightarrow> bl_supply L' a \<le> unat cap | None \<Rightarrow> bl_supply L' a = 0)" for a
  proof (cases "minted_by a ev = 0")
    case True
    then have "bl_supply L' a \<le> bl_supply L a" using totals [of a] by linarith
    moreover have "case caps a of Some cap \<Rightarrow> bl_supply L a \<le> unat cap | None \<Rightarrow> bl_supply L a = 0"
      using assms(2) by (simp add: within_caps_def)
    ultimately show ?thesis by (auto split: option.splits)
  next
    case False
    then obtain c r m where "ev = Minted c r a m" by (cases ev) (auto split: if_splits)
    with assms(3) totals [of a] show ?thesis by (auto split: if_splits option.splits)
  qed
  then show ?thesis by (simp add: within_caps_def)
qed

lemma ledger_apply_used:
  assumes "ledger_apply caps ev L = Some L'"
  shows "set (credited_ref ev) \<inter> bl_used L = {} \<and> bl_used L' = bl_used L \<union> set (credited_ref ev)"
  using assms by (cases ev) (auto simp: Let_def split: if_splits option.splits)

text \<open>Exits already settled: issued and no longer queued.\<close>

definition bl_settled :: "bridge_ledger \<Rightarrow> u64 set" where
  "bl_settled L = bl_issued L - dom (bl_queue L)"

lemma ledger_apply_settled:
  assumes "bl_inv L" "ledger_apply caps ev L = Some L'"
  shows "set (settled_exit ev) \<inter> bl_settled L = {} \<and> bl_settled L' = bl_settled L \<union> set (settled_exit ev)"
proof -
  have dom: "dom (bl_queue L) \<subseteq> bl_issued L" using assms(1) by (simp add: bl_inv_def)
  show ?thesis using assms(2) dom
    by (cases ev) (auto simp: bl_settled_def Let_def split: if_splits option.splits)
qed

section \<open>Every allowed history\<close>

lemma history_step:
  assumes "apply_all (ledger_apply caps) (e # evs) L = Some L'" "bl_inv L"
  obtains L1 where "ledger_apply caps e L = Some L1"
    "apply_all (ledger_apply caps) evs L1 = Some L'" "bl_inv L1"
  using assms ledger_apply_inv by (auto split: option.splits)

lemma history_inv: "apply_all (ledger_apply caps) evs L = Some L' \<Longrightarrow> bl_inv L \<Longrightarrow> bl_inv L'"
  by (induction evs arbitrary: L) (simp, blast elim: history_step)

lemma history_supply:
  assumes "apply_all (ledger_apply caps) evs L = Some L'" "bl_inv L"
  shows "bl_supply L' a + total_paid a evs = bl_supply L a + total_minted a evs"
  using assms
proof (induction evs arbitrary: L)
  case (Cons e evs)
  then obtain L1 where L1: "ledger_apply caps e L = Some L1"
    "apply_all (ledger_apply caps) evs L1 = Some L'" "bl_inv L1" by (blast elim: history_step)
  from Cons.IH [OF L1(2,3)] ledger_apply_supply [OF Cons.prems(2) L1(1), of a]
  show ?case by (simp add: total_paid_def total_minted_def)
qed (simp add: total_paid_def total_minted_def)

lemma history_used:
  assumes "apply_all (ledger_apply caps) evs L = Some L'" "bl_inv L"
  shows "distinct (credited_refs evs) \<and> set (credited_refs evs) \<inter> bl_used L = {}
         \<and> bl_used L' = bl_used L \<union> set (credited_refs evs)"
  using assms
proof (induction evs arbitrary: L)
  case (Cons e evs)
  then obtain L1 where L1: "ledger_apply caps e L = Some L1"
    "apply_all (ledger_apply caps) evs L1 = Some L'" "bl_inv L1" by (blast elim: history_step)
  have "distinct (credited_ref e)" by (cases e) auto
  with Cons.IH [OF L1(2,3)] ledger_apply_used [OF L1(1)] show ?case by (auto simp: credited_refs_def)
qed (simp add: credited_refs_def)

lemma history_settled:
  assumes "apply_all (ledger_apply caps) evs L = Some L'" "bl_inv L"
  shows "distinct (settled_exits evs) \<and> set (settled_exits evs) \<inter> bl_settled L = {}
         \<and> bl_settled L' = bl_settled L \<union> set (settled_exits evs)"
  using assms
proof (induction evs arbitrary: L)
  case (Cons e evs)
  then obtain L1 where L1: "ledger_apply caps e L = Some L1"
    "apply_all (ledger_apply caps) evs L1 = Some L'" "bl_inv L1" by (blast elim: history_step)
  have "distinct (settled_exit e)" by (cases e) auto
  with Cons.IH [OF L1(2,3)] ledger_apply_settled [OF Cons.prems(2) L1(1)]
  show ?case by (auto simp: settled_exits_def)
qed (simp add: settled_exits_def)

text \<open>An exit once issued is never replaced: it stays in the queue as it is or leaves it.\<close>

lemma history_queue:
  assumes "apply_all (ledger_apply caps) evs L = Some L'" "i \<in> bl_issued L"
  shows "i \<in> bl_issued L' \<and> (bl_queue L' i = bl_queue L i \<or> bl_queue L' i = None)"
  using assms
proof (induction evs arbitrary: L)
  case (Cons e evs)
  then obtain L1 where L1: "ledger_apply caps e L = Some L1"
    "apply_all (ledger_apply caps) evs L1 = Some L'" by (auto split: option.splits)
  have "i \<in> bl_issued L1 \<and> (bl_queue L1 i = bl_queue L i \<or> bl_queue L1 i = None)"
    using L1(1) Cons.prems(2) by (cases e) (auto simp: Let_def split: if_splits option.splits)
  with Cons.IH [OF L1(2)] show ?case by auto
qed simp

lemma history_caps:
  "apply_all (ledger_apply caps) evs L = Some L' \<Longrightarrow> bl_inv L \<Longrightarrow> within_caps caps L \<Longrightarrow>
   within_caps caps L'"
proof (induction evs arbitrary: L)
  case (Cons e evs)
  then obtain L1 where "ledger_apply caps e L = Some L1"
    "apply_all (ledger_apply caps) evs L1 = Some L'" by (auto split: option.splits)
  with Cons ledger_apply_inv ledger_apply_caps show ?case by blast
qed simp

end
