(* ===== verification/Gateway_Safety.thy ===== *)
theory Gateway_Safety
  imports Gateway_Calls
begin

text \<open>
  The invariant of the gateway, that every call keeps it, and that every call refines the abstract
  ledger. The abstraction \<open>gw_abs\<close> reads the tables as the ledger's sets and sums.
\<close>

section \<open>Abstraction and invariant\<close>

definition queued_of :: "'pk gateway \<Rightarrow> bytes \<Rightarrow> nat" where
  "queued_of g a = sum_list (map (\<lambda>(i, t). share a t) (gw_pending_exits g))"

definition gw_abs :: "'pk gateway \<Rightarrow> bridge_ledger" where
  "gw_abs g = \<lparr>bl_used = set (gw_used_refs g),
     bl_circulating = (\<lambda>a. unat (minted_of_asset g a)),
     bl_queued = queued_of g,
     bl_queue = bt_get (gw_pending_exits g),
     bl_issued = {i. i < gw_next_exit_id g}\<rparr>"

definition control_wf :: "'pk gateway \<Rightarrow> bool" where
  "control_wf g \<longleftrightarrow>
     bt_wf (gw_escrowed g) \<and> bt_wf (gw_corridors g) \<and> bt_wf (gw_corridor_cursor g) \<and>
     bs_wf (gw_paused_sources g) \<and> bt_wf (gw_paused_since g) \<and> bt_wf (gw_resumed_at g) \<and>
     bt_wf (gw_watchdog_last g) \<and> bt_wf (gw_reserve_reported_at g)"

definition tables_wf :: "'pk gateway \<Rightarrow> bool" where
  "tables_wf g \<longleftrightarrow>
     bs_wf (gw_used_refs g) \<and> bs_wf (gw_refs_any_chain g) \<and> bt_wf (gw_per_asset_minted g) \<and>
     bt_wf (gw_per_asset_cap g) \<and> bt_wf (gw_per_asset_epoch_cap g) \<and>
     bt_wf (gw_per_asset_epoch_minted g) \<and> bt_wf (gw_pending_exits g)"

definition exits_wf :: "'pk gateway \<Rightarrow> bool" where
  "exits_wf g \<longleftrightarrow>
     (\<forall>i t. bt_get (gw_pending_exits g) i = Some t \<longrightarrow> et_exit_id t = i \<and> i < gw_next_exit_id g) \<and>
     length (gw_pending_exits g) \<le> MAX_PENDING_EXITS"

definition refs_wf :: "'pk gateway \<Rightarrow> bool" where
  "refs_wf g \<longleftrightarrow> set (gw_refs_any_chain g) = snd ` set (gw_used_refs g)"

definition epochs_wf :: "'pk gateway \<Rightarrow> bool" where
  "epochs_wf g \<longleftrightarrow> gw_epoch_minted g \<le> gw_epoch_cap g \<and>
     (\<forall>a cap. bt_get (gw_per_asset_epoch_cap g) a = Some cap \<longrightarrow>
        bt_get_or (gw_per_asset_epoch_minted g) a 0 \<le> cap)"

definition gw_inv :: "'pk gateway \<Rightarrow> bool" where
  "gw_inv g \<longleftrightarrow> control_wf g \<and> tables_wf g \<and> exits_wf g \<and> refs_wf g \<and> epochs_wf g \<and>
     within_caps (bt_get (gw_per_asset_cap g)) (gw_abs g)"

text \<open>The tables that only mints, exits and the epoch clock touch.\<close>

definition ledger_of :: "'pk gateway \<Rightarrow> _" where
  "ledger_of g = (gw_used_refs g, gw_refs_any_chain g, gw_per_asset_minted g, gw_per_asset_cap g,
     gw_per_asset_epoch_cap g, gw_per_asset_epoch_minted g, gw_epoch_cap g, gw_epoch_minted g,
     gw_pending_exits g, gw_next_exit_id g)"

lemma gw_abs_ledger: "ledger_of g' = ledger_of g \<Longrightarrow> gw_abs g' = gw_abs g"
  by (simp add: ledger_of_def gw_abs_def queued_of_def [abs_def] minted_of_asset_def)

lemma gw_inv_ledger:
  assumes "ledger_of g' = ledger_of g" "gw_inv g" "control_wf g'"
  shows "gw_inv g'"
  using assms gw_abs_ledger [OF assms(1)]
  unfolding gw_inv_def tables_wf_def exits_wf_def refs_wf_def epochs_wf_def ledger_of_def by simp

section \<open>Calls that leave the ledger alone\<close>

lemmas quiet_defs = advance_to_def accept_batch_def report_reorg_def resume_source_def
  pause_source_direct_def unpause_source_def pause_all_def unpause_all_def resume_all_def
  attest_reserve_def set_escrow_def set_corridor_tier_def emergency_freeze_def lift_freeze_def
  register_corridor_def set_corridor_active_def set_corridor_quorum_def
  set_governance_def set_exit_delay_def require_reserve_reports_def settle_admin_records_def
  log_admin_def touch_guard_def

lemma quiet_orders:
  "accept_batch md c i sigs g = (g', Ok u) \<Longrightarrow> ledger_of g' = ledger_of g \<and> (control_wf g \<longrightarrow> control_wf g')"
  "report_reorg md c d h sigs g = (g', Ok u) \<Longrightarrow> ledger_of g' = ledger_of g \<and> (control_wf g \<longrightarrow> control_wf g')"
  "resume_source md c h sigs g = (g', Ok u) \<Longrightarrow> ledger_of g' = ledger_of g \<and> (control_wf g \<longrightarrow> control_wf g')"
  "resume_all md h sigs g = (g', Ok u) \<Longrightarrow> ledger_of g' = ledger_of g \<and> (control_wf g \<longrightarrow> control_wf g')"
  "attest_reserve md a m h sigs g = (g', Ok b) \<Longrightarrow> ledger_of g' = ledger_of g \<and> (control_wf g \<longrightarrow> control_wf g')"
  "set_corridor_tier md c t sigs g = (g', Ok u) \<Longrightarrow> ledger_of g' = ledger_of g \<and> (control_wf g \<longrightarrow> control_wf g')"
  "emergency_freeze md h sigs g = (g', Ok u) \<Longrightarrow> ledger_of g' = ledger_of g \<and> (control_wf g \<longrightarrow> control_wf g')"
  "lift_freeze md sigs g = (g', Ok u) \<Longrightarrow> ledger_of g' = ledger_of g \<and> (control_wf g \<longrightarrow> control_wf g')"
  "set_corridor_quorum c q g = (g', Ok u) \<Longrightarrow> ledger_of g' = ledger_of g \<and> (control_wf g \<longrightarrow> control_wf g')"
  by (auto simp: quiet_defs ledger_of_def control_wf_def and_then_st_case Let_def split: op_splits)

lemma quiet_watchdog:
  "watchdog_freeze md h s g = (g', Ok u) \<Longrightarrow> ledger_of g' = ledger_of g \<and> (control_wf g \<longrightarrow> control_wf g')"
  by (auto simp: watchdog_freeze_def quiet_defs ledger_of_def control_wf_def Let_def
      split: list.splits if_splits)

lemma quiet_setters:
  "ledger_of (advance_to h g) = ledger_of g \<and> (control_wf g \<longrightarrow> control_wf (advance_to h g))"
  "ledger_of (pause_source_direct c g) = ledger_of g \<and> (control_wf g \<longrightarrow> control_wf (pause_source_direct c g))"
  "ledger_of (unpause_source c g) = ledger_of g \<and> (control_wf g \<longrightarrow> control_wf (unpause_source c g))"
  "ledger_of (pause_all g) = ledger_of g \<and> (control_wf g \<longrightarrow> control_wf (pause_all g))"
  "ledger_of (unpause_all g) = ledger_of g \<and> (control_wf g \<longrightarrow> control_wf (unpause_all g))"
  "ledger_of (set_escrow a m g) = ledger_of g \<and> (control_wf g \<longrightarrow> control_wf (set_escrow a m g))"
  "ledger_of (register_corridor c d g) = ledger_of g \<and> (control_wf g \<longrightarrow> control_wf (register_corridor c d g))"
  "ledger_of (set_corridor_active c b g) = ledger_of g \<and> (control_wf g \<longrightarrow> control_wf (set_corridor_active c b g))"
  "ledger_of (set_governance ops g) = ledger_of g \<and> (control_wf g \<longrightarrow> control_wf (set_governance ops g))"
  "ledger_of (set_exit_delay dl g) = ledger_of g \<and> (control_wf g \<longrightarrow> control_wf (set_exit_delay dl g))"
  "ledger_of (require_reserve_reports n g) = ledger_of g \<and> (control_wf g \<longrightarrow> control_wf (require_reserve_reports n g))"
  "ledger_of (settle_admin_records q w g) = ledger_of g \<and> (control_wf g \<longrightarrow> control_wf (settle_admin_records q w g))"
  by (auto simp: quiet_defs ledger_of_def control_wf_def Let_def split: option.splits)

section \<open>Reading the tables as numbers\<close>

definition supply_of :: "'pk gateway \<Rightarrow> bytes \<Rightarrow> nat" where
  "supply_of g a = unat (minted_of_asset g a) + queued_of g a"

lemma supply_of_abs: "bl_supply (gw_abs g) a = supply_of g a"
  by (simp add: bl_supply_def gw_abs_def supply_of_def)

lemma unat_fold_sat_add:
  fixes f :: "'t \<Rightarrow> 'l::len word"
  shows "unat (fold (\<lambda>t acc. sat_add acc (f t)) ts acc) =
     min (unat acc + sum_list (map (\<lambda>t. unat (f t)) ts)) (2 ^ LENGTH('l) - 1)"
proof (induction ts arbitrary: acc)
  case Nil
  have "unat acc < 2 ^ LENGTH('l)" by (rule unsigned_less)
  then have "unat acc \<le> 2 ^ LENGTH('l) - 1" by linarith
  then show ?case by simp
next
  case (Cons t ts)
  have "(0::nat) < 2 ^ LENGTH('l)" by simp
  then show ?case unfolding fold_simps Cons.IH unat_sat_add by (simp add: min_def; linarith)
qed

lemma queued_of_filter:
  "queued_of g a =
     sum_list (map (\<lambda>t. unat (et_amount t)) (filter (\<lambda>t. et_asset_id t = a) (map snd (gw_pending_exits g))))"
  by (simp add: queued_of_def share_def sum_list_map_filter' o_def split_def)

lemma unat_pending_exit_of: "unat (pending_exit_of g a) = min (queued_of g a) (2 ^ 128 - 1)"
  by (simp add: pending_exit_of_def unat_fold_sat_add queued_of_filter)

lemma supply_bounded:
  assumes "gw_inv g"
  shows "supply_of g a < 2 ^ 128"
proof -
  have "case bt_get (gw_per_asset_cap g) a of Some cap \<Rightarrow> supply_of g a \<le> unat cap | None \<Rightarrow> supply_of g a = 0"
    using assms unfolding gw_inv_def within_caps_def supply_of_abs by blast
  moreover have "unat cap < 2 ^ 128" for cap :: u128 using unsigned_less [of cap] by simp
  ultimately show ?thesis by (cases "bt_get (gw_per_asset_cap g) a") (auto intro: le_less_trans)
qed

text \<open>Under the invariant no sum the code forms saturates.\<close>

lemma unat_supply:
  assumes "gw_inv g"
  shows "unat (sat_add (bt_get_or (gw_per_asset_minted g) a 0) (pending_exit_of g a)) = supply_of g a"
  using supply_bounded [OF assms, of a]
  by (simp add: unat_sat_add unat_pending_exit_of supply_of_def minted_of_asset_def)

lemma checked_add_sat: "checked_add a b = Some c \<Longrightarrow> sat_add a b = c"
  by (auto simp: checked_add_def sat_add_def split: if_splits)

lemma checked_within:
  fixes a b cap :: "'l::len word"
  shows "(\<exists>c. checked_add a b = Some c \<and> \<not> cap < c) \<longleftrightarrow> unat a + unat b \<le> unat cap"
proof
  assume "\<exists>c. checked_add a b = Some c \<and> \<not> cap < c"
  then show "unat a + unat b \<le> unat cap"
    by (auto simp: checked_add_Some_iff word_less_nat_alt)
next
  assume le: "unat a + unat b \<le> unat cap"
  moreover have "unat cap < 2 ^ LENGTH('l)" by (rule unsigned_less)
  ultimately have "unat a + unat b < 2 ^ LENGTH('l)" by (rule le_less_trans)
  then have "checked_add a b = Some (a + b)" by (simp add: checked_add_def)
  moreover from this le have "\<not> cap < a + b"
    by (simp add: checked_add_Some_iff word_less_nat_alt)
  ultimately show "\<exists>c. checked_add a b = Some c \<and> \<not> cap < c" by blast
qed

lemma ok_or_within_Ok:
  "and_then (ok_or e (checked_add a b)) (\<lambda>c. if cap < c then Err e else k c) = Ok x \<longleftrightarrow>
     unat a + unat b \<le> unat cap \<and> k (a + b) = Ok x"
  for a b cap :: "'l::len word"
proof -
  have "checked_add a b = Some c \<Longrightarrow> c = a + b" for c by (auto simp: checked_add_def split: if_splits)
  then show ?thesis using checked_within [of a b cap]
    by (cases "checked_add a b") auto
qed

section \<open>Minting\<close>

text \<open>The state after a credit, and when the budgets allow it.\<close>

definition credit :: "u32 \<Rightarrow> bytes \<Rightarrow> bytes \<Rightarrow> u128 \<Rightarrow> 'pk gateway \<Rightarrow> 'pk gateway" where
  "credit c r a m g = touch_guard (record_asset_epoch a m
     (g\<lparr>gw_used_refs := bs_insert (c, r) (gw_used_refs g),
        gw_refs_any_chain := bs_insert r (gw_refs_any_chain g),
        gw_per_asset_minted := bt_insert a (sat_add (minted_of_asset g a) m) (gw_per_asset_minted g),
        gw_epoch_minted := sat_add (gw_epoch_minted g) m\<rparr>))"

definition budgets_allow :: "u32 \<Rightarrow> bytes \<Rightarrow> bytes \<Rightarrow> u128 \<Rightarrow> 'pk gateway \<Rightarrow> bool" where
  "budgets_allow c r a m g \<longleftrightarrow>
     (\<exists>cap. bt_get (gw_per_asset_cap g) a = Some cap \<and> supply_of g a + unat m \<le> unat cap) \<and>
     unat (gw_epoch_minted g) + unat m \<le> unat (gw_epoch_cap g) \<and>
     (c, r) \<notin> set (gw_used_refs g) \<and>
     reserve_is_fresh g a \<and>
     (\<forall>e. bt_get (gw_escrowed g) a = Some e \<longrightarrow> supply_of g a + unat m \<le> unat e) \<and>
     (\<forall>cap. bt_get (gw_per_asset_epoch_cap g) a = Some cap \<longrightarrow>
        unat (bt_get_or (gw_per_asset_epoch_minted g) a 0) + unat m \<le> unat cap)"

lemma charge_asset_escrow_Ok:
  assumes "gw_inv g"
  shows "charge_asset_escrow a m g = Ok u \<longleftrightarrow> reserve_is_fresh g a \<and>
     (\<forall>e. bt_get (gw_escrowed g) a = Some e \<longrightarrow> supply_of g a + unat m \<le> unat e)"
  using unat_supply [OF assms, of a]
  by (auto simp: charge_asset_escrow_def Let_def ok_or_within_Ok split: option.splits)

lemma charge_asset_epoch_Ok:
  assumes "gw_inv g"
  shows "charge_asset_epoch a m g = Ok u \<longleftrightarrow> reserve_is_fresh g a \<and>
     (\<forall>e. bt_get (gw_escrowed g) a = Some e \<longrightarrow> supply_of g a + unat m \<le> unat e) \<and>
     (\<forall>cap. bt_get (gw_per_asset_epoch_cap g) a = Some cap \<longrightarrow>
        unat (bt_get_or (gw_per_asset_epoch_minted g) a 0) + unat m \<le> unat cap)"
  using charge_asset_escrow_Ok [OF assms, of a m]
  by (auto simp: charge_asset_epoch_def Let_def and_then_Ok_iff [of "charge_asset_escrow a m g"]
      ok_or_within_Ok split: option.splits)

lemma ok_or_within_st:
  "and_then_st (ok_or e (checked_add a b)) g (\<lambda>c. if cap < c then (g, Err e) else k c) = (g', Ok x) \<longleftrightarrow>
     unat a + unat b \<le> unat cap \<and> k (sat_add a b) = (g', Ok x)"
  for a b cap :: "'l::len word"
  using checked_within [of a b cap] checked_add_sat [of a b]
  by (cases "checked_add a b") auto

definition receipt_of :: "bridge_fact \<Rightarrow> mint_receipt" where
  "receipt_of f = \<lparr>mr_asset_id = bf_asset_id f, mr_recipient = bf_recipient f, mr_amount = bf_amount f,
     mr_source_ref = bf_source_ref f, mr_source_chain = bf_source_chain f\<rparr>"

lemma process_deposit_Ok:
  assumes "gw_inv g"
  shows "process_deposit md env g = (g', Ok r) \<longleftrightarrow>
     precheck_deposit md env g = Ok () \<and>
     budgets_allow (bf_source_chain (ae_fact env)) (bf_source_ref (ae_fact env))
       (bf_asset_id (ae_fact env)) (bf_amount (ae_fact env)) g \<and>
     g' = credit (bf_source_chain (ae_fact env)) (bf_source_ref (ae_fact env))
       (bf_asset_id (ae_fact env)) (bf_amount (ae_fact env)) g \<and>
     r = receipt_of (ae_fact env)"
proof -
  let ?f = "ae_fact env"
  show ?thesis
    unfolding process_deposit_def Let_def and_then_st_Ok_iff [of "precheck_deposit md env g"]
      and_then_st_Ok_iff [of "ok_or AssetNotRegistered x" for x] ok_or_within_st
      unat_supply [OF assms] ok_or_Ok_iff
    using charge_asset_epoch_Ok [OF assms, of "bf_asset_id ?f" "bf_amount ?f"]
    by (auto simp: and_then_st_Ok_iff budgets_allow_def credit_def receipt_of_def bs_contains_def
        minted_of_asset_def)
qed

lemma if_err_Ok: "(if P then Err e else x) = Ok y \<longleftrightarrow> \<not> P \<and> x = Ok y"
  by simp

lemma precheck_trustless_Ok:
  assumes "gw_inv g"
  shows "precheck_trustless a r m c g = Ok u \<longleftrightarrow>
     \<not> gw_global_pause g \<and> mint_freeze_horizon g \<le> gw_current_height g \<and>
     c \<notin> set (gw_paused_sources g) \<and>
     (\<exists>corridor. bt_get (gw_corridors g) c = Some corridor \<and> cc_active corridor) \<and>
     budgets_allow c r a m g"
  unfolding precheck_trustless_def Let_def if_err_Ok and_then_Ok_iff [of "ok_or (CorridorNotOpen c) x" for x]
    and_then_Ok_iff [of "ok_or AssetNotRegistered x" for x] ok_or_within_Ok
    unat_supply [OF assms] ok_or_Ok_iff
  using charge_asset_epoch_Ok [OF assms, of a m]
  by (auto simp: budgets_allow_def bs_contains_def)

lemma admit_trustless_Ok:
  assumes "gw_inv g"
  shows "admit_trustless a r m c g = (g', Ok u) \<longleftrightarrow>
     precheck_trustless a r m c g = Ok () \<and> g' = credit c r a m g"
  by (auto simp: admit_trustless_def and_then_st_case credit_def minted_of_asset_def Let_def
      split: res.splits)

lemma sat_add_exact:
  fixes a b cap :: "'l::len word"
  assumes "unat a + unat b \<le> unat cap"
  shows "unat (sat_add a b) = unat a + unat b"
proof -
  have "unat cap < 2 ^ LENGTH('l)" by (rule unsigned_less)
  with assms have "unat a + unat b \<le> 2 ^ LENGTH('l) - 1" by linarith
  then show ?thesis by (simp add: unat_sat_add)
qed

lemma abs_credit:
  assumes "budgets_allow c r a m g"
  shows "ledger_apply (bt_get (gw_per_asset_cap g)) (Minted c r a m) (gw_abs g) = Some (gw_abs (credit c r a m g))"
proof -
  obtain cap where cap: "bt_get (gw_per_asset_cap g) a = Some cap" "supply_of g a + unat m \<le> unat cap"
    and fresh: "(c, r) \<notin> set (gw_used_refs g)"
    using assms by (auto simp: budgets_allow_def)
  have "unat (minted_of_asset g a) + unat m \<le> unat cap" using cap(2) by (simp add: supply_of_def)
  from sat_add_exact [OF this] have
    "(\<lambda>b. unat (minted_of_asset (credit c r a m g) b)) =
       (\<lambda>b. unat (minted_of_asset g b))(a := unat (minted_of_asset g a) + unat m)"
    by (auto simp: credit_def touch_guard_def record_asset_epoch_def minted_of_asset_def bt_simps)
  moreover have "queued_of (credit c r a m g) = queued_of g"
    by (auto simp: queued_of_def credit_def touch_guard_def record_asset_epoch_def)
  ultimately have "gw_abs (credit c r a m g) = (gw_abs g)
     \<lparr>bl_used := insert (c, r) (bl_used (gw_abs g)),
      bl_circulating := (bl_circulating (gw_abs g))(a := bl_circulating (gw_abs g) a + unat m)\<rparr>"
    unfolding gw_abs_def by (simp add: credit_def touch_guard_def record_asset_epoch_def)
  then show ?thesis using cap fresh by (simp add: supply_of_abs) (simp add: gw_abs_def)
qed

text \<open>The part of the invariant that does not speak of the sums.\<close>

definition shape_inv :: "'pk gateway \<Rightarrow> bool" where
  "shape_inv g \<longleftrightarrow> control_wf g \<and> tables_wf g \<and> exits_wf g \<and> refs_wf g \<and> epochs_wf g"

lemma gw_inv_shape: "gw_inv g \<longleftrightarrow> shape_inv g \<and> within_caps (bt_get (gw_per_asset_cap g)) (gw_abs g)"
  by (auto simp: gw_inv_def shape_inv_def)

lemma shape_credit:
  assumes "shape_inv g" "budgets_allow c r a m g"
  shows "shape_inv (credit c r a m g)"
proof -
  have budget: "unat (gw_epoch_minted g) + unat m \<le> unat (gw_epoch_cap g)"
    "\<And>cap. bt_get (gw_per_asset_epoch_cap g) a = Some cap \<Longrightarrow>
        unat (bt_get_or (gw_per_asset_epoch_minted g) a 0) + unat m \<le> unat cap"
    using assms(2) by (auto simp: budgets_allow_def)
  have "sat_add (gw_epoch_minted g) m \<le> gw_epoch_cap g"
    using sat_add_exact [OF budget(1)] budget(1) by (simp add: word_le_nat_alt)
  moreover have "sat_add (bt_get_or (gw_per_asset_epoch_minted g) a 0) m \<le> cap"
    if "bt_get (gw_per_asset_epoch_cap g) a = Some cap" for cap
    using sat_add_exact [OF budget(2) [OF that]] budget(2) [OF that] by (simp add: word_le_nat_alt)
  ultimately have "epochs_wf (credit c r a m g)"
    using assms(1) by (auto simp: shape_inv_def epochs_wf_def credit_def touch_guard_def
        record_asset_epoch_def bt_simps)
  moreover have "control_wf (credit c r a m g) \<and> tables_wf (credit c r a m g) \<and> exits_wf (credit c r a m g)"
    using assms(1) by (simp add: shape_inv_def control_wf_def tables_wf_def exits_wf_def credit_def
        touch_guard_def record_asset_epoch_def)
  moreover have "refs_wf (credit c r a m g)"
    using assms(1) by (simp add: shape_inv_def refs_wf_def credit_def touch_guard_def record_asset_epoch_def)
  ultimately show ?thesis by (simp add: shape_inv_def)
qed

section \<open>Exits\<close>

lemma request_exit_Ok:
  assumes "request_exit a m d g = (g', Ok t)"
  shows "m \<noteq> 0" "m \<le> minted_of_asset g a" "length (gw_pending_exits g) < MAX_PENDING_EXITS"
    "t = \<lparr>et_exit_id = gw_next_exit_id g, et_asset_id = a, et_amount = m, et_destination = d,
          et_unlock_height = sat_add (gw_current_height g) (gw_exit_delay g)\<rparr>"
    "unat (gw_next_exit_id g + 1) = Suc (unat (gw_next_exit_id g))"
    "g' = touch_guard (g\<lparr>gw_per_asset_minted := bt_insert a (minted_of_asset g a - m) (gw_per_asset_minted g),
          gw_next_exit_id := gw_next_exit_id g + 1,
          gw_pending_exits := bt_insert (gw_next_exit_id g) t (gw_pending_exits g)\<rparr>)"
proof -
  have next_id: "unat n = Suc (unat i) \<and> n = i + 1" if "checked_add i 1 = Some n" for i n :: u64
    using that checked_add_Some_iff [of i 1 n] by (auto simp: checked_add_def split: if_splits)
  show "m \<noteq> 0" "m \<le> minted_of_asset g a" "length (gw_pending_exits g) < MAX_PENDING_EXITS"
    "t = \<lparr>et_exit_id = gw_next_exit_id g, et_asset_id = a, et_amount = m, et_destination = d,
          et_unlock_height = sat_add (gw_current_height g) (gw_exit_delay g)\<rparr>"
    "unat (gw_next_exit_id g + 1) = Suc (unat (gw_next_exit_id g))"
    "g' = touch_guard (g\<lparr>gw_per_asset_minted := bt_insert a (minted_of_asset g a - m) (gw_per_asset_minted g),
          gw_next_exit_id := gw_next_exit_id g + 1,
          gw_pending_exits := bt_insert (gw_next_exit_id g) t (gw_pending_exits g)\<rparr>)"
    using assms
    by (auto simp: request_exit_def Let_def minted_of_asset_def dest!: next_id
        split: if_splits option.splits)
qed

lemma exit_not_issued:
  assumes "exits_wf g"
  shows "bt_get (gw_pending_exits g) (gw_next_exit_id g) = None"
  using assms unfolding exits_wf_def by (cases "bt_get (gw_pending_exits g) (gw_next_exit_id g)") auto

lemma abs_request:
  assumes "shape_inv g" "request_exit a m d g = (g', Ok t)"
  shows "ledger_apply caps (Requested t) (gw_abs g) = Some (gw_abs g')"
proof -
  note req = request_exit_Ok [OF assms(2)]
  have new: "bt_get (gw_pending_exits g) (gw_next_exit_id g) = None"
    using assms(1) exit_not_issued by (auto simp: shape_inv_def)
  have g': "gw_used_refs g' = gw_used_refs g"
    "\<And>b. minted_of_asset g' b = (if b = a then minted_of_asset g a - m else minted_of_asset g b)"
    "gw_pending_exits g' = bt_insert (gw_next_exit_id g) t (gw_pending_exits g)"
    "gw_next_exit_id g' = gw_next_exit_id g + 1"
    using req(6) by (auto simp: touch_guard_def minted_of_asset_def bt_simps)
  have "{i. i < gw_next_exit_id g + 1} = insert (gw_next_exit_id g) {i. i < gw_next_exit_id g}"
    using req(5) by (auto simp: word_less_nat_alt less_Suc_eq word_unat_eq_iff)
  moreover have "queued_of g' b = share b t + queued_of g b" for b
    using sum_list_bt_insert_new [OF new, of "\<lambda>(i, t). share b t" t] by (simp add: queued_of_def g')
  moreover have "unat (minted_of_asset g a - m) = unat (minted_of_asset g a) - unat m" "0 < unat m"
    "unat m \<le> unat (minted_of_asset g a)"
    using req(1,2) by (auto simp: unat_sub word_le_nat_alt unat_eq_zero neq0_conv [symmetric])
  ultimately show ?thesis
    by (auto simp: gw_abs_def g' req(4) Let_def share_def fun_eq_iff bt_get_insert)
qed

lemma length_bt_insert_le: "length (bt_insert k v m) \<le> Suc (length m)"
  by (induction m) auto

lemma length_bt_remove_le: "length (bt_remove k m) \<le> length m"
  by (induction k m rule: bt_remove.induct) auto

lemma shape_request:
  assumes "shape_inv g" "request_exit a m d g = (g', Ok t)"
  shows "shape_inv g'"
proof -
  note req = request_exit_Ok [OF assms(2)]
  have "i < gw_next_exit_id g \<Longrightarrow> i < gw_next_exit_id g + 1" "gw_next_exit_id g < gw_next_exit_id g + 1" for i
    using req(5) by (simp_all add: word_less_nat_alt)
  then have "exits_wf g'"
    using assms(1) req(3) le_trans [OF length_bt_insert_le [of "gw_next_exit_id g" t "gw_pending_exits g"]]
    by (auto simp: req(4,6) shape_inv_def exits_wf_def touch_guard_def bt_get_insert
        split: if_splits)
  then show ?thesis
    using assms(1) unfolding req(6)
    by (simp add: shape_inv_def control_wf_def tables_wf_def refs_wf_def epochs_wf_def touch_guard_def)
qed

lemma finalize_exit_Ok:
  "finalize_exit i g = (g', Ok t) \<longleftrightarrow>
     \<not> gw_global_pause g \<and> \<not> is_frozen g \<and> bt_get (gw_pending_exits g) i = Some t \<and>
     et_unlock_height t \<le> gw_current_height g \<and>
     g' = touch_guard (g\<lparr>gw_pending_exits := bt_remove i (gw_pending_exits g)\<rparr>)"
  by (cases "bt_get (gw_pending_exits g) i") (auto simp: finalize_exit_def)

lemma cancel_exit_Ok:
  "cancel_exit i g = (g', Ok t) \<longleftrightarrow>
     bt_get (gw_pending_exits g) i = Some t \<and>
     g' = touch_guard (g\<lparr>gw_pending_exits := bt_remove i (gw_pending_exits g),
       gw_per_asset_minted := bt_insert (et_asset_id t)
         (sat_add (minted_of_asset g (et_asset_id t)) (et_amount t)) (gw_per_asset_minted g)\<rparr>)"
  by (auto simp: cancel_exit_def and_then_st_Ok_iff ok_or_Ok_iff Let_def minted_of_asset_def)

lemma queued_remove:
  assumes "bt_get (gw_pending_exits g) i = Some t" "gw_pending_exits g' = bt_remove i (gw_pending_exits g)"
  shows "queued_of g b = share b t + queued_of g' b"
  using sum_list_bt_remove [OF assms(1), of "\<lambda>(i, t). share b t"] assms(2) by (simp add: queued_of_def)

lemma pending_remove:
  assumes "tables_wf g"
  shows "bt_get (bt_remove i (gw_pending_exits g)) = (bt_get (gw_pending_exits g))(i := None)"
  using assms by (auto simp: fun_eq_iff tables_wf_def bt_simps)

lemma abs_finalize:
  assumes "shape_inv g" "finalize_exit i g = (g', Ok t)"
  shows "ledger_apply caps (Finalized t) (gw_abs g) = Some (gw_abs g')"
proof -
  from assms(2) have i: "bt_get (gw_pending_exits g) i = Some t"
    and g': "g' = touch_guard (g\<lparr>gw_pending_exits := bt_remove i (gw_pending_exits g)\<rparr>)"
    by (auto simp: finalize_exit_Ok)
  have t: "et_exit_id t = i" using assms(1) i by (auto simp: shape_inv_def exits_wf_def)
  have "gw_pending_exits g' = bt_remove i (gw_pending_exits g)" by (simp add: g' touch_guard_def)
  from queued_remove [OF i this] have
    "queued_of g' = (queued_of g)(et_asset_id t := queued_of g (et_asset_id t) - unat (et_amount t))"
    by (auto simp: fun_eq_iff share_def)
  then show ?thesis
    using i assms(1) pending_remove [of g i]
    by (simp add: gw_abs_def t Let_def shape_inv_def) (simp add: g' touch_guard_def minted_of_asset_def)
qed

lemma abs_cancel:
  assumes "gw_inv g" "cancel_exit i g = (g', Ok t)"
  shows "ledger_apply caps (Cancelled t) (gw_abs g) = Some (gw_abs g')"
proof -
  let ?a = "et_asset_id t"
  from assms(2) have i: "bt_get (gw_pending_exits g) i = Some t"
    and g': "g' = touch_guard (g\<lparr>gw_pending_exits := bt_remove i (gw_pending_exits g),
       gw_per_asset_minted := bt_insert ?a (sat_add (minted_of_asset g ?a) (et_amount t))
         (gw_per_asset_minted g)\<rparr>)"
    by (auto simp: cancel_exit_Ok)
  have t: "et_exit_id t = i" using assms(1) i by (auto simp: gw_inv_def exits_wf_def)
  have pend: "gw_pending_exits g' = bt_remove i (gw_pending_exits g)" by (simp add: g' touch_guard_def)
  from queued_remove [OF i this] have queued:
    "queued_of g' = (queued_of g)(?a := queued_of g ?a - unat (et_amount t))"
    by (auto simp: fun_eq_iff share_def)
  have "unat (minted_of_asset g ?a) + unat (et_amount t) \<le> supply_of g ?a"
    using queued_remove [OF i pend, of ?a] by (simp add: supply_of_def share_def)
  then have "unat (sat_add (minted_of_asset g ?a) (et_amount t)) = unat (minted_of_asset g ?a) + unat (et_amount t)"
    using supply_bounded [OF assms(1), of ?a] by (simp add: unat_sat_add)
  then have "(\<lambda>b. unat (minted_of_asset g' b)) =
      (\<lambda>b. unat (minted_of_asset g b))(?a := unat (minted_of_asset g ?a) + unat (et_amount t))"
    by (auto simp: fun_eq_iff g' touch_guard_def minted_of_asset_def bt_simps)
  then show ?thesis
    using i assms(1) pending_remove [of g i] queued
    by (simp add: gw_abs_def t Let_def gw_inv_def) (simp add: g' touch_guard_def)
qed

lemma shape_settle:
  assumes "shape_inv g"
  shows "finalize_exit i g = (g', Ok t) \<Longrightarrow> shape_inv g'" "cancel_exit i g = (g', Ok t) \<Longrightarrow> shape_inv g'"
  using assms le_trans [OF length_bt_remove_le [of i "gw_pending_exits g"]]
  by (auto simp: finalize_exit_Ok cancel_exit_Ok shape_inv_def control_wf_def tables_wf_def refs_wf_def
      epochs_wf_def exits_wf_def touch_guard_def bt_get_remove split: if_splits)

section \<open>The epoch clock\<close>

lemma advance_epoch_Ok:
  assumes "advance_epoch g = (g', Ok u)"
  obtains e where "gw_current_epoch g < e" "g' = advance_epoch_to e g"
proof -
  from assms obtain e where e: "checked_add (gw_current_epoch g) 1 = Some e"
    by (auto simp: advance_epoch_def split: option.splits)
  then have "gw_current_epoch g < e" by (simp add: checked_add_Some_iff word_less_nat_alt)
  with assms e that show thesis by (simp add: advance_epoch_def advance_epoch_to_def)
qed

lemma epoch_same_ledger: "gw_abs (advance_epoch_to e g) = gw_abs g"
  by (simp add: gw_abs_def advance_epoch_to_def touch_guard_def minted_of_asset_def queued_of_def [abs_def])

lemma shape_epoch: "shape_inv g \<Longrightarrow> shape_inv (advance_epoch_to e g)"
  by (simp add: advance_epoch_to_def shape_inv_def control_wf_def tables_wf_def refs_wf_def
      epochs_wf_def exits_wf_def touch_guard_def bt_get_or_def bt_get_def)

section \<open>Every call\<close>

definition step_ok :: "'pk gateway \<Rightarrow> gateway_event list \<Rightarrow> 'pk gateway \<Rightarrow> bool" where
  "step_ok g evs g' \<longleftrightarrow> shape_inv g' \<and> gw_per_asset_cap g' = gw_per_asset_cap g \<and>
     apply_all (ledger_apply (bt_get (gw_per_asset_cap g))) evs (gw_abs g) = Some (gw_abs g')"

lemma step_quiet:
  assumes "gw_inv g" "ledger_of g' = ledger_of g \<and> (control_wf g \<longrightarrow> control_wf g')"
  shows "step_ok g [] g'"
proof -
  have "gw_inv g'" using assms gw_inv_ledger by (auto simp: gw_inv_def)
  with assms(2) gw_abs_ledger [of g' g] show ?thesis
    by (simp add: step_ok_def gw_inv_shape ledger_of_def)
qed

lemma step_credit:
  assumes "gw_inv g" "budgets_allow c r a m g"
  shows "step_ok g [Minted c r a m] (credit c r a m g)"
  using abs_credit [OF assms(2)] shape_credit [of g, OF _ assms(2)] assms(1)
  by (auto simp: step_ok_def gw_inv_shape credit_def touch_guard_def record_asset_epoch_def
      simp del: ledger_apply.simps)

lemma step_deposit:
  assumes "gw_inv g" "process_deposit md env g = (g', Ok r)"
  shows "step_ok g [Minted (mr_source_chain r) (mr_source_ref r) (mr_asset_id r) (mr_amount r)] g'"
  using assms by (simp add: process_deposit_Ok receipt_of_def step_credit)

lemma step_trustless:
  assumes "gw_inv g" "admit_trustless a r m c g = (g', Ok u)"
  shows "step_ok g [Minted c r a m] g'"
  using assms by (simp add: admit_trustless_Ok precheck_trustless_Ok step_credit)

lemma step_exits:
  assumes "gw_inv g"
  shows "request_exit a m d g = (g', Ok t) \<Longrightarrow> step_ok g [Requested t] g'"
    and "finalize_exit i g = (g', Ok t) \<Longrightarrow> step_ok g [Finalized t] g'"
    and "cancel_exit i g = (g', Ok t) \<Longrightarrow> step_ok g [Cancelled t] g'"
proof -
  have shape: "shape_inv g" using assms by (simp add: gw_inv_shape)
  show "step_ok g [Requested t] g'" if req: "request_exit a m d g = (g', Ok t)"
    using shape_request [OF shape req] abs_request [OF shape req] request_exit_Ok(6) [OF req]
    by (simp add: step_ok_def touch_guard_def del: ledger_apply.simps)
  show "step_ok g [Finalized t] g'" if fin: "finalize_exit i g = (g', Ok t)"
    using shape_settle(1) [OF shape fin] abs_finalize [OF shape fin] fin
    by (simp add: step_ok_def finalize_exit_Ok touch_guard_def del: ledger_apply.simps)
  show "step_ok g [Cancelled t] g'" if can: "cancel_exit i g = (g', Ok t)"
    using shape_settle(2) [OF shape can] abs_cancel [OF assms can] can
    by (simp add: step_ok_def cancel_exit_Ok touch_guard_def del: ledger_apply.simps)
qed

lemma step_epoch:
  assumes "gw_inv g"
  shows "step_ok g [] (advance_epoch_to e g)"
    and "advance_epoch g = (g', Ok u) \<Longrightarrow> step_ok g [] g'"
proof -
  show to: "step_ok g [] (advance_epoch_to e g)" for e
    using assms shape_epoch [of g e] epoch_same_ledger [of e g]
    by (simp add: step_ok_def gw_inv_shape) (simp add: advance_epoch_to_def touch_guard_def)
  show "step_ok g [] g'" if "advance_epoch g = (g', Ok u)"
    using that to by (auto elim: advance_epoch_Ok)
qed

lemma gw_call_step:
  assumes "gw_inv g" "gw_call md c g = (g', Ok evs)"
  shows "step_ok g evs g'"
  using assms(2)
  by (cases c) (auto simp: apsnd_map_ok_Ok
      intro: step_deposit [OF assms(1)] step_trustless [OF assms(1)] step_exits [OF assms(1)]
        step_epoch [OF assms(1)] quiet_orders [THEN step_quiet [OF assms(1)]]
        quiet_watchdog [THEN step_quiet [OF assms(1)]] quiet_setters [THEN step_quiet [OF assms(1)]])

lemma bl_inv_abs:
  assumes "shape_inv g"
  shows "bl_inv (gw_abs g)"
proof -
  let ?p = "gw_pending_exits g"
  have wf: "bt_wf ?p" and ids: "\<And>i t. bt_get ?p i = Some t \<Longrightarrow> et_exit_id t = i \<and> i < gw_next_exit_id g"
    using assms by (auto simp: shape_inv_def tables_wf_def exits_wf_def)
  have dom: "dom (bt_get ?p) = set (map fst ?p)"
    by (simp add: bt_get_def [abs_def] dom_map_of_conv_image_fst)
  have "queued_of g a = sum_list (map (\<lambda>i. share a (the (bt_get ?p i))) (map fst ?p))" for a
    using bt_wf_distinct [OF wf] by (auto simp: queued_of_def bt_get_def intro!: arg_cong [of _ _ sum_list])
  then have "queued_of g a = (\<Sum>i\<in>dom (bt_get ?p). share a (the (bt_get ?p i)))" for a
    using bt_wf_distinct [OF wf] by (simp only: dom sum_list_distinct_conv_sum_set)
  moreover have "finite (dom (bt_get ?p))" by (simp add: dom)
  ultimately show ?thesis using ids by (auto simp: bl_inv_def gw_abs_def)
qed

lemma step_ok_inv:
  assumes "gw_inv g" "step_ok g evs g'"
  shows "gw_inv g'"
  using assms history_caps [OF _ bl_inv_abs, of "bt_get (gw_per_asset_cap g)" evs g "gw_abs g'"]
  by (simp add: step_ok_def gw_inv_shape)

interpretation gwc: refined_calls "gw_call md" gw_inv ledger_apply gw_abs "\<lambda>g. bt_get (gw_per_asset_cap g)"
  for md :: "'pk ml_dsa"
proof unfold_locales
  show "gw_call md c s = (s', Err e) \<Longrightarrow> s' = s" for c s s' e by (rule gw_call_err)
  show "gw_inv s \<Longrightarrow> gw_call md c s = (s', Ok new) \<Longrightarrow> gw_inv s'" for c s s' new
    using gw_call_step step_ok_inv by blast
  show "gw_inv s \<Longrightarrow> gw_call md c s = (s', Ok new) \<Longrightarrow>
      apply_all (ledger_apply (bt_get (gw_per_asset_cap s))) new (gw_abs s) = Some (gw_abs s')" for c s s' new
    using gw_call_step by (fastforce simp: step_ok_def)
  show "gw_inv s \<Longrightarrow> gw_call md c s = (s', Ok new) \<Longrightarrow>
      bt_get (gw_per_asset_cap s') = bt_get (gw_per_asset_cap s)" for c s s' new
    using gw_call_step by (fastforce simp: step_ok_def)
qed

end
