(* ===== verification/Gateway_Properties.thy ===== *)
theory Gateway_Properties
  imports Gateway_Safety
begin

text \<open>
  The properties of the gateway over whole runs and of its single operations, from the lemmas of
  \<open>Gateway_Safety\<close>.
\<close>

section \<open>Booted gateways\<close>

text \<open>What the program does to a new gateway before it serves requests.\<close>

inductive booted :: "'pk gateway \<Rightarrow> bool" where
  booted_new: "booted (gateway_new chain_id dest_chain_id ops cap)"
| booted_asset: "booted g \<Longrightarrow> booted (register_asset_cap a cap g)"
| booted_asset_epoch: "booted g \<Longrightarrow> booted (register_asset_epoch_cap a cap g)"
| booted_corridor: "booted g \<Longrightarrow> booted (register_corridor c d g)"
| booted_escrow: "booted g \<Longrightarrow> booted (set_escrow a m g)"
| booted_governance: "booted g \<Longrightarrow> booted (set_governance gov g)"
| booted_era: "booted g \<Longrightarrow> booted (set_era era g)"
| booted_delay: "booted g \<Longrightarrow> booted (set_exit_delay delay g)"
| booted_reserve: "booted g \<Longrightarrow> booted (require_reserve_reports n g)"

definition nothing_moved :: "'pk gateway \<Rightarrow> bool" where
  "nothing_moved g \<longleftrightarrow> gw_used_refs g = [] \<and> gw_refs_any_chain g = [] \<and> gw_per_asset_minted g = [] \<and>
     gw_per_asset_epoch_minted g = [] \<and> gw_pending_exits g = [] \<and> gw_epoch_minted g = 0 \<and>
     gw_next_exit_id g = 0 \<and> gw_frozen_until g = 0 \<and> gw_deposit_frozen_until g = 0"

lemma booted_shape:
  assumes "booted g"
  shows "nothing_moved g \<and> control_wf g \<and> bt_wf (gw_per_asset_cap g) \<and> bt_wf (gw_per_asset_epoch_cap g)"
  using assms
  by induction
    (auto simp: nothing_moved_def control_wf_def gateway_new_def register_asset_cap_def
      register_asset_epoch_cap_def register_corridor_def set_escrow_def set_governance_def set_era_def
      set_exit_delay_def require_reserve_reports_def)

lemma nothing_moved_abs:
  "nothing_moved g \<Longrightarrow> supply_of g a = 0 \<and> bl_supply (gw_abs g) a = 0 \<and> bl_used (gw_abs g) = {}
     \<and> bl_settled (gw_abs g) = {}"
  by (auto simp: nothing_moved_def supply_of_abs supply_of_def minted_of_asset_def queued_of_def
      bt_get_or_def bt_get_def gw_abs_def bl_settled_def bl_supply_def)

lemma booted_inv: "booted g \<Longrightarrow> gw_inv g"
  using booted_shape [of g] nothing_moved_abs [of g]
  by (auto simp: gw_inv_def tables_wf_def exits_wf_def refs_wf_def epochs_wf_def within_caps_def
      nothing_moved_def bt_get_or_def bt_get_def split: option.splits)

section \<open>What only grows\<close>

definition opt_le :: "'a::linorder option \<Rightarrow> 'a option \<Rightarrow> bool" where
  "opt_le x y \<longleftrightarrow> (\<forall>v. x = Some v \<longrightarrow> (\<exists>w. y = Some w \<and> v \<le> w))"

definition evolves :: "'pk gateway \<Rightarrow> 'pk gateway \<Rightarrow> bool" where
  "evolves g g' \<longleftrightarrow>
     gw_current_height g \<le> gw_current_height g' \<and> gw_current_epoch g \<le> gw_current_epoch g' \<and>
     gw_next_exit_id g \<le> gw_next_exit_id g' \<and> gw_frozen_until g \<le> gw_frozen_until g' \<and>
     gw_deposit_frozen_until g \<le> gw_deposit_frozen_until g' \<and>
     gw_global_resumed_at g \<le> gw_global_resumed_at g' \<and>
     set (gw_used_refs g) \<subseteq> set (gw_used_refs g') \<and>
     (\<forall>c. opt_le (corridor_tier g c) (corridor_tier g' c)) \<and>
     (\<forall>c. corridor_cursor g c \<le> corridor_cursor g' c) \<and>
     (\<forall>c. opt_le (bt_get (gw_resumed_at g) c) (bt_get (gw_resumed_at g') c)) \<and>
     (\<forall>a. opt_le (bt_get (gw_reserve_reported_at g) a) (bt_get (gw_reserve_reported_at g') a))"

lemma opt_le_refl [simp]: "opt_le x x"
  by (simp add: opt_le_def)

lemma opt_le_trans: "opt_le x y \<Longrightarrow> opt_le y z \<Longrightarrow> opt_le x z"
  by (fastforce simp: opt_le_def)

lemma opt_le_None [simp]: "opt_le None x"
  by (simp add: opt_le_def)

lemma opt_le_Some [simp]: "opt_le (Some v) (Some w) \<longleftrightarrow> v \<le> w"
  by (auto simp: opt_le_def)

lemma evolves_refl: "evolves g g"
  by (simp add: evolves_def)

lemma evolves_trans: "evolves a b \<Longrightarrow> evolves b c \<Longrightarrow> evolves a c"
  unfolding evolves_def by (intro conjI allI) (auto intro: order_trans opt_le_trans)

lemma checked_succ_le: "checked_add i 1 = Some n \<Longrightarrow> i \<le> n" for i n :: u64
  by (simp add: checked_add_Some_iff word_le_nat_alt)

lemma evolves_setters:
  "evolves g (advance_to h g)" "evolves g (advance_epoch_to e g)" "evolves g (pause_source_direct c g)"
  "control_wf g \<Longrightarrow> evolves g (unpause_source c g)" "evolves g (pause_all g)" "evolves g (unpause_all g)"
  "evolves g (set_escrow a m g)" "evolves g (register_corridor c d g)"
  "evolves g (set_corridor_active c b g)" "evolves g (set_governance ops g)"
  "evolves g (set_exit_delay dl g)" "evolves g (require_reserve_reports n g)"
  "evolves g (settle_admin_records q w g)"
  by (auto simp: evolves_def quiet_defs advance_epoch_to_def Let_def corridor_tier_def corridor_cursor_def
      bt_simps split: option.splits)

lemma evolves_credit: "evolves g (credit c r a m g)"
  by (auto simp: evolves_def credit_def touch_guard_def record_asset_epoch_def corridor_tier_def
      corridor_cursor_def)

lemma evolves_exits:
  "request_exit a m d g = (g', Ok t) \<Longrightarrow> evolves g g'"
  "finalize_exit i g = (g', Ok t) \<Longrightarrow> evolves g g'"
  "cancel_exit i g = (g', Ok t) \<Longrightarrow> evolves g g'"
proof -
  show "evolves g g'" if "request_exit a m d g = (g', Ok t)"
    using request_exit_Ok(5,6) [OF that]
    by (auto simp: evolves_def touch_guard_def corridor_tier_def corridor_cursor_def word_le_nat_alt)
qed (auto simp: finalize_exit_Ok cancel_exit_Ok evolves_def touch_guard_def corridor_tier_def
    corridor_cursor_def)

lemma evolves_batch:
  assumes "accept_batch md c i sigs g = (g', Ok u)"
  shows "evolves g g'"
  using assms checked_succ_le
  by (auto simp: accept_batch_def and_then_st_Ok_iff Let_def touch_guard_def evolves_def corridor_tier_def
      corridor_cursor_def bt_simps split: if_splits option.splits)

lemma evolves_orders:
  "report_reorg md c d h sigs g = (g', Ok u) \<Longrightarrow> evolves g g'"
  "resume_source md c h sigs g = (g', Ok u) \<Longrightarrow> evolves g g'"
  "resume_all md h sigs g = (g', Ok u) \<Longrightarrow> evolves g g'"
  "set_corridor_tier md c t sigs g = (g', Ok u) \<Longrightarrow> evolves g g'"
  "emergency_freeze md h sigs g = (g', Ok u) \<Longrightarrow> evolves g g'"
  "lift_freeze md sigs g = (g', Ok u) \<Longrightarrow> evolves g g'"
  "set_corridor_quorum c q g = (g', Ok u) \<Longrightarrow> evolves g g'"
  by (auto simp: evolves_def quiet_defs and_then_st_case Let_def corridor_tier_def corridor_cursor_def
      check_unpause_def check_tier_def and_then_Ok_iff ok_or_Ok_iff bt_simps split: op_splits)

lemma evolves_reserve:
  assumes "attest_reserve md a m h sigs g = (g', Ok b)"
  shows "evolves g g'"
proof -
  from assms obtain message accepted where
    ok: "check_reserve md a m h sigs g = Ok (message, accepted)"
    by (auto simp: attest_reserve_def and_then_st_Ok_iff)
  then have newer: "opt_le (bt_get (gw_reserve_reported_at g) a) (Some h)"
    by (auto simp: check_reserve_def and_then_Ok_iff split: if_splits option.splits)
  show ?thesis
    using assms newer ok
    by (auto simp: attest_reserve_def Let_def evolves_def quiet_defs corridor_tier_def corridor_cursor_def
        bt_simps split: if_splits)
qed

lemma evolves_watchdog: "watchdog_freeze md h s g = (g', Ok u) \<Longrightarrow> evolves g g'"
  by (auto simp: watchdog_freeze_def quiet_defs evolves_def Let_def corridor_tier_def corridor_cursor_def
      split: list.splits if_splits)

lemma gw_call_evolves:
  assumes "gw_inv g" "gw_call md c g = (g', Ok evs)"
  shows "evolves g g'"
proof -
  have wf: "control_wf g" using assms(1) by (simp add: gw_inv_def)
  show ?thesis using assms(2)
    by (cases c) (auto simp: apsnd_map_ok_Ok process_deposit_Ok [OF assms(1)] admit_trustless_Ok [OF assms(1)]
        elim: advance_epoch_Ok
        intro: evolves_setters wf evolves_credit evolves_exits evolves_batch evolves_orders
          evolves_reserve evolves_watchdog)
qed

lemma runs_evolves:
  assumes "runs (gw_call md) g evs g'" "gw_inv g"
  shows "evolves g g'"
  using assms
  by (rule gwc.ic.runs_along) (auto intro: evolves_refl evolves_trans gw_call_evolves dest: gw_call_err)

section \<open>A concrete gateway\<close>

text \<open>Three operators under the echo scheme, one corridor and one asset; it credits a deposit, takes
  two exit requests, pays the first and gives the second back.\<close>

definition sample_gateway :: "u8 gateway" where
  "sample_gateway = register_asset_epoch_cap (replicate 16 3) 1500000
     (register_asset_cap (replicate 16 3) 2000000
       (register_corridor 1 6 (gateway_new 9000 5 three_operators 3000000)))"

definition signed_sample :: attestation_envelope where
  "signed_sample = \<lparr>ae_fact = sample_fact,
     ae_signatures = [echo_sig 1 10, echo_sig 2 20, echo_sig 3 30]\<rparr>"

definition sample_calls :: "u8 gateway_call list" where
  "sample_calls = [Process_Deposit signed_sample,
     Request_Exit (replicate 16 3) 400000 [1], Request_Exit (replicate 16 3) 100000 [1],
     Finalize_Exit 0, Cancel_Exit 1]"

definition sample_ticket :: "u64 \<Rightarrow> u128 \<Rightarrow> exit_ticket" where
  "sample_ticket i m = \<lparr>et_exit_id = i, et_asset_id = replicate 16 3, et_amount = m,
     et_destination = [1], et_unlock_height = 0\<rparr>"

definition sample_events :: "gateway_event list" where
  "sample_events = [Minted 1 (replicate 32 9) (replicate 16 3) 1000000,
     Requested (sample_ticket 0 400000), Requested (sample_ticket 1 100000),
     Finalized (sample_ticket 0 400000), Cancelled (sample_ticket 1 100000)]"

definition sample_final :: "u8 gateway" where
  "sample_final = fst (run_calls (gw_call echo_scheme) sample_calls sample_gateway)"

lemma sample_booted: "booted sample_gateway"
  unfolding sample_gateway_def by (intro booted.intros)

lemmas sample_inv = booted_inv [OF sample_booted]

lemmas gateway_eval = sample_gateway_def gateway_new_def register_asset_epoch_cap_def
  register_asset_cap_def register_corridor_def Let_def bt_get_def bt_get_or_def bt_contains_def
  bs_contains_def mint_freeze_horizon_def freeze_horizon_def is_frozen_def required_quorum_def
  supermajority_floor_def sat_mul_usize_def os_size_def charge_asset_epoch_def charge_asset_escrow_def
  reserve_is_fresh_def record_asset_epoch_def touch_guard_def pending_exit_of_def checked_add_def
  sat_add_def request_exit_def finalize_exit_def cancel_exit_def MAX_PENDING_EXITS_def

lemma sample_quorum:
  "verify_quorum echo_scheme m ctx [echo_sig 1 10, echo_sig 2 20, echo_sig 3 30] three_operators = [1, 2, 3]"
  by (simp add: verify_quorum_def verified_quorum_def os_size_def os_pubkey_def bt_get_def
      bs_contains_def three_operators_def echo_scheme_def echo_sig_def)

lemma sample_precheck: "precheck_deposit echo_scheme signed_sample sample_gateway = Ok ()"
  using sample_quorum [of "attest_preimage sample_fact 5" "attest_context (replicate 32 0)"]
  by (simp add: precheck_deposit_def signed_sample_def three_operators_def gateway_eval
      sample_fact_def fact_is_zero_def fact_validate_def FACT_VERSION_def)

lemma sample_run_events:
  "run_calls (gw_call echo_scheme) sample_calls sample_gateway = (sample_final, sample_events)"
proof -
  have "snd (run_calls (gw_call echo_scheme) sample_calls sample_gateway) = sample_events"
    using sample_precheck
    by (simp add: sample_calls_def process_deposit_def)
      (simp add: signed_sample_def sample_fact_def sample_events_def sample_ticket_def gateway_eval)
  then show ?thesis by (simp add: sample_final_def prod_eq_iff)
qed

lemma sample_runs: "runs (gw_call echo_scheme) sample_gateway sample_events sample_final"
  using sample_run_events by (rule runs_run_calls)

section \<open>Runs of the gateway\<close>

lemma checked_succ_None: "checked_add i 1 = None \<Longrightarrow> i = - 1" for i :: u64
proof -
  assume "checked_add i 1 = None"
  then have "2 ^ 64 \<le> unat i + 1" by (simp add: checked_add_def split: if_splits)
  moreover have "unat i < 2 ^ 64" using unsigned_less [of i] by simp
  ultimately show "i = - 1" using unat_minus_one_word [where 'l = 64] by (simp add: word_unat_eq_iff)
qed

lemma checks_not_panic:
  "quorum_met md message domain sigs g \<noteq> Panic"
  "check_reserve md a m h sigs g \<noteq> Panic" "check_unpause md h sigs g \<noteq> Panic"
  "check_tier md c t sigs g \<noteq> Panic" "reorg_fresh c h g \<noteq> Panic"
  "fact_validate f \<noteq> Panic"
  "charge_asset_escrow a m g \<noteq> Panic" "charge_asset_epoch a m g \<noteq> Panic"
  "precheck_trustless a r m c g \<noteq> Panic" "precheck_deposit md env g \<noteq> Panic"
proof -
  show q: "quorum_met md message domain sigs g \<noteq> Panic" for md message domain sigs g
    by (simp add: quorum_met_def Let_def)
  show "check_reserve md a m h sigs g \<noteq> Panic" "check_unpause md h sigs g \<noteq> Panic"
    "check_tier md c t sigs g \<noteq> Panic" "reorg_fresh c h g \<noteq> Panic"
    by (auto simp: check_reserve_def check_unpause_def check_tier_def reorg_fresh_def and_then_Panic_iff q
        Let_def split: option.splits if_splits)
  show v: "fact_validate f \<noteq> Panic" for f by (simp add: fact_validate_def)
  show e: "charge_asset_escrow a m g \<noteq> Panic" for a m and g :: "'pk gateway"
    by (auto simp: charge_asset_escrow_def and_then_Panic_iff Let_def split: option.splits if_splits)
  show p: "charge_asset_epoch a m g \<noteq> Panic" for a m and g :: "'pk gateway"
    by (auto simp: charge_asset_epoch_def and_then_Panic_iff e Let_def split: option.splits if_splits)
  show "precheck_trustless a r m c g \<noteq> Panic" "precheck_deposit md env g \<noteq> Panic"
    by (auto simp: precheck_trustless_def precheck_deposit_def and_then_Panic_iff map_err_Panic_iff p v
        Let_def split: if_splits)
qed

lemma and_then_st_Panic_iff:
  "and_then_st m s f = (s', Panic) \<longleftrightarrow> (m = Panic \<and> s' = s) \<or> (\<exists>a. m = Ok a \<and> f a = (s', Panic))"
  by (cases m) auto

lemma apsnd_map_ok_Panic: "apsnd (map_ok f) p = (s, Panic) \<longleftrightarrow> p = (s, Panic)"
  by (cases p) (auto simp: map_ok_Panic_iff)

lemma ops_not_panic:
  "process_deposit md env g \<noteq> (g', Panic)" "admit_trustless a r m c g \<noteq> (g', Panic)"
  "finalize_exit i g \<noteq> (g', Panic)" "cancel_exit i g \<noteq> (g', Panic)"
  "report_reorg md c d h sigs g \<noteq> (g', Panic)" "resume_source md c h sigs g \<noteq> (g', Panic)"
  "resume_all md h sigs g \<noteq> (g', Panic)" "attest_reserve md a m h sigs g \<noteq> (g', Panic)"
  "set_corridor_tier md c t sigs g \<noteq> (g', Panic)" "emergency_freeze md h sigs g \<noteq> (g', Panic)"
  "lift_freeze md sigs g \<noteq> (g', Panic)" "watchdog_freeze md h s g \<noteq> (g', Panic)"
  "set_corridor_quorum c q g \<noteq> (g', Panic)"
  by (auto simp: process_deposit_def admit_trustless_def finalize_exit_def cancel_exit_def
      report_reorg_def resume_source_def resume_all_def attest_reserve_def set_corridor_tier_def
      emergency_freeze_def lift_freeze_def watchdog_freeze_def set_corridor_quorum_def
      and_then_st_Panic_iff checks_not_panic Let_def split: if_splits option.splits list.splits prod.splits)

lemma gw_call_panic:
  assumes "gw_call md c g = (g', Panic)"
  shows "(c = Advance_Epoch \<and> gw_current_epoch g = - 1) \<or>
      (\<exists>a m d. c = Request_Exit a m d \<and> gw_next_exit_id g = - 1) \<or>
      (\<exists>s i sigs. c = Accept_Batch s i sigs \<and> corridor_cursor g s = - 1)"
proof (cases c)
  case Advance_Epoch
  with assms show ?thesis
    by (auto simp: apsnd_map_ok_Panic advance_epoch_def dest: checked_succ_None split: option.splits)
next
  case (Request_Exit a m d)
  with assms show ?thesis
    by (auto simp: apsnd_map_ok_Panic request_exit_def Let_def dest: checked_succ_None
        split: option.splits if_splits)
next
  case (Accept_Batch s i sigs)
  with assms show ?thesis
    by (auto simp: apsnd_map_ok_Panic accept_batch_def and_then_st_Panic_iff Let_def corridor_cursor_def
        dest: checked_succ_None split: option.splits if_splits)
qed (use assms in \<open>simp_all add: apsnd_map_ok_Panic ops_not_panic\<close>)

text \<open>C20: a call to the gateway is all or nothing: whatever the operation and the state, a refused call
  leaves the gateway exactly as it was, and the only panics are the three counters (epoch, exit id,
  batch cursor) running past the last 64-bit value.\<close>

theorem gateway_calls_atomic:
  "(gw_call md c g = (g', Err e) \<longrightarrow> g' = g) \<and>
   (gw_call md c g = (g', Panic) \<longrightarrow>
      (c = Advance_Epoch \<and> gw_current_epoch g = - 1) \<or>
      (\<exists>a m d. c = Request_Exit a m d \<and> gw_next_exit_id g = - 1) \<or>
      (\<exists>s i sigs. c = Accept_Batch s i sigs \<and> corridor_cursor g s = - 1))"
proof (intro conjI impI)
  show "gw_call md c g = (g', Err e) \<Longrightarrow> g' = g" by (rule gw_call_err)
  show "gw_call md c g = (g', Panic) \<Longrightarrow>
      (c = Advance_Epoch \<and> gw_current_epoch g = - 1) \<or>
      (\<exists>a m d. c = Request_Exit a m d \<and> gw_next_exit_id g = - 1) \<or>
      (\<exists>s i sigs. c = Accept_Batch s i sigs \<and> corridor_cursor g s = - 1)"
    by (rule gw_call_panic)
qed

theorem gateway_calls_atomic_witness:
  "gw_call echo_scheme (Finalize_Exit 0) sample_gateway = (sample_gateway, Err (UnknownExit 0))"
proof -
  have err: "snd (gw_call echo_scheme (Finalize_Exit 0) sample_gateway) = Err (UnknownExit 0)"
    by (simp add: gateway_eval)
  then have "fst (gw_call echo_scheme (Finalize_Exit 0) sample_gateway) = sample_gateway"
    using gateway_calls_atomic [of echo_scheme "Finalize_Exit 0" sample_gateway
        "fst (gw_call echo_scheme (Finalize_Exit 0) sample_gateway)" "UnknownExit 0"]
    by (metis prod.collapse)
  with err show ?thesis by (metis prod.collapse)
qed

text \<open>C1: supply is conserved: for every asset, after any run from boot, what circulates and what the
  exit queue locks add up to everything credited less everything paid out by finalised exits, and
  never exceed the asset's cap.\<close>

theorem gateway_conserves_supply:
  assumes "booted g" "runs (gw_call md) g evs g'"
  shows "supply_of g' a + total_paid a evs = total_minted a evs \<and>
    (\<forall>cap. bt_get (gw_per_asset_cap g) a = Some cap \<longrightarrow> supply_of g' a \<le> unat cap) \<and>
    (bt_get (gw_per_asset_cap g) a = None \<longrightarrow> supply_of g' a = 0)"
proof -
  note inv = booted_inv [OF assms(1)]
  note run = gwc.runs_refines [OF assms(2) inv]
  have L: "bl_inv (gw_abs g)" using inv bl_inv_abs by (auto simp: gw_inv_shape)
  have "supply_of g' a + total_paid a evs = total_minted a evs"
    using history_supply [OF run L, of a] booted_shape [OF assms(1)] nothing_moved_abs [of g a]
    by (simp add: supply_of_abs)
  moreover have "within_caps (bt_get (gw_per_asset_cap g)) (gw_abs g')"
    using history_caps [OF run L] inv by (simp add: gw_inv_def)
  ultimately show ?thesis unfolding within_caps_def supply_of_abs by (auto dest!: spec [of _ a])
qed

theorem gateway_conserves_supply_witness:
  "supply_of sample_final (replicate 16 3) + 400000 = 1000000"
  using gateway_conserves_supply [OF sample_booted sample_runs, of "replicate 16 3"]
  by (simp add: total_paid_def total_minted_def sample_events_def sample_ticket_def)

text \<open>C3: no deposit is credited twice: in any run from boot the references credited are pairwise
  distinct, and the gateway's two tables record exactly those, so it refuses any later credit of
  one of them on the same source chain.\<close>

theorem gateway_credits_once:
  assumes "booted g" "runs (gw_call md) g evs g'"
  shows "distinct (credited_refs evs) \<and>
    (is_reference_used_on g' c r \<longleftrightarrow> (c, r) \<in> set (credited_refs evs)) \<and>
    (is_reference_used g' r \<longleftrightarrow> (\<exists>c. (c, r) \<in> set (credited_refs evs)))"
proof -
  note inv = booted_inv [OF assms(1)]
  have L: "bl_inv (gw_abs g)" using inv bl_inv_abs by (auto simp: gw_inv_shape)
  have "distinct (credited_refs evs)" "set (gw_used_refs g') = set (credited_refs evs)"
    using history_used [OF gwc.runs_refines [OF assms(2) inv] L] booted_shape [OF assms(1)]
      nothing_moved_abs [of g] by (auto simp: gw_abs_def)
  moreover have "refs_wf g'" using gwc.ic.runs_inv [OF assms(2) inv] by (simp add: gw_inv_def)
  ultimately show ?thesis
    unfolding is_reference_used_on_def is_reference_used_def bs_contains_def refs_wf_def
    by (simp add: image_iff) (metis prod.collapse snd_conv)
qed

theorem gateway_credits_once_witness:
  "is_reference_used_on sample_final 1 (replicate 32 9) \<and> \<not> is_reference_used_on sample_final 2 (replicate 32 9)"
  using gateway_credits_once [OF sample_booted sample_runs, of 1 "replicate 32 9"]
    gateway_credits_once [OF sample_booted sample_runs, of 2 "replicate 32 9"]
  by (simp add: credited_refs_def sample_events_def)

text \<open>C21: no exit is settled twice: in any run from boot every finalised or cancelled exit is settled
  exactly once, whatever the order of requests, cancellations and finalisations.\<close>

theorem gateway_settles_once:
  assumes "booted g" "runs (gw_call md) g evs g'"
  shows "distinct (settled_exits evs) \<and>
    (i \<in> set (settled_exits evs) \<longrightarrow> i < gw_next_exit_id g' \<and> bt_get (gw_pending_exits g') i = None)"
proof -
  note inv = booted_inv [OF assms(1)]
  have L: "bl_inv (gw_abs g)" using inv bl_inv_abs by (auto simp: gw_inv_shape)
  have "distinct (settled_exits evs)" "bl_settled (gw_abs g') = set (settled_exits evs)"
    using history_settled [OF gwc.runs_refines [OF assms(2) inv] L] booted_shape [OF assms(1)]
      nothing_moved_abs [of g] by auto
  then show ?thesis by (auto simp: bl_settled_def gw_abs_def)
qed

theorem gateway_settles_once_witness:
  "distinct (settled_exits sample_events) \<and> 1 < gw_next_exit_id sample_final"
  using gateway_settles_once [OF sample_booted sample_runs, of 1]
  by (simp add: settled_exits_def sample_events_def sample_ticket_def)

end
