(* ===== verification/Gateway_Orders.thy ===== *)
theory Gateway_Orders
  imports Gateway_Properties
begin

text \<open>
  Who may move the gateway, and when: what a deposit needs, what a pause or a freeze stops, what the
  reserve reports guarantee, and that a signed order takes effect at most once.
\<close>

section \<open>Deposits\<close>

lemma precheck_deposit_Ok:
  "precheck_deposit md env g = Ok u \<longleftrightarrow>
     \<not> gw_global_pause g \<and> mint_freeze_horizon g \<le> gw_current_height g \<and> gw_dest_chain_id g \<noteq> 0 \<and>
     \<not> fact_is_zero (ae_fact env) \<and> fact_validate (ae_fact env) = Ok () \<and>
     bf_direction (ae_fact env) = Deposit \<and> bf_dest_chain (ae_fact env) = gw_chain_id g \<and>
     gw_current_height g \<le> bf_expiry_height (ae_fact env) \<and>
     (\<exists>corridor. bt_get (gw_corridors g) (bf_source_chain (ae_fact env)) = Some corridor \<and>
        cc_active corridor \<and> bf_source_chain (ae_fact env) \<notin> set (gw_paused_sources g) \<and>
        cc_confirmation_depth corridor \<le> bf_finality_depth (ae_fact env) \<and>
        0 < required_quorum g corridor \<and> required_quorum g corridor \<le> os_size (gw_operators g) \<and>
        required_quorum g corridor \<le> length (verify_quorum md
           (attest_preimage (ae_fact env) (gw_dest_chain_id g)) (attest_context (gw_era g))
           (ae_signatures env) (gw_operators g)))"
proof -
  have v: "map_err InvalidFact (fact_validate f) = Ok x \<longleftrightarrow> fact_validate f = Ok ()" for f x
    by (simp add: map_err_Ok_iff)
  show ?thesis
    unfolding precheck_deposit_def Let_def if_err_Ok and_then_Ok_iff v ok_or_Ok_iff
    by (auto simp: bs_contains_def)
qed

lemma required_quorum_floor: "supermajority_floor (os_size (gw_operators g)) \<le> required_quorum g corridor"
  by (simp add: required_quorum_def)

lemma attests_iff:
  "attests md f s g \<longleftrightarrow>
     sig_counts md (attest_preimage f (gw_dest_chain_id g)) (attest_context (gw_era g)) (gw_operators g) s"
  (is "_ \<longleftrightarrow> ?c")
proof
  assume "attests md f s g"
  then have "set (verify_quorum md (attest_preimage f (gw_dest_chain_id g)) (attest_context (gw_era g))
      [s] (gw_operators g)) \<noteq> {}" by (simp add: attests_def)
  then obtain t where t: "t \<in> set (verified_quorum md (attest_preimage f (gw_dest_chain_id g))
      (attest_context (gw_era g)) [s] (gw_operators g))"
    by (metis set_verify_quorum image_is_empty ex_in_conv)
  have "length [s] \<le> os_size (gw_operators g)"
    using t verified_quorum_too_long [of "gw_operators g" "[s]"] by (metis empty_iff empty_set not_le)
  with t verified_quorum_spec(1) have "t = s" by fastforce
  with verified_quorum_counts [OF t] show ?c by simp
next
  assume c: ?c
  then have "length [s] \<le> os_size (gw_operators g)"
    using sig_counts_operator [OF c] by (cases "os_pubkeys (gw_operators g)") (auto simp: operators_of_def os_size_def)
  from verified_quorum_spec(4) [OF this] c show "attests md f s g"
    unfolding attests_def by (auto simp: set_verify_quorum simp flip: set_empty)
qed

lemma precheck_supermajority:
  assumes "precheck_deposit md env g = Ok ()" "os_size (gw_operators g) \<le> usize_max div 2"
  shows "2 * os_size (gw_operators g) <
    3 * card {i. \<exists>s\<in>set (ae_signatures env). ss_operator_id s = i \<and>
       sig_counts md (attest_preimage (ae_fact env) (gw_dest_chain_id g)) (attest_context (gw_era g))
         (gw_operators g) s}"
proof -
  let ?m = "attest_preimage (ae_fact env) (gw_dest_chain_id g)" and ?c = "attest_context (gw_era g)"
  let ?q = "verify_quorum md ?m ?c (ae_signatures env) (gw_operators g)"
  from assms(1) have floor: "supermajority_floor (os_size (gw_operators g)) \<le> length ?q"
    by (auto simp: precheck_deposit_Ok intro: order_trans [OF required_quorum_floor])
  then have "?q \<noteq> []" by (auto simp: supermajority_floor_def)
  then have "length (ae_signatures env) \<le> os_size (gw_operators g)"
    by (auto simp: verify_quorum_def verified_quorum_def split: if_splits)
  then have "set ?q = {i. \<exists>s\<in>set (ae_signatures env). ss_operator_id s = i \<and>
      sig_counts md ?m ?c (gw_operators g) s}"
    using verified_quorum_spec(4) [of "ae_signatures env" "gw_operators g" md ?m ?c]
    by (auto simp: set_verify_quorum)
  then show ?thesis
    using supermajority_floor_large [OF assms(2) floor] by (simp flip: card_verify_quorum)
qed

text \<open>The signatures that count for an envelope, as the set of the operators that made them, and the quorum rule in
  terms of this set: no more signatures than operators, and enough operators for the corridor and for a supermajority.\<close>

definition signers_of :: "'pk ml_dsa \<Rightarrow> attestation_envelope \<Rightarrow> 'pk gateway \<Rightarrow> u32 set" where
  "signers_of md env g = {i. \<exists>s\<in>set (ae_signatures env). ss_operator_id s = i \<and>
     sig_counts md (attest_preimage (ae_fact env) (gw_dest_chain_id g)) (attest_context (gw_era g)) (gw_operators g) s}"

lemma envelope_quorum:
  fixes md :: "'pk ml_dsa" and g :: "'pk gateway" and env :: attestation_envelope
  assumes "os_size (gw_operators g) \<le> usize_max div 2"
  defines "n \<equiv> os_size (gw_operators g)" and "k \<equiv> card (signers_of md env g)"
  shows "(0 < required_quorum g c \<and> required_quorum g c \<le> n \<and>
      required_quorum g c \<le> length (verify_quorum md (attest_preimage (ae_fact env) (gw_dest_chain_id g))
        (attest_context (gw_era g)) (ae_signatures env) (gw_operators g))) \<longleftrightarrow>
    length (ae_signatures env) \<le> n \<and> 2 \<le> k \<and> 2 * n < 3 * k \<and>
    (if 0 < cc_quorum c then cc_quorum c else os_threshold (gw_operators g)) \<le> k"
proof -
  let ?m = "attest_preimage (ae_fact env) (gw_dest_chain_id g)" and ?x = "attest_context (gw_era g)"
  let ?q = "verify_quorum md ?m ?x (ae_signatures env) (gw_operators g)"
  have floor: "supermajority_floor n \<le> q \<longleftrightarrow> 2 \<le> q \<and> 2 * n < 3 * q" for q
    using assms(1) by (auto simp: supermajority_floor_def sat_mul_usize_def n_def)
  have "signers_of md env g \<subseteq> operators_of (gw_operators g)"
    by (auto simp: signers_of_def dest: sig_counts_operator)
  then have "k \<le> card (operators_of (gw_operators g))" unfolding k_def by (intro card_mono) (auto simp: operators_of_def)
  also have "\<dots> \<le> n"
    using card_length [of "map fst (os_pubkeys (gw_operators g))"] by (simp add: operators_of_def n_def os_size_def)
  finally have le: "k \<le> n" .
  show ?thesis
  proof (cases "length (ae_signatures env) \<le> n")
    case True
    then have "set ?q = signers_of md env g"
      using verified_quorum_spec(4) [of "ae_signatures env" "gw_operators g" md ?m ?x]
      by (auto simp: set_verify_quorum signers_of_def n_def)
    then have "length ?q = k" by (simp add: k_def flip: card_verify_quorum)
    then show ?thesis using True le by (auto simp: required_quorum_def floor simp flip: n_def) (auto simp: supermajority_floor_def)
  next
    case False
    then have "?q = []" by (simp add: verify_quorum_def verified_quorum_too_long n_def)
    with False show ?thesis by auto
  qed
qed

lemma fact_validate_Ok:
  "fact_validate f = Ok () \<longleftrightarrow> bf_version f = FACT_VERSION \<and> bf_source_chain f \<noteq> 0 \<and> bf_dest_chain f \<noteq> 0 \<and> bf_amount f \<noteq> 0 \<and>
     bf_asset_id f \<noteq> replicate 16 0 \<and> bf_recipient f \<noteq> replicate 32 0 \<and> bf_source_ref f \<noteq> replicate 32 0"
  by (simp add: fact_validate_def)

lemma reserve_is_fresh_iff:
  "reserve_is_fresh g a \<longleftrightarrow> (\<forall>age. gw_reserve_max_age g = Some age \<longrightarrow>
     (\<exists>at. bt_get (gw_reserve_reported_at g) a = Some at \<and> unat (gw_current_height g) \<le> unat at + unat age))"
proof -
  have "h \<le> sat_add at age \<longleftrightarrow> unat h \<le> unat at + unat age" for h at age :: u64
    using unsigned_less [of h, where ?'a = nat] by (auto simp: word_le_nat_alt unat_sat_add)
  then show ?thesis by (auto simp: reserve_is_fresh_def split: option.splits)
qed

text \<open>C2: what the gateway does with an attested deposit, exactly. It is credited if and only if the
  gateway is not paused, no freeze that has not been lifted and no watchdog's freeze is ahead of its height, and it has a
  destination; the fact has the current version, is a deposit from some chain to this one, names an amount, an asset, a
  recipient and a reference and has not expired; the corridor of its source is open, active, not paused and asks for no
  more depth than the fact has; there are no more signatures than operators, and the operators with a valid one over
  exactly this fact, destination and era are two or more, more than two thirds, and as many as the corridor, or else the operator
  set, asks for; its reference is new on its chain; where reserve reports are required, the last one for the asset is
  recent enough; and cap, escrow and both epoch budgets hold as integers after the credit. Then the new
  state is the credit and the receipt copies the fact.\<close>

theorem deposit_credited_iff:
  assumes "gw_inv g" "os_size (gw_operators g) \<le> usize_max div 2"
  shows "process_deposit md env g = (g', Ok r) \<longleftrightarrow>
     (let f = ae_fact env; height = gw_current_height g; ops = gw_operators g; k = card (signers_of md env g);
          supply = supply_of g (bf_asset_id f); amount = unat (bf_amount f) in
     \<not> gw_global_pause g \<and> (gw_lifted_freeze g = gw_frozen_until g \<or> gw_frozen_until g \<le> height) \<and>
     gw_deposit_frozen_until g \<le> height \<and> gw_dest_chain_id g \<noteq> 0 \<and>
     bf_version f = FACT_VERSION \<and> bf_direction f = Deposit \<and> bf_source_chain f \<noteq> 0 \<and> bf_dest_chain f \<noteq> 0 \<and>
     bf_dest_chain f = gw_chain_id g \<and> bf_amount f \<noteq> 0 \<and> bf_asset_id f \<noteq> replicate 16 0 \<and>
     bf_recipient f \<noteq> replicate 32 0 \<and> bf_source_ref f \<noteq> replicate 32 0 \<and> height \<le> bf_expiry_height f \<and>
     (\<exists>c. bt_get (gw_corridors g) (bf_source_chain f) = Some c \<and> cc_active c \<and>
        bf_source_chain f \<notin> set (gw_paused_sources g) \<and> cc_confirmation_depth c \<le> bf_finality_depth f \<and>
        length (ae_signatures env) \<le> os_size ops \<and> 2 \<le> k \<and> 2 * os_size ops < 3 * k \<and>
        (if 0 < cc_quorum c then cc_quorum c else os_threshold ops) \<le> k) \<and>
     (bf_source_chain f, bf_source_ref f) \<notin> set (gw_used_refs g) \<and>
     (\<forall>age. gw_reserve_max_age g = Some age \<longrightarrow>
        (\<exists>at. bt_get (gw_reserve_reported_at g) (bf_asset_id f) = Some at \<and> unat height \<le> unat at + unat age)) \<and>
     (\<exists>cap. bt_get (gw_per_asset_cap g) (bf_asset_id f) = Some cap \<and> supply + amount \<le> unat cap) \<and>
     (\<forall>e. bt_get (gw_escrowed g) (bf_asset_id f) = Some e \<longrightarrow> supply + amount \<le> unat e) \<and>
     unat (gw_epoch_minted g) + amount \<le> unat (gw_epoch_cap g) \<and>
     (\<forall>cap. bt_get (gw_per_asset_epoch_cap g) (bf_asset_id f) = Some cap \<longrightarrow>
        unat (bt_get_or (gw_per_asset_epoch_minted g) (bf_asset_id f) 0) + amount \<le> unat cap) \<and>
     g' = credit (bf_source_chain f) (bf_source_ref f) (bf_asset_id f) (bf_amount f) g \<and> r = receipt_of f)"
proof -
  have frozen: "mint_freeze_horizon g \<le> gw_current_height g \<longleftrightarrow>
      (gw_lifted_freeze g = gw_frozen_until g \<or> gw_frozen_until g \<le> gw_current_height g) \<and> gw_deposit_frozen_until g \<le> gw_current_height g"
    by (auto simp: mint_freeze_horizon_def freeze_horizon_def)
  have zero: "bf_amount f \<noteq> 0 \<Longrightarrow> \<not> fact_is_zero f" for f by (simp add: fact_is_zero_def)
  show ?thesis
    unfolding process_deposit_Ok [OF assms(1)] budgets_allow_def precheck_deposit_Ok envelope_quorum [OF assms(2)] frozen
      fact_validate_Ok reserve_is_fresh_iff Let_def
    using zero [of "ae_fact env"] by blast
qed

text \<open>no mint without a supermajority: a credited deposit carries signatures, valid under their
  registered keys over the preimage of exactly this fact for this destination and era, of more than
  two thirds of the operators.\<close>

theorem deposit_needs_supermajority:
  assumes "gw_inv g" "process_deposit md env g = (g', Ok r)"
    and "os_size (gw_operators g) \<le> usize_max div 2"
  shows "2 * os_size (gw_operators g) <
    3 * card {i. \<exists>s\<in>set (ae_signatures env). ss_operator_id s = i \<and>
       sig_counts md (attest_preimage (ae_fact env) (gw_dest_chain_id g)) (attest_context (gw_era g))
         (gw_operators g) s}"
  using assms by (simp add: process_deposit_Ok precheck_supermajority)

theorem deposit_needs_supermajority_witness:
  "6 < 3 * card {i. \<exists>s\<in>set (ae_signatures signed_sample). ss_operator_id s = i \<and>
     sig_counts echo_scheme (attest_preimage sample_fact 5) (attest_context (replicate 32 0)) three_operators s}"
proof -
  have "snd (process_deposit echo_scheme signed_sample sample_gateway) = Ok (receipt_of sample_fact)"
    using sample_precheck
    by (simp add: process_deposit_def)
      (simp add: signed_sample_def sample_fact_def receipt_of_def gateway_eval)
  then obtain g' where ok: "process_deposit echo_scheme signed_sample sample_gateway = (g', Ok (receipt_of sample_fact))"
    by (metis prod.collapse)
  have "gw_operators sample_gateway = three_operators" "gw_dest_chain_id sample_gateway = 5"
    "gw_era sample_gateway = replicate 32 0" "os_size three_operators = 3" "ae_fact signed_sample = sample_fact"
    by (simp_all add: gateway_eval three_operators_def signed_sample_def)
  then show ?thesis using deposit_needs_supermajority [OF sample_inv ok] by simp
qed

section \<open>Pauses and freezes\<close>

lemma call_mints:
  assumes "gw_inv g" "gw_call md c g = (g', Ok evs)" "Minted s r a m \<in> set evs"
  shows "\<not> gw_global_pause g \<and> mint_freeze_horizon g \<le> gw_current_height g \<and>
    s \<notin> set (gw_paused_sources g) \<and> budgets_allow s r a m g \<and> g' = credit s r a m g"
  using assms(2,3)
  by (cases c) (auto simp: apsnd_map_ok_Ok process_deposit_Ok [OF assms(1)] admit_trustless_Ok [OF assms(1)]
      precheck_trustless_Ok [OF assms(1)] precheck_deposit_Ok receipt_of_def)

lemma call_pays:
  assumes "gw_call md c g = (g', Ok evs)" "Finalized t \<in> set evs"
  shows "\<not> gw_global_pause g \<and> \<not> is_frozen g \<and> et_unlock_height t \<le> gw_current_height g \<and>
    (\<exists>i. bt_get (gw_pending_exits g) i = Some t)"
  using assms by (cases c) (auto simp: apsnd_map_ok_Ok finalize_exit_Ok)

text \<open>C24: a halted gateway moves nothing: under a global pause or while a freeze is in force no call, of
  whatever kind, credits a deposit or pays an exit; a paused source blocks the credits from that
  source by either path, and a watchdog's freeze blocks every credit.\<close>

theorem halted_gateway_moves_nothing:
  assumes "gw_inv g" "gw_call md c g = (g', Ok evs)"
  shows "(gw_global_pause g \<or> is_frozen g \<longrightarrow>
            (\<forall>t. Finalized t \<notin> set evs) \<and> (\<forall>s r a m. Minted s r a m \<notin> set evs)) \<and>
         (gw_current_height g < gw_deposit_frozen_until g \<longrightarrow> (\<forall>s r a m. Minted s r a m \<notin> set evs)) \<and>
         (bs_contains (gw_paused_sources g) s \<longrightarrow> (\<forall>r a m. Minted s r a m \<notin> set evs))"
proof -
  have "mint_freeze_horizon g \<le> gw_current_height g \<Longrightarrow>
      \<not> is_frozen g \<and> \<not> gw_current_height g < gw_deposit_frozen_until g"
    by (auto simp: mint_freeze_horizon_def is_frozen_def)
  then show ?thesis
    using call_mints [OF assms] call_pays [OF assms(2)] unfolding bs_contains_def by blast
qed

lemma paused_sample: "gw_inv (pause_all sample_gateway)" "gw_global_pause (pause_all sample_gateway)"
  using gwc.ok_keeps [OF sample_inv, of echo_scheme Pause_All] by (simp_all add: pause_all_def touch_guard_def Let_def)

theorem halted_gateway_moves_nothing_witness:
  "\<forall>g'. gw_call echo_scheme (Process_Deposit signed_sample) (pause_all sample_gateway) \<noteq>
     (g', Ok [Minted 1 (replicate 32 9) (replicate 16 3) 1000000])"
proof (intro allI notI)
  fix g'
  assume "gw_call echo_scheme (Process_Deposit signed_sample) (pause_all sample_gateway) =
     (g', Ok [Minted 1 (replicate 32 9) (replicate 16 3) 1000000])"
  from halted_gateway_moves_nothing [OF paused_sample(1) this] paused_sample(2) show False by auto
qed

section \<open>Reserves\<close>

lemma supply_of_credit:
  assumes "budgets_allow c r a m g"
  shows "supply_of (credit c r a m g) b = supply_of g b + (if b = a then unat m else 0)"
proof -
  have "gw_abs (credit c r a m g) = (gw_abs g)\<lparr>bl_used := insert (c, r) (bl_used (gw_abs g)),
      bl_circulating := (bl_circulating (gw_abs g))(a := bl_circulating (gw_abs g) a + unat m)\<rparr>"
    using abs_credit [OF assms] by (auto split: if_splits option.splits)
  then show ?thesis by (simp add: bl_supply_def flip: supply_of_abs)
qed

text \<open>C23: every credit is backed: when any call credits an asset, the supply of the asset rises by exactly the amount
  credited and no other supply changes; where the gateway has an escrow on record for the asset, the new supply, counting
  what the exit queue still owes, stays within it; and where the gateway requires reserve reports, there is a report
  for the asset that is no older than the age allowed.\<close>

theorem credits_are_backed:
  assumes "gw_inv g" "gw_call md c g = (g', Ok evs)" "Minted s r a m \<in> set evs"
  shows "supply_of g' a = supply_of g a + unat m \<and> (\<forall>b. b \<noteq> a \<longrightarrow> supply_of g' b = supply_of g b) \<and>
    (\<forall>e. escrow_of g a = Some e \<longrightarrow> supply_of g' a \<le> unat e) \<and>
    (\<forall>age. gw_reserve_max_age g = Some age \<longrightarrow>
       (\<exists>at. bt_get (gw_reserve_reported_at g) a = Some at \<and> unat (gw_current_height g) \<le> unat at + unat age))"
  using call_mints [OF assms] supply_of_credit [of s r a m g]
  by (auto simp: budgets_allow_def escrow_of_def reserve_is_fresh_iff)

lemma quorum_met_Ok:
  "quorum_met md message domain sigs g = Ok accepted \<longleftrightarrow>
     accepted = verified_quorum md message domain sigs (gw_operators g) \<and>
     os_threshold (gw_operators g) \<le> length accepted \<and>
     supermajority_floor (os_size (gw_operators g)) \<le> length accepted"
  by (auto simp: quorum_met_def Let_def)

lemma check_reserve_Ok:
  assumes "check_reserve md a m h sigs g = Ok (message, accepted)"
  obtains max_age where "gw_reserve_max_age g = Some max_age" "gw_current_height g \<le> sat_add h max_age"
    "supermajority_floor (os_size (gw_operators g)) \<le> length accepted"
    "accepted = verified_quorum md (reserve_message a m h (gw_dest_chain_id g) (gw_era g)) RESERVE_DOMAIN
       sigs (gw_operators g)"
    "\<And>last_at. bt_get (gw_reserve_reported_at g) a = Some last_at \<Longrightarrow> last_at < h"
proof -
  from assms obtain max_age where age: "gw_reserve_max_age g = Some max_age"
    by (auto simp: check_reserve_def and_then_Ok_iff ok_or_Ok_iff)
  with assms have window: "gw_current_height g \<le> sat_add h max_age"
    "\<not> (case bt_get (gw_reserve_reported_at g) a of Some last_at \<Rightarrow> h \<le> last_at | None \<Rightarrow> False)"
    and met: "quorum_met md (reserve_message a m h (gw_dest_chain_id g) (gw_era g)) RESERVE_DOMAIN sigs g = Ok accepted"
    by (auto simp: check_reserve_def and_then_Ok_iff Let_def split: if_splits)
  show thesis using window met by (intro that [OF age]) (auto simp: quorum_met_Ok)
qed

lemma reserve_report_state:
  assumes "gw_inv g" "attest_reserve md a m h sigs g = (g', Ok short)"
  shows "short \<longleftrightarrow> unat m < supply_of g a"
    and "gw_global_pause g' \<longleftrightarrow> gw_global_pause g \<or> short"
    and "gw_escrowed g' = bt_insert a m (gw_escrowed g)"
    and "gw_reserve_reported_at g' = bt_insert a h (gw_reserve_reported_at g)"
    and "gw_reserve_max_age g' = gw_reserve_max_age g" "gw_current_height g' = gw_current_height g"
    and "\<exists>message accepted. check_reserve md a m h sigs g = Ok (message, accepted)"
proof -
  from assms(2) obtain message accepted where ok: "check_reserve md a m h sigs g = Ok (message, accepted)"
    by (auto simp: attest_reserve_def and_then_st_Ok_iff)
  then show "\<exists>message accepted. check_reserve md a m h sigs g = Ok (message, accepted)" by blast
  have pend: "pending_exit_of (log_admin d x y (g\<lparr>gw_escrowed := e, gw_reserve_reported_at := w\<rparr>)) a =
      pending_exit_of g a" for d x y e w
    by (simp add: pending_exit_of_def log_admin_def)
  have short: "short \<longleftrightarrow> m < sat_add (bt_get_or (gw_per_asset_minted g) a 0) (pending_exit_of g a)"
    using assms(2) ok by (auto simp: attest_reserve_def Let_def pend split: if_splits)
      (auto simp: log_admin_def)
  then show "short \<longleftrightarrow> unat m < supply_of g a"
    by (simp add: word_less_nat_alt unat_supply [OF assms(1)])
  show "gw_global_pause g' \<longleftrightarrow> gw_global_pause g \<or> short"
    "gw_escrowed g' = bt_insert a m (gw_escrowed g)"
    "gw_reserve_reported_at g' = bt_insert a h (gw_reserve_reported_at g)"
    "gw_reserve_max_age g' = gw_reserve_max_age g" "gw_current_height g' = gw_current_height g"
    using assms(2) ok by (auto simp: attest_reserve_def Let_def pause_all_def log_admin_def touch_guard_def
        split: if_splits)
qed

text \<open>A reserve report is acted on: an accepted report is signed by a supermajority, is newer than
  the last one, makes the reserve fresh and becomes the escrow on record; if it shows less than the
  supply outstanding, exits in the queue included, the gateway is paused, and otherwise the report
  changes neither the pause nor the supply.\<close>

theorem reserve_report_pauses:
  assumes "gw_inv g" "attest_reserve md a m h sigs g = (g', Ok short)"
  shows "(short \<longleftrightarrow> unat m < supply_of g' a) \<and>
    (gw_global_pause g' \<longleftrightarrow> gw_global_pause g \<or> short) \<and>
    escrow_of g' a = Some m \<and> reserve_is_fresh g' a \<and>
    (\<forall>last_at. bt_get (gw_reserve_reported_at g) a = Some last_at \<longrightarrow> last_at < h) \<and>
    supermajority_floor (os_size (gw_operators g)) \<le> length (verify_quorum md
      (reserve_message a m h (gw_dest_chain_id g) (gw_era g)) RESERVE_DOMAIN sigs (gw_operators g))"
proof -
  note st = reserve_report_state [OF assms]
  from st(7) obtain message accepted where ok: "check_reserve md a m h sigs g = Ok (message, accepted)"
    by blast
  have "ledger_of g' = ledger_of g" using quiet_orders(5) [OF assms(2)] by simp
  then have same: "supply_of g' a = supply_of g a" using gw_abs_ledger [of g' g] by (simp flip: supply_of_abs)
  obtain max_age where "gw_reserve_max_age g = Some max_age" "gw_current_height g \<le> sat_add h max_age"
    "supermajority_floor (os_size (gw_operators g)) \<le> length (verified_quorum md
      (reserve_message a m h (gw_dest_chain_id g) (gw_era g)) RESERVE_DOMAIN sigs (gw_operators g))"
    "\<And>last_at. bt_get (gw_reserve_reported_at g) a = Some last_at \<Longrightarrow> last_at < h"
    using check_reserve_Ok [OF ok] by metis
  then show ?thesis
    using st(1-6) same
    by (simp add: escrow_of_def bt.get_put reserve_is_fresh_def length_verify_quorum)
qed

definition reporting_gateway :: "u8 gateway" where
  "reporting_gateway = advance_to 10 (require_reserve_reports 100 sample_gateway)"

definition three_sigs :: "signer_sig list" where
  "three_sigs = [echo_sig 1 10, echo_sig 2 20, echo_sig 3 30]"

lemma reporting_inv: "gw_inv reporting_gateway"
  using gwc.ok_keeps [of "require_reserve_reports 100 sample_gateway" echo_scheme "Advance_To 10"]
    booted_inv [OF booted_reserve [OF sample_booted, of 100]]
  by (simp add: reporting_gateway_def)

lemma sample_met:
  assumes "gw_operators g = three_operators"
  shows "quorum_met echo_scheme message domain three_sigs g = Ok three_sigs"
  using assms
  by (simp add: quorum_met_def three_sigs_def verified_quorum_def os_size_def os_pubkey_def bt_get_def
      bs_contains_def three_operators_def echo_scheme_def echo_sig_def supermajority_floor_def
      sat_mul_usize_def Let_def)

theorem reserve_report_pauses_witness:
  "\<exists>g'. attest_reserve echo_scheme (replicate 16 3) 500 9 three_sigs reporting_gateway = (g', Ok False) \<and>
     \<not> gw_global_pause g' \<and> escrow_of g' (replicate 16 3) = Some 500 \<and> reserve_is_fresh g' (replicate 16 3)"
proof -
  have "snd (attest_reserve echo_scheme (replicate 16 3) 500 9 three_sigs reporting_gateway) = Ok False"
    using sample_met [of reporting_gateway]
    by (simp add: attest_reserve_def check_reserve_def)
      (simp add: reporting_gateway_def advance_to_def require_reserve_reports_def gateway_eval
        RESERVE_MAX_AGE_def RESUME_SKEW_def log_admin_def)
  then obtain g' where
    ok: "attest_reserve echo_scheme (replicate 16 3) 500 9 three_sigs reporting_gateway = (g', Ok False)"
    by (metis prod.collapse)
  have "\<not> gw_global_pause reporting_gateway"
    by (simp add: reporting_gateway_def advance_to_def require_reserve_reports_def gateway_eval)
  then show ?thesis using ok reserve_report_pauses [OF reporting_inv ok] by auto
qed

text \<open>A gateway that requires reports, with a report and an escrow for the asset of the sample.\<close>

definition funded_gateway :: "u8 gateway" where
  "funded_gateway = reporting_gateway\<lparr>gw_escrowed := [(replicate 16 3, 1500000)], gw_reserve_reported_at := [(replicate 16 3, 5)]\<rparr>"

lemma funded_inv: "gw_inv funded_gateway"
proof -
  have "control_wf funded_gateway"
    using reporting_inv by (simp add: funded_gateway_def gw_inv_def control_wf_def bt_wf_def)
  moreover have "ledger_of funded_gateway = ledger_of reporting_gateway"
    by (simp add: ledger_of_def funded_gateway_def)
  ultimately show ?thesis using gw_inv_ledger reporting_inv by blast
qed

lemmas funded_eval = funded_gateway_def reporting_gateway_def advance_to_def require_reserve_reports_def gateway_eval RESERVE_MAX_AGE_def

lemma funded_precheck: "precheck_deposit echo_scheme signed_sample funded_gateway = Ok ()"
  using sample_quorum [of "attest_preimage sample_fact 5" "attest_context (replicate 32 0)"]
  by (simp add: precheck_deposit_def signed_sample_def three_operators_def funded_eval
      sample_fact_def fact_is_zero_def fact_validate_def FACT_VERSION_def)

lemma funded_deposit: "snd (process_deposit echo_scheme signed_sample funded_gateway) = Ok (receipt_of sample_fact)"
  using funded_precheck
  by (simp add: process_deposit_def) (simp add: signed_sample_def sample_fact_def receipt_of_def funded_eval)

theorem deposit_credited_iff_witness:
  "\<exists>g'. process_deposit echo_scheme signed_sample funded_gateway = (g', Ok (receipt_of sample_fact)) \<and>
     g' = credit 1 (replicate 32 9) (replicate 16 3) 1000000 funded_gateway \<and>
     6 < 3 * card (signers_of echo_scheme signed_sample funded_gateway)"
proof -
  obtain g' where ok: "process_deposit echo_scheme signed_sample funded_gateway = (g', Ok (receipt_of sample_fact))"
    using funded_deposit by (metis prod.collapse)
  have f: "ae_fact signed_sample = sample_fact" "bf_source_chain sample_fact = 1"
    "bf_source_ref sample_fact = replicate 32 9" "bf_asset_id sample_fact = replicate 16 3"
    "bf_amount sample_fact = 1000000" by (simp_all add: signed_sample_def sample_fact_def)
  have "os_size (gw_operators funded_gateway) = 3" by (simp add: funded_eval three_operators_def)
  with deposit_credited_iff [OF funded_inv, of echo_scheme signed_sample g' "receipt_of sample_fact"] ok f show ?thesis
    by (auto simp: Let_def)
qed

theorem credits_are_backed_witness:
  "\<exists>g'. gw_call echo_scheme (Process_Deposit signed_sample) funded_gateway =
      (g', Ok [Minted 1 (replicate 32 9) (replicate 16 3) 1000000]) \<and>
     supply_of g' (replicate 16 3) = supply_of funded_gateway (replicate 16 3) + 1000000 \<and>
     escrow_of funded_gateway (replicate 16 3) = Some 1500000 \<and> supply_of g' (replicate 16 3) \<le> 1500000 \<and>
     gw_reserve_max_age funded_gateway = Some 100 \<and>
     (\<exists>at. bt_get (gw_reserve_reported_at funded_gateway) (replicate 16 3) = Some at \<and> 10 \<le> unat at + 100)"
proof -
  obtain g' where "process_deposit echo_scheme signed_sample funded_gateway = (g', Ok (receipt_of sample_fact))"
    using funded_deposit by (metis prod.collapse)
  then have call: "gw_call echo_scheme (Process_Deposit signed_sample) funded_gateway =
      (g', Ok [Minted 1 (replicate 32 9) (replicate 16 3) 1000000])"
    by (simp add: receipt_of_def sample_fact_def)
  have state: "escrow_of funded_gateway (replicate 16 3) = Some 1500000" "gw_reserve_max_age funded_gateway = Some 100"
    "gw_current_height funded_gateway = 10"
    by (simp_all add: escrow_of_def funded_eval)
  from credits_are_backed [OF funded_inv call, of 1 "replicate 32 9" "replicate 16 3" 1000000] state call
  show ?thesis by auto
qed

lemma short_reserve_None:
  assumes "gw_inv g"
  shows "short_reserve g = None \<longleftrightarrow>
     (\<forall>(a, minted) \<in> set (gw_per_asset_minted g). supply_of g a \<le> unat (bt_get_or (gw_escrowed g) a 0))"
proof -
  have "distinct (map fst (gw_per_asset_minted g))"
    using assms bt_wf_distinct by (auto simp: gw_inv_def tables_wf_def)
  then have get: "bt_get_or (gw_per_asset_minted g) a 0 = minted"
    if "(a, minted) \<in> set (gw_per_asset_minted g)" for a minted
    using that by (simp add: bt_get_or_def bt_get_def)
  have "short_reserve g = None \<longleftrightarrow> (\<forall>(a, minted) \<in> set (gw_per_asset_minted g).
      sat_add minted (pending_exit_of g a) \<le> bt_get_or (gw_escrowed g) a 0)"
    by (fastforce simp: short_reserve_def find_None_iff not_less)
  also have "\<dots> \<longleftrightarrow> (\<forall>(a, minted) \<in> set (gw_per_asset_minted g).
      sat_add (bt_get_or (gw_per_asset_minted g) a 0) (pending_exit_of g a) \<le> bt_get_or (gw_escrowed g) a 0)"
    using get by fastforce
  finally show ?thesis by (simp add: word_le_nat_alt unat_supply [OF assms])
qed

text \<open>the signed way out of a global pause is open only to a solvent gateway: if \<open>resume_all\<close>
  succeeds, a supermajority signed the order, it is newer than the pause and than every earlier
  resumption, and for every asset ever minted the supply outstanding is covered by the escrow on
  record.\<close>

theorem resume_only_when_covered:
  assumes "gw_inv g" "resume_all md h sigs g = (g', Ok u)"
  shows "gw_global_pause g \<and> \<not> gw_global_pause g' \<and>
    gw_global_paused_at g \<le> h \<and> gw_global_resumed_at g < h \<and>
    (bt_contains (gw_per_asset_minted g) a \<longrightarrow> supply_of g' a \<le> unat (bt_get_or (gw_escrowed g') a 0)) \<and>
    supermajority_floor (os_size (gw_operators g)) \<le> length (verify_quorum md
      (unpause_message h (gw_dest_chain_id g) (gw_era g)) UNPAUSE_DOMAIN sigs (gw_operators g))"
proof -
  from assms(2) obtain message accepted where ok: "check_unpause md h sigs g = Ok (message, accepted)"
    and g': "g' = touch_guard (log_admin UNPAUSE_DOMAIN message accepted
        (g\<lparr>gw_global_pause := False, gw_global_resumed_at := h\<rparr>))"
    by (auto simp: resume_all_def and_then_st_Ok_iff)
  have "ledger_of g' = ledger_of g" using quiet_orders(4) [OF assms(2)] by simp
  then have same: "supply_of g' a = supply_of g a" using gw_abs_ledger [of g' g] by (simp flip: supply_of_abs)
  from ok have chk: "gw_global_pause g" "gw_global_paused_at g \<le> h" "gw_global_resumed_at g < h"
    "short_reserve g = None"
    "supermajority_floor (os_size (gw_operators g)) \<le> length (verified_quorum md
      (unpause_message h (gw_dest_chain_id g) (gw_era g)) UNPAUSE_DOMAIN sigs (gw_operators g))"
    by (auto simp: check_unpause_def and_then_Ok_iff quorum_met_Ok Let_def split: if_splits option.splits)
  have "supply_of g a \<le> unat (bt_get_or (gw_escrowed g) a 0)" if "bt_contains (gw_per_asset_minted g) a"
    using that chk(4) bt_get_in_set by (fastforce simp: short_reserve_None [OF assms(1)] bt_contains_def)
  then show ?thesis using chk same by (simp add: g' touch_guard_def log_admin_def length_verify_quorum)
qed

theorem resume_only_when_covered_witness:
  "\<exists>g'. resume_all echo_scheme 1 three_sigs (pause_all sample_gateway) = (g', Ok ()) \<and> \<not> gw_global_pause g'"
proof -
  have "gw_operators (pause_all sample_gateway) = three_operators"
    by (simp add: pause_all_def gateway_eval)
  then have "snd (resume_all echo_scheme 1 three_sigs (pause_all sample_gateway)) = Ok ()"
    using sample_met [of "pause_all sample_gateway"]
    by (simp add: resume_all_def check_unpause_def)
      (simp add: pause_all_def gateway_eval short_reserve_def RESUME_SKEW_def RESUME_WINDOW_def)
  then obtain g' where ok: "resume_all echo_scheme 1 three_sigs (pause_all sample_gateway) = (g', Ok ())"
    by (metis prod.collapse)
  then show ?thesis using resume_only_when_covered [OF paused_sample(1) ok] by auto
qed

end
