(* ===== verification/Gateway_Time.thy ===== *)
theory Gateway_Time
  imports Gateway_Orders
begin

text \<open>
  The gateway over time: signed orders take effect once, freezes end, exits wait out their delay, a
  cancelled exit is given back, and an epoch's budget counts every credit of the epoch.
\<close>

section \<open>Signed orders\<close>

lemma runs_evolves_after:
  assumes "gw_inv g" "gw_call md c g = (g1, Ok new)" "runs (gw_call md) g1 evs g2"
  shows "evolves g1 g2"
  using assms runs_evolves gwc.ok_keeps by blast

lemma resumed_after:
  assumes "resume_source md c h sigs g = (g', Ok u)"
  shows "bt_get (gw_resumed_at g') c = Some h"
  using assms by (auto simp: resume_source_def and_then_st_Ok_iff Let_def touch_guard_def log_admin_def bt_simps
      split: if_splits)

lemma resume_refused:
  assumes "opt_le (Some h) (bt_get (gw_resumed_at g) c)"
  shows "\<not> is_ok (snd (resume_source md c h sigs g))"
  using assms by (auto simp: resume_source_def Let_def opt_le_def split: if_splits)

lemma unpaused_after: "resume_all md h sigs g = (g', Ok u) \<Longrightarrow> gw_global_resumed_at g' = h"
  by (auto simp: resume_all_def and_then_st_Ok_iff touch_guard_def log_admin_def)

lemma unpause_refused: "h \<le> gw_global_resumed_at g \<Longrightarrow> \<not> is_ok (snd (resume_all md h sigs g))"
  by (auto simp: resume_all_def check_unpause_def)

lemma report_refused:
  assumes "opt_le (Some h) (bt_get (gw_reserve_reported_at g) a)"
  shows "\<not> is_ok (snd (attest_reserve md a m h sigs g))"
proof
  assume "is_ok (snd (attest_reserve md a m h sigs g))"
  then obtain message accepted where "check_reserve md a m h sigs g = Ok (message, accepted)"
    by (cases "check_reserve md a m h sigs g") (auto simp: attest_reserve_def)
  from check_reserve_Ok [OF this] assms show False by (force simp: opt_le_def)
qed

lemma tier_after: "set_corridor_tier md c t sigs g = (g', Ok u) \<Longrightarrow> corridor_tier g' c = Some t"
  by (auto simp: set_corridor_tier_def and_then_st_Ok_iff check_tier_def and_then_Ok_iff ok_or_Ok_iff Let_def
      touch_guard_def log_admin_def corridor_tier_def bt_simps split: if_splits option.splits)

lemma tier_refused:
  assumes "opt_le (Some t) (corridor_tier g c)"
  shows "\<not> is_ok (snd (set_corridor_tier md c t sigs g))"
  using assms by (auto simp: set_corridor_tier_def check_tier_def Let_def corridor_tier_def opt_le_def
      split: if_splits)

lemma accept_batch_Ok:
  assumes "accept_batch md c i sigs g = (g', Ok u)"
  obtains next_i where "corridor_cursor g c = i" "checked_add i 1 = Some next_i"
    "g' = touch_guard (g\<lparr>gw_corridor_cursor := bt_insert c next_i (gw_corridor_cursor g)\<rparr>)"
  using assms by (auto simp: accept_batch_def and_then_st_Ok_iff Let_def corridor_cursor_def
      split: if_splits option.splits)

lemma batch_after:
  assumes "accept_batch md c i sigs g = (g', Ok u)"
  shows "corridor_cursor g c = i" "i < corridor_cursor g' c" "unat (corridor_cursor g' c) = Suc (unat i)"
proof -
  obtain n where n: "corridor_cursor g c = i" "checked_add i 1 = Some n"
    "g' = touch_guard (g\<lparr>gw_corridor_cursor := bt_insert c n (gw_corridor_cursor g)\<rparr>)"
    using accept_batch_Ok [OF assms] .
  have "unat n = Suc (unat i)" "corridor_cursor g' c = n"
    using n(2) by (simp_all add: checked_add_Some_iff n(3) touch_guard_def corridor_cursor_def bt_simps)
  with n(1) show "corridor_cursor g c = i" "i < corridor_cursor g' c" "unat (corridor_cursor g' c) = Suc (unat i)"
    by (simp_all add: word_less_nat_alt)
qed

lemma batch_refused: "i < corridor_cursor g c \<Longrightarrow> \<not> is_ok (snd (accept_batch md c i sigs g))"
  by (auto simp: accept_batch_def Let_def corridor_cursor_def is_ok_iff and_then_st_case
      split: if_splits option.splits res.splits)

lemma emergency_freeze_cases:
  assumes "emergency_freeze md h sigs g = (g', r)"
  shows "g' = g \<and> (r = Ok () \<longrightarrow> h \<le> gw_frozen_until g) \<or>
    (r = Ok () \<and> gw_frozen_until g < h \<and> gw_frozen_until g' = h \<and> gw_lifted_freeze g' = 0 \<and>
     gw_current_height g < h \<and> h \<le> sat_add (gw_current_height g) EMERGENCY_FREEZE_MAX_WINDOW \<and>
     gw_current_height g' = gw_current_height g \<and> gw_deposit_frozen_until g' = gw_deposit_frozen_until g)"
proof (cases "quorum_met md (freeze_message_for_era h (gw_dest_chain_id g) (gw_era g)) FREEZE_DOMAIN sigs g")
  case (Ok accepted)
  with assms show ?thesis
    by (auto simp: emergency_freeze_def Let_def touch_guard_def log_admin_def not_less split: if_splits)
qed (use assms in \<open>auto simp: emergency_freeze_def Let_def split: if_splits\<close>)

lemma freeze_idempotent:
  "h \<le> gw_frozen_until g \<Longrightarrow> emergency_freeze md h sigs g = (g', r) \<Longrightarrow> g' = g"
  using emergency_freeze_cases [of md h sigs g g' r] by auto

lemma frozen_after:
  assumes "emergency_freeze md h sigs g = (g', Ok u)"
  shows "h \<le> gw_frozen_until g'"
  using emergency_freeze_cases [OF assms] by auto

text \<open>C27: no signed order takes effect twice: once a resumption, a global unpause, a reserve report, a
  tier raise or a batch has been accepted, presenting the same order again, with whatever
  signatures and after whatever other calls, is refused; repeating an emergency freeze changes
  nothing.\<close>

theorem orders_not_replayed:
  assumes "gw_inv g" "runs (gw_call md) g1 evs g2"
  shows "(resume_source md c h sigs g = (g1, Ok ()) \<longrightarrow> \<not> is_ok (snd (resume_source md c h sigs' g2))) \<and>
    (resume_all md h sigs g = (g1, Ok ()) \<longrightarrow> \<not> is_ok (snd (resume_all md h sigs' g2))) \<and>
    (attest_reserve md a m h sigs g = (g1, Ok short) \<longrightarrow> \<not> is_ok (snd (attest_reserve md a m' h sigs' g2))) \<and>
    (set_corridor_tier md c t sigs g = (g1, Ok ()) \<longrightarrow> \<not> is_ok (snd (set_corridor_tier md c t sigs' g2))) \<and>
    (accept_batch md c i sigs g = (g1, Ok ()) \<longrightarrow> \<not> is_ok (snd (accept_batch md c i sigs' g2))) \<and>
    (emergency_freeze md h sigs g = (g1, Ok ()) \<longrightarrow> fst (emergency_freeze md h sigs' g2) = g2)"
proof (intro conjI impI)
  note after = runs_evolves_after [OF assms(1) _ assms(2)]
  show "\<not> is_ok (snd (resume_source md c h sigs' g2))" if ok: "resume_source md c h sigs g = (g1, Ok ())"
    using after [of "Resume_Source c h sigs"] ok resumed_after [OF ok]
    by (intro resume_refused) (auto simp: evolves_def dest: spec [of _ c])
  show "\<not> is_ok (snd (resume_all md h sigs' g2))" if ok: "resume_all md h sigs g = (g1, Ok ())"
    using after [of "Resume_All h sigs"] ok unpaused_after [OF ok]
    by (intro unpause_refused) (auto simp: evolves_def)
  show "\<not> is_ok (snd (attest_reserve md a m' h sigs' g2))"
    if ok: "attest_reserve md a m h sigs g = (g1, Ok short)"
    using after [of "Attest_Reserve a m h sigs"] ok reserve_report_state(4) [OF assms(1) ok]
    by (intro report_refused) (auto simp: evolves_def bt.get_put dest: spec [of _ a])
  show "\<not> is_ok (snd (set_corridor_tier md c t sigs' g2))" if ok: "set_corridor_tier md c t sigs g = (g1, Ok ())"
    using after [of "Set_Corridor_Tier c t sigs"] ok tier_after [OF ok]
    by (intro tier_refused) (auto simp: evolves_def dest: spec [of _ c])
  show "\<not> is_ok (snd (accept_batch md c i sigs' g2))" if ok: "accept_batch md c i sigs g = (g1, Ok ())"
    using after [of "Accept_Batch c i sigs"] ok batch_after(2) [OF ok]
    by (intro batch_refused) (auto simp: evolves_def intro: order.strict_trans2)
  show "fst (emergency_freeze md h sigs' g2) = g2" if ok: "emergency_freeze md h sigs g = (g1, Ok ())"
    using after [of "Emergency_Freeze h sigs"] ok frozen_after [OF ok]
      freeze_idempotent [of h g2 md sigs'] by (auto simp: evolves_def) (metis order_trans prod.collapse)
qed

theorem orders_not_replayed_witness:
  "is_ok (snd (resume_all echo_scheme 1 three_sigs (pause_all sample_gateway))) \<and>
   \<not> is_ok (snd (resume_all echo_scheme 1 three_sigs
        (pause_all (fst (resume_all echo_scheme 1 three_sigs (pause_all sample_gateway))))))"
proof -
  let ?p = "pause_all sample_gateway"
  let ?g1 = "fst (resume_all echo_scheme 1 three_sigs ?p)"
  have "gw_operators ?p = three_operators" by (simp add: pause_all_def gateway_eval)
  then have "snd (resume_all echo_scheme 1 three_sigs ?p) = Ok ()"
    using sample_met [of ?p]
    by (simp add: resume_all_def check_unpause_def)
      (simp add: pause_all_def gateway_eval short_reserve_def RESUME_SKEW_def RESUME_WINDOW_def)
  then have ok: "resume_all echo_scheme 1 three_sigs ?p = (?g1, Ok ())"
    and first: "is_ok (snd (resume_all echo_scheme 1 three_sigs ?p))" by (metis prod.collapse, simp)
  have "runs (gw_call echo_scheme) ?g1 ([] @ []) (pause_all ?g1)"
    by (rule runs_ok [OF runs_start, where c = Pause_All]) simp
  then have "runs (gw_call echo_scheme) ?g1 [] (pause_all ?g1)" by simp
  from orders_not_replayed [OF paused_sample(1) this, of 0 1 three_sigs three_sigs "[]" 0 False 0 0 0] ok first
  show ?thesis by blast
qed

section \<open>Freezes end\<close>

definition freeze_bounded :: "'pk gateway \<Rightarrow> bool" where
  "freeze_bounded g \<longleftrightarrow>
     gw_frozen_until g \<le> sat_add (gw_current_height g) EMERGENCY_FREEZE_MAX_WINDOW \<and>
     gw_deposit_frozen_until g \<le> sat_add (gw_current_height g) WATCHDOG_MAX_WINDOW"

definition freezes_of :: "'pk gateway \<Rightarrow> u64 \<times> u64 \<times> u64" where
  "freezes_of g = (gw_frozen_until g, gw_deposit_frozen_until g, gw_current_height g)"

lemma sat_add_mono: "a \<le> b \<Longrightarrow> sat_add a w \<le> sat_add b w"
  by (auto simp: word_le_nat_alt unat_sat_add)

lemma freeze_bounded_later:
  assumes "freeze_bounded g" "gw_frozen_until g' = gw_frozen_until g"
    "gw_deposit_frozen_until g' = gw_deposit_frozen_until g" "gw_current_height g \<le> gw_current_height g'"
  shows "freeze_bounded g'"
  using assms sat_add_mono [OF assms(4)] by (auto simp: freeze_bounded_def intro: order_trans)

lemma freezes_kept:
  "report_reorg md c d h sigs g = (g', Ok u) \<Longrightarrow> freezes_of g' = freezes_of g"
  "resume_source md c h sigs g = (g', Ok u) \<Longrightarrow> freezes_of g' = freezes_of g"
  "resume_all md h sigs g = (g', Ok u) \<Longrightarrow> freezes_of g' = freezes_of g"
  "set_corridor_tier md c t sigs g = (g', Ok u) \<Longrightarrow> freezes_of g' = freezes_of g"
  "set_corridor_quorum c q g = (g', Ok u) \<Longrightarrow> freezes_of g' = freezes_of g"
  "lift_freeze md sigs g = (g', Ok u) \<Longrightarrow> freezes_of g' = freezes_of g"
  "attest_reserve md a m h sigs g = (g', Ok b) \<Longrightarrow> freezes_of g' = freezes_of g"
  "accept_batch md c i sigs g = (g', Ok u) \<Longrightarrow> freezes_of g' = freezes_of g"
  "request_exit a m ds g = (g', Ok tk) \<Longrightarrow> freezes_of g' = freezes_of g"
  "finalize_exit i g = (g', Ok tk) \<Longrightarrow> freezes_of g' = freezes_of g"
  "cancel_exit i g = (g', Ok tk) \<Longrightarrow> freezes_of g' = freezes_of g"
  by (auto simp: freezes_of_def quiet_defs request_exit_def finalize_exit_def cancel_exit_def
      and_then_st_case Let_def split: op_splits)

lemma freezes_kept_setters:
  "freezes_of (pause_source_direct c g) = freezes_of g" "freezes_of (unpause_source c g) = freezes_of g"
  "freezes_of (pause_all g) = freezes_of g" "freezes_of (unpause_all g) = freezes_of g"
  "freezes_of (set_escrow a m g) = freezes_of g" "freezes_of (register_corridor c d g) = freezes_of g"
  "freezes_of (set_corridor_active c b g) = freezes_of g" "freezes_of (set_governance ops g) = freezes_of g"
  "freezes_of (set_exit_delay dl g) = freezes_of g" "freezes_of (require_reserve_reports n g) = freezes_of g"
  "freezes_of (settle_admin_records q w g) = freezes_of g" "freezes_of (advance_epoch_to e g) = freezes_of g"
  "freezes_of (credit cr r a m g) = freezes_of g"
  by (auto simp: freezes_of_def quiet_defs credit_def record_asset_epoch_def advance_epoch_to_def Let_def
      split: option.splits)

lemma freeze_bounded_same: "freezes_of g' = freezes_of g \<Longrightarrow> freeze_bounded g \<Longrightarrow> freeze_bounded g'"
  by (simp add: freezes_of_def freeze_bounded_def)

lemma watchdog_freeze_Ok:
  assumes "watchdog_freeze md h s g = (g', Ok u)"
  shows "gw_frozen_until g' = gw_frozen_until g \<and> gw_current_height g' = gw_current_height g \<and>
    gw_current_height g < h \<and> h \<le> sat_add (gw_current_height g) WATCHDOG_MAX_WINDOW \<and>
    gw_deposit_frozen_until g' = max h (gw_deposit_frozen_until g)"
  using assms
  by (auto simp: watchdog_freeze_def Let_def touch_guard_def log_admin_def max_def
      split: list.splits if_splits)

lemma call_freeze_bounded:
  assumes "gw_inv g" "freeze_bounded g" "gw_call md c g = (g', Ok evs)"
  shows "freeze_bounded g'"
proof (cases c)
  case (Advance_To h)
  with assms show ?thesis by (auto intro!: freeze_bounded_later [OF assms(2)] simp: advance_to_def)
next
  case (Emergency_Freeze h sigs)
  with assms(2,3) emergency_freeze_cases [of md h sigs g g' "Ok ()"] show ?thesis
    by (auto simp: apsnd_map_ok_Ok freeze_bounded_def)
next
  case (Watchdog_Freeze h s)
  with assms(2,3) watchdog_freeze_Ok [of md h s g g' "()"] show ?thesis
    by (auto simp: apsnd_map_ok_Ok freeze_bounded_def max_def)
qed (use assms(3) in \<open>auto simp: apsnd_map_ok_Ok process_deposit_Ok [OF assms(1)]
      admit_trustless_Ok [OF assms(1)] freezes_kept_setters
      elim!: advance_epoch_Ok
      intro!: freeze_bounded_same [OF _ assms(2)] dest: freezes_kept\<close>)

interpretation fz: invariant_calls "gw_call md" "\<lambda>g. gw_inv g \<and> freeze_bounded g" for md :: "'pk ml_dsa"
  by unfold_locales (auto dest: gw_call_err intro: call_freeze_bounded gwc.ok_keeps)

text \<open>C28: a freeze cannot be made permanent: after any run from boot, whoever signed what, both freeze
  horizons lie within their window of the current height, so a gateway left alone thaws: it is free
  of the emergency freeze once the height has advanced by that window and of the watchdogs' freeze
  once it has advanced by theirs.\<close>

theorem freezes_expire:
  assumes "booted g" "runs (gw_call md) g evs g'"
    and "unat h = unat (gw_current_height g') + unat EMERGENCY_FREEZE_MAX_WINDOW"
  shows "unat (gw_frozen_until g') \<le> unat (gw_current_height g') + 3024000 \<and>
    unat (gw_deposit_frozen_until g') \<le> unat (gw_current_height g') + 7200 \<and>
    \<not> is_frozen (advance_to h g') \<and>
    mint_freeze_horizon (advance_to h g') \<le> gw_current_height (advance_to h g')"
proof -
  have "freeze_bounded g" using booted_shape [OF assms(1)] by (simp add: nothing_moved_def freeze_bounded_def)
  with fz.runs_inv [OF assms(2)] booted_inv [OF assms(1)] have fb: "freeze_bounded g'" by simp
  then have until: "unat (gw_frozen_until g') \<le> unat (gw_current_height g') + 3024000"
    "unat (gw_deposit_frozen_until g') \<le> unat (gw_current_height g') + 7200"
    by (auto simp: freeze_bounded_def word_le_nat_alt unat_sat_add EMERGENCY_FREEZE_MAX_WINDOW_def
        WATCHDOG_MAX_WINDOW_def)
  have h: "unat h = unat (gw_current_height g') + 3024000"
    using assms(3) by (simp add: EMERGENCY_FREEZE_MAX_WINDOW_def)
  then have "gw_current_height g' < h" by (simp add: word_less_nat_alt)
  then have adv: "gw_current_height (advance_to h g') = h"
    "gw_frozen_until (advance_to h g') = gw_frozen_until g'"
    "gw_deposit_frozen_until (advance_to h g') = gw_deposit_frozen_until g'"
    "gw_lifted_freeze (advance_to h g') = gw_lifted_freeze g'"
    by (simp_all add: advance_to_def)
  have "gw_frozen_until g' \<le> h" "gw_deposit_frozen_until g' \<le> h"
    using until h by (simp_all add: word_le_nat_alt)
  then show ?thesis
    using until by (auto simp: is_frozen_def freeze_horizon_def mint_freeze_horizon_def adv)
qed

theorem freezes_expire_witness:
  "\<not> is_frozen (advance_to 3024000 sample_final) \<and>
   mint_freeze_horizon (advance_to 3024000 sample_final) \<le> gw_current_height (advance_to 3024000 sample_final)"
proof -
  have "gw_current_height sample_final = 0"
    using sample_precheck unfolding sample_final_def
    by (simp add: sample_calls_def process_deposit_def)
      (simp add: signed_sample_def sample_fact_def gateway_eval)
  then show ?thesis
    using freezes_expire [OF sample_booted sample_runs, of 3024000]
    by (simp add: EMERGENCY_FREEZE_MAX_WINDOW_def)
qed

section \<open>Exits\<close>

lemma request_queued:
  assumes "request_exit a m d g = (g1, Ok t)"
  shows "bt_get (gw_pending_exits g1) (et_exit_id t) = Some t" "et_exit_id t \<in> bl_issued (gw_abs g1)"
  using request_exit_Ok(4-6) [OF assms]
  by (simp_all add: touch_guard_def bt.get_put gw_abs_def word_less_nat_alt)

text \<open>an exit is paid as it was requested and not before its delay: whatever happens between the
  request and the finalisation, the ticket paid is the ticket issued, for the asset, amount and
  destination asked, and the height has reached the height of the request plus the exit delay (or
  the last 64-bit height).\<close>

theorem exit_waits_out_delay:
  assumes "gw_inv g" "request_exit a m d g = (g1, Ok t)" "runs (gw_call md) g1 evs g2"
    and "finalize_exit (et_exit_id t) g2 = (g3, Ok t')"
  shows "t' = t \<and> et_asset_id t = a \<and> et_amount t = m \<and> et_destination t = d \<and>
    min (unat (gw_current_height g) + unat (gw_exit_delay g)) (2 ^ 64 - 1) \<le> unat (gw_current_height g2)"
proof -
  have inv1: "gw_inv g1" using gwc.ok_keeps [OF assms(1), of md "Request_Exit a m d"] assms(2) by simp
  from assms(4) have t': "bt_get (gw_pending_exits g2) (et_exit_id t) = Some t'"
    "et_unlock_height t' \<le> gw_current_height g2" by (auto simp: finalize_exit_Ok)
  have "bl_queue (gw_abs g2) (et_exit_id t) = bl_queue (gw_abs g1) (et_exit_id t)"
    using history_queue [OF gwc.runs_refines [OF assms(3) inv1] request_queued(2) [OF assms(2)]] t'(1)
    by (auto simp: gw_abs_def)
  with t'(1) request_queued(1) [OF assms(2)] have "t' = t" by (simp add: gw_abs_def)
  with t'(2) request_exit_Ok(4) [OF assms(2)] show ?thesis
    by (simp add: word_le_nat_alt unat_sat_add)
qed

text \<open>Cancelling an exit undoes it: right after a request its cancellation succeeds, returns the
  same ticket, and leaves the queue and the supply in circulation of every asset as they were before
  the request.\<close>

theorem exit_cancel_restores:
  assumes "gw_inv g" "request_exit a m d g = (g1, Ok t)"
  shows "\<exists>g2. cancel_exit (et_exit_id t) g1 = (g2, Ok t) \<and> gw_pending_exits g2 = gw_pending_exits g \<and>
    (\<forall>b. minted_of_asset g2 b = minted_of_asset g b)"
proof -
  note req = request_exit_Ok [OF assms(2)]
  have wf: "bt_wf (gw_pending_exits g)" and new: "bt_get (gw_pending_exits g) (gw_next_exit_id g) = None"
    using assms(1) exit_not_issued by (auto simp: gw_inv_def tables_wf_def)
  have le: "m \<le> minted_of_asset g a" by (rule req(2))
  have "unat (minted_of_asset g a - m) + unat m = unat (minted_of_asset g a)"
    using le by (simp add: unat_sub word_le_nat_alt)
  then have "sat_add (minted_of_asset g a - m) m = minted_of_asset g a"
    using unsigned_less [of "minted_of_asset g a", where ?'a = nat] by (simp add: sat_add_def)
  moreover have "minted_of_asset g1 b = (if b = a then minted_of_asset g a - m else minted_of_asset g b)" for b
    by (simp add: req(6) touch_guard_def minted_of_asset_def bt_simps)
  moreover obtain g2 where g2: "cancel_exit (et_exit_id t) g1 = (g2, Ok t)"
    using request_queued(1) [OF assms(2)] by (auto simp: cancel_exit_Ok)
  ultimately have "\<forall>b. minted_of_asset g2 b = minted_of_asset g b"
    using req(4) by (auto simp: cancel_exit_Ok touch_guard_def minted_of_asset_def bt_simps)
  moreover have "gw_pending_exits g2 = gw_pending_exits g"
    using g2 req(4,6) bt.del_put_new [OF wf new] by (auto simp: cancel_exit_Ok touch_guard_def)
  ultimately show ?thesis using g2 by blast
qed

definition credited_sample :: "u8 gateway" where
  "credited_sample = credit 1 (replicate 32 9) (replicate 16 3) 1000000 sample_gateway"

lemma credited_sample_inv: "gw_inv credited_sample"
proof -
  have "supply_of sample_gateway (replicate 16 3) = 0"
    using booted_shape [OF sample_booted] nothing_moved_abs by blast
  then have "budgets_allow 1 (replicate 32 9) (replicate 16 3) 1000000 sample_gateway"
    by (simp add: budgets_allow_def) (simp add: gateway_eval)
  from step_ok_inv [OF sample_inv step_credit [OF sample_inv this]] show ?thesis
    by (simp add: credited_sample_def)
qed

lemma sample_request:
  "\<exists>g1. request_exit (replicate 16 3) 400000 [1] credited_sample = (g1, Ok (sample_ticket 0 400000))"
proof -
  have "snd (request_exit (replicate 16 3) 400000 [1] credited_sample) = Ok (sample_ticket 0 400000)"
    by (simp add: credited_sample_def credit_def minted_of_asset_def sample_ticket_def gateway_eval)
  then show ?thesis by (metis prod.collapse)
qed

theorem exit_cancel_restores_witness:
  "\<exists>g1 g2. request_exit (replicate 16 3) 400000 [1] credited_sample = (g1, Ok (sample_ticket 0 400000)) \<and>
     cancel_exit 0 g1 = (g2, Ok (sample_ticket 0 400000)) \<and>
     minted_of_asset g2 (replicate 16 3) = minted_of_asset credited_sample (replicate 16 3)"
proof -
  obtain g1 where req: "request_exit (replicate 16 3) 400000 [1] credited_sample = (g1, Ok (sample_ticket 0 400000))"
    using sample_request by blast
  from exit_cancel_restores [OF credited_sample_inv req] req show ?thesis by (auto simp: sample_ticket_def)
qed

theorem exit_waits_out_delay_witness:
  "\<exists>g1 g3. request_exit (replicate 16 3) 400000 [1] credited_sample = (g1, Ok (sample_ticket 0 400000)) \<and>
     finalize_exit 0 g1 = (g3, Ok (sample_ticket 0 400000)) \<and> et_amount (sample_ticket 0 400000) = 400000"
proof -
  obtain g1 where req: "request_exit (replicate 16 3) 400000 [1] credited_sample = (g1, Ok (sample_ticket 0 400000))"
    using sample_request by blast
  have g1: "g1 = fst (request_exit (replicate 16 3) 400000 [1] credited_sample)" using req by simp
  have "snd (finalize_exit 0 g1) = Ok (sample_ticket 0 400000)" unfolding g1
    by (simp add: credited_sample_def credit_def minted_of_asset_def sample_ticket_def gateway_eval)
  then obtain g3 where "finalize_exit (et_exit_id (sample_ticket 0 400000)) g1 = (g3, Ok (sample_ticket 0 400000))"
    by (simp add: sample_ticket_def) (metis prod.collapse)
  with exit_waits_out_delay [OF credited_sample_inv req runs_start [of "gw_call echo_scheme"] this] req
  show ?thesis by (auto simp: sample_ticket_def)
qed

section \<open>Epochs\<close>

fun amount_minted :: "gateway_event \<Rightarrow> nat" where
  "amount_minted (Minted c r a m) = unat m"
| "amount_minted ev = 0"

definition all_minted :: "gateway_event list \<Rightarrow> nat" where
  "all_minted evs = sum_list (map amount_minted evs)"

definition epoch_of :: "'pk gateway \<Rightarrow> u64 \<times> u128 \<times> u128" where
  "epoch_of g = (gw_current_epoch g, gw_epoch_minted g, gw_epoch_cap g)"

lemma epoch_kept:
  "report_reorg md c d h sigs g = (g', Ok u) \<Longrightarrow> epoch_of g' = epoch_of g"
  "resume_source md c h sigs g = (g', Ok u) \<Longrightarrow> epoch_of g' = epoch_of g"
  "resume_all md h sigs g = (g', Ok u) \<Longrightarrow> epoch_of g' = epoch_of g"
  "set_corridor_tier md c t sigs g = (g', Ok u) \<Longrightarrow> epoch_of g' = epoch_of g"
  "set_corridor_quorum c q g = (g', Ok u) \<Longrightarrow> epoch_of g' = epoch_of g"
  "emergency_freeze md h sigs g = (g', Ok u) \<Longrightarrow> epoch_of g' = epoch_of g"
  "lift_freeze md sigs g = (g', Ok u) \<Longrightarrow> epoch_of g' = epoch_of g"
  "attest_reserve md a m h sigs g = (g', Ok b) \<Longrightarrow> epoch_of g' = epoch_of g"
  "accept_batch md c i sigs g = (g', Ok u) \<Longrightarrow> epoch_of g' = epoch_of g"
  "request_exit a m ds g = (g', Ok tk) \<Longrightarrow> epoch_of g' = epoch_of g"
  "finalize_exit i g = (g', Ok tk) \<Longrightarrow> epoch_of g' = epoch_of g"
  "cancel_exit i g = (g', Ok tk) \<Longrightarrow> epoch_of g' = epoch_of g"
  by (auto simp: epoch_of_def quiet_defs request_exit_def finalize_exit_def cancel_exit_def
      and_then_st_case Let_def split: op_splits)

lemma epoch_kept_watchdog: "watchdog_freeze md h s g = (g', Ok u) \<Longrightarrow> epoch_of g' = epoch_of g"
  by (auto simp: epoch_of_def watchdog_freeze_def Let_def touch_guard_def log_admin_def
      split: list.splits if_splits)

lemma epoch_kept_setters:
  "epoch_of (advance_to h g) = epoch_of g"
  "epoch_of (pause_source_direct c g) = epoch_of g" "epoch_of (unpause_source c g) = epoch_of g"
  "epoch_of (pause_all g) = epoch_of g" "epoch_of (unpause_all g) = epoch_of g"
  "epoch_of (set_escrow a m g) = epoch_of g" "epoch_of (register_corridor c d g) = epoch_of g"
  "epoch_of (set_corridor_active c b g) = epoch_of g" "epoch_of (set_governance ops g) = epoch_of g"
  "epoch_of (set_exit_delay dl g) = epoch_of g" "epoch_of (require_reserve_reports n g) = epoch_of g"
  "epoch_of (settle_admin_records q w g) = epoch_of g"
  by (auto simp: epoch_of_def quiet_defs Let_def split: option.splits)

definition epoch_step :: "'pk gateway \<Rightarrow> gateway_event list \<Rightarrow> 'pk gateway \<Rightarrow> bool" where
  "epoch_step g evs g' \<longleftrightarrow> gw_epoch_cap g' = gw_epoch_cap g \<and>
     (gw_current_epoch g' = gw_current_epoch g \<longrightarrow>
        unat (gw_epoch_minted g') = unat (gw_epoch_minted g) + all_minted evs)"

lemma epoch_step_credit:
  "budgets_allow c r a m g \<Longrightarrow> epoch_step g [Minted c r a m] (credit c r a m g)"
  by (auto simp: epoch_step_def all_minted_def credit_def touch_guard_def record_asset_epoch_def
      budgets_allow_def sat_add_exact)

lemma epoch_step_same: "epoch_of g' = epoch_of g \<Longrightarrow> all_minted evs = 0 \<Longrightarrow> epoch_step g evs g'"
  by (simp add: epoch_step_def epoch_of_def)

lemma epoch_step_to: "epoch_step g [] (advance_epoch_to e g)"
  by (auto simp: epoch_step_def all_minted_def advance_epoch_to_def touch_guard_def)

lemma call_epoch_step:
  assumes "gw_inv g" "gw_call md c g = (g', Ok evs)"
  shows "epoch_step g evs g'"
  using assms(2)
  by (cases c) (auto simp: apsnd_map_ok_Ok process_deposit_Ok [OF assms(1)] admit_trustless_Ok [OF assms(1)]
      precheck_trustless_Ok [OF assms(1)] receipt_of_def all_minted_def
      elim!: advance_epoch_Ok
      intro: epoch_step_credit epoch_step_to epoch_step_same epoch_kept epoch_kept_watchdog epoch_kept_setters)

text \<open>the epoch budget counts everything: over any run that stays in one epoch the running total
  grows by exactly the credits of all assets and both paths, and it never exceeds the epoch cap.\<close>

theorem epoch_budget_counts:
  assumes "runs (gw_call md) g evs g'" "gw_inv g" "gw_current_epoch g' = gw_current_epoch g"
  shows "unat (gw_epoch_minted g') = unat (gw_epoch_minted g) + all_minted evs \<and>
    unat (gw_epoch_minted g) + all_minted evs \<le> unat (gw_epoch_cap g)"
proof -
  have "gw_epoch_cap g' = gw_epoch_cap g \<and> (gw_current_epoch g' = gw_current_epoch g \<longrightarrow>
      unat (gw_epoch_minted g') = unat (gw_epoch_minted g) + all_minted evs)"
    using assms(1,2)
  proof (induction rule: runs.induct)
    case runs_start
    then show ?case by (simp add: all_minted_def)
  next
    case (runs_ok evs s' c s'' new)
    have inv: "gw_inv s'" using runs_ok gwc.ic.runs_inv by blast
    have "gw_current_epoch g \<le> gw_current_epoch s'" "gw_current_epoch s' \<le> gw_current_epoch s''"
      using runs_evolves [OF runs_ok.hyps(1) runs_ok.prems] gw_call_evolves [OF inv runs_ok.hyps(2)]
      by (simp_all add: evolves_def)
    then show ?case
      using runs_ok.IH runs_ok.prems call_epoch_step [OF inv runs_ok.hyps(2)]
      by (auto simp: epoch_step_def all_minted_def)
  next
    case (runs_err evs s' c s'' e)
    then show ?case using gw_call_err by metis
  qed
  moreover have "gw_epoch_minted g' \<le> gw_epoch_cap g'"
    using gwc.ic.runs_inv [OF assms(1,2)] by (simp add: gw_inv_def epochs_wf_def)
  ultimately show ?thesis using assms(3) by (auto simp: word_le_nat_alt)
qed

theorem epoch_budget_counts_witness: "unat (gw_epoch_minted sample_final) = 1000000"
proof -
  have "gw_current_epoch sample_final = gw_current_epoch sample_gateway"
    using sample_precheck unfolding sample_final_def
    by (simp add: sample_calls_def process_deposit_def)
      (simp add: signed_sample_def sample_fact_def gateway_eval)
  moreover have "gw_epoch_minted sample_gateway = 0" by (simp add: gateway_eval)
  ultimately show ?thesis
    using epoch_budget_counts [OF sample_runs sample_inv] by (simp add: all_minted_def sample_events_def)
qed

end
