(* ===== verification/Guard_Codec.thy ===== *)
theory Guard_Codec
  imports Gateway_Time
begin

text \<open>
  The gateway's snapshot: \<open>encode_guard\<close>, \<open>decode_guard\<close> with its \<open>bounded_count\<close>, and
  \<open>rehydrate_guard\<close> of \<^verbatim>\<open>crates/q-gateway/src/gateway.rs\<close>. A table is written as its length and
  its entries; \<open>rd_table\<close> is the loop that reads one back. The runtime uses the snapshot twice: to
  restart from disk and to take back an operation whose snapshot could not be written.
\<close>

definition GUARD_SNAPSHOT_VERSION :: u8 where "GUARD_SNAPSHOT_VERSION = 10"

record guard_state =
  gs_global_pause :: bool
  gs_current_height :: u64
  gs_frozen_until :: u64
  gs_lifted_freeze :: u64
  gs_deposit_frozen_until :: u64
  gs_epoch_minted :: u128
  gs_used_refs :: "(u32 \<times> bytes) btree_set"
  gs_per_asset_minted :: "(bytes, u128) btree_map"
  gs_paused_sources :: "u32 btree_set"
  gs_corridor_cursor :: "(u32, u64) btree_map"
  gs_current_epoch :: u64
  gs_per_asset_epoch_minted :: "(bytes, u128) btree_map"
  gs_next_exit_id :: u64
  gs_pending_exits :: "(u64, exit_ticket) btree_map"
  gs_corridors :: "(u32, corridor_config) btree_map"
  gs_resumed_at :: "(u32, u64) btree_map"
  gs_watchdog_last :: "(u32, u64) btree_map"
  gs_global_paused_at :: u64
  gs_global_resumed_at :: u64
  gs_audit_seq :: u64
  gs_audit_head :: bytes
  gs_escrowed :: "(bytes, u128) btree_map"
  gs_reserve_reported_at :: "(bytes, u64) btree_map"

section \<open>Encoding\<close>

definition writer_len :: "'a list \<Rightarrow> bytes" where
  "writer_len xs = writer_u32 (word_of_nat (length xs))"

definition writer_bool :: "bool \<Rightarrow> bytes" where
  "writer_bool b = writer_u8 (if b then 1 else 0)"

definition write_ref :: "u32 \<times> bytes \<Rightarrow> bytes" where
  "write_ref = (\<lambda>(source_chain, reference). writer_u32 source_chain @ writer_fixed reference)"

definition write_amount :: "bytes \<times> u128 \<Rightarrow> bytes" where
  "write_amount = (\<lambda>(asset_id, minted). writer_fixed asset_id @ writer_u128 minted)"

definition write_height :: "u32 \<times> u64 \<Rightarrow> bytes" where
  "write_height = (\<lambda>(source_chain, height). writer_u32 source_chain @ writer_u64 height)"

definition write_report :: "bytes \<times> u64 \<Rightarrow> bytes" where
  "write_report = (\<lambda>(asset_id, at_height). writer_fixed asset_id @ writer_u64 at_height)"

definition write_ticket :: "exit_ticket \<Rightarrow> bytes" where
  "write_ticket t = writer_u64 (et_exit_id t) @ writer_fixed (et_asset_id t) @ writer_u128 (et_amount t) @
     writer_fixed (et_destination t) @ writer_u64 (et_unlock_height t)"

definition write_corridor :: "u32 \<times> corridor_config \<Rightarrow> bytes" where
  "write_corridor = (\<lambda>(source_chain, corridor).
     writer_u32 source_chain @ writer_u32 (cc_confirmation_depth corridor) @
     writer_u32 (word_of_nat (cc_quorum corridor)) @ writer_u8 (cc_tier corridor) @
     writer_bool (cc_active corridor))"

definition encode_guard :: "'pk gateway \<Rightarrow> bytes" where
  "encode_guard g =
     writer_u8 GUARD_SNAPSHOT_VERSION @
     writer_bool (gw_global_pause g) @
     writer_u64 (gw_current_height g) @
     writer_u64 (gw_frozen_until g) @
     writer_u64 (gw_lifted_freeze g) @
     writer_u64 (gw_deposit_frozen_until g) @
     writer_u128 (gw_epoch_minted g) @
     (writer_len (gw_used_refs g) @ concat (map write_ref (gw_used_refs g))) @
     (writer_len (gw_per_asset_minted g) @ concat (map write_amount (gw_per_asset_minted g))) @
     (writer_len (gw_paused_sources g) @ concat (map writer_u32 (gw_paused_sources g))) @
     (writer_len (gw_corridor_cursor g) @ concat (map write_height (gw_corridor_cursor g))) @
     writer_u64 (gw_current_epoch g) @
     (writer_len (gw_per_asset_epoch_minted g) @ concat (map write_amount (gw_per_asset_epoch_minted g))) @
     writer_u64 (gw_next_exit_id g) @
     (writer_len (gw_pending_exits g) @ concat (map write_ticket (map snd (gw_pending_exits g)))) @
     (writer_len (gw_corridors g) @ concat (map write_corridor (gw_corridors g))) @
     (writer_len (gw_resumed_at g) @ concat (map write_height (gw_resumed_at g))) @
     (writer_len (gw_watchdog_last g) @ concat (map write_height (gw_watchdog_last g))) @
     writer_u64 (gw_global_paused_at g) @
     writer_u64 (gw_global_resumed_at g) @
     writer_u64 (gw_audit_seq g) @
     writer_fixed (gw_audit_head g) @
     (writer_len (gw_escrowed g) @ concat (map write_amount (gw_escrowed g))) @
     (writer_len (gw_reserve_reported_at g) @ concat (map write_report (gw_reserve_reported_at g)))"

section \<open>Decoding\<close>

definition bounded_count :: "usize \<Rightarrow> (codec_error, usize) reading" where
  "bounded_count item_size =
     rd_bind reader_u32 (\<lambda>n c.
       if unat n > reader_remaining c div item_size then Err LengthMismatch else Ok (unat n, c))"

definition rd_table ::
  "usize \<Rightarrow> (codec_error, 'x) reading \<Rightarrow> ('x \<Rightarrow> 'y list \<Rightarrow> 'y list) \<Rightarrow> (codec_error, 'y list) reading" where
  "rd_table item_size item ins =
     rd_bind (bounded_count item_size) (\<lambda>count.
     rd_loop count (\<lambda>acc. rd_bind item (\<lambda>x. rd_return (ins x acc))) [])"

definition rd_bool :: "(codec_error, bool) reading" where
  "rd_bool = rd_bind reader_u8 (\<lambda>b.
     if b = 0 then rd_return False else if b = 1 then rd_return True else rd_fail (UnknownTag b))"

definition rd_ticket :: "(codec_error, exit_ticket) reading" where
  "rd_ticket =
     rd_bind reader_u64 (\<lambda>exit_id.
     rd_bind reader_array16 (\<lambda>asset_id.
     rd_bind reader_u128 (\<lambda>amount.
     rd_bind reader_array32 (\<lambda>destination.
     rd_bind reader_u64 (\<lambda>unlock_height.
     rd_return \<lparr>et_exit_id = exit_id, et_asset_id = asset_id, et_amount = amount,
       et_destination = destination, et_unlock_height = unlock_height\<rparr>)))))"

definition rd_corridor :: "(codec_error, u32 \<times> corridor_config) reading" where
  "rd_corridor =
     rd_bind reader_u32 (\<lambda>source_chain.
     rd_bind reader_u32 (\<lambda>confirmation_depth.
     rd_bind reader_u32 (\<lambda>quorum.
     rd_bind reader_u8 (\<lambda>tier.
     rd_bind rd_bool (\<lambda>active.
     rd_return (source_chain, \<lparr>cc_confirmation_depth = confirmation_depth, cc_quorum = unat quorum,
       cc_tier = tier, cc_active = active\<rparr>))))))"

abbreviation put_entry :: "'k::linorder \<times> 'v \<Rightarrow> ('k, 'v) btree_map \<Rightarrow> ('k, 'v) btree_map" where
  "put_entry \<equiv> (\<lambda>(k, v). bt_insert k v)"

abbreviation put_ticket :: "exit_ticket \<Rightarrow> (u64, exit_ticket) btree_map \<Rightarrow> (u64, exit_ticket) btree_map" where
  "put_ticket \<equiv> (\<lambda>t. bt_insert (et_exit_id t) t)"

definition guard_fields :: "(codec_error, guard_state) reading" where
  "guard_fields =
     rd_bind reader_u8 (\<lambda>version.
     if version \<noteq> GUARD_SNAPSHOT_VERSION then rd_fail (BadVersion version) else
     rd_bind rd_bool (\<lambda>global_pause.
     rd_bind reader_u64 (\<lambda>current_height.
     rd_bind reader_u64 (\<lambda>frozen_until.
     rd_bind reader_u64 (\<lambda>lifted_freeze.
     rd_bind reader_u64 (\<lambda>deposit_frozen_until.
     rd_bind reader_u128 (\<lambda>epoch_minted.
     rd_bind (rd_table 36 (rd_pair reader_u32 reader_array32) bs_insert) (\<lambda>used_refs.
     rd_bind (rd_table 32 (rd_pair reader_array16 reader_u128) put_entry) (\<lambda>per_asset_minted.
     rd_bind (rd_table 4 reader_u32 bs_insert) (\<lambda>paused_sources.
     rd_bind (rd_table 12 (rd_pair reader_u32 reader_u64) put_entry) (\<lambda>corridor_cursor.
     rd_bind reader_u64 (\<lambda>current_epoch.
     rd_bind (rd_table 32 (rd_pair reader_array16 reader_u128) put_entry) (\<lambda>per_asset_epoch_minted.
     rd_bind reader_u64 (\<lambda>next_exit_id.
     rd_bind (rd_table 80 rd_ticket put_ticket) (\<lambda>pending_exits.
     rd_bind (rd_table 14 rd_corridor put_entry) (\<lambda>corridors.
     rd_bind (rd_table 12 (rd_pair reader_u32 reader_u64) put_entry) (\<lambda>resumed_at.
     rd_bind (rd_table 12 (rd_pair reader_u32 reader_u64) put_entry) (\<lambda>watchdog_last.
     rd_bind reader_u64 (\<lambda>global_paused_at.
     rd_bind reader_u64 (\<lambda>global_resumed_at.
     rd_bind reader_u64 (\<lambda>audit_seq.
     rd_bind reader_array32 (\<lambda>audit_head.
     rd_bind (rd_table 32 (rd_pair reader_array16 reader_u128) put_entry) (\<lambda>escrowed.
     rd_bind (rd_table 24 (rd_pair reader_array16 reader_u64) put_entry) (\<lambda>reserve_reported_at.
     rd_return \<lparr>
       gs_global_pause = global_pause, gs_current_height = current_height,
       gs_frozen_until = frozen_until, gs_lifted_freeze = lifted_freeze,
       gs_deposit_frozen_until = deposit_frozen_until, gs_epoch_minted = epoch_minted,
       gs_used_refs = used_refs, gs_per_asset_minted = per_asset_minted,
       gs_paused_sources = paused_sources, gs_corridor_cursor = corridor_cursor,
       gs_current_epoch = current_epoch, gs_per_asset_epoch_minted = per_asset_epoch_minted,
       gs_next_exit_id = next_exit_id, gs_pending_exits = pending_exits, gs_corridors = corridors,
       gs_resumed_at = resumed_at, gs_watchdog_last = watchdog_last,
       gs_global_paused_at = global_paused_at, gs_global_resumed_at = global_resumed_at,
       gs_audit_seq = audit_seq, gs_audit_head = audit_head, gs_escrowed = escrowed,
       gs_reserve_reported_at = reserve_reported_at\<rparr>))))))))))))))))))))))))"

definition decode_guard :: "bytes \<Rightarrow> (codec_error, guard_state) res" where
  "decode_guard bs =
     and_then (guard_fields (cursor_new bs)) (\<lambda>(st, c).
     and_then (reader_finish c) (\<lambda>_. Ok st))"

text \<open>The loop over the saved corridors: settings only tighten, and only of registered corridors.\<close>

definition tighten :: "corridor_config \<Rightarrow> corridor_config \<Rightarrow> corridor_config" where
  "tighten current saved =
     \<lparr>cc_confirmation_depth = max (cc_confirmation_depth current) (cc_confirmation_depth saved),
      cc_quorum = max (cc_quorum current) (cc_quorum saved),
      cc_tier = max (cc_tier current) (cc_tier saved),
      cc_active = (cc_active current \<and> cc_active saved)\<rparr>"

definition merge_corridor ::
  "u32 \<times> corridor_config \<Rightarrow> (u32, corridor_config) btree_map \<Rightarrow> (u32, corridor_config) btree_map" where
  "merge_corridor = (\<lambda>(source_chain, saved) m.
     case bt_get m source_chain of
       Some current \<Rightarrow> bt_insert source_chain (tighten current saved) m
     | None \<Rightarrow> m)"

definition rehydrate_guard :: "bytes \<Rightarrow> 'pk gateway \<Rightarrow> 'pk gateway \<times> (codec_error, unit) res" where
  "rehydrate_guard bs g =
     and_then_st (decode_guard bs) g (\<lambda>st.
     let g1 = advance_to (gs_current_height st) (g\<lparr>gw_global_pause := gs_global_pause st\<rparr>) in
     (g1\<lparr>gw_frozen_until := gs_frozen_until st,
         gw_lifted_freeze := gs_lifted_freeze st,
         gw_deposit_frozen_until := gs_deposit_frozen_until st,
         gw_epoch_minted := gs_epoch_minted st,
         gw_used_refs := gs_used_refs st,
         gw_refs_any_chain := fold (\<lambda>(c, r). bs_insert r) (gs_used_refs st) [],
         gw_per_asset_minted := gs_per_asset_minted st,
         gw_paused_sources := gs_paused_sources st,
         gw_paused_since := fold (\<lambda>source. bt_insert source (gs_current_height st)) (gs_paused_sources st) [],
         gw_corridor_cursor := gs_corridor_cursor st,
         gw_current_epoch := gs_current_epoch st,
         gw_per_asset_epoch_minted := gs_per_asset_epoch_minted st,
         gw_next_exit_id := gs_next_exit_id st,
         gw_pending_exits := gs_pending_exits st,
         gw_resumed_at := gs_resumed_at st,
         gw_watchdog_last := gs_watchdog_last st,
         gw_global_paused_at := gs_global_paused_at st,
         gw_global_resumed_at := gs_global_resumed_at st,
         gw_audit_seq := gs_audit_seq st,
         gw_audit_head := gs_audit_head st,
         gw_escrowed := gs_escrowed st,
         gw_reserve_reported_at := gs_reserve_reported_at st,
         gw_admin_records := [],
         gw_corridors := fold merge_corridor (gs_corridors st) (gw_corridors g1)\<rparr>, Ok ()))"

section \<open>Tables\<close>

locale sized_codec = field_codec dec enc valid
  for dec :: "(codec_error, 'x) reading" and enc valid +
  fixes item_size :: nat
  assumes size_pos: "0 < item_size" and enc_size: "valid a \<Longrightarrow> length (enc a) = item_size"
begin

lemma length_entries: "\<forall>x\<in>set xs. valid x \<Longrightarrow> length (concat (map enc xs)) = length xs * item_size"
  by (induction xs) (auto simp: enc_size)

lemma reads_table:
  assumes "\<forall>x\<in>set xs. valid x" "length xs < 2 ^ 32" "ys = fold ins xs []"
    "bs = writer_len xs' @ concat (map enc xs)" "length xs' = length xs"
  shows "reads (rd_table item_size dec ins) ys bs"
  unfolding reads_def
proof (intro allI impI)
  fix c s assume c: "cur_ok c \<and> rest c = bs @ s"
  then have c': "cur_ok c" "rest c = writer_u32 (word_of_nat (length xs)) @ (concat (map enc xs) @ s)"
    using assms(4,5) by (auto simp: writer_len_def)
  from readsD [OF u32_field.complete [OF TrueI] this] obtain c1 where
    c1: "reader_u32 c = Ok (word_of_nat (length xs), c1)" "cur_ok c1" "cbuf c1 = cbuf c"
      "rest c1 = concat (map enc xs) @ s" .
  have n: "unat (word_of_nat (length xs) :: u32) = length xs" using assms(2) by (simp add: unat_of_nat)
  have "reader_remaining c1 = length xs * item_size + length s"
    using c1(4) length_entries [OF assms(1)] length_rest [of c1] by (simp add: reader_remaining_def)
  then have "length xs \<le> reader_remaining c1 div item_size"
    using size_pos by (simp add: less_eq_div_iff_mult_less_eq)
  then have "bounded_count item_size c = Ok (length xs, c1)"
    by (simp add: bounded_count_def rd_bind_def c1(1) n)
  moreover from readsD [OF reads_loop [OF assms(1), of ins "[]"] c1(2,4)] obtain c2 where
    "rd_loop (length xs) (\<lambda>acc. rd_bind dec (\<lambda>x. rd_return (ins x acc))) [] c1 = Ok (fold ins xs [], c2)"
    "cur_ok c2" "cbuf c2 = cbuf c1" "rest c2 = s" .
  ultimately show "\<exists>c'. rd_table item_size dec ins c = Ok (ys, c') \<and> cur_ok c' \<and> cbuf c' = cbuf c \<and> rest c' = s"
    using assms(3) c1(3) by (auto simp: rd_table_def rd_bind_def)
qed

lemma safe_table: "safe (rd_table item_size dec ins)"
proof -
  have "safe (bounded_count item_size)"
    unfolding bounded_count_def
    by (intro safe_bind u32_field.safe) (auto simp: safe_def)
  then show ?thesis unfolding rd_table_def by (intro safe_intros safe)
qed

end

interpretation ref_item: codec_pair reader_u32 writer_u32 "\<lambda>_. True" reader_array32 writer_fixed "\<lambda>a. length a = 32"
  by unfold_locales

interpretation amount_item: codec_pair reader_array16 writer_fixed "\<lambda>a. length a = 16" reader_u128 writer_u128 "\<lambda>_. True"
  by unfold_locales

interpretation height_item: codec_pair reader_u32 writer_u32 "\<lambda>_. True" reader_u64 writer_u64 "\<lambda>_. True"
  by unfold_locales

interpretation report_item: codec_pair reader_array16 writer_fixed "\<lambda>a. length a = 16" reader_u64 writer_u64 "\<lambda>_. True"
  by unfold_locales

interpretation bool_field: field_codec rd_bool writer_bool "\<lambda>_. True"
proof unfold_locales
  show "reads rd_bool b (writer_bool b)" for b
    unfolding rd_bool_def writer_bool_def
    by (rule reads_bind_last [OF u8_field.complete [OF TrueI]]) (auto intro: reads_return)
  show "parses rd_bool (\<lambda>b bs. True \<and> bs = writer_bool b)"
    unfolding rd_bool_def
    by (rule parses_bind [OF u8_field.sound]) (auto simp: writer_bool_def intro!: parses_intros)
  show "safe rd_bool" unfolding rd_bool_def by (intro safe_intros)
qed

definition ticket_wf :: "exit_ticket \<Rightarrow> bool" where
  "ticket_wf t \<longleftrightarrow> length (et_asset_id t) = 16 \<and> length (et_destination t) = 32"

definition corridor_wf :: "u32 \<times> corridor_config \<Rightarrow> bool" where
  "corridor_wf = (\<lambda>(source_chain, c). cc_quorum c < 2 ^ 32)"

interpretation ticket_item: field_codec rd_ticket write_ticket ticket_wf
proof unfold_locales
  show "reads rd_ticket t (write_ticket t)" if "ticket_wf t" for t
    unfolding rd_ticket_def write_ticket_def
    by (intro field_reads field_reads_last reads_returnI) (use that in \<open>simp_all add: ticket_wf_def\<close>)
  show "parses rd_ticket (\<lambda>t bs. ticket_wf t \<and> bs = write_ticket t)"
    unfolding rd_ticket_def by (intro parses_intros) (simp_all add: write_ticket_def ticket_wf_def)
  show "safe rd_ticket" unfolding rd_ticket_def by (intro safe_intros)
qed

interpretation corridor_item: field_codec rd_corridor write_corridor corridor_wf
proof unfold_locales
  show "reads rd_corridor p (write_corridor p)" if "corridor_wf p" for p
  proof -
    obtain s c where p: "p = (s, c)" by (cases p)
    have "unat (word_of_nat (cc_quorum c) :: u32) = cc_quorum c"
      using that by (simp add: corridor_wf_def p unat_of_nat)
    then show ?thesis
      unfolding rd_corridor_def write_corridor_def p prod.case
      by (intro field_reads reads_bind_last [OF bool_field.complete [OF TrueI]] reads_returnI) simp
  qed
  have less: "unat (q :: u32) < 4294967296" for q using unsigned_less [of q] by simp
  show "parses rd_corridor (\<lambda>p bs. corridor_wf p \<and> bs = write_corridor p)"
    unfolding rd_corridor_def
    by (intro parses_intros parses_bind [OF bool_field.sound])
      (simp_all add: write_corridor_def corridor_wf_def less)
  show "safe rd_corridor" unfolding rd_corridor_def by (intro safe_intros bool_field.safe)
qed

interpretation ref_table: sized_codec "rd_pair reader_u32 reader_array32"
  "\<lambda>(a, b). writer_u32 a @ writer_fixed b" "\<lambda>(a, b). True \<and> length b = 32" 36
  by unfold_locales (auto simp: writer_defs)

interpretation amount_table: sized_codec "rd_pair reader_array16 reader_u128"
  "\<lambda>(a, b). writer_fixed a @ writer_u128 b" "\<lambda>(a, b). length a = 16 \<and> True" 32
  by unfold_locales (auto simp: writer_defs)

interpretation chain_table: sized_codec reader_u32 writer_u32 "\<lambda>_. True" 4
  by unfold_locales (auto simp: writer_defs)

interpretation height_table: sized_codec "rd_pair reader_u32 reader_u64"
  "\<lambda>(a, b). writer_u32 a @ writer_u64 b" "\<lambda>(a, b). True \<and> True" 12
  by unfold_locales (auto simp: writer_defs)

interpretation report_table: sized_codec "rd_pair reader_array16 reader_u64"
  "\<lambda>(a, b). writer_fixed a @ writer_u64 b" "\<lambda>(a, b). length a = 16 \<and> True" 24
  by unfold_locales (auto simp: writer_defs)

interpretation ticket_table: sized_codec rd_ticket write_ticket ticket_wf 80
  by unfold_locales (auto simp: writer_defs write_ticket_def ticket_wf_def)

interpretation corridor_table: sized_codec rd_corridor write_corridor corridor_wf 14
  by unfold_locales (auto simp: writer_defs write_corridor_def writer_bool_def)

lemma reads_refs:
  assumes "bs_wf m" "length m < 2 ^ 32" "\<forall>(c, r)\<in>set m. length r = 32"
  shows "reads (rd_table 36 (rd_pair reader_u32 reader_array32) bs_insert) m
    (writer_len m @ concat (map write_ref m))"
  using assms fold_bs_insert [of "[]" m]
  by (intro ref_table.reads_table [of m]) (auto simp: write_ref_def)

lemma reads_chains:
  assumes "bs_wf m" "length m < 2 ^ 32"
  shows "reads (rd_table 4 reader_u32 bs_insert) m (writer_len m @ concat (map writer_u32 m))"
  using assms fold_bs_insert [of "[]" m] by (intro chain_table.reads_table [of m]) auto

lemma reads_amounts:
  assumes "bt_wf m" "length m < 2 ^ 32" "\<forall>(a, v)\<in>set m. length a = 16"
  shows "reads (rd_table 32 (rd_pair reader_array16 reader_u128) put_entry) m
    (writer_len m @ concat (map write_amount m))"
  using assms fold_bt_insert [of "[]" m]
  by (intro amount_table.reads_table [of m]) (auto simp: write_amount_def)

lemma reads_heights:
  assumes "bt_wf m" "length m < 2 ^ 32"
  shows "reads (rd_table 12 (rd_pair reader_u32 reader_u64) put_entry) m
    (writer_len m @ concat (map write_height m))"
  using assms fold_bt_insert [of "[]" m]
  by (intro height_table.reads_table [of m]) (auto simp: write_height_def)

lemma reads_reports:
  assumes "bt_wf m" "length m < 2 ^ 32" "\<forall>(a, v)\<in>set m. length a = 16"
  shows "reads (rd_table 24 (rd_pair reader_array16 reader_u64) put_entry) m
    (writer_len m @ concat (map write_report m))"
  using assms fold_bt_insert [of "[]" m]
  by (intro report_table.reads_table [of m]) (auto simp: write_report_def)

lemma reads_corridors:
  assumes "bt_wf m" "length m < 2 ^ 32" "\<forall>p\<in>set m. corridor_wf p"
  shows "reads (rd_table 14 rd_corridor put_entry) m (writer_len m @ concat (map write_corridor m))"
  using assms fold_bt_insert [of "[]" m] by (intro corridor_table.reads_table [of m]) auto

lemma reads_tickets:
  assumes "bt_wf m" "length m < 2 ^ 32" "\<forall>(i, t)\<in>set m. ticket_wf t \<and> et_exit_id t = i"
  shows "reads (rd_table 80 rd_ticket put_ticket) m (writer_len m @ concat (map write_ticket (map snd m)))"
proof (rule ticket_table.reads_table [of "map snd m"])
  have "fold put_ticket (map snd m) acc = fold put_entry m acc" for acc
    using assms(3) by (induction m arbitrary: acc) auto
  then show "m = fold put_ticket (map snd m) []" using fold_bt_insert [of "[]" m] assms(1) by simp
qed (use assms in auto)

section \<open>The snapshot round trip\<close>

definition guard_of :: "'pk gateway \<Rightarrow> guard_state" where
  "guard_of g = \<lparr>
     gs_global_pause = gw_global_pause g, gs_current_height = gw_current_height g,
     gs_frozen_until = gw_frozen_until g, gs_lifted_freeze = gw_lifted_freeze g,
     gs_deposit_frozen_until = gw_deposit_frozen_until g, gs_epoch_minted = gw_epoch_minted g,
     gs_used_refs = gw_used_refs g, gs_per_asset_minted = gw_per_asset_minted g,
     gs_paused_sources = gw_paused_sources g, gs_corridor_cursor = gw_corridor_cursor g,
     gs_current_epoch = gw_current_epoch g, gs_per_asset_epoch_minted = gw_per_asset_epoch_minted g,
     gs_next_exit_id = gw_next_exit_id g, gs_pending_exits = gw_pending_exits g,
     gs_corridors = gw_corridors g, gs_resumed_at = gw_resumed_at g,
     gs_watchdog_last = gw_watchdog_last g, gs_global_paused_at = gw_global_paused_at g,
     gs_global_resumed_at = gw_global_resumed_at g, gs_audit_seq = gw_audit_seq g,
     gs_audit_head = gw_audit_head g, gs_escrowed = gw_escrowed g,
     gs_reserve_reported_at = gw_reserve_reported_at g\<rparr>"

text \<open>What the Rust types say of the tables beyond their order: the arrays have their lengths, a queue
  entry its own key, and the counts and quorums fit in 32 bits.\<close>

definition assets16 :: "(bytes \<times> 'v) list \<Rightarrow> bool" where
  "assets16 m \<longleftrightarrow> (\<forall>(a, v)\<in>set m. length a = 16)"

definition guard_shaped :: "'pk gateway \<Rightarrow> bool" where
  "guard_shaped g \<longleftrightarrow>
     (\<forall>(c, r)\<in>set (gw_used_refs g). length r = 32) \<and> assets16 (gw_per_asset_minted g) \<and>
     assets16 (gw_per_asset_epoch_minted g) \<and> assets16 (gw_escrowed g) \<and>
     assets16 (gw_reserve_reported_at g) \<and> length (gw_audit_head g) = 32 \<and>
     (\<forall>(i, t)\<in>set (gw_pending_exits g). ticket_wf t) \<and> (\<forall>p\<in>set (gw_corridors g). corridor_wf p) \<and>
     length (gw_used_refs g) < 2 ^ 32 \<and> length (gw_per_asset_minted g) < 2 ^ 32 \<and>
     length (gw_paused_sources g) < 2 ^ 32 \<and> length (gw_corridor_cursor g) < 2 ^ 32 \<and>
     length (gw_per_asset_epoch_minted g) < 2 ^ 32 \<and> length (gw_corridors g) < 2 ^ 32 \<and>
     length (gw_resumed_at g) < 2 ^ 32 \<and> length (gw_watchdog_last g) < 2 ^ 32 \<and>
     length (gw_escrowed g) < 2 ^ 32 \<and> length (gw_reserve_reported_at g) < 2 ^ 32"

lemma guard_fields_reads:
  assumes "gw_inv g" "guard_shaped g"
  shows "reads guard_fields (guard_of g) (encode_guard g)"
proof -
  let ?p = "gw_pending_exits g"
  have "\<forall>(i, t)\<in>set ?p. et_exit_id t = i" "length ?p < 2 ^ 32"
    using assms(1) bt_wf_distinct [of ?p]
    by (auto simp: gw_inv_def exits_wf_def tables_wf_def bt_get_def MAX_PENDING_EXITS_def)
  then have tickets: "\<forall>(i, t)\<in>set ?p. ticket_wf t \<and> et_exit_id t = i" "length ?p < 2 ^ 32"
    using assms(2) by (auto simp: guard_shaped_def)
  show ?thesis
    unfolding guard_fields_def encode_guard_def
    apply (rule field_reads)
    apply (simp only: simp_thms if_False)
    apply (intro field_reads reads_bind [OF bool_field.complete [OF TrueI]] reads_bind [OF reads_refs]
        reads_bind [OF reads_amounts] reads_bind [OF reads_chains] reads_bind [OF reads_heights]
        reads_bind [OF reads_tickets] reads_bind [OF reads_corridors] reads_bind_last [OF reads_reports]
        reads_returnI)
    using assms tickets
    apply (simp_all add: gw_inv_def control_wf_def tables_wf_def guard_shaped_def assets16_def guard_of_def)
    done
qed

lemma guard_fields_safe: "safe guard_fields"
  unfolding guard_fields_def
  by (intro safe_intros bool_field.safe ref_table.safe_table amount_table.safe_table chain_table.safe_table
      height_table.safe_table report_table.safe_table ticket_table.safe_table corridor_table.safe_table)

lemma decode_encode_guard:
  assumes "gw_inv g" "guard_shaped g" "length (encode_guard g) \<le> usize_max"
  shows "decode_guard (encode_guard g) = Ok (guard_of g)"
proof -
  from reads_whole [OF guard_fields_reads [OF assms(1,2)] assms(3)] obtain c
    where "guard_fields (cursor_new (encode_guard g)) = Ok (guard_of g, c)" "cpos c = length (cbuf c)" .
  then show ?thesis by (simp add: decode_guard_def reader_finish_def)
qed

lemma decode_guard_not_Panic:
  assumes "length bs \<le> usize_max"
  shows "decode_guard bs \<noteq> Panic"
  using safe_Panic [OF guard_fields_safe, of "cursor_new bs"] assms
  by (auto simp: decode_guard_def reader_finish_def and_then_Panic_iff)

section \<open>Rehydration\<close>

definition budgets_of :: "'pk gateway \<Rightarrow> _" where
  "budgets_of g = (gw_per_asset_cap g, gw_per_asset_epoch_cap g, gw_epoch_cap g)"

lemma fold_any_chain:
  "set (fold (\<lambda>(c, r). bs_insert r) xs acc) = snd ` set xs \<union> set acc"
  "bs_wf acc \<Longrightarrow> bs_wf (fold (\<lambda>(c, r). bs_insert r) xs acc)"
  by (induction xs arbitrary: acc) auto

lemma fold_since_wf: "bt_wf acc \<Longrightarrow> bt_wf (fold (\<lambda>source. bt_insert source h) xs acc)"
  by (induction xs arbitrary: acc) auto

lemma merge_corridor_wf: "bt_wf m \<Longrightarrow> bt_wf (merge_corridor p m)"
  by (cases p) (simp add: merge_corridor_def split: option.splits)

lemma fold_merge_wf: "bt_wf m \<Longrightarrow> bt_wf (fold merge_corridor xs m)"
  by (induction xs arbitrary: m) (auto simp: merge_corridor_wf)

lemma merge_corridor_get:
  "bt_get (merge_corridor (k, v) m) c =
     (if c = k then map_option (\<lambda>current. tighten current v) (bt_get m k) else bt_get m c)"
  by (auto simp: merge_corridor_def bt_get_insert split: option.splits)

lemma fold_merge_get:
  assumes "distinct (map fst saved)"
  shows "bt_get (fold merge_corridor saved m) c =
    (case bt_get m c of None \<Rightarrow> None
     | Some current \<Rightarrow> (case bt_get saved c of None \<Rightarrow> Some current | Some sv \<Rightarrow> Some (tighten current sv)))"
  using assms
proof (induction saved arbitrary: m)
  case Nil
  then show ?case by (simp add: bt_get_def split: option.splits)
next
  case (Cons p saved)
  obtain k v where p: "p = (k, v)" by (cases p)
  have "k = c \<Longrightarrow> bt_get saved c = None"
    using Cons.prems p by (auto simp: bt_get_def map_of_eq_None_iff)
  moreover have "bt_get (p # saved) c = (if c = k then Some v else bt_get saved c)"
    by (simp add: p bt_get_def)
  ultimately show ?case
    using Cons.prems p
    by (auto simp: Cons.IH merge_corridor_get split: option.splits)
qed

lemma rehydrate_restores:
  assumes "gw_inv g" "guard_shaped g" "length (encode_guard g) \<le> usize_max"
    and "control_wf g0" "budgets_of g0 = budgets_of g"
  obtains h where "rehydrate_guard (encode_guard g) g0 = (h, Ok ())" "gw_inv h" "ledger_of h = ledger_of g"
    "guard_of h = (guard_of g)\<lparr>gs_current_height := max (gw_current_height g0) (gw_current_height g),
       gs_corridors := fold merge_corridor (gw_corridors g) (gw_corridors g0)\<rparr>"
    "gw_operators h = gw_operators g0 \<and> gw_reserve_max_age h = gw_reserve_max_age g0 \<and> gw_admin_records h = []"
proof -
  let ?h = "fst (rehydrate_guard (encode_guard g) g0)"
  have wf: "control_wf g" "control_wf g0" "tables_wf g" using assms(1,4) by (auto simp: gw_inv_def)
  have any: "gw_refs_any_chain g = fold (\<lambda>(c, r). bs_insert r) (gw_used_refs g) []"
    using assms(1) wf(3) fold_any_chain [of "gw_used_refs g" "[]"]
    by (intro bs.ext) (auto simp: gw_inv_def refs_wf_def tables_wf_def bs_contains_def
        fold_any_chain(2) [OF bs_wf_Nil])
  have adv: "gw_current_height (advance_to x g1) = max (gw_current_height g1) x" for x and g1 :: "'a gateway"
    by (simp add: advance_to_def)
  note ok = decode_encode_guard [OF assms(1-3)]
  have re: "rehydrate_guard (encode_guard g) g0 = (?h, Ok ())"
    by (simp add: rehydrate_guard_def ok Let_def)
  have ledger: "ledger_of ?h = ledger_of g"
    using assms(5) any unfolding rehydrate_guard_def ok
    by (simp add: Let_def ledger_of_def guard_of_def budgets_of_def advance_to_def)
  have guard: "guard_of ?h = (guard_of g)\<lparr>gs_current_height := max (gw_current_height g0) (gw_current_height g),
       gs_corridors := fold merge_corridor (gw_corridors g) (gw_corridors g0)\<rparr>"
    unfolding rehydrate_guard_def ok by (simp add: Let_def guard_of_def adv) (simp add: advance_to_def)
  have rest: "gw_operators ?h = gw_operators g0 \<and> gw_reserve_max_age ?h = gw_reserve_max_age g0 \<and> gw_admin_records ?h = []"
    unfolding rehydrate_guard_def ok by (simp add: Let_def advance_to_def)
  have "control_wf ?h"
    using wf fold_merge_wf fold_since_wf [of "[]"] unfolding rehydrate_guard_def ok
    by (simp add: Let_def control_wf_def guard_of_def advance_to_def)
  then have "gw_inv ?h" using gw_inv_ledger [OF ledger assms(1)] by blast
  then show thesis using that re ledger guard rest by blast
qed

lemma ledger_budgets: "ledger_of g' = ledger_of g \<Longrightarrow> budgets_of g' = budgets_of g"
  by (simp add: ledger_of_def budgets_of_def)

lemmas budgets_kept = quiet_orders [THEN conjunct1, THEN ledger_budgets]
  quiet_watchdog [THEN conjunct1, THEN ledger_budgets]

lemma budgets_kept_setters:
  "budgets_of (advance_to x g) = budgets_of g" "budgets_of (advance_epoch_to e g) = budgets_of g"
  "budgets_of (pause_source_direct c g) = budgets_of g" "budgets_of (unpause_source c g) = budgets_of g"
  "budgets_of (pause_all g) = budgets_of g" "budgets_of (unpause_all g) = budgets_of g"
  "budgets_of (set_escrow a m g) = budgets_of g" "budgets_of (register_corridor c d g) = budgets_of g"
  "budgets_of (set_corridor_active c b g) = budgets_of g" "budgets_of (set_governance ops g) = budgets_of g"
  "budgets_of (set_exit_delay dl g) = budgets_of g" "budgets_of (require_reserve_reports n g) = budgets_of g"
  "budgets_of (settle_admin_records q w g) = budgets_of g" "budgets_of (credit cr r a m g) = budgets_of g"
  by (auto simp: budgets_of_def quiet_defs credit_def record_asset_epoch_def advance_epoch_to_def Let_def
      split: option.splits)

lemma budgets_kept_exits:
  "request_exit a m d g = (g', Ok t) \<Longrightarrow> budgets_of g' = budgets_of g"
  "finalize_exit i g = (g', Ok t) \<Longrightarrow> budgets_of g' = budgets_of g"
  "cancel_exit i g = (g', Ok t) \<Longrightarrow> budgets_of g' = budgets_of g"
  using request_exit_Ok(6) [of a m d g g' t]
  by (auto simp: budgets_of_def finalize_exit_Ok cancel_exit_Ok touch_guard_def)

lemma call_budgets:
  assumes "gw_inv g" "gw_call md c g = (g', Ok evs)"
  shows "budgets_of g' = budgets_of g"
  using assms(2)
  by (cases c) (auto simp: apsnd_map_ok_Ok process_deposit_Ok [OF assms(1)] admit_trustless_Ok [OF assms(1)]
      budgets_kept_setters elim!: advance_epoch_Ok dest: budgets_kept budgets_kept_exits)

lemma runs_budgets:
  assumes "runs (gw_call md) g evs g'" "gw_inv g"
  shows "budgets_of g' = budgets_of g"
  using assms
  by (rule gwc.ic.runs_along [where R = "\<lambda>g g'. budgets_of g' = budgets_of g"])
    (auto dest: call_budgets gw_call_err)

section \<open>Properties\<close>

lemma sample_shaped:
  "guard_shaped sample_gateway" "guard_shaped credited_sample"
  by (simp_all add: guard_shaped_def credited_sample_def credit_def gateway_eval minted_of_asset_def
      assets16_def corridor_wf_def)

lemma sample_size: "length (encode_guard credited_sample) \<le> usize_max" "length (encode_guard sample_gateway) \<le> usize_max"
  by (simp_all add: encode_guard_def writer_defs writer_len_def writer_bool_def credited_sample_def credit_def
      gateway_eval minted_of_asset_def write_ref_def write_amount_def write_corridor_def)

text \<open>C25: a snapshot loses nothing it is meant to keep: decoding the encoding of a gateway gives back
  every guarded field, table by table, and no input whatever, cut short, extended or forged, makes
  the decoder panic or changes the gateway when it is refused.\<close>

theorem guard_snapshot_roundtrip:
  assumes "gw_inv g" "guard_shaped g" "length (encode_guard g) \<le> usize_max" "length bs \<le> usize_max"
  shows "decode_guard (encode_guard g) = Ok (guard_of g) \<and> decode_guard bs \<noteq> Panic \<and>
    (rehydrate_guard bs g0 = (h, Err e) \<longrightarrow> h = g0)"
  using decode_encode_guard [OF assms(1-3)] decode_guard_not_Panic [OF assms(4)]
  by (auto simp: rehydrate_guard_def and_then_st_case Let_def split: res.splits)

theorem guard_snapshot_roundtrip_witness:
  "decode_guard (encode_guard credited_sample) = Ok (guard_of credited_sample) \<and>
   decode_guard [10, 2] \<noteq> Panic"
  using guard_snapshot_roundtrip [OF credited_sample_inv sample_shaped(2) sample_size(1),
      of "[10, 2]" sample_gateway sample_gateway ShortInput]
  by simp

text \<open>The node around the gateway: before a call it takes a snapshot; a call that panics, or whose result cannot be
  written to disk, is undone by restoring the snapshot, and a refused call is left as it is. The list of states
  are those whose snapshots were restored, the events those of the calls that were kept.\<close>

inductive node_runs ::
  "'pk ml_dsa \<Rightarrow> 'pk gateway \<Rightarrow> 'pk gateway list \<Rightarrow> gateway_event list \<Rightarrow> 'pk gateway \<Rightarrow> bool"
  for md g where
  node_start: "node_runs md g [] [] g"
| node_kept: "node_runs md g snaps evs s \<Longrightarrow> gw_call md c s = (s', Ok new) \<Longrightarrow> node_runs md g snaps (evs @ new) s'"
| node_refused: "node_runs md g snaps evs s \<Longrightarrow> gw_call md c s = (s', Err e) \<Longrightarrow> node_runs md g snaps evs s'"
| node_undone: "node_runs md g snaps evs s \<Longrightarrow> gw_call md c s = (s', r) \<Longrightarrow> (\<And>e. r \<noteq> Err e) \<Longrightarrow>
    rehydrate_guard (encode_guard s) s' = (s'', q) \<Longrightarrow> node_runs md g (snaps @ [s]) evs s''"

lemma panic_leaves:
  assumes "gw_call md c g = (g', Panic)" "control_wf g"
  shows "control_wf g' \<and> budgets_of g' = budgets_of g"
  using assms gw_call_panic [OF assms(1)]
  by (auto simp: advance_epoch_def request_exit_def accept_batch_def and_then_st_case Let_def budgets_of_def control_wf_def
      map_ok_Panic_iff split: op_splits)

lemma node_undoes:
  assumes "gw_inv s" "guard_shaped s" "length (encode_guard s) \<le> usize_max"
    and "gw_call md c s = (s', r)" "\<And>e. r \<noteq> Err e" "rehydrate_guard (encode_guard s) s' = (s'', q)"
  shows "gw_inv s'' \<and> ledger_of s'' = ledger_of s"
proof -
  have "control_wf s' \<and> budgets_of s' = budgets_of s"
  proof (cases r)
    case (Ok new)
    then have call: "gw_call md c s = (s', Ok new)" using assms(4) by simp
    from gwc.ok_keeps [OF assms(1) call] call_budgets [OF assms(1) call] show ?thesis by (simp add: gw_inv_def)
  next
    case Panic
    with assms(1,4) panic_leaves show ?thesis by (auto simp: gw_inv_def)
  qed (use assms(5) in simp)
  with rehydrate_restores [OF assms(1-3), of s'] obtain h where
    "rehydrate_guard (encode_guard s) s' = (h, Ok ())" "gw_inv h" "ledger_of h = ledger_of s" by metis
  with assms(6) show ?thesis by simp
qed

text \<open>C18: the node is a faithful ledger, failed writes included: after any calls in any order, each of them kept, refused, or
  undone from a snapshot because it panicked or could not be written, the calls that were kept are a history
  the abstract ledger allows, in which the undone ones left no trace, and the gateway keeps its invariant: the tables are
  sorted maps, the queue holds only issued exits under their own ids, the two reference sets agree, and every budget
  holds. The snapshots that are restored must be within the limits of their format: identifiers of their fixed
  lengths and fewer than \<open>2 ^ 32\<close> entries in each table.\<close>

theorem gateway_refines_ledger:
  assumes "node_runs md g snaps evs g'" "gw_inv g"
    and "\<forall>s\<in>set snaps. guard_shaped s \<and> length (encode_guard s) \<le> usize_max"
  shows "apply_all (ledger_apply (bt_get (gw_per_asset_cap g))) evs (gw_abs g) = Some (gw_abs g') \<and> gw_inv g'"
proof -
  have "apply_all (ledger_apply (bt_get (gw_per_asset_cap g))) evs (gw_abs g) = Some (gw_abs g') \<and> gw_inv g' \<and>
      budgets_of g' = budgets_of g"
    using assms(1,3)
  proof (induction rule: node_runs.induct)
    case node_start
    then show ?case using assms(2) by simp
  next
    case (node_kept snaps evs s c s' new)
    then have s: "gw_inv s" "apply_all (ledger_apply (bt_get (gw_per_asset_cap g))) evs (gw_abs g) = Some (gw_abs s)"
      "budgets_of s = budgets_of g" by auto
    then have "bt_get (gw_per_asset_cap s) = bt_get (gw_per_asset_cap g)" by (simp add: budgets_of_def)
    with gwc.refines [OF s(1) node_kept.hyps(2)]
    have "apply_all (ledger_apply (bt_get (gw_per_asset_cap g))) new (gw_abs s) = Some (gw_abs s')" by simp
    then show ?case
      using s gwc.ok_keeps [OF s(1) node_kept.hyps(2)] call_budgets [OF s(1) node_kept.hyps(2)]
      by (simp add: apply_all_append)
  next
    case (node_refused snaps evs s c s' e)
    then show ?case using gw_call_err by blast
  next
    case (node_undone snaps evs s c s' r s'' q)
    then have s: "gw_inv s" "guard_shaped s" "length (encode_guard s) \<le> usize_max" by auto
    from node_undoes [OF s node_undone.hyps(2-4)] have "gw_inv s''" "ledger_of s'' = ledger_of s" by auto
    with node_undone gw_abs_ledger [of s'' s] ledger_budgets [of s'' s] show ?case by auto
  qed
  then show ?thesis by blast
qed

theorem gateway_refines_ledger_witness:
  "\<exists>h. node_runs echo_scheme sample_gateway [credited_sample] [Minted 1 (replicate 32 9) (replicate 16 3) 1000000] h \<and>
     apply_all (ledger_apply (bt_get (gw_per_asset_cap sample_gateway))) [Minted 1 (replicate 32 9) (replicate 16 3) 1000000]
       (gw_abs sample_gateway) = Some (gw_abs h) \<and> gw_inv h"
proof -
  have "snd (process_deposit echo_scheme signed_sample sample_gateway) = Ok (receipt_of sample_fact)"
    using sample_precheck
    by (simp add: process_deposit_def) (simp add: signed_sample_def sample_fact_def receipt_of_def gateway_eval)
  then obtain g' where g': "process_deposit echo_scheme signed_sample sample_gateway = (g', Ok (receipt_of sample_fact))"
    by (metis prod.collapse)
  then have "g' = credited_sample"
    using process_deposit_Ok [OF sample_inv] by (auto simp: credited_sample_def signed_sample_def sample_fact_def)
  with g' have "gw_call echo_scheme (Process_Deposit signed_sample) sample_gateway =
      (credited_sample, Ok [Minted 1 (replicate 32 9) (replicate 16 3) 1000000])"
    by (simp add: receipt_of_def sample_fact_def)
  from node_kept [OF node_start this]
  have kept: "node_runs echo_scheme sample_gateway [] [Minted 1 (replicate 32 9) (replicate 16 3) 1000000] credited_sample" by simp
  obtain h q where "rehydrate_guard (encode_guard credited_sample) (pause_all credited_sample) = (h, q)" by fastforce
  from node_undone [OF kept _ _ this, of Pause_All "Ok []"]
  have run: "node_runs echo_scheme sample_gateway [credited_sample] [Minted 1 (replicate 32 9) (replicate 16 3) 1000000] h" by simp
  from gateway_refines_ledger [OF run sample_inv] sample_shaped(2) sample_size(1) run show ?thesis by auto
qed

text \<open>a failed write is taken back: if the gateway is restored from the snapshot made before some
  calls, then whatever those calls did, the ledger is exactly what it was (references, supply,
  budgets, exit queue and ids), every guarded field is back except the height, which never goes
  back, and the invariant holds; only the settings of corridors may stay tighter than they were.\<close>

theorem rollback_takes_back:
  assumes "gw_inv g" "guard_shaped g" "length (encode_guard g) \<le> usize_max"
    and "runs (gw_call md) g evs g'"
  shows "\<exists>h. rehydrate_guard (encode_guard g) g' = (h, Ok ()) \<and> gw_inv h \<and> gw_abs h = gw_abs g \<and>
    ledger_of h = ledger_of g \<and>
    guard_of h = (guard_of g)\<lparr>gs_current_height := gw_current_height g',
      gs_corridors := fold merge_corridor (gw_corridors g) (gw_corridors g')\<rparr>"
proof -
  have inv': "gw_inv g'" using gwc.ic.runs_inv [OF assms(4,1)] .
  have height: "gw_current_height g \<le> gw_current_height g'"
    using runs_evolves [OF assms(4,1)] by (simp add: evolves_def)
  obtain h where "rehydrate_guard (encode_guard g) g' = (h, Ok ())" "gw_inv h" "ledger_of h = ledger_of g"
    "guard_of h = (guard_of g)\<lparr>gs_current_height := max (gw_current_height g') (gw_current_height g),
       gs_corridors := fold merge_corridor (gw_corridors g) (gw_corridors g')\<rparr>"
    using rehydrate_restores [OF assms(1-3) _ runs_budgets [OF assms(4,1)]] inv' by (metis gw_inv_def)
  then show ?thesis using height gw_abs_ledger [of h g] by (auto simp: max_absorb1)
qed

theorem rollback_takes_back_witness:
  "\<exists>h. rehydrate_guard (encode_guard sample_gateway) sample_final = (h, Ok ()) \<and> gw_abs h = gw_abs sample_gateway"
  using rollback_takes_back [OF sample_inv sample_shaped(1) sample_size(2) sample_runs] by blast

text \<open>C26: a restart forgets neither credits nor halts: a freshly booted gateway with the same budgets,
  restored from a snapshot, refuses every reference credited before, carries the same supply and
  exit queue, is paused, frozen and source-paused exactly as before at no lower a height, and no
  corridor it serves is more open, shallower, of a smaller quorum or of a lower tier than it was.\<close>

theorem restart_keeps_guard:
  assumes "gw_inv g" "guard_shaped g" "length (encode_guard g) \<le> usize_max"
    and "booted g0" "budgets_of g0 = budgets_of g"
  shows "\<exists>h. rehydrate_guard (encode_guard g) g0 = (h, Ok ()) \<and> gw_inv h \<and>
    (\<forall>c r. is_reference_used_on h c r \<longleftrightarrow> is_reference_used_on g c r) \<and>
    (\<forall>a. supply_of h a = supply_of g a) \<and> gw_pending_exits h = gw_pending_exits g \<and>
    gw_next_exit_id h = gw_next_exit_id g \<and>
    gw_global_pause h = gw_global_pause g \<and> freeze_horizon h = freeze_horizon g \<and>
    mint_freeze_horizon h = mint_freeze_horizon g \<and> gw_paused_sources h = gw_paused_sources g \<and>
    gw_current_height g \<le> gw_current_height h \<and>
    (\<forall>c saved current. bt_get (gw_corridors g) c = Some saved \<and> bt_get (gw_corridors h) c = Some current \<longrightarrow>
       (cc_active current \<longrightarrow> cc_active saved) \<and> cc_tier saved \<le> cc_tier current \<and>
       cc_quorum saved \<le> cc_quorum current \<and> cc_confirmation_depth saved \<le> cc_confirmation_depth current)"
proof -
  obtain h where h: "rehydrate_guard (encode_guard g) g0 = (h, Ok ())" "gw_inv h" "ledger_of h = ledger_of g"
    "guard_of h = (guard_of g)\<lparr>gs_current_height := max (gw_current_height g0) (gw_current_height g),
       gs_corridors := fold merge_corridor (gw_corridors g) (gw_corridors g0)\<rparr>"
    using rehydrate_restores [OF assms(1-3) _ assms(5)] booted_inv [OF assms(4)] by (metis gw_inv_def)
  have corridors: "gw_corridors h = fold merge_corridor (gw_corridors g) (gw_corridors g0)"
    using h(4) by (simp add: guard_of_def)
  have "distinct (map fst (gw_corridors g))"
    using assms(1) bt_wf_distinct by (auto simp: gw_inv_def control_wf_def)
  from fold_merge_get [OF this, of "gw_corridors g0"] corridors
  have tight: "(cc_active current \<longrightarrow> cc_active saved) \<and> cc_tier saved \<le> cc_tier current \<and>
       cc_quorum saved \<le> cc_quorum current \<and> cc_confirmation_depth saved \<le> cc_confirmation_depth current"
    if "bt_get (gw_corridors g) c = Some saved" "bt_get (gw_corridors h) c = Some current"
    for c saved current
    using that by (auto simp: tighten_def split: option.splits)
  have fields: "gw_global_pause h = gw_global_pause g" "gw_frozen_until h = gw_frozen_until g"
    "gw_lifted_freeze h = gw_lifted_freeze g" "gw_deposit_frozen_until h = gw_deposit_frozen_until g"
    "gw_paused_sources h = gw_paused_sources g" "gw_current_height g \<le> gw_current_height h"
    using h(4) by (simp_all add: guard_of_def)
  have ledger: "gw_used_refs h = gw_used_refs g" "gw_pending_exits h = gw_pending_exits g"
    "gw_next_exit_id h = gw_next_exit_id g" "\<And>a. supply_of h a = supply_of g a"
    using h(3) gw_abs_ledger [OF h(3)] by (simp_all add: ledger_of_def flip: supply_of_abs)
  show ?thesis
    using h(1,2) fields ledger tight
    by (intro exI [of _ h]) (simp add: is_reference_used_on_def freeze_horizon_def mint_freeze_horizon_def, blast)
qed

theorem restart_keeps_guard_witness:
  "\<exists>h. rehydrate_guard (encode_guard credited_sample) sample_gateway = (h, Ok ()) \<and>
     is_reference_used_on h 1 (replicate 32 9)"
proof -
  have "budgets_of sample_gateway = budgets_of credited_sample"
    by (simp add: credited_sample_def budgets_kept_setters)
  moreover have "is_reference_used_on credited_sample 1 (replicate 32 9)"
    by (simp add: is_reference_used_on_def credited_sample_def credit_def gateway_eval)
  ultimately show ?thesis
    using restart_keeps_guard [OF credited_sample_inv sample_shaped(2) sample_size(1) sample_booted] by blast
qed

end
