(* ===== verification/Watchtower.thy ===== *)
theory Watchtower
  imports Gateway_Time
begin

text \<open>
  \<^verbatim>\<open>crates/q-watchtower/src\<close>: the audit of outstanding supply against reserves, which pauses the
  gateway on a breach, and the reorganisation watcher, which pauses a source. The trait
  \<open>ReserveView\<close> is its one method the code calls, \<open>escrow_of\<close>; \<open>StaticReserves\<close> is an instance.
\<close>

record breach =
  br_asset_id :: bytes
  br_minted :: u128
  br_escrowed :: u128

type_synonym reserve_view = "bytes \<Rightarrow> u128"

record static_reserves =
  sr_escrow :: "(bytes, u128) btree_map"

definition static_reserves_new :: static_reserves where
  "static_reserves_new = \<lparr>sr_escrow = []\<rparr>"

definition static_reserves_set :: "bytes \<Rightarrow> u128 \<Rightarrow> static_reserves \<Rightarrow> static_reserves" where
  "static_reserves_set asset_id escrowed r = r\<lparr>sr_escrow := bt_insert asset_id escrowed (sr_escrow r)\<rparr>"

definition static_escrow_of :: "static_reserves \<Rightarrow> reserve_view" where
  "static_escrow_of r asset_id = bt_get_or (sr_escrow r) asset_id 0"

definition static_assets :: "static_reserves \<Rightarrow> bytes list" where
  "static_assets r = map fst (sr_escrow r)"

definition audit :: "(bytes, u128) btree_map \<Rightarrow> reserve_view \<Rightarrow> breach list" where
  "audit minted reserves =
     fold (\<lambda>(asset_id, minted_amount) breaches.
       let escrowed = reserves asset_id in
       if minted_amount > escrowed
       then breaches @ [\<lparr>br_asset_id = asset_id, br_minted = minted_amount, br_escrowed = escrowed\<rparr>]
       else breaches) minted []"

definition enforce :: "reserve_view \<Rightarrow> 'pk gateway \<Rightarrow> 'pk gateway \<times> breach list" where
  "enforce reserves g =
     (let breaches = audit (outstanding_by_asset g) reserves
      in (if breaches \<noteq> [] then pause_all g else g, breaches))"

datatype reorg_verdict = NoPolicy | WithinDepth | PausedBy u32 u32 u32

record reorg_watcher =
  rw_id :: u32
  rw_max_depth :: "(u32, u32) btree_map"

definition policy_set :: "u32 \<Rightarrow> u32 \<Rightarrow> reorg_watcher \<Rightarrow> reorg_watcher" where
  "policy_set source_chain max_depth w = w\<lparr>rw_max_depth := bt_insert source_chain max_depth (rw_max_depth w)\<rparr>"

definition policy_max_depth :: "reorg_watcher \<Rightarrow> u32 \<Rightarrow> u32 option" where
  "policy_max_depth w source_chain = bt_get (rw_max_depth w) source_chain"

definition observe :: "reorg_watcher \<Rightarrow> u32 \<Rightarrow> u32 \<Rightarrow> 'pk gateway \<Rightarrow> 'pk gateway \<times> reorg_verdict" where
  "observe w source_chain fork_depth g =
     (case policy_max_depth w source_chain of
        None \<Rightarrow> (g, NoPolicy)
      | Some max_depth \<Rightarrow>
          if fork_depth > max_depth
          then (pause_source_direct source_chain g, PausedBy (rw_id w) source_chain fork_depth)
          else (g, WithinDepth))"

section \<open>What the audit sees\<close>

lemma fold_audit:
  "fold (\<lambda>(a, m) breaches. let e = reserves a in
       if m > e then breaches @ [\<lparr>br_asset_id = a, br_minted = m, br_escrowed = e\<rparr>] else breaches) xs acc =
   acc @ map (\<lambda>(a, m). \<lparr>br_asset_id = a, br_minted = m, br_escrowed = reserves a\<rparr>)
     (filter (\<lambda>(a, m). reserves a < m) xs)"
  by (induction xs arbitrary: acc) (auto simp: Let_def)

lemma audit_eq:
  "audit minted reserves = map (\<lambda>(a, m). \<lparr>br_asset_id = a, br_minted = m, br_escrowed = reserves a\<rparr>)
     (filter (\<lambda>(a, m). reserves a < m) minted)"
  unfolding audit_def fold_audit by simp

abbreviation add_owed :: "exit_ticket \<Rightarrow> (bytes, u128) btree_map \<Rightarrow> (bytes, u128) btree_map" where
  "add_owed t m \<equiv> bt_insert (et_asset_id t) (sat_add (bt_get_or m (et_asset_id t) 0) (et_amount t)) m"

lemma unat_fold_owed:
  assumes "unat (bt_get_or m a 0) + sum_list (map (share a) ts) < 2 ^ 128"
  shows "unat (bt_get_or (fold add_owed ts m) a 0) = unat (bt_get_or m a 0) + sum_list (map (share a) ts)"
  using assms
proof (induction ts arbitrary: m)
  case (Cons t ts)
  have "unat (bt_get_or (add_owed t m) a 0) = unat (bt_get_or m a 0) + share a t"
    using Cons.prems by (auto simp: bt_simps share_def unat_sat_add)
  with Cons.prems Cons.IH [of "add_owed t m"] show ?case by simp
qed simp

lemma outstanding_supply:
  assumes "gw_inv g"
  shows "unat (bt_get_or (outstanding_by_asset g) a 0) = supply_of g a"
proof -
  have "queued_of g a = sum_list (map (share a) (map snd (gw_pending_exits g)))"
    by (simp add: queued_of_def o_def split_def)
  then show ?thesis
    using supply_bounded [OF assms, of a] unat_fold_owed [of "gw_per_asset_minted g" a "map snd (gw_pending_exits g)"]
    by (simp add: outstanding_by_asset_def supply_of_def minted_of_asset_def)
qed

lemma outstanding_wf: "tables_wf g \<Longrightarrow> bt_wf (outstanding_by_asset g)"
proof -
  have "bt_wf m \<Longrightarrow> bt_wf (fold add_owed ts m)" for ts and m :: "(bytes, u128) btree_map"
    by (induction ts arbitrary: m) auto
  then show "tables_wf g \<Longrightarrow> bt_wf (outstanding_by_asset g)" by (simp add: outstanding_by_asset_def tables_wf_def)
qed

lemma audit_breach_iff:
  assumes "gw_inv g"
  shows "(\<exists>b\<in>set (audit (outstanding_by_asset g) reserves). br_asset_id b = a) \<longleftrightarrow>
    unat (reserves a) < supply_of g a"
proof -
  let ?o = "outstanding_by_asset g"
  have wf: "bt_wf ?o" using assms outstanding_wf by (auto simp: gw_inv_def)
  have "(\<exists>b\<in>set (audit ?o reserves). br_asset_id b = a) \<longleftrightarrow> (\<exists>m. bt_get ?o a = Some m \<and> reserves a < m)"
    using bt_wf_distinct [OF wf] by (force simp: audit_eq bt_get_def)
  also have "\<dots> \<longleftrightarrow> reserves a < bt_get_or ?o a 0"
    by (auto simp: bt_get_or_def split: option.splits)
  finally show ?thesis by (simp add: word_less_nat_alt outstanding_supply [OF assms])
qed

text \<open>the watchtower pauses an undercollateralised gateway and only that: after \<open>enforce\<close> the gateway
  is paused if it was before or if some asset's supply, the exit queue included, exceeds the
  reserves seen for it; the breaches reported name exactly those assets, and nothing of the ledger
  moves.\<close>

theorem enforce_pauses_iff_undercollateralised:
  assumes "gw_inv g" "enforce reserves g = (g', breaches)"
  shows "(gw_global_pause g' \<longleftrightarrow> gw_global_pause g \<or> (\<exists>a. unat (reserves a) < supply_of g a)) \<and>
    br_asset_id ` set breaches = {a. unat (reserves a) < supply_of g a} \<and>
    ledger_of g' = ledger_of g \<and> gw_inv g'"
proof -
  have b: "breaches = audit (outstanding_by_asset g) reserves"
    and g': "g' = (if breaches \<noteq> [] then pause_all g else g)"
    using assms(2) by (auto simp: enforce_def Let_def)
  have names: "br_asset_id ` set breaches = {a. unat (reserves a) < supply_of g a}"
    by (rule set_eqI) (use audit_breach_iff [OF assms(1), of reserves] b in \<open>simp add: image_iff eq_commute\<close>)
  then have "breaches \<noteq> [] \<longleftrightarrow> (\<exists>a. unat (reserves a) < supply_of g a)"
    by (metis (mono_tags, lifting) empty_Collect_eq image_is_empty set_empty)
  moreover have "gw_global_pause (pause_all g)" by (simp add: pause_all_def touch_guard_def)
  moreover have "ledger_of g' = ledger_of g \<and> control_wf g'"
    using assms(1) quiet_setters(4) [of g] by (simp add: g' gw_inv_def)
  ultimately show ?thesis using names gw_inv_ledger [OF _ assms(1), of g'] by (auto simp: g')
qed

theorem enforce_pauses_iff_undercollateralised_witness:
  "gw_global_pause (fst (enforce (static_escrow_of (static_reserves_set (replicate 16 3) 999999
     static_reserves_new)) credited_sample))"
proof -
  let ?r = "static_escrow_of (static_reserves_set (replicate 16 3) 999999 static_reserves_new)"
  have "supply_of credited_sample (replicate 16 3) = 1000000"
    by (simp add: supply_of_def queued_of_def credited_sample_def credit_def minted_of_asset_def gateway_eval)
  moreover have "unat (?r (replicate 16 3)) = 999999"
    by (simp add: static_escrow_of_def static_reserves_set_def static_reserves_new_def bt_get_or_def bt_get_def)
  ultimately have "unat (?r (replicate 16 3)) < supply_of credited_sample (replicate 16 3)" by simp
  moreover obtain g' bs where "enforce ?r credited_sample = (g', bs)" by (cases "enforce ?r credited_sample")
  ultimately show ?thesis
    using enforce_pauses_iff_undercollateralised [OF credited_sample_inv, of ?r g' bs] by auto
qed

text \<open>a deep reorganisation stops its source: if a fork deeper than the corridor's policy is
  observed, the watcher pauses that source and from then on, until it is resumed, no call credits a
  deposit from it; a fork within the policy, or of a corridor without one, changes nothing.\<close>

theorem deep_reorg_pauses_source:
  assumes "gw_inv g" "observe w c depth g = (g', verdict)"
  shows "(case policy_max_depth w c of
       Some max_depth \<Rightarrow>
         if depth > max_depth
         then verdict = PausedBy (rw_id w) c depth \<and> bs_contains (gw_paused_sources g') c \<and>
           (\<forall>md call g'' evs r a m. gw_call md call g' = (g'', Ok evs) \<longrightarrow> Minted c r a m \<notin> set evs)
         else verdict = WithinDepth \<and> g' = g
     | None \<Rightarrow> verdict = NoPolicy \<and> g' = g) \<and> ledger_of g' = ledger_of g \<and> gw_inv g'"
proof -
  let ?p = "pause_source_direct c g"
  have inv: "gw_inv ?p" and paused: "c \<in> set (gw_paused_sources ?p)"
    using gw_inv_ledger [of ?p g] quiet_setters(2) [of c g] assms(1)
    by (auto simp: gw_inv_def pause_source_direct_def touch_guard_def)
  have "Minted c r a m \<notin> set evs" if "gw_call md call ?p = (g'', Ok evs)" for md call g'' evs r a m
    using call_mints [OF inv that, of c r a m] paused by blast
  then show ?thesis
    using assms inv paused quiet_setters(2) [of c g]
    by (auto simp: observe_def bs_contains_def split: option.splits if_splits)
qed

theorem deep_reorg_pauses_source_witness:
  "bs_contains (gw_paused_sources (fst (observe \<lparr>rw_id = 1, rw_max_depth = [(1, 6)]\<rparr> 1 7 sample_gateway))) 1"
  using deep_reorg_pauses_source [OF sample_inv, of "\<lparr>rw_id = 1, rw_max_depth = [(1, 6)]\<rparr>" 1 7]
  by (cases "observe \<lparr>rw_id = 1, rw_max_depth = [(1, 6)]\<rparr> 1 7 sample_gateway")
    (simp add: policy_max_depth_def bt_get_def)

end
