(* ===== verification/Aggregator.thy ===== *)
theory Aggregator
  imports Gateway_Time
begin

text \<open>
  \<^verbatim>\<open>crates/q-attestor/src/aggregator.rs\<close>: the aggregator collects the operators' signatures over one
  fact and hands out an envelope when it has enough. The check that \<open>add_verified\<close> takes as a
  closure is the argument \<open>verify\<close>; the program passes the gateway's \<open>attests\<close>.
\<close>

datatype aggregator_error = FactMismatch | Unverified

record aggregator =
  ag_threshold :: usize
  ag_fact :: "bridge_fact option"
  ag_sigs :: "(u32, signer_sig) btree_map"

definition aggregator_new :: "usize \<Rightarrow> aggregator" where
  "aggregator_new threshold = \<lparr>ag_threshold = threshold, ag_fact = None, ag_sigs = []\<rparr>"

definition aggregator_add ::
  "bridge_fact \<Rightarrow> signer_sig \<Rightarrow> aggregator \<Rightarrow> aggregator \<times> (aggregator_error, unit) res" where
  "aggregator_add f sig ag =
     (case ag_fact ag of
        None \<Rightarrow>
          (ag\<lparr>ag_fact := Some f, ag_sigs := bt_insert (ss_operator_id sig) sig (ag_sigs ag)\<rparr>, Ok ())
      | Some existing \<Rightarrow>
          if fact_encode existing \<noteq> fact_encode f then (ag, Err FactMismatch)
          else (ag\<lparr>ag_sigs := bt_insert (ss_operator_id sig) sig (ag_sigs ag)\<rparr>, Ok ()))"

definition add_verified ::
  "(bridge_fact \<Rightarrow> signer_sig \<Rightarrow> bool) \<Rightarrow> bridge_fact \<Rightarrow> signer_sig \<Rightarrow> aggregator \<Rightarrow>
   aggregator \<times> (aggregator_error, unit) res" where
  "add_verified verify f sig ag =
     (if (case ag_fact ag of Some existing \<Rightarrow> fact_encode existing \<noteq> fact_encode f | None \<Rightarrow> False)
      then (ag, Err FactMismatch)
      else if \<not> verify f sig then (ag, Err Unverified)
      else aggregator_add f sig ag)"

definition aggregator_distinct :: "aggregator \<Rightarrow> usize" where
  "aggregator_distinct ag = length (ag_sigs ag)"

definition aggregator_ready :: "aggregator \<Rightarrow> bool" where
  "aggregator_ready ag \<longleftrightarrow> length (ag_sigs ag) \<ge> ag_threshold ag"

definition try_finalize :: "aggregator \<Rightarrow> attestation_envelope option" where
  "try_finalize ag =
     (if \<not> aggregator_ready ag then None
      else case ag_fact ag of
        None \<Rightarrow> None
      | Some f \<Rightarrow> Some \<lparr>ae_fact = f, ae_signatures = map snd (ag_sigs ag)\<rparr>)"

section \<open>Contributions in any order\<close>

definition ag_call ::
  "(bridge_fact \<Rightarrow> signer_sig \<Rightarrow> bool) \<Rightarrow> bridge_fact \<times> signer_sig \<Rightarrow> aggregator \<Rightarrow>
   aggregator \<times> (aggregator_error, (bridge_fact \<times> signer_sig) list) res" where
  "ag_call verify p ag = apsnd (map_ok (\<lambda>_. [p])) (add_verified verify (fst p) (snd p) ag)"

definition ag_inv :: "(bridge_fact \<Rightarrow> signer_sig \<Rightarrow> bool) \<Rightarrow> aggregator \<Rightarrow> bool" where
  "ag_inv verify ag \<longleftrightarrow> bt_wf (ag_sigs ag) \<and>
     (\<forall>i s. bt_get (ag_sigs ag) i = Some s \<longrightarrow> ss_operator_id s = i \<and>
        (\<exists>f f'. ag_fact ag = Some f \<and> fact_encode f' = fact_encode f \<and> verify f' s))"

lemma add_verified_Ok:
  "add_verified verify f s ag = (ag', Ok u) \<longleftrightarrow>
     verify f s \<and> (\<forall>f0. ag_fact ag = Some f0 \<longrightarrow> fact_encode f0 = fact_encode f) \<and>
     ag' = ag\<lparr>ag_fact := (case ag_fact ag of None \<Rightarrow> Some f | Some f0 \<Rightarrow> Some f0),
            ag_sigs := bt_insert (ss_operator_id s) s (ag_sigs ag)\<rparr>"
  by (auto simp: add_verified_def aggregator_add_def split: option.splits)

interpretation agc: atomic_calls "ag_call verify" "ag_inv verify"
  for verify :: "bridge_fact \<Rightarrow> signer_sig \<Rightarrow> bool"
proof unfold_locales
  fix p ag ag' e
  show "ag_call verify p ag = (ag', Err e) \<Longrightarrow> ag' = ag"
    by (auto simp: ag_call_def apsnd_map_ok_Err add_verified_def aggregator_add_def
        split: option.splits if_splits)
next
  fix ag p ag' new
  assume inv: "ag_inv verify ag" and "ag_call verify p ag = (ag', Ok new)"
  then have "add_verified verify (fst p) (snd p) ag = (ag', Ok ())"
    by (auto simp: ag_call_def apsnd_map_ok_Ok)
  then show "ag_inv verify ag'"
    using inv unfolding add_verified_Ok ag_inv_def
    by (cases "ag_fact ag") (auto simp: bt_get_insert split: if_splits)
qed

lemma ag_sigs_contributed:
  assumes "runs (ag_call verify) (aggregator_new n) evs ag"
  shows "fst ` set (ag_sigs ag) = ss_operator_id ` snd ` set evs \<and> ag_threshold ag = n"
  using assms
proof (induction rule: runs.induct)
  case runs_start
  then show ?case by (simp add: aggregator_new_def)
next
  case (runs_ok evs ag' p ag'' new)
  then show ?case
    by (auto simp: ag_call_def apsnd_map_ok_Ok add_verified_Ok fst_bt_insert)
next
  case (runs_err evs ag' p ag'' e)
  then show ?case using agc.err_same by metis
qed

lemma bt_values_sorted:
  assumes "bt_wf m" "\<And>i s. bt_get m i = Some s \<Longrightarrow> f s = i"
  shows "map f (map snd m) = map fst m"
proof -
  have "f s = i" if "(i, s) \<in> set m" for i s
    using that assms(2) bt_wf_distinct [OF assms(1)] by (auto simp: bt_get_def)
  then show ?thesis by auto
qed

text \<open>an envelope the aggregator hands out is one the gateway counts in full: whatever contributions
  came, in whatever order, repeated, bad or for other facts, the envelope is in canonical order, its
  signatures are of exactly the operators whose contribution was accepted, at least the threshold
  of them, and the gateway's own count over the envelope's fact finds every one of them.\<close>

theorem aggregated_envelope_counts:
  assumes "runs (ag_call (\<lambda>f s. attests md f s g)) (aggregator_new n) evs ag"
    and "try_finalize ag = Some env" "os_wf (gw_operators g)"
  shows "sorted_wrt (<) (map ss_operator_id (ae_signatures env)) \<and>
    set (verify_quorum md (attest_preimage (ae_fact env) (gw_dest_chain_id g)) (attest_context (gw_era g))
      (ae_signatures env) (gw_operators g)) = ss_operator_id ` snd ` set evs \<and>
    n \<le> length (verify_quorum md (attest_preimage (ae_fact env) (gw_dest_chain_id g))
      (attest_context (gw_era g)) (ae_signatures env) (gw_operators g))"
proof -
  let ?v = "\<lambda>f s. attests md f s g" and ?sigs = "ag_sigs ag" and ?c = "attest_context (gw_era g)"
  have inv: "ag_inv ?v ag"
    using agc.ic.runs_inv [OF assms(1)] by (simp add: ag_inv_def aggregator_new_def bt_get_def)
  obtain f where f: "ag_fact ag = Some f" "env = \<lparr>ae_fact = f, ae_signatures = map snd ?sigs\<rparr>"
    "ag_threshold ag \<le> length ?sigs"
    using assms(2) by (auto simp: try_finalize_def aggregator_ready_def split: if_splits option.splits)
  let ?m = "attest_preimage f (gw_dest_chain_id g)"
  have wf: "bt_wf ?sigs" using inv by (simp add: ag_inv_def)
  have ids: "map ss_operator_id (map snd ?sigs) = map fst ?sigs"
    using wf inv by (intro bt_values_sorted) (auto simp: ag_inv_def)
  have counts: "sig_counts md ?m ?c (gw_operators g) s" if "s \<in> set (map snd ?sigs)" for s
  proof -
    from that bt_wf_distinct [OF wf] obtain i where "bt_get ?sigs i = Some s" by (auto simp: bt_get_def)
    with inv f(1) obtain f' where "fact_encode f' = fact_encode f" "attests md f' s g"
      by (auto simp: ag_inv_def)
    then show ?thesis by (simp add: attests_iff attest_preimage_def)
  qed
  have "set (map fst ?sigs) \<subseteq> operators_of (gw_operators g)"
    using counts sig_counts_operator unfolding ids [symmetric] by fastforce
  then have "card (set (map fst ?sigs)) \<le> card (operators_of (gw_operators g))"
    by (rule card_mono [OF gq.finite_members])
  then have len: "length (map snd ?sigs) \<le> os_size (gw_operators g)"
    using distinct_card [OF bt_wf_distinct [OF wf]] card_operators_of [OF assms(3)] by simp
  let ?q = "verify_quorum md ?m ?c (map snd ?sigs) (gw_operators g)"
  have "{s \<in> set (map snd ?sigs). sig_counts md ?m ?c (gw_operators g) s} = set (map snd ?sigs)"
    using counts by blast
  then have "set ?q = ss_operator_id ` set (map snd ?sigs)"
    using verified_quorum_spec(4) [OF len, of md ?m ?c] by (simp only: set_verify_quorum)
  also have "\<dots> = fst ` set ?sigs" using ids by (metis image_set)
  finally have q: "set ?q = fst ` set ?sigs" .
  then have "length ?q = length ?sigs"
    using card_verify_quorum [of md ?m ?c "map snd ?sigs" "gw_operators g"]
      distinct_card [OF bt_wf_distinct [OF wf]] by simp
  moreover have "sorted_wrt (<) (map ss_operator_id (map snd ?sigs))"
    using wf unfolding ids bt_wf_def .
  ultimately show ?thesis
    using q f(2,3) ag_sigs_contributed [OF assms(1)] by simp
qed

theorem aggregated_envelope_counts_witness:
  "\<exists>env. try_finalize (fst (run_calls (ag_call (\<lambda>f s. attests echo_scheme f s sample_gateway))
       [(sample_fact, echo_sig 3 30), (sample_fact, echo_sig 1 99), (sample_fact, echo_sig 1 10)]
       (aggregator_new 2))) = Some env \<and>
     2 \<le> length (verify_quorum echo_scheme (attest_preimage sample_fact 5) (attest_context (replicate 32 0))
       (ae_signatures env) three_operators)"
proof -
  let ?v = "\<lambda>f s. attests echo_scheme f s sample_gateway"
  let ?ag = "\<lparr>ag_threshold = 2, ag_fact = Some sample_fact,
      ag_sigs = [(1, echo_sig 1 10), (3, echo_sig 3 30)]\<rparr>"
  have ops: "gw_operators sample_gateway = three_operators" "gw_dest_chain_id sample_gateway = 5"
    "gw_era sample_gateway = replicate 32 0" by (simp_all add: gateway_eval)
  have v: "?v f (echo_sig 3 30)" "?v f (echo_sig 1 10)" "\<not> ?v f (echo_sig 1 99)" for f
    by (simp_all add: attests_iff ops sig_counts_def os_size_def three_operators_def os_pubkey_def
        bt_get_def echo_sig_def echo_scheme_def)
  have run: "run_calls (ag_call ?v) [(sample_fact, echo_sig 3 30), (sample_fact, echo_sig 1 99),
      (sample_fact, echo_sig 1 10)] (aggregator_new 2) =
      (?ag, [(sample_fact, echo_sig 3 30), (sample_fact, echo_sig 1 10)])"
    using v by (simp add: ag_call_def add_verified_def aggregator_add_def aggregator_new_def)
      (simp add: echo_sig_def)
  have wf: "os_wf (gw_operators sample_gateway)"
    by (simp add: ops os_wf_def bt_wf_def three_operators_def)
  have fin: "try_finalize ?ag = Some \<lparr>ae_fact = sample_fact, ae_signatures = [echo_sig 1 10, echo_sig 3 30]\<rparr>"
    by (simp add: try_finalize_def aggregator_ready_def)
  show ?thesis
    unfolding run fst_conv
    using fin aggregated_envelope_counts [OF runs_run_calls [OF run] fin wf] by (simp add: ops)
qed

end
