(* ===== verification/Isolation.thy ===== *)
theory Isolation
  imports Airlock
begin

text \<open>
  \<^verbatim>\<open>crates/q-isolation/src/lib.rs\<close>: the door between the foreign side and the bridge. Two kinds of artifact
  cross it, and every one of them crosses as bytes that the airlock parses again: an artifact built in
  memory is admitted only when its own encoding parses.
\<close>

definition CROSSING_KIND_COUNT :: usize where "CROSSING_KIND_COUNT = 2"

datatype pq_artifact = MlDsaAttestation | HashStark

fun pq_tag :: "pq_artifact \<Rightarrow> u8" where
  "pq_tag MlDsaAttestation = ARTIFACT_ATTESTATION"
| "pq_tag HashStark = ARTIFACT_STARK"

fun pq_index :: "pq_artifact \<Rightarrow> usize" where
  "pq_index MlDsaAttestation = 0"
| "pq_index HashStark = 1"

definition ALL_CROSSINGS :: "pq_artifact list" where
  "ALL_CROSSINGS = [MlDsaAttestation, HashStark]"

fun classify :: "artifact \<Rightarrow> pq_artifact" where
  "classify (Attestation _) = MlDsaAttestation"
| "classify (Stark _) = HashStark"

datatype refused = RefusedForeign | RefusedMalformed

fun refused_from :: "airlock_error \<Rightarrow> refused" where
  "refused_from Unparseable = RefusedForeign"
| "refused_from EnvelopeBadVersion = RefusedMalformed"
| "refused_from NonCanonical = RefusedMalformed"
| "refused_from (AirlockCodec _) = RefusedMalformed"

record unverified_crossing =
  uc_kind :: pq_artifact
  uc_artifact :: artifact

definition isolation_admit :: "bytes \<Rightarrow> (refused, unverified_crossing) res" where
  "isolation_admit bs =
     and_then (map_err refused_from (airlock_parse bs)) (\<lambda>artifact.
     Ok \<lparr>uc_kind = classify artifact, uc_artifact = artifact\<rparr>)"

definition admit_artifact :: "artifact \<Rightarrow> (refused, unverified_crossing) res" where
  "admit_artifact artifact =
     and_then (case artifact of
        Attestation envelope \<Rightarrow> attestation_encode envelope
      | Stark envelope \<Rightarrow> stark_encode envelope) isolation_admit"

section \<open>What crosses\<close>

lemma all_crossings: "set ALL_CROSSINGS = UNIV" "map pq_index ALL_CROSSINGS = [0..<CROSSING_KIND_COUNT]"
  by (auto simp: ALL_CROSSINGS_def CROSSING_KIND_COUNT_def upt_rec intro: pq_artifact.exhaust)

lemma pq_tag_classify: "pq_tag (classify a) = artifact_tag a"
  by (cases a) simp_all

lemma admit_artifact_encode: "admit_artifact a = and_then (artifact_encode a) isolation_admit"
  by (cases a) (simp_all add: admit_artifact_def)

lemma isolation_admit_Ok:
  "isolation_admit bs = Ok x \<longleftrightarrow>
     (\<exists>a. airlock_parse bs = Ok a \<and> x = \<lparr>uc_kind = classify a, uc_artifact = a\<rparr>)"
  by (auto simp: isolation_admit_def res_iffs)

end
