(* ===== verification/Federated.thy ===== *)
theory Federated
  imports Isolation Gateway_Orders
begin

text \<open>
  \<^verbatim>\<open>crates/q-federated/src\<close>: the corridors that are served by operators (\<^verbatim>\<open>corridors.rs\<close>), the registry of the
  nodes the operators watch (\<^verbatim>\<open>sources.rs\<close>), and the admission of a signed deposit through the door, the
  independence check and the gateway (\<^verbatim>\<open>admission.rs\<close>).
\<close>

section \<open>Corridors\<close>

datatype tier = Federated_Tier | ProofBacked

fun tier_is_federated :: "tier \<Rightarrow> bool" where
  "tier_is_federated Federated_Tier = True"
| "tier_is_federated ProofBacked = False"

fun is_proof_backed :: "tier \<Rightarrow> bool" where
  "is_proof_backed ProofBacked = True"
| "is_proof_backed Federated_Tier = False"

fun tier_label :: "tier \<Rightarrow> string" where
  "tier_label Federated_Tier = ''Federated''"
| "tier_label ProofBacked = ''ProofBacked''"

datatype trust_grade = TrustedRelayer | Trustless

fun grade_label :: "trust_grade \<Rightarrow> string" where
  "grade_label TrustedRelayer = ''TrustedRelayer''"
| "grade_label Trustless = ''Trustless''"

definition BNB_CHAIN :: u32 where "BNB_CHAIN = 3"
definition POLYGON :: u32 where "POLYGON = 4"
definition AVALANCHE :: u32 where "AVALANCHE = 5"
definition SOLANA :: u32 where "SOLANA = 22"
definition TRON :: u32 where "TRON = 23"
definition XRPL :: u32 where "XRPL = 24"
definition CARDANO :: u32 where "CARDANO = 25"
definition NEAR :: u32 where "NEAR = 26"
definition SUI :: u32 where "SUI = 27"
definition APTOS :: u32 where "APTOS = 28"
definition HEDERA :: u32 where "HEDERA = 29"
definition ALGORAND :: u32 where "ALGORAND = 30"
definition TON :: u32 where "TON = 31"
definition STELLAR :: u32 where "STELLAR = 32"
definition MONERO :: u32 where "MONERO = 34"
definition LITECOIN :: u32 where "LITECOIN = 35"
definition DOGECOIN :: u32 where "DOGECOIN = 36"
definition ZCASH :: u32 where "ZCASH = 37"

lemmas chain_ids = BNB_CHAIN_def POLYGON_def AVALANCHE_def SOLANA_def TRON_def XRPL_def CARDANO_def
  NEAR_def SUI_def APTOS_def HEDERA_def ALGORAND_def TON_def STELLAR_def MONERO_def LITECOIN_def
  DOGECOIN_def ZCASH_def

definition ORIGIN_MARKER :: u8 where "ORIGIN_MARKER = 0x0F"
definition PROVISIONAL_CAP_BASE_UNITS :: u128 where "PROVISIONAL_CAP_BASE_UNITS = 1000000000000"

text \<open>The tag's bytes: the chain id, \<^verbatim>\<open>QO\<close>, the marker, the chain id again, \<open>0xF0\<close>, and zeros.\<close>

definition origin_tag :: "u32 \<Rightarrow> bytes" where
  "origin_tag chain_id =
     to_le_bytes chain_id @ ascii ''QO'' @ [ORIGIN_MARKER] @ to_le_bytes chain_id @ [0xF0] @ replicate 4 0"

record corridor =
  co_chain_id :: u32
  co_name :: string
  co_tier :: tier
  co_grade :: trust_grade
  co_confirmation_depth :: u32
  co_origin_asset :: bytes
  co_cap_base_units :: u128
  co_active :: bool

definition corridor_is_federated :: "corridor \<Rightarrow> bool" where
  "corridor_is_federated c \<longleftrightarrow> tier_is_federated (co_tier c)"

definition mk_corridor :: "u32 \<Rightarrow> string \<Rightarrow> u32 \<Rightarrow> corridor" where
  "mk_corridor chain_id name confirmation_depth =
     \<lparr>co_chain_id = chain_id, co_name = name, co_tier = Federated_Tier, co_grade = TrustedRelayer,
      co_confirmation_depth = confirmation_depth, co_origin_asset = origin_tag chain_id,
      co_cap_base_units = PROVISIONAL_CAP_BASE_UNITS, co_active = True\<rparr>"

definition corridors :: "corridor list" where
  "corridors =
     [mk_corridor BNB_CHAIN ''BNB Chain'' 15,
      mk_corridor POLYGON ''Polygon'' 128,
      mk_corridor AVALANCHE ''Avalanche'' 1,
      mk_corridor SOLANA ''Solana'' 32,
      mk_corridor TRON ''TRON'' 19,
      mk_corridor XRPL ''XRP Ledger'' 1,
      mk_corridor CARDANO ''Cardano'' 12,
      mk_corridor NEAR ''Near'' 2,
      mk_corridor SUI ''Sui'' 1,
      mk_corridor APTOS ''Aptos'' 1,
      mk_corridor HEDERA ''Hedera'' 1,
      mk_corridor ALGORAND ''Algorand'' 1,
      mk_corridor TON ''Ton'' 1,
      mk_corridor STELLAR ''Stellar'' 1,
      mk_corridor MONERO ''Monero'' 10,
      mk_corridor LITECOIN ''Litecoin'' 12,
      mk_corridor DOGECOIN ''Dogecoin'' 30,
      mk_corridor ZCASH ''Zcash'' 24]"

definition corridor_find :: "u32 \<Rightarrow> corridor option" where
  "corridor_find chain_id = List.find (\<lambda>c. co_chain_id c = chain_id) corridors"

lemma length_origin_tag [simp]: "length (origin_tag c) = 16"
  by (simp add: origin_tag_def ascii_def)

lemma origin_tag_inj: "origin_tag a = origin_tag b \<longleftrightarrow> a = b"
proof
  have "length (to_le_bytes a) = length (to_le_bytes b)" by simp
  moreover assume "origin_tag a = origin_tag b"
  ultimately have "to_le_bytes a = to_le_bytes b"
    unfolding origin_tag_def by (blast dest: append_eq_append_conv [THEN iffD1, rotated])
  then have "(from_le_bytes (to_le_bytes a) :: u32) = from_le_bytes (to_le_bytes b)" by (rule arg_cong)
  then show "a = b" by (simp add: from_to_le_bytes)
qed simp

lemma corridor_ids_distinct: "distinct (map co_chain_id corridors)"
  by (simp add: corridors_def mk_corridor_def chain_ids)

lemma corridor_assets: "c \<in> set corridors \<Longrightarrow> co_origin_asset c = origin_tag (co_chain_id c)"
  by (auto simp: corridors_def mk_corridor_def)

section \<open>The sources of the operators\<close>

type_synonym source_endpoint = bytes

record independence_report =
  ir_signers :: usize
  ir_independent_sources :: usize
  ir_undeclared :: usize

definition fully_independent :: "independence_report \<Rightarrow> bool" where
  "fully_independent r \<longleftrightarrow> ir_undeclared r = 0 \<and> ir_independent_sources r = ir_signers r"

definition correlated :: "independence_report \<Rightarrow> bool" where
  "correlated r \<longleftrightarrow> ir_independent_sources r < ir_signers r - ir_undeclared r"

type_synonym source_registry = "(u32, (u32, source_endpoint) btree_map) btree_map"

definition source_declare :: "u32 \<Rightarrow> u32 \<Rightarrow> source_endpoint \<Rightarrow> source_registry \<Rightarrow> source_registry" where
  "source_declare corridor operator_id endpoint m =
     bt_insert corridor (bt_insert operator_id endpoint (bt_get_or m corridor [])) m"

definition source_of :: "source_registry \<Rightarrow> u32 \<Rightarrow> u32 \<Rightarrow> source_endpoint option" where
  "source_of m corridor operator_id =
     Option.bind (bt_get m corridor) (\<lambda>ops. bt_get ops operator_id)"

definition analyze :: "source_registry \<Rightarrow> u32 \<Rightarrow> u32 btree_set \<Rightarrow> independence_report" where
  "analyze m corridor operators =
     (let (endpoints, undeclared) =
        fold (\<lambda>id (endpoints, undeclared).
          case source_of m corridor id of
            Some ep \<Rightarrow> (bs_insert ep endpoints, undeclared)
          | None \<Rightarrow> (endpoints, undeclared + 1)) operators ([], 0)
      in \<lparr>ir_signers = length operators, ir_independent_sources = length endpoints,
          ir_undeclared = undeclared\<rparr>)"

lemma source_of_declare:
  "source_of (source_declare c i ep m) c' i' = (if c' = c \<and> i' = i then Some ep else source_of m c' i')"
  by (auto simp: source_of_def source_declare_def bt_simps bt.get_empty split: option.splits)

definition endpoints_of :: "source_registry \<Rightarrow> u32 \<Rightarrow> u32 list \<Rightarrow> bytes set" where
  "endpoints_of m c ids = {ep. \<exists>i\<in>set ids. source_of m c i = Some ep}"

lemma endpoints_of_Cons:
  "endpoints_of m c (i # ids) =
     (case source_of m c i of Some ep \<Rightarrow> {ep} | None \<Rightarrow> {}) \<union> endpoints_of m c ids"
  by (auto simp: endpoints_of_def split: option.splits)

lemma analyze_fold:
  assumes "bs_wf eps"
  shows "\<exists>eps'. fold (\<lambda>id (endpoints, undeclared).
          case source_of m c id of
            Some ep \<Rightarrow> (bs_insert ep endpoints, undeclared)
          | None \<Rightarrow> (endpoints, undeclared + 1)) ids (eps, u) =
     (eps', u + length (filter (\<lambda>i. source_of m c i = None) ids)) \<and>
     bs_wf eps' \<and> set eps' = set eps \<union> endpoints_of m c ids"
  using assms
proof (induction ids arbitrary: eps u)
  case Nil
  then show ?case by (simp add: endpoints_of_def)
next
  case (Cons i ids)
  show ?case
  proof (cases "source_of m c i")
    case None
    with Cons.IH [OF Cons.prems, of "u + 1"] show ?thesis by (auto simp: endpoints_of_Cons)
  next
    case (Some ep)
    with Cons.IH [of "bs_insert ep eps" u] Cons.prems show ?thesis by (auto simp: endpoints_of_Cons)
  qed
qed

lemma analyze_report:
  "ir_signers (analyze m c ids) = length ids"
  "ir_independent_sources (analyze m c ids) = card (endpoints_of m c ids)"
  "ir_undeclared (analyze m c ids) = length (filter (\<lambda>i. source_of m c i = None) ids)"
proof -
  obtain eps where "fold (\<lambda>id (endpoints, undeclared).
          case source_of m c id of
            Some ep \<Rightarrow> (bs_insert ep endpoints, undeclared)
          | None \<Rightarrow> (endpoints, undeclared + 1)) ids ([], 0) =
     (eps, length (filter (\<lambda>i. source_of m c i = None) ids))"
    "bs_wf eps" "set eps = endpoints_of m c ids"
    using analyze_fold [of "[]" m c ids 0] by auto
  then show "ir_signers (analyze m c ids) = length ids"
    "ir_independent_sources (analyze m c ids) = card (endpoints_of m c ids)"
    "ir_undeclared (analyze m c ids) = length (filter (\<lambda>i. source_of m c i = None) ids)"
    using distinct_card [of eps] by (simp_all add: analyze_def bs_wf_def strict_sorted_iff)
qed

text \<open>When every operator is declared, no correlation means that no two of them share a node.\<close>

lemma not_correlated_inj:
  assumes "bs_wf ids" "\<forall>i\<in>set ids. source_of m c i \<noteq> None"
  shows "\<not> correlated (analyze m c ids) \<longleftrightarrow> inj_on (source_of m c) (set ids)"
proof -
  have d: "distinct ids" using assms(1) by (rule bs_wf_distinct)
  have "Some ` endpoints_of m c ids = source_of m c ` set ids"
  proof (intro set_eqI iffI)
    fix x assume "x \<in> source_of m c ` set ids"
    then obtain i where i: "i \<in> set ids" "x = source_of m c i" by blast
    with assms(2) obtain ep where "source_of m c i = Some ep" by blast
    with i show "x \<in> Some ` endpoints_of m c ids" by (auto simp: endpoints_of_def)
  qed (auto simp: endpoints_of_def intro: rev_image_eqI)
  then have "card (source_of m c ` set ids) = card (endpoints_of m c ids)"
    by (metis card_image inj_Some inj_on_subset subset_UNIV)
  moreover have "filter (\<lambda>i. source_of m c i = None) ids = []" using assms(2) by (simp add: filter_empty_conv)
  ultimately have "\<not> correlated (analyze m c ids) \<longleftrightarrow> card (set ids) \<le> card (source_of m c ` set ids)"
    using distinct_card [OF d] by (simp add: correlated_def analyze_report not_less)
  moreover have "card (source_of m c ` set ids) \<le> card (set ids)" by (simp add: card_image_le)
  ultimately show ?thesis by (metis List.finite_set card_image eq_card_imp_inj_on order_antisym order_refl)
qed

section \<open>Admission\<close>

datatype federated_error =
    FedForeign
  | FedMalformed
  | NotFederated
  | CorridorSourceMismatch u32 u32
  | UndeclaredSource u32
  | CorrelatedSources usize usize
  | FedGateway gateway_error

definition install :: "'pk gateway \<Rightarrow> 'pk gateway" where
  "install g =
     fold (\<lambda>c g. register_asset_cap (co_origin_asset c) (co_cap_base_units c)
                  (register_corridor (co_chain_id c) (co_confirmation_depth c) g)) corridors g"

definition federated_admit ::
  "'pk ml_dsa \<Rightarrow> corridor \<Rightarrow> source_registry \<Rightarrow> attestation_envelope \<Rightarrow> 'pk gateway \<Rightarrow>
   'pk gateway \<times> (federated_error, mint_receipt) res" where
  "federated_admit md corridor sources env g =
     and_then_st (map_err (\<lambda>e. case e of RefusedForeign \<Rightarrow> FedForeign | RefusedMalformed \<Rightarrow> FedMalformed)
       (admit_artifact (Attestation env))) g (\<lambda>_.
     if \<not> corridor_is_federated corridor then (g, Err NotFederated)
     else if co_chain_id corridor \<noteq> bf_source_chain (ae_fact env)
     then (g, Err (CorridorSourceMismatch (co_chain_id corridor) (bf_source_chain (ae_fact env))))
     else
     let signers = fold (\<lambda>s. bs_insert (ss_operator_id s))
           (filter (\<lambda>s. attests md (ae_fact env) s g) (ae_signatures env)) [] in
     case List.find (\<lambda>i. source_of sources (co_chain_id corridor) i = None) signers of
       Some i \<Rightarrow> (g, Err (UndeclaredSource i))
     | None \<Rightarrow>
         let report = analyze sources (co_chain_id corridor) signers in
         if correlated report
         then (g, Err (CorrelatedSources (ir_independent_sources report) (ir_signers report)))
         else apsnd (map_err FedGateway) (process_deposit md env g))"

lemma signers_fold:
  "set (fold (\<lambda>s. bs_insert (ss_operator_id s))
     (filter (\<lambda>s. attests md (ae_fact env) s g) (ae_signatures env)) []) = signers_of md env g"
  by (auto simp: set_fold_bs_insert attests_iff signers_of_def)

lemma federated_admit_Ok:
  "federated_admit md c m env g = (g', Ok r) \<longleftrightarrow>
     is_ok (admit_artifact (Attestation env)) \<and> corridor_is_federated c \<and>
     co_chain_id c = bf_source_chain (ae_fact env) \<and>
     (\<forall>i\<in>signers_of md env g. source_of m (co_chain_id c) i \<noteq> None) \<and>
     inj_on (source_of m (co_chain_id c)) (signers_of md env g) \<and>
     process_deposit md env g = (g', Ok r)"
proof -
  define ids where "ids = fold (\<lambda>s. bs_insert (ss_operator_id s))
     (filter (\<lambda>s. attests md (ae_fact env) s g) (ae_signatures env)) []"
  have ids: "set ids = signers_of md env g" "bs_wf ids"
    unfolding ids_def by (rule signers_fold, simp add: bs_wf_fold_insert)
  have "List.find (\<lambda>i. source_of m (co_chain_id c) i = None) ids = None \<longleftrightarrow>
      (\<forall>i\<in>signers_of md env g. source_of m (co_chain_id c) i \<noteq> None)"
    by (auto simp: find_None_iff ids(1))
  moreover have "apsnd (map_err FedGateway) (process_deposit md env g) = (g', Ok r) \<longleftrightarrow>
      process_deposit md env g = (g', Ok r)"
    by (cases "process_deposit md env g") (simp add: map_err_Ok_iff)
  ultimately show ?thesis
    unfolding federated_admit_def ids_def [symmetric] Let_def and_then_st_Ok_iff map_err_Ok_iff is_ok_iff
    using not_correlated_inj [OF ids(2), of m "co_chain_id c"]
    by (auto simp: ids(1) split: if_splits option.splits)
qed

lemma map_err_Err_iff:
  "map_err f m = Err e \<longleftrightarrow> (\<exists>x. m = Err x \<and> e = f x)" "Err e = map_err f m \<longleftrightarrow> (\<exists>x. m = Err x \<and> e = f x)"
  by (cases m; auto)+

lemma federated_admit_err: "federated_admit md c m env g = (g', Err e) \<Longrightarrow> g' = g"
  by (auto simp: federated_admit_def and_then_st_case Let_def apsnd_eq_iff map_err_Err_iff
      dest: process_deposit_err split: res.splits if_splits option.splits)

section \<open>Properties\<close>

definition sample_corridor :: corridor where
  "sample_corridor = (mk_corridor 1 ''Sample'' 6)\<lparr>co_origin_asset := replicate 16 3\<rparr>"

definition sample_sources :: source_registry where
  "sample_sources = source_declare 1 3 (replicate 32 7) (source_declare 1 2 (replicate 32 6)
     (source_declare 1 1 (replicate 32 5) []))"

lemma signed_sample_wf: "artifact_wf (Attestation signed_sample)"
  by (simp add: signed_sample_def sample_fact_wf sig_wf_def echo_sig_def)

lemma admit_artifact_wf:
  assumes "artifact_wf a" "(artifact_encode a :: (refused, bytes) res) = Ok bs" "length bs \<le> usize_max"
  shows "admit_artifact a = Ok \<lparr>uc_kind = classify a, uc_artifact = a\<rparr>"
proof -
  have "(artifact_encode a :: (airlock_error, bytes) res) = Ok bs"
    using assms(2) by (simp add: artifact_encode_Ok [OF assms(1)])
  with assms show ?thesis
    by (simp add: admit_artifact_encode isolation_admit_Ok airlock_parse_encode)
qed

lemma signed_sample_crosses: "is_ok (admit_artifact (Attestation signed_sample))"
proof -
  let ?bs = "writer_u8 ARTIFACT_ATTESTATION @ attestation_tail signed_sample"
  have "length ?bs \<le> usize_max"
    by (simp add: writer_defs attestation_tail_def length_fact_encode signed_sample_def echo_sig_def
        sample_fact_wf FACT_ENCODED_LEN_def sig_bytes_def)
  moreover have "(artifact_encode (Attestation signed_sample) :: (refused, bytes) res) = Ok ?bs"
    using artifact_encode_Ok [OF signed_sample_wf] by simp
  ultimately show ?thesis using admit_artifact_wf [OF signed_sample_wf] by simp
qed

text \<open>C22: a federated mint rests on independent witnesses: if a signed deposit is admitted, more than two thirds
  of the operators signed exactly this fact for this destination and era, every one of them has declared the
  node it watches on this corridor, and no two of them watch the same node; the gateway then holds exactly the
  credit of the fact. A refused admission, whatever the reason, leaves the gateway as it was.\<close>

theorem federated_mint_independent:
  assumes "gw_inv g" "os_size (gw_operators g) \<le> usize_max div 2"
  shows "(federated_admit md c m env g = (g', Ok r) \<longrightarrow>
     2 * os_size (gw_operators g) < 3 * card (signers_of md env g) \<and>
     (\<forall>i\<in>signers_of md env g. \<exists>ep. source_of m (bf_source_chain (ae_fact env)) i = Some ep \<and>
        (\<forall>j\<in>signers_of md env g. source_of m (bf_source_chain (ae_fact env)) j = Some ep \<longrightarrow> j = i)) \<and>
     g' = credit (bf_source_chain (ae_fact env)) (bf_source_ref (ae_fact env))
       (bf_asset_id (ae_fact env)) (bf_amount (ae_fact env)) g \<and>
     r = receipt_of (ae_fact env)) \<and>
   (federated_admit md c m env g = (g', Err e) \<longrightarrow> g' = g)"
proof (intro conjI impI)
  assume "federated_admit md c m env g = (g', Ok r)"
  then have *: "\<forall>i\<in>signers_of md env g. source_of m (bf_source_chain (ae_fact env)) i \<noteq> None"
    "inj_on (source_of m (bf_source_chain (ae_fact env))) (signers_of md env g)"
    "process_deposit md env g = (g', Ok r)"
    by (auto simp: federated_admit_Ok)
  from *(1,2) show "\<forall>i\<in>signers_of md env g. \<exists>ep. source_of m (bf_source_chain (ae_fact env)) i = Some ep \<and>
      (\<forall>j\<in>signers_of md env g. source_of m (bf_source_chain (ae_fact env)) j = Some ep \<longrightarrow> j = i)"
    by (metis inj_onD not_Some_eq)
  from *(3) assms(1) have "precheck_deposit md env g = Ok ()" by (simp add: process_deposit_Ok)
  then show "2 * os_size (gw_operators g) < 3 * card (signers_of md env g)"
    unfolding signers_of_def using assms(2) by (rule precheck_supermajority)
  from *(3) assms(1) show "g' = credit (bf_source_chain (ae_fact env)) (bf_source_ref (ae_fact env))
       (bf_asset_id (ae_fact env)) (bf_amount (ae_fact env)) g" "r = receipt_of (ae_fact env)"
    by (simp_all add: process_deposit_Ok)
qed (rule federated_admit_err)

theorem federated_mint_independent_witness:
  "\<exists>g'. federated_admit echo_scheme sample_corridor sample_sources signed_sample sample_gateway =
     (g', Ok (receipt_of sample_fact)) \<and> 6 < 3 * card (signers_of echo_scheme signed_sample sample_gateway)"
proof -
  have "snd (process_deposit echo_scheme signed_sample sample_gateway) = Ok (receipt_of sample_fact)"
    using sample_precheck
    by (simp add: process_deposit_def)
      (simp add: signed_sample_def sample_fact_def receipt_of_def gateway_eval)
  then obtain g' where ok: "process_deposit echo_scheme signed_sample sample_gateway = (g', Ok (receipt_of sample_fact))"
    by (metis prod.collapse)
  have ops: "signers_of echo_scheme signed_sample sample_gateway \<subseteq> {1, 2, 3}"
    by (auto simp: signers_of_def signed_sample_def echo_sig_def)
  have src: "source_of sample_sources 1 1 = Some (replicate 32 5)" "source_of sample_sources 1 2 = Some (replicate 32 6)"
    "source_of sample_sources 1 3 = Some (replicate 32 7)"
    by (simp_all add: sample_sources_def source_of_declare)
  have "inj_on (source_of sample_sources 1) {1, 2, 3}" by (simp add: src)
  then have "inj_on (source_of sample_sources 1) (signers_of echo_scheme signed_sample sample_gateway)"
    using ops by (rule inj_on_subset)
  moreover have "\<forall>i\<in>signers_of echo_scheme signed_sample sample_gateway. source_of sample_sources 1 i \<noteq> None"
    using ops src by auto
  moreover have "co_chain_id sample_corridor = 1" "corridor_is_federated sample_corridor"
    "bf_source_chain (ae_fact signed_sample) = 1"
    by (simp_all add: sample_corridor_def mk_corridor_def corridor_is_federated_def signed_sample_def sample_fact_def)
  ultimately have "federated_admit echo_scheme sample_corridor sample_sources signed_sample sample_gateway =
      (g', Ok (receipt_of sample_fact))"
    using ok signed_sample_crosses by (simp add: federated_admit_Ok)
  moreover have "os_size (gw_operators sample_gateway) = 3"
    by (simp add: gateway_eval three_operators_def)
  ultimately show ?thesis using federated_mint_independent [OF sample_inv, of echo_scheme sample_corridor
      sample_sources signed_sample g' "receipt_of sample_fact"] by auto
qed

end
