(* ===== verification/Btc_Work.thy ===== *)
theory Btc_Work
  imports Prelude
begin

text \<open>
  \<^verbatim>\<open>crates/qlc-bitcoin/src/work.rs\<close>: 256-bit arithmetic on four 64-bit limbs, least significant
  first. A \<open>U256\<close> is the list of its limbs (four of them, \<open>u256_wf\<close>); the loops over the limbs are
  recursions on the list, the intermediate \<open>u128\<close> values are 128-bit words, and \<open>uval\<close> is the number
  the limbs stand for. Every operation is shown to compute the arithmetic of naturals modulo
  2 to the 256.
\<close>

unbundle bit_operations_syntax

type_synonym u256 = "u64 list"

definition u256_wf :: "u256 \<Rightarrow> bool" where
  "u256_wf x \<longleftrightarrow> length x = 4"

definition U256_ZERO :: u256 where "U256_ZERO = [0, 0, 0, 0]"
definition U256_ONE :: u256 where "U256_ONE = [1, 0, 0, 0]"

definition u256_from_u64 :: "u64 \<Rightarrow> u256" where
  "u256_from_u64 x = [x, 0, 0, 0]"

definition u256_is_zero :: "u256 \<Rightarrow> bool" where
  "u256_is_zero x \<longleftrightarrow> x = [0, 0, 0, 0]"

definition u256_not :: "u256 \<Rightarrow> u256" where
  "u256_not x = map NOT x"

fun add_limbs :: "u64 list \<Rightarrow> u64 list \<Rightarrow> u128 \<Rightarrow> u64 list" where
  "add_limbs (a # as) (b # bs) carry =
     (let s = ucast a + ucast b + carry in ucast s # add_limbs as bs (drop_bit 64 s))"
| "add_limbs _ _ carry = []"

definition u256_wrapping_add :: "u256 \<Rightarrow> u256 \<Rightarrow> u256" where
  "u256_wrapping_add x y = add_limbs x y 0"

text \<open>The differences are \<open>i128\<close> values between \<open>-2^64\<close> and \<open>2^64\<close>.\<close>

fun sub_limbs :: "u64 list \<Rightarrow> u64 list \<Rightarrow> int \<Rightarrow> u64 list" where
  "sub_limbs (a # as) (b # bs) borrow =
     (let d = uint a - uint b - borrow in
      if d < 0 then word_of_int (d + 2 ^ 64) # sub_limbs as bs 1
      else word_of_int d # sub_limbs as bs 0)"
| "sub_limbs _ _ borrow = []"

definition u256_wrapping_sub :: "u256 \<Rightarrow> u256 \<Rightarrow> u256" where
  "u256_wrapping_sub x y = sub_limbs x y 0"

fun mul_limbs :: "u64 list \<Rightarrow> u64 \<Rightarrow> u128 \<Rightarrow> u64 list" where
  "mul_limbs [] x carry = []"
| "mul_limbs (a # as) x carry =
     (let p = ucast a * ucast x + carry in ucast p # mul_limbs as x (drop_bit 64 p))"

definition u256_mul_u64 :: "u256 \<Rightarrow> u64 \<Rightarrow> u256" where
  "u256_mul_u64 a x = mul_limbs a x 0"

text \<open>The loop of \<open>div_u64\<close> runs from the top limb down and carries the remainder; it divides by \<open>x\<close>,
  which panics for zero.\<close>

fun div_limbs :: "u64 list \<Rightarrow> u64 \<Rightarrow> u64 list \<times> u128" where
  "div_limbs [] x = ([], 0)"
| "div_limbs (a # as) x =
     (let (q, rem) = div_limbs as x;
          cur = (push_bit 64 rem) OR ucast a
      in (ucast (cur div ucast x) # q, cur mod ucast x))"

definition u256_div_u64 :: "u256 \<Rightarrow> u64 \<Rightarrow> ('e, u256) res" where
  "u256_div_u64 a x = (if x = 0 then Panic else Ok (fst (div_limbs a x)))"

fun shl_limbs :: "u64 list \<Rightarrow> u64 \<Rightarrow> u64 list" where
  "shl_limbs [] carry = []"
| "shl_limbs (a # as) carry = ((push_bit 1 a) OR carry) # shl_limbs as (drop_bit 63 a)"

definition u256_shl1 :: "u256 \<Rightarrow> u256" where
  "u256_shl1 x = shl_limbs x 0"

definition u256_bit :: "u256 \<Rightarrow> nat \<Rightarrow> bool" where
  "u256_bit x i \<longleftrightarrow> (drop_bit (i mod 64) (x ! (i div 64))) AND 1 = 1"

definition u256_set_bit :: "nat \<Rightarrow> u256 \<Rightarrow> u256" where
  "u256_set_bit i x = x[i div 64 := (x ! (i div 64)) OR push_bit (i mod 64) 1]"

text \<open>\<open>Ord::cmp\<close>: the limbs from the top down, the first difference decides.\<close>

fun limbs_less :: "u64 list \<Rightarrow> u64 list \<Rightarrow> bool" where
  "limbs_less (a # as) (b # bs) \<longleftrightarrow> limbs_less as bs \<or> (as = bs \<and> a < b)"
| "limbs_less _ _ \<longleftrightarrow> False"

definition u256_less :: "u256 \<Rightarrow> u256 \<Rightarrow> bool" where
  "u256_less x y \<longleftrightarrow> limbs_less x y"

fun div_loop :: "nat \<Rightarrow> u256 \<Rightarrow> u256 \<Rightarrow> u256 \<Rightarrow> u256 \<Rightarrow> u256 \<times> u256" where
  "div_loop 0 x divisor quot rem = (quot, rem)"
| "div_loop (Suc i) x divisor quot rem =
     (let rem1 = u256_shl1 rem;
          rem2 = (if u256_bit x i then rem1[0 := (rem1 ! 0) OR 1] else rem1)
      in if \<not> u256_less rem2 divisor
         then div_loop i x divisor (u256_set_bit i quot) (u256_wrapping_sub rem2 divisor)
         else div_loop i x divisor quot rem2)"

definition u256_div :: "u256 \<Rightarrow> u256 \<Rightarrow> u256" where
  "u256_div x divisor =
     (if u256_is_zero divisor \<or> u256_less x divisor then U256_ZERO
      else fst (div_loop 256 x divisor U256_ZERO U256_ZERO))"

section \<open>Limbs as numbers\<close>

fun uval :: "u64 list \<Rightarrow> nat" where
  "uval [] = 0"
| "uval (a # as) = unat a + 2 ^ 64 * uval as"

lemma unat_u64_less: "unat (a :: u64) < 2 ^ 64"
  using unsigned_less [of a] by simp

lemma uval_less: "uval x < 2 ^ (64 * length x)"
proof (induction x)
  case (Cons a x)
  have "unat a < 2 ^ 64" by (rule unat_u64_less)
  moreover have "uval x + 1 \<le> 2 ^ (64 * length x)" using Cons by simp
  ultimately have "uval (a # x) < 2 ^ 64 * (uval x + 1)" "2 ^ 64 * (uval x + 1) \<le> 2 ^ 64 * 2 ^ (64 * length x)"
    by (simp, intro mult_left_mono) simp_all
  then show ?case by (simp add: power_add)
qed simp

lemma uval_inject: "length x = length y \<Longrightarrow> uval x = uval y \<Longrightarrow> x = y"
proof (induction x y rule: list_induct2)
  case (Cons a x b y)
  have "unat a < 2 ^ 64" "unat b < 2 ^ 64" by (rule unat_u64_less)+
  with Cons.prems have "(unat a + 2 ^ 64 * uval x) mod 2 ^ 64 = (unat b + 2 ^ 64 * uval y) mod 2 ^ 64"
    by (simp only: uval.simps)
  then have "unat a = unat b" using \<open>unat a < 2 ^ 64\<close> \<open>unat b < 2 ^ 64\<close> by simp
  with Cons show ?case by (simp add: word_unat_eq_iff)
qed simp

lemma unat_up: "unat (ucast (a :: u64) :: u128) = unat a"
  using unat_u64_less [of a] by (simp add: unsigned_ucast_eq take_bit_nat_eq_self)

lemma carry_out:
  fixes s :: u128
  shows "unat (ucast s :: u64) = unat s mod 2 ^ 64" "unat (drop_bit 64 s) = unat s div 2 ^ 64"
proof -
  show "unat (ucast s :: u64) = unat s mod 2 ^ 64" by (simp add: unsigned_ucast_eq take_bit_eq_mod)
  have "unat s < 2 ^ 128" using unsigned_less [of s] by simp
  then show "unat (drop_bit 64 s) = unat s div 2 ^ 64"
    by (subst unsigned_drop_bit_eq) (simp add: take_bit_nat_eq_self drop_bit_eq_div)
qed

lemma split_mod: "s mod b + b * (v mod c) = (s + b * v) mod (b * c)" if "s < b" for s b v c :: nat
  using that by (simp add: mod_mult2_eq div_add1_eq)

lemma mod_step:
  fixes s v c :: nat
  shows "s mod 2 ^ 64 + 2 ^ 64 * ((v + s div 2 ^ 64) mod c) = (s + 2 ^ 64 * v) mod (2 ^ 64 * c)"
proof -
  have "s + 2 ^ 64 * v = s mod 2 ^ 64 + 2 ^ 64 * (v + s div 2 ^ 64)" by (simp add: algebra_simps)
  then show ?thesis using split_mod [of "s mod 2 ^ 64" "2 ^ 64" "v + s div 2 ^ 64" c] by simp
qed

lemma length_add_limbs [simp]: "length x = length y \<Longrightarrow> length (add_limbs x y c) = length x"
  by (induction x y c rule: add_limbs.induct) (auto simp: Let_def)

lemma uval_add_limbs:
  "length x = length y \<Longrightarrow> unat c \<le> 1 \<Longrightarrow>
   uval (add_limbs x y c) = (uval x + uval y + unat c) mod 2 ^ (64 * length x)"
proof (induction x y c rule: add_limbs.induct)
  case (1 a as b bs c)
  let ?s = "ucast a + ucast b + c :: u128"
  have a: "unat a < 2 ^ 64" "unat b < 2 ^ 64" by (rule unat_u64_less)+
  have s: "unat ?s = unat a + unat b + unat c"
    using a 1(3) by (simp add: unat_word_ariths unat_up)
  then have "unat (drop_bit 64 ?s) \<le> 1" using a 1(3) by (simp add: carry_out div_le_dividend)
  from 1(1) [OF refl _ this] 1(2) have ih: "uval (add_limbs as bs (drop_bit 64 ?s)) =
      (uval as + uval bs + unat ?s div 2 ^ 64) mod 2 ^ (64 * length as)"
    by (simp add: carry_out)
  have "uval (add_limbs (a # as) (b # bs) c) =
      unat ?s mod 2 ^ 64 + 2 ^ 64 * ((uval as + uval bs + unat ?s div 2 ^ 64) mod 2 ^ (64 * length as))"
    by (simp add: Let_def ih carry_out)
  also have "\<dots> = (unat ?s + 2 ^ 64 * (uval as + uval bs)) mod (2 ^ 64 * 2 ^ (64 * length as))"
    by (rule mod_step)
  also have "unat ?s + 2 ^ 64 * (uval as + uval bs) = uval (a # as) + uval (b # bs) + unat c"
    unfolding s by simp
  finally show ?case by (simp add: power_add)
qed auto

lemma length_sub_limbs [simp]: "length x = length y \<Longrightarrow> length (sub_limbs x y b) = length x"
  by (induction x y b rule: sub_limbs.induct) (auto simp: Let_def)

lemma int_mod_step:
  fixes d v c :: int
  assumes "0 < c"
  shows "d mod 2 ^ 64 + 2 ^ 64 * ((v + d div 2 ^ 64) mod c) = (d + 2 ^ 64 * v) mod (2 ^ 64 * c)"
proof -
  have "d + 2 ^ 64 * v = d mod 2 ^ 64 + 2 ^ 64 * (v + d div 2 ^ 64)" by (simp add: algebra_simps)
  then have "(d + 2 ^ 64 * v) mod (2 ^ 64 * c) =
      2 ^ 64 * ((d mod 2 ^ 64 + 2 ^ 64 * (v + d div 2 ^ 64)) div 2 ^ 64 mod c) +
      (d mod 2 ^ 64 + 2 ^ 64 * (v + d div 2 ^ 64)) mod 2 ^ 64"
    using zmod_zmult2_eq [of c _ "2 ^ 64"] assms by simp
  then show ?thesis by simp
qed

lemma int_unat_of_int: "int (unat (word_of_int d :: u64)) = d mod 2 ^ 64"
  by (simp add: uint_word_of_int)

lemma uval_sub_limbs:
  "length x = length y \<Longrightarrow> b \<in> {0, 1} \<Longrightarrow>
   int (uval (sub_limbs x y b)) = (int (uval x) - int (uval y) - b) mod 2 ^ (64 * length x)"
proof (induction x y b rule: sub_limbs.induct)
  case (1 a as b bs c)
  let ?d = "uint a - uint b - c"
  let ?c = "if ?d < 0 then 1 else 0 :: int"
  have bounds: "0 \<le> uint a" "uint a < 2 ^ 64" "0 \<le> uint b" "uint b < 2 ^ 64"
    using uint_lt2p [of a] uint_lt2p [of b] by simp_all
  moreover have "c = 0 \<or> c = 1" using 1(4) by blast
  ultimately have d: "- (2 ^ 64) \<le> ?d" "?d < 2 ^ 64" by (elim disjE; linarith)+
  have div: "?d div 2 ^ 64 = - ?c"
  proof (cases "?d < 0")
    case True
    then show ?thesis using d int_div_pos_eq [of ?d "2 ^ 64" "- 1" "?d + 2 ^ 64"] by simp
  next
    case False
    then show ?thesis using d by (simp add: div_pos_pos_trivial)
  qed
  have limb: "sub_limbs (a # as) (b # bs) c = word_of_int ?d # sub_limbs as bs ?c"
    using word_of_int_inverse [of "?d + 2 ^ 64"] by (auto simp: Let_def word_of_int_eq_iff take_bit_eq_mod)
  have "int (unat (word_of_int ?d :: u64)) = ?d mod 2 ^ 64" by (rule int_unat_of_int)
  moreover have "int (uval (sub_limbs as bs ?c)) = (int (uval as) - int (uval bs) + ?d div 2 ^ 64) mod 2 ^ (64 * length as)"
    unfolding div using 1 by (cases "?d < 0") auto
  ultimately have "int (uval (sub_limbs (a # as) (b # bs) c)) =
      ?d mod 2 ^ 64 + 2 ^ 64 * ((int (uval as) - int (uval bs) + ?d div 2 ^ 64) mod 2 ^ (64 * length as))"
    unfolding limb by simp
  also have "\<dots> = (?d + 2 ^ 64 * (int (uval as) - int (uval bs))) mod (2 ^ 64 * 2 ^ (64 * length as))"
    by (rule int_mod_step) simp
  also have "?d + 2 ^ 64 * (int (uval as) - int (uval bs)) = int (uval (a # as)) - int (uval (b # bs)) - c"
    by (simp add: algebra_simps)
  finally show ?case by (simp add: power_add)
qed auto

lemma length_mul_limbs [simp]: "length (mul_limbs a x c) = length a"
  by (induction a x c rule: mul_limbs.induct) (auto simp: Let_def)

lemma uval_mul_limbs:
  "unat c < 2 ^ 64 \<Longrightarrow> uval (mul_limbs a x c) = (uval a * unat x + unat c) mod 2 ^ (64 * length a)"
proof (induction a x c rule: mul_limbs.induct)
  case (2 a as x c)
  let ?p = "ucast a * ucast x + c :: u128"
  have bounds: "unat a \<le> 2 ^ 64 - 1" "unat x \<le> 2 ^ 64 - 1" "unat c \<le> 2 ^ 64 - 1"
    using unat_u64_less [of a] unat_u64_less [of x] 2(2) by simp_all
  have "unat a * unat x \<le> (2 ^ 64 - 1) * (2 ^ 64 - 1)" using bounds(1,2) by (rule mult_le_mono)
  with bounds(3) have small: "unat a * unat x + unat c < 2 ^ 128" by simp
  then have p: "unat ?p = unat a * unat x + unat c"
    by (simp add: unat_word_ariths unat_up)
  then have "unat (drop_bit 64 ?p) < 2 ^ 64"
    using small by (simp add: carry_out less_mult_imp_div_less)
  from 2(1) [OF refl this] have ih: "uval (mul_limbs as x (drop_bit 64 ?p)) =
      (uval as * unat x + unat ?p div 2 ^ 64) mod 2 ^ (64 * length as)"
    by (simp add: carry_out)
  have "uval (mul_limbs (a # as) x c) =
      unat ?p mod 2 ^ 64 + 2 ^ 64 * ((uval as * unat x + unat ?p div 2 ^ 64) mod 2 ^ (64 * length as))"
    by (simp add: Let_def ih carry_out)
  also have "\<dots> = (unat ?p + 2 ^ 64 * (uval as * unat x)) mod (2 ^ 64 * 2 ^ (64 * length as))"
    by (rule mod_step)
  also have "unat ?p + 2 ^ 64 * (uval as * unat x) = uval (a # as) * unat x + unat c"
    unfolding p by (simp add: algebra_simps)
  finally show ?case by (simp add: power_add)
qed simp

lemma or_low_bits: "a < 2 ^ n \<Longrightarrow> push_bit n r OR a = push_bit n r + a" for a r n :: nat
proof -
  assume "a < 2 ^ n"
  then have "take_bit n a = a" by (rule take_bit_nat_eq_self)
  then have low: "bit a i \<Longrightarrow> i < n" for i by (metis bit_take_bit_iff)
  have "push_bit n r AND a = 0"
    by (rule bit_eqI) (auto simp: bit_and_iff bit_push_bit_iff dest!: low)
  then show "push_bit n r OR a = push_bit n r + a" by (simp add: disjunctive_add_eq_or)
qed

lemma unat_join:
  fixes r :: u128 and a :: u64
  assumes "unat r < 2 ^ 64"
  shows "unat (push_bit 64 r OR ucast a) = 2 ^ 64 * unat r + unat a"
proof -
  have "unat (push_bit 64 r) = push_bit 64 (unat r)"
    using assms by (subst unsigned_push_bit_eq) (simp add: push_bit_eq_mult take_bit_nat_eq_self)
  moreover have "push_bit 64 (unat r) OR unat a = push_bit 64 (unat r) + unat a"
    using unat_u64_less [of a] by (rule or_low_bits)
  ultimately show ?thesis by (simp add: unsigned_or_eq unat_up push_bit_eq_mult mult.commute)
qed

lemma length_div_limbs [simp]: "length (fst (div_limbs a x)) = length a"
  by (induction a x rule: div_limbs.induct) (auto simp: Let_def split_def)

lemma uval_div_limbs:
  assumes "x \<noteq> 0"
  shows "uval (fst (div_limbs a x)) = uval a div unat x \<and> unat (snd (div_limbs a x)) = uval a mod unat x"
proof (induction a)
  case (Cons a as)
  let ?q = "fst (div_limbs as x)" and ?r = "snd (div_limbs as x)"
  let ?cur = "push_bit 64 ?r OR ucast a :: u128"
  have x: "0 < unat x" "unat x < 2 ^ 64" using assms unat_u64_less [of x] by (simp_all add: unat_gt_0)
  have r: "unat ?r < unat x" using Cons x by simp
  then have cur: "unat ?cur = 2 ^ 64 * unat ?r + unat a" using x by (intro unat_join) simp
  have "unat a < 2 ^ 64" by (rule unat_u64_less)
  moreover have "2 ^ 64 * (unat ?r + 1) \<le> 2 ^ 64 * unat x" using r by (intro mult_left_mono) simp_all
  ultimately have "unat ?cur < unat x * 2 ^ 64" by (simp add: cur)
  then have q: "unat ?cur div unat x < 2 ^ 64" by (simp add: less_mult_imp_div_less mult.commute)
  have "unat (ucast (?cur div ucast x) :: u64) = unat ?cur div unat x"
    by (subst unsigned_ucast_eq, simp only: unat_div_distrib unat_up) (use q in \<open>simp add: take_bit_nat_eq_self\<close>)
  moreover have "unat (?cur mod ucast x) = unat ?cur mod unat x"
    by (simp only: unat_mod_distrib unat_up)
  moreover have "2 ^ 64 * (unat ?r + unat x * (uval as div unat x)) = 2 ^ 64 * uval as" using Cons by simp
  then have "2 ^ 64 * uval as = 2 ^ 64 * unat ?r + 2 ^ 64 * unat x * (uval as div unat x)"
    by (simp only: distrib_left mult.assoc)
  then have "uval (a # as) = unat ?cur + 2 ^ 64 * unat x * (uval as div unat x)"
    by (simp only: uval.simps cur)
  moreover have "(unat ?cur + 2 ^ 64 * unat x * (uval as div unat x)) div unat x =
      unat ?cur div unat x + 2 ^ 64 * (uval as div unat x)"
    using x by (simp add: algebra_simps)
  moreover have "(unat ?cur + 2 ^ 64 * unat x * (uval as div unat x)) mod unat x = unat ?cur mod unat x"
    by (simp add: algebra_simps)
  ultimately show ?case using Cons by (simp add: Let_def split_def)
qed simp

lemma length_shl_limbs [simp]: "length (shl_limbs x c) = length x"
  by (induction x c rule: shl_limbs.induct) auto

lemma uval_shl_limbs:
  "unat c \<le> 1 \<Longrightarrow> uval (shl_limbs x c) = (2 * uval x + unat c) mod 2 ^ (64 * length x)"
proof (induction x c rule: shl_limbs.induct)
  case (2 a as c)
  let ?s = "2 * unat a + unat c"
  have a: "unat a < 2 ^ 64" by (rule unat_u64_less)
  have top: "unat (drop_bit 63 a) = unat a div 2 ^ 63"
    using a by (subst unsigned_drop_bit_eq) (simp add: take_bit_nat_eq_self drop_bit_eq_div)
  also have "unat a div 2 ^ 63 = ?s div 2 ^ 64"
    using 2(2) by (cases "unat c") (auto simp: div_mult2_eq [of _ 2 "2 ^ 63"])
  finally have top: "unat (drop_bit 63 a) = ?s div 2 ^ 64" .
  have "unat (push_bit 1 a) = take_bit 64 (push_bit 1 (unat a))"
    by (subst unsigned_push_bit_eq) simp
  then have "unat (push_bit 1 a OR c) = take_bit 64 (push_bit 1 (unat a) OR unat c)"
    using 2(2) unat_u64_less [of c]
    by (simp only: unsigned_or_eq take_bit_or take_bit_nat_eq_self)
  also have "push_bit 1 (unat a) OR unat c = ?s"
    using 2(2) or_low_bits [of "unat c" 1 "unat a"] by simp
  finally have low: "unat (push_bit 1 a OR c) = ?s mod 2 ^ 64" by (simp add: take_bit_eq_mod)
  have "unat (drop_bit 63 a) \<le> 1" using a 2(2) by (simp add: top)
  from 2(1) [OF this] have "uval (shl_limbs (a # as) c) =
      ?s mod 2 ^ 64 + 2 ^ 64 * ((2 * uval as + ?s div 2 ^ 64) mod 2 ^ (64 * length as))"
    by (simp only: shl_limbs.simps uval.simps low top)
  also have "\<dots> = (?s + 2 ^ 64 * (2 * uval as)) mod (2 ^ 64 * 2 ^ (64 * length as))" by (rule mod_step)
  finally show ?case by (simp add: power_add algebra_simps)
qed simp

lemma limbs_less_iff: "length x = length y \<Longrightarrow> limbs_less x y \<longleftrightarrow> uval x < uval y"
proof (induction x y rule: list_induct2)
  case (Cons a as b bs)
  have "unat a < 2 ^ 64" "unat b < 2 ^ 64" by (rule unat_u64_less)+
  then have "unat a + 2 ^ 64 * uval as < unat b + 2 ^ 64 * uval bs \<longleftrightarrow>
      uval as < uval bs \<or> (uval as = uval bs \<and> unat a < unat b)" by auto
  moreover have "uval as = uval bs \<longleftrightarrow> as = bs" using Cons.hyps uval_inject by blast
  ultimately show ?case using Cons.IH by (simp add: word_less_nat_alt)
qed simp

lemma uval_not: "uval (map NOT x) = 2 ^ (64 * length x) - 1 - uval x"
proof (induction x)
  case (Cons a x)
  have "NOT a = - 1 - a" by (simp add: not_eq_complement algebra_simps)
  then have "unat (NOT a) = 2 ^ 64 - 1 - unat a"
    using unat_sub [of a "- 1"] unat_minus_one_word [where 'l = 64] by simp
  moreover have "unat a < 2 ^ 64" "uval x < 2 ^ (64 * length x)" by (rule unat_u64_less uval_less)+
  ultimately show ?case using Cons by (simp add: power_add diff_mult_distrib2)
qed simp

section \<open>Bits and long division\<close>

lemma word_bit_odd: "(drop_bit k (a :: u64)) AND 1 = 1 \<longleftrightarrow> odd (unat a div 2 ^ k)"
proof -
  have "drop_bit k a AND 1 = of_bool (bit a k)"
    by (simp add: and_one_eq bit_iff_odd_drop_bit odd_iff_mod_2_eq_one)
  moreover have "bit a k \<longleftrightarrow> bit (unat a) k" by (simp add: bit_unsigned_iff)
  ultimately show ?thesis by (simp add: bit_iff_odd)
qed

lemma uval_bit: "i < 64 * length x \<Longrightarrow> u256_bit x i \<longleftrightarrow> odd (uval x div 2 ^ i)"
proof (induction x arbitrary: i)
  case (Cons a x)
  show ?case
  proof (cases "i < 64")
    case True
    then have "(2::nat) ^ 64 = 2 ^ i * 2 ^ (64 - i)" by (simp flip: power_add)
    then have "uval (a # x) div 2 ^ i = unat a div 2 ^ i + 2 ^ (64 - i) * uval x"
      by (simp only: uval.simps mult.assoc) simp
    moreover have "even ((2::nat) ^ (64 - i) * uval x)" using True by simp
    ultimately show ?thesis using True by (simp add: u256_bit_def word_bit_odd)
  next
    case False
    then have pow: "(2::nat) ^ i = 2 ^ 64 * 2 ^ (i - 64)" by (subst power_add [symmetric]) simp
    have "uval (a # x) div 2 ^ 64 = uval x" using unat_u64_less [of a] by simp
    then have "uval (a # x) div 2 ^ i = uval x div 2 ^ (i - 64)"
      by (simp only: pow div_mult2_eq)
    moreover have "u256_bit (a # x) i \<longleftrightarrow> u256_bit x (i - 64)"
      using False by (simp add: u256_bit_def nth_Cons' div_eq_0_iff le_div_geq [of 64 i] le_mod_geq [of 64 i])
    ultimately show ?thesis using Cons.IH [of "i - 64"] Cons.prems False by simp
  qed
qed simp

lemma uval_update:
  assumes "j < length x" "unat w = unat (x ! j) + d"
  shows "uval (x[j := w]) = uval x + 2 ^ (64 * j) * d"
  using assms
proof (induction x arbitrary: j)
  case (Cons a x)
  then show ?case by (cases j) (simp_all add: power_add algebra_simps)
qed simp

lemma unat_or_bit:
  assumes "k < 64" "\<not> odd (unat (a :: u64) div 2 ^ k)"
  shows "unat (a OR push_bit k 1) = unat a + 2 ^ k"
proof -
  have "unat (push_bit k 1 :: u64) = 2 ^ k"
    using assms(1) by (subst unsigned_push_bit_eq) (simp add: push_bit_eq_mult take_bit_nat_eq_self)
  moreover have "unat a AND 2 ^ k = 0"
    using assms(2) by (simp add: and_exp_eq_0_iff_not_bit bit_iff_odd)
  ultimately show ?thesis by (simp add: unsigned_or_eq disjunctive_add_eq_or)
qed

lemma uval_set_bit:
  assumes "i < 64 * length x" "\<not> odd (uval x div 2 ^ i)"
  shows "uval (u256_set_bit i x) = uval x + 2 ^ i"
proof -
  have j: "i div 64 < length x" using assms(1) by (simp add: less_mult_imp_div_less mult.commute)
  have "\<not> odd (unat (x ! (i div 64)) div 2 ^ (i mod 64))"
    using assms uval_bit [OF assms(1)] by (simp add: u256_bit_def word_bit_odd)
  then have "unat (x ! (i div 64) OR push_bit (i mod 64) 1) = unat (x ! (i div 64)) + 2 ^ (i mod 64)"
    by (intro unat_or_bit) simp_all
  from uval_update [OF j this] show ?thesis by (simp add: u256_set_bit_def flip: power_add)
qed

lemma length_set_bit [simp]: "length (u256_set_bit i x) = length x"
  by (simp add: u256_set_bit_def)

lemma u256_wrapping_sub_val:
  assumes "length x = length y" "uval y \<le> uval x"
  shows "uval (u256_wrapping_sub x y) = uval x - uval y"
proof -
  have "int (uval (u256_wrapping_sub x y)) = int (uval x - uval y) mod 2 ^ (64 * length x)"
    using uval_sub_limbs [OF assms(1), of 0] assms(2) by (simp add: u256_wrapping_sub_def of_nat_diff)
  also have "\<dots> = int (uval x - uval y)"
  proof -
    have "uval x - uval y < 2 ^ (64 * length x)" using uval_less [of x] by linarith
    then have "int (uval x - uval y) < 2 ^ (64 * length x)" by (metis of_nat_less_iff of_nat_numeral of_nat_power)
    then show ?thesis by (simp add: mod_pos_pos_trivial)
  qed
  finally show ?thesis by simp
qed

lemma div_double:
  fixes Y D b :: nat
  assumes "0 < D" "b \<le> 1"
  shows "(2 * Y + b) div D = 2 * (Y div D) + (if D \<le> 2 * (Y mod D) + b then 1 else 0)"
    and "(2 * Y + b) mod D = (2 * (Y mod D) + b) - (if D \<le> 2 * (Y mod D) + b then D else 0)"
proof -
  let ?r = "2 * (Y mod D) + b" and ?t = "if D \<le> 2 * (Y mod D) + b then 1 else 0 :: nat"
  have less: "Y mod D < D" using assms(1) by simp
  then have "?r < 2 * D" using assms(2) by linarith
  then have small: "?r - D * ?t < D" "D * ?t \<le> ?r" by auto
  have "2 * Y + b = 2 * (D * (Y div D) + Y mod D) + b" by simp
  also have "\<dots> = D * (2 * (Y div D)) + ?r" by (simp only: distrib_left mult.left_commute add.assoc)
  also have "\<dots> = D * (2 * (Y div D)) + (D * ?t + (?r - D * ?t))" using small(2) by simp
  also have "\<dots> = D * (2 * (Y div D) + ?t) + (?r - D * ?t)" by (simp only: distrib_left add.assoc)
  finally have split: "2 * Y + b = D * (2 * (Y div D) + ?t) + (?r - D * ?t)" .
  show "(2 * Y + b) div D = 2 * (Y div D) + ?t"
    unfolding split using small(1) assms(1) by (simp only: div_mult_self4) simp
  show "(2 * Y + b) mod D = ?r - (if D \<le> ?r then D else 0)"
    unfolding split mod_mult_self4 using small(1) by simp
qed

lemma div_loop_val:
  assumes "length x = 4" "length divisor = 4" "0 < uval divisor" "i \<le> 256"
    and "length quot = 4" "length rem = 4"
    and "uval rem = uval x div 2 ^ i mod uval divisor"
    and "uval quot = uval x div 2 ^ i div uval divisor * 2 ^ i"
  shows "uval (fst (div_loop i x divisor quot rem)) = uval x div uval divisor
    \<and> length (fst (div_loop i x divisor quot rem)) = 4"
  using assms(4-)
proof (induction i arbitrary: quot rem)
  case 0
  then show ?case by simp
next
  case (Suc i)
  let ?D = "uval divisor" and ?Y = "uval x div 2 ^ Suc i" and ?b = "uval x div 2 ^ i mod 2"
  let ?rem1 = "u256_shl1 rem"
  let ?rem2 = "if u256_bit x i then ?rem1[0 := (?rem1 ! 0) OR 1] else ?rem1"
  have "?Y = uval x div 2 ^ i div 2" by (simp only: power_Suc2 div_mult2_eq)
  then have Y: "uval x div 2 ^ i = 2 * ?Y + ?b" by presburger
  have "2 * (?Y mod ?D) + ?b \<le> uval x div 2 ^ i"
    using Y mod_less_eq_dividend [of ?Y ?D] by linarith
  also have "\<dots> \<le> uval x" by (rule div_le_dividend)
  finally have fits: "2 * (?Y mod ?D) + ?b < 2 ^ 256" using uval_less [of x] assms(1) by simp
  have rem1: "uval ?rem1 = 2 * (?Y mod ?D)" "length ?rem1 = 4"
    using uval_shl_limbs [of 0 rem] Suc.prems(3,4) fits by (simp_all add: u256_shl1_def)
  have bit: "u256_bit x i \<longleftrightarrow> ?b = 1" using uval_bit [of i x] assms(1) Suc.prems(1) by (simp add: odd_iff_mod_2_eq_one)
  have rem2: "uval ?rem2 = 2 * (?Y mod ?D) + ?b" "length ?rem2 = 4"
    using rem1 uval_set_bit [of 0 ?rem1] bit
    by (auto simp: u256_set_bit_def)
  have ge: "\<not> u256_less ?rem2 divisor \<longleftrightarrow> ?D \<le> 2 * (?Y mod ?D) + ?b"
    unfolding u256_less_def using limbs_less_iff [of ?rem2 divisor] rem2 assms(2) by (simp add: not_less)
  have b1: "?b \<le> 1" by simp
  have dbl: "uval x div 2 ^ i div ?D = 2 * (?Y div ?D) + (if ?D \<le> 2 * (?Y mod ?D) + ?b then 1 else 0)"
    "uval x div 2 ^ i mod ?D = 2 * (?Y mod ?D) + ?b - (if ?D \<le> 2 * (?Y mod ?D) + ?b then ?D else 0)"
    using trans [OF arg_cong [OF Y, of "\<lambda>z. z div ?D"] div_double(1) [OF assms(3) b1]]
      trans [OF arg_cong [OF Y, of "\<lambda>z. z mod ?D"] div_double(2) [OF assms(3) b1]] by simp_all
  have quot: "uval quot = 2 * (?Y div ?D) * 2 ^ i" using Suc.prems(5) by simp
  show ?case
  proof (cases "?D \<le> 2 * (?Y mod ?D) + ?b")
    case True
    have "uval (u256_set_bit i quot) = uval x div 2 ^ i div ?D * 2 ^ i"
      using uval_set_bit [of i quot] Suc.prems(1,2) True dbl(1) by (simp add: quot algebra_simps)
    moreover have "uval (u256_wrapping_sub ?rem2 divisor) = uval x div 2 ^ i mod ?D"
      using u256_wrapping_sub_val [of ?rem2 divisor] rem2 assms(2) True dbl(2) by simp
    moreover have "length (u256_wrapping_sub ?rem2 divisor) = 4"
      using rem2(2) assms(2) by (simp add: u256_wrapping_sub_def)
    ultimately show ?thesis
      using Suc.IH [of "u256_set_bit i quot" "u256_wrapping_sub ?rem2 divisor"] Suc.prems(1,2) True ge
      by (simp add: Let_def)
  next
    case False
    then show ?thesis
      using Suc.IH [of quot ?rem2] Suc.prems(1,2) rem2 dbl quot ge by (simp add: Let_def)
  qed
qed

lemma u256_val:
  assumes "u256_wf x" "u256_wf y"
  shows "uval (u256_wrapping_add x y) = (uval x + uval y) mod 2 ^ 256"
    and "uval (u256_mul_u64 x k) = uval x * unat k mod 2 ^ 256"
    and "uval (u256_not x) = 2 ^ 256 - 1 - uval x"
    and "u256_less x y \<longleftrightarrow> uval x < uval y"
    and "uval (u256_div x y) = uval x div uval y"
proof -
  have len: "length x = 4" "length y = 4" using assms by (simp_all add: u256_wf_def)
  show "uval (u256_wrapping_add x y) = (uval x + uval y) mod 2 ^ 256"
    using uval_add_limbs [of x y 0] len by (simp add: u256_wrapping_add_def)
  show "uval (u256_mul_u64 x k) = uval x * unat k mod 2 ^ 256"
    using uval_mul_limbs [of 0 x k] len by (simp add: u256_mul_u64_def)
  show "uval (u256_not x) = 2 ^ 256 - 1 - uval x"
    using uval_not [of x] len by (simp add: u256_not_def)
  show less: "u256_less x y \<longleftrightarrow> uval x < uval y"
    using limbs_less_iff [of x y] len by (simp add: u256_less_def)
  have zero: "u256_is_zero y \<longleftrightarrow> uval y = 0"
    using uval_inject [of y "[0, 0, 0, 0]"] len by (auto simp: u256_is_zero_def)
  show "uval (u256_div x y) = uval x div uval y"
  proof (cases "u256_is_zero y \<or> u256_less x y")
    case True
    then show ?thesis using zero less by (auto simp: u256_div_def U256_ZERO_def)
  next
    case False
    have "uval x div 2 ^ 256 = 0" using uval_less [of x] len by simp
    with False zero show ?thesis
      using div_loop_val [of x y 256 U256_ZERO U256_ZERO] len by (simp add: u256_div_def U256_ZERO_def)
  qed
qed

lemma u256_div_u64_val:
  assumes "x \<noteq> 0"
  obtains q where "u256_div_u64 a x = Ok q" "uval q = uval a div unat x" "length q = length a"
  using uval_div_limbs [OF assms, of a] assms by (auto simp: u256_div_u64_def intro: that)

lemma u256_wf_ops:
  "u256_wf x \<Longrightarrow> u256_wf y \<Longrightarrow> u256_wf (u256_wrapping_add x y)" "u256_wf x \<Longrightarrow> u256_wf (u256_mul_u64 x k)"
  "u256_wf x \<Longrightarrow> u256_wf (u256_not x)" "u256_wf U256_ZERO" "u256_wf U256_ONE"
  by (simp_all add: u256_wf_def u256_wrapping_add_def u256_mul_u64_def u256_not_def U256_ZERO_def U256_ONE_def)

lemma u256_wf_div: "u256_wf x \<Longrightarrow> u256_wf y \<Longrightarrow> u256_wf (u256_div x y)"
proof (cases "u256_is_zero y \<or> u256_less x y")
  case False
  assume wf: "u256_wf x" "u256_wf y"
  have "uval y \<noteq> 0" using False uval_inject [of y "[0, 0, 0, 0]"] wf by (auto simp: u256_is_zero_def u256_wf_def)
  moreover have "uval x div 2 ^ 256 = 0" using uval_less [of x] wf by (simp add: u256_wf_def)
  ultimately show ?thesis
    using div_loop_val [of x y 256 U256_ZERO U256_ZERO] wf False
    by (simp add: u256_div_def U256_ZERO_def u256_wf_def)
qed (simp add: u256_div_def u256_wf_ops)

end
