(* ===== verification/Btc_Target.thy ===== *)
theory Btc_Target
  imports Btc_Work
begin

text \<open>
  Targets and work: the byte form of a \<open>U256\<close>, the compact form of a target, the work of a block
  (\<^verbatim>\<open>work.rs\<close>, \<^verbatim>\<open>lib.rs\<close>), the network parameters (\<^verbatim>\<open>params.rs\<close>) and the retarget rule
  (\<^verbatim>\<open>retarget.rs\<close>) of \<^verbatim>\<open>crates/qlc-bitcoin/src\<close>.
\<close>

definition be_limb :: "bytes \<Rightarrow> u64" where
  "be_limb bs = fold (\<lambda>b v. push_bit 8 v OR ucast b) bs 0"

definition u256_from_be_bytes :: "bytes \<Rightarrow> u256" where
  "u256_from_be_bytes bs = rev (map (\<lambda>i. be_limb (take 8 (drop (i * 8) bs))) [0..<4])"

definition u256_to_be_bytes :: "u256 \<Rightarrow> bytes" where
  "u256_to_be_bytes x =
     concat (map (\<lambda>i. map (\<lambda>j. ucast (drop_bit (56 - j * 8) (x ! (3 - i)))) [0..<8]) [0..<4])"

definition compact_to_target :: "u32 \<Rightarrow> bytes" where
  "compact_to_target bits =
     (let exp = unat (drop_bit 24 bits);
          mant = bits AND 0x7fffff;
          target = replicate 32 0
      in if 3 \<le> exp \<and> exp \<le> 32 then
           (let msb_index = 32 - exp in
            target[msb_index := ucast (drop_bit 16 mant), msb_index + 1 := ucast (drop_bit 8 mant),
                   msb_index + 2 := ucast mant])
         else if exp < 3 then
           (let v = drop_bit (8 * (3 - exp)) mant in
            target[29 := ucast (drop_bit 16 v), 30 := ucast (drop_bit 8 v), 31 := ucast v])
         else target)"

definition u256_from_compact :: "u32 \<Rightarrow> u256" where
  "u256_from_compact bits = u256_from_be_bytes (compact_to_target bits)"

fun first_nonzero :: "bytes \<Rightarrow> nat" where
  "first_nonzero [] = 0"
| "first_nonzero (b # bs) = (if b = 0 then Suc (first_nonzero bs) else 0)"

definition u256_to_compact :: "u256 \<Rightarrow> u32" where
  "u256_to_compact x =
     (let bytes = u256_to_be_bytes x;
          first = first_nonzero bytes
      in if first = 32 then 0
         else
         let size = word_of_nat (32 - first) :: u32;
             b0 = ucast (bytes ! first) :: u32;
             b1 = (if first + 1 < 32 then ucast (bytes ! (first + 1)) else 0) :: u32;
             b2 = (if first + 2 < 32 then ucast (bytes ! (first + 2)) else 0) :: u32;
             mant = push_bit 16 b0 OR push_bit 8 b1 OR b2;
             (mant, exp) = (if mant AND 0x800000 \<noteq> 0 then (drop_bit 8 mant, size + 1) else (mant, size))
         in push_bit 24 exp OR (mant AND 0x7fffff))"

definition block_work :: "u32 \<Rightarrow> u256" where
  "block_work bits =
     (let target = u256_from_compact bits in
      if u256_is_zero target then U256_ZERO
      else
      let divisor = u256_wrapping_add target U256_ONE in
      if u256_is_zero divisor then U256_ZERO
      else u256_wrapping_add (u256_div (u256_not target) divisor) U256_ONE)"

section \<open>Network parameters and the retarget rule\<close>

datatype network = Bitcoin | BitcoinCash

record network_params_t =
  np_network :: network
  np_name :: string
  np_magic :: bytes
  np_pow_limit_bits :: u32
  np_target_timespan :: u32
  np_target_spacing :: u32
  np_confirmation_depth :: u32
  np_requires_pinned_checkpoint :: bool

definition BITCOIN :: network_params_t where
  "BITCOIN = \<lparr>np_network = Bitcoin, np_name = ''Bitcoin'', np_magic = [0xf9, 0xbe, 0xb4, 0xd9],
     np_pow_limit_bits = 0x1d00ffff, np_target_timespan = 1209600, np_target_spacing = 600,
     np_confirmation_depth = 6, np_requires_pinned_checkpoint = True\<rparr>"

definition BITCOIN_CASH :: network_params_t where
  "BITCOIN_CASH = \<lparr>np_network = BitcoinCash, np_name = ''Bitcoin Cash'', np_magic = [0xe3, 0xe1, 0xf3, 0xe8],
     np_pow_limit_bits = 0x1d00ffff, np_target_timespan = 1209600, np_target_spacing = 600,
     np_confirmation_depth = 15, np_requires_pinned_checkpoint = True\<rparr>"

fun network_params :: "network \<Rightarrow> network_params_t" where
  "network_params Bitcoin = BITCOIN"
| "network_params BitcoinCash = BITCOIN_CASH"

text \<open>Integer division panics at zero.\<close>

definition retarget_interval :: "network_params_t \<Rightarrow> ('e, u32) res" where
  "retarget_interval p =
     (if np_target_spacing p = 0 then Panic else Ok (np_target_timespan p div np_target_spacing p))"

definition sat_mul :: "'l::len word \<Rightarrow> 'l word \<Rightarrow> 'l word" where
  "sat_mul a b = (if unat a * unat b < 2 ^ LENGTH('l) then a * b else - 1)"

text \<open>\<open>clamp\<close> with a lower bound that never exceeds the upper one.\<close>

definition clamp_timespan :: "u32 \<Rightarrow> network_params_t \<Rightarrow> u32" where
  "clamp_timespan actual p =
     (let lo = np_target_timespan p div 4; hi = sat_mul (np_target_timespan p) 4
      in if actual < lo then lo else if actual > hi then hi else actual)"

definition compute_retarget :: "u32 \<Rightarrow> u32 \<Rightarrow> network_params_t \<Rightarrow> ('e, u32) res" where
  "compute_retarget old_bits actual_timespan p =
     (let span = clamp_timespan actual_timespan p;
          old = u256_from_compact old_bits
      in and_then (u256_div_u64 (u256_mul_u64 old (ucast span)) (ucast (np_target_timespan p))) (\<lambda>next.
         let limit = u256_from_compact (np_pow_limit_bits p);
             next = (if u256_less limit next then limit else next)
         in Ok (u256_to_compact next)))"

section \<open>Byte strings as numbers\<close>

definition be_nat :: "bytes \<Rightarrow> nat" where
  "be_nat bs = le_nat (rev bs)"

lemma le_nat_append: "le_nat (xs @ ys) = le_nat xs + 256 ^ length xs * le_nat ys"
  by (induction xs) (auto simp: algebra_simps)

lemma be_nat_Nil [simp]: "be_nat [] = 0"
  by (simp add: be_nat_def)

lemma be_nat_Cons [simp]: "be_nat (b # bs) = unat b * 256 ^ length bs + be_nat bs"
  by (simp add: be_nat_def le_nat_append)

lemma be_nat_append: "be_nat (xs @ ys) = be_nat xs * 256 ^ length ys + be_nat ys"
  by (simp add: be_nat_def le_nat_append)

lemma be_nat_less: "be_nat bs < 256 ^ length bs"
  using le_nat_less [of "rev bs"] by (simp add: be_nat_def)

lemma unat_shift_byte:
  assumes "unat (v :: u64) < 2 ^ 56"
  shows "unat (push_bit 8 v OR ucast (b :: u8)) = unat v * 256 + unat b"
proof -
  have b: "unat b < 2 ^ 8" using unsigned_less [of b] by simp
  have "unat (push_bit 8 v) = push_bit 8 (unat v)"
    using assms by (subst unsigned_push_bit_eq) (simp add: push_bit_eq_mult take_bit_nat_eq_self)
  moreover have "unat (ucast b :: u64) = unat b"
    using b by (simp add: unsigned_ucast_eq take_bit_nat_eq_self)
  ultimately show ?thesis
    using or_low_bits [OF b, of "unat v"] by (simp add: unsigned_or_eq push_bit_eq_mult)
qed

lemma unat_be_limb_fold:
  fixes v :: u64
  assumes "length bs \<le> 8" "unat v < 256 ^ (8 - length bs)"
  shows "unat (fold (\<lambda>b v. push_bit 8 v OR ucast b) bs v) = unat v * 256 ^ length bs + be_nat bs"
  using assms
proof (induction bs arbitrary: v)
  case (Cons b bs)
  let ?w = "push_bit 8 v OR ucast b :: u64"
  have "(256::nat) ^ (8 - length (b # bs)) \<le> 256 ^ 7" using Cons.prems(1) by (intro power_increasing) auto
  then have w: "unat ?w = unat v * 256 + unat b" using Cons.prems(2) by (intro unat_shift_byte) simp
  have "unat b < 256" using unsigned_less [of b] by simp
  moreover have "unat v + 1 \<le> 256 ^ (8 - length (b # bs))" using Cons.prems(2) by simp
  then have "(unat v + 1) * 256 \<le> 256 ^ (8 - length (b # bs)) * 256" by simp
  moreover have "(256::nat) ^ (8 - length (b # bs)) * 256 = 256 ^ (8 - length bs)"
    using Cons.prems(1) by (simp flip: power_Suc2 add: Suc_diff_le [symmetric])
  ultimately have "unat ?w < 256 ^ (8 - length bs)" by (simp add: w)
  with Cons.IH [of ?w] Cons.prems(1) show ?case by (simp add: w algebra_simps)
qed simp

lemma unat_be_limb: "length bs = 8 \<Longrightarrow> unat (be_limb bs) = be_nat bs"
  using unat_be_limb_fold [of bs 0] by (simp add: be_limb_def)

lemma split32:
  assumes "length bs = 32"
  shows "bs = take 8 bs @ take 8 (drop 8 bs) @ take 8 (drop 16 bs) @ take 8 (drop 24 bs)"
proof -
  have "take 8 (drop 24 bs) = drop 24 bs" using assms by simp
  moreover have "drop 16 bs = take 8 (drop 16 bs) @ drop 24 bs"
    using append_take_drop_id [of 8 "drop 16 bs"] by simp
  moreover have "drop 8 bs = take 8 (drop 8 bs) @ drop 16 bs"
    using append_take_drop_id [of 8 "drop 8 bs"] by simp
  ultimately show ?thesis by (metis append_take_drop_id)
qed

lemma uval_from_be_bytes:
  assumes "length bs = 32"
  shows "uval (u256_from_be_bytes bs) = be_nat bs" "u256_wf (u256_from_be_bytes bs)"
proof -
  have four: "[0..<4] = [0, 1, 2, 3 :: nat]" by (simp add: upt_rec)
  show "u256_wf (u256_from_be_bytes bs)" by (simp add: u256_wf_def u256_from_be_bytes_def)
  have "uval (u256_from_be_bytes bs) = be_nat (take 8 (drop 24 bs)) + 2 ^ 64 * (be_nat (take 8 (drop 16 bs)) +
      2 ^ 64 * (be_nat (take 8 (drop 8 bs)) + 2 ^ 64 * be_nat (take 8 bs)))"
    using assms by (simp add: u256_from_be_bytes_def four unat_be_limb)
  also have "\<dots> = be_nat (take 8 bs @ take 8 (drop 8 bs) @ take 8 (drop 16 bs) @ take 8 (drop 24 bs))"
    using assms by (simp add: be_nat_append)
  finally show "uval (u256_from_be_bytes bs) = be_nat bs" using split32 [OF assms] by simp
qed

lemma le_bytes_add: "le_bytes (m + n) v = le_bytes m v @ le_bytes n (v div 256 ^ m)"
  by (induction m arbitrary: v) (auto simp: div_mult2_eq)

lemma word8_of_nat_mod: "(word_of_nat (v mod (256 * k)) :: u8) = word_of_nat v"
proof (rule word_eq_iff_unsigned [where 'a = nat, THEN iffD2])
  show "unat (word_of_nat (v mod (256 * k)) :: u8) = unat (word_of_nat v :: u8)"
    unfolding unat_of_nat by (simp add: mod_mod_cancel)
qed

lemma le_bytes_mod: "m \<le> n \<Longrightarrow> le_bytes m (v mod 256 ^ n) = le_bytes m v"
proof (induction m arbitrary: v n)
  case (Suc m)
  then obtain k where n: "n = Suc k" by (cases n) auto
  have "(v mod 256 ^ n) div 256 = v div 256 mod 256 ^ k" by (simp add: n mod_mult2_eq)
  with Suc n show ?case by (simp add: word8_of_nat_mod)
qed simp

lemma ucast_drop_bit: "ucast (drop_bit k (w :: u64)) = (word_of_nat (unat w div 2 ^ k) :: u8)"
proof (rule word_eq_iff_unsigned [where 'a = nat, THEN iffD2])
  have "unat (drop_bit k w) = unat w div 2 ^ k"
    using unat_u64_less [of w] by (subst unsigned_drop_bit_eq) (simp add: take_bit_nat_eq_self drop_bit_eq_div)
  then show "unat (ucast (drop_bit k w) :: u8) = unat (word_of_nat (unat w div 2 ^ k) :: u8)"
    by (simp add: unsigned_ucast_eq take_bit_eq_mod unat_of_nat)
qed

lemma le_bytes_map: "le_bytes n v = map (\<lambda>i. word_of_nat (v div 256 ^ i)) [0..<n]"
  by (induction n arbitrary: v) (simp_all add: upt_conv_Cons map_Suc_upt [symmetric] div_mult2_eq [symmetric] del: upt_Suc)

lemma limb_bytes:
  "map (\<lambda>j. ucast (drop_bit (56 - j * 8) (w :: u64))) [0..<8] = rev (le_bytes 8 (unat w))"
proof (rule nth_equalityI)
  fix i assume "i < length (map (\<lambda>j. ucast (drop_bit (56 - j * 8) w) :: u8) [0..<8])"
  then have i: "i < 8" by simp
  then have "(2::nat) ^ (56 - i * 8) = 256 ^ (7 - i)"
    using power_mult [of "2::nat" 8 "7 - i"] by (simp add: diff_mult_distrib2 mult.commute)
  moreover have "[0..<8] ! (7 - i) = 7 - i" using i by (subst nth_upt) auto
  ultimately show "map (\<lambda>j. ucast (drop_bit (56 - j * 8) w) :: u8) [0..<8] ! i = rev (le_bytes 8 (unat w)) ! i"
    using i by (simp add: ucast_drop_bit le_bytes_map rev_nth)
qed (simp add: le_bytes_map)

lemma le_bytes_8_limbs:
  "le_bytes 8 (unat a + 2 ^ 64 * v) = le_bytes 8 (unat a)" "(unat (a :: u64) + 2 ^ 64 * v) div 256 ^ 8 = v"
proof -
  have "unat a < 2 ^ 64" by (rule unat_u64_less)
  then have "(unat a + 2 ^ 64 * v) mod 256 ^ 8 = unat a" "(unat a + 2 ^ 64 * v) div 256 ^ 8 = v" by simp_all
  then show "le_bytes 8 (unat a + 2 ^ 64 * v) = le_bytes 8 (unat a)" "(unat a + 2 ^ 64 * v) div 256 ^ 8 = v"
    using le_bytes_mod [of 8 8 "unat a + 2 ^ 64 * v"] by simp_all
qed

lemma to_be_bytes_val:
  assumes "u256_wf x"
  shows "u256_to_be_bytes x = rev (le_bytes 32 (uval x))"
proof -
  have four: "[0..<4] = [0, 1, 2, 3 :: nat]" by (simp add: upt_rec)
  from assms obtain a b c d where x: "x = [a, b, c, d]"
    by (auto simp: u256_wf_def numeral_eq_Suc length_Suc_conv)
  have "le_bytes (8 + (8 + (8 + 8))) (uval x) =
      le_bytes 8 (unat a) @ le_bytes 8 (unat b) @ le_bytes 8 (unat c) @ le_bytes 8 (unat d)"
    unfolding le_bytes_add by (simp only: x uval.simps le_bytes_8_limbs)
  then show ?thesis by (simp add: u256_to_be_bytes_def four limb_bytes x)
qed

lemma be_bytes_round_trip:
  "u256_wf x \<Longrightarrow> u256_from_be_bytes (u256_to_be_bytes x) = x"
  "length bs = 32 \<Longrightarrow> u256_to_be_bytes (u256_from_be_bytes bs) = bs"
proof -
  show "u256_to_be_bytes (u256_from_be_bytes bs) = bs" if l: "length bs = 32"
    using le_bytes_le_nat [of "rev bs"] l
    by (simp add: to_be_bytes_val uval_from_be_bytes be_nat_def)
  assume x: "u256_wf x"
  then have l: "length (u256_to_be_bytes x) = 32" by (simp add: to_be_bytes_val)
  have "uval x < 2 ^ 256" using uval_less [of x] x by (simp add: u256_wf_def)
  then have "uval (u256_from_be_bytes (u256_to_be_bytes x)) = uval x"
    using x l by (simp add: uval_from_be_bytes) (simp add: to_be_bytes_val be_nat_def le_nat_le_bytes)
  then show "u256_from_be_bytes (u256_to_be_bytes x) = x"
    using x uval_from_be_bytes(2) [OF l] by (intro uval_inject) (auto simp: u256_wf_def)
qed

section \<open>The value of a compact target\<close>

text \<open>The reading of the compact form: a mantissa of 23 bits shifted by whole bytes.\<close>

definition compact_value :: "u32 \<Rightarrow> nat" where
  "compact_value bits =
     (let exp = unat bits div 2 ^ 24; mant = unat bits mod 2 ^ 23 in
      if 3 \<le> exp \<and> exp \<le> 32 then mant * 256 ^ (exp - 3)
      else if exp < 3 then mant div 256 ^ (3 - exp)
      else 0)"

lemma replicate_update3:
  assumes "i + 3 \<le> n"
  shows "(replicate n z)[i := a, i + 1 := b, i + 2 := c] = replicate i z @ [a, b, c] @ replicate (n - i - 3) z"
proof -
  have "replicate n z = replicate i z @ [z, z, z] @ replicate (n - i - 3) z"
    using assms by (simp flip: replicate_add replicate_Suc add: replicate_app_Cons_same)
  then show ?thesis by (simp add: list_update_append)
qed

lemma be_nat_zeros [simp]: "be_nat (replicate n 0 @ bs) = be_nat bs" "be_nat (replicate n 0) = 0"
  by (induction n) auto

lemma unat_ucast_byte: "unat (ucast (w :: u32) :: u8) = unat w mod 256"
  by (simp add: unsigned_ucast_eq take_bit_eq_mod)

lemma unat_drop_u32: "unat (drop_bit k (w :: u32)) = unat w div 2 ^ k"
proof -
  have "unat w < 2 ^ 32" using unsigned_less [of w] by simp
  then show ?thesis
    by (subst unsigned_drop_bit_eq) (simp add: take_bit_nat_eq_self drop_bit_eq_div)
qed

lemma mant_bytes:
  assumes "unat (m :: u32) < 2 ^ 24"
  shows "be_nat [ucast (drop_bit 16 m), ucast (drop_bit 8 m), ucast m] = unat m"
proof -
  let ?m = "unat m"
  have "?m div 2 ^ 16 < 256" using assms by simp
  then have "?m div 2 ^ 16 mod 256 = ?m div 2 ^ 16" by simp
  moreover have "?m mod 2 ^ 16 = 256 * (?m div 2 ^ 8 mod 256) + ?m mod 256"
    using mod_mult2_eq [of ?m 256 256] by simp
  moreover have "?m = ?m div 2 ^ 16 * 2 ^ 16 + ?m mod 2 ^ 16" by simp
  ultimately show ?thesis by (simp add: unat_ucast_byte unat_drop_u32)
qed

lemma unat_mant: "unat (bits AND 0x7fffff :: u32) = unat bits mod 2 ^ 23"
proof -
  have "bits AND 0x7fffff = take_bit 23 bits" by (simp add: take_bit_eq_mask mask_eq_exp_minus_1)
  then have "unat (bits AND 0x7fffff) = take_bit 23 (unat bits)"
    by (simp only: unsigned_take_bit_eq)
  then show ?thesis by (simp only: take_bit_eq_mod)
qed

lemma compact_to_target_val:
  "be_nat (compact_to_target bits) = compact_value bits" "length (compact_to_target bits) = 32"
proof -
  let ?e = "unat bits div 2 ^ 24" and ?m = "bits AND 0x7fffff :: u32"
  show "length (compact_to_target bits) = 32" by (simp add: compact_to_target_def Let_def)
  have e: "unat (drop_bit 24 bits) = ?e" by (rule unat_drop_u32)
  have m: "unat ?m < 2 ^ 23" by (simp add: unat_mant)
  have low: "be_nat ((replicate 32 0)[i := ucast (drop_bit 16 v), i + 1 := ucast (drop_bit 8 v), i + 2 := ucast v])
      = unat v * 256 ^ (29 - i)" if "unat (v :: u32) < 2 ^ 24" "i \<le> 29" for v i
  proof -
    have "be_nat ([ucast (drop_bit 16 v), ucast (drop_bit 8 v), ucast v] @ replicate (29 - i) 0)
        = unat v * 256 ^ (29 - i)"
      by (simp only: be_nat_append mant_bytes [OF that(1)]) simp
    with that(2) show ?thesis by (subst replicate_update3) simp_all
  qed
  consider "3 \<le> ?e" "?e \<le> 32" | "?e < 3" | "32 < ?e" by linarith
  then show "be_nat (compact_to_target bits) = compact_value bits"
  proof cases
    case 1
    have "be_nat (compact_to_target bits) = unat ?m * 256 ^ (29 - (32 - ?e))"
      using 1 m low [of ?m "32 - ?e"] unfolding compact_to_target_def Let_def e by (simp del: drop_bit_and)
    moreover have "29 - (32 - ?e) = ?e - 3" using 1 by simp
    ultimately show ?thesis using 1 by (simp add: compact_value_def unat_mant)
  next
    case 2
    let ?v = "drop_bit (8 * (3 - ?e)) ?m"
    have v: "unat ?v = unat ?m div 2 ^ (8 * (3 - ?e))" by (rule unat_drop_u32)
    also have "\<dots> \<le> unat ?m" by (rule div_le_dividend)
    finally have "unat ?v < 2 ^ 24" using m by simp
    then have "be_nat (compact_to_target bits) = unat ?v"
      using 2 low [of ?v 29] by (simp add: compact_to_target_def Let_def e)
    with 2 v show ?thesis by (simp add: compact_value_def unat_mant power_mult)
  next
    case 3
    then show ?thesis by (simp add: compact_to_target_def compact_value_def Let_def e)
  qed
qed

lemma uval_from_compact [simp]:
  "uval (u256_from_compact bits) = compact_value bits" "u256_wf (u256_from_compact bits)"
  using uval_from_be_bytes [of "compact_to_target bits"] compact_to_target_val [of bits]
  by (simp_all add: u256_from_compact_def)

lemma compact_value_less: "compact_value bits < 2 ^ 255"
proof -
  have m: "unat bits mod 2 ^ 23 < 2 ^ 23" by simp
  have "unat bits mod 2 ^ 23 * 256 ^ n < 2 ^ 255" if "n \<le> 29" for n
  proof -
    have "(256::nat) ^ n \<le> 256 ^ 29" using that by (intro power_increasing) auto
    then have "unat bits mod 2 ^ 23 * 256 ^ n \<le> unat bits mod 2 ^ 23 * 256 ^ 29" by (rule mult_left_mono) simp
    also have "\<dots> < 2 ^ 23 * 256 ^ 29" using m by (rule mult_strict_right_mono) simp
    finally show ?thesis by simp
  qed
  moreover have "unat bits mod 2 ^ 23 div k < 2 ^ 255" for k
    using m by (intro order_le_less_trans [OF div_le_dividend [of "unat bits mod 2 ^ 23" k]]) simp
  ultimately show ?thesis by (auto simp: compact_value_def Let_def)
qed

lemma u256_is_zero_val: "u256_wf x \<Longrightarrow> u256_is_zero x \<longleftrightarrow> uval x = 0"
  using uval_inject [of x "[0, 0, 0, 0]"] by (auto simp: u256_is_zero_def u256_wf_def)

section \<open>The work of a block\<close>

lemma block_work_val:
  "uval (block_work bits) = (if compact_value bits = 0 then 0 else 2 ^ 256 div (compact_value bits + 1))"
  "u256_wf (block_work bits)"
proof -
  let ?t = "u256_from_compact bits" and ?v = "compact_value bits"
  let ?d = "u256_wrapping_add ?t U256_ONE" and ?N = "2 ^ 256 :: nat"
  show "u256_wf (block_work bits)" by (auto simp: block_work_def Let_def u256_wf_ops u256_wf_div)
  have d: "uval ?d = ?v + 1" "u256_wf ?d"
    using compact_value_less [of bits] u256_val(1) [of ?t U256_ONE] by (simp_all add: u256_wf_ops) (simp add: U256_ONE_def)
  have n: "uval (u256_not ?t) = ?N - 1 - ?v" using u256_val(3) [of ?t ?t] by simp
  have q: "uval (u256_div (u256_not ?t) ?d) = (?N - 1 - ?v) div (?v + 1)"
    using u256_val(5) [of "u256_not ?t" ?d] d n by (simp add: u256_wf_ops)
  have sum: "(?N - 1 - ?v) div (?v + 1) + 1 = ?N div (?v + 1)"
  proof -
    have "?N = (?N - 1 - ?v) + (?v + 1)" using compact_value_less [of bits] by simp
    then show ?thesis by (metis Suc_eq_plus1 add.commute add_gr_0 div_add_self2 less_numeral_extra(1) not_gr_zero)
  qed
  show "uval (block_work bits) = (if ?v = 0 then 0 else ?N div (?v + 1))"
  proof (cases "?v = 0")
    case True
    then show ?thesis by (simp add: block_work_def u256_is_zero_val U256_ZERO_def)
  next
    case False
    have "?N div (?v + 1) \<le> ?N div 2" using False by (intro div_le_mono2) auto
    then have "uval (u256_wrapping_add (u256_div (u256_not ?t) ?d) U256_ONE) = ?N div (?v + 1)"
      using u256_val(1) [of "u256_div (u256_not ?t) ?d" U256_ONE] q d sum
      by (simp add: u256_wf_ops u256_wf_div) (simp add: U256_ONE_def)
    with False d show ?thesis by (simp add: block_work_def Let_def u256_is_zero_val)
  qed
qed

section \<open>The compact form rounds down\<close>

lemma unat_push_u32:
  assumes "unat (w :: u32) * 2 ^ k < 2 ^ 32"
  shows "unat (push_bit k w) = unat w * 2 ^ k"
  using assms by (subst unsigned_push_bit_eq) (simp add: push_bit_eq_mult take_bit_nat_eq_self)

lemma unat_up_byte: "unat (ucast (b :: u8) :: u32) = unat b"
proof -
  have "unat b < 2 ^ 8" using unsigned_less [of b] by simp
  then show ?thesis by (simp add: unsigned_ucast_eq take_bit_nat_eq_self)
qed

lemma unat_or_low:
  assumes "unat (w :: u32) * 2 ^ k < 2 ^ 32" "unat (v :: u32) < 2 ^ k"
  shows "unat (push_bit k w OR v) = unat w * 2 ^ k + unat v"
  using assms or_low_bits [of "unat v" k "unat w"]
  by (simp add: unsigned_or_eq unat_push_u32) (simp add: push_bit_eq_mult)

lemma unat_three_bytes:
  fixes a b c :: u8
  shows "unat (push_bit 16 (ucast a) OR push_bit 8 (ucast b) OR ucast c :: u32) =
    unat a * 65536 + unat b * 256 + unat c"
proof -
  have "unat a < 256" "unat b < 256" "unat c < 256"
    using unsigned_less [of a] unsigned_less [of b] unsigned_less [of c] by simp_all
  then have "unat (push_bit 8 (ucast b) OR ucast c :: u32) = unat b * 256 + unat c"
    by (subst unat_or_low) (simp_all add: unat_up_byte)
  with \<open>unat a < 256\<close> \<open>unat b < 256\<close> \<open>unat c < 256\<close> show ?thesis
    by (subst unat_or_low) (simp_all add: unat_up_byte)
qed

lemma sign_bit:
  assumes "unat (m :: u32) < 2 ^ 24"
  shows "m AND 0x800000 \<noteq> 0 \<longleftrightarrow> 2 ^ 23 \<le> unat m"
proof -
  have "m AND 0x800000 \<noteq> 0 \<longleftrightarrow> bit m 23" using bit_iff_and_push_bit_not_eq_0 [of m 23] by simp
  also have "\<dots> \<longleftrightarrow> bit (unat m) 23" by (simp only: bit_unsigned_iff) simp
  also have "\<dots> \<longleftrightarrow> odd (unat m div 2 ^ 23)" by (rule bit_iff_odd)
  also have "\<dots> \<longleftrightarrow> 2 ^ 23 \<le> unat m"
  proof -
    have "unat m div 2 ^ 23 < 2" using assms by simp
    then have "unat m div 2 ^ 23 = 0 \<or> unat m div 2 ^ 23 = 1" by linarith
    then show ?thesis by (auto simp: div_eq_0_iff)
  qed
  finally show ?thesis .
qed

text \<open>The top three bytes of a number of \<open>n\<close> bytes, zero bytes standing in for missing ones.\<close>

definition top_bytes :: "nat \<Rightarrow> nat \<Rightarrow> nat" where
  "top_bytes n v = (if 3 \<le> n then v div 256 ^ (n - 3) else v * 256 ^ (3 - n))"

lemma leading_bytes:
  assumes "be_nat bs \<noteq> 0"
  obtains k b cs where "bs = replicate k 0 @ b # cs" "b \<noteq> 0" "first_nonzero bs = k"
  using assms
proof (induction bs arbitrary: thesis)
  case (Cons a bs)
  show ?case
  proof (cases "a = 0")
    case True
    from Cons.IH obtain k b cs where "bs = replicate k 0 @ b # cs" "b \<noteq> 0" "first_nonzero bs = k"
      using Cons.prems(2) True by auto
    with True Cons.prems(1) [of "Suc k" b cs] show ?thesis by simp
  next
    case False
    with Cons.prems(1) [of 0 a bs] show ?thesis by simp
  qed
qed simp

lemma to_compact_val:
  assumes "u256_wf x" "uval x \<noteq> 0"
  obtains n where "1 \<le> n" "n \<le> 32" "256 ^ (n - 1) \<le> uval x" "uval x < 256 ^ n"
    and "unat (u256_to_compact x) = (let m = top_bytes n (uval x) in
      if 2 ^ 23 \<le> m then (n + 1) * 2 ^ 24 + m div 256 else n * 2 ^ 24 + m)"
proof -
  let ?bs = "u256_to_be_bytes x"
  have l: "length ?bs = 32" using assms(1) by (simp add: to_be_bytes_val)
  have v: "be_nat ?bs = uval x" using uval_from_be_bytes(1) [OF l] be_bytes_round_trip(1) [OF assms(1)] by simp
  with assms(2) obtain k b cs where bs: "?bs = replicate k 0 @ b # cs" "b \<noteq> 0" "first_nonzero ?bs = k"
    using leading_bytes by metis
  let ?n = "Suc (length cs)"
  have k: "k = 32 - ?n" "?n \<le> 32" using l bs(1) by auto
  have b: "unat b < 256" "1 \<le> unat b" using unsigned_less [of b] bs(2) by (simp_all add: unat_gt_0 Suc_le_eq)
  have val: "uval x = unat b * 256 ^ length cs + be_nat cs" using v bs(1) by simp
  have cs: "be_nat cs < 256 ^ length cs" by (rule be_nat_less)
  have lo: "256 ^ (?n - 1) \<le> uval x"
    using mult_right_mono [OF b(2), of "256 ^ length cs"] by (simp add: val trans_le_add1)
  have top_le: "(unat b + 1) * 256 ^ length cs \<le> 256 ^ ?n" unfolding power_Suc using b(1) by (intro mult_right_mono) auto
  have "uval x < (unat b + 1) * 256 ^ length cs" using cs unfolding val by simp
  from order_less_le_trans [OF this top_le] have hi: "uval x < 256 ^ ?n" .
  define c1 where "c1 = (if cs = [] then 0 else cs ! 0)"
  define c2 where "c2 = (if length cs < 2 then 0 else cs ! 1)"
  have c1: "(if k + 1 < 32 then ucast (?bs ! (k + 1)) else 0) = (ucast c1 :: u32)"
    using k by (cases cs) (auto simp: bs(1) c1_def nth_append)
  have c2: "(if k + 2 < 32 then ucast (?bs ! (k + 2)) else 0) = (ucast c2 :: u32)"
    using k by (cases cs rule: remdups_adj.cases) (auto simp: bs(1) c2_def nth_append)
  have c0: "?bs ! k = b" by (simp add: bs(1) nth_append)
  have top: "top_bytes ?n (uval x) = unat b * 65536 + unat c1 * 256 + unat c2"
  proof (cases cs rule: remdups_adj.cases)
    case (3 c d ds)
    have "be_nat ds < 256 ^ length ds" by (rule be_nat_less)
    moreover have "uval x = (unat b * 65536 + unat c * 256 + unat d) * 256 ^ length ds + be_nat ds"
      by (simp add: val 3 algebra_simps)
    ultimately show ?thesis by (simp add: top_bytes_def c1_def c2_def 3)
  qed (simp_all add: top_bytes_def c1_def c2_def val)
  define m where "m = push_bit 16 (ucast b) OR push_bit 8 (ucast c1) OR (ucast c2 :: u32)"
  have m: "unat m = top_bytes ?n (uval x)" by (simp add: m_def unat_three_bytes top)
  have "unat c1 < 256" "unat c2 < 256" using unsigned_less [of c1] unsigned_less [of c2] by simp_all
  then have m24: "unat m < 2 ^ 24" using b(1) by (simp add: m top)
  have join: "unat (push_bit 24 (word_of_nat e :: u32) OR (w AND 0x7fffff)) = e * 2 ^ 24 + unat w"
    if "e \<le> 33" "unat w < 2 ^ 23" for e w
    using that by (subst unat_or_low) (simp_all add: unat_of_nat unat_mant)
  have sz: "(word_of_nat (32 - k) :: u32) + 1 = word_of_nat (?n + 1)" using k by simp
  have "k \<noteq> 32" using k by simp
  then have red: "u256_to_compact x = (let (m', e) = if m AND 0x800000 \<noteq> 0 then (drop_bit 8 m, word_of_nat (32 - k) + 1)
      else (m, word_of_nat (32 - k)) in push_bit 24 e OR (m' AND 0x7fffff))"
    unfolding u256_to_compact_def Let_def bs(3) c0 c1 c2 m_def by simp
  have "unat (u256_to_compact x) = (if 2 ^ 23 \<le> unat m then (?n + 1) * 2 ^ 24 + unat m div 256 else ?n * 2 ^ 24 + unat m)"
  proof (cases "2 ^ 23 \<le> unat m")
    case True
    have "unat (drop_bit 8 m) = unat m div 256" using unat_drop_u32 [of 8 m] by simp
    moreover have "unat m div 256 < 2 ^ 23" using m24 by simp
    moreover have "u256_to_compact x = push_bit 24 (word_of_nat (?n + 1)) OR (drop_bit 8 m AND 0x7fffff)"
      using True unfolding red sign_bit [OF m24] sz by simp
    ultimately show ?thesis using True k(2) join [of "?n + 1" "drop_bit 8 m"] by simp
  next
    case False
    with m24 k join [of ?n m] show ?thesis by (simp add: red sign_bit del: of_nat_Suc)
  qed
  with lo hi k(2) m that [of ?n] show thesis by (simp add: Let_def)
qed

lemma top_bytes_less: "v < 256 ^ n \<Longrightarrow> n \<ge> 1 \<Longrightarrow> top_bytes n v < 2 ^ 24"
proof (cases "3 \<le> n")
  case True
  assume "v < 256 ^ n"
  moreover have "(256::nat) ^ n = 2 ^ 24 * 256 ^ (n - 3)"
    using True power_add [of "256::nat" 3 "n - 3"] by simp
  ultimately show ?thesis using True by (simp add: top_bytes_def less_mult_imp_div_less)
next
  case False
  assume "v < 256 ^ n" "n \<ge> 1"
  moreover from this have "n = 1 \<or> n = 2" using False by linarith
  ultimately show ?thesis by (auto simp: top_bytes_def)
qed

text \<open>How many low bytes the compact form of a number of \<open>n\<close> bytes drops.\<close>

definition dropped :: "nat \<Rightarrow> nat \<Rightarrow> nat" where
  "dropped n v = (if n < 3 then 0 else if 2 ^ 23 \<le> top_bytes n v then n - 2 else n - 3)"

lemma compact_value_parts:
  assumes "unat bits = e * 2 ^ 24 + m" "m < 2 ^ 23" "e \<le> 32"
  shows "compact_value bits = (if 3 \<le> e then m * 256 ^ (e - 3) else m div 256 ^ (3 - e))"
proof -
  have "unat bits div 2 ^ 24 = e" using assms by simp
  moreover have "unat bits mod 2 ^ 23 = m"
  proof -
    have "unat bits = 2 ^ 23 * (2 * e) + m" using assms(1) by simp
    then show ?thesis using assms(2) by (simp only: mod_mult_self4 mod_less)
  qed
  ultimately show ?thesis using assms(3) by (simp add: compact_value_def Let_def)
qed

lemma compact_rounds:
  assumes "1 \<le> n" "n \<le> 32" "256 ^ (n - 1) \<le> v" "v < 256 ^ n" "v < 2 ^ 255"
    and "unat bits = (let m = top_bytes n v in
      if 2 ^ 23 \<le> m then (n + 1) * 2 ^ 24 + m div 256 else n * 2 ^ 24 + m)"
  shows "compact_value bits = v div 256 ^ dropped n v * 256 ^ dropped n v"
    and "dropped n v = 0 \<or> 2 ^ 15 * 256 ^ dropped n v \<le> v"
proof -
  let ?m = "top_bytes n v"
  have m: "?m < 2 ^ 24" using assms(1,4) by (intro top_bytes_less)
  show "dropped n v = 0 \<or> 2 ^ 15 * 256 ^ dropped n v \<le> v"
  proof (cases "n < 3")
    case False
    then obtain j where n: "n = j + 3" using le_Suc_ex [of 3 n] by auto
    have "256 ^ (2 + j) \<le> v" using assms(3) by (simp add: n)
    then have "256 ^ 2 * 256 ^ j \<le> v" by (simp only: power_add)
    moreover have "2 ^ 23 * 256 ^ j \<le> v" if "2 ^ 23 \<le> v div 256 ^ j"
    proof -
      have "2 ^ 23 * 256 ^ j \<le> v div 256 ^ j * 256 ^ j" using that by (rule mult_right_mono) simp
      also have "\<dots> \<le> v" by (rule div_times_less_eq_dividend)
      finally show ?thesis .
    qed
    ultimately show ?thesis by (auto simp: dropped_def top_bytes_def n)
  qed (simp add: dropped_def)
  show "compact_value bits = v div 256 ^ dropped n v * 256 ^ dropped n v"
  proof (cases "2 ^ 23 \<le> ?m")
    case True
    have "n \<noteq> 32"
    proof
      assume n: "n = 32"
      have "2 ^ 23 * 256 ^ 29 \<le> ?m * 256 ^ 29" using True by (rule mult_right_mono) simp
      also have "\<dots> \<le> v" by (simp only: n top_bytes_def) (simp add: div_times_less_eq_dividend)
      finally show False using assms(5) by simp
    qed
    with True assms(2,6) m have cv: "compact_value bits =
        (if 3 \<le> n + 1 then ?m div 256 * 256 ^ (n + 1 - 3) else ?m div 256 div 256 ^ (3 - (n + 1)))"
      by (intro compact_value_parts) (simp_all add: Let_def)
    consider "n = 1" | "n = 2" | j where "n = j + 3"
      using assms(1) le_Suc_ex [of 3 n] by (metis One_nat_def add.commute le_antisym not_less_eq_eq numeral_2_eq_2 numeral_3_eq_3)
    then show ?thesis
    proof cases
      case (3 j)
      then show ?thesis using True by (simp add: cv dropped_def top_bytes_def div_mult2_eq [symmetric] mult.commute)
    qed (simp_all add: cv dropped_def top_bytes_def)
  next
    case False
    with assms(2,6) m have cv: "compact_value bits = (if 3 \<le> n then ?m * 256 ^ (n - 3) else ?m div 256 ^ (3 - n))"
      by (intro compact_value_parts) (simp_all add: Let_def)
    show ?thesis
    proof (cases "3 \<le> n")
      case True
      then have "dropped n v = n - 3" "?m = v div 256 ^ (n - 3)" using False by (simp_all add: dropped_def top_bytes_def)
      with True cv show ?thesis by simp
    qed (simp add: cv dropped_def top_bytes_def)
  qed
qed

lemma byte_length_unique:
  assumes "256 ^ (n - 1) \<le> v" "v < (256::nat) ^ n" "256 ^ (n' - 1) \<le> v" "v < 256 ^ n'" "1 \<le> n" "1 \<le> n'"
  shows "n' = n"
proof -
  have "(256::nat) ^ (n - 1) < 256 ^ n'" "(256::nat) ^ (n' - 1) < 256 ^ n" using assms by linarith+
  then have "n - 1 < n'" "n' - 1 < n" by (auto dest: power_less_imp_less_exp [rotated])
  with assms(5,6) show ?thesis by linarith
qed

lemma top_bytes_rounded:
  assumes "3 \<le> n"
  shows "top_bytes n (v div 256 ^ (n - 3) * 256 ^ (n - 3)) = top_bytes n v"
    and "top_bytes n (v div 256 ^ (n - 2) * 256 ^ (n - 2)) = top_bytes n v div 256 * 256"
proof -
  show "top_bytes n (v div 256 ^ (n - 3) * 256 ^ (n - 3)) = top_bytes n v" using assms by (simp add: top_bytes_def)
  have "n - 2 = Suc (n - 3)" using assms by simp
  then have p: "(256::nat) ^ (n - 2) = 256 * 256 ^ (n - 3)" by simp
  have "v div 256 ^ (n - 2) = v div 256 ^ (n - 3) div 256"
    by (simp only: p div_mult2_eq [symmetric]) (simp add: mult.commute)
  then show "top_bytes n (v div 256 ^ (n - 2) * 256 ^ (n - 2)) = top_bytes n v div 256 * 256"
    using assms unfolding p by (simp add: top_bytes_def mult.assoc [symmetric])
qed

lemma zero_bytes: "le_bytes n 0 = replicate n 0" "first_nonzero (replicate n 0) = n"
  by (induction n) auto

lemma compact_canonical:
  assumes "u256_wf x" "uval x < 2 ^ 255"
  shows "u256_to_compact (u256_from_compact (u256_to_compact x)) = u256_to_compact x"
    and "\<exists>k. compact_value (u256_to_compact x) = uval x div 256 ^ k * 256 ^ k \<and> (k = 0 \<or> 2 ^ 15 * 256 ^ k \<le> uval x)"
proof -
  let ?b = "u256_to_compact x"
  let ?y = "u256_from_compact ?b" and ?v = "uval x"
  have zero: "u256_to_compact y = 0 \<and> compact_value (u256_to_compact y) = 0" if "uval y = 0" "u256_wf y" for y
  proof -
    have y: "y = U256_ZERO" using that uval_inject [of y U256_ZERO] by (simp add: u256_wf_def U256_ZERO_def)
    have "u256_to_compact y = 0" unfolding y
      by (simp add: u256_to_compact_def to_be_bytes_val u256_wf_ops)
        (simp add: U256_ZERO_def zero_bytes)
    then show ?thesis by (simp add: compact_value_def)
  qed
  have "u256_to_compact ?y = ?b \<and> (\<exists>k. compact_value ?b = ?v div 256 ^ k * 256 ^ k \<and> (k = 0 \<or> 2 ^ 15 * 256 ^ k \<le> ?v))"
  proof (cases "?v = 0")
    case True
    then show ?thesis using zero [of x] zero [of ?y] assms(1) by auto
  next
    case False
    then obtain n where n: "1 \<le> n" "n \<le> 32" "256 ^ (n - 1) \<le> ?v" "?v < 256 ^ n"
      and b: "unat ?b = (let m = top_bytes n ?v in
        if 2 ^ 23 \<le> m then (n + 1) * 2 ^ 24 + m div 256 else n * 2 ^ 24 + m)"
      using to_compact_val [OF assms(1)] by blast
    let ?k = "dropped n ?v" and ?w = "compact_value ?b"
    note round = compact_rounds [OF n assms(2) b]
    have w: "uval ?y = ?w" "u256_wf ?y" "?w \<le> ?v" "?w \<noteq> 0" "256 ^ (n - 1) \<le> ?w"
    proof -
      show "uval ?y = ?w" "u256_wf ?y" by simp_all
      show "?w \<le> ?v" by (simp add: round(1) div_times_less_eq_dividend)
      have "?k \<le> n - 1" by (auto simp: dropped_def)
      then have p: "(256::nat) ^ (n - 1) = 256 ^ (n - 1 - ?k) * 256 ^ ?k" by (simp flip: power_add)
      with n(3) have "256 ^ (n - 1 - ?k) \<le> ?v div 256 ^ ?k" by (simp add: less_eq_div_iff_mult_less_eq)
      then show "256 ^ (n - 1) \<le> ?w" unfolding p round(1) by (rule mult_right_mono) simp
      then show "?w \<noteq> 0" by (metis not_gr_zero power_eq_0_iff le_zero_eq zero_neq_numeral)
    qed
    then obtain n' where n': "1 \<le> n'" "n' \<le> 32" "256 ^ (n' - 1) \<le> ?w" "?w < 256 ^ n'"
      and b': "unat (u256_to_compact ?y) = (let m = top_bytes n' ?w in
        if 2 ^ 23 \<le> m then (n' + 1) * 2 ^ 24 + m div 256 else n' * 2 ^ 24 + m)"
      using to_compact_val [of ?y] by auto
    have "?w < 256 ^ n" using w(3) n(4) by simp
    then have same: "n' = n" using byte_length_unique [of n ?w n'] w(5) n(1) n' by simp
    have "unat (u256_to_compact ?y) = unat ?b"
    proof (cases "3 \<le> n")
      case True
      show ?thesis
      proof (cases "2 ^ 23 \<le> top_bytes n ?v")
        case True
        then have "2 ^ 23 \<le> top_bytes n ?v div 256 * 256" by simp
        with True \<open>3 \<le> n\<close> show ?thesis
          by (simp add: b b' same round(1) dropped_def top_bytes_rounded)
      next
        case False
        with \<open>3 \<le> n\<close> show ?thesis by (simp add: b b' same round(1) dropped_def top_bytes_rounded)
      qed
    next
      case False
      then have "?w = ?v" by (simp add: round(1) dropped_def)
      then show ?thesis by (simp add: b b' same Let_def)
    qed
    then show ?thesis using round by (auto simp: word_unat_eq_iff)
  qed
  then show "u256_to_compact ?y = ?b" "\<exists>k. compact_value ?b = ?v div 256 ^ k * 256 ^ k \<and> (k = 0 \<or> 2 ^ 15 * 256 ^ k \<le> ?v)"
    by simp_all
qed

section \<open>The retarget rule\<close>

lemma unat_up32: "unat (ucast (a :: u32) :: u64) = unat a"
proof -
  have "unat a < 2 ^ 32" using unsigned_less [of a] by simp
  then show ?thesis by (simp add: unsigned_ucast_eq take_bit_nat_eq_self)
qed

lemma unat_sat_mul: "unat (sat_mul a b) = min (unat a * unat b) (2 ^ LENGTH('l) - 1)" for a b :: "'l::len word"
  by (auto simp: sat_mul_def unat_word_ariths unat_minus_one_word)

lemma clamp_bounds:
  "unat (np_target_timespan p) div 4 \<le> unat (clamp_timespan t p)"
  "unat (clamp_timespan t p) \<le> 4 * unat (np_target_timespan p)"
  "unat (np_target_timespan p) div 4 \<le> unat t \<Longrightarrow> unat t \<le> 4 * unat (np_target_timespan p) \<Longrightarrow> clamp_timespan t p = t"
proof -
  have T: "unat (np_target_timespan p) < 2 ^ 32" using unsigned_less [of "np_target_timespan p"] by simp
  have t: "unat t < 2 ^ 32" using unsigned_less [of t] by simp
  note defs = clamp_timespan_def Let_def word_less_nat_alt unat_sat_mul unat_div_distrib
  show "unat (np_target_timespan p) div 4 \<le> unat (clamp_timespan t p)"
    using T by (auto simp: defs)
  show "unat (clamp_timespan t p) \<le> 4 * unat (np_target_timespan p)"
    by (auto simp: defs)
  show "clamp_timespan t p = t"
    if "unat (np_target_timespan p) div 4 \<le> unat t" "unat t \<le> 4 * unat (np_target_timespan p)"
    using that t by (auto simp: defs)
qed

text \<open>The target the rule asks for, as a number, before it is rounded to the compact form.\<close>

definition retarget_value :: "u32 \<Rightarrow> u32 \<Rightarrow> network_params_t \<Rightarrow> nat" where
  "retarget_value old t p = min (compact_value (np_pow_limit_bits p))
     (compact_value old * unat (clamp_timespan t p) div unat (np_target_timespan p))"

lemma compute_retarget_val:
  assumes "np_target_timespan p \<noteq> 0" "compact_value old < 2 ^ 224"
  obtains b k where "compute_retarget old t p = Ok b" "u256_to_compact (u256_from_compact b) = b"
    "compact_value b = retarget_value old t p div 256 ^ k * 256 ^ k"
    "k = 0 \<or> 2 ^ 15 * 256 ^ k \<le> retarget_value old t p"
proof -
  let ?next = "retarget_value old t p"
  let ?s = "clamp_timespan t p" and ?T = "np_target_timespan p" and ?L = "u256_from_compact (np_pow_limit_bits p)"
  let ?prod = "u256_mul_u64 (u256_from_compact old) (ucast ?s)"
  have "unat ?s < 2 ^ 32" using unsigned_less [of ?s] by simp
  then have "compact_value old * unat ?s < 2 ^ 224 * 2 ^ 32"
    using assms(2) by (intro mult_strict_mono) auto
  then have prod: "uval ?prod = compact_value old * unat ?s"
    using u256_val(2) [of "u256_from_compact old" "u256_from_compact old" "ucast ?s"] by (simp add: unat_up32)
  have T: "(ucast ?T :: u64) \<noteq> 0" using assms(1) by (simp add: word_unat_eq_iff unat_up32)
  let ?q = "fst (div_limbs ?prod (ucast ?T))"
  have q: "u256_div_u64 ?prod (ucast ?T) = Ok ?q" "uval ?q = uval ?prod div unat ?T" "length ?q = length ?prod"
    using uval_div_limbs [OF T, of ?prod] T by (simp_all add: u256_div_u64_def unat_up32)
  let ?n = "if u256_less ?L ?q then ?L else ?q"
  have wf: "u256_wf ?q" "u256_wf ?L" using q(3) u256_wf_ops(2) [OF uval_from_compact(2)] by (simp_all only: u256_wf_def uval_from_compact(2) [unfolded u256_wf_def])
  have n: "u256_wf ?n" "uval ?n = ?next"
    using wf u256_val(4) [OF wf(2,1)] by (auto simp: retarget_value_def q(2) prod)
  have "?next < 2 ^ 255" using compact_value_less [of "np_pow_limit_bits p"] by (simp add: retarget_value_def min_less_iff_disj)
  with compact_canonical [OF n(1)] n(2) obtain k where
    "u256_to_compact (u256_from_compact (u256_to_compact ?n)) = u256_to_compact ?n"
    "compact_value (u256_to_compact ?n) = ?next div 256 ^ k * 256 ^ k" "k = 0 \<or> 2 ^ 15 * 256 ^ k \<le> ?next" by auto
  moreover have "compute_retarget old t p = Ok (u256_to_compact ?n)"
    by (simp add: compute_retarget_def Let_def q(1))
  ultimately show thesis by (rule that [rotated])
qed

lemma retarget_value_le: "np_target_timespan p \<noteq> 0 \<Longrightarrow> retarget_value old t p \<le> 4 * compact_value old"
proof -
  assume "np_target_timespan p \<noteq> 0"
  then have T: "0 < unat (np_target_timespan p)" by (simp add: unat_gt_0)
  have "compact_value old * unat (clamp_timespan t p) \<le> compact_value old * (4 * unat (np_target_timespan p))"
    by (intro mult_left_mono clamp_bounds) simp
  then have "compact_value old * unat (clamp_timespan t p) div unat (np_target_timespan p)
      \<le> (4 * compact_value old) * unat (np_target_timespan p) div unat (np_target_timespan p)"
    by (intro div_le_mono) (simp add: mult.assoc mult.left_commute)
  with T show ?thesis by (simp add: retarget_value_def)
qed

text \<open>C32: the work of a block is computed exactly: over the limbs and through the complement that avoid
  the 257-bit numerator, \<open>block_work\<close> is \<open>2^256 div (target + 1)\<close> for the target the header's bits
  stand for, and nothing for the zero target.\<close>

theorem block_work_exact:
  "uval (block_work bits) = (if be_nat (compact_to_target bits) = 0 then 0
     else 2 ^ 256 div (be_nat (compact_to_target bits) + 1)) \<and>
   be_nat (compact_to_target bits) = compact_value bits \<and> u256_wf (block_work bits)"
  using block_work_val [of bits] compact_to_target_val [of bits] by simp

text \<open>the difficulty moves within its bounds: the retarget rule always returns bits, in canonical
  form, whose target is at most the network's limit and at most four times the old one, and is the
  old target scaled by the clamped timespan, rounded down by less than one part in 32768.\<close>

theorem retarget_bounded:
  assumes "np_target_timespan p \<noteq> 0" "compact_value old < 2 ^ 224"
  shows "\<exists>b. (compute_retarget old t p :: ('e, u32) res) = Ok b \<and> u256_to_compact (u256_from_compact b) = b \<and>
    compact_value b \<le> compact_value (np_pow_limit_bits p) \<and> compact_value b \<le> 4 * compact_value old \<and>
    compact_value b \<le> retarget_value old t p \<and>
    2 ^ 15 * (retarget_value old t p - compact_value b) \<le> retarget_value old t p"
proof -
  let ?n = "retarget_value old t p"
  obtain b k where b: "(compute_retarget old t p :: ('e, u32) res) = Ok b" "u256_to_compact (u256_from_compact b) = b"
    "compact_value b = ?n div 256 ^ k * 256 ^ k" "k = 0 \<or> 2 ^ 15 * 256 ^ k \<le> ?n"
    using compute_retarget_val [OF assms] by blast
  have le: "compact_value b \<le> ?n" by (simp add: b(3) div_times_less_eq_dividend)
  have "?n - compact_value b = ?n mod 256 ^ k" by (simp add: b(3) minus_div_mult_eq_mod)
  moreover have "2 ^ 15 * (?n mod 256 ^ k) \<le> ?n" if "2 ^ 15 * 256 ^ k \<le> ?n"
    by (rule order_trans [OF mult_left_mono that]) (simp_all add: less_imp_le)
  ultimately have "2 ^ 15 * (?n - compact_value b) \<le> ?n" using b(4) by auto
  moreover have "?n \<le> compact_value (np_pow_limit_bits p)" by (simp add: retarget_value_def)
  ultimately show ?thesis using b(1,2) le retarget_value_le [OF assms(1), of old t] by (intro exI [of _ b]) simp
qed

theorem retarget_bounded_witness:
  "\<exists>b. compute_retarget 0x1d00ffff 1022578 BITCOIN = Ok b \<and> compact_value b \<le> 4 * compact_value 0x1d00ffff"
proof -
  have "np_target_timespan BITCOIN \<noteq> 0" "compact_value 0x1d00ffff < 2 ^ 224"
    by (simp_all add: BITCOIN_def compact_value_def Let_def)
  from retarget_bounded [OF this, of 1022578] show ?thesis by blast
qed

end
