(* ===== verification/Btc_Hash.thy ===== *)
theory Btc_Hash
  imports Prelude
begin

text \<open>
  SHA-256 as \<^verbatim>\<open>crates/qlc-bitcoin/src/sha256.rs\<close> computes it (the padding loop, the schedule filled in
  place, the eight working variables of the round loop) and the standard's own description of the
  function (FIPS 180-4: the number of padding bytes, the schedule as a recurrence, one round as a
  function of its number), with the proof that the two agree.
\<close>

unbundle bit_operations_syntax

text \<open>The round constants, in rows of eight as in the source.\<close>

definition SHA_K :: "u32 list" where
  "SHA_K = concat [
    [0x428a2f98, 0x71374491, 0xb5c0fbcf, 0xe9b5dba5, 0x3956c25b, 0x59f111f1, 0x923f82a4, 0xab1c5ed5],
    [0xd807aa98, 0x12835b01, 0x243185be, 0x550c7dc3, 0x72be5d74, 0x80deb1fe, 0x9bdc06a7, 0xc19bf174],
    [0xe49b69c1, 0xefbe4786, 0x0fc19dc6, 0x240ca1cc, 0x2de92c6f, 0x4a7484aa, 0x5cb0a9dc, 0x76f988da],
    [0x983e5152, 0xa831c66d, 0xb00327c8, 0xbf597fc7, 0xc6e00bf3, 0xd5a79147, 0x06ca6351, 0x14292967],
    [0x27b70a85, 0x2e1b2138, 0x4d2c6dfc, 0x53380d13, 0x650a7354, 0x766a0abb, 0x81c2c92e, 0x92722c85],
    [0xa2bfe8a1, 0xa81a664b, 0xc24b8b70, 0xc76c51a3, 0xd192e819, 0xd6990624, 0xf40e3585, 0x106aa070],
    [0x19a4c116, 0x1e376c08, 0x2748774c, 0x34b0bcb5, 0x391c0cb3, 0x4ed8aa4a, 0x5b9cca4f, 0x682e6ff3],
    [0x748f82ee, 0x78a5636f, 0x84c87814, 0x8cc70208, 0x90befffa, 0xa4506ceb, 0xbef9a3f7, 0xc67178f2]]"

definition SHA_H0 :: "u32 list" where
  "SHA_H0 = [0x6a09e667, 0xbb67ae85, 0x3c6ef372, 0xa54ff53a, 0x510e527f, 0x9b05688c, 0x1f83d9ab, 0x5be0cd19]"

text \<open>\<open>to_be_bytes\<close> and \<open>from_be_bytes\<close> of a word type, \<open>rotate_right\<close> and \<open>chunks_exact\<close>.\<close>

definition to_be_bytes :: "'l::len word \<Rightarrow> bytes" where
  "to_be_bytes w = rev (to_le_bytes w)"

definition from_be_bytes :: "bytes \<Rightarrow> 'l::len word" where
  "from_be_bytes bs = from_le_bytes (rev bs)"

definition rotate_right_u32 :: "u32 \<Rightarrow> nat \<Rightarrow> u32" where
  "rotate_right_u32 w n = drop_bit n w OR push_bit (32 - n) w"

function chunks_exact :: "nat \<Rightarrow> 'a list \<Rightarrow> 'a list list" where
  "chunks_exact n xs = (if n = 0 \<or> length xs < n then [] else take n xs # chunks_exact n (drop n xs))"
  by pat_completeness auto
termination by (relation "measure (\<lambda>(n, xs). length xs)") auto

declare chunks_exact.simps [simp del]

text \<open>\<open>while message.len() % 64 != 56\<close>\<close>

function pad_zeros :: "bytes \<Rightarrow> bytes" where
  "pad_zeros message = (if length message mod 64 \<noteq> 56 then pad_zeros (message @ [0]) else message)"
  by pat_completeness auto
termination
proof (relation "measure (\<lambda>m. (120 - length m mod 64) mod 64)")
  fix m :: bytes assume m: "length m mod 64 \<noteq> 56"
  have "Suc (length m) mod 64 = (if length m mod 64 = 63 then 0 else Suc (length m mod 64))" by (simp add: mod_Suc)
  moreover have "length m mod 64 < 64" by simp
  moreover have "(120 - r) mod 64 = (if r \<le> 56 then 56 - r else 120 - r)" if "r < 64" for r :: nat
    using that by (cases "r \<le> 56") (auto simp: mod_if)
  ultimately show "(m @ [0], m) \<in> measure (\<lambda>m. (120 - length m mod 64) mod 64)" using m by (auto split: if_splits)
qed simp

declare pad_zeros.simps [simp del]

definition sha_message :: "bytes \<Rightarrow> bytes" where
  "sha_message input =
     (let bit_len = (word_of_nat (length input) :: u64) * 8
      in pad_zeros (input @ [0x80]) @ to_be_bytes bit_len)"

definition schedule_step :: "nat \<Rightarrow> u32 list \<Rightarrow> u32 list" where
  "schedule_step i w =
     (let s0 = rotate_right_u32 (w ! (i - 15)) 7 XOR rotate_right_u32 (w ! (i - 15)) 18 XOR drop_bit 3 (w ! (i - 15));
          s1 = rotate_right_u32 (w ! (i - 2)) 17 XOR rotate_right_u32 (w ! (i - 2)) 19 XOR drop_bit 10 (w ! (i - 2))
      in w[i := w ! (i - 16) + s0 + w ! (i - 7) + s1])"

definition schedule :: "bytes \<Rightarrow> u32 list" where
  "schedule chunk =
     fold schedule_step [16..<64]
       (fold (\<lambda>i w. w[i := from_be_bytes [chunk ! (i * 4), chunk ! (i * 4 + 1), chunk ! (i * 4 + 2), chunk ! (i * 4 + 3)]])
         [0..<16] (replicate 64 0))"

type_synonym sha_vars = "u32 \<times> u32 \<times> u32 \<times> u32 \<times> u32 \<times> u32 \<times> u32 \<times> u32"

definition sha_round :: "u32 list \<Rightarrow> nat \<Rightarrow> sha_vars \<Rightarrow> sha_vars" where
  "sha_round w i = (\<lambda>(a, b, c, d, e, f, g, hh).
     let s1 = rotate_right_u32 e 6 XOR rotate_right_u32 e 11 XOR rotate_right_u32 e 25;
         ch = (e AND f) XOR (NOT e AND g);
         t1 = hh + s1 + ch + SHA_K ! i + w ! i;
         s0 = rotate_right_u32 a 2 XOR rotate_right_u32 a 13 XOR rotate_right_u32 a 22;
         maj = (a AND b) XOR (a AND c) XOR (b AND c);
         t2 = s0 + maj
     in (t1 + t2, a, b, c, d + t1, e, f, g))"

definition sha_chunk :: "bytes \<Rightarrow> u32 list \<Rightarrow> u32 list" where
  "sha_chunk chunk h =
     (let (a, b, c, d, e, f, g, hh) =
        fold (sha_round (schedule chunk)) [0..<64] (h ! 0, h ! 1, h ! 2, h ! 3, h ! 4, h ! 5, h ! 6, h ! 7)
      in h[0 := h ! 0 + a, 1 := h ! 1 + b, 2 := h ! 2 + c, 3 := h ! 3 + d,
           4 := h ! 4 + e, 5 := h ! 5 + f, 6 := h ! 6 + g, 7 := h ! 7 + hh])"

definition sha256 :: "bytes \<Rightarrow> bytes" where
  "sha256 input = concat (map to_be_bytes (fold sha_chunk (chunks_exact 64 (sha_message input)) SHA_H0))"

definition double_sha256 :: "bytes \<Rightarrow> bytes" where
  "double_sha256 input = sha256 (sha256 input)"

section \<open>The standard\<close>

definition fips_sigma0 :: "u32 \<Rightarrow> u32" where
  "fips_sigma0 x = word_rotr 7 x XOR word_rotr 18 x XOR drop_bit 3 x"

definition fips_sigma1 :: "u32 \<Rightarrow> u32" where
  "fips_sigma1 x = word_rotr 17 x XOR word_rotr 19 x XOR drop_bit 10 x"

definition fips_Sigma0 :: "u32 \<Rightarrow> u32" where
  "fips_Sigma0 x = word_rotr 2 x XOR word_rotr 13 x XOR word_rotr 22 x"

definition fips_Sigma1 :: "u32 \<Rightarrow> u32" where
  "fips_Sigma1 x = word_rotr 6 x XOR word_rotr 11 x XOR word_rotr 25 x"

fun fips_W :: "(nat \<Rightarrow> u32) \<Rightarrow> nat \<Rightarrow> u32" where
  "fips_W M t = (if t < 16 then M t
     else fips_sigma1 (fips_W M (t - 2)) + fips_W M (t - 7) + fips_sigma0 (fips_W M (t - 15)) + fips_W M (t - 16))"

declare fips_W.simps [simp del]

primrec fips_vars :: "(nat \<Rightarrow> u32) \<Rightarrow> nat \<Rightarrow> u32 list \<Rightarrow> u32 list" where
  "fips_vars M 0 h = h"
| "fips_vars M (Suc t) h =
     (let v = fips_vars M t h; a = v ! 0; b = v ! 1; c = v ! 2; d = v ! 3; e = v ! 4; f = v ! 5; g = v ! 6;
          T1 = v ! 7 + fips_Sigma1 e + ((e AND f) XOR (NOT e AND g)) + SHA_K ! t + fips_W M t;
          T2 = fips_Sigma0 a + ((a AND b) XOR (a AND c) XOR (b AND c))
      in [T1 + T2, a, b, c, d + T1, e, f, g])"

text \<open>The padding: a one bit, the least number of zero bits that leaves 64 bits of the last block, and the
  length in bits.\<close>

definition fips_pad :: "bytes \<Rightarrow> bytes" where
  "fips_pad m = m @ [0x80] @ replicate (LEAST k. (length m + 1 + k) mod 64 = 56) 0 @
     rev (le_bytes 8 (8 * length m mod 2 ^ 64))"

definition fips_block_word :: "bytes \<Rightarrow> nat \<Rightarrow> nat \<Rightarrow> u32" where
  "fips_block_word m i t = word_of_nat (le_nat (rev (take 4 (drop (64 * i + 4 * t) m))))"

primrec fips_hash :: "bytes \<Rightarrow> nat \<Rightarrow> u32 list" where
  "fips_hash m 0 = SHA_H0"
| "fips_hash m (Suc i) = map2 (+) (fips_hash m i) (fips_vars (fips_block_word m i) 64 (fips_hash m i))"

definition fips_sha256 :: "bytes \<Rightarrow> bytes" where
  "fips_sha256 m = concat (map (\<lambda>w. rev (le_bytes 4 (unat w))) (fips_hash (fips_pad m) (length (fips_pad m) div 64)))"

section \<open>The code computes the standard\<close>

lemma rotate_right_rotr: "n < 32 \<Longrightarrow> rotate_right_u32 w n = word_rotr n w"
  by (rule bit_word_eqI)
    (auto simp: rotate_right_u32_def bit_word_rotr_iff bit_or_iff bit_drop_bit_eq bit_push_bit_iff mod_if
      add.commute [of n] dest: bit_imp_le_length intro: arg_cong2 [of _ _ _ _ bit])

lemma pad_zeros_replicate:
  "\<exists>k. pad_zeros m = m @ replicate k 0 \<and> (length m + k) mod 64 = 56 \<and> (\<forall>j<k. (length m + j) mod 64 \<noteq> 56)"
proof (induction m rule: pad_zeros.induct)
  case (1 m)
  show ?case
  proof (cases "length m mod 64 = 56")
    case True
    then show ?thesis by (intro exI [of _ 0]) (simp add: pad_zeros.simps [of m])
  next
    case False
    with 1 obtain k where k: "pad_zeros (m @ [0]) = (m @ [0]) @ replicate k 0"
      "(length (m @ [0 :: u8]) + k) mod 64 = 56" "\<forall>j<k. (length (m @ [0 :: u8]) + j) mod 64 \<noteq> 56" by blast
    have "(length m + j) mod 64 \<noteq> 56" if "j < Suc k" for j
      using that k(3) False by (cases j) auto
    with k False show ?thesis
      by (intro exI [of _ "Suc k"]) (simp add: pad_zeros.simps [of m])
  qed
qed

lemma sha_message_fips: "sha_message m = fips_pad m" "length (fips_pad m) mod 64 = 0"
proof -
  obtain k where k: "pad_zeros (m @ [0x80]) = (m @ [0x80]) @ replicate k 0"
    "(length m + 1 + k) mod 64 = 56" "\<forall>j<k. (length m + 1 + j) mod 64 \<noteq> 56"
    using pad_zeros_replicate [of "m @ [0x80]"] by auto
  have least: "(LEAST k. (length m + 1 + k) mod 64 = 56) = k"
    using k(2,3) by (intro Least_equality) (auto simp: not_less [symmetric])
  have "unat ((word_of_nat (length m) :: u64) * 8) = 8 * length m mod 2 ^ 64"
    by (simp add: unat_word_ariths unat_of_nat mod_mult_right_eq mult.commute [of _ 8])
  then show "sha_message m = fips_pad m"
    by (simp add: sha_message_def fips_pad_def k(1) least [simplified] to_be_bytes_def to_le_bytes_def)
  have "length (fips_pad m) = length m + 1 + k + 8" by (simp add: fips_pad_def least [simplified])
  also have "\<dots> mod 64 = ((length m + 1 + k) mod 64 + 8) mod 64" by (rule mod_add_left_eq [symmetric])
  finally show "length (fips_pad m) mod 64 = 0" by (simp only: k(2)) simp
qed

lemma chunks_exact_map:
  "0 < n \<Longrightarrow> chunks_exact n xs = map (\<lambda>i. take n (drop (n * i) xs)) [0..<length xs div n]"
proof (induction n xs rule: chunks_exact.induct)
  case (1 n xs)
  show ?case
  proof (cases "length xs < n")
    case True
    then show ?thesis by (simp add: chunks_exact.simps [of n xs])
  next
    case False
    then have "length xs div n = Suc ((length xs - n) div n)" using 1(2) by (simp add: le_div_geq)
    with False 1 show ?thesis
      by (simp add: chunks_exact.simps [of n xs] upt_conv_Cons map_Suc_upt [symmetric] add.commute del: upt_Suc)
  qed
qed

lemma schedule_words:
  assumes "length chunk = 64" "n \<le> 16"
  shows "fold (\<lambda>i w. w[i := from_be_bytes [chunk ! (i * 4), chunk ! (i * 4 + 1), chunk ! (i * 4 + 2), chunk ! (i * 4 + 3)]])
      [0..<n] (replicate 64 0) =
    map (\<lambda>i. if i < n then word_of_nat (le_nat (rev (take 4 (drop (4 * i) chunk)))) else 0 :: u32) [0..<64]"
  using assms(2)
proof (induction n)
  case 0
  then show ?case by (simp add: map_replicate_const)
next
  case (Suc n)
  have "take 4 (drop (4 * n) chunk) = [chunk ! (n * 4), chunk ! (n * 4 + 1), chunk ! (n * 4 + 2), chunk ! (n * 4 + 3)]"
    using assms(1) Suc.prems by (intro nth_equalityI) (auto simp: less_Suc_eq numeral_eq_Suc mult.commute add.commute)
  with Suc show ?case
    by (intro nth_equalityI) (auto simp: from_be_bytes_def from_le_bytes_def nth_list_update less_Suc_eq)
qed

lemma schedule_fips:
  assumes "length chunk = 64" "t < 64"
  shows "schedule chunk ! t = fips_W (\<lambda>t. word_of_nat (le_nat (rev (take 4 (drop (4 * t) chunk))))) t"
proof -
  let ?M = "\<lambda>t. word_of_nat (le_nat (rev (take 4 (drop (4 * t) chunk)))) :: u32"
  let ?w = "map (\<lambda>i. if i < 16 then ?M i else 0) [0..<64]"
  have "length (fold schedule_step [16..<n] ?w) = 64 \<and> (\<forall>t<n. fold schedule_step [16..<n] ?w ! t = fips_W ?M t)"
    if "16 \<le> n" "n \<le> 64" for n
    using that
  proof (induction n rule: nat_induct_at_least)
    case base
    then show ?case by (simp add: fips_W.simps)
  next
    case (Suc n)
    let ?v = "fold schedule_step [16..<n] ?w"
    have v: "length ?v = 64" "\<And>t. t < n \<Longrightarrow> ?v ! t = fips_W ?M t" using Suc by auto
    have "schedule_step n ?v = ?v[n := fips_W ?M n]"
      using Suc.hyps by (subst fips_W.simps)
        (simp add: schedule_step_def Let_def v(2) rotate_right_rotr fips_sigma0_def fips_sigma1_def ac_simps)
    with v Suc.prems Suc.hyps show ?case by (auto simp: nth_list_update less_Suc_eq)
  qed
  from this [of 64] assms schedule_words [OF assms(1), of 16] show ?thesis
    by (simp add: schedule_def)
qed

lemma length_fips_vars: "length h = 8 \<Longrightarrow> length (fips_vars M t h) = 8"
  by (cases t) (simp_all add: Let_def)

lemma rounds_fips:
  assumes "\<And>t. t < 64 \<Longrightarrow> w ! t = fips_W M t" "n \<le> 64"
  shows "fold (sha_round w) [0..<n] (h ! 0, h ! 1, h ! 2, h ! 3, h ! 4, h ! 5, h ! 6, h ! 7) =
    (let v = fips_vars M n h in (v ! 0, v ! 1, v ! 2, v ! 3, v ! 4, v ! 5, v ! 6, v ! 7))"
  using assms(2)
proof (induction n)
  case (Suc n)
  have "w ! n = fips_W M n" using assms(1) Suc.prems by simp
  with Suc show ?case
    by (simp add: Let_def sha_round_def rotate_right_rotr fips_Sigma0_def fips_Sigma1_def nth_Cons' numeral_eq_Suc)
qed (simp add: Let_def)

lemma add_vars_map2:
  assumes "length h = 8" "length v = 8"
  shows "h[0 := h ! 0 + v ! 0, 1 := h ! 1 + v ! 1, 2 := h ! 2 + v ! 2, 3 := h ! 3 + v ! 3,
      4 := h ! 4 + v ! 4, 5 := h ! 5 + v ! 5, 6 := h ! 6 + v ! 6, 7 := h ! 7 + v ! 7] = map2 (+) h (v :: u32 list)"
proof -
  obtain a b c d e f g i where "h = [a, b, c, d, e, f, g, i]"
    using assms(1) by (auto simp: length_Suc_conv eval_nat_numeral)
  moreover obtain a' b' c' d' e' f' g' i' where "v = [a', b', c', d', e', f', g', i']"
    using assms(2) by (auto simp: length_Suc_conv eval_nat_numeral)
  ultimately show ?thesis by simp
qed

lemma sha_chunk_fips:
  assumes "length chunk = 64" "length h = 8"
  shows "sha_chunk chunk h =
    map2 (+) h (fips_vars (\<lambda>t. word_of_nat (le_nat (rev (take 4 (drop (4 * t) chunk))))) 64 h)"
proof -
  let ?M = "\<lambda>t. word_of_nat (le_nat (rev (take 4 (drop (4 * t) chunk)))) :: u32"
  have "fold (sha_round (schedule chunk)) [0..<64] (h ! 0, h ! 1, h ! 2, h ! 3, h ! 4, h ! 5, h ! 6, h ! 7) =
    (let v = fips_vars ?M 64 h in (v ! 0, v ! 1, v ! 2, v ! 3, v ! 4, v ! 5, v ! 6, v ! 7))"
    using assms(1) by (intro rounds_fips schedule_fips) simp_all
  then show ?thesis
    using add_vars_map2 [OF assms(2) length_fips_vars [OF assms(2)]] by (simp only: sha_chunk_def Let_def prod.case)
qed

lemma length_fips_hash: "length (fips_hash m i) = 8"
  by (induction i) (simp_all add: SHA_H0_def length_fips_vars)

lemma chunks_fips:
  assumes "n \<le> length m div 64"
  shows "fold sha_chunk (map (\<lambda>i. take 64 (drop (64 * i) m)) [0..<n]) SHA_H0 = fips_hash m n"
  using assms
proof (induction n)
  case (Suc n)
  let ?c = "take 64 (drop (64 * n) m)"
  have "64 * Suc n \<le> 64 * (length m div 64)" using Suc.prems by (intro mult_left_mono) auto
  also have "\<dots> \<le> length m" by (rule times_div_less_eq_dividend)
  finally have "length ?c = 64" by simp
  moreover have "take 4 (drop (4 * t) ?c) = take 4 (drop (64 * n + 4 * t) m)" if "t < 16" for t
    using that by (simp add: drop_take add.commute)
  then have "fips_W (\<lambda>t. word_of_nat (le_nat (rev (take 4 (drop (4 * t) ?c))))) t = fips_W (fips_block_word m n) t" for t
    by (induction t rule: less_induct) (subst (1 2) fips_W.simps, simp add: fips_block_word_def)
  then have "fips_vars (\<lambda>t. word_of_nat (le_nat (rev (take 4 (drop (4 * t) ?c))))) k h = fips_vars (fips_block_word m n) k h" for k h
    by (induction k) simp_all
  ultimately show ?case using Suc sha_chunk_fips [of ?c "fips_hash m n"] by (simp add: length_fips_hash)
qed simp

lemma sha256_fips: "sha256 input = fips_sha256 input"
proof -
  let ?m = "fips_pad input"
  have "fold sha_chunk (chunks_exact 64 ?m) SHA_H0 = fips_hash ?m (length ?m div 64)"
    using chunks_fips [of "length ?m div 64" ?m] by (simp add: chunks_exact_map)
  then show ?thesis
    by (simp add: sha256_def sha_message_fips(1) fips_sha256_def to_be_bytes_def [abs_def] to_le_bytes_def)
qed

lemma length_sha256 [simp]: "length (sha256 input) = 32"
  unfolding sha256_fips fips_sha256_def by (simp add: length_concat comp_def sum_list_triv length_fips_hash)

lemma length_double_sha256: "length (double_sha256 input) = 32"
  by (simp add: double_sha256_def)

text \<open>C33: the hash is SHA-256: the code's padding loop, in-place message schedule and round loop compute,
  on every input, the digest the standard defines, and it has 32 bytes.\<close>

theorem sha256_is_fips:
  "sha256 input = fips_sha256 input \<and> length (sha256 input) = 32 \<and>
   double_sha256 input = fips_sha256 (fips_sha256 input)"
  by (simp add: double_sha256_def flip: sha256_fips)

end
