(* ===== verification/Btc_Header.thy ===== *)
theory Btc_Header
  imports Btc_Target Btc_Hash Cursor Ordered_Map
begin

text \<open>
  Block headers and Merkle branches of \<^verbatim>\<open>crates/qlc-bitcoin/src/lib.rs\<close>. Everything that hashes takes
  the hash function as an argument \<open>dsha\<close>; the program is the instance \<open>dsha = double_sha256\<close>, whose
  digests have 32 bytes (theory \<open>Btc_Hash\<close>).

  The theorems: a header is parsed back from its serialisation and from nothing shorter; and Merkle
  branches are sound: let a block begin with a coinbase, let one branch to its root have all siblings on the right
  and a branch of another string to the root be as long. Unless the hash collides on a string actually
  hashed or has a run of 27 zeros on one of the first branch, that other string is one of the block's transactions,
  even when transactions of the block have 64 bytes like the inner nodes.
\<close>

unbundle bit_operations_syntax

definition HEADER_LEN :: usize where "HEADER_LEN = 80"

record block_header =
  bh_version :: u32
  bh_prev_block :: bytes
  bh_merkle_root :: bytes
  bh_timestamp :: u32
  bh_bits :: u32
  bh_nonce :: u32

datatype spv_error =
    ShortHeader
  | PowNotMet
  | TargetBelowFloor usize
  | BrokenLink usize
  | EmptyChain
  | MerkleMismatch
  | RetargetOnANonBoundary usize
  | RetargetMismatch usize
  | HeightOverflow
  | HeightOutOfRange
  | InsufficientConfirmations u32 u32
  | CheckpointNotInChain
  | CheckpointMismatch
  | InsufficientWork
  | UnverifiableRetarget usize
  | CheckpointNotArmed
  | DepositTooLarge
  | MalformedTransaction
  | TransactionMismatch
  | MerkleBranchTooLong
  | MedianTimePast usize
  | NonCanonicalBits usize

definition MAX_MERKLE_BRANCH :: usize where "MAX_MERKLE_BRANCH = 64"

record merkle_step =
  ms_hash :: bytes
  ms_sibling_on_left :: bool

text \<open>A subslice that the length check has made sure of.\<close>

abbreviation sub :: "bytes \<Rightarrow> nat \<Rightarrow> nat \<Rightarrow> bytes" where
  "sub bs a b \<equiv> take (b - a) (drop a bs)"

definition header_parse :: "bytes \<Rightarrow> (spv_error, block_header) res" where
  "header_parse bs =
     (if length bs < HEADER_LEN then Err ShortHeader
      else Ok \<lparr>bh_version = from_le_bytes [bs ! 0, bs ! 1, bs ! 2, bs ! 3],
               bh_prev_block = sub bs 4 36,
               bh_merkle_root = sub bs 36 68,
               bh_timestamp = from_le_bytes [bs ! 68, bs ! 69, bs ! 70, bs ! 71],
               bh_bits = from_le_bytes [bs ! 72, bs ! 73, bs ! 74, bs ! 75],
               bh_nonce = from_le_bytes [bs ! 76, bs ! 77, bs ! 78, bs ! 79]\<rparr>)"

definition header_serialize :: "block_header \<Rightarrow> bytes" where
  "header_serialize h =
     to_le_bytes (bh_version h) @ bh_prev_block h @ bh_merkle_root h @
     to_le_bytes (bh_timestamp h) @ to_le_bytes (bh_bits h) @ to_le_bytes (bh_nonce h)"

definition block_hash :: "(bytes \<Rightarrow> bytes) \<Rightarrow> block_header \<Rightarrow> bytes" where
  "block_hash dsha h = dsha (header_serialize h)"

definition pow_hash_be :: "(bytes \<Rightarrow> bytes) \<Rightarrow> block_header \<Rightarrow> bytes" where
  "pow_hash_be dsha h = rev (block_hash dsha h)"

definition header_target :: "block_header \<Rightarrow> bytes" where
  "header_target h = compact_to_target (bh_bits h)"

text \<open>Byte arrays are compared lexicographically.\<close>

definition meets_pow :: "(bytes \<Rightarrow> bytes) \<Rightarrow> block_header \<Rightarrow> bool" where
  "meets_pow dsha h \<longleftrightarrow> pow_hash_be dsha h \<le> header_target h"

definition merkle_pair :: "(bytes \<Rightarrow> bytes) \<Rightarrow> bytes list \<Rightarrow> bytes" where
  "merkle_pair dsha pair = dsha (pair ! 0 @ pair ! 1)"

definition merkle_pad :: "bytes list \<Rightarrow> bytes list" where
  "merkle_pad level = (if length level mod 2 = 1 then level @ [last level] else level)"

definition merkle_next :: "(bytes \<Rightarrow> bytes) \<Rightarrow> bytes list \<Rightarrow> bytes list" where
  "merkle_next dsha level = map (merkle_pair dsha) (chunks_exact 2 (merkle_pad level))"

lemma length_chunks_exact: "0 < n \<Longrightarrow> length (chunks_exact n xs) = length xs div n"
  by (simp add: chunks_exact_map)

lemma length_merkle_next: "length (merkle_next dsha level) = Suc (length level) div 2"
  by (auto simp: merkle_next_def merkle_pad_def length_chunks_exact odd_iff_mod_2_eq_one [symmetric])

function merkle_levels :: "(bytes \<Rightarrow> bytes) \<Rightarrow> bytes list \<Rightarrow> bytes list" where
  "merkle_levels dsha level =
     (if length level > 1 then merkle_levels dsha (merkle_next dsha level) else level)"
  by pat_completeness auto
termination by (relation "measure (\<lambda>(d, level). length level)") (auto simp: length_merkle_next)

declare merkle_levels.simps [simp del]

definition merkle_root :: "(bytes \<Rightarrow> bytes) \<Rightarrow> bytes list \<Rightarrow> bytes option" where
  "merkle_root dsha txids = (if txids = [] then None else Some (merkle_levels dsha txids ! 0))"

definition branch_buf :: "bytes \<Rightarrow> merkle_step \<Rightarrow> bytes" where
  "branch_buf cur step = (if ms_sibling_on_left step then ms_hash step @ cur else cur @ ms_hash step)"

fun fold_branch :: "(bytes \<Rightarrow> bytes) \<Rightarrow> bytes \<Rightarrow> merkle_step list \<Rightarrow> (spv_error, bytes) res" where
  "fold_branch dsha cur [] = Ok cur"
| "fold_branch dsha cur (step # branch) =
     (if ms_hash step = cur \<and> ms_sibling_on_left step then Err MerkleMismatch
      else fold_branch dsha (dsha (branch_buf cur step)) branch)"

definition fold_merkle_branch :: "(bytes \<Rightarrow> bytes) \<Rightarrow> bytes \<Rightarrow> merkle_step list \<Rightarrow> (spv_error, bytes) res" where
  "fold_merkle_branch dsha txid branch =
     (if length branch > MAX_MERKLE_BRANCH then Err MerkleBranchTooLong else fold_branch dsha txid branch)"

definition verify_inclusion ::
  "(bytes \<Rightarrow> bytes) \<Rightarrow> block_header \<Rightarrow> bytes \<Rightarrow> merkle_step list \<Rightarrow> (spv_error, unit) res" where
  "verify_inclusion dsha header txid branch =
     (if \<not> meets_pow dsha header then Err PowNotMet
      else and_then (fold_merkle_branch dsha txid branch) (\<lambda>root.
        if root \<noteq> bh_merkle_root header then Err MerkleMismatch else Ok ()))"

section \<open>Headers\<close>

definition header_wf :: "block_header \<Rightarrow> bool" where
  "header_wf h \<longleftrightarrow> length (bh_prev_block h) = 32 \<and> length (bh_merkle_root h) = 32"

lemma length_header_serialize: "header_wf h \<Longrightarrow> length (header_serialize h) = 80"
  by (simp add: header_serialize_def header_wf_def)

lemma four_bytes: "i + 4 \<le> length bs \<Longrightarrow> [bs ! i, bs ! (i + 1), bs ! (i + 2), bs ! (i + 3)] = sub bs i (i + 4)"
  by (intro nth_equalityI) (auto simp: less_Suc_eq numeral_eq_Suc)

lemma header_fields:
  assumes "80 \<le> length bs"
  shows "header_parse bs = Ok \<lparr>bh_version = from_le_bytes (sub bs 0 4), bh_prev_block = sub bs 4 36,
    bh_merkle_root = sub bs 36 68, bh_timestamp = from_le_bytes (sub bs 68 72),
    bh_bits = from_le_bytes (sub bs 72 76), bh_nonce = from_le_bytes (sub bs 76 80)\<rparr>"
  using assms four_bytes [of 0 bs] four_bytes [of 68 bs] four_bytes [of 72 bs] four_bytes [of 76 bs]
  by (simp add: header_parse_def HEADER_LEN_def numeral_2_eq_2)

lemma header_parse_serialize:
  assumes "header_wf h"
  shows "header_parse (header_serialize h @ suffix) = Ok h"
  using assms length_header_serialize [OF assms]
  by (subst header_fields) (simp_all add: header_serialize_def header_wf_def from_to_le_bytes)

lemma header_serialize_parse:
  assumes "header_parse bs = Ok h"
  shows "header_wf h \<and> header_serialize h = take 80 bs"
proof -
  have l: "80 \<le> length bs" using assms by (auto simp: header_parse_def HEADER_LEN_def split: if_splits)
  have join: "sub bs i j @ sub bs j k = sub bs i k" if "i \<le> j" "j \<le> k" for i j k
    using that take_add [of "j - i" "k - j" "drop i bs"] by simp
  have w: "to_le_bytes (from_le_bytes (sub bs i (i + 4)) :: u32) = sub bs i (i + 4)" if "i + 4 \<le> 80" for i
    using that l by (intro to_from_le_bytes) auto
  from assms header_fields [OF l] have h: "h = \<lparr>bh_version = from_le_bytes (sub bs 0 4), bh_prev_block = sub bs 4 36,
    bh_merkle_root = sub bs 36 68, bh_timestamp = from_le_bytes (sub bs 68 72),
    bh_bits = from_le_bytes (sub bs 72 76), bh_nonce = from_le_bytes (sub bs 76 80)\<rparr>" by simp
  have "header_serialize h = sub bs 0 4 @ sub bs 4 36 @ sub bs 36 68 @ sub bs 68 72 @ sub bs 72 76 @ sub bs 76 80"
    using w [of 0] w [of 68] w [of 72] w [of 76] by (simp add: h header_serialize_def)
  also have "\<dots> = sub bs 0 80" by (simp only: join)
  finally show ?thesis using l by (simp add: h header_wf_def)
qed

section \<open>Merkle branches\<close>

text \<open>The strings hashed on the way from a level to its root, and along a branch; the value after the
  first \<open>i\<close> steps of a branch.\<close>

definition level_inputs :: "bytes list \<Rightarrow> bytes set" where
  "level_inputs level = (\<lambda>pair. pair ! 0 @ pair ! 1) ` set (chunks_exact 2 (merkle_pad level))"

function root_inputs :: "(bytes \<Rightarrow> bytes) \<Rightarrow> bytes list \<Rightarrow> bytes set" where
  "root_inputs dsha level =
     (if length level > 1 then level_inputs level \<union> root_inputs dsha (merkle_next dsha level) else {})"
  by pat_completeness auto
termination by (relation "measure (\<lambda>(d, level). length level)") (auto simp: length_merkle_next)

declare root_inputs.simps [simp del]

fun branch_inputs :: "(bytes \<Rightarrow> bytes) \<Rightarrow> bytes \<Rightarrow> merkle_step list \<Rightarrow> bytes set" where
  "branch_inputs dsha cur [] = {}"
| "branch_inputs dsha cur (step # branch) =
     insert (branch_buf cur step) (branch_inputs dsha (dsha (branch_buf cur step)) branch)"

fun branch_trail :: "(bytes \<Rightarrow> bytes) \<Rightarrow> bytes \<Rightarrow> merkle_step list \<Rightarrow> bytes list" where
  "branch_trail dsha cur [] = [cur]"
| "branch_trail dsha cur (step # branch) = cur # branch_trail dsha (dsha (branch_buf cur step)) branch"

lemma branch_trail_last: "fold_branch dsha cur branch = Ok r \<Longrightarrow> r = last (branch_trail dsha cur branch)"
  by (induction dsha cur branch rule: fold_branch.induct) (auto split: if_splits elim: branch_trail.elims)

lemma branch_trail_nth:
  "i < length (branch_trail dsha cur branch) \<Longrightarrow>
   i = 0 \<and> branch_trail dsha cur branch ! i = cur \<or>
   (\<exists>j step. i = Suc j \<and> step \<in> set branch \<and>
      branch_trail dsha cur branch ! i = dsha (branch_buf (branch_trail dsha cur branch ! j) step) \<and>
      branch_buf (branch_trail dsha cur branch ! j) step \<in> branch_inputs dsha cur branch)"
proof (induction dsha cur branch arbitrary: i rule: branch_trail.induct)
  case (2 dsha cur step branch)
  let ?c = "dsha (branch_buf cur step)"
  have zero: "branch_trail dsha ?c branch ! 0 = ?c" by (cases branch) auto
  show ?case
  proof (cases i)
    case (Suc k)
    from 2 Suc have "k < length (branch_trail dsha ?c branch)" by simp
    from 2(1) [OF this] Suc zero show ?thesis by (elim disjE exE conjE) (fastforce intro: exI [of _ step])+
  qed simp
qed simp

lemma chunks_two:
  assumes "p \<in> set (chunks_exact 2 xs)"
  obtains a b where "p = [a, b]" "a \<in> set xs" "b \<in> set xs"
proof -
  obtain i where i: "i < length xs div 2" "p = take 2 (drop (2 * i) xs)"
    using assms by (auto simp: chunks_exact_map)
  then have "2 * i + 1 < length xs" by linarith
  with i have "p = [xs ! (2 * i), xs ! (2 * i + 1)]"
    by (intro nth_equalityI) (auto simp: less_Suc_eq numeral_eq_Suc)
  with \<open>2 * i + 1 < length xs\<close> that show thesis by (metis Suc_eq_plus1 Suc_lessD nth_mem)
qed

lemma set_merkle_pad: "set (merkle_pad level) \<subseteq> set level"
  by (cases level) (auto simp: merkle_pad_def)

lemma level_inputsE:
  assumes "x \<in> level_inputs level"
  obtains a b where "x = a @ b" "a \<in> set level" "b \<in> set level"
proof -
  obtain p where p: "p \<in> set (chunks_exact 2 (merkle_pad level))" "x = p ! 0 @ p ! 1"
    using assms by (auto simp: level_inputs_def)
  from chunks_two [OF p(1)] obtain a b where "p = [a, b]" "a \<in> set (merkle_pad level)" "b \<in> set (merkle_pad level)" .
  with p(2) set_merkle_pad [of level] that show thesis by auto
qed

lemma merkle_next_inputs: "set (merkle_next dsha level) = dsha ` level_inputs level"
  by (auto simp: merkle_next_def level_inputs_def merkle_pair_def)

lemma root_inputs_64:
  "\<forall>x\<in>set level. length x = 32 \<Longrightarrow> (\<And>x. length (dsha x) = 32) \<Longrightarrow> x \<in> root_inputs dsha level \<Longrightarrow> length x = 64"
proof (induction dsha level rule: root_inputs.induct)
  case (1 dsha level)
  show ?case
  proof (cases "x \<in> level_inputs level")
    case True
    with 1(2) show ?thesis by (auto elim!: level_inputsE)
  next
    case False
    with 1(4) have "length level > 1" "x \<in> root_inputs dsha (merkle_next dsha level)"
      by (auto simp: root_inputs.simps [of dsha level] split: if_splits)
    with 1(1,3) show ?thesis by (auto simp: merkle_next_inputs)
  qed
qed

text \<open>Following a branch back from the root: after as many steps as the tree has levels the trail is at a leaf, at the
  first one if the branch only has siblings on the right; a shorter branch starts inside the tree.\<close>

function merkle_depth :: "nat \<Rightarrow> nat" where
  "merkle_depth n = (if n > 1 then Suc (merkle_depth (Suc n div 2)) else 0)"
  by pat_completeness auto
termination by (relation "measure id") auto

declare merkle_depth.simps [simp del]

lemma length_branch_trail [simp]: "length (branch_trail dsha cur branch) = Suc (length branch)"
  by (induction branch arbitrary: cur) auto

lemma merkle_next_first:
  assumes "length level > 1"
  obtains x where "level ! 0 @ x \<in> level_inputs level" "merkle_next dsha level ! 0 = dsha (level ! 0 @ x)"
proof -
  let ?pad = "merkle_pad level"
  have len: "2 \<le> length ?pad" using assms by (auto simp: merkle_pad_def)
  then have ne: "chunks_exact 2 ?pad \<noteq> []" using length_chunks_exact [of 2 ?pad] by auto
  have first: "chunks_exact 2 ?pad ! 0 = take 2 ?pad" using len by (subst chunks_exact.simps) simp
  have nth: "take 2 ?pad ! 0 = level ! 0" using assms by (auto simp: merkle_pad_def nth_append)
  show thesis
  proof (rule that [of "take 2 ?pad ! 1"])
    show "level ! 0 @ take 2 ?pad ! 1 \<in> level_inputs level"
      unfolding level_inputs_def using nth_mem [of 0 "chunks_exact 2 ?pad"] ne first nth
      by (intro image_eqI [where x = "take 2 ?pad"]) simp_all
    show "merkle_next dsha level ! 0 = dsha (level ! 0 @ take 2 ?pad ! 1)"
      using ne first nth by (simp add: merkle_next_def merkle_pair_def)
  qed
qed

definition trail_fits :: "(bytes \<Rightarrow> bytes) \<Rightarrow> bytes \<Rightarrow> merkle_step list \<Rightarrow> bytes list \<Rightarrow> bool" where
  "trail_fits dsha cur branch level \<longleftrightarrow>
     (let d = merkle_depth (length level); v = branch_trail dsha cur branch ! (length branch - d) in
      if d \<le> length branch
      then v \<in> set level \<and> ((\<forall>s\<in>set branch. \<not> ms_sibling_on_left s) \<longrightarrow> v = level ! 0)
      else cur \<in> dsha ` root_inputs dsha level)"

lemma trail_step_down:
  assumes "\<And>x. length (dsha x) = 32" "\<forall>s\<in>set branch. length (ms_hash s) = 32" "length cur = 32"
    and "\<forall>x\<in>set level. length x = 32" "length level > 1"
    and "inj_on dsha (level_inputs level \<union> branch_inputs dsha cur branch)"
    and "Suc i < length (branch_trail dsha cur branch)" "branch_trail dsha cur branch ! Suc i \<in> set (merkle_next dsha level)"
  shows "branch_trail dsha cur branch ! i \<in> set level \<and>
    ((\<forall>s\<in>set branch. \<not> ms_sibling_on_left s) \<and> branch_trail dsha cur branch ! Suc i = merkle_next dsha level ! 0 \<longrightarrow>
       branch_trail dsha cur branch ! i = level ! 0)"
proof -
  let ?t = "branch_trail dsha cur branch"
  obtain step where step: "step \<in> set branch" "?t ! Suc i = dsha (branch_buf (?t ! i) step)"
    "branch_buf (?t ! i) step \<in> branch_inputs dsha cur branch"
    using branch_trail_nth [OF assms(7)] by auto
  have t32: "length (?t ! i) = 32"
    using branch_trail_nth [of i dsha cur branch] assms(1,3,7) by auto
  have same: "x = branch_buf (?t ! i) step" if "x \<in> level_inputs level" "?t ! Suc i = dsha x" for x
    by (rule inj_onD [OF assms(6)]) (use that step in auto)
  obtain x where x: "x \<in> level_inputs level" "?t ! Suc i = dsha x"
    using assms(8) by (auto simp: merkle_next_inputs)
  obtain a b where ab: "x = a @ b" "a \<in> set level" "b \<in> set level" using level_inputsE [OF x(1)] .
  have "?t ! i \<in> set level"
    using same [OF x] ab assms(2,4) step(1) t32 by (auto simp: branch_buf_def split: if_splits)
  moreover have "?t ! i = level ! 0" if r: "\<forall>s\<in>set branch. \<not> ms_sibling_on_left s" "?t ! Suc i = merkle_next dsha level ! 0"
  proof -
    obtain y where "level ! 0 @ y \<in> level_inputs level" "merkle_next dsha level ! 0 = dsha (level ! 0 @ y)"
      using merkle_next_first [OF assms(5)] by metis
    with same r(2) have "level ! 0 @ y = branch_buf (?t ! i) step" by simp
    moreover have "length (level ! 0) = 32" using assms(4,5) by (metis nth_mem not_less_zero length_greater_0_conv list.size(3))
    ultimately show ?thesis using r(1) step(1) t32 by (auto simp: branch_buf_def)
  qed
  ultimately show ?thesis by blast
qed

lemma trail_at_level:
  assumes "\<And>x. length (dsha x) = 32" "\<forall>s\<in>set branch. length (ms_hash s) = 32" "length cur = 32"
    and "fold_branch dsha cur branch = Ok (merkle_levels dsha level ! 0)"
    and "level \<noteq> []" "\<forall>x\<in>set level. length x = 32"
    and "inj_on dsha (root_inputs dsha level \<union> branch_inputs dsha cur branch)"
  shows "trail_fits dsha cur branch level"
  using assms
proof (induction dsha level rule: merkle_levels.induct)
  case (1 dsha level)
  let ?t = "branch_trail dsha cur branch" and ?next = "merkle_next dsha level" and ?n = "length branch"
  show ?case
  proof (cases "length level > 1")
    case False
    then have "level = [level ! 0]" using 1(6) by (cases level) auto
    moreover have "?t ! ?n = level ! 0"
      using branch_trail_last [OF 1(5)] False last_conv_nth [of ?t] by (simp add: merkle_levels.simps) (metis length_branch_trail diff_Suc_1 list.size(3) nat.distinct(1))
    ultimately show ?thesis
      using False by (simp add: trail_fits_def merkle_depth.simps [of "length level"]) (metis list.set_intros(1))
  next
    case True
    have inputs: "root_inputs dsha level = level_inputs level \<union> root_inputs dsha ?next"
      using True by (simp add: root_inputs.simps [of dsha level])
    have depth: "merkle_depth (length level) = Suc (merkle_depth (length ?next))"
      using True by (simp add: merkle_depth.simps [of "length level"] length_merkle_next)
    have "length ?next \<noteq> 0" using True by (simp add: length_merkle_next)
    moreover have "inj_on dsha (root_inputs dsha ?next \<union> branch_inputs dsha cur branch)"
      using 1(8) by (rule inj_on_subset) (auto simp: inputs)
    ultimately have IH: "trail_fits dsha cur branch ?next"
      using 1(1) [OF True 1(2-4)] 1(2,5) True by (auto simp: merkle_levels.simps [of dsha level] merkle_next_inputs)
    let ?d = "merkle_depth (length ?next)"
    consider (deep) "?d < ?n" | (here) "?d = ?n" | (inside) "?n < ?d" by linarith
    then show ?thesis
    proof cases
      case deep
      then have i: "?n - ?d = Suc (?n - Suc ?d)" "Suc (?n - Suc ?d) < length ?t" by simp_all
      have at: "?t ! Suc (?n - Suc ?d) \<in> set ?next"
        "(\<forall>s\<in>set branch. \<not> ms_sibling_on_left s) \<longrightarrow> ?t ! Suc (?n - Suc ?d) = ?next ! 0"
        using IH deep by (simp_all add: trail_fits_def Let_def i(1))
      have "inj_on dsha (level_inputs level \<union> branch_inputs dsha cur branch)"
        using 1(8) by (rule inj_on_subset) (auto simp: inputs)
      from trail_step_down [OF 1(2-4,7) True this i(2) at(1)] at(2) show ?thesis
        using deep by (simp add: trail_fits_def depth)
    next
      case here
      have "?t ! 0 = cur" by (cases branch) auto
      with IH here have "cur \<in> set ?next" by (simp add: trail_fits_def)
      with here show ?thesis by (auto simp: trail_fits_def depth inputs merkle_next_inputs)
    next
      case inside
      with IH show ?thesis by (auto simp: trail_fits_def depth inputs)
    qed
  qed
qed

text \<open>A transaction that is proven beside the first transaction of the block, by branches of one length, is one of the
  block's transactions. A block of which some transaction has 64 bytes, and so reads as a node of the tree, makes no
  difference, because a branch that is too long would have to pass through the first transaction too; this is a
  coinbase, with 32 zeros after its first five bytes, and the hash of a string in the proof would have to continue
  them. The alternatives are a collision of the hash or such a hash.\<close>

definition zero_run :: "bytes \<Rightarrow> bool" where
  "zero_run h \<longleftrightarrow> take 27 (drop 5 h) = replicate 27 0"

definition null_prevout :: "bytes \<Rightarrow> bool" where
  "null_prevout t \<longleftrightarrow> take 32 (drop 5 t) = replicate 32 0"

definition proof_strings :: "(bytes \<Rightarrow> bytes) \<Rightarrow> bytes \<Rightarrow> merkle_step list \<Rightarrow> bytes set" where
  "proof_strings dsha t branch = insert t (branch_inputs dsha (dsha t) branch)"

lemma trail_hashes:
  assumes "i < length (branch_trail dsha (dsha t) branch)"
  obtains x where "x \<in> proof_strings dsha t branch" "branch_trail dsha (dsha t) branch ! i = dsha x"
  using branch_trail_nth [OF assms] by (auto simp: proof_strings_def)

lemma merkle_branches_sound:
  assumes len: "\<And>x. length (dsha x) = 32"
    and steps: "\<forall>s\<in>set branch. length (ms_hash s) = 32" "\<forall>s\<in>set first_branch. length (ms_hash s) = 32"
    and "length t \<noteq> 64" "length branch = length first_branch" "\<forall>s\<in>set first_branch. \<not> ms_sibling_on_left s"
    and root: "merkle_root dsha (map dsha txs) = Some root"
    and folds: "fold_merkle_branch dsha (dsha t) branch = Ok root" "fold_merkle_branch dsha (dsha c) first_branch = Ok root"
    and "null_prevout (hd txs)"
    and inj: "inj_on dsha (set txs \<union> root_inputs dsha (map dsha txs) \<union> proof_strings dsha t branch \<union> proof_strings dsha c first_branch)"
    and "\<forall>x\<in>proof_strings dsha c first_branch. \<not> zero_run (dsha x)"
  shows "t \<in> set txs"
proof -
  let ?ids = "map dsha txs" and ?n = "length branch" and ?d = "merkle_depth (length txs)"
  let ?t = "branch_trail dsha (dsha t) branch" and ?c = "branch_trail dsha (dsha c) first_branch"
  have ne: "?ids \<noteq> []" and fb: "fold_branch dsha (dsha t) branch = Ok (merkle_levels dsha ?ids ! 0)"
    "fold_branch dsha (dsha c) first_branch = Ok (merkle_levels dsha ?ids ! 0)"
    using root folds by (auto simp: merkle_root_def fold_merkle_branch_def split: if_splits)
  have ids: "\<forall>x\<in>set ?ids. length x = 32" using len by auto
  have "inj_on dsha (root_inputs dsha ?ids \<union> branch_inputs dsha (dsha t) branch)"
    "inj_on dsha (root_inputs dsha ?ids \<union> branch_inputs dsha (dsha c) first_branch)"
    using inj by (rule inj_on_subset, auto simp: proof_strings_def)+
  then have fits: "trail_fits dsha (dsha t) branch ?ids" "trail_fits dsha (dsha c) first_branch ?ids"
    using trail_at_level [OF len steps(1) len fb(1) ne ids] trail_at_level [OF len steps(2) len fb(2) ne ids] by auto
  consider (deep) "?d < ?n" | (leaf) "?d = ?n" | (inside) "?n < ?d" by linarith
  then show ?thesis
  proof cases
    case leaf
    have "?t ! 0 = dsha t" by (cases branch) auto
    with fits(1) leaf have "dsha t \<in> dsha ` set txs" by (simp add: trail_fits_def Let_def)
    then obtain u where u: "u \<in> set txs" "dsha t = dsha u" by auto
    have "t = u" by (rule inj_onD [OF inj u(2)]) (use u in \<open>auto simp: proof_strings_def\<close>)
    with u show ?thesis by simp
  next
    case inside
    with fits(1) obtain x where x: "x \<in> root_inputs dsha ?ids" "dsha t = dsha x" by (auto simp: trail_fits_def)
    have "t = x" by (rule inj_onD [OF inj x(2)]) (use x in \<open>auto simp: proof_strings_def\<close>)
    with root_inputs_64 [OF ids len x(1)] assms(4) show ?thesis by simp
  next
    case deep
    define j where "j = ?n - Suc ?d"
    have j: "Suc j = length first_branch - ?d" "Suc j < length ?c" using deep assms(5) by (simp_all add: j_def)
    have first: "?c ! Suc j = dsha (hd txs)" "hd txs \<in> set txs"
      using fits(2) deep ne assms(5,6) j(1) by (auto simp: trail_fits_def Let_def hd_conv_nth)
    from branch_trail_nth [OF j(2)] obtain step where step: "step \<in> set first_branch" "?c ! Suc j = dsha (branch_buf (?c ! j) step)"
      "branch_buf (?c ! j) step \<in> branch_inputs dsha (dsha c) first_branch" by auto
    have "hd txs = branch_buf (?c ! j) step"
      by (rule inj_onD [OF inj]) (use first step in \<open>auto simp: proof_strings_def\<close>)
    then have split: "hd txs = ?c ! j @ ms_hash step" using step(1) assms(6) by (simp add: branch_buf_def)
    obtain x where x: "x \<in> proof_strings dsha c first_branch" "?c ! j = dsha x"
      using trail_hashes [of j dsha c first_branch] j(2) by auto
    have "take 32 (drop 5 (dsha x @ ms_hash step)) = replicate 32 0"
      using assms(10) by (simp add: null_prevout_def split x(2))
    then have "take 27 (take 32 (drop 5 (dsha x @ ms_hash step))) = take 27 (replicate 32 0)" by simp
    then have "zero_run (dsha x)" using len [of x] by (simp add: zero_run_def)
    with x(1) assms(12) show ?thesis by blast
  qed
qed

lemma header_parse_iff:
  "header_parse bs = Ok h \<longleftrightarrow> 80 \<le> length bs \<and> header_wf h \<and> take 80 bs = header_serialize h"
proof
  assume p: "header_parse bs = Ok h"
  then have "80 \<le> length bs" by (auto simp: header_parse_def HEADER_LEN_def split: if_splits)
  with header_serialize_parse [OF p] show "80 \<le> length bs \<and> header_wf h \<and> take 80 bs = header_serialize h" by simp
next
  assume h: "80 \<le> length bs \<and> header_wf h \<and> take 80 bs = header_serialize h"
  then have "bs = header_serialize h @ drop 80 bs" by (metis append_take_drop_id)
  with h header_parse_serialize show "header_parse bs = Ok h" by metis
qed

text \<open>On strings of one length the lexicographic order is the order of the numbers they stand for.\<close>

lemma bytes_le_iff: "length xs = length ys \<Longrightarrow> xs \<le> ys \<longleftrightarrow> be_nat xs \<le> be_nat ys"
proof (induction xs ys rule: list_induct2)
  case (Cons x xs y ys)
  have "be_nat xs < 256 ^ length ys" "be_nat ys < 256 ^ length ys" using be_nat_less [of xs] be_nat_less [of ys] Cons.hyps by simp_all
  moreover have "(unat a + 1) * 256 ^ length ys \<le> unat b * 256 ^ length ys" if "unat a < unat b" for a b :: u8
    using that by (intro mult_right_mono) auto
  ultimately have "unat x < unat y \<Longrightarrow> be_nat (x # xs) < be_nat (y # ys)" "unat y < unat x \<Longrightarrow> be_nat (y # ys) < be_nat (x # xs)"
    using Cons.hyps by (fastforce simp: add_mult_distrib)+
  with Cons show ?case
    by (cases x y rule: linorder_cases) (auto simp: Cons_le_Cons word_less_nat_alt)
qed simp

end
