(* ===== verification/Btc_Chain.thy ===== *)
theory Btc_Chain
  imports Btc_Header
begin

text \<open>
  Runs of block headers: \<^verbatim>\<open>crates/qlc-bitcoin/src/chain.rs\<close>. The checks of \<open>verify_chain\<close> are made in the
  order of the code, one step of its loop per header; \<open>header_ok\<close> is what they amount to, stated over
  numbers, and \<open>verify_chain_iff\<close> shows that a run is accepted exactly when every header of it is
  \<open>header_ok\<close> (no run makes the checks panic). The remaining operations read an accepted run: which
  header stands at a height, how deep it is buried, how much work lies above it, whether the run
  passes through a checkpoint.
\<close>

record verified_chain =
  vc_start_height :: u32
  vc_tip_height :: u32
  vc_tip_hash :: bytes
  vc_work :: u256
  vc_headers :: "block_header list"

record checkpoint =
  cp_height :: u32
  cp_hash :: bytes
  cp_min_work :: u256

record confirmed_deposit =
  cd_block_hash :: bytes
  cd_merkle_root :: bytes
  cd_deposit_height :: u32
  cd_confirmations :: u32

text \<open>The remainder operator panics for a zero divisor.\<close>

definition rem_u32 :: "u32 \<Rightarrow> u32 \<Rightarrow> ('e, u32) res" where
  "rem_u32 a b = (if b = 0 then Panic else Ok (a mod b))"

definition bits_expectation ::
  "u32 \<Rightarrow> u32 \<Rightarrow> u32 \<Rightarrow> network_params_t \<Rightarrow> usize \<Rightarrow> (spv_error, unit) res" where
  "bits_expectation height prev_bits this_bits p index =
     and_then (retarget_interval p) (\<lambda>interval.
     and_then (rem_u32 height interval) (\<lambda>r.
     if r = 0 then
       (let prev = u256_from_compact prev_bits; next = u256_from_compact this_bits in
        and_then (u256_div_u64 prev 4) (\<lambda>quarter.
        if u256_less (u256_mul_u64 prev 4) next \<or> u256_less next quarter then Err (RetargetMismatch index)
        else Ok ()))
     else if this_bits = prev_bits then Ok ()
     else Err (RetargetOnANonBoundary index)))"

definition MEDIAN_TIME_SPAN :: usize where "MEDIAN_TIME_SPAN = 11"

definition median_time_past :: "block_header list \<Rightarrow> u32" where
  "median_time_past window = (let times = sort (map bh_timestamp window) in times ! (length times div 2))"

definition check_retarget_boundary ::
  "(bytes \<Rightarrow> bytes) \<Rightarrow> block_header \<Rightarrow> block_header \<Rightarrow> block_header \<Rightarrow> network_params_t \<Rightarrow> (spv_error, unit) res" where
  "check_retarget_boundary dsha period_first period_last boundary p =
     (if \<not> meets_pow dsha boundary then Err PowNotMet
      else if bh_prev_block boundary \<noteq> block_hash dsha period_last then Err (BrokenLink 0)
      else
      let actual = sat_sub (bh_timestamp period_last) (bh_timestamp period_first) in
      and_then (compute_retarget (bh_bits period_last) actual p) (\<lambda>expected.
      if bh_bits boundary \<noteq> expected then Err (RetargetMismatch 0) else Ok ()))"

text \<open>The body of the loop for a header with a predecessor, then the whole body.\<close>

definition vc_link ::
  "(bytes \<Rightarrow> bytes) \<Rightarrow> network_params_t \<Rightarrow> block_header list \<Rightarrow> u32 \<Rightarrow> usize \<Rightarrow> block_header \<Rightarrow> (spv_error, unit) res" where
  "vc_link dsha p headers height i h =
     (let prev = headers ! (i - 1) in
      if bh_prev_block h \<noteq> block_hash dsha prev then Err (BrokenLink i)
      else
      and_then (retarget_interval p) (\<lambda>interval.
      and_then (rem_u32 height interval) (\<lambda>r.
      and_then
        (if r = 0 then
           (if i < unat interval then Err (UnverifiableRetarget i)
            else check_retarget_boundary dsha (headers ! (i - unat interval)) prev h p)
         else bits_expectation height (bh_bits prev) (bh_bits h) p i) (\<lambda>_.
      if i \<ge> MEDIAN_TIME_SPAN \<and>
         bh_timestamp h \<le> median_time_past (take MEDIAN_TIME_SPAN (drop (i - MEDIAN_TIME_SPAN) headers))
      then Err (MedianTimePast i) else Ok ()))))"

definition vc_step ::
  "(bytes \<Rightarrow> bytes) \<Rightarrow> network_params_t \<Rightarrow> block_header list \<Rightarrow> u32 \<Rightarrow> usize \<Rightarrow> block_header \<Rightarrow> u256 \<Rightarrow>
   (spv_error, u256) res" where
  "vc_step dsha p headers start_height i h work =
     (let pow_limit = compact_to_target (np_pow_limit_bits p) in
      if u256_to_compact (u256_from_compact (bh_bits h)) \<noteq> bh_bits h then Err (NonCanonicalBits i)
      else if \<not> meets_pow dsha h then Err PowNotMet
      else if header_target h > pow_limit then Err (TargetBelowFloor i)
      else
      and_then (ok_or HeightOverflow (checked_add start_height (word_of_nat i))) (\<lambda>height.
      and_then (if i > 0 then vc_link dsha p headers height i h else Ok ()) (\<lambda>_.
      Ok (u256_wrapping_add work (block_work (bh_bits h))))))"

fun vc_loop ::
  "(bytes \<Rightarrow> bytes) \<Rightarrow> network_params_t \<Rightarrow> block_header list \<Rightarrow> u32 \<Rightarrow> usize \<Rightarrow> block_header list \<Rightarrow> u256 \<Rightarrow>
   (spv_error, u256) res" where
  "vc_loop dsha p headers start_height i [] work = Ok work"
| "vc_loop dsha p headers start_height i (h # hs) work =
     and_then (vc_step dsha p headers start_height i h work) (\<lambda>work'.
     vc_loop dsha p headers start_height (Suc i) hs work')"

text \<open>\<open>headers.len() as u32 - 1\<close> panics when the length is a multiple of \<open>2^32\<close>.\<close>

definition verify_chain ::
  "(bytes \<Rightarrow> bytes) \<Rightarrow> block_header list \<Rightarrow> u32 \<Rightarrow> network_params_t \<Rightarrow> (spv_error, verified_chain) res" where
  "verify_chain dsha headers start_height p =
     (if headers = [] then Err EmptyChain
      else
      and_then (vc_loop dsha p headers start_height 0 headers U256_ZERO) (\<lambda>work.
      if (word_of_nat (length headers) :: u32) = 0 then Panic
      else
      and_then (ok_or HeightOverflow (checked_add start_height (word_of_nat (length headers) - 1))) (\<lambda>tip_height.
      Ok \<lparr>vc_start_height = start_height, vc_tip_height = tip_height,
          vc_tip_hash = block_hash dsha (last headers), vc_work = work, vc_headers = headers\<rparr>)))"

definition heavier :: "verified_chain \<Rightarrow> verified_chain \<Rightarrow> verified_chain" where
  "heavier a b = (if u256_less (vc_work a) (vc_work b) then b else a)"

definition PINNED_CHECKPOINTS :: "(network \<times> u32 \<times> bytes) list" where
  "PINNED_CHECKPOINTS = []"

definition checkpoint_is_pinned :: "network \<Rightarrow> checkpoint \<Rightarrow> bool" where
  "checkpoint_is_pinned net cp \<longleftrightarrow>
     list_ex (\<lambda>(pinned_network, height, hash). pinned_network = net \<and> height = cp_height cp \<and> hash = cp_hash cp)
       PINNED_CHECKPOINTS"

definition header_at :: "verified_chain \<Rightarrow> u32 \<Rightarrow> block_header option" where
  "header_at c height =
     (if height < vc_start_height c \<or> height > vc_tip_height c then None
      else let i = unat (height - vc_start_height c) in
        if i < length (vc_headers c) then Some (vc_headers c ! i) else None)"

definition work_above :: "verified_chain \<Rightarrow> u32 \<Rightarrow> u256" where
  "work_above c height =
     fold (\<lambda>(i, header) work.
         if sat_add (vc_start_height c) (word_of_nat i) > height
         then u256_wrapping_add work (block_work (bh_bits header)) else work)
       (enumerate 0 (vc_headers c)) U256_ZERO"

definition anchored_to :: "(bytes \<Rightarrow> bytes) \<Rightarrow> verified_chain \<Rightarrow> checkpoint \<Rightarrow> (spv_error, unit) res" where
  "anchored_to dsha c cp =
     and_then (ok_or CheckpointNotInChain (header_at c (cp_height cp))) (\<lambda>header.
     if block_hash dsha header \<noteq> cp_hash cp then Err CheckpointMismatch
     else if u256_less (work_above c (cp_height cp)) (cp_min_work cp) then Err InsufficientWork
     else Ok ())"

text \<open>\<open>tip - height + 1\<close>; the sum panics on overflow.\<close>

definition depth_of :: "verified_chain \<Rightarrow> u32 \<Rightarrow> ('e, u32) res" where
  "depth_of c height =
     (case checked_add (vc_tip_height c - height) 1 of Some n \<Rightarrow> Ok n | None \<Rightarrow> Panic)"

definition chain_confirmations :: "verified_chain \<Rightarrow> u32 \<Rightarrow> ('e, u32 option) res" where
  "chain_confirmations c height =
     (if height < vc_start_height c \<or> height > vc_tip_height c then Ok None
      else map_ok Some (depth_of c height))"

definition verify_deposit ::
  "(bytes \<Rightarrow> bytes) \<Rightarrow> verified_chain \<Rightarrow> u32 \<Rightarrow> bytes \<Rightarrow> merkle_step list \<Rightarrow> u32 \<Rightarrow>
   (spv_error, confirmed_deposit) res" where
  "verify_deposit dsha c deposit_height txid branch required_confirmations =
     and_then (ok_or HeightOutOfRange (header_at c deposit_height)) (\<lambda>header.
     and_then (fold_merkle_branch dsha txid branch) (\<lambda>root.
     if root \<noteq> bh_merkle_root header then Err MerkleMismatch
     else
     and_then (depth_of c deposit_height) (\<lambda>confirmations.
     if confirmations < required_confirmations
     then Err (InsufficientConfirmations confirmations required_confirmations)
     else Ok \<lparr>cd_block_hash = block_hash dsha header, cd_merkle_root = bh_merkle_root header,
              cd_deposit_height = deposit_height, cd_confirmations = confirmations\<rparr>)))"

section \<open>What the checks amount to\<close>

definition difficulty_ok :: "network_params_t \<Rightarrow> block_header list \<Rightarrow> nat \<Rightarrow> nat \<Rightarrow> bool" where
  "difficulty_ok p headers height i \<longleftrightarrow>
     (let interval = unat (np_target_timespan p) div unat (np_target_spacing p);
          prev = headers ! (i - 1); h = headers ! i
      in if height mod interval = 0
         then interval \<le> i \<and>
           (compute_retarget (bh_bits prev)
             (sat_sub (bh_timestamp prev) (bh_timestamp (headers ! (i - interval)))) p :: (spv_error, u32) res) = Ok (bh_bits h)
         else bh_bits h = bh_bits prev)"

definition header_ok :: "(bytes \<Rightarrow> bytes) \<Rightarrow> network_params_t \<Rightarrow> nat \<Rightarrow> block_header list \<Rightarrow> nat \<Rightarrow> bool" where
  "header_ok dsha p start headers i \<longleftrightarrow>
     (let h = headers ! i in
      u256_to_compact (u256_from_compact (bh_bits h)) = bh_bits h \<and>
      be_nat (rev (block_hash dsha h)) \<le> compact_value (bh_bits h) \<and>
      compact_value (bh_bits h) \<le> compact_value (np_pow_limit_bits p) \<and>
      start + i < 2 ^ 32 \<and>
      (0 < i \<longrightarrow>
         bh_prev_block h = block_hash dsha (headers ! (i - 1)) \<and>
         difficulty_ok p headers (start + i) i \<and>
         (11 \<le> i \<longrightarrow> sort (map bh_timestamp (take 11 (drop (i - 11) headers))) ! 5 < bh_timestamp h)))"

text \<open>A network whose retarget interval exists.\<close>

definition params_ok :: "network_params_t \<Rightarrow> bool" where
  "params_ok p \<longleftrightarrow> 0 < unat (np_target_spacing p) \<and> np_target_spacing p \<le> np_target_timespan p"

lemma params_ok_BITCOIN: "params_ok BITCOIN" "params_ok BITCOIN_CASH"
  by (simp_all add: params_ok_def BITCOIN_def BITCOIN_CASH_def)

lemma params_okD:
  assumes "params_ok p"
  shows "np_target_timespan p \<noteq> 0" "np_target_spacing p \<noteq> 0"
    and "unat (np_target_timespan p div np_target_spacing p) = unat (np_target_timespan p) div unat (np_target_spacing p)"
    and "0 < unat (np_target_timespan p) div unat (np_target_spacing p)"
proof -
  have s: "0 < unat (np_target_spacing p)" "unat (np_target_spacing p) \<le> unat (np_target_timespan p)"
    using assms by (auto simp: params_ok_def word_le_nat_alt)
  then show "np_target_timespan p \<noteq> 0" "np_target_spacing p \<noteq> 0"
    "unat (np_target_timespan p div np_target_spacing p) = unat (np_target_timespan p) div unat (np_target_spacing p)"
    "0 < unat (np_target_timespan p) div unat (np_target_spacing p)"
    by (auto simp: unat_div_distrib div_greater_zero_iff)
qed

lemma meets_pow_iff:
  assumes "\<And>x. length (dsha x) = 32"
  shows "meets_pow dsha h \<longleftrightarrow> be_nat (rev (block_hash dsha h)) \<le> compact_value (bh_bits h)"
  using assms bytes_le_iff [of "rev (block_hash dsha h)" "header_target h"]
  by (simp add: meets_pow_def pow_hash_be_def header_target_def compact_to_target_val block_hash_def)

lemma target_above_iff: "header_target h > compact_to_target b \<longleftrightarrow> compact_value b < compact_value (bh_bits h)"
  using bytes_le_iff [of "header_target h" "compact_to_target b"]
  by (simp add: header_target_def compact_to_target_val not_le [symmetric])

lemma compute_retarget_not_Panic: "np_target_timespan p \<noteq> 0 \<Longrightarrow> compute_retarget old t p \<noteq> Panic \<and> compute_retarget old t p \<noteq> Err e"
proof -
  assume "np_target_timespan p \<noteq> 0"
  then have "(ucast (np_target_timespan p) :: u64) \<noteq> 0" by (simp add: word_unat_eq_iff unat_up32)
  then show ?thesis by (simp add: compute_retarget_def u256_div_u64_def Let_def)
qed

lemma height_rem:
  assumes "params_ok p"
  shows "(height mod (np_target_timespan p div np_target_spacing p) = 0) \<longleftrightarrow>
    unat height mod (unat (np_target_timespan p) div unat (np_target_spacing p)) = 0"
    "np_target_timespan p div np_target_spacing p \<noteq> 0"
  using params_okD [OF assms] by (simp_all add: word_unat_eq_iff unat_mod_distrib)

lemma vc_link_iff:
  assumes "params_ok p" "\<And>x. length (dsha x) = 32" "0 < i" "i < length headers" "meets_pow dsha (headers ! i)"
  shows "vc_link dsha p headers height i (headers ! i) = Ok u \<longleftrightarrow>
      bh_prev_block (headers ! i) = block_hash dsha (headers ! (i - 1)) \<and> difficulty_ok p headers (unat height) i \<and>
      (11 \<le> i \<longrightarrow> sort (map bh_timestamp (take 11 (drop (i - 11) headers))) ! 5 < bh_timestamp (headers ! i))"
    and "vc_link dsha p headers height i (headers ! i) \<noteq> Panic"
proof -
  let ?h = "headers ! i" and ?prev = "headers ! (i - 1)"
  let ?n = "np_target_timespan p div np_target_spacing p"
  let ?mtp = "i \<ge> MEDIAN_TIME_SPAN \<and>
    bh_timestamp ?h \<le> median_time_past (take MEDIAN_TIME_SPAN (drop (i - MEDIAN_TIME_SPAN) headers))"
  define check where "check = (if height mod ?n = 0
       then (if i < unat ?n then Err (UnverifiableRetarget i)
             else check_retarget_boundary dsha (headers ! (i - unat ?n)) ?prev ?h p)
       else bits_expectation height (bh_bits ?prev) (bh_bits ?h) p i)"
  note nz = height_rem [OF assms(1)] params_okD [OF assms(1)]
  have link: "vc_link dsha p headers height i ?h = (if bh_prev_block ?h \<noteq> block_hash dsha ?prev then Err (BrokenLink i)
      else and_then check (\<lambda>_. if ?mtp then Err (MedianTimePast i) else Ok ()))"
    using nz by (simp add: vc_link_def Let_def retarget_interval_def rem_u32_def check_def)
  have mtp: "?mtp \<longleftrightarrow> \<not> (11 \<le> i \<longrightarrow> sort (map bh_timestamp (take 11 (drop (i - 11) headers))) ! 5 < bh_timestamp ?h)"
    using assms(4) by (auto simp: MEDIAN_TIME_SPAN_def median_time_past_def not_le)
  have check: "check = Ok u \<longleftrightarrow> difficulty_ok p headers (unat height) i" "check \<noteq> Panic"
    if "bh_prev_block ?h = block_hash dsha ?prev" for u
  proof -
    have bits: "bits_expectation height a b p i = (if b = a then Ok () else Err (RetargetOnANonBoundary i))"
      if "height mod ?n \<noteq> 0" for a b
      using that nz by (simp add: bits_expectation_def retarget_interval_def rem_u32_def)
    have bound: "check_retarget_boundary dsha first prev ?h p = and_then (compute_retarget (bh_bits prev)
          (sat_sub (bh_timestamp prev) (bh_timestamp first)) p) (\<lambda>e. if bh_bits ?h \<noteq> e then Err (RetargetMismatch 0) else Ok ())"
      if "bh_prev_block ?h = block_hash dsha prev" for first prev using assms(5) that by (simp add: check_retarget_boundary_def Let_def)
    show "check = Ok u \<longleftrightarrow> difficulty_ok p headers (unat height) i" 
      using nz that
      by (auto simp: check_def difficulty_ok_def Let_def bits bound and_then_Ok_iff not_less split: if_splits)
    show "check \<noteq> Panic"
      using that by (auto simp: check_def bits bound and_then_Panic_iff compute_retarget_not_Panic [OF nz(3)])
  qed
  show "vc_link dsha p headers height i ?h = Ok u \<longleftrightarrow> bh_prev_block ?h = block_hash dsha ?prev \<and>
      difficulty_ok p headers (unat height) i \<and>
      (11 \<le> i \<longrightarrow> sort (map bh_timestamp (take 11 (drop (i - 11) headers))) ! 5 < bh_timestamp ?h)"
    using check(1) mtp by (auto simp: link and_then_Ok_iff)
  show "vc_link dsha p headers height i ?h \<noteq> Panic"
    using check(2) by (auto simp: link and_then_Panic_iff)
qed

lemma vc_step_iff:
  assumes "params_ok p" "\<And>x. length (dsha x) = 32" "i < length headers" "length headers < 2 ^ 32"
  shows "vc_step dsha p headers start i (headers ! i) work = Ok work' \<longleftrightarrow>
      header_ok dsha p (unat start) headers i \<and> work' = u256_wrapping_add work (block_work (bh_bits (headers ! i)))"
    and "vc_step dsha p headers start i (headers ! i) work \<noteq> Panic"
proof -
  let ?h = "headers ! i"
  have i: "unat (word_of_nat i :: u32) = i" using assms(3,4) by (simp add: unat_of_nat)
  have height: "checked_add start (word_of_nat i) = Some height \<longleftrightarrow> unat height = unat start + i" for height
    by (simp add: checked_add_Some_iff i)
  have none: "checked_add start (word_of_nat i) = None \<longleftrightarrow> 2 ^ 32 \<le> unat start + i"
    by (simp add: checked_add_def i not_less)
  note link = vc_link_iff [OF assms(1,2) _ assms(3)]
  show "vc_step dsha p headers start i ?h work = Ok work' \<longleftrightarrow>
      header_ok dsha p (unat start) headers i \<and> work' = u256_wrapping_add work (block_work (bh_bits ?h))"
  proof (cases "checked_add start (word_of_nat i)")
    case None
    with none show ?thesis by (auto simp: vc_step_def Let_def header_ok_def)
  next
    case (Some height)
    then have ht: "unat height = unat start + i" using height by simp
    moreover have "unat height < 2 ^ 32" using unsigned_less [of height] by simp
    ultimately have "unat start + i < 2 ^ 32" by simp
    with ht have ht: "unat height = unat start + i" "unat start + i < 2 ^ 32" by simp_all
    then show ?thesis
      using link(1) [where height = height] Some assms(2)
      by (auto simp: vc_step_def Let_def header_ok_def target_above_iff meets_pow_iff and_then_Ok_iff not_less split: if_splits)
  qed
  show "vc_step dsha p headers start i ?h work \<noteq> Panic"
    using link(2) by (auto simp: vc_step_def Let_def and_then_Panic_iff split: if_splits)
qed

lemma vc_loop_iff:
  assumes "params_ok p" "\<And>x. length (dsha x) = 32" "length headers < 2 ^ 32" "drop i headers = hs"
  shows "(vc_loop dsha p headers start i hs work = Ok work' \<longleftrightarrow>
      (\<forall>j. i \<le> j \<and> j < length headers \<longrightarrow> header_ok dsha p (unat start) headers j) \<and>
      work' = fold (\<lambda>h w. u256_wrapping_add w (block_work (bh_bits h))) hs work) \<and>
    vc_loop dsha p headers start i hs work \<noteq> Panic"
  using assms(4)
proof (induction hs arbitrary: i work)
  case Nil
  then show ?case by auto
next
  case (Cons h hs)
  have i: "i < length headers" "headers ! i = h" "drop (Suc i) headers = hs"
    using Cons.prems by (auto simp: drop_Suc drop_tl nth_via_drop intro: ccontr)
  note step = vc_step_iff [OF assms(1,2) i(1) assms(3), unfolded i(2)]
  have split: "(\<forall>j. i \<le> j \<and> j < length headers \<longrightarrow> P j) \<longleftrightarrow> P i \<and> (\<forall>j. Suc i \<le> j \<and> j < length headers \<longrightarrow> P j)" for P
    using i(1) by (metis Suc_leD le_eq_less_or_eq Suc_leI order_refl)
  show ?case unfolding split
    using Cons.IH [OF i(3)] step by (auto simp: and_then_Ok_iff and_then_Panic_iff)
qed

section \<open>Accepted runs\<close>

definition total_work :: "block_header list \<Rightarrow> nat" where
  "total_work hs = (\<Sum>h\<leftarrow>hs. uval (block_work (bh_bits h)))"

lemma fold_work:
  "u256_wf w \<Longrightarrow> u256_wf (fold (\<lambda>h w. u256_wrapping_add w (block_work (bh_bits h))) hs w) \<and>
   uval (fold (\<lambda>h w. u256_wrapping_add w (block_work (bh_bits h))) hs w) mod 2 ^ 256 = (uval w + total_work hs) mod 2 ^ 256"
proof (induction hs arbitrary: w)
  case (Cons h hs)
  let ?w = "u256_wrapping_add w (block_work (bh_bits h))"
  have w: "u256_wf ?w" "uval ?w = (uval w + uval (block_work (bh_bits h))) mod 2 ^ 256"
    using Cons.prems u256_val(1) [of w "block_work (bh_bits h)"] by (simp_all add: u256_wf_ops block_work_val(2))
  from Cons.IH [OF w(1)] w(2) show ?case by (simp add: total_work_def mod_add_left_eq add.assoc)
qed (simp add: total_work_def)

lemma uval_mod: "u256_wf x \<Longrightarrow> uval x mod 2 ^ 256 = uval x"
  using uval_less [of x] by (simp add: u256_wf_def)

definition chain_of :: "(bytes \<Rightarrow> bytes) \<Rightarrow> u32 \<Rightarrow> block_header list \<Rightarrow> verified_chain" where
  "chain_of dsha start headers =
     \<lparr>vc_start_height = start, vc_tip_height = start + word_of_nat (length headers - 1),
      vc_tip_hash = block_hash dsha (last headers),
      vc_work = fold (\<lambda>h w. u256_wrapping_add w (block_work (bh_bits h))) headers U256_ZERO, vc_headers = headers\<rparr>"

lemma chain_of_work: "uval (vc_work (chain_of dsha start headers)) = total_work headers mod 2 ^ 256"
  "u256_wf (vc_work (chain_of dsha start headers))"
proof -
  let ?w = "fold (\<lambda>h w. u256_wrapping_add w (block_work (bh_bits h))) headers U256_ZERO"
  have w: "u256_wf ?w" "uval ?w mod 2 ^ 256 = (uval U256_ZERO + total_work headers) mod 2 ^ 256"
    using fold_work [OF u256_wf_ops(4), of headers] by auto
  then show "uval (vc_work (chain_of dsha start headers)) = total_work headers mod 2 ^ 256"
    "u256_wf (vc_work (chain_of dsha start headers))"
    by (simp_all only: chain_of_def verified_chain.simps uval_mod) (simp add: U256_ZERO_def)
qed

lemma verify_chain_iff:
  assumes "params_ok p" "\<And>x. length (dsha x) = 32" "headers \<noteq> []" "length headers < 2 ^ 32"
  shows "verify_chain dsha headers start p = Ok c \<longleftrightarrow>
      (\<forall>i<length headers. header_ok dsha p (unat start) headers i) \<and> c = chain_of dsha start headers"
    and "verify_chain dsha headers start p \<noteq> Panic"
proof -
  let ?n = "length headers"
  let ?work = "fold (\<lambda>h w. u256_wrapping_add w (block_work (bh_bits h))) headers U256_ZERO"
  have n: "unat (word_of_nat ?n :: u32) = ?n" "0 < ?n" using assms(3,4) by (simp_all add: unat_of_nat)
  then have nz: "(word_of_nat ?n :: u32) \<noteq> 0" by (metis not_gr_zero unsigned_0)
  have pred: "(word_of_nat ?n :: u32) - 1 = word_of_nat (?n - 1)" using n(2) by (cases ?n) simp_all
  have pn: "unat (word_of_nat (?n - 1) :: u32) = ?n - 1" using assms(4) by (simp add: unat_of_nat)
  have loop: "vc_loop dsha p headers start 0 headers U256_ZERO = Ok w \<longleftrightarrow>
      (\<forall>i<?n. header_ok dsha p (unat start) headers i) \<and> w = ?work"
    "vc_loop dsha p headers start 0 headers U256_ZERO \<noteq> Panic" for w
    using vc_loop_iff [OF assms(1,2,4), of 0 headers] by auto
  have tip: "checked_add start (word_of_nat (?n - 1)) = Some (start + word_of_nat (?n - 1))"
    if "\<forall>i<?n. header_ok dsha p (unat start) headers i"
  proof -
    have "header_ok dsha p (unat start) headers (?n - 1)" using that n(2) by simp
    then have "unat start + (?n - 1) < 2 ^ 32" by (simp add: header_ok_def Let_def)
    then show ?thesis unfolding checked_add_def pn by simp
  qed
  show "verify_chain dsha headers start p = Ok c \<longleftrightarrow>
      (\<forall>i<?n. header_ok dsha p (unat start) headers i) \<and> c = chain_of dsha start headers"
    using loop(1) tip assms(3) nz
    by (auto simp: verify_chain_def and_then_Ok_iff chain_of_def pred ok_or_Ok_iff)
  show "verify_chain dsha headers start p \<noteq> Panic"
    using loop(2) assms(3) nz by (auto simp: verify_chain_def and_then_Panic_iff)
qed

lemma tip_chain_of:
  assumes "unat start + length headers \<le> 2 ^ 32" "headers \<noteq> []"
  shows "unat (vc_tip_height (chain_of dsha start headers)) = unat start + length headers - 1"
proof -
  obtain m where m: "length headers = Suc m" using assms(2) by (cases headers) auto
  then have "unat (word_of_nat m :: u32) = m" using assms(1) by (simp add: unat_of_nat)
  then show ?thesis using assms(1) m by (simp add: chain_of_def unat_plus_no_overflow)
qed

lemma header_at_chain_of:
  assumes "unat start + length headers \<le> 2 ^ 32" "headers \<noteq> []"
  shows "header_at (chain_of dsha start headers) height =
    (if unat start \<le> unat height \<and> unat height < unat start + length headers
     then Some (headers ! (unat height - unat start)) else None)"
proof -
  let ?c = "chain_of dsha start headers"
  obtain m where m: "length headers = Suc m" using assms(2) by (cases headers) auto
  have tip: "unat (vc_tip_height ?c) = unat start + m" using tip_chain_of [OF assms, of dsha] m by simp
  have st: "vc_start_height ?c = start" by (simp add: chain_of_def)
  have sub: "unat (height - start) = unat height - unat start" if "unat start \<le> unat height"
    using that by (simp add: unat_sub word_le_nat_alt)
  show ?thesis
  proof (cases "unat start \<le> unat height \<and> unat height < unat start + length headers")
    case True
    then have "\<not> (height < vc_start_height ?c \<or> vc_tip_height ?c < height)" "unat height - unat start < length headers"
      unfolding word_less_nat_alt tip st m by linarith+
    then show ?thesis using True sub by (simp add: header_at_def st) (simp add: chain_of_def Let_def)
  next
    case False
    then have "height < vc_start_height ?c \<or> vc_tip_height ?c < height"
      unfolding word_less_nat_alt tip st m by linarith
    with False show ?thesis by (auto simp: header_at_def)
  qed
qed

lemma depth_of_chain_of:
  assumes "unat start + length headers \<le> 2 ^ 32" "headers \<noteq> []"
    and "unat start \<le> unat height" "unat height < unat start + length headers"
    and "depth_of (chain_of dsha start headers) height = Ok n"
  shows "unat n = unat start + length headers - unat height"
proof -
  let ?c = "chain_of dsha start headers"
  have n: "0 < length headers" using assms(2) by simp
  note tip = tip_chain_of [OF assms(1,2), of dsha]
  then have "unat (vc_tip_height ?c - height) = unat start + length headers - 1 - unat height"
    using assms(4) by (subst unat_sub) (auto simp: word_le_nat_alt)
  with assms(4,5) show ?thesis by (auto simp: depth_of_def checked_add_Some_iff split: option.splits)
qed

lemma header_ok_height:
  "\<forall>i<length headers. header_ok dsha p start headers i \<Longrightarrow> headers \<noteq> [] \<Longrightarrow> start + length headers \<le> 2 ^ 32"
proof -
  assume "\<forall>i<length headers. header_ok dsha p start headers i" "headers \<noteq> []"
  then have "header_ok dsha p start headers (length headers - 1)" "0 < length headers" by auto
  then have "start + (length headers - 1) < 2 ^ 32" "0 < length headers" unfolding header_ok_def Let_def by blast+
  then show ?thesis by linarith
qed

lemma chain_of_unique:
  assumes "unat start + length headers \<le> 2 ^ 32" "headers \<noteq> []"
  shows "c = chain_of dsha start headers \<longleftrightarrow>
    vc_start_height c = start \<and> unat (vc_tip_height c) + 1 = unat start + length headers \<and>
    vc_tip_hash c = block_hash dsha (last headers) \<and> vc_headers c = headers \<and>
    u256_wf (vc_work c) \<and> uval (vc_work c) = total_work headers mod 2 ^ 256" (is "_ \<longleftrightarrow> ?R")
proof
  let ?d = "chain_of dsha start headers"
  have tip: "unat (vc_tip_height ?d) + 1 = unat start + length headers"
    using tip_chain_of [OF assms] assms(2) by (cases headers) simp_all
  have fields: "vc_start_height ?d = start" "vc_tip_hash ?d = block_hash dsha (last headers)" "vc_headers ?d = headers"
    by (simp_all add: chain_of_def)
  show "?R" if "c = ?d" using that tip fields chain_of_work [of dsha start headers] by simp
  assume R: ?R
  with tip have "vc_tip_height c = vc_tip_height ?d" by (simp add: word_unat_eq_iff)
  moreover have "vc_work c = vc_work ?d"
    using R chain_of_work [of dsha start headers] by (intro uval_inject) (simp_all add: u256_wf_def)
  ultimately show "c = ?d" using R fields by (intro verified_chain.equality) simp_all
qed

text \<open>C30: a run of headers is accepted exactly when every header in it is good: canonical bits, a hash at
  or below the target, a target within the network's limit, a height that exists, and, from the
  second on, the hash of its predecessor, the difficulty the retarget rule prescribes and a time
  past the median of eleven; the result names the tip and the sum of the work of all its blocks,
  and no run makes the checks panic.\<close>

theorem verify_chain_exact:
  assumes "params_ok p" "\<And>x. length (dsha x) = 32" "headers \<noteq> []" "length headers < 2 ^ 32"
  shows "(verify_chain dsha headers start p = Ok c \<longleftrightarrow>
      (\<forall>i<length headers. header_ok dsha p (unat start) headers i) \<and>
      vc_start_height c = start \<and> unat (vc_tip_height c) + 1 = unat start + length headers \<and>
      vc_tip_hash c = block_hash dsha (last headers) \<and> vc_headers c = headers \<and>
      u256_wf (vc_work c) \<and> uval (vc_work c) = total_work headers mod 2 ^ 256) \<and>
    verify_chain dsha headers start p \<noteq> Panic"
proof -
  note iff = verify_chain_iff [where dsha = dsha and start = start, OF assms]
  show ?thesis
  proof (cases "\<forall>i<length headers. header_ok dsha p (unat start) headers i")
    case True
    from chain_of_unique [OF header_ok_height [OF True assms(3)] assms(3), of c dsha] iff True show ?thesis by simp
  next
    case False
    with iff show ?thesis by simp
  qed
qed

definition sample_header :: block_header where
  "sample_header = \<lparr>bh_version = 1, bh_prev_block = replicate 32 0, bh_merkle_root = replicate 32 7,
     bh_timestamp = 1231006505, bh_bits = 0x1d00ffff, bh_nonce = 0\<rparr>"

lemma sample_bits: "u256_to_compact (u256_from_compact 0x1d00ffff) = 0x1d00ffff"
proof -
  let ?x = "u256_from_compact 0x1d00ffff"
  have v: "uval ?x = 0xffff * 256 ^ 26" by (simp add: compact_value_def Let_def)
  then obtain n where n: "1 \<le> n" "n \<le> 32" "256 ^ (n - 1) \<le> uval ?x" "uval ?x < 256 ^ n"
    "unat (u256_to_compact ?x) = (let m = top_bytes n (uval ?x) in
      if 2 ^ 23 \<le> m then (n + 1) * 2 ^ 24 + m div 256 else n * 2 ^ 24 + m)"
    using to_compact_val [of ?x] by (metis mult_eq_0_iff power_eq_0_iff uval_from_compact(2) zero_neq_numeral)
  have "n = 28" by (rule byte_length_unique [of 28 "uval ?x"]) (use n in \<open>simp_all only: v\<close>, simp_all)
  with n(5) have "unat (u256_to_compact ?x) = 0x1d00ffff" unfolding v by (simp add: top_bytes_def Let_def)
  then show ?thesis by (simp add: word_unat_eq_iff)
qed

lemma sample_header_ok:
  "\<forall>i<length [sample_header, sample_header].
     header_ok (\<lambda>_. replicate 32 0) BITCOIN 1 [sample_header, sample_header] i"
proof -
  have "rev (replicate 32 0) = (replicate 32 0 :: bytes)" by (rule rev_replicate)
  then have "header_ok (\<lambda>_. replicate 32 0) BITCOIN 1 [sample_header, sample_header] i" if "i = 0 \<or> i = 1" for i
    using that by (auto simp: header_ok_def difficulty_ok_def block_hash_def BITCOIN_def sample_header_def sample_bits)
  then show ?thesis by (simp add: less_Suc_eq)
qed

theorem verify_chain_exact_witness:
  "\<exists>c. verify_chain (\<lambda>_. replicate 32 0) [sample_header, sample_header] 1 BITCOIN = Ok c \<and>
     vc_tip_height c = 2 \<and> uval (vc_work c) = 2 * 4295032833"
proof -
  let ?d = "\<lambda>_ :: bytes. replicate 32 0 :: bytes" and ?hs = "[sample_header, sample_header]"
  have work: "uval (block_work 0x1d00ffff) = 4295032833"
    by (simp add: block_work_val compact_value_def Let_def)
  let ?c = "chain_of ?d 1 ?hs"
  have "vc_start_height ?c = 1" "unat (vc_tip_height ?c) + 1 = unat (1 :: u32) + length ?hs"
    "vc_tip_hash ?c = block_hash ?d (last ?hs)" "vc_headers ?c = ?hs" "u256_wf (vc_work ?c)"
    "uval (vc_work ?c) = total_work ?hs mod 2 ^ 256"
    using chain_of_work [of ?d 1 ?hs] by (simp_all add: chain_of_def)
  then have "verify_chain ?d ?hs 1 BITCOIN = Ok ?c"
    using verify_chain_exact [where dsha = ?d and p = BITCOIN and headers = ?hs and start = 1 and c = ?c,
      OF params_ok_BITCOIN(1)] sample_header_ok by simp
  moreover have "uval (vc_work ?c) = 2 * 4295032833"
    using chain_of_work(1) [of ?d 1 ?hs] by (simp add: total_work_def sample_header_def work)
  moreover have "vc_tip_height ?c = 2" by (simp add: chain_of_def)
  ultimately show ?thesis by blast
qed

end
