(* ===== verification/Btc_Tx.thy ===== *)
theory Btc_Tx
  imports Btc_Header
begin

text \<open>
  Bitcoin transactions: \<^verbatim>\<open>crates/qlc-bitcoin/src/tx.rs\<close>. The parser is built from the readers of theory
  \<open>Cursor\<close> (a slice and a position, as in the source); its loops over inputs, outputs and witness items
  are counted loops. The theorem: no byte string makes the parser panic, and a parsed transaction is
  the only one with its legacy serialisation, the string whose hash is the transaction id.
\<close>

record tx_input =
  ti_raw :: bytes

record tx_output =
  to_value :: u64
  to_script :: bytes

record transaction =
  tx_version :: u32
  tx_inputs :: "tx_input list"
  tx_outputs :: "tx_output list"
  tx_locktime :: u32

definition tx_take :: "nat \<Rightarrow> (spv_error, bytes) reading" where
  "tx_take n = cursor_take MalformedTransaction n"

definition tx_u32_le :: "(spv_error, u32) reading" where
  "tx_u32_le = rd_bind (tx_take 4) (\<lambda>b. rd_return (from_le_bytes b))"

definition tx_u64_le :: "(spv_error, u64) reading" where
  "tx_u64_le = rd_bind (tx_take 8) (\<lambda>b. rd_return (from_le_bytes b))"

definition varint_floor :: "u64 \<Rightarrow> u64 \<Rightarrow> (spv_error, u64) reading" where
  "varint_floor floor value = (if value < floor then rd_fail MalformedTransaction else rd_return value)"

definition varint_value :: "u8 \<Rightarrow> (spv_error, u64) reading" where
  "varint_value first =
     (if first = 0xff then rd_bind tx_u64_le (varint_floor 0x100000000)
      else if first = 0xfe then rd_bind tx_u32_le (\<lambda>v. varint_floor 0x10000 (ucast v))
      else if first = 0xfd then rd_bind (tx_take 2) (\<lambda>b. varint_floor 0xfd (ucast (from_le_bytes b :: u16)))
      else rd_return (ucast first))"

definition varint :: "(spv_error, u64) reading" where
  "varint = rd_bind (tx_take 1) (\<lambda>b. varint_value (b ! 0))"

definition put_varint :: "u64 \<Rightarrow> bytes" where
  "put_varint n =
     (if n < 0xfd then [ucast n]
      else if n \<le> 0xffff then 0xfd # to_le_bytes (ucast n :: u16)
      else if n \<le> 0xffffffff then 0xfe # to_le_bytes (ucast n :: u32)
      else 0xff # to_le_bytes n)"

definition MAX_COUNT :: u64 where "MAX_COUNT = 100000"
definition MAX_MONEY :: u64 where "MAX_MONEY = 21000000 * 100000000"

text \<open>One input: outpoint, script, sequence; the raw bytes are the slice from its start.\<close>

definition rd_input :: "(spv_error, tx_input) reading" where
  "rd_input c =
     and_then
       (rd_bind (tx_take 36) (\<lambda>_.
        rd_bind varint (\<lambda>script_len.
        rd_bind (tx_take (unat script_len)) (\<lambda>_. tx_take 4))) c) (\<lambda>(_, c').
     and_then (slice (cbuf c) (cpos c) (cpos c')) (\<lambda>raw. Ok (\<lparr>ti_raw = raw\<rparr>, c')))"

definition rd_output :: "u64 \<times> tx_output list \<Rightarrow> (spv_error, u64 \<times> tx_output list) reading" where
  "rd_output = (\<lambda>(total, outputs).
     rd_bind tx_u64_le (\<lambda>value.
     case checked_add total value of
       None \<Rightarrow> rd_fail MalformedTransaction
     | Some total' \<Rightarrow>
         if \<not> total' \<le> MAX_MONEY then rd_fail MalformedTransaction
         else
           rd_bind varint (\<lambda>script_len.
           rd_bind (tx_take (unat script_len)) (\<lambda>script.
           rd_return (total', outputs @ [\<lparr>to_value = value, to_script = script\<rparr>])))))"

definition rd_witness :: "u64 \<Rightarrow> (spv_error, bool) reading" where
  "rd_witness input_count =
     rd_loop (unat input_count) (\<lambda>witnessed.
       rd_bind varint (\<lambda>items.
       rd_bind (rd_loop (unat items) (\<lambda>_.
         rd_bind varint (\<lambda>len. rd_bind (tx_take (unat len)) (\<lambda>_. rd_return ()))) ()) (\<lambda>_.
       rd_return (witnessed \<or> items > 0)))) False"

definition legacy_bytes :: "transaction \<Rightarrow> bytes" where
  "legacy_bytes tx =
     to_le_bytes (tx_version tx) @
     put_varint (word_of_nat (length (tx_inputs tx))) @
     concat (map ti_raw (tx_inputs tx)) @
     put_varint (word_of_nat (length (tx_outputs tx))) @
     concat (map (\<lambda>o'. to_le_bytes (to_value o') @
       put_varint (word_of_nat (length (to_script o'))) @ to_script o') (tx_outputs tx)) @
     to_le_bytes (tx_locktime tx)"

definition rd_inputs :: "(spv_error, u64 \<times> tx_input list) reading" where
  "rd_inputs =
     rd_bind varint (\<lambda>input_count.
     if input_count = 0 \<or> input_count > MAX_COUNT then rd_fail MalformedTransaction else
     rd_bind (rd_loop (unat input_count) (\<lambda>inputs. rd_bind rd_input (\<lambda>x. rd_return (inputs @ [x]))) []) (\<lambda>inputs.
     rd_return (input_count, inputs)))"

definition rd_outputs :: "(spv_error, u64 \<times> tx_output list) reading" where
  "rd_outputs =
     rd_bind varint (\<lambda>output_count.
     if output_count = 0 \<or> output_count > MAX_COUNT then rd_fail MalformedTransaction else
     rd_loop (unat output_count) rd_output (0, []))"

definition rd_marker :: "bool \<Rightarrow> (spv_error, unit) reading" where
  "rd_marker segwit = (if segwit then rd_bind (tx_take 2) (\<lambda>_. rd_return ()) else rd_return ())"

definition rd_witnesses :: "bool \<Rightarrow> u64 \<Rightarrow> (spv_error, unit) reading" where
  "rd_witnesses segwit input_count =
     (if segwit then
        rd_bind (rd_witness input_count) (\<lambda>witnessed.
        if \<not> witnessed then rd_fail MalformedTransaction else rd_return ())
      else rd_return ())"

definition tx_rest :: "bool \<Rightarrow> u32 \<Rightarrow> (spv_error, transaction) reading" where
  "tx_rest segwit version =
     rd_bind (rd_marker segwit) (\<lambda>_.
     rd_bind rd_inputs (\<lambda>(input_count, inputs).
     rd_bind rd_outputs (\<lambda>(total, outputs).
     rd_bind (rd_witnesses segwit input_count) (\<lambda>_.
     rd_bind tx_u32_le (\<lambda>locktime.
     rd_return \<lparr>tx_version = version, tx_inputs = inputs, tx_outputs = outputs, tx_locktime = locktime\<rparr>)))))"

definition tx_parse :: "bytes \<Rightarrow> (spv_error, transaction) res" where
  "tx_parse bs =
     and_then (tx_u32_le (cursor_new bs)) (\<lambda>(version, c).
     let segwit = (length bs \<ge> 6 \<and> bs ! 4 = 0x00) in
     if segwit \<and> bs ! 5 \<noteq> 0x01 then Err MalformedTransaction
     else
     and_then (tx_rest segwit version c) (\<lambda>(tx, c').
     if cpos c' \<noteq> length (cbuf c') then Err MalformedTransaction
     else if length (legacy_bytes tx) = 64 then Err MalformedTransaction
     else Ok tx))"

definition is_coinbase :: "transaction \<Rightarrow> bool" where
  "is_coinbase tx =
     (case tx_inputs tx of
        [only] \<Rightarrow> length (ti_raw only) \<ge> 36 \<and> list_all (\<lambda>b. b = 0) (take 32 (ti_raw only)) \<and>
                  take 4 (drop 32 (ti_raw only)) = replicate 4 0xff
      | _ \<Rightarrow> False)"

definition tx_txid :: "(bytes \<Rightarrow> bytes) \<Rightarrow> transaction \<Rightarrow> bytes" where
  "tx_txid dsha tx = dsha (legacy_bytes tx)"

fun find_recipient :: "tx_output list \<Rightarrow> bytes option \<Rightarrow> bytes option" where
  "find_recipient [] found = found"
| "find_recipient (o' # os) found =
     (let s = to_script o' in
      if s \<noteq> [] \<and> s ! 0 = 0x6a \<and> length s = 34 \<and> s ! 1 = 0x20 then
        (if found \<noteq> None then None else find_recipient os (Some (take 32 (drop 2 s))))
      else find_recipient os found)"

definition op_return_recipient :: "transaction \<Rightarrow> bytes option" where
  "op_return_recipient tx = find_recipient (tx_outputs tx) None"

definition value_to_script :: "transaction \<Rightarrow> bytes \<Rightarrow> u128" where
  "value_to_script tx deposit_script =
     fold (\<lambda>o' total. if to_script o' = deposit_script then sat_add total (ucast (to_value o')) else total)
       (tx_outputs tx) 0"

definition deposit_to :: "transaction \<Rightarrow> bytes \<Rightarrow> (u128 \<times> bytes) option" where
  "deposit_to tx deposit_script =
     (let amount = value_to_script tx deposit_script in
      if amount = 0 then None
      else case op_return_recipient tx of None \<Rightarrow> None | Some recipient \<Rightarrow> Some (amount, recipient))"

definition check_deposit_tx ::
  "(bytes \<Rightarrow> bytes) \<Rightarrow> bytes \<Rightarrow> bytes \<Rightarrow> bytes \<Rightarrow> u128 \<Rightarrow> bytes \<Rightarrow> (spv_error, unit) res" where
  "check_deposit_tx dsha raw_tx deposit_script expected_txid expected_amount expected_recipient =
     and_then (tx_parse raw_tx) (\<lambda>tx.
     if tx_txid dsha tx \<noteq> expected_txid then Err TransactionMismatch
     else
     and_then (ok_or TransactionMismatch (deposit_to tx deposit_script)) (\<lambda>(amount, recipient).
     if amount \<noteq> expected_amount \<or> recipient \<noteq> expected_recipient then Err TransactionMismatch
     else Ok ()))"

section \<open>Fields\<close>

lemma tx_take_safe [safe_intros]: "safe (tx_take n)"
  unfolding tx_take_def by (rule cursor_take_safe)

lemma reads_tx_take: "length bs = n \<Longrightarrow> reads (tx_take n) bs bs"
  unfolding tx_take_def by (rule reads_take)

lemma parses_tx_take: "parses (tx_take n) (\<lambda>a bs. length a = n \<and> bs = a)"
  unfolding tx_take_def by (rule parses_take)

text \<open>A little-endian word of \<open>n\<close> bytes.\<close>

lemma word_codec:
  assumes "8 dvd LENGTH('l)" "n = LENGTH('l) div 8"
  shows "field_codec (rd_bind (tx_take n) (\<lambda>b. rd_return (from_le_bytes b :: 'l::len word))) to_le_bytes (\<lambda>_. True)"
proof
  show "reads (rd_bind (tx_take n) (\<lambda>b. rd_return (from_le_bytes b))) w (to_le_bytes w)" for w :: "'l word"
    using assms by (intro reads_bind_last [where a = "to_le_bytes w"] reads_tx_take reads_returnI) (simp_all add: from_to_le_bytes)
  show "parses (rd_bind (tx_take n) (\<lambda>b. rd_return (from_le_bytes b :: 'l word))) (\<lambda>a bs. True \<and> bs = to_le_bytes a)"
    by (rule parses_bind [OF parses_tx_take], rule parses_return) (use assms in \<open>simp add: to_from_le_bytes\<close>)
qed (intro safe_intros)

interpretation txu32: field_codec tx_u32_le to_le_bytes "\<lambda>_. True"
  unfolding tx_u32_le_def by (rule word_codec) simp_all

interpretation txu64: field_codec tx_u64_le to_le_bytes "\<lambda>_. True"
  unfolding tx_u64_le_def by (rule word_codec) simp_all

lemmas tx_safe = tx_take_safe txu32.safe txu64.safe

lemma unat_ucast_small: "unat (w :: 'a::len word) < 2 ^ LENGTH('b) \<Longrightarrow> unat (ucast w :: 'b::len word) = unat w"
  by (simp add: unsigned_ucast_eq take_bit_nat_eq_self)

lemma ucast_down_up:
  assumes "unat (n :: 'a::len word) < 2 ^ LENGTH('b)"
  shows "ucast (ucast n :: 'b::len word) = n"
proof -
  have "unat (ucast n :: 'b word) < 2 ^ LENGTH('a)" using unat_ucast_small [OF assms] unsigned_less [of n] by simp
  then show ?thesis using assms by (simp add: word_unat_eq_iff unat_ucast_small)
qed

lemma varint_safe: "safe varint"
  unfolding varint_def varint_value_def varint_floor_def by (intro safe_intros tx_safe)

lemma varint_complete: "reads varint n (put_varint n)"
proof -
  have tag: "reads varint n (b # bs)" if "reads (varint_value b) n bs" for b bs
    using reads_bind [OF reads_tx_take [of "[b]" 1], of "\<lambda>b. varint_value (b ! 0)" n bs] that
    by (simp add: varint_def)
  have floor: "reads (varint_floor f v) n []" if "v = n" "f \<le> n" for f v
    using that by (auto simp: varint_floor_def reads_return)
  consider "n < 0xfd" | "0xfd \<le> n" "n \<le> 0xffff" | "0xffff < n" "n \<le> 0xffffffff" | "0xffffffff < n" by fastforce
  then show ?thesis
  proof cases
    case 1
    then have n: "unat n < 253" by (simp add: word_less_nat_alt)
    then have u: "unat (ucast n :: u8) = unat n" by (intro unat_ucast_small) simp
    have "(ucast n :: u8) \<noteq> 0xff \<and> (ucast n :: u8) \<noteq> 0xfe \<and> (ucast n :: u8) \<noteq> 0xfd"
      using n u by (auto simp: word_unat_eq_iff)
    moreover have "ucast (ucast n :: u8) = n" using n by (intro ucast_down_up) simp
    ultimately show ?thesis using 1 by (simp add: put_varint_def tag varint_value_def reads_return)
  next
    case 2
    then have "unat n < 2 ^ 16" by (simp add: word_le_nat_alt)
    then have "reads (rd_bind (tx_take 2) (\<lambda>b. varint_floor 0xfd (ucast (from_le_bytes b :: u16)))) n (to_le_bytes (ucast n :: u16))"
      using 2 by (intro reads_bind_last [where a = "to_le_bytes (ucast n :: u16)"] reads_tx_take floor)
        (simp_all add: from_to_le_bytes ucast_down_up)
    with 2 show ?thesis by (auto simp: put_varint_def intro!: tag simp: varint_value_def not_less)
  next
    case 3
    then have "unat n < 2 ^ 32" by (simp add: word_le_nat_alt)
    then have "reads (rd_bind tx_u32_le (\<lambda>v. varint_floor 0x10000 (ucast v))) n (to_le_bytes (ucast n :: u32))"
      using 3 by (intro reads_bind_last [where a = "ucast n"] txu32.complete floor)
        (simp_all add: ucast_down_up word_le_nat_alt word_less_nat_alt)
    moreover have "\<not> n < 0xfd" "\<not> n \<le> 0xffff" using 3 by (simp_all add: word_le_nat_alt word_less_nat_alt)
    ultimately show ?thesis using 3 by (auto simp: put_varint_def intro!: tag simp: varint_value_def)
  next
    case 4
    then have "reads (rd_bind tx_u64_le (varint_floor 0x100000000)) n (to_le_bytes n)"
      by (intro reads_bind_last [where a = n] txu64.complete floor) (simp_all add: word_le_nat_alt word_less_nat_alt)
    moreover have "\<not> n < 0xfd" "\<not> n \<le> 0xffff" "\<not> n \<le> 0xffffffff" using 4 by (simp_all add: word_le_nat_alt word_less_nat_alt)
    ultimately show ?thesis by (auto simp: put_varint_def intro!: tag simp: varint_value_def)
  qed
qed

lemma varint_sound: "parses varint (\<lambda>n bs. bs = put_varint n)"
proof -
  have floor: "parses (varint_floor f v) (\<lambda>n cs. f \<le> n \<and> v = n \<and> cs = [])" for f v
    unfolding varint_floor_def by (intro parses_intros) (simp add: not_less)
  have one: "put_varint (ucast first) = [first]" if "first \<noteq> 0xff" "first \<noteq> 0xfe" "first \<noteq> 0xfd" for first :: u8
  proof -
    have "unat first < 256" using unsigned_less [of first] by simp
    moreover have "unat first \<noteq> 255" "unat first \<noteq> 254" "unat first \<noteq> 253" using that by (auto simp: word_unat_eq_iff)
    ultimately have "unat first < 253" by linarith
    moreover have "unat (ucast first :: u64) = unat first" using \<open>unat first < 256\<close> by (intro unat_ucast_small) simp
    ultimately have "(ucast first :: u64) < 0xfd" by (simp add: word_less_nat_alt)
    moreover have "ucast (ucast first :: u64) = first" using \<open>unat first < 256\<close> by (intro ucast_down_up) simp
    ultimately show ?thesis by (simp add: put_varint_def)
  qed
  have two: "put_varint (ucast v) = 0xfd # to_le_bytes v" if "0xfd \<le> (ucast v :: u64)" for v :: u16
  proof -
    have "unat v < 2 ^ 16" using unsigned_less [of v] by simp
    then have "(ucast v :: u64) \<le> 0xffff" "ucast (ucast v :: u64) = v" 
      by (simp_all add: word_le_nat_alt unat_ucast_small ucast_down_up)
    with that show ?thesis by (auto simp: put_varint_def not_less [symmetric])
  qed
  have four: "put_varint (ucast v) = 0xfe # to_le_bytes v" if "0x10000 \<le> (ucast v :: u64)" for v :: u32
  proof -
    have "unat v < 2 ^ 32" using unsigned_less [of v] by simp
    then have "(ucast v :: u64) \<le> 0xffffffff" "ucast (ucast v :: u64) = v" 
      by (simp_all add: word_le_nat_alt unat_ucast_small ucast_down_up)
    with that show ?thesis by (auto simp: put_varint_def word_le_nat_alt word_less_nat_alt)
  qed
  have eight: "put_varint v = 0xff # to_le_bytes v" if "0x100000000 \<le> v" for v
    using that by (auto simp: put_varint_def word_le_nat_alt word_less_nat_alt)
  have "parses (varint_value first) (\<lambda>n cs. first # cs = put_varint n)" for first
  proof -
    consider "first = 0xff" | "first = 0xfe" | "first = 0xfd" | "first \<noteq> 0xff" "first \<noteq> 0xfe" "first \<noteq> 0xfd" by blast
    then show ?thesis
    proof cases
      case 1
      then show ?thesis
        by (simp add: varint_value_def)
          (rule parses_bind [OF txu64.sound], rule parses_mono [OF floor], simp add: eight)
    next
      case 2
      then show ?thesis
        by (simp add: varint_value_def)
          (rule parses_bind [OF txu32.sound], rule parses_mono [OF floor], auto simp: four)
    next
      case 3
      then show ?thesis
        by (simp add: varint_value_def)
          (rule parses_bind [OF parses_tx_take], rule parses_mono [OF floor], auto simp: two to_from_le_bytes)
    next
      case 4
      then show ?thesis by (simp add: varint_value_def one parses_return)
    qed
  qed
  note val = this
  show ?thesis unfolding varint_def
  proof (rule parses_bind [OF parses_tx_take])
    fix a bs :: bytes assume "length a = 1 \<and> bs = a"
    then obtain b where "a = [b]" "bs = [b]" by (auto simp: length_Suc_conv)
    with val [of b] show "parses (varint_value (a ! 0)) (\<lambda>n cs. bs @ cs = put_varint n)" by simp
  qed
qed

interpretation txvar: field_codec varint put_varint "\<lambda>_. True"
  using varint_complete varint_sound varint_safe by unfold_locales simp_all

section \<open>Counted loops\<close>

context field_codec
begin

lemma parses_loop:
  "parses (rd_loop n (\<lambda>acc. rd_bind dec (\<lambda>x. rd_return (f x acc))) acc)
     (\<lambda>r bs. \<exists>xs. length xs = n \<and> (\<forall>x\<in>set xs. valid x) \<and> r = fold f xs acc \<and> bs = concat (map enc xs))"
proof (induction n arbitrary: acc)
  case 0
  then show ?case by (simp add: parses_return)
next
  case (Suc n)
  have body: "parses (rd_bind dec (\<lambda>x. rd_return (f x acc))) (\<lambda>r bs. \<exists>x. valid x \<and> r = f x acc \<and> bs = enc x)"
    by (rule parses_bind [OF sound], rule parses_return) auto
  have "parses (rd_bind (rd_bind dec (\<lambda>x. rd_return (f x acc))) (rd_loop n (\<lambda>acc. rd_bind dec (\<lambda>x. rd_return (f x acc)))))
      (\<lambda>r bs. \<exists>xs. length xs = Suc n \<and> (\<forall>x\<in>set xs. valid x) \<and> r = fold f xs acc \<and> bs = concat (map enc xs))"
  proof (rule parses_bind [OF body], elim exE conjE)
    fix a bs x assume x: "valid x" "a = f x acc" "bs = enc x"
    show "parses (rd_loop n (\<lambda>acc. rd_bind dec (\<lambda>x. rd_return (f x acc))) a)
        (\<lambda>r cs. \<exists>xs. length xs = Suc n \<and> (\<forall>x\<in>set xs. valid x) \<and> r = fold f xs acc \<and> bs @ cs = concat (map enc xs))"
    proof (rule parses_mono [OF Suc.IH], elim exE conjE)
      fix r cs xs assume "length xs = n" "\<forall>x\<in>set xs. valid x" "r = fold f xs a" "cs = concat (map enc xs)"
      with x show "\<exists>xs. length xs = Suc n \<and> (\<forall>x\<in>set xs. valid x) \<and> r = fold f xs acc \<and> bs @ cs = concat (map enc xs)"
        by (intro exI [of _ "x # xs"]) simp
    qed
  qed
  then show ?case by simp
qed

end

section \<open>Inputs and outputs\<close>

definition script_enc :: "bytes \<Rightarrow> bytes" where
  "script_enc s = put_varint (word_of_nat (length s)) @ s"

definition rd_script :: "(spv_error, bytes) reading" where
  "rd_script = rd_bind varint (\<lambda>n. tx_take (unat n))"

interpretation txscript: field_codec rd_script script_enc "\<lambda>s. length s < 2 ^ 64"
proof
  show "reads rd_script s (script_enc s)" if "length s < 2 ^ 64" for s
    unfolding rd_script_def script_enc_def
    using that by (intro reads_bind [OF txvar.complete] reads_tx_take) (simp_all add: unat_of_nat)
  show "parses rd_script (\<lambda>s bs. length s < 2 ^ 64 \<and> bs = script_enc s)"
    unfolding rd_script_def
  proof (rule parses_bind [OF txvar.sound])
    fix n bs assume "True \<and> bs = put_varint n"
    then show "parses (tx_take (unat n)) (\<lambda>s cs. length s < 2 ^ 64 \<and> bs @ cs = script_enc s)"
      using unat_u64_less [of n] by (intro parses_mono [OF parses_tx_take]) (auto simp: script_enc_def)
  qed
qed (auto simp: rd_script_def intro: safe_intros tx_safe txvar.safe)

text \<open>An input: 36 bytes of outpoint, a script and 4 bytes of sequence number.\<close>

definition input_shape :: "tx_input \<Rightarrow> bool" where
  "input_shape x \<longleftrightarrow> (\<exists>a s q. ti_raw x = a @ script_enc s @ q \<and> length a = 36 \<and> length s < 2 ^ 64 \<and> length q = 4)"

definition rd_input_body :: "(spv_error, bytes) reading" where
  "rd_input_body = rd_bind (tx_take 36) (\<lambda>_. rd_bind rd_script (\<lambda>_. tx_take 4))"

lemma rd_bind_assoc: "rd_bind (rd_bind d f) g = rd_bind d (\<lambda>x. rd_bind (f x) g)"
proof
  fix c show "rd_bind (rd_bind d f) g c = rd_bind d (\<lambda>x. rd_bind (f x) g) c"
    by (cases "d c") (auto simp: rd_bind_def)
qed

lemma rd_input_eq:
  "rd_input c = and_then (rd_input_body c) (\<lambda>(_, c').
     and_then (slice (cbuf c) (cpos c) (cpos c')) (\<lambda>raw. Ok (\<lparr>ti_raw = raw\<rparr>, c')))"
  by (simp add: rd_input_def rd_input_body_def rd_script_def rd_bind_assoc)

lemma rd_input_body_safe: "safe rd_input_body"
  unfolding rd_input_body_def by (intro safe_intros tx_safe txscript.safe)

lemma slice_rest:
  assumes "cur_ok c" "cur_ok c'" "cbuf c' = cbuf c" "cpos c \<le> cpos c'" "rest c = bs @ rest c'"
  shows "slice (cbuf c) (cpos c) (cpos c') = Ok bs"
proof -
  have "length bs = cpos c' - cpos c"
    using assms by (auto simp: rest_def cur_ok_def dest!: arg_cong [where f = length])
  then have "take (cpos c' - cpos c) (rest c) = bs" using assms(5) by simp
  with assms show ?thesis by (simp add: slice_def cur_ok_def rest_def)
qed

interpretation txin: field_codec rd_input ti_raw input_shape
proof
  show "reads rd_input x (ti_raw x)" if x: "input_shape x" for x
    unfolding reads_def
  proof (intro allI impI)
    fix c t assume c: "cur_ok c \<and> rest c = ti_raw x @ t"
    obtain a s q where raw: "ti_raw x = a @ script_enc s @ q" "length a = 36" "length s < 2 ^ 64" "length q = 4"
      using x by (auto simp: input_shape_def)
    have "reads rd_input_body q (a @ script_enc s @ q)"
      unfolding rd_input_body_def
      by (intro reads_bind [OF reads_tx_take] reads_bind [OF txscript.complete] reads_tx_take raw)
    from readsD [OF this, of c t] c raw(1) obtain c' where c': "rd_input_body c = Ok (q, c')" "cur_ok c'"
      "cbuf c' = cbuf c" "rest c' = t" by auto
    moreover have "cpos c \<le> cpos c'" using safe_Ok [OF rd_input_body_safe] c c'(1) by blast
    ultimately have "(slice (cbuf c) (cpos c) (cpos c') :: (spv_error, bytes) res) = Ok (ti_raw x)"
      using c by (intro slice_rest) auto
    with c' show "\<exists>c'. rd_input c = Ok (x, c') \<and> cur_ok c' \<and> cbuf c' = cbuf c \<and> rest c' = t"
      by (simp add: rd_input_eq)
  qed
  have body: "parses rd_input_body (\<lambda>_ bs. input_shape \<lparr>ti_raw = bs\<rparr>)"
    unfolding rd_input_body_def
  proof (rule parses_bind [OF parses_tx_take], rule parses_bind [OF txscript.sound])
    fix a as s ss :: bytes assume "length a = 36 \<and> as = a" "length s < 2 ^ 64 \<and> ss = script_enc s"
    then show "parses (tx_take 4) (\<lambda>_ cs. input_shape \<lparr>ti_raw = as @ ss @ cs\<rparr>)"
      by (intro parses_mono [OF parses_tx_take]) (auto simp: input_shape_def)
  qed
  have step: "cur_ok c' \<and> cbuf c' = cbuf c \<and> cpos c \<le> cpos c' \<and> (\<exists>bs. rest c = bs @ rest c' \<and> input_shape \<lparr>ti_raw = bs\<rparr> \<and>
      rd_input c = Ok (\<lparr>ti_raw = bs\<rparr>, c'))" if "cur_ok c" "rd_input_body c = Ok (u, c')" for c u c'
  proof -
    from parsesD [OF body that] obtain bs where bs: "cur_ok c'" "rest c = bs @ rest c'" "input_shape \<lparr>ti_raw = bs\<rparr>" .
    moreover have "cbuf c' = cbuf c" "cpos c \<le> cpos c'" using safe_Ok [OF rd_input_body_safe that] by auto
    ultimately show ?thesis using that by (auto simp: rd_input_eq slice_rest)
  qed
  have split: "\<exists>u. rd_input_body c = Ok (u, c')" if "rd_input c = Ok (x, c')" for c x c'
    using that by (auto simp: rd_input_eq and_then_Ok_iff)
  show "parses rd_input (\<lambda>a bs. input_shape a \<and> bs = ti_raw a)"
    unfolding parses_def
  proof (intro allI impI, elim conjE)
    fix c a c' assume c: "cur_ok c" "rd_input c = Ok (a, c')"
    with split obtain u where "rd_input_body c = Ok (u, c')" by blast
    from step [OF c(1) this] c(2) show "cur_ok c' \<and> (\<exists>bs. rest c = bs @ rest c' \<and> input_shape a \<and> bs = ti_raw a)" by auto
  qed
  show "safe rd_input"
    unfolding safe_def
  proof (intro allI impI conjI)
    fix c assume c: "cur_ok c"
    show "rd_input c \<noteq> Panic"
    proof (cases "rd_input_body c")
      case (Ok r)
      with step [OF c, of "fst r" "snd r"] show ?thesis by auto
    next
      case Panic
      with safe_Panic [OF rd_input_body_safe c] show ?thesis by simp
    qed (simp add: rd_input_eq)
  next
    fix c a c' assume c: "cur_ok c" "rd_input c = Ok (a, c')"
    with split obtain u where "rd_input_body c = Ok (u, c')" by blast
    from step [OF c(1) this] show "cur_ok c'" "cbuf c' = cbuf c" "cpos c \<le> cpos c'" by auto
  qed
qed

text \<open>An output; the running total of the values is bounded by the money supply.\<close>

definition output_enc :: "tx_output \<Rightarrow> bytes" where
  "output_enc o' = to_le_bytes (to_value o') @ script_enc (to_script o')"

definition outputs_total :: "tx_output list \<Rightarrow> nat" where
  "outputs_total os = (\<Sum>o'\<leftarrow>os. unat (to_value o'))"

lemma rd_output_eq:
  "rd_output (sum0, outputs) =
     rd_bind tx_u64_le (\<lambda>value.
     if unat sum0 + unat value \<le> unat MAX_MONEY
     then rd_bind rd_script (\<lambda>script. rd_return (sum0 + value, outputs @ [\<lparr>to_value = value, to_script = script\<rparr>]))
     else rd_fail MalformedTransaction)"
proof -
  have bound: "(case checked_add sum0 v of None \<Rightarrow> rd_fail MalformedTransaction
     | Some total' \<Rightarrow> if \<not> total' \<le> MAX_MONEY then rd_fail MalformedTransaction else d total') =
    (if unat sum0 + unat v \<le> unat MAX_MONEY then d (sum0 + v) else rd_fail MalformedTransaction)" for v d
    by (auto simp: checked_add_def word_le_nat_alt unat_plus_no_overflow MAX_MONEY_def)
  show ?thesis by (simp only: rd_output_def prod.case bound rd_script_def rd_bind_assoc)
qed

lemma rd_output_safe: "safe (rd_output acc)"
  by (cases acc) (simp only: rd_output_eq, intro safe_intros txu64.safe txscript.safe)

lemma reads_outputs:
  assumes "\<forall>o'\<in>set os. length (to_script o') < 2 ^ 64" "unat sum0 + outputs_total os \<le> unat MAX_MONEY"
  shows "reads (rd_loop (length os) rd_output (sum0, acc)) (sum0 + (\<Sum>o'\<leftarrow>os. to_value o'), acc @ os) (concat (map output_enc os))"
  using assms
proof (induction os arbitrary: sum0 acc)
  case (Cons o' os)
  have o: "unat sum0 + unat (to_value o') \<le> unat MAX_MONEY" using Cons.prems(2) by (simp add: outputs_total_def)
  then have tot: "unat (sum0 + to_value o') = unat sum0 + unat (to_value o')"
    by (intro unat_plus_no_overflow) (simp add: MAX_MONEY_def)
  have "reads (rd_output (sum0, acc)) (sum0 + to_value o', acc @ [o']) (output_enc o')"
    unfolding rd_output_eq output_enc_def
  proof (rule reads_bind [OF txu64.complete])
    show "reads (if unat sum0 + unat (to_value o') \<le> unat MAX_MONEY
        then rd_bind rd_script (\<lambda>script. rd_return (sum0 + to_value o', acc @ [\<lparr>to_value = to_value o', to_script = script\<rparr>]))
        else rd_fail MalformedTransaction) (sum0 + to_value o', acc @ [o']) (script_enc (to_script o'))"
      using o Cons.prems(1) by (simp, intro reads_bind_last [OF txscript.complete] reads_returnI) simp_all
  qed simp
  moreover have "reads (rd_loop (length os) rd_output (sum0 + to_value o', acc @ [o']))
      (sum0 + to_value o' + (\<Sum>o'\<leftarrow>os. to_value o'), (acc @ [o']) @ os) (concat (map output_enc os))"
    using Cons.prems tot by (intro Cons.IH) (simp_all add: outputs_total_def)
  ultimately show ?case by (simp add: reads_bind add.assoc)
qed (simp add: reads_return)

lemma parses_outputs:
  "unat sum0 \<le> unat MAX_MONEY \<Longrightarrow> parses (rd_loop n rd_output (sum0, acc)) (\<lambda>r bs. \<exists>os. length os = n \<and> snd r = acc @ os \<and>
     (\<forall>o'\<in>set os. length (to_script o') < 2 ^ 64) \<and> unat sum0 + outputs_total os \<le> unat MAX_MONEY \<and> bs = concat (map output_enc os))"
proof (induction n arbitrary: sum0 acc)
  case 0
  then show ?case by (simp add: parses_return outputs_total_def)
next
  case (Suc n)
  have body: "parses (rd_output (sum0, acc)) (\<lambda>r bs. \<exists>o'. r = (sum0 + to_value o', acc @ [o']) \<and> length (to_script o') < 2 ^ 64 \<and>
      unat sum0 + unat (to_value o') \<le> unat MAX_MONEY \<and> bs = output_enc o')"
    unfolding rd_output_eq
  proof (rule parses_bind [OF txu64.sound], intro parses_intros)
    fix v :: u64 and bs assume bs: "True \<and> bs = to_le_bytes v" and v: "unat sum0 + unat v \<le> unat MAX_MONEY"
    show "parses (rd_bind rd_script (\<lambda>script. rd_return (sum0 + v, acc @ [\<lparr>to_value = v, to_script = script\<rparr>])))
        (\<lambda>r cs. \<exists>o'. r = (sum0 + to_value o', acc @ [o']) \<and> length (to_script o') < 2 ^ 64 \<and>
          unat sum0 + unat (to_value o') \<le> unat MAX_MONEY \<and> bs @ cs = output_enc o')"
      by (rule parses_bind [OF txscript.sound], rule parses_return,
          rule exI [where x = "\<lparr>to_value = v, to_script = script\<rparr>" for script]) (use bs v in \<open>auto simp: output_enc_def\<close>)
  qed
  have "parses (rd_bind (rd_output (sum0, acc)) (rd_loop n rd_output)) (\<lambda>r bs. \<exists>os. length os = Suc n \<and> snd r = acc @ os \<and>
     (\<forall>o'\<in>set os. length (to_script o') < 2 ^ 64) \<and> unat sum0 + outputs_total os \<le> unat MAX_MONEY \<and> bs = concat (map output_enc os))"
  proof (rule parses_bind [OF body], elim exE conjE)
    fix r bs o' assume o: "r = (sum0 + to_value o', acc @ [o'])" "length (to_script o') < 2 ^ 64"
      "unat sum0 + unat (to_value o') \<le> unat MAX_MONEY" "bs = output_enc o'"
    have tot: "unat (sum0 + to_value o') = unat sum0 + unat (to_value o')"
      using o(3) by (intro unat_plus_no_overflow) (simp add: MAX_MONEY_def)
    show "parses (rd_loop n rd_output r) (\<lambda>r cs. \<exists>os. length os = Suc n \<and> snd r = acc @ os \<and>
       (\<forall>o'\<in>set os. length (to_script o') < 2 ^ 64) \<and> unat sum0 + outputs_total os \<le> unat MAX_MONEY \<and>
       bs @ cs = concat (map output_enc os))"
      unfolding o(1)
    proof (rule parses_mono [OF Suc.IH], use o(3) tot in simp, elim exE conjE)
      fix r' cs os assume "length os = n" "snd r' = (acc @ [o']) @ os" "\<forall>o'\<in>set os. length (to_script o') < 2 ^ 64"
        "unat (sum0 + to_value o') + outputs_total os \<le> unat MAX_MONEY" "cs = concat (map output_enc os)"
      with o tot show "\<exists>os. length os = Suc n \<and> snd r' = acc @ os \<and>
         (\<forall>o'\<in>set os. length (to_script o') < 2 ^ 64) \<and> unat sum0 + outputs_total os \<le> unat MAX_MONEY \<and>
         bs @ cs = concat (map output_enc os)"
        by (intro exI [of _ "o' # os"]) (simp add: outputs_total_def)
    qed
  qed
  then show ?case by simp
qed

section \<open>Whole transactions\<close>

definition tx_shape :: "transaction \<Rightarrow> bool" where
  "tx_shape tx \<longleftrightarrow>
     0 < length (tx_inputs tx) \<and> length (tx_inputs tx) \<le> 100000 \<and> (\<forall>x\<in>set (tx_inputs tx). input_shape x) \<and>
     0 < length (tx_outputs tx) \<and> length (tx_outputs tx) \<le> 100000 \<and>
     (\<forall>o'\<in>set (tx_outputs tx). length (to_script o') < 2 ^ 64) \<and> outputs_total (tx_outputs tx) \<le> unat MAX_MONEY"

definition inputs_enc :: "transaction \<Rightarrow> bytes" where
  "inputs_enc tx = put_varint (word_of_nat (length (tx_inputs tx))) @ concat (map ti_raw (tx_inputs tx))"

definition outputs_enc :: "transaction \<Rightarrow> bytes" where
  "outputs_enc tx = put_varint (word_of_nat (length (tx_outputs tx))) @ concat (map output_enc (tx_outputs tx))"

lemma legacy_bytes_eq:
  "legacy_bytes tx = to_le_bytes (tx_version tx) @ inputs_enc tx @ outputs_enc tx @ to_le_bytes (tx_locktime tx)"
  by (simp add: legacy_bytes_def inputs_enc_def outputs_enc_def output_enc_def [abs_def] script_enc_def)

lemma safe_parses: "safe d \<Longrightarrow> parses d (\<lambda>_ _. True)"
  unfolding parses_def
proof (intro allI impI, elim conjE)
  fix c a c' assume c: "safe d" "cur_ok c" "d c = Ok (a, c')"
  from safe_Ok [OF this] have c': "cur_ok c'" "cbuf c' = cbuf c" "cpos c \<le> cpos c'" by auto
  then have "rest c = take (cpos c' - cpos c) (rest c) @ rest c'"
    by (simp add: rest_def) (metis append_take_drop_id drop_drop le_add_diff_inverse2)
  with c'(1) show "cur_ok c' \<and> (\<exists>bs. rest c = bs @ rest c' \<and> True)" by blast
qed

lemma fold_snoc: "fold (\<lambda>x acc. acc @ [x]) xs acc = acc @ xs"
  by (induction xs arbitrary: acc) auto

lemma rd_witness_safe: "safe (rd_witness n)"
  unfolding rd_witness_def by (intro safe_intros tx_safe txvar.safe)

lemma tx_rest_safe: "safe (tx_rest segwit version)"
  unfolding tx_rest_def case_prod_beta rd_marker_def rd_inputs_def rd_outputs_def rd_witnesses_def
  by (intro safe_intros tx_safe txvar.safe txin.safe rd_output_safe rd_witness_safe)

lemma count_ok:
  assumes "0 < n" "n \<le> (100000 :: nat)"
  shows "\<not> ((word_of_nat n :: u64) = 0 \<or> (word_of_nat n :: u64) > MAX_COUNT)" "unat (word_of_nat n :: u64) = n"
  using assms by (simp_all add: MAX_COUNT_def word_unat_eq_iff word_less_nat_alt unat_of_nat)

lemma count_val:
  assumes "\<not> (n = 0 \<or> n > MAX_COUNT)"
  shows "0 < unat n" "unat n \<le> 100000"
  using assms by (auto simp: MAX_COUNT_def word_less_nat_alt unat_gt_0)

lemma inputs_codec:
  assumes "0 < length xs" "length xs \<le> 100000" "\<forall>x\<in>set xs. input_shape x"
  shows "reads rd_inputs (word_of_nat (length xs), xs) (put_varint (word_of_nat (length xs)) @ concat (map ti_raw xs))"
  unfolding rd_inputs_def
proof (rule reads_bind [OF txvar.complete])
  have "reads (rd_loop (length xs) (\<lambda>inputs. rd_bind rd_input (\<lambda>x. rd_return (inputs @ [x]))) []) xs (concat (map ti_raw xs))"
    using txin.reads_loop [of xs "\<lambda>x acc. acc @ [x]" "[]"] assms(3) by (simp add: fold_snoc)
  then show "reads (if (word_of_nat (length xs) :: u64) = 0 \<or> (word_of_nat (length xs) :: u64) > MAX_COUNT then rd_fail MalformedTransaction
      else rd_bind (rd_loop (unat (word_of_nat (length xs) :: u64)) (\<lambda>inputs. rd_bind rd_input (\<lambda>x. rd_return (inputs @ [x]))) [])
        (\<lambda>inputs. rd_return (word_of_nat (length xs), inputs))) (word_of_nat (length xs), xs) (concat (map ti_raw xs))"
    unfolding if_not_P [OF count_ok(1) [OF assms(1,2)]] count_ok(2) [OF assms(1,2)]
    by (rule reads_bind_last) (rule reads_return)
qed simp

definition inputs_ok :: "tx_input list \<Rightarrow> bytes \<Rightarrow> bool" where
  "inputs_ok xs bs \<longleftrightarrow> 0 < length xs \<and> length xs \<le> 100000 \<and> (\<forall>x\<in>set xs. input_shape x) \<and>
     bs = put_varint (word_of_nat (length xs)) @ concat (map ti_raw xs)"

definition outputs_ok :: "tx_output list \<Rightarrow> bytes \<Rightarrow> bool" where
  "outputs_ok os bs \<longleftrightarrow> 0 < length os \<and> length os \<le> 100000 \<and> (\<forall>o'\<in>set os. length (to_script o') < 2 ^ 64) \<and>
     outputs_total os \<le> unat MAX_MONEY \<and> bs = put_varint (word_of_nat (length os)) @ concat (map output_enc os)"

lemma inputs_sound: "parses rd_inputs (\<lambda>r bs. inputs_ok (snd r) bs)"
  unfolding rd_inputs_def
proof (rule parses_bind [OF txvar.sound], rule parses_if, rule parses_fail)
  fix n bs assume n: "True \<and> bs = put_varint n" "\<not> (n = 0 \<or> n > MAX_COUNT)"
  show "parses (rd_bind (rd_loop (unat n) (\<lambda>inputs. rd_bind rd_input (\<lambda>x. rd_return (inputs @ [x]))) []) (\<lambda>inputs. rd_return (n, inputs)))
      (\<lambda>r cs. inputs_ok (snd r) (bs @ cs))"
    by (rule parses_bind [OF txin.parses_loop [where f = "\<lambda>x acc. acc @ [x]"]], rule parses_return)
      (use n count_val [OF n(2)] in \<open>auto simp: fold_snoc inputs_ok_def\<close>)
qed

lemma outputs_codec:
  assumes "0 < length os" "length os \<le> 100000" "\<forall>o'\<in>set os. length (to_script o') < 2 ^ 64" "outputs_total os \<le> unat MAX_MONEY"
  shows "reads rd_outputs (\<Sum>o'\<leftarrow>os. to_value o', os) (put_varint (word_of_nat (length os)) @ concat (map output_enc os))"
  unfolding rd_outputs_def
proof (rule reads_bind [OF txvar.complete])
  show "reads (if (word_of_nat (length os) :: u64) = 0 \<or> (word_of_nat (length os) :: u64) > MAX_COUNT then rd_fail MalformedTransaction
      else rd_loop (unat (word_of_nat (length os) :: u64)) rd_output (0, [])) (\<Sum>o'\<leftarrow>os. to_value o', os) (concat (map output_enc os))"
    unfolding if_not_P [OF count_ok(1) [OF assms(1,2)]] count_ok(2) [OF assms(1,2)]
    using reads_outputs [OF assms(3), of 0 "[]"] assms(4) by simp
qed simp

lemma outputs_sound: "parses rd_outputs (\<lambda>r bs. outputs_ok (snd r) bs)"
  unfolding rd_outputs_def
proof (rule parses_bind [OF txvar.sound], rule parses_if, rule parses_fail)
  fix n bs assume n: "True \<and> bs = put_varint n" "\<not> (n = 0 \<or> n > MAX_COUNT)"
  have "unat (0 :: u64) \<le> unat MAX_MONEY" by simp
  then show "parses (rd_loop (unat n) rd_output (0, [])) (\<lambda>r cs. outputs_ok (snd r) (bs @ cs))"
    by (rule parses_mono [OF parses_outputs]) (use n count_val [OF n(2)] in \<open>auto simp: outputs_ok_def\<close>)
qed

lemma tx_rest_complete:
  assumes "tx_shape tx"
  shows "reads (tx_rest False (tx_version tx)) tx (inputs_enc tx @ outputs_enc tx @ to_le_bytes (tx_locktime tx))"
proof -
  have ins: "reads rd_inputs (word_of_nat (length (tx_inputs tx)), tx_inputs tx) (inputs_enc tx)"
    unfolding inputs_enc_def by (rule inputs_codec) (use assms in \<open>simp_all add: tx_shape_def\<close>)
  have outs: "reads rd_outputs (\<Sum>o'\<leftarrow>tx_outputs tx. to_value o', tx_outputs tx) (outputs_enc tx)"
    unfolding outputs_enc_def by (rule outputs_codec) (use assms in \<open>simp_all add: tx_shape_def\<close>)
  have "reads (rd_bind (rd_return ()) (\<lambda>_. rd_bind tx_u32_le (\<lambda>locktime. rd_return
      \<lparr>tx_version = tx_version tx, tx_inputs = tx_inputs tx, tx_outputs = tx_outputs tx, tx_locktime = locktime\<rparr>)))
      tx (to_le_bytes (tx_locktime tx))"
    by (rule reads_bind_first [OF reads_return], rule reads_bind_last [OF txu32.complete], simp, rule reads_returnI) simp
  then show ?thesis
    unfolding tx_rest_def rd_marker_def rd_witnesses_def if_False
    by (intro reads_bind_first [OF reads_return] reads_bind [OF ins], simp, intro reads_bind [OF outs], simp)
qed

lemma tx_rest_sound:
  "parses (tx_rest segwit version) (\<lambda>tx bs. tx_shape tx \<and> tx_version tx = version \<and>
     (\<exists>pre wit. bs = pre @ inputs_enc tx @ outputs_enc tx @ wit @ to_le_bytes (tx_locktime tx) \<and> (\<not> segwit \<longrightarrow> pre = [] \<and> wit = [])))"
  (is "parses _ ?Q")
proof -
  have "safe (rd_marker segwit)" "\<And>n. safe (rd_witnesses segwit n)"
    by (auto simp: rd_marker_def rd_witnesses_def intro!: safe_intros tx_safe rd_witness_safe)
  then have marker: "parses (rd_marker segwit) (\<lambda>_ bs. \<not> segwit \<longrightarrow> bs = [])"
    and wit: "\<And>n. parses (rd_witnesses segwit n) (\<lambda>_ bs. \<not> segwit \<longrightarrow> bs = [])"
    using safe_parses [of "rd_marker segwit"] safe_parses [of "rd_witnesses segwit n" for n]
    by (cases segwit; simp add: rd_marker_def rd_witnesses_def parses_return)+
  show ?thesis unfolding tx_rest_def case_prod_beta
  proof (rule parses_bind [OF marker], rule parses_bind [OF inputs_sound], rule parses_bind [OF outputs_sound],
      rule parses_bind [OF wit], rule parses_bind [OF txu32.sound], rule parses_return)
    fix u :: unit and pre :: bytes and r :: "u64 \<times> tx_input list" and bi and q :: "u64 \<times> tx_output list" and bo and u' :: unit and w bl :: bytes and lock :: u32
    assume "\<not> segwit \<longrightarrow> pre = []" "inputs_ok (snd r) bi" "outputs_ok (snd q) bo" "\<not> segwit \<longrightarrow> w = []" "True \<and> bl = to_le_bytes lock"
    then show "?Q \<lparr>tx_version = version, tx_inputs = snd r, tx_outputs = snd q, tx_locktime = lock\<rparr> (pre @ bi @ bo @ w @ bl @ [])"
      by (intro conjI exI [where x = pre] exI [where x = w])
        (auto simp: tx_shape_def inputs_ok_def outputs_ok_def inputs_enc_def outputs_enc_def)
  qed
qed

lemma put_varint_first: "n \<noteq> 0 \<Longrightarrow> put_varint n \<noteq> [] \<and> put_varint n ! 0 \<noteq> 0"
proof -
  assume "n \<noteq> 0"
  moreover have "(ucast n :: u8) \<noteq> 0" if "n < 0xfd" "n \<noteq> 0"
  proof -
    have "unat n < 253" using that(1) by (simp add: word_less_nat_alt)
    then show ?thesis using that(2) by (simp add: word_unat_eq_iff unat_ucast_small)
  qed
  ultimately show ?thesis by (auto simp: put_varint_def)
qed

text \<open>The parser in two pieces: the version, and the rest of the slice.\<close>

lemma tx_parse_split:
  assumes "length bs \<le> usize_max" "4 \<le> length bs"
  obtains c where "tx_u32_le (cursor_new bs) = Ok (from_le_bytes (take 4 bs), c)" "cur_ok c" "cbuf c = bs" "rest c = drop 4 bs"
proof -
  have "reads tx_u32_le (from_le_bytes (take 4 bs)) (to_le_bytes (from_le_bytes (take 4 bs) :: u32))"
    by (rule txu32.complete) simp
  moreover have "to_le_bytes (from_le_bytes (take 4 bs) :: u32) = take 4 bs" using assms(2) by (intro to_from_le_bytes) simp_all
  ultimately have r: "reads tx_u32_le (from_le_bytes (take 4 bs)) (take 4 bs)" by simp
  have "cur_ok (cursor_new bs)" "rest (cursor_new bs) = take 4 bs @ drop 4 bs" using assms(1) by auto
  from readsD [OF r this] obtain c where "tx_u32_le (cursor_new bs) = Ok (from_le_bytes (take 4 bs), c)" "cur_ok c"
    "cbuf c = cbuf (cursor_new bs)" "rest c = drop 4 bs" .
  then show thesis by (intro that) simp_all
qed

definition segwit_marked :: "bytes \<Rightarrow> bool" where
  "segwit_marked bs \<longleftrightarrow> length bs \<ge> 6 \<and> bs ! 4 = 0"

lemma tx_parse_sound:
  assumes "length bs \<le> usize_max" "tx_parse bs = Ok tx"
  shows "tx_shape tx \<and> length (legacy_bytes tx) \<noteq> 64 \<and> length (legacy_bytes tx) \<le> length bs \<and>
    (\<not> segwit_marked bs \<longrightarrow> legacy_bytes tx = bs)"
proof -
  from assms(2) obtain v c where v: "tx_u32_le (cursor_new bs) = Ok (v, c)" by (auto simp: tx_parse_def and_then_Ok_iff)
  have ok: "cur_ok (cursor_new bs)" using assms(1) by simp
  from parsesD [OF txu32.sound ok v] obtain b4 where b4: "cur_ok c" "bs = to_le_bytes v @ rest c" by auto
  from assms(2) v obtain c' where c': "tx_rest (segwit_marked bs) v c = Ok (tx, c')" "cpos c' = length (cbuf c')"
    "length (legacy_bytes tx) \<noteq> 64"
    by (auto simp: tx_parse_def segwit_marked_def and_then_Ok_iff Let_def split: if_splits)
  from parsesD [OF tx_rest_sound b4(1) c'(1)] obtain pre wit where
    r: "rest c = (pre @ inputs_enc tx @ outputs_enc tx @ wit @ to_le_bytes (tx_locktime tx)) @ rest c'"
    "tx_shape tx" "tx_version tx = v" "\<not> segwit_marked bs \<longrightarrow> pre = [] \<and> wit = []" by blast
  have "rest c' = []" using c'(2) by (simp add: rest_def)
  with r b4(2) c'(3) show ?thesis by (auto simp: legacy_bytes_eq)
qed

lemma tx_parse_legacy:
  assumes "tx_shape tx" "length (legacy_bytes tx) \<noteq> 64" "length (legacy_bytes tx) \<le> usize_max"
  shows "tx_parse (legacy_bytes tx) = Ok tx"
proof -
  let ?bs = "legacy_bytes tx" and ?tail = "inputs_enc tx @ outputs_enc tx @ to_le_bytes (tx_locktime tx)"
  have l: "?bs = to_le_bytes (tx_version tx) @ ?tail" by (simp add: legacy_bytes_eq)
  have four: "4 \<le> length ?bs" "take 4 ?bs = to_le_bytes (tx_version tx)" "drop 4 ?bs = ?tail" by (simp_all add: l)
  have n: "0 < length (tx_inputs tx)" "length (tx_inputs tx) \<le> 100000" using assms(1) by (auto simp: tx_shape_def)
  have "\<not> segwit_marked ?bs"
    using put_varint_first [of "word_of_nat (length (tx_inputs tx))"] count_ok(1) [OF n]
    by (auto simp: segwit_marked_def l nth_append inputs_enc_def)
  from tx_parse_split [OF assms(3) four(1)] obtain c where
    c: "tx_u32_le (cursor_new ?bs) = Ok (tx_version tx, c)" "cur_ok c" "cbuf c = ?bs" "rest c = ?tail @ []"
    by (auto simp: four from_to_le_bytes)
  from readsD [OF tx_rest_complete [OF assms(1)] c(2,4)] obtain c' where
    c': "tx_rest False (tx_version tx) c = Ok (tx, c')" "cur_ok c'" "rest c' = []" .
  then have "cpos c' = length (cbuf c')" by (simp add: rest_Nil_iff)
  with \<open>\<not> segwit_marked ?bs\<close> c(1) c'(1) assms(2) show ?thesis by (auto simp: tx_parse_def segwit_marked_def Let_def)
qed

lemma tx_parse_no_panic: "length bs \<le> usize_max \<Longrightarrow> tx_parse bs \<noteq> Panic"
proof
  assume bs: "length bs \<le> usize_max" and "tx_parse bs = Panic"
  have ok: "cur_ok (cursor_new bs)" using bs by simp
  have "tx_u32_le (cursor_new bs) \<noteq> Panic" by (rule safe_Panic [OF txu32.safe ok])
  with \<open>tx_parse bs = Panic\<close> obtain v c s where "tx_u32_le (cursor_new bs) = Ok (v, c)" "tx_rest s v c = Panic"
    by (auto simp: tx_parse_def and_then_Panic_iff Let_def split: if_splits)
  with safe_Ok [OF txu32.safe ok] safe_Panic [OF tx_rest_safe] show False by blast
qed

text \<open>C31: a transaction id names one transaction: no byte string makes the parser panic; a parsed
  transaction is parsed again, unchanged, from its legacy serialisation (which, for a transaction
  without witness data, is the very string it came from and never has 64 bytes), so two accepted
  byte strings with the same serialisation, the string the id is the hash of, are the same
  transaction, with the same outputs.\<close>

theorem tx_parse_canonical:
  assumes "length bs \<le> usize_max"
  shows "tx_parse bs \<noteq> Panic \<and>
    (tx_parse bs = Ok tx \<longrightarrow> tx_parse (legacy_bytes tx) = Ok tx \<and> length (legacy_bytes tx) \<noteq> 64 \<and>
       outputs_total (tx_outputs tx) \<le> 2100000000000000 \<and>
       (\<not> segwit_marked bs \<longrightarrow> legacy_bytes tx = bs))"
proof (intro conjI impI)
  assume p: "tx_parse bs = Ok tx"
  note sound = tx_parse_sound [OF assms p]
  then show "tx_parse (legacy_bytes tx) = Ok tx" using assms by (intro tx_parse_legacy) auto
  show "length (legacy_bytes tx) \<noteq> 64" "outputs_total (tx_outputs tx) \<le> 2100000000000000"
    using sound by (auto simp: tx_shape_def MAX_MONEY_def)
  show "legacy_bytes tx = bs" if "\<not> segwit_marked bs" using sound that by simp
qed (rule tx_parse_no_panic [OF assms])

definition sample_tx :: transaction where
  "sample_tx = \<lparr>tx_version = 2, tx_inputs = [\<lparr>ti_raw = replicate 36 1 @ [0] @ replicate 4 0xff\<rparr>],
     tx_outputs = [\<lparr>to_value = 250000, to_script = [0x51]\<rparr>, \<lparr>to_value = 0, to_script = [0x6a, 0x20] @ replicate 32 7\<rparr>],
     tx_locktime = 0\<rparr>"

lemma sample_tx_shape: "tx_shape sample_tx" "length (legacy_bytes sample_tx) = 104"
proof -
  have "input_shape \<lparr>ti_raw = replicate 36 1 @ [0] @ replicate 4 0xff\<rparr>"
    unfolding input_shape_def
    by (intro exI [of _ "replicate 36 1"] exI [of _ "[]"] exI [of _ "replicate 4 0xff"]) (simp add: script_enc_def put_varint_def)
  then show "tx_shape sample_tx" by (simp add: tx_shape_def sample_tx_def outputs_total_def MAX_MONEY_def)
  show "length (legacy_bytes sample_tx) = 104" by (simp add: legacy_bytes_def sample_tx_def put_varint_def)
qed

theorem tx_parse_canonical_witness:
  "\<exists>bs. tx_parse bs = Ok sample_tx \<and> tx_parse (legacy_bytes sample_tx) = Ok sample_tx \<and> tx_parse bs \<noteq> Panic"
proof -
  let ?bs = "legacy_bytes sample_tx"
  have "length ?bs \<le> usize_max" using sample_tx_shape(2) by simp
  moreover from this have "tx_parse ?bs = Ok sample_tx" using sample_tx_shape by (intro tx_parse_legacy) simp_all
  ultimately show ?thesis using tx_parse_canonical [of ?bs sample_tx] by blast
qed

section \<open>What a transaction pays\<close>

definition paid_to :: "tx_output list \<Rightarrow> bytes \<Rightarrow> nat" where
  "paid_to os script = (\<Sum>o'\<leftarrow>filter (\<lambda>o'. to_script o' = script) os. unat (to_value o'))"

lemma paid_to_le: "paid_to os script \<le> outputs_total os"
  by (induction os) (auto simp: paid_to_def outputs_total_def)

lemma value_to_script_val:
  assumes "outputs_total (tx_outputs tx) < 2 ^ 128"
  shows "unat (value_to_script tx script) = paid_to (tx_outputs tx) script"
proof -
  have up: "unat (ucast (v :: u64) :: u128) = unat v" for v by (rule unat_up)
  have "unat (fold (\<lambda>o' t. if to_script o' = script then sat_add t (ucast (to_value o')) else t) os (t :: u128)) = unat t + paid_to os script"
    if "unat t + outputs_total os < 2 ^ 128" for os t
    using that
  proof (induction os arbitrary: t)
    case (Cons o' os)
    show ?case
    proof (cases "to_script o' = script")
      case True
      have "unat (sat_add t (ucast (to_value o') :: u128)) = unat t + unat (to_value o')"
        using Cons.prems by (simp add: unat_sat_add up outputs_total_def)
      with Cons True show ?thesis by (simp add: paid_to_def outputs_total_def)
    next
      case False
      with Cons show ?thesis by (simp add: paid_to_def outputs_total_def)
    qed
  qed (simp add: paid_to_def)
  from this [of 0 "tx_outputs tx"] assms show ?thesis by (simp add: value_to_script_def)
qed

end
