(* ===== verification/Btc_Deposit.thy ===== *)
theory Btc_Deposit
  imports Btc_Chain Btc_Tx
begin

text \<open>
  Trustless Bitcoin deposits: \<^verbatim>\<open>crates/qlc-bitcoin/src/deposit.rs\<close>. A deposit is taken from a transaction
  that a Merkle branch places in a block of a verified run of headers, next to the block's coinbase
  transaction, deep enough for its amount, on a run that passes through the checkpoint.
\<close>

record trustless_deposit =
  td_txid :: bytes
  td_amount :: u128
  td_recipient :: bytes
  td_confirmations :: u32

record coinbase_proof =
  cb_raw_tx :: bytes
  cb_branch :: "merkle_step list"

definition SATS_PER_BTC :: u128 where "SATS_PER_BTC = 100000000"
definition MAX_TRUSTLESS_DEPOSIT_SATS :: u128 where "MAX_TRUSTLESS_DEPOSIT_SATS = 100 * SATS_PER_BTC"

text \<open>\<open>div_ceil\<close> of a nonzero divisor.\<close>

definition div_ceil :: "u128 \<Rightarrow> u128 \<Rightarrow> u128" where
  "div_ceil a b = (let q = a div b in if a mod b \<noteq> 0 then q + 1 else q)"

definition confirmations_for :: "u128 \<Rightarrow> u32 \<Rightarrow> u32" where
  "confirmations_for amount base =
     (let scaled = div_ceil amount (SATS_PER_BTC div 2)
      in max base (if unat scaled < 2 ^ 32 then ucast scaled else - 1))"

definition verify_trustless_deposit ::
  "(bytes \<Rightarrow> bytes) \<Rightarrow> verified_chain \<Rightarrow> network_params_t \<Rightarrow> checkpoint \<Rightarrow> u32 \<Rightarrow> merkle_step list \<Rightarrow> bytes \<Rightarrow>
   coinbase_proof \<Rightarrow> bytes \<Rightarrow> (spv_error, trustless_deposit) res" where
  "verify_trustless_deposit dsha chain p cp deposit_height branch raw_tx coinbase deposit_script =
     (if np_requires_pinned_checkpoint p \<and> \<not> checkpoint_is_pinned (np_network p) cp then Err CheckpointNotArmed
      else
      and_then (anchored_to dsha chain cp) (\<lambda>_.
      and_then (tx_parse (cb_raw_tx coinbase)) (\<lambda>first.
      if \<not> is_coinbase first \<or> list_ex ms_sibling_on_left (cb_branch coinbase) then Err TransactionMismatch
      else
      and_then (verify_deposit dsha chain deposit_height (tx_txid dsha first) (cb_branch coinbase) (np_confirmation_depth p)) (\<lambda>_.
      if length branch \<noteq> length (cb_branch coinbase) then Err MerkleMismatch
      else
      and_then (tx_parse raw_tx) (\<lambda>tx.
      if is_coinbase tx then Err TransactionMismatch
      else
      let txid = tx_txid dsha tx in
      and_then (ok_or TransactionMismatch (deposit_to tx deposit_script)) (\<lambda>(amount, recipient).
      if amount > MAX_TRUSTLESS_DEPOSIT_SATS then Err DepositTooLarge
      else
      and_then (verify_deposit dsha chain deposit_height txid branch
                  (confirmations_for amount (np_confirmation_depth p))) (\<lambda>confirmed.
      Ok \<lparr>td_txid = txid, td_amount = amount, td_recipient = recipient,
          td_confirmations = cd_confirmations confirmed\<rparr>)))))))"

section \<open>Depth\<close>

lemma div_ceil_val: "b \<noteq> 0 \<Longrightarrow> unat a \<le> unat (div_ceil a b) * unat b"
proof -
  assume "b \<noteq> 0"
  then have b: "0 < unat b" by (simp add: unat_gt_0)
  have m: "a mod b \<noteq> 0 \<longleftrightarrow> unat a mod unat b \<noteq> 0" by (simp add: word_unat_eq_iff unat_mod_distrib)
  have split: "unat a = unat a div unat b * unat b + unat a mod unat b" by simp
  show ?thesis
  proof (cases "a mod b = 0")
    case True
    then show ?thesis using m split by (simp add: div_ceil_def unat_div_distrib)
  next
    case False
    have b2: "1 < unat b"
    proof (rule ccontr)
      assume "\<not> 1 < unat b"
      with b have "unat b = 1" by linarith
      with False m show False by simp
    qed
    have "unat a div unat b < unat a" if "unat a \<noteq> 0" using b2 that by (intro div_less_dividend) auto
    moreover have "unat a < 2 ^ 128" using unsigned_less [of a] by simp
    moreover have "unat a \<noteq> 0" using False m by (cases "unat a = 0") auto
    ultimately have "unat (a div b) + 1 < 2 ^ 128" by (simp add: unat_div_distrib)
    then have "unat (div_ceil a b) = unat a div unat b + 1"
      using False unat_plus_no_overflow [of "a div b" 1] by (simp add: div_ceil_def unat_div_distrib)
    moreover have "unat a mod unat b < unat b" using b by simp
    with split have "unat a \<le> unat a div unat b * unat b + unat b" by linarith
    ultimately show ?thesis by (simp add: add_mult_distrib add.commute)
  qed
qed

lemma confirmations_for_val:
  assumes "unat amount \<le> 2100000000000000"
  shows "base \<le> confirmations_for amount base" "unat amount \<le> unat (confirmations_for amount base) * 50000000"
proof -
  let ?s = "div_ceil amount (SATS_PER_BTC div 2)"
  have half: "unat (SATS_PER_BTC div 2) = 50000000" by (simp add: SATS_PER_BTC_def)
  then have nz: "SATS_PER_BTC div 2 \<noteq> 0" by (metis unsigned_0 zero_neq_numeral)
  have ge: "unat amount \<le> unat ?s * 50000000" using div_ceil_val [OF nz, of amount] half by simp
  show "base \<le> confirmations_for amount base" by (simp add: confirmations_for_def Let_def)
  show "unat amount \<le> unat (confirmations_for amount base) * 50000000"
  proof (cases "unat ?s < 2 ^ 32")
    case True
    then have "unat (ucast ?s :: u32) = unat ?s" by (intro unat_ucast_small) simp
    moreover have "(ucast ?s :: u32) \<le> confirmations_for amount base" using True by (simp add: confirmations_for_def Let_def)
    ultimately have "unat ?s \<le> unat (confirmations_for amount base)" by (simp add: word_le_nat_alt)
    then have "unat ?s * 50000000 \<le> unat (confirmations_for amount base) * 50000000" by (rule mult_right_mono) simp
    with ge show ?thesis by linarith
  next
    case False
    then have "confirmations_for amount base = - 1" by (simp add: confirmations_for_def Let_def max_def)
    then have "unat (confirmations_for amount base) = 2 ^ 32 - 1" by (simp add: unat_minus_one_word)
    with assms show ?thesis by simp
  qed
qed

section \<open>The checkpoint\<close>

lemma work_fold:
  fixes start :: u32
  assumes "unat start + (i + length hs) \<le> 2 ^ 32"
  shows "fold (\<lambda>(i, header) work. if sat_add start (word_of_nat i) > height
        then u256_wrapping_add work (block_work (bh_bits header)) else work) (enumerate i hs) w =
    fold (\<lambda>h w. u256_wrapping_add w (block_work (bh_bits h))) (drop (unat height + 1 - (unat start + i)) hs) w"
  using assms
proof (induction hs arbitrary: i w)
  case (Cons h hs)
  have "unat (word_of_nat i :: u32) = i" using Cons.prems by (simp add: unat_of_nat)
  then have at: "unat (sat_add start (word_of_nat i)) = unat start + i"
    using Cons.prems by (simp add: unat_sat_add)
  have IH: "\<And>w. fold (\<lambda>(i, header) work. if sat_add start (word_of_nat i) > height
        then u256_wrapping_add work (block_work (bh_bits header)) else work) (enumerate (Suc i) hs) w =
    fold (\<lambda>h w. u256_wrapping_add w (block_work (bh_bits h))) (drop (unat height + 1 - (unat start + Suc i)) hs) w"
    using Cons.prems by (intro Cons.IH) simp
  show ?case
  proof (cases "unat height < unat start + i")
    case True
    then have "unat height + 1 - (unat start + i) = 0" "unat height + 1 - (unat start + Suc i) = 0" by linarith+
    with True IH show ?thesis by (simp add: word_less_nat_alt at)
  next
    case False
    then have "unat height + 1 - (unat start + i) = Suc (unat height + 1 - (unat start + Suc i))" by linarith
    with False IH show ?thesis by (simp add: word_less_nat_alt at)
  qed
qed simp

lemma work_above_val:
  assumes "unat start + length headers \<le> 2 ^ 32"
  shows "uval (work_above (chain_of dsha start headers) height) =
      total_work (drop (unat height + 1 - unat start) headers) mod 2 ^ 256"
    and "u256_wf (work_above (chain_of dsha start headers) height)"
proof -
  let ?hs = "drop (unat height + 1 - unat start) headers"
  have "work_above (chain_of dsha start headers) height =
      fold (\<lambda>h w. u256_wrapping_add w (block_work (bh_bits h))) ?hs U256_ZERO"
    using work_fold [of start 0 headers height U256_ZERO] assms by (simp add: work_above_def chain_of_def)
  then have "work_above (chain_of dsha start headers) height = vc_work (chain_of dsha start ?hs)" by (simp add: chain_of_def)
  then show "uval (work_above (chain_of dsha start headers) height) = total_work ?hs mod 2 ^ 256"
    "u256_wf (work_above (chain_of dsha start headers) height)"
    using chain_of_work [of dsha start ?hs] by simp_all
qed

lemma anchored_to_iff:
  assumes "unat start + length headers \<le> 2 ^ 32" "headers \<noteq> []" "u256_wf (cp_min_work cp)"
  shows "anchored_to dsha (chain_of dsha start headers) cp = Ok u \<longleftrightarrow>
    unat start \<le> unat (cp_height cp) \<and> unat (cp_height cp) < unat start + length headers \<and>
    block_hash dsha (headers ! (unat (cp_height cp) - unat start)) = cp_hash cp \<and>
    uval (cp_min_work cp) \<le> total_work (drop (unat (cp_height cp) + 1 - unat start) headers) mod 2 ^ 256"
  using u256_val(4) [OF work_above_val(2) [OF assms(1)] assms(3), of dsha "cp_height cp"] work_above_val(1) [OF assms(1)]
  by (auto simp: anchored_to_def header_at_chain_of [OF assms(1,2)] not_less)

lemma verify_deposit_Ok:
  assumes "unat start + length headers \<le> 2 ^ 32" "headers \<noteq> []"
    and "verify_deposit dsha (chain_of dsha start headers) height txid branch need = Ok d"
  shows "unat start \<le> unat height \<and> unat height < unat start + length headers \<and>
    fold_merkle_branch dsha txid branch = Ok (bh_merkle_root (headers ! (unat height - unat start))) \<and>
    unat (cd_confirmations d) = unat start + length headers - unat height \<and> need \<le> cd_confirmations d"
proof -
  have at: "unat start \<le> unat height \<and> unat height < unat start + length headers"
    using assms(3) by (auto simp: verify_deposit_def and_then_Ok_iff header_at_chain_of [OF assms(1,2)] split: if_splits)
  from assms(3) obtain n where n: "depth_of (chain_of dsha start headers) height = (Ok n :: (spv_error, u32) res)"
    "cd_confirmations d = n" "need \<le> n"
    by (auto simp: verify_deposit_def and_then_Ok_iff not_less split: if_splits)
  have "unat n = unat start + length headers - unat height"
    using at n(1) by (intro depth_of_chain_of [OF assms(1,2)]) auto
  with at n assms(3) show ?thesis
    by (auto simp: verify_deposit_def and_then_Ok_iff header_at_chain_of [OF assms(1,2)] split: if_splits)
qed

section \<open>Proven deposits\<close>

lemma find_recipient_sound:
  "find_recipient os found = Some r \<Longrightarrow>
   (found = Some r \<and> (\<forall>o'\<in>set os. \<not> (length (to_script o') = 34 \<and> take 2 (to_script o') = [0x6a, 0x20]))) \<or>
   (found = None \<and> (\<exists>o'\<in>set os. to_script o' = [0x6a, 0x20] @ r \<and> length r = 32))"
proof (induction os arbitrary: found)
  case (Cons o' os)
  have shape: "(s \<noteq> [] \<and> s ! 0 = 0x6a \<and> length s = 34 \<and> s ! 1 = 0x20) \<longleftrightarrow> length s = 34 \<and> take 2 s = [0x6a, 0x20]" for s :: bytes
    by (cases s rule: remdups_adj.cases) auto
  show ?case
  proof (cases "length (to_script o') = 34 \<and> take 2 (to_script o') = [0x6a, 0x20]")
    case True
    then have s: "to_script o' = [0x6a, 0x20] @ take 32 (drop 2 (to_script o'))"
      using append_take_drop_id [of 2 "to_script o'"] by simp
    from True Cons.prems have "found = None" "find_recipient os (Some (take 32 (drop 2 (to_script o')))) = Some r"
      by (simp_all only: find_recipient.simps Let_def shape) (auto split: if_splits)
    with Cons.IH [of "Some (take 32 (drop 2 (to_script o')))"] True s show ?thesis by auto
  next
    case False
    then have "find_recipient os found = Some r" using Cons.prems by (simp only: find_recipient.simps Let_def shape) auto
    from Cons.IH [OF this] False show ?thesis by auto
  qed
qed simp

lemma deposit_to_sound:
  assumes "deposit_to tx script = Some (amount, recipient)" "outputs_total (tx_outputs tx) < 2 ^ 128"
  shows "unat amount = paid_to (tx_outputs tx) script \<and> 0 < unat amount \<and>
    (\<exists>o'\<in>set (tx_outputs tx). to_script o' = [0x6a, 0x20] @ recipient \<and> length recipient = 32)"
  using assms find_recipient_sound [of "tx_outputs tx" None recipient]
  by (auto simp: deposit_to_def op_return_recipient_def Let_def value_to_script_val unat_gt_0 split: if_splits option.splits)

lemma trustless_deposit_parts:
  assumes "verify_trustless_deposit dsha chain p cp height branch raw cb script = Ok d"
  obtains tx amount recipient c where "\<not> np_requires_pinned_checkpoint p" "anchored_to dsha chain cp = Ok ()"
    "tx_parse raw = Ok tx" "\<not> is_coinbase tx" "deposit_to tx script = Some (amount, recipient)" "amount \<le> MAX_TRUSTLESS_DEPOSIT_SATS"
    "verify_deposit dsha chain height (tx_txid dsha tx) branch (confirmations_for amount (np_confirmation_depth p)) = Ok c"
    "d = \<lparr>td_txid = tx_txid dsha tx, td_amount = amount, td_recipient = recipient, td_confirmations = cd_confirmations c\<rparr>"
  using assms
  by (auto simp: verify_trustless_deposit_def and_then_Ok_iff ok_or_Ok_iff Let_def checkpoint_is_pinned_def PINNED_CHECKPOINTS_def
      not_less intro!: that split: if_splits)

lemma trustless_deposit_first:
  assumes "verify_trustless_deposit dsha chain p cp height branch raw cb script = Ok d"
  obtains first c where "tx_parse (cb_raw_tx cb) = Ok first" "is_coinbase first"
    "\<forall>s\<in>set (cb_branch cb). \<not> ms_sibling_on_left s" "length branch = length (cb_branch cb)"
    "verify_deposit dsha chain height (tx_txid dsha first) (cb_branch cb) (np_confirmation_depth p) = Ok c"
  using assms
  by (auto simp: verify_trustless_deposit_def and_then_Ok_iff Let_def list_ex_iff intro!: that split: if_splits)

text \<open>The block with a given header contains a transaction proven beside its coinbase. For every list of transactions
  under the header's root whose first has the null outpoint of a coinbase, the transaction is in the list, or the
  hash collides on two strings hashed in the block or in the two branches, or the hash of a string of the
  coinbase's branch has 27 zeros in a row. Nothing is assumed of the size of the block's transactions.\<close>

definition block_contains ::
  "(bytes \<Rightarrow> bytes) \<Rightarrow> block_header \<Rightarrow> transaction \<Rightarrow> merkle_step list \<Rightarrow> transaction \<Rightarrow> merkle_step list \<Rightarrow> bool" where
  "block_contains dsha h tx branch first first_branch \<longleftrightarrow>
     (\<forall>txs. merkle_root dsha (map dsha txs) = Some (bh_merkle_root h) \<and> null_prevout (hd txs) \<longrightarrow>
        legacy_bytes tx \<in> set txs \<or>
        \<not> inj_on dsha (set txs \<union> root_inputs dsha (map dsha txs) \<union> proof_strings dsha (legacy_bytes tx) branch \<union>
             proof_strings dsha (legacy_bytes first) first_branch) \<or>
        (\<exists>x\<in>proof_strings dsha (legacy_bytes first) first_branch. zero_run (dsha x)))"

lemma block_containsI:
  assumes "\<And>x. length (dsha x) = 32" "\<forall>s\<in>set branch. length (ms_hash s) = 32" "\<forall>s\<in>set first_branch. length (ms_hash s) = 32"
    and "length (legacy_bytes tx) \<noteq> 64" "length branch = length first_branch" "\<forall>s\<in>set first_branch. \<not> ms_sibling_on_left s"
    and "fold_merkle_branch dsha (tx_txid dsha tx) branch = Ok (bh_merkle_root h)"
    and "fold_merkle_branch dsha (tx_txid dsha first) first_branch = Ok (bh_merkle_root h)"
  shows "block_contains dsha h tx branch first first_branch"
  unfolding block_contains_def
  using merkle_branches_sound [OF assms(1-6) _ assms(7,8) [unfolded tx_txid_def]] by blast

text \<open>C29: a proven Bitcoin deposit happened: if the light client accepts a deposit on a run of headers it has
  verified, then no pinned checkpoint was missing, the run passes through the checkpoint's block
  with at least its work above, the deposit's transaction pays the reported amount, at most
  100 bitcoin, to the deposit script and names the reported recipient, and it is one of the transactions of the
  block at the reported height, buried at least as deep as the network asks and by one block for
  every half bitcoin of its amount. The block may be any list of transactions under the header's root that begins with
  a coinbase, transactions of 64 bytes included; the exceptions are a collision of the hash on the strings hashed for
  the block and the two branches, and a string of the coinbase's branch whose hash has 27 zeros in a row.\<close>

theorem trustless_deposit_sound:
  assumes "params_ok p" "\<And>x. length (dsha x) = 32" "headers \<noteq> []" "length headers < 2 ^ 32"
    and "verify_chain dsha headers start p = Ok chain"
    and "verify_trustless_deposit dsha chain p cp height branch raw cb script = Ok d"
    and "length raw \<le> usize_max" "u256_wf (cp_min_work cp)" "\<forall>s\<in>set branch. length (ms_hash s) = 32"
    and "\<forall>s\<in>set (cb_branch cb). length (ms_hash s) = 32"
  shows "\<exists>tx first. tx_parse raw = Ok tx \<and> tx_parse (cb_raw_tx cb) = Ok first \<and> is_coinbase first \<and>
    block_contains dsha (headers ! (unat height - unat start)) tx branch first (cb_branch cb) \<and>
    \<not> is_coinbase tx \<and> td_txid d = dsha (legacy_bytes tx) \<and>
    unat (td_amount d) = paid_to (tx_outputs tx) script \<and> 0 < unat (td_amount d) \<and> unat (td_amount d) \<le> 10000000000 \<and>
    (\<exists>o'\<in>set (tx_outputs tx). to_script o' = [0x6a, 0x20] @ td_recipient d \<and> length (td_recipient d) = 32) \<and>
    (\<forall>i<length headers. header_ok dsha p (unat start) headers i) \<and>
    unat start \<le> unat height \<and> unat height + unat (td_confirmations d) = unat start + length headers \<and>
    np_confirmation_depth p \<le> td_confirmations d \<and> unat (td_amount d) \<le> unat (td_confirmations d) * 50000000 \<and>
    \<not> np_requires_pinned_checkpoint p \<and>
    block_hash dsha (headers ! (unat (cp_height cp) - unat start)) = cp_hash cp \<and>
    uval (cp_min_work cp) \<le> total_work (drop (unat (cp_height cp) + 1 - unat start) headers) mod 2 ^ 256"
proof -
  have valid: "\<forall>i<length headers. header_ok dsha p (unat start) headers i" and chain: "chain = chain_of dsha start headers"
    using verify_chain_iff(1) [where dsha = dsha, OF assms(1-4)] assms(5) by auto
  note h32 = header_ok_height [OF valid assms(3)]
  obtain tx amount recipient c where parts: "\<not> np_requires_pinned_checkpoint p" "anchored_to dsha chain cp = Ok ()"
    "tx_parse raw = Ok tx" "\<not> is_coinbase tx" "deposit_to tx script = Some (amount, recipient)" "amount \<le> MAX_TRUSTLESS_DEPOSIT_SATS"
    "verify_deposit dsha chain height (tx_txid dsha tx) branch (confirmations_for amount (np_confirmation_depth p)) = Ok c"
    "d = \<lparr>td_txid = tx_txid dsha tx, td_amount = amount, td_recipient = recipient, td_confirmations = cd_confirmations c\<rparr>"
    by (rule trustless_deposit_parts [OF assms(6)])
  note tx = tx_parse_sound [OF assms(7) parts(3)]
  have pays: "unat amount = paid_to (tx_outputs tx) script \<and> 0 < unat amount \<and>
      (\<exists>o'\<in>set (tx_outputs tx). to_script o' = [0x6a, 0x20] @ recipient \<and> length recipient = 32)"
    by (rule deposit_to_sound [OF parts(5)]) (use tx in \<open>simp add: tx_shape_def MAX_MONEY_def\<close>)
  have cap: "unat amount \<le> 10000000000"
    using parts(6) by (simp add: word_le_nat_alt MAX_TRUSTLESS_DEPOSIT_SATS_def SATS_PER_BTC_def)
  then have money: "unat amount \<le> 2100000000000000" by simp
  have dep: "unat start \<le> unat height" "unat height < unat start + length headers"
    "fold_merkle_branch dsha (tx_txid dsha tx) branch = Ok (bh_merkle_root (headers ! (unat height - unat start)))"
    "unat (cd_confirmations c) = unat start + length headers - unat height"
    "confirmations_for amount (np_confirmation_depth p) \<le> cd_confirmations c"
    using verify_deposit_Ok [OF h32 assms(3) parts(7) [unfolded chain]] by auto
  obtain first c' where first: "tx_parse (cb_raw_tx cb) = Ok first" "is_coinbase first"
    "\<forall>s\<in>set (cb_branch cb). \<not> ms_sibling_on_left s" "length branch = length (cb_branch cb)"
    "verify_deposit dsha chain height (tx_txid dsha first) (cb_branch cb) (np_confirmation_depth p) = Ok c'"
    by (rule trustless_deposit_first [OF assms(6)])
  have "block_contains dsha (headers ! (unat height - unat start)) tx branch first (cb_branch cb)"
    using verify_deposit_Ok [OF h32 assms(3) first(5) [unfolded chain]] tx dep(3)
    by (intro block_containsI [OF assms(2,9,10) _ first(4,3)]) auto
  moreover have "unat amount \<le> unat (cd_confirmations c) * 50000000" "np_confirmation_depth p \<le> cd_confirmations c"
  proof -
    have "unat (confirmations_for amount (np_confirmation_depth p)) * 50000000 \<le> unat (cd_confirmations c) * 50000000"
      using dep(5) by (intro mult_right_mono) (simp_all add: word_le_nat_alt)
    with confirmations_for_val(2) [OF money, of "np_confirmation_depth p"] show "unat amount \<le> unat (cd_confirmations c) * 50000000" by linarith
    show "np_confirmation_depth p \<le> cd_confirmations c" using confirmations_for_val(1) [OF money] dep(5) by (rule order_trans)
  qed
  moreover note anchored_to_iff [OF h32 assms(3,8), of dsha "()"] parts(2) [unfolded chain]
  ultimately show ?thesis using parts first(1,2) pays cap dep valid by (intro exI [of _ tx] exI [of _ first]) (simp add: tx_txid_def)
qed

section \<open>A deposit in a block of two transactions\<close>

text \<open>A hash for the sample: the length of its input.\<close>

abbreviation toy_digest :: "u8 \<Rightarrow> bytes" where "toy_digest n \<equiv> n # replicate 25 1 @ replicate 6 0"

definition toy_hash :: "bytes \<Rightarrow> bytes" where
  "toy_hash x = toy_digest (word_of_nat (length x))"

definition sample_coinbase :: transaction where
  "sample_coinbase = \<lparr>tx_version = 1, tx_inputs = [\<lparr>ti_raw = (replicate 32 0 @ replicate 4 0xff) @ [0] @ replicate 4 0xff\<rparr>],
     tx_outputs = [\<lparr>to_value = 5000000000, to_script = [0x52]\<rparr>], tx_locktime = 0\<rparr>"

definition sample_params :: network_params_t where
  "sample_params = BITCOIN\<lparr>np_confirmation_depth := 1, np_requires_pinned_checkpoint := False\<rparr>"

abbreviation cb_id :: bytes where "cb_id \<equiv> toy_digest 61"
abbreviation tx_id :: bytes where "tx_id \<equiv> toy_digest 104"

definition sample_block :: block_header where
  "sample_block = sample_header\<lparr>bh_merkle_root := toy_digest 64\<rparr>"

definition sample_cp :: checkpoint where
  "sample_cp = \<lparr>cp_height = 7, cp_hash = toy_digest 80, cp_min_work = U256_ZERO\<rparr>"

lemma sample_coinbase_shape: "tx_shape sample_coinbase" "length (legacy_bytes sample_coinbase) = 61"
proof -
  have "input_shape \<lparr>ti_raw = (replicate 32 0 @ replicate 4 0xff) @ [0] @ replicate 4 0xff\<rparr>"
    unfolding input_shape_def
    by (intro exI [of _ "replicate 32 0 @ replicate 4 0xff"] exI [of _ "[]"] exI [of _ "replicate 4 0xff"]) (simp add: script_enc_def put_varint_def)
  then show "tx_shape sample_coinbase" by (simp add: tx_shape_def sample_coinbase_def outputs_total_def MAX_MONEY_def)
  show "length (legacy_bytes sample_coinbase) = 61" by (simp add: legacy_bytes_def sample_coinbase_def put_varint_def)
qed

lemma sample_parses:
  "tx_parse (legacy_bytes sample_tx) = Ok sample_tx" "tx_parse (legacy_bytes sample_coinbase) = Ok sample_coinbase"
  using sample_tx_shape sample_coinbase_shape by (auto intro!: tx_parse_legacy)

lemma sample_ids: "toy_hash (legacy_bytes sample_tx) = tx_id" "toy_hash (legacy_bytes sample_coinbase) = cb_id"
  by (simp_all add: toy_hash_def sample_tx_shape sample_coinbase_shape)

lemma sample_block_hash: "block_hash toy_hash sample_block = toy_digest 80"
  by (simp add: block_hash_def toy_hash_def length_header_serialize header_wf_def sample_block_def sample_header_def)

lemma sample_chain: "verify_chain toy_hash [sample_block] 7 sample_params = Ok (chain_of toy_hash 7 [sample_block])"
proof -
  have "be_nat (replicate 25 1 @ [80]) < 256 ^ 26" using be_nat_less [of "replicate 25 1 @ [80]"] by simp
  then have "be_nat (replicate 25 1 @ [80]) \<le> 26959535291011309493156476344723991336010898738574164086137773096960" by simp
  then have "header_ok toy_hash sample_params 7 [sample_block] 0"
    unfolding header_ok_def Let_def
    by (simp add: sample_block_hash) (simp add: sample_block_def sample_header_def sample_params_def BITCOIN_def sample_bits compact_value_def Let_def)
  moreover have "params_ok sample_params" by (simp add: params_ok_def sample_params_def BITCOIN_def)
  ultimately show ?thesis by (subst verify_chain_iff(1)) (simp_all add: toy_hash_def)
qed

lemma sample_deposit:
  "verify_trustless_deposit toy_hash (chain_of toy_hash 7 [sample_block]) sample_params sample_cp 7
     [\<lparr>ms_hash = cb_id, ms_sibling_on_left = True\<rparr>] (legacy_bytes sample_tx)
     \<lparr>cb_raw_tx = legacy_bytes sample_coinbase, cb_branch = [\<lparr>ms_hash = tx_id, ms_sibling_on_left = False\<rparr>]\<rparr> [0x51] =
   Ok \<lparr>td_txid = tx_id, td_amount = 250000, td_recipient = replicate 32 7, td_confirmations = 1\<rparr>"
proof -
  let ?c = "chain_of toy_hash 7 [sample_block]"
  have anch: "anchored_to toy_hash ?c sample_cp = Ok ()"
    by (subst anchored_to_iff) (simp_all add: sample_cp_def u256_wf_def sample_block_hash U256_ZERO_def)
  have at: "header_at ?c 7 = Some sample_block" by (subst header_at_chain_of) simp_all
  have depth: "depth_of ?c 7 = Ok 1" by (simp add: depth_of_def chain_of_def checked_add_def)
  have root: "bh_merkle_root sample_block = toy_digest 64" by (simp add: sample_block_def)
  have dep: "deposit_to sample_tx [0x51] = Some (250000, replicate 32 7)"
    by (simp add: deposit_to_def value_to_script_def op_return_recipient_def sample_tx_def sat_add_def Let_def)
  have conf: "confirmations_for 250000 1 = 1"
    by (simp add: confirmations_for_def div_ceil_def SATS_PER_BTC_def Let_def)
  have cb: "is_coinbase sample_coinbase" "\<not> is_coinbase sample_tx"
    by (simp_all add: is_coinbase_def sample_coinbase_def sample_tx_def list_all_iff)
  have np: "np_confirmation_depth sample_params = 1" "\<not> np_requires_pinned_checkpoint sample_params" by (simp_all add: sample_params_def)
  have branch: "fold_merkle_branch toy_hash cb_id [\<lparr>ms_hash = tx_id, ms_sibling_on_left = False\<rparr>] = Ok (toy_digest 64)"
    "fold_merkle_branch toy_hash tx_id [\<lparr>ms_hash = cb_id, ms_sibling_on_left = True\<rparr>] = Ok (toy_digest 64)"
    by (simp_all add: fold_merkle_branch_def MAX_MERKLE_BRANCH_def branch_buf_def toy_hash_def)
  show ?thesis
    by (simp add: verify_trustless_deposit_def np anch sample_parses cb tx_txid_def sample_ids verify_deposit_def at depth root branch dep conf
        MAX_TRUSTLESS_DEPOSIT_SATS_def SATS_PER_BTC_def)
qed

lemma toy_root: "merkle_root toy_hash [cb_id, tx_id] = Some (toy_digest 64)"
  "root_inputs toy_hash [cb_id, tx_id] = {cb_id @ tx_id}"
proof -
  have two: "chunks_exact 2 (merkle_pad [cb_id, tx_id]) = [[cb_id, tx_id]]"
    by (simp add: merkle_pad_def chunks_exact.simps [of 2])
  then have next1: "merkle_next toy_hash [cb_id, tx_id] = [toy_digest 64]"
    by (simp add: merkle_next_def merkle_pair_def toy_hash_def)
  then show "merkle_root toy_hash [cb_id, tx_id] = Some (toy_digest 64)"
    by (simp add: merkle_root_def merkle_levels.simps [of _ "[_, _]"] merkle_levels.simps [of _ "[_]"])
  show "root_inputs toy_hash [cb_id, tx_id] = {cb_id @ tx_id}"
    by (simp add: root_inputs.simps [of _ "[_, _]"] root_inputs.simps [of _ "[_]"] next1 level_inputs_def two)
qed

theorem trustless_deposit_sound_witness:
  "\<exists>tx d. verify_trustless_deposit toy_hash (chain_of toy_hash 7 [sample_block]) sample_params sample_cp 7
     [\<lparr>ms_hash = cb_id, ms_sibling_on_left = True\<rparr>] (legacy_bytes sample_tx)
     \<lparr>cb_raw_tx = legacy_bytes sample_coinbase, cb_branch = [\<lparr>ms_hash = tx_id, ms_sibling_on_left = False\<rparr>]\<rparr> [0x51] = Ok d \<and>
   tx_parse (legacy_bytes sample_tx) = Ok tx \<and> unat (td_amount d) = paid_to (tx_outputs tx) [0x51] \<and>
   legacy_bytes tx \<in> {legacy_bytes sample_coinbase, legacy_bytes sample_tx}"
proof -
  let ?txs = "[legacy_bytes sample_coinbase, legacy_bytes sample_tx]"
  let ?branch = "[\<lparr>ms_hash = cb_id, ms_sibling_on_left = True\<rparr>]" and ?cbb = "[\<lparr>ms_hash = tx_id, ms_sibling_on_left = False\<rparr>]"
  let ?cb = "\<lparr>cb_raw_tx = legacy_bytes sample_coinbase, cb_branch = ?cbb\<rparr>"
  have strings: "proof_strings toy_hash (legacy_bytes sample_tx) ?branch = {legacy_bytes sample_tx, cb_id @ tx_id}"
    "proof_strings toy_hash (legacy_bytes sample_coinbase) ?cbb = {legacy_bytes sample_coinbase, cb_id @ tx_id}"
    by (simp_all add: proof_strings_def sample_ids branch_buf_def)
  have "set ?txs \<union> root_inputs toy_hash (map toy_hash ?txs) \<union> {legacy_bytes sample_tx, cb_id @ tx_id} \<union>
      {legacy_bytes sample_coinbase, cb_id @ tx_id} = {legacy_bytes sample_coinbase, legacy_bytes sample_tx, cb_id @ tx_id}"
    by (auto simp: sample_ids toy_root)
  moreover have "inj_on toy_hash {legacy_bytes sample_coinbase, legacy_bytes sample_tx, cb_id @ tx_id}"
    by (auto simp: inj_on_def sample_ids) (simp_all add: toy_hash_def)
  ultimately have inj: "inj_on toy_hash (set ?txs \<union> root_inputs toy_hash (map toy_hash ?txs) \<union>
      proof_strings toy_hash (legacy_bytes sample_tx) ?branch \<union> proof_strings toy_hash (legacy_bytes sample_coinbase) ?cbb)"
    unfolding strings by simp
  have run: "\<forall>x. \<not> zero_run (toy_hash x)" by (simp add: zero_run_def toy_hash_def numeral_eq_Suc)
  have null: "null_prevout (hd ?txs)" by (simp add: null_prevout_def legacy_bytes_def sample_coinbase_def put_varint_def)
  have params: "params_ok sample_params" by (simp add: params_ok_def sample_params_def BITCOIN_def)
  have len: "length (toy_hash x) = 32" for x by (simp add: toy_hash_def)
  have block: "[sample_block] \<noteq> []" "length [sample_block] < 2 ^ 32" by simp_all
  have raw: "length (legacy_bytes sample_tx) \<le> usize_max" by (simp add: sample_tx_shape)
  have wf: "u256_wf (cp_min_work sample_cp)" by (simp add: sample_cp_def u256_wf_ops)
  have steps: "\<forall>s\<in>set ?branch. length (ms_hash s) = 32" "\<forall>s\<in>set (cb_branch ?cb). length (ms_hash s) = 32" by simp_all
  have root: "merkle_root toy_hash (map toy_hash ?txs) = Some (bh_merkle_root ([sample_block] ! (unat (7 :: u32) - unat (7 :: u32))))"
    by (simp add: sample_ids toy_root sample_block_def)
  from trustless_deposit_sound [OF params len block sample_chain sample_deposit raw wf steps] sample_parses
  have "block_contains toy_hash ([sample_block] ! (unat (7 :: u32) - unat (7 :: u32))) sample_tx ?branch sample_coinbase ?cbb"
    "unat (250000 :: u128) = paid_to (tx_outputs sample_tx) [0x51]" by auto
  with root null inj run have "legacy_bytes sample_tx \<in> set ?txs" "unat (250000 :: u128) = paid_to (tx_outputs sample_tx) [0x51]"
    unfolding block_contains_def by blast+
  then show ?thesis using sample_deposit sample_parses(1) by auto
qed

end
