(* ===== verification/Trustless_Mint.thy ===== *)
theory Trustless_Mint
  imports Federated Btc_Deposit
begin

text \<open>
  \<^verbatim>\<open>crates/q-federated/src/trustless.rs\<close>: the mint that needs no operator. A deposit that a light client has
  proven is matched field by field with the fact that claims it, and then charged to the gateway's
  replay set, caps and budgets. The deposits of the Ethereum and the Cosmos client are records of what
  those clients report; the deposit of the Bitcoin client is that of the theory \<open>Btc_Deposit\<close>.

  The three matchers are one function of what the proof reports: \<open>proof_corridor\<close> is that contract, the
  three interpretations discharge it, and its lemmas say what an admitted proof does to the gateway.
\<close>

section \<open>Data\<close>

datatype trustless_error =
    NotProofBacked
  | SourceMismatch u32 u32
  | ReferenceMismatch
  | AmountMismatch u128 u128
  | RecipientMismatch
  | AssetMismatch
  | MalformedFact
  | InsufficientConfirmations u32 u32
  | TrustlessReplayedReference
  | TrustlessAssetNotRegistered
  | TrustlessAssetCapExceeded u128 u128 u128
  | TrustlessGateway gateway_error

record trustless_mint =
  tm_asset_id :: bytes
  tm_recipient :: bytes
  tm_amount :: u128
  tm_source_ref :: bytes
  tm_source_chain :: u32
  tm_confirmations :: u32

record ethereum_deposit =
  ed_source_ref :: bytes
  ed_amount :: u128
  ed_recipient :: bytes
  ed_asset_id :: bytes
  ed_block_number :: u64
  ed_finality_depth :: u32

record cosmos_deposit =
  cd_source_ref :: bytes
  cd_amount :: u128
  cd_recipient :: bytes
  cd_asset_id :: bytes
  cd_height :: u64
  cd_confs :: u32

section \<open>Matching a proof with a fact\<close>

definition match_bitcoin_deposit ::
  "corridor \<Rightarrow> trustless_deposit \<Rightarrow> bridge_fact \<Rightarrow> (trustless_error, trustless_mint) res" where
  "match_bitcoin_deposit corridor proven f =
     (if \<not> is_proof_backed (co_tier corridor) then Err NotProofBacked
      else if bf_source_chain f \<noteq> co_chain_id corridor
      then Err (SourceMismatch (co_chain_id corridor) (bf_source_chain f))
      else if bf_version f \<noteq> FACT_VERSION \<or> bf_direction f \<noteq> Deposit then Err MalformedFact
      else if bf_source_ref f \<noteq> td_txid proven then Err ReferenceMismatch
      else if bf_amount f \<noteq> td_amount proven then Err (AmountMismatch (td_amount proven) (bf_amount f))
      else if bf_recipient f \<noteq> td_recipient proven then Err RecipientMismatch
      else if bf_asset_id f \<noteq> co_origin_asset corridor then Err AssetMismatch
      else if td_confirmations proven < co_confirmation_depth corridor
      then Err (InsufficientConfirmations (td_confirmations proven) (co_confirmation_depth corridor))
      else Ok \<lparr>tm_asset_id = co_origin_asset corridor, tm_recipient = td_recipient proven,
               tm_amount = td_amount proven, tm_source_ref = td_txid proven,
               tm_source_chain = co_chain_id corridor, tm_confirmations = td_confirmations proven\<rparr>)"

definition match_ethereum_deposit ::
  "corridor \<Rightarrow> ethereum_deposit \<Rightarrow> bridge_fact \<Rightarrow> (trustless_error, trustless_mint) res" where
  "match_ethereum_deposit corridor proven f =
     (if \<not> is_proof_backed (co_tier corridor) then Err NotProofBacked
      else if bf_source_chain f \<noteq> co_chain_id corridor
      then Err (SourceMismatch (co_chain_id corridor) (bf_source_chain f))
      else if bf_version f \<noteq> FACT_VERSION \<or> bf_direction f \<noteq> Deposit then Err MalformedFact
      else if bf_source_ref f \<noteq> ed_source_ref proven then Err ReferenceMismatch
      else if bf_amount f \<noteq> ed_amount proven then Err (AmountMismatch (ed_amount proven) (bf_amount f))
      else if bf_recipient f \<noteq> ed_recipient proven then Err RecipientMismatch
      else if bf_asset_id f \<noteq> ed_asset_id proven then Err AssetMismatch
      else if ed_finality_depth proven < co_confirmation_depth corridor
      then Err (InsufficientConfirmations (ed_finality_depth proven) (co_confirmation_depth corridor))
      else Ok \<lparr>tm_asset_id = ed_asset_id proven, tm_recipient = ed_recipient proven,
               tm_amount = ed_amount proven, tm_source_ref = ed_source_ref proven,
               tm_source_chain = co_chain_id corridor, tm_confirmations = ed_finality_depth proven\<rparr>)"

definition match_cosmos_deposit ::
  "corridor \<Rightarrow> cosmos_deposit \<Rightarrow> bridge_fact \<Rightarrow> (trustless_error, trustless_mint) res" where
  "match_cosmos_deposit corridor proven f =
     (if \<not> is_proof_backed (co_tier corridor) then Err NotProofBacked
      else if bf_source_chain f \<noteq> co_chain_id corridor
      then Err (SourceMismatch (co_chain_id corridor) (bf_source_chain f))
      else if bf_version f \<noteq> FACT_VERSION \<or> bf_direction f \<noteq> Deposit then Err MalformedFact
      else if bf_source_ref f \<noteq> cd_source_ref proven then Err ReferenceMismatch
      else if bf_amount f \<noteq> cd_amount proven then Err (AmountMismatch (cd_amount proven) (bf_amount f))
      else if bf_recipient f \<noteq> cd_recipient proven then Err RecipientMismatch
      else if bf_asset_id f \<noteq> cd_asset_id proven then Err AssetMismatch
      else if cd_confs proven < co_confirmation_depth corridor
      then Err (InsufficientConfirmations (cd_confs proven) (co_confirmation_depth corridor))
      else Ok \<lparr>tm_asset_id = cd_asset_id proven, tm_recipient = cd_recipient proven,
               tm_amount = cd_amount proven, tm_source_ref = cd_source_ref proven,
               tm_source_chain = co_chain_id corridor, tm_confirmations = cd_confs proven\<rparr>)"

section \<open>The gateway's side\<close>

fun trustless_gateway_error :: "gateway_error \<Rightarrow> trustless_error" where
  "trustless_gateway_error ReplayedReference = TrustlessReplayedReference"
| "trustless_gateway_error AssetNotRegistered = TrustlessAssetNotRegistered"
| "trustless_gateway_error (AssetCapExceeded minted cap add) = TrustlessAssetCapExceeded minted cap add"
| "trustless_gateway_error other = TrustlessGateway other"

definition precheck_trustless_fact :: "bridge_fact \<Rightarrow> 'pk gateway \<Rightarrow> (trustless_error, unit) res" where
  "precheck_trustless_fact f g =
     (if gw_dest_chain_id g = 0 \<or> bf_dest_chain f \<noteq> gw_chain_id g
      then Err (TrustlessGateway WrongDestination)
      else map_err trustless_gateway_error
        (precheck_trustless (bf_asset_id f) (bf_source_ref f) (bf_amount f) (bf_source_chain f) g))"

definition apply_replay_and_cap ::
  "trustless_mint \<Rightarrow> u32 \<Rightarrow> 'pk gateway \<Rightarrow> 'pk gateway \<times> (trustless_error, unit) res" where
  "apply_replay_and_cap mint dest_chain g =
     (if gw_dest_chain_id g = 0 \<or> dest_chain \<noteq> gw_chain_id g
      then (g, Err (TrustlessGateway WrongDestination))
      else apsnd (map_err trustless_gateway_error)
        (admit_trustless (tm_asset_id mint) (tm_source_ref mint) (tm_amount mint) (tm_source_chain mint) g))"

definition admit_bitcoin_trustless ::
  "corridor \<Rightarrow> trustless_deposit \<Rightarrow> bridge_fact \<Rightarrow> 'pk gateway \<Rightarrow>
   'pk gateway \<times> (trustless_error, trustless_mint) res" where
  "admit_bitcoin_trustless corridor proven f g =
     and_then_st (match_bitcoin_deposit corridor proven f) g (\<lambda>mint.
     case apply_replay_and_cap mint (bf_dest_chain f) g of
       (g', r) \<Rightarrow> and_then_st r g' (\<lambda>_. (g', Ok mint)))"

definition admit_ethereum_trustless ::
  "corridor \<Rightarrow> ethereum_deposit \<Rightarrow> bridge_fact \<Rightarrow> 'pk gateway \<Rightarrow>
   'pk gateway \<times> (trustless_error, trustless_mint) res" where
  "admit_ethereum_trustless corridor proven f g =
     and_then_st (match_ethereum_deposit corridor proven f) g (\<lambda>mint.
     case apply_replay_and_cap mint (bf_dest_chain f) g of
       (g', r) \<Rightarrow> and_then_st r g' (\<lambda>_. (g', Ok mint)))"

definition admit_cosmos_trustless ::
  "corridor \<Rightarrow> cosmos_deposit \<Rightarrow> bridge_fact \<Rightarrow> 'pk gateway \<Rightarrow>
   'pk gateway \<times> (trustless_error, trustless_mint) res" where
  "admit_cosmos_trustless corridor proven f g =
     and_then_st (match_cosmos_deposit corridor proven f) g (\<lambda>mint.
     case apply_replay_and_cap mint (bf_dest_chain f) g of
       (g', r) \<Rightarrow> and_then_st r g' (\<lambda>_. (g', Ok mint)))"

section \<open>The contract of the three corridors\<close>

text \<open>What a fact must say of a proof that reports \<open>mint\<close>.\<close>

definition fact_claims :: "corridor \<Rightarrow> trustless_mint \<Rightarrow> bridge_fact \<Rightarrow> bool" where
  "fact_claims c mint f \<longleftrightarrow> is_proof_backed (co_tier c) \<and> bf_source_chain f = co_chain_id c \<and>
     bf_version f = FACT_VERSION \<and> bf_direction f = Deposit \<and>
     bf_source_ref f = tm_source_ref mint \<and> bf_amount f = tm_amount mint \<and>
     bf_recipient f = tm_recipient mint \<and> bf_asset_id f = tm_asset_id mint \<and>
     tm_source_chain mint = co_chain_id c \<and> co_confirmation_depth c \<le> tm_confirmations mint"

locale proof_corridor =
  fixes matches :: "corridor \<Rightarrow> 'd \<Rightarrow> bridge_fact \<Rightarrow> (trustless_error, trustless_mint) res"
    and admit :: "corridor \<Rightarrow> 'd \<Rightarrow> bridge_fact \<Rightarrow> 'pk gateway \<Rightarrow> 'pk gateway \<times> (trustless_error, trustless_mint) res"
    and reported :: "corridor \<Rightarrow> 'd \<Rightarrow> trustless_mint"
  assumes matches_Ok: "matches c d f = Ok mint \<longleftrightarrow> mint = reported c d \<and> fact_claims c mint f"
    and matches_total: "matches c d f \<noteq> Panic"
    and admit_eq: "admit c d f g = and_then_st (matches c d f) g (\<lambda>mint.
        case apply_replay_and_cap mint (bf_dest_chain f) g of
          (g', r) \<Rightarrow> and_then_st r g' (\<lambda>_. (g', Ok mint)))"
begin

lemma admit_Ok:
  assumes "gw_inv g"
  shows "admit c d f g = (g', Ok mint) \<longleftrightarrow>
    mint = reported c d \<and> fact_claims c mint f \<and> precheck_trustless_fact f g = Ok () \<and>
    g' = credit (bf_source_chain f) (bf_source_ref f) (bf_asset_id f) (bf_amount f) g"
proof -
  have "apply_replay_and_cap mint (bf_dest_chain f) g = (g', Ok u) \<longleftrightarrow> precheck_trustless_fact f g = Ok () \<and>
      g' = credit (bf_source_chain f) (bf_source_ref f) (bf_asset_id f) (bf_amount f) g"
    if "fact_claims c mint f" for u
    using that assms
    by (auto simp: apply_replay_and_cap_def precheck_trustless_fact_def fact_claims_def apsnd_eq_iff
        map_err_Ok_iff eq_commute [of "Ok _" "map_err _ _"] admit_trustless_Ok)
  then show ?thesis
    by (auto simp: admit_eq and_then_st_Ok_iff matches_Ok split: prod.splits)
qed

lemma admit_err: "admit c d f g = (g', Err e) \<Longrightarrow> g' = g"
  by (auto simp: admit_eq and_then_st_case apply_replay_and_cap_def apsnd_eq_iff map_err_Err_iff
      dest: admit_trustless_err split: res.splits if_splits prod.splits)

lemma admit_inv:
  assumes "gw_inv g" "admit c d f g = (g', Ok mint)"
  shows "gw_inv g' \<and> supply_of g' (tm_asset_id mint) = supply_of g (tm_asset_id mint) + unat (tm_amount mint) \<and>
    (\<forall>b. b \<noteq> tm_asset_id mint \<longrightarrow> supply_of g' b = supply_of g b) \<and>
    (co_chain_id c, tm_source_ref mint) \<in> set (gw_used_refs g')"
proof -
  from assms(2) have mint: "fact_claims c mint f" "precheck_trustless_fact f g = Ok ()"
    "g' = credit (bf_source_chain f) (bf_source_ref f) (bf_asset_id f) (bf_amount f) g"
    using admit_Ok [OF assms(1)] by auto
  then have b: "budgets_allow (bf_source_chain f) (bf_source_ref f) (bf_asset_id f) (bf_amount f) g"
    using assms(1)
    by (auto simp: precheck_trustless_fact_def map_err_Ok_iff precheck_trustless_Ok split: if_splits)
  from step_credit [OF assms(1) b] have "gw_inv g'" unfolding mint(3) by (rule step_ok_inv [OF assms(1)])
  with mint(1) supply_of_credit [OF b] show ?thesis
    by (auto simp: mint(3) fact_claims_def credit_def touch_guard_def record_asset_epoch_def)
qed

text \<open>A reference that the gateway has seen on this chain is refused whatever the proof.\<close>

lemma admit_replay:
  assumes "gw_inv g" "(co_chain_id c, tm_source_ref (reported c d)) \<in> set (gw_used_refs g)"
  shows "\<not> is_ok (snd (admit c d f g))"
proof
  assume "is_ok (snd (admit c d f g))"
  then obtain g' mint where "admit c d f g = (g', Ok mint)" by (metis is_ok_iff prod.collapse)
  then have "mint = reported c d" "fact_claims c mint f" "precheck_trustless_fact f g = Ok ()"
    using admit_Ok [OF assms(1)] by auto
  with assms show False
    by (auto simp: precheck_trustless_fact_def fact_claims_def map_err_Ok_iff precheck_trustless_Ok
        budgets_allow_def split: if_splits)
qed

end

definition bitcoin_reported :: "corridor \<Rightarrow> trustless_deposit \<Rightarrow> trustless_mint" where
  "bitcoin_reported c d = \<lparr>tm_asset_id = co_origin_asset c, tm_recipient = td_recipient d, tm_amount = td_amount d,
     tm_source_ref = td_txid d, tm_source_chain = co_chain_id c, tm_confirmations = td_confirmations d\<rparr>"

definition ethereum_reported :: "corridor \<Rightarrow> ethereum_deposit \<Rightarrow> trustless_mint" where
  "ethereum_reported c d = \<lparr>tm_asset_id = ed_asset_id d, tm_recipient = ed_recipient d, tm_amount = ed_amount d,
     tm_source_ref = ed_source_ref d, tm_source_chain = co_chain_id c, tm_confirmations = ed_finality_depth d\<rparr>"

definition cosmos_reported :: "corridor \<Rightarrow> cosmos_deposit \<Rightarrow> trustless_mint" where
  "cosmos_reported c d = \<lparr>tm_asset_id = cd_asset_id d, tm_recipient = cd_recipient d, tm_amount = cd_amount d,
     tm_source_ref = cd_source_ref d, tm_source_chain = co_chain_id c, tm_confirmations = cd_confs d\<rparr>"

interpretation btc_mint: proof_corridor match_bitcoin_deposit admit_bitcoin_trustless bitcoin_reported
  by unfold_locales (auto simp: match_bitcoin_deposit_def if_err_Ok bitcoin_reported_def fact_claims_def
      admit_bitcoin_trustless_def not_less split: if_splits)

interpretation eth_mint: proof_corridor match_ethereum_deposit admit_ethereum_trustless ethereum_reported
  by unfold_locales (auto simp: match_ethereum_deposit_def if_err_Ok ethereum_reported_def fact_claims_def
      admit_ethereum_trustless_def not_less split: if_splits)

interpretation cosmos_mint: proof_corridor match_cosmos_deposit admit_cosmos_trustless cosmos_reported
  by unfold_locales (auto simp: match_cosmos_deposit_def if_err_Ok cosmos_reported_def fact_claims_def
      admit_cosmos_trustless_def not_less split: if_splits)

section \<open>Properties\<close>

text \<open>C4: a Bitcoin mint is backed by the transaction that was proven: when the light client accepts a deposit and the
  gateway admits it for a fact, the transaction the proof carries pays exactly the minted amount to the deposit
  script and names the minted recipient, its identifier is the recorded reference, its depth satisfies both the
  corridor and the amount, the outstanding supply of the corridor's asset grows by what was paid and no other supply
  moves, the gateway keeps its invariant, and no later proof of the same reference on this corridor is admitted.\<close>

theorem bitcoin_mint_backed:
  assumes "gw_inv g" "length raw \<le> usize_max"
    and "verify_trustless_deposit dsha chain p cp height branch raw cb script = Ok d"
    and "admit_bitcoin_trustless c d f g = (g', Ok mint)"
  shows "(\<exists>tx. tx_parse raw = Ok tx \<and> tm_source_ref mint = tx_txid dsha tx \<and>
      unat (tm_amount mint) = paid_to (tx_outputs tx) script \<and>
      (\<exists>o'\<in>set (tx_outputs tx). to_script o' = [0x6a, 0x20] @ tm_recipient mint) \<and>
      supply_of g' (co_origin_asset c) = supply_of g (co_origin_asset c) + paid_to (tx_outputs tx) script) \<and>
    (\<forall>b. b \<noteq> co_origin_asset c \<longrightarrow> supply_of g' b = supply_of g b) \<and>
    co_confirmation_depth c \<le> tm_confirmations mint \<and> gw_inv g' \<and>
    (\<forall>d' f'. td_txid d' = td_txid d \<longrightarrow> \<not> is_ok (snd (admit_bitcoin_trustless c d' f' g')))"
proof -
  obtain tx amount recipient conf where tx: "tx_parse raw = Ok tx"
    and dep: "deposit_to tx script = Some (amount, recipient)"
    and d: "d = \<lparr>td_txid = tx_txid dsha tx, td_amount = amount, td_recipient = recipient, td_confirmations = conf\<rparr>"
    by (rule trustless_deposit_parts [OF assms(3)]) blast
  have mint: "mint = bitcoin_reported c d" "fact_claims c mint f"
    using btc_mint.admit_Ok [OF assms(1)] assms(4) by auto
  have "outputs_total (tx_outputs tx) < 2 ^ 128"
    using tx_parse_sound [OF assms(2) tx] by (simp add: tx_shape_def MAX_MONEY_def)
  from deposit_to_sound [OF dep this] have pays: "unat amount = paid_to (tx_outputs tx) script"
    "\<exists>o'\<in>set (tx_outputs tx). to_script o' = [0x6a, 0x20] @ recipient" by auto
  note inv = btc_mint.admit_inv [OF assms(1,4)]
  have "\<not> is_ok (snd (admit_bitcoin_trustless c d' f' g'))" if "td_txid d' = td_txid d" for d' f'
    by (rule btc_mint.admit_replay) (use inv that in \<open>simp_all add: mint(1) bitcoin_reported_def\<close>)
  with tx pays inv mint show ?thesis by (auto simp: d bitcoin_reported_def fact_claims_def)
qed

definition sample_proof_corridor :: corridor where
  "sample_proof_corridor =
     sample_corridor\<lparr>co_tier := ProofBacked, co_grade := Trustless, co_confirmation_depth := 1\<rparr>"

definition sample_claim :: bridge_fact where
  "sample_claim = sample_fact\<lparr>bf_source_ref := tx_id, bf_amount := 250000, bf_recipient := replicate 32 7\<rparr>"

theorem bitcoin_mint_backed_witness:
  "\<exists>d g' mint. verify_trustless_deposit toy_hash (chain_of toy_hash 7 [sample_block]) sample_params sample_cp 7
     [\<lparr>ms_hash = cb_id, ms_sibling_on_left = True\<rparr>] (legacy_bytes sample_tx)
     \<lparr>cb_raw_tx = legacy_bytes sample_coinbase, cb_branch = [\<lparr>ms_hash = tx_id, ms_sibling_on_left = False\<rparr>]\<rparr> [0x51] = Ok d \<and>
   admit_bitcoin_trustless sample_proof_corridor d sample_claim sample_gateway = (g', Ok mint) \<and>
   supply_of g' (replicate 16 3) = supply_of sample_gateway (replicate 16 3) + 250000 \<and>
   \<not> is_ok (snd (admit_bitcoin_trustless sample_proof_corridor d sample_claim g'))"
proof -
  let ?d = "\<lparr>td_txid = tx_id, td_amount = 250000, td_recipient = replicate 32 7, td_confirmations = 1\<rparr>"
  let ?mint = "bitcoin_reported sample_proof_corridor ?d"
  have "fact_claims sample_proof_corridor ?mint sample_claim"
    by (simp add: fact_claims_def bitcoin_reported_def sample_proof_corridor_def sample_corridor_def
        mk_corridor_def sample_claim_def sample_fact_def)
  moreover have "precheck_trustless_fact sample_claim sample_gateway = Ok ()"
    by (simp add: precheck_trustless_fact_def precheck_trustless_def sample_claim_def sample_fact_def gateway_eval)
  ultimately obtain g' where adm: "admit_bitcoin_trustless sample_proof_corridor ?d sample_claim sample_gateway = (g', Ok ?mint)"
    using btc_mint.admit_Ok [OF sample_inv] by blast
  have raw: "length (legacy_bytes sample_tx) \<le> usize_max" by (simp add: sample_tx_shape)
  have "tm_amount ?mint = 250000" "co_origin_asset sample_proof_corridor = replicate 16 3"
    by (simp_all add: bitcoin_reported_def sample_proof_corridor_def sample_corridor_def)
  with bitcoin_mint_backed [OF sample_inv raw sample_deposit adm]
  have "supply_of g' (replicate 16 3) = supply_of sample_gateway (replicate 16 3) + 250000"
    "\<not> is_ok (snd (admit_bitcoin_trustless sample_proof_corridor ?d sample_claim g'))" by auto
  with sample_deposit adm show ?thesis by blast
qed

end
