(* ===== verification/Assets.thy ===== *)
theory Assets
  imports Codec
begin

text \<open>
  \<^verbatim>\<open>crates/q-assets/src\<close>: the origin networks with their pinned identifiers (\<^verbatim>\<open>network.rs\<close>), asset identities
  (\<^verbatim>\<open>asset.rs\<close>) and the table of the assets the bridge lists (\<^verbatim>\<open>registry.rs\<close>). A Rust string is the list of
  its bytes.
\<close>

section \<open>Networks\<close>

datatype origin_network =
    Net_Bitcoin | Net_BitcoinCash | Net_Ethereum | Net_BnbChain | Net_Polygon | Net_Avalanche |
    Net_Arbitrum | Net_Optimism | Net_Base | Net_Fantom | Net_Linea | Net_Scroll | Net_Mantle |
    Net_ZkSync | Net_VeChain | Net_Celo | Net_Cosmos | Net_Osmosis | Net_Celestia | Net_Injective |
    Net_Sei | Net_Kava | Net_Solana | Net_Tron | Net_Ripple | Net_Cardano | Net_Near | Net_Sui |
    Net_Aptos | Net_Hedera | Net_Algorand | Net_Ton | Net_Stellar | Net_RobinhoodChain |
    Net_Monero | Net_Litecoin | Net_Dogecoin | Net_Zcash | Net_Filecoin | Net_Cronos |
    Net_Hyperliquid | Net_Bittensor

fun network_id :: "origin_network \<Rightarrow> u32" where
  "network_id Net_Bitcoin = 43"
| "network_id Net_BitcoinCash = 1"
| "network_id Net_Ethereum = 2"
| "network_id Net_BnbChain = 3"
| "network_id Net_Polygon = 4"
| "network_id Net_Avalanche = 5"
| "network_id Net_Arbitrum = 6"
| "network_id Net_Optimism = 7"
| "network_id Net_Base = 8"
| "network_id Net_Fantom = 9"
| "network_id Net_Linea = 10"
| "network_id Net_Scroll = 11"
| "network_id Net_Mantle = 12"
| "network_id Net_ZkSync = 13"
| "network_id Net_VeChain = 14"
| "network_id Net_Celo = 15"
| "network_id Net_Cosmos = 16"
| "network_id Net_Osmosis = 17"
| "network_id Net_Celestia = 18"
| "network_id Net_Injective = 19"
| "network_id Net_Sei = 20"
| "network_id Net_Kava = 21"
| "network_id Net_Solana = 22"
| "network_id Net_Tron = 23"
| "network_id Net_Ripple = 24"
| "network_id Net_Cardano = 25"
| "network_id Net_Near = 26"
| "network_id Net_Sui = 27"
| "network_id Net_Aptos = 28"
| "network_id Net_Hedera = 29"
| "network_id Net_Algorand = 30"
| "network_id Net_Ton = 31"
| "network_id Net_Stellar = 32"
| "network_id Net_RobinhoodChain = 33"
| "network_id Net_Monero = 34"
| "network_id Net_Litecoin = 35"
| "network_id Net_Dogecoin = 36"
| "network_id Net_Zcash = 37"
| "network_id Net_Filecoin = 39"
| "network_id Net_Cronos = 40"
| "network_id Net_Hyperliquid = 41"
| "network_id Net_Bittensor = 42"

definition NETWORK_ALL :: "origin_network list" where
  "NETWORK_ALL =
     [Net_Bitcoin, Net_BitcoinCash, Net_Ethereum, Net_BnbChain, Net_Polygon, Net_Avalanche,
      Net_Arbitrum, Net_Optimism, Net_Base, Net_Fantom, Net_Linea, Net_Scroll, Net_Mantle,
      Net_ZkSync, Net_VeChain, Net_Celo, Net_Cosmos, Net_Osmosis, Net_Celestia, Net_Injective,
      Net_Sei, Net_Kava, Net_Solana, Net_Tron, Net_Ripple, Net_Cardano, Net_Near, Net_Sui,
      Net_Aptos, Net_Hedera, Net_Algorand, Net_Ton, Net_Stellar, Net_RobinhoodChain, Net_Monero,
      Net_Litecoin, Net_Dogecoin, Net_Zcash, Net_Filecoin, Net_Cronos, Net_Hyperliquid,
      Net_Bittensor]"

definition network_from_id :: "u32 \<Rightarrow> origin_network option" where
  "network_from_id i = List.find (\<lambda>n. network_id n = i) NETWORK_ALL"

fun network_name :: "origin_network \<Rightarrow> string" where
  "network_name Net_Bitcoin = ''Bitcoin''"
| "network_name Net_BitcoinCash = ''Bitcoin Cash''"
| "network_name Net_Ethereum = ''Ethereum''"
| "network_name Net_BnbChain = ''BNB Chain''"
| "network_name Net_Polygon = ''Polygon''"
| "network_name Net_Avalanche = ''Avalanche''"
| "network_name Net_Arbitrum = ''Arbitrum''"
| "network_name Net_Optimism = ''Optimism''"
| "network_name Net_Base = ''Base''"
| "network_name Net_Fantom = ''Fantom''"
| "network_name Net_Linea = ''Linea''"
| "network_name Net_Scroll = ''Scroll''"
| "network_name Net_Mantle = ''Mantle''"
| "network_name Net_ZkSync = ''zkSync Era''"
| "network_name Net_VeChain = ''VeChain''"
| "network_name Net_Celo = ''Celo''"
| "network_name Net_Cosmos = ''Cosmos''"
| "network_name Net_Osmosis = ''Osmosis''"
| "network_name Net_Celestia = ''Celestia''"
| "network_name Net_Injective = ''Injective''"
| "network_name Net_Sei = ''Sei''"
| "network_name Net_Kava = ''Kava''"
| "network_name Net_Solana = ''Solana''"
| "network_name Net_Tron = ''Tron''"
| "network_name Net_Ripple = ''Ripple''"
| "network_name Net_Cardano = ''Cardano''"
| "network_name Net_Near = ''Near''"
| "network_name Net_Sui = ''Sui''"
| "network_name Net_Aptos = ''Aptos''"
| "network_name Net_Hedera = ''Hedera''"
| "network_name Net_Algorand = ''Algorand''"
| "network_name Net_Ton = ''Ton''"
| "network_name Net_Stellar = ''Stellar''"
| "network_name Net_RobinhoodChain = ''Robinhood Chain''"
| "network_name Net_Monero = ''Monero''"
| "network_name Net_Litecoin = ''Litecoin''"
| "network_name Net_Dogecoin = ''Dogecoin''"
| "network_name Net_Zcash = ''Zcash''"
| "network_name Net_Filecoin = ''Filecoin''"
| "network_name Net_Cronos = ''Cronos''"
| "network_name Net_Hyperliquid = ''Hyperliquid''"
| "network_name Net_Bittensor = ''Bittensor''"

section \<open>Assets\<close>

datatype asset_id = Native | Foreign origin_network bytes

fun asset_origin :: "asset_id \<Rightarrow> origin_network option" where
  "asset_origin Native = None"
| "asset_origin (Foreign network _) = Some network"

fun asset_is_foreign :: "asset_id \<Rightarrow> bool" where
  "asset_is_foreign Native = False"
| "asset_is_foreign (Foreign _ _) = True"

fun asset_identifier :: "asset_id \<Rightarrow> bytes option" where
  "asset_identifier Native = None"
| "asset_identifier (Foreign _ identifier) = Some identifier"

record asset_record =
  as_id :: asset_id
  as_decimals :: u8

definition foreign :: "origin_network \<Rightarrow> string \<Rightarrow> u8 \<Rightarrow> asset_record" where
  "foreign network identifier decimals =
     \<lparr>as_id = Foreign network (ascii identifier), as_decimals = decimals\<rparr>"

definition ASSETS :: "asset_record list" where
  "ASSETS =
     [\<lparr>as_id = Native, as_decimals = 18\<rparr>,
      foreign Net_Bitcoin ''BTC'' 8,
      foreign Net_BitcoinCash ''BCH'' 8,
      foreign Net_Ethereum ''ETH'' 18,
      foreign Net_Ethereum ''USDC'' 6,
      foreign Net_Ethereum ''USDT'' 6,
      foreign Net_Ethereum ''DAI'' 18,
      foreign Net_Ethereum ''WBTC'' 8,
      foreign Net_Ethereum ''WETH'' 18,
      foreign Net_Ethereum ''LINK'' 18,
      foreign Net_Ethereum ''SHIB'' 18,
      foreign Net_Ethereum ''UNI'' 18,
      foreign Net_Ethereum ''AAVE'' 18,
      foreign Net_Ethereum ''PEPE'' 18,
      foreign Net_Ethereum ''ONDO'' 18,
      foreign Net_Ethereum ''ENA'' 18,
      foreign Net_Ethereum ''RENDER'' 18,
      foreign Net_Ethereum ''FET'' 18,
      foreign Net_Ethereum ''WLD'' 18,
      foreign Net_Ethereum ''PENDLE'' 18,
      foreign Net_Ethereum ''EIGEN'' 18,
      foreign Net_Ethereum ''ETHFI'' 18,
      foreign Net_Ethereum ''VIRTUAL'' 18,
      foreign Net_Ethereum ''wstETH'' 18,
      foreign Net_Ethereum ''weETH'' 18,
      foreign Net_Ethereum ''rETH'' 18,
      foreign Net_Ethereum ''USDe'' 18,
      foreign Net_Ethereum ''FDUSD'' 18,
      foreign Net_Ethereum ''TUSD'' 18,
      foreign Net_Ethereum ''PYUSD'' 6,
      foreign Net_Ethereum ''EURC'' 6,
      foreign Net_Ethereum ''PAXG'' 18,
      foreign Net_Ethereum ''XAUT'' 6,
      foreign Net_Ethereum ''PENGU'' 6,
      foreign Net_Ethereum ''MOG'' 18,
      foreign Net_BnbChain ''BNB'' 18,
      foreign Net_BnbChain ''USDC'' 18,
      foreign Net_BnbChain ''USDT'' 18,
      foreign Net_BnbChain ''WETH'' 18,
      foreign Net_BnbChain ''WBNB'' 18,
      foreign Net_BnbChain ''LINK'' 18,
      foreign Net_BnbChain ''FDUSD'' 18,
      foreign Net_BnbChain ''TUSD'' 18,
      foreign Net_Polygon ''POL'' 18,
      foreign Net_Polygon ''USDC'' 6,
      foreign Net_Polygon ''USDT'' 6,
      foreign Net_Polygon ''DAI'' 18,
      foreign Net_Polygon ''WBTC'' 8,
      foreign Net_Polygon ''WETH'' 18,
      foreign Net_Polygon ''WPOL'' 18,
      foreign Net_Polygon ''LINK'' 18,
      foreign Net_Polygon ''UNI'' 18,
      foreign Net_Polygon ''AAVE'' 18,
      foreign Net_Avalanche ''AVAX'' 18,
      foreign Net_Avalanche ''USDC'' 6,
      foreign Net_Avalanche ''USDT'' 6,
      foreign Net_Avalanche ''DAI'' 18,
      foreign Net_Avalanche ''WBTC'' 8,
      foreign Net_Avalanche ''WETH'' 18,
      foreign Net_Avalanche ''WAVAX'' 18,
      foreign Net_Arbitrum ''ARB'' 18,
      foreign Net_Arbitrum ''USDC'' 6,
      foreign Net_Arbitrum ''USDT'' 6,
      foreign Net_Arbitrum ''DAI'' 18,
      foreign Net_Arbitrum ''WBTC'' 8,
      foreign Net_Arbitrum ''WETH'' 18,
      foreign Net_Arbitrum ''ETH'' 18,
      foreign Net_Arbitrum ''LINK'' 18,
      foreign Net_Arbitrum ''UNI'' 18,
      foreign Net_Arbitrum ''AAVE'' 18,
      foreign Net_Arbitrum ''PEPE'' 18,
      foreign Net_Arbitrum ''PENDLE'' 18,
      foreign Net_Arbitrum ''wstETH'' 18,
      foreign Net_Arbitrum ''weETH'' 18,
      foreign Net_Arbitrum ''rETH'' 18,
      foreign Net_Optimism ''OP'' 18,
      foreign Net_Optimism ''USDC'' 6,
      foreign Net_Optimism ''DAI'' 18,
      foreign Net_Optimism ''WBTC'' 8,
      foreign Net_Optimism ''WETH'' 18,
      foreign Net_Optimism ''ETH'' 18,
      foreign Net_Optimism ''USDT'' 6,
      foreign Net_Optimism ''LINK'' 18,
      foreign Net_Optimism ''UNI'' 18,
      foreign Net_Optimism ''AAVE'' 18,
      foreign Net_Optimism ''WLD'' 18,
      foreign Net_Optimism ''wstETH'' 18,
      foreign Net_Optimism ''rETH'' 18,
      foreign Net_Fantom ''FTM'' 18,
      foreign Net_Fantom ''WFTM'' 18,
      foreign Net_Cosmos ''ATOM'' 6,
      foreign Net_Osmosis ''OSMO'' 6,
      foreign Net_Celestia ''TIA'' 6,
      foreign Net_Injective ''INJ'' 18,
      foreign Net_Solana ''SOL'' 9,
      foreign Net_Solana ''USDC'' 6,
      foreign Net_Solana ''USDT'' 6,
      foreign Net_Solana ''WSOL'' 9,
      foreign Net_Solana ''RENDER'' 8,
      foreign Net_Solana ''BONK'' 5,
      foreign Net_Solana ''WIF'' 6,
      foreign Net_Solana ''PYUSD'' 6,
      foreign Net_Solana ''EURC'' 6,
      foreign Net_Solana ''PENGU'' 6,
      foreign Net_Solana ''POPCAT'' 9,
      foreign Net_Solana ''AI16Z'' 9,
      foreign Net_Tron ''TRX'' 6,
      foreign Net_Tron ''USDT'' 6,
      foreign Net_Tron ''TUSD'' 18,
      foreign Net_Ripple ''XRP'' 6,
      foreign Net_Cardano ''ADA'' 6,
      foreign Net_Near ''NEAR'' 24,
      foreign Net_Near ''USDC'' 6,
      foreign Net_Near ''USDT'' 6,
      foreign Net_Sui ''SUI'' 9,
      foreign Net_Sui ''USDC'' 6,
      foreign Net_Aptos ''APT'' 8,
      foreign Net_Aptos ''USDC'' 6,
      foreign Net_Hedera ''HBAR'' 8,
      foreign Net_Algorand ''ALGO'' 6,
      foreign Net_Ton ''TON'' 9,
      foreign Net_Ton ''USDT'' 6,
      foreign Net_Stellar ''XLM'' 7,
      foreign Net_Monero ''XMR'' 12,
      foreign Net_Litecoin ''LTC'' 8,
      foreign Net_Dogecoin ''DOGE'' 8,
      foreign Net_Zcash ''ZEC'' 8,
      foreign Net_Sei ''SEI'' 18,
      foreign Net_Kava ''KAVA'' 18,
      foreign Net_Filecoin ''FIL'' 18,
      foreign Net_Celo ''CELO'' 18,
      foreign Net_Cronos ''CRO'' 18,
      foreign Net_RobinhoodChain ''RHC'' 18,
      foreign Net_RobinhoodChain ''ETH'' 18,
      foreign Net_RobinhoodChain ''USDC'' 6,
      foreign Net_RobinhoodChain ''RWA'' 18,
      foreign Net_Base ''ETH'' 18,
      foreign Net_Base ''USDC'' 6,
      foreign Net_Base ''LINK'' 18,
      foreign Net_Base ''AERO'' 18,
      foreign Net_Base ''VIRTUAL'' 18,
      foreign Net_Base ''wstETH'' 18,
      foreign Net_Base ''EURC'' 6,
      foreign Net_Base ''MOG'' 18,
      foreign Net_Base ''BRETT'' 18,
      foreign Net_Base ''AIXBT'' 18,
      foreign Net_Linea ''ETH'' 18,
      foreign Net_Scroll ''ETH'' 18,
      foreign Net_Mantle ''MNT'' 18,
      foreign Net_ZkSync ''ETH'' 18,
      foreign Net_VeChain ''VET'' 18,
      foreign Net_Hyperliquid ''HYPE'' 18,
      foreign Net_Bittensor ''TAO'' 9]"

definition asset_find :: "asset_id \<Rightarrow> asset_record option" where
  "asset_find i = List.find (\<lambda>a. as_id a = i) ASSETS"

definition assets_by_network :: "origin_network \<Rightarrow> asset_record list" where
  "assets_by_network network = filter (\<lambda>a. asset_origin (as_id a) = Some network) ASSETS"

definition asset_count :: usize where
  "asset_count = length ASSETS"

section \<open>Identifiers are pinned\<close>

lemma network_all: "n \<in> set NETWORK_ALL"
  by (cases n) (simp_all add: NETWORK_ALL_def)

lemma network_ids_distinct: "distinct (map network_id NETWORK_ALL)"
  by (simp add: NETWORK_ALL_def)

lemma network_id_inj: "network_id a = network_id b \<longleftrightarrow> a = b"
  using network_ids_distinct network_all [of a] network_all [of b] by (auto simp: distinct_map inj_on_def)

lemma network_from_id: "network_from_id i = Some n \<longleftrightarrow> network_id n = i"
proof
  show "network_from_id i = Some n \<Longrightarrow> network_id n = i"
    by (auto simp: network_from_id_def find_Some_iff)
  assume i: "network_id n = i"
  then have "network_from_id i \<noteq> None" using network_all [of n] by (auto simp: network_from_id_def find_None_iff)
  then obtain m where m: "network_from_id i = Some m" by blast
  then have "network_id m = i" by (auto simp: network_from_id_def find_Some_iff)
  with i m show "network_from_id i = Some n" by (simp flip: network_id_inj)
qed

end
