(* ===== verification/Pools.thy ===== *)
theory Pools
  imports Assets Federated Runs
begin

text \<open>
  \<^verbatim>\<open>crates/q-federated/src/pools.rs\<close>: the registry of asset pools. A pool is listed under an asset id that is
  derived from its network and its identifier; the registry keeps one table by asset id and one by
  (network, identifier), and installs its pools in the gateway. \<open>sha3\<close> is the hash function of the
  cryptography crate.

  The registry refines a single partial map from (network, identifier) to the pool: \<open>plr\<close> interprets the
  interface of refined components on it.
\<close>

section \<open>Constants and errors\<close>

definition POOL_ASSET_DOMAIN :: bytes where "POOL_ASSET_DOMAIN = ascii ''QUANTOVA/Q-ORACLE/POOL-ASSET/v1''"
definition MIN_IDENTIFIER_LEN :: usize where "MIN_IDENTIFIER_LEN = 1"
definition MAX_IDENTIFIER_LEN :: usize where "MAX_IDENTIFIER_LEN = 64"
definition MAX_DECIMALS :: u8 where "MAX_DECIMALS = 36"
definition MIN_CAP :: u128 where "MIN_CAP = 1"
definition MAX_CAP :: u128 where "MAX_CAP = drop_bit 1 (- 1)"
definition DEFAULT_CONFIRMATION_DEPTH :: u32 where "DEFAULT_CONFIRMATION_DEPTH = 32"
definition MAX_POOLS :: usize where "MAX_POOLS = 10000"

datatype pool_error =
    UnknownNetwork u32
  | MalformedIdentifier
  | DecimalsTooLarge u8 u8
  | ZeroCap
  | CapTooLarge u128 u128
  | EpochCapAboveAssetCap u128 u128
  | DuplicatePool
  | AssetIdMismatch
  | TierMismatch
  | RegistryFull usize

section \<open>Networks as corridors\<close>

definition derive_asset_id :: "(bytes \<Rightarrow> bytes) \<Rightarrow> origin_network \<Rightarrow> bytes \<Rightarrow> bytes" where
  "derive_asset_id sha3 network identifier =
     take 16 (sha3 (POOL_ASSET_DOMAIN @ to_le_bytes (network_id network) @
       to_le_bytes (word_of_nat (length identifier) :: u32) @ identifier))"

definition tier_for :: "origin_network \<Rightarrow> tier" where
  "tier_for network =
     (case network of
        Net_Bitcoin \<Rightarrow> ProofBacked | Net_Ethereum \<Rightarrow> ProofBacked | Net_Cosmos \<Rightarrow> ProofBacked
      | _ \<Rightarrow> Federated_Tier)"

definition native_asset :: "(bytes \<Rightarrow> bytes) \<Rightarrow> origin_network \<Rightarrow> bytes option" where
  "native_asset sha3 network =
     (case network of
        Net_Bitcoin \<Rightarrow> Some (derive_asset_id sha3 network (ascii ''BTC''))
      | Net_Ethereum \<Rightarrow> Some (derive_asset_id sha3 network (ascii ''ETH''))
      | Net_Cosmos \<Rightarrow> Some (derive_asset_id sha3 network (ascii ''ATOM''))
      | _ \<Rightarrow> None)"

definition grade_for :: "origin_network \<Rightarrow> trust_grade" where
  "grade_for network =
     (case tier_for network of ProofBacked \<Rightarrow> Trustless | Federated_Tier \<Rightarrow> TrustedRelayer)"

definition depth_for :: "origin_network \<Rightarrow> u32" where
  "depth_for network =
     (case network of
        Net_Bitcoin \<Rightarrow> 6 | Net_Ethereum \<Rightarrow> 64 | Net_Cosmos \<Rightarrow> 2
      | other \<Rightarrow> (case corridor_find (network_id other) of
          Some c \<Rightarrow> co_confirmation_depth c
        | None \<Rightarrow> DEFAULT_CONFIRMATION_DEPTH))"

definition corridor_for :: "(bytes \<Rightarrow> bytes) \<Rightarrow> origin_network \<Rightarrow> u128 \<Rightarrow> corridor" where
  "corridor_for sha3 network cap_base_units =
     \<lparr>co_chain_id = network_id network, co_name = network_name network, co_tier = tier_for network,
      co_grade = grade_for network, co_confirmation_depth = depth_for network,
      co_origin_asset = (case native_asset sha3 network of
         Some a \<Rightarrow> a | None \<Rightarrow> origin_tag (network_id network)),
      co_cap_base_units = cap_base_units, co_active = True\<rparr>"

definition is_alnum :: "u8 \<Rightarrow> bool" where
  "is_alnum b \<longleftrightarrow> (48 \<le> b \<and> b \<le> 57) \<or> (65 \<le> b \<and> b \<le> 90) \<or> (97 \<le> b \<and> b \<le> 122)"

definition is_separator :: "u8 \<Rightarrow> bool" where
  "is_separator b \<longleftrightarrow> b = 46 \<or> b = 95 \<or> b = 45 \<or> b = 58"

definition identifier_is_wellformed :: "bytes \<Rightarrow> bool" where
  "identifier_is_wellformed identifier =
     (let len = length identifier in
      if \<not> (MIN_IDENTIFIER_LEN \<le> len \<and> len \<le> MAX_IDENTIFIER_LEN) then False
      else if \<not> is_alnum (identifier ! 0) \<or> \<not> is_alnum (identifier ! (len - 1)) then False
      else list_all (\<lambda>b. is_alnum b \<or> is_separator b) identifier)"

section \<open>The registry\<close>

record pool_spec =
  ps_network :: origin_network
  ps_identifier :: bytes
  ps_decimals :: u8
  ps_asset_id :: bytes
  ps_per_asset_cap :: u128
  ps_per_epoch_cap :: u128
  ps_tier :: tier

definition pool_spec_derive ::
  "(bytes \<Rightarrow> bytes) \<Rightarrow> origin_network \<Rightarrow> bytes \<Rightarrow> u8 \<Rightarrow> u128 \<Rightarrow> u128 \<Rightarrow> pool_spec" where
  "pool_spec_derive sha3 network identifier decimals per_asset_cap per_epoch_cap =
     \<lparr>ps_network = network, ps_identifier = identifier, ps_decimals = decimals,
      ps_asset_id = derive_asset_id sha3 network identifier, ps_per_asset_cap = per_asset_cap,
      ps_per_epoch_cap = per_epoch_cap, ps_tier = tier_for network\<rparr>"

record pool_request =
  rq_network_id :: u32
  rq_identifier :: bytes
  rq_decimals :: u8
  rq_per_asset_cap :: u128
  rq_per_epoch_cap :: u128

record pool_registry =
  pr_by_asset :: "(bytes, pool_spec) btree_map"
  pr_by_key :: "(u32 \<times> bytes, bytes) btree_map"

definition pool_registry_new :: pool_registry where
  "pool_registry_new = \<lparr>pr_by_asset = [], pr_by_key = []\<rparr>"

definition pool_validate :: "(bytes \<Rightarrow> bytes) \<Rightarrow> pool_spec \<Rightarrow> pool_registry \<Rightarrow> (pool_error, unit) res" where
  "pool_validate sha3 spec reg =
     (if \<not> identifier_is_wellformed (ps_identifier spec) then Err MalformedIdentifier
      else if ps_decimals spec > MAX_DECIMALS then Err (DecimalsTooLarge (ps_decimals spec) MAX_DECIMALS)
      else if ps_per_asset_cap spec < MIN_CAP \<or> ps_per_epoch_cap spec < MIN_CAP then Err ZeroCap
      else if ps_per_asset_cap spec > MAX_CAP then Err (CapTooLarge (ps_per_asset_cap spec) MAX_CAP)
      else if ps_per_epoch_cap spec > MAX_CAP then Err (CapTooLarge (ps_per_epoch_cap spec) MAX_CAP)
      else if ps_per_epoch_cap spec > ps_per_asset_cap spec
      then Err (EpochCapAboveAssetCap (ps_per_epoch_cap spec) (ps_per_asset_cap spec))
      else if ps_asset_id spec \<noteq> derive_asset_id sha3 (ps_network spec) (ps_identifier spec)
      then Err AssetIdMismatch
      else if ps_tier spec \<noteq> tier_for (ps_network spec) then Err TierMismatch
      else if bt_contains (pr_by_asset reg) (ps_asset_id spec) \<or>
              bt_contains (pr_by_key reg) (network_id (ps_network spec), ps_identifier spec)
      then Err DuplicatePool
      else Ok ())"

definition pool_register ::
  "(bytes \<Rightarrow> bytes) \<Rightarrow> pool_spec \<Rightarrow> pool_registry \<Rightarrow> pool_registry \<times> (pool_error, unit) res" where
  "pool_register sha3 spec reg =
     (if length (pr_by_asset reg) \<ge> MAX_POOLS then (reg, Err (RegistryFull MAX_POOLS))
      else
      and_then_st (pool_validate sha3 spec reg) reg (\<lambda>_.
      (\<lparr>pr_by_asset = bt_insert (ps_asset_id spec) spec (pr_by_asset reg),
        pr_by_key = bt_insert (network_id (ps_network spec), ps_identifier spec) (ps_asset_id spec)
          (pr_by_key reg)\<rparr>, Ok ())))"

definition create_pool ::
  "(bytes \<Rightarrow> bytes) \<Rightarrow> pool_request \<Rightarrow> pool_registry \<Rightarrow> pool_registry \<times> (pool_error, pool_spec) res" where
  "create_pool sha3 request reg =
     and_then_st (ok_or (UnknownNetwork (rq_network_id request)) (network_from_id (rq_network_id request))) reg
     (\<lambda>network.
     let spec = pool_spec_derive sha3 network (rq_identifier request) (rq_decimals request)
                  (rq_per_asset_cap request) (rq_per_epoch_cap request)
     in case pool_register sha3 spec reg of
          (reg', r) \<Rightarrow> and_then_st r reg' (\<lambda>_. (reg', Ok spec)))"

text \<open>\<open>seeded\<close>: both calls of \<open>expect\<close> panic.\<close>

definition seed_pool ::
  "(bytes \<Rightarrow> bytes) \<Rightarrow> asset_record \<Rightarrow> pool_registry \<Rightarrow> (pool_error, pool_registry) res" where
  "seed_pool sha3 record reg =
     (case asset_origin (as_id record) of
        None \<Rightarrow> Ok reg
      | Some network \<Rightarrow>
          (case asset_identifier (as_id record) of
             None \<Rightarrow> Panic
           | Some identifier \<Rightarrow>
               (case pool_register sha3 (pool_spec_derive sha3 network identifier (as_decimals record)
                       PROVISIONAL_CAP_BASE_UNITS PROVISIONAL_CAP_BASE_UNITS) reg of
                  (reg', Ok _) \<Rightarrow> Ok reg'
                | _ \<Rightarrow> Panic)))"

definition pool_registry_seeded :: "(bytes \<Rightarrow> bytes) \<Rightarrow> (pool_error, pool_registry) res" where
  "pool_registry_seeded sha3 =
     fold (\<lambda>record acc. and_then acc (seed_pool sha3 record)) ASSETS (Ok pool_registry_new)"

definition pool_get :: "pool_registry \<Rightarrow> bytes \<Rightarrow> pool_spec option" where
  "pool_get reg asset_id = bt_get (pr_by_asset reg) asset_id"

definition get_by_identifier :: "pool_registry \<Rightarrow> origin_network \<Rightarrow> bytes \<Rightarrow> pool_spec option" where
  "get_by_identifier reg network identifier =
     Option.bind (bt_get (pr_by_key reg) (network_id network, identifier)) (bt_get (pr_by_asset reg))"

definition pools_by_network :: "pool_registry \<Rightarrow> origin_network \<Rightarrow> pool_spec list" where
  "pools_by_network reg network = filter (\<lambda>spec. ps_network spec = network) (map snd (pr_by_asset reg))"

section \<open>Installation in the gateway\<close>

definition install_pool :: "pool_spec \<Rightarrow> 'pk gateway \<Rightarrow> 'pk gateway" where
  "install_pool spec g =
     (let g1 = register_corridor (network_id (ps_network spec)) (depth_for (ps_network spec)) g;
          g2 = register_asset_cap (ps_asset_id spec) (ps_per_asset_cap spec) g1;
          g3 = register_asset_epoch_cap (ps_asset_id spec) (ps_per_epoch_cap spec) g2
      in if escrow_of g3 (ps_asset_id spec) = None then set_escrow (ps_asset_id spec) 0 g3 else g3)"

definition install_all :: "pool_registry \<Rightarrow> 'pk gateway \<Rightarrow> 'pk gateway" where
  "install_all reg g = fold install_pool (map snd (pr_by_asset reg)) g"

section \<open>One partial map\<close>

definition key_of :: "pool_spec \<Rightarrow> u32 \<times> bytes" where
  "key_of spec = (network_id (ps_network spec), ps_identifier spec)"

definition spec_ok :: "(bytes \<Rightarrow> bytes) \<Rightarrow> pool_spec \<Rightarrow> bool" where
  "spec_ok sha3 spec \<longleftrightarrow> identifier_is_wellformed (ps_identifier spec) \<and> ps_decimals spec \<le> MAX_DECIMALS \<and>
     MIN_CAP \<le> ps_per_epoch_cap spec \<and> ps_per_epoch_cap spec \<le> ps_per_asset_cap spec \<and>
     ps_per_asset_cap spec \<le> MAX_CAP \<and>
     ps_asset_id spec = derive_asset_id sha3 (ps_network spec) (ps_identifier spec) \<and>
     ps_tier spec = tier_for (ps_network spec)"

lemma pool_validate_Ok:
  "pool_validate sha3 spec reg = Ok u \<longleftrightarrow> spec_ok sha3 spec \<and>
     bt_get (pr_by_asset reg) (ps_asset_id spec) = None \<and> bt_get (pr_by_key reg) (key_of spec) = None"
  unfolding pool_validate_def if_err_Ok
  by (auto simp: spec_ok_def key_of_def bt_contains_def not_less)

definition pr_inv :: "(bytes \<Rightarrow> bytes) \<Rightarrow> pool_registry \<Rightarrow> bool" where
  "pr_inv sha3 reg \<longleftrightarrow> bt_wf (pr_by_asset reg) \<and> bt_wf (pr_by_key reg) \<and> length (pr_by_asset reg) \<le> MAX_POOLS \<and>
     (\<forall>a spec. bt_get (pr_by_asset reg) a = Some spec \<longrightarrow>
        ps_asset_id spec = a \<and> spec_ok sha3 spec \<and> bt_get (pr_by_key reg) (key_of spec) = Some a) \<and>
     (\<forall>k a. bt_get (pr_by_key reg) k = Some a \<longrightarrow> (\<exists>spec. bt_get (pr_by_asset reg) a = Some spec \<and> key_of spec = k))"

definition pool_abs :: "pool_registry \<Rightarrow> (u32 \<times> bytes) \<rightharpoonup> pool_spec" where
  "pool_abs reg k = Option.bind (bt_get (pr_by_key reg) k) (bt_get (pr_by_asset reg))"

text \<open>The specification: a well-formed pool enters the map under its own key, if neither the key nor the
  asset id is taken.\<close>

definition pool_app ::
  "(bytes \<Rightarrow> bytes) \<Rightarrow> unit \<Rightarrow> pool_spec \<Rightarrow> ((u32 \<times> bytes) \<rightharpoonup> pool_spec) \<Rightarrow> ((u32 \<times> bytes) \<rightharpoonup> pool_spec) option" where
  "pool_app sha3 _ spec m =
     (if spec_ok sha3 spec \<and> m (key_of spec) = None \<and> (\<forall>s\<in>ran m. ps_asset_id s \<noteq> ps_asset_id spec)
      then Some (m(key_of spec \<mapsto> spec)) else None)"

datatype pool_call = Register_Pool pool_spec | Create_Pool pool_request

fun pl_call ::
  "(bytes \<Rightarrow> bytes) \<Rightarrow> pool_call \<Rightarrow> pool_registry \<Rightarrow> pool_registry \<times> (pool_error, pool_spec list) res" where
  "pl_call sha3 (Register_Pool spec) reg = apsnd (map_ok (\<lambda>_. [spec])) (pool_register sha3 spec reg)"
| "pl_call sha3 (Create_Pool request) reg = apsnd (map_ok (\<lambda>spec. [spec])) (create_pool sha3 request reg)"

lemma pool_register_Ok:
  "pool_register sha3 spec reg = (reg', Ok u) \<longleftrightarrow> length (pr_by_asset reg) < MAX_POOLS \<and> spec_ok sha3 spec \<and>
     bt_get (pr_by_asset reg) (ps_asset_id spec) = None \<and> bt_get (pr_by_key reg) (key_of spec) = None \<and>
     reg' = \<lparr>pr_by_asset = bt_insert (ps_asset_id spec) spec (pr_by_asset reg),
             pr_by_key = bt_insert (key_of spec) (ps_asset_id spec) (pr_by_key reg)\<rparr>"
  by (auto simp: pool_register_def and_then_st_Ok_iff pool_validate_Ok key_of_def)

lemma pool_register_err: "pool_register sha3 spec reg = (reg', Err e) \<Longrightarrow> reg' = reg"
  by (auto simp: pool_register_def and_then_st_case split: if_splits res.splits)

lemma create_pool_Ok:
  "create_pool sha3 rq reg = (reg', Ok spec) \<Longrightarrow> pool_register sha3 spec reg = (reg', Ok ())"
  unfolding create_pool_def Let_def case_prod_beta and_then_st_Ok_iff by (auto simp: prod_eq_iff)

lemma pl_call_Ok:
  "pl_call sha3 c reg = (reg', Ok new) \<Longrightarrow> \<exists>spec. new = [spec] \<and> pool_register sha3 spec reg = (reg', Ok ())"
  by (cases c) (auto simp: apsnd_map_ok_Ok dest: create_pool_Ok)

lemma pl_call_err: "pl_call sha3 c reg = (reg', Err e) \<Longrightarrow> reg' = reg"
  by (cases c) (auto simp: apsnd_map_ok_Err create_pool_def and_then_st_case Let_def
      dest: pool_register_err split: res.splits prod.splits)

lemma pool_register_inv:
  assumes "pr_inv sha3 reg" "pool_register sha3 spec reg = (reg', Ok ())"
  shows "pr_inv sha3 reg'"
proof -
  from assms(2) have new: "length (pr_by_asset reg) < MAX_POOLS" "spec_ok sha3 spec"
    "bt_get (pr_by_asset reg) (ps_asset_id spec) = None" "bt_get (pr_by_key reg) (key_of spec) = None"
    and reg': "reg' = \<lparr>pr_by_asset = bt_insert (ps_asset_id spec) spec (pr_by_asset reg),
      pr_by_key = bt_insert (key_of spec) (ps_asset_id spec) (pr_by_key reg)\<rparr>"
    by (auto simp: pool_register_Ok)
  have "length (pr_by_asset reg') \<le> MAX_POOLS"
    using length_bt_insert_le [of "ps_asset_id spec" spec "pr_by_asset reg"] new(1) by (simp add: reg')
  moreover have "ps_asset_id s = a \<and> spec_ok sha3 s \<and> bt_get (pr_by_key reg') (key_of s) = Some a"
    if "bt_get (pr_by_asset reg') a = Some s" for a s
  proof (cases "a = ps_asset_id spec")
    case False
    with that have "bt_get (pr_by_asset reg) a = Some s" by (simp add: reg' bt_simps)
    with assms(1) have "ps_asset_id s = a \<and> spec_ok sha3 s \<and> bt_get (pr_by_key reg) (key_of s) = Some a"
      unfolding pr_inv_def by blast
    with new(4) show ?thesis by (auto simp: reg' bt_simps)
  qed (use that new(2) in \<open>auto simp: reg' bt_simps\<close>)
  moreover have "\<exists>s. bt_get (pr_by_asset reg') a = Some s \<and> key_of s = k"
    if "bt_get (pr_by_key reg') k = Some a" for k a
  proof (cases "k = key_of spec")
    case False
    with that have "bt_get (pr_by_key reg) k = Some a" by (simp add: reg' bt_simps)
    with assms(1) obtain s where "bt_get (pr_by_asset reg) a = Some s" "key_of s = k" unfolding pr_inv_def by blast
    with new(3) show ?thesis by (intro exI [of _ s]) (auto simp: reg' bt_simps)
  qed (use that in \<open>auto simp: reg' bt_simps\<close>)
  moreover have "bt_wf (pr_by_asset reg')" "bt_wf (pr_by_key reg')" using assms(1) by (simp_all add: reg' pr_inv_def)
  ultimately show ?thesis unfolding pr_inv_def by blast
qed

lemma pool_abs_ran:
  assumes "pr_inv sha3 reg"
  shows "ran (pool_abs reg) = {spec. \<exists>a. pool_get reg a = Some spec}"
proof (intro set_eqI iffI)
  fix spec assume "spec \<in> {spec. \<exists>a. pool_get reg a = Some spec}"
  with assms have "pool_abs reg (key_of spec) = Some spec"
    by (auto simp: pr_inv_def pool_abs_def pool_get_def)
  then show "spec \<in> ran (pool_abs reg)" by (rule ranI)
qed (auto simp: ran_def pool_abs_def pool_get_def bind_eq_Some_conv)

lemma pool_register_refines:
  assumes "pr_inv sha3 reg" "pool_register sha3 spec reg = (reg', Ok ())"
  shows "pool_app sha3 () spec (pool_abs reg) = Some (pool_abs reg')"
proof -
  from assms(2) have new: "spec_ok sha3 spec"
    "bt_get (pr_by_asset reg) (ps_asset_id spec) = None" "bt_get (pr_by_key reg) (key_of spec) = None"
    and reg': "reg' = \<lparr>pr_by_asset = bt_insert (ps_asset_id spec) spec (pr_by_asset reg),
      pr_by_key = bt_insert (key_of spec) (ps_asset_id spec) (pr_by_key reg)\<rparr>"
    by (auto simp: pool_register_Ok)
  have fresh: "\<forall>s\<in>ran (pool_abs reg). ps_asset_id s \<noteq> ps_asset_id spec"
    using assms(1) new(2) unfolding pool_abs_ran [OF assms(1)] pool_get_def pr_inv_def by auto
  have "pool_abs reg' k = ((pool_abs reg)(key_of spec \<mapsto> spec)) k" for k
  proof (cases "bt_get (pr_by_key reg) k")
    case (Some a)
    with assms(1) obtain s where "bt_get (pr_by_asset reg) a = Some s" unfolding pr_inv_def by blast
    with Some new show ?thesis by (auto simp: pool_abs_def reg' bt_simps)
  qed (auto simp: pool_abs_def reg' bt_simps)
  with new fresh show ?thesis by (auto simp: pool_app_def pool_abs_def)
qed

interpretation plr: refined_calls "pl_call sha3" "pr_inv sha3" "pool_app sha3" pool_abs "\<lambda>_. ()"
  for sha3 :: "bytes \<Rightarrow> bytes"
proof unfold_locales
  show "pl_call sha3 c s = (s', Err e) \<Longrightarrow> s' = s" for c s s' e by (rule pl_call_err)
  show "pr_inv sha3 s \<Longrightarrow> pl_call sha3 c s = (s', Ok new) \<Longrightarrow> pr_inv sha3 s'" for c s s' new
    by (auto dest!: pl_call_Ok intro: pool_register_inv)
  show "pr_inv sha3 s \<Longrightarrow> pl_call sha3 c s = (s', Ok new) \<Longrightarrow>
      apply_all (pool_app sha3 ()) new (pool_abs s) = Some (pool_abs s')" for c s s' new
    by (auto dest!: pl_call_Ok simp: pool_register_refines)
qed simp

section \<open>Properties\<close>

lemma pool_history:
  assumes "apply_all (pool_app sha3 ()) evs Map.empty = Some m"
  shows "distinct (map key_of evs) \<and> distinct (map ps_asset_id evs) \<and> ran m = set evs \<and>
    (\<forall>s\<in>set evs. spec_ok sha3 s \<and> m (key_of s) = Some s) \<and> (\<forall>k s. m k = Some s \<longrightarrow> key_of s = k)"
  using assms
proof (induction evs arbitrary: m rule: rev_induct)
  case Nil
  then show ?case by auto
next
  case (snoc s evs)
  from snoc.prems obtain m0 where m0: "apply_all (pool_app sha3 ()) evs Map.empty = Some m0"
    and step: "pool_app sha3 () s m0 = Some m"
    by (auto simp: apply_all_append split: option.splits)
  note IH = snoc.IH [OF m0]
  from step have s: "spec_ok sha3 s" "m0 (key_of s) = None" "\<forall>t\<in>ran m0. ps_asset_id t \<noteq> ps_asset_id s"
    and m: "m = m0(key_of s \<mapsto> s)" by (auto simp: pool_app_def split: if_splits)
  have "key_of t \<noteq> key_of s" if "t \<in> set evs" for t using IH s(2) that by auto
  moreover have "ps_asset_id t \<noteq> ps_asset_id s" if "t \<in> set evs" for t using IH s(3) that by auto
  moreover have "ran m = insert s (set evs)" using IH s(2) by (simp add: m)
  ultimately show ?case using IH s by (auto simp: m simp del: fun_upd_apply) (auto split: if_splits)
qed

lemma pool_new_inv: "pr_inv sha3 pool_registry_new"
  by (simp add: pr_inv_def pool_registry_new_def bt.get_empty)

lemma pool_new_abs: "pool_abs pool_registry_new = Map.empty"
  by (simp add: fun_eq_iff pool_abs_def pool_registry_new_def bt.get_empty)

text \<open>the pool registry lists each asset once and under one name: after any sequence of registrations and
  creation requests, successful or refused, the listed pools are exactly the accepted ones, each meets every rule of the
  validator (a well-formed identifier, caps within range and in order, the asset id derived from network and
  identifier, the tier of the network), no two share a (network, identifier) or an asset id, each reads back
  both by its asset id and by its identifier, and there are at most \<open>MAX_POOLS\<close>.\<close>

theorem pool_listing_exact:
  assumes "runs (pl_call sha3) pool_registry_new evs reg"
  shows "(\<forall>s. (\<exists>a. pool_get reg a = Some s) \<longleftrightarrow> s \<in> set evs) \<and>
    (\<forall>s\<in>set evs. spec_ok sha3 s \<and> pool_get reg (ps_asset_id s) = Some s \<and>
       get_by_identifier reg (ps_network s) (ps_identifier s) = Some s) \<and>
    distinct (map key_of evs) \<and> distinct (map ps_asset_id evs) \<and> length (pr_by_asset reg) \<le> MAX_POOLS"
proof -
  have inv: "pr_inv sha3 reg" using plr.ic.runs_inv [OF assms] pool_new_inv by blast
  have "apply_all (pool_app sha3 ()) evs Map.empty = Some (pool_abs reg)"
    using plr.runs_refines [OF assms pool_new_inv] by (simp add: pool_new_abs)
  note hist = pool_history [OF this]
  have both: "pool_get reg (ps_asset_id s) = Some s \<and> get_by_identifier reg (ps_network s) (ps_identifier s) = Some s"
    if "s \<in> set evs" for s
  proof -
    from hist that have m: "pool_abs reg (key_of s) = Some s" by blast
    then obtain a where "bt_get (pr_by_asset reg) a = Some s" by (auto simp: pool_abs_def bind_eq_Some_conv)
    with inv have "pool_get reg (ps_asset_id s) = Some s" by (auto simp: pr_inv_def pool_get_def)
    with m show ?thesis by (simp add: get_by_identifier_def pool_abs_def key_of_def)
  qed
  with hist inv pool_abs_ran [OF inv] show ?thesis by (auto simp: pr_inv_def)
qed

definition gho_pool :: pool_spec where
  "gho_pool = pool_spec_derive (\<lambda>_. replicate 32 1) Net_Polygon (ascii ''GHO'') 18 1000000 500000"

lemma gho_pool_ok: "spec_ok (\<lambda>_. replicate 32 1) gho_pool"
  by (simp add: spec_ok_def gho_pool_def pool_spec_derive_def identifier_is_wellformed_def ascii_def is_alnum_def
      MIN_IDENTIFIER_LEN_def MAX_IDENTIFIER_LEN_def MAX_DECIMALS_def MIN_CAP_def MAX_CAP_def mask_eq_exp_minus_1)

theorem pool_listing_exact_witness:
  "\<exists>reg. runs (pl_call (\<lambda>_. replicate 32 1)) pool_registry_new [gho_pool] reg \<and>
     get_by_identifier reg Net_Polygon (ascii ''GHO'') = Some gho_pool"
proof -
  let ?rq = "\<lparr>rq_network_id = 4, rq_identifier = ascii ''GHO'', rq_decimals = 18, rq_per_asset_cap = 1000000,
    rq_per_epoch_cap = 500000\<rparr>"
  let ?sha = "\<lambda>_ :: bytes. replicate 32 (1 :: u8)"
  obtain reg where "pool_register ?sha gho_pool pool_registry_new = (reg, Ok ())"
    using gho_pool_ok by (simp add: pool_register_Ok pool_registry_new_def bt.get_empty MAX_POOLS_def)
  moreover have "network_from_id 4 = Some Net_Polygon" by (simp add: network_from_id)
  ultimately have "pl_call ?sha (Create_Pool ?rq) pool_registry_new = (reg, Ok [gho_pool])"
    by (simp add: create_pool_def gho_pool_def Let_def)
  from runs_ok [where call = "pl_call ?sha", OF runs_start this] have run: "runs (pl_call ?sha) pool_registry_new [gho_pool] reg" by simp
  with pool_listing_exact [OF run] show ?thesis
    by (auto simp: gho_pool_def pool_spec_derive_def)
qed

end
