(* ===== verification/Exit_Store.thy ===== *)
theory Exit_Store
  imports Codec Gateway_Safety
begin

text \<open>
  The lowest layer of \<^verbatim>\<open>crates/q-exits/src\<close>: the errors (\<^verbatim>\<open>errors.rs\<close>), the keyed tag of the state files
  (\<^verbatim>\<open>state_mac.rs\<close>) and the file of records (\<^verbatim>\<open>store.rs\<close>).

  The file system is modelled by the contents of the one file and by what is going to go wrong: a store
  carries the list of the outcomes of its coming operations, so a statement about every list is a
  statement about every failure. An operation that fails may have written a part of its bytes, except
  for \<open>save\<close>, which writes another file and renames it.
\<close>

section \<open>Errors\<close>

datatype exit_error =
    UnsafeParams
  | ExitBadVersion u8
  | ExitZeroAmount
  | ExitZeroAsset
  | ZeroBeneficiary
  | ZeroBurnRef
  | ZeroCorridor
  | ReplayedExit
  | UnknownVault u32
  | ThinVault u128 u128
  | ExitUnknownExit
  | NotPending
  | WindowExpired u64 u64
  | WindowOpen u64 u64
  | PayoutMismatch
  | PayoutUnproven
  | ReplayedPayout
  | ExitWrongDestination u64 u64
  | UnservedAsset bytes
  | AmountAboveCeiling u128 u128
  | Overflow
  | InvalidArtifact codec_error
  | UnsetAnchor
  | BadPublicKeyLen
  | DegenerateKey u64
  | TauAboveCommittee
  | DuplicateMember u64
  | TauBelowQuorum u64 u64
  | HeaderDecode
  | HeaderMismatch
  | HeightMismatch
  | NotFinalized
  | BadInclusion
  | NotABurnLeaf
  | LeafDecode
  | BurnRefUnbound
  | PersistFailed
  | LedgerFull
  | ExitsDisabled

section \<open>Tags\<close>

definition state_tag :: "(bytes \<Rightarrow> bytes) \<Rightarrow> bytes option \<Rightarrow> bytes \<Rightarrow> bytes \<Rightarrow> bytes" where
  "state_tag sha3 state_key domain body =
     (let key = (case state_key of Some k \<Rightarrow> k | None \<Rightarrow> []) in
      sha3 (ascii ''QORACLE/STATE-TAG/v1'' @
            to_le_bytes (word_of_nat (length domain) :: u32) @ domain @
            to_le_bytes (word_of_nat (length key) :: u32) @ key @ body))"

section \<open>The file\<close>

text \<open>\<open>Fault_Before\<close>: nothing was written. \<open>Fault_After k\<close>: \<open>k\<close> bytes were written before the failure.\<close>

datatype io_fault = Fault_Before | Fault_After nat

record store =
  st_file :: "bytes option"
  st_fate :: "io_fault option list"

definition store_new :: "bytes option \<Rightarrow> io_fault option list \<Rightarrow> store" where
  "store_new file fate = \<lparr>st_file = file, st_fate = fate\<rparr>"

definition next_fault :: "store \<Rightarrow> io_fault option" where
  "next_fault s = (case st_fate s of [] \<Rightarrow> None | f # _ \<Rightarrow> f)"

definition advance_fate :: "store \<Rightarrow> store" where
  "advance_fate s = s\<lparr>st_fate := tl (st_fate s)\<rparr>"

definition store_load :: "store \<Rightarrow> store \<times> (unit, bytes option) res" where
  "store_load s =
     (advance_fate s, if next_fault s = None then Ok (st_file s) else Err ())"

definition store_save :: "bytes \<Rightarrow> store \<Rightarrow> store \<times> (unit, unit) res" where
  "store_save encoded s =
     (if next_fault s = None then ((advance_fate s)\<lparr>st_file := Some encoded\<rparr>, Ok ())
      else (advance_fate s, Err ()))"

definition store_append :: "bytes \<Rightarrow> store \<Rightarrow> store \<times> (unit, unit) res" where
  "store_append bs s =
     (let old = (case st_file s of Some b \<Rightarrow> b | None \<Rightarrow> []) in
      case next_fault s of
        None \<Rightarrow> ((advance_fate s)\<lparr>st_file := Some (old @ bs)\<rparr>, Ok ())
      | Some Fault_Before \<Rightarrow> (advance_fate s, Err ())
      | Some (Fault_After k) \<Rightarrow> ((advance_fate s)\<lparr>st_file := Some (old @ take k bs)\<rparr>, Err ()))"

definition store_write_header :: "bytes \<Rightarrow> store \<Rightarrow> store \<times> (unit, unit) res" where
  "store_write_header header s =
     (case st_file s of
        None \<Rightarrow> (advance_fate s, Err ())
      | Some old \<Rightarrow>
          if length old < length header then (advance_fate s, Err ())
          else case next_fault s of
            None \<Rightarrow> ((advance_fate s)\<lparr>st_file := Some (header @ drop (length header) old)\<rparr>, Ok ())
          | Some Fault_Before \<Rightarrow> (advance_fate s, Err ())
          | Some (Fault_After k) \<Rightarrow>
              ((advance_fate s)\<lparr>st_file := Some (take k header @ drop (length (take k header)) old)\<rparr>, Err ()))"

definition store_append_frame :: "bytes \<Rightarrow> nat \<Rightarrow> store \<Rightarrow> store \<times> (unit, unit) res" where
  "store_append_frame frame header_len s =
     (case st_file s of
        None \<Rightarrow> (advance_fate s, Err ())
      | Some old \<Rightarrow>
          let step = length frame in
          if length old < header_len \<or> step = 0 then (advance_fate s, Err ())
          else
          let whole = header_len + (length old - header_len) div step * step in
          case next_fault s of
            None \<Rightarrow> ((advance_fate s)\<lparr>st_file := Some (take whole old @ frame)\<rparr>, Ok ())
          | Some Fault_Before \<Rightarrow> (advance_fate s, Err ())
          | Some (Fault_After k) \<Rightarrow> ((advance_fate s)\<lparr>st_file := Some (take whole old @ take k frame)\<rparr>, Err ()))"

text \<open>The loop \<open>(0..3).any(|_| self.compact().is_ok())\<close>: whether one of three attempts to save succeeds.\<close>

fun save_attempts :: "nat \<Rightarrow> bytes \<Rightarrow> store \<Rightarrow> store \<times> bool" where
  "save_attempts 0 encoded s = (s, False)"
| "save_attempts (Suc n) encoded s =
     (case store_save encoded s of
        (s', Ok _) \<Rightarrow> (s', True)
      | (s', _) \<Rightarrow> save_attempts n encoded s')"

section \<open>What an operation leaves\<close>

lemma store_save_cases:
  "store_save enc s = (s', Ok u) \<Longrightarrow> st_file s' = Some enc"
  "store_save enc s = (s', Err e) \<Longrightarrow> st_file s' = st_file s"
  "store_save enc s \<noteq> (s', Panic)"
  by (auto simp: store_save_def advance_fate_def split: if_splits)

lemma save_attempts_cases:
  "save_attempts n enc s = (s', ok) \<Longrightarrow> (ok \<longrightarrow> st_file s' = Some enc) \<and> (\<not> ok \<longrightarrow> st_file s' = st_file s)"
proof (induction n arbitrary: s)
  case (Suc n)
  obtain s1 r where r: "store_save enc s = (s1, r)" by (cases "store_save enc s")
  show ?case
  proof (cases r)
    case (Ok u)
    with r store_save_cases(1) [of enc s s1 u] Suc.prems show ?thesis by simp
  next
    case (Err e)
    with r Suc.prems have "save_attempts n enc s1 = (s', ok)" by simp
    from Suc.IH [OF this] r Err store_save_cases(2) [of enc s s1 e] show ?thesis by simp
  next
    case Panic
    with r store_save_cases(3) show ?thesis by blast
  qed
qed simp

lemma append_frame_Ok:
  assumes "store_append_frame frame hl s = (s', Ok u)"
  shows "\<exists>old. st_file s = Some old \<and> hl \<le> length old \<and> frame \<noteq> [] \<and>
    st_file s' = Some (take (hl + (length old - hl) div length frame * length frame) old @ frame)"
  using assms by (auto simp: store_append_frame_def Let_def split: option.splits if_splits io_fault.splits)

lemma write_header_Ok:
  assumes "store_write_header header s = (s', Ok u)"
  shows "\<exists>old. st_file s = Some old \<and> length header \<le> length old \<and>
    st_file s' = Some (header @ drop (length header) old)"
  using assms by (auto simp: store_write_header_def split: option.splits if_splits io_fault.splits)

lemma store_not_panic:
  "snd (store_append_frame frame hl s) \<noteq> Panic" "snd (store_write_header header s) \<noteq> Panic"
  by (auto simp: store_append_frame_def store_write_header_def Let_def split: option.splits io_fault.splits)

end
