(* ===== verification/Exit_Journal.thy ===== *)
theory Exit_Journal
  imports Exit_Store
begin

text \<open>
  \<^verbatim>\<open>crates/q-exits/src/journal.rs\<close>: the journal of the exit desk. An event is a frame of fixed length that
  ends in a tag over the previous tag, the sequence number and the event; the file is a header with the
  number of events and the last tag, followed by the frames. \<open>mac\<close> is the keyed tag function.

  \<open>event_log\<close> is the contract the desk relies on, \<open>pjl\<close> interprets it on the persistent journal: an
  acknowledged event is in the file, and a refused one is not, whatever the file system does.
\<close>

section \<open>Events\<close>

record journaled_exit =
  je_version :: u8
  je_corridor :: u32
  je_asset_id :: bytes
  je_amount :: u128
  je_holder :: bytes
  je_destination :: bytes
  je_burn_ref :: bytes
  je_finalized_height :: u64
  je_vault_id :: u32
  je_locked :: u128
  je_issued_at :: u64
  je_deadline :: u64

datatype dead_reason =
  DeadUnproven | DeadMalformed | DeadWrongDestination | DeadUnservedAsset | DeadAboveCeiling
  | DeadUnknownVault | DeadRefused

fun dead_reason_of :: "exit_error \<Rightarrow> dead_reason" where
  "dead_reason_of HeaderDecode = DeadUnproven"
| "dead_reason_of HeaderMismatch = DeadUnproven"
| "dead_reason_of HeightMismatch = DeadUnproven"
| "dead_reason_of NotFinalized = DeadUnproven"
| "dead_reason_of BadInclusion = DeadUnproven"
| "dead_reason_of LeafDecode = DeadMalformed"
| "dead_reason_of NotABurnLeaf = DeadMalformed"
| "dead_reason_of (ExitBadVersion _) = DeadMalformed"
| "dead_reason_of ExitZeroAmount = DeadMalformed"
| "dead_reason_of ExitZeroAsset = DeadMalformed"
| "dead_reason_of ZeroBeneficiary = DeadMalformed"
| "dead_reason_of ZeroBurnRef = DeadMalformed"
| "dead_reason_of ZeroCorridor = DeadMalformed"
| "dead_reason_of (InvalidArtifact _) = DeadMalformed"
| "dead_reason_of (ExitWrongDestination _ _) = DeadWrongDestination"
| "dead_reason_of (UnservedAsset _) = DeadUnservedAsset"
| "dead_reason_of (AmountAboveCeiling _ _) = DeadAboveCeiling"
| "dead_reason_of (UnknownVault _) = DeadUnknownVault"
| "dead_reason_of _ = DeadRefused"

fun dead_reason_tag :: "dead_reason \<Rightarrow> u8" where
  "dead_reason_tag DeadUnproven = 1"
| "dead_reason_tag DeadMalformed = 2"
| "dead_reason_tag DeadWrongDestination = 3"
| "dead_reason_tag DeadUnservedAsset = 4"
| "dead_reason_tag DeadAboveCeiling = 5"
| "dead_reason_tag DeadUnknownVault = 6"
| "dead_reason_tag DeadRefused = 7"

definition dead_reason_from_tag :: "u8 \<Rightarrow> dead_reason option" where
  "dead_reason_from_tag tag =
     (if tag = 1 then Some DeadUnproven
      else if tag = 2 then Some DeadMalformed
      else if tag = 3 then Some DeadWrongDestination
      else if tag = 4 then Some DeadUnservedAsset
      else if tag = 5 then Some DeadAboveCeiling
      else if tag = 6 then Some DeadUnknownVault
      else if tag = 7 then Some DeadRefused
      else None)"

record dead_letter =
  dl_height :: u64
  dl_leaf_digest :: bytes
  dl_burn_ref :: bytes
  dl_reason :: dead_reason
  dl_recorded_at :: u64

datatype exit_event =
    Ev_Open u32 journaled_exit
  | Ev_Settle u32 bytes
  | Ev_Slash u32
  | Ev_Dead u32 dead_letter

section \<open>Frames\<close>

definition JOURNAL_VERSION :: u8 where "JOURNAL_VERSION = 3"
definition MAX_JOURNAL_ENTRIES :: nat where "MAX_JOURNAL_ENTRIES = 8000000"
definition JOURNAL_MAGIC :: bytes where "JOURNAL_MAGIC = ascii ''QXEJ''"
definition JOURNAL_HEADER_LEN :: nat where "JOURNAL_HEADER_LEN = 45"
definition BODY_LEN :: nat where "BODY_LEN = 177"
definition FRAME_META :: nat where "FRAME_META = 182"
definition JOURNAL_FRAME_LEN :: nat where "JOURNAL_FRAME_LEN = 214"
definition JOURNAL_DOMAIN :: bytes where "JOURNAL_DOMAIN = ascii ''exit-journal''"
definition GENESIS_DOMAIN :: bytes where "GENESIS_DOMAIN = ascii ''exit-journal-genesis''"
definition KIND_OPEN :: u8 where "KIND_OPEN = 1"
definition KIND_SETTLE :: u8 where "KIND_SETTLE = 2"
definition KIND_SLASH :: u8 where "KIND_SLASH = 3"
definition KIND_DEAD :: u8 where "KIND_DEAD = 4"

type_synonym mac = "bytes \<Rightarrow> bytes \<Rightarrow> bytes"

definition genesis_tag :: "mac \<Rightarrow> bytes" where
  "genesis_tag mac = mac GENESIS_DOMAIN (JOURNAL_MAGIC @ [JOURNAL_VERSION])"

definition chain_tag :: "mac \<Rightarrow> bytes \<Rightarrow> u64 \<Rightarrow> bytes \<Rightarrow> bytes" where
  "chain_tag mac prev seq meta = mac JOURNAL_DOMAIN (prev @ to_le_bytes seq @ meta)"

definition journal_header :: "u64 \<Rightarrow> bytes \<Rightarrow> bytes" where
  "journal_header events head = JOURNAL_MAGIC @ [JOURNAL_VERSION] @ to_le_bytes events @ head"

text \<open>A slice of a zeroed array: the rest stays zero.\<close>

definition zero_pad :: "nat \<Rightarrow> bytes \<Rightarrow> bytes" where
  "zero_pad n bs = bs @ replicate (n - length bs) 0"

definition open_body :: "journaled_exit \<Rightarrow> bytes" where
  "open_body x =
     [je_version x] @ to_le_bytes (je_corridor x) @ je_asset_id x @ to_le_bytes (je_amount x) @
     je_holder x @ je_destination x @ je_burn_ref x @ to_le_bytes (je_finalized_height x) @
     to_le_bytes (je_vault_id x) @ to_le_bytes (je_locked x) @ to_le_bytes (je_issued_at x) @
     to_le_bytes (je_deadline x)"

definition dead_body :: "dead_letter \<Rightarrow> bytes" where
  "dead_body d =
     to_le_bytes (dl_height d) @ dl_leaf_digest d @ dl_burn_ref d @ [dead_reason_tag (dl_reason d)] @
     to_le_bytes (dl_recorded_at d)"

fun body_of :: "exit_event \<Rightarrow> bytes" where
  "body_of (Ev_Open index x) = [KIND_OPEN] @ to_le_bytes index @ zero_pad BODY_LEN (open_body x)"
| "body_of (Ev_Settle index foreign_ref) = [KIND_SETTLE] @ to_le_bytes index @ zero_pad BODY_LEN foreign_ref"
| "body_of (Ev_Slash index) = [KIND_SLASH] @ to_le_bytes index @ zero_pad BODY_LEN []"
| "body_of (Ev_Dead index letter) = [KIND_DEAD] @ to_le_bytes index @ zero_pad BODY_LEN (dead_body letter)"

definition journal_frame_of :: "mac \<Rightarrow> exit_event \<Rightarrow> u64 \<Rightarrow> bytes \<Rightarrow> bytes" where
  "journal_frame_of mac event seq prev = body_of event @ chain_tag mac prev seq (body_of event)"

definition u32_at :: "bytes \<Rightarrow> nat \<Rightarrow> u32" where
  "u32_at b off = from_le_bytes (take 4 (drop off b))"

definition u64_at :: "bytes \<Rightarrow> nat \<Rightarrow> u64" where
  "u64_at b off = from_le_bytes (take 8 (drop off b))"

definition u128_at :: "bytes \<Rightarrow> nat \<Rightarrow> u128" where
  "u128_at b off = from_le_bytes (take 16 (drop off b))"

definition arr16 :: "bytes \<Rightarrow> nat \<Rightarrow> bytes" where
  "arr16 b off = take 16 (drop off b)"

definition arr32 :: "bytes \<Rightarrow> nat \<Rightarrow> bytes" where
  "arr32 b off = take 32 (drop off b)"

definition decode_open :: "bytes \<Rightarrow> journaled_exit" where
  "decode_open b =
     \<lparr>je_version = b ! 0, je_corridor = u32_at b 1, je_asset_id = arr16 b 5, je_amount = u128_at b 21,
      je_holder = arr32 b 37, je_destination = arr32 b 69, je_burn_ref = arr32 b 101,
      je_finalized_height = u64_at b 133, je_vault_id = u32_at b 141, je_locked = u128_at b 145,
      je_issued_at = u64_at b 161, je_deadline = u64_at b 169\<rparr>"

definition decode_frame :: "mac \<Rightarrow> bytes \<Rightarrow> u64 \<Rightarrow> bytes \<Rightarrow> (exit_error, exit_event) res" where
  "decode_frame mac frame seq prev =
     (if length frame \<noteq> JOURNAL_FRAME_LEN then Err PersistFailed
      else if drop FRAME_META frame \<noteq> chain_tag mac prev seq (take FRAME_META frame) then Err PersistFailed
      else
      let index = u32_at frame 1; b = take BODY_LEN (drop 5 frame) in
      if frame ! 0 = KIND_OPEN then Ok (Ev_Open index (decode_open b))
      else if frame ! 0 = KIND_SETTLE then Ok (Ev_Settle index (arr32 b 0))
      else if frame ! 0 = KIND_SLASH then Ok (Ev_Slash index)
      else if frame ! 0 = KIND_DEAD then
        and_then (ok_or PersistFailed (dead_reason_from_tag (b ! 72))) (\<lambda>reason.
        Ok (Ev_Dead index \<lparr>dl_height = u64_at b 0, dl_leaf_digest = arr32 b 8, dl_burn_ref = arr32 b 40,
              dl_reason = reason, dl_recorded_at = u64_at b 73\<rparr>))
      else Err PersistFailed)"

fun load_events :: "mac \<Rightarrow> nat \<Rightarrow> nat \<Rightarrow> bytes \<Rightarrow> bytes \<Rightarrow> (exit_error, exit_event list \<times> bytes) res" where
  "load_events mac 0 i prev body = Ok ([], prev)"
| "load_events mac (Suc n) i prev body =
     (let frame = take JOURNAL_FRAME_LEN body in
      and_then (decode_frame mac frame (word_of_nat i) prev) (\<lambda>event.
      and_then (load_events mac n (Suc i) (arr32 frame FRAME_META) (drop JOURNAL_FRAME_LEN body)) (\<lambda>(events, head).
      Ok (event # events, head))))"

definition load_journal :: "mac \<Rightarrow> bytes \<Rightarrow> (exit_error, exit_event list \<times> bool \<times> bytes) res" where
  "load_journal mac bs =
     (if length bs < JOURNAL_HEADER_LEN \<or> take 4 bs \<noteq> JOURNAL_MAGIC \<or> bs ! 4 \<noteq> JOURNAL_VERSION
      then Err PersistFailed
      else
      let entries = u64_at bs 5; head_expected = arr32 bs 13; body = drop JOURNAL_HEADER_LEN bs;
          whole = length body div JOURNAL_FRAME_LEN; remainder = length body mod JOURNAL_FRAME_LEN \<noteq> 0 in
      if whole > MAX_JOURNAL_ENTRIES then Err PersistFailed
      else if unat entries > whole then Err PersistFailed
      else
      and_then (load_events mac (unat entries) 0 (genesis_tag mac) body) (\<lambda>(events, prev).
      if prev \<noteq> head_expected then Err PersistFailed
      else Ok (events, remainder \<or> whole > unat entries, prev)))"

section \<open>The journal\<close>

record persistent_journal =
  pj_events :: "exit_event list"
  pj_store :: store
  pj_poisoned :: bool
  pj_head :: bytes

fun chain_frames :: "mac \<Rightarrow> nat \<Rightarrow> bytes \<Rightarrow> exit_event list \<Rightarrow> bytes \<times> bytes" where
  "chain_frames mac i prev [] = ([], prev)"
| "chain_frames mac i prev (event # events) =
     (let frame = journal_frame_of mac event (word_of_nat i) prev;
          (frames, head) = chain_frames mac (Suc i) (arr32 frame FRAME_META) events
      in (frame @ frames, head))"

text \<open>The file that \<open>compact\<close> writes.\<close>

definition journal_image :: "mac \<Rightarrow> exit_event list \<Rightarrow> bytes" where
  "journal_image mac events =
     (let (frames, prev) = chain_frames mac 0 (genesis_tag mac) events
      in journal_header (word_of_nat (length events)) prev @ frames)"

definition journal_compact :: "mac \<Rightarrow> persistent_journal \<Rightarrow> persistent_journal \<times> (exit_error, unit) res" where
  "journal_compact mac j =
     (case store_save (journal_image mac (pj_events j)) (pj_store j) of
        (s, r) \<Rightarrow> (j\<lparr>pj_store := s\<rparr>, map_err (\<lambda>_. PersistFailed) r))"

definition journal_open :: "mac \<Rightarrow> store \<Rightarrow> (exit_error, persistent_journal) res" where
  "journal_open mac s =
     (case store_load s of
        (s1, loaded) \<Rightarrow>
          and_then (map_err (\<lambda>_. PersistFailed) loaded) (\<lambda>file.
          and_then
            (case file of
               Some bs \<Rightarrow> map_ok (\<lambda>x. (x, s1)) (load_journal mac bs)
             | None \<Rightarrow>
                 (let head = genesis_tag mac in
                  case store_save (journal_header 0 head) s1 of
                    (s2, r) \<Rightarrow> and_then (map_err (\<lambda>_. PersistFailed) r) (\<lambda>_. Ok (([], False, head), s2))))
            (\<lambda>((events, torn, head), s2).
          let j = \<lparr>pj_events = events, pj_store = s2, pj_poisoned = False, pj_head = head\<rparr> in
          if torn
          then (case journal_compact mac j of (j', r) \<Rightarrow> and_then r (\<lambda>_. Ok j'))
          else Ok j)))"

definition journal_append ::
  "mac \<Rightarrow> exit_event \<Rightarrow> persistent_journal \<Rightarrow> persistent_journal \<times> (exit_error, unit) res" where
  "journal_append mac event j =
     (if pj_poisoned j then (j, Err PersistFailed)
      else if length (pj_events j) \<ge> MAX_JOURNAL_ENTRIES then (j, Err LedgerFull)
      else
      let seq = word_of_nat (length (pj_events j));
          frame = journal_frame_of mac event seq (pj_head j);
          new_head = arr32 frame FRAME_META;
          (s1, appended) = store_append_frame frame JOURNAL_HEADER_LEN (pj_store j);
          (s2, done) = (if appended = Ok () then store_write_header (journal_header (seq + 1) new_head) s1
                        else (s1, appended))
      in if done = Ok ()
         then (j\<lparr>pj_events := pj_events j @ [event], pj_store := s2, pj_head := new_head\<rparr>, Ok ())
         else (case save_attempts 3 (journal_image mac (pj_events j)) s2 of
                 (s3, compacted) \<Rightarrow>
                   (j\<lparr>pj_store := s3, pj_poisoned := \<not> compacted\<rparr>, Err PersistFailed)))"

section \<open>A frame reads back\<close>

fun event_wf :: "exit_event \<Rightarrow> bool" where
  "event_wf (Ev_Open index x) \<longleftrightarrow> length (je_asset_id x) = 16 \<and> length (je_holder x) = 32 \<and>
     length (je_destination x) = 32 \<and> length (je_burn_ref x) = 32"
| "event_wf (Ev_Settle index foreign_ref) \<longleftrightarrow> length foreign_ref = 32"
| "event_wf (Ev_Slash index) \<longleftrightarrow> True"
| "event_wf (Ev_Dead index letter) \<longleftrightarrow> length (dl_leaf_digest letter) = 32 \<and> length (dl_burn_ref letter) = 32"

definition mac_ok :: "mac \<Rightarrow> bool" where
  "mac_ok mac \<longleftrightarrow> (\<forall>d b. length (mac d b) = 32)"

lemmas at_defs = u32_at_def u64_at_def u128_at_def arr16_def arr32_def

lemma length_open_body: "event_wf (Ev_Open i x) \<Longrightarrow> length (open_body x) = BODY_LEN"
  by (simp add: open_body_def BODY_LEN_def)

lemma length_dead_body: "event_wf (Ev_Dead i d) \<Longrightarrow> length (dead_body d) = 81"
  by (simp add: dead_body_def)

lemma length_zero_pad: "length bs \<le> n \<Longrightarrow> length (zero_pad n bs) = n"
  by (simp add: zero_pad_def)

lemma length_body_of: "event_wf e \<Longrightarrow> length (body_of e) = FRAME_META"
  by (cases e) (simp_all add: length_zero_pad length_open_body length_dead_body BODY_LEN_def FRAME_META_def)

lemma decode_open_body: "event_wf (Ev_Open i x) \<Longrightarrow> decode_open (zero_pad BODY_LEN (open_body x)) = x"
  by (simp add: zero_pad_def length_open_body)
    (simp add: decode_open_def open_body_def at_defs from_to_le_bytes)

lemma dead_reason_round_trip: "dead_reason_from_tag (dead_reason_tag r) = Some r"
  by (cases r) (simp_all add: dead_reason_from_tag_def)

lemma length_chain_tag: "mac_ok mac \<Longrightarrow> length (chain_tag mac prev seq meta) = 32"
  by (simp add: mac_ok_def chain_tag_def)

lemma length_frame_of: "mac_ok mac \<Longrightarrow> event_wf e \<Longrightarrow> length (journal_frame_of mac e seq prev) = JOURNAL_FRAME_LEN"
  by (simp add: journal_frame_of_def length_body_of length_chain_tag FRAME_META_def JOURNAL_FRAME_LEN_def)

lemma head_of_frame:
  "mac_ok mac \<Longrightarrow> event_wf e \<Longrightarrow> arr32 (journal_frame_of mac e seq prev) FRAME_META = chain_tag mac prev seq (body_of e)"
  by (simp add: journal_frame_of_def arr32_def length_body_of length_chain_tag)

lemma dead_letter_fields:
  assumes "event_wf (Ev_Dead i d)"
  shows "u64_at (zero_pad BODY_LEN (dead_body d)) 0 = dl_height d"
    "arr32 (zero_pad BODY_LEN (dead_body d)) 8 = dl_leaf_digest d"
    "arr32 (zero_pad BODY_LEN (dead_body d)) 40 = dl_burn_ref d"
    "zero_pad BODY_LEN (dead_body d) ! 72 = dead_reason_tag (dl_reason d)"
    "u64_at (zero_pad BODY_LEN (dead_body d)) 73 = dl_recorded_at d"
  using assms
  by (simp_all add: zero_pad_def dead_body_def at_defs from_to_le_bytes nth_append)

lemma decode_frame_of:
  assumes "mac_ok mac" "event_wf e"
  shows "decode_frame mac (journal_frame_of mac e seq prev) seq prev = Ok e"
proof -
  let ?f = "journal_frame_of mac e seq prev"
  have len: "length ?f = JOURNAL_FRAME_LEN" by (rule length_frame_of [OF assms])
  have "take FRAME_META ?f = body_of e" "drop FRAME_META ?f = chain_tag mac prev seq (body_of e)"
    using length_body_of [OF assms(2)] by (simp_all add: journal_frame_of_def)
  moreover have "take BODY_LEN (drop 5 ?f) = drop 5 (body_of e)"
    using length_body_of [OF assms(2)] by (simp add: journal_frame_of_def FRAME_META_def BODY_LEN_def)
  moreover have "?f ! 0 = body_of e ! 0" "u32_at ?f 1 = u32_at (body_of e) 1"
    using length_body_of [OF assms(2)]
    by (simp_all add: journal_frame_of_def nth_append FRAME_META_def u32_at_def)
  ultimately show ?thesis
    using assms(2) len decode_open_body dead_letter_fields dead_reason_round_trip
    by (cases e)
      (simp_all add: decode_frame_def Let_def KIND_OPEN_def KIND_SETTLE_def KIND_SLASH_def KIND_DEAD_def
        u32_at_def from_to_le_bytes, simp add: arr32_def zero_pad_def)
qed

section \<open>The file reads back\<close>

lemma length_chain_frames:
  assumes "mac_ok mac" "\<forall>e\<in>set events. event_wf e"
  shows "length (fst (chain_frames mac i prev events)) = length events * JOURNAL_FRAME_LEN"
  using assms(2)
  by (induction events arbitrary: i prev) (simp_all add: Let_def case_prod_beta length_frame_of [OF assms(1)])

lemma length_chain_head:
  assumes "mac_ok mac" "\<forall>e\<in>set events. event_wf e" "length prev = 32"
  shows "length (snd (chain_frames mac i prev events)) = 32"
  using assms(2,3)
  by (induction events arbitrary: i prev)
    (simp_all add: Let_def case_prod_beta head_of_frame [OF assms(1)] length_chain_tag [OF assms(1)])

lemma chain_frames_snoc:
  "chain_frames mac i prev (events @ [e]) =
     (let (frames, head) = chain_frames mac i prev events;
          frame = journal_frame_of mac e (word_of_nat (i + length events)) head
      in (frames @ frame, arr32 frame FRAME_META))"
  by (induction mac i prev events rule: chain_frames.induct) (simp_all add: Let_def case_prod_beta)

lemma load_chain_frames:
  assumes "mac_ok mac" "\<forall>e\<in>set events. event_wf e"
  shows "load_events mac (length events) i prev (fst (chain_frames mac i prev events) @ tail) =
    Ok (events, snd (chain_frames mac i prev events))"
  using assms(2)
proof (induction events arbitrary: i prev)
  case (Cons e events)
  have "length (journal_frame_of mac e (word_of_nat i) prev) = JOURNAL_FRAME_LEN"
    using Cons.prems by (simp add: length_frame_of [OF assms(1)])
  moreover have "decode_frame mac (journal_frame_of mac e (word_of_nat i) prev) (word_of_nat i) prev = Ok e"
    using Cons.prems by (simp add: decode_frame_of [OF assms(1)])
  ultimately show ?case using Cons by (simp add: Let_def case_prod_beta)
qed simp

definition journal_head :: "mac \<Rightarrow> exit_event list \<Rightarrow> bytes" where
  "journal_head mac events = snd (chain_frames mac 0 (genesis_tag mac) events)"

lemma length_journal_head:
  assumes "mac_ok mac" "\<forall>e\<in>set events. event_wf e"
  shows "length (journal_head mac events) = 32"
  unfolding journal_head_def using assms
  by (intro length_chain_head) (simp_all add: genesis_tag_def mac_ok_def)

lemma image_split:
  "journal_image mac events = journal_header (word_of_nat (length events)) (journal_head mac events) @
     fst (chain_frames mac 0 (genesis_tag mac) events)"
  by (simp add: journal_image_def journal_head_def case_prod_beta)

lemma length_header: "length head = 32 \<Longrightarrow> length (journal_header n head) = JOURNAL_HEADER_LEN"
  by (simp add: journal_header_def JOURNAL_MAGIC_def ascii_def JOURNAL_HEADER_LEN_def)

lemma journal_header_fields:
  assumes "length head = 32"
  shows "take 4 (journal_header n head @ bs) = JOURNAL_MAGIC" "(journal_header n head @ bs) ! 4 = JOURNAL_VERSION"
    "u64_at (journal_header n head @ bs) 5 = n" "arr32 (journal_header n head @ bs) 13 = head"
  using assms
  by (simp_all add: journal_header_def JOURNAL_MAGIC_def ascii_def nth_append at_defs from_to_le_bytes)

lemma length_image:
  assumes "mac_ok mac" "\<forall>e\<in>set events. event_wf e"
  shows "length (journal_image mac events) = JOURNAL_HEADER_LEN + length events * JOURNAL_FRAME_LEN"
  by (simp add: image_split length_header length_journal_head [OF assms] length_chain_frames [OF assms])

lemma unat_entries: "n \<le> MAX_JOURNAL_ENTRIES \<Longrightarrow> unat (word_of_nat n :: u64) = n"
  by (simp add: unat_of_nat MAX_JOURNAL_ENTRIES_def)

text \<open>A file with a tail after the counted frames loads as if the tail were not there.\<close>

lemma load_image:
  assumes "mac_ok mac" "\<forall>e\<in>set events. event_wf e"
    and "length events + length tail div JOURNAL_FRAME_LEN \<le> MAX_JOURNAL_ENTRIES"
  shows "load_journal mac (journal_image mac events @ tail) = Ok (events, tail \<noteq> [], journal_head mac events)"
proof -
  let ?h = "journal_header (word_of_nat (length events)) (journal_head mac events)"
  let ?frames = "fst (chain_frames mac 0 (genesis_tag mac) events)"
  note head = length_journal_head [OF assms(1,2)]
  have len: "length ?h = JOURNAL_HEADER_LEN" by (rule length_header [OF head])
  have body: "length (?frames @ tail) = length events * JOURNAL_FRAME_LEN + length tail"
    by (simp add: length_chain_frames [OF assms(1,2)])
  have pos: "0 < JOURNAL_FRAME_LEN" by (simp add: JOURNAL_FRAME_LEN_def)
  have whole: "(length events * JOURNAL_FRAME_LEN + length tail) div JOURNAL_FRAME_LEN =
      length events + length tail div JOURNAL_FRAME_LEN"
    "(length events * JOURNAL_FRAME_LEN + length tail) mod JOURNAL_FRAME_LEN = length tail mod JOURNAL_FRAME_LEN"
    using pos by simp_all
  have "length tail mod JOURNAL_FRAME_LEN \<noteq> 0 \<or> 0 < length tail div JOURNAL_FRAME_LEN \<longleftrightarrow> tail \<noteq> []"
    using pos by (cases "length tail < JOURNAL_FRAME_LEN") (auto simp: div_greater_zero_iff)
  moreover have "unat (word_of_nat (length events) :: u64) = length events"
    using assms(3) by (intro unat_entries) simp
  ultimately show ?thesis
    using load_chain_frames [OF assms(1,2), of 0 "genesis_tag mac" tail, folded journal_head_def] assms(3) len body whole
    by (simp add: load_journal_def image_split journal_header_fields [OF head] Let_def del: take_append)
qed

lemma image_snoc:
  assumes "mac_ok mac" "\<forall>e\<in>set events. event_wf e"
  shows "journal_image mac (events @ [e]) =
    journal_header (word_of_nat (length events) + 1) (journal_head mac (events @ [e])) @
    drop JOURNAL_HEADER_LEN (journal_image mac events) @
    journal_frame_of mac e (word_of_nat (length events)) (journal_head mac events)"
  by (simp add: image_split chain_frames_snoc Let_def case_prod_beta length_header length_journal_head [OF assms]
      journal_head_def [symmetric] of_nat_Suc add.commute)

lemma head_snoc:
  "journal_head mac (events @ [e]) =
     arr32 (journal_frame_of mac e (word_of_nat (length events)) (journal_head mac events)) FRAME_META"
  by (simp add: journal_head_def chain_frames_snoc Let_def case_prod_beta)

section \<open>The contract of a log\<close>

text \<open>The events of a list that a log acknowledges, and the log after them.\<close>

fun append_all :: "('e \<Rightarrow> 'j \<Rightarrow> 'j \<times> ('err, unit) res) \<Rightarrow> 'e list \<Rightarrow> 'j \<Rightarrow> 'j \<times> 'e list" where
  "append_all app [] j = (j, [])"
| "append_all app (e # es) j =
     (case app e j of
        (j', Ok _) \<Rightarrow> (let (j'', acked) = append_all app es j' in (j'', e # acked))
      | (j', _) \<Rightarrow> append_all app es j')"

locale event_log =
  fixes app :: "'e \<Rightarrow> 'j \<Rightarrow> 'j \<times> ('err, unit) res"
    and entries :: "'j \<Rightarrow> 'e list"
    and wf :: "'e \<Rightarrow> bool"
    and inv :: "'j \<Rightarrow> bool"
  assumes app_Ok: "inv j \<Longrightarrow> wf e \<Longrightarrow> app e j = (j', Ok u) \<Longrightarrow> inv j' \<and> entries j' = entries j @ [e]"
    and app_Err: "inv j \<Longrightarrow> wf e \<Longrightarrow> app e j = (j', Err x) \<Longrightarrow> inv j' \<and> entries j' = entries j"
    and app_total: "inv j \<Longrightarrow> wf e \<Longrightarrow> snd (app e j) \<noteq> Panic"
begin

lemma append_all_acked:
  assumes "inv j" "\<forall>e\<in>set es. wf e" "append_all app es j = (j', acked)"
  shows "inv j' \<and> entries j' = entries j @ acked"
  using assms
proof (induction es arbitrary: j acked)
  case (Cons e es)
  obtain j1 r where r: "app e j = (j1, r)" by (cases "app e j")
  show ?case
  proof (cases r)
    case (Ok u)
    with r Cons.prems app_Ok [of j e j1 u] have "inv j1 \<and> entries j1 = entries j @ [e]" by simp
    with Cons Ok r show ?thesis by (fastforce simp: Let_def split: prod.splits)
  next
    case (Err x)
    with r Cons.prems app_Err [of j e j1 x] have "inv j1 \<and> entries j1 = entries j" by simp
    with Cons.IH [of j1 acked] Cons.prems Err r show ?thesis by simp
  next
    case Panic
    with r app_total [of j e] Cons.prems show ?thesis by simp
  qed
qed simp

end

definition journal_inv :: "mac \<Rightarrow> persistent_journal \<Rightarrow> bool" where
  "journal_inv mac j \<longleftrightarrow> mac_ok mac \<and> (\<forall>e\<in>set (pj_events j). event_wf e) \<and>
     length (pj_events j) \<le> MAX_JOURNAL_ENTRIES \<and> pj_head j = journal_head mac (pj_events j) \<and>
     (\<not> pj_poisoned j \<longrightarrow> st_file (pj_store j) = Some (journal_image mac (pj_events j)))"

lemma appended_file:
  assumes "mac_ok mac" "\<forall>e\<in>set events. event_wf e" "event_wf e" "st_file s = Some (journal_image mac events)"
    and "store_append_frame (journal_frame_of mac e (word_of_nat (length events)) (journal_head mac events))
      JOURNAL_HEADER_LEN s = (s1, Ok u1)"
    and "store_write_header (journal_header (word_of_nat (length events) + 1) (journal_head mac (events @ [e]))) s1 = (s2, Ok u2)"
  shows "st_file s2 = Some (journal_image mac (events @ [e]))"
proof -
  let ?f = "journal_frame_of mac e (word_of_nat (length events)) (journal_head mac events)"
  let ?h = "journal_header (word_of_nat (length events) + 1) (journal_head mac (events @ [e]))"
  have f: "length ?f = JOURNAL_FRAME_LEN" using assms(1,3) by (rule length_frame_of)
  have len: "length (journal_image mac events) = JOURNAL_HEADER_LEN + length events * JOURNAL_FRAME_LEN"
    by (rule length_image [OF assms(1,2)])
  have h: "length ?h = JOURNAL_HEADER_LEN"
    using assms(1-3) by (intro length_header length_journal_head) auto
  have "JOURNAL_FRAME_LEN \<noteq> 0" by (simp add: JOURNAL_FRAME_LEN_def)
  then have "st_file s1 = Some (journal_image mac events @ ?f)"
    using append_frame_Ok [OF assms(5)] assms(4) len by (auto simp: f)
  then have "st_file s2 = Some (?h @ drop JOURNAL_HEADER_LEN (journal_image mac events @ ?f))"
    using write_header_Ok [OF assms(6)] by (simp add: h)
  then show ?thesis using len by (simp add: image_snoc [OF assms(1,2)])
qed

lemma journal_append_Ok:
  assumes "journal_inv mac j" "event_wf e" "journal_append mac e j = (j', Ok u)"
  shows "journal_inv mac j' \<and> pj_events j' = pj_events j @ [e] \<and> \<not> pj_poisoned j'"
proof -
  let ?n = "word_of_nat (length (pj_events j)) :: u64"
  have inv: "mac_ok mac" "\<forall>e\<in>set (pj_events j). event_wf e" "pj_head j = journal_head mac (pj_events j)"
    "\<not> pj_poisoned j \<longrightarrow> st_file (pj_store j) = Some (journal_image mac (pj_events j))"
    using assms(1) by (auto simp: journal_inv_def)
  from assms(3) obtain s1 s2 where ok: "\<not> pj_poisoned j" "length (pj_events j) < MAX_JOURNAL_ENTRIES"
    "store_append_frame (journal_frame_of mac e ?n (pj_head j)) JOURNAL_HEADER_LEN (pj_store j) = (s1, Ok ())"
    "store_write_header (journal_header (?n + 1) (arr32 (journal_frame_of mac e ?n (pj_head j)) FRAME_META)) s1 = (s2, Ok ())"
    "j' = j\<lparr>pj_events := pj_events j @ [e], pj_store := s2, pj_head := arr32 (journal_frame_of mac e ?n (pj_head j)) FRAME_META\<rparr>"
    by (auto simp: journal_append_def Let_def not_le split: if_splits prod.splits)
  then have "st_file s2 = Some (journal_image mac (pj_events j @ [e]))"
    using inv assms(2) by (intro appended_file [where s = "pj_store j"]) (auto simp: head_snoc)
  with ok inv assms(2) show ?thesis by (simp add: journal_inv_def head_snoc)
qed

lemma journal_append_Err:
  assumes "journal_inv mac j" "journal_append mac e j = (j', Err x)"
  shows "journal_inv mac j' \<and> pj_events j' = pj_events j"
  using assms save_attempts_cases [of 3 "journal_image mac (pj_events j)"]
  by (auto simp: journal_append_def journal_inv_def Let_def split: if_splits prod.splits)

lemma journal_append_not_Panic: "snd (journal_append mac e j) \<noteq> Panic"
  by (auto simp: journal_append_def Let_def split: prod.splits)

interpretation pjl: event_log "journal_append mac" pj_events event_wf "journal_inv mac" for mac :: mac
  by unfold_locales
    (use journal_append_Ok journal_append_Err journal_append_not_Panic in \<open>blast+\<close>)

section \<open>Properties\<close>

text \<open>A file this journal has written: none yet, or the frames of some events with a torn tail.\<close>

definition journal_file :: "mac \<Rightarrow> exit_event list \<Rightarrow> bytes option \<Rightarrow> bool" where
  "journal_file mac events file \<longleftrightarrow> mac_ok mac \<and> (\<forall>e\<in>set events. event_wf e) \<and>
     (file = None \<and> events = [] \<or>
      (\<exists>tail. file = Some (journal_image mac events @ tail) \<and>
         length events + length tail div JOURNAL_FRAME_LEN \<le> MAX_JOURNAL_ENTRIES))"

lemma image_Nil: "journal_image mac [] = journal_header 0 (genesis_tag mac)"
  by (simp add: journal_image_def)

lemma head_Nil: "journal_head mac [] = genesis_tag mac"
  by (simp add: journal_head_def)

lemma journal_open_inv:
  assumes "journal_file mac events (st_file s)" "journal_open mac s = Ok j"
  shows "journal_inv mac j \<and> pj_events j = events \<and> \<not> pj_poisoned j"
proof (cases "st_file s")
  case None
  with assms show ?thesis
    by (auto simp: journal_file_def journal_open_def store_load_def store_save_def advance_fate_def Let_def
        journal_inv_def head_Nil image_Nil split: if_splits)
next
  case (Some bs)
  with assms(1) obtain tail where tail: "bs = journal_image mac events @ tail"
    "length events + length tail div JOURNAL_FRAME_LEN \<le> MAX_JOURNAL_ENTRIES"
    and wf: "mac_ok mac" "\<forall>e\<in>set events. event_wf e"
    by (auto simp: journal_file_def)
  note load = load_image [OF wf tail(2)]
  have "length events \<le> MAX_JOURNAL_ENTRIES" using tail(2) by simp
  with assms(2) Some load wf show ?thesis
    by (auto simp: tail(1) journal_open_def store_load_def journal_compact_def store_save_def advance_fate_def
        Let_def journal_inv_def split: if_splits)
qed

lemma journal_open_succeeds:
  assumes "journal_file mac events disk"
  shows "\<exists>j. journal_open mac (store_new disk []) = Ok j"
proof (cases disk)
  case None
  then show ?thesis
    by (simp add: journal_open_def store_load_def store_save_def next_fault_def advance_fate_def store_new_def Let_def)
next
  case (Some bs)
  with assms obtain tail where tail: "bs = journal_image mac events @ tail"
    "length events + length tail div JOURNAL_FRAME_LEN \<le> MAX_JOURNAL_ENTRIES"
    and wf: "mac_ok mac" "\<forall>e\<in>set events. event_wf e"
    by (auto simp: journal_file_def)
  show ?thesis using load_image [OF wf tail(2)] Some
    by (simp add: tail(1) journal_open_def store_load_def journal_compact_def store_save_def next_fault_def
        advance_fate_def store_new_def Let_def)
qed

lemma mac_ok_state_tag: "\<forall>x. length (sha3 x) = 32 \<Longrightarrow> mac_ok (state_tag sha3 key)"
  by (simp add: mac_ok_def state_tag_def Let_def)

lemma torn_journal_file:
  assumes "mac_ok mac" "\<forall>e\<in>set events. event_wf e" "event_wf e" "length events < MAX_JOURNAL_ENTRIES"
  shows "journal_file mac events (Some (journal_image mac events @ take k (journal_frame_of mac e seq prev)))"
proof -
  let ?t = "take k (journal_frame_of mac e seq prev)"
  have "length ?t \<le> JOURNAL_FRAME_LEN" by (simp add: length_frame_of [OF assms(1,3)])
  then have "length ?t div JOURNAL_FRAME_LEN \<le> JOURNAL_FRAME_LEN div JOURNAL_FRAME_LEN" by (rule div_le_mono)
  then have "length events + length ?t div JOURNAL_FRAME_LEN \<le> MAX_JOURNAL_ENTRIES"
    using assms(4) by (simp add: JOURNAL_FRAME_LEN_def)
  with assms(1,2) show ?thesis unfolding journal_file_def by blast
qed

text \<open>With a working file system every event is taken.\<close>

lemma journal_append_quiet:
  assumes "journal_inv mac j" "\<not> pj_poisoned j" "st_fate (pj_store j) = []" "event_wf e"
    and "length (pj_events j) < MAX_JOURNAL_ENTRIES"
  shows "\<exists>j'. journal_append mac e j = (j', Ok ())"
proof -
  have inv: "mac_ok mac" "\<forall>e\<in>set (pj_events j). event_wf e" "pj_head j = journal_head mac (pj_events j)"
    "st_file (pj_store j) = Some (journal_image mac (pj_events j))"
    using assms(1,2) by (auto simp: journal_inv_def)
  let ?f = "journal_frame_of mac e (word_of_nat (length (pj_events j))) (pj_head j)"
  have f: "length ?f = JOURNAL_FRAME_LEN" using inv(1) assms(4) by (rule length_frame_of)
  have head: "length (arr32 ?f FRAME_META) = 32"
    by (simp add: head_of_frame [OF inv(1) assms(4)] length_chain_tag [OF inv(1)])
  have "JOURNAL_FRAME_LEN \<noteq> 0" by (simp add: JOURNAL_FRAME_LEN_def)
  with f have step: "?f \<noteq> []" by auto
  show ?thesis
    using assms inv step length_header [OF head]
    by (simp add: journal_append_def Let_def store_append_frame_def store_write_header_def next_fault_def
        advance_fate_def length_image [OF inv(1,2)] f split: prod.splits)
qed

text \<open>C40: the journal keeps what it acknowledges and nothing else, whatever the file system does: open a file this
  journal has written, torn or not, under any sequence of I/O failures, and append any events; then the journal holds
  the events of the file followed by exactly the acknowledged ones in order, and unless it has declared itself
  poisoned its file reopens to the same list; a poisoned journal refuses everything. A file that was cut
  anywhere in the frame of a further event reopens to the list without it.\<close>

theorem journal_durable:
  assumes "journal_file mac events disk" "\<forall>e\<in>set es. event_wf e"
    and "journal_open mac (store_new disk fate) = Ok j" "append_all (journal_append mac) es j = (j', acked)"
  shows "pj_events j' = events @ acked \<and>
    (\<not> pj_poisoned j' \<longrightarrow> (\<exists>j''. journal_open mac (store_new (st_file (pj_store j')) []) = Ok j'' \<and> pj_events j'' = events @ acked)) \<and>
    (pj_poisoned j' \<longrightarrow> (\<forall>e. journal_append mac e j' = (j', Err PersistFailed))) \<and>
    (event_wf e \<and> length events + length acked < MAX_JOURNAL_ENTRIES \<longrightarrow>
      (\<exists>j''. journal_open mac (store_new (Some (journal_image mac (events @ acked) @
          take k (journal_frame_of mac e (word_of_nat (length (events @ acked))) (pj_head j')))) []) = Ok j'' \<and>
        pj_events j'' = events @ acked))"
proof -
  have inv: "journal_inv mac j" "pj_events j = events"
    using journal_open_inv [OF _ assms(3)] assms(1) by (auto simp: store_new_def)
  from pjl.append_all_acked [OF inv(1) assms(2,4)] inv(2)
  have inv': "journal_inv mac j'" and ev: "pj_events j' = events @ acked" by auto
  have reopen: "\<exists>j''. journal_open mac (store_new f []) = Ok j'' \<and> pj_events j'' = events @ acked"
    if "journal_file mac (events @ acked) f" for f
    using journal_open_succeeds [OF that] journal_open_inv [of mac "events @ acked" "store_new f []"] that
    by (auto simp: store_new_def)
  have "journal_file mac (events @ acked) (st_file (pj_store j'))" if "\<not> pj_poisoned j'"
    using inv' that unfolding journal_file_def journal_inv_def ev by (auto intro: exI [of _ "[]"])
  moreover have "journal_file mac (events @ acked) (Some (journal_image mac (events @ acked) @
      take k (journal_frame_of mac e (word_of_nat (length (events @ acked))) (pj_head j'))))"
    if "event_wf e" "length events + length acked < MAX_JOURNAL_ENTRIES"
    using inv' that by (intro torn_journal_file) (auto simp: journal_inv_def ev)
  ultimately show ?thesis using ev reopen by (auto simp: journal_append_def)
qed

theorem journal_durable_witness:
  "\<exists>j j' j''. journal_open (state_tag (\<lambda>x. replicate 32 (word_of_nat (length x))) (Some (replicate 32 5)))
      (store_new None []) = Ok j \<and>
    append_all (journal_append (state_tag (\<lambda>x. replicate 32 (word_of_nat (length x))) (Some (replicate 32 5))))
      [Ev_Settle 0 (replicate 32 9)] j = (j', [Ev_Settle 0 (replicate 32 9)]) \<and>
    journal_open (state_tag (\<lambda>x. replicate 32 (word_of_nat (length x))) (Some (replicate 32 5)))
      (store_new (st_file (pj_store j')) []) = Ok j'' \<and> pj_events j'' = [Ev_Settle 0 (replicate 32 9)]"
proof -
  let ?mac = "state_tag (\<lambda>x. replicate 32 (word_of_nat (length x))) (Some (replicate 32 5))"
  let ?e = "Ev_Settle 0 (replicate 32 9)"
  have none: "journal_file ?mac [] None" by (simp add: journal_file_def mac_ok_state_tag)
  obtain j where j: "journal_open ?mac (store_new None []) = Ok j"
    using journal_open_succeeds [OF none] by blast
  have inv: "journal_inv ?mac j" "\<not> pj_poisoned j" "pj_events j = []"
    using journal_open_inv [of ?mac "[]" "store_new None []" j] none j by (auto simp: store_new_def)
  have "st_fate (pj_store j) = []"
    using j by (auto simp: journal_open_def store_load_def store_save_def next_fault_def advance_fate_def
        store_new_def Let_def)
  then obtain j' where j': "journal_append ?mac ?e j = (j', Ok ())"
    using journal_append_quiet [OF inv(1,2), of ?e] inv(3) by (auto simp: MAX_JOURNAL_ENTRIES_def)
  then have acked: "append_all (journal_append ?mac) [?e] j = (j', [?e])" by simp
  have "\<not> pj_poisoned j'" using journal_append_Ok [OF inv(1) _ j'] by simp
  with journal_durable [OF none _ j acked] j acked show ?thesis by auto
qed

end
