(* ===== verification/Exit_Ledger.thy ===== *)
theory Exit_Ledger
  imports Exit_Journal
begin

text \<open>
  \<^verbatim>\<open>crates/q-exits/src/ledger.rs\<close>: the references that have been consumed, in memory or in a file of tagged
  frames. The desk holds a \<open>Box<dyn ReplayLedger>\<close>: the trait object is the datatype of its two
  implementations, and \<open>replay_set\<close> is the contract of the trait, interpreted on it.
\<close>

section \<open>Frames\<close>

definition LEDGER_VERSION :: u8 where "LEDGER_VERSION = 2"
definition MAX_LEDGER_ENTRIES :: nat where "MAX_LEDGER_ENTRIES = 4000000"
definition LEDGER_MAGIC :: bytes where "LEDGER_MAGIC = ascii ''QXLG''"
definition LEDGER_HEADER_LEN :: nat where "LEDGER_HEADER_LEN = 5"
definition LEDGER_FRAME_LEN :: nat where "LEDGER_FRAME_LEN = 64"
definition LEGACY_VERSION :: u8 where "LEGACY_VERSION = 1"
definition LEGACY_FRAME_LEN :: nat where "LEGACY_FRAME_LEN = 36"

definition ledger_header :: bytes where
  "ledger_header = LEDGER_MAGIC @ [LEDGER_VERSION]"

definition ledger_tag_of :: "mac \<Rightarrow> bytes \<Rightarrow> bytes" where
  "ledger_tag_of mac burn_ref = mac (ascii ''replay-ledger'') burn_ref"

definition ledger_frame_of :: "mac \<Rightarrow> bytes \<Rightarrow> bytes" where
  "ledger_frame_of mac burn_ref = burn_ref @ ledger_tag_of mac burn_ref"

fun load_refs :: "mac \<Rightarrow> nat \<Rightarrow> nat \<Rightarrow> nat \<Rightarrow> bytes \<Rightarrow> bytes btree_set \<Rightarrow> (exit_error, bytes btree_set) res" where
  "load_refs mac frame_len tag_len 0 body refs = Ok refs"
| "load_refs mac frame_len tag_len (Suc n) body refs =
     (let chunk = take frame_len body; burn_ref = take 32 chunk in
      if drop 32 chunk \<noteq> take tag_len (ledger_tag_of mac burn_ref) then Err PersistFailed
      else load_refs mac frame_len tag_len n (drop frame_len body) (bs_insert burn_ref refs))"

definition load_ledger :: "mac \<Rightarrow> bytes \<Rightarrow> (exit_error, bytes btree_set \<times> bool) res" where
  "load_ledger mac bs =
     (if length bs < LEDGER_HEADER_LEN \<or> take 4 bs \<noteq> LEDGER_MAGIC then Err PersistFailed
      else
      and_then (if bs ! 4 = LEDGER_VERSION then Ok (LEDGER_FRAME_LEN, 32)
                else if bs ! 4 = LEGACY_VERSION then Ok (LEGACY_FRAME_LEN, 4)
                else Err PersistFailed) (\<lambda>(frame_len, tag_len).
      let body = drop LEDGER_HEADER_LEN bs; whole = length body div frame_len;
          torn = length body mod frame_len \<noteq> 0 \<or> bs ! 4 \<noteq> LEDGER_VERSION in
      if whole > MAX_LEDGER_ENTRIES then Err PersistFailed
      else map_ok (\<lambda>refs. (refs, torn)) (load_refs mac frame_len tag_len whole body [])))"

section \<open>The two ledgers\<close>

datatype replay_ledger =
    Memory_Ledger "bytes btree_set"
  | Persistent_Ledger "bytes btree_set" store

definition memory_ledger_new :: replay_ledger where
  "memory_ledger_new = Memory_Ledger []"

fun ledger_refs :: "replay_ledger \<Rightarrow> bytes btree_set" where
  "ledger_refs (Memory_Ledger released) = released"
| "ledger_refs (Persistent_Ledger released s) = released"

definition is_released :: "replay_ledger \<Rightarrow> bytes \<Rightarrow> bool" where
  "is_released l burn_ref = bs_contains (ledger_refs l) burn_ref"

definition ledger_image :: "mac \<Rightarrow> bytes btree_set \<Rightarrow> bytes" where
  "ledger_image mac released = ledger_header @ concat (map (ledger_frame_of mac) released)"

definition ledger_open :: "mac \<Rightarrow> store \<Rightarrow> (exit_error, replay_ledger) res" where
  "ledger_open mac s =
     (case store_load s of
        (s1, loaded) \<Rightarrow>
          and_then (map_err (\<lambda>_. PersistFailed) loaded) (\<lambda>contents.
          and_then
            (case contents of
               Some bs \<Rightarrow> map_ok (\<lambda>x. (x, s1)) (load_ledger mac bs)
             | None \<Rightarrow>
                 (case store_save ledger_header s1 of
                    (s2, r) \<Rightarrow> and_then (map_err (\<lambda>_. PersistFailed) r) (\<lambda>_. Ok (([], False), s2))))
            (\<lambda>((released, torn), s2).
          if torn
          then (case store_save (ledger_image mac released) s2 of
                  (s3, r) \<Rightarrow> and_then (map_err (\<lambda>_. PersistFailed) r) (\<lambda>_. Ok (Persistent_Ledger released s3)))
          else Ok (Persistent_Ledger released s2))))"

fun ledger_record :: "mac \<Rightarrow> bytes \<Rightarrow> replay_ledger \<Rightarrow> replay_ledger \<times> (exit_error, unit) res" where
  "ledger_record mac burn_ref (Memory_Ledger released) =
     (if bs_contains released burn_ref then (Memory_Ledger released, Ok ())
      else if length released \<ge> MAX_LEDGER_ENTRIES then (Memory_Ledger released, Err LedgerFull)
      else (Memory_Ledger (bs_insert burn_ref released), Ok ()))"
| "ledger_record mac burn_ref (Persistent_Ledger released s) =
     (if bs_contains released burn_ref then (Persistent_Ledger released s, Ok ())
      else if length released \<ge> MAX_LEDGER_ENTRIES then (Persistent_Ledger released s, Err LedgerFull)
      else case store_append_frame (ledger_frame_of mac burn_ref) LEDGER_HEADER_LEN s of
             (s', r) \<Rightarrow>
               if r = Ok () then (Persistent_Ledger (bs_insert burn_ref released) s', Ok ())
               else (Persistent_Ledger released s', Err PersistFailed))"

fun ledger_forget :: "mac \<Rightarrow> bytes \<Rightarrow> replay_ledger \<Rightarrow> replay_ledger" where
  "ledger_forget mac burn_ref (Memory_Ledger released) = Memory_Ledger (bs_remove burn_ref released)"
| "ledger_forget mac burn_ref (Persistent_Ledger released s) =
     (if bs_contains released burn_ref
      then (case save_attempts 3 (ledger_image mac (bs_remove burn_ref released)) s of
              (s', True) \<Rightarrow> Persistent_Ledger (bs_remove burn_ref released) s'
            | (s', False) \<Rightarrow> Persistent_Ledger (bs_insert burn_ref (bs_remove burn_ref released)) s')
      else Persistent_Ledger released s)"

section \<open>The contract\<close>

locale replay_set =
  fixes mem :: "'l \<Rightarrow> bytes \<Rightarrow> bool"
    and rec :: "bytes \<Rightarrow> 'l \<Rightarrow> 'l \<times> (exit_error, unit) res"
    and forget :: "bytes \<Rightarrow> 'l \<Rightarrow> 'l"
  assumes rec_Ok: "rec r l = (l', Ok u) \<Longrightarrow> mem l' x \<longleftrightarrow> x = r \<or> mem l x"
    and rec_Err: "rec r l = (l', Err e) \<Longrightarrow> mem l' x \<longleftrightarrow> mem l x"
    and rec_total: "snd (rec r l) \<noteq> Panic"
    and forget_others: "x \<noteq> r \<Longrightarrow> mem (forget r l) x \<longleftrightarrow> mem l x"
begin

text \<open>A reference that is recorded and then taken back disturbs no other.\<close>

lemma rec_forget: "rec r l = (l', Ok u) \<Longrightarrow> x \<noteq> r \<Longrightarrow> mem (forget r l') x \<longleftrightarrow> mem l x"
  by (simp add: forget_others rec_Ok)

lemma rec_keeps: "mem l x \<Longrightarrow> mem (fst (rec r l)) x"
  using rec_Ok rec_Err rec_total [of r l] by (cases "rec r l"; cases "snd (rec r l)") auto

end

interpretation rl: replay_set is_released "ledger_record mac" "ledger_forget mac" for mac :: mac
proof unfold_locales
  fix r x :: bytes and l l' :: replay_ledger and u :: unit and e :: exit_error
  show "ledger_record mac r l = (l', Ok u) \<Longrightarrow> is_released l' x \<longleftrightarrow> x = r \<or> is_released l x"
    by (cases l) (auto simp: is_released_def bs_contains_def split: if_splits prod.splits)
  show "ledger_record mac r l = (l', Err e) \<Longrightarrow> is_released l' x \<longleftrightarrow> is_released l x"
    by (cases l) (auto simp: is_released_def split: if_splits prod.splits)
  show "snd (ledger_record mac r l) \<noteq> Panic"
    by (cases l) (auto split: prod.splits)
  show "x \<noteq> r \<Longrightarrow> is_released (ledger_forget mac r l) x \<longleftrightarrow> is_released l x"
    by (cases l) (auto simp: is_released_def bs_simps split: prod.splits bool.splits)
qed

section \<open>The file of the ledger\<close>

text \<open>The frames in the file, and what is left of a frame that was not written whole.\<close>

definition ledger_disk :: "mac \<Rightarrow> bytes list \<Rightarrow> bytes \<Rightarrow> bytes option" where
  "ledger_disk mac order tail = Some (ledger_header @ concat (map (ledger_frame_of mac) order) @ tail)"

definition refs_wf_list :: "bytes list \<Rightarrow> bool" where
  "refs_wf_list refs \<longleftrightarrow> (\<forall>r\<in>set refs. length r = 32)"

fun ledger_inv :: "mac \<Rightarrow> replay_ledger \<Rightarrow> bool" where
  "ledger_inv mac (Memory_Ledger released) \<longleftrightarrow> bs_wf released \<and> refs_wf_list released"
| "ledger_inv mac (Persistent_Ledger released s) \<longleftrightarrow> mac_ok mac \<and> bs_wf released \<and>
     (\<exists>order tail. st_file s = ledger_disk mac order tail \<and> refs_wf_list order \<and>
        set released \<subseteq> set order \<and> length tail < LEDGER_FRAME_LEN)"

lemma length_ledger_frame: "mac_ok mac \<Longrightarrow> length r = 32 \<Longrightarrow> length (ledger_frame_of mac r) = LEDGER_FRAME_LEN"
  by (simp add: ledger_frame_of_def ledger_tag_of_def mac_ok_def LEDGER_FRAME_LEN_def)

lemma length_ledger_frames:
  "mac_ok mac \<Longrightarrow> refs_wf_list order \<Longrightarrow>
   length (concat (map (ledger_frame_of mac) order)) = length order * LEDGER_FRAME_LEN"
  by (induction order) (simp_all add: refs_wf_list_def length_ledger_frame)

lemma length_ledger_header: "length ledger_header = LEDGER_HEADER_LEN"
  by (simp add: ledger_header_def LEDGER_MAGIC_def ascii_def LEDGER_HEADER_LEN_def)

lemma load_refs_frames:
  assumes "mac_ok mac" "refs_wf_list order"
  shows "load_refs mac LEDGER_FRAME_LEN 32 (length order) (concat (map (ledger_frame_of mac) order) @ tail) refs =
    Ok (fold bs_insert order refs)"
  using assms(2)
proof (induction order arbitrary: refs)
  case (Cons r order)
  have r: "length r = 32" using Cons.prems by (simp add: refs_wf_list_def)
  have "length (ledger_tag_of mac r) = 32" using assms(1) by (simp add: mac_ok_def ledger_tag_of_def)
  with r Cons show ?case
    by (simp add: Let_def refs_wf_list_def length_ledger_frame [OF assms(1) r])
      (simp add: ledger_frame_of_def)
qed simp

lemma set_fold_insert: "set (fold bs_insert xs acc) = set xs \<union> set acc"
  using set_fold_bs_insert [of "\<lambda>x. x" xs acc] by simp

lemma load_ledger_disk:
  assumes "mac_ok mac" "refs_wf_list order" "length tail < LEDGER_FRAME_LEN" "length order \<le> MAX_LEDGER_ENTRIES"
  shows "load_ledger mac (ledger_header @ concat (map (ledger_frame_of mac) order) @ tail) =
    Ok (fold bs_insert order [], tail \<noteq> [])"
proof -
  let ?body = "concat (map (ledger_frame_of mac) order) @ tail"
  have len: "length ?body = length order * LEDGER_FRAME_LEN + length tail"
    by (simp add: length_ledger_frames [OF assms(1,2)])
  have "length ?body div LEDGER_FRAME_LEN = length order" "length ?body mod LEDGER_FRAME_LEN = length tail"
    using assms(3) unfolding len by simp_all
  moreover have "take 4 (ledger_header @ ?body) = LEDGER_MAGIC" "(ledger_header @ ?body) ! 4 = LEDGER_VERSION"
    by (simp_all add: ledger_header_def LEDGER_MAGIC_def ascii_def nth_append)
  moreover have "\<not> length (ledger_header @ ?body) < LEDGER_HEADER_LEN" by (simp add: length_ledger_header)
  ultimately show ?thesis
    using load_refs_frames [OF assms(1,2), of tail "[]"] assms(4)
    by (simp add: load_ledger_def length_ledger_header Let_def del: take_append length_append)
qed

lemma append_ledger_frame:
  assumes "mac_ok mac" "refs_wf_list order" "length r = 32" "length tail < LEDGER_FRAME_LEN"
    and "st_file s = ledger_disk mac order tail"
    and "store_append_frame (ledger_frame_of mac r) LEDGER_HEADER_LEN s = (s', res)"
  shows "res = Ok () \<and> st_file s' = ledger_disk mac (order @ [r]) [] \<or>
    res = Err () \<and> (\<exists>order' tail'. st_file s' = ledger_disk mac order' tail' \<and> refs_wf_list order' \<and>
      set order \<subseteq> set order' \<and> length tail' < LEDGER_FRAME_LEN)"
proof -
  let ?f = "ledger_frame_of mac r" and ?frames = "concat (map (ledger_frame_of mac) order)"
  have f: "length ?f = LEDGER_FRAME_LEN" by (rule length_ledger_frame [OF assms(1,3)])
  have pos: "?f \<noteq> []" using f by (auto simp: LEDGER_FRAME_LEN_def)
  have len: "length ?frames = length order * LEDGER_FRAME_LEN" by (rule length_ledger_frames [OF assms(1,2)])
  have "(length order * LEDGER_FRAME_LEN + length tail) div LEDGER_FRAME_LEN = length order"
    using assms(4) by simp
  moreover define old where "old = ledger_header @ ?frames @ tail"
  ultimately have whole: "take (LEDGER_HEADER_LEN + (length old - LEDGER_HEADER_LEN) div length ?f * length ?f) old =
      ledger_header @ ?frames" and old: "LEDGER_HEADER_LEN \<le> length old"
    by (simp_all add: f len length_ledger_header)
  have cut: "\<exists>order' tail'. ledger_header @ ?frames @ take k ?f =
      ledger_header @ concat (map (ledger_frame_of mac) order') @ tail' \<and> refs_wf_list order' \<and>
      set order \<subseteq> set order' \<and> length tail' < LEDGER_FRAME_LEN" for k
  proof (cases "k < LEDGER_FRAME_LEN")
    case True
    with assms(2) f show ?thesis by (intro exI [of _ order] exI [of _ "take k ?f"]) simp
  next
    case False
    with assms(2,3) f show ?thesis
      by (intro exI [of _ "order @ [r]"] exI [of _ "[]"])
        (auto simp: refs_wf_list_def LEDGER_FRAME_LEN_def)
  qed
  have disk: "st_file s = Some old" using assms(5) by (simp add: ledger_disk_def old_def)
  show ?thesis
  proof (cases "next_fault s")
    case None
    with assms(6) disk whole old pos show ?thesis
      by (auto simp: store_append_frame_def Let_def ledger_disk_def advance_fate_def)
  next
    case (Some fault)
    then have "res = Err ()" using assms(6) disk pos by (auto simp: store_append_frame_def Let_def split: io_fault.splits if_splits)
    moreover have "st_file s' = Some old \<or> (\<exists>k. st_file s' = Some (ledger_header @ ?frames @ take k ?f))"
      using assms(6) disk whole old pos Some
      by (cases fault) (auto simp: store_append_frame_def Let_def advance_fate_def)
    ultimately show ?thesis using cut assms(2,4) unfolding ledger_disk_def old_def by fastforce
  qed
qed

lemma ledger_record_inv:
  assumes "ledger_inv mac l" "length r = 32"
  shows "ledger_inv mac (fst (ledger_record mac r l))"
proof (cases l)
  case (Memory_Ledger released)
  with assms show ?thesis by (auto simp: refs_wf_list_def)
next
  case (Persistent_Ledger released s)
  with assms(1) obtain order tail where inv: "mac_ok mac" "bs_wf released" "st_file s = ledger_disk mac order tail"
    "refs_wf_list order" "set released \<subseteq> set order" "length tail < LEDGER_FRAME_LEN"
    by auto
  obtain s' res where app: "store_append_frame (ledger_frame_of mac r) LEDGER_HEADER_LEN s = (s', res)"
    by fastforce
  have "refs_wf_list (order @ [r])" "set (bs_insert r released) \<subseteq> set (order @ [r])" "0 < LEDGER_FRAME_LEN"
    using inv assms(2) by (auto simp: refs_wf_list_def LEDGER_FRAME_LEN_def)
  with append_ledger_frame [OF inv(1,4) assms(2) inv(6,3) app] inv app show ?thesis
    unfolding Persistent_Ledger by (auto simp del: set_bs_insert) fastforce+
qed

lemma ledger_image_disk: "Some (ledger_image mac refs) = ledger_disk mac refs []"
  by (simp add: ledger_image_def ledger_disk_def)

lemma ledger_forget_inv:
  assumes "ledger_inv mac l"
  shows "ledger_inv mac (ledger_forget mac r l)"
proof (cases l)
  case (Memory_Ledger released)
  with assms show ?thesis by (auto simp: refs_wf_list_def bs_remove_def bs_wf_remove [unfolded bs_remove_def])
next
  case (Persistent_Ledger released s)
  with assms obtain order tail where inv: "mac_ok mac" "bs_wf released" "st_file s = ledger_disk mac order tail"
    "refs_wf_list order" "set released \<subseteq> set order" "length tail < LEDGER_FRAME_LEN"
    by auto
  let ?rem = "bs_remove r released"
  obtain s' ok where sv: "save_attempts 3 (ledger_image mac ?rem) s = (s', ok)" by fastforce
  have rem: "bs_wf ?rem" "refs_wf_list ?rem" "set ?rem \<subseteq> set released" "0 < LEDGER_FRAME_LEN"
    using inv by (auto simp: bs_remove_def refs_wf_list_def LEDGER_FRAME_LEN_def bs_wf_remove [unfolded bs_remove_def])
  show ?thesis
  proof (cases "bs_contains released r")
    case True
    then have "set (bs_insert r ?rem) \<subseteq> set order" using inv(5) rem(3) by (auto simp: bs_contains_def)
    moreover have "\<exists>order tail. ledger_disk mac ?rem [] = ledger_disk mac order tail \<and> refs_wf_list order \<and>
        set ?rem \<subseteq> set order \<and> length tail < LEDGER_FRAME_LEN"
      using rem by (intro exI [of _ ?rem] exI [of _ "[]"]) simp
    ultimately show ?thesis
      using save_attempts_cases [OF sv] rem inv sv True
      unfolding Persistent_Ledger by (cases ok) (auto simp: ledger_image_disk simp del: set_bs_insert)
  qed (use assms Persistent_Ledger in simp)
qed

text \<open>A persistent ledger opened again from its file holds every reference it held.\<close>

lemma ledger_reopen:
  assumes "ledger_inv mac (Persistent_Ledger released s)" "st_file s = ledger_disk mac order tail"
    and "refs_wf_list order" "length tail < LEDGER_FRAME_LEN" "length order \<le> MAX_LEDGER_ENTRIES"
  shows "ledger_open mac (store_new (st_file s) []) = Ok (Persistent_Ledger (fold bs_insert order [])
    (store_new (if tail = [] then st_file s else Some (ledger_image mac (fold bs_insert order []))) []))"
proof -
  have "mac_ok mac" using assms(1) by simp
  from load_ledger_disk [OF this assms(3-5)] show ?thesis
    by (simp add: assms(2) ledger_open_def store_load_def store_save_def next_fault_def advance_fate_def
        store_new_def ledger_disk_def)
qed

end
