(* ===== verification/Exit_Vault.thy ===== *)
theory Exit_Vault
  imports Exit_Store
begin

text \<open>
  \<^verbatim>\<open>crates/q-exits/src/vault.rs\<close>: the collateral of the vaults, free and locked. The sums of the lemmas are
  sums of integers: locking and releasing move an amount between the two halves of one vault, seizing
  takes it out of the book.
\<close>

record vault =
  va_id :: u32
  va_free :: u128
  va_locked :: u128

type_synonym vault_book = "(u32, vault) btree_map"

definition checked_sub :: "'l::len word \<Rightarrow> 'l word \<Rightarrow> 'l word option" where
  "checked_sub a b = (if b \<le> a then Some (a - b) else None)"

definition vault_register :: "u32 \<Rightarrow> u128 \<Rightarrow> vault_book \<Rightarrow> vault_book" where
  "vault_register vault_id collateral m =
     (let entry = (case bt_get m vault_id of
         Some v \<Rightarrow> v | None \<Rightarrow> \<lparr>va_id = vault_id, va_free = 0, va_locked = 0\<rparr>)
      in bt_insert vault_id (entry\<lparr>va_free := sat_add (va_free entry) collateral\<rparr>) m)"

definition free_of :: "vault_book \<Rightarrow> u32 \<Rightarrow> u128" where
  "free_of m vault_id = (case bt_get m vault_id of Some v \<Rightarrow> va_free v | None \<Rightarrow> 0)"

definition locked_of :: "vault_book \<Rightarrow> u32 \<Rightarrow> u128" where
  "locked_of m vault_id = (case bt_get m vault_id of Some v \<Rightarrow> va_locked v | None \<Rightarrow> 0)"

definition vault_lock :: "u32 \<Rightarrow> u128 \<Rightarrow> vault_book \<Rightarrow> vault_book \<times> (exit_error, unit) res" where
  "vault_lock vault_id amount m =
     and_then_st (ok_or (UnknownVault vault_id) (bt_get m vault_id)) m (\<lambda>v.
     if va_free v < amount then (m, Err (ThinVault (va_free v) amount))
     else
     and_then_st (ok_or Overflow (checked_add (va_locked v) amount)) m (\<lambda>locked.
     (bt_insert vault_id (v\<lparr>va_free := va_free v - amount, va_locked := locked\<rparr>) m, Ok ())))"

text \<open>\<open>min_by\<close> keeps the earlier of two equal elements.\<close>

definition vault_before :: "vault \<Rightarrow> vault \<Rightarrow> bool" where
  "vault_before a b \<longleftrightarrow> va_free a < va_free b \<or> (va_free a = va_free b \<and> va_id a \<le> va_id b)"

fun min_vault :: "vault list \<Rightarrow> vault option" where
  "min_vault [] = None"
| "min_vault (v # vs) = Some (fold (\<lambda>b a. if vault_before a b then a else b) vs v)"

definition lock_any :: "u128 \<Rightarrow> vault_book \<Rightarrow> vault_book \<times> (exit_error, u32) res" where
  "lock_any amount m =
     (case min_vault (filter (\<lambda>v. amount \<le> va_free v) (map snd m)) of
        Some v \<Rightarrow>
          (case vault_lock (va_id v) amount m of (m', r) \<Rightarrow> and_then_st r m' (\<lambda>_. (m', Ok (va_id v))))
      | None \<Rightarrow> (m, Err (ThinVault (fold max (map (va_free \<circ> snd) m) 0) amount)))"

definition vault_release :: "u32 \<Rightarrow> u128 \<Rightarrow> vault_book \<Rightarrow> vault_book \<times> (exit_error, unit) res" where
  "vault_release vault_id amount m =
     and_then_st (ok_or (UnknownVault vault_id) (bt_get m vault_id)) m (\<lambda>v.
     and_then_st (ok_or Overflow (checked_sub (va_locked v) amount)) m (\<lambda>locked.
     and_then_st (ok_or Overflow (checked_add (va_free v) amount)) m (\<lambda>free.
     (bt_insert vault_id (v\<lparr>va_locked := locked, va_free := free\<rparr>) m, Ok ()))))"

definition vault_seize :: "u32 \<Rightarrow> u128 \<Rightarrow> vault_book \<Rightarrow> vault_book \<times> (exit_error, unit) res" where
  "vault_seize vault_id amount m =
     and_then_st (ok_or (UnknownVault vault_id) (bt_get m vault_id)) m (\<lambda>v.
     and_then_st (ok_or Overflow (checked_sub (va_locked v) amount)) m (\<lambda>locked.
     (bt_insert vault_id (v\<lparr>va_locked := locked\<rparr>) m, Ok ())))"

section \<open>The book as numbers\<close>

definition book_wf :: "vault_book \<Rightarrow> bool" where
  "book_wf m \<longleftrightarrow> bt_wf m \<and> (\<forall>i v. bt_get m i = Some v \<longrightarrow> va_id v = i)"

definition book_total :: "vault_book \<Rightarrow> nat" where
  "book_total m = sum_list (map (\<lambda>(_, v). unat (va_free v) + unat (va_locked v)) m)"

lemma sum_list_bt_update:
  fixes f :: "'k::linorder \<times> 'v \<Rightarrow> nat"
  assumes "bt_wf m" "bt_get m k = Some v"
  shows "f (k, v) + sum_list (map f (bt_insert k w m)) = f (k, w) + sum_list (map f m)"
proof -
  have "bt_insert k w m = bt_insert k w (bt_remove k m)"
    using assms(1) by (intro bt.ext) (auto simp: bt_simps)
  moreover have "bt_get (bt_remove k m) k = None" using assms(1) by (simp add: bt_simps)
  ultimately show ?thesis
    using sum_list_bt_insert_new [of "bt_remove k m" k f w] sum_list_bt_remove [OF assms(2), of f] by simp
qed

lemma unat_checked_sub: "checked_sub a b = Some c \<longleftrightarrow> unat a = unat b + unat c"
  for a b c :: "'l::len word"
proof
  assume "checked_sub a b = Some c"
  then show "unat a = unat b + unat c"
    by (auto simp: checked_sub_def word_le_nat_alt unat_sub split: if_splits)
next
  assume a: "unat a = unat b + unat c"
  then have "b \<le> a" by (simp add: word_le_nat_alt)
  with a show "checked_sub a b = Some c"
    by (simp add: checked_sub_def word_unat_eq_iff unat_sub)
qed

lemma bt_get_member: "bt_wf m \<Longrightarrow> (k, v) \<in> set m \<longleftrightarrow> bt_get m k = Some v"
  unfolding bt_get_def using bt_wf_distinct [of m] by auto

lemma member_le_total:
  assumes "bt_wf m" "bt_get m i = Some v"
  shows "unat (va_free v) + unat (va_locked v) \<le> book_total m"
  using member_le_sum_list [of "unat (va_free v) + unat (va_locked v)"
      "map (\<lambda>(_, v). unat (va_free v) + unat (va_locked v)) m"] assms bt_get_member [of m i v]
  by (force simp: book_total_def)

section \<open>What the operations do\<close>

lemma vault_lock_Ok:
  assumes "book_wf m" "vault_lock i a m = (m', Ok u)"
  shows "book_wf m' \<and> book_total m' = book_total m \<and> bt_contains m i \<and>
    (\<forall>j. bt_contains m' j = bt_contains m j \<and>
       unat (locked_of m' j) = unat (locked_of m j) + (if j = i then unat a else 0))"
proof -
  from assms(2) obtain v l where v: "bt_get m i = Some v" "\<not> va_free v < a" "checked_add (va_locked v) a = Some l"
    and m': "m' = bt_insert i (v\<lparr>va_free := va_free v - a, va_locked := l\<rparr>) m"
    by (auto simp: vault_lock_def and_then_st_Ok_iff ok_or_Ok_iff split: if_splits)
  have l: "unat l = unat (va_locked v) + unat a" using v(3) by (simp add: checked_add_Some_iff)
  have f: "unat (va_free v - a) + unat a = unat (va_free v)" using v(2) by (simp add: unat_sub word_le_nat_alt not_less)
  have wf: "bt_wf m" using assms(1) by (simp add: book_wf_def)
  show ?thesis
    using assms(1) v(1) l f sum_list_bt_update [OF wf v(1), of "\<lambda>(_, v). unat (va_free v) + unat (va_locked v)"
        "v\<lparr>va_free := va_free v - a, va_locked := l\<rparr>"]
    by (auto simp: m' book_wf_def book_total_def bt_simps locked_of_def)
qed

lemma vault_release_Ok:
  assumes "book_wf m" "vault_release i a m = (m', Ok u)"
  shows "book_wf m' \<and> book_total m' = book_total m \<and>
    (\<forall>j. bt_contains m' j = bt_contains m j \<and>
       unat (locked_of m j) = unat (locked_of m' j) + (if j = i then unat a else 0))"
proof -
  from assms(2) obtain v l f where v: "bt_get m i = Some v" "checked_sub (va_locked v) a = Some l"
      "checked_add (va_free v) a = Some f"
    and m': "m' = bt_insert i (v\<lparr>va_locked := l, va_free := f\<rparr>) m"
    by (auto simp: vault_release_def and_then_st_Ok_iff ok_or_Ok_iff)
  have l: "unat (va_locked v) = unat a + unat l" using v(2) by (simp add: unat_checked_sub)
  have f: "unat f = unat (va_free v) + unat a" using v(3) by (simp add: checked_add_Some_iff)
  have wf: "bt_wf m" using assms(1) by (simp add: book_wf_def)
  show ?thesis
    using assms(1) v(1) l f sum_list_bt_update [OF wf v(1), of "\<lambda>(_, v). unat (va_free v) + unat (va_locked v)"
        "v\<lparr>va_locked := l, va_free := f\<rparr>"]
    by (auto simp: m' book_wf_def book_total_def bt_simps locked_of_def)
qed

lemma vault_seize_Ok:
  assumes "book_wf m" "vault_seize i a m = (m', Ok u)"
  shows "book_wf m' \<and> book_total m = book_total m' + unat a \<and>
    (\<forall>j. bt_contains m' j = bt_contains m j \<and> free_of m' j = free_of m j \<and>
       unat (locked_of m j) = unat (locked_of m' j) + (if j = i then unat a else 0))"
proof -
  from assms(2) obtain v l where v: "bt_get m i = Some v" "checked_sub (va_locked v) a = Some l"
    and m': "m' = bt_insert i (v\<lparr>va_locked := l\<rparr>) m"
    by (auto simp: vault_seize_def and_then_st_Ok_iff ok_or_Ok_iff)
  have l: "unat (va_locked v) = unat a + unat l" using v(2) by (simp add: unat_checked_sub)
  have wf: "bt_wf m" using assms(1) by (simp add: book_wf_def)
  show ?thesis
    using assms(1) v(1) l sum_list_bt_update [OF wf v(1), of "\<lambda>(_, v). unat (va_free v) + unat (va_locked v)"
        "v\<lparr>va_locked := l\<rparr>"]
    by (auto simp: m' book_wf_def book_total_def bt_simps locked_of_def free_of_def)
qed

text \<open>Releasing and seizing what is locked succeed while the book fits in 128 bits.\<close>

lemma vault_release_succeeds:
  assumes "book_wf m" "book_total m < 2 ^ 128" "bt_contains m i" "unat a \<le> unat (locked_of m i)"
  shows "\<exists>m'. vault_release i a m = (m', Ok ())"
proof -
  from assms(3) obtain v where v: "bt_get m i = Some v" by (auto simp: bt_contains_def)
  have le: "unat a \<le> unat (va_locked v)" using assms(4) v by (simp add: locked_of_def)
  have "unat (va_free v) + unat (va_locked v) < 2 ^ 128"
    using member_le_total [OF _ v] assms(1,2) by (auto simp: book_wf_def)
  with le have fits: "unat (va_free v) + unat a < 2 ^ LENGTH(128)" by simp
  have "a \<le> va_locked v" using le by (simp add: word_le_nat_alt)
  with fits v show ?thesis by (simp add: vault_release_def checked_sub_def checked_add_def)
qed

lemma vault_seize_succeeds:
  assumes "bt_contains m i" "unat a \<le> unat (locked_of m i)"
  shows "\<exists>m'. vault_seize i a m = (m', Ok ())"
  using assms by (auto simp: vault_seize_def bt_contains_def locked_of_def checked_sub_def word_le_nat_alt)

lemma vault_errs:
  "vault_lock i a m = (m', Err e) \<Longrightarrow> m' = m"
  "vault_release i a m = (m', Err e) \<Longrightarrow> m' = m"
  "vault_seize i a m = (m', Err e) \<Longrightarrow> m' = m"
  by (auto simp: vault_lock_def vault_release_def vault_seize_def and_then_st_case split: res.splits if_splits)

section \<open>Choosing a vault\<close>

lemma vault_before_order: "vault_before a a" "vault_before a b \<or> vault_before b a"
  "vault_before a b \<Longrightarrow> vault_before b c \<Longrightarrow> vault_before a c"
  by (auto simp: vault_before_def)

lemma fold_min_vault:
  "fold (\<lambda>b a. if vault_before a b then a else b) vs v \<in> insert v (set vs) \<and>
   (\<forall>w\<in>insert v (set vs). vault_before (fold (\<lambda>b a. if vault_before a b then a else b) vs v) w)"
proof (induction vs arbitrary: v)
  case (Cons w vs)
  let ?u = "if vault_before v w then v else w"
  have "vault_before ?u v" "vault_before ?u w" using vault_before_order(1,2) by auto
  with Cons [of ?u] show ?case by (auto intro: vault_before_order(3))
qed (simp add: vault_before_order)

lemma min_vault_least: "min_vault vs = Some v \<Longrightarrow> v \<in> set vs \<and> (\<forall>w\<in>set vs. vault_before v w)"
  using fold_min_vault [of "tl vs" "hd vs"] by (cases vs) auto

lemma lock_any_Ok:
  assumes "book_wf m" "lock_any a m = (m', Ok i)"
  shows "vault_lock i a m = (m', Ok ())"
    and "bt_get m j = Some w \<Longrightarrow> a \<le> va_free w \<Longrightarrow> free_of m i \<le> va_free w"
proof -
  from assms(2) obtain v where v: "min_vault (filter (\<lambda>v. a \<le> va_free v) (map snd m)) = Some v"
    "vault_lock (va_id v) a m = (m', Ok ())" "i = va_id v"
    by (auto simp: lock_any_def and_then_st_Ok_iff split: option.splits prod.splits)
  note least = min_vault_least [OF v(1)]
  have wf: "bt_wf m" using assms(1) by (simp add: book_wf_def)
  from least obtain k where "bt_get m k = Some v" using wf by (auto simp: bt_get_member [symmetric])
  with assms(1) have vi: "bt_get m i = Some v" by (auto simp: book_wf_def v(3))
  show "vault_lock i a m = (m', Ok ())" using v by simp
  show "free_of m i \<le> va_free w" if w: "bt_get m j = Some w" "a \<le> va_free w"
  proof -
    have "(j, w) \<in> set m" using w(1) wf by (simp add: bt_get_member)
    then have "w \<in> snd ` set m" by force
    with least w(2) have "vault_before v w" by simp
    then show ?thesis using vi by (auto simp: vault_before_def free_of_def)
  qed
qed

lemma lock_any_Err: "lock_any a m = (m', Err e) \<Longrightarrow> m' = m"
  by (auto simp: lock_any_def and_then_st_case dest: vault_errs split: option.splits prod.splits res.splits)

lemma lock_any_not_Panic: "lock_any a m \<noteq> (m', Panic)"
  by (auto simp: lock_any_def vault_lock_def and_then_st_case split: option.splits prod.splits res.splits if_splits)

text \<open>Releasing undoes a lock.\<close>

lemma lock_release:
  assumes "book_wf m" "vault_lock i a m = (m', Ok u)"
  shows "vault_release i a m' = (m, Ok ())"
proof -
  from assms(2) obtain v l where v: "bt_get m i = Some v" "\<not> va_free v < a" "checked_add (va_locked v) a = Some l"
    and m': "m' = bt_insert i (v\<lparr>va_free := va_free v - a, va_locked := l\<rparr>) m"
    by (auto simp: vault_lock_def and_then_st_Ok_iff ok_or_Ok_iff split: if_splits)
  have l: "checked_sub l a = Some (va_locked v)" using v(3) by (simp add: checked_add_Some_iff unat_checked_sub)
  have f: "checked_add (va_free v - a) a = Some (va_free v)"
    using v(2) by (simp add: checked_add_Some_iff unat_sub word_le_nat_alt not_less)
  have wf: "bt_wf m" using assms(1) by (simp add: book_wf_def)
  have "bt_insert i v m' = m" unfolding m' using bt.put_put [OF wf] bt.put_same [OF wf v(1)] by simp
  then show ?thesis using l f by (simp add: vault_release_def m' bt_simps)
qed

end
