(* ===== verification/Eth_Rlp.thy ===== *)
theory Eth_Rlp
  imports Cursor Btc_Target Btc_Hash
begin

text \<open>
  \<^verbatim>\<open>crates/qlc-ethereum/src/rlp.rs\<close>: the recursive length prefix encoding of Ethereum. The decoder is the
  three loops of the source (an item, the body of a list, the items of a body); its termination rests on
  the fact that an item uses at least one byte. The last section shows that the decoder accepts exactly the
  encoding of each value whose lists nest at most \<open>MAX_DEPTH\<close> deep.
\<close>

section \<open>Values and errors\<close>

datatype rlp = RBytes bytes | RList "rlp list"

datatype rlp_error =
    RlpEmpty
  | RlpTruncated
  | LeadingZeroLength
  | RlpTrailing
  | OversizeLength
  | NestingTooDeep
  | NonCanonicalLength

definition MAX_DEPTH :: usize where "MAX_DEPTH = 32"

fun as_bytes :: "rlp \<Rightarrow> bytes option" where
  "as_bytes (RBytes b) = Some b"
| "as_bytes (RList items) = None"

fun as_list :: "rlp \<Rightarrow> rlp list option" where
  "as_list (RList items) = Some items"
| "as_list (RBytes b) = None"

section \<open>Encoding\<close>

text \<open>\<open>be.iter().position(|&b| b != 0)\<close>\<close>

primrec position_nonzero :: "bytes \<Rightarrow> usize option" where
  "position_nonzero [] = None"
| "position_nonzero (b # bs) = (if b \<noteq> 0 then Some 0 else map_option Suc (position_nonzero bs))"

definition encode_length :: "usize \<Rightarrow> u8 \<Rightarrow> bytes" where
  "encode_length len offset =
     (if len < 56 then [offset + word_of_nat len]
      else let be = to_be_bytes (word_of_nat len :: u64);
               start = (case position_nonzero be of Some i \<Rightarrow> i | None \<Rightarrow> length be - 1);
               len_bytes = drop start be
           in (offset + 55 + word_of_nat (length len_bytes)) # len_bytes)"

definition encode_bytes :: "bytes \<Rightarrow> bytes" where
  "encode_bytes bs =
     (if length bs = 1 \<and> bs ! 0 < 0x80 then [bs ! 0]
      else encode_length (length bs) 0x80 @ bs)"

definition encode_uint :: "u64 \<Rightarrow> ('e, bytes) res" where
  "encode_uint v =
     (if v = 0 then Ok (encode_bytes [])
      else case position_nonzero (to_be_bytes v) of
             None \<Rightarrow> Panic
           | Some start \<Rightarrow> Ok (encode_bytes (drop start (to_be_bytes v))))"

definition encode_list :: "bytes list \<Rightarrow> bytes" where
  "encode_list items = (let body = concat items in encode_length (length body) 0xc0 @ body)"

section \<open>Decoding\<close>

definition read_length :: "bytes \<Rightarrow> usize \<Rightarrow> (rlp_error, usize) res" where
  "read_length bs of_len =
     (if of_len = 0 \<or> of_len > 8 \<or> of_len > length bs then Err RlpTruncated
      else if bs ! 0 = 0 then Err LeadingZeroLength
      else Ok (unat (fold (\<lambda>b v. push_bit 8 v OR ucast b) (take of_len bs) (0 :: u64))))"

text \<open>The start and the end of the payload of a long form, whose length takes \<open>of_len\<close> bytes.\<close>

definition long_span :: "bytes \<Rightarrow> usize \<Rightarrow> (rlp_error, usize \<times> usize) res" where
  "long_span bs of_len =
     and_then (read_length (drop 1 bs) of_len) (\<lambda>len.
       if len < 56 then Err NonCanonicalLength
       else let start = 1 + of_len
            in if start + len > usize_max then Err OversizeLength
               else if start + len > length bs then Err RlpTruncated
               else Ok (start, start + len))"

definition decode_string :: "bytes \<Rightarrow> u8 \<Rightarrow> (rlp_error, rlp \<times> usize) res" where
  "decode_string bs prefix =
     (if prefix < 0x80 then Ok (RBytes [prefix], 1)
      else if prefix < 0xb8 then
        let len = unat (prefix - 0x80); end = 1 + len
        in if end > length bs then Err RlpTruncated
           else if len = 1 \<and> bs ! 1 < 0x80 then Err NonCanonicalLength
           else map_ok (\<lambda>s. (RBytes s, end)) (slice bs 1 end)
      else and_then (long_span bs (unat (prefix - 0xb7))) (\<lambda>(start, end).
             map_ok (\<lambda>s. (RBytes s, end)) (slice bs start end)))"

definition list_span :: "bytes \<Rightarrow> u8 \<Rightarrow> (rlp_error, usize \<times> usize) res" where
  "list_span bs prefix =
     (if prefix < 0xf8 then
        let len = unat (prefix - 0xc0); start = 1; end = start + len
        in if end > length bs then Err RlpTruncated else Ok (start, end)
      else long_span bs (unat (prefix - 0xf7)))"

definition list_body :: "bytes \<Rightarrow> (rlp_error, bytes \<times> usize) res" where
  "list_body bs =
     and_then (list_span bs (bs ! 0)) (\<lambda>(start, end). map_ok (\<lambda>s. (s, end)) (slice bs start end))"

text \<open>The bytes a list prefix announces are fewer than the bytes it stands in.\<close>

lemma slice_Ok: "slice bs a b = Ok s \<longleftrightarrow> a \<le> b \<and> b \<le> length bs \<and> s = take (b - a) (drop a bs)"
  by (auto simp: slice_def)

lemma list_span_bounds:
  "list_span bs p = Ok (start, end) \<Longrightarrow> 1 \<le> start \<and> start \<le> end \<and> end \<le> length bs"
  by (auto simp: list_span_def long_span_def Let_def res_iffs split: if_splits)

lemma list_body_bounds:
  assumes "list_body bs = Ok (s, end)"
  shows "length s < length bs" and "1 \<le> end" and "end \<le> length bs"
proof -
  obtain start where st: "list_span bs (bs ! 0) = Ok (start, end)" and s: "s = take (end - start) (drop start bs)"
    using assms by (auto simp: list_body_def res_iffs slice_Ok)
  from list_span_bounds [OF st] s show "length s < length bs" "1 \<le> end" "end \<le> length bs" by auto
qed

lemma decode_string_bounds:
  "decode_string bs p = Ok (x, used) \<Longrightarrow> bs \<noteq> [] \<Longrightarrow> 1 \<le> used \<and> used \<le> length bs"
  by (cases bs) (auto simp: decode_string_def long_span_def Let_def res_iffs slice_Ok split: if_splits)

function (domintros) decode_item :: "bytes \<Rightarrow> usize \<Rightarrow> (rlp_error, rlp \<times> usize) res"
  and decode_list_body :: "bytes \<Rightarrow> usize \<Rightarrow> (rlp_error, rlp list) res"
  and decode_items :: "bytes \<Rightarrow> usize \<Rightarrow> (rlp_error, rlp list) res"
where
  "decode_item bs depth =
     (if bs = [] then Err RlpEmpty
      else if bs ! 0 < 0xc0 then decode_string bs (bs ! 0)
      else case list_body bs of
             Err e \<Rightarrow> Err e
           | Panic \<Rightarrow> Panic
           | Ok (body, end) \<Rightarrow> map_ok (\<lambda>items. (RList items, end)) (decode_list_body body depth))"
| "decode_list_body bs depth =
     (if depth \<ge> MAX_DEPTH then Err NestingTooDeep else decode_items bs depth)"
| "decode_items bs depth =
     (if bs = [] then Ok []
      else case decode_item bs (depth + 1) of
             Err e \<Rightarrow> Err e
           | Panic \<Rightarrow> Panic
           | Ok (item, used) \<Rightarrow>
               (case slice bs used (length bs) of
                  Err e \<Rightarrow> Err e
                | Panic \<Rightarrow> Panic
                | Ok bs' \<Rightarrow> map_ok (\<lambda>items. item # items) (decode_items bs' depth)))"
  by pat_completeness auto

termination
proof -
  let ?len = "\<lambda>c. case c of Inl (bs, _) \<Rightarrow> length bs | Inr (Inl (bs, _)) \<Rightarrow> length bs | Inr (Inr (bs, _)) \<Rightarrow> length bs"
  let ?rank = "\<lambda>c. case c of Inl _ \<Rightarrow> 0 | Inr (Inl _) \<Rightarrow> 2 | Inr (Inr _) \<Rightarrow> 1"
  have used: "1 \<le> used"
    if dom: "decode_item_decode_list_body_decode_items_dom (Inl (bs, depth))" and "decode_item bs depth = Ok (x, used)"
    for bs depth x used
    using that(2) decode_string_bounds [of bs "bs ! 0" x used]
    by (auto simp: decode_item.psimps [OF dom] res_iffs dest: list_body_bounds(2) split: if_splits res.splits)
  show ?thesis
    by (relation "measures [?len, ?rank]") (auto simp: slice_Ok list_body_bounds(1) dest: used)
qed

declare decode_item.simps [simp del] decode_list_body.simps [simp del] decode_items.simps [simp del]

definition rlp_decode :: "bytes \<Rightarrow> (rlp_error, rlp) res" where
  "rlp_decode bs =
     and_then (decode_item bs 0) (\<lambda>(item, used).
       if used \<noteq> length bs then Err RlpTrailing else Ok item)"

section \<open>Big-endian lengths\<close>

text \<open>The shortest big-endian form of a positive number, as \<open>encode_length\<close> and \<open>encode_uint\<close> cut it.\<close>

definition be_short :: "nat \<Rightarrow> bytes" where
  "be_short n = dropWhile (\<lambda>b. b = 0) (to_be_bytes (word_of_nat n :: u64))"

lemma position_nonzero_None: "position_nonzero bs = None \<longleftrightarrow> (\<forall>b \<in> set bs. b = 0)"
  by (induction bs) auto

lemma position_nonzero_drop: "position_nonzero bs = Some i \<Longrightarrow> drop i bs = dropWhile (\<lambda>b. b = 0) bs"
  by (induction bs arbitrary: i) (auto split: if_splits)

lemma be_nat_dropWhile: "be_nat (dropWhile (\<lambda>b. b = 0) bs) = be_nat bs"
  by (induction bs) (auto simp: be_nat_Cons)

lemma le_bytes_pad: "le_bytes (length bs + k) (le_nat bs) = bs @ replicate k 0"
proof (induction bs)
  case Nil
  show ?case by (induction k) auto
next
  case (Cons b bs)
  have b: "unat b < 256" using unsigned_less [of b] by simp
  then have "(unat b + 256 * le_nat bs) div 256 = le_nat bs" by simp
  moreover have "(word_of_nat (unat b + 256 * le_nat bs) :: u8) = b"
    using b by (simp add: word_eq_iff_unsigned [where 'a = nat] unat_word_ariths)
  ultimately show ?case using Cons by simp
qed

lemma be_short_be_nat:
  assumes "length bs \<le> 8" and "bs \<noteq> []" and "bs ! 0 \<noteq> 0"
  shows "be_short (be_nat bs) = bs"
proof -
  have "(256::nat) ^ length bs \<le> 256 ^ 8" using assms(1) by (intro power_increasing) auto
  with be_nat_less [of bs] have "be_nat bs < 2 ^ 64" by simp
  then have "to_le_bytes (word_of_nat (be_nat bs) :: u64) = le_bytes 8 (le_nat (rev bs))"
    by (simp add: to_le_bytes_def unat_of_nat be_nat_def)
  also have "\<dots> = rev bs @ replicate (8 - length bs) 0"
    using le_bytes_pad [of "rev bs" "8 - length bs"] assms(1) by simp
  finally have "be_short (be_nat bs) = dropWhile (\<lambda>b. b = 0) (replicate (8 - length bs) 0 @ bs)"
    by (simp add: be_short_def to_be_bytes_def)
  also have "\<dots> = dropWhile (\<lambda>b. b = 0) bs" by (rule dropWhile_append2) simp
  also have "\<dots> = bs" using assms(2,3) by (cases bs) auto
  finally show ?thesis .
qed

lemma be_nat_be_short: "n < 2 ^ 64 \<Longrightarrow> be_nat (be_short n) = n"
  by (simp add: be_short_def be_nat_dropWhile)
     (simp add: be_nat_def to_be_bytes_def to_le_bytes_def le_nat_le_bytes unat_of_nat)

lemma be_short_shape:
  assumes "0 < n" and "n < 2 ^ 64"
  shows "be_short n \<noteq> []" and "be_short n ! 0 \<noteq> 0" and "length (be_short n) \<le> 8"
proof -
  show ne: "be_short n \<noteq> []" using be_nat_be_short [OF assms(2)] assms(1) by auto
  then have "hd (be_short n) \<noteq> 0"
    using hd_dropWhile [of "\<lambda>b. b = 0"] by (simp only: be_short_def) blast
  with ne show "be_short n ! 0 \<noteq> 0" by (simp only: hd_conv_nth not_False_eq_True)
  show "length (be_short n) \<le> 8"
    using length_dropWhile_le [of "\<lambda>b. b = 0" "to_be_bytes (word_of_nat n :: u64)"]
    by (simp add: be_short_def to_be_bytes_def)
qed

lemma position_be_short:
  assumes "0 < n" and "n < 2 ^ 64"
  shows "\<exists>i. position_nonzero (to_be_bytes (word_of_nat n :: u64)) = Some i \<and>
             drop i (to_be_bytes (word_of_nat n :: u64)) = be_short n"
proof (cases "position_nonzero (to_be_bytes (word_of_nat n :: u64))")
  case None
  then have "be_short n = []" by (simp add: be_short_def position_nonzero_None)
  with be_short_shape(1) [OF assms] show ?thesis by simp
next
  case (Some i)
  then show ?thesis by (simp add: be_short_def position_nonzero_drop)
qed

lemma encode_length_long:
  assumes "56 \<le> n" and "n < 2 ^ 64"
  shows "encode_length n off = (off + 55 + word_of_nat (length (be_short n))) # be_short n"
proof -
  obtain i where "position_nonzero (to_be_bytes (word_of_nat n :: u64)) = Some i"
    and "drop i (to_be_bytes (word_of_nat n :: u64)) = be_short n"
    using position_be_short [of n] assms by auto
  then show ?thesis using assms by (simp add: encode_length_def Let_def del: length_drop)
qed

text \<open>\<open>encode_uint\<close> never meets its \<open>unwrap\<close>.\<close>

lemma encode_uint_Ok: "encode_uint v = Ok (encode_bytes (dropWhile (\<lambda>b. b = 0) (to_be_bytes v)))"
proof (cases "v = 0")
  case True
  moreover have "to_be_bytes (0 :: u64) = replicate 8 0"
    using le_bytes_pad [of "[]" 8] by (simp add: to_be_bytes_def to_le_bytes_def)
  moreover have "dropWhile (\<lambda>b. b = 0) (replicate 8 (0 :: u8)) = []" by simp
  ultimately show ?thesis by (simp add: encode_uint_def)
next
  case False
  then have "0 < unat v" by (simp add: unat_gt_0)
  moreover have "unat v < 2 ^ 64" using unsigned_less [of v] by simp
  ultimately show ?thesis
    using position_be_short [of "unat v"] False by (auto simp: encode_uint_def be_short_def)
qed

lemma shift_in_byte:
  assumes "unat (v :: u64) < 2 ^ 56"
  shows "unat (push_bit 8 v OR ucast (b :: u8)) = unat v * 256 + unat b"
proof -
  have b: "unat b < 256" using unsigned_less [of b] by simp
  have sh: "unat (push_bit 8 v) = unat v * 256"
    using assms by (simp add: push_bit_eq_mult unat_word_ariths)
  have "push_bit 8 v AND ucast b = (0 :: u64)"
    by (rule bit_word_eqI) (auto simp: bit_simps dest: bit_imp_le_length)
  then have "push_bit 8 v OR ucast b = push_bit 8 v + (ucast b :: u64)"
    by (simp add: disjunctive_add_eq_or)
  moreover have "unat (ucast b :: u64) = unat b" using b by (simp add: unsigned_ucast_eq take_bit_nat_eq_self)
  ultimately show ?thesis using assms b sh by (simp add: unat_word_ariths)
qed

lemma fold_be_nat:
  assumes "unat v < 256 ^ k" and "k + length bs \<le> 8"
  shows "unat (fold (\<lambda>b v. push_bit 8 v OR ucast b) bs (v :: u64)) = unat v * 256 ^ length bs + be_nat bs"
  using assms
proof (induction bs arbitrary: v k)
  case Nil
  then show ?case by simp
next
  case (Cons b bs)
  have "(256::nat) ^ k \<le> 256 ^ 7" using Cons.prems(2) by (intro power_increasing) auto
  then have "unat v < 2 ^ 56" using Cons.prems(1) by simp
  then have st: "unat (push_bit 8 v OR ucast b) = unat v * 256 + unat b" by (rule shift_in_byte)
  have "unat b < 256" using unsigned_less [of b] by simp
  moreover have "Suc (unat v) * 256 \<le> 256 ^ k * 256" using Cons.prems(1) by (intro mult_right_mono) auto
  ultimately have "unat (push_bit 8 v OR ucast b) < 256 ^ Suc k" by (simp add: st)
  then show ?case using Cons.IH [of _ "Suc k"] Cons.prems(2) by (simp add: st be_nat_Cons algebra_simps)
qed

lemma read_length_Ok:
  "read_length bs k = Ok n \<longleftrightarrow>
     1 \<le> k \<and> k \<le> 8 \<and> k \<le> length bs \<and> bs ! 0 \<noteq> 0 \<and> n = be_nat (take k bs)"
  using fold_be_nat [of 0 0 "take k bs"] by (auto simp: read_length_def)

section \<open>Spans\<close>

lemma long_span_sound:
  assumes "long_span bs k = Ok (start, end)"
  shows "start = 1 + k" and "1 \<le> k" and "k \<le> 8" and "start + 56 \<le> end" and "end \<le> length bs"
    and "end - start < 2 ^ 64" and "take k (drop 1 bs) = be_short (end - start)"
proof -
  obtain n where n: "read_length (drop 1 bs) k = Ok n" and ge: "56 \<le> n"
    and start: "start = 1 + k" and "end": "end = start + n" and le: "end \<le> length bs"
    using assms by (auto simp: long_span_def res_iffs Let_def split: if_splits)
  from n have k: "1 \<le> k" "k \<le> 8" "k \<le> length (drop 1 bs)" and nz: "drop 1 bs ! 0 \<noteq> 0"
    and val: "n = be_nat (take k (drop 1 bs))"
    by (auto simp: read_length_Ok)
  have tk: "length (take k (drop 1 bs)) \<le> 8" "take k (drop 1 bs) \<noteq> []" "take k (drop 1 bs) ! 0 \<noteq> 0"
    using k nz by auto
  have "be_short n = take k (drop 1 bs)" unfolding val by (rule be_short_be_nat [OF tk])
  then show "take k (drop 1 bs) = be_short (end - start)" using "end" by simp
  have "n < 256 ^ length (take k (drop 1 bs))" unfolding val by (rule be_nat_less)
  also have "\<dots> \<le> 256 ^ 8" using tk(1) by (intro power_increasing) auto
  finally show "end - start < 2 ^ 64" using "end" by simp
qed (use assms in \<open>auto simp: long_span_def res_iffs Let_def read_length_Ok split: if_splits\<close>)

lemma long_span_complete:
  assumes "56 \<le> n" and "n < 2 ^ 64" and bs: "bs = p # be_short n @ rst" and "n \<le> length rst"
    and "length bs \<le> usize_max"
  shows "long_span bs (length (be_short n)) = Ok (1 + length (be_short n), 1 + length (be_short n) + n)"
proof -
  have pos: "0 < n" using assms(1) by simp
  have "read_length (drop 1 bs) (length (be_short n)) = Ok n"
    using be_short_shape [OF pos assms(2)] be_nat_be_short [OF assms(2)] bs
    by (simp add: read_length_Ok nth_append Suc_le_eq)
  then show ?thesis using assms by (simp add: long_span_def)
qed

text \<open>A prefix byte read back: the two forms of \<open>encode_length\<close> use disjoint ranges.\<close>

lemma unat_prefix: "unat off + n < 256 \<Longrightarrow> unat (off + word_of_nat n :: u8) = unat off + n"
  by (simp add: unat_word_ariths unat_of_nat)

lemma unat_small_byte: "n < 256 \<Longrightarrow> unat (word_of_nat n :: u8) = n"
  by (simp add: unat_of_nat)

lemma short_prefix_sound:
  assumes "off \<le> p" and "unat (p - off) < 56"
  shows "encode_length (unat (p - off)) off = [p]"
  using assms by (simp add: encode_length_def)

lemma long_prefix_sound:
  assumes "long_span bs (unat (p - (off + 55))) = Ok (start, end)" and "bs \<noteq> []" and "p = bs ! 0"
  shows "encode_length (end - start) off = take start bs"
proof -
  note sp = long_span_sound [OF assms(1)]
  have "encode_length (end - start) off = (off + 55 + word_of_nat (length (be_short (end - start)))) # be_short (end - start)"
    using sp(4,6) by (intro encode_length_long) auto
  moreover have "length (be_short (end - start)) = unat (p - (off + 55))"
    using arg_cong [OF sp(7), of length] sp(1,4,5) by simp
  moreover have "take start bs = p # take (unat (p - (off + 55))) (drop 1 bs)"
    using sp(1) assms(2,3) by (cases bs) auto
  ultimately show ?thesis using sp(7) by simp
qed

lemma encode_length_cases:
  assumes "n < 2 ^ 64"
  obtains (short) "n < 56" "encode_length n off = [off + word_of_nat n]"
  | (long) k where "56 \<le> n" "k = length (be_short n)" "1 \<le> k" "k \<le> 8"
      "encode_length n off = (off + 55 + word_of_nat k) # be_short n"
proof (cases "n < 56")
  case True
  then show ?thesis using short by (simp add: encode_length_def)
next
  case False
  then have "1 \<le> length (be_short n)" "length (be_short n) \<le> 8"
    using be_short_shape [of n] assms by (auto simp: Suc_le_eq)
  with False assms show ?thesis using long [of "length (be_short n)"] encode_length_long [of n off] by simp
qed

section \<open>Strings\<close>

lemma decode_string_sound:
  assumes "decode_string bs (bs ! 0) = Ok (x, used)" and "bs \<noteq> []" and "bs ! 0 < 0xc0"
  shows "\<exists>s. x = RBytes s \<and> take used bs = encode_bytes s"
proof -
  let ?p = "bs ! 0"
  consider (byte) "?p < 0x80" | (short) "0x80 \<le> ?p" "?p < 0xb8" | (long) "0xb8 \<le> ?p" by force
  then show ?thesis
  proof cases
    case byte
    then show ?thesis using assms(1,2) by (cases bs) (auto simp: decode_string_def encode_bytes_def)
  next
    case short
    define n where "n = unat (?p - 0x80)"
    have n: "n < 56" using short by (simp add: n_def unat_sub word_le_nat_alt word_less_nat_alt)
    from assms(1) short have le: "1 + n \<le> length bs" and one: "\<not> (n = 1 \<and> bs ! 1 < 0x80)"
      and x: "x = RBytes (take n (drop 1 bs))" "used = 1 + n"
      by (auto simp: decode_string_def Let_def res_iffs slice_Ok n_def not_less split: if_splits)
    have "encode_length n 0x80 = [?p]" using short_prefix_sound [of "0x80" ?p] short n by (simp add: n_def)
    then have "take used bs = encode_bytes (take n (drop 1 bs))"
      using le one x(2) assms(2) by (cases bs) (auto simp: encode_bytes_def min_def)
    with x show ?thesis by auto
  next
    case long
    then have nl: "\<not> ?p < 0x80" "\<not> ?p < 0xb8" by (auto simp: word_less_nat_alt word_le_nat_alt)
    with assms(1) obtain start where sp: "long_span bs (unat (?p - 0xb7)) = Ok (start, used)"
      and x: "x = RBytes (take (used - start) (drop start bs))"
      by (auto simp: decode_string_def res_iffs slice_Ok)
    note b = long_span_sound [OF sp]
    have "encode_length (used - start) 0x80 = take start bs"
      using long_prefix_sound [of bs ?p "0x80"] sp assms(2) by simp
    moreover have "take used bs = take start bs @ take (used - start) (drop start bs)"
      using b(4) by (metis add_leE le_add_diff_inverse take_add)
    moreover have "length (take (used - start) (drop start bs)) = used - start" using b(4,5) by simp
    ultimately show ?thesis using b(4) x by (auto simp: encode_bytes_def simp del: length_take length_drop)
  qed
qed

lemma decode_string_complete:
  assumes bs: "bs = encode_bytes s @ rst" and len: "length bs \<le> usize_max"
  shows "bs \<noteq> [] \<and> bs ! 0 < 0xc0 \<and> decode_string bs (bs ! 0) = Ok (RBytes s, length (encode_bytes s))"
proof (cases "length s = 1 \<and> s ! 0 < 0x80")
  case True
  then obtain b where "s = [b]" by (cases s) auto
  with True bs show ?thesis by (auto simp: encode_bytes_def decode_string_def word_less_nat_alt)
next
  case False
  then have e: "bs = encode_length (length s) 0x80 @ s @ rst" using bs by (auto simp: encode_bytes_def)
  have n: "length s < 2 ^ 64" using len e by simp
  then show ?thesis
  proof (cases rule: encode_length_cases [where off = "0x80"])
    case short
    have u: "unat (0x80 + word_of_nat (length s) :: u8) = 128 + length s"
      using unat_prefix [of "0x80" "length s"] short by simp
    have "bs ! 0 = 0x80 + word_of_nat (length s)" using e short by simp
    with u short e False show ?thesis
      by (auto simp: decode_string_def word_less_nat_alt Let_def slice_def unat_sub word_le_nat_alt unat_small_byte encode_bytes_def nth_append split: if_splits)
  next
    case (long k)
    have u: "unat (0x80 + 55 + word_of_nat k :: u8) = 183 + k"
      using unat_prefix [of "0x80 + 55" k] long by simp
    have p: "bs ! 0 = 0x80 + 55 + word_of_nat k" using e long by simp
    have "long_span bs k = Ok (1 + k, 1 + k + length s)"
      using long_span_complete [of "length s" bs "bs ! 0" "s @ rst"] long n e len by simp
    then show ?thesis using long u p e False
      by (auto simp: decode_string_def word_less_nat_alt slice_def unat_sub word_le_nat_alt unat_small_byte encode_bytes_def)
  qed
qed

section \<open>Lists\<close>

fun rlp_encode :: "rlp \<Rightarrow> bytes" where
  "rlp_encode (RBytes s) = encode_bytes s"
| "rlp_encode (RList items) = encode_list (map rlp_encode items)"

fun rlp_depth :: "rlp \<Rightarrow> nat" where
  "rlp_depth (RBytes s) = 0"
| "rlp_depth (RList items) = Suc (fold max (map rlp_depth items) 0)"

text \<open>A value that the decoder can read at the depth \<open>d\<close>.\<close>

definition fits :: "nat \<Rightarrow> rlp \<Rightarrow> bool" where
  "fits d x \<longleftrightarrow> rlp_depth x = 0 \<or> d + rlp_depth x \<le> MAX_DEPTH"

lemma fold_max_le: "fold max ns (m :: nat) \<le> k \<longleftrightarrow> m \<le> k \<and> (\<forall>n \<in> set ns. n \<le> k)"
  by (induction ns arbitrary: m) auto

lemma fits_list: "fits d (RList items) \<longleftrightarrow> d < MAX_DEPTH \<and> (\<forall>x \<in> set items. fits (Suc d) x)"
proof -
  have "fits d (RList items) \<longleftrightarrow> d < MAX_DEPTH \<and> fold max (map rlp_depth items) 0 \<le> MAX_DEPTH - Suc d"
    by (auto simp: fits_def)
  also have "\<dots> \<longleftrightarrow> d < MAX_DEPTH \<and> (\<forall>x \<in> set items. fits (Suc d) x)"
    by (auto simp: fold_max_le fits_def)
  finally show ?thesis .
qed

lemma list_body_sound:
  assumes "list_body bs = Ok (body, used)" and "bs \<noteq> []" and "\<not> bs ! 0 < 0xc0"
  shows "take used bs = encode_length (length body) 0xc0 @ body"
proof -
  let ?p = "bs ! 0"
  obtain start where sp: "list_span bs ?p = Ok (start, used)" and le: "start \<le> used" "used \<le> length bs"
    and body: "body = take (used - start) (drop start bs)"
    using assms(1) by (auto simp: list_body_def res_iffs slice_Ok)
  have "encode_length (used - start) 0xc0 = take start bs"
  proof (cases "?p < 0xf8")
    case True
    then have "unat (?p - 0xc0) < 56" using assms(3) by (simp add: unat_sub word_le_nat_alt word_less_nat_alt)
    then have "encode_length (unat (?p - 0xc0)) 0xc0 = [?p]" using assms(3) by (intro short_prefix_sound) auto
    then show ?thesis using True sp assms(2) by (cases bs) (auto simp: list_span_def Let_def split: if_splits)
  next
    case False
    then show ?thesis using long_prefix_sound [of bs ?p "0xc0"] sp assms(2) by (simp add: list_span_def)
  qed
  moreover have "take used bs = take start bs @ body"
    using le(1) body by (metis le_add_diff_inverse take_add)
  moreover have "length body = used - start" using body le by simp
  ultimately show ?thesis by simp
qed

lemma list_body_complete:
  assumes bs: "bs = encode_length (length body) 0xc0 @ body @ rst" and len: "length bs \<le> usize_max"
  shows "bs \<noteq> [] \<and> \<not> bs ! 0 < 0xc0 \<and>
         list_body bs = Ok (body, length (encode_length (length body) 0xc0 @ body))"
proof -
  have n: "length body < 2 ^ 64" using len bs by simp
  then show ?thesis
  proof (cases rule: encode_length_cases [where off = "0xc0"])
    case short
    have u: "unat (0xc0 + word_of_nat (length body) :: u8) = 192 + length body"
      using unat_prefix [of "0xc0" "length body"] short by simp
    have "bs ! 0 = 0xc0 + word_of_nat (length body)" using bs short by simp
    with u short bs show ?thesis
      by (auto simp: list_body_def list_span_def word_less_nat_alt Let_def slice_def unat_sub word_le_nat_alt unat_small_byte)
  next
    case (long k)
    have u: "unat (0xc0 + 55 + word_of_nat k :: u8) = 247 + k"
      using unat_prefix [of "0xc0 + 55" k] long by simp
    have p: "bs ! 0 = 0xc0 + 55 + word_of_nat k" using bs long by simp
    have "long_span bs k = Ok (1 + k, 1 + k + length body)"
      using long_span_complete [of "length body" bs "bs ! 0" "body @ rst"] long n bs len by simp
    then show ?thesis using long u p bs
      by (auto simp: list_body_def list_span_def word_less_nat_alt slice_def unat_sub word_le_nat_alt unat_small_byte)
  qed
qed

lemma decode_sound:
  "decode_item bs d = Ok (x, used) \<Longrightarrow> used \<le> length bs \<and> take used bs = rlp_encode x \<and> fits d x"
  "decode_list_body bs d = Ok xs \<Longrightarrow> d < MAX_DEPTH \<and> bs = concat (map rlp_encode xs) \<and> (\<forall>x \<in> set xs. fits (Suc d) x)"
  "decode_items bs d = Ok xs \<Longrightarrow> bs = concat (map rlp_encode xs) \<and> (\<forall>x \<in> set xs. fits (Suc d) x)"
proof (induction bs d and bs d and bs d arbitrary: x used and xs and xs
    rule: decode_item_decode_list_body_decode_items.induct)
  case (1 bs d)
  show ?case
  proof (cases "bs ! 0 < 0xc0")
    case True
    then have ds: "decode_string bs (bs ! 0) = Ok (x, used)" and ne: "bs \<noteq> []"
      using "1.prems" by (auto simp: decode_item.simps [of bs] split: if_splits)
    then show ?thesis
      using decode_string_sound [OF ds ne True] decode_string_bounds [OF ds ne] by (auto simp: fits_def)
  next
    case False
    then obtain body items where ne: "bs \<noteq> []" and b: "list_body bs = Ok (body, used)"
      and it: "decode_list_body body d = Ok items" and x: "x = RList items"
      using "1.prems" by (auto simp: decode_item.simps [of bs] res_iffs split: if_splits res.splits)
    from "1.IH" [OF ne False b refl it] list_body_sound [OF b ne False] list_body_bounds(3) [OF b] x show ?thesis
      by (auto simp: encode_list_def Let_def fits_list)
  qed
next
  case (2 bs d)
  then show ?case by (auto simp: decode_list_body.simps [of bs] split: if_splits)
next
  case (3 bs d)
  show ?case
  proof (cases "bs = []")
    case True
    then show ?thesis using "3.prems" by (simp add: decode_items.simps [of "[]"])
  next
    case False
    then obtain item used bs' items where it: "decode_item bs (d + 1) = Ok (item, used)"
      and sl: "slice bs used (length bs) = (Ok bs' :: (rlp_error, bytes) res)"
      and its: "decode_items bs' d = Ok items" and xs: "xs = item # items"
      using "3.prems" by (auto simp: decode_items.simps [of bs] res_iffs split: res.splits prod.splits)
    have "bs = take used bs @ bs'" using sl by (auto simp: slice_Ok)
    with "3.IH"(1) [OF False it] "3.IH"(2) [OF False it refl sl its] xs show ?thesis by auto
  qed
qed

lemma encode_length_ne [simp]: "encode_length n off \<noteq> []"
  by (simp add: encode_length_def Let_def)

lemma rlp_encode_ne [simp]: "rlp_encode x \<noteq> []"
  by (cases x) (simp_all add: encode_bytes_def encode_list_def Let_def)

lemma decode_items_complete:
  assumes "\<And>x r. x \<in> set xs \<Longrightarrow> length (rlp_encode x @ r) \<le> usize_max \<Longrightarrow> decode_item (rlp_encode x @ r) (d + 1) = Ok (x, length (rlp_encode x))"
    and "length (concat (map rlp_encode xs)) \<le> usize_max"
  shows "decode_items (concat (map rlp_encode xs)) d = Ok xs"
  using assms
proof (induction xs)
  case Nil
  show ?case by (simp add: decode_items.simps [of "[]"])
next
  case (Cons x xs)
  have "decode_item (rlp_encode x @ concat (map rlp_encode xs)) (d + 1) = Ok (x, length (rlp_encode x))"
    using Cons.prems by simp
  moreover have "decode_items (concat (map rlp_encode xs)) d = Ok xs"
    using Cons.prems by (intro Cons.IH) auto
  ultimately show ?case
    by (simp add: decode_items.simps [of "rlp_encode x @ concat (map rlp_encode xs)"] slice_def)
qed

lemma decode_item_complete:
  "fits d x \<Longrightarrow> length (rlp_encode x @ r) \<le> usize_max \<Longrightarrow>
   decode_item (rlp_encode x @ r) d = Ok (x, length (rlp_encode x))"
proof (induction x arbitrary: d r rule: rlp_encode.induct)
  case (1 s)
  then show ?case using decode_string_complete [of _ s r] by (simp add: decode_item.simps [of "encode_bytes s @ r"])
next
  case (2 items)
  let ?body = "concat (map rlp_encode items)"
  let ?bs = "encode_length (length ?body) 0xc0 @ ?body @ r"
  have e: "rlp_encode (RList items) @ r = ?bs" by (simp add: encode_list_def Let_def)
  have "decode_items ?body d = Ok items"
    using "2.prems" e by (intro decode_items_complete "2.IH") (auto simp: fits_list)
  then have "decode_list_body ?body d = Ok items"
    using "2.prems"(1) by (simp add: decode_list_body.simps [of ?body] fits_list)
  then show ?case
    using list_body_complete [of ?bs ?body r] "2.prems"(2) unfolding e
    by (simp add: decode_item.simps [of ?bs] encode_list_def Let_def)
qed

lemma decode_no_panic:
  "decode_item bs d \<noteq> Panic" "decode_list_body bs d \<noteq> Panic" "decode_items bs d \<noteq> Panic"
proof (induction bs d and bs d and bs d rule: decode_item_decode_list_body_decode_items.induct)
  case (1 bs d)
  have "decode_string bs (bs ! 0) \<noteq> Panic"
    by (auto simp: decode_string_def Let_def res_iffs slice_def long_span_def read_length_def split: if_splits)
  moreover have "list_body bs \<noteq> Panic"
    by (auto simp: list_body_def list_span_def Let_def res_iffs slice_def long_span_def read_length_def split: if_splits)
  ultimately show ?case using 1
    by (auto simp: decode_item.simps [of bs] res_iffs split: res.splits)
next
  case (2 bs d)
  then show ?case by (simp add: decode_list_body.simps [of bs])
next
  case (3 bs d)
  show ?case
  proof (cases "bs = [] \<or> (\<exists>e. decode_item bs (d + 1) = Err e)")
    case True
    then show ?thesis by (auto simp: decode_items.simps [of bs])
  next
    case False
    with "3.IH"(1) obtain item used where it: "decode_item bs (d + 1) = Ok (item, used)"
      by (cases "decode_item bs (d + 1)") auto
    then have sl: "slice bs used (length bs) = (Ok (drop used bs) :: (rlp_error, bytes) res)"
      using decode_sound(1) [OF it] by (simp add: slice_def)
    then show ?thesis using False it "3.IH"(2) [OF _ it refl sl] by (simp add: decode_items.simps [of bs] res_iffs)
  qed
qed

lemma rlp_decode_not_Panic: "rlp_decode bs \<noteq> Panic"
  using decode_no_panic(1) by (auto simp: rlp_decode_def res_iffs split: prod.splits if_splits)

lemma rlp_decode_Ok: "rlp_decode bs = Ok x \<longleftrightarrow> decode_item bs 0 = Ok (x, length bs)"
  by (auto simp: rlp_decode_def res_iffs split: if_splits)

lemma rlp_decode_iff:
  assumes "length bs \<le> usize_max"
  shows "rlp_decode bs = Ok x \<longleftrightarrow> bs = rlp_encode x \<and> rlp_depth x \<le> MAX_DEPTH"
proof
  assume "rlp_decode bs = Ok x"
  then show "bs = rlp_encode x \<and> rlp_depth x \<le> MAX_DEPTH"
    using decode_sound(1) [of bs 0 x "length bs"] by (auto simp: rlp_decode_Ok fits_def)
next
  assume "bs = rlp_encode x \<and> rlp_depth x \<le> MAX_DEPTH"
  then show "rlp_decode bs = Ok x"
    using decode_item_complete [of 0 x "[]"] assms by (auto simp: rlp_decode_Ok fits_def)
qed

lemma rlp_encode_inj:
  assumes "rlp_encode x = rlp_encode y" and "length (rlp_encode x) \<le> usize_max"
    and "rlp_depth x \<le> MAX_DEPTH" and "rlp_depth y \<le> MAX_DEPTH"
  shows "x = y"
  using rlp_decode_iff [of "rlp_encode x" x] rlp_decode_iff [of "rlp_encode x" y] assms by simp

lemma length_encode_bytes: "length (encode_bytes s) \<le> length s + 9"
proof -
  have "length (encode_length n off) \<le> 9" for n off
    using length_dropWhile_le [of "\<lambda>b. b = 0" "to_be_bytes (word_of_nat n :: u64)"]
    by (auto simp: encode_length_def Let_def to_be_bytes_def split: option.splits)
  from this [of "length s" "0x80"] show ?thesis by (auto simp: encode_bytes_def)
qed

lemma encode_uint_inj:
  assumes "encode_uint v = Ok k" and "encode_uint w = Ok k"
  shows "v = w"
proof -
  let ?cut = "\<lambda>v :: u64. dropWhile (\<lambda>b. b = 0) (to_be_bytes v)"
  have "length (?cut v) \<le> 8"
    using length_dropWhile_le [of "\<lambda>b. b = 0" "to_be_bytes v"] by (simp add: to_be_bytes_def)
  then have "?cut v = ?cut w"
    using assms rlp_encode_inj [of "RBytes (?cut v)" "RBytes (?cut w)"] length_encode_bytes [of "?cut v"]
    by (simp add: encode_uint_Ok)
  then have "be_nat (to_be_bytes v) = be_nat (to_be_bytes w)" by (metis be_nat_dropWhile)
  moreover have "unat v < 2 ^ 64" "unat w < 2 ^ 64" by (rule order_less_le_trans [OF unsigned_less], simp)+
  ultimately show ?thesis
    by (simp add: be_nat_def to_be_bytes_def to_le_bytes_def le_nat_le_bytes word_eq_iff_unsigned [where 'a = nat])
qed

text \<open>C38: The RLP decoder never panics, and it accepts exactly the canonical encoding of each value whose
  lists nest at most \<open>MAX_DEPTH\<close> deep: of every value there is one accepted byte string, and of every
  accepted byte string one value.\<close>

theorem rlp_canonical:
  assumes "length bs \<le> usize_max"
  shows "rlp_decode bs \<noteq> Panic \<and>
         (rlp_decode bs = Ok x \<longleftrightarrow> bs = rlp_encode x \<and> rlp_depth x \<le> MAX_DEPTH)"
  using rlp_decode_not_Panic rlp_decode_iff [OF assms] by auto

theorem rlp_canonical_witness:
  "rlp_decode [0xc4, 0x83, 0x64, 0x6f, 0x67] = Ok (RList [RBytes [0x64, 0x6f, 0x67]]) \<and>
   rlp_decode [0x81, 0x05] \<noteq> Ok (RBytes [5])"
proof -
  have e: "rlp_encode (RList [RBytes [0x64, 0x6f, 0x67]]) = [0xc4, 0x83, 0x64, 0x6f, 0x67]"
    "rlp_encode (RBytes [5]) = [5]"
    by (simp_all add: encode_list_def encode_bytes_def encode_length_def)
  have "rlp_decode [0xc4, 0x83, 0x64, 0x6f, 0x67] = Ok (RList [RBytes [0x64, 0x6f, 0x67]])"
    by (subst rlp_canonical [THEN conjunct2]) (simp_all only: e, simp_all add: MAX_DEPTH_def)
  moreover have "rlp_decode [0x81, 0x05] \<noteq> Ok (RBytes [5])"
    by (subst rlp_canonical [THEN conjunct2]) (simp_all only: e, simp_all)
  ultimately show ?thesis by simp
qed

end
