(* ===== verification/Eth_Mpt.thy ===== *)
theory Eth_Mpt
  imports Eth_Rlp
begin

text \<open>
  \<^verbatim>\<open>crates/qlc-ethereum/src/mpt.rs\<close>: proofs of the Merkle-Patricia trie. The walk follows the nibbles of the
  key through branch, extension and leaf nodes; a node stands in its parent or is the next element of the
  proof, named by its hash. Its termination is the pair of the proof elements left and the size of the node.
  The module \<open>builder\<close> of the same file makes tries and proofs.

  The Keccak-256 digest is the argument \<open>kec\<close>.
\<close>

datatype mpt_error = MissingNode | HashMismatch | BadNode | BadRef

section \<open>Verification\<close>

definition to_nibbles :: "bytes \<Rightarrow> bytes" where
  "to_nibbles key = concat (map (\<lambda>b. [drop_bit 4 b, b AND 0x0f]) key)"

definition decode_hp :: "bytes \<Rightarrow> bytes \<times> bool" where
  "decode_hp bs =
     (if bs = [] then ([], False)
      else let flag = drop_bit 4 (bs ! 0); is_leaf = (flag AND 2 \<noteq> 0); odd = (flag AND 1 \<noteq> 0)
           in ((if odd then [bs ! 0 AND 0x0f] else []) @
               concat (map (\<lambda>b. [drop_bit 4 b, b AND 0x0f]) (drop 1 bs)), is_leaf))"

fun branch_value :: "rlp \<Rightarrow> bytes option" where
  "branch_value (RBytes b) = (if b \<noteq> [] then Some b else None)"
| "branch_value (RList items) = None"

fun resolve ::
  "(bytes \<Rightarrow> bytes) \<Rightarrow> rlp \<Rightarrow> bytes list \<Rightarrow> usize \<Rightarrow> (mpt_error, rlp option \<times> usize) res" where
  "resolve kec (RList items) proof pi = Ok (Some (RList items), pi)"
| "resolve kec (RBytes b) proof pi =
     (if b = [] then Ok (None, pi)
      else if length b = 32 then
        if pi \<ge> length proof then Err MissingNode
        else if kec (proof ! pi) \<noteq> b then Err HashMismatch
        else and_then (map_err (\<lambda>_. BadNode) (rlp_decode (proof ! pi))) (\<lambda>node. Ok (Some node, pi + 1))
      else Err BadRef)"

lemma resolve_progress:
  assumes "resolve kec item proof pi = Ok (Some node, pi')"
  shows "pi' = pi \<and> node = item \<or> pi < length proof \<and> pi' = pi + 1"
  using assms by (cases item) (auto simp: res_iffs split: if_splits)

lemma size_child: "as_list current = Some items \<Longrightarrow> i < length items \<Longrightarrow> size (items ! i) < size current"
  by (cases current) (auto simp: less_Suc_eq_le intro!: size_list_estimation' [OF nth_mem])

text \<open>The loop of \<open>verify_proof\<close>, from the node \<open>current\<close> with \<open>pos\<close> nibbles and \<open>pi\<close> proof elements used.\<close>

function mpt_walk ::
  "(bytes \<Rightarrow> bytes) \<Rightarrow> bytes \<Rightarrow> bytes list \<Rightarrow> rlp \<Rightarrow> usize \<Rightarrow> usize \<Rightarrow> (mpt_error, bytes option) res" where
  "mpt_walk kec nibbles proof current pos pi =
     (case as_list current of
        None \<Rightarrow> Err BadNode
      | Some items \<Rightarrow>
          if length items = 17 then
            if pos = length nibbles then Ok (branch_value (items ! 16))
            else if pos > length nibbles then Panic
            else let n = unat (nibbles ! pos)
                 in if n \<ge> length items then Panic
                    else (case resolve kec (items ! n) proof pi of
                            Err e \<Rightarrow> Err e
                          | Panic \<Rightarrow> Panic
                          | Ok (None, pi') \<Rightarrow> Ok None
                          | Ok (Some node, pi') \<Rightarrow> mpt_walk kec nibbles proof node (pos + 1) pi')
          else if length items = 2 then
            (case as_bytes (items ! 0) of
               None \<Rightarrow> Err BadNode
             | Some path_bytes \<Rightarrow>
                 let (path, is_leaf) = decode_hp path_bytes
                 in if pos > length nibbles then Panic
                    else let remaining = drop pos nibbles
                         in if is_leaf then
                              if remaining = path then map_ok Some (ok_or BadNode (as_bytes (items ! 1)))
                              else Ok None
                            else if length remaining < length path \<or> take (length path) remaining \<noteq> path then Ok None
                            else (case resolve kec (items ! 1) proof pi of
                                    Err e \<Rightarrow> Err e
                                  | Panic \<Rightarrow> Panic
                                  | Ok (None, pi') \<Rightarrow> Ok None
                                  | Ok (Some node, pi') \<Rightarrow> mpt_walk kec nibbles proof node (pos + length path) pi'))
          else Err BadNode)"
  by pat_completeness auto
termination
  by (relation "measures [\<lambda>(kec, nibbles, proof, current, pos, pi). length proof - pi,
                          \<lambda>(kec, nibbles, proof, current, pos, pi). size current]")
     (auto dest!: resolve_progress simp: size_child)

declare mpt_walk.simps [simp del]

definition verify_proof ::
  "(bytes \<Rightarrow> bytes) \<Rightarrow> bytes \<Rightarrow> bytes \<Rightarrow> bytes list \<Rightarrow> (mpt_error, bytes option) res" where
  "verify_proof kec root key proof =
     (if proof = [] then Err MissingNode
      else if kec (proof ! 0) \<noteq> root then Err HashMismatch
      else and_then (map_err (\<lambda>_. BadNode) (rlp_decode (proof ! 0))) (\<lambda>current.
             mpt_walk kec (to_nibbles key) proof current 0 1))"

section \<open>One step of the walk\<close>

text \<open>What the walk does at a node, before it looks at the proof: it stops, or it follows a reference.\<close>

datatype mpt_look = Stop "(mpt_error, bytes option) res" | Follow rlp usize

definition look :: "bytes \<Rightarrow> rlp \<Rightarrow> usize \<Rightarrow> mpt_look" where
  "look nibbles current pos =
     (case as_list current of
        None \<Rightarrow> Stop (Err BadNode)
      | Some items \<Rightarrow>
          if length items = 17 then
            if pos = length nibbles then Stop (Ok (branch_value (items ! 16)))
            else if pos > length nibbles \<or> unat (nibbles ! pos) \<ge> 17 then Stop Panic
            else Follow (items ! unat (nibbles ! pos)) (pos + 1)
          else if length items = 2 then
            (case as_bytes (items ! 0) of
               None \<Rightarrow> Stop (Err BadNode)
             | Some pb \<Rightarrow>
                 if pos > length nibbles then Stop Panic
                 else if snd (decode_hp pb) then
                   Stop (if drop pos nibbles = fst (decode_hp pb)
                         then map_ok Some (ok_or BadNode (as_bytes (items ! 1))) else Ok None)
                 else if length nibbles - pos < length (fst (decode_hp pb)) \<or>
                         take (length (fst (decode_hp pb))) (drop pos nibbles) \<noteq> fst (decode_hp pb) then Stop (Ok None)
                 else Follow (items ! 1) (pos + length (fst (decode_hp pb))))
          else Stop (Err BadNode))"

lemma mpt_walk_look:
  "mpt_walk kec nibbles proof current pos pi =
     (case look nibbles current pos of
        Stop r \<Rightarrow> r
      | Follow item pos' \<Rightarrow>
          (case resolve kec item proof pi of
             Err e \<Rightarrow> Err e
           | Panic \<Rightarrow> Panic
           | Ok (None, pi') \<Rightarrow> Ok None
           | Ok (Some node, pi') \<Rightarrow> mpt_walk kec nibbles proof node pos' pi'))"
  by (subst mpt_walk.simps) (simp add: look_def Let_def case_prod_beta split: option.split del: One_nat_def)

lemma look_child: "look nibbles current pos = Follow item pos' \<Longrightarrow> size item < size current"
  by (auto simp: look_def size_child split: option.splits if_splits)

text \<open>Induction along the walk.\<close>

lemma mpt_walk_induct [case_names walk]:
  assumes step: "\<And>current pos pi.
    (\<And>item pos' node pi'. look nibbles current pos = Follow item pos' \<Longrightarrow>
       resolve kec item proof pi = Ok (Some node, pi') \<Longrightarrow> P node pos' pi') \<Longrightarrow> P current pos pi"
  shows "P current pos pi"
proof -
  have "wf (measures [\<lambda>(current :: rlp, pos :: nat, pi). length proof - pi, \<lambda>(current, pos, pi). size current])" by simp
  then have "\<forall>current pos pi. c = (current, pos, pi) \<longrightarrow> P current pos pi" for c
  proof (induction c rule: wf_induct_rule)
    case (less c)
    show ?case
    proof (intro allI impI)
      fix current pos pi assume c: "c = (current, pos, pi)"
      show "P current pos pi"
      proof (rule step)
        fix item pos' node pi'
        assume "look nibbles current pos = Follow item pos'" and "resolve kec item proof pi = Ok (Some node, pi')"
        then have "((node, pos', pi'), c) \<in> measures [\<lambda>(current :: rlp, pos :: nat, pi). length proof - pi, \<lambda>(current, pos, pi). size current]"
          using c by (auto dest!: resolve_progress look_child)
        from less [OF this] show "P node pos' pi'" by simp
      qed
    qed
  qed
  then show ?thesis by simp
qed

section \<open>Binding\<close>

lemma resolve_agree:
  assumes "resolve kec item p i = Ok (a, i')" and "resolve kec item q j = Ok (b, j')"
    and "\<not> collides kec (set p) (set q)"
  shows "a = b"
proof (cases item)
  case (RBytes h)
  show ?thesis
  proof (cases "length h = 32")
    case True
    then have "i < length p" "j < length q" "kec (p ! i) = kec (q ! j)"
      and d: "map_ok Some (rlp_decode (p ! i)) = Ok a" "map_ok Some (rlp_decode (q ! j)) = Ok b"
      using assms(1,2) RBytes by (auto simp: res_iffs split: if_splits)
    then have "p ! i = q ! j" using assms(3) by (meson collides_def nth_mem)
    with d show ?thesis by simp
  qed (use assms RBytes in \<open>auto split: if_splits\<close>)
qed (use assms in auto)

lemma mpt_walk_agree:
  assumes "\<not> collides kec (set p) (set q)"
  shows "mpt_walk kec nibbles p current pos i = Ok a \<Longrightarrow> mpt_walk kec nibbles q current pos j = Ok b \<Longrightarrow> a = b"
proof (induction current pos i arbitrary: j rule: mpt_walk_induct [of nibbles kec p])
  case (walk current pos i)
  show ?case
  proof (cases "look nibbles current pos")
    case (Stop r)
    then show ?thesis
      using walk.prems by (simp add: mpt_walk_look [of kec nibbles p] mpt_walk_look [of kec nibbles q])
  next
    case (Follow item pos')
    obtain x i' y j' where r: "resolve kec item p i = Ok (x, i')" "resolve kec item q j = Ok (y, j')"
      using walk.prems Follow
      by (auto simp: mpt_walk_look [of kec nibbles p] mpt_walk_look [of kec nibbles q] split: res.splits prod.splits)
    then have "x = y" using resolve_agree assms by blast
    with r Follow walk show ?thesis
      by (auto simp: mpt_walk_look [of kec nibbles p current] mpt_walk_look [of kec nibbles q current] split: option.splits)
  qed
qed

lemma verify_proof_agree:
  assumes "verify_proof kec root key p = Ok a" and "verify_proof kec root key q = Ok b"
    and "\<not> collides kec (set p) (set q)"
  shows "a = b"
proof -
  have ne: "p \<noteq> []" "q \<noteq> []" and "kec (p ! 0) = kec (q ! 0)"
    using assms by (auto simp: verify_proof_def split: if_splits)
  with assms(3) have eq: "p ! 0 = q ! 0" by (meson collides_def nth_mem length_greater_0_conv)
  with assms obtain x y where "rlp_decode (p ! 0) = Ok x"
    "mpt_walk kec (to_nibbles key) p x 0 1 = Ok a" "mpt_walk kec (to_nibbles key) q x 0 1 = Ok b"
    by (auto simp: verify_proof_def res_iffs split: if_splits)
  then show ?thesis using mpt_walk_agree [OF assms(3)] by blast
qed

section \<open>No panic\<close>

lemma low_nibble: "(b :: u8) AND 0x0f = take_bit 4 b"
  by (simp add: take_bit_eq_mask mask_eq_exp_minus_1)

lemma unat_low_nibble: "unat (b AND 0x0f :: u8) = unat b mod 16"
proof -
  have "b AND 0x0f = take_bit 4 b" by (rule low_nibble)
  also have "unat \<dots> = take_bit 4 (unat b)" by (rule unsigned_take_bit_eq)
  finally show ?thesis by (simp add: take_bit_eq_mod)
qed

lemma unat_high_nibble: "unat (drop_bit 4 b :: u8) = unat b div 16"
proof -
  have "unat b < 2 ^ 8" using unsigned_less [of b] by simp
  then have "unat (drop_bit 4 b) = drop_bit 4 (unat b)"
    by (subst unsigned_drop_bit_eq) (simp add: take_bit_nat_eq_self)
  then show ?thesis by (simp add: drop_bit_eq_div)
qed

lemma nibble_less:
  assumes "n \<in> set (to_nibbles key)"
  shows "unat n < 16"
proof -
  have "unat (b :: u8) < 256" for b using unsigned_less [of b] by simp
  then have "unat (b :: u8) div 16 < 16" for b by (simp add: less_mult_imp_div_less)
  then show ?thesis using assms unfolding to_nibbles_def by (force simp: unat_low_nibble unat_high_nibble)
qed

lemma resolve_not_Panic: "resolve kec item proof pi \<noteq> Panic"
  by (cases item) (auto simp: res_iffs rlp_decode_not_Panic)

lemma mpt_walk_not_Panic:
  assumes "\<And>n. n \<in> set nibbles \<Longrightarrow> unat n < 16"
  shows "pos \<le> length nibbles \<Longrightarrow> mpt_walk kec nibbles proof current pos pi \<noteq> Panic"
proof (induction current pos pi rule: mpt_walk_induct [of nibbles kec "proof"])
  case (walk current pos pi)
  show ?case
  proof (cases "look nibbles current pos")
    case (Stop r)
    have "pos < length nibbles \<Longrightarrow> \<not> 17 \<le> unat (nibbles ! pos)"
      using assms [of "nibbles ! pos"] by force
    then have "r \<noteq> Panic" using Stop walk.prems
      by (auto simp: look_def res_iffs split: option.splits if_splits)
    then show ?thesis using Stop by (simp add: mpt_walk_look [of kec nibbles "proof"])
  next
    case (Follow item pos')
    then have "pos' \<le> length nibbles" using walk.prems by (auto simp: look_def split: option.splits if_splits)
    then show ?thesis using Follow walk.IH resolve_not_Panic
      by (auto simp: mpt_walk_look [of kec nibbles "proof" current] split: res.splits option.splits)
  qed
qed

lemma verify_proof_not_Panic: "verify_proof kec root key proof \<noteq> Panic"
  using mpt_walk_not_Panic [of "to_nibbles key" 0] nibble_less rlp_decode_not_Panic
  by (auto simp: verify_proof_def res_iffs)

section \<open>The number of rounds\<close>

text \<open>How often the loop of \<open>verify_proof\<close> runs before it returns.\<close>

inductive walk_rounds ::
  "(bytes \<Rightarrow> bytes) \<Rightarrow> bytes \<Rightarrow> bytes list \<Rightarrow> rlp \<Rightarrow> usize \<Rightarrow> usize \<Rightarrow> nat \<Rightarrow> (mpt_error, bytes option) res \<Rightarrow> bool"
  for kec nibbles "proof" where
  stop: "look nibbles current pos = Stop r \<Longrightarrow> walk_rounds kec nibbles proof current pos pi 1 r"
| stuck: "look nibbles current pos = Follow item pos' \<Longrightarrow> resolve kec item proof pi = Err e \<Longrightarrow>
    walk_rounds kec nibbles proof current pos pi 1 (Err e)"
| absent: "look nibbles current pos = Follow item pos' \<Longrightarrow> resolve kec item proof pi = Ok (None, pi') \<Longrightarrow>
    walk_rounds kec nibbles proof current pos pi 1 (Ok None)"
| go: "look nibbles current pos = Follow item pos' \<Longrightarrow> resolve kec item proof pi = Ok (Some node, pi') \<Longrightarrow>
    walk_rounds kec nibbles proof node pos' pi' n r \<Longrightarrow> walk_rounds kec nibbles proof current pos pi (Suc n) r"

lemma fold_max_ge: "n \<in> set ns \<Longrightarrow> n \<le> fold max ns (m :: nat)"
  using fold_max_le [of ns m "fold max ns m"] by blast

lemma look_depth:
  assumes "look nibbles current pos = Follow item pos'"
  shows "rlp_depth item < rlp_depth current"
proof -
  obtain items where "current = RList items" "item \<in> set items"
    using assms by (cases current) (auto simp: look_def not_le split: option.splits if_splits)
  then have "rlp_depth item \<in> set (map rlp_depth items)" by auto
  then have "rlp_depth item \<le> fold max (map rlp_depth items) 0" by (rule fold_max_ge)
  then show ?thesis using \<open>current = RList items\<close> by simp
qed

lemma resolve_depth:
  assumes "resolve kec item proof pi = Ok (Some node, pi')" and "\<forall>p \<in> set proof. length p \<le> usize_max"
  shows "pi' = pi \<and> node = item \<or> pi < length proof \<and> pi' = pi + 1 \<and> rlp_depth node \<le> MAX_DEPTH"
proof (cases item)
  case (RBytes b)
  then have pi: "pi < length proof" "pi' = pi + 1" and d: "rlp_decode (proof ! pi) = Ok node"
    using assms(1) by (auto simp: res_iffs split: if_splits)
  moreover have "length (proof ! pi) \<le> usize_max" using assms(2) pi(1) nth_mem by blast
  ultimately show ?thesis using rlp_decode_iff by blast
qed (use assms in auto)

lemma walk_rounds_bound:
  assumes "\<forall>p \<in> set proof. length p \<le> usize_max"
  shows "\<exists>n. walk_rounds kec nibbles proof current pos pi n (mpt_walk kec nibbles proof current pos pi) \<and>
    n \<le> Suc MAX_DEPTH * (length proof - pi) + Suc (rlp_depth current)"
proof (induction current pos pi rule: mpt_walk_induct [of nibbles kec "proof"])
  case (walk current pos pi)
  note unfold = mpt_walk_look [of kec nibbles "proof" current pos pi]
  show ?case
  proof (cases "look nibbles current pos")
    case (Stop r)
    then have "walk_rounds kec nibbles proof current pos pi 1 r" by (rule walk_rounds.stop)
    with Stop show ?thesis by (intro exI [of _ 1]) (simp add: unfold)
  next
    case f: (Follow item pos')
    show ?thesis
    proof (cases "\<exists>node pi'. resolve kec item proof pi = Ok (Some node, pi')")
      case True
      then obtain node pi' where r: "resolve kec item proof pi = Ok (Some node, pi')" by blast
      from walk.IH [OF f r] obtain n
        where n: "walk_rounds kec nibbles proof node pos' pi' n (mpt_walk kec nibbles proof node pos' pi')"
          "n \<le> Suc MAX_DEPTH * (length proof - pi') + Suc (rlp_depth node)" by blast
      have "Suc MAX_DEPTH * (length proof - pi') + rlp_depth node < Suc MAX_DEPTH * (length proof - pi) + rlp_depth current"
        using resolve_depth [OF r assms] look_depth [OF f]
      proof (elim disjE conjE)
        assume "pi < length proof" "pi' = pi + 1" "rlp_depth node \<le> MAX_DEPTH"
        moreover from this have "length proof - pi = Suc (length proof - pi')" by simp
        ultimately show ?thesis by simp
      qed simp
      with n(2) have "Suc n \<le> Suc MAX_DEPTH * (length proof - pi) + Suc (rlp_depth current)" by simp
      moreover have "walk_rounds kec nibbles proof current pos pi (Suc n) (mpt_walk kec nibbles proof node pos' pi')"
        by (rule walk_rounds.go [OF f r n(1)])
      ultimately show ?thesis using f r by (intro exI [of _ "Suc n"]) (simp add: unfold)
    next
      case False
      then consider e where "resolve kec item proof pi = Err e" | pi' where "resolve kec item proof pi = Ok (None, pi')"
        using resolve_not_Panic [of kec item "proof" pi]
        by (metis not_Some_eq old.prod.exhaust res.exhaust)
      then have "walk_rounds kec nibbles proof current pos pi 1 (mpt_walk kec nibbles proof current pos pi)"
        by cases (simp_all add: unfold f walk_rounds.stuck [OF f] walk_rounds.absent [OF f] del: One_nat_def)
      then show ?thesis by (intro exI [of _ 1]) simp
    qed
  qed
qed

text \<open>C39: The verifier of trie proofs ends on every input: its loop returns the verdict after at most
  \<open>MAX_DEPTH + 1\<close> rounds for each element of the proof, however the nodes nest, and the verdict is never a
  panic.\<close>

theorem proof_walk_terminates:
  assumes "\<forall>p \<in> set proof. length p \<le> usize_max" and "proof \<noteq> []" and "kec (proof ! 0) = root"
    and "rlp_decode (proof ! 0) = Ok node0"
  shows "\<exists>n. walk_rounds kec (to_nibbles key) proof node0 0 1 n (verify_proof kec root key proof) \<and>
    n \<le> Suc MAX_DEPTH * length proof \<and> verify_proof kec root key proof \<noteq> Panic"
proof -
  have "length (proof ! 0) \<le> usize_max" using assms(1,2) nth_mem by blast
  then have "rlp_depth node0 \<le> MAX_DEPTH" using assms(4) rlp_decode_iff by blast
  moreover have "length proof = Suc (length proof - 1)" using assms(2) by simp
  ultimately have "Suc MAX_DEPTH * (length proof - 1) + Suc (rlp_depth node0) \<le> Suc MAX_DEPTH * length proof"
    by (metis add.commute add_le_mono1 mult_Suc_right not_less_eq_eq)
  moreover obtain n where "walk_rounds kec (to_nibbles key) proof node0 0 1 n (mpt_walk kec (to_nibbles key) proof node0 0 1)"
    "n \<le> Suc MAX_DEPTH * (length proof - 1) + Suc (rlp_depth node0)"
    using walk_rounds_bound [OF assms(1)] by blast
  moreover have "verify_proof kec root key proof = mpt_walk kec (to_nibbles key) proof node0 0 1"
    using assms(2-4) by (simp add: verify_proof_def)
  ultimately show ?thesis using verify_proof_not_Panic by (metis order_trans)
qed

theorem proof_walk_terminates_witness:
  "\<exists>n. walk_rounds (\<lambda>_. replicate 32 7) (to_nibbles [1]) [[0xc2, 0x20, 0x05]] (RList [RBytes [0x20], RBytes [5]]) 0 1 n
     (verify_proof (\<lambda>_. replicate 32 7) (replicate 32 7) [1] [[0xc2, 0x20, 0x05]]) \<and> n \<le> 33"
proof -
  have "rlp_encode (RList [RBytes [0x20], RBytes [5]]) = [0xc2, 0x20, 0x05]"
    by (simp add: encode_list_def encode_bytes_def encode_length_def)
  then have "rlp_decode [0xc2, 0x20, 0x05] = Ok (RList [RBytes [0x20], RBytes [5]])"
    by (subst rlp_decode_iff) (simp_all del: rlp_encode.simps add: MAX_DEPTH_def)
  then show ?thesis
    using proof_walk_terminates [of "[[0xc2, 0x20, 0x05]]" "\<lambda>_. replicate 32 7" "replicate 32 7" _ "[1]"]
    by (auto simp: MAX_DEPTH_def)
qed

end
