(* ===== verification/Eth_Receipt.thy ===== *)
theory Eth_Receipt
  imports Eth_Mpt Codec
begin

text \<open>
  \<^verbatim>\<open>crates/qlc-ethereum/src/receipt.rs\<close>: the deposits a transaction receipt records. A deposit is a log of the
  deposit contract with the topic of the deposit event; every other log is passed over, and a log of the
  contract that has the wrong shape rejects the receipt.

  The Keccak-256 digest is the argument \<open>kec\<close>.
\<close>

section \<open>Deposits of a receipt\<close>

datatype receipt_error = ReceiptMalformed | NotSuccessful | NoDeposit | AmountOverflow | MultipleDeposits

record raw_deposit =
  raw_recipient :: bytes
  raw_amount :: u128
  raw_asset_id :: bytes
  raw_log_index :: u32

definition DEPOSIT_EVENT_SIGNATURE :: bytes where
  "DEPOSIT_EVENT_SIGNATURE = ascii ''QBridgeDeposit(bytes32,uint256,bytes16)''"

definition deposit_topic :: "(bytes \<Rightarrow> bytes) \<Rightarrow> bytes" where
  "deposit_topic kec = kec DEPOSIT_EVENT_SIGNATURE"

definition strip_type_prefix :: "bytes \<Rightarrow> bytes" where
  "strip_type_prefix bs = (if bs \<noteq> [] \<and> bs ! 0 < 0xc0 then drop 1 bs else bs)"

definition is_successful :: "rlp \<Rightarrow> bool" where
  "is_successful status = (case as_bytes status of Some b \<Rightarrow> b = [1] | None \<Rightarrow> False)"

text \<open>One round of the loop over the logs; \<open>None\<close> is \<open>continue\<close>.\<close>

definition scan_log ::
  "(bytes \<Rightarrow> bytes) \<Rightarrow> bytes \<Rightarrow> usize \<Rightarrow> rlp \<Rightarrow> (receipt_error, raw_deposit option) res" where
  "scan_log kec contract index log =
     (case as_list log of
        None \<Rightarrow> Err ReceiptMalformed
      | Some parts \<Rightarrow>
          if length parts \<noteq> 3 then Err ReceiptMalformed
          else
            and_then (ok_or ReceiptMalformed (as_bytes (parts ! 0))) (\<lambda>address.
            if address \<noteq> contract then Ok None
            else
              and_then (ok_or ReceiptMalformed (as_list (parts ! 1))) (\<lambda>topics.
              if length topics \<noteq> 2 then Ok None
              else
                and_then (ok_or ReceiptMalformed (as_bytes (topics ! 0))) (\<lambda>t0.
                if t0 \<noteq> deposit_topic kec then Ok None
                else
                  and_then (ok_or ReceiptMalformed (as_bytes (topics ! 1))) (\<lambda>recipient_bytes.
                  if length recipient_bytes \<noteq> 32 then Err ReceiptMalformed
                  else
                    and_then (ok_or ReceiptMalformed (as_bytes (parts ! 2))) (\<lambda>data.
                    if length data < 64 then Err ReceiptMalformed
                    else if list_ex (\<lambda>b. b \<noteq> 0) (take 16 data) then Err AmountOverflow
                    else Ok (Some \<lparr>
                      raw_recipient = recipient_bytes,
                      raw_amount = from_be_bytes (take 16 (drop 16 data)),
                      raw_asset_id = take 16 (drop 32 data),
                      raw_log_index = word_of_nat index\<rparr>)))))))"

fun scan_logs ::
  "(bytes \<Rightarrow> bytes) \<Rightarrow> bytes \<Rightarrow> usize \<Rightarrow> rlp list \<Rightarrow> (receipt_error, raw_deposit list) res" where
  "scan_logs kec contract index [] = Ok []"
| "scan_logs kec contract index (log # logs) =
     and_then (scan_log kec contract index log) (\<lambda>found.
     map_ok (\<lambda>ds. (case found of Some d \<Rightarrow> d # ds | None \<Rightarrow> ds)) (scan_logs kec contract (index + 1) logs))"

definition deposit_logs :: "(bytes \<Rightarrow> bytes) \<Rightarrow> bytes \<Rightarrow> bytes \<Rightarrow> (receipt_error, raw_deposit list) res" where
  "deposit_logs kec receipt_bytes contract =
     and_then (map_err (\<lambda>_. ReceiptMalformed) (rlp_decode (strip_type_prefix receipt_bytes))) (\<lambda>decoded.
     and_then (ok_or ReceiptMalformed (as_list decoded)) (\<lambda>fields.
     if length fields \<noteq> 4 then Err ReceiptMalformed
     else if \<not> is_successful (fields ! 0) then Err NotSuccessful
     else
       and_then (ok_or ReceiptMalformed (as_list (fields ! 3))) (\<lambda>logs.
       scan_logs kec contract 0 logs)))"

definition extract_deposit :: "(bytes \<Rightarrow> bytes) \<Rightarrow> bytes \<Rightarrow> bytes \<Rightarrow> (receipt_error, raw_deposit) res" where
  "extract_deposit kec receipt_bytes contract =
     and_then (deposit_logs kec receipt_bytes contract) (\<lambda>found.
       case found of [] \<Rightarrow> Err NoDeposit | [only] \<Rightarrow> Ok only | _ \<Rightarrow> Err MultipleDeposits)"

definition extract_deposit_at ::
  "(bytes \<Rightarrow> bytes) \<Rightarrow> bytes \<Rightarrow> bytes \<Rightarrow> u32 \<Rightarrow> (receipt_error, raw_deposit) res" where
  "extract_deposit_at kec receipt_bytes contract log_index =
     and_then (deposit_logs kec receipt_bytes contract) (\<lambda>found.
       ok_or NoDeposit (find (\<lambda>d. raw_log_index d = log_index) found))"

text \<open>The module \<open>fixtures\<close>: receipts with one deposit.\<close>

definition encode_log :: "bytes \<Rightarrow> bytes list \<Rightarrow> bytes \<Rightarrow> bytes" where
  "encode_log address topics data =
     encode_list [encode_bytes address, encode_list (map encode_bytes topics), encode_bytes data]"

definition deposit_data :: "u128 \<Rightarrow> bytes \<Rightarrow> bytes" where
  "deposit_data amount asset_id = replicate 16 0 @ to_be_bytes amount @ asset_id @ replicate 16 0"

definition deposit_receipt ::
  "(bytes \<Rightarrow> bytes) \<Rightarrow> bytes \<Rightarrow> bytes \<Rightarrow> u128 \<Rightarrow> bytes \<Rightarrow> ('e, bytes) res" where
  "deposit_receipt kec contract recipient amount asset_id =
     (let log = encode_log contract [deposit_topic kec, recipient] (deposit_data amount asset_id)
      in map_ok (\<lambda>gas. encode_list [encode_bytes [1], gas, encode_bytes (replicate 256 0), encode_list [log]])
           (encode_uint 21000))"

section \<open>Soundness\<close>

text \<open>A log that pays the deposit \<open>d\<close>.\<close>

definition pays :: "(bytes \<Rightarrow> bytes) \<Rightarrow> bytes \<Rightarrow> rlp \<Rightarrow> raw_deposit \<Rightarrow> bool" where
  "pays kec contract log d \<longleftrightarrow>
     (\<exists>data. log = RList [RBytes contract, RList [RBytes (deposit_topic kec), RBytes (raw_recipient d)], RBytes data] \<and>
        64 \<le> length data \<and> length (raw_recipient d) = 32 \<and>
        take 48 data = replicate 16 0 @ to_be_bytes (raw_amount d) @ raw_asset_id d)"

lemma list_of_2: "length xs = 2 \<Longrightarrow> xs = [xs ! 0, xs ! 1]"
  by (cases xs; cases "tl xs") (auto simp: numeral_2_eq_2)

lemma list_of_3: "length xs = 3 \<Longrightarrow> xs = [xs ! 0, xs ! 1, xs ! 2]"
  by (cases xs; cases "tl xs"; cases "tl (tl xs)") (auto simp: numeral_3_eq_3)

lemma list_of_4: "length xs = 4 \<Longrightarrow> xs = [xs ! 0, xs ! 1, xs ! 2, xs ! 3]"
  by (cases xs; cases "tl xs"; cases "tl (tl xs)"; cases "tl (tl (tl xs))") (auto simp: numeral_eq_Suc)

lemma as_bytes_Some [simp]: "as_bytes x = Some b \<longleftrightarrow> x = RBytes b"
  by (cases x) auto

lemma as_list_Some [simp]: "as_list x = Some xs \<longleftrightarrow> x = RList xs"
  by (cases x) auto

lemma to_from_be_16:
  assumes "length bs = 16"
  shows "to_be_bytes (from_be_bytes bs :: u128) = bs"
  using to_from_le_bytes [where 'l = 128, of "rev bs"] assms by (simp add: to_be_bytes_def from_be_bytes_def)

lemma take_16_16_16:
  assumes "64 \<le> length data"
  shows "take 48 data = take 16 data @ take 16 (drop 16 data) @ take 16 (drop 32 data)"
proof -
  have "take 48 data = take 16 data @ take 32 (drop 16 data)" using take_add [of 16 32 data] by simp
  also have "take 32 (drop 16 data) = take 16 (drop 16 data) @ take 16 (drop 32 data)"
    using take_add [of 16 16 "drop 16 data"] by simp
  finally show ?thesis .
qed

lemma scan_log_sound:
  assumes "scan_log kec contract index log = Ok (Some d)"
  shows "pays kec contract log d \<and> raw_log_index d = word_of_nat index"
proof -
  obtain parts topics data where log: "log = RList parts" and p: "length parts = 3" "parts ! 0 = RBytes contract"
      "parts ! 1 = RList topics" "parts ! 2 = RBytes data"
    and t: "length topics = 2" "topics ! 0 = RBytes (deposit_topic kec)" "topics ! 1 = RBytes (raw_recipient d)"
    and len: "64 \<le> length data" "length (raw_recipient d) = 32" and z: "\<forall>b \<in> set (take 16 data). b = 0"
    and d: "raw_amount d = from_be_bytes (take 16 (drop 16 data))" "raw_asset_id d = take 16 (drop 32 data)"
      "raw_log_index d = word_of_nat index"
    using assms by (auto simp: scan_log_def res_iffs list_ex_iff not_less split: option.splits if_splits)
  have "take 16 data = replicate 16 0" using z len(1) by (intro replicate_eqI) auto
  moreover have "to_be_bytes (raw_amount d) = take 16 (drop 16 data)"
    unfolding d(1) by (rule to_from_be_16) (use len(1) in simp)
  ultimately show ?thesis
    using list_of_3 [OF p(1)] list_of_2 [OF t(1)] log p t len d take_16_16_16 [OF len(1)]
    by (auto simp: pays_def)
qed

lemma scan_logs_sound:
  "scan_logs kec contract index logs = Ok ds \<Longrightarrow> d \<in> set ds \<Longrightarrow>
   \<exists>i < length logs. pays kec contract (logs ! i) d \<and> raw_log_index d = word_of_nat (index + i)"
proof (induction logs arbitrary: index ds)
  case (Cons log logs)
  obtain found rest' where f: "scan_log kec contract index log = Ok found"
    and r: "scan_logs kec contract (index + 1) logs = Ok rest'"
    and ds: "ds = (case found of Some d \<Rightarrow> d # rest' | None \<Rightarrow> rest')"
    using Cons.prems(1) by (auto simp: res_iffs)
  show ?case
  proof (cases "found = Some d")
    case True
    then show ?thesis using scan_log_sound f by (intro exI [of _ 0]) auto
  next
    case False
    then have "d \<in> set rest'" using Cons.prems(2) ds by (auto split: option.splits)
    then obtain i where "i < length logs" "pays kec contract (logs ! i) d" "raw_log_index d = word_of_nat (index + 1 + i)"
      using Cons.IH [OF r] by auto
    then show ?thesis by (intro exI [of _ "Suc i"]) auto
  qed
qed simp

definition receipt_pays :: "(bytes \<Rightarrow> bytes) \<Rightarrow> bytes \<Rightarrow> bytes \<Rightarrow> raw_deposit \<Rightarrow> bool" where
  "receipt_pays kec receipt_bytes contract d \<longleftrightarrow>
     (\<exists>gas bloom logs i. rlp_decode (strip_type_prefix receipt_bytes) = Ok (RList [RBytes [1], gas, bloom, RList logs]) \<and>
        i < length logs \<and> pays kec contract (logs ! i) d \<and> raw_log_index d = word_of_nat i)"

lemma deposit_logs_sound:
  assumes "deposit_logs kec bs contract = Ok ds" and "d \<in> set ds"
  shows "receipt_pays kec bs contract d"
proof -
  obtain fields logs where f: "rlp_decode (strip_type_prefix bs) = Ok (RList fields)" "length fields = 4"
    "fields ! 0 = RBytes [1]" "fields ! 3 = RList logs" and s: "scan_logs kec contract 0 logs = Ok ds"
    using assms(1) by (auto simp: deposit_logs_def res_iffs is_successful_def split: if_splits option.splits)
  then show ?thesis
    using scan_logs_sound [OF s assms(2)] list_of_4 [OF f(2)] by (auto simp: receipt_pays_def)
qed

lemma extract_deposit_at_sound:
  assumes "extract_deposit_at kec bs contract i = Ok d"
  shows "receipt_pays kec bs contract d \<and> raw_log_index d = i"
  using assms deposit_logs_sound
  by (auto simp: extract_deposit_at_def res_iffs find_Some_iff)

lemma scan_logs_not_Panic: "scan_logs kec contract index logs \<noteq> Panic"
proof (induction logs arbitrary: index)
  case (Cons log logs)
  have "scan_log kec contract index log \<noteq> Panic"
    by (auto simp: scan_log_def res_iffs split: option.split)
  with Cons show ?case by (auto simp: res_iffs)
qed simp

lemma deposit_logs_not_Panic: "deposit_logs kec bs contract \<noteq> Panic"
  by (auto simp: deposit_logs_def res_iffs rlp_decode_not_Panic scan_logs_not_Panic)

section \<open>Receipts with one deposit\<close>

definition receipt_rlp :: "(bytes \<Rightarrow> bytes) \<Rightarrow> bytes \<Rightarrow> bytes \<Rightarrow> bytes \<Rightarrow> rlp" where
  "receipt_rlp kec contract recipient data =
     RList [RBytes [1], RBytes (dropWhile (\<lambda>b. b = 0) (to_be_bytes (21000 :: u64))), RBytes (replicate 256 0),
       RList [RList [RBytes contract, RList [RBytes (deposit_topic kec), RBytes recipient], RBytes data]]]"

lemma deposit_receipt_rlp:
  "deposit_receipt kec contract recipient amount asset =
     Ok (rlp_encode (receipt_rlp kec contract recipient (deposit_data amount asset)))"
  by (simp add: deposit_receipt_def encode_uint_Ok receipt_rlp_def encode_log_def)

lemma length_encode_length: "length (encode_length n off) \<le> 9"
  using length_dropWhile_le [of "\<lambda>b. b = 0" "to_be_bytes (word_of_nat n :: u64)"]
  by (auto simp: encode_length_def Let_def to_be_bytes_def split: option.splits)

lemma length_encode_list: "length (encode_list xs) \<le> 9 + sum_list (map length xs)"
  using length_encode_length [of "length (concat xs)" "0xc0"] by (simp add: encode_list_def Let_def length_concat)

lemma receipt_rlp_short:
  assumes "length contract = 20" and "length recipient = 32" and "length data = 64" and "length (deposit_topic kec) = 32"
  shows "length (rlp_encode (receipt_rlp kec contract recipient data)) \<le> 600"
proof -
  let ?topics = "encode_list [encode_bytes (deposit_topic kec), encode_bytes recipient]"
  let ?log = "encode_list [encode_bytes contract, ?topics, encode_bytes data]"
  let ?gas = "dropWhile (\<lambda>b. b = 0) (to_be_bytes (21000 :: u64))"
  have "length ?topics \<le> 91"
    using length_encode_list [of "[encode_bytes (deposit_topic kec), encode_bytes recipient]"] assms
      length_encode_bytes [of "deposit_topic kec"] length_encode_bytes [of recipient] by simp
  then have "length ?log \<le> 202"
    using length_encode_list [of "[encode_bytes contract, ?topics, encode_bytes data]"] assms
      length_encode_bytes [of contract] length_encode_bytes [of data] by simp
  moreover have "length ?gas \<le> 8"
    using length_dropWhile_le [of "\<lambda>b. b = 0" "to_be_bytes (21000 :: u64)"] by (simp add: to_be_bytes_def)
  ultimately show ?thesis
    using length_encode_list [of "[encode_bytes [1], encode_bytes ?gas, encode_bytes (replicate 256 0), encode_list [?log]]"]
      length_encode_list [of "[?log]"] length_encode_bytes [of "[1]"] length_encode_bytes [of ?gas]
      length_encode_bytes [of "replicate 256 0"] by (simp add: receipt_rlp_def)
qed

lemma list_prefix:
  assumes "length (rlp_encode (RList xs)) \<le> usize_max"
  shows "\<not> rlp_encode (RList xs) ! 0 < 0xc0"
  using list_body_complete [of "rlp_encode (RList xs)" "concat (map rlp_encode xs)" "[]"] assms
  by (simp add: encode_list_def Let_def)

lemma strip_receipt:
  assumes "length (rlp_encode (receipt_rlp kec contract recipient data)) \<le> usize_max"
  shows "strip_type_prefix (rlp_encode (receipt_rlp kec contract recipient data)) = rlp_encode (receipt_rlp kec contract recipient data)"
  using list_prefix assms unfolding receipt_rlp_def strip_type_prefix_def by presburger

lemma scan_receipt:
  assumes "length recipient = 32" and "length asset = 16"
  shows "scan_log kec contract 0 (RList [RBytes contract, RList [RBytes (deposit_topic kec), RBytes recipient], RBytes (deposit_data amount asset)]) =
    Ok (Some \<lparr>raw_recipient = recipient, raw_amount = amount, raw_asset_id = asset, raw_log_index = 0\<rparr>)"
proof -
  have l: "length (to_be_bytes amount) = 16" by (simp add: to_be_bytes_def)
  have "from_be_bytes (to_be_bytes amount) = amount"
    by (simp add: from_be_bytes_def to_be_bytes_def from_to_le_bytes)
  then show ?thesis using assms l by (simp add: scan_log_def deposit_data_def list_ex_iff)
qed

text \<open>A receipt made for a deposit is read back exactly: its single log yields the recipient, the amount
  and the asset it was made for, both when the only deposit is asked for and when the log is named by its
  index.\<close>

theorem receipt_round_trip:
  assumes "length contract = 20" and "length recipient = 32" and "length asset = 16" and "\<And>x. length (kec x) = 32"
  shows "\<exists>bs. (deposit_receipt kec contract recipient amount asset :: (receipt_error, bytes) res) = Ok bs \<and>
    extract_deposit kec bs contract =
      Ok \<lparr>raw_recipient = recipient, raw_amount = amount, raw_asset_id = asset, raw_log_index = 0\<rparr> \<and>
    extract_deposit_at kec bs contract 0 =
      Ok \<lparr>raw_recipient = recipient, raw_amount = amount, raw_asset_id = asset, raw_log_index = 0\<rparr>"
proof -
  let ?x = "receipt_rlp kec contract recipient (deposit_data amount asset)"
  have "length (deposit_data amount asset) = 64" using assms(3) by (simp add: deposit_data_def to_be_bytes_def)
  then have short: "length (rlp_encode ?x) \<le> 600"
    using assms by (intro receipt_rlp_short) (simp_all add: deposit_topic_def)
  then have "rlp_decode (rlp_encode ?x) = Ok ?x"
    by (subst rlp_decode_iff) (simp_all add: receipt_rlp_def MAX_DEPTH_def)
  then have "deposit_logs kec (rlp_encode ?x) contract =
      Ok [\<lparr>raw_recipient = recipient, raw_amount = amount, raw_asset_id = asset, raw_log_index = 0\<rparr>]"
    using strip_receipt [of kec contract recipient "deposit_data amount asset"] short scan_receipt [OF assms(2,3), of kec contract amount]
    by (simp add: deposit_logs_def) (simp add: receipt_rlp_def is_successful_def)
  then show ?thesis by (simp add: deposit_receipt_rlp extract_deposit_def extract_deposit_at_def)
qed

theorem receipt_round_trip_witness:
  "\<exists>bs. (deposit_receipt (\<lambda>_. replicate 32 7) (replicate 20 9) (replicate 32 5) 1000 (replicate 16 3) :: (receipt_error, bytes) res) = Ok bs \<and>
    extract_deposit (\<lambda>_. replicate 32 7) bs (replicate 20 9) =
      Ok \<lparr>raw_recipient = replicate 32 5, raw_amount = 1000, raw_asset_id = replicate 16 3, raw_log_index = 0\<rparr>"
  using receipt_round_trip [of "replicate 20 9" "replicate 32 5" "replicate 16 3" "\<lambda>_. replicate 32 7" 1000] by auto

end
