(* ===== verification/Exit_Payout.thy ===== *)
theory Exit_Payout
  imports Exit_Store Btc_Deposit Eth_Receipt
begin

text \<open>
  \<^verbatim>\<open>crates/q-exits/src/payout.rs\<close>: what a vault shows to have its collateral back. An attestation says
  that an exit was paid on the foreign chain; the Bitcoin watcher gives one only for a release that the
  light client of \<open>Btc_Chain\<close> and \<open>Btc_Tx\<close> verifies. The exit statement of \<^verbatim>\<open>exits.rs\<close> stands here, since
  the watchers read it.

  The SHAKE-256 digest and the double SHA-256 are arguments, \<open>shake\<close> and \<open>dsha\<close>.
\<close>

section \<open>Statements\<close>

definition EXIT_STATEMENT_VERSION :: u8 where "EXIT_STATEMENT_VERSION = 1"

record exit_statement =
  es_version :: u8
  es_corridor :: u32
  es_asset_id :: bytes
  es_amount :: u128
  es_holder :: bytes
  es_destination :: bytes
  es_burn_ref :: bytes
  es_finalized_height :: u64

definition statement_validate :: "exit_statement \<Rightarrow> (exit_error, unit) res" where
  "statement_validate s =
     (if es_version s \<noteq> EXIT_STATEMENT_VERSION then Err (ExitBadVersion (es_version s))
      else if es_corridor s = 0 then Err ZeroCorridor
      else if es_amount s = 0 then Err ExitZeroAmount
      else if es_asset_id s = replicate 16 0 then Err ExitZeroAsset
      else if es_holder s = replicate 32 0 then Err ZeroBeneficiary
      else if es_destination s = replicate 32 0 then Err ZeroBeneficiary
      else if es_burn_ref s = replicate 32 0 then Err ZeroBurnRef
      else Ok ())"

section \<open>Attestations\<close>

definition PAYOUT_DOMAIN :: bytes where "PAYOUT_DOMAIN = ascii ''QUANTOVA/Q-ORACLE/EXIT-PAYOUT/v1''"
definition PAYOUT_VERSION :: u8 where "PAYOUT_VERSION = 1"
definition PAYOUT_ENCODED_LEN :: usize where "PAYOUT_ENCODED_LEN = 141"

record payout_attestation =
  pa_version :: u8
  pa_corridor :: u32
  pa_asset_id :: bytes
  pa_amount :: u128
  pa_beneficiary :: bytes
  pa_burn_ref :: bytes
  pa_foreign_ref :: bytes
  pa_proof_height :: u64

definition payout_encode :: "payout_attestation \<Rightarrow> bytes" where
  "payout_encode a =
     writer_u8 (pa_version a) @
     writer_u32 (pa_corridor a) @
     writer_fixed (pa_asset_id a) @
     writer_u128 (pa_amount a) @
     writer_fixed (pa_beneficiary a) @
     writer_fixed (pa_burn_ref a) @
     writer_fixed (pa_foreign_ref a) @
     writer_u64 (pa_proof_height a)"

definition payout_fields :: "(codec_error, payout_attestation) reading" where
  "payout_fields =
     rd_bind reader_u8 (\<lambda>version.
     rd_bind reader_u32 (\<lambda>corridor.
     rd_bind reader_array16 (\<lambda>asset_id.
     rd_bind reader_u128 (\<lambda>amount.
     rd_bind reader_array32 (\<lambda>beneficiary.
     rd_bind reader_array32 (\<lambda>burn_ref.
     rd_bind reader_array32 (\<lambda>foreign_ref.
     rd_bind reader_u64 (\<lambda>proof_height.
     rd_return \<lparr>
       pa_version = version, pa_corridor = corridor, pa_asset_id = asset_id, pa_amount = amount,
       pa_beneficiary = beneficiary, pa_burn_ref = burn_ref, pa_foreign_ref = foreign_ref,
       pa_proof_height = proof_height\<rparr>))))))))"

definition payout_decode :: "bytes \<Rightarrow> (exit_error, payout_attestation) res" where
  "payout_decode input =
     map_err InvalidArtifact
       (and_then (payout_fields (cursor_new input)) (\<lambda>(a, c).
        and_then (reader_finish c) (\<lambda>_. Ok a)))"

definition payout_digest :: "(bytes \<Rightarrow> bytes) \<Rightarrow> payout_attestation \<Rightarrow> bytes" where
  "payout_digest shake a = shake (writer_fixed PAYOUT_DOMAIN @ writer_fixed (payout_encode a))"

definition payout_validate :: "payout_attestation \<Rightarrow> (exit_error, unit) res" where
  "payout_validate a =
     (if pa_version a \<noteq> PAYOUT_VERSION then Err (ExitBadVersion (pa_version a))
      else if pa_corridor a = 0 then Err ZeroCorridor
      else if pa_amount a = 0 then Err ExitZeroAmount
      else if pa_asset_id a = replicate 16 0 then Err ExitZeroAsset
      else if pa_beneficiary a = replicate 32 0 then Err ZeroBeneficiary
      else if pa_burn_ref a = replicate 32 0 then Err ZeroBurnRef
      else Ok ())"

definition covers :: "payout_attestation \<Rightarrow> exit_statement \<Rightarrow> bool" where
  "covers a s \<longleftrightarrow>
     pa_corridor a = es_corridor s \<and> pa_asset_id a = es_asset_id s \<and> pa_amount a = es_amount s \<and>
     pa_beneficiary a = es_destination s \<and> pa_burn_ref a = es_burn_ref s"

text \<open>The trait of the watchers: the two methods.\<close>

record payout_watcher =
  pw_corridor :: u32
  pw_confirm :: "exit_statement \<Rightarrow> payout_attestation option"

section \<open>Bitcoin releases\<close>

datatype payout_proof_error =
    WrongCorridor
  | WrongAsset
  | PayoutAmountMismatch
  | BeneficiaryMismatch
  | ReferenceMismatch
  | PayoutMalformed
  | UnboundPayout
  | TxidMismatch
  | MissingReceipt
  | ReusedPayout
  | EvmCorridorDisabled
  | Spv spv_error
  | Mpt mpt_error
  | Receipt receipt_error

record verified_payout =
  vp_asset_id :: "bytes option"
  vp_amount :: u128
  vp_beneficiary :: bytes
  vp_burn_ref :: "bytes option"
  vp_foreign_ref :: bytes
  vp_proof_height :: u64

record bitcoin_release_proof =
  rp_headers :: "block_header list"
  rp_start_height :: u32
  rp_release_height :: u32
  rp_branch :: "merkle_step list"
  rp_raw_tx :: bytes
  rp_coinbase_tx :: bytes
  rp_coinbase_branch :: "merkle_step list"

record bitcoin_output =
  bo_value :: u64
  bo_script :: bytes

text \<open>\<open>ok()\<close>: the error is dropped.\<close>

fun res_ok :: "('e, 'a) res \<Rightarrow> ('f, 'a option) res" where
  "res_ok (Ok a) = Ok (Some a)"
| "res_ok (Err e) = Ok None"
| "res_ok Panic = Panic"

definition parse_bitcoin_outputs :: "bytes \<Rightarrow> ('e, bitcoin_output list option) res" where
  "parse_bitcoin_outputs raw =
     map_ok (map_option (\<lambda>tx. map (\<lambda>o'. \<lparr>bo_value = to_value o', bo_script = to_script o'\<rparr>) (tx_outputs tx)))
       (res_ok (tx_parse raw))"

definition bitcoin_txid :: "(bytes \<Rightarrow> bytes) \<Rightarrow> bytes \<Rightarrow> ('e, bytes option) res" where
  "bitcoin_txid dsha raw = map_ok (map_option (tx_txid dsha)) (res_ok (tx_parse raw))"

definition OP_1 :: u8 where "OP_1 = 0x51"
definition OP_RETURN :: u8 where "OP_RETURN = 0x6a"
definition PUSH_32 :: u8 where "PUSH_32 = 0x20"

definition word_under :: "bytes \<Rightarrow> u8 \<Rightarrow> bytes option" where
  "word_under script opcode =
     (if length script \<noteq> 34 \<or> script ! 0 \<noteq> opcode \<or> script ! 1 \<noteq> PUSH_32 then None
      else Some (take 32 (drop 2 script)))"

definition release_reference :: "bitcoin_output list \<Rightarrow> bytes option" where
  "release_reference outputs =
     (case List.map_filter (\<lambda>output. word_under (bo_script output) OP_RETURN) outputs of
        [] \<Rightarrow> None
      | reference # references \<Rightarrow> if references \<noteq> [] then None else Some reference)"

definition payout_value :: "bitcoin_output list \<Rightarrow> bytes \<Rightarrow> u128 \<Rightarrow> (payout_proof_error, u64) res" where
  "payout_value outputs beneficiary amount =
     (let to_beneficiary = map bo_value (filter (\<lambda>output. word_under (bo_script output) OP_1 = Some beneficiary) outputs);
          exact = length (filter (\<lambda>value. (ucast value :: u128) = amount) to_beneficiary)
      in if exact = 1 then Ok (ucast amount)
         else if exact = 0 \<and> to_beneficiary = [] then Err BeneficiaryMismatch
         else if exact = 0 then Err PayoutAmountMismatch
         else Err UnboundPayout)"

definition release_burn_ref :: "bitcoin_release_proof \<Rightarrow> ('e, bytes option) res" where
  "release_burn_ref r =
     map_ok (\<lambda>outputs. Option.bind outputs release_reference) (parse_bitcoin_outputs (rp_raw_tx r))"

definition pinned_header :: "bitcoin_release_proof \<Rightarrow> checkpoint \<Rightarrow> block_header option" where
  "pinned_header r cp =
     (if cp_height cp < rp_start_height r then None
      else let index = unat (cp_height cp - rp_start_height r) in
        if index < length (rp_headers r) then Some (rp_headers r ! index) else None)"

definition release_verify ::
  "(bytes \<Rightarrow> bytes) \<Rightarrow> bitcoin_release_proof \<Rightarrow> network_params_t \<Rightarrow> checkpoint \<Rightarrow> u32 \<Rightarrow> bytes \<Rightarrow> u128 \<Rightarrow>
   (payout_proof_error, verified_payout) res" where
  "release_verify dsha r p cp confirmation_depth beneficiary amount =
     (if np_requires_pinned_checkpoint p \<and> \<not> checkpoint_is_pinned (np_network p) cp
      then Err (Spv CheckpointNotArmed)
      else
      and_then (ok_or (Spv CheckpointNotInChain) (pinned_header r cp)) (\<lambda>pinned.
      if block_hash dsha pinned \<noteq> cp_hash cp then Err (Spv CheckpointMismatch)
      else
      and_then (map_err Spv (verify_chain dsha (rp_headers r) (rp_start_height r) p)) (\<lambda>chain.
      and_then (map_err Spv (anchored_to dsha chain cp)) (\<lambda>_.
      and_then (map_err Spv (tx_parse (rp_coinbase_tx r))) (\<lambda>coinbase.
      if \<not> is_coinbase coinbase \<or> list_ex ms_sibling_on_left (rp_coinbase_branch r) then Err PayoutMalformed
      else
      and_then (parse_bitcoin_outputs (rp_raw_tx r)) (\<lambda>parsed.
      and_then (ok_or PayoutMalformed parsed) (\<lambda>outputs.
      and_then (ok_or UnboundPayout (release_reference outputs)) (\<lambda>burn_ref.
      and_then (payout_value outputs beneficiary amount) (\<lambda>value.
      let depth = confirmations_for (ucast value) confirmation_depth in
      and_then (map_err Spv (verify_deposit dsha chain (rp_release_height r) (tx_txid dsha coinbase)
                               (rp_coinbase_branch r) depth)) (\<lambda>_.
      if length (rp_branch r) \<noteq> length (rp_coinbase_branch r) then Err (Spv MerkleMismatch)
      else
      and_then (bitcoin_txid dsha (rp_raw_tx r)) (\<lambda>found.
      and_then (ok_or PayoutMalformed found) (\<lambda>txid.
      and_then (map_err Spv (verify_deposit dsha chain (rp_release_height r) txid (rp_branch r) depth)) (\<lambda>confirmed.
      Ok \<lparr>vp_asset_id = None, vp_amount = ucast value, vp_beneficiary = beneficiary,
          vp_burn_ref = Some burn_ref, vp_foreign_ref = txid,
          vp_proof_height = ucast (cd_deposit_height confirmed)\<rparr>)))))))))))))"

section \<open>The watchers\<close>

record bitcoin_payout_watcher =
  bw_corridor :: u32
  bw_asset_id :: bytes
  bw_params :: network_params_t
  bw_checkpoint :: checkpoint
  bw_confirmation_depth :: u32
  bw_releases :: "bitcoin_release_proof list"

definition bitcoin_payout_watcher_new ::
  "u32 \<Rightarrow> bytes \<Rightarrow> network_params_t \<Rightarrow> checkpoint \<Rightarrow> u32 \<Rightarrow> bitcoin_release_proof list \<Rightarrow> bitcoin_payout_watcher" where
  "bitcoin_payout_watcher_new corridor asset_id p cp confirmation_depth releases =
     \<lparr>bw_corridor = corridor, bw_asset_id = asset_id, bw_params = p, bw_checkpoint = cp,
      bw_confirmation_depth = confirmation_depth, bw_releases = releases\<rparr>"

fun attest_loop ::
  "(bytes \<Rightarrow> bytes) \<Rightarrow> bitcoin_payout_watcher \<Rightarrow> exit_statement \<Rightarrow> bitcoin_release_proof list \<Rightarrow> payout_proof_error \<Rightarrow>
   (payout_proof_error, payout_attestation) res" where
  "attest_loop dsha w s [] latest = Err latest"
| "attest_loop dsha w s (release # releases) latest =
     (case release_verify dsha release (bw_params w) (bw_checkpoint w) (bw_confirmation_depth w)
             (es_destination s) (es_amount s) of
        Panic \<Rightarrow> Panic
      | Err e \<Rightarrow> attest_loop dsha w s releases e
      | Ok payout \<Rightarrow>
          if vp_amount payout \<noteq> es_amount s then attest_loop dsha w s releases PayoutAmountMismatch
          else if vp_beneficiary payout \<noteq> es_destination s then attest_loop dsha w s releases BeneficiaryMismatch
          else if vp_burn_ref payout \<noteq> Some (es_burn_ref s) then attest_loop dsha w s releases ReferenceMismatch
          else Ok \<lparr>pa_version = PAYOUT_VERSION, pa_corridor = bw_corridor w, pa_asset_id = bw_asset_id w,
                   pa_amount = vp_amount payout, pa_beneficiary = vp_beneficiary payout,
                   pa_burn_ref = es_burn_ref s, pa_foreign_ref = vp_foreign_ref payout,
                   pa_proof_height = vp_proof_height payout\<rparr>)"

definition bitcoin_attest ::
  "(bytes \<Rightarrow> bytes) \<Rightarrow> bitcoin_payout_watcher \<Rightarrow> exit_statement \<Rightarrow> (payout_proof_error, payout_attestation) res" where
  "bitcoin_attest dsha w s =
     (if es_corridor s \<noteq> bw_corridor w then Err WrongCorridor
      else if es_asset_id s \<noteq> bw_asset_id w then Err WrongAsset
      else attest_loop dsha w s (bw_releases w) MissingReceipt)"

text \<open>\<open>confirm\<close> is \<open>attest\<close> without its error; \<open>bitcoin_attest_no_panic\<close> below is why a panic of \<open>attest\<close> is not
  one more outcome of it.\<close>

definition bitcoin_watcher :: "(bytes \<Rightarrow> bytes) \<Rightarrow> bitcoin_payout_watcher \<Rightarrow> payout_watcher" where
  "bitcoin_watcher dsha w = \<lparr>pw_corridor = bw_corridor w,
     pw_confirm = (\<lambda>s. case bitcoin_attest dsha w s of Ok a \<Rightarrow> Some a | _ \<Rightarrow> None)\<rparr>"

record evm_release_proof =
  er_receipts_root :: bytes
  er_receipt_index :: u64
  er_receipt_proof :: "bytes list"
  er_block_number :: u64
  er_release_contract :: bytes

definition evm_release_verify :: "evm_release_proof \<Rightarrow> (payout_proof_error, verified_payout) res" where
  "evm_release_verify r = Err EvmCorridorDisabled"

record evm_payout_watcher =
  ew_corridor :: u32
  ew_releases :: "evm_release_proof list"

fun evm_attest_loop ::
  "evm_payout_watcher \<Rightarrow> exit_statement \<Rightarrow> evm_release_proof list \<Rightarrow> payout_proof_error \<Rightarrow>
   (payout_proof_error, payout_attestation) res" where
  "evm_attest_loop w s [] latest = Err latest"
| "evm_attest_loop w s (release # releases) latest =
     (case evm_release_verify release of
        Panic \<Rightarrow> Panic
      | Err e \<Rightarrow> evm_attest_loop w s releases e
      | Ok payout \<Rightarrow>
          if vp_asset_id payout \<noteq> Some (es_asset_id s) then evm_attest_loop w s releases WrongAsset
          else if vp_amount payout \<noteq> es_amount s then evm_attest_loop w s releases PayoutAmountMismatch
          else if vp_beneficiary payout \<noteq> es_destination s then evm_attest_loop w s releases BeneficiaryMismatch
          else if vp_burn_ref payout \<noteq> Some (es_burn_ref s) then evm_attest_loop w s releases ReferenceMismatch
          else Ok \<lparr>pa_version = PAYOUT_VERSION, pa_corridor = ew_corridor w, pa_asset_id = es_asset_id s,
                   pa_amount = vp_amount payout, pa_beneficiary = vp_beneficiary payout,
                   pa_burn_ref = es_burn_ref s, pa_foreign_ref = vp_foreign_ref payout,
                   pa_proof_height = vp_proof_height payout\<rparr>)"

definition evm_attest :: "evm_payout_watcher \<Rightarrow> exit_statement \<Rightarrow> (payout_proof_error, payout_attestation) res" where
  "evm_attest w s =
     (if es_corridor s \<noteq> ew_corridor w then Err WrongCorridor
      else evm_attest_loop w s (ew_releases w) MissingReceipt)"

definition evm_watcher :: "evm_payout_watcher \<Rightarrow> payout_watcher" where
  "evm_watcher w = \<lparr>pw_corridor = ew_corridor w,
     pw_confirm = (\<lambda>s. case evm_attest w s of Ok a \<Rightarrow> Some a | _ \<Rightarrow> None)\<rparr>"

section \<open>The codec of the attestation\<close>

definition payout_wf :: "payout_attestation \<Rightarrow> bool" where
  "payout_wf a \<longleftrightarrow> length (pa_asset_id a) = 16 \<and> length (pa_beneficiary a) = 32 \<and>
     length (pa_burn_ref a) = 32 \<and> length (pa_foreign_ref a) = 32"

interpretation payout_field: field_codec payout_fields payout_encode payout_wf
proof unfold_locales
  show "reads payout_fields a (payout_encode a)" if "payout_wf a" for a
    unfolding payout_fields_def payout_encode_def
    by (intro field_reads field_reads_last reads_returnI) (use that in \<open>simp_all add: payout_wf_def\<close>)
  show "parses payout_fields (\<lambda>a bs. payout_wf a \<and> bs = payout_encode a)"
    unfolding payout_fields_def by (intro parses_intros) (simp_all add: payout_encode_def payout_wf_def)
  show "safe payout_fields" unfolding payout_fields_def by (intro safe_intros)
qed

lemma length_payout_encode: "payout_wf a \<Longrightarrow> length (payout_encode a) = PAYOUT_ENCODED_LEN"
  by (simp add: payout_encode_def writer_defs payout_wf_def PAYOUT_ENCODED_LEN_def)

lemma field_decode_iff:
  assumes "field_codec d enc valid" "length bs \<le> usize_max"
  shows "and_then (d (cursor_new bs)) (\<lambda>(a, c). and_then (reader_finish c) (\<lambda>_. Ok a)) = Ok a \<longleftrightarrow> valid a \<and> bs = enc a"
    and "and_then (d (cursor_new bs)) (\<lambda>(a, c). and_then (reader_finish c) (\<lambda>_. Ok a)) \<noteq> Panic"
proof -
  have d: "\<And>a. valid a \<Longrightarrow> reads d a (enc a)" "parses d (\<lambda>a bs. valid a \<and> bs = enc a)" "safe d"
    using assms(1) by (auto simp: field_codec_def)
  show "and_then (d (cursor_new bs)) (\<lambda>(a, c). and_then (reader_finish c) (\<lambda>_. Ok a)) = Ok a \<longleftrightarrow> valid a \<and> bs = enc a"
  proof
    assume "and_then (d (cursor_new bs)) (\<lambda>(a, c). and_then (reader_finish c) (\<lambda>_. Ok a)) = Ok a"
    then obtain c where c: "d (cursor_new bs) = Ok (a, c)" "cpos c = length (cbuf c)"
      by (auto simp: reader_finish_def and_then_Ok_iff split: if_splits)
    show "valid a \<and> bs = enc a" by (rule parses_whole [OF d(2) assms(2) c])
  next
    assume "valid a \<and> bs = enc a"
    with d(1) assms(2) obtain c where "d (cursor_new bs) = Ok (a, c)" "cpos c = length (cbuf c)"
      using reads_whole [of d a bs] by blast
    then show "and_then (d (cursor_new bs)) (\<lambda>(a, c). and_then (reader_finish c) (\<lambda>_. Ok a)) = Ok a"
      by (simp add: reader_finish_def)
  qed
  show "and_then (d (cursor_new bs)) (\<lambda>(a, c). and_then (reader_finish c) (\<lambda>_. Ok a)) \<noteq> Panic"
    using safe_Panic [OF d(3), of "cursor_new bs"] assms(2) by (auto simp: reader_finish_def and_then_Panic_iff)
qed

lemma payout_decode_iff:
  "length bs \<le> usize_max \<Longrightarrow> payout_decode bs = Ok a \<longleftrightarrow> payout_wf a \<and> bs = payout_encode a"
  "length bs \<le> usize_max \<Longrightarrow> payout_decode bs \<noteq> Panic"
  using field_decode_iff [OF payout_field.field_codec_axioms] by (simp_all add: payout_decode_def map_err_Ok_iff map_err_Panic_iff)

section \<open>What a verified release shows\<close>

lemma word_under_iff:
  "word_under script opcode = Some w \<longleftrightarrow> script = opcode # PUSH_32 # w \<and> length w = 32"
proof
  assume "word_under script opcode = Some w"
  then have s: "length script = 34" "script ! 0 = opcode" "script ! 1 = PUSH_32" "w = take 32 (drop 2 script)"
    by (auto simp: word_under_def split: if_splits)
  then obtain a b r where "script = a # b # r" "length r = 32"
    by (cases script rule: remdups_adj.cases) auto
  with s show "script = opcode # PUSH_32 # w \<and> length w = 32" by simp
qed (simp add: word_under_def)

text \<open>The outputs of a transaction that pay \<open>amount\<close> to the Taproot key \<open>destination\<close>, and those that carry a
  32-byte word.\<close>

definition pays_exactly :: "tx_output list \<Rightarrow> bytes \<Rightarrow> u128 \<Rightarrow> nat" where
  "pays_exactly os destination amount =
     length (filter (\<lambda>o'. to_script o' = [0x51, 0x20] @ destination \<and> length destination = 32 \<and>
       unat (to_value o') = unat amount) os)"

definition carried_words :: "tx_output list \<Rightarrow> bytes list" where
  "carried_words os = map (\<lambda>o'. drop 2 (to_script o'))
     (filter (\<lambda>o'. length (to_script o') = 34 \<and> take 2 (to_script o') = [0x6a, 0x20]) os)"

abbreviation outputs_of :: "tx_output list \<Rightarrow> bitcoin_output list" where
  "outputs_of os \<equiv> map (\<lambda>o'. \<lparr>bo_value = to_value o', bo_script = to_script o'\<rparr>) os"

lemma parse_bitcoin_outputs_iff:
  "parse_bitcoin_outputs raw = Ok (Some outputs) \<longleftrightarrow>
     (\<exists>tx. tx_parse raw = Ok tx \<and> outputs = outputs_of (tx_outputs tx))"
  by (cases "tx_parse raw") (auto simp: parse_bitcoin_outputs_def)

lemma bitcoin_txid_iff:
  "bitcoin_txid dsha raw = Ok (Some txid) \<longleftrightarrow> (\<exists>tx. tx_parse raw = Ok tx \<and> txid = dsha (legacy_bytes tx))"
  by (cases "tx_parse raw") (auto simp: bitcoin_txid_def tx_txid_def)

lemma map_filter_words:
  "List.map_filter (\<lambda>output. word_under (bo_script output) OP_RETURN) (outputs_of os) = carried_words os"
proof (induction os)
  case (Cons o' os)
  have "word_under (to_script o') OP_RETURN =
      (if length (to_script o') = 34 \<and> take 2 (to_script o') = [0x6a, 0x20] then Some (drop 2 (to_script o')) else None)"
    by (cases "to_script o'" rule: remdups_adj.cases) (auto simp: word_under_def OP_RETURN_def PUSH_32_def)
  with Cons show ?case by (simp add: carried_words_def List.map_filter_simps)
qed (simp add: carried_words_def List.map_filter_simps)

lemma release_reference_iff: "release_reference (outputs_of os) = Some r \<longleftrightarrow> carried_words os = [r]"
  unfolding release_reference_def map_filter_words by (auto split: list.splits)

lemma exact_outputs:
  "length (filter (\<lambda>value. (ucast value :: u128) = amount)
     (map bo_value (filter (\<lambda>output. word_under (bo_script output) OP_1 = Some beneficiary) (outputs_of os)))) =
   pays_exactly os beneficiary amount"
  by (induction os)
    (auto simp: pays_exactly_def word_under_iff OP_1_def PUSH_32_def word_unat_eq_iff unat_ucast_u128)

lemma payout_value_Ok:
  assumes "payout_value (outputs_of os) beneficiary amount = Ok v"
  shows "pays_exactly os beneficiary amount = 1 \<and> ucast v = amount"
proof -
  have one: "pays_exactly os beneficiary amount = 1" and v: "v = ucast amount"
    using assms unfolding payout_value_def Let_def exact_outputs by (simp_all split: if_splits)
  have "filter (\<lambda>o'. to_script o' = [0x51, 0x20] @ beneficiary \<and> length beneficiary = 32 \<and> unat (to_value o') = unat amount) os \<noteq> []"
    using one by (auto simp: pays_exactly_def)
  then obtain o' where "o' \<in> set os" "unat (to_value o') = unat amount" by (auto simp: filter_empty_conv)
  then have "ucast (to_value o') = amount" by (simp add: word_unat_eq_iff unat_ucast_u128)
  moreover have "(ucast (ucast (to_value o') :: u128) :: u64) = to_value o'" 
  proof (rule ucast_down_up)
    have "unat (to_value o') < 2 ^ 64" using unsigned_less [of "to_value o'", where ?'a = nat] by simp
    then show "unat (to_value o') < 2 ^ LENGTH(128)" by simp
  qed
  ultimately show ?thesis using one v by metis
qed

lemma tx_output_bound:
  assumes "tx_shape tx" "o' \<in> set (tx_outputs tx)"
  shows "unat (to_value o') \<le> 2100000000000000"
proof -
  have "unat (to_value o') \<le> outputs_total (tx_outputs tx)"
    unfolding outputs_total_def using assms(2) by (intro member_le_sum_list) auto
  also have "\<dots> \<le> 2100000000000000" using assms(1) by (simp add: tx_shape_def MAX_MONEY_def)
  finally show ?thesis .
qed

lemma release_verify_parts:
  assumes "release_verify dsha r p cp base beneficiary amount = Ok v"
  obtains chain tx burn_ref c where "rp_headers r \<noteq> []" "\<not> np_requires_pinned_checkpoint p"
    "verify_chain dsha (rp_headers r) (rp_start_height r) p = Ok chain" "anchored_to dsha chain cp = Ok ()"
    "tx_parse (rp_raw_tx r) = Ok tx" "carried_words (tx_outputs tx) = [burn_ref]"
    "pays_exactly (tx_outputs tx) beneficiary amount = 1"
    "verify_deposit dsha chain (rp_release_height r) (dsha (legacy_bytes tx)) (rp_branch r) (confirmations_for amount base) = Ok c"
    "v = \<lparr>vp_asset_id = None, vp_amount = amount, vp_beneficiary = beneficiary, vp_burn_ref = Some burn_ref,
       vp_foreign_ref = dsha (legacy_bytes tx), vp_proof_height = ucast (cd_deposit_height c)\<rparr>"
proof -
  have ne: "rp_headers r \<noteq> []"
    using assms by (auto simp: release_verify_def and_then_Ok_iff ok_or_Ok_iff pinned_header_def split: if_splits)
  from assms obtain chain tx ref v' c where p: "\<not> np_requires_pinned_checkpoint p"
    "verify_chain dsha (rp_headers r) (rp_start_height r) p = Ok chain" "anchored_to dsha chain cp = Ok ()"
    and tx: "tx_parse (rp_raw_tx r) = Ok tx" "carried_words (tx_outputs tx) = [ref]"
    "payout_value (outputs_of (tx_outputs tx)) beneficiary amount = Ok v'"
    "verify_deposit dsha chain (rp_release_height r) (dsha (legacy_bytes tx)) (rp_branch r) (confirmations_for (ucast v') base) = Ok c"
    and v: "v = \<lparr>vp_asset_id = None, vp_amount = ucast v', vp_beneficiary = beneficiary, vp_burn_ref = Some ref,
       vp_foreign_ref = dsha (legacy_bytes tx), vp_proof_height = ucast (cd_deposit_height c)\<rparr>"
    by (auto simp: release_verify_def and_then_Ok_iff map_err_Ok_iff ok_or_Ok_iff Let_def checkpoint_is_pinned_def
        PINNED_CHECKPOINTS_def parse_bitcoin_outputs_iff bitcoin_txid_iff release_reference_iff split: if_splits)
  from payout_value_Ok [OF tx(3)] have "pays_exactly (tx_outputs tx) beneficiary amount = 1" "ucast v' = amount" by simp_all
  with ne p tx v show ?thesis by (intro that [of chain tx ref c]) simp_all
qed

lemma release_verify_first:
  assumes "release_verify dsha r p cp base beneficiary amount = Ok v"
    and "verify_chain dsha (rp_headers r) (rp_start_height r) p = Ok chain"
  shows "\<exists>first c. tx_parse (rp_coinbase_tx r) = Ok first \<and> is_coinbase first \<and>
    (\<forall>s\<in>set (rp_coinbase_branch r). \<not> ms_sibling_on_left s) \<and> length (rp_branch r) = length (rp_coinbase_branch r) \<and>
    verify_deposit dsha chain (rp_release_height r) (tx_txid dsha first) (rp_coinbase_branch r) (confirmations_for amount base) = Ok c"
  using assms
  by (auto simp: release_verify_def and_then_Ok_iff map_err_Ok_iff ok_or_Ok_iff Let_def list_ex_iff parse_bitcoin_outputs_iff
      split: if_splits dest!: payout_value_Ok)

lemma attest_loop_Ok:
  assumes "attest_loop dsha w s releases latest = Ok a"
  obtains r v where "r \<in> set releases"
    "release_verify dsha r (bw_params w) (bw_checkpoint w) (bw_confirmation_depth w) (es_destination s) (es_amount s) = Ok v"
    "vp_burn_ref v = Some (es_burn_ref s)"
    "a = \<lparr>pa_version = PAYOUT_VERSION, pa_corridor = bw_corridor w, pa_asset_id = bw_asset_id w, pa_amount = es_amount s,
       pa_beneficiary = es_destination s, pa_burn_ref = es_burn_ref s, pa_foreign_ref = vp_foreign_ref v,
       pa_proof_height = vp_proof_height v\<rparr>"
  using assms
proof (induction releases arbitrary: latest thesis)
  case (Cons r releases)
  show ?case
  proof (cases "release_verify dsha r (bw_params w) (bw_checkpoint w) (bw_confirmation_depth w) (es_destination s) (es_amount s)")
    case (Ok v)
    show ?thesis
    proof (cases "vp_amount v = es_amount s \<and> vp_beneficiary v = es_destination s \<and> vp_burn_ref v = Some (es_burn_ref s)")
      case True
      with Cons.prems Ok show ?thesis by auto
    next
      case False
      with Cons.prems(2) Ok obtain e where "attest_loop dsha w s releases e = Ok a" by (auto split: if_splits)
      then show ?thesis by (rule Cons.IH [rotated]) (use Cons.prems(1) in auto)
    qed
  next
    case (Err e)
    with Cons.prems(2) have "attest_loop dsha w s releases e = Ok a" by simp
    then show ?thesis by (rule Cons.IH [rotated]) (use Cons.prems(1) in auto)
  qed (use Cons.prems in simp)
qed simp

definition release_sane :: "bitcoin_release_proof \<Rightarrow> bool" where
  "release_sane r \<longleftrightarrow> length (rp_headers r) < 2 ^ 32 \<and> length (rp_raw_tx r) \<le> usize_max \<and>
     length (rp_coinbase_tx r) \<le> usize_max \<and> (\<forall>s\<in>set (rp_branch r). length (ms_hash s) = 32) \<and>
     (\<forall>s\<in>set (rp_coinbase_branch r). length (ms_hash s) = 32)"

text \<open>What a release proves of an exit: its transaction and its place in the chain.\<close>

definition release_backs ::
  "(bytes \<Rightarrow> bytes) \<Rightarrow> network_params_t \<Rightarrow> checkpoint \<Rightarrow> u32 \<Rightarrow> bitcoin_release_proof \<Rightarrow> exit_statement \<Rightarrow> bytes \<Rightarrow> bool" where
  "release_backs dsha p cp base r s foreign_ref \<longleftrightarrow>
     (let headers = rp_headers r; start = unat (rp_start_height r); height = unat (rp_release_height r);
          depth = start + length headers - height in
      \<not> np_requires_pinned_checkpoint p \<and>
      (\<forall>i<length headers. header_ok dsha p start headers i) \<and>
      block_hash dsha (headers ! (unat (cp_height cp) - start)) = cp_hash cp \<and>
      uval (cp_min_work cp) \<le> total_work (drop (unat (cp_height cp) + 1 - start) headers) mod 2 ^ 256 \<and>
      start \<le> height \<and> height < start + length headers \<and>
      unat base \<le> depth \<and> unat (es_amount s) \<le> depth * 50000000 \<and>
      (\<exists>tx first. tx_parse (rp_raw_tx r) = Ok tx \<and> foreign_ref = dsha (legacy_bytes tx) \<and>
         tx_parse (rp_coinbase_tx r) = Ok first \<and> is_coinbase first \<and>
         pays_exactly (tx_outputs tx) (es_destination s) (es_amount s) = 1 \<and>
         carried_words (tx_outputs tx) = [es_burn_ref s] \<and>
         block_contains dsha (headers ! (height - start)) tx (rp_branch r) first (rp_coinbase_branch r)))"

lemma release_verify_backs:
  assumes "params_ok p" "\<And>x. length (dsha x) = 32" "release_sane r" "u256_wf (cp_min_work cp)"
    and "release_verify dsha r p cp base (es_destination s) (es_amount s) = Ok v"
    and "vp_burn_ref v = Some (es_burn_ref s)"
  shows "release_backs dsha p cp base r s (vp_foreign_ref v)"
proof -
  have sane: "rp_headers r \<noteq> []" "length (rp_headers r) < 2 ^ 32" "length (rp_raw_tx r) \<le> usize_max"
    "\<forall>s\<in>set (rp_branch r). length (ms_hash s) = 32" using assms(3) release_verify_parts [OF assms(5)] by (auto simp: release_sane_def)
  obtain chain tx c where parts: "\<not> np_requires_pinned_checkpoint p"
    "verify_chain dsha (rp_headers r) (rp_start_height r) p = Ok chain" "anchored_to dsha chain cp = Ok ()"
    "tx_parse (rp_raw_tx r) = Ok tx" "carried_words (tx_outputs tx) = [es_burn_ref s]"
    "pays_exactly (tx_outputs tx) (es_destination s) (es_amount s) = 1"
    "verify_deposit dsha chain (rp_release_height r) (dsha (legacy_bytes tx)) (rp_branch r) (confirmations_for (es_amount s) base) = Ok c"
    "vp_foreign_ref v = dsha (legacy_bytes tx)"
    by (rule release_verify_parts [OF assms(5)]) (use assms(6) in auto)
  have valid: "\<forall>i<length (rp_headers r). header_ok dsha p (unat (rp_start_height r)) (rp_headers r) i"
    and chain: "chain = chain_of dsha (rp_start_height r) (rp_headers r)"
    using verify_chain_iff(1) [where dsha = dsha, OF assms(1,2) sane(1,2)] parts(2) by auto
  note h32 = header_ok_height [OF valid sane(1)]
  note anchor = anchored_to_iff [OF h32 sane(1) assms(4), of dsha "()"]
  note dep = verify_deposit_Ok [OF h32 sane(1) parts(7) [unfolded chain]]
  note tx = tx_parse_sound [OF sane(3) parts(4)]
  have money: "unat (es_amount s) \<le> 2100000000000000"
  proof -
    have "filter (\<lambda>o'. to_script o' = [0x51, 0x20] @ es_destination s \<and> length (es_destination s) = 32 \<and>
        unat (to_value o') = unat (es_amount s)) (tx_outputs tx) \<noteq> []"
      using parts(6) by (auto simp: pays_exactly_def)
    then obtain o' where "o' \<in> set (tx_outputs tx)" "unat (to_value o') = unat (es_amount s)" by (auto simp: filter_empty_conv)
    with tx_output_bound [of tx o'] tx show ?thesis by auto
  qed
  obtain first c' where first: "tx_parse (rp_coinbase_tx r) = Ok first" "is_coinbase first"
    "\<forall>s\<in>set (rp_coinbase_branch r). \<not> ms_sibling_on_left s" "length (rp_branch r) = length (rp_coinbase_branch r)"
    "verify_deposit dsha chain (rp_release_height r) (tx_txid dsha first) (rp_coinbase_branch r) (confirmations_for (es_amount s) base) = Ok c'"
    using release_verify_first [OF assms(5) parts(2)] by blast
  have "block_contains dsha (rp_headers r ! (unat (rp_release_height r) - unat (rp_start_height r))) tx (rp_branch r) first (rp_coinbase_branch r)"
    using verify_deposit_Ok [OF h32 sane(1) first(5) [unfolded chain]] tx dep assms(3)
    by (intro block_containsI [OF assms(2) sane(4) _ _ first(4,3)]) (auto simp: release_sane_def tx_txid_def)
  moreover have "unat (confirmations_for (es_amount s) base) \<le> unat (cd_confirmations c)"
    using dep by (simp add: word_le_nat_alt)
  then have "unat base \<le> unat (cd_confirmations c)" "unat (es_amount s) \<le> unat (cd_confirmations c) * 50000000"
    using confirmations_for_val [OF money, of base]
    by (auto simp: word_le_nat_alt intro: order_trans)
  ultimately show ?thesis
    using parts first(1,2) dep anchor valid chain unfolding release_backs_def Let_def by auto
qed

text \<open>None of the calls of \<open>attest\<close> panics.\<close>

lemma fold_branch_no_panic: "fold_branch dsha cur branch \<noteq> Panic"
  by (induction branch arbitrary: cur) auto

lemma fold_merkle_branch_no_panic: "fold_merkle_branch dsha cur branch \<noteq> Panic"
  by (simp add: fold_merkle_branch_def fold_branch_no_panic)

lemma verify_deposit_no_panic:
  assumes "unat start + length headers \<le> 2 ^ 32" "headers \<noteq> []" "length headers < 2 ^ 32"
  shows "verify_deposit dsha (chain_of dsha start headers) height txid branch need \<noteq> Panic"
proof -
  have "depth_of (chain_of dsha start headers) height \<noteq> (Panic :: (spv_error, u32) res)"
    if "unat start \<le> unat height" "unat height < unat start + length headers"
  proof -
    note tip = tip_chain_of [OF assms(1,2), of dsha]
    then have "unat (vc_tip_height (chain_of dsha start headers) - height) = unat start + length headers - 1 - unat height"
      using that by (subst unat_sub) (auto simp: word_le_nat_alt)
    then show ?thesis using that assms(3) by (simp add: depth_of_def checked_add_def)
  qed
  then show ?thesis
    by (auto simp: verify_deposit_def and_then_Panic_iff header_at_chain_of [OF assms(1,2)] ok_or_Ok_iff
        fold_merkle_branch_no_panic split: if_splits)
qed

lemma release_verify_no_panic:
  assumes "params_ok p" "\<And>x. length (dsha x) = 32" "release_sane r"
  shows "release_verify dsha r p cp base beneficiary amount \<noteq> Panic"
proof
  assume panic: "release_verify dsha r p cp base beneficiary amount = Panic"
  have sane: "length (rp_headers r) < 2 ^ 32" "tx_parse (rp_raw_tx r) \<noteq> Panic" "tx_parse (rp_coinbase_tx r) \<noteq> Panic"
    using assms(3) by (auto simp: release_sane_def intro!: tx_parse_no_panic)
  have raw: "parse_bitcoin_outputs (rp_raw_tx r) \<noteq> Panic" "bitcoin_txid dsha (rp_raw_tx r) \<noteq> Panic"
    using sane(2) by (cases "tx_parse (rp_raw_tx r)"; simp add: parse_bitcoin_outputs_def bitcoin_txid_def)+
  have ne: "rp_headers r \<noteq> []"
    using panic by (auto simp: release_verify_def and_then_Panic_iff ok_or_Ok_iff pinned_header_def split: if_splits)
  note chain = verify_chain_iff [where dsha = dsha, OF assms(1,2) ne sane(1)]
  have deposit: "verify_deposit dsha c height txid branch need \<noteq> Panic"
    if "verify_chain dsha (rp_headers r) (rp_start_height r) p = Ok c" for c height txid branch need
  proof -
    from that chain(1) have "\<forall>i<length (rp_headers r). header_ok dsha p (unat (rp_start_height r)) (rp_headers r) i"
      and c: "c = chain_of dsha (rp_start_height r) (rp_headers r)" by blast+
    then show ?thesis unfolding c using ne sane(1) by (intro verify_deposit_no_panic header_ok_height)
  qed
  have anchor: "anchored_to dsha c cp \<noteq> Panic" for c by (auto simp: anchored_to_def and_then_Panic_iff)
  have pay: "payout_value outs beneficiary amount \<noteq> Panic" for outs by (simp add: payout_value_def Let_def)
  show False
    using panic sane raw chain(2) deposit anchor pay
    by (auto simp: release_verify_def and_then_Panic_iff map_err_Panic_iff map_err_Ok_iff Let_def split: if_splits)
qed

lemma attest_loop_no_panic:
  assumes "params_ok (bw_params w)" "\<And>x. length (dsha x) = 32" "\<forall>r\<in>set releases. release_sane r"
  shows "attest_loop dsha w s releases latest \<noteq> Panic"
  using assms(3)
proof (induction releases arbitrary: latest)
  case (Cons r releases)
  then show ?case using release_verify_no_panic [OF assms(1,2), of r] by (auto split: res.split)
qed simp

lemma bitcoin_attest_no_panic:
  assumes "params_ok (bw_params w)" "\<And>x. length (dsha x) = 32" "\<forall>r\<in>set (bw_releases w). release_sane r"
  shows "bitcoin_attest dsha w s \<noteq> Panic"
  using attest_loop_no_panic [OF assms] by (simp add: bitcoin_attest_def)

lemma bitcoin_release_of:
  assumes "params_ok (bw_params w)" "\<And>x. length (dsha x) = 32" "u256_wf (cp_min_work (bw_checkpoint w))"
    and "\<forall>r\<in>set (bw_releases w). release_sane r"
    and "pw_confirm (bitcoin_watcher dsha w) s = Some a"
  shows "covers a s \<and> (statement_validate s = Ok () \<longrightarrow> payout_validate a = Ok ()) \<and> pa_corridor a = pw_corridor (bitcoin_watcher dsha w) \<and>
    (\<exists>r\<in>set (bw_releases w).
       release_backs dsha (bw_params w) (bw_checkpoint w) (bw_confirmation_depth w) r s (pa_foreign_ref a))"
proof -
  from assms(5) have at: "es_corridor s = bw_corridor w" "es_asset_id s = bw_asset_id w"
    "attest_loop dsha w s (bw_releases w) MissingReceipt = Ok a"
    by (auto simp: bitcoin_watcher_def bitcoin_attest_def split: res.splits if_splits)
  from attest_loop_Ok [OF at(3)] obtain r v where r: "r \<in> set (bw_releases w)"
    "release_verify dsha r (bw_params w) (bw_checkpoint w) (bw_confirmation_depth w) (es_destination s) (es_amount s) = Ok v"
    "vp_burn_ref v = Some (es_burn_ref s)"
    "a = \<lparr>pa_version = PAYOUT_VERSION, pa_corridor = bw_corridor w, pa_asset_id = bw_asset_id w, pa_amount = es_amount s,
       pa_beneficiary = es_destination s, pa_burn_ref = es_burn_ref s, pa_foreign_ref = vp_foreign_ref v,
       pa_proof_height = vp_proof_height v\<rparr>" by blast
  have "release_sane r" using assms(4) r(1) by blast
  from release_verify_backs [OF assms(1,2) this assms(3) r(2,3)] r at show ?thesis
    by (auto simp: covers_def statement_validate_def payout_validate_def bitcoin_watcher_def split: if_splits)
qed

text \<open>C15: a Bitcoin payout is attested only if it happened: an attestation of the Bitcoin watcher covers the exit it
  was asked about and passes validation whenever the statement does, and one of the watcher's
  releases backs it: its headers are valid and pass through the checkpoint with the work asked for
  above it; its transaction, whose identifier is the attested reference, has exactly one output that
  pays the exit's amount to the exit's destination, carries the burn reference of the exit and no
  other word; it lies in the block at the release height, buried at least as deep as the watcher asks and by one
  block for every half bitcoin. The block may be any list of transactions under the header's root that begins with a
  coinbase, transactions of 64 bytes included; the exceptions are a collision of the hash on the strings hashed for the
  block and the two branches, and a string of the coinbase's branch whose hash has 27 zeros in a row.\<close>

theorem bitcoin_payout_backed:
  assumes "params_ok (bw_params w)" "\<And>x. length (dsha x) = 32" "u256_wf (cp_min_work (bw_checkpoint w))"
    and "\<forall>r\<in>set (bw_releases w). release_sane r"
    and "pw_confirm (bitcoin_watcher dsha w) s = Some a"
  shows "covers a s \<and> (statement_validate s = Ok () \<longrightarrow> payout_validate a = Ok ()) \<and> pa_corridor a = pw_corridor (bitcoin_watcher dsha w) \<and>
    (\<exists>r\<in>set (bw_releases w).
       release_backs dsha (bw_params w) (bw_checkpoint w) (bw_confirmation_depth w) r s (pa_foreign_ref a))"
  using assms by (rule bitcoin_release_of)

section \<open>A release in a block of two transactions\<close>

definition sample_payment :: transaction where
  "sample_payment = \<lparr>tx_version = 2, tx_inputs = tx_inputs sample_tx,
     tx_outputs = [\<lparr>to_value = 500, to_script = [0x51, 0x20] @ replicate 32 0x55\<rparr>,
       \<lparr>to_value = 0, to_script = [0x6a, 0x20] @ replicate 32 0x11\<rparr>], tx_locktime = 0\<rparr>"

abbreviation pay_id :: bytes where "pay_id \<equiv> toy_digest 137"

definition sample_release :: bitcoin_release_proof where
  "sample_release = \<lparr>rp_headers = [sample_block], rp_start_height = 7, rp_release_height = 7,
     rp_branch = [\<lparr>ms_hash = cb_id, ms_sibling_on_left = True\<rparr>], rp_raw_tx = legacy_bytes sample_payment,
     rp_coinbase_tx = legacy_bytes sample_coinbase,
     rp_coinbase_branch = [\<lparr>ms_hash = pay_id, ms_sibling_on_left = False\<rparr>]\<rparr>"

definition sample_statement :: exit_statement where
  "sample_statement = \<lparr>es_version = 1, es_corridor = 1, es_asset_id = replicate 16 0xa1, es_amount = 500,
     es_holder = replicate 32 0x33, es_destination = replicate 32 0x55, es_burn_ref = replicate 32 0x11,
     es_finalized_height = 4200000\<rparr>"

definition sample_watcher :: bitcoin_payout_watcher where
  "sample_watcher = bitcoin_payout_watcher_new 1 (replicate 16 0xa1) sample_params sample_cp 1 [sample_release]"

lemma sample_payment_shape: "tx_shape sample_payment" "length (legacy_bytes sample_payment) = 137"
  using sample_tx_shape(1)
  by (auto simp: tx_shape_def sample_payment_def sample_tx_def outputs_total_def MAX_MONEY_def legacy_bytes_def put_varint_def)

lemma sample_payment_parses: "tx_parse (legacy_bytes sample_payment) = Ok sample_payment"
  using sample_payment_shape by (auto intro!: tx_parse_legacy)

lemma sample_payment_id: "toy_hash (legacy_bytes sample_payment) = pay_id"
  by (simp add: toy_hash_def sample_payment_shape)

lemma sample_release_verifies:
  "release_verify toy_hash sample_release sample_params sample_cp 1 (replicate 32 0x55) 500 =
   Ok \<lparr>vp_asset_id = None, vp_amount = 500, vp_beneficiary = replicate 32 0x55, vp_burn_ref = Some (replicate 32 0x11),
       vp_foreign_ref = pay_id, vp_proof_height = 7\<rparr>"
proof -
  let ?c = "chain_of toy_hash 7 [sample_block]"
  have anch: "anchored_to toy_hash ?c sample_cp = Ok ()"
    by (subst anchored_to_iff) (simp_all add: sample_cp_def u256_wf_def sample_block_hash U256_ZERO_def)
  have at: "header_at ?c 7 = Some sample_block" by (subst header_at_chain_of) simp_all
  have depth: "depth_of ?c 7 = Ok 1" by (simp add: depth_of_def chain_of_def checked_add_def)
  have root: "bh_merkle_root sample_block = toy_digest 64" by (simp add: sample_block_def)
  have conf: "confirmations_for 500 1 = 1"
    by (simp add: confirmations_for_def div_ceil_def SATS_PER_BTC_def Let_def)
  have cb: "is_coinbase sample_coinbase" by (simp add: is_coinbase_def sample_coinbase_def list_all_iff)
  have np: "\<not> np_requires_pinned_checkpoint sample_params" by (simp add: sample_params_def)
  have pin: "pinned_header sample_release sample_cp = Some sample_block"
    by (simp add: pinned_header_def sample_release_def sample_cp_def)
  have branch: "fold_merkle_branch toy_hash cb_id [\<lparr>ms_hash = pay_id, ms_sibling_on_left = False\<rparr>] = Ok (toy_digest 64)"
    "fold_merkle_branch toy_hash pay_id [\<lparr>ms_hash = cb_id, ms_sibling_on_left = True\<rparr>] = Ok (toy_digest 64)"
    by (simp_all add: fold_merkle_branch_def MAX_MERKLE_BRANCH_def branch_buf_def toy_hash_def)
  have outs: "parse_bitcoin_outputs (legacy_bytes sample_payment) = Ok (Some (outputs_of (tx_outputs sample_payment)))"
    by (simp add: parse_bitcoin_outputs_def sample_payment_parses)
  have ref: "release_reference (outputs_of (tx_outputs sample_payment)) = Some (replicate 32 0x11)"
    by (subst release_reference_iff) (simp add: carried_words_def sample_payment_def)
  have val: "payout_value (outputs_of (tx_outputs sample_payment)) (replicate 32 0x55) 500 = Ok 500"
    by (simp add: payout_value_def sample_payment_def word_under_def OP_1_def PUSH_32_def)
  have id: "bitcoin_txid toy_hash (legacy_bytes sample_payment) = Ok (Some pay_id)"
    by (simp add: bitcoin_txid_def sample_payment_parses tx_txid_def sample_payment_id)
  show ?thesis
    unfolding release_verify_def
    by (simp add: np pin sample_block_hash) (simp add: sample_cp_def sample_release_def sample_chain anch [unfolded sample_cp_def] sample_parses cb
        outs ref val id verify_deposit_def at depth root tx_txid_def sample_ids branch conf)
qed

definition sample_payout :: payout_attestation where
  "sample_payout = \<lparr>pa_version = 1, pa_corridor = 1, pa_asset_id = replicate 16 0xa1, pa_amount = 500,
     pa_beneficiary = replicate 32 0x55, pa_burn_ref = replicate 32 0x11, pa_foreign_ref = pay_id, pa_proof_height = 7\<rparr>"

lemma sample_confirms: "pw_confirm (bitcoin_watcher toy_hash sample_watcher) sample_statement = Some sample_payout"
  by (simp add: bitcoin_watcher_def bitcoin_attest_def sample_watcher_def bitcoin_payout_watcher_new_def sample_statement_def
      sample_release_verifies PAYOUT_VERSION_def sample_payout_def)

lemma sample_watcher_sane:
  "params_ok (bw_params sample_watcher)" "u256_wf (cp_min_work (bw_checkpoint sample_watcher))"
  "\<forall>r\<in>set (bw_releases sample_watcher). release_sane r"
  by (simp_all add: params_ok_def sample_params_def BITCOIN_def sample_watcher_def bitcoin_payout_watcher_new_def sample_cp_def u256_wf_ops
      release_sane_def sample_release_def sample_payment_shape sample_coinbase_shape)

theorem bitcoin_payout_backed_witness:
  "pw_confirm (bitcoin_watcher toy_hash sample_watcher) sample_statement = Some sample_payout \<and> covers sample_payout sample_statement \<and>
   payout_validate sample_payout = Ok () \<and>
   release_backs toy_hash sample_params sample_cp 1 sample_release sample_statement pay_id"
proof -
  have "length (toy_hash x) = 32" for x by (simp add: toy_hash_def)
  from bitcoin_payout_backed [OF sample_watcher_sane(1) this sample_watcher_sane(2,3) sample_confirms]
  have "covers sample_payout sample_statement \<and> (statement_validate sample_statement = Ok () \<longrightarrow> payout_validate sample_payout = Ok ()) \<and>
      (\<exists>r\<in>set (bw_releases sample_watcher). release_backs toy_hash (bw_params sample_watcher) (bw_checkpoint sample_watcher)
         (bw_confirmation_depth sample_watcher) r sample_statement (pa_foreign_ref sample_payout))" by simp
  moreover have "statement_validate sample_statement = Ok ()"
    by (simp add: statement_validate_def sample_statement_def EXIT_STATEMENT_VERSION_def)
  ultimately show ?thesis
    using sample_confirms by (simp add: sample_watcher_def bitcoin_payout_watcher_new_def sample_payout_def)
qed

end
