(* ===== verification/Exit_Outbound.thy ===== *)
theory Exit_Outbound
  imports Exit_Payout
begin

text \<open>
  \<^verbatim>\<open>crates/q-exits/src/outbound.rs\<close>: the decision about an exit, the bytes operators sign to acknowledge it
  and the count of their signatures. The ML-DSA scheme is the record \<open>ml_dsa\<close> of \<open>Operators\<close>; its
  public keys are byte arrays here, as the code compares them as slices. Signing itself draws random bytes
  and is not modelled.
\<close>

definition EXIT_ACK_DOMAIN :: bytes where "EXIT_ACK_DOMAIN = ascii ''QUANTOVA/Q-ORACLE/EXIT-ACK/v1''"

definition exit_ack_context :: "bytes \<Rightarrow> bytes" where
  "exit_ack_context era = EXIT_ACK_DOMAIN @ era"

definition EXIT_FACT_VERSION :: u8 where "EXIT_FACT_VERSION = 1"
definition EXIT_FACT_ENCODED_LEN :: usize where "EXIT_FACT_ENCODED_LEN = 138"
definition ARTIFACT_EXIT_ACK :: u8 where "ARTIFACT_EXIT_ACK = 0x03"
definition EXIT_ENVELOPE_VERSION :: u8 where "EXIT_ENVELOPE_VERSION = 1"

datatype exit_outcome = Settle | Slash

fun outcome_tag :: "exit_outcome \<Rightarrow> u8" where
  "outcome_tag Settle = 1"
| "outcome_tag Slash = 2"

definition outcome_from_tag :: "u8 \<Rightarrow> exit_outcome option" where
  "outcome_from_tag t = (if t = 1 then Some Settle else if t = 2 then Some Slash else None)"

record exit_decision =
  ed_version :: u8
  ed_corridor :: u32
  ed_dest_chain :: u32
  ed_asset_id :: bytes
  ed_amount :: u128
  ed_holder :: bytes
  ed_destination :: bytes
  ed_burn_ref :: bytes
  ed_outcome :: exit_outcome

definition decision_settle :: "exit_statement \<Rightarrow> u32 \<Rightarrow> exit_decision" where
  "decision_settle s dest_chain =
     \<lparr>ed_version = EXIT_FACT_VERSION, ed_corridor = es_corridor s, ed_dest_chain = dest_chain,
      ed_asset_id = es_asset_id s, ed_amount = es_amount s, ed_holder = es_holder s,
      ed_destination = es_destination s, ed_burn_ref = es_burn_ref s, ed_outcome = Settle\<rparr>"

definition decision_slash :: "exit_statement \<Rightarrow> u32 \<Rightarrow> exit_decision" where
  "decision_slash s dest_chain =
     \<lparr>ed_version = EXIT_FACT_VERSION, ed_corridor = es_corridor s, ed_dest_chain = dest_chain,
      ed_asset_id = es_asset_id s, ed_amount = es_amount s, ed_holder = es_holder s,
      ed_destination = es_destination s, ed_burn_ref = es_burn_ref s, ed_outcome = Slash\<rparr>"

definition decision_encode :: "exit_decision \<Rightarrow> bytes" where
  "decision_encode d =
     [ed_version d] @ to_le_bytes (ed_corridor d) @ to_le_bytes (ed_dest_chain d) @ ed_asset_id d @
     to_le_bytes (ed_amount d) @ ed_holder d @ ed_destination d @ ed_burn_ref d @ [outcome_tag (ed_outcome d)]"

definition ack_preimage :: "exit_decision \<Rightarrow> u64 \<Rightarrow> bytes" where
  "ack_preimage d chain_id = EXIT_ACK_DOMAIN @ decision_encode d @ to_le_bytes chain_id"

definition decision_well_formed :: "exit_decision \<Rightarrow> bool" where
  "decision_well_formed d \<longleftrightarrow>
     ed_version d = EXIT_FACT_VERSION \<and> ed_corridor d \<noteq> 0 \<and> ed_dest_chain d \<noteq> 0 \<and> ed_amount d \<noteq> 0 \<and>
     ed_asset_id d \<noteq> replicate 16 0 \<and> ed_holder d \<noteq> replicate 32 0 \<and>
     ed_destination d \<noteq> replicate 32 0 \<and> ed_burn_ref d \<noteq> replicate 32 0"

record ack_sig =
  as_operator_id :: u32
  as_signature :: bytes

record exit_envelope =
  ee_decision :: exit_decision
  ee_signatures :: "ack_sig list"

definition envelope_encode :: "exit_envelope \<Rightarrow> bytes" where
  "envelope_encode e =
     [ARTIFACT_EXIT_ACK] @ [EXIT_ENVELOPE_VERSION] @ decision_encode (ee_decision e) @
     to_le_bytes (word_of_nat (length (ee_signatures e)) :: u32) @
     concat (map (\<lambda>s. to_le_bytes (as_operator_id s) @ to_le_bytes (word_of_nat (length (as_signature s)) :: u16) @
       as_signature s) (ee_signatures e))"

definition EXIT_ACK_QUORUM_MIN :: usize where "EXIT_ACK_QUORUM_MIN = 2"

record ack_operator =
  ao_operator_id :: u32
  ao_public_key :: bytes

datatype exit_ack_error =
    ThinThreshold usize usize
  | AckMalformed
  | AckBelowThreshold usize usize

text \<open>One turn of the loop per signature; every \<open>continue\<close> is a branch that leaves both sets.\<close>

fun ack_loop ::
  "bytes ml_dsa \<Rightarrow> bytes \<Rightarrow> bytes \<Rightarrow> ack_operator list \<Rightarrow> ack_sig list \<Rightarrow> u32 btree_set \<Rightarrow> bytes btree_set \<Rightarrow>
   u32 btree_set \<times> bytes btree_set" where
  "ack_loop md preimage ctx operators [] counted keys = (counted, keys)"
| "ack_loop md preimage ctx operators (signer # signers) counted keys =
     (if bs_contains counted (as_operator_id signer) then ack_loop md preimage ctx operators signers counted keys
      else
        case find (\<lambda>o'. ao_operator_id o' = as_operator_id signer) operators of
          None \<Rightarrow> ack_loop md preimage ctx operators signers counted keys
        | Some operator \<Rightarrow>
            if length (as_signature signer) \<noteq> md_signature_bytes md
            then ack_loop md preimage ctx operators signers counted keys
            else if bs_contains keys (ao_public_key operator)
            then ack_loop md preimage ctx operators signers counted keys
            else if md_verify md (ao_public_key operator) preimage (as_signature signer) ctx
            then ack_loop md preimage ctx operators signers
                   (bs_insert (as_operator_id signer) counted) (bs_insert (ao_public_key operator) keys)
            else ack_loop md preimage ctx operators signers counted keys)"

definition verify_ack_quorum ::
  "bytes ml_dsa \<Rightarrow> exit_envelope \<Rightarrow> ack_operator list \<Rightarrow> u64 \<Rightarrow> bytes \<Rightarrow> usize \<Rightarrow> (exit_ack_error, usize) res" where
  "verify_ack_quorum md envelope operators chain_id era threshold =
     (let floor = max EXIT_ACK_QUORUM_MIN (sat_mul_usize (length operators) 2 div 3 + 1) in
      if threshold < floor then Err (ThinThreshold threshold floor)
      else if \<not> decision_well_formed (ee_decision envelope) then Err AckMalformed
      else if length (ee_signatures envelope) > length operators then Err AckMalformed
      else
      let (counted, keys) = ack_loop md (ack_preimage (ee_decision envelope) chain_id) (exit_ack_context era) operators
            (ee_signatures envelope) [] [] in
      if length keys < threshold then Err (AckBelowThreshold (length keys) threshold)
      else Ok (length counted))"

section \<open>The signed bytes determine the decision\<close>

definition decision_wf :: "exit_decision \<Rightarrow> bool" where
  "decision_wf d \<longleftrightarrow> length (ed_asset_id d) = 16 \<and> length (ed_holder d) = 32 \<and> length (ed_destination d) = 32 \<and>
     length (ed_burn_ref d) = 32"

lemma length_decision_encode: "decision_wf d \<Longrightarrow> length (decision_encode d) = EXIT_FACT_ENCODED_LEN"
  by (simp add: decision_encode_def decision_wf_def EXIT_FACT_ENCODED_LEN_def)

lemma outcome_tag_inject: "outcome_tag a = outcome_tag b \<longleftrightarrow> a = b"
  by (cases a; cases b) auto

lemma to_le_bytes_inject:
  fixes a b :: "'l::len word"
  assumes "8 dvd LENGTH('l)"
  shows "to_le_bytes a = to_le_bytes b \<longleftrightarrow> a = b"
  using from_to_le_bytes [OF assms, of a] from_to_le_bytes [OF assms, of b] by metis

lemma decision_encode_inject:
  assumes "decision_wf d" "decision_wf e" "decision_encode d = decision_encode e"
  shows "d = e"
  using assms unfolding decision_encode_def decision_wf_def
  by (intro exit_decision.equality) (simp_all add: to_le_bytes_inject outcome_tag_inject)

lemma ack_preimage_inject:
  assumes "decision_wf d" "decision_wf e" "ack_preimage d c = ack_preimage e c'"
  shows "d = e \<and> c = c'"
  using assms decision_encode_inject [OF assms(1,2)] length_decision_encode [OF assms(1)] length_decision_encode [OF assms(2)]
  by (simp add: ack_preimage_def to_le_bytes_inject)

section \<open>The count\<close>

text \<open>The keys whose owner's signature over the message is in the list.\<close>

definition signed_keys :: "bytes ml_dsa \<Rightarrow> bytes \<Rightarrow> bytes \<Rightarrow> ack_operator list \<Rightarrow> ack_sig list \<Rightarrow> bytes set" where
  "signed_keys md preimage ctx operators signers =
     {k. \<exists>s\<in>set signers. \<exists>o'\<in>set operators. ao_operator_id o' = as_operator_id s \<and> ao_public_key o' = k \<and>
        length (as_signature s) = md_signature_bytes md \<and> md_verify md k preimage (as_signature s) ctx}"

lemma length_bs_insert: "bs_wf s \<Longrightarrow> \<not> bs_contains s k \<Longrightarrow> length (bs_insert k s) = Suc (length s)"
  using distinct_card [OF bs_wf_distinct, of "bs_insert k s"] distinct_card [OF bs_wf_distinct, of s]
  by (simp add: bs_contains_def)

lemma ack_loop_spec:
  assumes "ack_loop md preimage ctx operators signers counted keys = (counted', keys')"
    and "bs_wf counted" "bs_wf keys" "length counted = length keys"
  shows "bs_wf counted' \<and> bs_wf keys' \<and> length counted' = length keys' \<and>
    set keys' \<subseteq> set keys \<union> signed_keys md preimage ctx operators signers"
  using assms
proof (induction signers arbitrary: counted keys)
  case (Cons s signers)
  have sub: "signed_keys md preimage ctx operators signers \<subseteq> signed_keys md preimage ctx operators (s # signers)"
    by (auto simp: signed_keys_def)
  show ?case
  proof (cases "ack_loop md preimage ctx operators signers counted keys = (counted', keys')")
    case True
    from Cons.IH [OF this Cons.prems(2-4)] sub show ?thesis by blast
  next
    case False
    with Cons.prems(1) obtain o' where o': "find (\<lambda>o'. ao_operator_id o' = as_operator_id s) operators = Some o'"
      and step: "\<not> bs_contains counted (as_operator_id s)" "\<not> bs_contains keys (ao_public_key o')"
        "length (as_signature s) = md_signature_bytes md" "md_verify md (ao_public_key o') preimage (as_signature s) ctx"
      and rec: "ack_loop md preimage ctx operators signers (bs_insert (as_operator_id s) counted)
        (bs_insert (ao_public_key o') keys) = (counted', keys')"
      by (auto split: if_splits option.splits)
    from o' have "o' \<in> set operators" "ao_operator_id o' = as_operator_id s" by (auto simp: find_Some_iff)
    with step have "ao_public_key o' \<in> signed_keys md preimage ctx operators (s # signers)"
      by (auto simp: signed_keys_def)
    moreover have "length (bs_insert (as_operator_id s) counted) = length (bs_insert (ao_public_key o') keys)"
      using Cons.prems(2-4) step by (simp add: length_bs_insert)
    ultimately show ?thesis using Cons.IH [OF rec] Cons.prems(2,3) sub by auto
  qed
qed auto

definition ack_accepted :: "ack_operator list \<Rightarrow> bytes set \<Rightarrow> bool" where
  "ack_accepted operators K \<longleftrightarrow> K \<subseteq> ao_public_key ` set operators \<and> 2 * length operators < 3 * card K"

interpretation aq: quorum_system "ao_public_key ` set operators" "ack_accepted operators" for operators :: "ack_operator list"
proof unfold_locales
  show "2 * card (ao_public_key ` set operators) < 3 * card K" if "ack_accepted operators K" for K
    using that card_image_le [of "set operators" ao_public_key] card_length [of operators]
    unfolding ack_accepted_def by (simp add: image_def)
qed (auto simp: ack_accepted_def)

lemma ack_quorum_Ok:
  assumes "length operators \<le> usize_max div 2" "verify_ack_quorum md e operators chain_id era threshold = Ok n"
  shows "decision_well_formed (ee_decision e) \<and> threshold \<le> n \<and> 2 \<le> n \<and> 2 * length operators < 3 * n \<and>
    n \<le> card (signed_keys md (ack_preimage (ee_decision e) chain_id) (exit_ack_context era) operators (ee_signatures e)) \<and>
    ack_accepted operators (signed_keys md (ack_preimage (ee_decision e) chain_id) (exit_ack_context era) operators (ee_signatures e))"
proof -
  let ?m = "ack_preimage (ee_decision e) chain_id" and ?ctx = "exit_ack_context era"
  let ?K = "signed_keys md ?m ?ctx operators (ee_signatures e)"
  obtain counted keys where loop: "ack_loop md ?m ?ctx operators (ee_signatures e) [] [] = (counted, keys)" by fastforce
  from assms(2) loop have ok: "max EXIT_ACK_QUORUM_MIN (sat_mul_usize (length operators) 2 div 3 + 1) \<le> threshold"
    "decision_well_formed (ee_decision e)" "threshold \<le> length keys" "n = length counted"
    by (auto simp: verify_ack_quorum_def Let_def split: if_splits)
  from ack_loop_spec [OF loop] have keys: "bs_wf keys" "length counted = length keys" "set keys \<subseteq> ?K" by auto
  have K: "?K \<subseteq> ao_public_key ` set operators" by (auto simp: signed_keys_def)
  have "n = card (set keys)" using keys distinct_card [OF bs_wf_distinct, of keys] ok(4) by simp
  moreover have "card (set keys) \<le> card ?K" using keys(3) finite_subset [OF K] by (intro card_mono) simp_all
  ultimately have n: "n \<le> card ?K" by simp
  have "sat_mul_usize (length operators) 2 = 2 * length operators" using assms(1) by (simp add: sat_mul_usize_def)
  with ok keys(2) have big: "2 * length operators < 3 * n" "2 \<le> n" "threshold \<le> n"
    by (simp_all add: EXIT_ACK_QUORUM_MIN_def)
  with n K ok(2) show ?thesis by (simp add: ack_accepted_def)
qed

section \<open>Properties\<close>

text \<open>C16: an accepted acknowledgement counts distinct keys and is final: the count is at least the threshold, at least
  two and more than two thirds of the operators, the decision is well formed, and every counted key
  made a valid signature over exactly this decision, chain and era. Two accepted acknowledgements that
  differ in the decision or the chain were signed over different bytes, and more than a third of the
  operators' keys signed both.\<close>

theorem ack_quorum_sound:
  assumes "length operators \<le> usize_max div 2" "verify_ack_quorum md e operators chain_id era threshold = Ok n"
    and "verify_ack_quorum md e' operators chain_id' era threshold' = Ok n'"
    and "decision_wf (ee_decision e)" "decision_wf (ee_decision e')"
  shows "decision_well_formed (ee_decision e) \<and> threshold \<le> n \<and> 2 \<le> n \<and> 2 * length operators < 3 * n \<and>
    n \<le> card (signed_keys md (ack_preimage (ee_decision e) chain_id) (exit_ack_context era) operators (ee_signatures e)) \<and>
    (ee_decision e \<noteq> ee_decision e' \<or> chain_id \<noteq> chain_id' \<longrightarrow>
      ack_preimage (ee_decision e) chain_id \<noteq> ack_preimage (ee_decision e') chain_id' \<and>
      card (ao_public_key ` set operators) <
        3 * card (signed_keys md (ack_preimage (ee_decision e) chain_id) (exit_ack_context era) operators (ee_signatures e) \<inter>
                  signed_keys md (ack_preimage (ee_decision e') chain_id') (exit_ack_context era) operators (ee_signatures e')))"
  using ack_quorum_Ok [OF assms(1,2)] ack_quorum_Ok [OF assms(1,3)] aq.quorum_intersection
    ack_preimage_inject [OF assms(4,5)] by blast

definition sample_ack :: "exit_outcome \<Rightarrow> exit_envelope" where
  "sample_ack outcome = \<lparr>ee_decision = (decision_settle sample_statement 9000)\<lparr>ed_outcome := outcome\<rparr>,
     ee_signatures = [\<lparr>as_operator_id = 1, as_signature = [5]\<rparr>, \<lparr>as_operator_id = 2, as_signature = [6]\<rparr>]\<rparr>"

definition sample_ack_operators :: "ack_operator list" where
  "sample_ack_operators = [\<lparr>ao_operator_id = 1, ao_public_key = [5]\<rparr>, \<lparr>ao_operator_id = 2, ao_public_key = [6]\<rparr>]"

definition echo_bytes :: "bytes ml_dsa" where
  "echo_bytes = \<lparr>md_verify = (\<lambda>pk message signature ctx. signature = pk), md_signature_bytes = 1\<rparr>"

lemma sample_ack_Ok:
  "verify_ack_quorum echo_bytes (sample_ack outcome) sample_ack_operators 7 (replicate 32 0x11) 2 = Ok 2"
proof -
  have "decision_well_formed (ee_decision (sample_ack outcome))"
    by (simp add: decision_well_formed_def sample_ack_def decision_settle_def sample_statement_def)
  then show ?thesis
    by (simp add: verify_ack_quorum_def EXIT_ACK_QUORUM_MIN_def sample_ack_operators_def sat_mul_usize_def Let_def)
      (simp add: sample_ack_def echo_bytes_def bs_contains_def)
qed

theorem ack_quorum_sound_witness:
  "ack_preimage (ee_decision (sample_ack Settle)) 7 \<noteq> ack_preimage (ee_decision (sample_ack Slash)) 7 \<and>
   card (ao_public_key ` set sample_ack_operators) <
     3 * card (signed_keys echo_bytes (ack_preimage (ee_decision (sample_ack Settle)) 7) (exit_ack_context (replicate 32 0x11))
                 sample_ack_operators (ee_signatures (sample_ack Settle)) \<inter>
               signed_keys echo_bytes (ack_preimage (ee_decision (sample_ack Slash)) 7) (exit_ack_context (replicate 32 0x11))
                 sample_ack_operators (ee_signatures (sample_ack Slash)))"
proof -
  have wf: "decision_wf (ee_decision (sample_ack outcome))" for outcome
    by (simp add: decision_wf_def sample_ack_def decision_settle_def sample_statement_def)
  have "ee_decision (sample_ack Settle) \<noteq> ee_decision (sample_ack Slash)"
    by (simp add: sample_ack_def decision_settle_def)
  moreover have "length sample_ack_operators \<le> usize_max div 2" by (simp add: sample_ack_operators_def)
  ultimately show ?thesis
    using ack_quorum_sound [OF _ sample_ack_Ok [of Settle] sample_ack_Ok [of Slash] wf wf] by blast
qed

end
