(* ===== verification/Exit_Burn.thy ===== *)
theory Exit_Burn
  imports Exit_Store
begin

text \<open>
  \<^verbatim>\<open>crates/q-exits/src/anchor.rs\<close> and \<^verbatim>\<open>burn_proof.rs\<close>: the committee the desk trusts, and the proof that a burn
  was finalised by it.

  Headers, certificates, inclusion proofs, committee commitments and the codec of event leaves belong to
  packages outside the repository (\<open>qtv_block\<close>, \<open>qtv_attest\<close>, \<open>qtv_sampler\<close>, \<open>qtv_codec\<close>, \<open>qtv_crypto\<close>). Their
  types are type variables, and what the code calls of them is the record \<open>qtv\<close> and the record
  \<open>qtv_codec\<close>, arguments of every definition that uses them; nothing is assumed about them in the definitions.
\<close>

section \<open>The packages outside\<close>

record member_key =
  mk_id :: u64
  mk_weight :: u64
  mk_stake :: u64
  mk_root_digest :: bytes
  mk_root_slots :: u64
  mk_attest_pk :: bytes

record ('hdr, 'cert, 'incl, 'cc, 'beacon) qtv =
  qv_header_from_bytes :: "bytes \<Rightarrow> 'hdr option"
  qv_hash :: "'hdr \<Rightarrow> bytes"
  qv_height :: "'hdr \<Rightarrow> u64"
  qv_event_root :: "'hdr \<Rightarrow> bytes"
  qv_block_val :: "'cert \<Rightarrow> bytes"
  qv_block_height :: "'cert \<Rightarrow> u64"
  qv_envelope_height :: "'cert \<Rightarrow> u64"
  qv_envelope_slot :: "'cert \<Rightarrow> u64"
  qv_is_verified :: "'cert \<Rightarrow> u64 \<times> bytes \<Rightarrow> 'cc \<Rightarrow> 'beacon \<Rightarrow> u64 \<Rightarrow> bool"
  qv_attesters :: "'cert \<Rightarrow> usize"
  qv_verify_inclusion :: "bytes \<Rightarrow> bytes \<Rightarrow> 'incl \<Rightarrow> bool"
  qv_from_member_keys :: "u64 \<Rightarrow> member_key list \<Rightarrow> u64 \<Rightarrow> 'cc"
  qv_commitment_slot :: "'cc \<Rightarrow> u64"
  qv_from_seed :: "bytes \<Rightarrow> 'beacon"
  qv_finality_threshold :: "u64 \<Rightarrow> u64"
  qv_public_key_bytes :: usize
  qv_sha3 :: "bytes \<Rightarrow> bytes"

record ('dec, 'enc) qtv_codec =
  qd_new :: "bytes \<Rightarrow> 'dec"
  qd_get_bytes :: "'dec \<Rightarrow> (bytes \<times> 'dec) option"
  qd_get_u64 :: "'dec \<Rightarrow> (u64 \<times> 'dec) option"
  qd_get_u128 :: "'dec \<Rightarrow> (u128 \<times> 'dec) option"
  qd_remaining :: "'dec \<Rightarrow> usize"
  qd_finish :: "'dec \<Rightarrow> bool"
  qe_new :: 'enc
  qe_put_bytes :: "bytes \<Rightarrow> 'enc \<Rightarrow> 'enc"
  qe_put_u64 :: "u64 \<Rightarrow> 'enc \<Rightarrow> 'enc"
  qe_put_u128 :: "u128 \<Rightarrow> 'enc \<Rightarrow> 'enc"
  qe_into_bytes :: "'enc \<Rightarrow> bytes"

section \<open>The anchor\<close>

record member_config =
  mc_id :: u64
  mc_weight :: u64
  mc_stake :: u64
  mc_root_digest :: bytes
  mc_root_slots :: u64
  mc_attest_pk :: bytes

record ('cc, 'beacon) quantova_anchor =
  qa_chain_id :: u64
  qa_genesis :: bytes
  qa_tau :: u64
  qa_commitment :: 'cc
  qa_keys :: "member_key list"
  qa_budget :: u64
  qa_beacon :: 'beacon

fun anchor_keys :: "usize \<Rightarrow> member_config list \<Rightarrow> member_key list \<Rightarrow> (exit_error, member_key list) res" where
  "anchor_keys pk_bytes [] keys = Ok keys"
| "anchor_keys pk_bytes (m # members) keys =
     (if length (mc_attest_pk m) \<noteq> pk_bytes then Err BadPublicKeyLen
      else if list_all (\<lambda>b. b = 0) (mc_attest_pk m) then Err (DegenerateKey (mc_id m))
      else if list_ex (\<lambda>k. mk_id k = mc_id m \<or> mk_attest_pk k = mc_attest_pk m) keys then Err (DuplicateMember (mc_id m))
      else anchor_keys pk_bytes members (keys @ [\<lparr>mk_id = mc_id m, mk_weight = mc_weight m, mk_stake = mc_stake m,
             mk_root_digest = mc_root_digest m, mk_root_slots = mc_root_slots m, mk_attest_pk = mc_attest_pk m\<rparr>]))"

definition anchor_from_config ::
  "('hdr, 'cert, 'incl, 'cc, 'beacon) qtv \<Rightarrow> u64 \<Rightarrow> u64 \<Rightarrow> u64 \<Rightarrow> u64 \<Rightarrow> bytes \<Rightarrow> member_config list \<Rightarrow>
   (exit_error, ('cc, 'beacon) quantova_anchor) res" where
  "anchor_from_config q chain_id tau slot budget beacon_seed members =
     (if chain_id = 0 \<or> tau = 0 then Err UnsetAnchor
      else if members = [] then Err UnsetAnchor
      else
      and_then (anchor_keys (qv_public_key_bytes q) members []) (\<lambda>keys.
      if unat tau > length keys then Err TauAboveCommittee
      else
      let need = qv_finality_threshold q (word_of_nat (length keys)) in
      if tau < need then Err (TauBelowQuorum tau need)
      else Ok \<lparr>qa_chain_id = chain_id, qa_genesis = replicate 32 0, qa_tau = tau,
               qa_commitment = qv_from_member_keys q slot keys budget, qa_keys = keys, qa_budget = budget,
               qa_beacon = qv_from_seed q beacon_seed\<rparr>))"

definition with_genesis :: "bytes \<Rightarrow> ('cc, 'beacon) quantova_anchor \<Rightarrow> ('cc, 'beacon) quantova_anchor" where
  "with_genesis genesis a = a\<lparr>qa_genesis := genesis\<rparr>"

definition anchor_binding :: "('cc, 'beacon) quantova_anchor \<Rightarrow> u64 \<times> bytes" where
  "anchor_binding a = (qa_chain_id a, qa_genesis a)"

definition commitment_at ::
  "('hdr, 'cert, 'incl, 'cc, 'beacon) qtv \<Rightarrow> ('cc, 'beacon) quantova_anchor \<Rightarrow> u64 \<Rightarrow> 'cc" where
  "commitment_at q a slot =
     (if slot = qv_commitment_slot q (qa_commitment a) then qa_commitment a
      else qv_from_member_keys q slot (qa_keys a) (qa_budget a))"

section \<open>The proof of burn\<close>

definition NATIVE_EVENT_SOURCE :: bytes where "NATIVE_EVENT_SOURCE = ascii ''qtv/native''"
definition EVENT_BRIDGE_BURN :: bytes where "EVENT_BRIDGE_BURN = ascii ''QBBN''"
definition BRIDGE_BURN_REF_DOMAIN :: bytes where "BRIDGE_BURN_REF_DOMAIN = ascii ''qtv/bridge/burn-ref/v2''"

record authenticated_burn =
  ab_asset_id :: bytes
  ab_holder :: bytes
  ab_destination :: bytes
  ab_amount :: u128
  ab_burn_ref :: bytes
  ab_dest_chain :: u64
  ab_finalized_height :: u64

record ('cert, 'incl) proof_of_burn =
  pb_header_bytes :: bytes
  pb_certificate :: 'cert
  pb_leaf :: bytes
  pb_inclusion :: 'incl

text \<open>\<open>map_err(|_| LeafDecode)?\<close> on a read of the decoder.\<close>

abbreviation leaf_read :: "('a \<times> 'dec) option \<Rightarrow> ('a \<Rightarrow> 'dec \<Rightarrow> (exit_error, 'b) res) \<Rightarrow> (exit_error, 'b) res" where
  "leaf_read r f \<equiv> and_then (ok_or LeafDecode r) (\<lambda>(a, d). f a d)"

text \<open>The bytes whose hash the reference of a burn must be.\<close>

definition burn_ref_preimage ::
  "('dec, 'enc) qtv_codec \<Rightarrow> u64 \<Rightarrow> bytes \<Rightarrow> bytes \<Rightarrow> bytes \<Rightarrow> u128 \<Rightarrow> bytes \<Rightarrow> u64 \<Rightarrow> u64 \<Rightarrow> bytes" where
  "burn_ref_preimage k dest_chain genesis asset_id holder amount destination sender_nonce event_index =
     qe_into_bytes k (qe_put_u64 k event_index (qe_put_u64 k sender_nonce (qe_put_bytes k destination
       (qe_put_u128 k amount (qe_put_bytes k holder (qe_put_bytes k asset_id (qe_put_bytes k genesis
       (qe_put_u64 k dest_chain (qe_put_bytes k BRIDGE_BURN_REF_DOMAIN (qe_new k))))))))))"

definition parse_burn_fields ::
  "('dec, 'enc) qtv_codec \<Rightarrow> (bytes \<Rightarrow> bytes) \<Rightarrow> bytes \<Rightarrow> u64 \<Rightarrow> bytes option \<Rightarrow> (exit_error, authenticated_burn) res" where
  "parse_burn_fields k sha3 data finalized_height genesis =
     leaf_read (qd_get_bytes k (qd_new k data)) (\<lambda>asset_id d1.
     leaf_read (qd_get_bytes k d1) (\<lambda>holder d2.
     leaf_read (qd_get_u128 k d2) (\<lambda>amount d3.
     leaf_read (qd_get_bytes k d3) (\<lambda>destination d4.
     leaf_read (qd_get_u64 k d4) (\<lambda>dest_chain d5.
     leaf_read (qd_get_u64 k d5) (\<lambda>sender_nonce d6.
     leaf_read (qd_get_u64 k d6) (\<lambda>event_index d7.
     leaf_read (qd_get_bytes k d7) (\<lambda>burn_ref d8.
     if \<not> qd_finish k d8 then Err LeafDecode
     else if length asset_id \<noteq> 16 then Err LeafDecode
     else if length holder \<noteq> 32 then Err LeafDecode
     else if length destination \<noteq> 32 then Err LeafDecode
     else if length burn_ref \<noteq> 32 then Err LeafDecode
     else if (case genesis of Some g \<Rightarrow>
                sha3 (burn_ref_preimage k dest_chain g asset_id holder amount destination sender_nonce event_index) \<noteq> burn_ref
              | None \<Rightarrow> False)
     then Err BurnRefUnbound
     else Ok \<lparr>ab_asset_id = asset_id, ab_holder = holder, ab_destination = destination, ab_amount = amount,
              ab_burn_ref = burn_ref, ab_dest_chain = dest_chain, ab_finalized_height = finalized_height\<rparr>))))))))"

definition parse_burn_leaf ::
  "('dec, 'enc) qtv_codec \<Rightarrow> (bytes \<Rightarrow> bytes) \<Rightarrow> bytes \<Rightarrow> u64 \<Rightarrow> bytes option \<Rightarrow> (exit_error, authenticated_burn) res" where
  "parse_burn_leaf k sha3 leaf finalized_height genesis =
     leaf_read (qd_get_bytes k (qd_new k leaf)) (\<lambda>contract o1.
     leaf_read (qd_get_bytes k o1) (\<lambda>selector o2.
     leaf_read (qd_get_bytes k o2) (\<lambda>data o3.
     leaf_read (if qd_remaining k o3 > 0 then qd_get_bytes k o3 else Some ([], o3)) (\<lambda>tx o4.
     if \<not> qd_finish k o4 then Err LeafDecode
     else if contract \<noteq> NATIVE_EVENT_SOURCE \<or> selector \<noteq> EVENT_BRIDGE_BURN then Err NotABurnLeaf
     else parse_burn_fields k sha3 data finalized_height genesis))))"

definition burn_verify ::
  "('hdr, 'cert, 'incl, 'cc, 'beacon) qtv \<Rightarrow> ('dec, 'enc) qtv_codec \<Rightarrow> ('cert, 'incl) proof_of_burn \<Rightarrow>
   ('cc, 'beacon) quantova_anchor \<Rightarrow> (exit_error, authenticated_burn) res" where
  "burn_verify q k p a =
     and_then (ok_or HeaderDecode (qv_header_from_bytes q (pb_header_bytes p))) (\<lambda>header.
     let cert = pb_certificate p in
     if qv_block_val q cert \<noteq> qv_hash q header then Err HeaderMismatch
     else if qv_block_height q cert \<noteq> qv_height q header \<or> qv_envelope_height q cert \<noteq> qv_height q header
     then Err HeightMismatch
     else if \<not> qv_is_verified q cert (anchor_binding a) (commitment_at q a (qv_envelope_slot q cert)) (qa_beacon a) (qa_tau a)
     then Err NotFinalized
     else if (word_of_nat (qv_attesters q cert) :: u64) < qa_tau a then Err NotFinalized
     else if \<not> qv_verify_inclusion q (qv_event_root q header) (pb_leaf p) (pb_inclusion p) then Err BadInclusion
     else parse_burn_leaf k (qv_sha3 q) (pb_leaf p) (qv_height q header) (Some (qa_genesis a)))"

definition claimed_height ::
  "('hdr, 'cert, 'incl, 'cc, 'beacon) qtv \<Rightarrow> ('cert, 'incl) proof_of_burn \<Rightarrow> u64" where
  "claimed_height q p = (case qv_header_from_bytes q (pb_header_bytes p) of
     Some header \<Rightarrow> qv_height q header | None \<Rightarrow> qv_envelope_height q (pb_certificate p))"

definition claimed_burn_ref ::
  "('hdr, 'cert, 'incl, 'cc, 'beacon) qtv \<Rightarrow> ('dec, 'enc) qtv_codec \<Rightarrow> ('cert, 'incl) proof_of_burn \<Rightarrow> bytes option" where
  "claimed_burn_ref q k p = (case parse_burn_leaf k (qv_sha3 q) (pb_leaf p) 0 None of
     Ok burn \<Rightarrow> Some (ab_burn_ref burn) | _ \<Rightarrow> None)"

definition leaf_digest :: "('hdr, 'cert, 'incl, 'cc, 'beacon) qtv \<Rightarrow> bytes \<Rightarrow> bytes" where
  "leaf_digest q leaf = qv_sha3 q leaf"

section \<open>What the desk calls\<close>

text \<open>The desk sees a proof through four methods and the anchor through one.\<close>

record ('p, 'a) burn_checks =
  bc_verify :: "'p \<Rightarrow> 'a \<Rightarrow> (exit_error, authenticated_burn) res"
  bc_claimed_height :: "'p \<Rightarrow> u64"
  bc_claimed_burn_ref :: "'p \<Rightarrow> bytes option"
  bc_leaf_digest :: "'p \<Rightarrow> bytes"
  bc_chain_id :: "'a \<Rightarrow> u64"

definition quantova_checks ::
  "('hdr, 'cert, 'incl, 'cc, 'beacon) qtv \<Rightarrow> ('dec, 'enc) qtv_codec \<Rightarrow>
   (('cert, 'incl) proof_of_burn, ('cc, 'beacon) quantova_anchor) burn_checks" where
  "quantova_checks q k = \<lparr>bc_verify = burn_verify q k, bc_claimed_height = claimed_height q,
     bc_claimed_burn_ref = claimed_burn_ref q k, bc_leaf_digest = leaf_digest q \<circ> pb_leaf,
     bc_chain_id = qa_chain_id\<rparr>"

section \<open>The committee of an anchor\<close>

lemma anchor_keys_Ok:
  assumes "anchor_keys n members acc = Ok keys" "distinct (map mk_id acc)" "distinct (map mk_attest_pk acc)"
  shows "map mk_id keys = map mk_id acc @ map mc_id members \<and> map mk_attest_pk keys = map mk_attest_pk acc @ map mc_attest_pk members \<and>
    distinct (map mk_id keys) \<and> distinct (map mk_attest_pk keys) \<and>
    (\<forall>m\<in>set members. length (mc_attest_pk m) = n \<and> (\<exists>b\<in>set (mc_attest_pk m). b \<noteq> 0))"
  using assms
proof (induction members arbitrary: acc)
  case (Cons m members)
  let ?k = "\<lparr>mk_id = mc_id m, mk_weight = mc_weight m, mk_stake = mc_stake m,
             mk_root_digest = mc_root_digest m, mk_root_slots = mc_root_slots m, mk_attest_pk = mc_attest_pk m\<rparr>"
  from Cons.prems(1) have m: "length (mc_attest_pk m) = n" "\<exists>b\<in>set (mc_attest_pk m). b \<noteq> 0"
    "\<forall>k\<in>set acc. mk_id k \<noteq> mc_id m \<and> mk_attest_pk k \<noteq> mc_attest_pk m" "anchor_keys n members (acc @ [?k]) = Ok keys"
    by (auto simp: list_all_iff list_ex_iff split: if_splits)
  have "distinct (map mk_id (acc @ [?k]))" "distinct (map mk_attest_pk (acc @ [?k]))" using Cons.prems(2,3) m(3) by auto
  from Cons.IH [OF m(4) this] m(1,2) show ?case by (intro conjI) (simp, simp, blast, blast, simp)
qed simp

section \<open>What a verified burn shows\<close>

definition burn_bound :: "('dec, 'enc) qtv_codec \<Rightarrow> (bytes \<Rightarrow> bytes) \<Rightarrow> bytes \<Rightarrow> authenticated_burn \<Rightarrow> bool" where
  "burn_bound k sha3 genesis b \<longleftrightarrow> length (ab_asset_id b) = 16 \<and> length (ab_holder b) = 32 \<and>
     length (ab_destination b) = 32 \<and> length (ab_burn_ref b) = 32 \<and>
     (\<exists>nonce idx. ab_burn_ref b = sha3 (burn_ref_preimage k (ab_dest_chain b) genesis (ab_asset_id b) (ab_holder b)
        (ab_amount b) (ab_destination b) nonce idx))"

lemma parse_burn_leaf_Ok:
  assumes "parse_burn_leaf k sha3 leaf height (Some genesis) = Ok b"
  shows "burn_bound k sha3 genesis b \<and> ab_finalized_height b = height"
proof -
  from assms obtain data where "parse_burn_fields k sha3 data height (Some genesis) = Ok b"
    by (auto simp: parse_burn_leaf_def and_then_Ok_iff split: if_splits)
  then show ?thesis
    unfolding parse_burn_fields_def burn_bound_def
    by (auto simp: and_then_Ok_iff split: if_splits) (intro exI, rule refl)
qed

lemma burn_verify_Ok:
  assumes "burn_verify q k p a = Ok b"
  obtains header where "qv_header_from_bytes q (pb_header_bytes p) = Some header"
    "qv_block_val q (pb_certificate p) = qv_hash q header" "qv_block_height q (pb_certificate p) = qv_height q header"
    "qv_is_verified q (pb_certificate p) (anchor_binding a) (commitment_at q a (qv_envelope_slot q (pb_certificate p)))
       (qa_beacon a) (qa_tau a)"
    "qa_tau a \<le> word_of_nat (qv_attesters q (pb_certificate p))"
    "qv_verify_inclusion q (qv_event_root q header) (pb_leaf p) (pb_inclusion p)"
    "burn_bound k (qv_sha3 q) (qa_genesis a) b" "ab_finalized_height b = qv_height q header"
  using assms
  by (auto simp: burn_verify_def and_then_Ok_iff ok_or_Ok_iff Let_def not_less intro!: that dest!: parse_burn_leaf_Ok
      split: if_splits)

end
