(* ===== verification/Exit_Desk.thy ===== *)
theory Exit_Desk
  imports Exit_Journal Exit_Ledger Exit_Vault Exit_Outbound Exit_Burn
begin

text \<open>
  \<^verbatim>\<open>crates/q-exits/src/exits.rs\<close>: the exit desk. A proven burn opens an exit and locks the collateral of a
  vault; a proven payout settles it and releases the collateral; past the deadline and the grace period the
  exit is slashed and the collateral seized. Every step is written to the journal, from which a restarted
  desk is rebuilt.

  The burn checks are the record \<open>burn_checks\<close> of \<open>Exit_Burn\<close>, the watchers those of \<open>Exit_Payout\<close>; \<open>mac\<close> is the
  tag function of the state files.
\<close>

section \<open>Configuration\<close>

definition BPS_DEN :: u128 where "BPS_DEN = 10000"

record desk_config =
  dc_corridor :: u32
  dc_bridge_dest_chain :: u32
  dc_secure_bps :: u32
  dc_premium_bps :: u32
  dc_window :: u64
  dc_grace :: u64
  dc_assets :: "bytes list"
  dc_max_amount :: u128

definition SECURE_RATIO_BPS :: u32 where "SECURE_RATIO_BPS = 15000"
definition SLASH_PREMIUM_BPS :: u32 where "SLASH_PREMIUM_BPS = 10000"
definition REDEEM_WINDOW_MS :: u64 where "REDEEM_WINDOW_MS = 86400000"
definition SLASH_GRACE_MS :: u64 where "SLASH_GRACE_MS = 21600000"
definition MAX_DEAD_LETTERS :: usize where "MAX_DEAD_LETTERS = 65536"

definition desk_aligned :: "u32 \<Rightarrow> u32 \<Rightarrow> desk_config" where
  "desk_aligned corridor bridge_dest_chain =
     \<lparr>dc_corridor = corridor, dc_bridge_dest_chain = bridge_dest_chain, dc_secure_bps = SECURE_RATIO_BPS,
      dc_premium_bps = SLASH_PREMIUM_BPS, dc_window = REDEEM_WINDOW_MS, dc_grace = SLASH_GRACE_MS,
      dc_assets = [], dc_max_amount = 0\<rparr>"

definition desk_serving :: "bytes list \<Rightarrow> u128 \<Rightarrow> desk_config \<Rightarrow> desk_config" where
  "desk_serving assets max_amount c = c\<lparr>dc_assets := assets, dc_max_amount := max_amount\<rparr>"

definition desk_serves :: "desk_config \<Rightarrow> bytes \<Rightarrow> bool" where
  "desk_serves c asset = list_ex (\<lambda>served. served = asset) (dc_assets c)"

definition sat_mul :: "'l::len word \<Rightarrow> 'l word \<Rightarrow> 'l word" where
  "sat_mul a b = (if unat a * unat b < 2 ^ LENGTH('l) then a * b else - 1)"

definition checked_mul :: "'l::len word \<Rightarrow> 'l word \<Rightarrow> 'l word option" where
  "checked_mul a b = (if unat a * unat b < 2 ^ LENGTH('l) then Some (a * b) else None)"

definition window_covers_the_largest_exit :: "desk_config \<Rightarrow> u32 \<Rightarrow> u64 \<Rightarrow> bool" where
  "window_covers_the_largest_exit c base_depth spacing_ms =
     (if dc_max_amount c = 0 then True
      else let depth = confirmations_for (dc_max_amount c) base_depth;
               needed = sat_mul (ucast depth) spacing_ms
           in sat_mul needed 2 \<le> dc_window c)"

section \<open>State\<close>

datatype exit_state = Pending | Settled | Slashed

record desk_exit =
  ex_statement :: exit_statement
  ex_vault_id :: u32
  ex_locked :: u128
  ex_issued_at :: u64
  ex_deadline :: u64
  ex_state :: exit_state

record exit_release =
  rl_vault_id :: u32
  rl_released :: u128

record slash_outcome =
  so_vault_id :: u32
  so_holder :: bytes
  so_user_payout :: u128
  so_remainder :: u128

text \<open>The two journals behind the trait: one that keeps nothing, and the file.\<close>

datatype exit_journal = Null_Journal | File_Journal persistent_journal

fun exit_journal_append :: "mac \<Rightarrow> exit_event \<Rightarrow> exit_journal \<Rightarrow> exit_journal \<times> (exit_error, unit) res" where
  "exit_journal_append mac event Null_Journal = (Null_Journal, Ok ())"
| "exit_journal_append mac event (File_Journal j) =
     (case journal_append mac event j of (j', r) \<Rightarrow> (File_Journal j', r))"

fun exit_journal_events :: "exit_journal \<Rightarrow> exit_event list" where
  "exit_journal_events Null_Journal = []"
| "exit_journal_events (File_Journal j) = pj_events j"

record 'a exit_desk =
  dk_cfg :: desk_config
  dk_anchor :: 'a
  dk_vaults :: vault_book
  dk_exits :: "desk_exit list"
  dk_dead :: "dead_letter list"
  dk_consumed :: replay_ledger
  dk_journal :: exit_journal
  dk_seized_reserve :: u128

definition desk_assemble ::
  "desk_config \<Rightarrow> 'a \<Rightarrow> replay_ledger \<Rightarrow> exit_journal \<Rightarrow> (exit_error, 'a exit_desk) res" where
  "desk_assemble cfg anchor consumed journal =
     (if dc_corridor cfg = 0 \<or> dc_bridge_dest_chain cfg = 0 \<or> dc_secure_bps cfg \<le> ucast BPS_DEN \<or>
         dc_premium_bps cfg < ucast BPS_DEN \<or> dc_premium_bps cfg > dc_secure_bps cfg
      then Err UnsafeParams
      else Ok \<lparr>dk_cfg = cfg, dk_anchor = anchor, dk_vaults = [], dk_exits = [], dk_dead = [],
               dk_consumed = consumed, dk_journal = journal, dk_seized_reserve = 0\<rparr>)"

definition desk_new :: "desk_config \<Rightarrow> 'a \<Rightarrow> (exit_error, 'a exit_desk) res" where
  "desk_new cfg anchor = desk_assemble cfg anchor memory_ledger_new Null_Journal"

definition desk_with_ledger :: "desk_config \<Rightarrow> 'a \<Rightarrow> replay_ledger \<Rightarrow> (exit_error, 'a exit_desk) res" where
  "desk_with_ledger cfg anchor consumed = desk_assemble cfg anchor consumed Null_Journal"

definition desk_with_journal :: "desk_config \<Rightarrow> 'a \<Rightarrow> exit_journal \<Rightarrow> (exit_error, 'a exit_desk) res" where
  "desk_with_journal cfg anchor journal = desk_assemble cfg anchor memory_ledger_new journal"

definition register_vault :: "u32 \<Rightarrow> u128 \<Rightarrow> 'a exit_desk \<Rightarrow> 'a exit_desk" where
  "register_vault vault_id collateral d = d\<lparr>dk_vaults := vault_register vault_id collateral (dk_vaults d)\<rparr>"

definition required_collateral :: "'a exit_desk \<Rightarrow> u128 \<Rightarrow> (exit_error, u128) res" where
  "required_collateral d amount =
     ok_or Overflow (map_option (\<lambda>scaled. scaled div BPS_DEN) (checked_mul amount (ucast (dc_secure_bps (dk_cfg d)))))"

definition user_premium :: "'a exit_desk \<Rightarrow> u128 \<Rightarrow> (exit_error, u128) res" where
  "user_premium d amount =
     ok_or Overflow (map_option (\<lambda>scaled. scaled div BPS_DEN) (checked_mul amount (ucast (dc_premium_bps (dk_cfg d)))))"

definition is_consumed :: "'a exit_desk \<Rightarrow> bytes \<Rightarrow> bool" where
  "is_consumed d burn_ref = is_released (dk_consumed d) burn_ref"

definition exit_get :: "desk_exit list \<Rightarrow> usize \<Rightarrow> desk_exit option" where
  "exit_get exits i = (if i < length exits then Some (exits ! i) else None)"

definition settleable :: "'a exit_desk \<Rightarrow> usize list" where
  "settleable d = map fst (filter (\<lambda>(_, x). ex_state x = Pending) (enumerate 0 (dk_exits d)))"

definition slash_opens_at :: "'a exit_desk \<Rightarrow> desk_exit \<Rightarrow> u64" where
  "slash_opens_at d x = sat_add (ex_deadline x) (dc_grace (dk_cfg d))"

definition slashable :: "'a exit_desk \<Rightarrow> u64 \<Rightarrow> usize list" where
  "slashable d now =
     map fst (filter (\<lambda>(_, x). ex_state x = Pending \<and> now > slash_opens_at d x) (enumerate 0 (dk_exits d)))"

definition desk_decision :: "'a exit_desk \<Rightarrow> usize \<Rightarrow> exit_decision option" where
  "desk_decision d i =
     (case exit_get (dk_exits d) i of
        None \<Rightarrow> None
      | Some x \<Rightarrow>
          (case ex_state x of
             Pending \<Rightarrow> None
           | Settled \<Rightarrow> Some (decision_settle (ex_statement x) (dc_bridge_dest_chain (dk_cfg d)))
           | Slashed \<Rightarrow> Some (decision_slash (ex_statement x) (dc_bridge_dest_chain (dk_cfg d)))))"

section \<open>Opening\<close>

definition desk_dead_letter ::
  "('p, 'a) burn_checks \<Rightarrow> mac \<Rightarrow> 'p \<Rightarrow> exit_error \<Rightarrow> u64 \<Rightarrow> 'a exit_desk \<Rightarrow> 'a exit_desk \<times> (exit_error, unit) res" where
  "desk_dead_letter B mac proof error now d =
     (let letter = \<lparr>dl_height = bc_claimed_height B proof, dl_leaf_digest = bc_leaf_digest B proof,
            dl_burn_ref = (case bc_claimed_burn_ref B proof of Some r \<Rightarrow> r | None \<Rightarrow> replicate 32 0),
            dl_reason = dead_reason_of error, dl_recorded_at = now\<rparr> in
      if list_ex (\<lambda>held. dl_height held = dl_height letter \<and> dl_leaf_digest held = dl_leaf_digest letter) (dk_dead d)
      then (d, Ok ())
      else if length (dk_dead d) \<ge> MAX_DEAD_LETTERS then (d, Err LedgerFull)
      else
        case exit_journal_append mac (Ev_Dead (word_of_nat (length (dk_dead d))) letter) (dk_journal d) of
          (j, r) \<Rightarrow> and_then_st r (d\<lparr>dk_journal := j\<rparr>) (\<lambda>_.
            (d\<lparr>dk_journal := j, dk_dead := dk_dead d @ [letter]\<rparr>, Ok ())))"

definition dead_letters :: "'a exit_desk \<Rightarrow> dead_letter list" where
  "dead_letters d =
     filter (\<lambda>letter. dl_burn_ref letter = replicate 32 0 \<or> \<not> is_released (dk_consumed d) (dl_burn_ref letter)) (dk_dead d)"

text \<open>\<open>release(..)?\<close> on the way out with an error.\<close>

definition undo_lock :: "u32 \<Rightarrow> u128 \<Rightarrow> exit_error \<Rightarrow> 'a exit_desk \<Rightarrow> 'a exit_desk \<times> (exit_error, usize) res" where
  "undo_lock vault_id required e d =
     (case vault_release vault_id required (dk_vaults d) of
        (m, r) \<Rightarrow> and_then_st r (d\<lparr>dk_vaults := m\<rparr>) (\<lambda>_. (d\<lparr>dk_vaults := m\<rparr>, Err e)))"

definition open_statement :: "'a exit_desk \<Rightarrow> authenticated_burn \<Rightarrow> exit_statement" where
  "open_statement d burn =
     \<lparr>es_version = EXIT_STATEMENT_VERSION, es_corridor = dc_corridor (dk_cfg d), es_asset_id = ab_asset_id burn,
      es_amount = ab_amount burn, es_holder = ab_holder burn, es_destination = ab_destination burn,
      es_burn_ref = ab_burn_ref burn, es_finalized_height = ab_finalized_height burn\<rparr>"

definition open_event :: "'a exit_desk \<Rightarrow> exit_statement \<Rightarrow> u32 \<Rightarrow> u128 \<Rightarrow> u64 \<Rightarrow> u64 \<Rightarrow> exit_event" where
  "open_event d s vault_id required issued_at deadline =
     Ev_Open (word_of_nat (length (dk_exits d)))
       \<lparr>je_version = es_version s, je_corridor = es_corridor s, je_asset_id = es_asset_id s, je_amount = es_amount s,
        je_holder = es_holder s, je_destination = es_destination s, je_burn_ref = es_burn_ref s,
        je_finalized_height = es_finalized_height s, je_vault_id = vault_id, je_locked = required,
        je_issued_at = issued_at, je_deadline = deadline\<rparr>"

definition open_locked ::
  "mac \<Rightarrow> exit_statement \<Rightarrow> u128 \<Rightarrow> u64 \<Rightarrow> u32 \<Rightarrow> 'a exit_desk \<Rightarrow> 'a exit_desk \<times> (exit_error, usize) res" where
  "open_locked mac s required now vault_id d =
     (let deadline = sat_add now (dc_window (dk_cfg d));
          event = open_event d s vault_id required now deadline in
      case ledger_record mac (es_burn_ref s) (dk_consumed d) of
        (l, Err e) \<Rightarrow> undo_lock vault_id required e (d\<lparr>dk_consumed := l\<rparr>)
      | (l, Panic) \<Rightarrow> (d\<lparr>dk_consumed := l\<rparr>, Panic)
      | (l, Ok _) \<Rightarrow>
          (case exit_journal_append mac event (dk_journal d) of
             (j, Err e) \<Rightarrow>
               undo_lock vault_id required e (d\<lparr>dk_consumed := ledger_forget mac (es_burn_ref s) l, dk_journal := j\<rparr>)
           | (j, Panic) \<Rightarrow> (d\<lparr>dk_consumed := l, dk_journal := j\<rparr>, Panic)
           | (j, Ok _) \<Rightarrow>
               (let exits = dk_exits d @ [\<lparr>ex_statement = s, ex_vault_id = vault_id, ex_locked = required,
                      ex_issued_at = now, ex_deadline = deadline, ex_state = Pending\<rparr>]
                in (d\<lparr>dk_consumed := l, dk_journal := j, dk_exits := exits\<rparr>, Ok (length exits - 1)))))"

definition open_exit ::
  "('p, 'a) burn_checks \<Rightarrow> mac \<Rightarrow> 'p \<Rightarrow> u64 \<Rightarrow> 'a exit_desk \<Rightarrow> 'a exit_desk \<times> (exit_error, usize) res" where
  "open_exit B mac proof now d =
     and_then_st (bc_verify B proof (dk_anchor d)) d (\<lambda>burn.
     if ab_dest_chain burn \<noteq> bc_chain_id B (dk_anchor d)
     then (d, Err (ExitWrongDestination (ab_dest_chain burn) (bc_chain_id B (dk_anchor d))))
     else if \<not> desk_serves (dk_cfg d) (ab_asset_id burn) then (d, Err (UnservedAsset (ab_asset_id burn)))
     else if dc_max_amount (dk_cfg d) > 0 \<and> ab_amount burn > dc_max_amount (dk_cfg d)
     then (d, Err (AmountAboveCeiling (ab_amount burn) (dc_max_amount (dk_cfg d))))
     else
     let s = open_statement d burn in
     and_then_st (statement_validate s) d (\<lambda>_.
     if is_released (dk_consumed d) (es_burn_ref s) then (d, Err ReplayedExit)
     else
     and_then_st (required_collateral d (es_amount s)) d (\<lambda>required.
     case lock_any required (dk_vaults d) of
       (m, r) \<Rightarrow> and_then_st r (d\<lparr>dk_vaults := m\<rparr>) (\<lambda>vault_id.
         open_locked mac s required now vault_id (d\<lparr>dk_vaults := m\<rparr>)))))"

section \<open>Closing\<close>

definition set_state :: "exit_state \<Rightarrow> usize \<Rightarrow> desk_exit list \<Rightarrow> desk_exit list" where
  "set_state st i exits = exits[i := (exits ! i)\<lparr>ex_state := st\<rparr>]"

definition settle ::
  "mac \<Rightarrow> usize \<Rightarrow> payout_watcher \<Rightarrow> 'a exit_desk \<Rightarrow> 'a exit_desk \<times> (exit_error, exit_release) res" where
  "settle mac i watcher d =
     and_then_st (ok_or ExitUnknownExit (exit_get (dk_exits d) i)) d (\<lambda>x.
     if ex_state x \<noteq> Pending then (d, Err NotPending)
     else if pw_corridor watcher \<noteq> dc_corridor (dk_cfg d) then (d, Err PayoutMismatch)
     else
     and_then_st (ok_or PayoutUnproven (pw_confirm watcher (ex_statement x))) d (\<lambda>attestation.
     and_then_st (payout_validate attestation) d (\<lambda>_.
     if \<not> covers attestation (ex_statement x) then (d, Err PayoutMismatch)
     else if is_released (dk_consumed d) (pa_foreign_ref attestation) then (d, Err ReplayedPayout)
     else
     case ledger_record mac (pa_foreign_ref attestation) (dk_consumed d) of
       (l, r) \<Rightarrow> and_then_st r (d\<lparr>dk_consumed := l\<rparr>) (\<lambda>_.
         case exit_journal_append mac (Ev_Settle (word_of_nat i) (pa_foreign_ref attestation)) (dk_journal d) of
           (j, Err e) \<Rightarrow>
             (d\<lparr>dk_consumed := ledger_forget mac (pa_foreign_ref attestation) l, dk_journal := j\<rparr>, Err e)
         | (j, Panic) \<Rightarrow> (d\<lparr>dk_consumed := l, dk_journal := j\<rparr>, Panic)
         | (j, Ok _) \<Rightarrow>
             (let d' = d\<lparr>dk_consumed := l, dk_journal := j, dk_exits := set_state Settled i (dk_exits d)\<rparr> in
              case vault_release (ex_vault_id x) (ex_locked x) (dk_vaults d') of
                (m, r') \<Rightarrow> and_then_st r' (d'\<lparr>dk_vaults := m\<rparr>) (\<lambda>_.
                  (d'\<lparr>dk_vaults := m\<rparr>, Ok \<lparr>rl_vault_id = ex_vault_id x, rl_released = ex_locked x\<rparr>)))))))"

definition apply_slash :: "usize \<Rightarrow> 'a exit_desk \<Rightarrow> 'a exit_desk \<times> (exit_error, slash_outcome) res" where
  "apply_slash i d =
     and_then_st (ok_or ExitUnknownExit (exit_get (dk_exits d) i)) d (\<lambda>x.
     case vault_seize (ex_vault_id x) (ex_locked x) (dk_vaults d) of
       (m, r) \<Rightarrow> and_then_st r (d\<lparr>dk_vaults := m\<rparr>) (\<lambda>_.
         and_then_st (ok_or Overflow (checked_add (dk_seized_reserve d) (ex_locked x))) (d\<lparr>dk_vaults := m\<rparr>) (\<lambda>reserve.
         (d\<lparr>dk_vaults := m, dk_seized_reserve := reserve\<rparr>,
          Ok \<lparr>so_vault_id = ex_vault_id x, so_holder = es_holder (ex_statement x), so_user_payout = 0,
              so_remainder = ex_locked x\<rparr>))))"

definition slash :: "mac \<Rightarrow> usize \<Rightarrow> u64 \<Rightarrow> 'a exit_desk \<Rightarrow> 'a exit_desk \<times> (exit_error, slash_outcome) res" where
  "slash mac i now d =
     and_then_st (ok_or ExitUnknownExit (exit_get (dk_exits d) i)) d (\<lambda>x.
     if ex_state x \<noteq> Pending then (d, Err NotPending)
     else if now \<le> slash_opens_at d x then (d, Err (WindowOpen now (slash_opens_at d x)))
     else
     and_then_st (user_premium d (es_amount (ex_statement x))) d (\<lambda>_.
     case exit_journal_append mac (Ev_Slash (word_of_nat i)) (dk_journal d) of
       (j, r) \<Rightarrow> and_then_st r (d\<lparr>dk_journal := j\<rparr>) (\<lambda>_.
         apply_slash i (d\<lparr>dk_journal := j, dk_exits := set_state Slashed i (dk_exits d)\<rparr>))))"

fun proves_no_payout :: "exit_error \<Rightarrow> bool" where
  "proves_no_payout PayoutUnproven = True"
| "proves_no_payout PayoutMismatch = True"
| "proves_no_payout ReplayedPayout = True"
| "proves_no_payout (ExitBadVersion _) = True"
| "proves_no_payout ZeroCorridor = True"
| "proves_no_payout ExitZeroAmount = True"
| "proves_no_payout ExitZeroAsset = True"
| "proves_no_payout ZeroBeneficiary = True"
| "proves_no_payout ZeroBurnRef = True"
| "proves_no_payout _ = False"

fun overdue_loop ::
  "mac \<Rightarrow> usize \<Rightarrow> payout_watcher list \<Rightarrow> u64 \<Rightarrow> 'a exit_desk \<Rightarrow> 'a exit_desk \<times> (exit_error, exit_outcome) res" where
  "overdue_loop mac i [] now d =
     (case slash mac i now d of (d', r) \<Rightarrow> and_then_st r d' (\<lambda>_. (d', Ok Slash)))"
| "overdue_loop mac i (w # ws) now d =
     (case settle mac i w d of
        (d', Ok _) \<Rightarrow> (d', Ok Settle)
      | (d', Err e) \<Rightarrow> if proves_no_payout e then overdue_loop mac i ws now d' else (d', Err e)
      | (d', Panic) \<Rightarrow> (d', Panic))"

definition close_overdue ::
  "mac \<Rightarrow> usize \<Rightarrow> payout_watcher list \<Rightarrow> u64 \<Rightarrow> 'a exit_desk \<Rightarrow> 'a exit_desk \<times> (exit_error, exit_outcome) res" where
  "close_overdue mac i watchers now d =
     and_then_st (ok_or ExitUnknownExit (exit_get (dk_exits d) i)) d (\<lambda>x.
     if ex_state x \<noteq> Pending then (d, Err NotPending) else overdue_loop mac i watchers now d)"

definition take_seized_reserve :: "'a exit_desk \<Rightarrow> 'a exit_desk \<times> u128" where
  "take_seized_reserve d = (d\<lparr>dk_seized_reserve := 0\<rparr>, dk_seized_reserve d)"

section \<open>Rebuilding\<close>

fun replay_event :: "mac \<Rightarrow> exit_event \<Rightarrow> 'a exit_desk \<Rightarrow> 'a exit_desk \<times> (exit_error, unit) res" where
  "replay_event mac (Ev_Open index x) d =
     (if unat index \<noteq> length (dk_exits d) then (d, Err PersistFailed)
      else if is_released (dk_consumed d) (je_burn_ref x) then (d, Err PersistFailed)
      else
      case vault_lock (je_vault_id x) (je_locked x) (dk_vaults d) of
        (m, r) \<Rightarrow> and_then_st r (d\<lparr>dk_vaults := m\<rparr>) (\<lambda>_.
          case ledger_record mac (je_burn_ref x) (dk_consumed d) of
            (l, r') \<Rightarrow> and_then_st r' (d\<lparr>dk_vaults := m, dk_consumed := l\<rparr>) (\<lambda>_.
              (d\<lparr>dk_vaults := m, dk_consumed := l, dk_exits := dk_exits d @
                 [\<lparr>ex_statement = \<lparr>es_version = je_version x, es_corridor = je_corridor x, es_asset_id = je_asset_id x,
                     es_amount = je_amount x, es_holder = je_holder x, es_destination = je_destination x,
                     es_burn_ref = je_burn_ref x, es_finalized_height = je_finalized_height x\<rparr>,
                   ex_vault_id = je_vault_id x, ex_locked = je_locked x, ex_issued_at = je_issued_at x,
                   ex_deadline = je_deadline x, ex_state = Pending\<rparr>]\<rparr>, Ok ()))))"
| "replay_event mac (Ev_Settle index foreign_ref) d =
     (if is_released (dk_consumed d) foreign_ref then (d, Err PersistFailed)
      else
      and_then_st (ok_or PersistFailed (exit_get (dk_exits d) (unat index))) d (\<lambda>x.
      if ex_state x \<noteq> Pending then (d, Err PersistFailed)
      else
      let d1 = d\<lparr>dk_exits := set_state Settled (unat index) (dk_exits d)\<rparr> in
      case ledger_record mac foreign_ref (dk_consumed d1) of
        (l, r) \<Rightarrow> and_then_st r (d1\<lparr>dk_consumed := l\<rparr>) (\<lambda>_.
          case vault_release (ex_vault_id x) (ex_locked x) (dk_vaults d1) of
            (m, r') \<Rightarrow> and_then_st r' (d1\<lparr>dk_consumed := l, dk_vaults := m\<rparr>) (\<lambda>_.
              (d1\<lparr>dk_consumed := l, dk_vaults := m\<rparr>, Ok ())))))"
| "replay_event mac (Ev_Slash index) d =
     and_then_st (ok_or PersistFailed (exit_get (dk_exits d) (unat index))) d (\<lambda>x.
     if ex_state x \<noteq> Pending then (d, Err PersistFailed)
     else
       case apply_slash (unat index) (d\<lparr>dk_exits := set_state Slashed (unat index) (dk_exits d)\<rparr>) of
         (d', r) \<Rightarrow> and_then_st r d' (\<lambda>_. (d', Ok ())))"
| "replay_event mac (Ev_Dead index letter) d =
     (if unat index \<noteq> length (dk_dead d) then (d, Err PersistFailed)
      else (d\<lparr>dk_dead := dk_dead d @ [letter]\<rparr>, Ok ()))"

fun replay_all :: "mac \<Rightarrow> exit_event list \<Rightarrow> 'a exit_desk \<Rightarrow> 'a exit_desk \<times> (exit_error, unit) res" where
  "replay_all mac [] d = (d, Ok ())"
| "replay_all mac (e # es) d =
     (case replay_event mac e d of (d', r) \<Rightarrow> and_then_st r d' (\<lambda>_. replay_all mac es d'))"

definition reconstruct :: "mac \<Rightarrow> 'a exit_desk \<Rightarrow> 'a exit_desk \<times> (exit_error, unit) res" where
  "reconstruct mac d = replay_all mac (exit_journal_events (dk_journal d)) d"

end
