(* ===== verification/Exit_Desk_Safety.thy ===== *)
theory Exit_Desk_Safety
  imports Exit_Desk Runs
begin

text \<open>
  What the calls of the exit desk do to its state. A call either leaves everything but the ledger and the
  journal as it was (\<open>quiet\<close>), or its effect is the replay of the one event it has written to the journal
  (\<open>effect\<close>). The invariant is shown once, for the replay of an event, and rebuilding a desk from its journal is
  the replay of its history.
\<close>

section \<open>The collateral behind the open exits\<close>

definition pending_sum :: "u32 \<Rightarrow> desk_exit list \<Rightarrow> nat" where
  "pending_sum v exits =
     sum_list (map (\<lambda>x. unat (ex_locked x)) (filter (\<lambda>x. ex_state x = Pending \<and> ex_vault_id x = v) exits))"

lemma pending_sum_snoc:
  "pending_sum v (exits @ [x]) =
     pending_sum v exits + (if ex_state x = Pending \<and> ex_vault_id x = v then unat (ex_locked x) else 0)"
  by (simp add: pending_sum_def)

lemma pending_sum_close:
  assumes "i < length exits" "ex_state (exits ! i) = Pending" "st \<noteq> Pending"
  shows "pending_sum v exits =
    pending_sum v (set_state st i exits) + (if v = ex_vault_id (exits ! i) then unat (ex_locked (exits ! i)) else 0)"
proof -
  define x pre post where "x = exits ! i" and "pre = take i exits" and "post = drop (Suc i) exits"
  have "exits = pre @ x # post" using assms(1) by (simp add: pre_def post_def x_def id_take_nth_drop)
  moreover have "set_state st i exits = pre @ x\<lparr>ex_state := st\<rparr> # post"
    using assms(1) by (simp add: set_state_def pre_def post_def x_def upd_conv_take_nth_drop)
  moreover have "ex_state x = Pending" using assms(2) by (simp add: x_def)
  ultimately have "pending_sum v exits = pending_sum v (set_state st i exits) + (if v = ex_vault_id x then unat (ex_locked x) else 0)"
    using assms(3) by (simp add: pending_sum_def)
  then show ?thesis by (simp only: x_def)
qed

text \<open>What an exit on the books has gone through.\<close>

definition exit_ok :: "desk_config \<Rightarrow> desk_exit \<Rightarrow> bool" where
  "exit_ok cfg x \<longleftrightarrow>
     (let s = ex_statement x in
      statement_validate s = Ok () \<and> es_corridor s = dc_corridor cfg \<and> desk_serves cfg (es_asset_id s) \<and>
      (dc_max_amount cfg = 0 \<or> es_amount s \<le> dc_max_amount cfg) \<and>
      unat (ex_locked x) = unat (es_amount s) * unat (dc_secure_bps cfg) div 10000 \<and>
      ex_deadline x = sat_add (ex_issued_at x) (dc_window cfg))"

abbreviation burn_refs :: "desk_exit list \<Rightarrow> bytes list" where
  "burn_refs exits \<equiv> map (\<lambda>x. es_burn_ref (ex_statement x)) exits"

definition desk_inv :: "'a exit_desk \<Rightarrow> bool" where
  "desk_inv d \<longleftrightarrow>
     book_wf (dk_vaults d) \<and> book_total (dk_vaults d) + unat (dk_seized_reserve d) < 2 ^ 128 \<and>
     (\<forall>v. unat (locked_of (dk_vaults d) v) = pending_sum v (dk_exits d)) \<and>
     (\<forall>x\<in>set (dk_exits d). bt_contains (dk_vaults d) (ex_vault_id x) \<and> exit_ok (dk_cfg d) x \<and>
        is_released (dk_consumed d) (es_burn_ref (ex_statement x))) \<and>
     distinct (burn_refs (dk_exits d)) \<and>
     length (ledger_refs (dk_consumed d)) \<le> MAX_LEDGER_ENTRIES \<and> length (dk_dead d) \<le> MAX_DEAD_LETTERS"

lemma desk_invD:
  assumes "desk_inv d"
  shows "book_wf (dk_vaults d)" "book_total (dk_vaults d) + unat (dk_seized_reserve d) < 2 ^ 128"
    "\<And>v. unat (locked_of (dk_vaults d) v) = pending_sum v (dk_exits d)"
    "\<And>x. x \<in> set (dk_exits d) \<Longrightarrow> bt_contains (dk_vaults d) (ex_vault_id x) \<and> exit_ok (dk_cfg d) x \<and>
        is_released (dk_consumed d) (es_burn_ref (ex_statement x))"
    "distinct (burn_refs (dk_exits d))"
    "length (ledger_refs (dk_consumed d)) \<le> MAX_LEDGER_ENTRIES" "length (dk_dead d) \<le> MAX_DEAD_LETTERS"
  using assms by (simp_all add: desk_inv_def)

lemma exits_few: "desk_inv d \<Longrightarrow> length (dk_exits d) \<le> MAX_LEDGER_ENTRIES"
proof -
  assume inv: "desk_inv d"
  have "set (burn_refs (dk_exits d)) \<subseteq> set (ledger_refs (dk_consumed d))"
    using desk_invD(4) [OF inv] by (auto simp: is_released_def bs_contains_def)
  then have "card (set (burn_refs (dk_exits d))) \<le> card (set (ledger_refs (dk_consumed d)))" by (intro card_mono) simp_all
  also have "\<dots> \<le> length (ledger_refs (dk_consumed d))" by (rule card_length)
  finally show ?thesis using desk_invD(6) [OF inv] distinct_card [OF desk_invD(5) [OF inv]] by simp
qed

lemma index_exact: "n \<le> MAX_LEDGER_ENTRIES \<Longrightarrow> unat (word_of_nat n :: u32) = n"
  by (simp add: MAX_LEDGER_ENTRIES_def unat_of_nat)

lemma dead_index_exact: "n \<le> MAX_DEAD_LETTERS \<Longrightarrow> unat (word_of_nat n :: u32) = n"
  by (simp add: MAX_DEAD_LETTERS_def unat_of_nat)

lemma pending_covered:
  assumes "desk_inv d" "exit_get (dk_exits d) i = Some x" "ex_state x = Pending"
  shows "bt_contains (dk_vaults d) (ex_vault_id x)" "unat (ex_locked x) \<le> unat (locked_of (dk_vaults d) (ex_vault_id x))"
proof -
  from assms(2) have i: "i < length (dk_exits d)" "x = dk_exits d ! i" by (auto simp: exit_get_def split: if_splits)
  then have "x \<in> set (dk_exits d)" by simp
  then show "bt_contains (dk_vaults d) (ex_vault_id x)" using desk_invD(4) [OF assms(1)] by blast
  show "unat (ex_locked x) \<le> unat (locked_of (dk_vaults d) (ex_vault_id x))"
    using pending_sum_close [OF i(1), of Settled "ex_vault_id x"] assms(3) i desk_invD(3) [OF assms(1)] by simp
qed

section \<open>The ledger and the journal of the desk\<close>

lemma ledger_record_length:
  "length (ledger_refs l) \<le> MAX_LEDGER_ENTRIES \<Longrightarrow> length (ledger_refs (fst (ledger_record mac r l))) \<le> MAX_LEDGER_ENTRIES"
proof -
  have ins: "length (bs_insert r s) \<le> Suc (length s)" for s :: "bytes btree_set"
    by (induction s) auto
  assume "length (ledger_refs l) \<le> MAX_LEDGER_ENTRIES"
  then show ?thesis
    by (cases l) (auto split: prod.splits intro: order_trans [OF ins])
qed

lemma ledger_forget_length:
  "length (ledger_refs l) \<le> MAX_LEDGER_ENTRIES \<Longrightarrow> length (ledger_refs (ledger_forget mac r l)) \<le> MAX_LEDGER_ENTRIES"
proof -
  have rem: "length (bs_remove r s) \<le> length s" for s :: "bytes btree_set" by (simp add: bs_remove_def)
  have shrink: "bs_contains s r \<Longrightarrow> Suc (length (bs_remove r s)) \<le> length s" for s :: "bytes btree_set"
    by (simp add: bs_remove_def bs_contains_def removeAll_filter_not_eq length_filter_less Suc_leI)
  have ins: "length (bs_insert r s) \<le> Suc (length s)" for s :: "bytes btree_set"
    by (induction s) auto
  assume "length (ledger_refs l) \<le> MAX_LEDGER_ENTRIES"
  then show ?thesis
    by (cases l)
      (auto split: prod.splits bool.splits intro: order_trans [OF rem] order_trans [OF ins] order_trans [OF shrink])
qed

lemma ledger_record_errors:
  "ledger_record mac r l = (l', Err e) \<Longrightarrow> e = LedgerFull \<or> e = PersistFailed"
  by (cases l) (auto split: if_splits prod.splits)

lemma journal_append_errors:
  "exit_journal_append mac ev j = (j', Err e) \<Longrightarrow> e = LedgerFull \<or> e = PersistFailed"
  by (cases j) (auto simp: journal_append_def Let_def split: if_splits prod.splits)

lemma exit_journal_append_not_Panic: "exit_journal_append mac ev j \<noteq> (j', Panic)"
  using journal_append_not_Panic by (cases j) (auto split: prod.splits, metis snd_conv)

lemma ledger_record_not_Panic: "ledger_record mac r l \<noteq> (l', Panic)"
  using rl.rec_total [of mac r l] by auto

fun exit_journal_inv :: "mac \<Rightarrow> exit_journal \<Rightarrow> bool" where
  "exit_journal_inv mac Null_Journal = True"
| "exit_journal_inv mac (File_Journal j) = journal_inv mac j"

text \<open>A fresh reference that is recorded and taken back leaves a ledger in memory as it was.\<close>

definition ledger_kept :: "replay_ledger \<Rightarrow> replay_ledger \<Rightarrow> bool" where
  "ledger_kept l l' \<longleftrightarrow>
     (\<forall>r. is_released l r \<longrightarrow> is_released l' r) \<and>
     (length (ledger_refs l) \<le> MAX_LEDGER_ENTRIES \<longrightarrow> length (ledger_refs l') \<le> MAX_LEDGER_ENTRIES) \<and>
     (\<forall>refs. l = Memory_Ledger refs \<and> bs_wf refs \<longrightarrow> l' = l)"

lemma ledger_kept_refl: "ledger_kept l l" and ledger_kept_trans: "ledger_kept a b \<Longrightarrow> ledger_kept b c \<Longrightarrow> ledger_kept a c"
  by (auto simp: ledger_kept_def)

lemma ledger_kept_record_Err:
  assumes "ledger_record mac r l = (l', Err e)"
  shows "ledger_kept l l'"
  using rl.rec_Err [OF assms] ledger_record_length [of l mac r] assms
  by (auto simp: ledger_kept_def split: if_splits)

lemma ledger_kept_forget:
  assumes "ledger_record mac r l = (l1, Ok u)" "\<not> is_released l r"
  shows "ledger_kept l (ledger_forget mac r l1)"
  unfolding ledger_kept_def
proof (intro conjI allI impI)
  show "is_released (ledger_forget mac r l1) x" if "is_released l x" for x
    using rl.rec_forget [OF assms(1), of x] that assms(2) by metis
  show "length (ledger_refs (ledger_forget mac r l1)) \<le> MAX_LEDGER_ENTRIES" if "length (ledger_refs l) \<le> MAX_LEDGER_ENTRIES"
    using ledger_record_length [OF that, of mac r] assms(1) by (intro ledger_forget_length) simp
  show "ledger_forget mac r l1 = l" if "l = Memory_Ledger refs \<and> bs_wf refs" for refs
    using assms that bs.rem_add_new [of refs r] by (auto simp: is_released_def split: if_splits)
qed

definition journal_kept :: "mac \<Rightarrow> exit_journal \<Rightarrow> exit_journal \<Rightarrow> bool" where
  "journal_kept mac j j' \<longleftrightarrow> (j' = Null_Journal \<longleftrightarrow> j = Null_Journal) \<and>
     (exit_journal_inv mac j \<longrightarrow> exit_journal_inv mac j' \<and> exit_journal_events j' = exit_journal_events j)"

lemma journal_kept_refl: "journal_kept mac j j"
  and journal_kept_trans: "journal_kept mac a b \<Longrightarrow> journal_kept mac b c \<Longrightarrow> journal_kept mac a c"
  by (auto simp: journal_kept_def)

lemma journal_kept_Err:
  "event_wf ev \<Longrightarrow> exit_journal_append mac ev j = (j', Err e) \<Longrightarrow> journal_kept mac j j'"
  by (cases j) (auto simp: journal_kept_def split: prod.splits dest: pjl.app_Err)

lemma journal_extended:
  "event_wf ev \<Longrightarrow> exit_journal_inv mac j \<Longrightarrow> exit_journal_append mac ev j = (j', Ok u) \<Longrightarrow>
   exit_journal_inv mac j' \<and> (j \<noteq> Null_Journal \<longrightarrow> exit_journal_events j' = exit_journal_events j @ [ev])"
  by (cases j) (auto split: prod.splits dest: pjl.app_Ok)

section \<open>Quiet calls and effects\<close>

definition quiet :: "mac \<Rightarrow> 'a exit_desk \<Rightarrow> 'a exit_desk \<Rightarrow> bool" where
  "quiet mac d d' \<longleftrightarrow> d' = d\<lparr>dk_consumed := dk_consumed d', dk_journal := dk_journal d'\<rparr> \<and>
     ledger_kept (dk_consumed d) (dk_consumed d') \<and> journal_kept mac (dk_journal d) (dk_journal d')"

definition effect :: "mac \<Rightarrow> exit_event \<Rightarrow> 'a exit_desk \<Rightarrow> 'a exit_desk \<Rightarrow> bool" where
  "effect mac e d d' \<longleftrightarrow> replay_event mac e d = (d'\<lparr>dk_journal := dk_journal d\<rparr>, Ok ()) \<and>
     exit_journal_append mac e (dk_journal d) = (dk_journal d', Ok ()) \<and> event_wf e"

lemma quiet_refl: "quiet mac d d"
  by (simp add: quiet_def ledger_kept_refl journal_kept_refl)

lemma quiet_fields:
  assumes "quiet mac d d'"
  shows "dk_vaults d' = dk_vaults d" "dk_exits d' = dk_exits d" "dk_dead d' = dk_dead d" "dk_cfg d' = dk_cfg d"
    "dk_anchor d' = dk_anchor d" "dk_seized_reserve d' = dk_seized_reserve d"
    "is_released (dk_consumed d) r \<Longrightarrow> is_released (dk_consumed d') r"
proof -
  have eq: "d' = d\<lparr>dk_consumed := dk_consumed d', dk_journal := dk_journal d'\<rparr>" using assms by (simp add: quiet_def)
  show "dk_vaults d' = dk_vaults d" "dk_exits d' = dk_exits d" "dk_dead d' = dk_dead d" "dk_cfg d' = dk_cfg d"
    "dk_anchor d' = dk_anchor d" "dk_seized_reserve d' = dk_seized_reserve d"
    by (subst eq, simp)+
  show "is_released (dk_consumed d) r \<Longrightarrow> is_released (dk_consumed d') r"
    using assms by (simp add: quiet_def ledger_kept_def)
qed

lemma quiet_trans:
  assumes "quiet mac a b" "quiet mac b c"
  shows "quiet mac a c"
proof -
  have "c = a\<lparr>dk_consumed := dk_consumed c, dk_journal := dk_journal c\<rparr>"
    using quiet_fields(1-6) [OF assms(1)] quiet_fields(1-6) [OF assms(2)] by (intro exit_desk.equality) simp_all
  then show ?thesis using assms unfolding quiet_def by (blast intro: ledger_kept_trans journal_kept_trans)
qed

lemma quiet_inv:
  assumes "desk_inv d" "quiet mac d d'"
  shows "desk_inv d'"
proof -
  have "ledger_kept (dk_consumed d) (dk_consumed d')" using assms(2) by (simp add: quiet_def)
  with assms(1) show ?thesis
    unfolding desk_inv_def ledger_kept_def using quiet_fields(1-6) [OF assms(2)] by simp
qed

text \<open>Replaying an event does not look at the journal.\<close>

lemma apply_slash_journal:
  "apply_slash i (d\<lparr>dk_journal := j\<rparr>) = (case apply_slash i d of (d', r) \<Rightarrow> (d'\<lparr>dk_journal := j\<rparr>, r))"
  by (auto simp: apply_slash_def and_then_st_case split: prod.splits res.splits)

lemma replay_event_journal:
  "replay_event mac e (d\<lparr>dk_journal := j\<rparr>) = (case replay_event mac e d of (d', r) \<Rightarrow> (d'\<lparr>dk_journal := j\<rparr>, r))"
proof (cases e)
  case (Ev_Slash index)
  have "apply_slash i (d\<lparr>dk_journal := j, dk_exits := x\<rparr>) =
      (case apply_slash i (d\<lparr>dk_exits := x\<rparr>) of (d', r) \<Rightarrow> (d'\<lparr>dk_journal := j\<rparr>, r))" for i x
  proof -
    have "d\<lparr>dk_journal := j, dk_exits := x\<rparr> = d\<lparr>dk_exits := x, dk_journal := j\<rparr>" by simp
    then show ?thesis by (simp only: apply_slash_journal)
  qed
  then show ?thesis unfolding Ev_Slash by (auto simp: and_then_st_case split: prod.splits res.splits)
qed (auto simp: Let_def and_then_st_case split: prod.splits res.splits)

lemma replay_all_journal:
  "replay_all mac es (d\<lparr>dk_journal := j\<rparr>) = (case replay_all mac es d of (d', r) \<Rightarrow> (d'\<lparr>dk_journal := j\<rparr>, r))"
  by (induction es arbitrary: d) (auto simp: replay_event_journal and_then_st_case split: prod.splits res.splits)

lemma replay_all_append:
  "replay_all mac es d = (d1, Ok ()) \<Longrightarrow> replay_all mac (es @ es') d = replay_all mac es' d1"
  by (induction es arbitrary: d) (auto simp: and_then_st_case split: prod.splits res.splits)

section \<open>The invariant\<close>

definition journaled :: "journaled_exit \<Rightarrow> desk_exit" where
  "journaled x = \<lparr>ex_statement = \<lparr>es_version = je_version x, es_corridor = je_corridor x, es_asset_id = je_asset_id x,
       es_amount = je_amount x, es_holder = je_holder x, es_destination = je_destination x,
       es_burn_ref = je_burn_ref x, es_finalized_height = je_finalized_height x\<rparr>,
     ex_vault_id = je_vault_id x, ex_locked = je_locked x, ex_issued_at = je_issued_at x,
     ex_deadline = je_deadline x, ex_state = Pending\<rparr>"

lemma exit_ok_state [simp]: "exit_ok cfg (x\<lparr>ex_state := st\<rparr>) = exit_ok cfg x"
  by (simp add: exit_ok_def)

lemma set_state_ball:
  assumes "\<forall>x\<in>set exits. P x" "i < length exits" "\<And>x. P x \<Longrightarrow> P (x\<lparr>ex_state := st\<rparr>)"
  shows "\<forall>x\<in>set (set_state st i exits). P x"
  using assms set_update_subset_insert [of exits i] unfolding set_state_def by fastforce

lemma burn_refs_set_state: "i < length exits \<Longrightarrow> burn_refs (set_state st i exits) = burn_refs exits"
  by (simp add: set_state_def map_update) (metis (no_types, lifting) list_update_id nth_map)

lemma exit_get_Some: "exit_get exits i = Some x \<longleftrightarrow> i < length exits \<and> x = exits ! i"
  by (auto simp: exit_get_def)

lemma replay_open_Ok:
  "replay_event mac (Ev_Open index x) d = (d', Ok u) \<longleftrightarrow>
     unat index = length (dk_exits d) \<and> \<not> is_released (dk_consumed d) (je_burn_ref x) \<and>
     (\<exists>m l. vault_lock (je_vault_id x) (je_locked x) (dk_vaults d) = (m, Ok ()) \<and>
        ledger_record mac (je_burn_ref x) (dk_consumed d) = (l, Ok ()) \<and>
        d' = d\<lparr>dk_vaults := m, dk_consumed := l, dk_exits := dk_exits d @ [journaled x]\<rparr>)"
  by (auto simp: and_then_st_case journaled_def split: prod.splits res.splits)

lemma replay_settle_Ok:
  "replay_event mac (Ev_Settle index foreign_ref) d = (d', Ok u) \<longleftrightarrow>
     \<not> is_released (dk_consumed d) foreign_ref \<and>
     (\<exists>x m l. exit_get (dk_exits d) (unat index) = Some x \<and> ex_state x = Pending \<and>
        ledger_record mac foreign_ref (dk_consumed d) = (l, Ok ()) \<and>
        vault_release (ex_vault_id x) (ex_locked x) (dk_vaults d) = (m, Ok ()) \<and>
        d' = d\<lparr>dk_exits := set_state Settled (unat index) (dk_exits d), dk_consumed := l, dk_vaults := m\<rparr>)"
  by (cases "exit_get (dk_exits d) (unat index)") (auto simp: and_then_st_case Let_def split: prod.splits res.splits)

lemma exit_get_set_state: "exit_get exits i = Some x \<Longrightarrow> exit_get (set_state st i exits) i = Some (x\<lparr>ex_state := st\<rparr>)"
  by (auto simp: exit_get_def set_state_def split: if_splits)

lemma apply_slash_Ok:
  "apply_slash i d = (d', Ok out) \<longleftrightarrow>
     (\<exists>x m reserve. exit_get (dk_exits d) i = Some x \<and> vault_seize (ex_vault_id x) (ex_locked x) (dk_vaults d) = (m, Ok ()) \<and>
        checked_add (dk_seized_reserve d) (ex_locked x) = Some reserve \<and>
        d' = d\<lparr>dk_vaults := m, dk_seized_reserve := reserve\<rparr> \<and>
        out = \<lparr>so_vault_id = ex_vault_id x, so_holder = es_holder (ex_statement x), so_user_payout = 0, so_remainder = ex_locked x\<rparr>)"
  by (cases "exit_get (dk_exits d) i")
    (auto simp: apply_slash_def and_then_st_case ok_or_Ok_iff split: prod.splits res.splits)

lemma replay_slash_Ok:
  "replay_event mac (Ev_Slash index) d = (d', Ok u) \<longleftrightarrow>
     (\<exists>x m reserve. exit_get (dk_exits d) (unat index) = Some x \<and> ex_state x = Pending \<and>
        vault_seize (ex_vault_id x) (ex_locked x) (dk_vaults d) = (m, Ok ()) \<and>
        checked_add (dk_seized_reserve d) (ex_locked x) = Some reserve \<and>
        d' = d\<lparr>dk_exits := set_state Slashed (unat index) (dk_exits d), dk_vaults := m, dk_seized_reserve := reserve\<rparr>)"
proof (cases "exit_get (dk_exits d) (unat index)")
  case (Some x)
  let ?d = "d\<lparr>dk_exits := set_state Slashed (unat index) (dk_exits d)\<rparr>"
  have "replay_event mac (Ev_Slash index) d = (d', Ok u) \<longleftrightarrow> ex_state x = Pending \<and> (\<exists>out. apply_slash (unat index) ?d = (d', Ok out))"
    using Some by (auto simp: and_then_st_case split: prod.splits res.splits)
  then show ?thesis using Some unfolding apply_slash_Ok by (auto simp: exit_get_set_state [OF Some])
qed simp

text \<open>What an event must satisfy for its replay to keep the invariant: an opened exit is one the desk would open.\<close>

fun event_fits :: "'a exit_desk \<Rightarrow> exit_event \<Rightarrow> bool" where
  "event_fits d (Ev_Open index x) = exit_ok (dk_cfg d) (journaled x)"
| "event_fits d (Ev_Dead index letter) = (length (dk_dead d) < MAX_DEAD_LETTERS)"
| "event_fits d _ = True"

lemma replay_open_inv:
  assumes "desk_inv d" "replay_event mac (Ev_Open index x) d = (d', Ok u)" "exit_ok (dk_cfg d) (journaled x)"
  shows "desk_inv d'"
proof -
  from assms(2) obtain m l where fresh: "\<not> is_released (dk_consumed d) (je_burn_ref x)"
    and m: "vault_lock (je_vault_id x) (je_locked x) (dk_vaults d) = (m, Ok ())"
    and l: "ledger_record mac (je_burn_ref x) (dk_consumed d) = (l, Ok ())"
    and d': "d' = d\<lparr>dk_vaults := m, dk_consumed := l, dk_exits := dk_exits d @ [journaled x]\<rparr>"
    unfolding replay_open_Ok by blast
  note inv = desk_invD [OF assms(1)]
  note lock = vault_lock_Ok [OF inv(1) m]
  note led = rl.rec_Ok [OF l]
  have len: "length (ledger_refs l) \<le> MAX_LEDGER_ENTRIES" using ledger_record_length [OF inv(6), of mac "je_burn_ref x"] l by simp
  have "je_burn_ref x \<notin> set (burn_refs (dk_exits d))" using inv(4) fresh by auto
  moreover have new: "es_burn_ref (ex_statement (journaled x)) = je_burn_ref x" "ex_vault_id (journaled x) = je_vault_id x"
    "ex_locked (journaled x) = je_locked x" "ex_state (journaled x) = Pending" by (simp_all add: journaled_def)
  ultimately show ?thesis
    unfolding desk_inv_def d' using inv lock led len assms(3) by (auto simp: pending_sum_snoc)
qed

lemma replay_settle_inv:
  assumes "desk_inv d" "replay_event mac (Ev_Settle index foreign_ref) d = (d', Ok u)"
  shows "desk_inv d'"
proof -
  from assms(2) obtain x m l where x: "exit_get (dk_exits d) (unat index) = Some x" "ex_state x = Pending"
    and l: "ledger_record mac foreign_ref (dk_consumed d) = (l, Ok ())"
    and m: "vault_release (ex_vault_id x) (ex_locked x) (dk_vaults d) = (m, Ok ())"
    and d': "d' = d\<lparr>dk_exits := set_state Settled (unat index) (dk_exits d), dk_consumed := l, dk_vaults := m\<rparr>"
    unfolding replay_settle_Ok by blast
  note inv = desk_invD [OF assms(1)]
  note release = vault_release_Ok [OF inv(1) m]
  note led = rl.rec_Ok [OF l]
  from x have i: "unat index < length (dk_exits d)" "dk_exits d ! unat index = x" by (auto simp: exit_get_Some)
  have len: "length (ledger_refs l) \<le> MAX_LEDGER_ENTRIES" using ledger_record_length [OF inv(6), of mac foreign_ref] l by simp
  have "unat (locked_of m v) = pending_sum v (set_state Settled (unat index) (dk_exits d))" for v
    using pending_sum_close [OF i(1), of Settled v] release inv(3) [of v] x(2) i(2) by auto
  moreover have "\<forall>x\<in>set (set_state Settled (unat index) (dk_exits d)). bt_contains m (ex_vault_id x) \<and>
      exit_ok (dk_cfg d) x \<and> is_released l (es_burn_ref (ex_statement x))"
    by (rule set_state_ball) (use inv(4) release led i(1) in auto)
  ultimately show ?thesis
    unfolding desk_inv_def d' using inv release len i(1) by (simp add: burn_refs_set_state)
qed

lemma replay_slash_inv:
  assumes "desk_inv d" "replay_event mac (Ev_Slash index) d = (d', Ok u)"
  shows "desk_inv d'"
proof -
  from assms(2) obtain x m reserve where x: "exit_get (dk_exits d) (unat index) = Some x" "ex_state x = Pending"
    and m: "vault_seize (ex_vault_id x) (ex_locked x) (dk_vaults d) = (m, Ok ())"
    and r: "checked_add (dk_seized_reserve d) (ex_locked x) = Some reserve"
    and d': "d' = d\<lparr>dk_exits := set_state Slashed (unat index) (dk_exits d), dk_vaults := m, dk_seized_reserve := reserve\<rparr>"
    unfolding replay_slash_Ok by blast
  note inv = desk_invD [OF assms(1)]
  note seize = vault_seize_Ok [OF inv(1) m]
  from x have i: "unat index < length (dk_exits d)" "dk_exits d ! unat index = x" by (auto simp: exit_get_Some)
  have "unat reserve = unat (dk_seized_reserve d) + unat (ex_locked x)" using r by (simp add: checked_add_Some_iff)
  with seize inv(2) have "book_total m + unat reserve < 2 ^ 128" by linarith
  moreover have "unat (locked_of m v) = pending_sum v (set_state Slashed (unat index) (dk_exits d))" for v
    using pending_sum_close [OF i(1), of Slashed v] seize inv(3) [of v] x(2) i(2) by auto
  moreover have "\<forall>x\<in>set (set_state Slashed (unat index) (dk_exits d)). bt_contains m (ex_vault_id x) \<and>
      exit_ok (dk_cfg d) x \<and> is_released (dk_consumed d) (es_burn_ref (ex_statement x))"
    by (rule set_state_ball) (use inv(4) seize i(1) in auto)
  ultimately show ?thesis
    unfolding desk_inv_def d' using inv seize i(1) by (simp add: burn_refs_set_state)
qed

lemma replay_event_inv:
  assumes "desk_inv d" "replay_event mac e d = (d', Ok u)" "event_fits d e"
  shows "desk_inv d'"
  using assms
proof (cases e)
  case (Ev_Open index x)
  show ?thesis by (rule replay_open_inv [OF assms(1) assms(2) [unfolded Ev_Open]]) (use assms(3) Ev_Open in simp)
next
  case (Ev_Settle index r)
  show ?thesis by (rule replay_settle_inv [OF assms(1) assms(2) [unfolded Ev_Settle]])
next
  case (Ev_Slash index)
  show ?thesis by (rule replay_slash_inv [OF assms(1) assms(2) [unfolded Ev_Slash]])
next
  case (Ev_Dead index letter)
  with assms show ?thesis by (auto simp: desk_inv_def split: if_splits)
qed

lemma journal_irrelevant: "desk_inv (d\<lparr>dk_journal := j\<rparr>) = desk_inv d"
  by (simp add: desk_inv_def)

lemma effect_inv: "desk_inv d \<Longrightarrow> effect mac e d d' \<Longrightarrow> event_fits d e \<Longrightarrow> desk_inv d'"
  using replay_event_inv [of d mac e "d'\<lparr>dk_journal := dk_journal d\<rparr>"] by (simp add: effect_def journal_irrelevant)

end
