(* ===== verification/Exit_Desk_Runs.thy ===== *)
theory Exit_Desk_Runs
  imports Exit_Desk_Safety
begin

text \<open>
  Runs of the exit desk: the calls of the desk as quiet steps and effects, the collateral through whole runs, and
  the desk after a restart.

  \<open>checks_wf\<close> and \<open>watcher_wf\<close> are the array types of the code: what a proof or a watcher hands out has the
  length its type says.
\<close>

definition checks_wf :: "('p, 'a) burn_checks \<Rightarrow> bool" where
  "checks_wf B \<longleftrightarrow>
     (\<forall>p a b. bc_verify B p a = Ok b \<longrightarrow> length (ab_asset_id b) = 16 \<and> length (ab_holder b) = 32 \<and>
        length (ab_destination b) = 32 \<and> length (ab_burn_ref b) = 32) \<and>
     (\<forall>p. length (bc_leaf_digest B p) = 32) \<and> (\<forall>p r. bc_claimed_burn_ref B p = Some r \<longrightarrow> length r = 32)"

definition watcher_wf :: "payout_watcher \<Rightarrow> bool" where
  "watcher_wf w \<longleftrightarrow> (\<forall>s a. pw_confirm w s = Some a \<longrightarrow> length (pa_foreign_ref a) = 32)"

lemma checked_mul_Some: "checked_mul a b = Some c \<longleftrightarrow> unat c = unat a * unat b" for a b c :: "'l::len word"
proof
  assume "checked_mul a b = Some c"
  then show "unat c = unat a * unat b" by (auto simp: checked_mul_def unat_word_ariths split: if_splits)
next
  assume "unat c = unat a * unat b"
  moreover have "unat c < 2 ^ LENGTH('l)" by (rule unsigned_less)
  ultimately show "checked_mul a b = Some c" by (auto simp: checked_mul_def word_unat_eq_iff unat_word_ariths)
qed

lemma required_collateral_Ok:
  assumes "required_collateral d amount = Ok required"
  shows "unat required = unat amount * unat (dc_secure_bps (dk_cfg d)) div 10000"
proof -
  from assms obtain c where c: "checked_mul amount (ucast (dc_secure_bps (dk_cfg d))) = Some c" "required = c div BPS_DEN"
    by (auto simp: required_collateral_def ok_or_Ok_iff)
  have "unat (dc_secure_bps (dk_cfg d)) < 2 ^ 32" using unsigned_less [of "dc_secure_bps (dk_cfg d)", where ?'a = nat] by simp
  then have "unat (ucast (dc_secure_bps (dk_cfg d)) :: u128) = unat (dc_secure_bps (dk_cfg d))"
    by (intro unat_ucast_small) simp
  with c show ?thesis by (simp add: checked_mul_Some unat_div_distrib BPS_DEN_def)
qed

section \<open>The calls\<close>

lemma quietI:
  assumes "d' = d\<lparr>dk_consumed := l, dk_journal := j\<rparr>" "ledger_kept (dk_consumed d) l" "journal_kept mac (dk_journal d) j"
  shows "quiet mac d d'"
  using assms by (simp add: quiet_def)

lemma undo_lock_after_lock:
  assumes "book_wf m" "vault_lock v a m = (m', Ok ())" "dk_vaults d = m'"
  shows "undo_lock v a e d = (d\<lparr>dk_vaults := m\<rparr>, Err e)"
  using lock_release [OF assms(1,2)] assms(3) by (simp add: undo_lock_def)

text \<open>After the collateral is locked: either the exit is on the books, the ledger and the journal, or on none.\<close>

lemma open_locked_step:
  assumes "desk_inv d" "vault_lock v req (dk_vaults d) = (m, Ok ())" "\<not> is_released (dk_consumed d) (es_burn_ref s)"
    and "event_wf (open_event d s v req now (sat_add now (dc_window (dk_cfg d))))"
    and "open_locked mac s req now v (d\<lparr>dk_vaults := m\<rparr>) = (d', r)"
  shows "(r = Ok (length (dk_exits d)) \<and> effect mac (open_event d s v req now (sat_add now (dc_window (dk_cfg d)))) d d') \<or>
    ((\<exists>e. r = Err e) \<and> quiet mac d d')"
proof -
  let ?ev = "open_event d s v req now (sat_add now (dc_window (dk_cfg d)))"
  have ev: "open_event (d\<lparr>dk_vaults := m\<rparr>) s v req now (sat_add now (dc_window (dk_cfg d))) = ?ev" by (simp add: open_event_def)
  note wf = desk_invD(1) [OF assms(1)]
  obtain l rl where l: "ledger_record mac (es_burn_ref s) (dk_consumed d) = (l, rl)" by fastforce
  show ?thesis
  proof (cases rl)
    case (Ok u)
    obtain j rj where j: "exit_journal_append mac ?ev (dk_journal d) = (j, rj)" by fastforce
    show ?thesis
    proof (cases rj)
      case (Ok u')
      have "unat (word_of_nat (length (dk_exits d)) :: u32) = length (dk_exits d)"
        using exits_few [OF assms(1)] by (rule index_exact)
      then have "replay_event mac ?ev d = (d'\<lparr>dk_journal := dk_journal d\<rparr>, Ok ())"
        using assms(2,3,5) l j \<open>rl = Ok u\<close> Ok by (auto simp: open_locked_def open_event_def Let_def)
      moreover have "r = Ok (length (dk_exits d))" "dk_journal d' = j"
        using assms(5) l j \<open>rl = Ok u\<close> Ok ev by (auto simp: open_locked_def Let_def)
      ultimately show ?thesis using j Ok assms(4) by (simp add: effect_def)
    next
      case (Err e)
      have "open_locked mac s req now v (d\<lparr>dk_vaults := m\<rparr>) =
          (d\<lparr>dk_consumed := ledger_forget mac (es_burn_ref s) l, dk_journal := j\<rparr>, Err e)"
        using l j \<open>rl = Ok u\<close> Err ev by (simp add: open_locked_def Let_def undo_lock_after_lock [OF wf assms(2)])
      then have "r = Err e" "d' = d\<lparr>dk_consumed := ledger_forget mac (es_burn_ref s) l, dk_journal := j\<rparr>" using assms(5) by auto
      moreover have "ledger_kept (dk_consumed d) (ledger_forget mac (es_burn_ref s) l)"
        using ledger_kept_forget [of mac _ "dk_consumed d" l u] l \<open>rl = Ok u\<close> assms(3) by simp
      moreover have "journal_kept mac (dk_journal d) j" using journal_kept_Err [OF assms(4)] j Err by simp
      ultimately show ?thesis using quietI [where d = d and d' = d'] by blast
    qed (use j exit_journal_append_not_Panic in blast)
  next
    case (Err e)
    have "open_locked mac s req now v (d\<lparr>dk_vaults := m\<rparr>) = (d\<lparr>dk_consumed := l, dk_journal := dk_journal d\<rparr>, Err e)"
      using l Err by (simp add: open_locked_def Let_def undo_lock_after_lock [OF wf assms(2)])
    then have "r = Err e" "d' = d\<lparr>dk_consumed := l, dk_journal := dk_journal d\<rparr>" using assms(5) by auto
    with quietI [OF this(2) _ journal_kept_refl] ledger_kept_record_Err l Err show ?thesis by blast
  qed (use l ledger_record_not_Panic in blast)
qed

definition opens :: "('p, 'a) burn_checks \<Rightarrow> 'p \<Rightarrow> u64 \<Rightarrow> 'a exit_desk \<Rightarrow> authenticated_burn \<Rightarrow> exit_event \<Rightarrow> bool" where
  "opens B proof now d burn e \<longleftrightarrow>
     bc_verify B proof (dk_anchor d) = Ok burn \<and> ab_dest_chain burn = bc_chain_id B (dk_anchor d) \<and>
     \<not> is_released (dk_consumed d) (ab_burn_ref burn) \<and>
     (\<exists>v req. e = open_event d (open_statement d burn) v req now (sat_add now (dc_window (dk_cfg d))) \<and>
        (\<forall>j w. bt_get (dk_vaults d) j = Some w \<and> req \<le> va_free w \<longrightarrow> free_of (dk_vaults d) v \<le> va_free w)) \<and>
     event_fits d e"

lemma open_exit_step:
  assumes "desk_inv d" "checks_wf B" "open_exit B mac proof now d = (d', r)"
  shows "(\<exists>burn e. r = Ok (length (dk_exits d)) \<and> opens B proof now d burn e \<and> effect mac e d d') \<or>
    ((\<forall>i. r \<noteq> Ok i) \<and> quiet mac d d')"
proof (cases "\<exists>burn req m v. bc_verify B proof (dk_anchor d) = Ok burn \<and> ab_dest_chain burn = bc_chain_id B (dk_anchor d) \<and>
    desk_serves (dk_cfg d) (ab_asset_id burn) \<and> \<not> (dc_max_amount (dk_cfg d) > 0 \<and> ab_amount burn > dc_max_amount (dk_cfg d)) \<and>
    statement_validate (open_statement d burn) = Ok () \<and> \<not> is_released (dk_consumed d) (ab_burn_ref burn) \<and>
    required_collateral d (ab_amount burn) = Ok req \<and> lock_any req (dk_vaults d) = (m, Ok v)")
  case True
  then obtain burn req m v where c: "bc_verify B proof (dk_anchor d) = Ok burn" "ab_dest_chain burn = bc_chain_id B (dk_anchor d)"
    "desk_serves (dk_cfg d) (ab_asset_id burn)" "\<not> (dc_max_amount (dk_cfg d) > 0 \<and> ab_amount burn > dc_max_amount (dk_cfg d))"
    "statement_validate (open_statement d burn) = Ok ()" "\<not> is_released (dk_consumed d) (ab_burn_ref burn)"
    "required_collateral d (ab_amount burn) = Ok req" "lock_any req (dk_vaults d) = (m, Ok v)" by blast
  let ?s = "open_statement d burn"
  let ?ev = "open_event d ?s v req now (sat_add now (dc_window (dk_cfg d)))"
  have s: "es_burn_ref ?s = ab_burn_ref burn" "es_amount ?s = ab_amount burn" by (simp_all add: open_statement_def)
  have run: "open_locked mac ?s req now v (d\<lparr>dk_vaults := m\<rparr>) = (d', r)"
    using assms(3) c s by (simp add: open_exit_def Let_def)
  note lock = lock_any_Ok [OF desk_invD(1) [OF assms(1)] c(8)]
  have wf: "event_wf ?ev" using assms(2) c(1) by (simp add: open_event_def checks_wf_def open_statement_def)
  have "exit_ok (dk_cfg d) (journaled (case ?ev of Ev_Open _ x \<Rightarrow> x))"
    using c(3-5) required_collateral_Ok [OF c(7)]
    by (auto simp: exit_ok_def journaled_def open_event_def open_statement_def word_neq_0_conv not_less)
  then have "opens B proof now d burn ?ev"
    using c(1,2,6) lock(2) by (auto simp: opens_def open_event_def)
  moreover from open_locked_step [OF assms(1) lock(1) _ wf run] c(6) s
  have "(r = Ok (length (dk_exits d)) \<and> effect mac ?ev d d') \<or> ((\<exists>e. r = Err e) \<and> quiet mac d d')" by simp
  ultimately show ?thesis by auto
next
  case False
  have "d' = d \<and> (\<forall>i. r \<noteq> Ok i)"
  proof (cases "bc_verify B proof (dk_anchor d)")
    case (Ok burn)
    with False assms(3) show ?thesis
      by (auto simp: open_exit_def Let_def and_then_st_case open_statement_def lock_any_not_Panic dest: lock_any_Err
          split: if_splits res.splits prod.splits)
  qed (use assms(3) in \<open>auto simp: open_exit_def\<close>)
  then show ?thesis using quiet_refl by auto
qed

text \<open>A payout the desk accepts for an exit.\<close>

definition payout_for :: "payout_watcher \<Rightarrow> 'a exit_desk \<Rightarrow> desk_exit \<Rightarrow> payout_attestation \<Rightarrow> bool" where
  "payout_for w d x a \<longleftrightarrow> pw_corridor w = dc_corridor (dk_cfg d) \<and> pw_confirm w (ex_statement x) = Some a \<and>
     payout_validate a = Ok () \<and> covers a (ex_statement x) \<and> \<not> is_released (dk_consumed d) (pa_foreign_ref a)"

lemma payout_validate_not_Panic: "payout_validate a \<noteq> Panic"
  by (simp add: payout_validate_def)

lemma payout_validate_errors: "payout_validate a = Err e \<Longrightarrow> proves_no_payout e"
  by (auto simp: payout_validate_def split: if_splits)

lemma settle_no_payout:
  assumes "exit_get (dk_exits d) i = Some x" "ex_state x = Pending" "\<nexists>a. payout_for w d x a"
  shows "\<exists>e. settle mac i w d = (d, Err e) \<and> proves_no_payout e"
proof (cases "pw_corridor w = dc_corridor (dk_cfg d)")
  case True
  show ?thesis
  proof (cases "pw_confirm w (ex_statement x)")
    case (Some a)
    with True assms show ?thesis
      using payout_validate_errors [of a] payout_validate_not_Panic [of a]
      by (cases "payout_validate a") (auto simp: settle_def payout_for_def)
  qed (use True assms in \<open>simp add: settle_def\<close>)
qed (use assms in \<open>simp add: settle_def\<close>)

lemma settle_with_payout:
  assumes "desk_inv d" "watcher_wf w" "exit_get (dk_exits d) i = Some x" "ex_state x = Pending" "payout_for w d x a"
    and "settle mac i w d = (d', r)"
  shows "(r = Ok \<lparr>rl_vault_id = ex_vault_id x, rl_released = ex_locked x\<rparr> \<and>
      effect mac (Ev_Settle (word_of_nat i) (pa_foreign_ref a)) d d') \<or>
    ((\<exists>e. r = Err e \<and> \<not> proves_no_payout e) \<and> quiet mac d d')"
proof -
  let ?ref = "pa_foreign_ref a" and ?ev = "Ev_Settle (word_of_nat i) (pa_foreign_ref a)"
  have p: "pw_corridor w = dc_corridor (dk_cfg d)" "pw_confirm w (ex_statement x) = Some a" "payout_validate a = Ok ()"
    "covers a (ex_statement x)" "\<not> is_released (dk_consumed d) ?ref" using assms(5) by (simp_all add: payout_for_def)
  have wf: "event_wf ?ev" using assms(2) p(2) by (auto simp: watcher_wf_def)
  from assms(3) have i: "i < length (dk_exits d)" by (simp add: exit_get_Some)
  then have idx: "unat (word_of_nat i :: u32) = i" using exits_few [OF assms(1)] by (intro index_exact) simp
  obtain l rl where l: "ledger_record mac ?ref (dk_consumed d) = (l, rl)" by fastforce
  note run = assms(6) [unfolded settle_def]
  show ?thesis
  proof (cases rl)
    case (Ok u)
    obtain j rj where j: "exit_journal_append mac ?ev (dk_journal d) = (j, rj)" by fastforce
    show ?thesis
    proof (cases rj)
      case (Ok u')
      obtain m where m: "vault_release (ex_vault_id x) (ex_locked x) (dk_vaults d) = (m, Ok ())"
        using vault_release_succeeds [OF desk_invD(1) [OF assms(1)] _ pending_covered [OF assms(1,3,4)]]
          desk_invD(2) [OF assms(1)] by fastforce
      have d': "d' = d\<lparr>dk_consumed := l, dk_journal := j, dk_exits := set_state Settled i (dk_exits d), dk_vaults := m\<rparr>"
        and r: "r = Ok \<lparr>rl_vault_id = ex_vault_id x, rl_released = ex_locked x\<rparr>"
        using run assms(3,4) p l j \<open>rl = Ok u\<close> Ok m by (auto simp: Let_def)
      have "replay_event mac ?ev d = (d'\<lparr>dk_journal := dk_journal d\<rparr>, Ok ())"
        unfolding replay_settle_Ok idx using p(5) assms(3,4) l \<open>rl = Ok u\<close> m by (auto simp: d')
      with r j Ok wf show ?thesis by (simp add: effect_def d')
    next
      case (Err e)
      have "d' = d\<lparr>dk_consumed := ledger_forget mac ?ref l, dk_journal := j\<rparr>" "r = Err e"
        using run assms(3,4) p l j \<open>rl = Ok u\<close> Err by auto
      moreover have "\<not> proves_no_payout e" using journal_append_errors j Err by fastforce
      moreover have "ledger_kept (dk_consumed d) (ledger_forget mac ?ref l)"
        using ledger_kept_forget l \<open>rl = Ok u\<close> p(5) by simp
      moreover have "journal_kept mac (dk_journal d) j" using journal_kept_Err [OF wf] j Err by simp
      ultimately show ?thesis using quietI [where d = d and d' = d'] by blast
    qed (use j exit_journal_append_not_Panic in blast)
  next
    case (Err e)
    have "d' = d\<lparr>dk_consumed := l, dk_journal := dk_journal d\<rparr>" "r = Err e" using run assms(3,4) p l Err by auto
    moreover have "\<not> proves_no_payout e" using ledger_record_errors l Err by fastforce
    ultimately show ?thesis
      using quietI [where d = d and d' = d', OF _ _ journal_kept_refl] ledger_kept_record_Err l Err by blast
  qed (use l ledger_record_not_Panic in blast)
qed

lemma settle_step:
  assumes "desk_inv d" "watcher_wf w" "settle mac i w d = (d', r)"
  shows "(\<exists>x a. exit_get (dk_exits d) i = Some x \<and> ex_state x = Pending \<and> payout_for w d x a \<and>
      r = Ok \<lparr>rl_vault_id = ex_vault_id x, rl_released = ex_locked x\<rparr> \<and>
      effect mac (Ev_Settle (word_of_nat i) (pa_foreign_ref a)) d d') \<or> ((\<exists>e. r = Err e) \<and> quiet mac d d')"
proof (cases "\<exists>x. exit_get (dk_exits d) i = Some x \<and> ex_state x = Pending")
  case True
  then obtain x where x: "exit_get (dk_exits d) i = Some x" "ex_state x = Pending" by blast
  show ?thesis
  proof (cases "\<exists>a. payout_for w d x a")
    case True
    with settle_with_payout [OF assms(1,2) x _ assms(3)] x show ?thesis by blast
  next
    case False
    with settle_no_payout [OF x False, of mac] assms(3) show ?thesis by (auto simp: quiet_refl)
  qed
next
  case False
  then have "d' = d \<and> (\<exists>e. r = Err e)"
    using assms(3) by (cases "exit_get (dk_exits d) i") (auto simp: settle_def)
  then show ?thesis using quiet_refl by blast
qed

lemma user_premium_not_Panic: "user_premium d a \<noteq> Panic"
  by (simp add: user_premium_def)

lemma slash_step:
  assumes "desk_inv d" "slash mac i now d = (d', r)"
  shows "(\<exists>x. exit_get (dk_exits d) i = Some x \<and> ex_state x = Pending \<and> now > slash_opens_at d x \<and>
      r = Ok \<lparr>so_vault_id = ex_vault_id x, so_holder = es_holder (ex_statement x), so_user_payout = 0, so_remainder = ex_locked x\<rparr> \<and>
      effect mac (Ev_Slash (word_of_nat i)) d d') \<or> ((\<exists>e. r = Err e) \<and> quiet mac d d')"
proof (cases "\<exists>x p. exit_get (dk_exits d) i = Some x \<and> ex_state x = Pending \<and> now > slash_opens_at d x \<and>
    user_premium d (es_amount (ex_statement x)) = Ok p")
  case True
  then obtain x p where x: "exit_get (dk_exits d) i = Some x" "ex_state x = Pending" "now > slash_opens_at d x"
    "user_premium d (es_amount (ex_statement x)) = Ok p" by blast
  have idx: "unat (word_of_nat i :: u32) = i"
    using exits_few [OF assms(1)] x(1) by (intro index_exact) (simp add: exit_get_Some)
  obtain j rj where j: "exit_journal_append mac (Ev_Slash (word_of_nat i)) (dk_journal d) = (j, rj)" by fastforce
  let ?d = "d\<lparr>dk_journal := j, dk_exits := set_state Slashed i (dk_exits d)\<rparr>"
  show ?thesis
  proof (cases rj)
    case (Ok u)
    have run: "apply_slash i ?d = (d', r)" using assms(2) x j Ok by (auto simp: slash_def split: if_splits)
    note cov = pending_covered [OF assms(1) x(1,2)]
    obtain m where m: "vault_seize (ex_vault_id x) (ex_locked x) (dk_vaults d) = (m, Ok ())"
      using vault_seize_succeeds [OF cov] by blast
    have "unat (ex_locked x) + book_total m = book_total (dk_vaults d)"
      using vault_seize_Ok [OF desk_invD(1) [OF assms(1)] m] by simp
    then have "unat (dk_seized_reserve d) + unat (ex_locked x) < 2 ^ 128" using desk_invD(2) [OF assms(1)] by simp
    then obtain reserve where reserve: "checked_add (dk_seized_reserve d) (ex_locked x) = Some reserve"
      by (simp add: checked_add_def)
    let ?out = "\<lparr>so_vault_id = ex_vault_id x, so_holder = es_holder (ex_statement x), so_user_payout = 0, so_remainder = ex_locked x\<rparr>"
    have "apply_slash i ?d = (?d\<lparr>dk_vaults := m, dk_seized_reserve := reserve\<rparr>, Ok ?out)"
      unfolding apply_slash_Ok using exit_get_set_state [OF x(1)] m reserve by simp
    then have d': "d' = ?d\<lparr>dk_vaults := m, dk_seized_reserve := reserve\<rparr>" and r: "r = Ok ?out" using run by simp_all
    have "replay_event mac (Ev_Slash (word_of_nat i)) d = (d'\<lparr>dk_journal := dk_journal d\<rparr>, Ok ())"
      unfolding replay_slash_Ok idx using x m reserve by (auto simp: d')
    with r x j Ok show ?thesis by (simp add: effect_def d')
  next
    case (Err e)
    have "d' = d\<lparr>dk_consumed := dk_consumed d, dk_journal := j\<rparr>" "r = Err e" using assms(2) x j Err by (auto simp: slash_def split: if_splits)
    with quietI [where d = d and d' = d', OF _ ledger_kept_refl] journal_kept_Err j Err show ?thesis
      by (metis event_wf.simps(3))
  qed (use j exit_journal_append_not_Panic in blast)
next
  case False
  then have "d' = d \<and> (\<exists>e. r = Err e)"
    using assms(2) user_premium_not_Panic
    by (cases "exit_get (dk_exits d) i") (auto simp: slash_def and_then_st_case not_less split: if_splits res.splits)
  then show ?thesis using quiet_refl by blast
qed

lemma dead_letter_step:
  assumes "desk_inv d" "checks_wf B" "desk_dead_letter B mac proof error now d = (d', r)"
  shows "(\<exists>letter. r = Ok () \<and> event_fits d (Ev_Dead (word_of_nat (length (dk_dead d))) letter) \<and>
      effect mac (Ev_Dead (word_of_nat (length (dk_dead d))) letter) d d') \<or> quiet mac d d'"
proof -
  let ?l = "\<lparr>dl_height = bc_claimed_height B proof, dl_leaf_digest = bc_leaf_digest B proof,
     dl_burn_ref = (case bc_claimed_burn_ref B proof of Some r \<Rightarrow> r | None \<Rightarrow> replicate 32 0),
     dl_reason = dead_reason_of error, dl_recorded_at = now\<rparr>"
  let ?ev = "Ev_Dead (word_of_nat (length (dk_dead d))) ?l"
  have wf: "event_wf ?ev" using assms(2) by (auto simp: checks_wf_def split: option.splits)
  show ?thesis
  proof (cases "list_ex (\<lambda>held. dl_height held = dl_height ?l \<and> dl_leaf_digest held = dl_leaf_digest ?l) (dk_dead d) \<or>
      length (dk_dead d) \<ge> MAX_DEAD_LETTERS")
    case True
    then have "d' = d" using assms(3) by (auto simp: desk_dead_letter_def Let_def split: if_splits)
    then show ?thesis using quiet_refl by blast
  next
    case False
    then have few: "length (dk_dead d) < MAX_DEAD_LETTERS" by simp
    obtain j rj where j: "exit_journal_append mac ?ev (dk_journal d) = (j, rj)" by fastforce
    show ?thesis
    proof (cases rj)
      case (Ok u)
      have d': "d' = d\<lparr>dk_journal := j, dk_dead := dk_dead d @ [?l]\<rparr>" and r: "r = Ok ()"
        using assms(3) False j Ok by (auto simp: desk_dead_letter_def Let_def)
      have "effect mac ?ev d d'"
        using j Ok wf dead_index_exact [of "length (dk_dead d)"] few by (simp add: effect_def d')
      with r few show ?thesis by (intro disjI1 exI [of _ ?l]) simp
    next
      case (Err e)
      have "d' = d\<lparr>dk_consumed := dk_consumed d, dk_journal := j\<rparr>"
        using assms(3) False j Err by (auto simp: desk_dead_letter_def Let_def)
      with quietI [where d = d and d' = d', OF _ ledger_kept_refl] journal_kept_Err [OF wf] j Err show ?thesis by blast
    qed (use j exit_journal_append_not_Panic in blast)
  qed
qed

lemma overdue_loop_step:
  assumes "desk_inv d" "\<forall>w\<in>set ws. watcher_wf w" "exit_get (dk_exits d) i = Some x" "ex_state x = Pending"
    and "overdue_loop mac i ws now d = (d', r)"
  shows "(\<exists>w\<in>set ws. \<exists>a. r = Ok Settle \<and> payout_for w d x a \<and> effect mac (Ev_Settle (word_of_nat i) (pa_foreign_ref a)) d d') \<or>
    (r = Ok Slash \<and> (\<forall>w\<in>set ws. \<nexists>a. payout_for w d x a) \<and> now > slash_opens_at d x \<and> effect mac (Ev_Slash (word_of_nat i)) d d') \<or>
    ((\<exists>e. r = Err e) \<and> quiet mac d d')"
  using assms(2,5)
proof (induction ws)
  case Nil
  then obtain d1 r1 where s: "slash mac i now d = (d1, r1)" "and_then_st r1 d1 (\<lambda>_. (d1, Ok Slash)) = (d', r)"
    by (auto split: prod.splits)
  from slash_step [OF assms(1) s(1)] s(2) assms(3) show ?case by auto
next
  case (Cons w ws)
  show ?case
  proof (cases "\<exists>a. payout_for w d x a")
    case True
    then obtain a where a: "payout_for w d x a" by blast
    obtain d1 r1 where s: "settle mac i w d = (d1, r1)" by fastforce
    from settle_with_payout [OF assms(1) _ assms(3,4) a s] Cons.prems a s show ?thesis by auto
  next
    case False
    from settle_no_payout [OF assms(3,4) False, of mac] obtain e where "settle mac i w d = (d, Err e)" "proves_no_payout e" by blast
    with Cons.prems have "overdue_loop mac i ws now d = (d', r)" by simp
    from Cons.IH [OF _ this] Cons.prems(1) False show ?thesis by auto
  qed
qed

lemma close_overdue_step:
  assumes "desk_inv d" "\<forall>w\<in>set ws. watcher_wf w" "close_overdue mac i ws now d = (d', r)"
  shows "(\<exists>x. exit_get (dk_exits d) i = Some x \<and> ex_state x = Pending \<and>
      ((\<exists>w\<in>set ws. \<exists>a. r = Ok Settle \<and> payout_for w d x a \<and> effect mac (Ev_Settle (word_of_nat i) (pa_foreign_ref a)) d d') \<or>
       (r = Ok Slash \<and> (\<forall>w\<in>set ws. \<nexists>a. payout_for w d x a) \<and> now > slash_opens_at d x \<and> effect mac (Ev_Slash (word_of_nat i)) d d'))) \<or>
    ((\<exists>e. r = Err e) \<and> quiet mac d d')"
proof (cases "\<exists>x. exit_get (dk_exits d) i = Some x \<and> ex_state x = Pending")
  case True
  then obtain x where x: "exit_get (dk_exits d) i = Some x" "ex_state x = Pending" by blast
  with assms(3) have "overdue_loop mac i ws now d = (d', r)" by (simp add: close_overdue_def)
  from overdue_loop_step [OF assms(1,2) x this] x show ?thesis by blast
next
  case False
  then have "d' = d \<and> (\<exists>e. r = Err e)"
    using assms(3) by (cases "exit_get (dk_exits d) i") (auto simp: close_overdue_def)
  then show ?thesis using quiet_refl by blast
qed

section \<open>Runs\<close>

datatype 'p desk_op =
    Do_Open 'p u64
  | Do_Settle usize payout_watcher
  | Do_Close usize "payout_watcher list" u64
  | Do_Slash usize u64
  | Do_Dead 'p exit_error u64

fun do_op :: "('p, 'a) burn_checks \<Rightarrow> mac \<Rightarrow> 'p desk_op \<Rightarrow> 'a exit_desk \<Rightarrow> 'a exit_desk \<times> (exit_error, unit) res" where
  "do_op B mac (Do_Open p now) d = (case open_exit B mac p now d of (d', r) \<Rightarrow> (d', map_ok (\<lambda>_. ()) r))"
| "do_op B mac (Do_Settle i w) d = (case settle mac i w d of (d', r) \<Rightarrow> (d', map_ok (\<lambda>_. ()) r))"
| "do_op B mac (Do_Close i ws now) d = (case close_overdue mac i ws now d of (d', r) \<Rightarrow> (d', map_ok (\<lambda>_. ()) r))"
| "do_op B mac (Do_Slash i now) d = (case slash mac i now d of (d', r) \<Rightarrow> (d', map_ok (\<lambda>_. ()) r))"
| "do_op B mac (Do_Dead p e now) d = desk_dead_letter B mac p e now d"

fun op_wf :: "'p desk_op \<Rightarrow> bool" where
  "op_wf (Do_Settle i w) = watcher_wf w"
| "op_wf (Do_Close i ws now) = (\<forall>w\<in>set ws. watcher_wf w)"
| "op_wf _ = True"

lemma do_op_step:
  assumes "desk_inv d" "checks_wf B" "op_wf op" "do_op B mac op d = (d', r)"
  shows "quiet mac d d' \<or> (\<exists>e. effect mac e d d' \<and> event_fits d e)"
proof (cases op)
  case (Do_Open p now)
  with assms(4) obtain r1 where "open_exit B mac p now d = (d', r1)" by (auto split: prod.splits)
  from open_exit_step [OF assms(1,2) this] show ?thesis by (auto simp: opens_def)
next
  case (Do_Settle i w)
  with assms(4) obtain r1 where "settle mac i w d = (d', r1)" by (auto split: prod.splits)
  from settle_step [OF assms(1) _ this] assms(3) Do_Settle show ?thesis using event_fits.simps(3) by fastforce
next
  case (Do_Close i ws now)
  with assms(4) obtain r1 where c: "close_overdue mac i ws now d = (d', r1)" by (auto split: prod.splits)
  have "\<forall>w\<in>set ws. watcher_wf w" using assms(3) Do_Close by simp
  from close_overdue_step [OF assms(1) this c] show ?thesis using event_fits.simps(3,4) by blast
next
  case (Do_Slash i now)
  with assms(4) obtain r1 where "slash mac i now d = (d', r1)" by (auto split: prod.splits)
  from slash_step [OF assms(1) this] show ?thesis using event_fits.simps(4) by blast
next
  case (Do_Dead p e now)
  with assms(4) dead_letter_step [OF assms(1,2), of mac p e now d' r] show ?thesis by auto
qed

lemma replay_event_cfg: "replay_event mac e d = (d', Ok u) \<Longrightarrow> dk_cfg d' = dk_cfg d \<and> dk_anchor d' = dk_anchor d"
proof (cases e)
  case (Ev_Slash index)
  assume "replay_event mac e d = (d', Ok u)"
  then show ?thesis unfolding Ev_Slash replay_slash_Ok by auto
qed (auto simp: and_then_st_case Let_def split: if_splits prod.splits res.splits)

lemma do_op_cfg:
  assumes "desk_inv d" "checks_wf B" "op_wf op" "do_op B mac op d = (d', r)"
  shows "dk_cfg d' = dk_cfg d"
  using do_op_step [OF assms]
proof
  assume "quiet mac d d'"
  then show ?thesis by (rule quiet_fields(4))
next
  assume "\<exists>e. effect mac e d d' \<and> event_fits d e"
  then obtain e where "replay_event mac e d = (d'\<lparr>dk_journal := dk_journal d\<rparr>, Ok ())" by (auto simp: effect_def)
  from replay_event_cfg [OF this] show ?thesis by simp
qed

lemma do_op_inv:
  "desk_inv d \<Longrightarrow> checks_wf B \<Longrightarrow> op_wf op \<Longrightarrow> do_op B mac op d = (d', r) \<Longrightarrow> desk_inv d'"
  using do_op_step quiet_inv effect_inv by metis

datatype collateral_event = Deposited u32 u128 | Withdrawn u128

fun deposited :: "collateral_event list \<Rightarrow> nat" where
  "deposited [] = 0"
| "deposited (Deposited v c # evs) = unat c + deposited evs"
| "deposited (Withdrawn c # evs) = deposited evs"

fun withdrawn :: "collateral_event list \<Rightarrow> nat" where
  "withdrawn [] = 0"
| "withdrawn (Deposited v c # evs) = withdrawn evs"
| "withdrawn (Withdrawn c # evs) = unat c + withdrawn evs"

lemma collateral_append: "deposited (xs @ ys) = deposited xs + deposited ys" "withdrawn (xs @ ys) = withdrawn xs + withdrawn ys"
  by (induction xs rule: deposited.induct) auto

text \<open>Any calls in any order, collateral put in and seized collateral taken out.\<close>

inductive desk_runs ::
  "('p, 'a) burn_checks \<Rightarrow> mac \<Rightarrow> 'a exit_desk \<Rightarrow> collateral_event list \<Rightarrow> 'a exit_desk \<Rightarrow> bool"
  for B mac d where
  dr_start: "desk_runs B mac d [] d"
| dr_op: "desk_runs B mac d evs d1 \<Longrightarrow> op_wf op \<Longrightarrow> do_op B mac op d1 = (d2, r) \<Longrightarrow> desk_runs B mac d evs d2"
| dr_register: "desk_runs B mac d evs d1 \<Longrightarrow> desk_runs B mac d (evs @ [Deposited v c]) (register_vault v c d1)"
| dr_take: "desk_runs B mac d evs d1 \<Longrightarrow> take_seized_reserve d1 = (d2, c) \<Longrightarrow> desk_runs B mac d (evs @ [Withdrawn c]) d2"

lemma vault_register_Ok:
  assumes "book_wf m" "book_total m + unat c < 2 ^ 128"
  shows "book_wf (vault_register v c m) \<and> book_total (vault_register v c m) = book_total m + unat c \<and>
    (\<forall>j. locked_of (vault_register v c m) j = locked_of m j \<and> (bt_contains m j \<longrightarrow> bt_contains (vault_register v c m) j))"
proof (cases "bt_get m v")
  case None
  have wf: "bt_wf m" using assms(1) by (simp add: book_wf_def)
  show ?thesis
    using assms(1) None sum_list_bt_insert_new [of m v "\<lambda>(_, v). unat (va_free v) + unat (va_locked v)"] wf
    by (auto simp: vault_register_def book_wf_def book_total_def bt_simps locked_of_def)
next
  case (Some w)
  have wf: "bt_wf m" using assms(1) by (simp add: book_wf_def)
  have "unat (va_free w) + unat c < 2 ^ 128" using member_le_total [OF wf Some] assms(2) by simp
  then have "unat (sat_add (va_free w) c) = unat (va_free w) + unat c" by (simp add: unat_sat_add)
  then show ?thesis
    using assms(1) Some sum_list_bt_update [OF wf Some, of "\<lambda>(_, v). unat (va_free v) + unat (va_locked v)"
        "w\<lparr>va_free := sat_add (va_free w) c\<rparr>"]
    by (auto simp: vault_register_def book_wf_def book_total_def bt_simps locked_of_def)
qed

lemma register_inv:
  assumes "desk_inv d" "book_total (dk_vaults d) + unat (dk_seized_reserve d) + unat c < 2 ^ 128"
  shows "desk_inv (register_vault v c d)"
    "book_total (dk_vaults (register_vault v c d)) = book_total (dk_vaults d) + unat c"
proof -
  have "book_total (dk_vaults d) + unat c < 2 ^ 128" using assms(2) by simp
  note reg = vault_register_Ok [OF desk_invD(1) [OF assms(1)] this, of v]
  then show "book_total (dk_vaults (register_vault v c d)) = book_total (dk_vaults d) + unat c"
    by (simp add: register_vault_def)
  show "desk_inv (register_vault v c d)" using assms reg by (simp add: desk_inv_def register_vault_def)
qed

text \<open>Neither a quiet call nor an effect changes what the desk holds in all.\<close>

definition desk_holdings :: "'a exit_desk \<Rightarrow> nat" where
  "desk_holdings d = book_total (dk_vaults d) + unat (dk_seized_reserve d)"

lemma replay_event_holdings:
  assumes "desk_inv d" "replay_event mac e d = (d', Ok u)"
  shows "desk_holdings d' = desk_holdings d"
  using assms
proof (cases e)
  case (Ev_Open index x)
  from assms(2) [unfolded Ev_Open replay_open_Ok] vault_lock_Ok [OF desk_invD(1) [OF assms(1)]] show ?thesis
    by (fastforce simp: desk_holdings_def)
next
  case (Ev_Settle index ref)
  from assms(2) [unfolded Ev_Settle replay_settle_Ok] vault_release_Ok [OF desk_invD(1) [OF assms(1)]] show ?thesis
    by (fastforce simp: desk_holdings_def)
next
  case (Ev_Slash index)
  from assms(2) [unfolded Ev_Slash replay_slash_Ok] obtain x :: desk_exit and m reserve
    where "vault_seize (ex_vault_id x) (ex_locked x) (dk_vaults d) = (m, Ok ())"
      "checked_add (dk_seized_reserve d) (ex_locked x) = Some reserve"
      "d' = d\<lparr>dk_exits := set_state Slashed (unat index) (dk_exits d), dk_vaults := m, dk_seized_reserve := reserve\<rparr>" by blast
  with vault_seize_Ok [OF desk_invD(1) [OF assms(1)]] show ?thesis by (fastforce simp: desk_holdings_def checked_add_Some_iff)
next
  case (Ev_Dead index letter)
  with assms(2) show ?thesis by (auto simp: desk_holdings_def split: if_splits)
qed

lemma do_op_holdings:
  assumes "desk_inv d" "checks_wf B" "op_wf op" "do_op B mac op d = (d', r)"
  shows "desk_holdings d' = desk_holdings d"
  using do_op_step [OF assms]
proof
  assume "quiet mac d d'"
  from quiet_fields(1,6) [OF this] show ?thesis by (simp add: desk_holdings_def)
next
  assume "\<exists>e. effect mac e d d' \<and> event_fits d e"
  then obtain e where "replay_event mac e d = (d'\<lparr>dk_journal := dk_journal d\<rparr>, Ok ())" by (auto simp: effect_def)
  from replay_event_holdings [OF assms(1) this] show ?thesis by (simp add: desk_holdings_def)
qed

lemma desk_runs_holdings:
  assumes "desk_runs B mac d evs d'" "checks_wf B" "desk_inv d" "desk_holdings d + deposited evs < 2 ^ 128"
  shows "desk_inv d' \<and> desk_holdings d' + withdrawn evs = desk_holdings d + deposited evs \<and> dk_cfg d' = dk_cfg d"
  using assms
proof (induction rule: desk_runs.induct)
  case (dr_op evs d1 op d2 r)
  then have IH: "desk_inv d1" "desk_holdings d1 + withdrawn evs = desk_holdings d + deposited evs" "dk_cfg d1 = dk_cfg d" by auto
  have "dk_cfg d2 = dk_cfg d1" by (rule do_op_cfg [OF IH(1) dr_op.prems(1) dr_op.hyps(2,3)])
  with do_op_inv [OF IH(1) dr_op.prems(1) dr_op.hyps(2,3)] do_op_holdings [OF IH(1) dr_op.prems(1) dr_op.hyps(2,3)] IH
  show ?case by simp
next
  case (dr_register evs d1 v c)
  then have IH: "desk_inv d1" "desk_holdings d1 + withdrawn evs = desk_holdings d + deposited evs" "dk_cfg d1 = dk_cfg d"
    by (auto simp: collateral_append)
  have "desk_holdings d1 + unat c < 2 ^ 128" using IH(2) dr_register.prems(3) by (simp add: collateral_append)
  then have fits: "book_total (dk_vaults d1) + unat (dk_seized_reserve d1) + unat c < 2 ^ 128" by (simp add: desk_holdings_def)
  have "dk_seized_reserve (register_vault v c d1) = dk_seized_reserve d1" "dk_cfg (register_vault v c d1) = dk_cfg d1"
    by (simp_all add: register_vault_def)
  with register_inv [OF IH(1) fits, of v] IH show ?case by (simp add: desk_holdings_def collateral_append)
next
  case (dr_take evs d1 d2 c)
  then have IH: "desk_inv d1" "desk_holdings d1 + withdrawn evs = desk_holdings d + deposited evs" "dk_cfg d1 = dk_cfg d"
    by (auto simp: collateral_append)
  from dr_take.hyps(2) have "d2 = d1\<lparr>dk_seized_reserve := 0\<rparr>" "c = dk_seized_reserve d1" by (auto simp: take_seized_reserve_def)
  with IH show ?case by (auto simp: desk_holdings_def collateral_append desk_inv_def)
qed simp

lemma assemble_inv:
  assumes "desk_assemble cfg anchor l j = Ok d" "length (ledger_refs l) \<le> MAX_LEDGER_ENTRIES"
  shows "desk_inv d" "desk_holdings d = 0" "dk_cfg d = cfg" "10000 < unat (dc_secure_bps cfg)"
proof -
  from assms(1) have d: "d = \<lparr>dk_cfg = cfg, dk_anchor = anchor, dk_vaults = [], dk_exits = [], dk_dead = [],
      dk_consumed = l, dk_journal = j, dk_seized_reserve = 0\<rparr>" and bps: "\<not> dc_secure_bps cfg \<le> ucast BPS_DEN"
    by (auto simp: desk_assemble_def split: if_splits)
  have "unat (ucast BPS_DEN :: u32) = 10000" by (simp add: BPS_DEN_def)
  with bps show "10000 < unat (dc_secure_bps cfg)" by (simp add: word_le_nat_alt)
  show "desk_inv d" using assms(2) by (simp add: d desk_inv_def book_wf_def book_total_def locked_of_def bt_get_def pending_sum_def)
  show "desk_holdings d = 0" "dk_cfg d = cfg" by (simp_all add: d desk_holdings_def book_total_def)
qed

section \<open>Properties\<close>

text \<open>C9: the desk keeps its collateral: after any calls on a new desk, as long as no more collateral was put in than fits
  in 128 bits, what the vaults and the seized reserve hold plus what was taken out is exactly what was put in;
  what is locked in each vault is exactly the sum of the pending exits it backs; every exit on the
  books passed validation, is for the desk's corridor and a served asset within the ceiling, and has
  locked its amount times the security ratio, so at least its amount; and no burn backs two exits.\<close>

theorem desk_collateral_kept:
  assumes "desk_assemble cfg anchor l j = Ok d0" "length (ledger_refs l) \<le> MAX_LEDGER_ENTRIES" "checks_wf B"
    and "desk_runs B mac d0 evs d" "deposited evs < 2 ^ 128"
  shows "book_total (dk_vaults d) + unat (dk_seized_reserve d) + withdrawn evs = deposited evs \<and>
    (\<forall>v. unat (locked_of (dk_vaults d) v) = pending_sum v (dk_exits d)) \<and>
    (\<forall>x\<in>set (dk_exits d). exit_ok cfg x \<and> unat (es_amount (ex_statement x)) \<le> unat (ex_locked x)) \<and>
    distinct (burn_refs (dk_exits d))"
proof -
  note new = assemble_inv [OF assms(1,2)]
  have run: "desk_inv d" "desk_holdings d + withdrawn evs = deposited evs" "dk_cfg d = cfg"
    using desk_runs_holdings [OF assms(4,3) new(1)] new(2,3) assms(5) by auto
  note inv = desk_invD [OF run(1)]
  have "unat (es_amount (ex_statement x)) \<le> unat (ex_locked x)" if "exit_ok cfg x" for x
  proof -
    have "unat (es_amount (ex_statement x)) * 10000 div 10000 \<le> unat (es_amount (ex_statement x)) * unat (dc_secure_bps cfg) div 10000"
      using new(4) by (intro div_le_mono mult_le_mono) simp_all
    then show ?thesis using that by (simp add: exit_ok_def Let_def)
  qed
  then show ?thesis using run inv by (auto simp: desk_holdings_def)
qed

end
