(* ===== verification/Exit_Desk_Properties.thy ===== *)
theory Exit_Desk_Properties
  imports Exit_Desk_Runs
begin

text \<open>
  What holds of the exit desk over time: an exit is opened once for a burn and closed once, by a payout that
  happened or after the grace period; a restarted desk is the one that went down.
\<close>

section \<open>Later states\<close>

definition desk_after :: "'a exit_desk \<Rightarrow> 'a exit_desk \<Rightarrow> bool" where
  "desk_after d d' \<longleftrightarrow>
     dk_cfg d' = dk_cfg d \<and> dk_anchor d' = dk_anchor d \<and>
     length (dk_exits d) \<le> length (dk_exits d') \<and>
     (\<forall>i<length (dk_exits d). (dk_exits d' ! i)\<lparr>ex_state := ex_state (dk_exits d ! i)\<rparr> = dk_exits d ! i \<and>
        (ex_state (dk_exits d ! i) \<noteq> Pending \<longrightarrow> dk_exits d' ! i = dk_exits d ! i)) \<and>
     (\<forall>r. is_released (dk_consumed d) r \<longrightarrow> is_released (dk_consumed d') r)"

lemma desk_after_refl: "desk_after d d"
  by (simp add: desk_after_def)

lemma desk_after_trans:
  assumes "desk_after a b" "desk_after b c"
  shows "desk_after a c"
proof -
  have "(dk_exits c ! i)\<lparr>ex_state := ex_state (dk_exits a ! i)\<rparr> = dk_exits a ! i \<and>
      (ex_state (dk_exits a ! i) \<noteq> Pending \<longrightarrow> dk_exits c ! i = dk_exits a ! i)" if i: "i < length (dk_exits a)" for i
  proof -
    have "i < length (dk_exits b)" using assms(1) i by (simp add: desk_after_def)
    then have b: "(dk_exits c ! i)\<lparr>ex_state := ex_state (dk_exits b ! i)\<rparr> = dk_exits b ! i"
      "ex_state (dk_exits b ! i) \<noteq> Pending \<Longrightarrow> dk_exits c ! i = dk_exits b ! i"
      using assms(2) by (simp_all add: desk_after_def)
    have a: "(dk_exits b ! i)\<lparr>ex_state := ex_state (dk_exits a ! i)\<rparr> = dk_exits a ! i"
      "ex_state (dk_exits a ! i) \<noteq> Pending \<Longrightarrow> dk_exits b ! i = dk_exits a ! i"
      using assms(1) i by (simp_all add: desk_after_def)
    have "(dk_exits c ! i)\<lparr>ex_state := ex_state (dk_exits a ! i)\<rparr> =
        (dk_exits c ! i)\<lparr>ex_state := ex_state (dk_exits b ! i)\<rparr>\<lparr>ex_state := ex_state (dk_exits a ! i)\<rparr>" by simp
    then show ?thesis using a b by metis
  qed
  then show ?thesis using assms by (simp add: desk_after_def)
qed

lemma desk_after_quiet: "quiet mac d d' \<Longrightarrow> desk_after d d'"
  using quiet_fields [of mac d d'] by (auto simp: desk_after_def)

lemma after_set_state:
  assumes "i < length exits" "ex_state (exits ! i) = Pending" "k < length exits"
  shows "(set_state st i exits ! k)\<lparr>ex_state := ex_state (exits ! k)\<rparr> = exits ! k \<and>
    (ex_state (exits ! k) \<noteq> Pending \<longrightarrow> set_state st i exits ! k = exits ! k)"
  using assms by (cases "k = i") (auto simp: set_state_def)

lemma desk_after_replay:
  assumes "replay_event mac e d = (d', Ok u)"
  shows "desk_after d d'"
proof (cases e)
  case (Ev_Open index x)
  from assms [unfolded Ev_Open replay_open_Ok] obtain m l where
    "ledger_record mac (je_burn_ref x) (dk_consumed d) = (l, Ok ())"
    "d' = d\<lparr>dk_vaults := m, dk_consumed := l, dk_exits := dk_exits d @ [journaled x]\<rparr>" by blast
  then show ?thesis by (auto simp: desk_after_def nth_append dest: rl.rec_Ok)
next
  case (Ev_Settle index ref)
  from assms [unfolded Ev_Settle replay_settle_Ok] obtain x :: desk_exit and m l where
    "exit_get (dk_exits d) (unat index) = Some x" "ex_state x = Pending"
    "ledger_record mac ref (dk_consumed d) = (l, Ok ())"
    "d' = d\<lparr>dk_exits := set_state Settled (unat index) (dk_exits d), dk_consumed := l, dk_vaults := m\<rparr>" by blast
  then show ?thesis
    using after_set_state [of "unat index" "dk_exits d"]
    by (auto simp: desk_after_def exit_get_Some dest: rl.rec_Ok) (simp add: set_state_def)
next
  case (Ev_Slash index)
  from assms [unfolded Ev_Slash replay_slash_Ok] obtain x :: desk_exit and m reserve where
    "exit_get (dk_exits d) (unat index) = Some x" "ex_state x = Pending"
    "d' = d\<lparr>dk_exits := set_state Slashed (unat index) (dk_exits d), dk_vaults := m, dk_seized_reserve := reserve\<rparr>" by blast
  then show ?thesis
    using after_set_state [of "unat index" "dk_exits d"]
    by (auto simp: desk_after_def exit_get_Some) (simp add: set_state_def)
next
  case (Ev_Dead index letter)
  with assms show ?thesis by (auto simp: desk_after_def split: if_splits)
qed

lemma desk_after_op:
  assumes "desk_inv d" "checks_wf B" "op_wf op" "do_op B mac op d = (d', r)"
  shows "desk_after d d'"
  using do_op_step [OF assms]
proof
  assume "quiet mac d d'"
  then show ?thesis by (rule desk_after_quiet)
next
  assume "\<exists>e. effect mac e d d' \<and> event_fits d e"
  then obtain e where "replay_event mac e d = (d'\<lparr>dk_journal := dk_journal d\<rparr>, Ok ())" by (auto simp: effect_def)
  from desk_after_replay [OF this] show ?thesis by (simp add: desk_after_def)
qed

lemma desk_runs_after:
  assumes "desk_runs B mac d evs d'" "checks_wf B" "desk_inv d" "desk_holdings d + deposited evs < 2 ^ 128"
  shows "desk_after d d'"
  using assms
proof (induction rule: desk_runs.induct)
  case (dr_op evs d1 op d2 r)
  have "desk_inv d1" using desk_runs_holdings [OF dr_op.hyps(1) dr_op.prems] by simp
  from desk_after_op [OF this dr_op.prems(1) dr_op.hyps(2,3)] dr_op show ?case by (auto intro: desk_after_trans)
next
  case (dr_register evs d1 v c)
  then have "desk_after d d1" by (simp add: collateral_append)
  then show ?case by (simp add: desk_after_def register_vault_def)
next
  case (dr_take evs d1 d2 c)
  then have "desk_after d d1" by (simp add: collateral_append)
  with dr_take.hyps(2) show ?case by (auto simp: desk_after_def take_seized_reserve_def)
qed (simp add: desk_after_refl)

lemma desk_runs_trans:
  "desk_runs B mac d1 evs' d2 \<Longrightarrow> desk_runs B mac d evs d1 \<Longrightarrow> desk_runs B mac d (evs @ evs') d2"
proof (induction rule: desk_runs.induct)
  case (dr_op evs' d2 op d3 r)
  then show ?case using desk_runs.dr_op by blast
next
  case (dr_register evs' d2 v c)
  then show ?case using desk_runs.dr_register [of B mac d "evs @ evs'" d2 v c] by simp
next
  case (dr_take evs' d2 d3 c)
  then show ?case using desk_runs.dr_take [of B mac d "evs @ evs'" d2 d3 c] by simp
qed simp

section \<open>Once\<close>

lemma closed_refused:
  assumes "exit_get (dk_exits d) i = Some x" "ex_state x \<noteq> Pending"
  shows "settle mac i w d = (d, Err NotPending)" "slash mac i now d = (d, Err NotPending)"
    "close_overdue mac i ws now d = (d, Err NotPending)"
  using assms by (simp_all add: settle_def slash_def close_overdue_def)

lemma consumed_refused:
  assumes "desk_inv d" "checks_wf B" "bc_verify B p (dk_anchor d) = Ok burn" "is_consumed d (ab_burn_ref burn)"
  shows "snd (open_exit B mac p now d) \<noteq> Ok k"
  using open_exit_step [OF assms(1,2), of mac p now] assms(3,4)
  by (cases "open_exit B mac p now d") (fastforce simp: opens_def is_consumed_def)

lemma consumed_payout_refused:
  assumes "desk_inv d" "watcher_wf w" "\<And>s a. pw_confirm w s = Some a \<Longrightarrow> is_consumed d (pa_foreign_ref a)"
  shows "snd (settle mac k w d) \<noteq> Ok rel"
  using settle_step [OF assms(1,2), of mac k] assms(3)
  by (cases "settle mac k w d") (fastforce simp: payout_for_def is_consumed_def)

text \<open>C10: an exit is opened once and closed once: take any two states of a desk, the second reached from the first by
  any calls. A decision the desk has made about an exit is the decision it still gives, and every attempt to
  close the exit again is refused without changing anything; a reference that was consumed stays consumed, a
  burn with a consumed reference opens no exit and a payout with a consumed reference settles none; and
  every exit on the books keeps its statement, vault, collateral and deadline.\<close>

theorem exit_closes_once:
  assumes "desk_assemble cfg anchor l j = Ok d0" "length (ledger_refs l) \<le> MAX_LEDGER_ENTRIES" "checks_wf B"
    and "desk_runs B mac d0 evs d" "desk_runs B mac d evs' d'" "deposited evs + deposited evs' < 2 ^ 128"
  shows "(\<forall>i dec. desk_decision d i = Some dec \<longrightarrow> desk_decision d' i = Some dec \<and>
      (\<forall>w. settle mac i w d' = (d', Err NotPending)) \<and> (\<forall>now. slash mac i now d' = (d', Err NotPending)) \<and>
      (\<forall>ws now. close_overdue mac i ws now d' = (d', Err NotPending))) \<and>
    (\<forall>r. is_consumed d r \<longrightarrow> is_consumed d' r) \<and>
    (\<forall>p burn now k. bc_verify B p (dk_anchor d) = Ok burn \<and> is_consumed d (ab_burn_ref burn) \<longrightarrow>
       snd (open_exit B mac p now d') \<noteq> Ok k) \<and>
    (\<forall>w k rel. watcher_wf w \<and> (\<forall>s a. pw_confirm w s = Some a \<longrightarrow> is_consumed d (pa_foreign_ref a)) \<longrightarrow>
       snd (settle mac k w d') \<noteq> Ok rel) \<and>
    (\<forall>i x. exit_get (dk_exits d) i = Some x \<longrightarrow>
       (\<exists>st. exit_get (dk_exits d') i = Some (x\<lparr>ex_state := st\<rparr>)) \<and> is_consumed d (es_burn_ref (ex_statement x)))"
proof -
  note new = assemble_inv [OF assms(1,2)]
  have d: "desk_inv d" "desk_holdings d + withdrawn evs = deposited evs"
    using desk_runs_holdings [OF assms(4,3) new(1)] new(2) assms(6) by auto
  then have fits: "desk_holdings d + deposited evs' < 2 ^ 128" using assms(6) by simp
  note after = desk_runs_after [OF assms(5,3) d(1) fits, unfolded desk_after_def]
  have d': "desk_inv d'" using desk_runs_holdings [OF assms(5,3) d(1) fits] by simp
  have closed: "exit_get (dk_exits d') i = Some (dk_exits d ! i) \<and> ex_state (dk_exits d ! i) \<noteq> Pending \<and>
      desk_decision d' i = Some dec" if "desk_decision d i = Some dec" for i dec
    using that after by (auto simp: desk_decision_def exit_get_def split: if_splits exit_state.splits)
  have later: "\<exists>st. exit_get (dk_exits d') i = Some (x\<lparr>ex_state := st\<rparr>)" if "exit_get (dk_exits d) i = Some x" for i x
  proof -
    from that have i: "i < length (dk_exits d)" "x = dk_exits d ! i" by (auto simp: exit_get_Some)
    with after have "i < length (dk_exits d')" "(dk_exits d' ! i)\<lparr>ex_state := ex_state x\<rparr> = x" by auto
    then have "dk_exits d' ! i = x\<lparr>ex_state := ex_state (dk_exits d' ! i)\<rparr>" by (cases "dk_exits d' ! i"; cases x) auto
    with \<open>i < length (dk_exits d')\<close> show ?thesis
      by (intro exI [of _ "ex_state (dk_exits d' ! i)"]) (simp add: exit_get_Some)
  qed
  have kept: "is_consumed d' r" if "is_consumed d r" for r using that after by (simp add: is_consumed_def)
  have consumed: "is_consumed d (es_burn_ref (ex_statement x))" if "exit_get (dk_exits d) i = Some x" for i x
    using that desk_invD(4) [OF d(1)] by (auto simp: exit_get_Some is_consumed_def)
  have anchor: "dk_anchor d' = dk_anchor d" using after by simp
  show ?thesis
    using closed closed_refused [of d'] kept consumed_refused [OF d' assms(3)] consumed_payout_refused [OF d'] later consumed anchor
    by (intro conjI allI impI; (elim conjE)?) (blast | metis)+
qed

section \<open>Closing an exit\<close>

lemma effect_settle:
  assumes "exit_get (dk_exits d) i = Some x" "desk_inv d" "effect mac (Ev_Settle (word_of_nat i) ref) d d'"
  shows "exit_get (dk_exits d') i = Some (x\<lparr>ex_state := Settled\<rparr>)" "is_consumed d' ref" "\<not> is_consumed d ref"
    "dk_cfg d' = dk_cfg d"
proof -
  have idx: "unat (word_of_nat i :: u32) = i"
    using exits_few [OF assms(2)] assms(1) by (intro index_exact) (simp add: exit_get_Some)
  from assms(3) obtain m l where l: "ledger_record mac ref (dk_consumed d) = (l, Ok ())" "\<not> is_released (dk_consumed d) ref"
    and d': "d'\<lparr>dk_journal := dk_journal d\<rparr> =
      d\<lparr>dk_exits := set_state Settled i (dk_exits d), dk_consumed := l, dk_vaults := m\<rparr>"
    unfolding effect_def replay_settle_Ok idx by blast
  have "dk_exits (d'\<lparr>dk_journal := dk_journal d\<rparr>) = set_state Settled i (dk_exits d)"
    "dk_consumed (d'\<lparr>dk_journal := dk_journal d\<rparr>) = l" "dk_cfg (d'\<lparr>dk_journal := dk_journal d\<rparr>) = dk_cfg d"
    unfolding d' by simp_all
  then show "exit_get (dk_exits d') i = Some (x\<lparr>ex_state := Settled\<rparr>)" "is_consumed d' ref" "\<not> is_consumed d ref"
    "dk_cfg d' = dk_cfg d"
    using exit_get_set_state [OF assms(1)] rl.rec_Ok [OF l(1)] l(2) by (simp_all add: is_consumed_def)
qed

lemma effect_slash:
  assumes "exit_get (dk_exits d) i = Some x" "desk_inv d" "effect mac (Ev_Slash (word_of_nat i)) d d'"
  shows "exit_get (dk_exits d') i = Some (x\<lparr>ex_state := Slashed\<rparr>)" "dk_cfg d' = dk_cfg d"
    "unat (dk_seized_reserve d') = unat (dk_seized_reserve d) + unat (ex_locked x)"
proof -
  have idx: "unat (word_of_nat i :: u32) = i"
    using exits_few [OF assms(2)] assms(1) by (intro index_exact) (simp add: exit_get_Some)
  from assms(1,3) obtain m reserve where r: "checked_add (dk_seized_reserve d) (ex_locked x) = Some reserve"
    and d': "d'\<lparr>dk_journal := dk_journal d\<rparr> =
      d\<lparr>dk_exits := set_state Slashed i (dk_exits d), dk_vaults := m, dk_seized_reserve := reserve\<rparr>"
    unfolding effect_def replay_slash_Ok idx by auto
  have "dk_exits (d'\<lparr>dk_journal := dk_journal d\<rparr>) = set_state Slashed i (dk_exits d)"
    "dk_seized_reserve (d'\<lparr>dk_journal := dk_journal d\<rparr>) = reserve" "dk_cfg (d'\<lparr>dk_journal := dk_journal d\<rparr>) = dk_cfg d"
    unfolding d' by simp_all
  then show "exit_get (dk_exits d') i = Some (x\<lparr>ex_state := Slashed\<rparr>)" "dk_cfg d' = dk_cfg d"
    "unat (dk_seized_reserve d') = unat (dk_seized_reserve d) + unat (ex_locked x)"
    using exit_get_set_state [OF assms(1)] r by (simp_all add: checked_add_Some_iff)
qed

lemma bitcoin_watcher_wf: "(\<And>x. length (dsha x) = 32) \<Longrightarrow> watcher_wf (bitcoin_watcher dsha w)"
proof -
  assume h: "\<And>x. length (dsha x) = 32"
  have "length (pa_foreign_ref a) = 32" if "bitcoin_attest dsha w s = Ok a" for s a
  proof -
    from that obtain latest where "attest_loop dsha w s (bw_releases w) latest = Ok a"
      by (auto simp: bitcoin_attest_def split: if_splits)
    from attest_loop_Ok [OF this] obtain r :: bitcoin_release_proof and v :: verified_payout where
      "release_verify dsha r (bw_params w) (bw_checkpoint w) (bw_confirmation_depth w) (es_destination s) (es_amount s) = Ok v"
      "pa_foreign_ref a = vp_foreign_ref v" by (metis payout_attestation.select_convs(7))
    then show ?thesis by (metis h release_verify_parts verified_payout.select_convs(5))
  qed
  then show ?thesis by (auto simp: watcher_wf_def bitcoin_watcher_def split: res.splits)
qed

text \<open>C8: an exit is closed justly: closing an overdue exit against Bitcoin watchers ends in one of three ways. It is
  settled, and then a release of one of the watchers backs it, as a Bitcoin transaction deep enough in a
  valid chain through the checkpoint that pays the exit's amount to its destination and carries its burn
  reference, whose identifier no exit had used before and which is used up now; or it is slashed,
  and then no watcher confirms a payout that is valid for the exit and not used up by another, the deadline and the
  grace period have passed, and its collateral is in the seized reserve; or the call reports an error, and then the
  books are unchanged. As for the watcher's own property, the transaction lies in the block whatever the sizes of the
  block's transactions, up to a collision of the hash or a hash with 27 zeros in a row.\<close>

theorem overdue_exit_closed_justly:
  assumes "desk_inv d" "\<And>x. length (dsha x) = 32"
    and "\<forall>w\<in>set watchers. params_ok (bw_params w) \<and> u256_wf (cp_min_work (bw_checkpoint w)) \<and> (\<forall>r\<in>set (bw_releases w). release_sane r)"
    and "close_overdue mac i (map (bitcoin_watcher dsha) watchers) now d = (d', res)"
  shows "(\<exists>x. exit_get (dk_exits d) i = Some x \<and> ex_state x = Pending \<and>
      ((res = Ok Settle \<and> exit_get (dk_exits d') i = Some (x\<lparr>ex_state := Settled\<rparr>) \<and>
        desk_decision d' i = Some (decision_settle (ex_statement x) (dc_bridge_dest_chain (dk_cfg d))) \<and>
        (\<exists>w\<in>set watchers. \<exists>r\<in>set (bw_releases w). \<exists>ref. \<not> is_consumed d ref \<and> is_consumed d' ref \<and>
           release_backs dsha (bw_params w) (bw_checkpoint w) (bw_confirmation_depth w) r (ex_statement x) ref)) \<or>
       (res = Ok Slash \<and> exit_get (dk_exits d') i = Some (x\<lparr>ex_state := Slashed\<rparr>) \<and>
        desk_decision d' i = Some (decision_slash (ex_statement x) (dc_bridge_dest_chain (dk_cfg d))) \<and>
        (\<forall>w\<in>set watchers. \<nexists>a. payout_for (bitcoin_watcher dsha w) d x a) \<and>
        unat now > min (unat (ex_deadline x) + unat (dc_grace (dk_cfg d))) (2 ^ 64 - 1) \<and>
        unat (dk_seized_reserve d') = unat (dk_seized_reserve d) + unat (ex_locked x)))) \<or>
    ((\<exists>e. res = Err e) \<and> dk_exits d' = dk_exits d \<and> dk_vaults d' = dk_vaults d \<and> dk_seized_reserve d' = dk_seized_reserve d)"
proof -
  have wf: "\<forall>w\<in>set (map (bitcoin_watcher dsha) watchers). watcher_wf w" using bitcoin_watcher_wf [OF assms(2)] by auto
  from close_overdue_step [OF assms(1) wf assms(4)]
  consider (settled) x w a where "exit_get (dk_exits d) i = Some x" "ex_state x = Pending" "w \<in> set watchers" "res = Ok Settle"
      "payout_for (bitcoin_watcher dsha w) d x a" "effect mac (Ev_Settle (word_of_nat i) (pa_foreign_ref a)) d d'"
    | (slashed) x where "exit_get (dk_exits d) i = Some x" "ex_state x = Pending" "res = Ok Slash"
      "\<forall>w\<in>set watchers. \<nexists>a. payout_for (bitcoin_watcher dsha w) d x a" "now > slash_opens_at d x"
      "effect mac (Ev_Slash (word_of_nat i)) d d'"
    | (quiet) "\<exists>e. res = Err e" "quiet mac d d'"
    by auto
  then show ?thesis
  proof cases
    case settled
    note eff = effect_settle [OF settled(1) assms(1) settled(6)]
    have "pw_confirm (bitcoin_watcher dsha w) (ex_statement x) = Some a" using settled(5) by (simp add: payout_for_def)
    with bitcoin_release_of [of w dsha "ex_statement x" a] assms(2,3) settled(3)
    obtain r where "r \<in> set (bw_releases w)"
      "release_backs dsha (bw_params w) (bw_checkpoint w) (bw_confirmation_depth w) r (ex_statement x) (pa_foreign_ref a)" by blast
    then show ?thesis using settled eff by (auto simp: desk_decision_def)
  next
    case slashed
    note eff = effect_slash [OF slashed(1) assms(1) slashed(6)]
    have "unat now > min (unat (ex_deadline x) + unat (dc_grace (dk_cfg d))) (2 ^ 64 - 1)"
      using slashed(5) by (simp add: slash_opens_at_def word_less_nat_alt unat_sat_add)
    then show ?thesis using slashed eff by (auto simp: desk_decision_def)
  next
    case quiet
    with quiet_fields [OF quiet(2)] show ?thesis by auto
  qed
qed

section \<open>Restart\<close>

text \<open>The calls of a run, one after the other, withdrawals of the seized reserve among them, and what was withdrawn.\<close>

datatype 'p desk_step = Step "'p desk_op" | Take_Reserve

fun do_step :: "('p, 'a) burn_checks \<Rightarrow> mac \<Rightarrow> 'p desk_step \<Rightarrow> 'a exit_desk \<times> nat \<Rightarrow> 'a exit_desk \<times> nat" where
  "do_step B mac (Step op) (d, taken) = (fst (do_op B mac op d), taken)"
| "do_step B mac Take_Reserve (d, taken) = (let (d', c) = take_seized_reserve d in (d', taken + unat c))"

fun step_wf :: "'p desk_step \<Rightarrow> bool" where
  "step_wf (Step op) = op_wf op"
| "step_wf Take_Reserve = True"

definition run_steps :: "('p, 'a) burn_checks \<Rightarrow> mac \<Rightarrow> 'p desk_step list \<Rightarrow> 'a exit_desk \<Rightarrow> 'a exit_desk \<times> nat" where
  "run_steps B mac steps d = fold (do_step B mac) steps (d, 0)"

definition register_all :: "(u32 \<times> u128) list \<Rightarrow> 'a exit_desk \<Rightarrow> 'a exit_desk" where
  "register_all vaults d = fold (\<lambda>(v, c). register_vault v c) vaults d"

text \<open>A desk with a ledger in memory and a journal in a file, of which the replay of the journal on \<open>base\<close> differs
  only in the seized reserve, by what was withdrawn.\<close>

definition mirrored :: "mac \<Rightarrow> 'a exit_desk \<Rightarrow> nat \<Rightarrow> 'a exit_desk \<Rightarrow> bool" where
  "mirrored mac base taken d \<longleftrightarrow> desk_inv d \<and> exit_journal_inv mac (dk_journal d) \<and> dk_journal d \<noteq> Null_Journal \<and>
     (\<exists>refs. dk_consumed d = Memory_Ledger refs \<and> bs_wf refs) \<and> desk_holdings d + taken < 2 ^ 128 \<and>
     (\<exists>r. unat r = unat (dk_seized_reserve d) + taken \<and>
        replay_all mac (exit_journal_events (dk_journal d)) base =
          (d\<lparr>dk_journal := dk_journal base, dk_seized_reserve := r\<rparr>, Ok ()))"

lemma mirrored_quiet:
  assumes "mirrored mac base taken d" "quiet mac d d'"
  shows "mirrored mac base taken d'"
proof -
  have k: "ledger_kept (dk_consumed d) (dk_consumed d')" "journal_kept mac (dk_journal d) (dk_journal d')"
    using assms(2) by (simp_all add: quiet_def)
  then have same: "dk_consumed d' = dk_consumed d" "exit_journal_events (dk_journal d') = exit_journal_events (dk_journal d)"
    "exit_journal_inv mac (dk_journal d')" "dk_journal d' \<noteq> Null_Journal"
    using assms(1) by (auto simp: mirrored_def ledger_kept_def journal_kept_def)
  note f = quiet_fields(1-6) [OF assms(2)]
  have "d'\<lparr>dk_journal := dk_journal base, dk_seized_reserve := r\<rparr> = d\<lparr>dk_journal := dk_journal base, dk_seized_reserve := r\<rparr>" for r
    using f same(1) by (intro exit_desk.equality) simp_all
  then show ?thesis using assms quiet_inv same f by (auto simp: mirrored_def desk_holdings_def)
qed

lemma replay_event_memory:
  assumes "replay_event mac e d = (d', Ok u)" "dk_consumed d = Memory_Ledger refs" "bs_wf refs"
  shows "\<exists>refs. dk_consumed d' = Memory_Ledger refs \<and> bs_wf refs"
proof -
  have rec: "\<exists>refs'. l = Memory_Ledger refs' \<and> bs_wf refs'" if "ledger_record mac r (Memory_Ledger refs) = (l, x)" for r l x
    using that assms(3) by (auto split: if_splits)
  show ?thesis
  proof (cases e)
    case (Ev_Open index x)
    from assms(1) [unfolded Ev_Open replay_open_Ok] assms(2) rec show ?thesis by fastforce
  next
    case (Ev_Settle index ref)
    from assms(1) [unfolded Ev_Settle replay_settle_Ok] assms(2) rec show ?thesis by fastforce
  next
    case (Ev_Slash index)
    from assms(1) [unfolded Ev_Slash replay_slash_Ok] assms(2,3) show ?thesis by auto
  next
    case (Ev_Dead index letter)
    with assms show ?thesis by (auto split: if_splits)
  qed
qed

text \<open>An event replays on a desk with a larger reserve as it does on the desk itself.\<close>

lemma replay_event_reserve:
  assumes "replay_event mac e d = (d', Ok ())" "unat r = unat (dk_seized_reserve d) + n"
    and "unat (dk_seized_reserve d') + n < 2 ^ 128"
  shows "\<exists>r'. unat r' = unat (dk_seized_reserve d') + n \<and>
    replay_event mac e (d\<lparr>dk_seized_reserve := r\<rparr>) = (d'\<lparr>dk_seized_reserve := r'\<rparr>, Ok ())"
proof (cases e)
  case (Ev_Open index x)
  show ?thesis
    using assms(1,2) unfolding Ev_Open replay_open_Ok by (intro exI [of _ r]) auto
next
  case (Ev_Settle index ref)
  show ?thesis
    using assms(1,2) unfolding Ev_Settle replay_settle_Ok by (intro exI [of _ r]) auto
next
  case (Ev_Slash index)
  from assms(1) [unfolded Ev_Slash replay_slash_Ok] obtain x m reserve where
    s: "exit_get (dk_exits d) (unat index) = Some x" "ex_state x = Pending"
    "checked_add (dk_seized_reserve d) (ex_locked x) = Some reserve"
    "vault_seize (ex_vault_id x) (ex_locked x) (dk_vaults d) = (m, Ok ())"
    and d': "d' = d\<lparr>dk_exits := set_state Slashed (unat index) (dk_exits d), dk_vaults := m, dk_seized_reserve := reserve\<rparr>" by blast
  then have "unat r + unat (ex_locked x) = unat reserve + n" "unat reserve + n < 2 ^ 128"
    using assms(2,3) by (auto simp: checked_add_Some_iff)
  then have r: "checked_add r (ex_locked x) = Some (r + ex_locked x)" "unat (r + ex_locked x) = unat reserve + n"
    by (auto simp: checked_add_Some_iff unat_word_ariths)
  have "replay_event mac e (d\<lparr>dk_seized_reserve := r\<rparr>) = (d'\<lparr>dk_seized_reserve := r + ex_locked x\<rparr>, Ok ())"
    unfolding Ev_Slash replay_slash_Ok d' using s r(1) by auto
  with r(2) show ?thesis by (auto simp: d')
next
  case (Ev_Dead index letter)
  with assms(1,2) show ?thesis by (intro exI [of _ r]) (auto split: if_splits)
qed

lemma mirrored_effect:
  assumes "mirrored mac base taken d" "effect mac e d d'" "event_fits d e"
  shows "mirrored mac base taken d'"
proof -
  from assms(2) have e: "replay_event mac e d = (d'\<lparr>dk_journal := dk_journal d\<rparr>, Ok ())"
    "exit_journal_append mac e (dk_journal d) = (dk_journal d', Ok ())" "event_wf e" by (simp_all add: effect_def)
  from assms(1) obtain refs r where d: "desk_inv d" "exit_journal_inv mac (dk_journal d)" "dk_journal d \<noteq> Null_Journal"
    "dk_consumed d = Memory_Ledger refs" "bs_wf refs" "desk_holdings d + taken < 2 ^ 128" "unat r = unat (dk_seized_reserve d) + taken"
    "replay_all mac (exit_journal_events (dk_journal d)) base = (d\<lparr>dk_journal := dk_journal base, dk_seized_reserve := r\<rparr>, Ok ())"
    by (auto simp: mirrored_def)
  from journal_extended [OF e(3) d(2) e(2)] d(3)
  have j: "exit_journal_inv mac (dk_journal d')" "exit_journal_events (dk_journal d') = exit_journal_events (dk_journal d) @ [e]" by auto
  have hold: "desk_holdings d' = desk_holdings d"
    using replay_event_holdings [OF d(1) e(1)] by (simp add: desk_holdings_def)
  then have "unat (dk_seized_reserve d') + taken < 2 ^ 128" using d(6) by (simp add: desk_holdings_def)
  with replay_event_reserve [OF e(1) d(7)] obtain r' where r': "unat r' = unat (dk_seized_reserve d') + taken"
    "replay_event mac e (d\<lparr>dk_seized_reserve := r\<rparr>) = (d'\<lparr>dk_journal := dk_journal d, dk_seized_reserve := r'\<rparr>, Ok ())" by auto
  have "dk_journal d' \<noteq> Null_Journal" using e(2) d(3) by (cases "dk_journal d") (auto split: prod.splits)
  moreover have "\<exists>refs. dk_consumed d' = Memory_Ledger refs \<and> bs_wf refs" using replay_event_memory [OF e(1) d(4,5)] by simp
  moreover have "replay_all mac (exit_journal_events (dk_journal d')) base =
      (d'\<lparr>dk_journal := dk_journal base, dk_seized_reserve := r'\<rparr>, Ok ())"
  proof -
    have swap: "x\<lparr>dk_journal := y, dk_seized_reserve := z\<rparr> = x\<lparr>dk_seized_reserve := z, dk_journal := y\<rparr>" for x :: "'a exit_desk" and y z by simp
    show ?thesis
      unfolding j(2) replay_all_append [OF d(8)] swap by (simp add: replay_event_journal r'(2))
  qed
  ultimately show ?thesis using effect_inv [OF d(1) assms(2,3)] j(1) d(6) hold r'(1) by (auto simp: mirrored_def)
qed

lemma mirrored_take:
  assumes "mirrored mac base taken d" "take_seized_reserve d = (d', c)"
  shows "mirrored mac base (taken + unat c) d'"
proof -
  have d': "d' = d\<lparr>dk_seized_reserve := 0\<rparr>" "c = dk_seized_reserve d" using assms(2) by (auto simp: take_seized_reserve_def)
  have "desk_inv d'" using assms(1) by (auto simp: mirrored_def d' desk_inv_def)
  then show ?thesis using assms(1) by (auto simp: mirrored_def d' desk_holdings_def add.commute add.left_commute)
qed

lemma mirrored_run:
  assumes "mirrored mac base taken d" "checks_wf B" "\<forall>op\<in>set steps. step_wf op" "fold (do_step B mac) steps (d, taken) = (d', taken')"
  shows "mirrored mac base taken' d'"
  using assms(1,3,4)
proof (induction steps arbitrary: d taken)
  case (Cons step steps)
  obtain d1 t1 where one: "do_step B mac step (d, taken) = (d1, t1)" by fastforce
  have inv: "desk_inv d" using Cons.prems(1) by (simp add: mirrored_def)
  have "mirrored mac base t1 d1"
  proof (cases step)
    case (Step op)
    then obtain r where op: "do_op B mac op d = (d1, r)" "t1 = taken" using one by (cases "do_op B mac op d") auto
    from do_op_step [OF inv assms(2) _ op(1)] Cons.prems Step show ?thesis
      using mirrored_quiet mirrored_effect op(2) by fastforce
  next
    case Take_Reserve
    with one Cons.prems(1) show ?thesis by (auto split: prod.splits intro: mirrored_take)
  qed
  with Cons one show ?case by simp
qed simp

lemma register_all_inv:
  assumes "desk_inv d" "desk_holdings d + sum_list (map (unat \<circ> snd) vaults) < 2 ^ 128"
  shows "desk_inv (register_all vaults d) \<and> dk_journal (register_all vaults d) = dk_journal d \<and>
    dk_consumed (register_all vaults d) = dk_consumed d \<and>
    desk_holdings (register_all vaults d) = desk_holdings d + sum_list (map (unat \<circ> snd) vaults)"
  using assms
proof (induction vaults arbitrary: d)
  case (Cons vc vaults)
  obtain v c where vc: "vc = (v, c)" by fastforce
  have "book_total (dk_vaults d) + unat (dk_seized_reserve d) + unat c < 2 ^ 128" using Cons.prems(2) by (simp add: vc desk_holdings_def)
  note reg = register_inv [OF Cons.prems(1) this, of v]
  have "desk_holdings (register_vault v c d) = desk_holdings d + unat c"
    using reg(2) by (simp add: desk_holdings_def register_vault_def)
  with Cons.IH [OF reg(1)] Cons.prems(2) show ?case by (simp add: register_all_def vc) (simp add: register_vault_def)
qed (simp add: register_all_def)

text \<open>C11: a restarted desk is the desk that went down, up to withdrawals from its reserve: start a desk with an empty
  journal file, register its vaults, and then open, settle, close, slash and dead-letter exits and withdraw the seized
  reserve in any order, whatever the file system did to the journal in between. Unless the journal has declared
  itself poisoned, its file opens again, and rebuilding a fresh desk with the same vaults from it succeeds and gives
  the exits, the vaults, the dead letters and the consumed references of the desk that went down. The seized reserve
  is rebuilt as everything ever seized: withdrawals are not journaled, so what was withdrawn is back in it.\<close>

theorem desk_restart:
  assumes "journal_file mac [] disk" "journal_open mac (store_new disk fate) = Ok j0"
    and "desk_with_journal cfg anchor (File_Journal j0) = Ok d0" "sum_list (map (unat \<circ> snd) vaults) < 2 ^ 128"
    and "checks_wf B" "\<forall>op\<in>set steps. step_wf op"
    and "run_steps B mac steps (register_all vaults d0) = (d, taken)" "dk_journal d = File_Journal j" "\<not> pj_poisoned j"
  shows "\<exists>j' r. journal_open mac (store_new (st_file (pj_store j)) []) = Ok j' \<and>
    reconstruct mac (register_all vaults d0\<lparr>dk_journal := File_Journal j'\<rparr>) =
      (d\<lparr>dk_journal := File_Journal j', dk_seized_reserve := r\<rparr>, Ok ()) \<and>
    unat r = unat (dk_seized_reserve d) + taken"
proof -
  let ?base = "register_all vaults d0"
  have j0: "journal_inv mac j0" "pj_events j0 = []"
    using journal_open_inv [OF _ assms(2)] assms(1) by (auto simp: store_new_def)
  have asm: "desk_assemble cfg anchor (Memory_Ledger []) (File_Journal j0) = Ok d0"
    using assms(3) by (simp add: desk_with_journal_def memory_ledger_new_def)
  then have d0: "dk_journal d0 = File_Journal j0" "dk_consumed d0 = Memory_Ledger []"
    by (auto simp: desk_assemble_def split: if_splits)
  note new = assemble_inv [OF asm]
  have base: "desk_inv ?base" "dk_journal ?base = File_Journal j0" "dk_consumed ?base = Memory_Ledger []"
    "desk_holdings ?base < 2 ^ 128"
    using register_all_inv [of d0 vaults] new assms(4) d0 by auto
  have "mirrored mac ?base 0 ?base"
    using base j0 by (auto simp: mirrored_def intro!: exI [of _ "dk_seized_reserve ?base"] exit_desk.equality)
  from mirrored_run [OF this assms(5,6)] have m: "mirrored mac ?base taken d" using assms(7) by (simp add: run_steps_def)
  then obtain r where j: "journal_inv mac j" and r: "unat r = unat (dk_seized_reserve d) + taken"
    and replay: "replay_all mac (pj_events j) ?base = (d\<lparr>dk_journal := File_Journal j0, dk_seized_reserve := r\<rparr>, Ok ())"
    using base(2) by (auto simp: mirrored_def assms(8))
  have stored: "journal_file mac (pj_events j) (st_file (pj_store j))"
    using j assms(9) unfolding journal_file_def journal_inv_def by (auto intro: exI [of _ "[]"])
  from journal_open_succeeds [OF this] obtain j' where j': "journal_open mac (store_new (st_file (pj_store j)) []) = Ok j'" by blast
  have ev: "pj_events j' = pj_events j" using journal_open_inv [OF _ j', of "pj_events j"] stored by (simp add: store_new_def)
  have "reconstruct mac (?base\<lparr>dk_journal := File_Journal j'\<rparr>) = (d\<lparr>dk_journal := File_Journal j', dk_seized_reserve := r\<rparr>, Ok ())"
    by (simp add: reconstruct_def ev replay_all_journal replay)
  with j' r show ?thesis by blast
qed

section \<open>A desk at work\<close>

definition toy_mac :: mac where
  "toy_mac = state_tag (\<lambda>x. replicate 32 (word_of_nat (length x))) (Some (replicate 32 5))"

definition sample_burn :: authenticated_burn where
  "sample_burn = \<lparr>ab_asset_id = replicate 16 0xa1, ab_holder = replicate 32 0x33, ab_destination = replicate 32 0x55,
     ab_amount = 500, ab_burn_ref = replicate 32 0x11, ab_dest_chain = 9000, ab_finalized_height = 4200000\<rparr>"

definition sample_checks :: "(unit, unit) burn_checks" where
  "sample_checks = \<lparr>bc_verify = (\<lambda>_ _. Ok sample_burn), bc_claimed_height = (\<lambda>_. 4200000),
     bc_claimed_burn_ref = (\<lambda>_. Some (replicate 32 0x11)), bc_leaf_digest = (\<lambda>_. replicate 32 7), bc_chain_id = (\<lambda>_. 9000)\<rparr>"

definition sample_desk_config :: desk_config where
  "sample_desk_config = desk_serving [replicate 16 0xa1] 0 (desk_aligned 1 9000)"

definition sample_desk :: "exit_journal \<Rightarrow> unit exit_desk" where
  "sample_desk j = \<lparr>dk_cfg = sample_desk_config, dk_anchor = (), dk_vaults = [], dk_exits = [], dk_dead = [],
     dk_consumed = Memory_Ledger [], dk_journal = j, dk_seized_reserve = 0\<rparr>"

definition sample_open :: "exit_journal \<Rightarrow> unit exit_desk" where
  "sample_open j = \<lparr>dk_cfg = sample_desk_config, dk_anchor = (),
     dk_vaults = [(1, \<lparr>va_id = 1, va_free = 250, va_locked = 750\<rparr>)],
     dk_exits = [\<lparr>ex_statement = sample_statement, ex_vault_id = 1, ex_locked = 750, ex_issued_at = 1000, ex_deadline = 86401000,
       ex_state = Pending\<rparr>], dk_dead = [],
     dk_consumed = Memory_Ledger [replicate 32 0x11], dk_journal = j, dk_seized_reserve = 0\<rparr>"

definition sample_open_event :: exit_event where
  "sample_open_event = Ev_Open 0 \<lparr>je_version = 1, je_corridor = 1, je_asset_id = replicate 16 0xa1, je_amount = 500,
     je_holder = replicate 32 0x33, je_destination = replicate 32 0x55, je_burn_ref = replicate 32 0x11,
     je_finalized_height = 4200000, je_vault_id = 1, je_locked = 750, je_issued_at = 1000, je_deadline = 86401000\<rparr>"

lemma sample_checks_wf: "checks_wf sample_checks"
  by (simp add: checks_wf_def sample_checks_def sample_burn_def)

lemma sample_assemble: "desk_assemble sample_desk_config () (Memory_Ledger []) j = Ok (sample_desk j)"
  by (simp add: desk_assemble_def sample_desk_def sample_desk_config_def desk_serving_def desk_aligned_def SECURE_RATIO_BPS_def
      SLASH_PREMIUM_BPS_def BPS_DEN_def)

lemma sample_opens:
  assumes "exit_journal_append toy_mac sample_open_event j = (j', Ok ())"
  shows "open_exit sample_checks toy_mac () 1000 (register_vault 1 1000 (sample_desk j)) = (sample_open j', Ok 0)"
proof -
  let ?d = "register_vault 1 1000 (sample_desk j)"
  have v: "dk_vaults ?d = [(1, \<lparr>va_id = 1, va_free = 1000, va_locked = 0\<rparr>)]"
    by (simp add: register_vault_def vault_register_def sample_desk_def bt_get_def)
  have req: "required_collateral ?d 500 = Ok 750"
    by (simp add: required_collateral_def checked_mul_def register_vault_def sample_desk_def sample_desk_config_def desk_serving_def desk_aligned_def
        SECURE_RATIO_BPS_def BPS_DEN_def)
  have lock: "lock_any 750 (dk_vaults ?d) = ([(1, \<lparr>va_id = 1, va_free = 250, va_locked = 750\<rparr>)], Ok 1)"
    by (simp add: v lock_any_def vault_lock_def bt_get_def checked_add_def)
  have st: "open_statement ?d sample_burn = sample_statement"
    by (simp add: open_statement_def register_vault_def sample_desk_def sample_desk_config_def desk_serving_def desk_aligned_def sample_burn_def
        sample_statement_def EXIT_STATEMENT_VERSION_def)
  have val: "statement_validate sample_statement = Ok ()"
    by (simp add: statement_validate_def sample_statement_def EXIT_STATEMENT_VERSION_def)
  have dl: "sat_add 1000 (dc_window (dk_cfg ?d)) = 86401000"
    by (simp add: register_vault_def sample_desk_def sample_desk_config_def desk_serving_def desk_aligned_def REDEEM_WINDOW_MS_def sat_add_def)
  have led: "ledger_record toy_mac (replicate 32 0x11) (Memory_Ledger []) = (Memory_Ledger [replicate 32 0x11], Ok ())"
    by (simp add: bs_contains_def MAX_LEDGER_ENTRIES_def)
  have amt: "es_amount sample_statement = 500" "es_burn_ref sample_statement = replicate 32 0x11"
    by (simp_all add: sample_statement_def)
  have ev: "open_event (?d\<lparr>dk_vaults := m\<rparr>) sample_statement 1 750 1000 86401000 = sample_open_event" for m
    by (simp add: open_event_def register_vault_def sample_desk_def sample_statement_def sample_open_event_def)
  have locked: "open_locked toy_mac sample_statement 750 1000 1 (?d\<lparr>dk_vaults := [(1, \<lparr>va_id = 1, va_free = 250, va_locked = 750\<rparr>)]\<rparr>) =
      (sample_open j', Ok 0)"
    unfolding open_locked_def Let_def using assms dl ev
    by (simp add: amt) (simp add: register_vault_def sample_desk_def sample_open_def bs_contains_def MAX_LEDGER_ENTRIES_def)
  have serves: "desk_serves (dk_cfg ?d) (ab_asset_id sample_burn)" "dc_max_amount (dk_cfg ?d) = 0" "dk_consumed ?d = Memory_Ledger []"
    by (simp_all add: register_vault_def sample_desk_def sample_desk_config_def desk_serving_def desk_aligned_def desk_serves_def sample_burn_def)
  have chk: "bc_verify sample_checks () a = Ok sample_burn" "bc_chain_id sample_checks a = ab_dest_chain sample_burn" for a
    by (simp_all add: sample_checks_def sample_burn_def)
  show ?thesis
    unfolding open_exit_def
    by (simp add: chk serves st val amt req lock locked is_released_def bs_contains_def)
qed

lemma sample_desk_runs: "desk_runs sample_checks toy_mac (sample_desk Null_Journal) [Deposited 1 1000] (sample_open Null_Journal)"
proof -
  have "desk_runs sample_checks toy_mac (sample_desk Null_Journal) ([] @ [Deposited 1 1000]) (register_vault 1 1000 (sample_desk Null_Journal))"
    by (rule dr_register [OF dr_start])
  moreover have "do_op sample_checks toy_mac (Do_Open () 1000) (register_vault 1 1000 (sample_desk Null_Journal)) =
      (sample_open Null_Journal, Ok ())"
    using sample_opens [of Null_Journal Null_Journal] by simp
  ultimately show ?thesis using dr_op [where op = "Do_Open () 1000"] by fastforce
qed

theorem desk_collateral_kept_witness:
  "desk_runs sample_checks toy_mac (sample_desk Null_Journal) [Deposited 1 1000] (sample_open Null_Journal) \<and>
   book_total (dk_vaults (sample_open Null_Journal)) = 1000 \<and> pending_sum 1 (dk_exits (sample_open Null_Journal)) = 750"
proof -
  have "length (ledger_refs (Memory_Ledger [])) \<le> MAX_LEDGER_ENTRIES" "deposited [Deposited 1 1000] < 2 ^ 128" by simp_all
  from desk_collateral_kept [OF sample_assemble this(1) sample_checks_wf sample_desk_runs this(2)]
  have "book_total (dk_vaults (sample_open Null_Journal)) + unat (dk_seized_reserve (sample_open Null_Journal)) = 1000"
    "unat (locked_of (dk_vaults (sample_open Null_Journal)) 1) = pending_sum 1 (dk_exits (sample_open Null_Journal))" by simp_all
  then show ?thesis using sample_desk_runs by (simp add: sample_open_def locked_of_def bt_get_def)
qed

theorem exit_closes_once_witness:
  "is_consumed (sample_open Null_Journal) (replicate 32 0x11) \<and>
   (\<forall>k. snd (open_exit sample_checks toy_mac () 2000 (sample_open Null_Journal)) \<noteq> Ok k)"
proof -
  have "length (ledger_refs (Memory_Ledger [])) \<le> MAX_LEDGER_ENTRIES" "deposited [Deposited 1 1000] + deposited [] < 2 ^ 128" by simp_all
  from exit_closes_once [OF sample_assemble this(1) sample_checks_wf sample_desk_runs dr_start this(2)]
  have "bc_verify sample_checks () (dk_anchor (sample_open Null_Journal)) = Ok sample_burn \<and>
      is_consumed (sample_open Null_Journal) (ab_burn_ref sample_burn) \<longrightarrow>
      snd (open_exit sample_checks toy_mac () 2000 (sample_open Null_Journal)) \<noteq> Ok k" for k by blast
  moreover have "bc_verify sample_checks () (dk_anchor (sample_open Null_Journal)) = Ok sample_burn"
    "is_consumed (sample_open Null_Journal) (ab_burn_ref sample_burn)" "ab_burn_ref sample_burn = replicate 32 0x11"
    by (simp_all add: sample_checks_def is_consumed_def is_released_def sample_open_def sample_burn_def bs_contains_def)
  ultimately show ?thesis by simp
qed

lemma sample_open_inv: "desk_inv (sample_open Null_Journal)"
proof -
  have "desk_assemble sample_desk_config () (Memory_Ledger []) Null_Journal = Ok (sample_desk Null_Journal)" by (rule sample_assemble)
  from assemble_inv(1,2) [OF this] desk_runs_holdings [OF sample_desk_runs sample_checks_wf] show ?thesis by simp
qed

lemma sample_settles:
  "settle toy_mac 0 (bitcoin_watcher toy_hash sample_watcher) (sample_open Null_Journal) =
   (sample_open Null_Journal\<lparr>dk_vaults := [(1, \<lparr>va_id = 1, va_free = 1000, va_locked = 0\<rparr>)],
      dk_exits := set_state Settled 0 (dk_exits (sample_open Null_Journal)),
      dk_consumed := Memory_Ledger [replicate 32 0x11, pay_id]\<rparr>, Ok \<lparr>rl_vault_id = 1, rl_released = 750\<rparr>)"
proof -
  let ?x = "\<lparr>ex_statement = sample_statement, ex_vault_id = 1, ex_locked = 750, ex_issued_at = 1000, ex_deadline = 86401000,
       ex_state = Pending\<rparr>"
  have x: "exit_get (dk_exits (sample_open Null_Journal)) 0 = Some ?x" by (simp add: exit_get_def sample_open_def)
  have cor: "pw_corridor (bitcoin_watcher toy_hash sample_watcher) = dc_corridor (dk_cfg (sample_open Null_Journal))"
    by (simp add: bitcoin_watcher_def sample_watcher_def bitcoin_payout_watcher_new_def sample_open_def sample_desk_config_def
        desk_serving_def desk_aligned_def)
  have val: "payout_validate sample_payout = Ok ()" "covers sample_payout sample_statement" "pa_foreign_ref sample_payout = pay_id"
    by (simp_all add: payout_validate_def sample_payout_def PAYOUT_VERSION_def covers_def sample_statement_def)
  have "replicate 32 (0x11 :: u8) = 0x11 # replicate 31 0x11" by (simp add: numeral_eq_Suc)
  then have ne: "pay_id \<noteq> replicate 32 0x11" "replicate 32 0x11 < pay_id" by simp_all
  have led: "\<not> is_released (dk_consumed (sample_open Null_Journal)) pay_id"
    "ledger_record toy_mac pay_id (dk_consumed (sample_open Null_Journal)) = (Memory_Ledger [replicate 32 0x11, pay_id], Ok ())"
    using ne by (auto simp: sample_open_def is_released_def bs_contains_def MAX_LEDGER_ENTRIES_def)
  have rel: "vault_release 1 750 (dk_vaults (sample_open Null_Journal)) = ([(1, \<lparr>va_id = 1, va_free = 1000, va_locked = 0\<rparr>)], Ok ())"
    by (simp add: sample_open_def vault_release_def bt_get_def checked_sub_def checked_add_def)
  show ?thesis
    unfolding settle_def by (simp add: x cor sample_confirms val led rel Let_def) (simp add: sample_open_def)
qed

theorem overdue_exit_closed_justly_witness:
  "\<exists>d'. close_overdue toy_mac 0 [bitcoin_watcher toy_hash sample_watcher] 2000 (sample_open Null_Journal) = (d', Ok Settle) \<and>
     (\<exists>ref. \<not> is_consumed (sample_open Null_Journal) ref \<and> is_consumed d' ref \<and>
        release_backs toy_hash sample_params sample_cp 1 sample_release sample_statement ref)"
proof -
  obtain d' where d': "close_overdue toy_mac 0 (map (bitcoin_watcher toy_hash) [sample_watcher]) 2000 (sample_open Null_Journal) = (d', Ok Settle)"
    using sample_settles by (simp add: close_overdue_def exit_get_def sample_open_def)
  have "length (toy_hash x) = 32" for x by (simp add: toy_hash_def)
  from overdue_exit_closed_justly [OF sample_open_inv this _ d'] sample_watcher_sane
  have "\<exists>x. exit_get (dk_exits (sample_open Null_Journal)) 0 = Some x \<and>
      (\<exists>r\<in>set (bw_releases sample_watcher). \<exists>ref. \<not> is_consumed (sample_open Null_Journal) ref \<and> is_consumed d' ref \<and>
         release_backs toy_hash (bw_params sample_watcher) (bw_checkpoint sample_watcher) (bw_confirmation_depth sample_watcher) r (ex_statement x) ref)"
    by auto
  then show ?thesis using d'
    by (auto simp: exit_get_def sample_open_def sample_watcher_def bitcoin_payout_watcher_new_def)
qed

theorem desk_restart_witness:
  "\<exists>j0 j j'. journal_open toy_mac (store_new None []) = Ok j0 \<and>
     run_steps sample_checks toy_mac [Step (Do_Open () 1000), Take_Reserve] (register_all [(1, 1000)] (sample_desk (File_Journal j0))) =
       (sample_open (File_Journal j), 0) \<and>
     journal_open toy_mac (store_new (st_file (pj_store j)) []) = Ok j' \<and>
     reconstruct toy_mac (register_all [(1, 1000)] (sample_desk (File_Journal j0))\<lparr>dk_journal := File_Journal j'\<rparr>) =
       (sample_open (File_Journal j'), Ok ())"
proof -
  have none: "journal_file toy_mac [] None" by (simp add: journal_file_def toy_mac_def mac_ok_state_tag)
  obtain j0 where j0: "journal_open toy_mac (store_new None []) = Ok j0" using journal_open_succeeds [OF none] by blast
  have inv: "journal_inv toy_mac j0" "\<not> pj_poisoned j0" "pj_events j0 = []"
    using journal_open_inv [of toy_mac "[]" "store_new None []" j0] none j0 by (auto simp: store_new_def)
  have "st_fate (pj_store j0) = []"
    using j0 by (auto simp: journal_open_def store_load_def store_save_def next_fault_def advance_fate_def store_new_def Let_def)
  moreover have wf: "event_wf sample_open_event" by (simp add: sample_open_event_def)
  ultimately obtain j where j: "journal_append toy_mac sample_open_event j0 = (j, Ok ())"
    using journal_append_quiet [OF inv(1,2), of sample_open_event] inv(3) by (auto simp: MAX_JOURNAL_ENTRIES_def)
  have "\<not> pj_poisoned j" using journal_append_Ok [OF inv(1) wf j] by simp
  have "take_seized_reserve (sample_open (File_Journal j)) = (sample_open (File_Journal j), 0)"
    by (simp add: take_seized_reserve_def sample_open_def)
  then have run: "run_steps sample_checks toy_mac [Step (Do_Open () 1000), Take_Reserve] (register_all [(1, 1000)] (sample_desk (File_Journal j0))) =
      (sample_open (File_Journal j), 0)"
    using sample_opens [of "File_Journal j0" "File_Journal j"] j by (simp add: run_steps_def register_all_def)
  have "desk_with_journal sample_desk_config () (File_Journal j0) = Ok (sample_desk (File_Journal j0))"
    using sample_assemble by (simp add: desk_with_journal_def memory_ledger_new_def)
  from desk_restart [OF none j0 this _ sample_checks_wf _ run _ \<open>\<not> pj_poisoned j\<close>]
  obtain j' r where "journal_open toy_mac (store_new (st_file (pj_store j)) []) = Ok j'"
    "reconstruct toy_mac (register_all [(1, 1000)] (sample_desk (File_Journal j0))\<lparr>dk_journal := File_Journal j'\<rparr>) =
       (sample_open (File_Journal j)\<lparr>dk_journal := File_Journal j', dk_seized_reserve := r\<rparr>, Ok ())" "r = 0"
    by (auto simp: sample_open_def unat_eq_zero)
  then show ?thesis using j0 run by (auto simp: sample_open_def)
qed

end
