(* ===== verification/Eth_Trie.thy ===== *)
theory Eth_Trie
  imports Eth_Mpt
begin

text \<open>
  The module \<open>builder\<close> of \<^verbatim>\<open>crates/qlc-ethereum/src/mpt.rs\<close>: tries from their entries, the encoding of their
  nodes, and the proofs the verifier of \<open>Eth_Mpt\<close> reads. A trie holds exactly its entries, the proof made for
  a key is accepted with the value of the key, and a proof accepted with another value shows a collision of
  the hash.
\<close>

section \<open>Tries\<close>

datatype mpt_node =
    Leaf bytes bytes
  | Extension bytes mpt_node
  | Branch "mpt_node option list" "bytes option"

type_synonym entries = "(bytes \<times> bytes) list"

definition hp_encode :: "bytes \<Rightarrow> bool \<Rightarrow> bytes" where
  "hp_encode nibbles is_leaf =
     (let flag = (if is_leaf then 2 else 0 :: u8);
          i = (if length nibbles mod 2 = 1 then 1 else 0)
      in (if length nibbles mod 2 = 1 then push_bit 4 (flag + 1) OR nibbles ! 0 else push_bit 4 flag) #
         map (\<lambda>k. push_bit 4 (nibbles ! (i + 2 * k)) OR nibbles ! (i + 2 * k + 1)) [0..<(length nibbles - i) div 2])"

function common_prefix_from :: "bytes \<Rightarrow> entries \<Rightarrow> usize \<Rightarrow> usize" where
  "common_prefix_from first entries cp =
     (if cp < length first then
        if list_ex (\<lambda>e. cp \<ge> length (fst e) \<or> fst e ! cp \<noteq> first ! cp) entries then cp
        else common_prefix_from first entries (cp + 1)
      else cp)"
  by pat_completeness auto
termination by (relation "measure (\<lambda>(first, entries, cp). length first - cp)") auto

declare common_prefix_from.simps [simp del]

definition common_prefix :: "entries \<Rightarrow> usize" where
  "common_prefix entries = common_prefix_from (fst (entries ! 0)) entries 0"

text \<open>One round of the loop that sorts the entries by their first nibble.\<close>

definition place :: "bytes \<times> bytes \<Rightarrow> entries list \<times> bytes option \<Rightarrow> entries list \<times> bytes option" where
  "place = (\<lambda>(k, v) (groups, value).
     if k = [] then (groups, Some v)
     else (groups[unat (k ! 0) := groups ! unat (k ! 0) @ [(drop 1 k, v)]], value))"

definition grouped :: "entries \<Rightarrow> entries list \<times> bytes option" where
  "grouped entries = fold place entries (replicate 16 [], None)"

primrec all_ok :: "('e, 'a) res list \<Rightarrow> ('e, 'a list) res" where
  "all_ok [] = Ok []"
| "all_ok (r # rs) = and_then r (\<lambda>x. map_ok (\<lambda>xs. x # xs) (all_ok rs))"

definition total_len :: "entries \<Rightarrow> nat" where
  "total_len entries = sum_list (map (\<lambda>e. length (fst e)) entries)"

lemma total_len_simps [simp]:
  "total_len [] = 0" "total_len (e # es) = length (fst e) + total_len es" "total_len (es @ fs) = total_len es + total_len fs"
  by (simp_all add: total_len_def)

lemma grouped_len_step:
  assumes "length groups = 16" and "\<forall>g \<in> set groups. total_len g + length g \<le> m"
  shows "length (fst (fold place es (groups, val))) = 16 \<and>
    (\<forall>g \<in> set (fst (fold place es (groups, val))). total_len g + length g \<le> m + total_len es)"
  using assms
proof (induction es arbitrary: groups val m)
  case Nil
  then show ?case by simp
next
  case (Cons e es)
  obtain k v where e: "e = (k, v)" by force
  let ?n = "unat (k ! 0)"
  have "total_len g + length g \<le> m + length k" if g: "g \<in> set (fst (place e (groups, val)))" for g
  proof (cases "k \<noteq> [] \<and> ?n < 16 \<and> g = groups ! ?n @ [(drop 1 k, v)]")
    case True
    then have "total_len (groups ! ?n) + length (groups ! ?n) \<le> m" using Cons.prems by simp
    with True show ?thesis by (cases k) auto
  next
    case False
    have "g \<in> set groups"
    proof (cases "k = [] \<or> 16 \<le> ?n")
      case True
      then show ?thesis using g e Cons.prems(1) by (auto simp: place_def list_update_beyond split: if_splits)
    next
      case inside: False
      then have "g \<in> insert (groups ! ?n @ [(drop 1 k, v)]) (set groups)"
        using g e by (auto simp: place_def dest!: set_update_subset_insert [THEN subsetD])
      then show ?thesis using False inside by auto
    qed
    then show ?thesis using Cons.prems(2) by force
  qed
  moreover have "length (fst (place e (groups, val))) = 16" using Cons.prems(1) e by (simp add: place_def)
  ultimately show ?case
    using Cons.IH [of "fst (place e (groups, val))" "m + length k" "snd (place e (groups, val))"] e
    by (simp add: add.assoc)
qed

lemma grouped_smaller:
  "g \<in> set (fst (grouped es)) \<Longrightarrow> g \<noteq> [] \<Longrightarrow> total_len g < total_len es"
proof -
  assume g: "g \<in> set (fst (grouped es))" "g \<noteq> []"
  then have "total_len g + length g \<le> total_len es"
    using grouped_len_step [of "replicate 16 []" 0 es None] by (simp add: grouped_def)
  moreover have "0 < length g" using g(2) by simp
  ultimately show ?thesis by linarith
qed

lemma common_prefix_le: "common_prefix es \<le> length (fst (es ! 0))"
proof -
  have "cp \<le> length first \<Longrightarrow> common_prefix_from first es cp \<le> length first" for first es cp
    by (induction first es cp rule: common_prefix_from.induct) (subst common_prefix_from.simps, auto)
  then show ?thesis by (simp add: common_prefix_def)
qed

lemma stripped_smaller:
  assumes "es \<noteq> []" and "0 < common_prefix es"
  shows "total_len (map (\<lambda>(k, v). (drop (common_prefix es) k, v)) es) < total_len es"
proof -
  obtain e fs where es: "es = e # fs" using assms(1) by (cases es) auto
  have "total_len (map (\<lambda>(k, v). (drop n k, v)) fs) \<le> total_len fs" for n
    by (induction fs) (auto simp: case_prod_beta)
  moreover have "length (drop (common_prefix es) (fst e)) < length (fst e)"
    using common_prefix_le [of es] assms(2) es by simp
  ultimately show ?thesis unfolding es by (simp add: case_prod_beta add_less_le_mono)
qed

function build :: "entries \<Rightarrow> (mpt_error, mpt_node) res" where
  "build entries =
     (if length entries = 1 then Ok (Leaf (fst (entries ! 0)) (snd (entries ! 0)))
      else if entries = [] then Panic
      else let cp = common_prefix entries
           in if cp > 0 then
                map_ok (\<lambda>child. Extension (take cp (fst (entries ! 0))) child)
                  (build (map (\<lambda>(k, v). (drop cp k, v)) entries))
              else if list_ex (\<lambda>e. fst e \<noteq> [] \<and> unat (fst e ! 0) \<ge> 16) entries then Panic
              else map_ok (\<lambda>children. Branch children (snd (grouped entries)))
                     (all_ok (map (\<lambda>g. if g = [] then Ok None else map_ok Some (build g)) (fst (grouped entries)))))"
  by pat_completeness auto
termination by (relation "measure total_len") (auto simp: grouped_smaller stripped_smaller)

declare build.simps [simp del]

text \<open>\<open>child_ref\<close>, on the encoding of the child.\<close>

definition child_ref :: "(bytes \<Rightarrow> bytes) \<Rightarrow> bytes \<Rightarrow> bytes" where
  "child_ref kec enc = (if length enc < 32 then enc else encode_bytes (kec enc))"

primrec encode_node :: "(bytes \<Rightarrow> bytes) \<Rightarrow> mpt_node \<Rightarrow> bytes" where
  "encode_node kec (Leaf path v) = encode_list [encode_bytes (hp_encode path True), encode_bytes v]"
| "encode_node kec (Extension path child) =
     encode_list [encode_bytes (hp_encode path False), child_ref kec (encode_node kec child)]"
| "encode_node kec (Branch children v) =
     encode_list
       (map (\<lambda>c. case c of Some enc \<Rightarrow> child_ref kec enc | None \<Rightarrow> encode_bytes [])
         (map (map_option (encode_node kec)) children) @
        [case v of Some w \<Rightarrow> encode_bytes w | None \<Rightarrow> encode_bytes []])"

definition root_hash :: "(bytes \<Rightarrow> bytes) \<Rightarrow> mpt_node \<Rightarrow> bytes" where
  "root_hash kec node = kec (encode_node kec node)"

lemma size_branch:
  assumes "i < length children" and "children ! i = Some c"
  shows "size c < Suc (size_list (size_option size) children)"
proof -
  have "Some c \<in> set children" using nth_mem [OF assms(1)] assms(2) by simp
  then have "size_option size (Some c) \<le> size_list (size_option size) children"
    by (rule size_list_estimation') simp
  then show ?thesis by simp
qed

function prove_walk :: "(bytes \<Rightarrow> bytes) \<Rightarrow> mpt_node \<Rightarrow> bytes \<Rightarrow> bool \<Rightarrow> (mpt_error, bytes list) res" where
  "prove_walk kec node nibbles is_root =
     (let enc = encode_node kec node;
          out = (if is_root \<or> length enc \<ge> 32 then [enc] else [])
      in case node of
           Leaf path v \<Rightarrow> Ok out
         | Extension path child \<Rightarrow>
             if length nibbles \<ge> length path \<and> take (length path) nibbles = path
             then map_ok (\<lambda>es. out @ es) (prove_walk kec child (drop (length path) nibbles) False)
             else Ok out
         | Branch children v \<Rightarrow>
             if nibbles = [] then Ok out
             else if unat (nibbles ! 0) \<ge> length children then Panic
             else (case children ! unat (nibbles ! 0) of
                     None \<Rightarrow> Ok out
                   | Some c \<Rightarrow> map_ok (\<lambda>es. out @ es) (prove_walk kec c (drop 1 nibbles) False)))"
  by pat_completeness auto
termination by (relation "measure (\<lambda>(kec, node, nibbles, is_root). size node)")
  (auto dest!: size_branch [rotated])

declare prove_walk.simps [simp del]

definition prove :: "(bytes \<Rightarrow> bytes) \<Rightarrow> mpt_node \<Rightarrow> bytes \<Rightarrow> (mpt_error, bytes list) res" where
  "prove kec node key = prove_walk kec node (to_nibbles key) True"

section \<open>Paths\<close>

definition nibble_list :: "bytes \<Rightarrow> bool" where
  "nibble_list p \<longleftrightarrow> (\<forall>n \<in> set p. unat n < 16)"

lemma to_nibbles_ok: "nibble_list (to_nibbles key)"
  by (simp add: nibble_list_def nibble_less)

lemma nibble_pair:
  assumes "unat (a :: u8) < 16" and "unat (b :: u8) < 16"
  shows "drop_bit 4 (push_bit 4 a OR b) = a" and "(push_bit 4 a OR b) AND 0x0f = b"
proof -
  have high: "n < 4" if "unat (w :: u8) < 16" "bit w n" for w n
  proof -
    have "w = w AND 0x0f" using that(1) by (simp add: word_unat_eq_iff unat_low_nibble)
    also have "\<dots> = take_bit 4 w" by (rule low_nibble)
    finally show ?thesis using that(2) by (metis bit_take_bit_iff)
  qed
  show "drop_bit 4 (push_bit 4 a OR b) = a"
    by (rule bit_word_eqI) (use high [OF assms(1)] high [OF assms(2)] in \<open>auto simp: bit_simps\<close>)
  show "(push_bit 4 a OR b) AND 0x0f = b" unfolding low_nibble
    by (rule bit_word_eqI) (use high [OF assms(2)] in \<open>auto simp: bit_simps\<close>)
qed

lemma concat_pairs:
  assumes "\<And>k. k < m \<Longrightarrow> f k = [xs ! (2 * k), xs ! (2 * k + 1)]" and "length xs = 2 * m"
  shows "concat (map f [0..<m]) = xs"
  using assms
proof (induction m arbitrary: xs)
  case 0
  then show ?case by simp
next
  case (Suc m)
  have "concat (map f [0..<m]) = take (2 * m) xs" using Suc.prems by (intro Suc.IH) auto
  moreover have "xs = take (2 * m) xs @ [xs ! (2 * m), xs ! (2 * m + 1)]"
    using Suc.prems(2) by (intro nth_equalityI) (auto simp: nth_append nth_Cons' less_Suc_eq)
  ultimately show ?case using Suc.prems(1) by simp
qed

lemma hp_tail:
  assumes "nibble_list xs" and "length xs = 2 * m"
  shows "concat (map (\<lambda>b. [drop_bit 4 b, b AND 0x0f])
           (map (\<lambda>k. push_bit 4 (xs ! (2 * k)) OR xs ! (2 * k + 1)) [0..<m])) = xs"
proof -
  have "[drop_bit 4 b, b AND 0x0f] = [xs ! (2 * k), xs ! (2 * k + 1)]"
    if "k < m" "b = push_bit 4 (xs ! (2 * k)) OR xs ! (2 * k + 1)" for k b
  proof -
    have "unat (xs ! (2 * k)) < 16" "unat (xs ! (2 * k + 1)) < 16"
      using assms that(1) by (auto simp: nibble_list_def)
    then show ?thesis using nibble_pair that(2) by simp
  qed
  then have "concat (map (\<lambda>k. [drop_bit 4 (push_bit 4 (xs ! (2 * k)) OR xs ! (2 * k + 1)),
      (push_bit 4 (xs ! (2 * k)) OR xs ! (2 * k + 1)) AND 0x0f]) [0..<m]) = xs"
    by (intro concat_pairs assms(2)) blast
  then show ?thesis by (simp only: map_map o_def)
qed

lemma hp_round_trip:
  assumes "nibble_list p"
  shows "decode_hp (hp_encode p leaf) = (p, leaf)"
proof (cases "length p mod 2 = 1")
  case True
  then obtain n xs where p: "p = n # xs" by (cases p) auto
  have "even (length xs)" using True p by simp presburger
  then obtain m where m: "length xs = 2 * m" by (rule evenE)
  let ?f = "(if leaf then 2 else 0 :: u8) + 1"
  have n: "unat n < 16" "nibble_list xs" using assms p by (auto simp: nibble_list_def)
  have f: "unat ?f < 16" "?f AND 1 \<noteq> 0" "(?f AND 2 \<noteq> 0) = leaf" by auto
  have "hp_encode p leaf = (push_bit 4 ?f OR n) # map (\<lambda>k. push_bit 4 (xs ! (2 * k)) OR xs ! (2 * k + 1)) [0..<m]"
    using True p m by (simp add: hp_encode_def Let_def)
  then show ?thesis
    using hp_tail [OF n(2) m] nibble_pair [OF f(1) n(1)] f(2,3) p by (simp add: decode_hp_def Let_def)
next
  case False
  then have "even (length p)" by presburger
  then obtain m where m: "length p = 2 * m" by (rule evenE)
  let ?f = "if leaf then 2 else 0 :: u8"
  have f: "unat ?f < 16" "?f AND 1 = 0" "(?f AND 2 \<noteq> 0) = leaf" by auto
  have "drop_bit 4 (push_bit 4 ?f) = ?f" using nibble_pair(1) [OF f(1), of 0] by simp
  moreover have "hp_encode p leaf = push_bit 4 ?f # map (\<lambda>k. push_bit 4 (p ! (2 * k)) OR p ! (2 * k + 1)) [0..<m]"
    using False m by (simp add: hp_encode_def Let_def)
  ultimately show ?thesis
    using hp_tail [OF assms m] f(2,3) by (simp add: decode_hp_def Let_def)
qed

section \<open>What a trie holds\<close>

function trie_get :: "mpt_node \<Rightarrow> bytes \<Rightarrow> bytes option" where
  "trie_get node ns =
     (case node of
        Leaf path v \<Rightarrow> if ns = path then Some v else None
      | Extension path child \<Rightarrow>
          if length path \<le> length ns \<and> take (length path) ns = path then trie_get child (drop (length path) ns) else None
      | Branch children v \<Rightarrow>
          if ns = [] then v
          else if unat (ns ! 0) \<ge> length children then None
          else (case children ! unat (ns ! 0) of None \<Rightarrow> None | Some c \<Rightarrow> trie_get c (drop 1 ns)))"
  by pat_completeness auto
termination by (relation "measure (\<lambda>(node, ns). size node)") (auto dest!: size_branch [rotated])

declare trie_get.simps [simp del]

inductive trie_ok :: "mpt_node \<Rightarrow> bool" where
  leaf: "nibble_list p \<Longrightarrow> v \<noteq> [] \<Longrightarrow> trie_ok (Leaf p v)"
| extension: "nibble_list p \<Longrightarrow> trie_ok c \<Longrightarrow> trie_ok (Extension p c)"
| branch: "length cs = 16 \<Longrightarrow> (\<And>c. Some c \<in> set cs \<Longrightarrow> trie_ok c) \<Longrightarrow> v \<noteq> Some [] \<Longrightarrow> trie_ok (Branch cs v)"

text \<open>The value that the encoding of a node decodes to.\<close>

definition ref_rlp :: "(bytes \<Rightarrow> bytes) \<Rightarrow> rlp \<Rightarrow> rlp" where
  "ref_rlp kec x = (if length (rlp_encode x) < 32 then x else RBytes (kec (rlp_encode x)))"

primrec node_rlp :: "(bytes \<Rightarrow> bytes) \<Rightarrow> mpt_node \<Rightarrow> rlp" where
  "node_rlp kec (Leaf path v) = RList [RBytes (hp_encode path True), RBytes v]"
| "node_rlp kec (Extension path child) = RList [RBytes (hp_encode path False), ref_rlp kec (node_rlp kec child)]"
| "node_rlp kec (Branch children v) =
     RList (map (\<lambda>c. case c of Some x \<Rightarrow> ref_rlp kec x | None \<Rightarrow> RBytes [])
              (map (map_option (node_rlp kec)) children) @
            [RBytes (case v of Some w \<Rightarrow> w | None \<Rightarrow> [])])"

lemma rlp_encode_ref: "rlp_encode (ref_rlp kec x) = child_ref kec (rlp_encode x)"
  by (simp add: ref_rlp_def child_ref_def)

lemma encode_node_rlp: "encode_node kec t = rlp_encode (node_rlp kec t)"
proof (induction t)
  case (Branch cs v)
  have eq: "map (\<lambda>c. case c of Some enc \<Rightarrow> child_ref kec enc | None \<Rightarrow> encode_bytes []) (map (map_option (encode_node kec)) cs) =
    map rlp_encode (map (\<lambda>c. case c of Some x \<Rightarrow> ref_rlp kec x | None \<Rightarrow> RBytes []) (map (map_option (node_rlp kec)) cs))"
    using Branch by (auto simp: rlp_encode_ref split: option.split)
  show ?case
    by (simp only: encode_node.simps node_rlp.simps rlp_encode.simps map_append eq) (simp split: option.split)
qed (simp_all add: rlp_encode_ref)

lemma depth_le_length: "rlp_depth x \<le> length (rlp_encode x)"
proof (induction x rule: rlp_depth.induct)
  case (2 items)
  have "length (rlp_encode x) \<le> length (concat (map rlp_encode items))" if "x \<in> set items" for x
    using that by (induction items) auto
  then have "fold max (map rlp_depth items) 0 \<le> length (concat (map rlp_encode items))"
    using 2 by (auto simp: fold_max_le intro: order_trans)
  moreover have "1 \<le> length (encode_length n off)" for n off by (simp add: Suc_le_eq)
  ultimately have "Suc (fold max (map rlp_depth items) 0) \<le>
    length (encode_length (length (concat (map rlp_encode items))) 0xc0) + length (concat (map rlp_encode items))"
    by (metis add_mono plus_1_eq_Suc)
  then show ?case by (simp only: rlp_depth.simps rlp_encode.simps encode_list_def Let_def length_append)
qed simp

lemma depth_ref: "rlp_depth (ref_rlp kec x) < MAX_DEPTH"
  using depth_le_length [of x] by (simp add: ref_rlp_def MAX_DEPTH_def)

lemma fold_max_less: "fold max ns (m :: nat) < k \<longleftrightarrow> m < k \<and> (\<forall>n \<in> set ns. n < k)"
  by (induction ns arbitrary: m) auto

lemma depth_node: "rlp_depth (node_rlp kec t) \<le> MAX_DEPTH"
proof -
  have "0 < MAX_DEPTH" by (simp add: MAX_DEPTH_def)
  then show ?thesis
    using depth_ref [of kec] by (cases t) (auto simp: fold_max_less Suc_le_eq split: option.split)
qed

lemma decode_node:
  "length (encode_node kec t) \<le> usize_max \<Longrightarrow> rlp_decode (encode_node kec t) = Ok (node_rlp kec t)"
  using rlp_decode_iff depth_node by (simp add: encode_node_rlp)

section \<open>Proofs of a trie are accepted\<close>

definition own_part :: "(bytes \<Rightarrow> bytes) \<Rightarrow> mpt_node \<Rightarrow> bool \<Rightarrow> bytes list" where
  "own_part kec t r = (if r \<or> 32 \<le> length (encode_node kec t) then [encode_node kec t] else [])"

text \<open>\<open>es\<close> proves what the trie \<open>t\<close> holds at \<open>ns\<close>, to a walk that has reached \<open>t\<close>.\<close>

definition proves :: "(bytes \<Rightarrow> bytes) \<Rightarrow> mpt_node \<Rightarrow> bytes \<Rightarrow> bytes list \<Rightarrow> bool" where
  "proves kec t ns es \<longleftrightarrow>
     (\<forall>proof nib pos pi. ns = drop pos nib \<longrightarrow> pos \<le> length nib \<longrightarrow> drop pi proof = es \<longrightarrow>
        (\<forall>p \<in> set proof. length p \<le> usize_max) \<longrightarrow>
        mpt_walk kec nib proof (node_rlp kec t) pos pi = Ok (trie_get t ns))"

lemma node_rlp_list: "\<exists>items. node_rlp kec t = RList items"
  by (cases t) auto

lemma resolve_own:
  assumes "drop pi proof = own_part kec c False @ es" and "\<forall>p \<in> set proof. length p \<le> usize_max"
    and "\<And>x. length (kec x) = 32"
  shows "\<exists>pi'. resolve kec (ref_rlp kec (node_rlp kec c)) proof pi = Ok (Some (node_rlp kec c), pi') \<and> drop pi' proof = es"
proof (cases "length (encode_node kec c) < 32")
  case True
  then show ?thesis
    using assms(1) node_rlp_list [of kec c] by (auto simp: ref_rlp_def own_part_def encode_node_rlp)
next
  case False
  then have d: "drop pi proof = encode_node kec c # es" using assms(1) by (simp add: own_part_def)
  then have pi: "pi < length proof" "proof ! pi = encode_node kec c" "drop (Suc pi) proof = es"
    by (metis drop_eq_Nil2 linorder_not_less list.distinct(1), metis nth_via_drop, metis drop_Suc tl_drop list.sel(3))
  then have "length (encode_node kec c) \<le> usize_max" using assms(2) nth_mem by metis
  then have "rlp_decode (encode_node kec c) = Ok (node_rlp kec c)" by (rule decode_node)
  moreover have "kec (encode_node kec c) \<noteq> []" using assms(3) [of "encode_node kec c"] by auto
  ultimately show ?thesis using pi False assms(3) by (simp add: ref_rlp_def encode_node_rlp)
qed

lemma proves_follow:
  assumes "proves kec c (drop n ns) es" and "n \<le> length ns" and "\<And>x. length (kec x) = 32"
    and "\<And>nib pos. ns = drop pos nib \<Longrightarrow> pos \<le> length nib \<Longrightarrow>
           look nib (node_rlp kec t) pos = Follow (ref_rlp kec (node_rlp kec c)) (pos + n)"
    and "trie_get t ns = trie_get c (drop n ns)"
  shows "proves kec t ns (own_part kec c False @ es)"
  unfolding proves_def
proof (intro allI impI)
  fix "proof" nib pos pi
  assume ns: "ns = drop pos nib" and pos: "pos \<le> length nib" and d: "drop pi proof = own_part kec c False @ es"
    and len: "\<forall>p \<in> set proof. length p \<le> usize_max"
  obtain pi' where "resolve kec (ref_rlp kec (node_rlp kec c)) proof pi = Ok (Some (node_rlp kec c), pi')"
    and "drop pi' proof = es" using resolve_own [OF d len assms(3)] by blast
  moreover have "drop n ns = drop (pos + n) nib" "pos + n \<le> length nib" using ns assms(2) pos by (auto simp: add.commute)
  ultimately show "mpt_walk kec nib proof (node_rlp kec t) pos pi = Ok (trie_get t ns)"
    using assms(1) len assms(4) [OF ns pos] assms(5)
    by (simp add: mpt_walk_look [of kec nib "proof" "node_rlp kec t"] proves_def)
qed

lemma proves_stop:
  assumes "\<And>nib pos. ns = drop pos nib \<Longrightarrow> pos \<le> length nib \<Longrightarrow> look nib (node_rlp kec t) pos = Stop (Ok (trie_get t ns))"
  shows "proves kec t ns []"
  using assms by (simp add: proves_def mpt_walk_look [of kec _ _ "node_rlp kec t"])

lemma look_leaf:
  assumes "nibble_list p" and "pos \<le> length nib"
  shows "look nib (node_rlp kec (Leaf p v)) pos = Stop (Ok (trie_get (Leaf p v) (drop pos nib)))"
  using assms by (simp add: look_def hp_round_trip trie_get.simps [of "Leaf p v"])

lemma look_extension:
  assumes "nibble_list p" and "pos \<le> length nib"
  shows "look nib (node_rlp kec (Extension p c)) pos =
    (if length p \<le> length nib - pos \<and> take (length p) (drop pos nib) = p
     then Follow (ref_rlp kec (node_rlp kec c)) (pos + length p) else Stop (Ok None))"
  using assms by (auto simp: look_def hp_round_trip)

lemma look_branch:
  assumes "length cs = 16" and "nibble_list (drop pos nib)" and "pos < length nib"
  shows "look nib (node_rlp kec (Branch cs v)) pos =
    Follow (case cs ! unat (nib ! pos) of Some c \<Rightarrow> ref_rlp kec (node_rlp kec c) | None \<Rightarrow> RBytes []) (pos + 1)"
proof -
  have "unat (nib ! pos) < 16" using assms(2,3) by (metis Cons_nth_drop_Suc list.set_intros(1) nibble_list_def)
  then show ?thesis using assms by (auto simp: look_def nth_append split: option.split)
qed

lemma look_branch_end:
  assumes "length cs = 16" and "v \<noteq> Some []"
  shows "look nib (node_rlp kec (Branch cs v)) (length nib) = Stop (Ok v)"
  using assms by (cases v) (auto simp: look_def nth_append)

lemma prove_walk_complete:
  assumes "trie_ok t" and "nibble_list ns" and "\<And>x. length (kec x) = 32"
  shows "\<exists>es. (\<forall>r. prove_walk kec t ns r = Ok (own_part kec t r @ es)) \<and> proves kec t ns es"
  using assms(1,2)
proof (induction t arbitrary: ns rule: trie_ok.induct)
  case (leaf p v)
  then have "proves kec (Leaf p v) ns []" by (intro proves_stop) (simp add: look_leaf del: node_rlp.simps)
  then show ?case by (auto simp: prove_walk.simps [of kec "Leaf p v"] own_part_def)
next
  case (extension p c)
  note simps = prove_walk.simps [of kec "Extension p c"] trie_get.simps [of "Extension p c"] own_part_def [of kec "Extension p c"]
  show ?case
  proof (cases "length p \<le> length ns \<and> take (length p) ns = p")
    case True
    have "nibble_list (drop (length p) ns)" using extension.prems by (auto simp: nibble_list_def dest: in_set_dropD)
    then obtain es where es: "\<forall>r. prove_walk kec c (drop (length p) ns) r = Ok (own_part kec c r @ es)"
      "proves kec c (drop (length p) ns) es" using extension.IH by blast
    have "proves kec (Extension p c) ns (own_part kec c False @ es)"
      using True extension.hyps(1) by (intro proves_follow [OF es(2)] assms(3)) (auto simp: look_extension simps simp del: node_rlp.simps)
    then show ?thesis using True es(1) by (auto simp: simps)
  next
    case False
    then have "proves kec (Extension p c) ns []"
      using extension.hyps(1) by (intro proves_stop) (auto simp: look_extension simps simp del: node_rlp.simps)
    then show ?thesis using False by (auto simp: simps)
  qed
next
  case (branch cs v)
  note simps = prove_walk.simps [of kec "Branch cs v"] trie_get.simps [of "Branch cs v"] own_part_def [of kec "Branch cs v"]
  show ?case
  proof (cases ns)
    case Nil
    then have "proves kec (Branch cs v) ns []"
      using branch.hyps by (intro proves_stop) (auto simp: look_branch_end simps simp del: node_rlp.simps)
    then show ?thesis using Nil by (auto simp: simps)
  next
    case (Cons n ms)
    have n: "unat n < 16" "nibble_list ms" using branch.prems Cons by (auto simp: nibble_list_def)
    have at: "pos < length nib \<and> nib ! pos = n" if "ns = drop pos nib" "pos \<le> length nib" for pos nib
      using that Cons by (metis drop_eq_Nil le_neq_implies_less list.distinct(1) nth_via_drop order_refl)
    show ?thesis
    proof (cases "cs ! unat n")
      case None
      have "mpt_walk kec nib proof (node_rlp kec (Branch cs v)) pos pi = Ok None"
        if "ns = drop pos nib" "pos \<le> length nib" for nib pos pi "proof"
        using look_branch [of cs pos nib kec v] at [OF that] that branch.prems branch.hyps(1) None
        by (simp add: mpt_walk_look [of kec nib "proof" "node_rlp kec (Branch cs v)"] del: node_rlp.simps)
      moreover have "trie_get (Branch cs v) ns = None" using None Cons n branch.hyps(1) by (simp add: simps)
      ultimately have "proves kec (Branch cs v) ns []" by (auto simp: proves_def simp del: node_rlp.simps)
      then show ?thesis using None Cons n branch.hyps(1) by (auto simp: simps)
    next
      case (Some c)
      then have "Some c \<in> set cs" using n branch.hyps(1) by (metis nth_mem)
      then obtain es where es: "\<forall>r. prove_walk kec c ms r = Ok (own_part kec c r @ es)" "proves kec c ms es"
        using branch.IH n(2) by blast
      have "proves kec (Branch cs v) ns (own_part kec c False @ es)"
      proof (rule proves_follow [where n = 1])
        show "look nib (node_rlp kec (Branch cs v)) pos = Follow (ref_rlp kec (node_rlp kec c)) (pos + 1)"
          if "ns = drop pos nib" "pos \<le> length nib" for nib pos
          using look_branch [of cs pos nib kec v] at [OF that] that branch.prems branch.hyps(1) Some by simp
      qed (use es Cons Some n branch.hyps(1) assms(3) in \<open>auto simp: simps\<close>)
      then show ?thesis using Some es(1) Cons n branch.hyps(1) by (auto simp: simps)
    qed
  qed
qed

section \<open>A trie holds its entries\<close>

definition entries_ok :: "entries \<Rightarrow> bool" where
  "entries_ok es \<longleftrightarrow> distinct (map fst es) \<and> (\<forall>(k, v) \<in> set es. nibble_list k \<and> v \<noteq> [])"

lemma all_ok_Ok:
  assumes "\<And>r. r \<in> set rs \<Longrightarrow> \<exists>x. r = Ok x"
  shows "\<exists>xs. all_ok rs = Ok xs \<and> rs = map Ok xs"
  using assms
proof (induction rs)
  case (Cons r rs)
  then obtain x xs where "r = Ok x" "all_ok rs = Ok xs" "rs = map Ok xs" by force
  then show ?case by (auto intro!: exI [of _ "x # xs"])
qed simp

lemma common_prefix_shared:
  assumes "e \<in> set es"
  shows "common_prefix es \<le> length (fst e) \<and> take (common_prefix es) (fst e) = take (common_prefix es) (fst (es ! 0))"
proof -
  have "common_prefix_from first es cp \<le> length (fst e) \<and>
        take (common_prefix_from first es cp) (fst e) = take (common_prefix_from first es cp) first"
    if "cp \<le> length (fst e) \<and> take cp (fst e) = take cp first" for first cp
    using that assms
  proof (induction first es cp rule: common_prefix_from.induct)
    case (1 first es cp)
    show ?case
    proof (cases "cp < length first \<and> \<not> list_ex (\<lambda>e. cp \<ge> length (fst e) \<or> fst e ! cp \<noteq> first ! cp) es")
      case True
      then have "cp < length (fst e)" "fst e ! cp = first ! cp" using "1.prems"(2) by (auto simp: list_ex_iff not_le)
      then have "take (cp + 1) (fst e) = take (cp + 1) first" "cp + 1 \<le> length (fst e)"
        using "1.prems"(1) True by (simp_all add: take_Suc_conv_app_nth)
      then show ?thesis using True "1.IH" "1.prems"(2) by (subst (1 2 3) common_prefix_from.simps) simp
    next
      case False
      then have "common_prefix_from first es cp = cp" by (subst common_prefix_from.simps) auto
      then show ?thesis using "1.prems"(1) by simp
    qed
  qed
  then show ?thesis by (simp add: common_prefix_def)
qed

definition strip :: "nat \<Rightarrow> entries \<Rightarrow> entries" where
  "strip n es = map (\<lambda>(k, v). (drop n k, v)) es"

lemma strip_lookup:
  assumes "\<And>e. e \<in> set es \<Longrightarrow> length p \<le> length (fst e) \<and> take (length p) (fst e) = p"
  shows "map_of es ns = (if length p \<le> length ns \<and> take (length p) ns = p then map_of (strip (length p) es) (drop (length p) ns) else None)"
  using assms
proof (induction es)
  case (Cons e es)
  obtain k v where e: "e = (k, v)" by force
  have k: "length p \<le> length k" "take (length p) k = p" using Cons.prems [of e] e by auto
  have "k = ns \<longleftrightarrow> length p \<le> length ns \<and> take (length p) ns = p \<and> drop (length p) k = drop (length p) ns"
    using k by (metis append_take_drop_id)
  then show ?case using Cons e by (auto simp: strip_def)
qed (simp add: strip_def)

lemma strip_ok:
  assumes "entries_ok es" and "\<And>e. e \<in> set es \<Longrightarrow> n \<le> length (fst e) \<and> take n (fst e) = p"
  shows "entries_ok (strip n es)"
proof -
  have "k = p @ drop n k" if "k \<in> set (map fst es)" for k
    using assms(2) that by (auto simp: image_iff) (metis append_take_drop_id fst_conv)
  then have "inj_on (drop n) (set (map fst es))" by (intro inj_onI) metis
  then have "distinct (map (drop n) (map fst es))"
    using assms(1) by (subst distinct_map) (simp add: entries_ok_def)
  moreover have "map (drop n) (map fst es) = map fst (strip n es)" by (simp add: strip_def case_prod_beta)
  moreover have "\<forall>(k, v) \<in> set (strip n es). nibble_list k \<and> v \<noteq> []"
    using assms(1) by (fastforce simp: entries_ok_def strip_def nibble_list_def dest: in_set_dropD)
  ultimately show ?thesis by (simp add: entries_ok_def)
qed

definition group_of :: "entries \<Rightarrow> nat \<Rightarrow> entries" where
  "group_of es n = strip 1 (filter (\<lambda>e. fst e \<noteq> [] \<and> unat (fst e ! 0) = n) es)"

lemma fold_place:
  assumes "length groups = 16" and "\<And>e. e \<in> set es \<Longrightarrow> nibble_list (fst e)"
  shows "fst (fold place es (groups, w)) = map (\<lambda>n. groups ! n @ group_of es n) [0..<16] \<and>
    snd (fold place es (groups, w)) = (case map_of (rev es) [] of Some v \<Rightarrow> Some v | None \<Rightarrow> w)"
  using assms
proof (induction es arbitrary: groups w)
  case Nil
  then show ?case by (auto simp: group_of_def strip_def intro: nth_equalityI)
next
  case (Cons e es)
  obtain k v where e: "e = (k, v)" by force
  show ?case
  proof (cases k)
    case Nil
    then show ?thesis using Cons e
      by (auto simp: place_def group_of_def strip_def map_add_def split: option.split)
  next
    case k: (Cons n ms)
    have n: "unat n < 16" using Cons.prems(2) [of e] e k by (simp add: nibble_list_def)
    let ?g = "groups[unat n := groups ! unat n @ [(ms, v)]]"
    have "fst (fold place es (?g, w)) = map (\<lambda>m. ?g ! m @ group_of es m) [0..<16] \<and>
      snd (fold place es (?g, w)) = (case map_of (rev es) [] of Some v \<Rightarrow> Some v | None \<Rightarrow> w)"
      using Cons.prems by (intro Cons.IH) auto
    moreover have "?g ! m @ group_of es m = groups ! m @ group_of (e # es) m" if "m < 16" for m
      using n that Cons.prems(1) e k by (auto simp: group_of_def strip_def nth_list_update)
    ultimately show ?thesis using e k by (simp add: place_def map_add_def split: option.split)
  qed
qed

lemma grouped_eq:
  assumes "entries_ok es"
  shows "fst (grouped es) = map (group_of es) [0..<16]" and "snd (grouped es) = map_of es []"
proof -
  have "map_of (rev es) = map_of es" using assms by (subst map_of_inject_set) (auto simp: entries_ok_def rev_map [symmetric])
  moreover have nib: "nibble_list (fst e)" if "e \<in> set es" for e using assms that by (auto simp: entries_ok_def)
  ultimately show "fst (grouped es) = map (group_of es) [0..<16]" "snd (grouped es) = map_of es []"
    using fold_place [of "replicate 16 []" es None, OF _ nib]
    by (auto simp: grouped_def split: option.split)
qed

lemma group_of_lookup:
  assumes "unat n < 16"
  shows "map_of es (n # ms) = map_of (group_of es (unat n)) ms"
proof (induction es)
  case (Cons e es)
  obtain k v where "e = (k, v)" by force
  with Cons show ?case by (cases k) (auto simp: group_of_def strip_def word_unat_eq_iff)
qed (simp add: group_of_def strip_def)

lemma group_of_ok:
  assumes "entries_ok es"
  shows "entries_ok (group_of es n)"
  unfolding group_of_def
proof (rule strip_ok)
  show "entries_ok (filter (\<lambda>e. fst e \<noteq> [] \<and> unat (fst e ! 0) = n) es)"
    using assms by (auto simp: entries_ok_def distinct_map_filter)
  show "1 \<le> length (fst e) \<and> take 1 (fst e) = [word_of_nat n]"
    if "e \<in> set (filter (\<lambda>e. fst e \<noteq> [] \<and> unat (fst e ! 0) = n) es)" for e
    using that by (cases "fst e") auto
qed

text \<open>\<open>t\<close> is the trie of the entries \<open>es\<close>.\<close>

definition holds :: "entries \<Rightarrow> mpt_node \<Rightarrow> bool" where
  "holds es t \<longleftrightarrow> build es = Ok t \<and> trie_ok t \<and> (\<forall>ns. nibble_list ns \<longrightarrow> trie_get t ns = map_of es ns)"

lemma build_extension:
  assumes ok: "entries_ok es" "es \<noteq> []" "length es \<noteq> 1" and cp: "0 < common_prefix es"
    and t: "holds (strip (common_prefix es) es) t"
  shows "holds es (Extension (take (common_prefix es) (fst (es ! 0))) t)"
proof -
  define cp p where "cp = common_prefix es" and "p = take cp (fst (es ! 0))"
  have lp: "length p = cp" using common_prefix_le [of es] by (simp add: p_def cp_def)
  have pre: "cp \<le> length (fst e) \<and> take cp (fst e) = p" if "e \<in> set es" for e
    using common_prefix_shared [OF that] by (simp add: p_def cp_def)
  have "es ! 0 \<in> set es" using ok(2) by simp
  then have "nibble_list (fst (es ! 0))" using ok(1) by (auto simp: entries_ok_def)
  then have "nibble_list p" by (auto simp: p_def nibble_list_def dest: in_set_takeD)
  moreover have "trie_get (Extension p t) ns = map_of es ns" if "nibble_list ns" for ns
  proof -
    have "nibble_list (drop cp ns)" using that by (auto simp: nibble_list_def dest: in_set_dropD)
    then show ?thesis using t strip_lookup [of es p ns] pre
      by (simp add: trie_get.simps [of "Extension p t"] lp holds_def cp_def)
  qed
  moreover have "build es = Ok (Extension p t)"
    using t cp ok by (simp add: build.simps [of es] Let_def strip_def p_def cp_def holds_def)
  ultimately show ?thesis using t by (auto simp: holds_def p_def cp_def intro: trie_ok.extension)
qed

lemma first_nibble:
  assumes "entries_ok es"
  shows "\<not> list_ex (\<lambda>e. fst e \<noteq> [] \<and> unat (fst e ! 0) \<ge> 16) es"
proof -
  have "unat (fst e ! 0) < 16" if "e \<in> set es" "fst e \<noteq> []" for e
  proof -
    have "nibble_list (fst e)" using assms that(1) by (auto simp: entries_ok_def)
    then show ?thesis using that(2) by (simp add: nibble_list_def)
  qed
  then show ?thesis by (auto simp: list_ex_iff not_le)
qed

definition sub_build :: "entries \<Rightarrow> (mpt_error, mpt_node option) res" where
  "sub_build g = (if g = [] then Ok None else map_ok Some (build g))"

lemma sub_builds:
  assumes "entries_ok es" and "\<And>n. n < 16 \<Longrightarrow> group_of es n \<noteq> [] \<Longrightarrow> \<exists>t. holds (group_of es n) t"
  shows "\<exists>cs. all_ok (map sub_build (fst (grouped es))) = Ok cs \<and> length cs = 16 \<and>
    (\<forall>n < 16. case cs ! n of Some c \<Rightarrow> holds (group_of es n) c | None \<Rightarrow> group_of es n = [])"
proof -
  note ge = grouped_eq(1) [OF assms(1)]
  have "\<exists>x. r = Ok x" if "r \<in> set (map sub_build (fst (grouped es)))" for r
    using that assms(2) by (auto simp: ge sub_build_def holds_def) fastforce
  then obtain cs where cs: "all_ok (map sub_build (fst (grouped es))) = Ok cs" "map sub_build (fst (grouped es)) = map Ok cs"
    using all_ok_Ok by blast
  have len: "length cs = 16" using arg_cong [OF cs(2), of length] by (simp add: ge)
  have "sub_build (group_of es n) = Ok (cs ! n)" if "n < 16" for n
    using arg_cong [OF cs(2), of "\<lambda>l. l ! n"] that len by (simp add: ge)
  then have "case cs ! n of Some c \<Rightarrow> holds (group_of es n) c | None \<Rightarrow> group_of es n = []" if "n < 16" for n
    using that assms(2) [OF that] by (fastforce simp: sub_build_def holds_def split: option.split if_splits)
  with cs(1) len show ?thesis by blast
qed

lemma build_branch:
  assumes ok: "entries_ok es" "es \<noteq> []" "length es \<noteq> 1" and cp: "common_prefix es = 0"
    and cs: "all_ok (map sub_build (fst (grouped es))) = Ok cs" "length cs = 16"
      "\<forall>n < 16. case cs ! n of Some c \<Rightarrow> holds (group_of es n) c | None \<Rightarrow> group_of es n = []"
  shows "holds es (Branch cs (map_of es []))"
proof -
  let ?t = "Branch cs (map_of es [])"
  have "build es = Ok ?t"
    using ok first_nibble [OF ok(1)] cs(1) cp
    by (simp add: build.simps [of es] Let_def grouped_eq(2) [OF ok(1)] sub_build_def [abs_def])
  moreover have "trie_ok ?t"
  proof (rule trie_ok.branch [OF cs(2)])
    show "trie_ok c" if c: "Some c \<in> set cs" for c
    proof -
      obtain n where "n < 16" "cs ! n = Some c" using c cs(2) by (metis in_set_conv_nth)
      then show ?thesis using cs(3) by (auto simp: holds_def)
    qed
    show "map_of es [] \<noteq> Some []" using ok(1) by (auto simp: entries_ok_def dest: map_of_SomeD)
  qed
  moreover have "trie_get ?t ns = map_of es ns" if "nibble_list ns" for ns
  proof (cases ns)
    case (Cons n ms)
    then have n: "unat n < 16" "nibble_list ms" using that by (auto simp: nibble_list_def)
    then have "case cs ! unat n of Some c \<Rightarrow> holds (group_of es (unat n)) c | None \<Rightarrow> group_of es (unat n) = []"
      using cs(3) by simp
    then show ?thesis using Cons n cs(2) group_of_lookup [OF n(1), of es ms]
      by (cases "cs ! unat n") (auto simp: trie_get.simps [of ?t] holds_def)
  qed (simp add: trie_get.simps [of ?t])
  ultimately show ?thesis by (simp add: holds_def)
qed

lemma build_correct:
  assumes "entries_ok es" and "es \<noteq> []"
  shows "\<exists>t. holds es t"
  using assms
proof (induction es rule: build.induct)
  case (1 es)
  consider (one) "length es = 1" | (shared) "length es \<noteq> 1" "0 < common_prefix es"
    | (branch) "length es \<noteq> 1" "common_prefix es = 0" by auto
  then show ?case
  proof cases
    case one
    then obtain k v where "es = [(k, v)]" by (cases es) auto
    then have "holds es (Leaf k v)" using "1.prems"(1)
      by (auto simp: holds_def build.simps [of "[(k, v)]"] entries_ok_def trie_get.simps [of "Leaf k v"] intro: trie_ok.leaf)
    then show ?thesis ..
  next
    case shared
    have "entries_ok (strip (common_prefix es) es)"
      by (rule strip_ok [OF "1.prems"(1)]) (rule common_prefix_shared)
    then have "\<exists>t. holds (strip (common_prefix es) es) t"
      using "1.IH"(1) [OF shared(1) "1.prems"(2) refl shared(2)] "1.prems"(2) by (simp add: strip_def)
    then show ?thesis using build_extension [OF "1.prems" shared] by blast
  next
    case branch
    have "\<exists>t. holds (group_of es n) t" if "n < 16" "group_of es n \<noteq> []" for n
    proof -
      have "group_of es n \<in> set (fst (grouped es))" using that(1) by (simp add: grouped_eq(1) [OF "1.prems"(1)])
      then show ?thesis
        using "1.IH"(2) [OF branch(1) "1.prems"(2) refl _ first_nibble [OF "1.prems"(1)] _ that(2)] branch(2)
          group_of_ok [OF "1.prems"(1)] that(2) by simp
    qed
    then obtain cs where "all_ok (map sub_build (fst (grouped es))) = Ok cs" "length cs = 16"
      "\<forall>n < 16. case cs ! n of Some c \<Rightarrow> holds (group_of es n) c | None \<Rightarrow> group_of es n = []"
      using sub_builds [OF "1.prems"(1)] by blast
    then show ?thesis using build_branch [OF "1.prems" branch] by blast
  qed
qed

lemma honest_proof:
  assumes "holds es t" and "\<And>x. length (kec x) = 32"
  shows "\<exists>honest. prove kec t key = Ok honest \<and>
    ((\<forall>p \<in> set honest. length p \<le> usize_max) \<longrightarrow>
       verify_proof kec (root_hash kec t) key honest = Ok (map_of es (to_nibbles key)))"
proof -
  have t: "trie_ok t" "trie_get t (to_nibbles key) = map_of es (to_nibbles key)"
    using assms(1) to_nibbles_ok by (auto simp: holds_def)
  obtain es' where es': "prove_walk kec t (to_nibbles key) True = Ok (encode_node kec t # es')" "proves kec t (to_nibbles key) es'"
    using prove_walk_complete [where kec = kec, OF t(1) to_nibbles_ok [of key] assms(2)] by (auto simp: own_part_def)
  let ?h = "encode_node kec t # es'"
  have "verify_proof kec (root_hash kec t) key ?h = Ok (map_of es (to_nibbles key))"
    if len: "\<forall>p \<in> set ?h. length p \<le> usize_max"
  proof -
    have "mpt_walk kec (to_nibbles key) ?h (node_rlp kec t) 0 1 = Ok (trie_get t (to_nibbles key))"
      using es'(2) len by (simp add: proves_def)
    then show ?thesis using decode_node [of kec t] len t(2) by (simp add: verify_proof_def root_hash_def)
  qed
  then show ?thesis using es'(1) by (auto simp: prove_def)
qed

text \<open>C37: A trie is a faithful commitment to its entries. For entries with distinct keys and non-empty
  values a trie is built and a proof for each key made; the verifier accepts this proof against the root hash
  with the value of the key in the entries, or with none when the key has no entry. A proof accepted with
  another value shows two strings with the same hash, one in either proof. No proof makes the verifier panic.\<close>

theorem mpt_commitment:
  assumes "entries_ok es" and "es \<noteq> []" and "\<And>x. length (kec x) = 32"
  shows "\<exists>t honest. build es = Ok t \<and> prove kec t key = Ok honest \<and>
    ((\<forall>p \<in> set honest. length p \<le> usize_max) \<longrightarrow>
       verify_proof kec (root_hash kec t) key honest = Ok (map_of es (to_nibbles key)) \<and>
       (\<forall>proof r. verify_proof kec (root_hash kec t) key proof = Ok r \<longrightarrow>
          r = map_of es (to_nibbles key) \<or> collides kec (set proof) (set honest))) \<and>
    (\<forall>proof. verify_proof kec (root_hash kec t) key proof \<noteq> Panic)"
proof -
  obtain t where t: "holds es t" using build_correct assms(1,2) by blast
  obtain honest where h: "prove kec t key = Ok honest"
    "(\<forall>p \<in> set honest. length p \<le> usize_max) \<longrightarrow> verify_proof kec (root_hash kec t) key honest = Ok (map_of es (to_nibbles key))"
    using honest_proof [where kec = kec and key = key, OF t assms(3)] by blast
  have "build es = Ok t" using t by (simp add: holds_def)
  moreover have "r = map_of es (to_nibbles key) \<or> collides kec (set proof) (set honest)"
    if "\<forall>p \<in> set honest. length p \<le> usize_max" "verify_proof kec (root_hash kec t) key proof = Ok r" for "proof" r
    using verify_proof_agree [OF that(2)] h(2) that(1) by blast
  ultimately show ?thesis using h verify_proof_not_Panic by blast
qed

definition sample_kec :: "bytes \<Rightarrow> bytes" where
  "sample_kec bs = take 32 (bs @ replicate 32 0)"

definition sample_entries :: entries where
  "sample_entries = [([0, 1], [7]), ([0, 2], [8, 9])]"

definition sample_trie :: mpt_node where
  "sample_trie = Extension [0] (Branch
     [None, Some (Leaf [] [7]), Some (Leaf [] [8, 9]), None, None, None, None, None,
      None, None, None, None, None, None, None, None] None)"

lemma sample_build: "build sample_entries = Ok sample_trie"
  by code_simp

definition sample_honest :: "bytes list" where
  "sample_honest = [encode_node sample_kec sample_trie]"

lemma sample_prove: "prove sample_kec sample_trie [0x01] = Ok sample_honest"
  by code_simp

lemma sample_honest_short: "\<forall>p \<in> set sample_honest. length p \<le> usize_max"
proof -
  have "list_all (\<lambda>p. length p \<le> 40) sample_honest" by code_simp
  then show ?thesis by (auto simp: list_all_iff)
qed

theorem mpt_commitment_witness:
  "verify_proof sample_kec (root_hash sample_kec sample_trie) [0x01] sample_honest = Ok (Some [7])"
proof -
  have "entries_ok sample_entries" "sample_entries \<noteq> []" "map_of sample_entries (to_nibbles [0x01]) = Some [7]"
    by (simp_all add: entries_ok_def sample_entries_def nibble_list_def to_nibbles_def)
  moreover have "length (sample_kec x) = 32" for x by (simp add: sample_kec_def)
  ultimately show ?thesis
    using mpt_commitment [of sample_entries sample_kec "[0x01]"] sample_build sample_prove sample_honest_short by auto
qed

end
