(* ===== verification/Eth_Beacon.thy ===== *)
theory Eth_Beacon
  imports Eth_Mpt Btc_Header
begin

text \<open>
  \<^verbatim>\<open>crates/qlc-ethereum/src/ssz.rs\<close>, \<^verbatim>\<open>beacon.rs\<close> and \<^verbatim>\<open>config.rs\<close>: the Merkle trees of the beacon chain, its
  headers, sync committees and signing roots, and the parameters of the supported chains. A branch at a fixed
  index binds its leaf: two leaves with branches to the same root are equal, or the hash collides on strings
  that the two branches hash. The same holds of headers with the same root.

  The SHA-256 digest is the argument \<open>sha\<close>.
\<close>

section \<open>Merkle trees\<close>

definition zero_chunk :: bytes where "zero_chunk = replicate 32 0"

definition hash_pair :: "(bytes \<Rightarrow> bytes) \<Rightarrow> bytes \<Rightarrow> bytes \<Rightarrow> bytes" where
  "hash_pair sha left right = sha (left @ right)"

definition uint64_root :: "u64 \<Rightarrow> bytes" where
  "uint64_root v = to_le_bytes v @ replicate 24 0"

text \<open>\<open>while p < n { p <<= 1; }\<close>, from a positive \<open>p\<close>.\<close>

function double_until :: "usize \<Rightarrow> usize \<Rightarrow> usize" where
  "double_until p n = (if 0 < p \<and> p < n then double_until (2 * p) n else p)"
  by pat_completeness auto
termination by (relation "measure (\<lambda>(p, n). n - p)") auto

declare double_until.simps [simp del]

definition next_power_of_two :: "usize \<Rightarrow> usize" where
  "next_power_of_two n = double_until 1 n"

definition merkle_pairs :: "(bytes \<Rightarrow> bytes) \<Rightarrow> bytes list \<Rightarrow> bytes list" where
  "merkle_pairs sha level = map (\<lambda>pair. hash_pair sha (pair ! 0) (pair ! 1)) (chunks_exact 2 level)"

lemma length_merkle_pairs: "length (merkle_pairs sha level) = length level div 2"
  by (simp add: merkle_pairs_def length_chunks_exact)

function merkle_up :: "(bytes \<Rightarrow> bytes) \<Rightarrow> bytes list \<Rightarrow> bytes" where
  "merkle_up sha level = (if length level > 1 then merkle_up sha (merkle_pairs sha level) else level ! 0)"
  by pat_completeness auto
termination by (relation "measure (\<lambda>(sha, level). length level)") (auto simp: length_merkle_pairs)

declare merkle_up.simps [simp del]

definition merkleize :: "(bytes \<Rightarrow> bytes) \<Rightarrow> bytes list \<Rightarrow> bytes" where
  "merkleize sha chunks =
     (if chunks = [] then zero_chunk
      else let width = next_power_of_two (length chunks)
           in merkle_up sha (chunks @ replicate (width - length chunks) zero_chunk))"

definition bytes48_root :: "(bytes \<Rightarrow> bytes) \<Rightarrow> bytes \<Rightarrow> bytes" where
  "bytes48_root sha pubkey = hash_pair sha (take 32 pubkey) (drop 32 pubkey @ replicate 16 0)"

definition branch_bit :: "u64 \<Rightarrow> usize \<Rightarrow> bool" where
  "branch_bit index i \<longleftrightarrow> i < 64 \<and> drop_bit i index AND 1 = 1"

text \<open>The loop over the siblings of a branch, from the sibling \<open>i\<close>.\<close>

fun branch_walk :: "(bytes \<Rightarrow> bytes) \<Rightarrow> u64 \<Rightarrow> usize \<Rightarrow> bytes \<Rightarrow> bytes list \<Rightarrow> bytes" where
  "branch_walk sha index i v [] = v"
| "branch_walk sha index i v (sibling # branch) =
     branch_walk sha index (i + 1)
       (if branch_bit index i then hash_pair sha sibling v else hash_pair sha v sibling) branch"

definition is_valid_merkle_branch :: "(bytes \<Rightarrow> bytes) \<Rightarrow> bytes \<Rightarrow> bytes list \<Rightarrow> usize \<Rightarrow> u64 \<Rightarrow> bytes \<Rightarrow> bool" where
  "is_valid_merkle_branch sha leaf branch depth index root =
     (if length branch \<noteq> depth then False else branch_walk sha index 0 leaf branch = root)"

definition merkle_root_from_branch :: "(bytes \<Rightarrow> bytes) \<Rightarrow> bytes \<Rightarrow> bytes list \<Rightarrow> u64 \<Rightarrow> bytes" where
  "merkle_root_from_branch sha leaf branch index = branch_walk sha index 0 leaf branch"

section \<open>The beacon chain\<close>

definition DOMAIN_SYNC_COMMITTEE :: bytes where "DOMAIN_SYNC_COMMITTEE = [7, 0, 0, 0]"
definition FINALIZED_ROOT_DEPTH :: usize where "FINALIZED_ROOT_DEPTH = 6"
definition FINALIZED_ROOT_INDEX :: u64 where "FINALIZED_ROOT_INDEX = 105"
definition NEXT_SYNC_COMMITTEE_DEPTH :: usize where "NEXT_SYNC_COMMITTEE_DEPTH = 5"
definition NEXT_SYNC_COMMITTEE_INDEX :: u64 where "NEXT_SYNC_COMMITTEE_INDEX = 55"
definition CURRENT_SYNC_COMMITTEE_DEPTH :: usize where "CURRENT_SYNC_COMMITTEE_DEPTH = 5"
definition CURRENT_SYNC_COMMITTEE_INDEX :: u64 where "CURRENT_SYNC_COMMITTEE_INDEX = 54"
definition EXECUTION_RECEIPTS_DEPTH :: usize where "EXECUTION_RECEIPTS_DEPTH = 9"
definition EXECUTION_RECEIPTS_INDEX :: u64 where "EXECUTION_RECEIPTS_INDEX = 803"
definition EXECUTION_BLOCK_NUMBER_INDEX :: u64 where "EXECUTION_BLOCK_NUMBER_INDEX = 806"
definition FINALIZED_ROOT_GINDEX_ELECTRA :: u64 where "FINALIZED_ROOT_GINDEX_ELECTRA = 169"
definition FINALIZED_ROOT_DEPTH_ELECTRA :: usize where "FINALIZED_ROOT_DEPTH_ELECTRA = 7"
definition NEXT_SYNC_COMMITTEE_GINDEX_ELECTRA :: u64 where "NEXT_SYNC_COMMITTEE_GINDEX_ELECTRA = 87"
definition NEXT_SYNC_COMMITTEE_DEPTH_ELECTRA :: usize where "NEXT_SYNC_COMMITTEE_DEPTH_ELECTRA = 6"
definition CURRENT_SYNC_COMMITTEE_GINDEX_ELECTRA :: u64 where "CURRENT_SYNC_COMMITTEE_GINDEX_ELECTRA = 86"
definition CURRENT_SYNC_COMMITTEE_DEPTH_ELECTRA :: usize where "CURRENT_SYNC_COMMITTEE_DEPTH_ELECTRA = 6"
definition SLOTS_PER_HISTORICAL_ROOT :: u64 where "SLOTS_PER_HISTORICAL_ROOT = 8192"
definition BLOCK_ROOTS_FIELD :: u64 where "BLOCK_ROOTS_FIELD = 5"
definition BLOCK_ROOTS_DEPTH :: usize where "BLOCK_ROOTS_DEPTH = 13"

definition block_root_layout :: "bool \<Rightarrow> u64 \<Rightarrow> u64 \<times> usize" where
  "block_root_layout electra slot =
     (let state_depth = (if electra then 6 else 5);
          field = push_bit state_depth 1 + BLOCK_ROOTS_FIELD
      in (field * SLOTS_PER_HISTORICAL_ROOT + slot mod SLOTS_PER_HISTORICAL_ROOT, state_depth + BLOCK_ROOTS_DEPTH))"

definition finalized_root_layout :: "bool \<Rightarrow> u64 \<times> usize" where
  "finalized_root_layout electra =
     (if electra then (FINALIZED_ROOT_GINDEX_ELECTRA, FINALIZED_ROOT_DEPTH_ELECTRA)
      else (FINALIZED_ROOT_INDEX, FINALIZED_ROOT_DEPTH))"

definition next_sync_committee_layout :: "bool \<Rightarrow> u64 \<times> usize" where
  "next_sync_committee_layout electra =
     (if electra then (NEXT_SYNC_COMMITTEE_GINDEX_ELECTRA, NEXT_SYNC_COMMITTEE_DEPTH_ELECTRA)
      else (NEXT_SYNC_COMMITTEE_INDEX, NEXT_SYNC_COMMITTEE_DEPTH))"

definition current_sync_committee_layout :: "bool \<Rightarrow> u64 \<times> usize" where
  "current_sync_committee_layout electra =
     (if electra then (CURRENT_SYNC_COMMITTEE_GINDEX_ELECTRA, CURRENT_SYNC_COMMITTEE_DEPTH_ELECTRA)
      else (CURRENT_SYNC_COMMITTEE_INDEX, CURRENT_SYNC_COMMITTEE_DEPTH))"

record beacon_header =
  bh_slot :: u64
  bh_proposer_index :: u64
  bh_parent_root :: bytes
  bh_state_root :: bytes
  bh_body_root :: bytes

definition header_root :: "(bytes \<Rightarrow> bytes) \<Rightarrow> beacon_header \<Rightarrow> bytes" where
  "header_root sha h =
     merkleize sha [uint64_root (bh_slot h), uint64_root (bh_proposer_index h), bh_parent_root h,
       bh_state_root h, bh_body_root h]"

record sync_committee =
  sc_pubkeys :: "bytes list"
  sc_aggregate_pubkey :: bytes

definition committee_root :: "(bytes \<Rightarrow> bytes) \<Rightarrow> sync_committee \<Rightarrow> bytes" where
  "committee_root sha c =
     (let leaves = map (bytes48_root sha) (sc_pubkeys c);
          pubkeys_root = merkleize sha leaves;
          aggregate_root = bytes48_root sha (sc_aggregate_pubkey c)
      in hash_pair sha pubkeys_root aggregate_root)"

record sync_aggregate =
  sa_participation :: "bool list"
  sa_signature :: bytes

definition participants :: "sync_aggregate \<Rightarrow> usize" where
  "participants a = length (filter (\<lambda>b. b) (sa_participation a))"

definition participating_pubkeys :: "sync_committee \<Rightarrow> sync_aggregate \<Rightarrow> bytes list" where
  "participating_pubkeys committee aggregate =
     concat (map (\<lambda>(i, present).
         if present then (if i < length (sc_pubkeys committee) then [sc_pubkeys committee ! i] else []) else [])
       (enumerate 0 (sa_participation aggregate)))"

definition compute_fork_data_root :: "(bytes \<Rightarrow> bytes) \<Rightarrow> bytes \<Rightarrow> bytes \<Rightarrow> bytes" where
  "compute_fork_data_root sha fork_version genesis_validators_root =
     hash_pair sha (fork_version @ replicate 28 0) genesis_validators_root"

definition compute_domain :: "(bytes \<Rightarrow> bytes) \<Rightarrow> bytes \<Rightarrow> bytes \<Rightarrow> bytes \<Rightarrow> bytes" where
  "compute_domain sha domain_type fork_version genesis_validators_root =
     domain_type @ take 28 (compute_fork_data_root sha fork_version genesis_validators_root)"

definition compute_signing_root :: "(bytes \<Rightarrow> bytes) \<Rightarrow> bytes \<Rightarrow> bytes \<Rightarrow> bytes" where
  "compute_signing_root sha object_root domain = hash_pair sha object_root domain"

section \<open>Chains\<close>

record fork =
  fk_epoch :: u64
  fk_version :: bytes

datatype consensus_kind = BeaconSyncCommittee | SettlesToEthereum | ForeignConsensus

record evm_chain_config =
  ec_chain_id :: u64
  ec_corridor_id :: u32
  ec_name :: string
  ec_consensus :: consensus_kind
  ec_genesis_validators_root :: bytes
  ec_forks :: "fork list"
  ec_sync_committee_size :: usize
  ec_slots_per_epoch :: u64
  ec_epochs_per_sync_committee_period :: u64
  ec_finality_depth :: u32
  ec_deposit_contract :: bytes
  ec_max_deposit_base_units :: u128
  ec_electra_epoch :: "u64 option"

text \<open>Division by zero and an overflowing product panic.\<close>

definition epoch_at_slot :: "evm_chain_config \<Rightarrow> u64 \<Rightarrow> ('e, u64) res" where
  "epoch_at_slot cfg slot = (if ec_slots_per_epoch cfg = 0 then Panic else Ok (slot div ec_slots_per_epoch cfg))"

definition is_electra_at_slot :: "evm_chain_config \<Rightarrow> u64 \<Rightarrow> ('e, bool) res" where
  "is_electra_at_slot cfg slot =
     (case ec_electra_epoch cfg of
        Some epoch \<Rightarrow> map_ok (\<lambda>e. e \<ge> epoch) (epoch_at_slot cfg slot)
      | None \<Rightarrow> Ok False)"

definition sync_committee_period :: "evm_chain_config \<Rightarrow> u64 \<Rightarrow> ('e, u64) res" where
  "sync_committee_period cfg slot =
     (if unat (ec_slots_per_epoch cfg) * unat (ec_epochs_per_sync_committee_period cfg) \<ge> 2 ^ 64 then Panic
      else let period_slots = ec_slots_per_epoch cfg * ec_epochs_per_sync_committee_period cfg
           in if period_slots = 0 then Panic else Ok (slot div period_slots))"

definition fork_version_at_epoch :: "evm_chain_config \<Rightarrow> u64 \<Rightarrow> ('e, bytes) res" where
  "fork_version_at_epoch cfg epoch =
     (if ec_forks cfg = [] then Panic
      else Ok (fold (\<lambda>fork chosen. if fk_epoch fork \<le> epoch then fk_version fork else chosen)
                 (ec_forks cfg) (fk_version (ec_forks cfg ! 0))))"

definition fork_version_at_slot :: "evm_chain_config \<Rightarrow> u64 \<Rightarrow> ('e, bytes) res" where
  "fork_version_at_slot cfg slot = and_then (epoch_at_slot cfg slot) (fork_version_at_epoch cfg)"

definition supermajority_threshold :: "evm_chain_config \<Rightarrow> usize" where
  "supermajority_threshold cfg = ec_sync_committee_size cfg * 2 div 3 + 1"

definition verifies_beacon_sync_committee :: "evm_chain_config \<Rightarrow> bool" where
  "verifies_beacon_sync_committee cfg \<longleftrightarrow> ec_consensus cfg = BeaconSyncCommittee"

definition MAINNET_ELECTRA_EPOCH :: u64 where "MAINNET_ELECTRA_EPOCH = 364032"
definition MAINNET_FULU_EPOCH :: u64 where "MAINNET_FULU_EPOCH = 411392"

definition beacon_forks :: "fork list" where
  "beacon_forks =
     [\<lparr>fk_epoch = 0, fk_version = [0, 0, 0, 0]\<rparr>,
      \<lparr>fk_epoch = 74240, fk_version = [1, 0, 0, 0]\<rparr>,
      \<lparr>fk_epoch = 144896, fk_version = [2, 0, 0, 0]\<rparr>,
      \<lparr>fk_epoch = 194048, fk_version = [3, 0, 0, 0]\<rparr>,
      \<lparr>fk_epoch = 269568, fk_version = [4, 0, 0, 0]\<rparr>,
      \<lparr>fk_epoch = MAINNET_ELECTRA_EPOCH, fk_version = [5, 0, 0, 0]\<rparr>,
      \<lparr>fk_epoch = MAINNET_FULU_EPOCH, fk_version = [6, 0, 0, 0]\<rparr>]"

definition no_forks :: "fork list" where
  "no_forks = [\<lparr>fk_epoch = 0, fk_version = [0, 0, 0, 0]\<rparr>]"

definition preset_ethereum :: evm_chain_config where
  "preset_ethereum = \<lparr>ec_chain_id = 1, ec_corridor_id = 2, ec_name = ''Ethereum'', ec_consensus = BeaconSyncCommittee,
     ec_genesis_validators_root =
       [0x4b, 0x36, 0x3d, 0xb9, 0x4e, 0x28, 0x61, 0x20, 0xd7, 0x6e, 0xb9, 0x05, 0x34, 0x0f, 0xdd, 0x4e,
        0x54, 0xbf, 0xe9, 0xf0, 0x6b, 0xf3, 0x3f, 0xf6, 0xcf, 0x5a, 0xd2, 0x7f, 0x51, 0x1b, 0xfe, 0x95],
     ec_forks = beacon_forks, ec_sync_committee_size = 512, ec_slots_per_epoch = 32,
     ec_epochs_per_sync_committee_period = 256, ec_finality_depth = 64, ec_deposit_contract = replicate 20 0x11,
     ec_max_deposit_base_units = 1000000000000000000000000, ec_electra_epoch = Some MAINNET_ELECTRA_EPOCH\<rparr>"

definition preset_bnb_chain :: evm_chain_config where
  "preset_bnb_chain = \<lparr>ec_chain_id = 56, ec_corridor_id = 3, ec_name = ''BNB Smart Chain'', ec_consensus = ForeignConsensus,
     ec_genesis_validators_root = replicate 32 0, ec_forks = no_forks, ec_sync_committee_size = 512,
     ec_slots_per_epoch = 32, ec_epochs_per_sync_committee_period = 256, ec_finality_depth = 15,
     ec_deposit_contract = replicate 20 0x22, ec_max_deposit_base_units = 1000000000000000000000000, ec_electra_epoch = None\<rparr>"

definition preset_polygon :: evm_chain_config where
  "preset_polygon = \<lparr>ec_chain_id = 137, ec_corridor_id = 4, ec_name = ''Polygon'', ec_consensus = ForeignConsensus,
     ec_genesis_validators_root = replicate 32 0, ec_forks = no_forks, ec_sync_committee_size = 512,
     ec_slots_per_epoch = 32, ec_epochs_per_sync_committee_period = 256, ec_finality_depth = 128,
     ec_deposit_contract = replicate 20 0x33, ec_max_deposit_base_units = 1000000000000000000000000, ec_electra_epoch = None\<rparr>"

definition preset_avalanche :: evm_chain_config where
  "preset_avalanche = \<lparr>ec_chain_id = 43114, ec_corridor_id = 5, ec_name = ''Avalanche'', ec_consensus = ForeignConsensus,
     ec_genesis_validators_root = replicate 32 0, ec_forks = no_forks, ec_sync_committee_size = 512,
     ec_slots_per_epoch = 32, ec_epochs_per_sync_committee_period = 256, ec_finality_depth = 1,
     ec_deposit_contract = replicate 20 0x44, ec_max_deposit_base_units = 1000000000000000000000000, ec_electra_epoch = None\<rparr>"

definition preset_arbitrum :: evm_chain_config where
  "preset_arbitrum = \<lparr>ec_chain_id = 42161, ec_corridor_id = 6, ec_name = ''Arbitrum'', ec_consensus = SettlesToEthereum,
     ec_genesis_validators_root = ec_genesis_validators_root preset_ethereum, ec_forks = beacon_forks,
     ec_sync_committee_size = 512, ec_slots_per_epoch = 32, ec_epochs_per_sync_committee_period = 256,
     ec_finality_depth = 64, ec_deposit_contract = replicate 20 0x55,
     ec_max_deposit_base_units = 1000000000000000000000000, ec_electra_epoch = Some MAINNET_ELECTRA_EPOCH\<rparr>"

definition preset_optimism :: evm_chain_config where
  "preset_optimism = \<lparr>ec_chain_id = 10, ec_corridor_id = 7, ec_name = ''Optimism'', ec_consensus = SettlesToEthereum,
     ec_genesis_validators_root = ec_genesis_validators_root preset_ethereum, ec_forks = beacon_forks,
     ec_sync_committee_size = 512, ec_slots_per_epoch = 32, ec_epochs_per_sync_committee_period = 256,
     ec_finality_depth = 64, ec_deposit_contract = replicate 20 0x66,
     ec_max_deposit_base_units = 1000000000000000000000000, ec_electra_epoch = Some MAINNET_ELECTRA_EPOCH\<rparr>"

definition preset_base :: evm_chain_config where
  "preset_base = \<lparr>ec_chain_id = 8453, ec_corridor_id = 8, ec_name = ''Base'', ec_consensus = SettlesToEthereum,
     ec_genesis_validators_root = ec_genesis_validators_root preset_ethereum, ec_forks = beacon_forks,
     ec_sync_committee_size = 512, ec_slots_per_epoch = 32, ec_epochs_per_sync_committee_period = 256,
     ec_finality_depth = 64, ec_deposit_contract = replicate 20 0x77,
     ec_max_deposit_base_units = 1000000000000000000000000, ec_electra_epoch = Some MAINNET_ELECTRA_EPOCH\<rparr>"

definition preset_robinhood_chain :: evm_chain_config where
  "preset_robinhood_chain = \<lparr>ec_chain_id = 0, ec_corridor_id = 33, ec_name = ''Robinhood Chain'', ec_consensus = SettlesToEthereum,
     ec_genesis_validators_root = ec_genesis_validators_root preset_ethereum, ec_forks = beacon_forks,
     ec_sync_committee_size = 512, ec_slots_per_epoch = 32, ec_epochs_per_sync_committee_period = 256,
     ec_finality_depth = 64, ec_deposit_contract = replicate 20 0x88,
     ec_max_deposit_base_units = 1000000000000000000000000, ec_electra_epoch = Some MAINNET_ELECTRA_EPOCH\<rparr>"

definition all_presets :: "evm_chain_config list" where
  "all_presets =
     [preset_ethereum, preset_bnb_chain, preset_polygon, preset_avalanche, preset_arbitrum, preset_optimism,
      preset_base, preset_robinhood_chain]"

section \<open>Binding\<close>

text \<open>The strings hashed along a branch.\<close>

definition pair_string :: "u64 \<Rightarrow> usize \<Rightarrow> bytes \<Rightarrow> bytes \<Rightarrow> bytes" where
  "pair_string index i v sibling = (if branch_bit index i then sibling @ v else v @ sibling)"

fun ssz_inputs :: "(bytes \<Rightarrow> bytes) \<Rightarrow> u64 \<Rightarrow> usize \<Rightarrow> bytes \<Rightarrow> bytes list \<Rightarrow> bytes set" where
  "ssz_inputs sha index i v [] = {}"
| "ssz_inputs sha index i v (s # ss) =
     insert (pair_string index i v s) (ssz_inputs sha index (i + 1) (sha (pair_string index i v s)) ss)"

lemma branch_walk_Cons: "branch_walk sha index i v (s # ss) = branch_walk sha index (i + 1) (sha (pair_string index i v s)) ss"
  by (simp add: pair_string_def hash_pair_def)

lemma branch_walk_binds:
  assumes "\<And>x. length (sha x) = 32"
  shows "branch_walk sha index i v ss = branch_walk sha index i w ts \<Longrightarrow> length ss = length ts \<Longrightarrow>
    length v = 32 \<Longrightarrow> length w = 32 \<Longrightarrow> \<forall>s \<in> set ss \<union> set ts. length s = 32 \<Longrightarrow>
    \<not> collides sha (ssz_inputs sha index i v ss) (ssz_inputs sha index i w ts) \<Longrightarrow> v = w"
proof (induction ss arbitrary: i v w ts)
  case (Cons s ss)
  obtain t ts' where ts: "ts = t # ts'" using Cons.prems(2) by (cases ts) auto
  let ?a = "pair_string index i v s" and ?b = "pair_string index i w t"
  have nc: "\<not> collides sha (ssz_inputs sha index (i + 1) (sha ?a) ss) (ssz_inputs sha index (i + 1) (sha ?b) ts')"
    using Cons.prems(6) collides_mono ts by (metis ssz_inputs.simps(2) subset_insertI)
  have "?a \<in> ssz_inputs sha index i v (s # ss)" "?b \<in> ssz_inputs sha index i w ts" using ts by simp_all
  then have ab: "sha ?a = sha ?b \<Longrightarrow> ?a = ?b" using Cons.prems(6) unfolding collides_def by blast
  have "branch_walk sha index (i + 1) (sha ?a) ss = branch_walk sha index (i + 1) (sha ?b) ts'"
    using Cons.prems(1) unfolding ts branch_walk_Cons .
  moreover have "length ss = length ts'" "\<forall>s \<in> set ss \<union> set ts'. length s = 32" using Cons.prems ts by auto
  ultimately have "sha ?a = sha ?b" by (rule Cons.IH [OF _ _ assms assms _ nc])
  then have "?a = ?b" by (rule ab)
  then show ?case using Cons.prems ts by (auto simp: pair_string_def split: if_splits)
qed simp

lemma valid_branch_binds:
  assumes "is_valid_merkle_branch sha v ss depth index root" and "is_valid_merkle_branch sha w ts depth index root"
    and "\<And>x. length (sha x) = 32" and "length v = 32" and "length w = 32" and "\<forall>s \<in> set ss \<union> set ts. length s = 32"
    and "\<not> collides sha (ssz_inputs sha index 0 v ss) (ssz_inputs sha index 0 w ts)"
  shows "v = w"
  using assms(1,2) by (intro branch_walk_binds [OF assms(3) _ _ assms(4-7)]) (auto simp: is_valid_merkle_branch_def split: if_splits)

text \<open>The tree of a header, written out.\<close>

definition header_strings :: "(bytes \<Rightarrow> bytes) \<Rightarrow> beacon_header \<Rightarrow> bytes list" where
  "header_strings sha h =
     (let a = uint64_root (bh_slot h) @ uint64_root (bh_proposer_index h);
          b = bh_parent_root h @ bh_state_root h;
          c = bh_body_root h @ zero_chunk;
          z = zero_chunk @ zero_chunk
      in [a, b, c, z, sha a @ sha b, sha c @ sha z, sha (sha a @ sha b) @ sha (sha c @ sha z)])"

lemma length_header_strings: "length (header_strings sha h) = 7"
  by (simp add: header_strings_def Let_def)

lemma header_root_strings: "header_root sha h = sha (header_strings sha h ! 6)"
  by (simp add: header_root_def merkleize_def next_power_of_two_def double_until.simps merkle_up.simps merkle_pairs_def
      chunks_exact.simps hash_pair_def header_strings_def Let_def numeral_eq_Suc)

definition header_wf_eth :: "beacon_header \<Rightarrow> bool" where
  "header_wf_eth h \<longleftrightarrow> length (bh_parent_root h) = 32 \<and> length (bh_state_root h) = 32 \<and> length (bh_body_root h) = 32"

lemma to_le_bytes_inj:
  assumes "to_le_bytes v = to_le_bytes (w :: 'l::len word)" and "8 dvd LENGTH('l)"
  shows "v = w"
  using arg_cong [OF assms(1), of "from_le_bytes :: bytes \<Rightarrow> 'l word"] assms(2) by (simp add: from_to_le_bytes)

lemma uint64_root_inj: "uint64_root v = uint64_root w \<Longrightarrow> v = w"
  by (rule to_le_bytes_inj) (simp_all add: uint64_root_def)

lemma length_uint64_root [simp]: "length (uint64_root v) = 32"
  by (simp add: uint64_root_def)

lemma header_root_binds:
  assumes "header_root sha g = header_root sha h" and "header_wf_eth g" and "header_wf_eth h"
    and "\<And>x. length (sha x) = 32"
    and "\<not> collides sha (set (header_strings sha g)) (set (header_strings sha h))"
  shows "g = h"
proof -
  have nc: "sha (header_strings sha g ! i) = sha (header_strings sha h ! i) \<Longrightarrow> header_strings sha g ! i = header_strings sha h ! i"
    if "i < 7" for i
  proof -
    have "header_strings sha g ! i \<in> set (header_strings sha g)" "header_strings sha h ! i \<in> set (header_strings sha h)"
      using that length_header_strings by (metis nth_mem)+
    then show "sha (header_strings sha g ! i) = sha (header_strings sha h ! i) \<Longrightarrow> header_strings sha g ! i = header_strings sha h ! i"
      using assms(5) unfolding collides_def by blast
  qed
  have "header_strings sha g ! 6 = header_strings sha h ! 6" using nc [of 6] assms(1) by (simp add: header_root_strings)
  then have "sha (header_strings sha g ! 4) = sha (header_strings sha h ! 4)" "sha (header_strings sha g ! 5) = sha (header_strings sha h ! 5)"
    using assms(4) by (auto simp: header_strings_def Let_def)
  then have "header_strings sha g ! 4 = header_strings sha h ! 4" "header_strings sha g ! 5 = header_strings sha h ! 5"
    using nc by simp_all
  then have "sha (header_strings sha g ! i) = sha (header_strings sha h ! i)" if "i < 3" for i
    using assms(4) that by (auto simp: header_strings_def Let_def less_Suc_eq numeral_3_eq_3)
  then have "header_strings sha g ! i = header_strings sha h ! i" if "i < 3" for i
    using nc [of i] that by simp
  from this [of 0] this [of 1] this [of 2] show ?thesis
    using assms(2,3) by (auto simp: header_strings_def Let_def header_wf_eth_def dest: uint64_root_inj intro: beacon_header.equality)
qed

end
