(* ===== verification/Eth_Engine.thy ===== *)
theory Eth_Engine
  imports Eth_Beacon Eth_Receipt Runs Trustless_Mint
begin

text \<open>
  \<^verbatim>\<open>crates/qlc-ethereum/src/engine.rs\<close> and \<^verbatim>\<open>witness.rs\<close>: the sync-committee light client. A store follows the
  sync committees from a checkpoint; a deposit is proven by a header that a committee of the store signed, a
  finalised header in its state, a block below that header, the receipts root in the block's body, the receipt
  in the trie below that root and the log in the receipt.

  Arguments: \<open>sha\<close> and \<open>kec\<close> are the digests, \<open>bls\<close> is the aggregate verifier that the caller passes, \<open>tu\<close> says
  whether the build has the feature \<^verbatim>\<open>test-util\<close>, and \<open>stark_lib\<close> holds the functions of the external crate
  \<^verbatim>\<open>qlc_stark\<close> that make a proof statement.
\<close>

section \<open>Data\<close>

datatype eth_error =
    NotBeaconChain
  | InvalidParticipationLength usize usize
  | InsufficientParticipation usize usize
  | WrongPeriod
  | StaleStore u64 u64
  | BootstrapPeriodMismatch u64 u64
  | InconsistentSlots u64 u64
  | BadFinalityProof
  | BadAncestry
  | BadExecutionProof
  | BadSyncCommitteeProof
  | UntrustedCheckpoint
  | UnpinnedChainConfig
  | EthBadSignature
  | EthMissingReceipt
  | EthCapExceeded u128 u128
  | UnconfiguredDepositContract
  | UpdateChangesNothing
  | EthReceipt receipt_error
  | EthMpt mpt_error

record execution_commit =
  xc_receipts_root :: bytes
  xc_block_number :: u64
  xc_execution_branch :: "bytes list"
  xc_block_number_branch :: "bytes list"

record light_client_update =
  lu_attested_header :: beacon_header
  lu_finalized_header :: beacon_header
  lu_finality_branch :: "bytes list"
  lu_sync_aggregate :: sync_aggregate
  lu_signature_slot :: u64
  lu_execution :: execution_commit

record sync_committee_update =
  su_attested_header :: beacon_header
  su_finalized_header :: beacon_header
  su_finality_branch :: "bytes list"
  su_next_sync_committee :: sync_committee
  su_next_sync_committee_branch :: "bytes list"
  su_sync_aggregate :: sync_aggregate
  su_signature_slot :: u64

record deposit_proof =
  dp_receipt_index :: u64
  dp_log_index :: u32
  dp_receipt_proof :: "bytes list"
  dp_ancestry :: "beacon_header list"
  dp_historical_branch :: "bytes list"

definition MAX_DEPOSIT_ANCESTRY :: usize where "MAX_DEPOSIT_ANCESTRY = 64"

definition deposit_block :: "deposit_proof \<Rightarrow> beacon_header \<Rightarrow> beacon_header" where
  "deposit_block d finalized = (if dp_ancestry d = [] then finalized else last (dp_ancestry d))"

record core_deposit =
  kd_anchor :: bytes
  kd_source_ref :: bytes
  kd_raw :: raw_deposit
  kd_block_number :: u64

record light_client_store =
  ls_config :: evm_chain_config
  ls_period :: u64
  ls_current :: sync_committee
  ls_next :: "sync_committee option"
  ls_finalized :: beacon_header

section \<open>Bootstrap\<close>

definition PINNED_BLOCK_ROOTS :: "(u64 \<times> bytes) list" where "PINNED_BLOCK_ROOTS = []"

definition root_is_pinned :: "bool \<Rightarrow> u64 \<Rightarrow> bytes \<Rightarrow> bool" where
  "root_is_pinned tu chain_id root \<longleftrightarrow>
     tu \<or> list_ex (\<lambda>(chain, pinned). chain = chain_id \<and> pinned = root) PINNED_BLOCK_ROOTS"

definition consensus_is_pinned :: "bool \<Rightarrow> evm_chain_config \<Rightarrow> bool" where
  "consensus_is_pinned tu cfg \<longleftrightarrow>
     tu \<or> list_ex (\<lambda>preset.
       ec_chain_id preset = ec_chain_id cfg \<and>
       ec_corridor_id preset = ec_corridor_id cfg \<and>
       ec_consensus preset = ec_consensus cfg \<and>
       ec_genesis_validators_root preset = ec_genesis_validators_root cfg \<and>
       ec_forks preset = ec_forks cfg \<and>
       ec_sync_committee_size preset = ec_sync_committee_size cfg \<and>
       ec_slots_per_epoch preset = ec_slots_per_epoch cfg \<and>
       ec_epochs_per_sync_committee_period preset = ec_epochs_per_sync_committee_period cfg \<and>
       ec_electra_epoch preset = ec_electra_epoch cfg \<and>
       ec_finality_depth cfg \<ge> ec_finality_depth preset) all_presets"

definition bootstrap ::
  "(bytes \<Rightarrow> bytes) \<Rightarrow> bool \<Rightarrow> evm_chain_config \<Rightarrow> u64 \<Rightarrow> bytes \<Rightarrow> beacon_header \<Rightarrow> sync_committee \<Rightarrow> bytes list \<Rightarrow>
   (eth_error, light_client_store) res" where
  "bootstrap sha tu cfg period trusted_block_root checkpoint committee branch =
     (if \<not> verifies_beacon_sync_committee cfg then Err NotBeaconChain
      else if \<not> consensus_is_pinned tu cfg then Err UnpinnedChainConfig
      else if \<not> root_is_pinned tu (ec_chain_id cfg) trusted_block_root \<or> header_root sha checkpoint \<noteq> trusted_block_root
      then Err UntrustedCheckpoint
      else
        and_then (sync_committee_period cfg (bh_slot checkpoint)) (\<lambda>p.
        if period \<noteq> p then Err (BootstrapPeriodMismatch period (bh_slot checkpoint))
        else
          and_then (is_electra_at_slot cfg (bh_slot checkpoint)) (\<lambda>electra.
          let (index, depth) = current_sync_committee_layout electra;
              leaf = committee_root sha committee
          in if \<not> is_valid_merkle_branch sha leaf branch depth index (bh_state_root checkpoint)
             then Err BadSyncCommitteeProof
             else Ok \<lparr>ls_config = cfg, ls_period = period, ls_current = committee, ls_next = None,
                      ls_finalized = checkpoint\<rparr>)))"

section \<open>Checks of an update\<close>

definition reach :: "light_client_store \<Rightarrow> u64" where
  "reach s = (if ls_next s \<noteq> None then sat_add (ls_period s) 1 else ls_period s)"

definition slots_are_consistent :: "light_client_store \<Rightarrow> u64 \<Rightarrow> u64 \<Rightarrow> u64 \<Rightarrow> (eth_error, unit) res" where
  "slots_are_consistent s signature_slot attested_slot finalized_slot =
     (if signature_slot \<le> attested_slot \<or> attested_slot < finalized_slot
      then Err (InconsistentSlots signature_slot attested_slot)
      else
        and_then (sync_committee_period (ls_config s) signature_slot) (\<lambda>signature_period.
        and_then (sync_committee_period (ls_config s) attested_slot) (\<lambda>attested_period.
        if signature_period \<noteq> attested_period then Err (InconsistentSlots signature_slot attested_slot)
        else if attested_period > reach s then Err (StaleStore (ls_period s) attested_period)
        else Ok ())))"

definition select_committee :: "light_client_store \<Rightarrow> u64 \<Rightarrow> (eth_error, sync_committee) res" where
  "select_committee s signature_slot =
     and_then (sync_committee_period (ls_config s) signature_slot) (\<lambda>signature_period.
       if signature_period = ls_period s then Ok (ls_current s)
       else if signature_period = sat_add (ls_period s) 1 then ok_or WrongPeriod (ls_next s)
       else Err WrongPeriod)"

text \<open>The product in \<open>supermajority_threshold\<close> cannot overflow here: the size is the length of two vectors.\<close>

definition check_participation ::
  "light_client_store \<Rightarrow> sync_aggregate \<Rightarrow> u64 \<Rightarrow> (eth_error, sync_committee) res" where
  "check_participation s agg signature_slot =
     and_then (select_committee s signature_slot) (\<lambda>committee.
       let expected = ec_sync_committee_size (ls_config s)
       in if length (sc_pubkeys committee) \<noteq> expected \<or> length (sa_participation agg) \<noteq> expected
          then Err (InvalidParticipationLength (length (sa_participation agg)) expected)
          else let needed = supermajority_threshold (ls_config s)
               in if participants agg < needed then Err (InsufficientParticipation (participants agg) needed)
                  else Ok committee)"

type_synonym bls_verifier = "bytes list \<Rightarrow> bytes \<Rightarrow> bytes \<Rightarrow> bool"

definition verify_sync_aggregate ::
  "(bytes \<Rightarrow> bytes) \<Rightarrow> bls_verifier \<Rightarrow> light_client_store \<Rightarrow> sync_committee \<Rightarrow> beacon_header \<Rightarrow> sync_aggregate \<Rightarrow> u64 \<Rightarrow>
   (eth_error, unit) res" where
  "verify_sync_aggregate sha bls s committee attested agg signature_slot =
     and_then (fork_version_at_slot (ls_config s) (sat_sub signature_slot 1)) (\<lambda>fork_version.
       let domain = compute_domain sha DOMAIN_SYNC_COMMITTEE fork_version (ec_genesis_validators_root (ls_config s));
           signing_root = compute_signing_root sha (header_root sha attested) domain;
           pubkeys = participating_pubkeys committee agg
       in if \<not> bls pubkeys signing_root (sa_signature agg) then Err EthBadSignature else Ok ())"

definition verify_finality ::
  "(bytes \<Rightarrow> bytes) \<Rightarrow> light_client_update \<Rightarrow> bool \<Rightarrow> (eth_error, unit) res" where
  "verify_finality sha u electra =
     (let (index, depth) = finalized_root_layout electra;
          leaf = header_root sha (lu_finalized_header u)
      in if \<not> is_valid_merkle_branch sha leaf (lu_finality_branch u) depth index (bh_state_root (lu_attested_header u))
         then Err BadFinalityProof else Ok ())"

fun ancestry_loop ::
  "(bytes \<Rightarrow> bytes) \<Rightarrow> beacon_header \<Rightarrow> beacon_header list \<Rightarrow> (eth_error, beacon_header) res" where
  "ancestry_loop sha child [] = Ok child"
| "ancestry_loop sha child (parent # ancestry) =
     (if header_root sha parent \<noteq> bh_parent_root child \<or> bh_slot parent \<ge> bh_slot child then Err BadAncestry
      else ancestry_loop sha parent ancestry)"

definition verify_ancestry ::
  "(bytes \<Rightarrow> bytes) \<Rightarrow> beacon_header \<Rightarrow> beacon_header list \<Rightarrow> (eth_error, beacon_header) res" where
  "verify_ancestry sha finalized ancestry =
     (if length ancestry > MAX_DEPOSIT_ANCESTRY then Err BadAncestry else ancestry_loop sha finalized ancestry)"

definition verify_historical ::
  "(bytes \<Rightarrow> bytes) \<Rightarrow> light_client_store \<Rightarrow> beacon_header \<Rightarrow> beacon_header list \<Rightarrow> bytes list \<Rightarrow>
   (eth_error, beacon_header) res" where
  "verify_historical sha s finalized ancestry branch =
     (case ancestry of
        [block] \<Rightarrow>
          if bh_slot block \<ge> bh_slot finalized \<or> bh_slot finalized - bh_slot block \<ge> SLOTS_PER_HISTORICAL_ROOT
          then Err BadAncestry
          else
            and_then (is_electra_at_slot (ls_config s) (bh_slot finalized)) (\<lambda>electra.
            let (index, depth) = block_root_layout electra (bh_slot block)
            in if \<not> is_valid_merkle_branch sha (header_root sha block) branch depth index (bh_state_root finalized)
               then Err BadAncestry else Ok block)
      | _ \<Rightarrow> Err BadAncestry)"

definition verify_execution ::
  "(bytes \<Rightarrow> bytes) \<Rightarrow> execution_commit \<Rightarrow> beacon_header \<Rightarrow> (eth_error, unit) res" where
  "verify_execution sha x block =
     (if \<not> is_valid_merkle_branch sha (xc_receipts_root x) (xc_execution_branch x)
             EXECUTION_RECEIPTS_DEPTH EXECUTION_RECEIPTS_INDEX (bh_body_root block) \<or>
         \<not> is_valid_merkle_branch sha (uint64_root (xc_block_number x)) (xc_block_number_branch x)
             EXECUTION_RECEIPTS_DEPTH EXECUTION_BLOCK_NUMBER_INDEX (bh_body_root block)
      then Err BadExecutionProof else Ok ())"

definition ref_string :: "bytes \<Rightarrow> bytes \<Rightarrow> u32 \<Rightarrow> bytes" where
  "ref_string anchor key log_index = anchor @ key @ to_le_bytes log_index"

definition deposit_source_ref :: "(bytes \<Rightarrow> bytes) \<Rightarrow> bytes \<Rightarrow> bytes \<Rightarrow> u32 \<Rightarrow> bytes" where
  "deposit_source_ref kec anchor key log_index = kec (ref_string anchor key log_index)"

section \<open>Deposits\<close>

definition verify_deposit_core ::
  "(bytes \<Rightarrow> bytes) \<Rightarrow> (bytes \<Rightarrow> bytes) \<Rightarrow> bls_verifier \<Rightarrow> light_client_store \<Rightarrow> light_client_update \<Rightarrow> deposit_proof \<Rightarrow>
   (eth_error, core_deposit) res" where
  "verify_deposit_core sha kec bls s u d =
     (if \<not> verifies_beacon_sync_committee (ls_config s) then Err NotBeaconChain
      else
        and_then (slots_are_consistent s (lu_signature_slot u) (bh_slot (lu_attested_header u)) (bh_slot (lu_finalized_header u))) (\<lambda>_.
        and_then (check_participation s (lu_sync_aggregate u) (lu_signature_slot u)) (\<lambda>committee.
        and_then (is_electra_at_slot (ls_config s) (bh_slot (lu_attested_header u))) (\<lambda>electra.
        and_then (verify_finality sha u electra) (\<lambda>_.
        and_then (if dp_historical_branch d = [] then verify_ancestry sha (lu_finalized_header u) (dp_ancestry d)
                  else verify_historical sha s (lu_finalized_header u) (dp_ancestry d) (dp_historical_branch d)) (\<lambda>block.
        and_then (verify_execution sha (lu_execution u) block) (\<lambda>_.
        and_then (encode_uint (dp_receipt_index d)) (\<lambda>key.
        and_then (map_err EthMpt (verify_proof kec (xc_receipts_root (lu_execution u)) key (dp_receipt_proof d))) (\<lambda>found.
        and_then (ok_or EthMissingReceipt found) (\<lambda>receipt.
        let contract = ec_deposit_contract (ls_config s)
        in if list_all (\<lambda>b. b = contract ! 0) contract then Err UnconfiguredDepositContract
           else
             and_then (map_err EthReceipt (extract_deposit_at kec receipt contract (dp_log_index d))) (\<lambda>raw.
             if raw_amount raw > ec_max_deposit_base_units (ls_config s)
             then Err (EthCapExceeded (raw_amount raw) (ec_max_deposit_base_units (ls_config s)))
             else
               and_then (verify_sync_aggregate sha bls s committee (lu_attested_header u) (lu_sync_aggregate u) (lu_signature_slot u)) (\<lambda>_.
               let anchor = header_root sha block
               in Ok \<lparr>kd_anchor = anchor, kd_source_ref = deposit_source_ref kec anchor key (raw_log_index raw),
                      kd_raw = raw, kd_block_number = xc_block_number (lu_execution u)\<rparr>))))))))))))"

definition eth_trustless_deposit ::
  "(bytes \<Rightarrow> bytes) \<Rightarrow> (bytes \<Rightarrow> bytes) \<Rightarrow> bls_verifier \<Rightarrow> light_client_store \<Rightarrow> light_client_update \<Rightarrow> deposit_proof \<Rightarrow>
   (eth_error, ethereum_deposit) res" where
  "eth_trustless_deposit sha kec bls s u d =
     map_ok (\<lambda>core. \<lparr>ed_source_ref = kd_source_ref core, ed_amount = raw_amount (kd_raw core),
        ed_recipient = raw_recipient (kd_raw core), ed_asset_id = raw_asset_id (kd_raw core),
        ed_block_number = kd_block_number core, ed_finality_depth = ec_finality_depth (ls_config s)\<rparr>)
       (verify_deposit_core sha kec bls s u d)"

record event_claim =
  ev_source_ref :: bytes
  ev_asset_id :: bytes
  ev_amount :: u128
  ev_recipient :: bytes

text \<open>The functions of \<^verbatim>\<open>qlc_stark\<close> that the crate calls, on its statements \<open>'st\<close> and nonces \<open>'n\<close>.\<close>

record ('st, 'n) stark_lib =
  sl_dest_chain_id :: u64
  sl_nonce :: "bytes \<Rightarrow> 'n"
  sl_evm_light_client :: "u32 \<Rightarrow> u64 \<Rightarrow> 'n \<Rightarrow> bytes \<Rightarrow> event_claim \<Rightarrow> u32 \<Rightarrow> 'st"
  sl_encode :: "'st \<Rightarrow> bytes"
  sl_shake :: "bytes \<Rightarrow> bytes"

definition verify_deposit_update ::
  "(bytes \<Rightarrow> bytes) \<Rightarrow> (bytes \<Rightarrow> bytes) \<Rightarrow> bls_verifier \<Rightarrow> ('st, 'n) stark_lib \<Rightarrow> light_client_store \<Rightarrow> light_client_update \<Rightarrow>
   deposit_proof \<Rightarrow> (eth_error, 'st) res" where
  "verify_deposit_update sha kec bls lib s u d =
     map_ok (\<lambda>core.
       let event = \<lparr>ev_source_ref = kd_source_ref core, ev_asset_id = raw_asset_id (kd_raw core),
                     ev_amount = raw_amount (kd_raw core), ev_recipient = raw_recipient (kd_raw core)\<rparr>
       in sl_evm_light_client lib (ec_corridor_id (ls_config s)) (sl_dest_chain_id lib) (sl_nonce lib (kd_source_ref core))
            (kd_anchor core) event (ec_finality_depth (ls_config s)))
       (verify_deposit_core sha kec bls s u d)"

definition eth_public_input_digest :: "('st, 'n) stark_lib \<Rightarrow> 'st \<Rightarrow> bytes" where
  "eth_public_input_digest lib statement = sl_shake lib (sl_encode lib statement)"

record verified_event =
  ve_source_chain :: u32
  ve_source_ref :: bytes
  ve_asset_id :: bytes
  ve_amount :: u128
  ve_recipient :: bytes
  ve_height :: u64
  ve_confirmations :: u32

definition to_verified_event :: "evm_chain_config \<Rightarrow> u64 \<Rightarrow> bytes \<Rightarrow> raw_deposit \<Rightarrow> verified_event" where
  "to_verified_event cfg block_number source_ref raw =
     \<lparr>ve_source_chain = ec_corridor_id cfg, ve_source_ref = source_ref, ve_asset_id = raw_asset_id raw,
      ve_amount = raw_amount raw, ve_recipient = raw_recipient raw, ve_height = block_number,
      ve_confirmations = ec_finality_depth cfg\<rparr>"

record ethereum_checked_facts =
  cf_attested_header_root :: bytes
  cf_receipts_root :: bytes
  cf_participants :: u32

definition facts_encode :: "ethereum_checked_facts \<Rightarrow> bytes" where
  "facts_encode f = cf_attested_header_root f @ cf_receipts_root f @ to_le_bytes (cf_participants f)"

record 'st prove_ready_witness =
  rw_statement :: 'st
  rw_public_input_digest :: bytes
  rw_facts :: ethereum_checked_facts

definition witness_encode :: "('st, 'n) stark_lib \<Rightarrow> 'st prove_ready_witness \<Rightarrow> bytes" where
  "witness_encode lib w = sl_encode lib (rw_statement w) @ facts_encode (rw_facts w)"

definition digest_of :: "('st, 'n) stark_lib \<Rightarrow> 'st \<Rightarrow> ethereum_checked_facts \<Rightarrow> bytes" where
  "digest_of lib statement facts = sl_shake lib (sl_encode lib statement @ facts_encode facts)"

definition make_prove_ready_witness ::
  "(bytes \<Rightarrow> bytes) \<Rightarrow> (bytes \<Rightarrow> bytes) \<Rightarrow> bls_verifier \<Rightarrow> ('st, 'n) stark_lib \<Rightarrow> light_client_store \<Rightarrow> light_client_update \<Rightarrow>
   deposit_proof \<Rightarrow> (eth_error, 'st prove_ready_witness) res" where
  "make_prove_ready_witness sha kec bls lib s u d =
     map_ok (\<lambda>statement.
       let facts = \<lparr>cf_attested_header_root = header_root sha (lu_attested_header u),
                     cf_receipts_root = xc_receipts_root (lu_execution u),
                     cf_participants = word_of_nat (participants (lu_sync_aggregate u))\<rparr>
       in \<lparr>rw_statement = statement, rw_public_input_digest = digest_of lib statement facts, rw_facts = facts\<rparr>)
       (verify_deposit_update sha kec bls lib s u d)"

section \<open>Following the committees\<close>

definition structural_sync_committee_update ::
  "(bytes \<Rightarrow> bytes) \<Rightarrow> light_client_store \<Rightarrow> sync_committee_update \<Rightarrow> (eth_error, sync_committee) res" where
  "structural_sync_committee_update sha s u =
     (if \<not> verifies_beacon_sync_committee (ls_config s) then Err NotBeaconChain
      else
        and_then (slots_are_consistent s (su_signature_slot u) (bh_slot (su_attested_header u)) (bh_slot (su_finalized_header u))) (\<lambda>_.
        and_then (sync_committee_period (ls_config s) (bh_slot (su_attested_header u))) (\<lambda>attested_period.
        if attested_period < ls_period s \<or> attested_period > reach s then Err WrongPeriod
        else
          and_then (check_participation s (su_sync_aggregate u) (su_signature_slot u)) (\<lambda>committee.
          and_then (is_electra_at_slot (ls_config s) (bh_slot (su_attested_header u))) (\<lambda>electra.
          let (fin_index, fin_depth) = finalized_root_layout electra
          in if \<not> is_valid_merkle_branch sha (header_root sha (su_finalized_header u)) (su_finality_branch u)
                    fin_depth fin_index (bh_state_root (su_attested_header u))
             then Err BadFinalityProof
             else
               and_then (sync_committee_period (ls_config s) (bh_slot (su_finalized_header u))) (\<lambda>finalized_period.
               if finalized_period < ls_period s \<or> finalized_period > attested_period then Err WrongPeriod
               else
                 let (index, depth) = next_sync_committee_layout electra;
                     leaf = committee_root sha (su_next_sync_committee u)
                 in if \<not> is_valid_merkle_branch sha leaf (su_next_sync_committee_branch u) depth index
                           (bh_state_root (su_attested_header u))
                    then Err BadSyncCommitteeProof
                    else Ok committee))))))"

definition precheck_sync_committee_update ::
  "(bytes \<Rightarrow> bytes) \<Rightarrow> light_client_store \<Rightarrow> sync_committee_update \<Rightarrow> (eth_error, unit) res" where
  "precheck_sync_committee_update sha s u =
     (if ls_next s \<noteq> None \<and> bh_slot (su_finalized_header u) \<le> bh_slot (ls_finalized s) then Err UpdateChangesNothing
      else map_ok (\<lambda>_. ()) (structural_sync_committee_update sha s u))"

definition apply_sync_committee_update ::
  "(bytes \<Rightarrow> bytes) \<Rightarrow> bls_verifier \<Rightarrow> sync_committee_update \<Rightarrow> light_client_store \<Rightarrow>
   light_client_store \<times> (eth_error, unit) res" where
  "apply_sync_committee_update sha bls u s =
     and_then_st (structural_sync_committee_update sha s u) s (\<lambda>committee.
     and_then_st (verify_sync_aggregate sha bls s committee (su_attested_header u) (su_sync_aggregate u) (su_signature_slot u)) s (\<lambda>_.
     and_then_st (sync_committee_period (ls_config s) (bh_slot (su_attested_header u))) s (\<lambda>attested_period.
     let s1 = (if attested_period = ls_period s then s\<lparr>ls_next := Some (su_next_sync_committee u)\<rparr> else s);
         s2 = (if bh_slot (su_finalized_header u) > bh_slot (ls_finalized s1)
               then s1\<lparr>ls_finalized := su_finalized_header u\<rparr> else s1)
     in (s2, Ok ()))))"

definition advance_period :: "light_client_store \<Rightarrow> light_client_store \<times> (eth_error, unit) res" where
  "advance_period s =
     and_then_st (sync_committee_period (ls_config s) (bh_slot (ls_finalized s))) s (\<lambda>p.
       if p \<le> ls_period s then (s, Err WrongPeriod)
       else case ls_next s of
              Some c \<Rightarrow>
                if ls_period s = - 1 then (s\<lparr>ls_next := None, ls_current := c\<rparr>, Panic)
                else (s\<lparr>ls_next := None, ls_current := c, ls_period := ls_period s + 1\<rparr>, Ok ())
            | None \<Rightarrow> (s, Err WrongPeriod))"

lemma advance_uses_next:
  assumes "advance_period s = (s', Ok ())"
  shows "ls_next s \<noteq> None \<and> ls_next s' = None"
  using assms by (auto simp: advance_period_def and_then_st_Ok_iff split: if_splits option.splits)

text \<open>\<open>while advance_period(&mut next).is_ok() {}\<close>: an advance uses up the next committee.\<close>

function advance_while :: "light_client_store \<Rightarrow> light_client_store \<times> (eth_error, unit) res" where
  "advance_while s =
     (case advance_period s of
        (s', Ok _) \<Rightarrow> advance_while s'
      | (s', Err e) \<Rightarrow> (s', Ok ())
      | (s', Panic) \<Rightarrow> (s', Panic))"
  by pat_completeness auto
termination by (relation "measure (\<lambda>s. if ls_next s = None then 0 else 1)") (auto dest!: advance_uses_next [OF sym])

declare advance_while.simps [simp del]

definition rotate_sync_committee ::
  "(bytes \<Rightarrow> bytes) \<Rightarrow> bls_verifier \<Rightarrow> sync_committee_update \<Rightarrow> light_client_store \<Rightarrow>
   light_client_store \<times> (eth_error, u64) res" where
  "rotate_sync_committee sha bls u s =
     (let (s1, r1) = apply_sync_committee_update sha bls u s
      in and_then_st r1 s (\<lambda>_.
         and_then_st (sync_committee_period (ls_config s1) (bh_slot (su_attested_header u))) s (\<lambda>attested_period.
         let (s2, r2) = advance_while s1
         in and_then_st r2 s (\<lambda>_.
            let s3 = (if attested_period = ls_period s2 \<and> ls_next s2 = None
                      then s2\<lparr>ls_next := Some (su_next_sync_committee u)\<rparr> else s2)
            in (s3, Ok (ls_period s3))))))"

end
