(* ===== verification/Eth_Light.thy ===== *)
theory Eth_Light
  imports Eth_Engine
begin

text \<open>
  The Ethereum light client as a state machine: any sequence of updates, rotations, advances and prechecks from
  a bootstrapped store. A committee is \<^emph>\<open>trusted\<close> for a period when it is the committee of the checkpoint, or
  when a trusted committee of the period before signed a header whose state names it as the next one. The
  store holds only trusted committees, each for its own period, and never moves back.
\<close>

section \<open>Calls\<close>

datatype light_call =
    Apply sync_committee_update
  | Rotate sync_committee_update
  | Advance
  | Precheck sync_committee_update

fun eth_call ::
  "(bytes \<Rightarrow> bytes) \<Rightarrow> bls_verifier \<Rightarrow> light_call \<Rightarrow> light_client_store \<Rightarrow>
   light_client_store \<times> (eth_error, unit list) res" where
  "eth_call sha bls (Apply u) s = (let (s', r) = apply_sync_committee_update sha bls u s in (s', map_ok (\<lambda>_. []) r))"
| "eth_call sha bls (Rotate u) s = (let (s', r) = rotate_sync_committee sha bls u s in (s', map_ok (\<lambda>_. []) r))"
| "eth_call sha bls Advance s = (let (s', r) = advance_period s in (s', map_ok (\<lambda>_. []) r))"
| "eth_call sha bls (Precheck u) s = (s, map_ok (\<lambda>_. []) (precheck_sync_committee_update sha s u))"

section \<open>Trust\<close>

text \<open>More than two thirds of the committee signed the header.\<close>

definition signed_by ::
  "(bytes \<Rightarrow> bytes) \<Rightarrow> bls_verifier \<Rightarrow> evm_chain_config \<Rightarrow> sync_committee \<Rightarrow> beacon_header \<Rightarrow> sync_aggregate \<Rightarrow> u64 \<Rightarrow> bool" where
  "signed_by sha bls cfg c h agg slot \<longleftrightarrow>
     length (sc_pubkeys c) = ec_sync_committee_size cfg \<and>
     length (sa_participation agg) = ec_sync_committee_size cfg \<and>
     length (participating_pubkeys c agg) = participants agg \<and>
     2 * ec_sync_committee_size cfg < 3 * participants agg \<and>
     (\<exists>fork. fork_version_at_slot cfg (sat_sub slot 1) = (Ok fork :: (eth_error, bytes) res) \<and>
        bls (participating_pubkeys c agg)
          (compute_signing_root sha (header_root sha h)
             (compute_domain sha DOMAIN_SYNC_COMMITTEE fork (ec_genesis_validators_root cfg)))
          (sa_signature agg))"

definition period_is :: "evm_chain_config \<Rightarrow> u64 \<Rightarrow> u64 \<Rightarrow> bool" where
  "period_is cfg slot p \<longleftrightarrow> sync_committee_period cfg slot = (Ok p :: (eth_error, u64) res)"

text \<open>The committee \<open>c\<close> of the period \<open>k\<close> hands over to the next committee of the update.\<close>

definition hands_over ::
  "(bytes \<Rightarrow> bytes) \<Rightarrow> bls_verifier \<Rightarrow> evm_chain_config \<Rightarrow> sync_committee \<Rightarrow> nat \<Rightarrow> sync_committee_update \<Rightarrow> bool" where
  "hands_over sha bls cfg c k u \<longleftrightarrow>
     (\<exists>p electra. unat p = k \<and> period_is cfg (su_signature_slot u) p \<and> period_is cfg (bh_slot (su_attested_header u)) p \<and>
        bh_slot (su_attested_header u) < su_signature_slot u \<and>
        signed_by sha bls cfg c (su_attested_header u) (su_sync_aggregate u) (su_signature_slot u) \<and>
        is_electra_at_slot cfg (bh_slot (su_attested_header u)) = (Ok electra :: (eth_error, bool) res) \<and>
        is_valid_merkle_branch sha (committee_root sha (su_next_sync_committee u)) (su_next_sync_committee_branch u)
          (snd (next_sync_committee_layout electra)) (fst (next_sync_committee_layout electra))
          (bh_state_root (su_attested_header u)))"

inductive trusted ::
  "(bytes \<Rightarrow> bytes) \<Rightarrow> bls_verifier \<Rightarrow> evm_chain_config \<Rightarrow> sync_committee \<Rightarrow> nat \<Rightarrow> sync_committee \<Rightarrow> nat \<Rightarrow> bool"
  for sha bls cfg c0 p0 where
  checkpoint: "trusted sha bls cfg c0 p0 c0 p0"
| handover: "trusted sha bls cfg c0 p0 c k \<Longrightarrow> hands_over sha bls cfg c k u \<Longrightarrow>
    trusted sha bls cfg c0 p0 (su_next_sync_committee u) (Suc k)"

section \<open>What the checks establish\<close>

lemma and_then_st_Err_iff:
  "and_then_st m s f = (s', Err e) \<longleftrightarrow> m = Err e \<and> s' = s \<or> (\<exists>a. m = Ok a \<and> f a = (s', Err e))"
  by (cases m) auto

lemma participating_aux:
  "i + length ps \<le> length ks \<Longrightarrow>
   length (concat (map (\<lambda>(j, present). if present then (if j < length ks then [ks ! j] else []) else []) (enumerate i ps))) =
   length (filter (\<lambda>b. b) ps)"
  by (induction ps arbitrary: i) auto

lemma length_participating:
  "length (sa_participation agg) = length (sc_pubkeys c) \<Longrightarrow> length (participating_pubkeys c agg) = participants agg"
  using participating_aux [of 0 "sa_participation agg" "sc_pubkeys c"]
  by (simp add: participating_pubkeys_def participants_def)

lemma slots_Ok:
  assumes "slots_are_consistent s sig att fin = Ok ()"
  shows "\<exists>p. period_is (ls_config s) sig p \<and> period_is (ls_config s) att p \<and> p \<le> reach s \<and> att < sig \<and> fin \<le> att"
  using assms by (auto simp: slots_are_consistent_def res_iffs period_is_def not_less not_le split: if_splits)

lemma select_Ok:
  assumes "select_committee s sig = Ok c" and "period_is (ls_config s) sig p"
  shows "p = ls_period s \<and> c = ls_current s \<or> p \<noteq> ls_period s \<and> p = sat_add (ls_period s) 1 \<and> ls_next s = Some c"
  using assms by (auto simp: select_committee_def res_iffs period_is_def split: if_splits)

lemma sat_add_1:
  assumes "sat_add p 1 \<noteq> (p :: u64)"
  shows "unat (sat_add p 1) = Suc (unat p)"
proof -
  have "unat p < 2 ^ 64" using unsigned_less [of p] by simp
  moreover have "unat (sat_add p 1) \<noteq> unat p" using assms by (simp add: word_unat_eq_iff)
  ultimately show ?thesis by (simp add: unat_sat_add min_def split: if_splits)
qed

lemma participation_Ok:
  assumes "check_participation s agg sig = Ok c" and "verify_sync_aggregate sha bls s c h agg sig = Ok ()"
  shows "select_committee s sig = Ok c \<and> signed_by sha bls (ls_config s) c h agg sig"
proof -
  have sel: "select_committee s sig = Ok c" and len: "length (sc_pubkeys c) = ec_sync_committee_size (ls_config s)"
      "length (sa_participation agg) = ec_sync_committee_size (ls_config s)"
    and th: "supermajority_threshold (ls_config s) \<le> participants agg"
    using assms(1) by (auto simp: check_participation_def res_iffs Let_def split: if_splits)
  have "2 * ec_sync_committee_size (ls_config s) < 3 * participants agg"
    using th by (simp add: supermajority_threshold_def)
  then show ?thesis
    using assms(2) sel len length_participating [of agg c]
    by (auto simp: signed_by_def verify_sync_aggregate_def res_iffs Let_def split: if_splits)
qed

text \<open>The committee that the store selects is trusted for the period of the signature.\<close>

definition light_inv ::
  "(bytes \<Rightarrow> bytes) \<Rightarrow> bls_verifier \<Rightarrow> evm_chain_config \<Rightarrow> sync_committee \<Rightarrow> nat \<Rightarrow> light_client_store \<Rightarrow> bool" where
  "light_inv sha bls cfg c0 p0 s \<longleftrightarrow>
     ls_config s = cfg \<and>
     trusted sha bls cfg c0 p0 (ls_current s) (unat (ls_period s)) \<and>
     (\<forall>c. ls_next s = Some c \<longrightarrow> trusted sha bls cfg c0 p0 c (Suc (unat (ls_period s)))) \<and>
     (\<exists>p. period_is cfg (bh_slot (ls_finalized s)) p \<and> ls_period s \<le> p \<and> unat p \<le> Suc (unat (ls_period s)))"

lemma selected_trusted:
  assumes "light_inv sha bls cfg c0 p0 s" and "select_committee s sig = Ok c" and "period_is cfg sig p"
  shows "trusted sha bls cfg c0 p0 c (unat p)"
proof -
  have cfg: "ls_config s = cfg" using assms(1) by (simp add: light_inv_def)
  from select_Ok [OF assms(2), of p] assms(3) cfg
  consider "p = ls_period s" "c = ls_current s" | "p \<noteq> ls_period s" "p = sat_add (ls_period s) 1" "ls_next s = Some c"
    by auto
  then show ?thesis using assms(1) by cases (auto simp: light_inv_def sat_add_1)
qed

lemma structural_Ok:
  assumes "structural_sync_committee_update sha s u = Ok c"
  shows "\<exists>p q electra. period_is (ls_config s) (su_signature_slot u) p \<and>
      period_is (ls_config s) (bh_slot (su_attested_header u)) p \<and> ls_period s \<le> p \<and> p \<le> reach s \<and>
      bh_slot (su_attested_header u) < su_signature_slot u \<and>
      check_participation s (su_sync_aggregate u) (su_signature_slot u) = Ok c \<and>
      period_is (ls_config s) (bh_slot (su_finalized_header u)) q \<and> ls_period s \<le> q \<and> q \<le> p \<and>
      is_electra_at_slot (ls_config s) (bh_slot (su_attested_header u)) = (Ok electra :: (eth_error, bool) res) \<and>
      is_valid_merkle_branch sha (committee_root sha (su_next_sync_committee u)) (su_next_sync_committee_branch u)
        (snd (next_sync_committee_layout electra)) (fst (next_sync_committee_layout electra))
        (bh_state_root (su_attested_header u))"
  using assms slots_Ok [of s "su_signature_slot u" "bh_slot (su_attested_header u)" "bh_slot (su_finalized_header u)"]
  by (auto simp: structural_sync_committee_update_def res_iffs Let_def case_prod_beta not_less period_is_def split: if_splits)

lemma reach_le: "p \<le> reach s \<Longrightarrow> unat p \<le> Suc (unat (ls_period s))"
  using unat_sat_add_le [of "ls_period s" 1]
  by (auto simp: reach_def word_le_nat_alt split: if_splits)

lemma handover_Ok:
  assumes "light_inv sha bls cfg c0 p0 s" and "structural_sync_committee_update sha s u = Ok c"
    and "verify_sync_aggregate sha bls s c (su_attested_header u) (su_sync_aggregate u) (su_signature_slot u) = Ok ()"
    and "period_is cfg (bh_slot (su_attested_header u)) p"
  shows "trusted sha bls cfg c0 p0 (su_next_sync_committee u) (Suc (unat p))"
proof -
  have cfg: "ls_config s = cfg" using assms(1) by (simp add: light_inv_def)
  from structural_Ok [OF assms(2)] cfg assms(4) obtain electra
    where sig: "period_is cfg (su_signature_slot u) p" and lt: "bh_slot (su_attested_header u) < su_signature_slot u"
      and cp: "check_participation s (su_sync_aggregate u) (su_signature_slot u) = Ok c"
      and br: "is_electra_at_slot cfg (bh_slot (su_attested_header u)) = (Ok electra :: (eth_error, bool) res)"
        "is_valid_merkle_branch sha (committee_root sha (su_next_sync_committee u)) (su_next_sync_committee_branch u)
          (snd (next_sync_committee_layout electra)) (fst (next_sync_committee_layout electra))
          (bh_state_root (su_attested_header u))"
    by (auto simp: period_is_def)
  from participation_Ok [OF cp assms(3)] cfg have
    sel: "select_committee s (su_signature_slot u) = Ok c" and
    sg: "signed_by sha bls cfg c (su_attested_header u) (su_sync_aggregate u) (su_signature_slot u)" by auto
  have "hands_over sha bls cfg c (unat p) u"
    unfolding hands_over_def using sig assms(4) lt sg br by blast
  then show ?thesis using trusted.handover selected_trusted [OF assms(1) sel sig] by blast
qed

section \<open>Invariant\<close>

definition forward :: "light_client_store \<Rightarrow> light_client_store \<Rightarrow> bool" where
  "forward s s' \<longleftrightarrow> ls_config s' = ls_config s \<and> ls_period s \<le> ls_period s' \<and>
     bh_slot (ls_finalized s) \<le> bh_slot (ls_finalized s')"

lemma forward_trans: "forward a b \<Longrightarrow> forward b c \<Longrightarrow> forward a c"
  by (auto simp: forward_def)

lemma apply_Ok:
  assumes "light_inv sha bls cfg c0 p0 s" and "apply_sync_committee_update sha bls u s = (s', Ok ())"
  shows "light_inv sha bls cfg c0 p0 s' \<and> forward s s' \<and>
    (\<forall>p. period_is cfg (bh_slot (su_attested_header u)) p \<longrightarrow> trusted sha bls cfg c0 p0 (su_next_sync_committee u) (Suc (unat p)))"
proof -
  have cfg: "ls_config s = cfg" using assms(1) by (simp add: light_inv_def)
  obtain c p where st: "structural_sync_committee_update sha s u = Ok c"
    and vs: "verify_sync_aggregate sha bls s c (su_attested_header u) (su_sync_aggregate u) (su_signature_slot u) = Ok ()"
    and p: "period_is cfg (bh_slot (su_attested_header u)) p"
    and s': "s' = (let s1 = (if p = ls_period s then s\<lparr>ls_next := Some (su_next_sync_committee u)\<rparr> else s)
      in if bh_slot (su_finalized_header u) > bh_slot (ls_finalized s1) then s1\<lparr>ls_finalized := su_finalized_header u\<rparr> else s1)"
    using assms(2) cfg by (auto simp: apply_sync_committee_update_def and_then_st_Ok_iff Let_def period_is_def)
  obtain q where "period_is cfg (bh_slot (su_finalized_header u)) q" "ls_period s \<le> q" "q \<le> p" "p \<le> reach s"
    using structural_Ok [OF st] p cfg by (auto simp: period_is_def)
  moreover from this have "unat q \<le> Suc (unat (ls_period s))" using reach_le [of q s] by simp
  moreover have "trusted sha bls cfg c0 p0 (su_next_sync_committee u) (Suc (unat p))"
    using handover_Ok [OF assms(1) st vs p] .
  ultimately show ?thesis
    using assms(1) p unfolding s' by (auto simp: light_inv_def forward_def Let_def period_is_def)
qed

lemma advance_Ok:
  assumes "light_inv sha bls cfg c0 p0 s" and "advance_period s = (s', Ok ())"
  shows "light_inv sha bls cfg c0 p0 s' \<and> forward s s'"
proof -
  obtain c p where p: "period_is cfg (bh_slot (ls_finalized s)) p" "ls_period s < p" and nx: "ls_next s = Some c"
    and s': "s' = s\<lparr>ls_next := None, ls_current := c, ls_period := ls_period s + 1\<rparr>"
    using assms by (auto simp: light_inv_def advance_period_def and_then_st_Ok_iff period_is_def not_le split: if_splits option.splits)
  have "unat (ls_period s) < unat p" using p(2) by (simp add: word_less_nat_alt)
  moreover have "unat p < 2 ^ 64" using unsigned_less [of p] by simp
  ultimately have "unat (ls_period s + 1) = Suc (unat (ls_period s))" by (simp add: unat_word_ariths)
  with p assms(1) nx s' \<open>unat (ls_period s) < unat p\<close> show ?thesis
    by (auto simp: light_inv_def forward_def word_le_nat_alt period_is_def)
qed

lemma advance_Err: "advance_period s = (s', Err e) \<Longrightarrow> s' = s"
  by (cases "sync_committee_period (ls_config s) (bh_slot (ls_finalized s)) :: (eth_error, u64) res")
     (auto simp: advance_period_def split: if_splits option.splits)

lemma advance_while_Ok:
  "light_inv sha bls cfg c0 p0 s \<Longrightarrow> advance_while s = (s', Ok ()) \<Longrightarrow> light_inv sha bls cfg c0 p0 s' \<and> forward s s'"
proof (induction s rule: advance_while.induct)
  case (1 s)
  obtain t r where t: "advance_period s = (t, r)" by force
  show ?case
  proof (cases r)
    case (Ok x)
    then have "light_inv sha bls cfg c0 p0 t \<and> forward s t" using advance_Ok "1.prems"(1) t by simp
    moreover have "advance_while t = (s', Ok ())" using "1.prems"(2) t Ok by (simp add: advance_while.simps [of s])
    ultimately show ?thesis using "1.IH" [OF t [symmetric] Ok] forward_trans by blast
  next
    case (Err e)
    then have "t = s" using t advance_Err by blast
    moreover have "advance_while s = (t, Ok ())" using t Err by (subst advance_while.simps) simp
    ultimately have "s' = s" using "1.prems"(2) by simp
    then show ?thesis using "1.prems"(1) by (simp add: forward_def)
  qed (use "1.prems" t in \<open>simp add: advance_while.simps [of s]\<close>)
qed

lemma rotate_Ok:
  assumes "light_inv sha bls cfg c0 p0 s" and "rotate_sync_committee sha bls u s = (s', Ok p')"
  shows "light_inv sha bls cfg c0 p0 s' \<and> forward s s'"
proof -
  obtain s1 r1 where a: "apply_sync_committee_update sha bls u s = (s1, r1)" by force
  obtain s2 r2 where w: "advance_while s1 = (s2, r2)" by force
  obtain p where r: "r1 = Ok ()" "r2 = Ok ()"
    and p: "sync_committee_period (ls_config s1) (bh_slot (su_attested_header u)) = (Ok p :: (eth_error, u64) res)"
    and s': "s' = (if p = ls_period s2 \<and> ls_next s2 = None then s2\<lparr>ls_next := Some (su_next_sync_committee u)\<rparr> else s2)"
    using assms(2) a w by (auto simp: rotate_sync_committee_def and_then_st_Ok_iff Let_def)
  note a = a [unfolded r] and w = w [unfolded r]
  note ap = apply_Ok [OF assms(1) a]
  have "light_inv sha bls cfg c0 p0 s2" "forward s s2"
    using advance_while_Ok [OF _ w] ap forward_trans by blast+
  moreover have "trusted sha bls cfg c0 p0 (su_next_sync_committee u) (Suc (unat p))"
    using ap p by (auto simp: period_is_def light_inv_def)
  ultimately show ?thesis unfolding s' by (auto simp: light_inv_def forward_def)
qed

lemma apply_Err: "apply_sync_committee_update sha bls u s = (s', Err e) \<Longrightarrow> s' = s"
  by (auto simp: apply_sync_committee_update_def and_then_st_Err_iff Let_def)

lemma rotate_Err:
  assumes "rotate_sync_committee sha bls u s = (s', Err e)"
  shows "s' = s"
proof -
  obtain s1 r1 where a: "apply_sync_committee_update sha bls u s = (s1, r1)" by force
  obtain s2 r2 where w: "advance_while s1 = (s2, r2)" by force
  from assms a w show ?thesis by (auto simp: rotate_sync_committee_def and_then_st_Err_iff Let_def)
qed

lemma call_Err: "eth_call sha bls c s = (s', Err e) \<Longrightarrow> s' = s"
  by (cases c) (auto simp: map_ok_Err_iff split: prod.splits dest: apply_Err rotate_Err advance_Err)

lemma call_Ok:
  assumes "light_inv sha bls cfg c0 p0 s" and "eth_call sha bls c s = (s', Ok evs)"
  shows "light_inv sha bls cfg c0 p0 s' \<and> forward s s'"
proof (cases c)
  case (Apply u)
  then have "apply_sync_committee_update sha bls u s = (s', Ok ())"
    using assms(2) by (auto simp: map_ok_Ok_iff split: prod.splits)
  then show ?thesis using apply_Ok assms(1) by blast
next
  case (Rotate u)
  then obtain p where "rotate_sync_committee sha bls u s = (s', Ok p)"
    using assms(2) by (auto simp: map_ok_Ok_iff split: prod.splits)
  then show ?thesis using rotate_Ok assms(1) by blast
next
  case Advance
  then have "advance_period s = (s', Ok ())"
    using assms(2) by (auto simp: map_ok_Ok_iff split: prod.splits)
  then show ?thesis using advance_Ok assms(1) by blast
next
  case (Precheck u)
  then show ?thesis using assms by (auto simp: forward_def)
qed

interpretation light: atomic_calls "eth_call sha bls" "light_inv sha bls cfg c0 p0"
  for sha bls cfg c0 p0
  by unfold_locales (auto dest: call_Err call_Ok)

text \<open>What the checkpoint vouches for: its header has the trusted root, which is one of the pinned roots of the chain
  unless the test build is used, and its state holds the committee.\<close>

definition checkpoint_holds ::
  "(bytes \<Rightarrow> bytes) \<Rightarrow> bool \<Rightarrow> evm_chain_config \<Rightarrow> u64 \<Rightarrow> bytes \<Rightarrow> beacon_header \<Rightarrow> sync_committee \<Rightarrow> bytes list \<Rightarrow> bool" where
  "checkpoint_holds sha tu cfg p root h c branch \<longleftrightarrow>
     header_root sha h = root \<and> (tu \<or> (ec_chain_id cfg, root) \<in> set PINNED_BLOCK_ROOTS) \<and> period_is cfg (bh_slot h) p \<and>
     (\<exists>electra. is_electra_at_slot cfg (bh_slot h) = (Ok electra :: (eth_error, bool) res) \<and>
        is_valid_merkle_branch sha (committee_root sha c) branch (snd (current_sync_committee_layout electra))
          (fst (current_sync_committee_layout electra)) (bh_state_root h))"

lemma bootstrap_checkpoint:
  "bootstrap sha tu cfg p root h c branch = Ok s \<Longrightarrow> checkpoint_holds sha tu cfg p root h c branch"
  by (auto simp: bootstrap_def checkpoint_holds_def root_is_pinned_def list_ex_iff res_iffs Let_def case_prod_beta period_is_def split: if_splits)

lemma bootstrap_inv:
  assumes "bootstrap sha tu cfg p root h c branch = Ok s"
  shows "light_inv sha bls cfg c (unat p) s \<and> ls_finalized s = h \<and> ls_period s = p"
  using assms by (auto simp: bootstrap_def res_iffs Let_def case_prod_beta light_inv_def period_is_def
      intro: trusted.checkpoint split: if_splits)

section \<open>No panic\<close>

lemma period_total:
  assumes "period_is cfg slot p"
  shows "(sync_committee_period cfg slot' :: (eth_error, u64) res) \<noteq> Panic" and "ec_slots_per_epoch cfg \<noteq> 0"
  using assms by (auto simp: period_is_def sync_committee_period_def Let_def split: if_splits)

lemma checks_not_Panic:
  assumes "period_is (ls_config s) slot p"
  shows "slots_are_consistent s sig att fin \<noteq> Panic" and "select_committee s sig \<noteq> Panic"
    and "(is_electra_at_slot (ls_config s) x :: (eth_error, bool) res) \<noteq> Panic"
    and "check_participation s agg sig \<noteq> Panic"
    and "structural_sync_committee_update sha s u \<noteq> Panic"
proof -
  note pt = period_total [OF assms]
  show "slots_are_consistent s sig att fin \<noteq> Panic" for sig att fin
    using pt by (auto simp: slots_are_consistent_def res_iffs)
  moreover show "select_committee s sig \<noteq> Panic" for sig
    using pt by (auto simp: select_committee_def res_iffs)
  moreover show "(is_electra_at_slot (ls_config s) x :: (eth_error, bool) res) \<noteq> Panic" for x
    using pt by (auto simp: is_electra_at_slot_def epoch_at_slot_def res_iffs split: option.split)
  ultimately show "check_participation s agg sig \<noteq> Panic" for agg sig
    by (auto simp: check_participation_def res_iffs Let_def)
  with \<open>\<And>sig att fin. slots_are_consistent s sig att fin \<noteq> Panic\<close>
    \<open>\<And>x. (is_electra_at_slot (ls_config s) x :: (eth_error, bool) res) \<noteq> Panic\<close>
  show "structural_sync_committee_update sha s u \<noteq> Panic"
    using pt(1) by (auto simp: structural_sync_committee_update_def res_iffs Let_def case_prod_beta)
qed

lemma signature_not_Panic:
  assumes "period_is (ls_config s) slot p" and "ec_forks (ls_config s) \<noteq> []"
  shows "verify_sync_aggregate sha bls s c h agg sig \<noteq> Panic"
  using assms(2) period_total(2) [OF assms(1)]
  by (auto simp: verify_sync_aggregate_def fork_version_at_slot_def fork_version_at_epoch_def epoch_at_slot_def res_iffs Let_def)

lemma snd_and_then_st_Panic:
  "snd (and_then_st m s f) = Panic \<longleftrightarrow> m = Panic \<or> (\<exists>a. m = Ok a \<and> snd (f a) = Panic)"
  by (cases m) auto

lemma advance_not_Panic:
  assumes "light_inv sha bls cfg c0 p0 s"
  shows "snd (advance_period s) \<noteq> Panic"
proof -
  have "\<not> (- 1 :: u64) < p" for p :: u64 by simp
  then show ?thesis using assms by (auto simp: advance_period_def light_inv_def period_is_def not_le split: option.split if_splits)
qed

lemma advance_while_not_Panic: "light_inv sha bls cfg c0 p0 s \<Longrightarrow> snd (advance_while s) \<noteq> Panic"
proof (induction s rule: advance_while.induct)
  case (1 s)
  obtain t r where t: "advance_period s = (t, r)" by force
  then have "r \<noteq> Panic" using advance_not_Panic "1.prems" by force
  then show ?case
    using "1.IH" [OF t [symmetric]] t advance_Ok [OF "1.prems"] by (subst advance_while.simps) (auto split: res.split)
qed

lemma call_not_Panic:
  assumes inv: "light_inv sha bls cfg c0 p0 s" and forks: "ec_forks cfg \<noteq> []"
  shows "snd (eth_call sha bls c s) \<noteq> Panic"
proof -
  obtain p where p: "period_is (ls_config s) (bh_slot (ls_finalized s)) p" and cfg: "ls_config s = cfg"
    using inv by (auto simp: light_inv_def)
  note np = checks_not_Panic [OF p] signature_not_Panic [OF p] period_total(1) [OF p]
  have ap: "snd (apply_sync_committee_update sha bls u s) \<noteq> Panic" for u
    using np forks cfg by (auto simp: apply_sync_committee_update_def snd_and_then_st_Panic Let_def)
  have "snd (rotate_sync_committee sha bls u s) \<noteq> Panic" for u
  proof -
    obtain s1 r1 where a: "apply_sync_committee_update sha bls u s = (s1, r1)" by force
    obtain s2 r2 where w: "advance_while s1 = (s2, r2)" by force
    have "r1 \<noteq> Panic" using ap [of u] a by simp
    moreover have "ls_config s1 = ls_config s" "r2 \<noteq> Panic" if "r1 = Ok x" for x
      using apply_Ok [OF inv, of u s1] advance_while_not_Panic [of sha bls cfg c0 p0 s1] a w that by (auto simp: light_inv_def cfg)
    ultimately show ?thesis using a w np(7)
      by (auto simp: rotate_sync_committee_def snd_and_then_st_Panic Let_def)
  qed
  then show ?thesis using ap advance_not_Panic [OF inv] np
    by (cases c) (auto simp: case_prod_beta map_ok_Panic_iff precheck_sync_committee_update_def)
qed

section \<open>The light client follows the committees\<close>

text \<open>C6: After any calls on a bootstrapped store, in any order and with any updates, the checkpoint's header has the
  trusted root and its state holds the checkpoint's committee, and the current committee is
  trusted for the store's period and the next one, if any, for the period after it: each was handed over by more
  than two thirds of the committee of the period before, from the committee of the checkpoint on. The finalised
  header lies in the store's period or the one after, period and finalised slot never decrease, the chain is the
  one of the checkpoint, and no further call panics when the chain has a fork table.\<close>

theorem light_client_follows:
  assumes "bootstrap sha tu cfg p0 root h0 c0 branch = Ok s0" and "runs (eth_call sha bls) s0 evs s"
  shows "ls_config s = cfg \<and> checkpoint_holds sha tu cfg p0 root h0 c0 branch \<and>
    trusted sha bls cfg c0 (unat p0) (ls_current s) (unat (ls_period s)) \<and>
    (\<forall>c. ls_next s = Some c \<longrightarrow> trusted sha bls cfg c0 (unat p0) c (Suc (unat (ls_period s)))) \<and>
    (\<exists>p. period_is cfg (bh_slot (ls_finalized s)) p \<and> ls_period s \<le> p \<and> unat p \<le> Suc (unat (ls_period s))) \<and>
    p0 \<le> ls_period s \<and> bh_slot h0 \<le> bh_slot (ls_finalized s) \<and>
    (ec_forks cfg \<noteq> [] \<longrightarrow> (\<forall>c. snd (eth_call sha bls c s) \<noteq> Panic))"
proof -
  note b = bootstrap_inv [OF assms(1)]
  have inv: "light_inv sha bls cfg c0 (unat p0) s"
    using light.ic.runs_inv [OF assms(2)] b by blast
  have "forward s0 s"
  proof (rule light.ic.runs_along [OF assms(2)])
    show "light_inv sha bls cfg c0 (unat p0) s0" using b by blast
    show "forward t t" for t by (simp add: forward_def)
    show "forward t t'" if "eth_call sha bls c t = (t', Err e)" for t c t' e
      using call_Err [OF that] by (simp add: forward_def)
  qed (auto intro: forward_trans dest: call_Ok)
  then show ?thesis using inv b call_not_Panic [OF inv] bootstrap_checkpoint [OF assms(1)] by (auto simp: light_inv_def forward_def)
qed

definition flat_sha :: "bytes \<Rightarrow> bytes" where "flat_sha x = replicate 32 0"
definition any_bls :: bls_verifier where "any_bls ks m sig = True"
definition small_cfg :: evm_chain_config where
  "small_cfg = preset_ethereum\<lparr>ec_sync_committee_size := 3, ec_deposit_contract := 1 # replicate 19 9\<rparr>"
definition flat_header :: "u64 \<Rightarrow> beacon_header" where
  "flat_header slot = \<lparr>bh_slot = slot, bh_proposer_index = 0, bh_parent_root = zero_chunk, bh_state_root = zero_chunk,
     bh_body_root = zero_chunk\<rparr>"
definition key_committee :: "u8 \<Rightarrow> sync_committee" where
  "key_committee k = \<lparr>sc_pubkeys = [[k], [k + 1], [k + 2]], sc_aggregate_pubkey = [k]\<rparr>"
definition sample_store :: light_client_store where
  "sample_store = \<lparr>ls_config = small_cfg, ls_period = 0, ls_current = key_committee 1, ls_next = None,
     ls_finalized = flat_header 0\<rparr>"
definition sample_handover :: sync_committee_update where
  "sample_handover = \<lparr>su_attested_header = flat_header 10, su_finalized_header = flat_header 5,
     su_finality_branch = replicate 6 zero_chunk, su_next_sync_committee = key_committee 4,
     su_next_sync_committee_branch = replicate 5 zero_chunk,
     su_sync_aggregate = \<lparr>sa_participation = [True, True, True], sa_signature = []\<rparr>, su_signature_slot = 11\<rparr>"

lemma small_period: "sync_committee_period small_cfg slot = Ok (slot div 8192)"
  by (simp add: sync_committee_period_def small_cfg_def preset_ethereum_def)

lemma small_electra: "is_electra_at_slot small_cfg slot = Ok (slot div 32 \<ge> 364032)"
  by (simp add: is_electra_at_slot_def epoch_at_slot_def small_cfg_def preset_ethereum_def MAINNET_ELECTRA_EPOCH_def)

lemma flat_roots: "header_root flat_sha h = zero_chunk" "committee_root flat_sha c = zero_chunk"
  by (simp_all add: header_root_strings committee_root_def hash_pair_def flat_sha_def zero_chunk_def)

lemma flat_branch: "branch_walk flat_sha index i zero_chunk branch = zero_chunk"
  by (induction branch arbitrary: i) (simp_all add: hash_pair_def flat_sha_def zero_chunk_def)

lemmas flat_eval = small_period small_electra flat_roots flat_branch is_valid_merkle_branch_def

lemma sample_bootstrap:
  "bootstrap flat_sha True small_cfg 0 zero_chunk (flat_header 0) (key_committee 1) (replicate 5 zero_chunk) = Ok sample_store"
proof -
  have "verifies_beacon_sync_committee small_cfg" "consensus_is_pinned True small_cfg" "root_is_pinned True x y" for x y
    by (simp_all add: verifies_beacon_sync_committee_def small_cfg_def preset_ethereum_def consensus_is_pinned_def root_is_pinned_def)
  moreover have "current_sync_committee_layout False = (54, 5)"
    by (simp add: current_sync_committee_layout_def CURRENT_SYNC_COMMITTEE_INDEX_def CURRENT_SYNC_COMMITTEE_DEPTH_def)
  ultimately show ?thesis by (simp add: bootstrap_def flat_eval sample_store_def) (simp add: flat_header_def flat_branch)
qed

lemma sample_structural:
  "structural_sync_committee_update flat_sha sample_store sample_handover = Ok (key_committee 1)"
proof -
  have v: "verifies_beacon_sync_committee small_cfg" "ec_sync_committee_size small_cfg = 3"
    by (simp_all add: verifies_beacon_sync_committee_def small_cfg_def preset_ethereum_def)
  have "slots_are_consistent sample_store 11 10 5 = Ok ()"
    by (simp add: slots_are_consistent_def sample_store_def flat_eval reach_def)
  moreover have "check_participation sample_store \<lparr>sa_participation = [True, True, True], sa_signature = []\<rparr> 11 = Ok (key_committee 1)"
    using v by (simp add: check_participation_def select_committee_def sample_store_def flat_eval key_committee_def
        participants_def supermajority_threshold_def)
  ultimately show ?thesis
    using v by (simp add: structural_sync_committee_update_def sample_handover_def flat_header_def)
      (simp add: flat_eval sample_store_def reach_def finalized_root_layout_def next_sync_committee_layout_def
        FINALIZED_ROOT_DEPTH_def NEXT_SYNC_COMMITTEE_DEPTH_def)
qed

lemma sample_signed: "verify_sync_aggregate flat_sha any_bls sample_store c h agg slot = Ok ()"
  by (simp add: verify_sync_aggregate_def fork_version_at_slot_def epoch_at_slot_def fork_version_at_epoch_def sample_store_def
      small_cfg_def preset_ethereum_def beacon_forks_def any_bls_def)

lemma sample_rotate:
  "eth_call flat_sha any_bls (Rotate sample_handover) sample_store =
     (sample_store\<lparr>ls_next := Some (key_committee 4), ls_finalized := flat_header 5\<rparr>, Ok [])"
proof -
  let ?s = "sample_store\<lparr>ls_next := Some (key_committee 4), ls_finalized := flat_header 5\<rparr>"
  have "apply_sync_committee_update flat_sha any_bls sample_handover sample_store = (?s, Ok ())"
    by (simp add: apply_sync_committee_update_def sample_structural sample_signed)
      (simp add: sample_handover_def sample_store_def flat_eval flat_header_def)
  moreover have "advance_while ?s = (?s, Ok ())"
    by (subst advance_while.simps) (simp add: advance_period_def sample_store_def flat_eval flat_header_def)
  ultimately show ?thesis
    by (simp add: rotate_sync_committee_def) (simp add: sample_store_def flat_eval sample_handover_def flat_header_def)
qed

theorem light_client_follows_witness:
  "trusted flat_sha any_bls small_cfg (key_committee 1) 0 (key_committee 4) 1"
proof -
  have "runs (eth_call flat_sha any_bls) sample_store ([] @ []) (sample_store\<lparr>ls_next := Some (key_committee 4), ls_finalized := flat_header 5\<rparr>)"
    by (rule runs_ok [OF runs_start]) (rule sample_rotate)
  from light_client_follows [OF sample_bootstrap this] show ?thesis by (simp add: sample_store_def)
qed

end
