(* ===== verification/Eth_Deposit.thy ===== *)
theory Eth_Deposit
  imports Eth_Light Eth_Trie
begin

text \<open>
  Deposits proven by the Ethereum light client: what an accepted deposit rests on, that its source reference
  determines it, and what the gateway mints for it.
\<close>

section \<open>What an accepted deposit rests on\<close>

fun linked :: "(bytes \<Rightarrow> bytes) \<Rightarrow> beacon_header \<Rightarrow> beacon_header list \<Rightarrow> bool" where
  "linked sha child [] \<longleftrightarrow> True"
| "linked sha child (parent # hs) \<longleftrightarrow>
     header_root sha parent = bh_parent_root child \<and> bh_slot parent < bh_slot child \<and> linked sha parent hs"

text \<open>The block of the deposit is the finalised block, an ancestor of it reached by parent links, or a block
  that the state of the finalised block names.\<close>

definition below :: "(bytes \<Rightarrow> bytes) \<Rightarrow> evm_chain_config \<Rightarrow> beacon_header \<Rightarrow> deposit_proof \<Rightarrow> bool" where
  "below sha cfg fin d \<longleftrightarrow>
     (if dp_historical_branch d = [] then length (dp_ancestry d) \<le> MAX_DEPOSIT_ANCESTRY \<and> linked sha fin (dp_ancestry d)
      else \<exists>block electra. dp_ancestry d = [block] \<and> bh_slot block < bh_slot fin \<and>
             bh_slot fin - bh_slot block < SLOTS_PER_HISTORICAL_ROOT \<and>
             is_electra_at_slot cfg (bh_slot fin) = (Ok electra :: (eth_error, bool) res) \<and>
             is_valid_merkle_branch sha (header_root sha block) (dp_historical_branch d)
               (snd (block_root_layout electra (bh_slot block))) (fst (block_root_layout electra (bh_slot block)))
               (bh_state_root fin))"

definition in_body :: "(bytes \<Rightarrow> bytes) \<Rightarrow> execution_commit \<Rightarrow> beacon_header \<Rightarrow> bool" where
  "in_body sha x block \<longleftrightarrow>
     is_valid_merkle_branch sha (xc_receipts_root x) (xc_execution_branch x)
       EXECUTION_RECEIPTS_DEPTH EXECUTION_RECEIPTS_INDEX (bh_body_root block) \<and>
     is_valid_merkle_branch sha (uint64_root (xc_block_number x)) (xc_block_number_branch x)
       EXECUTION_RECEIPTS_DEPTH EXECUTION_BLOCK_NUMBER_INDEX (bh_body_root block)"

definition final_in :: "(bytes \<Rightarrow> bytes) \<Rightarrow> evm_chain_config \<Rightarrow> light_client_update \<Rightarrow> bool" where
  "final_in sha cfg u \<longleftrightarrow>
     (\<exists>electra. is_electra_at_slot cfg (bh_slot (lu_attested_header u)) = (Ok electra :: (eth_error, bool) res) \<and>
        is_valid_merkle_branch sha (header_root sha (lu_finalized_header u)) (lu_finality_branch u)
          (snd (finalized_root_layout electra)) (fst (finalized_root_layout electra))
          (bh_state_root (lu_attested_header u)))"

abbreviation block_of :: "light_client_update \<Rightarrow> deposit_proof \<Rightarrow> beacon_header" where
  "block_of u d \<equiv> deposit_block d (lu_finalized_header u)"

text \<open>The receipt at the index of the proof pays \<open>raw\<close>.\<close>

definition receipt_shows ::
  "(bytes \<Rightarrow> bytes) \<Rightarrow> evm_chain_config \<Rightarrow> bytes \<Rightarrow> deposit_proof \<Rightarrow> raw_deposit \<Rightarrow> bool" where
  "receipt_shows kec cfg root d raw \<longleftrightarrow>
     (\<exists>key receipt. encode_uint (dp_receipt_index d) = (Ok key :: (eth_error, bytes) res) \<and>
        verify_proof kec root key (dp_receipt_proof d) = Ok (Some receipt) \<and>
        extract_deposit_at kec receipt (ec_deposit_contract cfg) (dp_log_index d) = Ok raw)"

lemma ancestry_loop_Ok:
  "ancestry_loop sha child hs = Ok b \<longleftrightarrow> linked sha child hs \<and> b = (if hs = [] then child else last hs)"
  by (induction sha child hs rule: ancestry_loop.induct) auto

lemma block_Ok:
  assumes "(if dp_historical_branch d = [] then verify_ancestry sha fin (dp_ancestry d)
     else verify_historical sha s fin (dp_ancestry d) (dp_historical_branch d)) = Ok b"
  shows "below sha (ls_config s) fin d \<and> b = deposit_block d fin"
  using assms
  by (auto simp: below_def verify_ancestry_def verify_historical_def ancestry_loop_Ok deposit_block_def res_iffs Let_def
      case_prod_beta not_le not_less split: if_splits list.splits)

lemma core_Ok:
  assumes "verify_deposit_core sha kec bls s u d = Ok k"
  shows "\<exists>p c. period_is (ls_config s) (lu_signature_slot u) p \<and>
      bh_slot (lu_attested_header u) < lu_signature_slot u \<and> bh_slot (lu_finalized_header u) \<le> bh_slot (lu_attested_header u) \<and>
      select_committee s (lu_signature_slot u) = Ok c \<and>
      signed_by sha bls (ls_config s) c (lu_attested_header u) (lu_sync_aggregate u) (lu_signature_slot u)"
    and "final_in sha (ls_config s) u" and "below sha (ls_config s) (lu_finalized_header u) d"
    and "in_body sha (lu_execution u) (block_of u d)"
    and "receipt_shows kec (ls_config s) (xc_receipts_root (lu_execution u)) d (kd_raw k)"
    and "raw_amount (kd_raw k) \<le> ec_max_deposit_base_units (ls_config s)"
    and "\<exists>key. encode_uint (dp_receipt_index d) = (Ok key :: (eth_error, bytes) res) \<and>
      kd_source_ref k = kec (ref_string (header_root sha (block_of u d)) key (dp_log_index d))"
    and "kd_block_number k = xc_block_number (lu_execution u)"
proof -
  obtain c electra block key receipt raw where
    sl: "slots_are_consistent s (lu_signature_slot u) (bh_slot (lu_attested_header u)) (bh_slot (lu_finalized_header u)) = Ok ()"
    and cp: "check_participation s (lu_sync_aggregate u) (lu_signature_slot u) = Ok c"
    and el: "is_electra_at_slot (ls_config s) (bh_slot (lu_attested_header u)) = (Ok electra :: (eth_error, bool) res)"
    and fn: "verify_finality sha u electra = Ok ()"
    and bl: "(if dp_historical_branch d = [] then verify_ancestry sha (lu_finalized_header u) (dp_ancestry d)
       else verify_historical sha s (lu_finalized_header u) (dp_ancestry d) (dp_historical_branch d)) = Ok block"
    and ex: "verify_execution sha (lu_execution u) block = Ok ()"
    and key: "encode_uint (dp_receipt_index d) = (Ok key :: (eth_error, bytes) res)"
    and vp: "verify_proof kec (xc_receipts_root (lu_execution u)) key (dp_receipt_proof d) = Ok (Some receipt)"
    and xd: "extract_deposit_at kec receipt (ec_deposit_contract (ls_config s)) (dp_log_index d) = Ok raw"
    and cap: "raw_amount raw \<le> ec_max_deposit_base_units (ls_config s)"
    and vs: "verify_sync_aggregate sha bls s c (lu_attested_header u) (lu_sync_aggregate u) (lu_signature_slot u) = Ok ()"
    and k: "k = \<lparr>kd_anchor = header_root sha block,
        kd_source_ref = deposit_source_ref kec (header_root sha block) key (raw_log_index raw),
        kd_raw = raw, kd_block_number = xc_block_number (lu_execution u)\<rparr>"
    using assms by (auto simp: verify_deposit_core_def res_iffs Let_def not_less split: if_splits)
  from block_Ok [OF bl] have b: "below sha (ls_config s) (lu_finalized_header u) d" "block = block_of u d" by auto
  show "\<exists>p c. period_is (ls_config s) (lu_signature_slot u) p \<and>
      bh_slot (lu_attested_header u) < lu_signature_slot u \<and> bh_slot (lu_finalized_header u) \<le> bh_slot (lu_attested_header u) \<and>
      select_committee s (lu_signature_slot u) = Ok c \<and>
      signed_by sha bls (ls_config s) c (lu_attested_header u) (lu_sync_aggregate u) (lu_signature_slot u)"
    using slots_Ok [OF sl] participation_Ok [OF cp vs] by blast
  show "final_in sha (ls_config s) u"
    using el fn by (auto simp: final_in_def verify_finality_def Let_def case_prod_beta split: if_splits)
  show "below sha (ls_config s) (lu_finalized_header u) d" by (rule b)
  show "in_body sha (lu_execution u) (block_of u d)"
    using ex b(2) by (auto simp: in_body_def verify_execution_def split: if_splits)
  show "receipt_shows kec (ls_config s) (xc_receipts_root (lu_execution u)) d (kd_raw k)"
    using key vp xd k by (auto simp: receipt_shows_def)
  have "raw_log_index raw = dp_log_index d" using extract_deposit_at_sound [OF xd] by simp
  then show "\<exists>key. encode_uint (dp_receipt_index d) = (Ok key :: (eth_error, bytes) res) \<and>
      kd_source_ref k = kec (ref_string (header_root sha (block_of u d)) key (dp_log_index d))"
    using key k b(2) by (simp add: deposit_source_ref_def)
  show "raw_amount (kd_raw k) \<le> ec_max_deposit_base_units (ls_config s)" "kd_block_number k = xc_block_number (lu_execution u)"
    using k cap by simp_all
qed

section \<open>The reference determines the deposit\<close>

text \<open>The array types of the code, and the strings that a proof has hashed.\<close>

definition proof_wf :: "light_client_update \<Rightarrow> deposit_proof \<Rightarrow> bool" where
  "proof_wf u d \<longleftrightarrow> header_wf_eth (block_of u d) \<and> length (xc_receipts_root (lu_execution u)) = 32 \<and>
     (\<forall>h \<in> set (xc_execution_branch (lu_execution u)) \<union> set (xc_block_number_branch (lu_execution u)). length h = 32)"

definition sha_strings :: "(bytes \<Rightarrow> bytes) \<Rightarrow> light_client_update \<Rightarrow> deposit_proof \<Rightarrow> bytes set" where
  "sha_strings sha u d =
     set (header_strings sha (block_of u d)) \<union>
     ssz_inputs sha EXECUTION_RECEIPTS_INDEX 0 (xc_receipts_root (lu_execution u)) (xc_execution_branch (lu_execution u)) \<union>
     ssz_inputs sha EXECUTION_BLOCK_NUMBER_INDEX 0 (uint64_root (xc_block_number (lu_execution u)))
       (xc_block_number_branch (lu_execution u))"

definition kec_strings :: "(bytes \<Rightarrow> bytes) \<Rightarrow> light_client_update \<Rightarrow> deposit_proof \<Rightarrow> bytes set" where
  "kec_strings sha u d =
     set (dp_receipt_proof d) \<union>
     {ref_string (header_root sha (block_of u d)) key (dp_log_index d) | key.
        encode_uint (dp_receipt_index d) = (Ok key :: (eth_error, bytes) res)}"

lemma ref_string_inj:
  assumes "ref_string a k l = ref_string a' k' l'" and "length a = 32" and "length a' = 32"
  shows "a = a' \<and> k = k' \<and> l = l'"
proof -
  have "length k = length k'" using arg_cong [OF assms(1), of length] assms(2,3) by (simp add: ref_string_def)
  then have "a = a' \<and> k = k' \<and> to_le_bytes l = to_le_bytes l'" using assms by (simp add: ref_string_def)
  then show ?thesis by (auto intro: to_le_bytes_inj)
qed

lemma header_root_length:
  assumes "\<And>x. length (sha x) = 32"
  shows "length (header_root sha h) = 32"
  by (simp add: header_root_strings assms)

lemma in_body_binds:
  assumes "in_body sha (lu_execution u) (block_of u d)" and "in_body sha (lu_execution u') (block_of u' d')"
    and "block_of u d = block_of u' d'" and "proof_wf u d" and "proof_wf u' d'" and "\<And>x. length (sha x) = 32"
    and nc: "\<not> collides sha (sha_strings sha u d) (sha_strings sha u' d')"
  shows "xc_receipts_root (lu_execution u) = xc_receipts_root (lu_execution u')"
    and "xc_block_number (lu_execution u) = xc_block_number (lu_execution u')"
proof -
  let ?x = "lu_execution u" and ?y = "lu_execution u'"
  let ?R = "\<lambda>x. ssz_inputs sha EXECUTION_RECEIPTS_INDEX 0 (xc_receipts_root x) (xc_execution_branch x)"
  let ?N = "\<lambda>x. ssz_inputs sha EXECUTION_BLOCK_NUMBER_INDEX 0 (uint64_root (xc_block_number x)) (xc_block_number_branch x)"
  have sub: "?R (lu_execution v) \<subseteq> sha_strings sha v e" "?N (lu_execution v) \<subseteq> sha_strings sha v e" for v e
    by (auto simp: sha_strings_def)
  have nc2: "\<not> collides sha (?N ?x) (?N ?y)" using nc collides_mono [OF _ sub(2) sub(2)] by blast
  have "\<not> collides sha (?R ?x) (?R ?y)" using nc collides_mono [OF _ sub(1) sub(1)] by blast
  then show "xc_receipts_root ?x = xc_receipts_root ?y"
    using assms by (intro valid_branch_binds [of sha _ _ EXECUTION_RECEIPTS_DEPTH EXECUTION_RECEIPTS_INDEX])
      (auto simp: in_body_def proof_wf_def)
  have "uint64_root (xc_block_number ?x) = uint64_root (xc_block_number ?y)"
    using assms nc2 by (intro valid_branch_binds [of sha _ _ EXECUTION_RECEIPTS_DEPTH EXECUTION_BLOCK_NUMBER_INDEX])
      (auto simp: in_body_def proof_wf_def)
  then show "xc_block_number ?x = xc_block_number ?y" by (rule uint64_root_inj)
qed

lemma receipt_shows_binds:
  assumes "receipt_shows kec cfg root d raw" and "receipt_shows kec cfg' root d' raw'"
    and "ec_deposit_contract cfg = ec_deposit_contract cfg'"
    and "dp_receipt_index d = dp_receipt_index d'" and "dp_log_index d = dp_log_index d'"
    and "\<not> collides kec (set (dp_receipt_proof d)) (set (dp_receipt_proof d'))"
  shows "raw = raw'"
  using assms verify_proof_agree [OF _ _ assms(6)] by (fastforce simp: receipt_shows_def)

text \<open>C36: The source reference of a proven Ethereum deposit determines the deposit. When the client accepts two
  deposits with the same reference for the same deposit contract, perhaps from different stores, updates and
  proofs, they report the same amount, recipient, asset and block number, unless one of the two hashes collides on
  strings that the two proofs hash. So a gateway that refuses a used reference mints each deposit once.\<close>

theorem eth_reference_determines_deposit:
  assumes "eth_trustless_deposit sha kec bls s u d = Ok r" and "eth_trustless_deposit sha kec bls' s' u' d' = Ok r'"
    and "ed_source_ref r = ed_source_ref r'" and "ec_deposit_contract (ls_config s) = ec_deposit_contract (ls_config s')"
    and "proof_wf u d" and "proof_wf u' d'" and "\<And>x. length (sha x) = 32"
  shows "ed_amount r = ed_amount r' \<and> ed_recipient r = ed_recipient r' \<and> ed_asset_id r = ed_asset_id r' \<and>
      ed_block_number r = ed_block_number r' \<or>
    collides sha (sha_strings sha u d) (sha_strings sha u' d') \<or> collides kec (kec_strings sha u d) (kec_strings sha u' d')"
proof (rule disjCI)
  assume "\<not> (collides sha (sha_strings sha u d) (sha_strings sha u' d') \<or> collides kec (kec_strings sha u d) (kec_strings sha u' d'))"
  then have nsha: "\<not> collides sha (sha_strings sha u d) (sha_strings sha u' d')"
    and nkec: "\<not> collides kec (kec_strings sha u d) (kec_strings sha u' d')" by auto
  obtain k k' where k: "verify_deposit_core sha kec bls s u d = Ok k" "verify_deposit_core sha kec bls' s' u' d' = Ok k'"
    and r: "ed_source_ref r = kd_source_ref k" "ed_source_ref r' = kd_source_ref k'"
      "ed_amount r = raw_amount (kd_raw k)" "ed_amount r' = raw_amount (kd_raw k')"
      "ed_recipient r = raw_recipient (kd_raw k)" "ed_recipient r' = raw_recipient (kd_raw k')"
      "ed_asset_id r = raw_asset_id (kd_raw k)" "ed_asset_id r' = raw_asset_id (kd_raw k')"
      "ed_block_number r = kd_block_number k" "ed_block_number r' = kd_block_number k'"
    using assms(1,2) by (auto simp: eth_trustless_deposit_def map_ok_Ok_iff)
  note a = core_Ok [OF k(1)] and b = core_Ok [OF k(2)]
  obtain key key' where key: "encode_uint (dp_receipt_index d) = (Ok key :: (eth_error, bytes) res)"
      "encode_uint (dp_receipt_index d') = (Ok key' :: (eth_error, bytes) res)"
    and refs: "kec (ref_string (header_root sha (block_of u d)) key (dp_log_index d)) =
      kec (ref_string (header_root sha (block_of u' d')) key' (dp_log_index d'))"
    using a(7) b(7) assms(3) r(1,2) by auto
  have "ref_string (header_root sha (block_of u d)) key (dp_log_index d) = ref_string (header_root sha (block_of u' d')) key' (dp_log_index d')"
    using nkec refs key unfolding collides_def kec_strings_def by blast
  from ref_string_inj [OF this header_root_length [OF assms(7)] header_root_length [OF assms(7)]]
  have eq: "header_root sha (block_of u d) = header_root sha (block_of u' d')" "key = key'" "dp_log_index d = dp_log_index d'" by auto
  have idx: "dp_receipt_index d = dp_receipt_index d'"
    using key eq(2) encode_uint_inj by blast
  have "\<not> collides sha (set (header_strings sha (block_of u d))) (set (header_strings sha (block_of u' d')))"
    using nsha collides_mono [of sha _ _ "sha_strings sha u d" "sha_strings sha u' d'"] by (auto simp: sha_strings_def)
  then have "block_of u d = block_of u' d'"
    using header_root_binds [OF eq(1) _ _ assms(7)] assms(5,6) by (simp add: proof_wf_def)
  note body = in_body_binds [OF a(4) b(4) this assms(5-7) nsha]
  have "\<not> collides kec (set (dp_receipt_proof d)) (set (dp_receipt_proof d'))"
    using nkec collides_mono [of kec _ _ "kec_strings sha u d" "kec_strings sha u' d'"] by (auto simp: kec_strings_def)
  then have "kd_raw k = kd_raw k'"
    using receipt_shows_binds [OF a(5) _ assms(4) idx eq(3)] b(5) body(1) by simp
  then show "ed_amount r = ed_amount r' \<and> ed_recipient r = ed_recipient r' \<and> ed_asset_id r = ed_asset_id r' \<and>
      ed_block_number r = ed_block_number r'"
    using r a(8) b(8) body(2) by simp
qed

section \<open>Mints for proven deposits\<close>

text \<open>A proof against the root of a trie of receipts shows the receipt that the trie holds, or a collision.\<close>

lemma receipt_of_trie:
  assumes "verify_proof kec root key proof = Ok (Some receipt)" and "\<And>x. length (kec x) = 32"
    and "entries_ok es" and "es \<noteq> []" and "build es = Ok t" and "root_hash kec t = root"
    and "prove kec t key = Ok honest" and "\<forall>p \<in> set honest. length p \<le> usize_max"
  shows "map_of es (to_nibbles key) = Some receipt \<or> collides kec (set proof) (set honest)"
proof -
  obtain t' where "holds es t'" using build_correct assms(3,4) by blast
  then have t: "holds es t" using assms(5) by (simp add: holds_def)
  have "verify_proof kec root key honest = Ok (map_of es (to_nibbles key))"
    using honest_proof [where kec = kec and key = key, OF t assms(2)] assms(6-8) by auto
  then show ?thesis using verify_proof_agree [OF assms(1)] by fastforce
qed

text \<open>C5: An Ethereum mint is backed by a deposit on the chain the light client follows. When a store that was
  bootstrapped and then driven by any calls accepts a deposit and the gateway admits it for a fact, the checkpoint's
  header has the trusted root and its state holds the checkpoint's committee; the attested
  header is signed by more than two thirds of the committee trusted for the period of the signature; the
  finalised header lies in its state, the deposit's block below that header, and the receipts root in the block's
  body; the receipt at the proof's index, the very receipt of the block's trie unless the hash collides, succeeded
  and has at the given index a log of the deposit contract with the minted amount, recipient and asset. The supply
  of that asset grows by this amount, no other supply moves, the gateway keeps its invariant, and the reference is
  refused from then on.\<close>

theorem ethereum_mint_backed:
  assumes "gw_inv g" and "bootstrap sha tu cfg p0 root h0 c0 br = Ok s0" and "runs (eth_call sha bls) s0 evs s"
    and "eth_trustless_deposit sha kec bls s u d = Ok r" and "admit_ethereum_trustless c r f g = (g', Ok mint)"
    and "\<And>x. length (kec x) = 32"
  shows "checkpoint_holds sha tu cfg p0 root h0 c0 br \<and>
    (\<exists>p cm. period_is cfg (lu_signature_slot u) p \<and> trusted sha bls cfg c0 (unat p0) cm (unat p) \<and>
      signed_by sha bls cfg cm (lu_attested_header u) (lu_sync_aggregate u) (lu_signature_slot u)) \<and>
    final_in sha cfg u \<and> below sha cfg (lu_finalized_header u) d \<and> in_body sha (lu_execution u) (block_of u d) \<and>
    (\<exists>key receipt raw. encode_uint (dp_receipt_index d) = (Ok key :: (eth_error, bytes) res) \<and>
      (\<forall>es t honest. entries_ok es \<and> es \<noteq> [] \<and> build es = Ok t \<and> root_hash kec t = xc_receipts_root (lu_execution u) \<and>
         prove kec t key = Ok honest \<and> (\<forall>p \<in> set honest. length p \<le> usize_max) \<longrightarrow>
         map_of es (to_nibbles key) = Some receipt \<or> collides kec (set (dp_receipt_proof d)) (set honest)) \<and>
      receipt_pays kec receipt (ec_deposit_contract cfg) raw \<and> raw_log_index raw = dp_log_index d \<and>
      tm_amount mint = raw_amount raw \<and> tm_recipient mint = raw_recipient raw \<and> tm_asset_id mint = raw_asset_id raw) \<and>
    supply_of g' (tm_asset_id mint) = supply_of g (tm_asset_id mint) + unat (tm_amount mint) \<and>
    (\<forall>b. b \<noteq> tm_asset_id mint \<longrightarrow> supply_of g' b = supply_of g b) \<and> gw_inv g' \<and>
    (\<forall>r' f'. ed_source_ref r' = ed_source_ref r \<longrightarrow> \<not> is_ok (snd (admit_ethereum_trustless c r' f' g')))"
proof -
  have inv: "light_inv sha bls cfg c0 (unat p0) s"
    using light.ic.runs_inv [OF assms(3)] bootstrap_inv [OF assms(2)] by blast
  then have cfg: "ls_config s = cfg" by (simp add: light_inv_def)
  obtain k where k: "verify_deposit_core sha kec bls s u d = Ok k"
    and r: "ed_amount r = raw_amount (kd_raw k)" "ed_recipient r = raw_recipient (kd_raw k)" "ed_asset_id r = raw_asset_id (kd_raw k)"
    using assms(4) by (auto simp: eth_trustless_deposit_def map_ok_Ok_iff)
  note a = core_Ok [OF k, unfolded cfg]
  obtain p cm where sg: "period_is cfg (lu_signature_slot u) p" "select_committee s (lu_signature_slot u) = Ok cm"
    "signed_by sha bls cfg cm (lu_attested_header u) (lu_sync_aggregate u) (lu_signature_slot u)" using a(1) by blast
  obtain key receipt where key: "encode_uint (dp_receipt_index d) = (Ok key :: (eth_error, bytes) res)"
    and vp: "verify_proof kec (xc_receipts_root (lu_execution u)) key (dp_receipt_proof d) = Ok (Some receipt)"
    and xd: "extract_deposit_at kec receipt (ec_deposit_contract cfg) (dp_log_index d) = Ok (kd_raw k)"
    using a(5) by (auto simp: receipt_shows_def)
  have mint: "mint = ethereum_reported c r" using eth_mint.admit_Ok [OF assms(1)] assms(5) by auto
  note g = eth_mint.admit_inv [OF assms(1,5)]
  have replay: "\<not> is_ok (snd (admit_ethereum_trustless c r' f' g'))" if "ed_source_ref r' = ed_source_ref r" for r' f'
    by (rule eth_mint.admit_replay) (use g that in \<open>simp_all add: mint ethereum_reported_def\<close>)
  have trie: "map_of es (to_nibbles key) = Some receipt \<or> collides kec (set (dp_receipt_proof d)) (set honest)"
    if "entries_ok es \<and> es \<noteq> [] \<and> build es = Ok t \<and> root_hash kec t = xc_receipts_root (lu_execution u) \<and>
         prove kec t key = Ok honest \<and> (\<forall>p \<in> set honest. length p \<le> usize_max)" for es t honest
    using receipt_of_trie [OF vp assms(6)] that by blast
  have "tm_amount mint = raw_amount (kd_raw k) \<and> tm_recipient mint = raw_recipient (kd_raw k) \<and> tm_asset_id mint = raw_asset_id (kd_raw k)"
    using r by (simp add: mint ethereum_reported_def)
  with trie extract_deposit_at_sound [OF xd] key
  have "\<exists>key receipt raw. encode_uint (dp_receipt_index d) = (Ok key :: (eth_error, bytes) res) \<and>
      (\<forall>es t honest. entries_ok es \<and> es \<noteq> [] \<and> build es = Ok t \<and> root_hash kec t = xc_receipts_root (lu_execution u) \<and>
         prove kec t key = Ok honest \<and> (\<forall>p \<in> set honest. length p \<le> usize_max) \<longrightarrow>
         map_of es (to_nibbles key) = Some receipt \<or> collides kec (set (dp_receipt_proof d)) (set honest)) \<and>
      receipt_pays kec receipt (ec_deposit_contract cfg) raw \<and> raw_log_index raw = dp_log_index d \<and>
      tm_amount mint = raw_amount raw \<and> tm_recipient mint = raw_recipient raw \<and> tm_asset_id mint = raw_asset_id raw"
    by blast
  moreover have "\<exists>p cm. period_is cfg (lu_signature_slot u) p \<and> trusted sha bls cfg c0 (unat p0) cm (unat p) \<and>
      signed_by sha bls cfg cm (lu_attested_header u) (lu_sync_aggregate u) (lu_signature_slot u)"
    using sg(1,3) selected_trusted [OF inv sg(2,1)] by blast
  ultimately show ?thesis
    using bootstrap_checkpoint [OF assms(2)] a(2-4) g replay by (intro conjI allI impI) simp_all
qed

section \<open>A proven deposit\<close>

definition flat_kec :: "bytes \<Rightarrow> bytes" where "flat_kec x = replicate 32 7"

definition sample_receipt :: bytes where
  "sample_receipt = rlp_encode (receipt_rlp flat_kec (1 # replicate 19 9) (replicate 32 7) (deposit_data 250000 (replicate 16 3)))"

definition sample_raw :: raw_deposit where
  "sample_raw = \<lparr>raw_recipient = replicate 32 7, raw_amount = 250000, raw_asset_id = replicate 16 3, raw_log_index = 0\<rparr>"

definition sample_receipt_trie :: mpt_node where "sample_receipt_trie = Leaf [8, 0] sample_receipt"

definition sample_update :: "u64 \<Rightarrow> light_client_update" where
  "sample_update slot = \<lparr>lu_attested_header = flat_header slot, lu_finalized_header = flat_header 5,
     lu_finality_branch = replicate 6 zero_chunk,
     lu_sync_aggregate = \<lparr>sa_participation = [True, True, True], sa_signature = []\<rparr>, lu_signature_slot = slot + 1,
     lu_execution = \<lparr>xc_receipts_root = replicate 32 7, xc_block_number = 77,
       xc_execution_branch = replicate 9 zero_chunk, xc_block_number_branch = replicate 9 zero_chunk\<rparr>\<rparr>"

definition sample_deposit_proof :: deposit_proof where
  "sample_deposit_proof = \<lparr>dp_receipt_index = 0, dp_log_index = 0, dp_receipt_proof = [encode_node flat_kec sample_receipt_trie],
     dp_ancestry = [], dp_historical_branch = []\<rparr>"

definition sample_eth_deposit :: ethereum_deposit where
  "sample_eth_deposit = \<lparr>ed_source_ref = replicate 32 7, ed_amount = 250000, ed_recipient = replicate 32 7,
     ed_asset_id = replicate 16 3, ed_block_number = 77, ed_finality_depth = 64\<rparr>"

lemma flat_kec_length: "length (flat_kec x) = 32"
  by (simp add: flat_kec_def)

lemma sample_extract: "extract_deposit_at flat_kec sample_receipt (1 # replicate 19 9) 0 = Ok sample_raw"
  using receipt_round_trip [where kec = flat_kec and contract = "1 # replicate 19 9" and recipient = "replicate 32 7"
      and asset = "replicate 16 3" and amount = 250000]
  by (auto simp: flat_kec_length deposit_receipt_rlp sample_receipt_def sample_raw_def)

lemma sample_receipt_short: "length sample_receipt \<le> 600"
  unfolding sample_receipt_def
  by (rule receipt_rlp_short) (simp_all add: deposit_topic_def flat_kec_length deposit_data_def to_be_bytes_def)

lemma sample_verify: "verify_proof flat_kec (replicate 32 7) [0x80] [encode_node flat_kec sample_receipt_trie] = Ok (Some sample_receipt)"
proof -
  have ne: "sample_receipt \<noteq> []" by (simp add: sample_receipt_def)
  have es: "entries_ok [([8, 0], sample_receipt)]" using ne by (simp add: entries_ok_def nibble_list_def)
  obtain t where t: "holds [([8, 0], sample_receipt)] t" using build_correct [OF es] by auto
  then have tt: "t = sample_receipt_trie"
    by (simp add: holds_def build.simps [of "[([8, 0], sample_receipt)]"] sample_receipt_trie_def)
  have nib: "to_nibbles [0x80] = [8, 0]" by (simp add: to_nibbles_def)
  have pr: "prove flat_kec sample_receipt_trie [0x80] = Ok [encode_node flat_kec sample_receipt_trie]"
    unfolding prove_def sample_receipt_trie_def by (subst prove_walk.simps) (simp add: Let_def)
  have "length (hp_encode [8, 0] True) = 2" by (simp add: hp_encode_def)
  then have "length (encode_node flat_kec sample_receipt_trie) \<le> 700"
    using length_encode_list [of "[encode_bytes (hp_encode [8, 0] True), encode_bytes sample_receipt]"] sample_receipt_short
      length_encode_bytes [of "hp_encode [8, 0] True"] length_encode_bytes [of sample_receipt]
    by (simp add: sample_receipt_trie_def)
  then show ?thesis
    using honest_proof [where kec = flat_kec and key = "[0x80]", OF t flat_kec_length] pr tt nib
    by (auto simp: root_hash_def flat_kec_def)
qed

lemma flat_branch_any: "branch \<noteq> [] \<Longrightarrow> branch_walk flat_sha index i v branch = zero_chunk"
  using flat_branch by (cases branch) (auto simp: hash_pair_def flat_sha_def zero_chunk_def)

lemma sample_selectors:
  "lu_attested_header (sample_update slot) = flat_header slot" "lu_finalized_header (sample_update slot) = flat_header 5"
  "lu_sync_aggregate (sample_update slot) = \<lparr>sa_participation = [True, True, True], sa_signature = []\<rparr>"
  "lu_signature_slot (sample_update slot) = slot + 1" "xc_receipts_root (lu_execution (sample_update slot)) = replicate 32 7"
  "xc_block_number (lu_execution (sample_update slot)) = 77"
  "dp_receipt_index sample_deposit_proof = 0" "dp_log_index sample_deposit_proof = 0"
  "dp_receipt_proof sample_deposit_proof = [encode_node flat_kec sample_receipt_trie]"
  "dp_ancestry sample_deposit_proof = []" "dp_historical_branch sample_deposit_proof = []"
  "bh_slot (flat_header x) = x" "ls_config sample_store = small_cfg"
  "raw_amount sample_raw = 250000" "raw_log_index sample_raw = 0" "raw_recipient sample_raw = replicate 32 7"
  "raw_asset_id sample_raw = replicate 16 3"
  by (simp_all add: sample_update_def sample_deposit_proof_def flat_header_def sample_store_def sample_raw_def)

lemma sample_config:
  "verifies_beacon_sync_committee small_cfg" "ec_sync_committee_size small_cfg = 3"
  "ec_deposit_contract small_cfg = 1 # replicate 19 9" "ec_max_deposit_base_units small_cfg = 1000000000000000000000000"
  "ec_finality_depth small_cfg = 64"
  by (simp_all add: verifies_beacon_sync_committee_def small_cfg_def preset_ethereum_def)

lemma sample_parts:
  assumes "10 \<le> slot" and "slot < 100"
  shows "slots_are_consistent sample_store (slot + 1) slot 5 = Ok ()"
    and "check_participation sample_store \<lparr>sa_participation = [True, True, True], sa_signature = []\<rparr> (slot + 1) = Ok (key_committee 1)"
    and "is_electra_at_slot small_cfg slot = (Ok False :: (eth_error, bool) res)"
proof -
  have sl: "slot < slot + 1" "5 \<le> slot" "slot div 8192 = 0" "(slot + 1) div 8192 = 0" "\<not> 364032 \<le> slot div 32"
    using assms by (simp_all add: word_less_nat_alt word_le_nat_alt unat_word_ariths unat_div_distrib word_unat_eq_iff)
  then show "slots_are_consistent sample_store (slot + 1) slot 5 = Ok ()"
    by (simp add: slots_are_consistent_def sample_store_def flat_eval reach_def not_le)
  show "check_participation sample_store \<lparr>sa_participation = [True, True, True], sa_signature = []\<rparr> (slot + 1) = Ok (key_committee 1)"
    using sl sample_config by (simp add: check_participation_def select_committee_def sample_store_def flat_eval key_committee_def
        participants_def supermajority_threshold_def)
  show "is_electra_at_slot small_cfg slot = (Ok False :: (eth_error, bool) res)" using sl by (simp add: flat_eval)
qed

lemma sample_core:
  assumes "10 \<le> slot" and "slot < 100"
  shows "eth_trustless_deposit flat_sha flat_kec any_bls sample_store (sample_update slot) sample_deposit_proof = Ok sample_eth_deposit"
proof -
  have "verify_finality flat_sha (sample_update slot) False = Ok ()"
    by (simp add: verify_finality_def sample_update_def flat_eval finalized_root_layout_def FINALIZED_ROOT_DEPTH_def flat_header_def)
  moreover have "verify_execution flat_sha (lu_execution (sample_update slot)) (flat_header 5) = Ok ()"
    by (simp add: verify_execution_def sample_update_def is_valid_merkle_branch_def EXECUTION_RECEIPTS_DEPTH_def flat_branch_any flat_header_def)
  moreover have "encode_uint 0 = (Ok [0x80] :: (eth_error, bytes) res)"
    by (simp add: encode_uint_def encode_bytes_def encode_length_def)
  ultimately have "verify_deposit_core flat_sha flat_kec any_bls sample_store (sample_update slot) sample_deposit_proof =
      Ok \<lparr>kd_anchor = header_root flat_sha (flat_header 5), kd_source_ref = replicate 32 7, kd_raw = sample_raw, kd_block_number = 77\<rparr>"
    by (simp add: verify_deposit_core_def sample_selectors sample_config sample_parts [OF assms] verify_ancestry_def
        sample_verify sample_extract sample_signed deposit_source_ref_def flat_kec_def list_all_iff)
  then show ?thesis by (simp add: eth_trustless_deposit_def sample_eth_deposit_def sample_selectors sample_config)
qed

theorem eth_reference_determines_deposit_witness:
  "\<exists>r r'. eth_trustless_deposit flat_sha flat_kec any_bls sample_store (sample_update 10) sample_deposit_proof = Ok r \<and>
     eth_trustless_deposit flat_sha flat_kec any_bls sample_store (sample_update 12) sample_deposit_proof = Ok r' \<and>
     ed_source_ref r = ed_source_ref r' \<and>
     (ed_amount r = ed_amount r' \<and> ed_recipient r = ed_recipient r' \<and> ed_asset_id r = ed_asset_id r' \<and>
        ed_block_number r = ed_block_number r' \<or>
      collides flat_sha (sha_strings flat_sha (sample_update 10) sample_deposit_proof)
        (sha_strings flat_sha (sample_update 12) sample_deposit_proof) \<or>
      collides flat_kec (kec_strings flat_sha (sample_update 10) sample_deposit_proof)
        (kec_strings flat_sha (sample_update 12) sample_deposit_proof))"
proof -
  have wf: "proof_wf (sample_update slot) sample_deposit_proof" for slot
    by (simp add: proof_wf_def sample_update_def deposit_block_def sample_deposit_proof_def header_wf_eth_def flat_header_def zero_chunk_def)
  have len: "length (flat_sha x) = 32" for x by (simp add: flat_sha_def)
  have core: "eth_trustless_deposit flat_sha flat_kec any_bls sample_store (sample_update 10) sample_deposit_proof = Ok sample_eth_deposit"
    "eth_trustless_deposit flat_sha flat_kec any_bls sample_store (sample_update 12) sample_deposit_proof = Ok sample_eth_deposit"
    by (rule sample_core; simp)+
  from eth_reference_determines_deposit [OF core refl refl wf wf len] core show ?thesis by blast
qed

theorem ethereum_mint_backed_witness:
  "\<exists>r g' mint. eth_trustless_deposit flat_sha flat_kec any_bls sample_store (sample_update 10) sample_deposit_proof = Ok r \<and>
   admit_ethereum_trustless sample_proof_corridor r (sample_claim\<lparr>bf_source_ref := replicate 32 7\<rparr>) sample_gateway = (g', Ok mint) \<and>
   in_body flat_sha (lu_execution (sample_update 10)) (flat_header 5) \<and>
   supply_of g' (replicate 16 3) = supply_of sample_gateway (replicate 16 3) + 250000 \<and>
   \<not> is_ok (snd (admit_ethereum_trustless sample_proof_corridor r sample_claim g'))"
proof -
  let ?f = "sample_claim\<lparr>bf_source_ref := replicate 32 7\<rparr>"
  let ?mint = "ethereum_reported sample_proof_corridor sample_eth_deposit"
  have len: "length (flat_kec x) = 32" for x by (simp add: flat_kec_def)
  have core: "eth_trustless_deposit flat_sha flat_kec any_bls sample_store (sample_update 10) sample_deposit_proof = Ok sample_eth_deposit"
    by (rule sample_core) simp_all
  have "fact_claims sample_proof_corridor ?mint ?f"
    by (simp add: fact_claims_def ethereum_reported_def sample_proof_corridor_def sample_corridor_def
        mk_corridor_def sample_claim_def sample_fact_def sample_eth_deposit_def)
  moreover have "precheck_trustless_fact ?f sample_gateway = Ok ()"
    by (simp add: precheck_trustless_fact_def precheck_trustless_def sample_claim_def sample_fact_def gateway_eval)
  ultimately obtain g' where adm: "admit_ethereum_trustless sample_proof_corridor sample_eth_deposit ?f sample_gateway = (g', Ok ?mint)"
    using eth_mint.admit_Ok [OF sample_inv] by blast
  have "tm_amount ?mint = 250000" "tm_asset_id ?mint = replicate 16 3" "block_of (sample_update 10) sample_deposit_proof = flat_header 5"
    by (simp_all add: ethereum_reported_def sample_eth_deposit_def deposit_block_def sample_selectors)
  with ethereum_mint_backed [OF sample_inv sample_bootstrap runs_start core adm len]
  have "in_body flat_sha (lu_execution (sample_update 10)) (flat_header 5)"
    "supply_of g' (replicate 16 3) = supply_of sample_gateway (replicate 16 3) + 250000"
    "\<not> is_ok (snd (admit_ethereum_trustless sample_proof_corridor sample_eth_deposit sample_claim g'))" by auto
  with core adm show ?thesis by blast
qed

end
