(* ===== verification/Eth_Keccak.thy ===== *)
theory Eth_Keccak
  imports Btc_Hash
begin

text \<open>
  Keccak-256 as \<^verbatim>\<open>crates/qlc-ethereum/src/keccak.rs\<close> computes it (the state in one array of 25 lanes that every
  loop updates in place, the rotation and permutation of the lanes as one cycle, the padding by two
  exclusive-ors) and the description of the standard (FIPS 202: the five step mappings on lanes addressed by
  two coordinates, rotation offsets and round constants by their defining recurrences, and the sponge over
  padded blocks), with the proof that the two agree.
\<close>

unbundle bit_operations_syntax

section \<open>The code\<close>

definition KECCAK_RC :: "u64 list" where
  "KECCAK_RC = [
    0x0000000000000001, 0x0000000000008082, 0x800000000000808a, 0x8000000080008000,
    0x000000000000808b, 0x0000000080000001, 0x8000000080008081, 0x8000000000008009,
    0x000000000000008a, 0x0000000000000088, 0x0000000080008009, 0x000000008000000a,
    0x000000008000808b, 0x800000000000008b, 0x8000000000008089, 0x8000000000008003,
    0x8000000000008002, 0x8000000000000080, 0x000000000000800a, 0x800000008000000a,
    0x8000000080008081, 0x8000000000008080, 0x0000000080000001, 0x8000000080008008]"

definition KECCAK_RHO :: "nat list" where
  "KECCAK_RHO = [1, 3, 6, 10, 15, 21, 28, 36, 45, 55, 2, 14, 27, 41, 56, 8, 25, 43, 62, 18, 39, 61, 20, 44]"

definition KECCAK_PI :: "usize list" where
  "KECCAK_PI = [10, 7, 11, 17, 18, 3, 5, 16, 8, 21, 24, 4, 15, 23, 19, 13, 12, 2, 20, 14, 22, 9, 6, 1]"

definition RATE :: usize where "RATE = 136"

definition rotate_left_u64 :: "u64 \<Rightarrow> nat \<Rightarrow> u64" where
  "rotate_left_u64 w n = push_bit n w OR drop_bit (64 - n) w"

definition keccak_columns :: "u64 list \<Rightarrow> u64 list" where
  "keccak_columns state =
     fold (\<lambda>x c. c[x := state ! x XOR state ! (x + 5) XOR state ! (x + 10) XOR state ! (x + 15) XOR state ! (x + 20)])
       [0..<5] (replicate 5 0)"

definition keccak_column :: "u64 list \<Rightarrow> usize \<Rightarrow> u64 list \<Rightarrow> u64 list" where
  "keccak_column c x state =
     (let d = c ! ((x + 4) mod 5) XOR rotate_left_u64 (c ! ((x + 1) mod 5)) 1
      in fold (\<lambda>y st. st[x + 5 * y := st ! (x + 5 * y) XOR d]) [0..<5] state)"

definition keccak_mix :: "u64 list \<Rightarrow> u64 list" where
  "keccak_mix state = fold (keccak_column (keccak_columns state)) [0..<5] state"

definition keccak_turn :: "u64 list \<Rightarrow> u64 list" where
  "keccak_turn state =
     fst (fold (\<lambda>i (st, current). let j = KECCAK_PI ! i in (st[j := rotate_left_u64 current (KECCAK_RHO ! i)], st ! j))
            [0..<24] (state, state ! 1))"

definition keccak_row :: "usize \<Rightarrow> u64 list \<Rightarrow> u64 list" where
  "keccak_row y state =
     (let t = fold (\<lambda>x t. t[x := state ! (x + 5 * y)]) [0..<5] (replicate 5 0)
      in fold (\<lambda>x st. st[x + 5 * y := t ! x XOR (NOT (t ! ((x + 1) mod 5)) AND t ! ((x + 2) mod 5))]) [0..<5] state)"

definition keccak_round :: "u64 \<Rightarrow> u64 list \<Rightarrow> u64 list" where
  "keccak_round rc state =
     (let st = fold keccak_row [0..<5] (keccak_turn (keccak_mix state))
      in st[0 := st ! 0 XOR rc])"

definition keccak_f :: "u64 list \<Rightarrow> u64 list" where
  "keccak_f state = fold keccak_round KECCAK_RC state"

definition absorb_block :: "u64 list \<Rightarrow> bytes \<Rightarrow> u64 list" where
  "absorb_block state block =
     keccak_f (fold (\<lambda>k st. st[k := st ! k XOR from_le_bytes (take 8 (drop (k * 8) block))]) [0..<RATE div 8] state)"

text \<open>The loop over the full blocks: it returns the state and the position behind the last one.\<close>

function absorb_full :: "bytes \<Rightarrow> u64 list \<Rightarrow> usize \<Rightarrow> u64 list \<times> usize" where
  "absorb_full input state i =
     (if i + RATE \<le> length input
      then absorb_full input (absorb_block state (take RATE (drop i input))) (i + RATE)
      else (state, i))"
  by pat_completeness auto
termination by (relation "measure (\<lambda>(input, state, i). length input - i)") (auto simp: RATE_def)

declare absorb_full.simps [simp del]

definition last_block :: "bytes \<Rightarrow> bytes" where
  "last_block rem =
     (let block = rem @ replicate (RATE - length rem) 0;
          block = block[length rem := block ! length rem XOR 0x01]
      in block[RATE - 1 := block ! (RATE - 1) XOR 0x80])"

definition keccak256 :: "bytes \<Rightarrow> bytes" where
  "keccak256 input =
     (let (state, i) = absorb_full input (replicate 25 0) 0;
          state = absorb_block state (last_block (drop i input))
      in concat (map (\<lambda>k. to_le_bytes (state ! k)) [0..<4]))"

section \<open>The standard\<close>

type_synonym lanes = "nat \<Rightarrow> nat \<Rightarrow> u64"

definition fips_theta :: "lanes \<Rightarrow> lanes" where
  "fips_theta A =
     (let C = (\<lambda>x. A x 0 XOR A x 1 XOR A x 2 XOR A x 3 XOR A x 4);
          D = (\<lambda>x. C ((x + 4) mod 5) XOR word_rotl 1 (C ((x + 1) mod 5)))
      in (\<lambda>x y. A x y XOR D x))"

text \<open>The lane at coordinates \<open>(1, 0)\<close> comes first; the next one is at \<open>(y, (2 x + 3 y) mod 5)\<close>, and the
  offset of lane number \<open>t\<close> is \<open>(t + 1) (t + 2) / 2\<close>.\<close>

primrec fips_lane :: "nat \<Rightarrow> nat \<times> nat" where
  "fips_lane 0 = (1, 0)"
| "fips_lane (Suc t) = (let (x, y) = fips_lane t in (y, (2 * x + 3 * y) mod 5))"

definition fips_rho :: "lanes \<Rightarrow> lanes" where
  "fips_rho A x y =
     (case find (\<lambda>t. fips_lane t = (x, y)) [0..<24] of
        Some t \<Rightarrow> word_rotl ((t + 1) * (t + 2) div 2) (A x y)
      | None \<Rightarrow> A x y)"

definition fips_pi :: "lanes \<Rightarrow> lanes" where
  "fips_pi A x y = A ((x + 3 * y) mod 5) x"

definition fips_chi :: "lanes \<Rightarrow> lanes" where
  "fips_chi A x y = A x y XOR (NOT (A ((x + 1) mod 5) y) AND A ((x + 2) mod 5) y)"

text \<open>The linear feedback register of the round constants, on its eight bits with the oldest first.\<close>

definition fips_shift :: "bool list \<Rightarrow> bool list" where
  "fips_shift R =
     (let R = False # R; b = R ! 8 in take 8 (R[0 := R ! 0 \<noteq> b, 4 := R ! 4 \<noteq> b, 5 := R ! 5 \<noteq> b, 6 := R ! 6 \<noteq> b]))"

primrec fips_register :: "nat \<Rightarrow> bool list" where
  "fips_register 0 = [True, False, False, False, False, False, False, False]"
| "fips_register (Suc t) = fips_shift (fips_register t)"

definition fips_rc :: "nat \<Rightarrow> bool" where
  "fips_rc t = fips_register (t mod 255) ! 0"

definition fips_round_constant :: "nat \<Rightarrow> u64" where
  "fips_round_constant r = fold (\<lambda>j w. if fips_rc (j + 7 * r) then w XOR push_bit (2 ^ j - 1) 1 else w) [0..<7] 0"

definition fips_iota :: "nat \<Rightarrow> lanes \<Rightarrow> lanes" where
  "fips_iota r A x y = (if x = 0 \<and> y = 0 then A 0 0 XOR fips_round_constant r else A x y)"

definition fips_round :: "nat \<Rightarrow> lanes \<Rightarrow> lanes" where
  "fips_round r A = fips_iota r (fips_chi (fips_pi (fips_rho (fips_theta A))))"

definition fips_permutation :: "lanes \<Rightarrow> lanes" where
  "fips_permutation A = fold fips_round [0..<24] A"

text \<open>The sponge with 1088 bits of rate; Keccak-256 appends the bit string \<open>1 0* 1\<close> to the message.\<close>

definition fips_pad_bytes :: "nat \<Rightarrow> bytes" where
  "fips_pad_bytes q = (if q = 1 then [0x81] else 0x01 # replicate (q - 2) 0 @ [0x80])"

definition fips_padded :: "bytes \<Rightarrow> bytes" where
  "fips_padded m = m @ fips_pad_bytes (136 - length m mod 136)"

definition fips_absorb :: "bytes \<Rightarrow> lanes \<Rightarrow> lanes" where
  "fips_absorb block A =
     fips_permutation (\<lambda>x y. if x + 5 * y < 17 then A x y XOR from_le_bytes (take 8 (drop (8 * (x + 5 * y)) block)) else A x y)"

definition fips_keccak256 :: "bytes \<Rightarrow> bytes" where
  "fips_keccak256 m =
     (let A = fold fips_absorb (chunks_exact 136 (fips_padded m)) (\<lambda>x y. 0)
      in concat (map (\<lambda>x. to_le_bytes (A x 0)) [0..<4]))"

section \<open>The two agree\<close>

text \<open>The array holds the lane at coordinates \<open>x\<close> and \<open>y\<close> in entry \<open>x + 5 y\<close>.\<close>

definition lane_list :: "lanes \<Rightarrow> u64 list" where
  "lane_list A =
     [A 0 0, A 1 0, A 2 0, A 3 0, A 4 0, A 0 1, A 1 1, A 2 1, A 3 1, A 4 1, A 0 2, A 1 2, A 2 2, A 3 2, A 4 2,
      A 0 3, A 1 3, A 2 3, A 3 3, A 4 3, A 0 4, A 1 4, A 2 4, A 3 4, A 4 4]"

lemma update_numeral: "(x # xs)[numeral k := v] = x # xs[pred_numeral k := v]"
  by (simp add: numeral_eq_Suc)

lemma upto_lanes:
  "[0..<4] = [0, 1, 2, 3]" "[0..<5] = [0, 1, 2, 3, 4]"
  "[0..<17] = [0, 1, 2, 3, 4, 5, 6, 7, 8, 9, 10, 11, 12, 13, 14, 15, 16]"
  "[0..<24] = [0, 1, 2, 3, 4, 5, 6, 7, 8, 9, 10, 11, 12, 13, 14, 15, 16, 17, 18, 19, 20, 21, 22, 23]"
  by code_simp+

lemma five_zeros: "replicate 5 (0 :: u64) = [0, 0, 0, 0, 0]"
  by (simp add: numeral_eq_Suc)

lemma update_small: "(x # xs)[0 := v] = v # xs" "(x # xs)[1 := v] = x # xs[0 := v]" "(x # xs) ! 1 = xs ! 0"
  by simp_all

lemmas lane_eval = upto_lanes update_numeral update_small five_zeros lane_list_def

lemma rotate_left_rotl:
  assumes n: "n < 64"
  shows "rotate_left_u64 w n = word_rotl n w"
proof (rule bit_word_eqI)
  fix k assume "k < LENGTH(64)"
  then have k: "k < 64" by simp
  have rot: "word_rotl n w = word_rotr (64 - n) w" using n by (simp add: word_rotl_eq_word_rotr)
  have pos: "(k + (64 - n)) mod 64 = (if k < n then k + (64 - n) else k - n)"
    using n k by (cases "k < n") (auto simp: mod_if)
  have "bit (word_rotl n w) k = bit w (if k < n then k + (64 - n) else k - n)"
    unfolding rot bit_word_rotr_iff using k pos by simp
  moreover have "bit (rotate_left_u64 w n) k \<longleftrightarrow> n \<le> k \<and> bit w (k - n) \<or> bit w ((64 - n) + k)"
    using k by (simp add: rotate_left_u64_def bit_or_iff bit_drop_bit_eq bit_push_bit_iff)
  ultimately show "bit (rotate_left_u64 w n) k = bit (word_rotl n w) k"
    using n k bit_imp_le_length [of w "(64 - n) + k"] by (auto simp: ac_simps)
qed

lemma rotl_mod: "word_rotl (n mod 64) (w :: u64) = word_rotl n w"
  by (simp add: word_rotl_eq_word_rotr)

lemmas lane_num = One_nat_def list_update.simps add_2_eq_Suc add_2_eq_Suc'

lemma mix_column:
  assumes "x < 5"
  shows "keccak_column c x (lane_list A) =
    lane_list (\<lambda>x' y. if x' = x then A x' y XOR (c ! ((x + 4) mod 5) XOR word_rotl 1 (c ! ((x + 1) mod 5))) else A x' y)"
proof -
  have "x \<in> {0, 1, 2, 3, 4}" using assms by auto
  then have "fold (\<lambda>y st. st[x + 5 * y := st ! (x + 5 * y) XOR d]) [0..<5] (lane_list A) =
      lane_list (\<lambda>x' y. if x' = x then A x' y XOR d else A x' y)" for d
    by (elim insertE emptyE; hypsubst) (simp_all add: lane_eval del: lane_num)
  then show ?thesis by (simp add: keccak_column_def rotate_left_rotl del: lane_num)
qed

lemma mix_theta: "keccak_mix (lane_list A) = lane_list (fips_theta A)"
proof -
  let ?C = "\<lambda>x. A x 0 XOR A x 1 XOR A x 2 XOR A x 3 XOR A x 4"
  have "keccak_columns (lane_list A) = [?C 0, ?C 1, ?C 2, ?C 3, ?C 4]"
    by (simp add: keccak_columns_def lane_eval del: lane_num)
  then show ?thesis
    by (simp add: keccak_mix_def upto_lanes(2) mix_column del: lane_num) (simp add: lane_list_def fips_theta_def Let_def del: lane_num, simp)
qed

text \<open>The offsets of the code are those of the standard modulo the width of a lane.\<close>

lemma fips_rho_mod:
  "fips_rho A x y = (case find (\<lambda>t. fips_lane t = (x, y)) [0..<24] of
     Some t \<Rightarrow> word_rotl ((t + 1) * (t + 2) div 2 mod 64) (A x y) | None \<Rightarrow> A x y)"
  unfolding fips_rho_def rotl_mod ..

lemma fips_lanes:
  "map fips_lane [0..<24] =
    [(1, 0), (0, 2), (2, 1), (1, 2), (2, 3), (3, 3), (3, 0), (0, 1), (1, 3), (3, 1), (1, 4), (4, 4),
     (4, 0), (0, 3), (3, 4), (4, 3), (3, 2), (2, 2), (2, 0), (0, 4), (4, 2), (2, 4), (4, 1), (1, 1)]"
  by code_simp

lemma rho_offsets:
  "find (\<lambda>t. fips_lane t = (x, y)) [0..<24] = find (\<lambda>t. map fips_lane [0..<24] ! t = (x, y)) [0..<24]"
  by (rule find_cong) simp_all

lemma turn_rho_pi: "keccak_turn (lane_list A) = lane_list (fips_pi (fips_rho A))"
  unfolding fips_pi_def fips_rho_mod rho_offsets fips_lanes
  by (simp add: keccak_turn_def lane_eval KECCAK_PI_def KECCAK_RHO_def rotate_left_rotl del: lane_num, simp)

lemma row_chi:
  assumes "y < 5"
  shows "keccak_row y (lane_list A) = lane_list (\<lambda>x y'. if y' = y then fips_chi A x y' else A x y')"
proof -
  have "y \<in> {0, 1, 2, 3, 4}" using assms by auto
  then show ?thesis
    by (elim insertE emptyE; hypsubst) (simp_all add: keccak_row_def lane_eval fips_chi_def del: lane_num, simp_all)
qed

lemma rows_chi: "fold keccak_row [0..<5] (lane_list A) = lane_list (fips_chi A)"
  by (simp add: upto_lanes(2) row_chi del: lane_num) (simp add: lane_list_def fips_chi_def del: lane_num)

text \<open>The table of round constants: the outputs of the register are computed in one run.\<close>

primrec register_run :: "nat \<Rightarrow> bool list \<Rightarrow> bool list" where
  "register_run 0 R = []"
| "register_run (Suc n) R = R ! 0 # register_run n (fips_shift R)"

lemma register_run_nth: "i < n \<Longrightarrow> register_run n (fips_register t) ! i = fips_register (t + i) ! 0"
proof (induction n arbitrary: i t)
  case (Suc n)
  then show ?case using Suc.IH [of "i - 1" "Suc t"] by (cases i) simp_all
qed simp

lemma round_constants: "KECCAK_RC = map fips_round_constant [0..<24]"
proof -
  let ?bits = "register_run 168 [True, False, False, False, False, False, False, False]"
  have rc: "fips_rc t = ?bits ! t" if "t < 168" for t
    using that register_run_nth [of t 168 0] by (simp add: fips_rc_def)
  have "fips_round_constant r = fold (\<lambda>j w. if ?bits ! (j + 7 * r) then w XOR push_bit (2 ^ j - 1) 1 else w) [0..<7] 0"
    if "r < 24" for r
    unfolding fips_round_constant_def using that by (intro fold_cong) (simp_all add: rc)
  then have "map fips_round_constant [0..<24] =
      (let bits = ?bits in map (\<lambda>r. fold (\<lambda>j w. if bits ! (j + 7 * r) then w XOR push_bit (2 ^ j - 1) 1 else w) [0..<7] 0) [0..<24])"
    by (simp add: Let_def)
  also have "\<dots> = KECCAK_RC" by code_simp
  finally show ?thesis by simp
qed

lemma round_fips: "keccak_round (fips_round_constant r) (lane_list A) = lane_list (fips_round r A)"
  by (simp add: keccak_round_def mix_theta turn_rho_pi rows_chi fips_round_def) (simp add: lane_list_def fips_iota_def)

lemma keccak_f_fips: "keccak_f (lane_list A) = lane_list (fips_permutation A)"
proof -
  have "fold keccak_round (map fips_round_constant rs) (lane_list A) = lane_list (fold fips_round rs A)" for rs
    by (induction rs arbitrary: A) (simp_all add: round_fips)
  then show ?thesis by (simp only: keccak_f_def fips_permutation_def round_constants)
qed

lemma absorb_fips: "absorb_block (lane_list A) block = lane_list (fips_absorb block A)"
proof -
  have "fold (\<lambda>k st. st[k := st ! k XOR w k]) [0..<17] (lane_list A) =
      lane_list (\<lambda>x y. if x + 5 * y < 17 then A x y XOR w (x + 5 * y) else A x y)" for w
    by (simp add: lane_eval del: lane_num)
  from this [of "\<lambda>k. from_le_bytes (take 8 (drop (8 * k) block))"] show ?thesis
    by (simp add: absorb_block_def fips_absorb_def RATE_def keccak_f_fips mult.commute)
qed

lemma absorb_full_fips:
  "absorb_full input (lane_list A) i =
     (lane_list (fold fips_absorb (chunks_exact 136 (drop i input)) A), i + 136 * ((length input - i) div 136))"
proof (induction "length input - i" arbitrary: i A rule: less_induct)
  case less
  show ?case
  proof (cases "i + 136 \<le> length input")
    case True
    have "(length input - i) div 136 = Suc ((length input - (i + 136)) div 136)"
      using True by (simp add: le_div_geq diff_diff_eq)
    moreover have "\<not> length (drop i input) < 136" "drop 136 (drop i input) = drop (i + 136) input"
      using True by (simp_all add: add.commute)
    ultimately show ?thesis
      using True less [of "i + 136"]
      by (subst absorb_full.simps, subst chunks_exact.simps) (simp add: RATE_def absorb_fips)
  next
    case False
    then have "length (drop i input) < 136" by simp
    with False show ?thesis by (subst absorb_full.simps, subst chunks_exact.simps) (simp add: RATE_def)
  qed
qed

lemma last_block_pad:
  assumes "length rem < 136"
  shows "last_block rem = rem @ fips_pad_bytes (136 - length rem)"
proof -
  have "replicate (136 - length rem) (0 :: u8) = 0 # replicate (135 - length rem) 0"
    using assms by (simp add: Suc_diff_le flip: replicate_Suc)
  then have "last_block rem = (rem @ 1 # replicate (135 - length rem) 0)[135 := (rem @ 1 # replicate (135 - length rem) 0) ! 135 XOR 0x80]"
    by (simp add: last_block_def RATE_def list_update_append nth_append)
  also have "\<dots> = rem @ fips_pad_bytes (136 - length rem)"
  proof (cases "length rem = 135")
    case False
    then have k: "135 - length rem = Suc (134 - length rem)" using assms by simp
    then have "replicate (135 - length rem) (0 :: u8) = replicate (134 - length rem) 0 @ [0]"
      by (simp only: k replicate_Suc replicate_append_same)
    with k False assms show ?thesis by (simp add: fips_pad_bytes_def list_update_append nth_append)
  qed (simp add: fips_pad_bytes_def list_update_append nth_append)
  finally show ?thesis .
qed

lemma chunks_padded:
  fixes m :: bytes
  defines "q \<equiv> 136 * (length m div 136)"
  shows "chunks_exact 136 (fips_padded m) = chunks_exact 136 m @ [last_block (drop q m)]"
proof -
  let ?k = "length m div 136" and ?p = "fips_pad_bytes (136 - length m mod 136)"
  have r: "length m mod 136 < 136" "length m = 136 * ?k + length m mod 136" by simp_all
  have p: "length ?p = 136 - length m mod 136" using r by (auto simp: fips_pad_bytes_def)
  have "length (m @ ?p) = 136 * Suc ?k" unfolding length_append p by presburger
  then have len: "length (m @ ?p) div 136 = Suc ?k" by (simp only: nonzero_mult_div_cancel_left)
  have rem: "length (drop q m) = length m mod 136" by (simp add: q_def minus_mult_div_eq_mod)
  have "take 136 (drop (136 * i) (m @ ?p)) = take 136 (drop (136 * i) m)" if "i < ?k" for i
  proof -
    have "136 * Suc i \<le> 136 * ?k" using that by (intro mult_left_mono) auto
    then show ?thesis using r by simp
  qed
  moreover have "take 136 (drop (136 * ?k) (m @ ?p)) = last_block (drop q m)"
    using p r rem last_block_pad [of "drop q m"] by (simp add: q_def)
  ultimately show ?thesis
    unfolding fips_padded_def chunks_exact_map [of 136, simplified] len by (simp del: take_append drop_append)
qed

lemma keccak256_fips: "keccak256 input = fips_keccak256 input"
proof -
  have "replicate 25 (0 :: u64) = lane_list (\<lambda>x y. 0)" by (simp add: lane_list_def numeral_eq_Suc)
  then have "absorb_full input (replicate 25 0) 0 =
      (lane_list (fold fips_absorb (chunks_exact 136 input) (\<lambda>x y. 0)), 136 * (length input div 136))"
    using absorb_full_fips [of input "\<lambda>x y. 0" 0] by simp
  then show ?thesis
    by (simp add: keccak256_def fips_keccak256_def chunks_padded absorb_fips upto_lanes(1)) (simp add: lane_list_def Let_def)
qed

lemma length_keccak256 [simp]: "length (keccak256 input) = 32"
  unfolding keccak256_fips fips_keccak256_def by (simp add: upto_lanes(1) Let_def)

text \<open>C34: The hash of the Ethereum client is Keccak-256. On every input the in-place permutation, the loop over the
  full blocks and the padding of the last one compute the digest that the standard defines with the padding rule
  of Keccak, and it has 32 bytes.\<close>

theorem keccak256_is_fips: "keccak256 input = fips_keccak256 input \<and> length (keccak256 input) = 32"
  by (simp add: keccak256_fips [symmetric])

end
