(* ===== verification/Cosmos_Merkle.thy ===== *)
theory Cosmos_Merkle
  imports Prelude
begin

text \<open>
  The Merkle trees of the Cosmos client (\<^verbatim>\<open>crates/qlc-cosmos/src/merkle.rs\<close>): roots, inclusion proofs and their
  verification, with the hash as the argument \<open>sha\<close>. A root determines its leaves, an honest proof is accepted, and
  a proof accepted against the root of some leaves shows the leaf at its index; in each case unless the hash
  collides on strings hashed on the two sides.
\<close>

section \<open>The code\<close>

definition cm_leaf_hash :: "(bytes \<Rightarrow> bytes) \<Rightarrow> bytes \<Rightarrow> bytes" where
  "cm_leaf_hash sha leaf = sha (0x00 # leaf)"

definition inner_hash :: "(bytes \<Rightarrow> bytes) \<Rightarrow> bytes \<Rightarrow> bytes \<Rightarrow> bytes" where
  "inner_hash sha left right = sha (0x01 # left @ right)"

text \<open>\<open>while k < n - k { k *= 2 }\<close>, entered with \<open>k = 1\<close>.\<close>

function pow2_loop :: "usize \<Rightarrow> usize \<Rightarrow> usize" where
  "pow2_loop n k = (if 0 < k \<and> k < n - k then pow2_loop n (k * 2) else k)"
  by pat_completeness auto
termination by (relation "measure (\<lambda>(n, k). n - k)") auto

declare pow2_loop.simps [simp del]

definition largest_pow2_lt :: "usize \<Rightarrow> usize" where
  "largest_pow2_lt n = pow2_loop n 1"

lemma pow2_loop_bounds: "0 < k \<Longrightarrow> k < n \<Longrightarrow> k \<le> pow2_loop n k \<and> pow2_loop n k < n \<and> n \<le> 2 * pow2_loop n k"
proof (induction n k rule: pow2_loop.induct)
  case (1 n k)
  show ?case
  proof (cases "k < n - k")
    case True
    then have "k * 2 < n" "pow2_loop n k = pow2_loop n (k * 2)" using 1 by (simp_all add: pow2_loop.simps [of n k])
    with 1 True show ?thesis by auto
  qed (use 1 in \<open>simp add: pow2_loop.simps [of n k]\<close>)
qed

lemma largest_pow2_lt: "2 \<le> n \<Longrightarrow> 0 < largest_pow2_lt n \<and> largest_pow2_lt n < n \<and> n \<le> 2 * largest_pow2_lt n"
  using pow2_loop_bounds [of 1 n] by (simp add: largest_pow2_lt_def)

lemma halves_shorter [simp]:
  assumes "Suc 0 < length xs"
  shows "length (take (largest_pow2_lt (length xs)) xs) < length xs" and "length xs - largest_pow2_lt (length xs) < length xs"
  using largest_pow2_lt [of "length xs"] assms by auto

function cosmos_merkle_root :: "(bytes \<Rightarrow> bytes) \<Rightarrow> bytes list \<Rightarrow> bytes" where
  "cosmos_merkle_root sha leaves =
     (if length leaves = 0 then sha []
      else if length leaves = 1 then cm_leaf_hash sha (leaves ! 0)
      else let k = largest_pow2_lt (length leaves)
           in inner_hash sha (cosmos_merkle_root sha (take k leaves)) (cosmos_merkle_root sha (drop k leaves)))"
  by pat_completeness auto
termination by (relation "measure (\<lambda>(sha, leaves). length leaves)") (auto simp: not_le simp del: length_take intro!: halves_shorter Suc_lessI)

declare cosmos_merkle_root.simps [simp del]

function proof_aunts :: "(bytes \<Rightarrow> bytes) \<Rightarrow> bytes list \<Rightarrow> usize \<Rightarrow> bytes list" where
  "proof_aunts sha leaves index =
     (if length leaves \<le> 1 then []
      else let k = largest_pow2_lt (length leaves)
           in if index < k then proof_aunts sha (take k leaves) index @ [cosmos_merkle_root sha (drop k leaves)]
              else proof_aunts sha (drop k leaves) (index - k) @ [cosmos_merkle_root sha (take k leaves)])"
  by pat_completeness auto
termination by (relation "measure (\<lambda>(sha, leaves, index). length leaves)") (auto simp: not_le simp del: length_take intro!: halves_shorter Suc_lessI)

declare proof_aunts.simps [simp del]

function compute_root :: "(bytes \<Rightarrow> bytes) \<Rightarrow> usize \<Rightarrow> usize \<Rightarrow> bytes \<Rightarrow> bytes list \<Rightarrow> bytes option" where
  "compute_root sha index n leaf_hash aunts =
     (if n = 0 \<or> index \<ge> n then None
      else if n = 1 then (if aunts = [] then Some leaf_hash else None)
      else if aunts = [] then None
      else
        let top_aunt = aunts ! (length aunts - 1); others = take (length aunts - 1) aunts; k = largest_pow2_lt n
        in if index < k
           then (case compute_root sha index k leaf_hash others of
                   None \<Rightarrow> None | Some left \<Rightarrow> Some (inner_hash sha left top_aunt))
           else (case compute_root sha (index - k) (n - k) leaf_hash others of
                   None \<Rightarrow> None | Some right \<Rightarrow> Some (inner_hash sha top_aunt right)))"
  by pat_completeness auto
termination by (relation "measure (\<lambda>(sha, index, n, leaf_hash, aunts). length aunts)") auto

declare compute_root.simps [simp del]

definition cosmos_verify_inclusion :: "(bytes \<Rightarrow> bytes) \<Rightarrow> bytes \<Rightarrow> bytes \<Rightarrow> usize \<Rightarrow> usize \<Rightarrow> bytes list \<Rightarrow> bool" where
  "cosmos_verify_inclusion sha root leaf index n aunts =
     (case compute_root sha index n (cm_leaf_hash sha leaf) aunts of Some r \<Rightarrow> r = root | None \<Rightarrow> False)"

section \<open>A root determines its leaves\<close>

text \<open>The strings that are hashed for the root of the leaves.\<close>

function tree_strings :: "(bytes \<Rightarrow> bytes) \<Rightarrow> bytes list \<Rightarrow> bytes set" where
  "tree_strings sha leaves =
     (if length leaves = 0 then {[]}
      else if length leaves = 1 then {0x00 # leaves ! 0}
      else let k = largest_pow2_lt (length leaves)
           in insert (0x01 # cosmos_merkle_root sha (take k leaves) @ cosmos_merkle_root sha (drop k leaves))
                (tree_strings sha (take k leaves) \<union> tree_strings sha (drop k leaves)))"
  by pat_completeness auto
termination by (relation "measure (\<lambda>(sha, leaves). length leaves)") (auto simp: not_le simp del: length_take intro!: halves_shorter Suc_lessI)

declare tree_strings.simps [simp del]

text \<open>The string at the root of a tree.\<close>

definition root_string :: "(bytes \<Rightarrow> bytes) \<Rightarrow> bytes list \<Rightarrow> bytes" where
  "root_string sha leaves =
     (if length leaves = 0 then []
      else if length leaves = 1 then 0x00 # leaves ! 0
      else let k = largest_pow2_lt (length leaves)
           in 0x01 # cosmos_merkle_root sha (take k leaves) @ cosmos_merkle_root sha (drop k leaves))"

lemma cosmos_root_string: "cosmos_merkle_root sha leaves = sha (root_string sha leaves)"
  by (subst cosmos_merkle_root.simps) (simp add: root_string_def cm_leaf_hash_def inner_hash_def Let_def)

lemma root_string_two:
  "Suc 0 < length xs \<Longrightarrow> root_string sha xs =
     0x01 # cosmos_merkle_root sha (take (largest_pow2_lt (length xs)) xs) @ cosmos_merkle_root sha (drop (largest_pow2_lt (length xs)) xs)"
  by (auto simp: root_string_def Let_def)

lemma root_string_in: "root_string sha leaves \<in> tree_strings sha leaves"
  by (subst tree_strings.simps) (simp add: root_string_def Let_def)

lemma length_cosmos_root: "(\<And>x. length (sha x) = 32) \<Longrightarrow> length (cosmos_merkle_root sha xs) = 32"
  by (simp add: cosmos_root_string)

lemma sha_no_collision: "\<not> collides sha A B \<Longrightarrow> x \<in> A \<Longrightarrow> y \<in> B \<Longrightarrow> sha x = sha y \<Longrightarrow> x = y"
  unfolding collides_def by blast

lemma cosmos_root_binds:
  assumes len: "\<And>x. length (sha x) = 32"
  shows "cosmos_merkle_root sha xs = cosmos_merkle_root sha ys \<Longrightarrow> \<not> collides sha (tree_strings sha xs) (tree_strings sha ys) \<Longrightarrow> xs = ys"
proof (induction "length xs" arbitrary: xs ys rule: less_induct)
  case less
  let ?k = "largest_pow2_lt (length xs)" and ?m = "largest_pow2_lt (length ys)"
  have eq: "root_string sha xs = root_string sha ys"
    using less.prems(1) unfolding cosmos_root_string
    by (rule sha_no_collision [OF less.prems(2) root_string_in root_string_in])
  show ?case
  proof (cases "Suc 0 < length xs")
    case True
    then have two: "Suc 0 < length ys"
      using eq by (auto simp: root_string_def Let_def intro!: Suc_lessI split: if_splits)
    with True eq have "cosmos_merkle_root sha (take ?k xs) = cosmos_merkle_root sha (take ?m ys)" "cosmos_merkle_root sha (drop ?k xs) = cosmos_merkle_root sha (drop ?m ys)"
      by (simp_all add: root_string_two length_cosmos_root len)
    moreover have "tree_strings sha (take (largest_pow2_lt (length zs)) zs) \<subseteq> tree_strings sha zs"
      "tree_strings sha (drop (largest_pow2_lt (length zs)) zs) \<subseteq> tree_strings sha zs" if "Suc 0 < length zs" for zs
      using that by (subst (2) tree_strings.simps, force simp: Let_def)+
    then have "\<not> collides sha (tree_strings sha (take ?k xs)) (tree_strings sha (take ?m ys))"
      "\<not> collides sha (tree_strings sha (drop ?k xs)) (tree_strings sha (drop ?m ys))"
      using less.prems(2) collides_mono True two by metis+
    ultimately have "take ?k xs = take ?m ys" "drop ?k xs = drop ?m ys"
      using less.hyps halves_shorter [OF True] by (simp_all del: length_take)
    then show ?thesis by (metis append_take_drop_id)
  next
    case False
    then show ?thesis using eq
      by (cases xs; cases ys) (auto simp: root_string_def Let_def split: if_splits)
  qed
qed

section \<open>Inclusion proofs\<close>

text \<open>The strings that the verifier hashes.\<close>

function proof_strings :: "(bytes \<Rightarrow> bytes) \<Rightarrow> usize \<Rightarrow> usize \<Rightarrow> bytes \<Rightarrow> bytes list \<Rightarrow> bytes set" where
  "proof_strings sha index n leaf aunts =
     (if aunts = [] then {0x00 # leaf}
      else
        let a = last aunts; others = butlast aunts; k = largest_pow2_lt n
        in if index < k
           then insert (0x01 # the (compute_root sha index k (cm_leaf_hash sha leaf) others) @ a)
                  (proof_strings sha index k leaf others)
           else insert (0x01 # a @ the (compute_root sha (index - k) (n - k) (cm_leaf_hash sha leaf) others))
                  (proof_strings sha (index - k) (n - k) leaf others))"
  by pat_completeness auto
termination by (relation "measure (\<lambda>(sha, index, n, leaf, aunts). length aunts)") auto

declare proof_strings.simps [simp del]

lemma compute_root_one: "compute_root sha index (Suc 0) lh aunts = (if index = 0 \<and> aunts = [] then Some lh else None)"
  by (subst compute_root.simps) auto

lemma compute_root_step:
  assumes "2 \<le> n"
  shows "compute_root sha index n lh aunts =
    (if n \<le> index \<or> aunts = [] then None
     else let k = largest_pow2_lt n
          in if index < k
             then map_option (\<lambda>left. inner_hash sha left (last aunts)) (compute_root sha index k lh (butlast aunts))
             else map_option (\<lambda>right. inner_hash sha (last aunts) right) (compute_root sha (index - k) (n - k) lh (butlast aunts)))"
  using assms by (subst compute_root.simps) (auto simp: Let_def last_conv_nth butlast_conv_take split: option.splits)

lemma root_two:
  assumes "2 \<le> length xs"
  shows "cosmos_merkle_root sha xs =
    inner_hash sha (cosmos_merkle_root sha (take (largest_pow2_lt (length xs)) xs)) (cosmos_merkle_root sha (drop (largest_pow2_lt (length xs)) xs))"
  using assms by (subst cosmos_merkle_root.simps) (auto simp: Let_def)

lemma proof_complete:
  "i < length xs \<Longrightarrow> compute_root sha i (length xs) (cm_leaf_hash sha (xs ! i)) (proof_aunts sha xs i) = Some (cosmos_merkle_root sha xs)"
proof (induction "length xs" arbitrary: xs i rule: less_induct)
  case less
  let ?k = "largest_pow2_lt (length xs)"
  show ?case
  proof (cases "2 \<le> length xs")
    case True
    note k = largest_pow2_lt [OF True]
    have l: "i < ?k \<Longrightarrow> compute_root sha i ?k (cm_leaf_hash sha (xs ! i)) (proof_aunts sha (take ?k xs) i) = Some (cosmos_merkle_root sha (take ?k xs))"
      using less.hyps [of "take ?k xs" i] k by simp
    have r: "\<not> i < ?k \<Longrightarrow> compute_root sha (i - ?k) (length xs - ?k) (cm_leaf_hash sha (xs ! i)) (proof_aunts sha (drop ?k xs) (i - ?k)) =
        Some (cosmos_merkle_root sha (drop ?k xs))"
      using less.hyps [of "drop ?k xs" "i - ?k"] less.prems k by simp
    show ?thesis
      using True less.prems l r by (simp add: compute_root_step root_two proof_aunts.simps [of sha xs i] Let_def)
  next
    case False
    then have "length xs = 1" using less.prems by linarith
    then show ?thesis using less.prems
      by (simp add: compute_root_one proof_aunts.simps [of sha xs] cosmos_merkle_root.simps [of sha xs])
  qed
qed

lemma compute_root_32:
  assumes "\<And>x. length (sha x) = 32"
  shows "compute_root sha i n (cm_leaf_hash sha leaf) aunts = Some r \<Longrightarrow> length r = 32"
proof (cases "2 \<le> n")
  case True
  then show "compute_root sha i n (cm_leaf_hash sha leaf) aunts = Some r \<Longrightarrow> length r = 32"
    by (auto simp: compute_root_step inner_hash_def assms Let_def split: if_splits)
next
  case False
  then consider "n = 0" | "n = 1" by linarith
  then show "compute_root sha i n (cm_leaf_hash sha leaf) aunts = Some r \<Longrightarrow> length r = 32"
    by cases (auto simp: compute_root_one cm_leaf_hash_def assms compute_root.simps [of sha i 0] split: if_splits)
qed

lemma proof_sound:
  assumes len: "\<And>x. length (sha x) = 32" and aunts: "\<forall>a \<in> set aunts. length a = 32"
    and "compute_root sha i (length xs) (cm_leaf_hash sha leaf) aunts = Some (cosmos_merkle_root sha xs)"
    and "\<not> collides sha (proof_strings sha i (length xs) leaf aunts) (tree_strings sha xs)"
  shows "i < length xs \<and> leaf = xs ! i"
  using aunts assms(3,4)
proof (induction "length xs" arbitrary: xs i aunts rule: less_induct)
  case less
  let ?k = "largest_pow2_lt (length xs)" and ?lh = "cm_leaf_hash sha leaf"
  show ?case
  proof (cases "2 \<le> length xs")
    case True
    note k = largest_pow2_lt [OF True]
    have ts: "tree_strings sha xs = insert (0x01 # cosmos_merkle_root sha (take ?k xs) @ cosmos_merkle_root sha (drop ?k xs))
        (tree_strings sha (take ?k xs) \<union> tree_strings sha (drop ?k xs))"
      using True by (subst tree_strings.simps) (auto simp: Let_def)
    have ne: "aunts \<noteq> []" "i < length xs" using less.prems(2) True by (auto simp: compute_root_step split: if_splits)
    have a32: "length (last aunts) = 32" "\<forall>a \<in> set (butlast aunts). length a = 32"
      using less.prems(1) ne(1) by (auto dest: in_set_butlastD)
    note ps = proof_strings.simps [of sha i "length xs" leaf aunts]
    show ?thesis
    proof (cases "i < ?k")
      case left: True
      then obtain l where l: "compute_root sha i ?k ?lh (butlast aunts) = Some l" "inner_hash sha l (last aunts) = cosmos_merkle_root sha xs"
        using less.prems(2) True ne by (auto simp: compute_root_step Let_def)
      have psl: "proof_strings sha i (length xs) leaf aunts = insert (0x01 # l @ last aunts) (proof_strings sha i ?k leaf (butlast aunts))"
        using ps ne left l(1) by (simp add: Let_def)
      have "0x01 # l @ last aunts = 0x01 # cosmos_merkle_root sha (take ?k xs) @ cosmos_merkle_root sha (drop ?k xs)"
        by (rule sha_no_collision [OF less.prems(3)]) (use l(2) True in \<open>simp_all add: psl ts root_two inner_hash_def\<close>)
      then have "l = cosmos_merkle_root sha (take ?k xs)"
        using compute_root_32 [OF len l(1)] by (simp add: cosmos_root_string len)
      moreover have "\<not> collides sha (proof_strings sha i ?k leaf (butlast aunts)) (tree_strings sha (take ?k xs))"
        using less.prems(3) psl ts collides_mono [of sha _ _ "proof_strings sha i (length xs) leaf aunts" "tree_strings sha xs"] by blast
      ultimately have "leaf = take ?k xs ! i"
        using less.hyps [of "take ?k xs" "butlast aunts" i] a32 l(1) k by simp
      with left ne show ?thesis by simp
    next
      case right: False
      then obtain l where l: "compute_root sha (i - ?k) (length xs - ?k) ?lh (butlast aunts) = Some l"
          "inner_hash sha (last aunts) l = cosmos_merkle_root sha xs"
        using less.prems(2) True ne by (auto simp: compute_root_step Let_def)
      have psl: "proof_strings sha i (length xs) leaf aunts =
          insert (0x01 # last aunts @ l) (proof_strings sha (i - ?k) (length xs - ?k) leaf (butlast aunts))"
        using ps ne right l(1) by (simp add: Let_def)
      have "0x01 # last aunts @ l = 0x01 # cosmos_merkle_root sha (take ?k xs) @ cosmos_merkle_root sha (drop ?k xs)"
        by (rule sha_no_collision [OF less.prems(3)]) (use l(2) True in \<open>simp_all add: psl ts root_two inner_hash_def\<close>)
      then have "l = cosmos_merkle_root sha (drop ?k xs)"
        using a32(1) by (simp add: cosmos_root_string len)
      moreover have "\<not> collides sha (proof_strings sha (i - ?k) (length xs - ?k) leaf (butlast aunts)) (tree_strings sha (drop ?k xs))"
        using less.prems(3) psl ts collides_mono [of sha _ _ "proof_strings sha i (length xs) leaf aunts" "tree_strings sha xs"] by blast
      ultimately have "leaf = drop ?k xs ! (i - ?k)"
        using less.hyps [of "drop ?k xs" "butlast aunts" "i - ?k"] a32 l(1) k by simp
      with right ne k show ?thesis by simp
    qed
  next
    case False
    then consider "length xs = 0" | "length xs = 1" by linarith
    then show ?thesis
    proof cases
      case 2
      then have e: "aunts = []" "i = 0" "?lh = cosmos_merkle_root sha xs"
        using less.prems(2) by (auto simp: compute_root_one split: if_splits)
      have "0x00 # leaf = 0x00 # xs ! 0"
        by (rule sha_no_collision [OF less.prems(3)])
          (use 2 e in \<open>auto simp: proof_strings.simps [of sha _ _ leaf "[]"] tree_strings.simps [of sha xs] cosmos_merkle_root.simps [of sha xs] cm_leaf_hash_def\<close>)
      with e 2 show ?thesis by simp
    qed (use less.prems(2) in \<open>simp add: compute_root.simps [of sha i 0]\<close>)
  qed
qed

text \<open>A Merkle tree of the Cosmos client commits to its leaves. The proof made for an index is accepted with the
  leaf at that index; a proof accepted against the root of some leaves shows the leaf at its index, and two lists of
  leaves with the same root are equal, unless the hash collides on strings hashed on the two sides. This holds also
  for lists of different lengths, since leaves and inner nodes are hashed under different tags.\<close>

theorem merkle_tree_commits:
  assumes "\<And>x. length (sha x) = 32"
  shows "(i < length xs \<longrightarrow> cosmos_verify_inclusion sha (cosmos_merkle_root sha xs) (xs ! i) i (length xs) (proof_aunts sha xs i)) \<and>
    (cosmos_verify_inclusion sha (cosmos_merkle_root sha xs) leaf i (length xs) aunts \<longrightarrow> (\<forall>a \<in> set aunts. length a = 32) \<longrightarrow>
       i < length xs \<and> leaf = xs ! i \<or> collides sha (proof_strings sha i (length xs) leaf aunts) (tree_strings sha xs)) \<and>
    (cosmos_merkle_root sha xs = cosmos_merkle_root sha ys \<longrightarrow> xs = ys \<or> collides sha (tree_strings sha xs) (tree_strings sha ys))"
proof (intro conjI impI)
  show "cosmos_verify_inclusion sha (cosmos_merkle_root sha xs) (xs ! i) i (length xs) (proof_aunts sha xs i)" if "i < length xs"
    using proof_complete [OF that, of sha] by (simp add: cosmos_verify_inclusion_def)
  show "i < length xs \<and> leaf = xs ! i \<or> collides sha (proof_strings sha i (length xs) leaf aunts) (tree_strings sha xs)"
    if "cosmos_verify_inclusion sha (cosmos_merkle_root sha xs) leaf i (length xs) aunts" "\<forall>a \<in> set aunts. length a = 32"
    using that proof_sound [OF assms that(2)] by (fastforce simp: cosmos_verify_inclusion_def split: option.splits)
  show "xs = ys \<or> collides sha (tree_strings sha xs) (tree_strings sha ys)" if "cosmos_merkle_root sha xs = cosmos_merkle_root sha ys"
    using cosmos_root_binds [OF assms that] by blast
qed

theorem merkle_tree_commits_witness:
  "cosmos_verify_inclusion (\<lambda>x. replicate 32 (hd (x @ [0]))) (replicate 32 1) [8] 1 3
     (proof_aunts (\<lambda>x. replicate 32 (hd (x @ [0]))) [[7], [8], [9]] 1)"
proof -
  let ?sha = "\<lambda>x :: bytes. replicate 32 (hd (x @ [0]))" and ?xs = "[[7], [8], [9]] :: bytes list"
  have "cosmos_merkle_root ?sha [[7], [8], [9]] = replicate 32 1" by code_simp
  moreover have "cosmos_verify_inclusion ?sha (cosmos_merkle_root ?sha ?xs) (?xs ! 1) 1 (length ?xs) (proof_aunts ?sha ?xs 1)"
    by (rule mp [OF conjunct1 [OF merkle_tree_commits]]) simp_all
  ultimately show ?thesis by (simp add: numeral_3_eq_3)
qed

end
