(* ===== verification/Cosmos_Votes.thy ===== *)
theory Cosmos_Votes
  imports Cosmos_Merkle
begin

text \<open>
  The messages of a Tendermint chain: the encodings of \<^verbatim>\<open>crates/qlc-cosmos/src/proto.rs\<close> and the header with its
  hash, of \<^verbatim>\<open>commit.rs\<close>. The signed integers \<open>i64\<close> and \<open>i32\<close> are words read through \<open>sint\<close>, a string is
  the list of its bytes. The encodings are injective: the bytes that a validator signs determine the vote, and the
  hash of a header determines the header unless the hash collides on strings of the two headers.
\<close>

unbundle bit_operations_syntax

type_synonym i64 = "64 word"
type_synonym i32 = "32 word"

section \<open>Encodings\<close>

definition PRECOMMIT_TYPE :: u32 where "PRECOMMIT_TYPE = 2"

function uvarint :: "u64 \<Rightarrow> bytes" where
  "uvarint v =
     (let byte = ucast (v AND 0x7f); v' = drop_bit 7 v
      in if v' \<noteq> 0 then (byte OR 0x80) # uvarint v' else [byte])"
  by pat_completeness auto
termination
proof (relation "measure unat")
  fix v v' :: u64 and byte :: u8
  assume "v' = drop_bit 7 v" and "v' \<noteq> 0"
  then have "unat v' = unat v div 128" "unat v' \<noteq> 0"
    by (simp add: drop_bit_eq_div unat_div_distrib, simp add: unat_eq_zero)
  then show "(v', v) \<in> measure unat" by auto
qed simp

declare uvarint.simps [simp del]

definition field_varint :: "u8 \<Rightarrow> u64 \<Rightarrow> bytes" where
  "field_varint tag v = tag # uvarint v"

definition field_fixed64 :: "u8 \<Rightarrow> u64 \<Rightarrow> bytes" where
  "field_fixed64 tag v = tag # to_le_bytes v"

definition field_len_delim :: "u8 \<Rightarrow> bytes \<Rightarrow> bytes" where
  "field_len_delim tag data = tag # uvarint (word_of_nat (length data)) @ data"

record timestamp =
  ts_seconds :: i64
  ts_nanos :: i32

record block_id =
  bi_hash :: bytes
  bi_part_total :: u32
  bi_part_hash :: bytes

record canonical_vote =
  cv_vote_type :: u32
  cv_height :: i64
  cv_round :: i64
  cv_block_id :: block_id
  cv_timestamp :: timestamp
  cv_chain_id :: bytes

definition encode_timestamp :: "timestamp \<Rightarrow> bytes" where
  "encode_timestamp ts =
     (if ts_seconds ts \<noteq> 0 then field_varint 0x08 (ts_seconds ts) else []) @
     (if ts_nanos ts \<noteq> 0 then field_varint 0x10 (scast (ts_nanos ts)) else [])"

definition encode_part_set_header :: "u32 \<Rightarrow> bytes \<Rightarrow> bytes" where
  "encode_part_set_header n h =
     (if n \<noteq> 0 then field_varint 0x08 (ucast n) else []) @ (if h \<noteq> [] then field_len_delim 0x12 h else [])"

definition encode_block_id :: "block_id \<Rightarrow> bytes" where
  "encode_block_id bid =
     (if bi_hash bid \<noteq> [] then field_len_delim 0x0a (bi_hash bid) else []) @
     field_len_delim 0x12 (encode_part_set_header (bi_part_total bid) (bi_part_hash bid))"

definition encode_canonical_vote :: "canonical_vote \<Rightarrow> bytes" where
  "encode_canonical_vote vote =
     (if cv_vote_type vote \<noteq> 0 then field_varint 0x08 (ucast (cv_vote_type vote)) else []) @
     (if cv_height vote \<noteq> 0 then field_fixed64 0x11 (cv_height vote) else []) @
     (if cv_round vote \<noteq> 0 then field_fixed64 0x19 (cv_round vote) else []) @
     field_len_delim 0x22 (encode_block_id (cv_block_id vote)) @
     field_len_delim 0x2a (encode_timestamp (cv_timestamp vote)) @
     (if cv_chain_id vote \<noteq> [] then field_len_delim 0x32 (cv_chain_id vote) else [])"

definition vote_sign_bytes :: "canonical_vote \<Rightarrow> bytes" where
  "vote_sign_bytes vote =
     (let inner = encode_canonical_vote vote in uvarint (word_of_nat (length inner)) @ inner)"

section \<open>Headers\<close>

definition cdc_bytes :: "bytes \<Rightarrow> bytes" where
  "cdc_bytes b = (if b = [] then [] else 0x0a # uvarint (word_of_nat (length b)) @ b)"

definition cdc_i64 :: "i64 \<Rightarrow> bytes" where
  "cdc_i64 v = (if v = 0 then [] else 0x08 # uvarint v)"

definition cdc_version :: "u64 \<Rightarrow> u64 \<Rightarrow> bytes" where
  "cdc_version block app =
     (if block \<noteq> 0 then 0x08 # uvarint block else []) @ (if app \<noteq> 0 then 0x10 # uvarint app else [])"

record cosmos_header =
  ch_version_block :: u64
  ch_version_app :: u64
  ch_chain_id :: bytes
  ch_height :: i64
  ch_time :: timestamp
  ch_last_block_id :: block_id
  ch_last_commit_hash :: bytes
  ch_data_hash :: bytes
  ch_validators_hash :: bytes
  ch_next_validators_hash :: bytes
  ch_consensus_hash :: bytes
  ch_app_hash :: bytes
  ch_last_results_hash :: bytes
  ch_evidence_hash :: bytes
  ch_proposer_address :: bytes

definition header_leaves :: "cosmos_header \<Rightarrow> bytes list" where
  "header_leaves h =
     [cdc_version (ch_version_block h) (ch_version_app h), cdc_bytes (ch_chain_id h), cdc_i64 (ch_height h),
      encode_timestamp (ch_time h), encode_block_id (ch_last_block_id h), cdc_bytes (ch_last_commit_hash h),
      cdc_bytes (ch_data_hash h), cdc_bytes (ch_validators_hash h), cdc_bytes (ch_next_validators_hash h),
      cdc_bytes (ch_consensus_hash h), cdc_bytes (ch_app_hash h), cdc_bytes (ch_last_results_hash h),
      cdc_bytes (ch_evidence_hash h), cdc_bytes (ch_proposer_address h)]"

definition cosmos_header_hash :: "(bytes \<Rightarrow> bytes) \<Rightarrow> cosmos_header \<Rightarrow> bytes" where
  "cosmos_header_hash sha h = cosmos_merkle_root sha (header_leaves h)"

section \<open>The encodings are injective\<close>

lemma uvarint_not_Nil [simp]: "uvarint v \<noteq> []"
  by (subst uvarint.simps) (simp add: Let_def)

text \<open>The last byte of a number is the only one without the top bit.\<close>

definition low_bits :: "u64 \<Rightarrow> u8" where "low_bits v = ucast (v AND 0x7f)"

lemma low_bits_bit: "bit (low_bits v) n \<longleftrightarrow> n < 7 \<and> bit v n"
proof -
  have "low_bits v = ucast (v AND mask 7)" by (simp add: low_bits_def mask_eq_exp_minus_1)
  then show ?thesis by (auto simp: bit_ucast_iff bit_and_iff bit_mask_iff)
qed

lemma bit_128: "bit (0x80 :: u8) n \<longleftrightarrow> n = 7"
proof -
  have "(0x80 :: u8) = 2 ^ 7" by simp
  then show ?thesis by (simp only: bit_exp_iff) (auto simp: possible_bit_word)
qed

lemma uvarint_unfold:
  "uvarint v = (if drop_bit 7 v \<noteq> 0 then (low_bits v OR 0x80) # uvarint (drop_bit 7 v) else [low_bits v])"
  by (subst uvarint.simps) (simp add: low_bits_def Let_def)

lemma low_bits_eq:
  assumes "low_bits v = low_bits w" and "drop_bit 7 v = drop_bit 7 w"
  shows "v = w"
proof (rule bit_word_eqI)
  fix n
  have "bit v n = bit w n" if "n < 7" using that assms(1) low_bits_bit by metis
  moreover have "bit v n = bit w n" if "\<not> n < 7"
    using arg_cong [OF assms(2), of "\<lambda>x. bit x (n - 7)"] that by (simp add: bit_drop_bit_eq)
  ultimately show "bit v n = bit w n" by blast
qed

lemma uvarint_prefix: "uvarint v @ a = uvarint w @ b \<Longrightarrow> v = w \<and> a = b"
proof (induction v arbitrary: w rule: uvarint.induct)
  case (1 v)
  have marks: "low_bits x OR 0x80 \<noteq> low_bits y" for x y
  proof
    assume "low_bits x OR 0x80 = low_bits y"
    then have "bit (low_bits x OR 0x80) 7 = bit (low_bits y) 7" by simp
    then show False by (simp add: bit_or_iff bit_128 low_bits_bit)
  qed
  have low: "low_bits v OR 0x80 = low_bits w OR 0x80 \<Longrightarrow> low_bits v = low_bits w"
  proof (rule bit_word_eqI)
    fix n assume "low_bits v OR 0x80 = low_bits w OR 0x80"
    then have "bit (low_bits v OR 0x80) n = bit (low_bits w OR 0x80) n" by simp
    then show "bit (low_bits v) n = bit (low_bits w) n" unfolding bit_or_iff bit_128 low_bits_bit by auto
  qed
  show ?case
  proof (cases "drop_bit 7 v = 0"; cases "drop_bit 7 w = 0")
    assume "drop_bit 7 v \<noteq> 0" "drop_bit 7 w \<noteq> 0"
    moreover from this have "low_bits v = low_bits w" "uvarint (drop_bit 7 v) @ a = uvarint (drop_bit 7 w) @ b"
      using "1.prems" low by (simp_all add: uvarint_unfold [of v] uvarint_unfold [of w])
    ultimately show ?thesis using "1.IH" low_bits_eq by blast
  next
    assume "drop_bit 7 v = 0" "drop_bit 7 w = 0"
    then show ?thesis using "1.prems" low_bits_eq by (simp add: uvarint_unfold [of v] uvarint_unfold [of w])
  qed (use "1.prems" marks marks [symmetric] in \<open>simp_all add: uvarint_unfold [of v] uvarint_unfold [of w]\<close>)
qed

lemma uvarint_eq [simp]:
  "uvarint v @ a = uvarint w @ b \<longleftrightarrow> v = w \<and> a = b" "uvarint v = uvarint w @ b \<longleftrightarrow> v = w \<and> b = []"
  "uvarint v @ a = uvarint w \<longleftrightarrow> v = w \<and> a = []" "uvarint v = uvarint w \<longleftrightarrow> v = w"
  using uvarint_prefix [of v a w b] uvarint_prefix [of v "[]" w b] uvarint_prefix [of v a w "[]"] uvarint_prefix [of v "[]" w "[]"]
  by auto

lemma cast_eq [simp]:
  "(ucast a :: u64) = ucast b \<longleftrightarrow> a = b" "(scast a :: u64) = scast b \<longleftrightarrow> a = b" for a b :: "32 word"
proof -
  have u: "(ucast (ucast c :: u64) :: u32) = c" for c :: u32
    by (rule bit_word_eqI) (simp add: bit_ucast_iff)
  have s: "(ucast (scast c :: u64) :: u32) = c" for c :: u32
  proof (rule bit_word_eqI)
    fix n assume "n < LENGTH(32)"
    then have "n = 31 \<or> n < 31" by auto
    then show "bit (ucast (scast c :: u64) :: u32) n = bit c n" by (auto simp: bit_ucast_iff bit_signed_iff min_def)
  qed
  show "(ucast a :: u64) = ucast b \<longleftrightarrow> a = b" "(scast a :: u64) = scast b \<longleftrightarrow> a = b" using u s by metis+
qed

text \<open>Byte strings in memory are shorter than \<open>2^64\<close>, so that a length determines the prefix it is written as.\<close>

definition fits_usize :: "bytes \<Rightarrow> bool" where "fits_usize b \<longleftrightarrow> length b \<le> usize_max"

lemma length_word_eq:
  assumes "fits_usize a" and "fits_usize b" and "(word_of_nat (length a) :: u64) = word_of_nat (length b)"
  shows "length a = length b"
proof -
  have "unat (word_of_nat n :: u64) = n" if "n \<le> usize_max" for n using that by (simp add: unat_of_nat)
  then show ?thesis using assms by (metis fits_usize_def)
qed

lemma delim_prefix:
  assumes "fits_usize a" and "fits_usize b"
  shows "field_len_delim t a @ x = field_len_delim u b @ y \<longleftrightarrow> t = u \<and> a = b \<and> x = y"
  using length_word_eq [OF assms] by (auto simp: field_len_delim_def)

lemma delim_eq:
  assumes "fits_usize a" and "fits_usize b"
  shows "field_len_delim t a @ x = field_len_delim u b @ y \<longleftrightarrow> t = u \<and> a = b \<and> x = y"
    and "field_len_delim t a = field_len_delim u b @ y \<longleftrightarrow> t = u \<and> a = b \<and> y = []"
    and "field_len_delim t a @ x = field_len_delim u b \<longleftrightarrow> t = u \<and> a = b \<and> x = []"
    and "field_len_delim t a = field_len_delim u b \<longleftrightarrow> t = u \<and> a = b"
  using delim_prefix [OF assms, of t x u y] delim_prefix [OF assms, of t "[]" u y] delim_prefix [OF assms, of t x u "[]"]
    delim_prefix [OF assms, of t "[]" u "[]"] by auto

lemma delim_hd [simp]:
  "field_len_delim t a \<noteq> []" "[] \<noteq> field_len_delim t a"
  "t \<noteq> u \<Longrightarrow> field_len_delim t a \<noteq> u # y" "t \<noteq> u \<Longrightarrow> u # y \<noteq> field_len_delim t a"
  "t \<noteq> u \<Longrightarrow> field_len_delim t a @ x \<noteq> u # y" "t \<noteq> u \<Longrightarrow> u # y \<noteq> field_len_delim t a @ x"
  by (auto simp: field_len_delim_def)

lemma timestamp_inj: "encode_timestamp s = encode_timestamp t \<longleftrightarrow> s = t"
  by (cases s; cases t) (auto simp: encode_timestamp_def field_varint_def split: if_splits)

lemma part_set_inj:
  assumes "fits_usize h" and "fits_usize k"
  shows "encode_part_set_header n h = encode_part_set_header m k \<longleftrightarrow> n = m \<and> h = k"
  using assms by (auto simp: encode_part_set_header_def field_varint_def delim_eq split: if_splits)

text \<open>The encodings are vectors of the code themselves, so that they fit, and their parts with them.\<close>

lemma fits_parts:
  "fits_usize (a @ b) \<Longrightarrow> fits_usize a" "fits_usize (a @ b) \<Longrightarrow> fits_usize b" "fits_usize (field_len_delim t a) \<Longrightarrow> fits_usize a"
  by (simp_all add: fits_usize_def field_len_delim_def)

lemma fits_Nil [simp]: "fits_usize []"
  by (simp add: fits_usize_def)

lemma block_id_inj:
  assumes "fits_usize (encode_block_id a)" and "fits_usize (encode_block_id b)"
  shows "encode_block_id a = encode_block_id b \<longleftrightarrow> a = b"
proof -
  have f: "fits_usize (bi_hash c)" "fits_usize (encode_part_set_header (bi_part_total c) (bi_part_hash c))" "fits_usize (bi_part_hash c)"
    if "fits_usize (encode_block_id c)" for c
  proof -
    have "fits_usize (field_len_delim 0x12 (encode_part_set_header (bi_part_total c) (bi_part_hash c)))"
      using that by (auto simp: encode_block_id_def dest: fits_parts(2))
    then show e: "fits_usize (encode_part_set_header (bi_part_total c) (bi_part_hash c))" by (rule fits_parts(3))
    show "fits_usize (bi_hash c)" using that
      by (cases "bi_hash c = []") (auto simp: encode_block_id_def dest!: fits_parts(1) dest: fits_parts(3))
    show "fits_usize (bi_part_hash c)" using e
      by (cases "bi_part_hash c = []") (auto simp: encode_part_set_header_def dest!: fits_parts(2) dest: fits_parts(3))
  qed
  note fs = f [OF assms(1)] f [OF assms(2)]
  have "bi_hash a = bi_hash b \<and> bi_part_total a = bi_part_total b \<and> bi_part_hash a = bi_part_hash b"
    if "encode_block_id a = encode_block_id b"
    using that fs by (auto simp: encode_block_id_def delim_eq part_set_inj split: if_splits)
  then show ?thesis by (cases a; cases b) auto
qed

text \<open>What a validator signs determines the vote.\<close>

definition vote_fits :: "canonical_vote \<Rightarrow> bool" where
  "vote_fits v \<longleftrightarrow> fits_usize (encode_canonical_vote v)"

lemma vote_parts_fit:
  assumes "vote_fits v"
  shows "fits_usize (encode_block_id (cv_block_id v))" and "fits_usize (encode_timestamp (cv_timestamp v))" and "fits_usize (cv_chain_id v)"
proof -
  let ?b = "field_len_delim 0x22 (encode_block_id (cv_block_id v))" and ?t = "field_len_delim 0x2a (encode_timestamp (cv_timestamp v))"
  let ?c = "if cv_chain_id v \<noteq> [] then field_len_delim 0x32 (cv_chain_id v) else []"
  have r: "fits_usize (?b @ ?t @ ?c)"
    using assms [unfolded vote_fits_def encode_canonical_vote_def, THEN fits_parts(2), THEN fits_parts(2), THEN fits_parts(2)] .
  then show "fits_usize (encode_block_id (cv_block_id v))" by (blast dest: fits_parts)
  have "fits_usize (?t @ ?c)" using r by (rule fits_parts(2))
  then show "fits_usize (encode_timestamp (cv_timestamp v))" by (blast dest: fits_parts)
  have "fits_usize ?c" using \<open>fits_usize (?t @ ?c)\<close> by (rule fits_parts(2))
  then show "fits_usize (cv_chain_id v)" by (cases "cv_chain_id v = []") (auto dest: fits_parts(3))
qed

lemma to_le_bytes_append: "to_le_bytes (a :: u64) @ x = to_le_bytes b @ y \<longleftrightarrow> a = b \<and> x = y"
proof -
  have "a = b" if "to_le_bytes a = to_le_bytes b"
    using arg_cong [OF that, of "from_le_bytes :: bytes \<Rightarrow> u64"] by (simp add: from_to_le_bytes)
  then show ?thesis by auto
qed

lemma sign_bytes_inj:
  assumes "vote_fits v" and "vote_fits w"
  shows "vote_sign_bytes v = vote_sign_bytes w \<longleftrightarrow> v = w"
proof -
  note fs = vote_parts_fit [OF assms(1)] vote_parts_fit [OF assms(2)]
  have "cv_vote_type v = cv_vote_type w \<and> cv_height v = cv_height w \<and> cv_round v = cv_round w \<and>
      cv_block_id v = cv_block_id w \<and> cv_timestamp v = cv_timestamp w \<and> cv_chain_id v = cv_chain_id w"
    if "encode_canonical_vote v = encode_canonical_vote w"
    using that fs
    by (auto simp: encode_canonical_vote_def field_varint_def field_fixed64_def to_le_bytes_append delim_eq block_id_inj timestamp_inj
        split: if_splits)
  then show ?thesis by (cases v; cases w) (auto simp: vote_sign_bytes_def Let_def)
qed

text \<open>The hash of a header determines the header.\<close>

definition header_fits :: "cosmos_header \<Rightarrow> bool" where
  "header_fits h \<longleftrightarrow> (\<forall>l \<in> set (header_leaves h). fits_usize l)"

lemma cdc_bytes_inj:
  assumes "fits_usize (cdc_bytes a)" and "fits_usize (cdc_bytes b)"
  shows "cdc_bytes a = cdc_bytes b \<longleftrightarrow> a = b"
proof -
  have c: "cdc_bytes x = (if x = [] then [] else field_len_delim 0x0a x)" for x
    by (simp add: cdc_bytes_def field_len_delim_def)
  have f: "fits_usize x" if "fits_usize (cdc_bytes x)" for x
    using that by (cases "x = []") (auto simp: c dest: fits_parts(3))
  show ?thesis using f [OF assms(1)] f [OF assms(2)] by (simp add: c delim_eq)
qed

lemma cdc_i64_inj: "cdc_i64 a = cdc_i64 b \<longleftrightarrow> a = b"
  by (auto simp: cdc_i64_def)

lemma cdc_version_inj: "cdc_version a c = cdc_version b d \<longleftrightarrow> a = b \<and> c = d"
  by (auto simp: cdc_version_def split: if_splits)

lemma header_leaves_inj:
  assumes "header_fits g" and "header_fits h" and eq: "header_leaves g = header_leaves h"
  shows "g = h"
proof -
  have f: "\<forall>l \<in> set (header_leaves g). fits_usize l" "\<forall>l \<in> set (header_leaves h). fits_usize l" using assms by (auto simp: header_fits_def)
  have cdc: "x = y" if "cdc_bytes x = cdc_bytes y" "cdc_bytes x \<in> set (header_leaves g)" "cdc_bytes y \<in> set (header_leaves h)" for x y
    using that f cdc_bytes_inj by blast
  have "encode_block_id (ch_last_block_id g) \<in> set (header_leaves g)" "encode_block_id (ch_last_block_id h) \<in> set (header_leaves h)"
    by (simp_all add: header_leaves_def)
  then have bid: "ch_last_block_id g = ch_last_block_id h"
    using f eq block_id_inj [of "ch_last_block_id g" "ch_last_block_id h"] by (simp add: header_leaves_def)
  have "ch_version_block g = ch_version_block h" "ch_version_app g = ch_version_app h" "ch_height g = ch_height h" "ch_time g = ch_time h"
    using eq by (simp_all add: header_leaves_def cdc_i64_inj cdc_version_inj timestamp_inj)
  moreover have "ch_chain_id g = ch_chain_id h" "ch_last_commit_hash g = ch_last_commit_hash h" "ch_data_hash g = ch_data_hash h"
    "ch_validators_hash g = ch_validators_hash h" "ch_next_validators_hash g = ch_next_validators_hash h"
    "ch_consensus_hash g = ch_consensus_hash h" "ch_app_hash g = ch_app_hash h" "ch_last_results_hash g = ch_last_results_hash h"
    "ch_evidence_hash g = ch_evidence_hash h" "ch_proposer_address g = ch_proposer_address h"
    by (rule cdc; use eq in \<open>simp add: header_leaves_def\<close>)+
  ultimately show ?thesis using bid by (intro cosmos_header.equality) simp_all
qed

lemma cosmos_header_binds:
  assumes "\<And>x. length (sha x) = 32" and "header_fits g" and "header_fits h" and "cosmos_header_hash sha g = cosmos_header_hash sha h"
  shows "g = h \<or> collides sha (tree_strings sha (header_leaves g)) (tree_strings sha (header_leaves h))"
  using cosmos_root_binds [OF assms(1)] assms(4) header_leaves_inj [OF assms(2,3)] by (auto simp: cosmos_header_hash_def)

end
