(* ===== verification/Cosmos_Commit.thy ===== *)
theory Cosmos_Commit
  imports Cosmos_Votes
begin

text \<open>
  Validator sets (\<^verbatim>\<open>crates/qlc-cosmos/src/validator.rs\<close>) and commits (\<^verbatim>\<open>commit.rs\<close>): the hash of a set, the count
  of the voting power behind a commit, and the overlap of two sets. The hash \<open>sha\<close> and the signature check \<open>ver\<close>,
  with the arguments public key, message and signature, are arguments. The sums and products of \<open>u128\<close> panic on
  overflow, as the build profile has it.

  The count stops early, as soon as the threshold is met or out of reach. The theorems show that its verdict is
  nevertheless that of the full count, that it never panics, and that two commits accepted for one set are both signed
  by validators with more than a third of its power.
\<close>

unbundle bit_operations_syntax

section \<open>Validators\<close>

record validator_info =
  vi_pubkey :: bytes
  vi_voting_power :: u64

record validator_set =
  vs_validators :: "validator_info list"

definition vi_address :: "(bytes \<Rightarrow> bytes) \<Rightarrow> validator_info \<Rightarrow> bytes" where
  "vi_address sha v = take 20 (sha (vi_pubkey v))"

definition encode_leaf :: "validator_info \<Rightarrow> bytes" where
  "encode_leaf v =
     (let pubkey_msg = 0x0a # 0x20 # vi_pubkey v
      in 0x0a # uvarint (word_of_nat (length pubkey_msg)) @ pubkey_msg @ 0x10 # uvarint (vi_voting_power v))"

definition MAX_VALIDATORS :: usize where "MAX_VALIDATORS = 1024"

definition plus_checked :: "'l::len word \<Rightarrow> 'l word \<Rightarrow> ('e, 'l word) res" where
  "plus_checked a b = (if unat a + unat b < 2 ^ LENGTH('l) then Ok (a + b) else Panic)"

definition times_checked :: "'l::len word \<Rightarrow> 'l word \<Rightarrow> ('e, 'l word) res" where
  "times_checked a b = (if unat a * unat b < 2 ^ LENGTH('l) then Ok (a * b) else Panic)"

fun power_loop :: "u128 \<Rightarrow> validator_info list \<Rightarrow> ('e, u128) res" where
  "power_loop total_so_far [] = Ok total_so_far"
| "power_loop total_so_far (v # vs) = and_then (plus_checked total_so_far (ucast (vi_voting_power v))) (\<lambda>t. power_loop t vs)"

definition total_power :: "validator_set \<Rightarrow> ('e, u128) res" where
  "total_power vset = power_loop 0 (vs_validators vset)"

definition validators_hash :: "(bytes \<Rightarrow> bytes) \<Rightarrow> validator_set \<Rightarrow> bytes" where
  "validators_hash sha vset = cosmos_merkle_root sha (map encode_leaf (vs_validators vset))"

definition get_by_address :: "(bytes \<Rightarrow> bytes) \<Rightarrow> validator_set \<Rightarrow> bytes \<Rightarrow> validator_info option" where
  "get_by_address sha vset address = find (\<lambda>v. vi_address sha v = address) (vs_validators vset)"

definition has_two_thirds :: "u128 \<Rightarrow> u128 \<Rightarrow> ('e, bool) res" where
  "has_two_thirds signed_power whole =
     and_then (times_checked signed_power 3) (\<lambda>a. and_then (times_checked whole 2) (\<lambda>b. Ok (a > b)))"

fun overlap_loop :: "(bytes \<Rightarrow> bytes) \<Rightarrow> bytes set \<Rightarrow> u128 \<Rightarrow> validator_info list \<Rightarrow> ('e, u128) res" where
  "overlap_loop sha new_addresses overlap [] = Ok overlap"
| "overlap_loop sha new_addresses overlap (v # vs) =
     (if vi_address sha v \<in> new_addresses
      then and_then (plus_checked overlap (ucast (vi_voting_power v))) (\<lambda>o'. overlap_loop sha new_addresses o' vs)
      else overlap_loop sha new_addresses overlap vs)"

definition overlap_power :: "(bytes \<Rightarrow> bytes) \<Rightarrow> validator_set \<Rightarrow> validator_set \<Rightarrow> ('e, u128) res" where
  "overlap_power sha old new = overlap_loop sha (vi_address sha ` set (vs_validators new)) 0 (vs_validators old)"

definition overlap_meets :: "(bytes \<Rightarrow> bytes) \<Rightarrow> validator_set \<Rightarrow> validator_set \<Rightarrow> u64 \<Rightarrow> u64 \<Rightarrow> ('e, bool) res" where
  "overlap_meets sha old new numerator denominator =
     (if numerator = 0 then Ok False
      else
        and_then (overlap_power sha old new) (\<lambda>overlap.
        and_then (times_checked overlap (ucast denominator)) (\<lambda>a.
        and_then (total_power old) (\<lambda>t.
        and_then (times_checked t (ucast numerator)) (\<lambda>b. Ok (a > b))))))"

definition two_thirds_overlap :: "(bytes \<Rightarrow> bytes) \<Rightarrow> validator_set \<Rightarrow> validator_set \<Rightarrow> ('e, bool) res" where
  "two_thirds_overlap sha old new = overlap_meets sha old new 2 3"

section \<open>Commits\<close>

datatype block_id_flag = BidAbsent | BidCommit | BidNil

record commit_sig =
  cs_flag :: block_id_flag
  cs_validator_address :: bytes
  cs_timestamp :: timestamp
  cs_signature :: bytes

record cosmos_commit =
  cc_height :: i64
  cc_round :: i64
  cc_block_id :: block_id
  cc_signatures :: "commit_sig list"

datatype commit_error =
    CommitHeaderMismatch
  | CommitHeightMismatch i64 i64
  | NotEnoughVotingPower u128 u128
  | SetTooLarge
  | DuplicateSigner

definition by_address :: "(bytes \<Rightarrow> bytes) \<Rightarrow> validator_info list \<Rightarrow> (bytes \<rightharpoonup> validator_info)" where
  "by_address sha vs =
     foldl (\<lambda>m v. case m (vi_address sha v) of None \<Rightarrow> m(vi_address sha v \<mapsto> v) | Some _ \<Rightarrow> m) Map.empty vs"

fun claimed_loop :: "(bytes \<rightharpoonup> validator_info) \<Rightarrow> bytes set \<Rightarrow> u128 \<Rightarrow> commit_sig list \<Rightarrow> (commit_error, u128) res" where
  "claimed_loop m counted claimed [] = Ok claimed"
| "claimed_loop m counted claimed (sig # sigs) =
     (if cs_flag sig \<noteq> BidCommit \<or> length (cs_signature sig) \<noteq> 64 then claimed_loop m counted claimed sigs
      else if cs_validator_address sig \<in> counted then Err DuplicateSigner
      else
        let counted = insert (cs_validator_address sig) counted
        in case m (cs_validator_address sig) of
             None \<Rightarrow> claimed_loop m counted claimed sigs
           | Some v \<Rightarrow>
               and_then (plus_checked claimed (ucast (vi_voting_power v))) (\<lambda>c. claimed_loop m counted c sigs))"

definition claimed_power :: "(bytes \<Rightarrow> bytes) \<Rightarrow> cosmos_commit \<Rightarrow> validator_set \<Rightarrow> (commit_error, u128) res" where
  "claimed_power sha commit vset =
     (if length (vs_validators vset) > MAX_VALIDATORS \<or> length (cc_signatures commit) > MAX_VALIDATORS then Err SetTooLarge
      else claimed_loop (by_address sha (vs_validators vset)) {} 0 (cc_signatures commit))"

fun unresolved_loop :: "(bytes \<rightharpoonup> validator_info) \<Rightarrow> bytes set \<Rightarrow> u128 \<Rightarrow> commit_sig list \<Rightarrow> (commit_error, u128) res" where
  "unresolved_loop m counted unresolved [] = Ok unresolved"
| "unresolved_loop m counted unresolved (sig # sigs) =
     (if cs_flag sig \<noteq> BidCommit then unresolved_loop m counted unresolved sigs
      else if cs_validator_address sig \<in> counted then Err DuplicateSigner
      else
        let counted = insert (cs_validator_address sig) counted
        in if length (cs_signature sig) \<noteq> 64 then unresolved_loop m counted unresolved sigs
           else case m (cs_validator_address sig) of
                  None \<Rightarrow> unresolved_loop m counted unresolved sigs
                | Some v \<Rightarrow> unresolved_loop m counted (sat_add unresolved (ucast (vi_voting_power v))) sigs)"

definition vote_of :: "bytes \<Rightarrow> cosmos_commit \<Rightarrow> commit_sig \<Rightarrow> canonical_vote" where
  "vote_of chain_id commit sig =
     \<lparr>cv_vote_type = PRECOMMIT_TYPE, cv_height = cc_height commit, cv_round = cc_round commit,
      cv_block_id = cc_block_id commit, cv_timestamp = cs_timestamp sig, cv_chain_id = chain_id\<rparr>"

fun signed_loop ::
  "(bytes \<Rightarrow> bytes \<Rightarrow> bytes \<Rightarrow> bool) \<Rightarrow> (u128 \<Rightarrow> (commit_error, bool) res) \<Rightarrow> (bytes \<rightharpoonup> validator_info) \<Rightarrow> bytes \<Rightarrow> cosmos_commit \<Rightarrow>
   u128 \<Rightarrow> u128 \<Rightarrow> commit_sig list \<Rightarrow> (commit_error, u128) res" where
  "signed_loop ver reaches m chain_id commit unresolved tally [] = Ok tally"
| "signed_loop ver reaches m chain_id commit unresolved tally (sig # sigs) =
     and_then (reaches tally) (\<lambda>met.
     if met then Ok tally
     else
       and_then (reaches (sat_add tally unresolved)) (\<lambda>within.
       if \<not> within then Ok tally
       else if cs_flag sig \<noteq> BidCommit \<or> length (cs_signature sig) \<noteq> 64
       then signed_loop ver reaches m chain_id commit unresolved tally sigs
       else case m (cs_validator_address sig) of
              None \<Rightarrow> signed_loop ver reaches m chain_id commit unresolved tally sigs
            | Some v \<Rightarrow>
                let unresolved = sat_sub unresolved (ucast (vi_voting_power v));
                    message = vote_sign_bytes (vote_of chain_id commit sig)
                in if ver (vi_pubkey v) message (cs_signature sig)
                   then and_then (plus_checked tally (ucast (vi_voting_power v))) (\<lambda>s.
                     signed_loop ver reaches m chain_id commit unresolved s sigs)
                   else signed_loop ver reaches m chain_id commit unresolved tally sigs))"

definition tally_signed_power_until ::
  "(bytes \<Rightarrow> bytes) \<Rightarrow> (bytes \<Rightarrow> bytes \<Rightarrow> bytes \<Rightarrow> bool) \<Rightarrow> bytes \<Rightarrow> cosmos_header \<Rightarrow> cosmos_commit \<Rightarrow> validator_set \<Rightarrow>
   (u128 \<Rightarrow> (commit_error, bool) res) \<Rightarrow> (commit_error, u128) res" where
  "tally_signed_power_until sha ver chain_id header commit vset reaches =
     (if length (vs_validators vset) > MAX_VALIDATORS \<or> length (cc_signatures commit) > MAX_VALIDATORS then Err SetTooLarge
      else if cc_height commit \<noteq> ch_height header then Err (CommitHeightMismatch (ch_height header) (cc_height commit))
      else if bi_hash (cc_block_id commit) \<noteq> cosmos_header_hash sha header then Err CommitHeaderMismatch
      else
        let m = by_address sha (vs_validators vset)
        in and_then (unresolved_loop m {} 0 (cc_signatures commit)) (\<lambda>unresolved.
           signed_loop ver reaches m chain_id commit unresolved 0 (cc_signatures commit)))"

definition tally_signed_power ::
  "(bytes \<Rightarrow> bytes) \<Rightarrow> (bytes \<Rightarrow> bytes \<Rightarrow> bytes \<Rightarrow> bool) \<Rightarrow> bytes \<Rightarrow> cosmos_header \<Rightarrow> cosmos_commit \<Rightarrow> validator_set \<Rightarrow>
   (commit_error, u128) res" where
  "tally_signed_power sha ver chain_id header commit vset =
     and_then (total_power vset) (\<lambda>t.
       tally_signed_power_until sha ver chain_id header commit vset (\<lambda>p. has_two_thirds p t))"

definition verify_commit ::
  "(bytes \<Rightarrow> bytes) \<Rightarrow> (bytes \<Rightarrow> bytes \<Rightarrow> bytes \<Rightarrow> bool) \<Rightarrow> bytes \<Rightarrow> cosmos_header \<Rightarrow> cosmos_commit \<Rightarrow> validator_set \<Rightarrow>
   (commit_error, u128) res" where
  "verify_commit sha ver chain_id header commit vset =
     and_then (total_power vset) (\<lambda>t.
     and_then (claimed_power sha commit vset) (\<lambda>claimed.
     and_then (has_two_thirds claimed t) (\<lambda>enough.
     if \<not> enough then Err (NotEnoughVotingPower claimed t)
     else
       and_then (tally_signed_power sha ver chain_id header commit vset) (\<lambda>tally.
       and_then (has_two_thirds tally t) (\<lambda>reached.
       if reached then Ok tally else Err (NotEnoughVotingPower tally t))))))"

section \<open>Sums of power\<close>

abbreviation vpower :: "validator_info \<Rightarrow> nat" where "vpower v \<equiv> unat (vi_voting_power v)"

abbreviation vpowers :: "validator_info list \<Rightarrow> nat" where "vpowers vs \<equiv> sum_list (map vpower vs)"

lemma power_less: "vpower v < 2 ^ 64"
  using unsigned_less [of "vi_voting_power v"] by simp

lemma unat_power: "unat (ucast (vi_voting_power v) :: u128) = vpower v"
  using power_less [of v] by (simp add: unsigned_ucast_eq take_bit_nat_eq_self)

lemma powers_less: "vs \<noteq> [] \<Longrightarrow> vpowers vs < 2 ^ 64 * length vs"
proof (induction vs)
  case (Cons v vs)
  then show ?case using power_less [of v] by (cases "vs = []") auto
qed simp

lemma plus_checked_Ok: "plus_checked a b = Ok c \<longleftrightarrow> unat c = unat a + unat b" for a b c :: "'l::len word"
  using checked_add_Some_iff [of a b c] by (auto simp: plus_checked_def checked_add_def split: if_splits)

lemma times_checked_Ok: "times_checked a b = Ok c \<longleftrightarrow> unat c = unat a * unat b" for a b c :: "'l::len word"
proof
  assume "unat c = unat a * unat b"
  moreover have "unat c < 2 ^ LENGTH('l)" by (rule unsigned_less)
  ultimately show "times_checked a b = Ok c" by (auto simp: times_checked_def word_unat_eq_iff unat_word_ariths)
qed (auto simp: times_checked_def unat_word_ariths split: if_splits)

lemma power_loop_Ok: "power_loop acc vs = Ok t \<longleftrightarrow> unat t = unat acc + vpowers vs"
proof (induction vs arbitrary: acc)
  case Nil
  then show ?case by (auto simp: word_unat_eq_iff)
next
  case (Cons v vs)
  have "unat t < 2 ^ 128" using unsigned_less [of t] by simp
  then show ?case
    by (auto simp: and_then_Ok_iff Cons.IH plus_checked_Ok unat_power plus_checked_def unat_plus_no_overflow)
qed

lemma total_power_Ok:
  assumes "length (vs_validators vset) \<le> usize_max"
  obtains t where "total_power vset = Ok t" and "unat t = vpowers (vs_validators vset)"
proof -
  have "vpowers (vs_validators vset) < 2 ^ 128"
  proof (cases "vs_validators vset = []")
    case False
    have "vpowers (vs_validators vset) < 2 ^ 64 * length (vs_validators vset)" using powers_less [OF False] .
    also have "\<dots> \<le> 2 ^ 64 * 2 ^ 64" using assms by (intro mult_left_mono) auto
    finally show ?thesis by simp
  qed simp
  then have "unat (word_of_nat (vpowers (vs_validators vset)) :: u128) = vpowers (vs_validators vset)" by (simp add: unat_of_nat)
  then show ?thesis
    by (intro that [of "word_of_nat (vpowers (vs_validators vset))"]) (simp_all add: total_power_def power_loop_Ok)
qed

lemma has_two_thirds_Ok:
  assumes "unat p < 2 ^ 126" and "unat t < 2 ^ 126"
  shows "(has_two_thirds p t :: ('e, bool) res) = Ok (3 * unat p > 2 * unat t)"
proof -
  have "times_checked p 3 = (Ok (p * 3) :: ('e, u128) res)" "times_checked t 2 = (Ok (t * 2) :: ('e, u128) res)"
    and "unat (p * 3) = 3 * unat p" "unat (t * 2) = 2 * unat t"
    using assms by (simp_all add: times_checked_def unat_word_ariths)
  then show ?thesis by (simp add: has_two_thirds_def word_less_nat_alt)
qed

section \<open>The signers of a commit\<close>

lemma by_address_find: "by_address sha vs a = find (\<lambda>v. vi_address sha v = a) vs"
proof -
  let ?f = "\<lambda>m v. case m (vi_address sha v) of None \<Rightarrow> m(vi_address sha v \<mapsto> v) | Some _ \<Rightarrow> m"
  have "foldl ?f m vs a = (case m a of Some w \<Rightarrow> Some w | None \<Rightarrow> find (\<lambda>v. vi_address sha v = a) vs)" for m
    by (induction vs arbitrary: m) (auto split: option.splits)
  then show ?thesis by (simp add: by_address_def)
qed

lemma by_address_Some: "by_address sha vs a = Some v \<Longrightarrow> v \<in> set vs \<and> vi_address sha v = a"
  by (auto simp: by_address_find find_Some_iff)

text \<open>The validators named by the signatures for the block, and those of them whose signature is valid.\<close>

definition named :: "(bytes \<rightharpoonup> validator_info) \<Rightarrow> commit_sig \<Rightarrow> validator_info option" where
  "named m sig = (if cs_flag sig = BidCommit \<and> length (cs_signature sig) = 64 then m (cs_validator_address sig) else None)"

definition signer ::
  "(bytes \<Rightarrow> bytes \<Rightarrow> bytes \<Rightarrow> bool) \<Rightarrow> (bytes \<rightharpoonup> validator_info) \<Rightarrow> bytes \<Rightarrow> cosmos_commit \<Rightarrow> commit_sig \<Rightarrow> validator_info option" where
  "signer ver m chain_id commit sig =
     (case named m sig of
        Some v \<Rightarrow> if ver (vi_pubkey v) (vote_sign_bytes (vote_of chain_id commit sig)) (cs_signature sig) then Some v else None
      | None \<Rightarrow> None)"

definition claimants :: "(bytes \<rightharpoonup> validator_info) \<Rightarrow> commit_sig list \<Rightarrow> validator_info list" where
  "claimants m sigs = List.map_filter (named m) sigs"

definition signers ::
  "(bytes \<Rightarrow> bytes \<Rightarrow> bytes \<Rightarrow> bool) \<Rightarrow> (bytes \<rightharpoonup> validator_info) \<Rightarrow> bytes \<Rightarrow> cosmos_commit \<Rightarrow> commit_sig list \<Rightarrow> validator_info list" where
  "signers ver m chain_id commit sigs = List.map_filter (signer ver m chain_id commit) sigs"

lemmas signer_defs = claimants_def signers_def map_filter_simps

lemma signers_le: "vpowers (signers ver m chain_id commit sigs) \<le> vpowers (claimants m sigs)"
  by (induction sigs) (auto simp: signer_defs signer_def split: option.splits)

definition for_block :: "commit_sig list \<Rightarrow> bytes list" where
  "for_block sigs = map cs_validator_address (filter (\<lambda>s. cs_flag s = BidCommit) sigs)"

lemma claimants_distinct:
  assumes "distinct (for_block sigs)"
  shows "distinct (map (vi_address sha) (claimants (by_address sha vs) sigs))"
    and "set (map (vi_address sha) (claimants (by_address sha vs) sigs)) \<subseteq> set (for_block sigs)"
    and "set (claimants (by_address sha vs) sigs) \<subseteq> set vs"
proof -
  have "distinct (map (vi_address sha) (claimants (by_address sha vs) sigs)) \<and>
    set (map (vi_address sha) (claimants (by_address sha vs) sigs)) \<subseteq> set (for_block sigs) \<and>
    set (claimants (by_address sha vs) sigs) \<subseteq> set vs"
    using assms
  proof (induction sigs)
    case (Cons s sigs)
    have "claimants m (s # sigs) = (case named m s of None \<Rightarrow> claimants m sigs | Some v \<Rightarrow> v # claimants m sigs)" for m
      by (simp add: signer_defs split: option.splits)
    then have C: "claimants (by_address sha vs) (s # sigs) =
        (case named (by_address sha vs) s of None \<Rightarrow> claimants (by_address sha vs) sigs | Some v \<Rightarrow> v # claimants (by_address sha vs) sigs)" .
    have d: "distinct (for_block sigs)" "set (for_block sigs) \<subseteq> set (for_block (s # sigs))"
      using Cons.prems by (auto simp: for_block_def split: if_splits)
    note IH = Cons.IH [OF d(1)]
    show ?case
    proof (cases "named (by_address sha vs) s")
      case None
      then show ?thesis using IH d(2) by (simp add: C) blast
    next
      case (Some v)
      then have v: "v \<in> set vs" "cs_flag s = BidCommit" "vi_address sha v = cs_validator_address s"
        using by_address_Some by (auto simp: named_def split: if_splits)
      then have "vi_address sha v \<notin> set (for_block sigs)" "vi_address sha v \<in> set (for_block (s # sigs))"
        using Cons.prems by (auto simp: for_block_def)
      then show ?thesis using IH d(2) v(1) Some by (simp add: C) blast
    qed
  qed (simp add: signer_defs)
  then show "distinct (map (vi_address sha) (claimants (by_address sha vs) sigs))"
    "set (map (vi_address sha) (claimants (by_address sha vs) sigs)) \<subseteq> set (for_block sigs)"
    "set (claimants (by_address sha vs) sigs) \<subseteq> set vs" by auto
qed

lemma sum_distinct_le:
  assumes "distinct xs" and "set xs \<subseteq> set ys"
  shows "sum_list (map f xs) \<le> sum_list (map (f :: _ \<Rightarrow> nat) ys)"
proof -
  have "sum_list (map f xs) = sum f (set xs)" using assms(1) by (simp add: sum_list_distinct_conv_sum_set)
  also have "\<dots> \<le> sum f (set ys)" using assms(2) by (intro sum_mono2) auto
  also have "\<dots> \<le> sum_list (map f ys)"
    by (induction ys) (auto simp: sum.insert_if)
  finally show ?thesis .
qed

lemma claimants_le:
  assumes "distinct (for_block sigs)"
  shows "vpowers (claimants (by_address sha vs) sigs) \<le> vpowers vs"
  using claimants_distinct [OF assms] by (intro sum_distinct_le) (auto simp: distinct_map)

section \<open>The loops\<close>

lemma claimants_Cons: "claimants m (s # sigs) = (case named m s of None \<Rightarrow> claimants m sigs | Some v \<Rightarrow> v # claimants m sigs)"
  by (simp add: signer_defs split: option.splits)

lemma signers_Cons:
  "signers ver m chain_id commit (s # sigs) =
     (case signer ver m chain_id commit s of None \<Rightarrow> signers ver m chain_id commit sigs | Some v \<Rightarrow> v # signers ver m chain_id commit sigs)"
  by (simp add: signer_defs split: option.splits)

lemma signers_Nil [simp]: "signers ver m chain_id commit [] = []"
  by (simp add: signer_defs)

lemma claimants_bound: "length sigs \<le> MAX_VALIDATORS \<Longrightarrow> vpowers (claimants m sigs) < 2 ^ 75"
proof -
  assume n: "length sigs \<le> MAX_VALIDATORS"
  have "length (claimants m sigs) \<le> length sigs"
    by (induction sigs) (auto simp: claimants_Cons claimants_def map_filter_simps split: option.splits)
  then have "2 ^ 64 * length (claimants m sigs) \<le> 2 ^ 64 * 1024" using n by (simp add: MAX_VALIDATORS_def)
  then show ?thesis using powers_less [of "claimants m sigs"] by (cases "claimants m sigs = []") auto
qed

definition sigs_64 :: "commit_sig list \<Rightarrow> commit_sig list" where
  "sigs_64 sigs = filter (\<lambda>s. length (cs_signature s) = 64) sigs"

lemma claimed_loop_eq:
  "unat c + vpowers (claimants m sigs) < 2 ^ 128 \<Longrightarrow>
   claimed_loop m counted c sigs =
     (if distinct (for_block (sigs_64 sigs)) \<and> set (for_block (sigs_64 sigs)) \<inter> counted = {}
      then Ok (c + word_of_nat (vpowers (claimants m sigs))) else Err DuplicateSigner)"
proof (induction sigs arbitrary: counted c)
  case (Cons s sigs)
  show ?case
  proof (cases "named m s")
    case None
    then show ?thesis using Cons
      by (auto simp: claimants_Cons named_def sigs_64_def for_block_def Let_def split: if_splits)
  next
    case (Some v)
    then have s: "cs_flag s = BidCommit" "length (cs_signature s) = 64" "m (cs_validator_address s) = Some v"
      by (auto simp: named_def split: if_splits)
    have "unat (c + ucast (vi_voting_power v)) = unat c + vpower v"
      using Cons.prems Some unat_power [of v] by (simp add: claimants_Cons unat_plus_no_overflow)
    then show ?thesis using Cons s Some unat_power [of v]
      by (auto simp: claimants_Cons sigs_64_def for_block_def Let_def plus_checked_def add.assoc)
  qed
qed (simp add: claimants_def map_filter_simps sigs_64_def for_block_def)

lemma unresolved_loop_eq:
  "unat u + vpowers (claimants m sigs) < 2 ^ 128 \<Longrightarrow>
   unresolved_loop m counted u sigs =
     (if distinct (for_block sigs) \<and> set (for_block sigs) \<inter> counted = {}
      then Ok (u + word_of_nat (vpowers (claimants m sigs))) else Err DuplicateSigner)"
proof (induction sigs arbitrary: counted u)
  case (Cons s sigs)
  show ?case
  proof (cases "named m s")
    case None
    then show ?thesis using Cons
      by (auto simp: claimants_Cons named_def for_block_def Let_def split: if_splits)
  next
    case (Some v)
    then have s: "cs_flag s = BidCommit" "length (cs_signature s) = 64" "m (cs_validator_address s) = Some v"
      by (auto simp: named_def split: if_splits)
    have "unat (u + ucast (vi_voting_power v)) = unat u + vpower v" "sat_add u (ucast (vi_voting_power v)) = u + ucast (vi_voting_power v)"
      using Cons.prems Some unat_power [of v] by (simp_all add: claimants_Cons unat_plus_no_overflow sat_add_def)
    then show ?thesis using Cons s Some unat_power [of v]
      by (auto simp: claimants_Cons for_block_def Let_def add.assoc)
  qed
qed (simp add: claimants_def map_filter_simps for_block_def)

text \<open>The early exits do not change the verdict on a threshold that grows with the power.\<close>

lemma signed_loop_eq:
  assumes R: "\<And>p. unat p \<le> B \<Longrightarrow> reaches p = Ok (R (unat p))" and mono: "\<And>a b. a \<le> b \<Longrightarrow> R a \<Longrightarrow> R b"
    and B: "B < 2 ^ 128"
  shows "unat u = vpowers (claimants m sigs) \<Longrightarrow> unat t + unat u \<le> B \<Longrightarrow>
    \<exists>s n. signed_loop ver reaches m chain_id commit u t sigs = Ok s \<and>
      unat s = unat t + vpowers (signers ver m chain_id commit (take n sigs)) \<and>
      R (unat s) = R (unat t + vpowers (signers ver m chain_id commit sigs))"
proof (induction sigs arbitrary: u t)
  case Nil
  then show ?case by (auto simp: signers_def map_filter_simps)
next
  case (Cons sig sigs)
  let ?S = "signers ver m chain_id commit"
  have le: "vpowers (?S (sig # sigs)) \<le> unat u" using Cons.prems(1) signers_le by metis
  have sum: "unat (sat_add t u) = unat t + unat u" using Cons.prems(2) B by (simp add: unat_sat_add)
  have reach: "reaches t = Ok (R (unat t))" "reaches (sat_add t u) = Ok (R (unat t + unat u))"
    using R Cons.prems(2) sum by auto
  consider "R (unat t)" | "\<not> R (unat t + unat u)" | "\<not> R (unat t)" "R (unat t + unat u)" by blast
  then show ?case
  proof cases
    case 1
    then have "R (unat t + vpowers (?S (sig # sigs)))" using mono le_add1 by blast
    with 1 show ?thesis by (intro exI [of _ t] exI [of _ 0]) (simp add: reach)
  next
    case 2
    then have "\<not> R (unat t)" "\<not> R (unat t + vpowers (?S (sig # sigs)))" using mono le by (meson add_left_mono le_add1)+
    with 2 show ?thesis by (intro exI [of _ t] exI [of _ 0]) (simp add: reach)
  next
    case 3
    show ?thesis
    proof (cases "named m sig")
      case None
      then have "claimants m (sig # sigs) = claimants m sigs" "?S (sig # xs) = ?S xs" for xs
        by (simp_all add: claimants_Cons signers_Cons signer_def)
      moreover from this obtain s n where "signed_loop ver reaches m chain_id commit u t sigs = Ok s"
          "unat s = unat t + vpowers (?S (take n sigs))" "R (unat s) = R (unat t + vpowers (?S sigs))"
        using Cons.IH [of u t] Cons.prems by auto
      moreover have "signed_loop ver reaches m chain_id commit u t (sig # sigs) = signed_loop ver reaches m chain_id commit u t sigs"
        using None 3 by (auto simp: reach named_def split: option.splits if_splits)
      ultimately show ?thesis by (intro exI [of _ s] exI [of _ "Suc n"]) simp
    next
      case (Some v)
      let ?u = "sat_sub u (ucast (vi_voting_power v))"
      have s: "cs_flag sig = BidCommit" "length (cs_signature sig) = 64" "m (cs_validator_address sig) = Some v"
        using Some by (auto simp: named_def split: if_splits)
      have c: "claimants m (sig # sigs) = v # claimants m sigs" using Some by (simp add: claimants_Cons)
      then have u: "unat ?u = vpowers (claimants m sigs)" "unat u = vpower v + unat ?u"
        using Cons.prems(1) by (simp_all add: unat_sat_sub unat_power)
      let ?ok = "ver (vi_pubkey v) (vote_sign_bytes (vote_of chain_id commit sig)) (cs_signature sig)"
      define t' where "t' = (if ?ok then t + ucast (vi_voting_power v) else t)"
      have t': "unat t' = unat t + (if ?ok then vpower v else 0)" "?ok \<Longrightarrow> plus_checked t (ucast (vi_voting_power v)) = (Ok t' :: (commit_error, u128) res)"
        using Cons.prems(2) B u(2) by (auto simp: t'_def unat_power unat_plus_no_overflow plus_checked_def)
      have S: "vpowers (?S (sig # xs)) = (if ?ok then vpower v else 0) + vpowers (?S xs)" for xs
        using Some by (simp add: signers_Cons signer_def)
      have bound: "unat t' + unat ?u \<le> B" using Cons.prems(2) u(2) t'(1) by (cases ?ok) auto
      obtain s n where IH: "signed_loop ver reaches m chain_id commit ?u t' sigs = Ok s"
          "unat s = unat t' + vpowers (?S (take n sigs))" "R (unat s) = R (unat t' + vpowers (?S sigs))"
        using Cons.IH [OF u(1) bound] by blast
      have "signed_loop ver reaches m chain_id commit u t (sig # sigs) = signed_loop ver reaches m chain_id commit ?u t' sigs"
        using 3 s t'(2) by (auto simp: reach Let_def t'_def)
      then show ?thesis using IH t'(1) by (intro exI [of _ s] exI [of _ "Suc n"]) (simp add: S add.assoc)
    qed
  qed
qed

section \<open>The verdict on a commit\<close>

text \<open>A commit that names the header, in sets within the limits and with no signer twice.\<close>

definition commits_to :: "(bytes \<Rightarrow> bytes) \<Rightarrow> cosmos_header \<Rightarrow> cosmos_commit \<Rightarrow> validator_set \<Rightarrow> bool" where
  "commits_to sha header commit vset \<longleftrightarrow>
     length (vs_validators vset) \<le> MAX_VALIDATORS \<and> length (cc_signatures commit) \<le> MAX_VALIDATORS \<and>
     cc_height commit = ch_height header \<and> bi_hash (cc_block_id commit) = cosmos_header_hash sha header \<and>
     distinct (for_block (cc_signatures commit))"

definition backers ::
  "(bytes \<Rightarrow> bytes) \<Rightarrow> (bytes \<Rightarrow> bytes \<Rightarrow> bytes \<Rightarrow> bool) \<Rightarrow> bytes \<Rightarrow> cosmos_commit \<Rightarrow> validator_set \<Rightarrow> validator_info list" where
  "backers sha ver chain_id commit vset = signers ver (by_address sha (vs_validators vset)) chain_id commit (cc_signatures commit)"

abbreviation whole_power :: "validator_set \<Rightarrow> nat" where "whole_power vset \<equiv> vpowers (vs_validators vset)"

lemma tally_until_exact:
  assumes R: "\<And>p. unat p < 2 ^ 75 \<Longrightarrow> reaches p = Ok (R (unat p))" and mono: "\<And>a b. a \<le> b \<Longrightarrow> R a \<Longrightarrow> R b"
  shows "tally_signed_power_until sha ver chain_id header commit vset reaches \<noteq> Panic" (is "?t \<noteq> Panic")
    and "is_ok (tally_signed_power_until sha ver chain_id header commit vset reaches) = commits_to sha header commit vset"
    and "tally_signed_power_until sha ver chain_id header commit vset reaches = Ok s \<Longrightarrow>
      R (unat s) = R (vpowers (backers sha ver chain_id commit vset)) \<and> unat s < 2 ^ 75"
proof -
  let ?m = "by_address sha (vs_validators vset)" and ?sigs = "cc_signatures commit"
  have *: "?t \<noteq> Panic \<and> is_ok ?t = commits_to sha header commit vset \<and>
      (\<forall>s. ?t = Ok s \<longrightarrow> R (unat s) = R (vpowers (backers sha ver chain_id commit vset)) \<and> unat s < 2 ^ 75)"
  proof (cases "length ?sigs \<le> MAX_VALIDATORS")
    case True
    have b: "vpowers (claimants ?m ?sigs) < 2 ^ 75" using claimants_bound [OF True] .
    let ?u = "word_of_nat (vpowers (claimants ?m ?sigs)) :: u128"
    have u: "unat ?u = vpowers (claimants ?m ?sigs)" using b by (simp add: unat_of_nat)
    have eq: "unresolved_loop ?m {} 0 ?sigs = (if distinct (for_block ?sigs) then Ok ?u else Err DuplicateSigner)"
      using unresolved_loop_eq [of 0 ?m ?sigs "{}"] b by simp
    have "\<exists>s n. signed_loop ver reaches ?m chain_id commit ?u 0 ?sigs = Ok s \<and>
        unat s = unat (0 :: u128) + vpowers (signers ver ?m chain_id commit (take n ?sigs)) \<and>
        R (unat s) = R (unat (0 :: u128) + vpowers (signers ver ?m chain_id commit ?sigs))"
    proof (rule signed_loop_eq [of "2 ^ 75 - 1"])
      show "reaches p = Ok (R (unat p))" if "unat p \<le> 2 ^ 75 - 1" for p using that by (intro R) simp
      show "R b" if "a \<le> b" "R a" for a b using mono that .
    qed (use u b in simp_all)
    then obtain s n where s: "signed_loop ver reaches ?m chain_id commit ?u 0 ?sigs = Ok s"
      "unat s = vpowers (signers ver ?m chain_id commit (take n ?sigs))"
      "R (unat s) = R (vpowers (backers sha ver chain_id commit vset))"
      by (auto simp: backers_def)
    have "unat s \<le> vpowers (claimants ?m (take n ?sigs))" using s(2) signers_le by metis
    also have "\<dots> < 2 ^ 75" by (rule claimants_bound) (use True in \<open>simp add: min.coboundedI1\<close>)
    finally have "unat s < 2 ^ 75" .
    then show ?thesis using s True by (simp add: tally_signed_power_until_def eq commits_to_def Let_def)
  qed (simp add: tally_signed_power_until_def commits_to_def)
  then show "?t \<noteq> Panic" "is_ok ?t = commits_to sha header commit vset"
    "?t = Ok s \<Longrightarrow> R (unat s) = R (vpowers (backers sha ver chain_id commit vset)) \<and> unat s < 2 ^ 75" by auto
qed

lemma claimed_power_cases:
  assumes "length (vs_validators vset) \<le> MAX_VALIDATORS" and "length (cc_signatures commit) \<le> MAX_VALIDATORS"
  obtains "claimed_power sha commit vset = Err DuplicateSigner" and "\<not> distinct (for_block (cc_signatures commit))"
  | c where "claimed_power sha commit vset = Ok c" and "unat c < 2 ^ 75"
    and "\<And>ver chain_id. vpowers (backers sha ver chain_id commit vset) \<le> unat c"
proof -
  let ?m = "by_address sha (vs_validators vset)" and ?sigs = "cc_signatures commit"
  let ?c = "word_of_nat (vpowers (claimants ?m ?sigs)) :: u128"
  have b: "vpowers (claimants ?m ?sigs) < 2 ^ 75" using claimants_bound [OF assms(2)] .
  then have c: "unat ?c = vpowers (claimants ?m ?sigs)" by (simp add: unat_of_nat)
  have "claimed_power sha commit vset = (if distinct (for_block (sigs_64 ?sigs)) then Ok ?c else Err DuplicateSigner)"
    using claimed_loop_eq [of 0 ?m ?sigs "{}"] b assms by (simp add: claimed_power_def)
  moreover have "for_block (sigs_64 ?sigs) =
      map cs_validator_address (filter (\<lambda>s. length (cs_signature s) = 64) (filter (\<lambda>s. cs_flag s = BidCommit) ?sigs))"
    by (simp add: for_block_def sigs_64_def conj_commute)
  then have "distinct (for_block ?sigs) \<Longrightarrow> distinct (for_block (sigs_64 ?sigs))"
    by (simp add: for_block_def distinct_map_filter del: filter_filter)
  moreover have "vpowers (backers sha ver chain_id commit vset) \<le> unat ?c" for ver chain_id
    using signers_le c by (simp add: backers_def)
  ultimately show ?thesis using that b c by (cases "distinct (for_block (sigs_64 ?sigs))") auto
qed

lemma whole_power_small: "length (vs_validators vset) \<le> MAX_VALIDATORS \<Longrightarrow> whole_power vset < 2 ^ 75"
  using powers_less [of "vs_validators vset"] by (cases "vs_validators vset = []") (auto simp: MAX_VALIDATORS_def)

lemma has_two_thirds_small:
  assumes "unat p < 2 ^ 75" and "unat t < 2 ^ 75"
  shows "(has_two_thirds p t :: ('e, bool) res) = Ok (3 * unat p > 2 * unat t)"
  by (rule has_two_thirds_Ok) (use assms in auto)

lemma commit_verdict:
  assumes "length (vs_validators vset) \<le> usize_max"
  shows "verify_commit sha ver chain_id header commit vset \<noteq> Panic \<and>
    (is_ok (verify_commit sha ver chain_id header commit vset) \<longleftrightarrow>
       commits_to sha header commit vset \<and> 2 * whole_power vset < 3 * vpowers (backers sha ver chain_id commit vset)) \<and>
    (\<forall>p. verify_commit sha ver chain_id header commit vset = Ok p \<longrightarrow> 2 * whole_power vset < 3 * unat p)"
proof -
  let ?v = "verify_commit sha ver chain_id header commit vset" and ?P = "vpowers (backers sha ver chain_id commit vset)"
  obtain t where t: "(total_power vset :: (commit_error, u128) res) = Ok t" "unat t = whole_power vset"
    by (rule total_power_Ok [OF assms])
  show ?thesis
  proof (cases "length (vs_validators vset) \<le> MAX_VALIDATORS \<and> length (cc_signatures commit) \<le> MAX_VALIDATORS")
    case small: True
    have t75: "unat t < 2 ^ 75" using whole_power_small small t(2) by simp
    note h = has_two_thirds_small [OF _ t75, unfolded t(2)]
    let ?r = "\<lambda>p. has_two_thirds p t" and ?R = "\<lambda>n. 2 * whole_power vset < 3 * n"
    let ?t = "tally_signed_power_until sha ver chain_id header commit vset ?r"
    have mono: "a \<le> b \<Longrightarrow> ?R a \<Longrightarrow> ?R b" for a b by linarith
    have "?t \<noteq> Panic \<and> is_ok ?t = commits_to sha header commit vset \<and> (\<forall>s. ?t = Ok s \<longrightarrow> ?R (unat s) = ?R ?P \<and> unat s < 2 ^ 75)"
      by (intro conjI allI impI; (elim conjE)?; (rule tally_until_exact(1) [of ?r ?R] tally_until_exact(2) [of ?r ?R]
            tally_until_exact(3) [of ?r ?R, THEN conjunct1] tally_until_exact(3) [of ?r ?R, THEN conjunct2]);
          (rule h mono | assumption); assumption?)
    then consider e where "?t = Err e" "\<not> commits_to sha header commit vset"
      | s where "?t = Ok s" "commits_to sha header commit vset" "?R (unat s) = ?R ?P" "unat s < 2 ^ 75"
      by (cases ?t) auto
    note tally = this
    have te: "tally_signed_power sha ver chain_id header commit vset = ?t" by (simp add: tally_signed_power_def t)
    have v: "?v = and_then (claimed_power sha commit vset) (\<lambda>claimed.
        and_then (?r claimed) (\<lambda>enough. if \<not> enough then Err (NotEnoughVotingPower claimed t)
          else and_then ?t (\<lambda>s. and_then (?r s) (\<lambda>reached. if reached then Ok s else Err (NotEnoughVotingPower s t)))))"
      unfolding verify_commit_def te by (simp add: t)
    have nd: "\<not> distinct (for_block (cc_signatures commit)) \<Longrightarrow> \<not> commits_to sha header commit vset" by (simp add: commits_to_def)
    have "claimed_power sha commit vset = Err DuplicateSigner \<and> \<not> commits_to sha header commit vset \<or>
        (\<exists>c. claimed_power sha commit vset = Ok c \<and> unat c < 2 ^ 75 \<and> ?P \<le> unat c)"
      using small nd by (elim conjE) (rule claimed_power_cases [of vset commit sha]; blast)
    then consider "claimed_power sha commit vset = Err DuplicateSigner" "\<not> commits_to sha header commit vset"
      | c where "claimed_power sha commit vset = Ok c" "unat c < 2 ^ 75" "?P \<le> unat c" by blast
    then show ?thesis
    proof cases
      case (2 c)
      show ?thesis
      proof (cases "?R (unat c)")
        case True
        from tally show ?thesis by cases (use 2 True in \<open>simp_all add: v h\<close>)
      next
        case False
        then have "\<not> ?R ?P" using 2(3) by linarith
        then show ?thesis using 2 False by (simp add: v h)
      qed
    qed (simp add: v)
  next
    case False
    then show ?thesis by (auto simp: verify_commit_def claimed_power_def commits_to_def t)
  qed
qed

section \<open>What an accepted commit shows\<close>

lemma signers_sub: "set (signers ver m chain_id commit sigs) \<subseteq> set (claimants m sigs)"
  by (induction sigs) (auto simp: signers_Cons claimants_Cons signer_def split: option.splits if_splits)

lemma signers_distinct: "distinct (claimants m sigs) \<Longrightarrow> distinct (signers ver m chain_id commit sigs)"
  using signers_sub by (induction sigs) (fastforce simp: signers_Cons claimants_Cons signer_def split: option.splits if_splits)+

lemma backers_facts:
  assumes "distinct (for_block (cc_signatures commit))"
  shows "distinct (backers sha ver chain_id commit vset)" and "set (backers sha ver chain_id commit vset) \<subseteq> set (vs_validators vset)"
  using claimants_distinct [OF assms, of sha "vs_validators vset"] signers_sub signers_distinct
  by (auto simp: backers_def distinct_map subset_iff)

lemma backer_signed:
  assumes "v \<in> set (backers sha ver chain_id commit vset)"
  shows "\<exists>s \<in> set (cc_signatures commit). cs_flag s = BidCommit \<and> vi_address sha v = cs_validator_address s \<and>
    ver (vi_pubkey v) (vote_sign_bytes (vote_of chain_id commit s)) (cs_signature s)"
proof -
  let ?m = "by_address sha (vs_validators vset)"
  obtain s where "s \<in> set (cc_signatures commit)" "signer ver ?m chain_id commit s = Some v"
    using assms by (auto simp: backers_def signers_def List.map_filter_def)
  then show ?thesis using by_address_Some by (force simp: signer_def named_def split: option.splits if_splits)
qed

lemma majorities_share:
  fixes f :: "'a \<Rightarrow> nat"
  assumes "finite U" and "A \<subseteq> U" and "B \<subseteq> U" and "2 * w < 3 * sum f A" and "2 * w < 3 * sum f B" and "sum f U \<le> w"
  shows "w < 3 * sum f (A \<inter> B)"
proof -
  have fin: "finite A" "finite B" using assms(1-3) finite_subset by auto
  have "sum f A + sum f B = sum f (A \<union> B) + sum f (A \<inter> B)" using fin by (simp add: sum.union_inter)
  moreover have "sum f (A \<union> B) \<le> w"
    using assms by (intro order_trans [OF sum_mono2 [of U "A \<union> B" f]]) auto
  ultimately show ?thesis using assms(4,5) by linarith
qed

lemma verify_commit_Ok:
  assumes "verify_commit sha ver chain_id header commit vset = Ok p" and "length (vs_validators vset) \<le> usize_max"
  shows "commits_to sha header commit vset" and "2 * whole_power vset < 3 * sum vpower (set (backers sha ver chain_id commit vset))"
proof -
  show c: "commits_to sha header commit vset"
    using commit_verdict [OF assms(2), of sha ver chain_id header commit] assms(1) by simp
  have "2 * whole_power vset < 3 * vpowers (backers sha ver chain_id commit vset)"
    using commit_verdict [OF assms(2), of sha ver chain_id header commit] assms(1) by simp
  then show "2 * whole_power vset < 3 * sum vpower (set (backers sha ver chain_id commit vset))"
    using backers_facts(1) [of commit sha ver chain_id vset] c by (simp add: commits_to_def sum_list_distinct_conv_sum_set)
qed

lemma set_power_le: "sum vpower (set vs) \<le> vpowers vs"
  using sum_distinct_le [of "remdups vs" vs vpower] by (simp add: sum_list_distinct_conv_sum_set)

text \<open>C12: \<open>verify_commit\<close> accepts a commit if and only if it names the header by height and hash, the set and the
  list of signatures are within the limits, no validator signs for the block twice, and the validators of the set
  with a valid signature over exactly this vote, each counted once, hold more than two thirds of the set's power.
  The early exits of the count do not change the verdict, the reported power exceeds two thirds too, and the call
  never panics.\<close>

theorem verify_commit_exact:
  assumes "length (vs_validators vset) \<le> usize_max"
  shows "verify_commit sha ver chain_id header commit vset \<noteq> Panic \<and>
    (is_ok (verify_commit sha ver chain_id header commit vset) \<longleftrightarrow>
       commits_to sha header commit vset \<and> 2 * whole_power vset < 3 * vpowers (backers sha ver chain_id commit vset)) \<and>
    (\<forall>p. verify_commit sha ver chain_id header commit vset = Ok p \<longrightarrow> 2 * whole_power vset < 3 * unat p)"
  by (rule commit_verdict [OF assms])

text \<open>C13: Two commits accepted for the same set of validators are both signed by validators of the set that hold more
  than a third of its power. Where the two headers have different hashes these validators have signed different votes,
  so that two accepted blocks of one height convict more than a third of the power.\<close>

theorem commits_overlap:
  assumes "verify_commit sha ver chain_id h c vset = Ok p" and "verify_commit sha ver chain_id h' c' vset = Ok p'"
    and "length (vs_validators vset) \<le> usize_max"
  shows "\<exists>V \<subseteq> set (vs_validators vset). whole_power vset < 3 * sum vpower V \<and>
    (\<forall>v \<in> V. \<exists>s \<in> set (cc_signatures c). \<exists>s' \<in> set (cc_signatures c').
       ver (vi_pubkey v) (vote_sign_bytes (vote_of chain_id c s)) (cs_signature s) \<and>
       ver (vi_pubkey v) (vote_sign_bytes (vote_of chain_id c' s')) (cs_signature s') \<and>
       (cosmos_header_hash sha h \<noteq> cosmos_header_hash sha h' \<and> vote_fits (vote_of chain_id c s) \<and> vote_fits (vote_of chain_id c' s') \<longrightarrow>
          vote_sign_bytes (vote_of chain_id c s) \<noteq> vote_sign_bytes (vote_of chain_id c' s')))"
proof -
  let ?B = "set (backers sha ver chain_id c vset)" and ?B' = "set (backers sha ver chain_id c' vset)"
  note a = verify_commit_Ok [OF assms(1,3)] and b = verify_commit_Ok [OF assms(2,3)]
  have sub: "?B \<subseteq> set (vs_validators vset)" "?B' \<subseteq> set (vs_validators vset)"
    using backers_facts(2) a(1) b(1) by (auto simp: commits_to_def)
  have differ: "vote_sign_bytes (vote_of chain_id c s) \<noteq> vote_sign_bytes (vote_of chain_id c' s')"
    if "cosmos_header_hash sha h \<noteq> cosmos_header_hash sha h'" "vote_fits (vote_of chain_id c s)" "vote_fits (vote_of chain_id c' s')" for s s'
  proof -
    have "bi_hash (cc_block_id c) \<noteq> bi_hash (cc_block_id c')" using that(1) a(1) b(1) by (simp add: commits_to_def)
    then show ?thesis using sign_bytes_inj [OF that(2,3)] by (auto simp: vote_of_def)
  qed
  show ?thesis
  proof (intro exI [of _ "?B \<inter> ?B'"] conjI ballI)
    show "whole_power vset < 3 * sum vpower (?B \<inter> ?B')"
      by (rule majorities_share [OF _ sub a(2) b(2) set_power_le]) simp
    fix v assume v: "v \<in> ?B \<inter> ?B'"
    obtain s where s: "s \<in> set (cc_signatures c)" "ver (vi_pubkey v) (vote_sign_bytes (vote_of chain_id c s)) (cs_signature s)"
      using v backer_signed [of v sha ver chain_id c vset] by auto
    obtain s' where s': "s' \<in> set (cc_signatures c')" "ver (vi_pubkey v) (vote_sign_bytes (vote_of chain_id c' s')) (cs_signature s')"
      using v backer_signed [of v sha ver chain_id c' vset] by auto
    show "\<exists>s \<in> set (cc_signatures c). \<exists>s' \<in> set (cc_signatures c').
       ver (vi_pubkey v) (vote_sign_bytes (vote_of chain_id c s)) (cs_signature s) \<and>
       ver (vi_pubkey v) (vote_sign_bytes (vote_of chain_id c' s')) (cs_signature s') \<and>
       (cosmos_header_hash sha h \<noteq> cosmos_header_hash sha h' \<and> vote_fits (vote_of chain_id c s) \<and> vote_fits (vote_of chain_id c' s') \<longrightarrow>
          vote_sign_bytes (vote_of chain_id c s) \<noteq> vote_sign_bytes (vote_of chain_id c' s'))"
      using s s' differ by (intro bexI [of _ s] bexI [of _ s']) auto
  qed (use sub(1) in blast)
qed

section \<open>A commit of one validator\<close>

definition zero_hash :: "bytes \<Rightarrow> bytes" where "zero_hash x = replicate 32 0"
definition any_sig :: "bytes \<Rightarrow> bytes \<Rightarrow> bytes \<Rightarrow> bool" where "any_sig key message signature = True"
definition one_validator :: validator_set where
  "one_validator = \<lparr>vs_validators = [\<lparr>vi_pubkey = replicate 32 1, vi_voting_power = 10\<rparr>]\<rparr>"
definition plain_header :: "i64 \<Rightarrow> bytes \<Rightarrow> cosmos_header" where
  "plain_header n chain_id =
     \<lparr>ch_version_block = 11, ch_version_app = 0, ch_chain_id = chain_id, ch_height = n, ch_time = \<lparr>ts_seconds = n, ts_nanos = 0\<rparr>,
      ch_last_block_id = \<lparr>bi_hash = [], bi_part_total = 0, bi_part_hash = []\<rparr>, ch_last_commit_hash = [], ch_data_hash = [],
      ch_validators_hash = replicate 32 0, ch_next_validators_hash = replicate 32 0, ch_consensus_hash = [],
      ch_app_hash = replicate 32 0, ch_last_results_hash = [], ch_evidence_hash = [], ch_proposer_address = []\<rparr>"
definition plain_commit :: "i64 \<Rightarrow> cosmos_commit" where
  "plain_commit n =
     \<lparr>cc_height = n, cc_round = 0, cc_block_id = \<lparr>bi_hash = replicate 32 0, bi_part_total = 1, bi_part_hash = []\<rparr>,
      cc_signatures = [\<lparr>cs_flag = BidCommit, cs_validator_address = replicate 20 0,
        cs_timestamp = \<lparr>ts_seconds = n, ts_nanos = 0\<rparr>, cs_signature = replicate 64 0\<rparr>]\<rparr>"

lemma plain_commits: "commits_to zero_hash (plain_header n chain_id) (plain_commit n) one_validator"
  by (simp add: commits_to_def plain_header_def plain_commit_def one_validator_def MAX_VALIDATORS_def for_block_def
      cosmos_header_hash_def cosmos_root_string zero_hash_def)

lemma plain_backers: "backers zero_hash any_sig chain_id (plain_commit n) one_validator = vs_validators one_validator"
  by (simp add: backers_def signers_def plain_commit_def one_validator_def signer_def named_def by_address_def any_sig_def
      vi_address_def zero_hash_def)

lemma plain_verified: "\<exists>p. verify_commit zero_hash any_sig chain_id (plain_header n chain_id) (plain_commit n) one_validator = Ok p"
proof -
  have "length (vs_validators one_validator) \<le> usize_max" "0 < whole_power one_validator" by (simp_all add: one_validator_def)
  with commit_verdict [OF this(1), of zero_hash any_sig chain_id "plain_header n chain_id" "plain_commit n"] plain_commits
  show ?thesis by (simp add: plain_backers is_ok_iff)
qed

theorem verify_commit_exact_witness:
  "is_ok (verify_commit zero_hash any_sig [] (plain_header 5 []) (plain_commit 5) one_validator)"
proof -
  have "length (vs_validators one_validator) \<le> usize_max" "0 < whole_power one_validator" by (simp_all add: one_validator_def)
  with verify_commit_exact [OF this(1), of zero_hash any_sig "[]" "plain_header 5 []" "plain_commit 5"] plain_commits
  show ?thesis by (simp add: plain_backers)
qed

theorem commits_overlap_witness:
  "\<exists>V \<subseteq> set (vs_validators one_validator). whole_power one_validator < 3 * sum vpower V \<and>
    (\<forall>v \<in> V. \<exists>s \<in> set (cc_signatures (plain_commit 5)). \<exists>s' \<in> set (cc_signatures (plain_commit 5)).
       any_sig (vi_pubkey v) (vote_sign_bytes (vote_of [] (plain_commit 5) s)) (cs_signature s) \<and>
       any_sig (vi_pubkey v) (vote_sign_bytes (vote_of [] (plain_commit 5) s')) (cs_signature s') \<and>
       (cosmos_header_hash zero_hash (plain_header 5 []) \<noteq> cosmos_header_hash zero_hash (plain_header 5 []) \<and>
          vote_fits (vote_of [] (plain_commit 5) s) \<and> vote_fits (vote_of [] (plain_commit 5) s') \<longrightarrow>
          vote_sign_bytes (vote_of [] (plain_commit 5) s) \<noteq> vote_sign_bytes (vote_of [] (plain_commit 5) s')))"
proof -
  obtain p where p: "verify_commit zero_hash any_sig [] (plain_header 5 []) (plain_commit 5) one_validator = Ok p"
    using plain_verified by blast
  have "length (vs_validators one_validator) \<le> usize_max" by (simp add: one_validator_def)
  from commits_overlap [OF p p this] show ?thesis .
qed

end
