(* ===== verification/Cosmos_Light.thy ===== *)
theory Cosmos_Light
  imports Cosmos_Commit Codec
begin

text \<open>
  The Tendermint light client: the chain configurations (\<^verbatim>\<open>crates/qlc-cosmos/src/chain.rs\<close>) and the checks of
  \<^verbatim>\<open>light.rs\<close> that carry a trusted state to a later header, by overlap of the validator sets or by adjacency.
\<close>

section \<open>Chains\<close>

record chain_config =
  cf_chain_id :: bytes
  cf_corridor_id :: u32
  cf_confirmation_depth :: u32
  cf_overlap_numerator :: u64
  cf_overlap_denominator :: u64
  cf_trusting_period_secs :: u64
  cf_max_clock_drift_secs :: u64
  cf_bridge_store_prefix :: bytes
  cf_bridge_store_name :: bytes

definition BRIDGE_STORE_PREFIX :: bytes where "BRIDGE_STORE_PREFIX = ascii ''bridge/deposits/''"
definition BRIDGE_STORE_NAME :: bytes where "BRIDGE_STORE_NAME = ascii ''bridge''"
definition DEFAULT_TRUSTING_PERIOD_SECS :: u64 where "DEFAULT_TRUSTING_PERIOD_SECS = 604800"
definition DEFAULT_MAX_CLOCK_DRIFT_SECS :: u64 where "DEFAULT_MAX_CLOCK_DRIFT_SECS = 10"

definition chain_config_new :: "bytes \<Rightarrow> u32 \<Rightarrow> u32 \<Rightarrow> chain_config" where
  "chain_config_new chain_id corridor_id confirmation_depth =
     \<lparr>cf_chain_id = chain_id, cf_corridor_id = corridor_id, cf_confirmation_depth = confirmation_depth,
      cf_overlap_numerator = 2, cf_overlap_denominator = 3,
      cf_trusting_period_secs = DEFAULT_TRUSTING_PERIOD_SECS, cf_max_clock_drift_secs = DEFAULT_MAX_CLOCK_DRIFT_SECS,
      cf_bridge_store_prefix = BRIDGE_STORE_PREFIX, cf_bridge_store_name = BRIDGE_STORE_NAME\<rparr>"

definition COSMOS_HUB :: chain_config where "COSMOS_HUB = chain_config_new (ascii ''cosmoshub-4'') 16 2"
definition OSMOSIS :: chain_config where "OSMOSIS = chain_config_new (ascii ''osmosis-1'') 17 2"
definition CELESTIA :: chain_config where "CELESTIA = chain_config_new (ascii ''celestia'') 18 2"
definition INJECTIVE :: chain_config where "INJECTIVE = chain_config_new (ascii ''injective-1'') 19 2"
definition SEI :: chain_config where "SEI = chain_config_new (ascii ''pacific-1'') 20 2"

definition FAMILY :: "chain_config list" where
  "FAMILY = [COSMOS_HUB, OSMOSIS, CELESTIA, INJECTIVE, SEI]"

definition by_chain_id :: "bytes \<Rightarrow> chain_config option" where
  "by_chain_id chain_id = find (\<lambda>c. cf_chain_id c = chain_id) FAMILY"

section \<open>Trusted states\<close>

record trusted_state =
  tr_height :: i64
  tr_time :: timestamp
  tr_header_hash :: bytes
  tr_validators :: validator_set
  tr_next_validators_hash :: bytes

record pinned_trusted_state =
  pt_chain_id :: bytes
  pt_height :: i64
  pt_header_hash :: bytes
  pt_validators_hash :: bytes
  pt_time_seconds :: i64
  pt_time_nanos :: i32
  pt_next_validators_hash :: bytes

definition PINNED_TRUSTED_STATES :: "pinned_trusted_state list" where "PINNED_TRUSTED_STATES = []"

definition pin_matches :: "(bytes \<Rightarrow> bytes) \<Rightarrow> pinned_trusted_state \<Rightarrow> bytes \<Rightarrow> trusted_state \<Rightarrow> bool" where
  "pin_matches sha p chain_id trusted \<longleftrightarrow>
     pt_chain_id p = chain_id \<and> pt_height p = tr_height trusted \<and> pt_header_hash p = tr_header_hash trusted \<and>
     pt_validators_hash p = validators_hash sha (tr_validators trusted) \<and> pt_time_seconds p = ts_seconds (tr_time trusted) \<and>
     pt_time_nanos p = ts_nanos (tr_time trusted) \<and> pt_next_validators_hash p = tr_next_validators_hash trusted"

definition trusted_state_is_pinned :: "(bytes \<Rightarrow> bytes) \<Rightarrow> bytes \<Rightarrow> trusted_state \<Rightarrow> bool" where
  "trusted_state_is_pinned sha chain_id trusted = list_ex (\<lambda>p. pin_matches sha p chain_id trusted) PINNED_TRUSTED_STATES"

datatype light_error =
    LightChainMismatch
  | NotProgressing
  | UntrustedValidatorSet
  | InsufficientOverlap u128 u128
  | InsufficientTrustedSignatures u128 u128
  | TrustedStateExpired i64 u64
  | ClockBehindTrustedState
  | NonMonotonicHeaderTime
  | HeaderTimeInFuture
  | NotAdjacent
  | NextValidatorMismatch
  | LightCommit commit_error

definition total_nanos :: "timestamp \<Rightarrow> int" where
  "total_nanos ts = sint (ts_seconds ts) * 1000000000 + sint (ts_nanos ts)"

definition check_time :: "chain_config \<Rightarrow> trusted_state \<Rightarrow> cosmos_header \<Rightarrow> timestamp \<Rightarrow> (light_error, unit) res" where
  "check_time cfg trusted new_header now =
     (let trusted_ns = total_nanos (tr_time trusted); new_ns = total_nanos (ch_time new_header); now_ns = total_nanos now;
          trusting_ns = uint (cf_trusting_period_secs cfg) * 1000000000; drift_ns = uint (cf_max_clock_drift_secs cfg) * 1000000000
      in if now_ns < trusted_ns then Err ClockBehindTrustedState
         else if now_ns - trusted_ns \<ge> trusting_ns
         then let elapsed = sint (ts_seconds now) - sint (ts_seconds (tr_time trusted))
              in if elapsed < - (2 ^ 63) \<or> elapsed \<ge> 2 ^ 63 then Panic
                 else Err (TrustedStateExpired (word_of_int elapsed) (cf_trusting_period_secs cfg))
         else if new_ns \<le> trusted_ns then Err NonMonotonicHeaderTime
         else if new_ns > now_ns + drift_ns then Err HeaderTimeInFuture
         else Ok ())"

definition check_header ::
  "(bytes \<Rightarrow> bytes) \<Rightarrow> chain_config \<Rightarrow> trusted_state \<Rightarrow> cosmos_header \<Rightarrow> validator_set \<Rightarrow> timestamp \<Rightarrow> (light_error, unit) res" where
  "check_header sha cfg trusted new_header new_set now =
     (if length (vs_validators new_set) > MAX_VALIDATORS then Err UntrustedValidatorSet
      else if ch_chain_id new_header \<noteq> cf_chain_id cfg then Err LightChainMismatch
      else if sint (ch_height new_header) \<le> sint (tr_height trusted) then Err NotProgressing
      else if ch_validators_hash new_header \<noteq> validators_hash sha new_set then Err UntrustedValidatorSet
      else check_time cfg trusted new_header now)"

definition trusting_reach :: "chain_config \<Rightarrow> u128 \<Rightarrow> u128 \<Rightarrow> ('e, bool) res" where
  "trusting_reach cfg trusted_total p =
     (let numerator = ucast (cf_overlap_numerator cfg); denominator = ucast (cf_overlap_denominator cfg)
      in if numerator > 0
         then and_then (times_checked p denominator) (\<lambda>a. and_then (times_checked trusted_total numerator) (\<lambda>b. Ok (a > b)))
         else Ok False)"

definition check_trusting_claim ::
  "(bytes \<Rightarrow> bytes) \<Rightarrow> chain_config \<Rightarrow> trusted_state \<Rightarrow> cosmos_commit \<Rightarrow> (light_error, unit) res" where
  "check_trusting_claim sha cfg trusted new_commit =
     and_then (total_power (tr_validators trusted)) (\<lambda>trusted_total.
     and_then (map_err LightCommit (claimed_power sha new_commit (tr_validators trusted))) (\<lambda>claimed.
     and_then (trusting_reach cfg trusted_total claimed) (\<lambda>met.
     if \<not> met then Err (InsufficientTrustedSignatures claimed trusted_total) else Ok ())))"

definition check_trusting_commit ::
  "(bytes \<Rightarrow> bytes) \<Rightarrow> (bytes \<Rightarrow> bytes \<Rightarrow> bytes \<Rightarrow> bool) \<Rightarrow> chain_config \<Rightarrow> trusted_state \<Rightarrow> cosmos_header \<Rightarrow> cosmos_commit \<Rightarrow>
   (light_error, unit) res" where
  "check_trusting_commit sha ver cfg trusted new_header new_commit =
     and_then (total_power (tr_validators trusted)) (\<lambda>trusted_total.
     and_then (check_trusting_claim sha cfg trusted new_commit) (\<lambda>_.
     and_then (map_err LightCommit (tally_signed_power_until sha ver (cf_chain_id cfg) new_header new_commit (tr_validators trusted)
       (trusting_reach cfg trusted_total))) (\<lambda>tally.
     and_then (trusting_reach cfg trusted_total tally) (\<lambda>met.
     if met then Ok () else Err (InsufficientTrustedSignatures tally trusted_total)))))"

definition adopt :: "(bytes \<Rightarrow> bytes) \<Rightarrow> cosmos_header \<Rightarrow> validator_set \<Rightarrow> trusted_state" where
  "adopt sha new_header new_set =
     \<lparr>tr_height = ch_height new_header, tr_time = ch_time new_header, tr_header_hash = cosmos_header_hash sha new_header,
      tr_validators = new_set, tr_next_validators_hash = ch_next_validators_hash new_header\<rparr>"

definition overlap_check :: "(bytes \<Rightarrow> bytes) \<Rightarrow> chain_config \<Rightarrow> trusted_state \<Rightarrow> validator_set \<Rightarrow> (light_error, unit) res" where
  "overlap_check sha cfg trusted new_set =
     and_then (overlap_meets sha (tr_validators trusted) new_set (cf_overlap_numerator cfg) (cf_overlap_denominator cfg)) (\<lambda>met.
     if \<not> met
     then and_then (overlap_power sha (tr_validators trusted) new_set) (\<lambda>overlap.
          and_then (total_power (tr_validators trusted)) (\<lambda>trusted_total. Err (InsufficientOverlap overlap trusted_total)))
     else Ok ())"

definition verify_transition ::
  "(bytes \<Rightarrow> bytes) \<Rightarrow> (bytes \<Rightarrow> bytes \<Rightarrow> bytes \<Rightarrow> bool) \<Rightarrow> chain_config \<Rightarrow> trusted_state \<Rightarrow> cosmos_header \<Rightarrow> cosmos_commit \<Rightarrow>
   validator_set \<Rightarrow> timestamp \<Rightarrow> (light_error, trusted_state) res" where
  "verify_transition sha ver cfg trusted new_header new_commit new_set now =
     and_then (check_header sha cfg trusted new_header new_set now) (\<lambda>_.
     and_then (overlap_check sha cfg trusted new_set) (\<lambda>_.
     and_then (map_err LightCommit (verify_commit sha ver (cf_chain_id cfg) new_header new_commit new_set)) (\<lambda>_.
     and_then (check_trusting_commit sha ver cfg trusted new_header new_commit) (\<lambda>_.
     Ok (adopt sha new_header new_set)))))"

definition check_anchor ::
  "(bytes \<Rightarrow> bytes) \<Rightarrow> chain_config \<Rightarrow> trusted_state \<Rightarrow> cosmos_header \<Rightarrow> validator_set \<Rightarrow> timestamp \<Rightarrow> (light_error, unit) res" where
  "check_anchor sha cfg trusted new_header new_set now =
     and_then (check_header sha cfg trusted new_header new_set now) (\<lambda>_. overlap_check sha cfg trusted new_set)"

definition verify_adjacent ::
  "(bytes \<Rightarrow> bytes) \<Rightarrow> (bytes \<Rightarrow> bytes \<Rightarrow> bytes \<Rightarrow> bool) \<Rightarrow> chain_config \<Rightarrow> trusted_state \<Rightarrow> cosmos_header \<Rightarrow> cosmos_commit \<Rightarrow>
   validator_set \<Rightarrow> timestamp \<Rightarrow> (light_error, trusted_state) res" where
  "verify_adjacent sha ver cfg trusted new_header new_commit new_set now =
     and_then (check_header sha cfg trusted new_header new_set now) (\<lambda>_.
     if sint (tr_height trusted) = 2 ^ 63 - 1 then Panic
     else if ch_height new_header \<noteq> tr_height trusted + 1 then Err NotAdjacent
     else if ch_validators_hash new_header \<noteq> tr_next_validators_hash trusted then Err NextValidatorMismatch
     else
       and_then (map_err LightCommit (verify_commit sha ver (cf_chain_id cfg) new_header new_commit new_set)) (\<lambda>_.
       Ok (adopt sha new_header new_set)))"

section \<open>What the checks accept\<close>

text \<open>A header that may follow a trusted state.\<close>

definition header_follows ::
  "(bytes \<Rightarrow> bytes) \<Rightarrow> chain_config \<Rightarrow> trusted_state \<Rightarrow> cosmos_header \<Rightarrow> validator_set \<Rightarrow> timestamp \<Rightarrow> bool" where
  "header_follows sha cfg trusted h vset now \<longleftrightarrow>
     length (vs_validators vset) \<le> MAX_VALIDATORS \<and> ch_chain_id h = cf_chain_id cfg \<and> sint (tr_height trusted) < sint (ch_height h) \<and>
     ch_validators_hash h = validators_hash sha vset \<and>
     total_nanos (tr_time trusted) \<le> total_nanos now \<and>
     total_nanos now < total_nanos (tr_time trusted) + uint (cf_trusting_period_secs cfg) * 1000000000 \<and>
     total_nanos (tr_time trusted) < total_nanos (ch_time h) \<and>
     total_nanos (ch_time h) \<le> total_nanos now + uint (cf_max_clock_drift_secs cfg) * 1000000000"

lemma check_header_Ok: "check_header sha cfg trusted h vset now = Ok () \<longleftrightarrow> header_follows sha cfg trusted h vset now"
  by (auto simp: check_header_def check_time_def header_follows_def Let_def)

text \<open>The thresholds of the configurations of the code are small numbers.\<close>

definition config_small :: "chain_config \<Rightarrow> bool" where
  "config_small cfg \<longleftrightarrow> unat (cf_overlap_numerator cfg) < 2 ^ 32 \<and> unat (cf_overlap_denominator cfg) < 2 ^ 32"

text \<open>A part of the power of a trusted set that exceeds the fraction of the configuration.\<close>

definition exceeds :: "chain_config \<Rightarrow> validator_set \<Rightarrow> nat \<Rightarrow> bool" where
  "exceeds cfg vset n \<longleftrightarrow> 0 < unat (cf_overlap_numerator cfg) \<and>
     whole_power vset * unat (cf_overlap_numerator cfg) < n * unat (cf_overlap_denominator cfg)"

lemma exceeds_mono: "a \<le> b \<Longrightarrow> exceeds cfg vset a \<Longrightarrow> exceeds cfg vset b"
  unfolding exceeds_def by (meson less_le_trans mult_le_mono1)

lemma times_checked_small:
  fixes a :: u128 and b :: u64
  assumes "unat a < 2 ^ 75" and "unat b < 2 ^ 32"
  shows "\<exists>c. times_checked a (ucast b :: u128) = (Ok c :: ('e, u128) res) \<and> unat c = unat a * unat b"
proof -
  have "unat a * unat b < 2 ^ 75 * 2 ^ 32" using assms by (intro mult_strict_mono') auto
  then have "unat a * unat (ucast b :: u128) < 2 ^ 128" by (simp add: unat_ucast_u128)
  then show ?thesis by (simp add: times_checked_def unat_word_ariths unat_ucast_u128)
qed

lemma trusting_reach_eq:
  assumes "config_small cfg" and "length (vs_validators vset) \<le> MAX_VALIDATORS" and "unat t = whole_power vset" and "unat p < 2 ^ 75"
  shows "(trusting_reach cfg t p :: ('e, bool) res) = Ok (exceeds cfg vset (unat p))"
proof -
  have "unat t < 2 ^ 75" using whole_power_small [OF assms(2)] assms(3) by simp
  then obtain a b where "times_checked p (ucast (cf_overlap_denominator cfg)) = (Ok a :: ('e, u128) res)"
      "unat a = unat p * unat (cf_overlap_denominator cfg)"
      "times_checked t (ucast (cf_overlap_numerator cfg)) = (Ok b :: ('e, u128) res)" "unat b = unat t * unat (cf_overlap_numerator cfg)"
    using times_checked_small [of p "cf_overlap_denominator cfg"] times_checked_small [of t "cf_overlap_numerator cfg"] assms(1,4)
    by (auto simp: config_small_def)
  then show ?thesis
    by (auto simp: trusting_reach_def exceeds_def Let_def word_less_nat_alt unat_ucast_u128 assms(3))
qed

definition shared :: "(bytes \<Rightarrow> bytes) \<Rightarrow> validator_set \<Rightarrow> validator_set \<Rightarrow> validator_info list" where
  "shared sha old new = filter (\<lambda>v. vi_address sha v \<in> vi_address sha ` set (vs_validators new)) (vs_validators old)"

lemma overlap_loop_Ok:
  "overlap_loop sha A acc vs = Ok r \<longleftrightarrow> unat r = unat acc + vpowers (filter (\<lambda>v. vi_address sha v \<in> A) vs)"
proof (induction vs arbitrary: acc)
  case Nil
  then show ?case by (auto simp: word_unat_eq_iff)
next
  case (Cons v vs)
  have "unat r < 2 ^ 128" using unsigned_less [of r] by simp
  then show ?case
    by (auto simp: and_then_Ok_iff Cons.IH plus_checked_Ok unat_power plus_checked_def unat_plus_no_overflow)
qed

lemma overlap_meets_True:
  assumes "overlap_meets sha old new (cf_overlap_numerator cfg) (cf_overlap_denominator cfg) = Ok True"
  shows "exceeds cfg old (vpowers (shared sha old new))"
  using assms
  by (auto simp: overlap_meets_def and_then_Ok_iff times_checked_Ok overlap_power_def overlap_loop_Ok total_power_def power_loop_Ok
      shared_def exceeds_def unat_ucast_u128 word_less_nat_alt unat_gt_0 split: if_splits)

lemma overlap_meets_small:
  assumes "config_small cfg" and "length (vs_validators old) \<le> MAX_VALIDATORS"
  shows "(overlap_meets sha old new (cf_overlap_numerator cfg) (cf_overlap_denominator cfg) :: ('e, bool) res) =
    Ok (exceeds cfg old (vpowers (shared sha old new)))"
proof -
  have w: "whole_power old < 2 ^ 75" using whole_power_small [OF assms(2)] .
  have s: "vpowers (shared sha old new) \<le> whole_power old"
    unfolding shared_def by (induction "vs_validators old" arbitrary: old) (auto simp: sum_list_filter_le_nat)
  let ?o = "word_of_nat (vpowers (shared sha old new)) :: u128" and ?t = "word_of_nat (whole_power old) :: u128"
  have u: "unat ?o = vpowers (shared sha old new)" "unat ?t = whole_power old" using w s by (simp_all add: unat_of_nat)
  have "overlap_power sha old new = (Ok ?o :: ('e, u128) res)" "total_power old = (Ok ?t :: ('e, u128) res)"
    using u by (simp_all add: overlap_power_def overlap_loop_Ok total_power_def power_loop_Ok shared_def)
  moreover obtain a b where "times_checked ?o (ucast (cf_overlap_denominator cfg)) = (Ok a :: ('e, u128) res)"
      "unat a = unat ?o * unat (cf_overlap_denominator cfg)"
      "times_checked ?t (ucast (cf_overlap_numerator cfg)) = (Ok b :: ('e, u128) res)" "unat b = unat ?t * unat (cf_overlap_numerator cfg)"
    using times_checked_small [of ?o "cf_overlap_denominator cfg"] times_checked_small [of ?t "cf_overlap_numerator cfg"] assms(1) u w s
    by (auto simp: config_small_def)
  ultimately show ?thesis using u by (auto simp: overlap_meets_def exceeds_def word_less_nat_alt unat_gt_0 unat_eq_zero)
qed

lemma overlap_check_Ok:
  "overlap_check sha cfg trusted new_set = Ok () \<longleftrightarrow>
     overlap_meets sha (tr_validators trusted) new_set (cf_overlap_numerator cfg) (cf_overlap_denominator cfg) = (Ok True :: (light_error, bool) res)"
  by (auto simp: overlap_check_def and_then_Ok_iff split: if_splits)

lemma trusting_commit_Ok:
  assumes "config_small cfg" and "length (vs_validators (tr_validators trusted)) \<le> usize_max"
  shows "check_trusting_commit sha ver cfg trusted h commit = Ok () \<longleftrightarrow>
    commits_to sha h commit (tr_validators trusted) \<and>
    exceeds cfg (tr_validators trusted) (vpowers (backers sha ver (cf_chain_id cfg) commit (tr_validators trusted)))"
proof -
  let ?V = "tr_validators trusted" and ?P = "vpowers (backers sha ver (cf_chain_id cfg) commit (tr_validators trusted))"
  obtain t where t: "(total_power ?V :: (light_error, u128) res) = Ok t" "unat t = whole_power ?V"
    by (rule total_power_Ok [OF assms(2)])
  show ?thesis
  proof (cases "length (vs_validators ?V) \<le> MAX_VALIDATORS \<and> length (cc_signatures commit) \<le> MAX_VALIDATORS")
    case small: True
    let ?r = "trusting_reach cfg t" and ?R = "exceeds cfg ?V"
    note h = trusting_reach_eq [OF assms(1) conjunct1 [OF small] t(2)]
    let ?t = "tally_signed_power_until sha ver (cf_chain_id cfg) h commit ?V ?r"
    have "?t \<noteq> Panic \<and> is_ok ?t = commits_to sha h commit ?V \<and> (\<forall>s. ?t = Ok s \<longrightarrow> ?R (unat s) = ?R ?P \<and> unat s < 2 ^ 75)"
      by (intro conjI allI impI; (elim conjE)?; (rule tally_until_exact(1) [of ?r ?R] tally_until_exact(2) [of ?r ?R]
            tally_until_exact(3) [of ?r ?R, THEN conjunct1] tally_until_exact(3) [of ?r ?R, THEN conjunct2]);
          (rule h exceeds_mono | assumption); assumption?)
    then consider e where "?t = Err e" "\<not> commits_to sha h commit ?V"
      | s where "?t = Ok s" "commits_to sha h commit ?V" "?R (unat s) = ?R ?P" "unat s < 2 ^ 75"
      by (cases ?t) auto
    note tally = this
    have nd: "\<not> distinct (for_block (cc_signatures commit)) \<Longrightarrow> \<not> commits_to sha h commit ?V" by (simp add: commits_to_def)
    have "claimed_power sha commit ?V = Err DuplicateSigner \<and> \<not> commits_to sha h commit ?V \<or>
        (\<exists>c. claimed_power sha commit ?V = Ok c \<and> unat c < 2 ^ 75 \<and> ?P \<le> unat c)"
      using small nd by (elim conjE) (rule claimed_power_cases [of ?V commit sha]; blast)
    then consider "claimed_power sha commit ?V = Err DuplicateSigner" "\<not> commits_to sha h commit ?V"
      | c where "claimed_power sha commit ?V = Ok c" "unat c < 2 ^ 75" "?P \<le> unat c" by blast
    then show ?thesis
    proof cases
      case (2 c)
      show ?thesis
      proof (cases "?R (unat c)")
        case True
        from tally show ?thesis
          by cases (use 2 True in \<open>simp_all add: check_trusting_commit_def check_trusting_claim_def t h\<close>)
      next
        case False
        then have "\<not> ?R ?P" using 2(3) exceeds_mono by blast
        then show ?thesis using 2 False by (simp add: check_trusting_commit_def check_trusting_claim_def t h)
      qed
    qed (simp add: check_trusting_commit_def check_trusting_claim_def t)
  next
    case False
    then show ?thesis by (auto simp: check_trusting_commit_def check_trusting_claim_def claimed_power_def commits_to_def t)
  qed
qed

section \<open>Following the chain\<close>

lemma height_not_max:
  fixes a b :: i64
  assumes "sint a < sint b"
  shows "sint a \<noteq> 2 ^ 63 - 1"
  using assms sint_less [of b] by auto

text \<open>C14: A step of the client is exactly what it should be. \<open>verify_transition\<close> accepts a header if and only if it
  follows the trusted state (later, of the same chain, within the trusting period and the clock drift, with the set of
  validators it names), its commit is signed by more than two thirds of the power of its own set and by more than the
  configured fraction of the power of the trusted set, and the two sets overlap in more than this fraction.
  \<open>verify_adjacent\<close> accepts it if and only if it follows, is the very next height, its set is the one that the
  trusted state announced, and the commit is signed by more than two thirds of it. Both adopt exactly this header: its height,
  time, hash, set of validators and the hash of the set it announces.\<close>

theorem cosmos_step_exact:
  assumes "config_small cfg" and "length (vs_validators (tr_validators trusted)) \<le> usize_max" and "length (vs_validators vset) \<le> usize_max"
  shows "(verify_transition sha ver cfg trusted h c vset now = Ok t' \<longleftrightarrow>
      t' = \<lparr>tr_height = ch_height h, tr_time = ch_time h, tr_header_hash = cosmos_header_hash sha h, tr_validators = vset,
        tr_next_validators_hash = ch_next_validators_hash h\<rparr> \<and> header_follows sha cfg trusted h vset now \<and>
      commits_to sha h c vset \<and> 2 * whole_power vset < 3 * vpowers (backers sha ver (cf_chain_id cfg) c vset) \<and>
      commits_to sha h c (tr_validators trusted) \<and>
      exceeds cfg (tr_validators trusted) (vpowers (backers sha ver (cf_chain_id cfg) c (tr_validators trusted))) \<and>
      exceeds cfg (tr_validators trusted) (vpowers (shared sha (tr_validators trusted) vset))) \<and>
    (verify_adjacent sha ver cfg trusted h c vset now = Ok t' \<longleftrightarrow>
      t' = \<lparr>tr_height = ch_height h, tr_time = ch_time h, tr_header_hash = cosmos_header_hash sha h, tr_validators = vset,
        tr_next_validators_hash = ch_next_validators_hash h\<rparr> \<and> header_follows sha cfg trusted h vset now \<and>
      ch_height h = tr_height trusted + 1 \<and> ch_validators_hash h = tr_next_validators_hash trusted \<and>
      commits_to sha h c vset \<and> 2 * whole_power vset < 3 * vpowers (backers sha ver (cf_chain_id cfg) c vset))"
proof -
  have commit: "(\<exists>p. map_err LightCommit (verify_commit sha ver (cf_chain_id cfg) h c vset) = Ok p) \<longleftrightarrow>
      commits_to sha h c vset \<and> 2 * whole_power vset < 3 * vpowers (backers sha ver (cf_chain_id cfg) c vset)"
    using commit_verdict [OF assms(3), of sha ver "cf_chain_id cfg" h c] by (auto simp: map_err_Ok_iff is_ok_iff)
  have "overlap_check sha cfg trusted vset = Ok () \<longleftrightarrow> exceeds cfg (tr_validators trusted) (vpowers (shared sha (tr_validators trusted) vset))"
    if "commits_to sha h c (tr_validators trusted)"
    using that by (simp add: overlap_check_Ok commits_to_def overlap_meets_small [OF assms(1)])
  moreover have "verify_transition sha ver cfg trusted h c vset now = Ok t' \<longleftrightarrow>
      t' = adopt sha h vset \<and> check_header sha cfg trusted h vset now = Ok () \<and> overlap_check sha cfg trusted vset = Ok () \<and>
      (\<exists>p. map_err LightCommit (verify_commit sha ver (cf_chain_id cfg) h c vset) = Ok p) \<and>
      check_trusting_commit sha ver cfg trusted h c = Ok ()"
    by (auto simp: verify_transition_def and_then_Ok_iff)
  moreover have "verify_adjacent sha ver cfg trusted h c vset now = Ok t' \<longleftrightarrow>
      t' = adopt sha h vset \<and> check_header sha cfg trusted h vset now = Ok () \<and> sint (tr_height trusted) \<noteq> 2 ^ 63 - 1 \<and>
      ch_height h = tr_height trusted + 1 \<and> ch_validators_hash h = tr_next_validators_hash trusted \<and>
      (\<exists>p. map_err LightCommit (verify_commit sha ver (cf_chain_id cfg) h c vset) = Ok p)"
    by (auto simp: verify_adjacent_def and_then_Ok_iff)
  moreover have "header_follows sha cfg trusted h vset now \<Longrightarrow> sint (tr_height trusted) \<noteq> 2 ^ 63 - 1"
    using height_not_max by (auto simp: header_follows_def)
  ultimately show ?thesis
    unfolding commit check_header_Ok trusting_commit_Ok [OF assms(1,2)] adopt_def by blast
qed

section \<open>A step\<close>

definition plain_state :: trusted_state where
  "plain_state = \<lparr>tr_height = 4, tr_time = \<lparr>ts_seconds = 4, ts_nanos = 0\<rparr>, tr_header_hash = [], tr_validators = one_validator,
     tr_next_validators_hash = replicate 32 0\<rparr>"

lemma plain_follows:
  "header_follows zero_hash COSMOS_HUB plain_state (plain_header 5 (cf_chain_id COSMOS_HUB)) one_validator \<lparr>ts_seconds = 5, ts_nanos = 0\<rparr>"
  by (simp add: header_follows_def plain_state_def plain_header_def one_validator_def MAX_VALIDATORS_def COSMOS_HUB_def
      chain_config_new_def total_nanos_def validators_hash_def cosmos_root_string zero_hash_def DEFAULT_TRUSTING_PERIOD_SECS_def
      DEFAULT_MAX_CLOCK_DRIFT_SECS_def)

lemma hub_small: "config_small COSMOS_HUB"
  by (simp add: config_small_def COSMOS_HUB_def chain_config_new_def)

lemma plain_exceeds:
  "exceeds COSMOS_HUB one_validator (whole_power one_validator)" "shared zero_hash one_validator one_validator = vs_validators one_validator"
  by (simp_all add: exceeds_def COSMOS_HUB_def chain_config_new_def one_validator_def shared_def)

theorem cosmos_step_exact_witness:
  "verify_transition zero_hash any_sig COSMOS_HUB plain_state (plain_header 5 (cf_chain_id COSMOS_HUB)) (plain_commit 5) one_validator
     \<lparr>ts_seconds = 5, ts_nanos = 0\<rparr> = Ok (adopt zero_hash (plain_header 5 (cf_chain_id COSMOS_HUB)) one_validator)"
proof -
  have l: "length (vs_validators one_validator) \<le> usize_max" "0 < whole_power one_validator" by (simp_all add: one_validator_def)
  then have t: "length (vs_validators (tr_validators plain_state)) \<le> usize_max" "tr_validators plain_state = one_validator"
    by (simp_all add: plain_state_def)
  show ?thesis
    using l(2) cosmos_step_exact [OF hub_small t(1) l(1), of zero_hash any_sig "plain_header 5 (cf_chain_id COSMOS_HUB)" "plain_commit 5"
        "\<lparr>ts_seconds = 5, ts_nanos = 0\<rparr>" "adopt zero_hash (plain_header 5 (cf_chain_id COSMOS_HUB)) one_validator"]
    by (simp add: t(2) plain_follows plain_commits plain_backers plain_exceeds adopt_def)
qed

end
