(* ===== verification/Cosmos_Deposit.thy ===== *)
theory Cosmos_Deposit
  imports Cosmos_Light Eth_Engine
begin

text \<open>
  Deposits on a Cosmos chain: the two-layer existence proofs of \<^verbatim>\<open>crates/qlc-cosmos/src/proof.rs\<close>, the checks of
  \<^verbatim>\<open>statement.rs\<close> and the prover witness of \<^verbatim>\<open>witness.rs\<close>. The statements of the external prover crate are built by
  the arguments \<open>lib\<close> and \<open>tendermint\<close>, as in the Ethereum client.
\<close>

unbundle bit_operations_syntax

section \<open>Existence proofs\<close>

definition DEPOSIT_VALUE_LEN :: usize where "DEPOSIT_VALUE_LEN = 32 + 16 + 16"

definition length_prefixed :: "bytes \<Rightarrow> bytes" where
  "length_prefixed data = uvarint (word_of_nat (length data)) @ data"

record leaf_op =
  lo_prefix :: bytes

record inner_op =
  io_prefix :: bytes
  io_suffix :: bytes

definition leaf_apply :: "(bytes \<Rightarrow> bytes) \<Rightarrow> leaf_op \<Rightarrow> bytes \<Rightarrow> bytes \<Rightarrow> bytes" where
  "leaf_apply sha op key v = sha (lo_prefix op @ length_prefixed key @ length_prefixed (sha v))"

definition inner_apply :: "(bytes \<Rightarrow> bytes) \<Rightarrow> inner_op \<Rightarrow> bytes \<Rightarrow> bytes" where
  "inner_apply sha op child = sha (io_prefix op @ child @ io_suffix op)"

datatype existence_proof =
  ExistenceProof (ep_key: bytes) (ep_value: bytes) (ep_leaf: leaf_op) (ep_path: "inner_op list") (ep_store: "existence_proof option")

definition calculate_root :: "(bytes \<Rightarrow> bytes) \<Rightarrow> existence_proof \<Rightarrow> bytes" where
  "calculate_root sha p = foldl (\<lambda>h op. inner_apply sha op h) (leaf_apply sha (ep_leaf p) (ep_key p) (ep_value p)) (ep_path p)"

record proven_deposit =
  pd_source_ref :: bytes
  pd_asset_id :: bytes
  pd_amount :: u128
  pd_recipient :: bytes

definition LEAF_MARKER :: u8 where "LEAF_MARKER = 0x00"
definition MAX_OP_PREFIX_LEN :: usize where "MAX_OP_PREFIX_LEN = 64"
definition MAX_INNER_SUFFIX_LEN :: usize where "MAX_INNER_SUFFIX_LEN = 64"
definition MAX_PROOF_PATH_LEN :: usize where "MAX_PROOF_PATH_LEN = 128"

definition wrap_store_layer :: "(bytes \<Rightarrow> bytes) \<Rightarrow> existence_proof \<Rightarrow> bytes \<Rightarrow> bytes \<times> existence_proof" where
  "wrap_store_layer sha iavl store_name =
     (let iavl_root = calculate_root sha iavl;
          store = ExistenceProof store_name iavl_root \<lparr>lo_prefix = [LEAF_MARKER]\<rparr> [] None
      in (calculate_root sha store,
          ExistenceProof (ep_key iavl) (ep_value iavl) (ep_leaf iavl) (ep_path iavl) (Some store)))"

definition encode_deposit_value :: "bytes \<Rightarrow> bytes \<Rightarrow> u128 \<Rightarrow> bytes" where
  "encode_deposit_value recipient asset amount = recipient @ asset @ to_le_bytes amount"

datatype proof_error =
    ProofRootMismatch
  | BadValueLength
  | MalformedProofOp
  | ForeignStoreKey
  | MissingStoreProof
  | ForeignStore
  | StoreRootMismatch

text \<open>The loop over the shifts \<open>0, 7, \<dots>, 63\<close>: the value read and the position reached.\<close>

fun minimal_loop :: "bytes \<Rightarrow> usize \<Rightarrow> u64 \<Rightarrow> nat list \<Rightarrow> u64 option \<times> usize" where
  "minimal_loop bs at v [] = (None, at)"
| "minimal_loop bs at v (shift # shifts) =
     (if at \<ge> length bs then (None, at)
      else
        let byte = bs ! at; at = at + 1
        in if shift = 63 \<and> byte > 1 then (None, at)
           else
             let v = v OR push_bit shift (ucast (byte AND 0x7f))
             in if byte AND 0x80 = 0
                then (if byte = 0 \<and> shift > 0 then None else Some v, at)
                else minimal_loop bs at v shifts)"

definition minimal_varint :: "bytes \<Rightarrow> usize \<Rightarrow> u64 option \<times> usize" where
  "minimal_varint bs at = minimal_loop bs at 0 [0, 7, 14, 21, 28, 35, 42, 49, 56, 63]"

definition canonical_leaf_prefix :: "bytes \<Rightarrow> bool" where
  "canonical_leaf_prefix prefix =
     (let (height, at) = minimal_varint prefix 0;
          (sz, at) = minimal_varint prefix at;
          (version, at) = minimal_varint prefix at
      in (case version of Some v \<Rightarrow> height = Some 0 \<and> sz = Some 2 \<and> v mod 2 = 0 | None \<Rightarrow> False) \<and> at = length prefix)"

definition canonical_ops :: "existence_proof \<Rightarrow> (proof_error, unit) res" where
  "canonical_ops p =
     (let prefix = lo_prefix (ep_leaf p)
      in if length (ep_path p) > MAX_PROOF_PATH_LEN then Err MalformedProofOp
         else if prefix = [] \<or> prefix ! 0 \<noteq> LEAF_MARKER then Err MalformedProofOp
         else if length prefix > MAX_OP_PREFIX_LEN then Err MalformedProofOp
         else if \<not> canonical_leaf_prefix prefix then Err MalformedProofOp
         else if list_ex (\<lambda>op. io_prefix op = [] \<or> length (io_prefix op) > MAX_OP_PREFIX_LEN \<or>
                             io_prefix op ! 0 = LEAF_MARKER \<or> length (io_suffix op) > MAX_INNER_SUFFIX_LEN) (ep_path p)
         then Err MalformedProofOp
         else Ok ())"

definition INNER_MARKER :: u8 where "INNER_MARKER = 0x01"
definition STORE_CHILD_LEN :: usize where "STORE_CHILD_LEN = 32"
definition MAX_STORE_PATH_LEN :: usize where "MAX_STORE_PATH_LEN = 32"

definition store_op_ok :: "inner_op \<Rightarrow> bool" where
  "store_op_ok op =
     (let left_sibling = length (io_prefix op) = 1 + STORE_CHILD_LEN \<and> io_suffix op = [];
          right_sibling = length (io_prefix op) = 1 \<and> length (io_suffix op) = STORE_CHILD_LEN
      in io_prefix op \<noteq> [] \<and> io_prefix op ! 0 = INNER_MARKER \<and> (left_sibling \<or> right_sibling))"

definition canonical_store_ops :: "existence_proof \<Rightarrow> (proof_error, unit) res" where
  "canonical_store_ops p =
     (if length (ep_path p) > MAX_STORE_PATH_LEN \<or> lo_prefix (ep_leaf p) \<noteq> [LEAF_MARKER] then Err MalformedProofOp
      else if list_all store_op_ok (ep_path p) then Ok () else Err MalformedProofOp)"

definition DEPOSIT_REF_DOMAIN :: bytes where "DEPOSIT_REF_DOMAIN = ascii ''QUANTOVA/COSMOS/DEPOSIT-REF/v3''"

definition cosmos_ref_string :: "bytes \<Rightarrow> bytes \<Rightarrow> bytes \<Rightarrow> bytes" where
  "cosmos_ref_string chain_id store_name key =
     DEPOSIT_REF_DOMAIN @ to_le_bytes (word_of_nat (length chain_id) :: u64) @ chain_id @
     to_le_bytes (word_of_nat (length store_name) :: u64) @ store_name @ to_le_bytes (word_of_nat (length key) :: u64) @ key"

definition cosmos_source_ref :: "(bytes \<Rightarrow> bytes) \<Rightarrow> bytes \<Rightarrow> bytes \<Rightarrow> existence_proof \<Rightarrow> bytes" where
  "cosmos_source_ref sha chain_id store_name p = sha (cosmos_ref_string chain_id store_name (ep_key p))"

definition cosmos_extract_deposit ::
  "(bytes \<Rightarrow> bytes) \<Rightarrow> bytes \<Rightarrow> bytes \<Rightarrow> bytes \<Rightarrow> bytes \<Rightarrow> existence_proof \<Rightarrow> (proof_error, proven_deposit) res" where
  "cosmos_extract_deposit sha app_hash chain_id store_name store_prefix p =
     and_then (canonical_ops p) (\<lambda>_.
     if length (ep_value p) \<noteq> DEPOSIT_VALUE_LEN then Err BadValueLength
     else if store_prefix = [] \<or> \<not> (length store_prefix \<le> length (ep_key p) \<and> take (length store_prefix) (ep_key p) = store_prefix)
     then Err ForeignStoreKey
     else
       let iavl_root = calculate_root sha p
       in and_then (ok_or MissingStoreProof (ep_store p)) (\<lambda>store.
          and_then (canonical_store_ops store) (\<lambda>_.
          if store_name = [] \<or> ep_key store \<noteq> store_name then Err ForeignStore
          else if ep_value store \<noteq> iavl_root then Err StoreRootMismatch
          else if calculate_root sha store \<noteq> app_hash then Err ProofRootMismatch
          else
            Ok \<lparr>pd_source_ref = cosmos_source_ref sha chain_id store_name p, pd_asset_id = take 16 (drop 32 (ep_value p)),
                pd_amount = from_le_bytes (take 16 (drop 48 (ep_value p))), pd_recipient = take 32 (ep_value p)\<rparr>)))"

section \<open>Deposits\<close>

datatype corridor_error =
    CorridorChainMismatch
  | MalformedAppHash
  | Unanchored light_error
  | CorridorCommit commit_error
  | CorridorProof proof_error

record 'st corridor_output =
  out_statement :: 'st
  out_event :: verified_event
  out_signed_power :: u128

definition cosmos_event_claim :: "proven_deposit \<Rightarrow> event_claim" where
  "cosmos_event_claim d =
     \<lparr>ev_source_ref = pd_source_ref d, ev_asset_id = pd_asset_id d, ev_amount = pd_amount d, ev_recipient = pd_recipient d\<rparr>"

definition cosmos_verified_event :: "chain_config \<Rightarrow> cosmos_header \<Rightarrow> proven_deposit \<Rightarrow> verified_event" where
  "cosmos_verified_event cfg header d =
     \<lparr>ve_source_chain = cf_corridor_id cfg, ve_source_ref = pd_source_ref d, ve_asset_id = pd_asset_id d,
      ve_amount = pd_amount d, ve_recipient = pd_recipient d, ve_height = ch_height header,
      ve_confirmations = cf_confirmation_depth cfg\<rparr>"

definition cosmos_public_input_digest :: "('st, 'n) stark_lib \<Rightarrow> 'st \<Rightarrow> bytes" where
  "cosmos_public_input_digest lib statement = sl_shake lib (sl_encode lib statement)"

definition cosmos_deposit_core ::
  "(bytes \<Rightarrow> bytes) \<Rightarrow> (bytes \<Rightarrow> bytes \<Rightarrow> bytes \<Rightarrow> bool) \<Rightarrow> chain_config \<Rightarrow> trusted_state \<Rightarrow> cosmos_header \<Rightarrow> cosmos_commit \<Rightarrow>
   validator_set \<Rightarrow> existence_proof \<Rightarrow> timestamp \<Rightarrow> (corridor_error, proven_deposit \<times> u128) res" where
  "cosmos_deposit_core sha ver cfg trusted header commit vset p now =
     (if ch_chain_id header \<noteq> cf_chain_id cfg then Err CorridorChainMismatch
      else
        and_then (map_err Unanchored (check_anchor sha cfg trusted header vset now)) (\<lambda>_.
        if length (ch_app_hash header) \<noteq> 32 then Err MalformedAppHash
        else
          and_then (map_err CorridorProof (cosmos_extract_deposit sha (ch_app_hash header) (cf_chain_id cfg)
            (cf_bridge_store_name cfg) (cf_bridge_store_prefix cfg) p)) (\<lambda>deposit.
          and_then (map_err Unanchored (check_trusting_claim sha cfg trusted commit)) (\<lambda>_.
          and_then (total_power vset) (\<lambda>t.
          and_then (map_err CorridorCommit (claimed_power sha commit vset)) (\<lambda>claimed.
          and_then (has_two_thirds claimed t) (\<lambda>enough.
          if \<not> enough then Err (CorridorCommit (NotEnoughVotingPower claimed t))
          else
            and_then (map_err Unanchored (check_trusting_commit sha ver cfg trusted header commit)) (\<lambda>_.
            and_then (map_err CorridorCommit (verify_commit sha ver (cf_chain_id cfg) header commit vset)) (\<lambda>signed_power.
            Ok (deposit, signed_power))))))))))"

definition cosmos_verify_deposit ::
  "(bytes \<Rightarrow> bytes) \<Rightarrow> (bytes \<Rightarrow> bytes \<Rightarrow> bytes \<Rightarrow> bool) \<Rightarrow> ('st, 'n) stark_lib \<Rightarrow>
   (u32 \<Rightarrow> u64 \<Rightarrow> 'n \<Rightarrow> bytes \<Rightarrow> event_claim \<Rightarrow> u32 \<Rightarrow> 'st) \<Rightarrow> chain_config \<Rightarrow> trusted_state \<Rightarrow> cosmos_header \<Rightarrow> cosmos_commit \<Rightarrow>
   validator_set \<Rightarrow> existence_proof \<Rightarrow> timestamp \<Rightarrow> (corridor_error, 'st corridor_output) res" where
  "cosmos_verify_deposit sha ver lib tendermint cfg trusted header commit vset p now =
     map_ok (\<lambda>(deposit, signed_power).
       \<lparr>out_statement = tendermint (cf_corridor_id cfg) (sl_dest_chain_id lib) (sl_nonce lib (pd_source_ref deposit))
          (cosmos_header_hash sha header) (cosmos_event_claim deposit) (cf_confirmation_depth cfg),
        out_event = cosmos_verified_event cfg header deposit, out_signed_power = signed_power\<rparr>)
       (cosmos_deposit_core sha ver cfg trusted header commit vset p now)"

definition cosmos_trustless_deposit ::
  "(bytes \<Rightarrow> bytes) \<Rightarrow> (bytes \<Rightarrow> bytes \<Rightarrow> bytes \<Rightarrow> bool) \<Rightarrow> chain_config \<Rightarrow> trusted_state \<Rightarrow> cosmos_header \<Rightarrow> cosmos_commit \<Rightarrow>
   validator_set \<Rightarrow> existence_proof \<Rightarrow> timestamp \<Rightarrow> (corridor_error, cosmos_deposit) res" where
  "cosmos_trustless_deposit sha ver cfg trusted header commit vset p now =
     map_ok (\<lambda>(deposit, _).
       \<lparr>cd_source_ref = pd_source_ref deposit, cd_amount = pd_amount deposit, cd_recipient = pd_recipient deposit,
        cd_asset_id = pd_asset_id deposit, cd_height = ch_height header, cd_confs = cf_confirmation_depth cfg\<rparr>)
       (cosmos_deposit_core sha ver cfg trusted header commit vset p now)"

section \<open>The prover's witness\<close>

record cosmos_checked_facts =
  cx_header_height :: u64
  cx_signed_power :: u64

definition cosmos_facts_encode :: "cosmos_checked_facts \<Rightarrow> bytes" where
  "cosmos_facts_encode f = to_le_bytes (cx_header_height f) @ to_le_bytes (cx_signed_power f)"

record 'st cosmos_ready_witness =
  cw_statement :: 'st
  cw_public_input_digest :: bytes
  cw_facts :: cosmos_checked_facts

definition cosmos_witness_encode :: "('st, 'n) stark_lib \<Rightarrow> 'st cosmos_ready_witness \<Rightarrow> bytes" where
  "cosmos_witness_encode lib w = sl_encode lib (cw_statement w) @ cosmos_facts_encode (cw_facts w)"

definition cosmos_digest_of :: "('st, 'n) stark_lib \<Rightarrow> 'st \<Rightarrow> cosmos_checked_facts \<Rightarrow> bytes" where
  "cosmos_digest_of lib statement facts = sl_shake lib (sl_encode lib statement @ cosmos_facts_encode facts)"

definition cosmos_make_witness :: "('st, 'n) stark_lib \<Rightarrow> 'st corridor_output \<Rightarrow> 'st cosmos_ready_witness" where
  "cosmos_make_witness lib out =
     (let facts = \<lparr>cx_header_height = ve_height (out_event out), cx_signed_power = ucast (min (out_signed_power out) 0xffffffffffffffff)\<rparr>
      in \<lparr>cw_statement = out_statement out, cw_public_input_digest = cosmos_digest_of lib (out_statement out) facts, cw_facts = facts\<rparr>)"

section \<open>The store layer\<close>

text \<open>The strings that a proof hashes, from the leaf to the root.\<close>

fun top_string :: "(bytes \<Rightarrow> bytes) \<Rightarrow> bytes \<Rightarrow> inner_op list \<Rightarrow> bytes" where
  "top_string sha s [] = s"
| "top_string sha s (op # ops) = top_string sha (io_prefix op @ sha s @ io_suffix op) ops"

fun path_strings :: "(bytes \<Rightarrow> bytes) \<Rightarrow> bytes \<Rightarrow> inner_op list \<Rightarrow> bytes set" where
  "path_strings sha s [] = {s}"
| "path_strings sha s (op # ops) = insert s (path_strings sha (io_prefix op @ sha s @ io_suffix op) ops)"

definition leaf_string :: "(bytes \<Rightarrow> bytes) \<Rightarrow> existence_proof \<Rightarrow> bytes" where
  "leaf_string sha p = lo_prefix (ep_leaf p) @ length_prefixed (ep_key p) @ length_prefixed (sha (ep_value p))"

lemma calculate_root_string: "calculate_root sha p = sha (top_string sha (leaf_string sha p) (ep_path p))"
proof -
  have "foldl (\<lambda>h op. inner_apply sha op h) (sha s) ops = sha (top_string sha s ops)" for s ops
    by (induction ops arbitrary: s) (simp_all add: inner_apply_def)
  then show ?thesis by (simp add: calculate_root_def leaf_apply_def leaf_string_def)
qed

lemma top_string_snoc:
  "top_string sha s (ops @ [op]) = io_prefix op @ sha (top_string sha s ops) @ io_suffix op"
  "path_strings sha s (ops @ [op]) = insert (top_string sha s (ops @ [op])) (path_strings sha s ops)"
  by (induction ops arbitrary: s) auto

lemma top_string_in: "top_string sha s ops \<in> path_strings sha s ops"
  by (induction ops arbitrary: s) auto

lemma store_op_cases:
  assumes "store_op_ok op"
  obtains a where "io_prefix op = 0x01 # a" "length a = 32" "io_suffix op = []"
  | "io_prefix op = [0x01]" "length (io_suffix op) = 32"
proof -
  obtain x xs where p: "io_prefix op = x # xs" using assms by (auto simp: store_op_ok_def Let_def neq_Nil_conv)
  then have "x = 0x01" "length xs = 32 \<and> io_suffix op = [] \<or> xs = [] \<and> length (io_suffix op) = 32"
    using assms by (auto simp: store_op_ok_def Let_def INNER_MARKER_def STORE_CHILD_LEN_def)
  then show ?thesis using that p by auto
qed

text \<open>Under the root of a tree of stores a canonical proof shows one of the leaves of the tree.\<close>

lemma store_proof_sound:
  assumes len: "\<And>x. length (sha x) = 32"
  shows "list_all store_op_ok ops \<Longrightarrow> sha (top_string sha (0x00 # leaf) ops) = cosmos_merkle_root sha xs \<Longrightarrow>
    \<not> collides sha (path_strings sha (0x00 # leaf) ops) (tree_strings sha xs) \<Longrightarrow> leaf \<in> set xs"
proof (induction ops arbitrary: xs rule: rev_induct)
  case Nil
  have "0x00 # leaf = root_string sha xs"
    by (rule sha_no_collision [OF Nil(3) _ root_string_in]) (use Nil(2) in \<open>simp_all add: cosmos_root_string\<close>)
  then show ?case by (cases xs) (auto simp: root_string_def Let_def split: if_splits)
next
  case (snoc op ops)
  let ?k = "largest_pow2_lt (length xs)"
  have ok: "list_all store_op_ok ops" "store_op_ok op" using snoc.prems(1) by auto
  have eq: "io_prefix op @ sha (top_string sha (0x00 # leaf) ops) @ io_suffix op = root_string sha xs"
    by (rule sha_no_collision [OF snoc.prems(3) _ root_string_in])
      (use snoc.prems(2) in \<open>simp_all add: cosmos_root_string top_string_snoc\<close>)
  have hd: "\<exists>r. io_prefix op = 0x01 # r" using ok(2) by (rule store_op_cases) auto
  have two: "Suc 0 < length xs"
    using eq hd by (auto simp: root_string_def Let_def intro!: Suc_lessI split: if_splits)
  have roots: "length (cosmos_merkle_root sha zs) = 32" for zs using length_cosmos_root len by blast
  have child: "sha (top_string sha (0x00 # leaf) ops) \<in> {cosmos_merkle_root sha (take ?k xs), cosmos_merkle_root sha (drop ?k xs)}"
    using ok(2) by (rule store_op_cases) (use eq two roots len in \<open>simp_all add: root_string_two\<close>)
  have ts: "tree_strings sha (take ?k xs) \<subseteq> tree_strings sha xs" "tree_strings sha (drop ?k xs) \<subseteq> tree_strings sha xs"
    using two by (subst (2) tree_strings.simps, force simp: Let_def)+
  have ps: "path_strings sha (0x00 # leaf) ops \<subseteq> path_strings sha (0x00 # leaf) (ops @ [op])"
    by (auto simp: top_string_snoc(2))
  have nc: "\<not> collides sha (path_strings sha (0x00 # leaf) ops) (tree_strings sha zs)" if "tree_strings sha zs \<subseteq> tree_strings sha xs" for zs
    using snoc.prems(3) collides_mono [OF _ ps that] by blast
  from child show ?case
  proof
    assume "sha (top_string sha (0x00 # leaf) ops) = cosmos_merkle_root sha (take ?k xs)"
    from snoc.IH [OF ok(1) this nc [OF ts(1)]] show ?thesis by (rule in_set_takeD)
  next
    assume "sha (top_string sha (0x00 # leaf) ops) \<in> {cosmos_merkle_root sha (drop ?k xs)}"
    then have "sha (top_string sha (0x00 # leaf) ops) = cosmos_merkle_root sha (drop ?k xs)" by simp
    from snoc.IH [OF ok(1) this nc [OF ts(2)]] show ?thesis by (rule in_set_dropD)
  qed
qed

section \<open>The store's own tree\<close>

text \<open>\<open>minimal_varint\<close> reads exactly what \<open>uvarint\<close> writes.\<close>

lemma seven_bit: "bit (ucast (b AND 0x7f) :: u64) n \<longleftrightarrow> n < 7 \<and> bit b n" for b :: u8
proof -
  have "b AND 0x7f = b AND mask 7" by (simp add: mask_eq_exp_minus_1)
  then show ?thesis by (auto simp: bit_ucast_iff bit_and_iff bit_mask_iff)
qed

lemma take_bit_high: "take_bit s v = v \<Longrightarrow> bit v n \<Longrightarrow> n < s" for v :: u64
  by (metis bit_take_bit_iff)

lemma minimal_step:
  fixes v :: u64 and b :: u8
  assumes "take_bit (7 * k) v = v" "7 * k = 63 \<Longrightarrow> b \<le> 1" "k < 10"
  shows "take_bit (7 * k) (v OR push_bit (7 * k) (ucast (b AND 0x7f))) = v"
    and "drop_bit (7 * k) (v OR push_bit (7 * k) (ucast (b AND 0x7f))) = ucast (b AND 0x7f)"
proof -
  have fits: "7 * k + n < 64" if "bit b n" "n < 7" for n
  proof (cases "k = 9")
    case True
    then have "unat b \<le> 1" using assms(2) by (simp add: word_le_nat_alt)
    then have "b = 0 \<or> b = 1" by (auto simp: word_unat_eq_iff le_Suc_eq)
    then have "n = 0" using that(1) by (auto simp: bit_1_iff)
    then show ?thesis using True by simp
  qed (use that assms(3) in simp)
  show "take_bit (7 * k) (v OR push_bit (7 * k) (ucast (b AND 0x7f))) = v"
    by (rule bit_word_eqI) (use take_bit_high [OF assms(1)] in \<open>auto simp: bit_take_bit_iff bit_or_iff bit_push_bit_iff\<close>)
  show "drop_bit (7 * k) (v OR push_bit (7 * k) (ucast (b AND 0x7f))) = ucast (b AND 0x7f)"
  proof (rule bit_word_eqI)
    fix n
    show "bit (drop_bit (7 * k) (v OR push_bit (7 * k) (ucast (b AND 0x7f)))) n = bit (ucast (b AND 0x7f) :: u64) n"
      using take_bit_high [OF assms(1), of "7 * k + n"] fits [of n]
      by (auto simp: bit_drop_bit_eq bit_or_iff bit_push_bit_iff seven_bit)
  qed
qed

lemma minimal_step_low:
  fixes v :: u64 and b :: u8
  assumes "take_bit (7 * k) v = v"
  shows "take_bit (7 * Suc k) (v OR push_bit (7 * k) (ucast (b AND 0x7f))) = v OR push_bit (7 * k) (ucast (b AND 0x7f))"
proof (rule bit_word_eqI)
  fix n
  show "bit (take_bit (7 * Suc k) (v OR push_bit (7 * k) (ucast (b AND 0x7f)))) n = bit (v OR push_bit (7 * k) (ucast (b AND 0x7f))) n"
    using take_bit_high [OF assms, of n] by (auto simp: bit_take_bit_iff bit_or_iff bit_push_bit_iff seven_bit)
qed

lemma top_bit: "b AND 0x80 = 0 \<longleftrightarrow> \<not> bit b 7" for b :: u8
proof
  assume "b AND 0x80 = 0"
  then have "\<not> bit (b AND 0x80) 7" by simp
  then show "\<not> bit b 7" by (simp add: bit_and_iff bit_128)
next
  assume "\<not> bit b 7"
  then have "bit (b AND 0x80) n = bit 0 n" for n unfolding bit_and_iff bit_128 by auto
  then show "b AND 0x80 = 0" by (intro bit_word_eqI) blast
qed

lemma uvarint_byte:
  fixes b :: u8
  assumes "b AND 0x80 = 0"
  shows "uvarint (ucast (b AND 0x7f)) = [b]" "b \<noteq> 0 \<Longrightarrow> (ucast (b AND 0x7f) :: u64) \<noteq> 0"
proof -
  have b: "bit b n \<Longrightarrow> n < 7" for n
    using assms bit_imp_le_length [of b n] by (cases "n = 7") (auto simp: top_bit)
  have "drop_bit 7 (ucast (b AND 0x7f) :: u64) = 0" by (rule bit_word_eqI) (simp add: bit_drop_bit_eq seven_bit)
  moreover have low: "low_bits (ucast (b AND 0x7f)) = b" by (rule bit_word_eqI) (use b in \<open>auto simp: low_bits_bit seven_bit\<close>)
  ultimately show "uvarint (ucast (b AND 0x7f)) = [b]" by (simp add: uvarint_unfold)
  show "b \<noteq> 0 \<Longrightarrow> (ucast (b AND 0x7f) :: u64) \<noteq> 0" using low by (metis low_bits_def and_zero_eq ucast_0 zero_and_eq unsigned_0)
qed

lemma uvarint_continue:
  fixes b :: u8 and w :: u64
  assumes "b AND 0x80 \<noteq> 0" "drop_bit (7 * Suc k) w \<noteq> 0" "drop_bit (7 * k) (take_bit (7 * Suc k) w) = ucast (b AND 0x7f)"
  shows "uvarint (drop_bit (7 * k) w) = b # uvarint (drop_bit (7 * Suc k) w)"
proof -
  have "bit (drop_bit (7 * k) (take_bit (7 * Suc k) w)) n = bit (ucast (b AND 0x7f) :: u64) n" for n using assms(3) by simp
  then have "n < 7 \<and> bit w (7 * k + n) \<longleftrightarrow> n < 7 \<and> bit b n" for n
    by (simp add: bit_drop_bit_eq bit_take_bit_iff seven_bit)
  then have "n < 7 \<Longrightarrow> bit w (7 * k + n) = bit b n" for n by blast
  then have low: "n < 7 \<Longrightarrow> bit w (n + 7 * k) = bit b n" for n by (simp add: add.commute)
  have "bit (low_bits (drop_bit (7 * k) w) OR 0x80) n = bit b n" for n
  proof (cases "n < 7")
    case True
    then show ?thesis using low [OF True] unfolding bit_or_iff bit_128 low_bits_bit by (simp add: bit_drop_bit_eq add.commute)
  next
    case False
    have "bit b n \<longleftrightarrow> n = 7" using False assms(1) bit_imp_le_length [of b n] by (cases "n = 7") (auto simp: top_bit)
    then show ?thesis using False unfolding bit_or_iff bit_128 low_bits_bit by simp
  qed
  then have "low_bits (drop_bit (7 * k) w) OR 0x80 = b" by (intro bit_word_eqI) blast
  moreover have "drop_bit 7 (drop_bit (7 * k) w) = drop_bit (7 * Suc k) w" by (simp add: add.commute)
  ultimately show ?thesis using assms(2) by (simp add: uvarint_unfold [of "drop_bit (7 * k) w"])
qed

lemma minimal_loop_sound:
  assumes "minimal_loop bs at v (map ((*) 7) [k..<10]) = (Some w, at')" "k < 10" "take_bit (7 * k) v = v"
  shows "take_bit (7 * k) w = v \<and> drop at bs = uvarint (drop_bit (7 * k) w) @ drop at' bs \<and> (0 < k \<longrightarrow> drop_bit (7 * k) w \<noteq> 0)"
  using assms
proof (induction "10 - k" arbitrary: k at v)
  case (Suc n)
  let ?s = "7 * k" and ?b = "bs ! at"
  let ?v = "v OR push_bit ?s (ucast (?b AND 0x7f))"
  have list: "map ((*) 7) [k..<10] = ?s # map ((*) 7) [Suc k..<10]" using Suc.prems(2) by (simp add: upt_conv_Cons)
  have at: "at < length bs" and top: "?s = 63 \<Longrightarrow> ?b \<le> 1"
    using Suc.prems(1) unfolding list by (auto simp: Let_def not_less split: if_splits)
  have split: "drop at bs = ?b # drop (Suc at) bs" using at by (simp add: Cons_nth_drop_Suc)
  have low: "take_bit ?s ?v = v" "drop_bit ?s ?v = ucast (?b AND 0x7f)"
    using minimal_step [OF Suc.prems(3), of ?b] top Suc.prems(2) by auto
  show ?case
  proof (cases "?b AND 0x80 = 0")
    case True
    then have w: "w = ?v" "at' = Suc at" "0 < k \<longrightarrow> ?b \<noteq> 0"
      using Suc.prems(1) top at unfolding list by (auto simp: Let_def split: if_splits)
    have "uvarint (ucast (?b AND 0x7f)) = [?b]" "?b \<noteq> 0 \<Longrightarrow> (ucast (?b AND 0x7f) :: u64) \<noteq> 0"
      using uvarint_byte [OF True] by auto
    then show ?thesis using w low split by simp
  next
    case False
    then have rest: "minimal_loop bs (Suc at) ?v (map ((*) 7) [Suc k..<10]) = (Some w, at')"
      using Suc.prems(1) at unfolding list by (auto simp: Let_def split: if_splits)
    have k: "Suc k < 10"
    proof (rule ccontr)
      assume "\<not> Suc k < 10"
      then have "map ((*) 7) [Suc k..<10] = []" by simp
      with rest show False by simp
    qed
    have "take_bit (7 * Suc k) ?v = ?v" using minimal_step_low [OF Suc.prems(3)] k by simp
    from Suc.hyps(1) [OF _ rest k this] Suc.hyps(2)
    have IH: "take_bit (7 * Suc k) w = ?v" "drop (Suc at) bs = uvarint (drop_bit (7 * Suc k) w) @ drop at' bs"
      "drop_bit (7 * Suc k) w \<noteq> 0" by auto
    have "take_bit ?s w = v" using low(1) IH(1) by (metis le_add2 mult_Suc_right min.absorb1 take_bit_take_bit)
    moreover have "uvarint (drop_bit ?s w) = ?b # uvarint (drop_bit (7 * Suc k) w)"
      using uvarint_continue [OF False IH(3)] IH(1) low(2) by simp
    moreover have "drop_bit (7 * Suc k) w = drop_bit 7 (drop_bit ?s w)" by (simp add: add.commute)
    then have "drop_bit ?s w \<noteq> 0" using IH(3) by (metis drop_bit_of_0)
    ultimately show ?thesis using IH(2) split by simp
  qed
qed simp

lemma minimal_varint_sound:
  assumes "minimal_varint bs at = (Some w, at')"
  shows "drop at bs = uvarint w @ drop at' bs"
  using minimal_loop_sound [of bs at 0 0 w at'] assms by (simp add: minimal_varint_def upt_rec)

lemma canonical_leaf_prefix_form:
  assumes "canonical_leaf_prefix prefix"
  obtains w where "prefix = uvarint 0 @ uvarint 2 @ uvarint w"
proof -
  obtain h a1 z a2 v a3 where r: "minimal_varint prefix 0 = (h, a1)" "minimal_varint prefix a1 = (z, a2)" "minimal_varint prefix a2 = (v, a3)"
    by (metis surj_pair)
  with assms obtain w where "h = Some 0" "z = Some 2" "v = Some w" "a3 = length prefix"
    by (auto simp: canonical_leaf_prefix_def split: option.splits)
  with r minimal_varint_sound [of prefix 0 0 a1] minimal_varint_sound [of prefix a1 2 a2] minimal_varint_sound [of prefix a2 w a3]
  show ?thesis using that by simp
qed

text \<open>The documented hash tree of an IAVL store, as a specification: a leaf hashes its height 0, its size 1 and its
  version as signed varints, its key, and the hash of its value; a node its height, size and version and the hashes of its
  two children.\<close>

datatype iavl = Iavl_Leaf nat bytes bytes | Iavl_Node nat nat nat iavl iavl

definition signed_varint :: "nat \<Rightarrow> bytes" where
  "signed_varint n = uvarint (word_of_nat (2 * n))"

fun iavl_string :: "(bytes \<Rightarrow> bytes) \<Rightarrow> iavl \<Rightarrow> bytes" where
  "iavl_string sha (Iavl_Leaf version key v) =
     signed_varint 0 @ signed_varint 1 @ signed_varint version @ length_prefixed key @ length_prefixed (sha v)"
| "iavl_string sha (Iavl_Node height sz version l r) =
     signed_varint height @ signed_varint sz @ signed_varint version @
     length_prefixed (sha (iavl_string sha l)) @ length_prefixed (sha (iavl_string sha r))"

definition iavl_root :: "(bytes \<Rightarrow> bytes) \<Rightarrow> iavl \<Rightarrow> bytes" where
  "iavl_root sha t = sha (iavl_string sha t)"

fun iavl_wf :: "iavl \<Rightarrow> bool" where
  "iavl_wf (Iavl_Leaf version key v) = (length key \<le> usize_max)"
| "iavl_wf (Iavl_Node height sz version l r) = (0 < height \<and> height < 128 \<and> iavl_wf l \<and> iavl_wf r)"

fun iavl_entries :: "iavl \<Rightarrow> (bytes \<times> bytes) set" where
  "iavl_entries (Iavl_Leaf version key v) = {(key, v)}"
| "iavl_entries (Iavl_Node height sz version l r) = iavl_entries l \<union> iavl_entries r"

text \<open>The strings hashed in the tree, and the exception beside a collision: the hash of one of the given strings stands
  somewhere inside a node without being the hash of one of its children.\<close>

fun iavl_strings :: "(bytes \<Rightarrow> bytes) \<Rightarrow> iavl \<Rightarrow> bytes set" where
  "iavl_strings sha (Iavl_Leaf version key v) = {iavl_string sha (Iavl_Leaf version key v), v}"
| "iavl_strings sha (Iavl_Node height sz version l r) =
     insert (iavl_string sha (Iavl_Node height sz version l r)) (iavl_strings sha l \<union> iavl_strings sha r)"

fun iavl_stray :: "(bytes \<Rightarrow> bytes) \<Rightarrow> bytes set \<Rightarrow> iavl \<Rightarrow> bool" where
  "iavl_stray sha A (Iavl_Leaf version key v) = False"
| "iavl_stray sha A (Iavl_Node height sz version l r) =
     ((\<exists>s\<in>A. sha s \<noteq> iavl_root sha l \<and> sha s \<noteq> iavl_root sha r \<and>
         (\<exists>a b. iavl_string sha (Iavl_Node height sz version l r) = a @ sha s @ b)) \<or>
      iavl_stray sha A l \<or> iavl_stray sha A r)"

lemma iavl_string_in: "iavl_string sha t \<in> iavl_strings sha t"
  by (cases t) simp_all

lemma iavl_stray_mono: "iavl_stray sha A t \<Longrightarrow> A \<subseteq> B \<Longrightarrow> iavl_stray sha B t"
  by (induction t) auto

lemma uvarint_zero: "uvarint 0 = [0]"
  by (simp add: uvarint_unfold low_bits_def)

lemma signed_varint_first:
  assumes "0 < n" "n < 128"
  shows "\<exists>b xs. signed_varint n = b # xs \<and> b \<noteq> 0"
proof -
  obtain b xs where s: "signed_varint n = b # xs" by (cases "signed_varint n") (auto simp: signed_varint_def)
  have "unat (word_of_nat (2 * n) :: u64) = 2 * n" using assms(2) by (subst unat_of_nat) simp
  then have "(word_of_nat (2 * n) :: u64) \<noteq> 0" using assms(1) by (metis unsigned_0 mult_is_0 not_gr_zero zero_neq_numeral)
  moreover have "(word_of_nat (2 * n) :: u64) = 0" if "b = 0"
  proof -
    have "uvarint (word_of_nat (2 * n)) = uvarint 0 @ xs" using s that by (simp add: signed_varint_def uvarint_zero)
    then show ?thesis by simp
  qed
  ultimately show ?thesis using s by blast
qed

lemma length_prefixed_eq:
  assumes "length a \<le> usize_max" "length b \<le> usize_max"
  shows "length_prefixed a @ x = length_prefixed b @ y \<longleftrightarrow> a = b \<and> x = y"
proof -
  have "length a = length b" if "(word_of_nat (length a) :: u64) = word_of_nat (length b)"
  proof -
    have "unat (word_of_nat (length a) :: u64) = unat (word_of_nat (length b) :: u64)" using that by simp
    then show ?thesis using assms by (simp add: unat_of_nat)
  qed
  then show ?thesis by (auto simp: length_prefixed_def)
qed

definition iavl_op_ok :: "inner_op \<Rightarrow> bool" where
  "iavl_op_ok op \<longleftrightarrow> (\<exists>b xs. io_prefix op = b # xs \<and> b \<noteq> 0)"

text \<open>A canonical proof under the root of the tree shows one of its entries.\<close>

lemma iavl_proof_sound:
  fixes sha :: "bytes \<Rightarrow> bytes" and key v :: bytes and w :: u64
  assumes len: "\<And>x. length (sha x) = 32" and key: "length key \<le> usize_max"
  defines "leaf \<equiv> uvarint 0 @ uvarint 2 @ uvarint w @ length_prefixed key @ length_prefixed (sha v)"
  shows "iavl_wf t \<Longrightarrow> list_all iavl_op_ok ops \<Longrightarrow> sha (top_string sha leaf ops) = iavl_root sha t \<Longrightarrow>
    \<not> collides sha (insert v (path_strings sha leaf ops)) (iavl_strings sha t) \<Longrightarrow>
    \<not> iavl_stray sha (path_strings sha leaf ops) t \<Longrightarrow> (key, v) \<in> iavl_entries t"
proof (induction ops arbitrary: t rule: rev_induct)
  case Nil
  have eq: "leaf = iavl_string sha t"
    by (rule sha_no_collision [OF Nil(4) _ iavl_string_in]) (use Nil(3) in \<open>simp_all add: iavl_root_def\<close>)
  show ?case
  proof (cases t)
    case (Iavl_Leaf version key' v')
    have h32: "length (sha x) \<le> usize_max" for x by (simp add: len)
    have "length_prefixed key @ length_prefixed (sha v) = length_prefixed key' @ length_prefixed (sha v')"
      using eq by (simp add: leaf_def Iavl_Leaf signed_varint_def)
    then have "key = key'" "length_prefixed (sha v) @ [] = length_prefixed (sha v') @ []"
      using length_prefixed_eq key Nil(1) Iavl_Leaf by auto
    then have "key = key'" "sha v = sha v'" using length_prefixed_eq [OF h32 h32] by blast+
    moreover have "v = v'" by (rule sha_no_collision [OF Nil(4)]) (use \<open>sha v = sha v'\<close> Iavl_Leaf in auto)
    ultimately show ?thesis by (simp add: Iavl_Leaf)
  next
    case (Iavl_Node height sz version l r)
    then have "\<exists>b xs. signed_varint height = b # xs \<and> b \<noteq> 0" using Nil(1) signed_varint_first by simp
    with eq show ?thesis by (auto simp: leaf_def Iavl_Node uvarint_zero)
  qed
next
  case (snoc op ops)
  have eq: "io_prefix op @ sha (top_string sha leaf ops) @ io_suffix op = iavl_string sha t"
    by (rule sha_no_collision [OF snoc.prems(4) _ iavl_string_in])
      (use snoc.prems(3) in \<open>simp_all add: iavl_root_def top_string_snoc\<close>)
  obtain b xs where op: "io_prefix op = b # xs" "b \<noteq> 0" using snoc.prems(2) by (auto simp: iavl_op_ok_def)
  show ?case
  proof (cases t)
    case (Iavl_Leaf version key' v')
    with eq op show ?thesis by (simp add: signed_varint_def uvarint_zero)
  next
    case (Iavl_Node height sz version l r)
    have ps: "path_strings sha leaf ops \<subseteq> path_strings sha leaf (ops @ [op])" by (auto simp: top_string_snoc(2))
    have "top_string sha leaf ops \<in> path_strings sha leaf (ops @ [op])" using ps top_string_in by blast
    with snoc.prems(5) eq have child: "sha (top_string sha leaf ops) = iavl_root sha l \<or> sha (top_string sha leaf ops) = iavl_root sha r"
      unfolding Iavl_Node iavl_stray.simps by metis
    have step: "(key, v) \<in> iavl_entries u" if u: "iavl_wf u" "sha (top_string sha leaf ops) = iavl_root sha u"
        "iavl_strings sha u \<subseteq> iavl_strings sha t" "iavl_stray sha (path_strings sha leaf ops) u \<Longrightarrow> iavl_stray sha (path_strings sha leaf ops) t" for u
    proof (rule snoc.IH [OF u(1) _ u(2)])
      show "list_all iavl_op_ok ops" using snoc.prems(2) by simp
      show "\<not> collides sha (insert v (path_strings sha leaf ops)) (iavl_strings sha u)"
        using snoc.prems(4) collides_mono [OF _ insert_mono [OF ps] u(3)] by blast
      show "\<not> iavl_stray sha (path_strings sha leaf ops) u"
        using snoc.prems(5) u(4) iavl_stray_mono [OF _ ps] by blast
    qed
    from child show ?thesis
    proof
      assume "sha (top_string sha leaf ops) = iavl_root sha l"
      from step [OF _ this] snoc.prems(1) show ?thesis by (auto simp: Iavl_Node)
    next
      assume "sha (top_string sha leaf ops) = iavl_root sha r"
      from step [OF _ this] snoc.prems(1) show ?thesis by (auto simp: Iavl_Node)
    qed
  qed
qed

lemma canonical_ops_form:
  assumes "canonical_ops p = Ok ()"
  obtains w where "lo_prefix (ep_leaf p) = uvarint 0 @ uvarint 2 @ uvarint w" "list_all iavl_op_ok (ep_path p)"
proof -
  have "canonical_leaf_prefix (lo_prefix (ep_leaf p))" "\<not> list_ex (\<lambda>op. io_prefix op = [] \<or> length (io_prefix op) > MAX_OP_PREFIX_LEN \<or>
      io_prefix op ! 0 = LEAF_MARKER \<or> length (io_suffix op) > MAX_INNER_SUFFIX_LEN) (ep_path p)"
    using assms by (auto simp: canonical_ops_def Let_def split: if_splits)
  moreover have "iavl_op_ok op" if "io_prefix op \<noteq> []" "io_prefix op ! 0 \<noteq> LEAF_MARKER" for op
    using that by (cases "io_prefix op") (auto simp: iavl_op_ok_def LEAF_MARKER_def)
  ultimately show ?thesis
    using that by (elim canonical_leaf_prefix_form) (auto simp: list_ex_iff list_all_iff)
qed

text \<open>The state of a chain: its stores by name, each with its tree, under the tree of stores that the header commits to.\<close>

definition store_leaves :: "(bytes \<Rightarrow> bytes) \<Rightarrow> (bytes \<times> iavl) list \<Rightarrow> bytes list" where
  "store_leaves sha stores = map (\<lambda>(name, t). length_prefixed name @ length_prefixed (sha (iavl_root sha t))) stores"

definition state_strings :: "(bytes \<Rightarrow> bytes) \<Rightarrow> (bytes \<times> iavl) list \<Rightarrow> bytes set" where
  "state_strings sha stores = tree_strings sha (store_leaves sha stores) \<union>
     (\<Union>(name, t)\<in>set stores. insert (iavl_root sha t) (iavl_strings sha t))"

definition existence_strings :: "(bytes \<Rightarrow> bytes) \<Rightarrow> existence_proof \<Rightarrow> existence_proof \<Rightarrow> bytes set" where
  "existence_strings sha p store = path_strings sha (leaf_string sha store) (ep_path store) \<union>
     insert (calculate_root sha p) (insert (ep_value p) (path_strings sha (leaf_string sha p) (ep_path p)))"

definition entry_of_state :: "(bytes \<Rightarrow> bytes) \<Rightarrow> bytes \<Rightarrow> bytes \<Rightarrow> existence_proof \<Rightarrow> existence_proof \<Rightarrow> bool" where
  "entry_of_state sha app_hash name p store \<longleftrightarrow>
     (\<forall>stores. app_hash = cosmos_merkle_root sha (store_leaves sha stores) \<and> (\<forall>(n, t)\<in>set stores. length n \<le> usize_max \<and> iavl_wf t) \<longrightarrow>
        (\<exists>t. (name, t) \<in> set stores \<and> (ep_key p, ep_value p) \<in> iavl_entries t) \<or>
        collides sha (existence_strings sha p store) (state_strings sha stores) \<or>
        (\<exists>(n, t)\<in>set stores. iavl_stray sha (path_strings sha (leaf_string sha p) (ep_path p)) t))"

lemma entry_of_stateI:
  assumes len: "\<And>x. length (sha x) = 32" and sizes: "length name \<le> usize_max" "length (ep_key p) \<le> usize_max"
    and ops: "canonical_ops p = Ok ()"
    and st: "list_all store_op_ok (ep_path store)" "leaf_string sha store = 0x00 # length_prefixed name @ length_prefixed (sha (calculate_root sha p))"
      "calculate_root sha store = app_hash"
  shows "entry_of_state sha app_hash name p store"
  unfolding entry_of_state_def
proof (intro allI impI, elim conjE)
  fix stores
  let ?leaf = "length_prefixed name @ length_prefixed (sha (calculate_root sha p))"
  let ?E = "existence_strings sha p store" and ?S = "state_strings sha stores"
  assume root: "app_hash = cosmos_merkle_root sha (store_leaves sha stores)"
    and wf: "\<forall>(n, t)\<in>set stores. length n \<le> usize_max \<and> iavl_wf t"
  obtain w where w: "lo_prefix (ep_leaf p) = uvarint 0 @ uvarint 2 @ uvarint w" "list_all iavl_op_ok (ep_path p)"
    by (rule canonical_ops_form [OF ops])
  have h32: "length (sha x) \<le> usize_max" for x by (simp add: len)
  have "\<exists>t. (name, t) \<in> set stores \<and> (ep_key p, ep_value p) \<in> iavl_entries t"
    if nc: "\<not> collides sha ?E ?S" and ns: "\<not> (\<exists>(n, t)\<in>set stores. iavl_stray sha (path_strings sha (leaf_string sha p) (ep_path p)) t)"
  proof -
    have "\<not> collides sha (path_strings sha (0x00 # ?leaf) (ep_path store)) (tree_strings sha (store_leaves sha stores))"
      using nc collides_mono [of sha _ _ ?E ?S] by (auto simp: existence_strings_def state_strings_def st(2))
    then have "?leaf \<in> set (store_leaves sha stores)"
      using store_proof_sound [where sha = sha and leaf = ?leaf, OF len st(1)] root st(2,3) by (auto simp: calculate_root_string [of sha store])
    then obtain n t where nt: "(n, t) \<in> set stores" "?leaf = length_prefixed n @ length_prefixed (sha (iavl_root sha t))"
      by (auto simp: store_leaves_def)
    then have t: "length n \<le> usize_max" "iavl_wf t" using wf by auto
    from nt(2) have "name = n" "length_prefixed (sha (calculate_root sha p)) @ [] = length_prefixed (sha (iavl_root sha t)) @ []"
      using length_prefixed_eq [OF sizes(1) t(1)] by auto
    then have "name = n" "sha (calculate_root sha p) = sha (iavl_root sha t)" using length_prefixed_eq [OF h32 h32] by blast+
    moreover have "calculate_root sha p = iavl_root sha t"
      by (rule sha_no_collision [OF nc]) (use nt(1) calculation in \<open>auto simp: existence_strings_def state_strings_def\<close>)
    moreover have "(ep_key p, ep_value p) \<in> iavl_entries t"
    proof (rule iavl_proof_sound [where sha = sha and w = w, OF len sizes(2) t(2) w(2)])
      have leaf: "uvarint 0 @ uvarint 2 @ uvarint w @ length_prefixed (ep_key p) @ length_prefixed (sha (ep_value p)) = leaf_string sha p"
        by (simp add: leaf_string_def w(1))
      show "sha (top_string sha (uvarint 0 @ uvarint 2 @ uvarint w @ length_prefixed (ep_key p) @ length_prefixed (sha (ep_value p))) (ep_path p)) =
          iavl_root sha t"
        unfolding leaf using calculation by (simp add: calculate_root_string)
      have sub: "insert (ep_value p) (path_strings sha (leaf_string sha p) (ep_path p)) \<subseteq> ?E" "iavl_strings sha t \<subseteq> ?S"
        using nt(1) by (auto simp: existence_strings_def state_strings_def)
      show "\<not> collides sha (insert (ep_value p) (path_strings sha (uvarint 0 @ uvarint 2 @ uvarint w @ length_prefixed (ep_key p) @
          length_prefixed (sha (ep_value p))) (ep_path p))) (iavl_strings sha t)"
        unfolding leaf using nc collides_mono [OF _ sub] by blast
      show "\<not> iavl_stray sha (path_strings sha (uvarint 0 @ uvarint 2 @ uvarint w @ length_prefixed (ep_key p) @
          length_prefixed (sha (ep_value p))) (ep_path p)) t"
        unfolding leaf using ns nt(1) by blast
    qed
    ultimately show ?thesis using nt(1) by blast
  qed
  then show "(\<exists>t. (name, t) \<in> set stores \<and> (ep_key p, ep_value p) \<in> iavl_entries t) \<or> collides sha ?E ?S \<or>
      (\<exists>(n, t)\<in>set stores. iavl_stray sha (path_strings sha (leaf_string sha p) (ep_path p)) t)" by blast
qed

section \<open>Accepted deposits\<close>

lemma extract_Ok:
  assumes "cosmos_extract_deposit sha app_hash chain_id name prefix p = Ok d"
  obtains store where "ep_store p = Some store" and "list_all store_op_ok (ep_path store)" and "lo_prefix (ep_leaf store) = [LEAF_MARKER]"
    and "ep_key store = name" and "ep_value store = calculate_root sha p" and "calculate_root sha store = app_hash"
    and "canonical_ops p = Ok ()" and "take (length prefix) (ep_key p) = prefix"
    and "ep_value p = encode_deposit_value (pd_recipient d) (pd_asset_id d) (pd_amount d)"
    and "pd_source_ref d = cosmos_source_ref sha chain_id name p"
proof -
  have v: "length (ep_value p) = 64" using assms
    by (auto simp: cosmos_extract_deposit_def and_then_Ok_iff DEPOSIT_VALUE_LEN_def split: if_splits)
  have d: "d = \<lparr>pd_source_ref = cosmos_source_ref sha chain_id name p, pd_asset_id = take 16 (drop 32 (ep_value p)),
      pd_amount = from_le_bytes (take 16 (drop 48 (ep_value p))), pd_recipient = take 32 (ep_value p)\<rparr>"
    using assms by (auto simp: cosmos_extract_deposit_def and_then_Ok_iff Let_def split: if_splits)
  have "take 32 (ep_value p) @ take 16 (drop 32 (ep_value p)) @ take 16 (drop 48 (ep_value p)) = ep_value p"
    using v take_add [of 32 16 "ep_value p"] append_take_drop_id [of 48 "ep_value p"] by simp
  then have "ep_value p = encode_deposit_value (pd_recipient d) (pd_asset_id d) (pd_amount d)"
    using v by (simp add: d encode_deposit_value_def to_from_le_bytes)
  then show ?thesis using assms that d
    by (auto simp: cosmos_extract_deposit_def canonical_store_ops_def and_then_Ok_iff ok_or_Ok_iff Let_def split: if_splits)
qed

lemma core_parts:
  assumes "cosmos_deposit_core sha ver cfg trusted h c vset p now = Ok (d, sp)"
    and "config_small cfg" and "length (vs_validators (tr_validators trusted)) \<le> usize_max" and "length (vs_validators vset) \<le> usize_max"
  shows "header_follows sha cfg trusted h vset now"
    and "commits_to sha h c vset" and "2 * whole_power vset < 3 * vpowers (backers sha ver (cf_chain_id cfg) c vset)"
    and "commits_to sha h c (tr_validators trusted)"
    and "exceeds cfg (tr_validators trusted) (vpowers (backers sha ver (cf_chain_id cfg) c (tr_validators trusted)))"
    and "exceeds cfg (tr_validators trusted) (vpowers (shared sha (tr_validators trusted) vset))"
    and "cosmos_extract_deposit sha (ch_app_hash h) (cf_chain_id cfg) (cf_bridge_store_name cfg) (cf_bridge_store_prefix cfg) p = Ok d"
proof -
  have parts: "check_header sha cfg trusted h vset now = Ok ()" "overlap_check sha cfg trusted vset = Ok ()"
    "check_trusting_commit sha ver cfg trusted h c = Ok ()" "verify_commit sha ver (cf_chain_id cfg) h c vset = Ok sp"
    "cosmos_extract_deposit sha (ch_app_hash h) (cf_chain_id cfg) (cf_bridge_store_name cfg) (cf_bridge_store_prefix cfg) p = Ok d"
    using assms(1) by (auto simp: cosmos_deposit_core_def check_anchor_def and_then_Ok_iff map_err_Ok_iff split: if_splits)
  show "header_follows sha cfg trusted h vset now" using parts(1) by (simp add: check_header_Ok)
  show "commits_to sha h c vset" "2 * whole_power vset < 3 * vpowers (backers sha ver (cf_chain_id cfg) c vset)"
    using commit_verdict [OF assms(4), of sha ver "cf_chain_id cfg" h c] parts(4) by auto
  show "commits_to sha h c (tr_validators trusted)"
    "exceeds cfg (tr_validators trusted) (vpowers (backers sha ver (cf_chain_id cfg) c (tr_validators trusted)))"
    using parts(3) trusting_commit_Ok [OF assms(2,3)] by auto
  show "exceeds cfg (tr_validators trusted) (vpowers (shared sha (tr_validators trusted) vset))"
    using parts(2) overlap_meets_True by (simp add: overlap_check_Ok)
  show "cosmos_extract_deposit sha (ch_app_hash h) (cf_chain_id cfg) (cf_bridge_store_name cfg) (cf_bridge_store_prefix cfg) p = Ok d"
    by (fact parts(5))
qed

text \<open>C7: A Cosmos mint is backed by an entry of the bridge's store. When the client accepts a deposit and the gateway
  admits it for a fact, the header follows the trusted state, its commit is signed by more than two thirds of the power
  of its own validators and by more than the configured fraction of the trusted ones, and the two sets overlap in this
  fraction. The proof's key lies under the bridge's prefix, its value is exactly the minted recipient, asset and amount,
  and for every state of the chain, as stores with their IAVL trees under the header's root, this key and this value are
  an entry of the tree of the bridge's store, unless the hash collides on a string of the proof and one of the state, or
  the hash of a string of the proof stands inside a node of a tree without being the hash of one of its children. The
  supply of the asset grows by the amount, no other supply moves, the gateway keeps its invariant, and
  the reference, which is the hash of chain, store and key, is refused from then on.\<close>

theorem cosmos_mint_backed:
  assumes "gw_inv g" and "cosmos_trustless_deposit sha ver cfg trusted h c vset p now = Ok r"
    and "admit_cosmos_trustless cor r f g = (g', Ok mint)" and "config_small cfg"
    and "length (vs_validators (tr_validators trusted)) \<le> usize_max" and "length (vs_validators vset) \<le> usize_max"
    and len: "\<And>x. length (sha x) = 32" and sizes: "length (cf_bridge_store_name cfg) \<le> usize_max" "length (ep_key p) \<le> usize_max"
  shows "header_follows sha cfg trusted h vset now \<and>
    commits_to sha h c vset \<and> 2 * whole_power vset < 3 * vpowers (backers sha ver (cf_chain_id cfg) c vset) \<and>
    commits_to sha h c (tr_validators trusted) \<and>
    exceeds cfg (tr_validators trusted) (vpowers (backers sha ver (cf_chain_id cfg) c (tr_validators trusted))) \<and>
    exceeds cfg (tr_validators trusted) (vpowers (shared sha (tr_validators trusted) vset)) \<and>
    (\<exists>store. ep_store p = Some store \<and> entry_of_state sha (ch_app_hash h) (cf_bridge_store_name cfg) p store) \<and>
    take (length (cf_bridge_store_prefix cfg)) (ep_key p) = cf_bridge_store_prefix cfg \<and>
    ep_value p = encode_deposit_value (tm_recipient mint) (tm_asset_id mint) (tm_amount mint) \<and>
    tm_source_ref mint = sha (cosmos_ref_string (cf_chain_id cfg) (cf_bridge_store_name cfg) (ep_key p)) \<and>
    supply_of g' (tm_asset_id mint) = supply_of g (tm_asset_id mint) + unat (tm_amount mint) \<and>
    (\<forall>b. b \<noteq> tm_asset_id mint \<longrightarrow> supply_of g' b = supply_of g b) \<and> gw_inv g' \<and>
    (\<forall>r' f'. cd_source_ref r' = cd_source_ref r \<longrightarrow> \<not> is_ok (snd (admit_cosmos_trustless cor r' f' g')))"
proof -
  obtain d sp where d: "cosmos_deposit_core sha ver cfg trusted h c vset p now = Ok (d, sp)"
    and r: "cd_source_ref r = pd_source_ref d" "cd_amount r = pd_amount d" "cd_recipient r = pd_recipient d" "cd_asset_id r = pd_asset_id d"
    using assms(2) by (auto simp: cosmos_trustless_deposit_def map_ok_Ok_iff)
  note parts = core_parts [OF d assms(4-6)]
  have mint: "mint = cosmos_reported cor r" using cosmos_mint.admit_Ok [OF assms(1)] assms(3) by auto
  note g = cosmos_mint.admit_inv [OF assms(1,3)]
  have replay: "\<not> is_ok (snd (admit_cosmos_trustless cor r' f' g'))" if "cd_source_ref r' = cd_source_ref r" for r' f'
    by (rule cosmos_mint.admit_replay) (use g that in \<open>simp_all add: mint cosmos_reported_def\<close>)
  obtain store where st: "ep_store p = Some store" "list_all store_op_ok (ep_path store)" "lo_prefix (ep_leaf store) = [LEAF_MARKER]"
      "ep_key store = cf_bridge_store_name cfg" "ep_value store = calculate_root sha p" "calculate_root sha store = ch_app_hash h"
    and ex: "take (length (cf_bridge_store_prefix cfg)) (ep_key p) = cf_bridge_store_prefix cfg"
      "ep_value p = encode_deposit_value (pd_recipient d) (pd_asset_id d) (pd_amount d)"
      "pd_source_ref d = cosmos_source_ref sha (cf_chain_id cfg) (cf_bridge_store_name cfg) p" "canonical_ops p = Ok ()"
    by (rule extract_Ok [OF parts(7)]) blast
  have "entry_of_state sha (ch_app_hash h) (cf_bridge_store_name cfg) p store"
    using st by (intro entry_of_stateI [where sha = sha, OF len sizes ex(4) st(2)]) (simp_all add: leaf_string_def LEAF_MARKER_def)
  moreover have "tm_recipient mint = pd_recipient d" "tm_asset_id mint = pd_asset_id d" "tm_amount mint = pd_amount d"
    "tm_source_ref mint = pd_source_ref d" using r by (simp_all add: mint cosmos_reported_def)
  ultimately show ?thesis using parts(1-6) st(1) ex g replay by (simp add: cosmos_source_ref_def)
qed

section \<open>A proven deposit\<close>

definition plain_proof :: existence_proof where
  "plain_proof = ExistenceProof (BRIDGE_STORE_PREFIX @ [1]) (encode_deposit_value (replicate 32 7) (replicate 16 3) 250000)
     \<lparr>lo_prefix = [0, 2, 0]\<rparr> [] (Some (ExistenceProof BRIDGE_STORE_NAME (replicate 32 0) \<lparr>lo_prefix = [0]\<rparr> [] None))"

definition plain_deposit :: cosmos_deposit where
  "plain_deposit = \<lparr>cd_source_ref = replicate 32 0, cd_amount = 250000, cd_recipient = replicate 32 7, cd_asset_id = replicate 16 3,
     cd_height = 5, cd_confs = 2\<rparr>"

lemma zero_root: "calculate_root zero_hash p = replicate 32 0"
  by (simp add: calculate_root_string zero_hash_def)

lemma plain_extract:
  "cosmos_extract_deposit zero_hash (replicate 32 0) chain_id BRIDGE_STORE_NAME BRIDGE_STORE_PREFIX plain_proof =
     Ok \<lparr>pd_source_ref = replicate 32 0, pd_asset_id = replicate 16 3, pd_amount = 250000, pd_recipient = replicate 32 7\<rparr>"
proof -
  have "canonical_leaf_prefix [0, 2, 0]" by (simp add: canonical_leaf_prefix_def minimal_varint_def)
  then have "canonical_ops plain_proof = Ok ()"
    by (simp add: canonical_ops_def plain_proof_def MAX_PROOF_PATH_LEN_def MAX_OP_PREFIX_LEN_def LEAF_MARKER_def)
  moreover have "ep_value plain_proof = replicate 32 7 @ replicate 16 3 @ to_le_bytes (250000 :: u128)"
    "ep_key plain_proof = BRIDGE_STORE_PREFIX @ [1]"
    "ep_store plain_proof = Some (ExistenceProof BRIDGE_STORE_NAME (replicate 32 0) \<lparr>lo_prefix = [0]\<rparr> [] None)"
    by (simp_all add: plain_proof_def encode_deposit_value_def)
  moreover have "BRIDGE_STORE_PREFIX \<noteq> []" "BRIDGE_STORE_NAME \<noteq> []" by (simp_all add: BRIDGE_STORE_PREFIX_def BRIDGE_STORE_NAME_def ascii_def)
  ultimately show ?thesis
    by (simp add: cosmos_extract_deposit_def DEPOSIT_VALUE_LEN_def zero_root canonical_store_ops_def MAX_STORE_PATH_LEN_def
        LEAF_MARKER_def from_to_le_bytes cosmos_source_ref_def) (simp add: zero_hash_def)
qed

lemma plain_core:
  "cosmos_trustless_deposit zero_hash any_sig COSMOS_HUB plain_state (plain_header 5 (cf_chain_id COSMOS_HUB)) (plain_commit 5) one_validator
     plain_proof \<lparr>ts_seconds = 5, ts_nanos = 0\<rparr> = Ok plain_deposit"
proof -
  have l: "length (vs_validators one_validator) \<le> usize_max" "tr_validators plain_state = one_validator"
    by (simp_all add: one_validator_def plain_state_def)
  have small: "length (vs_validators one_validator) \<le> MAX_VALIDATORS" by (simp add: one_validator_def MAX_VALIDATORS_def)
  have ch: "check_header zero_hash COSMOS_HUB plain_state (plain_header 5 (cf_chain_id COSMOS_HUB)) one_validator \<lparr>ts_seconds = 5, ts_nanos = 0\<rparr> = Ok ()"
    using plain_follows check_header_Ok by blast
  have ov: "overlap_check zero_hash COSMOS_HUB plain_state one_validator = Ok ()"
    using plain_exceeds by (simp only: overlap_check_Ok l overlap_meets_small [OF hub_small small])
  have anchor: "check_anchor zero_hash COSMOS_HUB plain_state (plain_header 5 (cf_chain_id COSMOS_HUB)) one_validator \<lparr>ts_seconds = 5, ts_nanos = 0\<rparr> = Ok ()"
    by (simp add: check_anchor_def ch ov)
  have trusting: "check_trusting_commit zero_hash any_sig COSMOS_HUB plain_state (plain_header 5 (cf_chain_id COSMOS_HUB)) (plain_commit 5) = Ok ()"
    using trusting_commit_Ok [OF hub_small, of plain_state zero_hash any_sig "plain_header 5 (cf_chain_id COSMOS_HUB)" "plain_commit 5"]
      plain_commits plain_exceeds l by (simp add: plain_backers)
  then have claim: "check_trusting_claim zero_hash COSMOS_HUB plain_state (plain_commit 5) = Ok ()"
    by (auto simp: check_trusting_commit_def and_then_Ok_iff)
  have tp: "total_power one_validator = Ok 10" by (simp add: total_power_def one_validator_def plus_checked_def)
  have cp: "claimed_power zero_hash (plain_commit 5) one_validator = Ok 10"
    by (simp add: claimed_power_def plain_commit_def one_validator_def MAX_VALIDATORS_def by_address_def vi_address_def zero_hash_def plus_checked_def)
  have tt: "has_two_thirds 10 10 = Ok True" by (simp add: has_two_thirds_def times_checked_def)
  obtain q where q: "verify_commit zero_hash any_sig (cf_chain_id COSMOS_HUB) (plain_header 5 (cf_chain_id COSMOS_HUB)) (plain_commit 5) one_validator = Ok q"
    using plain_verified by blast
  have h: "ch_chain_id (plain_header 5 x) = x" "ch_app_hash (plain_header 5 x) = replicate 32 0" "ch_height (plain_header 5 x) = 5" for x
    by (simp_all add: plain_header_def)
  have cf: "cf_bridge_store_name COSMOS_HUB = BRIDGE_STORE_NAME" "cf_bridge_store_prefix COSMOS_HUB = BRIDGE_STORE_PREFIX"
    "cf_confirmation_depth COSMOS_HUB = 2" by (simp_all add: COSMOS_HUB_def chain_config_new_def)
  show ?thesis
    by (simp add: cosmos_trustless_deposit_def cosmos_deposit_core_def h cf anchor plain_extract claim tp cp tt trusting q plain_deposit_def)
qed

theorem cosmos_mint_backed_witness:
  "\<exists>r g' mint. cosmos_trustless_deposit zero_hash any_sig COSMOS_HUB plain_state (plain_header 5 (cf_chain_id COSMOS_HUB)) (plain_commit 5)
     one_validator plain_proof \<lparr>ts_seconds = 5, ts_nanos = 0\<rparr> = Ok r \<and>
   admit_cosmos_trustless sample_proof_corridor r (sample_claim\<lparr>bf_source_ref := replicate 32 0\<rparr>) sample_gateway = (g', Ok mint) \<and>
   ep_value plain_proof = encode_deposit_value (tm_recipient mint) (tm_asset_id mint) (tm_amount mint) \<and>
   supply_of g' (replicate 16 3) = supply_of sample_gateway (replicate 16 3) + 250000 \<and>
   \<not> is_ok (snd (admit_cosmos_trustless sample_proof_corridor r sample_claim g'))"
proof -
  let ?f = "sample_claim\<lparr>bf_source_ref := replicate 32 0\<rparr>"
  let ?mint = "cosmos_reported sample_proof_corridor plain_deposit"
  have len: "length (zero_hash x) = 32" for x by (simp add: zero_hash_def)
  have l: "length (vs_validators one_validator) \<le> usize_max" "length (vs_validators (tr_validators plain_state)) \<le> usize_max"
    by (simp_all add: one_validator_def plain_state_def)
  have "fact_claims sample_proof_corridor ?mint ?f"
    by (simp add: fact_claims_def cosmos_reported_def sample_proof_corridor_def sample_corridor_def
        mk_corridor_def sample_claim_def sample_fact_def plain_deposit_def)
  moreover have "precheck_trustless_fact ?f sample_gateway = Ok ()"
    by (simp add: precheck_trustless_fact_def precheck_trustless_def sample_claim_def sample_fact_def gateway_eval)
  ultimately obtain g' where adm: "admit_cosmos_trustless sample_proof_corridor plain_deposit ?f sample_gateway = (g', Ok ?mint)"
    using cosmos_mint.admit_Ok [OF sample_inv] by blast
  have "tm_amount ?mint = 250000" "tm_asset_id ?mint = replicate 16 3"
    by (simp_all add: cosmos_reported_def plain_deposit_def)
  moreover have "length (cf_bridge_store_name COSMOS_HUB) \<le> usize_max" "length (ep_key plain_proof) \<le> usize_max"
    by (simp_all add: COSMOS_HUB_def chain_config_new_def BRIDGE_STORE_NAME_def BRIDGE_STORE_PREFIX_def plain_proof_def ascii_def)
  ultimately
  have "ep_value plain_proof = encode_deposit_value (tm_recipient ?mint) (tm_asset_id ?mint) (tm_amount ?mint)"
    "supply_of g' (replicate 16 3) = supply_of sample_gateway (replicate 16 3) + 250000"
    "\<not> is_ok (snd (admit_cosmos_trustless sample_proof_corridor plain_deposit sample_claim g'))"
    using cosmos_mint_backed [OF sample_inv plain_core adm hub_small l(2,1) len] by auto
  with plain_core adm show ?thesis by blast
qed

end
