(* ===== verification/Spec2Isabelle.thy ===== *)
theory Spec2Isabelle
  imports Gateway_Properties Gateway_Orders Gateway_Time Guard_Codec Watchtower Aggregator Trustless_Mint Pools
    Exit_Desk_Properties Eth_Trie Eth_Deposit Eth_Keccak Cosmos_Deposit
begin

text \<open>
  \<^bold>\<open>Q-Oracle.\<close> Q-Oracle is a bridge. A deposit made on a source chain (Bitcoin, Ethereum, a Cosmos chain, or a chain
  that only operators watch) is credited as a wrapped asset on the destination chain, and a burn of the wrapped asset
  is paid out again on the source chain. This library models the crates that decide what is credited and what is
  paid, and proves what makes those decisions correct. All paths below are under \<^verbatim>\<open>src/crates\<close>.

  \<^bold>\<open>The parts and how they interact.\<close> A deposit becomes a \<^emph>\<open>bridge fact\<close>, whose canonical bytes are defined by
  \<^verbatim>\<open>q-codec\<close>. It reaches the gateway (\<^verbatim>\<open>q-gateway\<close>) on one of two ways. Operators sign the fact,
  \<^verbatim>\<open>q-attestor\<close> collects their signatures into an envelope, \<^verbatim>\<open>q-airlock\<close> and \<^verbatim>\<open>q-isolation\<close> are the only door
  through which the bytes of an envelope pass, and \<^verbatim>\<open>q-federated\<close> lets a signed deposit through when the signers
  watch independent nodes. Or a light client (\<^verbatim>\<open>qlc-bitcoin\<close>, \<^verbatim>\<open>qlc-ethereum\<close>, \<^verbatim>\<open>qlc-cosmos\<close>) proves the deposit, and
  \<^verbatim>\<open>q-federated/src/trustless.rs\<close> matches the proven deposit with the fact. The gateway applies its guard (replay,
  caps per asset and epoch, escrow, freezes, pauses) and keeps the supply and the queue of exits. \<^verbatim>\<open>q-watchtower\<close>
  audits reserves and reorganisations and pauses the gateway; \<^verbatim>\<open>q-assets\<close> and the pools of \<^verbatim>\<open>q-federated\<close> say
  which assets there are. \<^verbatim>\<open>q-exits\<close> pays burns out: a proven burn opens an exit and locks the collateral of a
  vault, a proven payout on Bitcoin settles it, and an overdue exit is slashed; a journal and a ledger
  of consumed references survive crashes.

  \<^bold>\<open>Which theory models what.\<close>
  \<^item> Shared: \<^verbatim>\<open>Prelude\<close> (results with errors and panics, checked and saturating arithmetic, byte encodings,
    collisions of a hash, the \<^theory_text>\<open>named_theorems\<close> collections), \<^verbatim>\<open>Ordered_Map\<close> (the \<open>BTreeMap\<close> and \<open>BTreeSet\<close> of
    the sources as sorted lists, behind two locales), \<^verbatim>\<open>Runs\<close> (sequences of calls, with locales for invariants, for
    atomic calls and for refinement).
  \<^item> \<^verbatim>\<open>Cursor\<close>, \<^verbatim>\<open>Codec\<close> (\<^verbatim>\<open>q-codec/src/lib.rs\<close>): the byte writer and reader, and the fact with its validation, encoding
    and decoding. The locale \<open>field_codec\<close> says when a reader parses exactly what a writer wrote.
  \<^item> \<^verbatim>\<open>Airlock\<close>, \<^verbatim>\<open>Isolation\<close> (\<^verbatim>\<open>q-airlock/src/lib.rs\<close>, \<^verbatim>\<open>q-isolation/src/lib.rs\<close>): the two artifact encodings, the parser
    and the door.
  \<^item> \<^verbatim>\<open>Operators\<close> (\<^verbatim>\<open>q-gateway/src/operators.rs\<close>): the operator set and the count of a quorum.
  \<^item> \<^verbatim>\<open>Gateway\<close> (\<^verbatim>\<open>q-gateway/src/gateway.rs\<close>): the state record and every call that changes it. \<^verbatim>\<open>Gateway_Calls\<close>
    gathers the calls that serve requests and orders in one datatype; \<^verbatim>\<open>Gateway_Safety\<close> holds the invariant and that
    every call refines the abstract ledger of \<^verbatim>\<open>Bridge_Ledger\<close>; \<^verbatim>\<open>Gateway_Properties\<close>, \<^verbatim>\<open>Gateway_Orders\<close>, \<^verbatim>\<open>Gateway_Time\<close>
    hold the properties of runs, of single deposits and signed orders, and of delays, freezes and epochs.
  \<^item> \<^verbatim>\<open>Guard_Codec\<close> (the snapshot functions of \<^verbatim>\<open>gateway.rs\<close>): the snapshot of the guard, its restoration, and
    \<open>node_runs\<close>: calls that are kept, refused, or undone by restoring the snapshot taken before them.
  \<^item> \<^verbatim>\<open>Watchtower\<close> (\<^verbatim>\<open>q-watchtower/src\<close>), \<^verbatim>\<open>Aggregator\<close> (\<^verbatim>\<open>q-attestor/src/aggregator.rs\<close>), \<^verbatim>\<open>Assets\<close>
    (\<^verbatim>\<open>q-assets/src\<close>), \<^verbatim>\<open>Pools\<close>, \<^verbatim>\<open>Federated\<close>, \<^verbatim>\<open>Trustless_Mint\<close> (\<^verbatim>\<open>pools.rs\<close>; \<^verbatim>\<open>corridors.rs\<close>, \<^verbatim>\<open>sources.rs\<close>, \<^verbatim>\<open>admission.rs\<close>;
    \<^verbatim>\<open>trustless.rs\<close> of \<^verbatim>\<open>q-federated/src\<close>). \<open>Trustless_Mint\<close> has the contract \<open>proof_corridor\<close> of a light
    client, interpreted for all three of them.
  \<^item> \<^verbatim>\<open>Btc_Hash\<close>, \<^verbatim>\<open>Btc_Work\<close>, \<^verbatim>\<open>Btc_Target\<close>, \<^verbatim>\<open>Btc_Header\<close>, \<^verbatim>\<open>Btc_Chain\<close>, \<^verbatim>\<open>Btc_Tx\<close>, \<^verbatim>\<open>Btc_Deposit\<close> (\<^verbatim>\<open>qlc-bitcoin/src\<close>):
    SHA-256, 256-bit arithmetic on four 64-bit limbs, compact targets and the retarget rule, headers and Merkle
    branches, runs of headers, transactions, and the deposit verifier that composes them.
  \<^item> \<^verbatim>\<open>Eth_Rlp\<close>, \<^verbatim>\<open>Eth_Mpt\<close>, \<^verbatim>\<open>Eth_Trie\<close>, \<^verbatim>\<open>Eth_Receipt\<close>, \<^verbatim>\<open>Eth_Keccak\<close>, \<^verbatim>\<open>Eth_Beacon\<close>, \<^verbatim>\<open>Eth_Engine\<close>, \<^verbatim>\<open>Eth_Light\<close>, \<^verbatim>\<open>Eth_Deposit\<close>
    (\<^verbatim>\<open>qlc-ethereum/src\<close>): the RLP codec, the trie verifier and builder, receipts, Keccak-256, SSZ roots with
    beacon headers and chain parameters, the light client's store with its updates, the store as a state machine, and
    proven deposits.
  \<^item> \<^verbatim>\<open>Cosmos_Merkle\<close>, \<^verbatim>\<open>Cosmos_Votes\<close>, \<^verbatim>\<open>Cosmos_Commit\<close>, \<^verbatim>\<open>Cosmos_Light\<close>, \<^verbatim>\<open>Cosmos_Deposit\<close> (\<^verbatim>\<open>qlc-cosmos/src\<close>): Merkle
    trees, the encodings of votes and headers, validator sets and commits, the steps of the trusted state, and
    existence proofs and deposits. \<open>Cosmos_Deposit\<close> also specifies the IAVL tree of a store, which the sources only
    verify proofs of.
  \<^item> \<^verbatim>\<open>Exit_Store\<close>, \<^verbatim>\<open>Exit_Journal\<close>, \<^verbatim>\<open>Exit_Ledger\<close>, \<^verbatim>\<open>Exit_Vault\<close>, \<^verbatim>\<open>Exit_Payout\<close>, \<^verbatim>\<open>Exit_Outbound\<close>, \<^verbatim>\<open>Exit_Burn\<close>, \<^verbatim>\<open>Exit_Desk\<close>
    (\<^verbatim>\<open>q-exits/src\<close>): the file of records with its failures, the journal, the ledger of references, the vaults,
    payout proofs, acknowledgements, burn proofs and the desk; \<^verbatim>\<open>Exit_Desk_Safety\<close>, \<^verbatim>\<open>Exit_Desk_Runs\<close>, \<^verbatim>\<open>Exit_Desk_Properties\<close>
    hold the desk's invariant, its runs and its properties.

  \<^bold>\<open>What the lemmas show.\<close> For the gateway: conservation of supply along every run of calls, crediting and
  settling at most once, refinement of the abstract ledger also when calls are undone, atomicity of refused
  calls, the exact condition of a credit, no movement while halted, no replay of orders, the end of freezes, and
  that a restart from a snapshot keeps the guard. For the codecs: round trips and canonicity in both directions,
  without panics. For the light clients: exactness of the verifiers against declarative
  conditions (runs of headers, commits, steps of the trusted state), the hand-over of sync committees from the
  checkpoint, soundness of each kind of Merkle proof against the tree it is about, and for each client a theorem that
  a mint is backed by a deposit on the chain. For the hashes: equality with the standards. For the exit desk:
  collateral is kept, an exit closes once and justly, the journal is durable, and a restart rebuilds the desk; the
  exception is the seized reserve, in which a restart restores what was withdrawn, since withdrawals are not journaled.

  \<^bold>\<open>Parameters.\<close> Code outside the repository is an argument of the definitions that call it: ML-DSA (\<open>md\<close>), the
  aggregate BLS verifier (\<open>bls\<close>), the tag function of the state files (\<open>mac\<close>), SHA3 and SHAKE-256 (\<open>sha3\<close>,
  \<open>shake\<close>), blocks, certificates and committees of the destination chain (\<open>qtv\<close>, \<open>qtv_codec\<close>), the
  statements of the prover crate (\<open>stark_lib\<close>, \<open>lib\<close>, \<open>tendermint\<close>), and the outcomes of file operations. The Ed25519 check of the
  Cosmos client is the argument \<open>ver\<close>. The digests are arguments too (\<open>dsha\<close>, \<open>sha\<close>, \<open>kec\<close>), so that the statements hold
  for the code's own, \<open>double_sha256\<close>, \<open>sha256\<close> and \<open>keccak256\<close>, and the examples compute with small ones; of a digest it
  is assumed at most that it has 32 bytes. No theorem assumes collision freedom: where a hash binds, the statement names
  the strings on which it would have to collide. \<open>tu\<close> says whether the
  feature \<^verbatim>\<open>test-util\<close> is on. The lists of pinned Ethereum block roots, Bitcoin checkpoints and Cosmos trusted states
  ship empty, and so they are in the model: \<open>bootstrap\<close> without \<open>tu\<close> refuses every root, and a Bitcoin network that
  requires a pinned checkpoint refuses every deposit, until anchors are added.

  \<^bold>\<open>Loops, bounds and widths.\<close> Every function of the model is total, and there is no fuel: loops over inputs are
  structural or have a termination proof (the RLP decoder, the walk through a trie), and counted loops carry the
  count of the source. Integers keep their width: words of 8 to 128 bits with wrapping, checked or saturating
  operations as in the sources; where the build profile panics on overflow, the model has the result \<open>Panic\<close>, and the
  theorems say when it cannot occur. A \<open>usize\<close> is a natural number with its 64-bit bound written out.

  \<^bold>\<open>Not modelled.\<close> Ed25519 with its field, scalars and SHA-512; the BLS wrapper; the prover bridge; the
  dispatch of requests in \<^verbatim>\<open>q-qbridge\<close> and the node \<^verbatim>\<open>q-runtime\<close> with HTTP, JSON, configuration and threads; the exit feed,
  remote procedure calls and watch loops of \<^verbatim>\<open>q-exits\<close> and \<^verbatim>\<open>q-federated\<close>; the operator, signer, translator and
  watcher of \<^verbatim>\<open>q-attestor\<close>; signing, which draws random bytes; plain getters and the display text of errors.
\<close>

end
